(* ===== verification/Prelude.thy ===== *)
theory Prelude
  imports Main "HOL-Library.Word" "HOL-Library.List_Lexorder"
begin

text \<open>
  What every component of the development shares: the machine integer types of the C++ sources,
  the ways an operation can fail, byte strings with the order of \<open>std::string_view::compare\<close>, bits of
  a word most significant first, and the little-endian byte images of integers that
  \<open>memcpy\<close> and \<open>reinterpret_cast\<close> give on x86-64.
\<close>

unbundle bit_operations_syntax

section \<open>Machine integers\<close>

type_synonym u8 = "8 word"
type_synonym u16 = "16 word"
type_synonym u32 = "32 word"
type_synonym u64 = "64 word"

type_synonym bytes = "u8 list"

section \<open>Failures\<close>

text \<open>
  An operation of the sources ends in one of three ways besides returning: an \<open>assert\<close> does
  not hold (the process aborts where assertions are compiled in), the operation is undefined
  behaviour of C++ (an access past the end of a vector, say), or an exception is thrown. The
  string of \<open>Thrown\<close> is the name of the exception class. \<open>Blocked\<close> is a wait that nobody ends, \<open>Out_Of_Fuel\<close> the value of a loop or
  recursion of the model that was given too few steps: the code would still be running.
\<close>

datatype fault = Assertion | Undefined | Thrown string | Out_Of_Fuel | Blocked

type_synonym 'a res = "fault + 'a"

definition res_bind :: "'a res \<Rightarrow> ('a \<Rightarrow> 'b res) \<Rightarrow> 'b res" where
  "res_bind r f = (case r of Inl e \<Rightarrow> Inl e | Inr x \<Rightarrow> f x)"

definition res_assert :: "bool \<Rightarrow> 'a res \<Rightarrow> 'a res" where
  "res_assert b r = (if b then r else Inl Assertion)"

named_theorems res_simps \<open>evaluation of results\<close>

lemma res_bind_Inl [simp, res_simps]: "res_bind (Inl e) f = Inl e"
  by (simp add: res_bind_def)

lemma res_bind_Inr [simp, res_simps]: "res_bind (Inr x) f = f x"
  by (simp add: res_bind_def)

lemma res_assert_True [simp, res_simps]: "res_assert True r = r"
  by (simp add: res_assert_def)

lemma res_assert_False [simp, res_simps]: "res_assert False r = Inl Assertion"
  by (simp add: res_assert_def)

lemma res_bind_eq_Inr:
  "res_bind r f = Inr y \<longleftrightarrow> (\<exists>x. r = Inr x \<and> f x = Inr y)"
  by (cases r) simp_all

lemma res_assert_eq_Inr: "res_assert b r = Inr y \<longleftrightarrow> b \<and> r = Inr y"
  by (simp add: res_assert_def)

lemma res_bind_assoc: "res_bind (res_bind r f) g = res_bind r (\<lambda>x. res_bind (f x) g)"
  by (cases r) simp_all

lemma res_bind_cong [fundef_cong]:
  "r = r' \<Longrightarrow> (\<And>x. r' = Inr x \<Longrightarrow> f x = f' x) \<Longrightarrow> res_bind r f = res_bind r' f'"
  by (cases r') simp_all

lemma res_assert_cong [fundef_cong]:
  "b = b' \<Longrightarrow> (b' \<Longrightarrow> r = r') \<Longrightarrow> res_assert b r = res_assert b' r'"
  by (cases b') simp_all

section \<open>Byte strings\<close>

text \<open>
  \<open>std::string_view::compare\<close>: \<open>memcmp\<close> of the common prefix (bytes unsigned), then the
  lengths. On byte lists it is the lexicographic order of \<open>List_Lexorder\<close>.
\<close>

definition sv_compare :: "bytes \<Rightarrow> bytes \<Rightarrow> int" where
  "sv_compare a b = (if a = b then 0 else if a < b then - 1 else 1)"

lemma sv_compare_eq_0 [simp]: "sv_compare a b = 0 \<longleftrightarrow> a = b"
  by (simp add: sv_compare_def)

lemma sv_compare_less_0 [simp]: "sv_compare a b < 0 \<longleftrightarrow> a < b"
  by (auto simp: sv_compare_def)

lemma sv_compare_le_0 [simp]: "sv_compare a b \<le> 0 \<longleftrightarrow> a \<le> b"
  by (auto simp: sv_compare_def)

lemma sv_compare_gr_0 [simp]: "0 < sv_compare a b \<longleftrightarrow> b < a"
  by (auto simp: sv_compare_def)

section \<open>The bits of a word, most significant first\<close>

definition bits_of :: "nat \<Rightarrow> u64 \<Rightarrow> bool list" where
  "bits_of n v = map (\<lambda>i. bit v (n - Suc i)) [0..<n]"

fun of_bits :: "bool list \<Rightarrow> u64" where
  "of_bits [] = 0"
| "of_bits (b # bs) = push_bit (length bs) (of_bool b) OR of_bits bs"

lemma length_bits_of [simp]: "length (bits_of n v) = n"
  by (simp add: bits_of_def)

lemma bits_of_0 [simp]: "bits_of 0 v = []"
  by (simp add: bits_of_def)

lemma nth_bits_of [simp]: "i < n \<Longrightarrow> bits_of n v ! i = bit v (n - Suc i)"
  by (simp add: bits_of_def)

lemma bits_of_split:
  assumes "p \<le> n"
  shows "bits_of n v = bits_of p (drop_bit (n - p) v) @ bits_of (n - p) v"
proof (rule nth_equalityI)
  show "length (bits_of n v) = length (bits_of p (drop_bit (n - p) v) @ bits_of (n - p) v)"
    using assms by simp
next
  fix i
  assume i: "i < length (bits_of n v)"
  show "bits_of n v ! i = (bits_of p (drop_bit (n - p) v) @ bits_of (n - p) v) ! i"
  proof (cases "i < p")
    case True
    then have "n - p + (p - Suc i) = n - Suc i"
      using assms by simp
    with True i show ?thesis
      by (simp add: nth_append bit_drop_bit_eq)
  next
    case False
    then show ?thesis
      using assms i by (simp add: nth_append)
  qed
qed

lemma bits_of_take_bit: "bits_of n (take_bit n v) = bits_of n v"
  by (rule nth_equalityI) (auto simp: bit_simps)

lemma bits_of_eq_take_bit:
  assumes "bits_of n v = bits_of n w"
  shows "take_bit n v = take_bit n w"
proof (rule bit_word_eqI)
  fix i
  show "bit (take_bit n v) i = bit (take_bit n w) i"
  proof (cases "i < n")
    case True
    then have "bits_of n v ! (n - Suc i) = bits_of n w ! (n - Suc i)"
      using assms by simp
    with True show ?thesis by (simp add: bit_simps)
  next
    case False
    then show ?thesis by (simp add: bit_simps)
  qed
qed

lemma bit_of_bits:
  "length bs \<le> 64 \<Longrightarrow> bit (of_bits bs) i = (i < length bs \<and> bs ! (length bs - Suc i))"
proof (induction bs arbitrary: i)
  case Nil
  then show ?case by simp
next
  case (Cons b bs)
  then have IH: "bit (of_bits bs) i = (i < length bs \<and> bs ! (length bs - Suc i))"
    by simp
  consider "i < length bs" | "i = length bs" | "length bs < i" by linarith
  then show ?case
  proof cases
    case 1
    then have "length bs - i = Suc (length bs - Suc i)" by simp
    with 1 IH show ?thesis by (simp add: bit_simps)
  next
    case 2
    with IH Cons.prems show ?thesis by (simp add: bit_simps)
  next
    case 3
    with IH show ?thesis by (simp add: bit_simps)
  qed
qed

lemma of_bits_bits_of:
  assumes "n \<le> 64"
  shows "of_bits (bits_of n v) = take_bit n v"
  by (rule bit_word_eqI) (use assms in \<open>auto simp: bit_of_bits bit_simps\<close>)

section \<open>Little-endian images of integers\<close>

text \<open>\<open>le_bytes n x\<close> is the memory image of the \<open>n\<close>-byte integer \<open>x\<close>.\<close>

definition le_bytes :: "nat \<Rightarrow> 'a::len word \<Rightarrow> bytes" where
  "le_bytes n x = map (\<lambda>i. ucast (drop_bit (8 * i) x)) [0..<n]"

fun le_word :: "bytes \<Rightarrow> 'a::len word" where
  "le_word [] = 0"
| "le_word (b # bs) = ucast b OR push_bit 8 (le_word bs)"

lemma length_le_bytes [simp]: "length (le_bytes n x) = n"
  by (simp add: le_bytes_def)

lemma le_bytes_Suc: "le_bytes (Suc n) x = ucast x # le_bytes n (drop_bit 8 x)"
proof -
  have "map (\<lambda>i. ucast (drop_bit (8 * i) x) :: u8) [0..<Suc n]
      = ucast x # map (\<lambda>i. ucast (drop_bit (8 * Suc i) x)) [0..<n]"
    by (simp add: upt_conv_Cons map_Suc_upt [symmetric] del: upt_Suc)
  then show ?thesis
    by (simp add: le_bytes_def add.commute)
qed

lemma le_word_le_bytes: "le_word (le_bytes n x) = take_bit (8 * n) (x :: 'a::len word)"
proof (induction n arbitrary: x)
  case 0
  then show ?case by (simp add: le_bytes_def)
next
  case (Suc n)
  show ?case
  proof (rule bit_word_eqI)
    fix i
    assume "i < LENGTH('a)"
    then show "bit (le_word (le_bytes (Suc n) x) :: 'a word) i = bit (take_bit (8 * Suc n) x) i"
      by (cases "i < 8") (auto simp: le_bytes_Suc Suc.IH bit_simps not_less)
  qed
qed

lemma le_word_le_bytes_full:
  "LENGTH('a::len) \<le> 8 * n \<Longrightarrow> le_word (le_bytes n x) = (x :: 'a word)"
  by (simp add: le_word_le_bytes take_bit_word_eq_self)

section \<open>Conversions\<close>

lemma unat_ucast_up:
  assumes "LENGTH('a::len) \<le> LENGTH('b::len)"
  shows "unat (ucast (x :: 'a word) :: 'b word) = unat x"
proof -
  have "unat x < 2 ^ LENGTH('a)" by (rule unsigned_less)
  also have "(2 :: nat) ^ LENGTH('a) \<le> 2 ^ LENGTH('b)" using assms by simp
  finally show ?thesis by (simp add: unsigned_ucast_eq take_bit_nat_eq_self)
qed

lemma unat_word_of_nat: "n < 2 ^ LENGTH('a::len) \<Longrightarrow> unat (of_nat n :: 'a word) = n"
  by (simp add: unat_of_nat)

section \<open>Memory\<close>

text \<open>Reading and overwriting the bytes of a buffer at a position.\<close>

definition peek :: "bytes \<Rightarrow> nat \<Rightarrow> nat \<Rightarrow> bytes" where
  "peek d off n = take n (drop off d)"

definition poke :: "bytes \<Rightarrow> nat \<Rightarrow> bytes \<Rightarrow> bytes" where
  "poke d off bs = take off d @ bs @ drop (off + length bs) d"

lemma length_poke [simp]: "off + length bs \<le> length d \<Longrightarrow> length (poke d off bs) = length d"
  by (simp add: poke_def)

lemma peek_poke_same: "off + length bs \<le> length d \<Longrightarrow> peek (poke d off bs) off (length bs) = bs"
  by (simp add: peek_def poke_def)

lemma peek_poke_other:
  assumes "off + length bs \<le> length d" "a + n \<le> off \<or> off + length bs \<le> a"
  shows "peek (poke d off bs) a n = peek d a n"
  using assms(2)
proof
  assume "a + n \<le> off"
  then show ?thesis using assms(1) by (simp add: peek_def poke_def take_drop)
next
  assume "off + length bs \<le> a"
  then show ?thesis
    using assms(1) by (simp add: peek_def poke_def)
qed

lemma peek_split: "peek d a (m + n) = peek d a m @ peek d (a + m) n"
  by (simp add: peek_def take_add add.commute)

lemma nth_poke:
  "off + length bs \<le> length d \<Longrightarrow> i < length d \<Longrightarrow>
    poke d off bs ! i = (if off \<le> i \<and> i < off + length bs then bs ! (i - off) else d ! i)"
  by (auto simp: poke_def nth_append min_def)

end
