(* ===== verification/Bit_IO.thy ===== *)
theory Bit_IO
  imports Prelude
begin

text \<open>
  The bit stream of \<open>common/bit_writer.h\<close> and \<open>common/bit_reader.h\<close>: values of 1 to 64 bits packed
  most significant bit first into 64-bit words. The writer hands full words to
  \<open>m_writer->write\<close>, kept here as the list \<open>bw_words\<close> of the words handed over so far; the reader
  takes its words from \<open>m_reader->read\<close>, kept as the list \<open>br_words\<close> of the words still to come
  (reading past the last one throws the buffered reader's \<open>error\<close>).
  \<open>bw_stream\<close> and \<open>br_stream\<close> read the two states as plain lists of bits, and every operation is
  shown to be the obvious list operation on them.
\<close>

section \<open>bit_writer\<close>

record bit_writer =
  bw_words :: "u64 list"
  bw_bits :: u64
  bw_offset :: u8

definition bit_writer_init :: bit_writer where
  "bit_writer_init = \<lparr>bw_words = [], bw_bits = 0, bw_offset = 0\<rparr>"

definition bw_flush :: "bit_writer \<Rightarrow> bit_writer" where
  "bw_flush w =
     (if bw_offset w = 0 then w
      else w\<lparr>bw_words := bw_words w @ [bw_bits w], bw_bits := 0, bw_offset := 0\<rparr>)"

text \<open>
  One round of the loop of \<open>bit_writer::write\<close>. The subtraction \<open>64 - m_offset\<close> is cast to
  \<open>uint8_t\<close>, as in the source, so a round always consumes at least one bit.
\<close>

definition bw_part :: "u8 \<Rightarrow> bit_writer \<Rightarrow> u8" where
  "bw_part bits w = min (64 - bw_offset w) bits"

definition bw_round :: "u64 \<Rightarrow> u8 \<Rightarrow> bit_writer \<Rightarrow> bit_writer" where
  "bw_round val bits w =
     (let part = bw_part bits w;
          v = drop_bit (unat (bits - part)) val;
          v' = (if part \<noteq> 64 then v AND (push_bit (unat part) 1 - 1) else v)
      in w\<lparr>bw_bits := bw_bits w OR push_bit (64 - (unat (bw_offset w) + unat part)) v',
           bw_offset := bw_offset w + part\<rparr>)"

definition bw_prepare :: "bit_writer \<Rightarrow> bit_writer" where
  "bw_prepare w = (if bw_offset w = 64 then bw_flush w else w)"

lemma bw_prepare_offset: "bw_offset (bw_prepare w) \<noteq> 64"
  by (simp add: bw_prepare_def bw_flush_def)

lemma bw_part_less:
  assumes "bits \<noteq> 0" "bw_offset w \<noteq> 64"
  shows "unat (bits - bw_part bits w) < unat bits"
proof -
  have "0 < bw_part bits w"
    using assms by (simp add: bw_part_def min_def word_neq_0_conv [symmetric])
  moreover have "bw_part bits w \<le> bits"
    by (simp add: bw_part_def)
  ultimately show ?thesis
    by (simp add: unat_sub word_le_nat_alt word_less_nat_alt)
qed

function bw_loop :: "u64 \<Rightarrow> u8 \<Rightarrow> bit_writer \<Rightarrow> bit_writer" where
  "bw_loop val bits w =
     (if bits = 0 then w
      else bw_loop val (bits - bw_part bits (bw_prepare w)) (bw_round val bits (bw_prepare w)))"
  by pat_completeness auto
termination
  by (relation "measure (\<lambda>(_, bits, _). unat bits)") (simp_all add: bw_part_less bw_prepare_offset)

declare bw_loop.simps [simp del]

definition bw_write :: "u64 \<Rightarrow> u8 \<Rightarrow> bit_writer \<Rightarrow> bit_writer res" where
  "bw_write val bits w = res_assert (bits \<le> 64) (Inr (bw_loop val bits w))"

section \<open>bit_reader\<close>

record bit_reader =
  br_words :: "u64 list"
  br_bits :: u64
  br_offset :: u8

definition bit_reader_init :: "u64 list \<Rightarrow> bit_reader" where
  "bit_reader_init ws = \<lparr>br_words = ws, br_bits = 0, br_offset = 64\<rparr>"

definition br_load :: "bit_reader \<Rightarrow> bit_reader res" where
  "br_load r =
     (case br_words r of
        [] \<Rightarrow> Inl (Thrown ''error'')
      | x # xs \<Rightarrow> Inr (r\<lparr>br_words := xs, br_bits := x, br_offset := 0\<rparr>))"

definition br_prepare :: "bit_reader \<Rightarrow> bit_reader res" where
  "br_prepare r = (if br_offset r = 64 then br_load r else Inr r)"

definition br_part :: "u8 \<Rightarrow> bit_reader \<Rightarrow> u8" where
  "br_part bits r = min (64 - br_offset r) bits"

definition br_value :: "u64 \<Rightarrow> u8 \<Rightarrow> bit_reader \<Rightarrow> u64" where
  "br_value val bits r =
     (let part = br_part bits r;
          v = drop_bit (64 - (unat (br_offset r) + unat part)) (br_bits r);
          v' = (if part \<noteq> 64 then v AND (push_bit (unat part) 1 - 1) else v)
      in val OR push_bit (unat (bits - part)) v')"

definition br_advance :: "u8 \<Rightarrow> bit_reader \<Rightarrow> bit_reader" where
  "br_advance bits r = r\<lparr>br_offset := br_offset r + br_part bits r\<rparr>"

lemma br_prepare_offset: "br_prepare r = Inr r' \<Longrightarrow> br_offset r' \<noteq> 64"
  by (auto simp: br_prepare_def br_load_def split: if_splits list.splits)

lemma br_part_less:
  assumes "bits \<noteq> 0" "br_offset r \<noteq> 64"
  shows "unat (bits - br_part bits r) < unat bits"
proof -
  have "0 < br_part bits r"
    using assms by (simp add: br_part_def min_def word_neq_0_conv [symmetric])
  moreover have "br_part bits r \<le> bits"
    by (simp add: br_part_def)
  ultimately show ?thesis
    by (simp add: unat_sub word_le_nat_alt word_less_nat_alt)
qed

function br_loop :: "u64 \<Rightarrow> u8 \<Rightarrow> bit_reader \<Rightarrow> (u64 \<times> bit_reader) res" where
  "br_loop val bits r =
     (if bits = 0 then Inr (val, r)
      else case br_prepare r of
        Inl e \<Rightarrow> Inl e
      | Inr r' \<Rightarrow>
          br_loop (br_value val bits r') (bits - br_part bits r') (br_advance bits r'))"
  by pat_completeness auto
termination
  by (relation "measure (\<lambda>(_, bits, _). unat bits)")
    (simp_all add: br_part_less br_prepare_offset)

declare br_loop.simps [simp del]

text \<open>\<open>uint64_t read(uint8_t bits)\<close> and the one-bit \<open>uint64_t read()\<close>.\<close>

definition br_read :: "u8 \<Rightarrow> bit_reader \<Rightarrow> (u64 \<times> bit_reader) res" where
  "br_read bits r = res_assert (bits \<le> 64) (br_loop 0 bits r)"

definition br_read_bit :: "bit_reader \<Rightarrow> (u64 \<times> bit_reader) res" where
  "br_read_bit r =
     (case br_prepare r of
        Inl e \<Rightarrow> Inl e
      | Inr r' \<Rightarrow> Inr (drop_bit (63 - unat (br_offset r')) (br_bits r') AND 1,
                       r'\<lparr>br_offset := br_offset r' + 1\<rparr>))"

section \<open>The two states as bit lists\<close>

definition bw_stream :: "bit_writer \<Rightarrow> bool list" where
  "bw_stream w =
     concat (map (bits_of 64) (bw_words w)) @ take (unat (bw_offset w)) (bits_of 64 (bw_bits w))"

text \<open>The offset stays within the word and the bits not yet written are zero.\<close>

definition bw_inv :: "bit_writer \<Rightarrow> bool" where
  "bw_inv w \<longleftrightarrow> unat (bw_offset w) \<le> 64
     \<and> (\<forall>i < 64 - unat (bw_offset w). \<not> bit (bw_bits w) i)"

definition br_stream :: "bit_reader \<Rightarrow> bool list" where
  "br_stream r =
     drop (unat (br_offset r)) (bits_of 64 (br_bits r)) @ concat (map (bits_of 64) (br_words r))"

definition br_inv :: "bit_reader \<Rightarrow> bool" where
  "br_inv r \<longleftrightarrow> unat (br_offset r) \<le> 64"

section \<open>Writing\<close>

lemma mask_word: "v AND (push_bit n 1 - 1) = take_bit n (v :: u64)"
  by (simp add: take_bit_eq_mask mask_eq_exp_minus_1)

lemmas mask_word' = mask_word [unfolded push_bit_of_1]

lemma unat_64_minus: "unat x \<le> 64 \<Longrightarrow> unat (64 - x :: u8) = 64 - unat x"
  by (subst unat_sub) (simp_all add: word_le_nat_alt)

lemma unat_min: "unat (min x y) = min (unat x) (unat y)"
  by (simp add: min_def word_le_nat_alt)

lemma unat_part:
  assumes "unat off \<le> 64"
  shows "unat (min (64 - off) (bits :: u8)) = min (64 - unat off) (unat bits)"
  using assms by (simp add: unat_min unat_64_minus)

lemma unat_rest:
  "unat (bits - min x bits :: u8) = unat bits - unat (min x bits)"
  by (subst unat_sub) simp_all

lemma unat_offset_plus:
  assumes "unat off \<le> 64"
  shows "unat (off + min (64 - off) (bits :: u8)) = unat off + min (64 - unat off) (unat bits)"
proof -
  have "unat off + unat (min (64 - off) bits) < 2 ^ LENGTH(8)"
    using assms by (simp add: unat_part)
  then show ?thesis
    using assms by (simp add: unat_part unat_add_lem [THEN iffD1])
qed

lemma take_bits_of_OR:
  assumes "\<forall>i < 64 - o'. \<not> bit B i" and "o' + p \<le> 64"
  shows "take (o' + p) (bits_of 64 (B OR push_bit (64 - (o' + p)) (take_bit p v)))
       = take o' (bits_of 64 B) @ bits_of p v" (is "?l = ?r")
proof (rule nth_equalityI)
  show "length ?l = length ?r" using assms by simp
next
  fix i
  assume "i < length ?l"
  then have i: "i < o' + p" "i < 64" using assms by simp_all
  show "?l ! i = ?r ! i"
  proof (cases "i < o'")
    case True
    then show ?thesis using assms i by (auto simp: nth_append bit_simps)
  next
    case False
    with i assms have "\<not> bit B (63 - i)" by simp
    moreover have "63 - i - (64 - (o' + p)) = p - Suc (i - o')" using False i assms by simp
    ultimately show ?thesis using False assms i by (auto simp: nth_append bit_simps)
  qed
qed

lemma bw_round_offset:
  "bw_inv w \<Longrightarrow> unat (bw_offset (bw_round val bits w))
     = unat (bw_offset w) + min (64 - unat (bw_offset w)) (unat bits)"
  by (simp add: bw_round_def bw_part_def bw_inv_def unat_offset_plus Let_def)

lemma bw_round_bits:
  assumes "bw_inv w" and p_def: "p = min (64 - unat (bw_offset w)) (unat bits)"
  shows "bw_bits (bw_round val bits w)
    = bw_bits w OR push_bit (64 - (unat (bw_offset w) + p))
        (take_bit p (drop_bit (unat bits - p) val))"
proof -
  have p: "unat (bw_part bits w) = p"
    using assms by (simp add: bw_part_def bw_inv_def unat_part)
  have r: "unat (bits - bw_part bits w) = unat bits - p"
    using p by (simp add: bw_part_def unat_rest)
  have "bw_part bits w = 64 \<longleftrightarrow> p = 64"
    using p by (auto simp: word_unat_eq_iff)
  then show ?thesis
    using p r by (auto simp: bw_round_def Let_def mask_word' take_bit_word_eq_self)
qed

lemma bw_round_stream:
  assumes "bw_inv w" and p_def: "p = min (64 - unat (bw_offset w)) (unat bits)"
  shows "bw_stream (bw_round val bits w)
    = bw_stream w @ bits_of p (drop_bit (unat bits - p) val)"
proof -
  have "bw_words (bw_round val bits w) = bw_words w"
    by (simp add: bw_round_def Let_def)
  moreover have "unat (bw_offset w) + p \<le> 64" "\<forall>i < 64 - unat (bw_offset w). \<not> bit (bw_bits w) i"
    using assms by (auto simp: bw_inv_def)
  ultimately show ?thesis
    using assms by (simp add: bw_stream_def bw_round_offset bw_round_bits [OF assms] take_bits_of_OR)
qed

lemma bw_round_inv:
  assumes "bw_inv w"
  shows "bw_inv (bw_round val bits w)"
  using assms
  by (auto simp: bw_inv_def [of "bw_round val bits w"] bw_round_offset bw_round_bits [OF _ refl] bit_simps)
    (auto simp: bw_inv_def)

lemma bw_flush_inv: "bw_inv w \<Longrightarrow> bw_inv (bw_flush w)"
  by (auto simp: bw_inv_def bw_flush_def)

lemma bw_prepare_inv: "bw_inv w \<Longrightarrow> bw_inv (bw_prepare w)"
  by (simp add: bw_prepare_def bw_flush_inv)

lemma bw_prepare_stream: "bw_stream (bw_prepare w) = bw_stream w"
  by (simp add: bw_prepare_def bw_flush_def bw_stream_def)

lemma bw_loop_stream:
  "bw_inv w \<Longrightarrow> bw_stream (bw_loop val bits w) = bw_stream w @ bits_of (unat bits) val
     \<and> bw_inv (bw_loop val bits w)"
proof (induction val bits w rule: bw_loop.induct)
  case (1 val bits w)
  show ?case
  proof (cases "bits = 0")
    case True
    with "1.prems" show ?thesis by (simp add: bw_loop.simps [of val 0 w])
  next
    case False
    let ?w = "bw_prepare w"
    let ?p = "min (64 - unat (bw_offset ?w)) (unat bits)"
    have inv: "bw_inv ?w" using "1.prems" by (rule bw_prepare_inv)
    have r: "unat (bits - bw_part bits ?w) = unat bits - ?p"
      using inv by (simp add: bw_part_def unat_rest unat_part bw_inv_def)
    have "bits_of (unat bits) val
      = bits_of ?p (drop_bit (unat bits - ?p) val) @ bits_of (unat bits - ?p) val"
      by (rule bits_of_split) simp
    with "1.IH" [OF False bw_round_inv [OF inv]] False r
    show ?thesis
      by (simp add: bw_loop.simps [of val bits w] bw_round_stream [OF inv refl] bw_prepare_stream)
  qed
qed

lemma bw_write_Inr:
  assumes "bw_inv w" "unat bits \<le> 64"
  obtains w' where "bw_write val bits w = Inr w'" "bw_inv w'"
    "bw_stream w' = bw_stream w @ bits_of (unat bits) val"
  using bw_loop_stream [OF assms(1), of val bits] assms(2)
  by (simp add: bw_write_def word_le_nat_alt)

section \<open>Reading\<close>

lemma br_load_stream:
  assumes "br_offset r = 64" "br_load r = Inr r'"
  shows "br_stream r' = br_stream r"
  using assms by (auto simp: br_load_def br_stream_def split: list.splits)

lemma br_prepare_Inr:
  assumes "br_inv r" "br_stream r \<noteq> []"
  obtains r' where "br_prepare r = Inr r'" "br_inv r'" "br_stream r' = br_stream r"
    "unat (br_offset r') < 64"
proof (cases "br_offset r = 64")
  case True
  with assms(2) obtain x xs where "br_words r = x # xs"
    by (cases "br_words r") (auto simp: br_stream_def)
  with True show ?thesis
    by (intro that) (auto simp: br_prepare_def br_load_def br_inv_def br_stream_def)
next
  case False
  with assms(1) have "unat (br_offset r) < 64"
    by (auto simp: br_inv_def word_unat_eq_iff)
  with False assms(1) show ?thesis
    by (intro that) (auto simp: br_prepare_def)
qed

lemma br_prepare_empty:
  assumes "br_inv r" "br_stream r = []"
  shows "br_prepare r = Inl (Thrown ''error'')"
proof -
  have "unat (br_offset r) = 64" "concat (map (bits_of 64) (br_words r)) = []"
    using assms by (auto simp: br_stream_def br_inv_def)
  moreover from this(2) have "br_words r = []"
    by (cases "br_words r") (auto simp flip: length_0_conv)
  ultimately show ?thesis by (auto simp: br_prepare_def br_load_def word_unat_eq_iff)
qed

lemma drop_bits_of_64:
  assumes "o' + p \<le> 64"
  shows "drop o' (bits_of 64 B) = bits_of p (drop_bit (64 - (o' + p)) B) @ drop (o' + p) (bits_of 64 B)"
    (is "?l = ?r")
proof (rule nth_equalityI)
  show "length ?l = length ?r" using assms by simp
next
  fix i
  assume i: "i < length ?l"
  show "?l ! i = ?r ! i"
  proof (cases "i < p")
    case True
    then have "64 - (o' + p) + (p - Suc i) = 64 - Suc (o' + i)" using assms by simp
    with True i assms show ?thesis by (simp add: nth_append bit_drop_bit_eq)
  next
    case False
    with i assms show ?thesis by (simp add: nth_append)
  qed
qed

lemma br_part_unat:
  "br_inv r \<Longrightarrow> unat (br_part bits r) = min (64 - unat (br_offset r)) (unat bits)"
  by (simp add: br_part_def br_inv_def unat_part)

lemma br_advance_inv: "br_inv r \<Longrightarrow> br_inv (br_advance bits r)"
  by (simp add: br_inv_def br_advance_def br_part_def unat_offset_plus)

lemma br_advance_stream:
  assumes "br_inv r" and p_def: "p = min (64 - unat (br_offset r)) (unat bits)"
  shows "br_stream r
    = bits_of p (drop_bit (64 - (unat (br_offset r) + p)) (br_bits r)) @ br_stream (br_advance bits r)"
proof -
  have "unat (br_offset r) + p \<le> 64" using assms by (auto simp: br_inv_def)
  moreover have "unat (br_offset (br_advance bits r)) = unat (br_offset r) + p"
    using assms by (simp add: br_inv_def br_advance_def br_part_def unat_offset_plus)
  ultimately show ?thesis
    by (simp add: br_stream_def drop_bits_of_64 [of "unat (br_offset r)" p] br_advance_def)
qed

lemma br_value_eq:
  assumes "br_inv r" and p_def: "p = min (64 - unat (br_offset r)) (unat bits)"
  shows "br_value val bits r
    = val OR push_bit (unat bits - p) (take_bit p (drop_bit (64 - (unat (br_offset r) + p)) (br_bits r)))"
proof -
  have p: "unat (br_part bits r) = p"
    using assms by (simp add: br_part_unat)
  have r: "unat (bits - br_part bits r) = unat bits - p"
    using p by (simp add: br_part_def unat_rest)
  have "br_part bits r = 64 \<longleftrightarrow> p = 64"
    using p by (auto simp: word_unat_eq_iff)
  then show ?thesis
    using p r by (auto simp: br_value_def Let_def mask_word' take_bit_word_eq_self)
qed

text \<open>
  The loop: with \<open>n\<close> bits still to read and the stream starting with \<open>bs\<close> (\<open>n\<close> bits), the result is
  the value so far joined with \<open>bs\<close> as a number.
\<close>

lemma of_bits_append:
  "length (a @ b) \<le> 64 \<Longrightarrow> of_bits (a @ b) = push_bit (length b) (of_bits a) OR of_bits b"
  by (rule bit_word_eqI) (auto simp: bit_of_bits bit_simps nth_append)

lemma br_loop_stream:
  "br_inv r \<Longrightarrow> unat bits \<le> 64 \<Longrightarrow> br_stream r = bs @ rest \<Longrightarrow> length bs = unat bits \<Longrightarrow>
   \<exists>r'. br_loop val bits r = Inr (val OR of_bits bs, r') \<and> br_inv r' \<and> br_stream r' = rest"
proof (induction val bits r arbitrary: bs rule: br_loop.induct)
  case (1 val bits r)
  show ?case
  proof (cases "bits = 0")
    case True
    with "1.prems" show ?thesis by (simp add: br_loop.simps [of val 0 r])
  next
    case False
    then have "bs \<noteq> []" using "1.prems"(4) by (auto simp: unat_eq_0)
    then obtain r' where r': "br_prepare r = Inr r'" "br_inv r'" "br_stream r' = bs @ rest"
      "unat (br_offset r') < 64"
      using br_prepare_Inr [OF "1.prems"(1)] "1.prems"(3) by auto
    define p where "p = min (64 - unat (br_offset r')) (unat bits)"
    define v where "v = drop_bit (64 - (unat (br_offset r') + p)) (br_bits r')"
    have n: "unat (bits - br_part bits r') = unat bits - p"
      using r'(2) by (simp add: p_def br_part_def unat_rest unat_part br_inv_def)
    have "p \<le> length bs" using "1.prems"(4) by (simp add: p_def)
    moreover have "bits_of p v @ br_stream (br_advance bits r') = bs @ rest"
      using br_advance_stream [OF r'(2) p_def] r'(3) by (simp add: v_def)
    ultimately have bs: "take p bs = bits_of p v"
      and st: "br_stream (br_advance bits r') = drop p bs @ rest"
      by (metis append_eq_conv_conj length_bits_of take_append append_Nil2 diff_is_0_eq' take_0,
          metis append_eq_conv_conj length_bits_of drop_append drop_0 diff_is_0_eq')
    have len: "length (drop p bs) = unat (bits - br_part bits r')"
      using "1.prems"(4) n by simp
    have le: "unat (bits - br_part bits r') \<le> 64" using n "1.prems"(2) by simp
    obtain r'' where r'': "br_loop (br_value val bits r') (bits - br_part bits r') (br_advance bits r')
        = Inr (br_value val bits r' OR of_bits (drop p bs), r'')" "br_inv r''" "br_stream r'' = rest"
      using "1.IH" [OF False r'(1) br_advance_inv [OF r'(2)] le st len] by auto
    have "of_bits bs = push_bit (length bs - p) (of_bits (take p bs)) OR of_bits (drop p bs)"
      using of_bits_append [of "take p bs" "drop p bs"] "1.prems"(2,4) by simp
    then have "of_bits bs = push_bit (length bs - p) (take_bit p v) OR of_bits (drop p bs)"
      using "1.prems"(2,4) \<open>p \<le> length bs\<close> by (simp add: bs of_bits_bits_of)
    then have "br_value val bits r' OR of_bits (drop p bs) = val OR of_bits bs"
      using br_value_eq [OF r'(2) p_def] "1.prems"(4) by (simp add: v_def or.assoc)
    with r'' False r'(1) show ?thesis
      by (simp add: br_loop.simps [of val bits r])
  qed
qed

lemma br_read_Inr:
  assumes "br_inv r" "unat bits \<le> 64" "br_stream r = bs @ rest" "length bs = unat bits"
  obtains r' where "br_read bits r = Inr (of_bits bs, r')" "br_inv r'" "br_stream r' = rest"
  using br_loop_stream [OF assms, of 0] assms(2) by (auto simp: br_read_def word_le_nat_alt)

lemma br_read_value:
  assumes "br_inv r" "unat bits \<le> 64" "br_stream r = bits_of (unat bits) v @ rest"
  obtains r' where "br_read bits r = Inr (take_bit (unat bits) v, r')" "br_inv r'"
    "br_stream r' = rest"
  using br_read_Inr [OF assms] assms(2) by (auto simp: of_bits_bits_of)

lemma br_read_bit_Inr:
  assumes "br_inv r" "br_stream r = b # rest"
  obtains r' where "br_read_bit r = Inr (of_bool b, r')" "br_inv r'" "br_stream r' = rest"
proof -
  obtain r' where r': "br_prepare r = Inr r'" "br_inv r'" "br_stream r' = b # rest"
      "unat (br_offset r') < 64"
    using br_prepare_Inr [OF assms(1)] assms(2) by auto
  define r'' where "r'' = r'\<lparr>br_offset := br_offset r' + 1\<rparr>"
  have o1: "unat (br_offset r' + 1) = Suc (unat (br_offset r'))"
    using r'(4) by (simp add: unat_add_lem [THEN iffD1])
  have "br_stream r' = bit (br_bits r') (63 - unat (br_offset r')) # br_stream r''"
    using r'(4) by (simp add: br_stream_def r''_def o1 flip: Cons_nth_drop_Suc)
  then have "b = bit (br_bits r') (63 - unat (br_offset r'))" "br_stream r'' = rest"
    using r'(3) by auto
  moreover have "drop_bit n x AND 1 = of_bool (bit x n)" for n and x :: u64
    by (rule bit_word_eqI) (auto simp: bit_simps)
  ultimately show ?thesis
    using r' that by (simp add: br_read_bit_def r''_def br_inv_def o1)
qed

text \<open>The same facts in the form the clients chain: where a reader stands, what a writer adds.\<close>

definition br_at :: "bit_reader \<Rightarrow> bool list \<Rightarrow> bool" where
  "br_at r bs \<longleftrightarrow> br_inv r \<and> br_stream r = bs"

definition bw_adds :: "bit_writer \<Rightarrow> bool list \<Rightarrow> bit_writer \<Rightarrow> bool" where
  "bw_adds w bs w' \<longleftrightarrow> bw_inv w' \<and> bw_stream w' = bw_stream w @ bs"

lemma bw_adds_write:
  assumes "bw_inv w" "unat bits \<le> 64"
  shows "\<exists>w'. bw_write v bits w = Inr w' \<and> bw_adds w (bits_of (unat bits) v) w'"
  using bw_write_Inr [OF assms] by (metis bw_adds_def)

lemma bw_adds_inv: "bw_adds w bs w' \<Longrightarrow> bw_inv w'"
  by (simp add: bw_adds_def)

lemma bw_adds_trans: "bw_adds w bs w1 \<Longrightarrow> bw_adds w1 cs w2 \<Longrightarrow> bw_adds w (bs @ cs) w2"
  by (simp add: bw_adds_def)

lemma br_at_bit:
  "br_at r (b # rest) \<Longrightarrow> \<exists>r'. br_read_bit r = Inr (of_bool b, r') \<and> br_at r' rest"
  using br_read_bit_Inr [of r b rest] by (metis br_at_def)

lemma br_at_read:
  "br_at r (bits_of (unat bits) v @ rest) \<Longrightarrow> unat bits \<le> 64 \<Longrightarrow>
   \<exists>r'. br_read bits r = Inr (take_bit (unat bits) v, r') \<and> br_at r' rest"
  using br_read_value [of r bits v rest] by (metis br_at_def)

section \<open>Round trip\<close>

text \<open>A client that writes a list of (value, width) fields, and one that reads the widths back.\<close>

fun bw_write_all :: "(u64 \<times> u8) list \<Rightarrow> bit_writer \<Rightarrow> bit_writer res" where
  "bw_write_all [] w = Inr w"
| "bw_write_all ((v, n) # fs) w = res_bind (bw_write v n w) (bw_write_all fs)"

fun br_read_all :: "u8 list \<Rightarrow> bit_reader \<Rightarrow> (u64 list \<times> bit_reader) res" where
  "br_read_all [] r = Inr ([], r)"
| "br_read_all (n # ns) r =
     res_bind (br_read n r) (\<lambda>(v, r'). res_bind (br_read_all ns r') (\<lambda>(vs, r''). Inr (v # vs, r'')))"

lemma bit_writer_init [simp]: "bw_inv bit_writer_init" "bw_stream bit_writer_init = []"
  by (simp_all add: bit_writer_init_def bw_inv_def bw_stream_def)

lemma bit_reader_init [simp]:
  "br_inv (bit_reader_init ws)" "br_stream (bit_reader_init ws) = concat (map (bits_of 64) ws)"
  by (simp_all add: bit_reader_init_def br_inv_def br_stream_def)

lemma bw_flush_words:
  assumes "bw_inv w"
  obtains pad where "concat (map (bits_of 64) (bw_words (bw_flush w))) = bw_stream w @ pad"
proof (cases "bw_offset w = 0")
  case True
  with that show ?thesis by (simp add: bw_flush_def bw_stream_def)
next
  case False
  then have "concat (map (bits_of 64) (bw_words (bw_flush w)))
    = bw_stream w @ drop (unat (bw_offset w)) (bits_of 64 (bw_bits w))"
    by (simp add: bw_flush_def bw_stream_def)
  with that show ?thesis by blast
qed

lemma bw_write_all_stream:
  "bw_inv w \<Longrightarrow> \<forall>f \<in> set fs. unat (snd f) \<le> 64 \<Longrightarrow>
   \<exists>w'. bw_write_all fs w = Inr w' \<and> bw_inv w'
     \<and> bw_stream w' = bw_stream w @ concat (map (\<lambda>(v, n). bits_of (unat n) v) fs)"
proof (induction fs arbitrary: w)
  case Nil
  then show ?case by simp
next
  case (Cons f fs)
  obtain v n where f: "f = (v, n)" by (cases f)
  obtain w1 where "bw_write v n w = Inr w1" "bw_inv w1"
      "bw_stream w1 = bw_stream w @ bits_of (unat n) v"
    using Cons.prems f by (auto elim: bw_write_Inr [of w n v])
  with Cons.IH [of w1] Cons.prems f show ?case by auto
qed

lemma br_read_all_stream:
  "br_inv r \<Longrightarrow> \<forall>f \<in> set fs. unat (snd f) \<le> 64 \<Longrightarrow>
   br_stream r = concat (map (\<lambda>(v, n). bits_of (unat n) v) fs) @ rest \<Longrightarrow>
   \<exists>r'. br_read_all (map snd fs) r = Inr (map (\<lambda>(v, n). take_bit (unat n) v) fs, r')
     \<and> br_inv r' \<and> br_stream r' = rest"
proof (induction fs arbitrary: r)
  case Nil
  then show ?case by simp
next
  case (Cons f fs)
  obtain v n where f: "f = (v, n)" by (cases f)
  obtain r1 where "br_read n r = Inr (take_bit (unat n) v, r1)" "br_inv r1"
      "br_stream r1 = concat (map (\<lambda>(v, n). bits_of (unat n) v) fs) @ rest"
    using Cons.prems f by (auto elim: br_read_value [of r n v])
  with Cons.IH [of r1] Cons.prems f show ?case by auto
qed

text \<open>
  Whatever fields of at most 64 bits are written with \<open>Bit_writer::write\<close> and flushed,
  \<open>bit_reader::read\<close> with the same widths returns them in order, each cut to its width.
\<close>

lemma bit_stream_roundtrip:
  assumes "\<forall>f \<in> set fs. unat (snd f) \<le> 64"
  shows "\<exists>w. bw_write_all fs bit_writer_init = Inr w
    \<and> (\<exists>r. br_read_all (map snd fs) (bit_reader_init (bw_words (bw_flush w)))
         = Inr (map (\<lambda>(v, n). take_bit (unat n) v) fs, r))"
proof -
  obtain w where w: "bw_write_all fs bit_writer_init = Inr w" "bw_inv w"
      "bw_stream w = concat (map (\<lambda>(v, n). bits_of (unat n) v) fs)"
    using bw_write_all_stream [OF _ assms, of bit_writer_init] by auto
  obtain pad where "concat (map (bits_of 64) (bw_words (bw_flush w))) = bw_stream w @ pad"
    using bw_flush_words [OF w(2)] .
  with br_read_all_stream [OF _ assms, of "bit_reader_init (bw_words (bw_flush w))" pad] w
  show ?thesis by auto
qed

lemma bit_stream_roundtrip_witness:
  "\<exists>w. bw_write_all [(5, 3), (0x123456789ABCDEF0, 64), (1, 1)] bit_writer_init = Inr w
    \<and> (\<exists>r. br_read_all [3, 64, 1] (bit_reader_init (bw_words (bw_flush w)))
         = Inr ([5, 0x123456789ABCDEF0, 1], r))"
  using bit_stream_roundtrip [of "[(5, 3), (0x123456789ABCDEF0, 64), (1, 1)]"] by simp

end
