(* ===== verification/Gorilla.thy ===== *)
theory Gorilla
  imports Bit_IO
begin

text \<open>
  The time series codec of \<open>tyrdbs/gorilla_writer.h\<close> and \<open>tyrdbs/gorilla_reader.h\<close>: timestamps as
  deltas of deltas in one of five bit lengths, values as the XOR with the previous value in
  nibble-aligned windows. The writer and the reader each keep their own copy of the previous
  sample and of the current window; \<open>codec_rel\<close> says how the two copies agree.
  \<open>int64_t\<close> fields are 64-bit words read with \<open>sint\<close>.
\<close>

section \<open>The compiler's bit counts\<close>

text \<open>\<open>__builtin_clzl\<close> and \<open>__builtin_ctzl\<close> on a non-zero word.\<close>

definition clz64 :: "u64 \<Rightarrow> nat" where
  "clz64 x = length (takeWhile (\<lambda>i. \<not> bit x (63 - i)) [0..<64])"

definition ctz64 :: "u64 \<Rightarrow> nat" where
  "ctz64 x = length (takeWhile (\<lambda>i. \<not> bit x i) [0..<64])"

section \<open>gorilla_writer\<close>

record gorilla_writer =
  gw_samples :: u32
  gw_first_timestamp :: u64
  gw_last_timestamp :: u64
  gw_last_delta :: u64
  gw_delta :: u64
  gw_last_value :: u64
  gw_last_clz :: u32
  gw_last_ctz :: u32
  gw_writer :: bit_writer

definition gorilla_writer_init :: gorilla_writer where
  "gorilla_writer_init =
     \<lparr>gw_samples = 0, gw_first_timestamp = 0, gw_last_timestamp = 0, gw_last_delta = 0,
      gw_delta = 0, gw_last_value = 0, gw_last_clz = - 1, gw_last_ctz = - 1,
      gw_writer = bit_writer_init\<rparr>"

text \<open>
  The assertion of the last branch masks with \<open>~(0xffffffffU)\<close>, an \<open>unsigned int\<close> that is zero.
\<close>

definition gw_write_encoded :: "u64 \<Rightarrow> bit_writer \<Rightarrow> bit_writer res" where
  "gw_write_encoded v w =
     (if v = 0 then bw_write 0 1 w
      else if - 63 \<le> sint v \<and> sint v \<le> 64 then
        bw_write (((v + 0x3f) AND 0x7f) OR push_bit 7 0x02) 9 w
      else if - 255 \<le> sint v \<and> sint v \<le> 256 then
        bw_write (((v + 0x0ff) AND 0x1ff) OR push_bit 9 0x06) 12 w
      else if - 2047 \<le> sint v \<and> sint v \<le> 2048 then
        bw_write (((v + 0x7ff) AND 0xfff) OR push_bit 12 0x0e) 16 w
      else
        res_assert (v AND ucast (NOT (0xffffffff :: u32)) = 0)
          (bw_write (((v + 0x7fffffff) AND 0xffffffff) OR push_bit 32 0x0f) 36 w))"

definition gw_write_timestamp :: "u64 \<Rightarrow> gorilla_writer \<Rightarrow> gorilla_writer res" where
  "gw_write_timestamp t g =
     res_assert (gw_last_timestamp g \<le> t)
       (if gw_samples g = 0 then
          res_bind (bw_write t 64 (gw_writer g)) (\<lambda>w.
            Inr (g\<lparr>gw_first_timestamp := t, gw_last_timestamp := t, gw_writer := w\<rparr>))
        else
          let delta = t - gw_last_timestamp g in
          res_bind
            (if gw_samples g = 1 then gw_write_encoded delta (gw_writer g)
             else gw_write_encoded (delta - gw_last_delta g) (gw_writer g)) (\<lambda>w.
            Inr (g\<lparr>gw_delta := delta, gw_last_delta := delta, gw_last_timestamp := t,
                   gw_writer := w\<rparr>)))"

definition gw_write_value :: "u64 \<Rightarrow> gorilla_writer \<Rightarrow> gorilla_writer res" where
  "gw_write_value v g =
     (if gw_samples g = 0 then
        res_bind (bw_write v 64 (gw_writer g)) (\<lambda>w.
          Inr (g\<lparr>gw_last_value := v, gw_writer := w\<rparr>))
      else
        let x = v XOR gw_last_value g in
        if x = 0 then
          res_bind (bw_write 0 1 (gw_writer g)) (\<lambda>w.
            Inr (g\<lparr>gw_last_clz := - 1, gw_last_ctz := - 1, gw_last_value := v, gw_writer := w\<rparr>))
        else
          let clz = drop_bit 2 (of_nat (clz64 x)); ctz = drop_bit 2 (of_nat (ctz64 x)) in
          if gw_last_clz g \<le> clz \<and> gw_last_ctz g \<le> ctz then
            let value_size = 16 - (gw_last_clz g + gw_last_ctz g) in
            res_bind (bw_write 0x02 2 (gw_writer g)) (\<lambda>w.
            res_bind (bw_write (drop_bit (unat (push_bit 2 (gw_last_ctz g))) x)
                       (ucast (push_bit 2 value_size)) w) (\<lambda>w'.
              Inr (g\<lparr>gw_last_value := v, gw_writer := w'\<rparr>)))
          else
            let value_size = 16 - (clz + ctz);
                value_ctrl = push_bit 9 0x03 OR push_bit 5 clz OR value_size in
            res_bind (bw_write (ucast value_ctrl) 11 (gw_writer g)) (\<lambda>w.
            res_bind (bw_write (drop_bit (unat (push_bit 2 ctz)) x)
                       (ucast (push_bit 2 value_size)) w) (\<lambda>w'.
              Inr (g\<lparr>gw_last_clz := clz, gw_last_ctz := ctz, gw_last_value := v,
                     gw_writer := w'\<rparr>))))"

definition gw_write :: "u64 \<Rightarrow> u64 \<Rightarrow> gorilla_writer \<Rightarrow> gorilla_writer res" where
  "gw_write t v g =
     res_bind (gw_write_timestamp t g) (\<lambda>g1.
     res_bind (gw_write_value v g1) (\<lambda>g2.
       Inr (g2\<lparr>gw_samples := gw_samples g2 + 1\<rparr>)))"

definition gw_flush :: "gorilla_writer \<Rightarrow> gorilla_writer" where
  "gw_flush g = g\<lparr>gw_writer := bw_flush (gw_writer g)\<rparr>"

section \<open>gorilla_reader\<close>

record gorilla_reader =
  gr_samples :: u32
  gr_ndx :: u32
  gr_timestamp :: u64
  gr_delta :: u64
  gr_value :: u64
  gr_value_size :: u32
  gr_ctz :: u32
  gr_reader :: bit_reader

definition gorilla_reader_init :: "u32 \<Rightarrow> u64 list \<Rightarrow> gorilla_reader" where
  "gorilla_reader_init samples ws =
     \<lparr>gr_samples = samples, gr_ndx = 0, gr_timestamp = 0, gr_delta = 0, gr_value = 0,
      gr_value_size = - 1, gr_ctz = - 1, gr_reader = bit_reader_init ws\<rparr>"

text \<open>The nested tests of \<open>load_next_timestamp\<close>: the delta of deltas.\<close>

definition gr_read_encoded :: "bit_reader \<Rightarrow> (u64 \<times> bit_reader) res" where
  "gr_read_encoded r =
     res_bind (br_read_bit r) (\<lambda>(b1, r1). if b1 = 0 then Inr (0, r1) else
     res_bind (br_read_bit r1) (\<lambda>(b2, r2). if b2 = 0 then
       res_bind (br_read 7 r2) (\<lambda>(v, r'). Inr (v - 0x3f, r')) else
     res_bind (br_read_bit r2) (\<lambda>(b3, r3). if b3 = 0 then
       res_bind (br_read 9 r3) (\<lambda>(v, r'). Inr (v - 0xff, r')) else
     res_bind (br_read_bit r3) (\<lambda>(b4, r4). if b4 = 0 then
       res_bind (br_read 12 r4) (\<lambda>(v, r'). Inr (v - 0x7ff, r')) else
       res_bind (br_read 32 r4) (\<lambda>(v, r'). Inr (v - 0x7fffffff, r'))))))"

definition gr_load_next_timestamp :: "gorilla_reader \<Rightarrow> gorilla_reader res" where
  "gr_load_next_timestamp g =
     (if gr_ndx g = 0 then
        res_bind (br_read 64 (gr_reader g)) (\<lambda>(t, r).
          Inr (g\<lparr>gr_timestamp := t, gr_reader := r\<rparr>))
      else
        res_bind (gr_read_encoded (gr_reader g)) (\<lambda>(v, r).
          Inr (g\<lparr>gr_delta := gr_delta g + v,
                 gr_timestamp := gr_timestamp g + (gr_delta g + v), gr_reader := r\<rparr>)))"

text \<open>
  The last lines of \<open>load_next_value\<close>; a shift by 64 or more places is undefined behaviour.
\<close>

definition gr_load_xor :: "u32 \<Rightarrow> u32 \<Rightarrow> bit_reader \<Rightarrow> gorilla_reader \<Rightarrow> gorilla_reader res" where
  "gr_load_xor value_size ctz r g =
     res_bind (br_read (ucast (push_bit 2 value_size)) r) (\<lambda>(x, r').
       if unat (push_bit 2 ctz) < 64 then
         Inr (g\<lparr>gr_value := gr_value g XOR push_bit (unat (push_bit 2 ctz)) x,
                gr_value_size := value_size, gr_ctz := ctz, gr_reader := r'\<rparr>)
       else Inl Undefined)"

definition gr_load_next_value :: "gorilla_reader \<Rightarrow> gorilla_reader res" where
  "gr_load_next_value g =
     (if gr_ndx g = 0 then
        res_bind (br_read 64 (gr_reader g)) (\<lambda>(v, r). Inr (g\<lparr>gr_value := v, gr_reader := r\<rparr>))
      else
        res_bind (br_read_bit (gr_reader g)) (\<lambda>(b1, r1).
          if b1 = 0 then Inr (g\<lparr>gr_value_size := - 1, gr_ctz := - 1, gr_reader := r1\<rparr>)
          else
            res_bind (br_read_bit r1) (\<lambda>(b2, r2).
              if b2 = 0 then
                res_assert (gr_value_size g \<noteq> - 1)
                  (res_assert (gr_ctz g \<noteq> - 1)
                    (gr_load_xor (gr_value_size g) (gr_ctz g) r2 g))
              else
                res_bind (br_read 9 r2) (\<lambda>(ctrl, r3).
                  let value_size = ucast (ctrl AND 0x1f);
                      ctz = 16 - (ucast (drop_bit 5 ctrl) + value_size)
                  in gr_load_xor value_size ctz r3 g))))"

definition gr_next :: "gorilla_reader \<Rightarrow> (bool \<times> gorilla_reader) res" where
  "gr_next g =
     (if gr_ndx g = gr_samples g then Inr (False, g)
      else
        res_bind (gr_load_next_timestamp g) (\<lambda>g1.
        res_bind (gr_load_next_value g1) (\<lambda>g2.
          Inr (True, g2\<lparr>gr_ndx := gr_ndx g2 + 1\<rparr>))))"

text \<open>\<open>value()\<close>: the current sample.\<close>

definition gr_current :: "gorilla_reader \<Rightarrow> u64 \<times> u64" where
  "gr_current g = (gr_timestamp g, gr_value g)"

section \<open>Clients\<close>

text \<open>Write a series; read \<open>n\<close> samples.\<close>

fun gw_write_all :: "(u64 \<times> u64) list \<Rightarrow> gorilla_writer \<Rightarrow> gorilla_writer res" where
  "gw_write_all [] g = Inr g"
| "gw_write_all ((t, v) # xs) g = res_bind (gw_write t v g) (gw_write_all xs)"

fun gr_read_all :: "nat \<Rightarrow> gorilla_reader \<Rightarrow> ((u64 \<times> u64) list \<times> gorilla_reader) res" where
  "gr_read_all 0 g = Inr ([], g)"
| "gr_read_all (Suc n) g =
     res_bind (gr_next g) (\<lambda>(more, g').
       if more then res_bind (gr_read_all n g') (\<lambda>(xs, g''). Inr (gr_current g' # xs, g''))
       else Inr ([], g'))"

definition series_roundtrip :: "(u64 \<times> u64) list \<Rightarrow> ((u64 \<times> u64) list) res" where
  "series_roundtrip xs =
     res_bind (gw_write_all xs gorilla_writer_init) (\<lambda>g.
     res_bind (gr_read_all (length xs)
         (gorilla_reader_init (gw_samples g) (bw_words (gw_writer (gw_flush g))))) (\<lambda>(ys, _).
       Inr ys))"

section \<open>Bit counts\<close>

lemma length_takeWhile_ex: "y \<in> set xs \<Longrightarrow> \<not> P y \<Longrightarrow> length (takeWhile P xs) < length xs"
  by (induction xs) auto

lemma clz64_spec:
  assumes "x \<noteq> 0"
  shows "clz64 x < 64" "bit x (63 - clz64 x)" "\<forall>i < clz64 x. \<not> bit x (63 - i)"
proof -
  obtain i where i: "bit x i" "i < 64"
    using assms bit_imp_le_length [of x] by (auto simp: bit_eq_iff)
  let ?P = "\<lambda>i. \<not> bit x (63 - i)"
  have "63 - i \<in> set [0..<64]" "\<not> ?P (63 - i)" using i by auto
  then show l: "clz64 x < 64"
    using length_takeWhile_ex [of "63 - i" "[0..<64]" ?P] by (simp add: clz64_def)
  then show "bit x (63 - clz64 x)"
    using nth_length_takeWhile [of ?P "[0..<64]"] by (simp add: clz64_def)
  show "\<forall>i < clz64 x. \<not> bit x (63 - i)"
  proof (intro allI impI)
    fix i assume i: "i < clz64 x"
    then have "takeWhile ?P [0..<64] ! i = i"
      using l by (simp add: clz64_def takeWhile_nth)
    moreover have "takeWhile ?P [0..<64] ! i \<in> set (takeWhile ?P [0..<64])"
      using i by (simp add: clz64_def)
    ultimately show "\<not> bit x (63 - i)" using set_takeWhileD by metis
  qed
qed

lemma ctz64_spec:
  assumes "x \<noteq> 0"
  shows "ctz64 x < 64" "bit x (ctz64 x)" "\<forall>i < ctz64 x. \<not> bit x i"
proof -
  obtain i where i: "bit x i" "i < 64"
    using assms bit_imp_le_length [of x] by (auto simp: bit_eq_iff)
  let ?P = "\<lambda>i. \<not> bit x i"
  show l: "ctz64 x < 64"
    using length_takeWhile_ex [of i "[0..<64]" ?P] i by (simp add: ctz64_def)
  then show "bit x (ctz64 x)"
    using nth_length_takeWhile [of ?P "[0..<64]"] by (simp add: ctz64_def)
  show "\<forall>i < ctz64 x. \<not> bit x i"
  proof (intro allI impI)
    fix i assume i: "i < ctz64 x"
    then have "takeWhile ?P [0..<64] ! i = i"
      using l by (simp add: ctz64_def takeWhile_nth)
    moreover have "takeWhile ?P [0..<64] ! i \<in> set (takeWhile ?P [0..<64])"
      using i by (simp add: ctz64_def)
    ultimately show "\<not> bit x i" using set_takeWhileD by metis
  qed
qed

lemma clz_ctz_sum:
  assumes "x \<noteq> 0"
  shows "clz64 x + ctz64 x \<le> 63"
proof (rule ccontr)
  assume "\<not> ?thesis"
  then have "63 - clz64 x < ctz64 x" using clz64_spec(1) [OF assms] by simp
  then show False using ctz64_spec(3) [OF assms] clz64_spec(2) [OF assms] by blast
qed

text \<open>
  A window of \<open>a\<close> leading and \<open>b\<close> trailing nibbles that are zero can be cut out and put back.
\<close>

lemma window_restore:
  assumes "x \<noteq> 0" "4 * a \<le> clz64 x" "4 * b \<le> ctz64 x"
  shows "push_bit (4 * b) (take_bit (4 * (16 - (a + b))) (drop_bit (4 * b) x)) = (x :: u64)"
proof (rule bit_word_eqI)
  fix i
  assume "i < LENGTH(64)"
  then have i: "i < 64" by simp
  have lo: "bit x i \<Longrightarrow> 4 * b \<le> i"
    using ctz64_spec(3) [OF assms(1)] assms(3) by (metis leI less_le_trans)
  have hi: "bit x i \<Longrightarrow> i < 64 - 4 * a"
  proof (rule ccontr)
    assume b: "bit x i" and "\<not> i < 64 - 4 * a"
    then have "63 - i < clz64 x" using i assms(2) by simp
    then have "\<not> bit x (63 - (63 - i))" using clz64_spec(3) [OF assms(1)] by blast
    with b i show False by simp
  qed
  have "4 * (a + b) \<le> 63" using assms clz_ctz_sum [OF assms(1)] by simp
  then have e: "4 * (16 - (a + b)) = 64 - 4 * a - 4 * b" by simp
  have "i < 64 - 4 * a \<Longrightarrow> 4 * b \<le> i \<Longrightarrow> i - 4 * b < 64 - 4 * a - 4 * b" by simp
  then show "bit (push_bit (4 * b) (take_bit (4 * (16 - (a + b))) (drop_bit (4 * b) x))) i = bit x i"
    using i lo hi unfolding e by (auto simp: bit_simps)
qed

section \<open>Deltas of deltas\<close>

text \<open>The deltas of deltas the five encodings can hold.\<close>

definition encodable :: "u64 \<Rightarrow> bool" where
  "encodable d \<longleftrightarrow> - 2147483647 \<le> sint d \<and> sint d \<le> 2147483648"

definition delta_code :: "u64 \<Rightarrow> bool list" where
  "delta_code v =
     (if v = 0 then [False]
      else if - 63 \<le> sint v \<and> sint v \<le> 64 then [True, False] @ bits_of 7 (v + 0x3f)
      else if - 255 \<le> sint v \<and> sint v \<le> 256 then [True, True, False] @ bits_of 9 (v + 0xff)
      else if - 2047 \<le> sint v \<and> sint v \<le> 2048 then
        [True, True, True, False] @ bits_of 12 (v + 0x7ff)
      else [True, True, True, True] @ bits_of 32 (v + 0x7fffffff))"

lemma bits_of_tagged:
  assumes "k + m \<le> 64"
  shows "bits_of (k + m) (take_bit m x OR push_bit m c) = bits_of k c @ bits_of m x"
proof -
  have "bits_of (k + m) (take_bit m x OR push_bit m c)
    = bits_of k (drop_bit m (take_bit m x OR push_bit m c)) @ bits_of m (take_bit m x OR push_bit m c)"
    using bits_of_split [of k "k + m"] by simp
  also have "bits_of k (drop_bit m (take_bit m x OR push_bit m c)) = bits_of k c"
    using assms by (intro nth_equalityI) (auto simp: bit_simps)
  also have "bits_of m (take_bit m x OR push_bit m c) = bits_of m x"
    by (intro nth_equalityI) (auto simp: bit_simps)
  finally show ?thesis .
qed

lemma bits_of_tagged_and:
  assumes "k + m \<le> 64" "msk = mask m"
  shows "bits_of (k + m) ((x AND msk) OR push_bit m c) = bits_of k c @ bits_of m x"
  using bits_of_tagged [OF assms(1), of x c] assms(2) by (simp add: take_bit_eq_mask)

lemma tag_bits:
  "bits_of 1 0 = [False]" "bits_of (Suc 0) 0 = [False]" "bits_of 2 2 = [True, False]" "bits_of 3 6 = [True, True, False]"
  "bits_of 4 14 = [True, True, True, False]" "bits_of 4 15 = [True, True, True, True]"
  "bits_of 2 3 = [True, True]"
  by code_simp+

lemma take_bit_biased:
  assumes "- int c \<le> sint v" "sint v + int c < 2 ^ m" "m \<le> 63"
  shows "take_bit m (v + of_nat c) = (v + of_nat c :: u64)"
proof -
  have e: "v + of_nat c = word_of_int (sint v + int c)" by simp
  have "(2::int) ^ m < 2 ^ 64"
    using assms(3) by (intro power_strict_increasing) auto
  then have "uint (v + of_nat c) = sint v + int c"
    using assms by (subst e, subst uint_word_of_int) simp
  then have "uint (v + of_nat c) < 2 ^ m" using assms(2) by simp
  then show ?thesis
    by (simp add: word_uint_eq_iff unsigned_take_bit_eq take_bit_int_eq_self)
qed

lemma take_bit_bias:
  "- 63 \<le> sint v \<and> sint v \<le> 64 \<Longrightarrow> take_bit 7 (v + 0x3f) = (v + 0x3f :: u64)"
  "- 255 \<le> sint v \<and> sint v \<le> 256 \<Longrightarrow> take_bit 9 (v + 0xff) = (v + 0xff :: u64)"
  "- 2047 \<le> sint v \<and> sint v \<le> 2048 \<Longrightarrow> take_bit 12 (v + 0x7ff) = (v + 0x7ff :: u64)"
  "encodable v \<Longrightarrow> take_bit 32 (v + 0x7fffffff) = (v + 0x7fffffff :: u64)"
  using take_bit_biased [of 63 v 7] take_bit_biased [of 255 v 9] take_bit_biased [of 2047 v 12]
    take_bit_biased [of 2147483647 v 32]
  by (simp_all add: encodable_def)

lemma gw_write_encoded_adds:
  assumes "bw_inv w"
  shows "\<exists>w'. gw_write_encoded v w = Inr w' \<and> bw_adds w (delta_code v) w'"
proof -
  have "v AND ucast (NOT (0xffffffff :: u32)) = 0" by simp
  then show ?thesis
    using bw_adds_write [OF assms, of 1 0]
      bw_adds_write [OF assms, of 9 "((v + 0x3f) AND 0x7f) OR push_bit 7 0x02"]
      bw_adds_write [OF assms, of 12 "((v + 0x0ff) AND 0x1ff) OR push_bit 9 0x06"]
      bw_adds_write [OF assms, of 16 "((v + 0x7ff) AND 0xfff) OR push_bit 12 0x0e"]
      bw_adds_write [OF assms, of 36 "((v + 0x7fffffff) AND 0xffffffff) OR push_bit 32 0x0f"]
      bits_of_tagged_and [of 2 7 "0x7f" "v + 0x3f" 2]
      bits_of_tagged_and [of 3 9 "0x1ff" "v + 0xff" 6]
      bits_of_tagged_and [of 4 12 "0xfff" "v + 0x7ff" 14]
      bits_of_tagged_and [of 4 32 "0xffffffff" "v + 0x7fffffff" 15]
    by (simp add: gw_write_encoded_def delta_code_def tag_bits mask_eq_exp_minus_1 res_assert_def)
qed

lemma delta_code_cases:
  assumes "encodable v"
  obtains "delta_code v = [False]" "v = 0"
    | "delta_code v = [True, False] @ bits_of 7 (v + 0x3f)" "take_bit 7 (v + 0x3f) = v + 0x3f"
    | "delta_code v = [True, True, False] @ bits_of 9 (v + 0xff)" "take_bit 9 (v + 0xff) = v + 0xff"
    | "delta_code v = [True, True, True, False] @ bits_of 12 (v + 0x7ff)"
      "take_bit 12 (v + 0x7ff) = v + 0x7ff"
    | "delta_code v = [True, True, True, True] @ bits_of 32 (v + 0x7fffffff)"
      "take_bit 32 (v + 0x7fffffff) = v + 0x7fffffff"
proof (cases "v = 0")
  case True
  with that(1) show thesis by (simp add: delta_code_def)
next
  case nz: False
  show thesis
  proof (cases "- 63 \<le> sint v \<and> sint v \<le> 64")
    case True
    with that(2) nz show thesis by (simp add: delta_code_def take_bit_bias)
  next
    case no1: False
    show thesis
    proof (cases "- 255 \<le> sint v \<and> sint v \<le> 256")
      case True
      show thesis by (rule that(3)) (use nz no1 True in \<open>auto simp: delta_code_def take_bit_bias\<close>)
    next
      case no2: False
      show thesis
      proof (cases "- 2047 \<le> sint v \<and> sint v \<le> 2048")
        case True
        show thesis
          by (rule that(4)) (use nz no1 no2 True in \<open>auto simp: delta_code_def take_bit_bias\<close>)
      next
        case False
        show thesis
          by (rule that(5))
            (use nz no1 no2 False take_bit_bias(4) [OF assms] in \<open>auto simp: delta_code_def\<close>)
      qed
    qed
  qed
qed

lemma gr_read_encoded_at:
  assumes "br_at r (delta_code v @ rest)" "encodable v"
  shows "\<exists>r'. gr_read_encoded r = Inr (v, r') \<and> br_at r' rest"
proof -
  note bit = br_at_bit
  from assms(2) show ?thesis
  proof (cases rule: delta_code_cases)
    case 1
    then obtain r1 where "br_read_bit r = Inr (0, r1)" "br_at r1 rest"
      using bit [of r False rest] assms(1) by auto
    with 1 show ?thesis by (simp add: gr_read_encoded_def)
  next
    case 2
    then obtain r1 where 1: "br_read_bit r = Inr (1, r1)"
        "br_at r1 (False # bits_of 7 (v + 0x3f) @ rest)"
      using bit [of r True] assms(1) by auto
    then obtain r2 where "br_read_bit r1 = Inr (0, r2)" "br_at r2 (bits_of 7 (v + 0x3f) @ rest)"
      using bit by fastforce
    with 1 br_at_read [of r2 7 "v + 0x3f" rest] 2(2) show ?thesis
      by (auto simp: gr_read_encoded_def)
  next
    case 3
    then obtain r1 where 1: "br_read_bit r = Inr (1, r1)"
        "br_at r1 (True # False # bits_of 9 (v + 0xff) @ rest)"
      using bit [of r True] assms(1) by auto
    then obtain r2 where 2: "br_read_bit r1 = Inr (1, r2)"
        "br_at r2 (False # bits_of 9 (v + 0xff) @ rest)"
      using bit by fastforce
    then obtain r3 where "br_read_bit r2 = Inr (0, r3)" "br_at r3 (bits_of 9 (v + 0xff) @ rest)"
      using bit by fastforce
    with 1 2 br_at_read [of r3 9 "v + 0xff" rest] 3(2) show ?thesis
      by (auto simp: gr_read_encoded_def)
  next
    case 4
    then obtain r1 where 1: "br_read_bit r = Inr (1, r1)"
        "br_at r1 (True # True # False # bits_of 12 (v + 0x7ff) @ rest)"
      using bit [of r True] assms(1) by auto
    then obtain r2 where 2: "br_read_bit r1 = Inr (1, r2)"
        "br_at r2 (True # False # bits_of 12 (v + 0x7ff) @ rest)"
      using bit by fastforce
    then obtain r3 where 3: "br_read_bit r2 = Inr (1, r3)"
        "br_at r3 (False # bits_of 12 (v + 0x7ff) @ rest)"
      using bit by fastforce
    then obtain r4 where "br_read_bit r3 = Inr (0, r4)" "br_at r4 (bits_of 12 (v + 0x7ff) @ rest)"
      using bit by fastforce
    with 1 2 3 br_at_read [of r4 12 "v + 0x7ff" rest] 4(2) show ?thesis
      by (auto simp: gr_read_encoded_def)
  next
    case 5
    then obtain r1 where 1: "br_read_bit r = Inr (1, r1)"
        "br_at r1 (True # True # True # bits_of 32 (v + 0x7fffffff) @ rest)"
      using bit [of r True] assms(1) by auto
    then obtain r2 where 2: "br_read_bit r1 = Inr (1, r2)"
        "br_at r2 (True # True # bits_of 32 (v + 0x7fffffff) @ rest)"
      using bit by fastforce
    then obtain r3 where 3: "br_read_bit r2 = Inr (1, r3)"
        "br_at r3 (True # bits_of 32 (v + 0x7fffffff) @ rest)"
      using bit by fastforce
    then obtain r4 where "br_read_bit r3 = Inr (1, r4)"
        "br_at r4 (bits_of 32 (v + 0x7fffffff) @ rest)"
      using bit by fastforce
    with 1 2 3 br_at_read [of r4 32 "v + 0x7fffffff" rest] 5(2) show ?thesis
      by (auto simp: gr_read_encoded_def)
  qed
qed

section \<open>Values\<close>

text \<open>The writer's window against the reader's: both unset, or the same window.\<close>

definition window_rel :: "u32 \<Rightarrow> u32 \<Rightarrow> u32 \<Rightarrow> u32 \<Rightarrow> bool" where
  "window_rel clz ctz value_size rctz \<longleftrightarrow>
     (clz = - 1 \<and> ctz = - 1 \<and> value_size = - 1 \<and> rctz = - 1)
     \<or> (unat clz + unat ctz < 16 \<and> rctz = ctz \<and> value_size = 16 - (clz + ctz))"

lemma unat_push_bit_2:
  assumes "unat x \<le> 16"
  shows "unat (push_bit 2 (x :: u32)) = 4 * unat x"
proof -
  have "unat x * 4 < 2 ^ LENGTH(32)" using assms by simp
  then show ?thesis by (simp add: push_bit_eq_mult unat_word_ariths)
qed

lemma window_arith:
  fixes clz ctz :: u32
  assumes "unat clz + unat ctz < 16"
  shows "unat (16 - (clz + ctz)) = 16 - (unat clz + unat ctz)"
    and "unat (push_bit 2 ctz) = 4 * unat ctz"
    and "unat (ucast (push_bit 2 (16 - (clz + ctz))) :: u8) = 4 * (16 - (unat clz + unat ctz))"
    and "16 - (clz + ctz) \<noteq> - 1" and "ctz \<noteq> - 1"
proof -
  have s: "unat (clz + ctz) = unat clz + unat ctz"
    using assms by (simp add: unat_add_lem [THEN iffD1])
  then show n: "unat (16 - (clz + ctz)) = 16 - (unat clz + unat ctz)"
    using assms by (subst unat_sub) (simp_all add: word_le_nat_alt)
  show "unat (push_bit 2 ctz) = 4 * unat ctz"
    using assms by (intro unat_push_bit_2) simp
  have "unat (push_bit 2 (16 - (clz + ctz))) = 4 * (16 - (unat clz + unat ctz))"
    using n by (subst unat_push_bit_2) simp_all
  then show "unat (ucast (push_bit 2 (16 - (clz + ctz))) :: u8) = 4 * (16 - (unat clz + unat ctz))"
    by (simp add: unsigned_ucast_eq take_bit_nat_eq_self)
  have "unat (16 - (clz + ctz)) \<noteq> unat (- 1 :: u32)" using n by (simp add: unsigned_minus_1_eq_mask mask_eq_exp_minus_1)
  then show "16 - (clz + ctz) \<noteq> - 1" by metis
  have "unat ctz \<noteq> unat (- 1 :: u32)" using assms by (simp add: unsigned_minus_1_eq_mask mask_eq_exp_minus_1)
  then show "ctz \<noteq> - 1" by metis
qed

lemma nibble_count:
  fixes n :: nat
  assumes "n < 64"
  shows "unat (drop_bit 2 (of_nat n) :: u32) = n div 4"
  using assms by (simp add: drop_bit_eq_div unat_div_distrib unat_of_nat)

lemma gr_load_xor_at:
  assumes "x \<noteq> 0" and w: "unat clz + unat ctz < 16"
    and "unat clz \<le> clz64 x div 4" "unat ctz \<le> ctz64 x div 4"
    and "br_at r (bits_of (4 * (16 - (unat clz + unat ctz))) (drop_bit (4 * unat ctz) x) @ rest)"
  shows "\<exists>r'. gr_load_xor (16 - (clz + ctz)) ctz r g
      = Inr (g\<lparr>gr_value := gr_value g XOR x, gr_value_size := 16 - (clz + ctz), gr_ctz := ctz,
             gr_reader := r'\<rparr>) \<and> br_at r' rest"
proof -
  let ?n = "4 * (16 - (unat clz + unat ctz))"
  have "?n \<le> 64" by simp
  then obtain r' where
    "br_read (ucast (push_bit 2 (16 - (clz + ctz)))) r
       = Inr (take_bit ?n (drop_bit (4 * unat ctz) x), r')" "br_at r' rest"
    using br_at_read [of r "ucast (push_bit 2 (16 - (clz + ctz)))"] assms(5)
    by (auto simp: window_arith(3) [OF w])
  moreover have "push_bit (4 * unat ctz) (take_bit ?n (drop_bit (4 * unat ctz) x)) = x"
    using assms by (intro window_restore) auto
  moreover have "4 * unat ctz < 64" using w by simp
  ultimately show ?thesis
    by (intro exI [of _ r']) (simp add: gr_load_xor_def window_arith(2) [OF w])
qed

lemma small_word_bits:
  "unat (x :: 'a::len word) < 2 ^ k \<Longrightarrow> bit x i \<Longrightarrow> i < k"
proof (rule ccontr)
  assume "unat x < 2 ^ k" "bit x i" "\<not> i < k"
  then have "take_bit k x = x"
    by (simp add: word_unat_eq_iff unsigned_take_bit_eq take_bit_nat_eq_self)
  with \<open>bit x i\<close> \<open>\<not> i < k\<close> show False
    by (metis bit_take_bit_iff)
qed

lemma ctrl_fields:
  fixes clz value_size :: u32
  assumes "unat clz < 16" "unat value_size < 32"
  defines "c \<equiv> (ucast (push_bit 9 3 OR push_bit 5 clz OR value_size) :: u64)"
  shows "bits_of 11 c = [True, True] @ bits_of 9 c"
    and "ucast (take_bit 9 c AND 0x1f) = value_size"
    and "ucast (drop_bit 5 (take_bit 9 c)) = clz"
proof -
  have cb: "bit clz i \<Longrightarrow> i < 4" and vb: "bit value_size i \<Longrightarrow> i < 5" for i
    using small_word_bits [of clz 4 i] small_word_bits [of value_size 5 i] assms by auto
  have lo: "\<not> bit (1536 :: u32) n" if "n < 9" for n
  proof -
    have "bit (push_bit 9 (3 :: u32)) n = False"
      unfolding bit_push_bit_iff using that by simp
    then show ?thesis by simp
  qed
  have lo': "\<not> bit (1536 :: u64) n" if "n < 9" for n
  proof -
    have "bit (push_bit 9 (3 :: u64)) n = False"
      unfolding bit_push_bit_iff using that by simp
    then show ?thesis by simp
  qed
  have "c = push_bit 9 3 OR ucast (push_bit 5 clz) OR ucast value_size"
    by (simp add: c_def unsigned_or_eq)
  moreover have "drop_bit 9 (ucast (push_bit 5 clz) :: u64) = 0"
    by (rule bit_word_eqI) (auto simp: bit_simps dest: cb)
  moreover have "drop_bit 9 (ucast value_size :: u64) = 0"
    by (rule bit_word_eqI) (auto simp: bit_simps dest: vb)
  ultimately have "drop_bit 9 c = 3" by simp
  then show "bits_of 11 c = [True, True] @ bits_of 9 c"
    using bits_of_split [of 2 11 c] by (simp add: tag_bits)
  have m: "(0x1f :: u64) = mask 5" by (simp add: mask_eq_exp_minus_1)
  show "ucast (take_bit 9 c AND 0x1f) = value_size"
    unfolding m take_bit_eq_mask [symmetric]
  proof (rule bit_word_eqI)
    fix i show "bit (ucast (take_bit 5 (take_bit 9 c)) :: u32) i = bit value_size i"
      using vb [of i] lo [of i] lo' [of i] by (cases "i < 5") (auto simp: c_def bit_simps)
  qed
  show "ucast (drop_bit 5 (take_bit 9 c)) = clz"
  proof (rule bit_word_eqI)
    fix i show "bit (ucast (drop_bit 5 (take_bit 9 c)) :: u32) i = bit clz i"
      using cb [of i] vb [of "5 + i"] lo [of "5 + i"] by (auto simp: c_def bit_simps)
  qed
qed

text \<open>
  One value: what the writer emits for \<open>v\<close>, any reader in the matching window reads back as \<open>v\<close>,
  and the two windows match again.
\<close>

definition same_clock :: "gorilla_reader \<Rightarrow> gorilla_reader \<Rightarrow> bool" where
  "same_clock r r' \<longleftrightarrow> gr_samples r' = gr_samples r \<and> gr_ndx r' = gr_ndx r
     \<and> gr_timestamp r' = gr_timestamp r \<and> gr_delta r' = gr_delta r"

definition value_reads :: "bool list \<Rightarrow> u64 \<Rightarrow> gorilla_writer \<Rightarrow> u64 \<Rightarrow> u32 \<Rightarrow> u32 \<Rightarrow> bool" where
  "value_reads S v g prev clz ctz \<longleftrightarrow>
     (\<forall>r rest. gr_ndx r \<noteq> 0 \<longrightarrow> gr_value r = prev \<longrightarrow>
        window_rel (gw_last_clz g) (gw_last_ctz g) (gr_value_size r) (gr_ctz r) \<longrightarrow>
        br_at (gr_reader r) (S @ rest) \<longrightarrow>
        (\<exists>r'. gr_load_next_value r = Inr r' \<and> same_clock r r' \<and> gr_value r' = v
           \<and> window_rel clz ctz (gr_value_size r') (gr_ctz r') \<and> br_at (gr_reader r') rest))"

lemma bits_2_2: "bits_of (unat (2 :: u8)) 2 = [True, False]"
  using tag_bits(3) by simp

lemma xor_restore: "y XOR (v XOR y) = (v :: u64)"
  by (simp add: xor.left_commute)

lemma value_same_reads:
  "v XOR gw_last_value g = 0 \<Longrightarrow> value_reads [False] v g (gw_last_value g) (- 1) (- 1)"
  unfolding value_reads_def
proof (intro allI impI)
  fix r :: gorilla_reader and rest
  assume v: "v XOR gw_last_value g = 0" and h: "gr_ndx r \<noteq> 0" "gr_value r = gw_last_value g"
    "br_at (gr_reader r) ([False] @ rest)"
  then obtain r1 where "br_read_bit (gr_reader r) = Inr (0, r1)" "br_at r1 rest"
    using br_at_bit [of "gr_reader r" False rest] by auto
  moreover have "gw_last_value g = v" using v xor_restore [of "gw_last_value g" v] by simp
  ultimately show "\<exists>r'. gr_load_next_value r = Inr r' \<and> same_clock r r' \<and> gr_value r' = v
      \<and> window_rel (- 1) (- 1) (gr_value_size r') (gr_ctz r') \<and> br_at (gr_reader r') rest"
    using h by (simp add: gr_load_next_value_def same_clock_def window_rel_def)
qed

lemma value_reuse_reads:
  assumes x: "x = v XOR gw_last_value g" "x \<noteq> 0"
    and w: "unat (gw_last_clz g) + unat (gw_last_ctz g) < 16"
    and le: "unat (gw_last_clz g) \<le> clz64 x div 4" "unat (gw_last_ctz g) \<le> ctz64 x div 4"
  shows "value_reads ([True, False] @
      bits_of (4 * (16 - (unat (gw_last_clz g) + unat (gw_last_ctz g))))
        (drop_bit (4 * unat (gw_last_ctz g)) x)) v g (gw_last_value g) (gw_last_clz g) (gw_last_ctz g)"
  unfolding value_reads_def
proof (intro allI impI)
  fix r :: gorilla_reader and rest
  let ?n = "4 * (16 - (unat (gw_last_clz g) + unat (gw_last_ctz g)))"
  let ?b = "bits_of ?n (drop_bit (4 * unat (gw_last_ctz g)) x)"
  assume h: "gr_ndx r \<noteq> 0" "gr_value r = gw_last_value g"
    "window_rel (gw_last_clz g) (gw_last_ctz g) (gr_value_size r) (gr_ctz r)"
    "br_at (gr_reader r) (([True, False] @ ?b) @ rest)"
  then obtain r1 where 1: "br_read_bit (gr_reader r) = Inr (1, r1)" "br_at r1 (False # ?b @ rest)"
    using br_at_bit [of "gr_reader r" True "False # ?b @ rest"] by auto
  then obtain r2 where 2: "br_read_bit r1 = Inr (0, r2)" "br_at r2 (?b @ rest)"
    using br_at_bit by fastforce
  have win: "gr_ctz r = gw_last_ctz g" "gr_value_size r = 16 - (gw_last_clz g + gw_last_ctz g)"
    using h(3) window_arith(5) [OF w] by (auto simp: window_rel_def)
  from gr_load_xor_at [OF x(2) w le 2(2), of r] obtain r' where
    "gr_load_xor (16 - (gw_last_clz g + gw_last_ctz g)) (gw_last_ctz g) r2 r
       = Inr (r\<lparr>gr_value := gr_value r XOR x,
               gr_value_size := 16 - (gw_last_clz g + gw_last_ctz g), gr_ctz := gw_last_ctz g,
               gr_reader := r'\<rparr>)" "br_at r' rest" by blast
  with h(1,2) 1 2 win w show "\<exists>r'. gr_load_next_value r = Inr r' \<and> same_clock r r' \<and> gr_value r' = v
      \<and> window_rel (gw_last_clz g) (gw_last_ctz g) (gr_value_size r') (gr_ctz r')
      \<and> br_at (gr_reader r') rest"
    using window_arith(4,5) [OF w]
    by (simp add: gr_load_next_value_def same_clock_def window_rel_def x(1) xor_restore)
qed

lemma value_window_reads:
  fixes clz ctz :: u32
  assumes x: "x = v XOR gw_last_value g" "x \<noteq> 0"
    and w: "unat clz + unat ctz < 16" and le: "unat clz \<le> clz64 x div 4" "unat ctz \<le> ctz64 x div 4"
  shows "value_reads (bits_of 11 (ucast (push_bit 9 3 OR push_bit 5 clz OR (16 - (clz + ctz)))) @
      bits_of (4 * (16 - (unat clz + unat ctz))) (drop_bit (4 * unat ctz) x)) v g
      (gw_last_value g) clz ctz"
  unfolding value_reads_def
proof (intro allI impI)
  fix r :: gorilla_reader and rest
  define c where "c = (ucast (push_bit 9 3 OR push_bit 5 clz OR (16 - (clz + ctz))) :: u64)"
  let ?b = "bits_of (4 * (16 - (unat clz + unat ctz))) (drop_bit (4 * unat ctz) x)"
  have vs: "unat (16 - (clz + ctz)) < 32" "unat clz < 16" using window_arith(1) [OF w] w by simp_all
  note ctrl = ctrl_fields [OF vs(2,1), folded c_def]
  assume h: "gr_ndx r \<noteq> 0" "gr_value r = gw_last_value g"
    "br_at (gr_reader r) ((bits_of 11 (ucast (push_bit 9 3 OR push_bit 5 clz OR (16 - (clz + ctz)))) @ ?b) @ rest)"
  note h(3) [folded c_def]
  with h(1,2) obtain r1 where 1: "br_read_bit (gr_reader r) = Inr (1, r1)"
      "br_at r1 (True # bits_of 9 c @ ?b @ rest)"
    using br_at_bit [of "gr_reader r" True "True # bits_of 9 c @ ?b @ rest"] ctrl(1) by auto
  then obtain r2 where 2: "br_read_bit r1 = Inr (1, r2)" "br_at r2 (bits_of 9 c @ ?b @ rest)"
    using br_at_bit by fastforce
  then obtain r3 where 3: "br_read 9 r2 = Inr (take_bit 9 c, r3)" "br_at r3 (?b @ rest)"
    using br_at_read [of r2 9 c "?b @ rest"] by auto
  from gr_load_xor_at [OF x(2) w le 3(2), of r] obtain r' where
    "gr_load_xor (16 - (clz + ctz)) ctz r3 r
       = Inr (r\<lparr>gr_value := gr_value r XOR x, gr_value_size := 16 - (clz + ctz), gr_ctz := ctz,
               gr_reader := r'\<rparr>)" "br_at r' rest" by blast
  with h(1,2) 1 2 3 show "\<exists>r'. gr_load_next_value r = Inr r' \<and> same_clock r r' \<and> gr_value r' = v
      \<and> window_rel clz ctz (gr_value_size r') (gr_ctz r') \<and> br_at (gr_reader r') rest"
    by (simp add: gr_load_next_value_def same_clock_def window_rel_def x(1) xor_restore ctrl(2,3) w)
qed

definition window_ok :: "u32 \<Rightarrow> u32 \<Rightarrow> bool" where
  "window_ok clz ctz \<longleftrightarrow> (clz = - 1 \<and> ctz = - 1) \<or> unat clz + unat ctz < 16"

text \<open>The writer's fields that \<open>write_value\<close> leaves alone.\<close>

definition same_times :: "gorilla_writer \<Rightarrow> gorilla_writer \<Rightarrow> bool" where
  "same_times g g' \<longleftrightarrow> gw_samples g' = gw_samples g
     \<and> gw_last_timestamp g' = gw_last_timestamp g \<and> gw_last_delta g' = gw_last_delta g"

lemma bw_adds_write2:
  assumes "bw_inv w" "unat m \<le> 64" "unat n \<le> 64"
  shows "\<exists>w'. res_bind (bw_write x m w) (bw_write y n) = Inr w'
    \<and> bw_adds w (bits_of (unat m) x @ bits_of (unat n) y) w'"
proof -
  obtain w1 where 1: "bw_write x m w = Inr w1" "bw_adds w (bits_of (unat m) x) w1"
    using bw_adds_write [OF assms(1,2)] by blast
  then obtain w2 where "bw_write y n w1 = Inr w2" "bw_adds w1 (bits_of (unat n) y) w2"
    using bw_adds_write [OF bw_adds_inv assms(3)] by blast
  with 1 show ?thesis by (auto intro: bw_adds_trans)
qed

lemma nibbles_le_window:
  assumes "x \<noteq> 0" "window_ok lc lt" "lc \<le> drop_bit 2 (of_nat (clz64 x))"
    "lt \<le> drop_bit 2 (of_nat (ctz64 x))"
  shows "unat lc + unat lt < 16" "unat lc \<le> clz64 x div 4" "unat lt \<le> ctz64 x div 4"
proof -
  show "unat lc \<le> clz64 x div 4" "unat lt \<le> ctz64 x div 4"
    using assms(3,4) clz64_spec(1) [OF assms(1)] ctz64_spec(1) [OF assms(1)]
    by (simp_all add: word_le_nat_alt nibble_count)
  with clz_ctz_sum [OF assms(1)] show "unat lc + unat lt < 16" by linarith
qed

lemma gw_write_value_step:
  assumes inv: "bw_inv (gw_writer g)" "window_ok (gw_last_clz g) (gw_last_ctz g)" "gw_samples g \<noteq> 0"
  shows "\<exists>g' S. gw_write_value v g = Inr g' \<and> same_times g g' \<and> gw_last_value g' = v
    \<and> window_ok (gw_last_clz g') (gw_last_ctz g') \<and> bw_adds (gw_writer g) S (gw_writer g')
    \<and> value_reads S v g (gw_last_value g) (gw_last_clz g') (gw_last_ctz g')"
proof -
  define x where "x = v XOR gw_last_value g"
  define clz ctz :: u32 where "clz = drop_bit 2 (of_nat (clz64 x))" and "ctz = drop_bit 2 (of_nat (ctz64 x))"
  let ?lc = "gw_last_clz g" and ?lt = "gw_last_ctz g"
  consider (same) "x = 0" | (reuse) "x \<noteq> 0" "?lc \<le> clz \<and> ?lt \<le> ctz"
    | (new) "x \<noteq> 0" "\<not> (?lc \<le> clz \<and> ?lt \<le> ctz)" by blast
  then show ?thesis
  proof cases
    case same
    obtain w where w: "bw_write 0 1 (gw_writer g) = Inr w" "bw_adds (gw_writer g) [False] w"
      using bw_adds_write [OF inv(1), of 1 0] by (auto simp: tag_bits)
    have "value_reads [False] v g (gw_last_value g) (- 1) (- 1)"
      using same by (intro value_same_reads) (simp add: x_def)
    with w inv(3) same show ?thesis
      by (intro exI [of _ "g\<lparr>gw_last_clz := - 1, gw_last_ctz := - 1, gw_last_value := v, gw_writer := w\<rparr>"]
          exI [of _ "[False]"])
        (simp add: gw_write_value_def Let_def x_def same_times_def window_ok_def)
  next
    case reuse
    note n = nibbles_le_window [OF reuse(1) inv(2), folded clz_def ctz_def,
        OF reuse(2) [THEN conjunct1] reuse(2) [THEN conjunct2]]
    note a = window_arith [OF n(1)]
    obtain w where w: "res_bind (bw_write 2 2 (gw_writer g))
          (bw_write (drop_bit (4 * unat ?lt) x) (ucast (push_bit 2 (16 - (?lc + ?lt))))) = Inr w"
        "bw_adds (gw_writer g) ([True, False] @
           bits_of (4 * (16 - (unat ?lc + unat ?lt))) (drop_bit (4 * unat ?lt) x)) w"
      using bw_adds_write2 [OF inv(1), of 2 "ucast (push_bit 2 (16 - (?lc + ?lt)))" 2]
      by (auto simp: a(3) bits_2_2 tag_bits)
    have "gw_write_value v g = Inr (g\<lparr>gw_last_value := v, gw_writer := w\<rparr>)"
      using w(1) inv(3) reuse
      by (auto simp: gw_write_value_def Let_def a(2) res_bind_eq_Inr
          simp flip: x_def clz_def ctz_def)
    then show ?thesis
      using w(2) value_reuse_reads [OF x_def reuse(1) n] inv(2)
      by (intro exI [of _ "g\<lparr>gw_last_value := v, gw_writer := w\<rparr>"]) (auto simp: same_times_def)
  next
    case new
    have ok: "window_ok clz ctz"
      using clz_ctz_sum [OF new(1)] clz64_spec(1) [OF new(1)] ctz64_spec(1) [OF new(1)]
      unfolding window_ok_def clz_def ctz_def by (simp add: nibble_count) linarith
    note n = nibbles_le_window [OF new(1) ok, folded clz_def ctz_def, OF order_refl order_refl]
    note a = window_arith [OF n(1)]
    define c where "c = (ucast (push_bit 9 3 OR push_bit 5 clz OR (16 - (clz + ctz))) :: u64)"
    obtain w where w: "res_bind (bw_write c 11 (gw_writer g))
          (bw_write (drop_bit (4 * unat ctz) x) (ucast (push_bit 2 (16 - (clz + ctz))))) = Inr w"
        "bw_adds (gw_writer g) (bits_of 11 c @
           bits_of (4 * (16 - (unat clz + unat ctz))) (drop_bit (4 * unat ctz) x)) w"
      using bw_adds_write2 [OF inv(1), of 11 "ucast (push_bit 2 (16 - (clz + ctz)))" c]
      by (auto simp: a(3))
    let ?g = "g\<lparr>gw_last_clz := clz, gw_last_ctz := ctz, gw_last_value := v, gw_writer := w\<rparr>"
    have "gw_write_value v g = Inr ?g"
      using w(1) inv(3) new
      by (auto simp: gw_write_value_def Let_def a(2) res_bind_eq_Inr c_def
          simp flip: x_def clz_def ctz_def)
    then show ?thesis
      using w(2) value_window_reads [OF x_def new(1) n, folded c_def] ok
      by (intro exI [of _ ?g]) (auto simp: same_times_def)
  qed
qed

section \<open>Samples\<close>

text \<open>
  The series the codec is for: timestamps never go back and every delta of deltas fits the
  encodings. \<open>deltas_ok p d ts\<close> starts from the previous timestamp \<open>p\<close> and delta \<open>d\<close>.
\<close>

fun deltas_ok :: "u64 \<Rightarrow> u64 \<Rightarrow> (u64 \<times> u64) list \<Rightarrow> bool" where
  "deltas_ok p d [] = True"
| "deltas_ok p d ((t, v) # xs) \<longleftrightarrow> p \<le> t \<and> encodable (t - p - d) \<and> deltas_ok t (t - p) xs"

fun series_ok :: "(u64 \<times> u64) list \<Rightarrow> bool" where
  "series_ok [] = True"
| "series_ok ((t, v) # xs) = deltas_ok t 0 xs"

definition gw_inv :: "gorilla_writer \<Rightarrow> bool" where
  "gw_inv g \<longleftrightarrow> bw_inv (gw_writer g) \<and> window_ok (gw_last_clz g) (gw_last_ctz g)
     \<and> (gw_samples g = 1 \<longrightarrow> gw_last_delta g = 0)"

text \<open>After at least one sample, the reader holds what the writer held after the same sample.\<close>

definition codec_rel :: "gorilla_writer \<Rightarrow> gorilla_reader \<Rightarrow> bool" where
  "codec_rel g r \<longleftrightarrow> gr_ndx r = gw_samples g \<and> gr_timestamp r = gw_last_timestamp g
     \<and> gr_delta r = gw_last_delta g \<and> gr_value r = gw_last_value g
     \<and> window_rel (gw_last_clz g) (gw_last_ctz g) (gr_value_size r) (gr_ctz r)"

lemma gw_write_timestamp_step:
  assumes "bw_inv (gw_writer g)" "gw_samples g \<noteq> 0" "gw_samples g = 1 \<longrightarrow> gw_last_delta g = 0"
    and "gw_last_timestamp g \<le> t"
  shows "\<exists>w. gw_write_timestamp t g
      = Inr (g\<lparr>gw_delta := t - gw_last_timestamp g, gw_last_delta := t - gw_last_timestamp g,
             gw_last_timestamp := t, gw_writer := w\<rparr>)
    \<and> bw_adds (gw_writer g) (delta_code (t - gw_last_timestamp g - gw_last_delta g)) w"
proof -
  obtain w where "gw_write_encoded (t - gw_last_timestamp g - gw_last_delta g) (gw_writer g) = Inr w"
      "bw_adds (gw_writer g) (delta_code (t - gw_last_timestamp g - gw_last_delta g)) w"
    using gw_write_encoded_adds [OF assms(1)] by blast
  with assms(2-4) show ?thesis by (auto simp: gw_write_timestamp_def Let_def)
qed

lemma gr_load_timestamp_step:
  assumes "gr_ndx r \<noteq> 0" "encodable (t - gr_timestamp r - gr_delta r)"
    and "br_at (gr_reader r) (delta_code (t - gr_timestamp r - gr_delta r) @ rest)"
  shows "\<exists>r'. gr_load_next_timestamp r
      = Inr (r\<lparr>gr_delta := t - gr_timestamp r, gr_timestamp := t, gr_reader := r'\<rparr>) \<and> br_at r' rest"
  using gr_read_encoded_at [OF assms(3,2)] assms(1) by (auto simp: gr_load_next_timestamp_def)

lemma gw_write_step:
  assumes inv: "gw_inv g" "gw_samples g \<noteq> 0" and t: "gw_last_timestamp g \<le> t"
    and enc: "encodable (t - gw_last_timestamp g - gw_last_delta g)" and nz: "gw_samples g + 1 \<noteq> 1"
  shows "\<exists>g' S. gw_write t v g = Inr g' \<and> gw_inv g' \<and> bw_adds (gw_writer g) S (gw_writer g')
    \<and> gw_samples g' = gw_samples g + 1 \<and> gw_last_timestamp g' = t
    \<and> gw_last_delta g' = t - gw_last_timestamp g
    \<and> (\<forall>r rest. codec_rel g r \<longrightarrow> gr_ndx r \<noteq> gr_samples r \<longrightarrow> br_at (gr_reader r) (S @ rest) \<longrightarrow>
         (\<exists>r'. gr_next r = Inr (True, r') \<and> gr_current r' = (t, v) \<and> codec_rel g' r'
            \<and> gr_samples r' = gr_samples r \<and> br_at (gr_reader r') rest))"
proof -
  let ?dd = "t - gw_last_timestamp g - gw_last_delta g"
  obtain w where w: "gw_write_timestamp t g
      = Inr (g\<lparr>gw_delta := t - gw_last_timestamp g, gw_last_delta := t - gw_last_timestamp g,
             gw_last_timestamp := t, gw_writer := w\<rparr>)" "bw_adds (gw_writer g) (delta_code ?dd) w"
    using gw_write_timestamp_step [of g t] inv t by (auto simp: gw_inv_def)
  define g1 where "g1 = g\<lparr>gw_delta := t - gw_last_timestamp g, gw_last_delta := t - gw_last_timestamp g,
             gw_last_timestamp := t, gw_writer := w\<rparr>"
  have g1: "gw_writer g1 = w" "gw_last_clz g1 = gw_last_clz g" "gw_last_ctz g1 = gw_last_ctz g"
      "gw_samples g1 = gw_samples g" "gw_last_value g1 = gw_last_value g"
      "gw_last_timestamp g1 = t" "gw_last_delta g1 = t - gw_last_timestamp g"
    by (simp_all add: g1_def)
  obtain g2 S where g2: "gw_write_value v g1 = Inr g2" "same_times g1 g2" "gw_last_value g2 = v"
      "window_ok (gw_last_clz g2) (gw_last_ctz g2)" "bw_adds w S (gw_writer g2)"
      "value_reads S v g1 (gw_last_value g1) (gw_last_clz g2) (gw_last_ctz g2)"
    using gw_write_value_step [of g1 v] bw_adds_inv [OF w(2)] inv by (auto simp: g1 gw_inv_def)
  define g' where "g' = g2\<lparr>gw_samples := gw_samples g2 + 1\<rparr>"
  have "gw_write t v g = Inr g'"
    using w(1) g2(1) by (simp add: gw_write_def g'_def g1_def)
  moreover have "bw_adds (gw_writer g) (delta_code ?dd @ S) (gw_writer g')"
    using bw_adds_trans [OF w(2) g2(5)] by (simp add: g'_def)
  moreover have "gw_inv g'"
    using g2(2,4) bw_adds_inv [OF g2(5)] nz by (simp add: gw_inv_def g'_def same_times_def g1)
  moreover have "\<exists>r'. gr_next r = Inr (True, r') \<and> gr_current r' = (t, v) \<and> codec_rel g' r'
            \<and> gr_samples r' = gr_samples r \<and> br_at (gr_reader r') rest"
    if rel: "codec_rel g r" "gr_ndx r \<noteq> gr_samples r"
      and at: "br_at (gr_reader r) ((delta_code ?dd @ S) @ rest)" for r rest
  proof -
    obtain q where q: "gr_load_next_timestamp r
        = Inr (r\<lparr>gr_delta := t - gr_timestamp r, gr_timestamp := t, gr_reader := q\<rparr>)"
        "br_at q (S @ rest)"
      using gr_load_timestamp_step [of r t "S @ rest"] rel at inv enc by (auto simp: codec_rel_def)
    let ?r1 = "r\<lparr>gr_delta := t - gr_timestamp r, gr_timestamp := t, gr_reader := q\<rparr>"
    obtain r2 where r2: "gr_load_next_value ?r1 = Inr r2" "same_clock ?r1 r2" "gr_value r2 = v"
        "window_rel (gw_last_clz g2) (gw_last_ctz g2) (gr_value_size r2) (gr_ctz r2)"
        "br_at (gr_reader r2) rest"
      using g2(6) [unfolded value_reads_def, rule_format, of ?r1 rest] rel inv q(2)
      by (auto simp: codec_rel_def g1)
    with q(1) rel g2(2,3) show ?thesis
      by (auto simp: gr_next_def gr_current_def codec_rel_def same_clock_def g'_def same_times_def g1)
  qed
  ultimately show ?thesis
    using g2(2) by (intro exI [of _ g'] exI [of _ "delta_code ?dd @ S"])
      (auto simp: g'_def same_times_def g1)
qed

section \<open>Whole series\<close>

lemma gw_write_all_step:
  "gw_inv g \<Longrightarrow> gw_samples g = of_nat k \<Longrightarrow> 0 < k \<Longrightarrow> k + length xs < 2 ^ 32 \<Longrightarrow>
   deltas_ok (gw_last_timestamp g) (gw_last_delta g) xs \<Longrightarrow>
   \<exists>g' S. gw_write_all xs g = Inr g' \<and> gw_inv g' \<and> gw_samples g' = of_nat (k + length xs)
     \<and> bw_adds (gw_writer g) S (gw_writer g')
     \<and> (\<forall>r rest. codec_rel g r \<longrightarrow> gr_samples r = of_nat (k + length xs) \<longrightarrow>
          br_at (gr_reader r) (S @ rest) \<longrightarrow>
          (\<exists>r'. gr_read_all (length xs) r = Inr (xs, r')))"
proof (induction xs arbitrary: g k)
  case Nil
  then show ?case
    by (intro exI [of _ g] exI [of _ "[]"]) (simp add: bw_adds_def gw_inv_def)
next
  case (Cons x xs)
  obtain t v where x: "x = (t, v)" by (cases x)
  have k: "gw_samples g \<noteq> 0" "gw_samples g + 1 \<noteq> 1"
    using Cons.prems(2-4) by (auto simp: of_nat_eq_0_iff word_of_nat_eq_0_iff nat_dvd_not_less)
  obtain g1 S1 where s1: "gw_write t v g = Inr g1" "gw_inv g1" "bw_adds (gw_writer g) S1 (gw_writer g1)"
      "gw_samples g1 = gw_samples g + 1" "gw_last_timestamp g1 = t"
      "gw_last_delta g1 = t - gw_last_timestamp g"
      and r1: "\<And>r rest. codec_rel g r \<Longrightarrow> gr_ndx r \<noteq> gr_samples r \<Longrightarrow>
         br_at (gr_reader r) (S1 @ rest) \<Longrightarrow>
         (\<exists>r'. gr_next r = Inr (True, r') \<and> gr_current r' = (t, v) \<and> codec_rel g1 r'
            \<and> gr_samples r' = gr_samples r \<and> br_at (gr_reader r') rest)"
    using gw_write_step [OF Cons.prems(1) k(1), of t v] k(2) Cons.prems(5) x by auto
  obtain g' S where s2: "gw_write_all xs g1 = Inr g'" "gw_inv g'"
      "gw_samples g' = of_nat (Suc k + length xs)" "bw_adds (gw_writer g1) S (gw_writer g')"
      and r2: "\<forall>r rest. codec_rel g1 r \<longrightarrow> gr_samples r = of_nat (Suc k + length xs) \<longrightarrow>
          br_at (gr_reader r) (S @ rest) \<longrightarrow> (\<exists>r'. gr_read_all (length xs) r = Inr (xs, r'))"
    using Cons.IH [of g1 "Suc k"] s1 Cons.prems x by auto
  have "\<exists>r'. gr_read_all (length (x # xs)) r = Inr (x # xs, r')"
    if rel: "codec_rel g r" and sm: "gr_samples r = of_nat (k + length (x # xs))"
      and at: "br_at (gr_reader r) ((S1 @ S) @ rest)" for r rest
  proof -
    have "of_nat (Suc (length xs)) \<noteq> (0 :: u32)"
      using Cons.prems(4) unfolding word_of_nat_eq_0_iff by (auto dest: dvd_imp_le)
    then have "gr_ndx r \<noteq> gr_samples r"
      using rel sm Cons.prems(2) by (auto simp: codec_rel_def)
    then obtain r' where "gr_next r = Inr (True, r')" "gr_current r' = (t, v)" "codec_rel g1 r'"
        "gr_samples r' = gr_samples r" "br_at (gr_reader r') (S @ rest)"
      using r1 [OF rel, of "S @ rest"] at by auto
    with r2 [rule_format, of r' rest] sm x show ?thesis by auto
  qed
  with s1 s2 x bw_adds_trans [OF s1(3) s2(4)] show ?case
    by (intro exI [of _ g'] exI [of _ "S1 @ S"]) auto
qed

lemma gw_write_first:
  "\<exists>g. gw_write t v gorilla_writer_init = Inr g \<and> gw_inv g \<and> gw_samples g = 1
     \<and> gw_last_timestamp g = t \<and> gw_last_delta g = 0
     \<and> bw_stream (gw_writer g) = bits_of 64 t @ bits_of 64 v
     \<and> gw_last_clz g = - 1 \<and> gw_last_ctz g = - 1 \<and> gw_last_value g = v"
proof -
  obtain w1 where 1: "bw_write t 64 bit_writer_init = Inr w1" "bw_adds bit_writer_init (bits_of 64 t) w1"
    using bw_adds_write [of bit_writer_init 64 t] by auto
  obtain w2 where "bw_write v 64 w1 = Inr w2" "bw_adds w1 (bits_of 64 v) w2"
    using bw_adds_write [OF bw_adds_inv [OF 1(2)], of 64 v] by auto
  with 1 show ?thesis
    by (auto simp: gw_write_def gw_write_timestamp_def gw_write_value_def gorilla_writer_init_def
        gw_inv_def window_ok_def bw_adds_def)
qed

lemma gr_next_first:
  assumes "samples \<noteq> 0" "concat (map (bits_of 64) ws) = bits_of 64 t @ bits_of 64 v @ rest"
  shows "\<exists>r. gr_next (gorilla_reader_init samples ws) = Inr (True, r) \<and> gr_ndx r = 1
     \<and> gr_timestamp r = t \<and> gr_delta r = 0 \<and> gr_value r = v \<and> gr_value_size r = - 1
     \<and> gr_ctz r = - 1 \<and> gr_samples r = samples \<and> br_at (gr_reader r) rest"
proof -
  have "br_at (bit_reader_init ws) (bits_of 64 t @ bits_of 64 v @ rest)"
    using assms(2) by (simp add: br_at_def)
  then obtain r1 where 1: "br_read 64 (bit_reader_init ws) = Inr (t, r1)" "br_at r1 (bits_of 64 v @ rest)"
    using br_at_read [of _ 64 t "bits_of 64 v @ rest"] by (auto simp: take_bit_word_eq_self)
  then obtain r2 where "br_read 64 r1 = Inr (v, r2)" "br_at r2 rest"
    using br_at_read [of r1 64 v rest] by (auto simp: take_bit_word_eq_self)
  with 1 assms(1) show ?thesis
    by (auto simp: gr_next_def gr_load_next_timestamp_def gr_load_next_value_def gorilla_reader_init_def)
qed

text \<open>
  C1: A series of fewer than \<open>2\<^sup>3\<^sup>2\<close> samples whose timestamps never go back and whose deltas of
  deltas lie between \<open>-2147483647\<close> and \<open>2147483648\<close> is read back by \<open>gorilla_reader\<close> exactly as it was
  written by \<open>gorilla_writer\<close>, whatever its values.
\<close>

theorem gorilla_roundtrip:
  assumes "series_ok xs" and "length xs < 2 ^ 32"
  shows "series_roundtrip xs = Inr xs"
proof (cases xs)
  case Nil
  then show ?thesis by (simp add: series_roundtrip_def)
next
  case (Cons x ys)
  obtain t v where x: "x = (t, v)" by (cases x)
  obtain g1 where g1: "gw_write t v gorilla_writer_init = Inr g1" "gw_inv g1" "gw_samples g1 = 1"
      "gw_last_timestamp g1 = t" "gw_last_delta g1 = 0"
      "bw_stream (gw_writer g1) = bits_of 64 t @ bits_of 64 v"
      "gw_last_clz g1 = - 1" "gw_last_ctz g1 = - 1" "gw_last_value g1 = v"
    using gw_write_first by blast
  obtain g S where g: "gw_write_all ys g1 = Inr g" "gw_inv g" "gw_samples g = of_nat (length xs)"
      "bw_adds (gw_writer g1) S (gw_writer g)"
      and r: "\<forall>r rest. codec_rel g1 r \<longrightarrow> gr_samples r = of_nat (length xs) \<longrightarrow>
          br_at (gr_reader r) (S @ rest) \<longrightarrow> (\<exists>r'. gr_read_all (length ys) r = Inr (ys, r'))"
    using gw_write_all_step [OF g1(2), of 1 ys] g1 assms x Cons by auto
  obtain pad where "concat (map (bits_of 64) (bw_words (bw_flush (gw_writer g))))
      = bw_stream (gw_writer g) @ pad"
    using bw_flush_words [OF bw_adds_inv [OF g(4)]] .
  then have ws: "concat (map (bits_of 64) (bw_words (bw_flush (gw_writer g))))
      = bits_of 64 t @ bits_of 64 v @ (S @ pad)"
    using g(4) g1(6) by (simp add: bw_adds_def)
  have "(of_nat (length xs) :: u32) \<noteq> 0"
    using assms(2) Cons unfolding word_of_nat_eq_0_iff by (auto dest: dvd_imp_le)
  from gr_next_first [OF this ws] obtain r1 where r1:
      "gr_next (gorilla_reader_init (of_nat (length xs)) (bw_words (bw_flush (gw_writer g))))
         = Inr (True, r1)" "gr_ndx r1 = 1" "gr_timestamp r1 = t" "gr_delta r1 = 0" "gr_value r1 = v"
      "gr_value_size r1 = - 1" "gr_ctz r1 = - 1" "gr_samples r1 = of_nat (length xs)"
      "br_at (gr_reader r1) (S @ pad)"
    by blast
  have "codec_rel g1 r1" using g1 r1 by (simp add: codec_rel_def window_rel_def)
  from r [rule_format, OF this r1(8,9)] obtain r2 where "gr_read_all (length ys) r1 = Inr (ys, r2)" by blast
  with r1(1,3,5) g1(1) g(1,3) x Cons show ?thesis
    by (simp add: series_roundtrip_def gw_flush_def gr_current_def)
qed

theorem gorilla_roundtrip_witness:
  "series_roundtrip [(1000, 7), (1010, 7), (1020, 0xFF00), (5000, 0xFF00FF), (5000, 0)]
     = Inr [(1000, 7), (1010, 7), (1020, 0xFF00), (5000, 0xFF00FF), (5000, 0)]"
  by (rule gorilla_roundtrip) (simp_all add: encodable_def)

text \<open>
  A delta outside the range is cut to 32 bits without an error: the assertion that should have
  caught it tests against a mask of zero.
\<close>

lemma gr_read_encoded_cut:
  assumes "br_at r (delta_code v @ rest)" "\<not> encodable v"
  shows "\<exists>r'. gr_read_encoded r = Inr (take_bit 32 (v + 0x7fffffff) - 0x7fffffff, r')
    \<and> br_at r' rest"
proof -
  have "v \<noteq> 0" "\<not> (- 63 \<le> sint v \<and> sint v \<le> 64)" "\<not> (- 255 \<le> sint v \<and> sint v \<le> 256)"
      "\<not> (- 2047 \<le> sint v \<and> sint v \<le> 2048)"
    using assms(2) by (auto simp: encodable_def)
  then have d: "delta_code v = [True, True, True, True] @ bits_of 32 (v + 0x7fffffff)"
    unfolding delta_code_def by simp
  then obtain r1 where 1: "br_read_bit r = Inr (1, r1)"
      "br_at r1 (True # True # True # bits_of 32 (v + 0x7fffffff) @ rest)"
    using br_at_bit [of r True] assms(1) by auto
  then obtain r2 where 2: "br_read_bit r1 = Inr (1, r2)"
      "br_at r2 (True # True # bits_of 32 (v + 0x7fffffff) @ rest)"
    using br_at_bit by fastforce
  then obtain r3 where 3: "br_read_bit r2 = Inr (1, r3)"
      "br_at r3 (True # bits_of 32 (v + 0x7fffffff) @ rest)"
    using br_at_bit by fastforce
  then obtain r4 where "br_read_bit r3 = Inr (1, r4)" "br_at r4 (bits_of 32 (v + 0x7fffffff) @ rest)"
    using br_at_bit by fastforce
  with 1 2 3 br_at_read [of r4 32 "v + 0x7fffffff" rest] show ?thesis
    by (auto simp: gr_read_encoded_def)
qed

lemma cut_differs:
  assumes "\<not> encodable v"
  shows "take_bit 32 (v + 0x7fffffff) - 0x7fffffff \<noteq> (v :: u64)"
proof
  assume "take_bit 32 (v + 0x7fffffff) - 0x7fffffff = v"
  moreover have "unat (take_bit 32 (v + 0x7fffffff)) < 2 ^ 32"
    using take_bit_nat_less_exp [of 32 "unat (v + 0x7fffffff)"] by (simp add: unsigned_take_bit_eq)
  ultimately obtain y :: u64 where y: "v = y - 0x7fffffff" "unat y < 2 ^ 32" by metis
  define i where "i = int (unat y)"
  have "i < int (2 ^ 32)" unfolding i_def by (rule of_nat_less_iff [THEN iffD2, OF y(2)])
  then have i: "0 \<le> i" "i < 2 ^ 32" unfolding of_nat_power by (simp_all add: i_def)
  have "v = word_of_int (i - 0x7fffffff)" by (simp add: y(1) i_def)
  then have "sint v = i - 0x7fffffff"
    using i by (simp only: int_word_sint) simp
  with i assms show False by (simp add: encodable_def)
qed

text \<open>
  When the second timestamp of a series lies further ahead than the encodings reach (the delta
  is not between \<open>-2147483647\<close> and \<open>2147483648\<close> as a signed number), the writer accepts the sample
  and the reader returns, without any error, a series that is not the one written.
\<close>

lemma gorilla_wide_delta_lost:
  assumes "t0 \<le> t1" and "\<not> encodable (t1 - t0)"
  shows "\<exists>g. gw_write_all [(t0, v0), (t1, v0)] gorilla_writer_init = Inr g
    \<and> (\<exists>ys. series_roundtrip [(t0, v0), (t1, v0)] = Inr ys \<and> length ys = 2
         \<and> ys \<noteq> [(t0, v0), (t1, v0)])"
proof -
  let ?d = "t1 - t0"
  obtain g1 where g1: "gw_write t0 v0 gorilla_writer_init = Inr g1" "gw_inv g1" "gw_samples g1 = 1"
      "gw_last_timestamp g1 = t0" "gw_last_delta g1 = 0"
      "bw_stream (gw_writer g1) = bits_of 64 t0 @ bits_of 64 v0"
      "gw_last_clz g1 = - 1" "gw_last_ctz g1 = - 1" "gw_last_value g1 = v0"
    using gw_write_first by blast
  obtain w where w: "gw_write_timestamp t1 g1
      = Inr (g1\<lparr>gw_delta := ?d, gw_last_delta := ?d, gw_last_timestamp := t1, gw_writer := w\<rparr>)"
      "bw_adds (gw_writer g1) (delta_code ?d) w"
    using gw_write_timestamp_step [of g1 t1] g1 assms(1) by (auto simp: gw_inv_def)
  obtain w2 where w2: "bw_write 0 1 w = Inr w2" "bw_adds w [False] w2"
    using bw_adds_write [OF bw_adds_inv [OF w(2)], of 1 0] by (auto simp: tag_bits)
  define g2 where "g2 = g1\<lparr>gw_delta := ?d, gw_last_delta := ?d, gw_last_timestamp := t1,
      gw_last_clz := - 1, gw_last_ctz := - 1, gw_writer := w2, gw_samples := 2\<rparr>"
  have wr: "gw_write_all [(t0, v0), (t1, v0)] gorilla_writer_init = Inr g2"
    using g1 w(1) w2(1) by (simp add: gw_write_def gw_write_value_def Let_def g2_def)
  obtain pad where "concat (map (bits_of 64) (bw_words (bw_flush w2))) = bw_stream w2 @ pad"
    using bw_flush_words [OF bw_adds_inv [OF w2(2)]] .
  then have ws: "concat (map (bits_of 64) (bw_words (bw_flush w2)))
      = bits_of 64 t0 @ bits_of 64 v0 @ (delta_code ?d @ False # pad)"
    using w(2) w2(2) g1(6) by (simp add: bw_adds_def)
  obtain r1 where r1: "gr_next (gorilla_reader_init 2 (bw_words (bw_flush w2))) = Inr (True, r1)"
      "gr_ndx r1 = 1" "gr_timestamp r1 = t0" "gr_delta r1 = 0" "gr_value r1 = v0" "gr_samples r1 = 2"
      "br_at (gr_reader r1) (delta_code ?d @ False # pad)"
    using gr_next_first [OF _ ws, of 2] by auto
  obtain q where q: "gr_read_encoded (gr_reader r1) = Inr (take_bit 32 (?d + 0x7fffffff) - 0x7fffffff, q)"
      "br_at q (False # pad)"
    using gr_read_encoded_cut [OF r1(7) assms(2)] by blast
  obtain q2 where q2: "br_read_bit q = Inr (0, q2)"
    using br_at_bit [OF q(2)] by auto
  define t' where "t' = t0 + (take_bit 32 (?d + 0x7fffffff) - 0x7fffffff)"
  have "\<exists>r2. gr_next r1 = Inr (True, r2) \<and> gr_current r2 = (t', v0)"
    using r1 q(1) q2
    by (simp add: gr_next_def gr_load_next_timestamp_def gr_load_next_value_def gr_current_def t'_def)
  then have "series_roundtrip [(t0, v0), (t1, v0)] = Inr [(t0, v0), (t', v0)]"
    using wr r1 by (auto simp: series_roundtrip_def gw_flush_def g2_def gr_current_def numeral_2_eq_2)
  moreover have "t' \<noteq> t1"
    using cut_differs [OF assms(2)] by (metis add_diff_cancel_left' t'_def)
  ultimately show ?thesis using wr by simp
qed

lemma gorilla_wide_delta_lost_witness:
  "\<exists>g. gw_write_all [(0, 5), (0x200000000, 5)] gorilla_writer_init = Inr g
    \<and> (\<exists>ys. series_roundtrip [(0, 5), (0x200000000, 5)] = Inr ys \<and> length ys = 2
         \<and> ys \<noteq> [(0, 5), (0x200000000, 5)])"
  by (rule gorilla_wide_delta_lost) (simp_all add: encodable_def)

end
