(* ===== verification/Location.thy ===== *)
theory Location
  imports Prelude
begin

text \<open>
  Packed references of \<open>tyrdbs/location.h\<close>: 48 bits of file offset, one bit for a leaf, 15 bits of
  compressed node size; and the bounded key copy of \<open>tyrdbs/key_buffer.h\<close>.
\<close>

section \<open>location\<close>

definition max_offset :: u64 where
  "max_offset = 0x1000000000000"

definition max_size :: u16 where
  "max_size = 0x7fff"

definition invalid_size :: u16 where
  "invalid_size = 0xffff"

definition offset_from :: "u64 \<Rightarrow> u64" where
  "offset_from location = drop_bit 16 location"

definition size_from :: "u64 \<Rightarrow> u16" where
  "size_from location = ucast (location AND 0x7fff)"

definition is_leaf_from :: "u64 \<Rightarrow> bool" where
  "is_leaf_from location \<longleftrightarrow> location AND 0x8000 \<noteq> 0"

definition is_valid :: "u64 \<Rightarrow> bool" where
  "is_valid location \<longleftrightarrow> location AND 0xffff \<noteq> ucast invalid_size"

text \<open>\<open>location::size\<close>; \<open>is_leaf\<close> is an integer there, 0 or 1 at every call.\<close>

definition loc_size :: "u16 \<Rightarrow> u16 \<Rightarrow> u16" where
  "loc_size sz is_leaf = push_bit 15 is_leaf OR sz"

definition loc_make :: "u64 \<Rightarrow> u16 \<Rightarrow> bool \<Rightarrow> u64 res" where
  "loc_make offset sz is_leaf =
     res_assert (offset < max_offset)
       (res_assert (sz < max_size)
         (Inr (push_bit 16 offset OR ucast (loc_size sz (of_bool is_leaf)))))"

text \<open>The overload that takes the size with its leaf bit, as it stands in the file.\<close>

definition loc_make_raw :: "u64 \<Rightarrow> u16 \<Rightarrow> u64 res" where
  "loc_make_raw offset sz =
     res_assert (offset < max_offset) (Inr (push_bit 16 offset OR ucast sz))"

lemma ucast_u16_u64: "ucast (ucast (x :: u16) :: u64) = x"
  by (rule bit_word_eqI) (auto simp: bit_simps)

lemma ucast_u16_eq_0: "ucast (x :: u16) = (0 :: u64) \<longleftrightarrow> x = 0"
  by (metis ucast_u16_u64 ucast_0)

lemma loc_raw_fields:
  fixes offset :: u64 and sz :: u16
  assumes "offset < max_offset"
  shows "offset_from (push_bit 16 offset OR ucast sz) = offset"
    and "(push_bit 16 offset OR ucast sz) AND 0xffff = (ucast sz :: u64)"
proof -
  have o48: "take_bit 48 offset = offset"
    using assms by (simp add: max_offset_def word_less_nat_alt word_unat_eq_iff
        unsigned_take_bit_eq take_bit_nat_eq_self)
  show "offset_from (push_bit 16 offset OR ucast sz) = offset"
  proof (rule bit_word_eqI)
    fix i
    have "bit offset i \<Longrightarrow> i < 48" using o48 by (metis bit_take_bit_iff)
    then show "bit (offset_from (push_bit 16 offset OR ucast sz)) i = bit offset i"
      using bit_imp_le_length [of offset i] bit_imp_le_length [of sz "16 + i"] by (auto simp: offset_from_def bit_simps)
  qed
  have m: "(0xffff :: u64) = mask 16" by (simp add: mask_eq_exp_minus_1)
  show "(push_bit 16 offset OR ucast sz) AND 0xffff = (ucast sz :: u64)"
    unfolding m take_bit_eq_mask [symmetric]
    by (rule bit_word_eqI) (auto simp: bit_simps dest: bit_imp_le_length)
qed

lemma loc_size_fields:
  assumes "sz < max_size"
  shows "loc_size sz (of_bool leaf) AND 0x7fff = sz"
    and "loc_size sz (of_bool leaf) AND 0x8000 \<noteq> 0 \<longleftrightarrow> leaf"
    and "loc_size sz (of_bool leaf) \<noteq> invalid_size"
proof -
  have s15: "take_bit 15 sz = sz"
    using assms by (simp add: max_size_def word_less_nat_alt word_unat_eq_iff
        unsigned_take_bit_eq take_bit_nat_eq_self)
  then have sb: "bit sz i \<Longrightarrow> i < 15" for i by (metis bit_take_bit_iff)
  have m: "(0x7fff :: u16) = mask 15" by (simp add: mask_eq_exp_minus_1)
  show f: "loc_size sz (of_bool leaf) AND 0x7fff = sz"
    unfolding m take_bit_eq_mask [symmetric] loc_size_def
    by (rule bit_word_eqI) (auto simp: bit_simps dest: sb)
  have b: "bit (loc_size sz (of_bool leaf)) 15 = leaf"
    using sb [of 15] by (auto simp: loc_size_def bit_simps)
  have "(loc_size sz (of_bool leaf) AND push_bit 15 1 \<noteq> 0) = bit (loc_size sz (of_bool leaf)) 15"
    by (simp add: bit_iff_and_push_bit_not_eq_0)
  with b show "loc_size sz (of_bool leaf) AND 0x8000 \<noteq> 0 \<longleftrightarrow> leaf" by simp
  show "loc_size sz (of_bool leaf) \<noteq> invalid_size"
  proof
    assume "loc_size sz (of_bool leaf) = invalid_size"
    with f have "sz = 0x7fff" by (simp add: invalid_size_def)
    with assms show False by (simp add: max_size_def)
  qed
qed

lemma loc_fields:
  assumes "offset < max_offset" and "sz < max_size"
    and l_def: "l = push_bit 16 offset OR ucast (loc_size sz (of_bool leaf))"
  shows "offset_from l = offset" "size_from l = sz" "is_leaf_from l = leaf" "is_valid l"
proof -
  let ?z = "loc_size sz (of_bool leaf)"
  note raw = loc_raw_fields [OF assms(1), of ?z, folded l_def] and z = loc_size_fields [OF assms(2), of leaf]
  show "offset_from l = offset" by (rule raw(1))
  have "l AND 0x7fff = (l AND 0xffff) AND 0x7fff" by (simp add: and.assoc)
  then have "l AND 0x7fff = ucast ?z AND ucast (0x7fff :: u16)" using raw(2) by simp
  then have "l AND 0x7fff = ucast sz" using z(1) by (metis unsigned_and_eq)
  then show "size_from l = sz" by (simp add: size_from_def ucast_u16_u64)
  have "l AND 0x8000 = (l AND 0xffff) AND 0x8000" by (simp add: and.assoc)
  then have "l AND 0x8000 = ucast ?z AND ucast (0x8000 :: u16)" using raw(2) by simp
  then have "l AND 0x8000 = ucast (?z AND 0x8000)" by (metis unsigned_and_eq)
  then show "is_leaf_from l = leaf"
    using z(2) unfolding is_leaf_from_def by (simp only: ucast_u16_eq_0)
  show "is_valid l"
    unfolding is_valid_def raw(2) using z(3) ucast_u16_u64 by metis
qed

text \<open>
  A location packed from an offset below \<open>2\<^sup>4\<^sup>8\<close>, a size below \<open>0x7fff\<close> and a leaf flag is valid and
  gives back exactly these three when it is taken apart.
\<close>

lemma location_roundtrip:
  assumes "offset < max_offset" and "sz < max_size"
  shows "\<exists>l. loc_make offset sz leaf = Inr l \<and> offset_from l = offset \<and> size_from l = sz
    \<and> is_leaf_from l = leaf \<and> is_valid l"
  using assms loc_fields [OF assms refl] by (auto simp: loc_make_def)

lemma location_roundtrip_witness:
  "\<exists>l. loc_make 0x123456789ABC 0x1234 True = Inr l \<and> offset_from l = 0x123456789ABC
    \<and> size_from l = 0x1234 \<and> is_leaf_from l = True \<and> is_valid l"
  by (rule location_roundtrip) (simp_all add: max_offset_def max_size_def)

section \<open>key_buffer\<close>

definition max_key_size :: nat where
  "max_key_size = 1024"

text \<open>The array keeps what it held past the copied prefix; only \<open>m_size\<close> bytes are ever read.\<close>

record key_buffer =
  kb_data :: bytes
  kb_size :: nat

definition key_buffer_init :: key_buffer where
  "key_buffer_init = \<lparr>kb_data = replicate max_key_size 0, kb_size = 0\<rparr>"

definition kb_view :: "key_buffer \<Rightarrow> bytes" where
  "kb_view b = take (kb_size b) (kb_data b)"

definition kb_clear :: "key_buffer \<Rightarrow> key_buffer" where
  "kb_clear b = b\<lparr>kb_size := 0\<rparr>"

definition kb_assign :: "bytes \<Rightarrow> key_buffer \<Rightarrow> key_buffer res" where
  "kb_assign k b =
     res_assert (length k \<le> length (kb_data b))
       (Inr (b\<lparr>kb_data := k @ drop (length k) (kb_data b), kb_size := length k\<rparr>))"

definition kb_inv :: "key_buffer \<Rightarrow> bool" where
  "kb_inv b \<longleftrightarrow> length (kb_data b) = max_key_size \<and> kb_size b \<le> max_key_size"

lemma kb_init_inv [simp]: "kb_inv key_buffer_init" "kb_view key_buffer_init = []"
  by (simp_all add: kb_inv_def key_buffer_init_def kb_view_def)

lemma kb_size_view: "kb_inv b \<Longrightarrow> length (kb_view b) = kb_size b"
  by (simp add: kb_inv_def kb_view_def)

lemma kb_clear_inv [simp]: "kb_inv b \<Longrightarrow> kb_inv (kb_clear b)" "kb_view (kb_clear b) = []"
  by (simp_all add: kb_inv_def kb_clear_def kb_view_def)

lemma kb_assign_Inr:
  assumes "kb_inv b" "length k \<le> max_key_size"
  obtains b' where "kb_assign k b = Inr b'" "kb_inv b'" "kb_view b' = k"
  using assms by (simp add: kb_assign_def kb_inv_def kb_view_def)

end
