(* ===== verification/Node.thy ===== *)
theory Node
  imports Location
begin

text \<open>
  The data page of a slice: \<open>tyrdbs/node.h\<close>, \<open>node.cpp\<close> (reading) and \<open>node_writer.h\<close>,
  \<open>node_writer.cpp\<close> (building). A page holds a key count, a table of 6-byte entries growing up
  from offset 2, and the bytes of attributes, value and key of each entry growing down from the
  end of the page. \<open>nw_rep w es\<close> says that a writer's page holds exactly the entries \<open>es\<close>; adding
  is shown to append to \<open>es\<close> and the accessors of \<open>node\<close> to read \<open>es\<close> back.

  LZ4 is a parameter: \<open>compress\<close> and \<open>decompress\<close> stand for \<open>LZ4_compress_default\<close> and
  \<open>LZ4_decompress_safe\<close> with the page's size as capacity, \<open>None\<close> for their error results.
\<close>

section \<open>Memory\<close>

definition rd16 :: "bytes \<Rightarrow> nat \<Rightarrow> u16" where
  "rd16 d off = le_word (peek d off 2)"

section \<open>node\<close>

definition page_size :: nat where
  "page_size = 8192"

definition node_size :: nat where
  "node_size = (page_size - 32) * 255 div 256"

lemma node_size_value: "node_size = 8128"
  by (simp add: node_size_def page_size_def)

record node =
  nd_data :: bytes
  nd_key_count :: u16
  nd_next :: u64

definition node_init :: node where
  "node_init = \<lparr>nd_data = replicate node_size 0, nd_key_count = - 1, nd_next = - 1\<rparr>"

text \<open>\<open>node::entry\<close>: two 16-bit fields and the bit fields \<open>key_size : 10\<close>, \<open>eor : 1\<close>, \<open>deleted : 1\<close>.\<close>

record entry =
  en_value_size :: u16
  en_key_offset :: u16
  en_bits :: u16

definition entry_offset_of :: "nat \<Rightarrow> nat" where
  "entry_offset_of ndx = 2 + 2 * ndx + 4 * ndx"

definition entry_at :: "node \<Rightarrow> nat \<Rightarrow> entry" where
  "entry_at n ndx = (let off = entry_offset_of ndx in
     \<lparr>en_value_size = rd16 (nd_data n) off, en_key_offset = rd16 (nd_data n) (off + 2),
      en_bits = rd16 (nd_data n) (off + 4)\<rparr>)"

definition en_key_size :: "entry \<Rightarrow> nat" where
  "en_key_size e = unat (en_bits e AND 0x3ff)"

definition node_load :: "(bytes \<Rightarrow> bytes option) \<Rightarrow> bytes \<Rightarrow> node \<Rightarrow> node res" where
  "node_load decompress source n =
     res_assert (nd_key_count n = - 1)
       (case decompress source of
          None \<Rightarrow> Inl (Thrown ''runtime_error'')
        | Some d \<Rightarrow>
            if length d \<noteq> node_size then Inl (Thrown ''runtime_error'')
            else Inr (n\<lparr>nd_data := d, nd_key_count := rd16 d 0\<rparr>))"

definition set_next :: "u64 \<Rightarrow> node \<Rightarrow> node res" where
  "set_next next_node n = res_assert (next_node \<noteq> 0) (Inr (n\<lparr>nd_next := next_node\<rparr>))"

definition key_at :: "node \<Rightarrow> nat \<Rightarrow> bytes" where
  "key_at n ndx = (let e = entry_at n ndx in
     peek (nd_data n) (unat (en_key_offset e)) (en_key_size e))"

definition value_at :: "node \<Rightarrow> nat \<Rightarrow> bytes" where
  "value_at n ndx = (let e = entry_at n ndx; offset = en_key_offset e - en_value_size e in
     peek (nd_data n) (unat offset) (unat (en_value_size e)))"

text \<open>\<open>attributes_at<Attributes>\<close>, with \<open>asize\<close> for \<open>sizeof(Attributes)\<close>.\<close>

definition attributes_at :: "nat \<Rightarrow> node \<Rightarrow> nat \<Rightarrow> bytes" where
  "attributes_at asize n ndx =
     (let e = entry_at n ndx; offset = en_key_offset e - en_value_size e - of_nat asize in
      peek (nd_data n) (unat offset) asize)"

definition eor_at :: "node \<Rightarrow> nat \<Rightarrow> bool" where
  "eor_at n ndx \<longleftrightarrow> bit (en_bits (entry_at n ndx)) 10"

definition deleted_at :: "node \<Rightarrow> nat \<Rightarrow> bool" where
  "deleted_at n ndx \<longleftrightarrow> bit (en_bits (entry_at n ndx)) 11"

text \<open>
  \<open>node::lower_bound\<close>: bisection down to eight candidates, then a scan. The bisection and the scan
  only look at \<open>key_at\<close>, so they take it as a function.
\<close>

function bisect_keys :: "(nat \<Rightarrow> bytes) \<Rightarrow> bytes \<Rightarrow> nat \<Rightarrow> nat \<Rightarrow> nat \<times> nat" where
  "bisect_keys ks key start stop =
     (if 8 < stop - start then
        let ndx = (stop - start) div 2 + start in
        if sv_compare key (ks ndx) \<le> 0 then bisect_keys ks key start ndx
        else bisect_keys ks key ndx stop
      else (start, stop))"
  by pat_completeness auto
termination
  by (relation "measure (\<lambda>(_, _, start, stop). stop - start)") auto

declare bisect_keys.simps [simp del]

fun scan_keys :: "(nat \<Rightarrow> bytes) \<Rightarrow> bytes \<Rightarrow> nat list \<Rightarrow> nat \<Rightarrow> nat" where
  "scan_keys ks key [] stop = stop"
| "scan_keys ks key (ndx # rest) stop =
     (if sv_compare key (ks ndx) \<le> 0 then ndx else scan_keys ks key rest stop)"

definition lower_bound :: "node \<Rightarrow> bytes \<Rightarrow> nat" where
  "lower_bound n key =
     (let (start, stop) = bisect_keys (key_at n) key 0 (unat (nd_key_count n)) in
      scan_keys (key_at n) key [start..<stop] stop)"

section \<open>node_writer\<close>

record node_writer =
  nw_node :: "node option"
  nw_entry_offset :: u16
  nw_data_offset :: u16
  nw_key_count :: u16

definition node_writer_init :: node_writer where
  "node_writer_init = \<lparr>nw_node = None, nw_entry_offset = 0, nw_data_offset = 0, nw_key_count = 0\<rparr>"

definition internal_reset :: "node_writer \<Rightarrow> node_writer" where
  "internal_reset w = w\<lparr>nw_node := Some (node_init\<lparr>nd_data := replicate node_size 0\<rparr>),
     nw_entry_offset := 2, nw_data_offset := of_nat node_size, nw_key_count := 0\<rparr>"

definition nw_put :: "nat \<Rightarrow> bytes \<Rightarrow> node_writer \<Rightarrow> node_writer" where
  "nw_put off bs w = w\<lparr>nw_node := map_option (\<lambda>n. n\<lparr>nd_data := poke (nd_data n) off bs\<rparr>) (nw_node w)\<rparr>"

text \<open>\<open>required_size\<close> is a \<open>uint16_t\<close> to which sizes of any width are added.\<close>

definition required_size :: "bytes \<Rightarrow> bytes \<Rightarrow> bool \<Rightarrow> nat \<Rightarrow> u16" where
  "required_size key val no_split attrs_size =
     6 + of_nat (length key) + of_nat attrs_size
       + (if \<not> no_split then of_nat (max 16 (length val div 8)) else of_nat (length val))"

definition has_enough_space :: "bytes \<Rightarrow> bytes \<Rightarrow> bool \<Rightarrow> nat \<Rightarrow> node_writer \<Rightarrow> bool" where
  "has_enough_space key val no_split attrs_size w \<longleftrightarrow>
     \<not> (int (unat (nw_data_offset w)) - int (unat (nw_entry_offset w))
          < int (unat (required_size key val no_split attrs_size)))"

definition next_entry :: "node_writer \<Rightarrow> nat \<times> node_writer" where
  "next_entry w = (unat (nw_entry_offset w),
     w\<lparr>nw_entry_offset := nw_entry_offset w + 6, nw_key_count := nw_key_count w + 1\<rparr>)"

definition nw_allocate :: "u16 \<Rightarrow> node_writer \<Rightarrow> node_writer res" where
  "nw_allocate sz w =
     res_assert (unat (nw_entry_offset w) + unat sz \<le> unat (nw_data_offset w))
       (Inr (w\<lparr>nw_data_offset := nw_data_offset w - sz\<rparr>))"

text \<open>The three \<open>copy\<close> overloads; each returns where its bytes went (key, value) and the writer.\<close>

definition copy_key :: "bytes \<Rightarrow> node_writer \<Rightarrow> (nat \<times> node_writer) res" where
  "copy_key key w =
     res_bind (nw_allocate (of_nat (length key)) w) (\<lambda>w'.
       Inr (unat (nw_data_offset w'), nw_put (unat (nw_data_offset w')) key w'))"

definition copy_value :: "bytes \<Rightarrow> nat \<Rightarrow> node_writer \<Rightarrow> (nat \<times> node_writer) res" where
  "copy_value val reserved w =
     (let available_space = (ucast (nw_data_offset w) - (ucast (nw_entry_offset w) + of_nat reserved) :: u32);
          partial_size = (of_nat (min (unat available_space) (length val)) :: u16)
      in res_assert (partial_size < 16384)
        (res_bind (nw_allocate partial_size w) (\<lambda>w'.
          Inr (unat partial_size,
               nw_put (unat (nw_data_offset w')) (take (unat partial_size) val) w'))))"

definition copy_attributes :: "bytes \<Rightarrow> node_writer \<Rightarrow> node_writer res" where
  "copy_attributes attrs w =
     res_bind (nw_allocate (of_nat (length attrs)) w) (\<lambda>w'.
       Inr (nw_put (unat (nw_data_offset w')) attrs w'))"

definition entry_bits :: "nat \<Rightarrow> bool \<Rightarrow> bool \<Rightarrow> u16" where
  "entry_bits key_size eor deleted =
     (of_nat key_size AND 0x3ff) OR push_bit 10 (of_bool eor) OR push_bit 11 (of_bool deleted)"

definition entry_bytes :: "nat \<Rightarrow> nat \<Rightarrow> nat \<Rightarrow> bool \<Rightarrow> bool \<Rightarrow> bytes" where
  "entry_bytes value_size key_offset key_size eor deleted =
     le_bytes 2 (of_nat value_size :: u16) @ le_bytes 2 (of_nat key_offset :: u16)
       @ le_bytes 2 (entry_bits key_size eor deleted)"

definition nw_add ::
  "bytes \<Rightarrow> bytes \<Rightarrow> bool \<Rightarrow> bool \<Rightarrow> bytes \<Rightarrow> bool \<Rightarrow> node_writer \<Rightarrow> (int \<times> node_writer) res" where
  "nw_add key val eor deleted attrs no_split w =
     res_assert (key \<noteq> []) (res_assert (length key < max_key_size)
       (let w0 = (if nw_node w = None then internal_reset w else w) in
        if \<not> has_enough_space key val no_split (length attrs) w0 then Inr (- 1, w0)
        else
          let (entry, w1) = next_entry w0 in
          res_bind (copy_key key w1) (\<lambda>(key_offset, w2).
          res_bind (copy_value val (length attrs) w2) (\<lambda>(copied, w3).
          res_bind (copy_attributes attrs w3) (\<lambda>w4.
            Inr (int copied,
                 nw_put entry (entry_bytes copied key_offset (length key)
                   (eor \<and> length val = copied) deleted) w4))))))"

definition nw_flush :: "(bytes \<Rightarrow> bytes option) \<Rightarrow> node_writer \<Rightarrow> (bytes \<times> node_writer) res" where
  "nw_flush compress w =
     (let w0 = (if nw_node w = None then internal_reset w else w);
          w1 = nw_put 0 (le_bytes 2 (nw_key_count w0)) w0
      in case nw_node w1 of
           None \<Rightarrow> Inl Undefined
         | Some n \<Rightarrow>
             (case compress (nd_data n) of
                None \<Rightarrow> Inl (Thrown ''runtime_error'')
              | Some sink \<Rightarrow> Inr (sink, w1)))"

definition nw_reset :: "node_writer \<Rightarrow> (node \<times> node_writer) res" where
  "nw_reset w =
     (case nw_node w of
        None \<Rightarrow> Inl Assertion
      | Some n \<Rightarrow> Inr (n\<lparr>nd_key_count := nw_key_count w\<rparr>, w\<lparr>nw_node := None\<rparr>))"

section \<open>What a page holds\<close>

record page_entry =
  pe_key :: bytes
  pe_value :: bytes
  pe_eor :: bool
  pe_deleted :: bool
  pe_attrs :: bytes

text \<open>Entry \<open>i\<close> of the page, read through the accessors of \<open>node\<close>.\<close>

definition read_entry :: "node \<Rightarrow> nat \<Rightarrow> page_entry" where
  "read_entry n i = \<lparr>pe_key = key_at n i, pe_value = value_at n i, pe_eor = eor_at n i,
     pe_deleted = deleted_at n i, pe_attrs = attributes_at 8 n i\<rparr>"

definition entry_size :: "page_entry \<Rightarrow> nat" where
  "entry_size e = length (pe_key e) + length (pe_value e) + length (pe_attrs e)"

text \<open>
  \<open>entry_ok d low i e\<close>: in page \<open>d\<close> the table entry \<open>i\<close> and the bytes it points to, all at or above
  \<open>low\<close>, spell \<open>e\<close>.
\<close>

definition entry_ok :: "bytes \<Rightarrow> nat \<Rightarrow> nat \<Rightarrow> page_entry \<Rightarrow> bool" where
  "entry_ok d low i e \<longleftrightarrow> length (pe_attrs e) = 8 \<and> length (pe_key e) < max_key_size
     \<and> (\<exists>ko. low + 8 + length (pe_value e) \<le> ko \<and> ko + length (pe_key e) \<le> node_size
        \<and> peek d (entry_offset_of i) 6
            = entry_bytes (length (pe_value e)) ko (length (pe_key e)) (pe_eor e) (pe_deleted e)
        \<and> peek d ko (length (pe_key e)) = pe_key e
        \<and> peek d (ko - length (pe_value e)) (length (pe_value e)) = pe_value e
        \<and> peek d (ko - length (pe_value e) - 8) 8 = pe_attrs e)"

definition page_ok :: "bytes \<Rightarrow> nat \<Rightarrow> page_entry list \<Rightarrow> bool" where
  "page_ok d low es \<longleftrightarrow> length d = node_size \<and> 2 + 6 * length es \<le> low \<and> low \<le> node_size
     \<and> (\<forall>i < length es. entry_ok d low i (es ! i))"

definition nw_rep :: "node_writer \<Rightarrow> page_entry list \<Rightarrow> bool" where
  "nw_rep w es \<longleftrightarrow> (\<exists>n. nw_node w = Some n \<and> page_ok (nd_data n) (unat (nw_data_offset w)) es)
     \<and> unat (nw_entry_offset w) = 2 + 6 * length es \<and> unat (nw_key_count w) = length es"

section \<open>Reading entries back\<close>

lemma entry_offset_of_eq: "entry_offset_of i = 2 + 6 * i"
  by (simp add: entry_offset_of_def)

lemma le16: "le_word (le_bytes 2 (x :: u16)) = x"
  by (rule le_word_le_bytes_full) simp

lemma entry_bits_fields:
  assumes "k < 1024"
  shows "unat (entry_bits k eor del AND 0x3ff) = k"
    and "bit (entry_bits k eor del) 10 = eor"
    and "bit (entry_bits k eor del) 11 = del"
proof -
  have m: "(0x3ff :: u16) = mask 10" by (simp add: mask_eq_exp_minus_1)
  have "entry_bits k eor del AND 0x3ff = take_bit 10 (of_nat k)"
    unfolding entry_bits_def m take_bit_eq_mask [symmetric]
    by (rule bit_word_eqI) (auto simp: bit_simps)
  then show "unat (entry_bits k eor del AND 0x3ff) = k"
    using assms by (simp add: unsigned_take_bit_eq unat_of_nat take_bit_nat_eq_self)
  show "bit (entry_bits k eor del) 10 = eor" "bit (entry_bits k eor del) 11 = del"
    unfolding entry_bits_def m take_bit_eq_mask [symmetric] by (auto simp: bit_simps)
qed

lemma length_entry_bytes [simp]: "length (entry_bytes a b c d e) = 6"
  by (simp add: entry_bytes_def)

lemma entry_bytes_fields:
  assumes "peek d off 6 = entry_bytes vs ko ks eor del"
  shows "rd16 d off = of_nat vs" "rd16 d (off + 2) = of_nat ko"
    "rd16 d (off + 4) = entry_bits ks eor del"
proof -
  have "peek d off 6 = peek d off 2 @ peek d (off + 2) 2 @ peek d (off + 4) 2"
    using peek_split [of d off 2 4] peek_split [of d "off + 2" 2 2]
    by (simp add: add.commute add.left_commute del: add_2_eq_Suc')
  with assms have e: "peek d off 2 @ peek d (off + 2) 2 @ peek d (off + 4) 2
      = le_bytes 2 (of_nat vs :: u16) @ le_bytes 2 (of_nat ko :: u16) @ le_bytes 2 (entry_bits ks eor del)"
    by (simp add: entry_bytes_def)
  then have "length (peek d off 2 @ peek d (off + 2) 2 @ peek d (off + 4) 2) = 6" by simp
  then have "length (peek d off 2) = 2" "length (peek d (off + 2) 2) = 2"
    by (auto simp: peek_def)
  with e show "rd16 d off = of_nat vs" "rd16 d (off + 2) = of_nat ko"
    "rd16 d (off + 4) = entry_bits ks eor del"
    by (simp_all add: rd16_def le16 del: add_2_eq_Suc')
qed

lemma read_entry_ok:
  assumes "entry_ok (nd_data n) low i e"
  shows "read_entry n i = e"
proof -
  obtain ko where ko: "low + 8 + length (pe_value e) \<le> ko" "ko + length (pe_key e) \<le> node_size"
      and hd: "peek (nd_data n) (entry_offset_of i) 6
        = entry_bytes (length (pe_value e)) ko (length (pe_key e)) (pe_eor e) (pe_deleted e)"
      and mem: "peek (nd_data n) ko (length (pe_key e)) = pe_key e"
        "peek (nd_data n) (ko - length (pe_value e)) (length (pe_value e)) = pe_value e"
        "peek (nd_data n) (ko - (length (pe_value e) + 8)) 8 = pe_attrs e"
      and sz: "length (pe_attrs e) = 8" "length (pe_key e) < 1024"
    using assms by (auto simp: entry_ok_def max_key_size_def)
  note f = entry_bytes_fields [OF hd]
  have k: "unat (of_nat ko :: u16) = ko" and v: "unat (of_nat (length (pe_value e)) :: u16) = length (pe_value e)"
    using ko by (simp_all add: unat_of_nat node_size_value)
  have kv: "unat (of_nat ko - of_nat (length (pe_value e)) :: u16) = ko - length (pe_value e)"
    using ko k v by (subst unat_sub) (simp_all add: word_le_nat_alt)
  have kva: "unat (of_nat ko - of_nat (length (pe_value e)) - 8 :: u16) = ko - length (pe_value e) - 8"
    using ko kv by (subst unat_sub) (simp_all add: word_le_nat_alt)
  show ?thesis
    by (simp add: read_entry_def key_at_def value_at_def eor_at_def deleted_at_def attributes_at_def
        entry_at_def Let_def en_key_size_def f k v kv kva mem entry_bits_fields [OF sz(2)]
        del: add_2_eq_Suc')
qed

lemma page_ok_read:
  "page_ok (nd_data n) low es \<Longrightarrow> i < length es \<Longrightarrow> read_entry n i = es ! i"
  by (auto simp: page_ok_def intro: read_entry_ok)

section \<open>Adding\<close>

text \<open>A write between the table and the data disturbs no entry.\<close>

lemma entry_ok_poke:
  assumes "entry_ok d low i e" "length d = node_size" "2 + 6 * Suc i \<le> off" "off + length bs \<le> low"
    "low \<le> node_size"
  shows "entry_ok (poke d off bs) low i e"
proof -
  obtain ko where ko: "low + 8 + length (pe_value e) \<le> ko" "ko + length (pe_key e) \<le> node_size"
      and rest: "peek d (entry_offset_of i) 6
        = entry_bytes (length (pe_value e)) ko (length (pe_key e)) (pe_eor e) (pe_deleted e)"
        "peek d ko (length (pe_key e)) = pe_key e"
        "peek d (ko - length (pe_value e)) (length (pe_value e)) = pe_value e"
        "peek d (ko - length (pe_value e) - 8) 8 = pe_attrs e"
      and sz: "length (pe_attrs e) = 8" "length (pe_key e) < max_key_size"
    using assms by (auto simp: entry_ok_def)
  have b: "off + length bs \<le> length d" using assms by simp
  have "peek (poke d off bs) (entry_offset_of i) 6 = peek d (entry_offset_of i) 6"
    "peek (poke d off bs) ko (length (pe_key e)) = peek d ko (length (pe_key e))"
    "peek (poke d off bs) (ko - length (pe_value e)) (length (pe_value e))
       = peek d (ko - length (pe_value e)) (length (pe_value e))"
    "peek (poke d off bs) (ko - length (pe_value e) - 8) 8 = peek d (ko - length (pe_value e) - 8) 8"
    using ko assms(3,4) by (auto intro!: peek_poke_other [OF b] simp: entry_offset_of_eq)
  with ko rest sz show ?thesis by (auto simp: entry_ok_def)
qed

lemma entry_ok_lower:
  assumes "entry_ok d low i e" "low' \<le> low"
  shows "entry_ok d low' i e"
proof -
  have "\<And>ko. low + 8 + length (pe_value e) \<le> ko \<Longrightarrow> low' + 8 + length (pe_value e) \<le> ko"
    using assms(2) by simp
  then show ?thesis using assms(1) unfolding entry_ok_def by blast
qed

lemma page_ok_append:
  assumes ok: "page_ok d low es" and d': "length d' = node_size"
    and keep: "\<And>a n. low \<le> a \<Longrightarrow> peek d' a n = peek d a n"
      "\<And>i. i < length es \<Longrightarrow> peek d' (entry_offset_of i) 6 = peek d (entry_offset_of i) 6"
    and room: "2 + 6 * Suc (length es) \<le> low'" "low' \<le> low"
    and new: "entry_ok d' low' (length es) e"
  shows "page_ok d' low' (es @ [e])"
proof -
  have "entry_ok d' low' i ((es @ [e]) ! i)" if i: "i < Suc (length es)" for i
  proof (cases "i < length es")
    case True
    then have "entry_ok d low i (es ! i)" using ok by (simp add: page_ok_def)
    then have "entry_ok d' low i (es ! i)"
      using keep(2) [OF True] keep(1) unfolding entry_ok_def by (elim conjE exE) auto
    then show ?thesis using room(2) True by (simp add: nth_append entry_ok_lower)
  next
    case False
    with i new show ?thesis by (simp add: nth_append less_Suc_eq)
  qed
  then show ?thesis using ok d' room by (simp add: page_ok_def)
qed

text \<open>The four writes of \<open>add\<close>, bottom up, leave one more entry.\<close>

lemma page_ok_writes:
  assumes ok: "page_ok d low es"
    and room: "2 + 6 * Suc (length es) + length key + length v + length attrs \<le> low"
    and sz: "length attrs = 8" "length key < max_key_size"
    and E: "E = 2 + 6 * length es" and L1: "L1 = low - length key"
    and L2: "L2 = L1 - length v" and L3: "L3 = L2 - length attrs"
    and d': "d' = poke (poke (poke (poke d L1 key) L2 v) L3 attrs) E
      (entry_bytes (length v) L1 (length key) eor deleted)"
  shows "page_ok d' L3 (es @ [\<lparr>pe_key = key, pe_value = v, pe_eor = eor, pe_deleted = deleted,
    pe_attrs = attrs\<rparr>])" (is "page_ok _ _ (_ @ [?e])")
proof (rule page_ok_append [OF ok])
  have len: "length d = node_size" and low: "low \<le> node_size"
    using ok by (auto simp: page_ok_def)
  note fit = room E L1 L2 L3 low len sz(1)
  let ?d1 = "poke d L1 key" and ?eb = "entry_bytes (length v) L1 (length key) eor deleted"
  let ?d2 = "poke ?d1 L2 v"
  let ?d3 = "poke ?d2 L3 attrs"
  have l1: "length ?d1 = node_size" using fit by simp
  have l2: "length ?d2 = node_size" using fit l1 by simp
  have l3: "length ?d3 = node_size" using fit l2 by simp
  show "length d' = node_size" using fit l3 by (simp add: d')
  have b: "L1 + length key \<le> length d" "L2 + length v \<le> length ?d1" "L3 + length attrs \<le> length ?d2"
    "E + length ?eb \<le> length ?d3"
    using fit l1 l2 l3 by simp_all
  have out4: "peek d' a n = peek ?d3 a n" if "a + n \<le> E \<or> E + 6 \<le> a" for a n
    unfolding d' using peek_poke_other [OF b(4)] that by simp
  have out3: "peek ?d3 a n = peek ?d2 a n" if "a + n \<le> L3 \<or> L3 + length attrs \<le> a" for a n
    using peek_poke_other [OF b(3)] that by simp
  have out2: "peek ?d2 a n = peek ?d1 a n" if "a + n \<le> L2 \<or> L2 + length v \<le> a" for a n
    using peek_poke_other [OF b(2)] that by simp
  have out1: "peek ?d1 a n = peek d a n" if "a + n \<le> L1 \<or> L1 + length key \<le> a" for a n
    using peek_poke_other [OF b(1)] that by simp
  show "peek d' a n = peek d a n" if "low \<le> a" for a n
  proof -
    have "E + 6 \<le> a" "L3 + length attrs \<le> a" "L2 + length v \<le> a" "L1 + length key \<le> a"
      using that fit by simp_all
    then show ?thesis using out4 out3 out2 out1 by metis
  qed
  show "peek d' (entry_offset_of i) 6 = peek d (entry_offset_of i) 6" if "i < length es" for i
  proof -
    define a where "a = entry_offset_of i"
    have "a + 6 \<le> E" "a + 6 \<le> L3" "a + 6 \<le> L2" "a + 6 \<le> L1"
      using that fit by (simp_all add: a_def entry_offset_of_eq)
    then show ?thesis using out4 out3 out2 out1 unfolding a_def [symmetric] by metis
  qed
  show "2 + 6 * Suc (length es) \<le> L3" "L3 \<le> low" using fit by simp_all
  have "peek d' E 6 = ?eb"
    unfolding d' using peek_poke_same [OF b(4)] by simp
  moreover
  have ord: "E + 6 \<le> L3" "L3 + length attrs \<le> L2" "L2 + length v \<le> L1"
    using fit by simp_all
  then have ord': "E + 6 \<le> L2" "E + 6 \<le> L1" "L3 + length attrs \<le> L1" by simp_all
  have "peek d' L3 (length attrs) = attrs"
    using out4 ord(1) peek_poke_same [OF b(3)] by metis
  moreover have "peek d' L2 (length v) = v"
    using out4 out3 ord ord' peek_poke_same [OF b(2)] by metis
  moreover have "peek d' L1 (length key) = key"
    using out4 out3 out2 ord ord' peek_poke_same [OF b(1)] by metis
  moreover have "L1 - length v = L2" "L2 - 8 = L3" using fit by simp_all
  ultimately show "entry_ok d' L3 (length es) ?e"
    using fit sz unfolding entry_ok_def
    by (intro conjI exI [of _ L1]) (simp_all add: entry_offset_of_eq)
qed

text \<open>How many bytes of the value go into the page.\<close>

definition value_part :: "page_entry list \<Rightarrow> nat \<Rightarrow> bytes \<Rightarrow> bytes \<Rightarrow> nat" where
  "value_part es low key val = min (low - (2 + 6 * Suc (length es)) - length key - 8) (length val)"

lemma required_size_small:
  assumes "6 + length key + 8 + max 16 (if no_split then length val else length val div 8) < 65536"
  shows "unat (required_size key val no_split 8)
    = 6 + length key + 8 + (if no_split then length val else max 16 (length val div 8))"
proof -
  have "required_size key val no_split 8
      = of_nat (6 + length key + 8 + (if no_split then length val else max 16 (length val div 8)))"
    by (simp add: required_size_def)
  also have "unat \<dots> = 6 + length key + 8 + (if no_split then length val else max 16 (length val div 8))"
    unfolding unat_of_nat by (rule mod_less) (use assms in \<open>auto split: if_splits\<close>)
  finally show ?thesis .
qed

definition space_needed :: "bytes \<Rightarrow> bytes \<Rightarrow> bool \<Rightarrow> nat" where
  "space_needed key val no_split =
     14 + length key + (if no_split then length val else max 16 (length val div 8))"

lemma nw_allocate_Inr:
  assumes "unat (nw_entry_offset w) + s \<le> unat (nw_data_offset w)" "s < 65536"
  shows "nw_allocate (of_nat s) w = Inr (w\<lparr>nw_data_offset := nw_data_offset w - of_nat s\<rparr>)"
    and "unat (nw_data_offset w - of_nat s) = unat (nw_data_offset w) - s"
proof -
  have s: "unat (of_nat s :: u16) = s" using assms(2) by (simp add: unat_of_nat)
  show "nw_allocate (of_nat s) w = Inr (w\<lparr>nw_data_offset := nw_data_offset w - of_nat s\<rparr>)"
    using assms(1) s by (simp add: nw_allocate_def)
  show "unat (nw_data_offset w - of_nat s) = unat (nw_data_offset w) - s"
    using assms(1) s by (subst unat_sub) (simp_all add: word_le_nat_alt)
qed

lemma copy_value_Inr:
  assumes "unat (nw_entry_offset w) + reserved \<le> unat (nw_data_offset w)"
    "unat (nw_data_offset w) \<le> node_size"
    and n: "n = min (unat (nw_data_offset w) - unat (nw_entry_offset w) - reserved) (length val)"
  shows "copy_value val reserved w = Inr (n,
    nw_put (unat (nw_data_offset w) - n) (take n val) (w\<lparr>nw_data_offset := nw_data_offset w - of_nat n\<rparr>))"
proof -
  let ?a = "ucast (nw_data_offset w) - (ucast (nw_entry_offset w) + of_nat reserved) :: u32"
  have e: "unat (ucast (nw_entry_offset w) + of_nat reserved :: u32) = unat (nw_entry_offset w) + reserved"
    using assms(1,2)
    by (subst unat_add_lem [THEN iffD1]) (simp_all add: unsigned_ucast_eq unat_of_nat node_size_value
        unsigned_take_bit_eq take_bit_nat_eq_self)
  have d: "unat (ucast (nw_data_offset w) :: u32) = unat (nw_data_offset w)"
    by (simp add: unat_ucast_up)
  have "unat ?a = unat (nw_data_offset w) - (unat (nw_entry_offset w) + reserved)"
    using assms(1) e d by (subst unat_sub) (simp_all add: word_le_nat_alt)
  then have a: "min (unat ?a) (length val) = n" using n by simp
  have small: "n < 16384" using assms(2) n by (simp add: node_size_value)
  then have un: "unat (of_nat n :: u16) = n" by (simp add: unat_of_nat)
  have "(of_nat n :: u16) < 16384" using small un by (simp add: word_less_nat_alt)
  moreover have fits: "unat (nw_entry_offset w) + n \<le> unat (nw_data_offset w)"
    using assms(1) n by simp
  ultimately show ?thesis
    using nw_allocate_Inr [OF fits] small un
    by (simp add: copy_value_def Let_def a)
qed

lemma nw_put_fields [simp]:
  "nw_entry_offset (nw_put off bs w) = nw_entry_offset w"
  "nw_data_offset (nw_put off bs w) = nw_data_offset w"
  "nw_key_count (nw_put off bs w) = nw_key_count w"
  "nw_node (nw_put off bs w) = map_option (\<lambda>n. n\<lparr>nd_data := poke (nd_data n) off bs\<rparr>) (nw_node w)"
  by (simp_all add: nw_put_def)

lemma has_enough_space_iff:
  assumes "nw_rep w es" "length attrs = 8"
    "6 + length key + 8 + max 16 (if no_split then length val else length val div 8) < 65536"
  shows "has_enough_space key val no_split (length attrs) w
    \<longleftrightarrow> 2 + 6 * length es + space_needed key val no_split \<le> unat (nw_data_offset w)"
proof -
  have e: "unat (nw_entry_offset w) = 2 + 6 * length es" using assms(1) by (simp add: nw_rep_def)
  have r: "unat (required_size key val no_split (length attrs)) = space_needed key val no_split"
    using required_size_small [OF assms(3)] assms(2) by (simp add: space_needed_def)
  show ?thesis unfolding has_enough_space_def e r by linarith
qed

lemma nw_add_room:
  assumes rep: "nw_rep w es" and key: "key \<noteq> []" "length key < max_key_size"
    and attrs: "length attrs = 8"
    and space: "has_enough_space key val no_split (length attrs) w"
    and room: "2 + 6 * Suc (length es) + length key + 8 \<le> unat (nw_data_offset w)"
    and n: "n = value_part es (unat (nw_data_offset w)) key val"
  shows "\<exists>w'. nw_add key val eor deleted attrs no_split w = Inr (int n, w')
    \<and> nw_rep w' (es @ [\<lparr>pe_key = key, pe_value = take n val, pe_eor = eor \<and> length val = n,
        pe_deleted = deleted, pe_attrs = attrs\<rparr>])
    \<and> unat (nw_data_offset w') = unat (nw_data_offset w) - length key - n - 8"
proof -
  define L where "L = unat (nw_data_offset w)"
  obtain nd where nd: "nw_node w = Some nd" and page: "page_ok (nd_data nd) L es"
    and eo: "unat (nw_entry_offset w) = 2 + 6 * length es" and kc: "unat (nw_key_count w) = length es"
    using rep by (auto simp: nw_rep_def L_def)
  have L: "L \<le> 8128" using page by (simp add: page_ok_def node_size_value)
  note bounds = room [folded L_def] L key(2) [unfolded max_key_size_def]
  define w1 where "w1 = w\<lparr>nw_entry_offset := nw_entry_offset w + 6, nw_key_count := nw_key_count w + 1\<rparr>"
  have ne: "next_entry w = (2 + 6 * length es, w1)"
    by (simp add: next_entry_def eo w1_def)
  have eo1: "unat (nw_entry_offset w + 6) = 2 + 6 * Suc (length es)"
    using bounds eo by (subst unat_add_lem [THEN iffD1]) simp_all
  have kc1: "unat (nw_key_count w + 1) = Suc (length es)"
    using bounds kc by (subst unat_add_lem [THEN iffD1]) simp_all
  have do1: "unat (nw_data_offset w1) = L" by (simp add: w1_def L_def)
  have f1: "unat (nw_entry_offset w1) + length key \<le> unat (nw_data_offset w1)"
    using bounds eo1 do1 by (simp add: w1_def)
  have k16: "length key < 65536" using bounds by simp
  note a1 = nw_allocate_Inr [OF f1 k16]
  define L1 where "L1 = L - length key"
  define w2 where "w2 = nw_put L1 key (w1\<lparr>nw_data_offset := nw_data_offset w1 - of_nat (length key)\<rparr>)"
  have c1: "copy_key key w1 = Inr (L1, w2)"
    using a1 do1 by (simp add: copy_key_def w2_def L1_def)
  have do2: "unat (nw_data_offset w2) = L1" and eo2: "unat (nw_entry_offset w2) = 2 + 6 * Suc (length es)"
    using a1(2) do1 eo1 by (simp_all add: w2_def L1_def w1_def)
  have n': "n = min (unat (nw_data_offset w2) - unat (nw_entry_offset w2) - length attrs) (length val)"
    using bounds attrs by (simp add: do2 eo2 n value_part_def L1_def L_def [symmetric] diff_commute)
  have f2: "unat (nw_entry_offset w2) + length attrs \<le> unat (nw_data_offset w2)"
    and g2: "unat (nw_data_offset w2) \<le> node_size"
    using bounds attrs by (simp_all add: do2 eo2 L1_def node_size_value)
  define L2 where "L2 = L1 - n"
  define w3 where "w3 = nw_put L2 (take n val) (w2\<lparr>nw_data_offset := nw_data_offset w2 - of_nat n\<rparr>)"
  have c2: "copy_value val (length attrs) w2 = Inr (n, w3)"
    using copy_value_Inr [OF f2 g2 n'] by (simp add: w3_def do2 L2_def)
  have f2': "unat (nw_entry_offset w2) + n \<le> unat (nw_data_offset w2)" "n < 65536"
    using n' f2 g2 by (simp_all add: node_size_value)
  have do3: "unat (nw_data_offset w3) = L2" and eo3: "unat (nw_entry_offset w3) = 2 + 6 * Suc (length es)"
    using nw_allocate_Inr(2) [OF f2'] eo2 by (simp_all add: w3_def do2 L2_def)
  have nle: "n \<le> L1 - (2 + 6 * Suc (length es)) - 8" "n \<le> length val"
    using n' attrs by (simp_all add: do2 eo2)
  have f3: "unat (nw_entry_offset w3) + length attrs \<le> unat (nw_data_offset w3)" "length attrs < 65536"
    using nle(1) f2 attrs by (simp_all add: do3 eo3 do2 eo2 L2_def)
  define L3 where "L3 = L2 - length attrs"
  define w4 where "w4 = nw_put L3 attrs (w3\<lparr>nw_data_offset := nw_data_offset w3 - of_nat (length attrs)\<rparr>)"
  have c3: "copy_attributes attrs w3 = Inr w4"
    using nw_allocate_Inr [OF f3] by (simp add: copy_attributes_def w4_def do3 L3_def)
  let ?e = "\<lparr>pe_key = key, pe_value = take n val, pe_eor = eor \<and> length val = n,
    pe_deleted = deleted, pe_attrs = attrs\<rparr>"
  define w5 where "w5 = nw_put (2 + 6 * length es)
    (entry_bytes n L1 (length key) (eor \<and> length val = n) deleted) w4"
  have "nw_add key val eor deleted attrs no_split w = Inr (int n, w5)"
    using key nd space by (simp add: nw_add_def ne c1 c2 c3 w5_def)
  moreover have room': "2 + 6 * Suc (length es) + length key + length (take n val) + length attrs \<le> L"
    using bounds nle attrs by (simp add: L1_def)
  have node5: "nw_node w5 = Some (nd\<lparr>nd_data := poke (poke (poke (poke (nd_data nd) L1 key) L2 (take n val)) L3 attrs)
     (2 + 6 * length es) (entry_bytes (length (take n val)) L1 (length key) (eor \<and> length val = n) deleted)\<rparr>)"
    using nd nle(2) by (simp add: w5_def w4_def w3_def w2_def w1_def min_absorb2)
  have do5: "unat (nw_data_offset w5) = L3"
    using nw_allocate_Inr(2) [OF f3] by (simp add: w5_def w4_def do3 L3_def)
  have L2': "L2 = L1 - length (take n val)" using nle(2) by (simp add: L2_def min_absorb2)
  have "unat (nw_entry_offset w5) = 2 + 6 * Suc (length es)" "unat (nw_key_count w5) = Suc (length es)"
    using eo1 kc1 by (simp_all add: w5_def w4_def w3_def w2_def w1_def)
  then have "nw_rep w5 (es @ [?e])"
    using page_ok_writes [OF page room' attrs key(2) refl L1_def L2' L3_def refl,
        where eor = "eor \<and> length val = n" and deleted = deleted]
    unfolding nw_rep_def node5 do5 by simp
  ultimately show ?thesis using do5 by (auto simp: L3_def L2_def L1_def L_def attrs)
qed

lemma nw_rep_reset: "nw_rep (internal_reset w) []"
  by (simp add: nw_rep_def internal_reset_def page_ok_def node_init_def node_size_value)

lemma nw_data_offset_reset: "unat (nw_data_offset (internal_reset w)) = node_size"
  by (simp add: internal_reset_def node_size_value)

lemma nw_add_None:
  "nw_node w = None \<Longrightarrow> nw_add key val eor deleted attrs no_split w
    = nw_add key val eor deleted attrs no_split (internal_reset w)"
  by (simp add: nw_add_def internal_reset_def node_init_def)

lemma nw_add_no_space:
  assumes "nw_rep w es" "key \<noteq> []" "length key < max_key_size"
    "\<not> has_enough_space key val no_split (length attrs) w"
  shows "nw_add key val eor deleted attrs no_split w = Inr (- 1, w)"
  using assms by (auto simp: nw_add_def nw_rep_def)

lemma nw_add_spec:
  assumes "nw_rep w es" and "key \<noteq> []" and "length key < max_key_size" and "length attrs = 8"
    and "14 + length key + max 16 (if no_split then length val else length val div 8) < 65536"
  shows "if unat (nw_data_offset w) < 2 + 6 * length es + space_needed key val no_split
    then nw_add key val eor deleted attrs no_split w = Inr (- 1, w)
    else \<exists>w' n. n = value_part es (unat (nw_data_offset w)) key val
      \<and> (no_split \<longrightarrow> n = length val)
      \<and> nw_add key val eor deleted attrs no_split w = Inr (int n, w')
      \<and> nw_rep w' (es @ [\<lparr>pe_key = key, pe_value = take n val, pe_eor = eor \<and> length val = n,
          pe_deleted = deleted, pe_attrs = attrs\<rparr>])"
proof -
  have w16: "6 + length key + 8 + max 16 (if no_split then length val else length val div 8) < 65536"
    using assms(5) by simp
  note space = has_enough_space_iff [OF assms(1,4) w16]
  show ?thesis
  proof (cases "unat (nw_data_offset w) < 2 + 6 * length es + space_needed key val no_split")
    case True
    then show ?thesis using space nw_add_no_space [OF assms(1-3)] by simp
  next
    case False
    then have room: "2 + 6 * Suc (length es) + length key + 8 \<le> unat (nw_data_offset w)"
      by (auto simp: space_needed_def split: if_splits)
    have sp: "has_enough_space key val no_split (length attrs) w" using False space by simp
    have "no_split \<longrightarrow> value_part es (unat (nw_data_offset w)) key val = length val"
      using False by (auto simp: space_needed_def value_part_def)
    with False nw_add_room [OF assms(1-4) sp room refl] show ?thesis by auto
  qed
qed

text \<open>
  C2: As long as the 16-bit size computation does not wrap, \<open>node_writer::add\<close> either reports -1 and
  changes nothing, exactly when the entry header, the key, the attributes and the part of the value
  that may not be cut off do not fit, or appends exactly one entry: the key, the longest prefix of
  the value that fits, the attributes, the deleted flag, and the end-of-record flag only when the
  whole value went in. No entry already in the page changes.
\<close>

theorem node_writer_add_spec:
  assumes "nw_rep w es" and "key \<noteq> []" and "length key < max_key_size" and "length attrs = 8"
    and "14 + length key + max 16 (if no_split then length val else length val div 8) < 65536"
  shows "if unat (nw_data_offset w) < 2 + 6 * length es + space_needed key val no_split
    then nw_add key val eor deleted attrs no_split w = Inr (- 1, w)
    else \<exists>w' n. n = value_part es (unat (nw_data_offset w)) key val
      \<and> (no_split \<longrightarrow> n = length val)
      \<and> nw_add key val eor deleted attrs no_split w = Inr (int n, w')
      \<and> nw_rep w' (es @ [\<lparr>pe_key = key, pe_value = take n val, pe_eor = eor \<and> length val = n,
          pe_deleted = deleted, pe_attrs = attrs\<rparr>])"
  by (rule nw_add_spec [OF assms])

theorem node_writer_add_spec_witness:
  "\<exists>w' n. n = value_part [] 8128 [7] (replicate 9000 1) \<and> (False \<longrightarrow> n = 9000)
      \<and> nw_add [7] (replicate 9000 1) True False (replicate 8 0) False (internal_reset node_writer_init)
          = Inr (int n, w')
      \<and> nw_rep w' ([] @ [\<lparr>pe_key = [7], pe_value = take n (replicate 9000 1),
          pe_eor = True \<and> length (replicate 9000 (1 :: u8)) = n, pe_deleted = False, pe_attrs = replicate 8 0\<rparr>])"
  using node_writer_add_spec [OF nw_rep_reset, of "[7]" "replicate 8 0" False "replicate 9000 1"
      node_writer_init True False]
  by (simp add: nw_data_offset_reset node_size_value space_needed_def max_key_size_def)

text \<open>
  The 16-bit \<open>required_size\<close> wraps for values of half a megabyte: on a page with no room left the
  space check passes for such a value and the allocation assertion fires, instead of -1.
\<close>

lemma node_writer_add_wraps:
  assumes "nw_rep w es" and "key \<noteq> []" and "length key < max_key_size" and "length attrs = 8"
    and "length val div 8 = 65522 - length key"
    and "unat (nw_data_offset w) < 2 + 6 * Suc (length es) + length key"
  shows "nw_add key val eor deleted attrs False w = Inl Assertion"
proof -
  have k: "length key \<le> 65522 - 16" using assms(3) by (simp add: max_key_size_def)
  have "required_size key val False (length attrs) = of_nat (14 + length key + (65522 - length key))"
    using assms(4,5) k by (simp add: required_size_def max_absorb2)
  also have "14 + length key + (65522 - length key) = 65536" using k by simp
  finally have r: "required_size key val False (length attrs) = 0" by simp
  obtain n where n: "nw_node w = Some n" "page_ok (nd_data n) (unat (nw_data_offset w)) es"
    and eo: "unat (nw_entry_offset w) = 2 + 6 * length es"
    using assms(1) by (auto simp: nw_rep_def)
  have lo: "2 + 6 * length es \<le> unat (nw_data_offset w)" "unat (nw_data_offset w) \<le> 8128"
    using n(2) by (simp_all add: page_ok_def node_size_value)
  have sp: "has_enough_space key val False (length attrs) w"
    unfolding has_enough_space_def r eo unat_0 using lo by linarith
  have eo': "unat (nw_entry_offset w + 6) = 2 + 6 * Suc (length es)"
    using eo lo by (subst unat_add_lem [THEN iffD1]) simp_all
  have uk: "unat (of_nat (length key) :: u16) = length key"
    using assms(3) by (simp add: max_key_size_def unat_word_of_nat)
  have "copy_key key (snd (next_entry w)) = Inl Assertion"
    using assms(6) eo' by (simp add: copy_key_def nw_allocate_def next_entry_def uk)
  then show ?thesis
    using assms(2,3) n(1) sp by (auto simp: nw_add_def next_entry_def)
qed

lemma node_writer_add_wraps_witness:
  "\<exists>w es. nw_rep w es
    \<and> nw_add [7] (replicate 524168 1) True False (replicate 8 0) False w = Inl Assertion"
proof -
  have fill: "value_part [] (unat (nw_data_offset (internal_reset node_writer_init))) [7]
      (replicate 9000 (1 :: u8)) = 8111"
    by (simp add: value_part_def nw_data_offset_reset node_size_value)
  have w16: "6 + length [7 :: u8] + 8 + max 16 (if False then length (replicate 9000 (1 :: u8))
      else length (replicate 9000 (1 :: u8)) div 8) < 65536"
    by simp
  have sp: "has_enough_space [7] (replicate 9000 1) False (length (replicate 8 (0 :: u8)))
      (internal_reset node_writer_init)"
    using has_enough_space_iff [OF nw_rep_reset, where attrs = "replicate 8 0" and key = "[7]" and
        val = "replicate 9000 1" and no_split = False and w1 = node_writer_init] w16
    by (simp add: space_needed_def nw_data_offset_reset node_size_value)
  obtain w' e where rep: "nw_rep w' [e]"
      and do': "unat (nw_data_offset w') = node_size - 1 - 8111 - 8"
    using nw_add_room [OF nw_rep_reset _ _ _ sp _ fill [symmetric], where eor = True and deleted = False]
    by (auto simp: max_key_size_def nw_data_offset_reset node_size_value)
  have "nw_add [7] (replicate 524168 1) True False (replicate 8 0) False w' = Inl Assertion"
    by (rule node_writer_add_wraps [OF rep])
      (simp_all add: max_key_size_def do' node_size_value)
  then show ?thesis using rep by blast
qed

section \<open>Handing a page over\<close>

lemma nw_reset_rep:
  assumes "nw_rep w es"
  obtains n where "nw_reset w = Inr (n, w\<lparr>nw_node := None\<rparr>)" "unat (nd_key_count n) = length es"
    "page_ok (nd_data n) (unat (nw_data_offset w)) es"
  using assms by (auto simp: nw_rep_def nw_reset_def)

lemma map_read_entry:
  assumes "page_ok (nd_data n) low es"
  shows "map (read_entry n) [0..<length es] = es"
  by (rule nth_equalityI) (simp_all add: page_ok_read [OF assms])

text \<open>Storing the key count in bytes 0 and 1 disturbs no entry.\<close>

lemma page_ok_count:
  assumes "page_ok d low es" "length c = 2"
  shows "page_ok (poke d 0 c) low es" "rd16 (poke d 0 c) 0 = le_word c"
proof -
  have d: "length d = node_size" "low \<le> node_size" "2 + 6 * length es \<le> low"
    using assms(1) by (auto simp: page_ok_def)
  have b: "0 + length c \<le> length d" using d assms(2) by (simp add: node_size_value)
  have "peek (poke d 0 c) a n = peek d a n" if "2 \<le> a" for a n
    using peek_poke_other [OF b] that assms(2) by simp
  then have keep: "\<And>a n. 2 \<le> a \<Longrightarrow> peek (poke d 0 c) a n = peek d a n" .
  have "entry_ok (poke d 0 c) low i (es ! i)" if i: "i < length es" for i
  proof -
    have "entry_ok d low i (es ! i)" using assms(1) i by (simp add: page_ok_def)
    moreover have "2 \<le> low" using d by simp
    ultimately show ?thesis
      unfolding entry_ok_def by (elim conjE exE) (auto simp: keep entry_offset_of_eq)
  qed
  then show "page_ok (poke d 0 c) low es"
    using d b by (simp add: page_ok_def)
  show "rd16 (poke d 0 c) 0 = le_word c"
    using peek_poke_same [OF b] assms(2) by (simp add: rd16_def)
qed

text \<open>
  C3: Whatever a writer's page holds is what a reader gets: the node handed out by \<open>reset\<close>, and the
  node loaded from what \<open>flush\<close> compressed, have the same key count and, through \<open>key_at\<close>,
  \<open>value_at\<close>, \<open>eor_at\<close>, \<open>deleted_at\<close> and \<open>attributes_at\<close>, exactly the entries added, in order.
\<close>

theorem node_flush_load_roundtrip:
  assumes "nw_rep w es"
    and lz4: "\<forall>d c. compress d = Some c \<longrightarrow> decompress c = Some d"
    and "nw_flush compress w = Inr (sink, w1)"
  shows "\<exists>n n' w2. node_load decompress sink node_init = Inr n
    \<and> nw_reset w1 = Inr (n', w2) \<and> nw_node w2 = None
    \<and> unat (nd_key_count n) = length es \<and> map (read_entry n) [0..<length es] = es
    \<and> unat (nd_key_count n') = length es \<and> map (read_entry n') [0..<length es] = es"
proof -
  obtain nd where nd: "nw_node w = Some nd" "page_ok (nd_data nd) (unat (nw_data_offset w)) es"
    and kc: "unat (nw_key_count w) = length es"
    using assms(1) by (auto simp: nw_rep_def)
  let ?c = "le_bytes 2 (nw_key_count w)"
  let ?d = "poke (nd_data nd) 0 ?c"
  have page: "page_ok ?d (unat (nw_data_offset w)) es" and cnt: "rd16 ?d 0 = nw_key_count w"
    using page_ok_count [OF nd(2)] by (simp_all add: le16)
  have len: "length ?d = node_size" using page by (simp add: page_ok_def)
  have w1: "w1 = nw_put 0 ?c w" and "compress ?d = Some sink"
    using assms(3) nd(1) by (auto simp: nw_flush_def split: option.splits)
  then have "decompress sink = Some ?d" using lz4 by blast
  then have "node_load decompress sink node_init
      = Inr (node_init\<lparr>nd_data := ?d, nd_key_count := nw_key_count w\<rparr>)"
    using len cnt by (simp add: node_load_def node_init_def)
  moreover have "nw_reset w1 = Inr (nd\<lparr>nd_data := ?d, nd_key_count := nw_key_count w\<rparr>, w1\<lparr>nw_node := None\<rparr>)"
    using nd(1) by (simp add: nw_reset_def w1)
  ultimately show ?thesis
    using kc map_read_entry [of "node_init\<lparr>nd_data := ?d, nd_key_count := nw_key_count w\<rparr>"] page
      map_read_entry [of "nd\<lparr>nd_data := ?d, nd_key_count := nw_key_count w\<rparr>"]
    by auto
qed

lemma one_entry_page:
  obtains w es where "nw_rep w es" "length es = 1" "pe_key (hd es) = [7]" "pe_value (hd es) = [1, 2]"
proof -
  have sp: "has_enough_space [7] [1, 2] False (length (replicate 8 (0 :: u8)))
      (internal_reset node_writer_init)"
    by (simp add: has_enough_space_def required_size_def internal_reset_def node_size_value)
  have v: "value_part [] (unat (nw_data_offset (internal_reset node_writer_init))) [7] [1, 2] = 2"
    by (simp add: value_part_def nw_data_offset_reset node_size_value)
  show thesis
    using that nw_add_room [OF nw_rep_reset _ _ _ sp _ v [symmetric], where eor = True and deleted = False]
    by (auto simp: max_key_size_def nw_data_offset_reset node_size_value)
qed

theorem node_flush_load_roundtrip_witness:
  "\<exists>w es sink n n' w1 w2. length es = 1 \<and> pe_key (hd es) = [7] \<and> pe_value (hd es) = [1, 2]
    \<and> nw_flush Some w = Inr (sink, w1) \<and> node_load Some sink node_init = Inr n
    \<and> nw_reset w1 = Inr (n', w2) \<and> nw_node w2 = None
    \<and> unat (nd_key_count n) = length es \<and> map (read_entry n) [0..<length es] = es
    \<and> unat (nd_key_count n') = length es \<and> map (read_entry n') [0..<length es] = es"
proof -
  obtain w es where rep: "nw_rep w es"
    and es: "length es = 1" "pe_key (hd es) = [7]" "pe_value (hd es) = [1, 2]"
    by (rule one_entry_page)
  then obtain sink w1 where f: "nw_flush Some w = Inr (sink, w1)"
    by (auto simp: nw_flush_def nw_rep_def)
  have "\<forall>d c. (Some :: bytes \<Rightarrow> bytes option) d = Some c \<longrightarrow> Some c = Some d" by simp
  from node_flush_load_roundtrip [OF rep this f] f es show ?thesis by blast
qed

section \<open>Searching a page\<close>

lemma bisect_keys_bounds:
  "start \<le> stop \<Longrightarrow> bisect_keys ks key start stop = (s, t) \<Longrightarrow>
    \<forall>i. i < start \<longrightarrow> ks i < key \<Longrightarrow> \<forall>i. stop \<le> i \<and> i < N \<longrightarrow> key \<le> ks i \<Longrightarrow>
    \<forall>i j. i \<le> j \<and> j < N \<longrightarrow> ks i \<le> ks j \<Longrightarrow> stop \<le> N \<Longrightarrow>
    s \<le> t \<and> t \<le> N \<and> t - s \<le> 8 \<and> (\<forall>i. i < s \<longrightarrow> ks i < key) \<and> (\<forall>i. t \<le> i \<and> i < N \<longrightarrow> key \<le> ks i)"
proof (induction ks key start stop rule: bisect_keys.induct)
  case (1 ks key start stop)
  show ?case
  proof (cases "8 < stop - start")
    case False
    then have "s = start" "t = stop"
      using "1.prems"(2) by (simp_all add: bisect_keys.simps [of ks key start stop])
    with False "1.prems" show ?thesis by simp
  next
    case True
    define ndx where "ndx = (stop - start) div 2 + start"
    have mid: "start \<le> ndx" "ndx \<le> stop" "ndx < N" using True "1.prems"(1,6) by (auto simp: ndx_def)
    show ?thesis
    proof (cases "key \<le> ks ndx")
      case le: True
      have "bisect_keys ks key start ndx = (s, t)"
        using "1.prems"(2) True le by (subst (asm) bisect_keys.simps) (simp add: ndx_def)
      moreover have "\<forall>i. ndx \<le> i \<and> i < N \<longrightarrow> key \<le> ks i"
        using le "1.prems"(5) order.trans by blast
      moreover have "sv_compare key (ks ndx) \<le> 0" "ndx \<le> N" using le mid(3) by simp_all
      ultimately show ?thesis
        using "1.IH"(1) [OF True ndx_def _ mid(1)] "1.prems"(3,5) by blast
    next
      case gt: False
      have "bisect_keys ks key ndx stop = (s, t)"
        using "1.prems"(2) True gt by (subst (asm) bisect_keys.simps) (simp add: ndx_def)
      moreover have "\<forall>i. i < ndx \<longrightarrow> ks i < key"
        using gt "1.prems"(5) mid(3) by (meson le_less_trans less_imp_le not_le)
      moreover have "\<not> sv_compare key (ks ndx) \<le> 0" using gt by simp
      ultimately show ?thesis
        using "1.IH"(2) [OF True ndx_def _ mid(2)] "1.prems"(4,5,6) by blast
    qed
  qed
qed

lemma scan_keys_spec:
  assumes "\<forall>i. i < s \<longrightarrow> ks i < key" "\<forall>i. t \<le> i \<and> i < N \<longrightarrow> key \<le> ks i" "s \<le> t" "t \<le> N"
    and r: "scan_keys ks key [s..<t] t = r"
  shows "r \<le> N \<and> (\<forall>i. i < r \<longrightarrow> ks i < key) \<and> (r < N \<longrightarrow> key \<le> ks r)"
  using assms
proof (induction "t - s" arbitrary: s)
  case 0
  then show ?case by auto
next
  case (Suc d)
  then have up: "[s..<t] = s # [Suc s..<t]" by (simp add: upt_conv_Cons)
  show ?case
  proof (cases "key \<le> ks s")
    case True
    with Suc.prems up show ?thesis by auto
  next
    case False
    with Suc.prems(1) have "\<forall>i. i < Suc s \<longrightarrow> ks i < key" by (auto simp: less_Suc_eq not_le)
    moreover have "scan_keys ks key [Suc s..<t] t = r" using Suc.prems(5) up False by simp
    moreover have "d = t - Suc s" "Suc s \<le> t" using Suc.hyps(2) by simp_all
    ultimately show ?thesis using Suc.hyps(1) Suc.prems(2,4) by blast
  qed
qed

text \<open>
  C4: In a page whose keys are in ascending order \<open>lower_bound\<close> returns the number of keys below the
  one asked for: the index of the first entry with an equal or greater key, or the key count when
  there is none. It returns for every page.
\<close>

theorem node_lower_bound_correct:
  assumes "page_ok (nd_data n) low es" and "unat (nd_key_count n) = length es"
    and "sorted (map pe_key es)"
  shows "lower_bound n key = length (takeWhile (\<lambda>e. pe_key e < key) es)"
proof -
  let ?N = "length es"
  have ka: "key_at n i = pe_key (es ! i)" if "i < ?N" for i
    using page_ok_read [OF assms(1) that] by (auto simp: read_entry_def dest: arg_cong [where f = pe_key])
  have mono: "\<forall>i j. i \<le> j \<and> j < ?N \<longrightarrow> key_at n i \<le> key_at n j"
    using assms(3) ka by (auto simp: sorted_iff_nth_mono)
  obtain s t where st: "bisect_keys (key_at n) key 0 ?N = (s, t)" by fastforce
  have "s \<le> t \<and> t \<le> ?N \<and> t - s \<le> 8 \<and> (\<forall>i. i < s \<longrightarrow> key_at n i < key)
      \<and> (\<forall>i. t \<le> i \<and> i < ?N \<longrightarrow> key \<le> key_at n i)"
    by (rule bisect_keys_bounds [OF _ st _ _ mono]) auto
  moreover define r where "r = lower_bound n key"
  then have "scan_keys (key_at n) key [s..<t] t = r"
    using st assms(2) by (simp add: lower_bound_def)
  ultimately have r: "r \<le> ?N \<and> (\<forall>i. i < r \<longrightarrow> key_at n i < key) \<and> (r < ?N \<longrightarrow> key \<le> key_at n r)"
    using scan_keys_spec by blast
  have "length (takeWhile (\<lambda>e. pe_key e < key) es) = r"
  proof (rule takeWhile_eq_take_P_nth [THEN arg_cong [where f = length], THEN trans])
    show "i < r \<Longrightarrow> i < length es \<Longrightarrow> pe_key (es ! i) < key" for i using r ka [of i] by metis
    show "r < length es \<Longrightarrow> \<not> pe_key (es ! r) < key" using r ka by auto
    show "length (take r es) = r" using r by simp
  qed
  then show ?thesis by (simp add: r_def)
qed

theorem node_lower_bound_correct_witness:
  "\<exists>n (es :: page_entry list). length es = 1 \<and> pe_key (hd es) = [7]
    \<and> lower_bound n [9] = length (takeWhile (\<lambda>e. pe_key e < [9]) es)"
proof -
  obtain w es where rep: "nw_rep w es" and es: "length es = 1" "pe_key (hd es) = [7]"
    by (rule one_entry_page)
  obtain n where "nw_reset w = Inr (n, w\<lparr>nw_node := None\<rparr>)"
    and n: "unat (nd_key_count n) = length es" "page_ok (nd_data n) (unat (nw_data_offset w)) es"
    by (rule nw_reset_rep [OF rep])
  have "sorted (map pe_key es)" using es(1) by (cases es) auto
  from node_lower_bound_correct [OF n(2,1) this, of "[9]"]
  show ?thesis using es by blast
qed

end
