(* ===== verification/Slice.thy ===== *)
theory Slice
  imports Node
begin

text \<open>
  A slice, the immutable sorted table of the store: \<open>tyrdbs/slice_writer.h\<close>, \<open>slice_writer.cpp\<close>
  (building one: the order check, the stream of pages, the levels of index pages),
  \<open>tyrdbs/slice.h\<close>, \<open>slice.cpp\<close> (opening, searching and iterating one) and the page loading of
  \<open>tyrdbs/cache.cpp\<close>.

  The file a slice is written to is the byte sequence that \<open>storage::file_writer\<close> has accepted.
  LZ4 and CRC32C are the parameters \<open>compress\<close>, \<open>decompress\<close> and \<open>crc\<close>. The nodes that
  \<open>shared_ptr\<close>s share are kept in a list and referred to by index. Loops and recursions that
  data could keep going take a number of rounds and end in \<open>Out_Of_Fuel\<close> when it is used up.
\<close>

section \<open>The file\<close>

definition file_page_size :: nat where
  "file_page_size = 4096"

definition max_file_size :: nat where
  "max_file_size = 2 ^ 37"

definition file_write :: "bytes \<Rightarrow> bytes \<Rightarrow> bytes res" where
  "file_write bs f =
     (if max_file_size \<le> length f + length bs then Inl (Thrown ''error'') else Inr (f @ bs))"

text \<open>\<open>file_writer::size\<close> and \<open>file_reader::size\<close> return a \<open>uint32_t\<close>.\<close>

definition file_size :: "bytes \<Rightarrow> u32" where
  "file_size f = of_nat (length f)"

definition file_padding :: "bytes \<Rightarrow> bytes" where
  "file_padding f =
     (if length f mod file_page_size = 0 then f
      else f @ replicate (file_page_size - length f mod file_page_size) 0)"

definition file_pread :: "nat \<Rightarrow> nat \<Rightarrow> bytes \<Rightarrow> bytes res" where
  "file_pread off n f = res_assert (off < length f) (Inr (peek f off n))"

section \<open>The state of a slice writer\<close>

record slice_stats =
  ss_key_count :: u64
  ss_compressed_size :: u64
  ss_uncompressed_size :: u64
  ss_total_nodes :: u64
  ss_leaf_nodes :: u64

record slice_header =
  sh_signature :: u64
  sh_root :: u64
  sh_first_node_size :: u16
  sh_stats :: slice_stats

definition signature :: u64 where
  "signature = 0x3130306264727974"

definition slice_header_init :: slice_header where
  "slice_header_init = \<lparr>sh_signature = signature, sh_root = - 1, sh_first_node_size = - 1,
     sh_stats = \<lparr>ss_key_count = 0, ss_compressed_size = 0, ss_uncompressed_size = 0,
       ss_total_nodes = 0, ss_leaf_nodes = 0\<rparr>\<rparr>"

text \<open>One level of index pages; the chain of \<open>m_higher_level\<close> pointers is a list, lowest level first.\<close>

record index_writer =
  iw_node :: node_writer
  iw_first_key :: key_buffer
  iw_last_key :: key_buffer

definition index_writer_init :: index_writer where
  "index_writer_init = \<lparr>iw_node = node_writer_init, iw_first_key = key_buffer_init,
     iw_last_key = key_buffer_init\<rparr>"

record slice_writer =
  sw_slice_ndx :: u64
  sw_first_key :: key_buffer
  sw_last_key :: key_buffer
  sw_last_eor :: bool
  sw_commited :: bool
  sw_writer :: bytes
  sw_node :: node_writer
  sw_index :: "index_writer list"
  sw_header :: slice_header
  sw_nodes :: "node list"
  sw_last_node :: "nat option"
  sw_cached :: "(u64 \<times> nat) list"

definition slice_writer_init :: "u64 \<Rightarrow> slice_writer" where
  "slice_writer_init ndx = \<lparr>sw_slice_ndx = ndx, sw_first_key = key_buffer_init,
     sw_last_key = key_buffer_init, sw_last_eor = True, sw_commited = False, sw_writer = [],
     sw_node = node_writer_init, sw_index = [index_writer_init], sw_header = slice_header_init,
     sw_nodes = [], sw_last_node = None, sw_cached = []\<rparr>"

section \<open>Building\<close>

text \<open>\<open>slice_writer::check\<close>; true when the key differs from the last one.\<close>

definition sw_check :: "bytes \<Rightarrow> bytes \<Rightarrow> bool \<Rightarrow> bool \<Rightarrow> slice_writer \<Rightarrow> bool res" where
  "sw_check key val eor deleted w =
     (if length key = 0 then Inl (Thrown ''invalid_data_error'')
      else if max_key_size \<le> length key then Inl (Thrown ''invalid_data_error'')
      else
        let c = sv_compare key (kb_view (sw_last_key w)) in
        if kb_size (sw_last_key w) \<noteq> 0
           \<and> (c < 0 \<or> (c = 0 \<and> (sw_last_eor w \<or> deleted)) \<or> (0 < c \<and> \<not> sw_last_eor w))
        then Inl (Thrown ''invalid_data_error'')
        else if deleted \<and> (\<not> eor \<or> length val \<noteq> 0) then Inl (Thrown ''invalid_data_error'')
        else Inr (c \<noteq> 0))"

definition sw_link :: "u64 \<Rightarrow> nat option \<Rightarrow> slice_writer \<Rightarrow> slice_writer res" where
  "sw_link location last_node w =
     (case last_node of
        None \<Rightarrow> Inr w
      | Some i \<Rightarrow>
          if length (sw_nodes w) \<le> i then Inl Undefined
          else res_bind (set_next location (sw_nodes w ! i)) (\<lambda>n.
            Inr (w\<lparr>sw_nodes := (sw_nodes w)[i := n]\<rparr>)))"

definition sw_count :: "nat \<Rightarrow> bool \<Rightarrow> slice_stats \<Rightarrow> slice_stats" where
  "sw_count sz is_leaf st = st\<lparr>ss_compressed_size := ss_compressed_size st + of_nat sz,
     ss_uncompressed_size := ss_uncompressed_size st + of_nat node_size,
     ss_total_nodes := ss_total_nodes st + 1,
     ss_leaf_nodes := ss_leaf_nodes st + of_bool is_leaf\<rparr>"

text \<open>The size field in front of a page: the first page has its size in the header instead.\<close>

definition sw_put_size :: "u16 \<Rightarrow> bool \<Rightarrow> slice_writer \<Rightarrow> slice_writer res" where
  "sw_put_size sz is_leaf w =
     (if sh_first_node_size (sw_header w) \<noteq> invalid_size then
        res_bind (file_write (le_bytes 2 (loc_size sz (of_bool is_leaf))) (sw_writer w)) (\<lambda>f.
          Inr (w\<lparr>sw_writer := f\<rparr>))
      else
        res_assert is_leaf (Inr (w\<lparr>sw_header :=
          (sw_header w)\<lparr>sh_first_node_size := loc_size sz (of_bool is_leaf)\<rparr>\<rparr>)))"

definition sw_store ::
  "(bytes \<Rightarrow> bytes option) \<Rightarrow> (bytes \<Rightarrow> u32) \<Rightarrow> node_writer \<Rightarrow> bool \<Rightarrow> slice_writer \<Rightarrow>
     (u64 \<times> node_writer \<times> slice_writer) res" where
  "sw_store compress crc nw is_leaf w =
     res_assert (\<not> sw_commited w)
       (res_bind (nw_flush compress nw) (\<lambda>(buffer, nw1).
        res_assert (length buffer \<le> unat max_size)
       (res_bind (sw_put_size (of_nat (length buffer)) is_leaf w) (\<lambda>w1.
        res_bind (loc_make (ucast (file_size (sw_writer w1))) (of_nat (length buffer)) is_leaf) (\<lambda>location.
        res_bind (file_write (le_bytes 4 (crc buffer)) (sw_writer w1)) (\<lambda>f1.
        res_bind (file_write buffer f1) (\<lambda>f2.
        res_bind (sw_link location (sw_last_node w1) (w1\<lparr>sw_writer := f2\<rparr>)) (\<lambda>w2.
        res_bind (nw_reset nw1) (\<lambda>(nd, nw2).
          Inr (location, nw2,
            w2\<lparr>sw_last_node := Some (length (sw_nodes w2)), sw_nodes := sw_nodes w2 @ [nd],
              sw_cached := sw_cached w2 @ [(location, length (sw_nodes w2))],
              sw_header := (sw_header w2)\<lparr>sh_stats :=
                sw_count (length buffer) is_leaf (sh_stats (sw_header w2))\<rparr>\<rparr>))))))))))"

fun iw_add ::
  "(bytes \<Rightarrow> bytes option) \<Rightarrow> (bytes \<Rightarrow> u32) \<Rightarrow> nat \<Rightarrow> bytes \<Rightarrow> bytes \<Rightarrow> u64 \<Rightarrow>
     index_writer list \<Rightarrow> slice_writer \<Rightarrow> (index_writer list \<times> slice_writer) res" where
  "iw_add compress crc 0 mn mx location lvls w = Inl Out_Of_Fuel"
| "iw_add compress crc (Suc k) mn mx location [] w = Inl Undefined"
| "iw_add compress crc (Suc k) mn mx location (lvl # hs) w =
     res_bind (if kb_size (iw_first_key lvl) = 0 then kb_assign mn (iw_first_key lvl)
               else Inr (iw_first_key lvl)) (\<lambda>fk.
     res_bind (nw_add mn mx True False (le_bytes 8 location) True (iw_node lvl)) (\<lambda>(r, nd).
     res_bind
       (if r = - 1 then
          res_bind (sw_store compress crc nd False w) (\<lambda>(location', nd', w').
          res_bind (nw_add mn mx True False (le_bytes 8 location) True nd') (\<lambda>(_, nd'').
          res_bind (iw_add compress crc k (kb_view fk) (kb_view (iw_last_key lvl)) location'
                     (if hs = [] then [index_writer_init] else hs) w') (\<lambda>(hs', w'').
          res_bind (kb_assign mn fk) (\<lambda>fk'. Inr (nd'', fk', hs', w'')))))
        else res_assert (r = int (length mx)) (Inr (nd, fk, hs, w)))
       (\<lambda>(nd, fk, hs, w).
          res_bind (kb_assign mx (iw_last_key lvl)) (\<lambda>lk.
            Inr (\<lparr>iw_node = nd, iw_first_key = fk, iw_last_key = lk\<rparr> # hs, w)))))"

fun iw_flush ::
  "(bytes \<Rightarrow> bytes option) \<Rightarrow> (bytes \<Rightarrow> u32) \<Rightarrow> nat \<Rightarrow> index_writer list \<Rightarrow> slice_writer \<Rightarrow>
     (u64 \<times> index_writer list \<times> slice_writer) res" where
  "iw_flush compress crc 0 lvls w = Inl Out_Of_Fuel"
| "iw_flush compress crc (Suc k) [] w = Inl Undefined"
| "iw_flush compress crc (Suc k) (lvl # hs) w =
     res_bind (sw_store compress crc (iw_node lvl) False w) (\<lambda>(location, nd, w1).
       if hs = [] then Inr (location, [lvl\<lparr>iw_node := nd\<rparr>], w1)
       else
         res_bind (iw_add compress crc k (kb_view (iw_first_key lvl)) (kb_view (iw_last_key lvl))
                    location hs w1) (\<lambda>(hs', w2).
         res_bind (iw_flush compress crc k hs' w2) (\<lambda>(root, hs'', w3).
           Inr (root, lvl\<lparr>iw_node := nd\<rparr> # hs'', w3))))"

text \<open>
  The loop of \<open>slice_writer::add\<close>: \<open>k\<close> bounds its rounds, \<open>depth\<close> the levels of the index.
\<close>

definition sw_add_index ::
  "(bytes \<Rightarrow> bytes option) \<Rightarrow> (bytes \<Rightarrow> u32) \<Rightarrow> nat \<Rightarrow> u64 \<Rightarrow> slice_writer \<Rightarrow> slice_writer res" where
  "sw_add_index compress crc depth location w =
     res_bind (iw_add compress crc depth (kb_view (sw_first_key w)) (kb_view (sw_last_key w)) location
                (sw_index w) w) (\<lambda>(lvls, w').
       Inr (w'\<lparr>sw_index := lvls\<rparr>))"

definition sw_next_page ::
  "(bytes \<Rightarrow> bytes option) \<Rightarrow> (bytes \<Rightarrow> u32) \<Rightarrow> nat \<Rightarrow> bool \<Rightarrow> bytes \<Rightarrow> slice_writer \<Rightarrow>
     slice_writer res" where
  "sw_next_page compress crc depth new_key key w =
     res_bind (sw_store compress crc (sw_node w) True w) (\<lambda>(location, nd, w1).
       let w2 = w1\<lparr>sw_node := nd\<rparr> in
       if kb_size (sw_first_key w2) \<noteq> 0 then
         res_bind (sw_add_index compress crc depth location w2) (\<lambda>w3.
           if new_key then
             res_bind (kb_assign key (sw_first_key w3)) (\<lambda>fk. Inr (w3\<lparr>sw_first_key := fk\<rparr>))
           else Inr (w3\<lparr>sw_first_key := kb_clear (sw_first_key w3)\<rparr>))
       else Inr w2)"

fun sw_add_loop ::
  "(bytes \<Rightarrow> bytes option) \<Rightarrow> (bytes \<Rightarrow> u32) \<Rightarrow> nat \<Rightarrow> nat \<Rightarrow> bool \<Rightarrow> bytes \<Rightarrow> bytes \<Rightarrow> bool \<Rightarrow>
     bool \<Rightarrow> u64 \<Rightarrow> slice_writer \<Rightarrow> slice_writer res" where
  "sw_add_loop compress crc depth 0 new_key key val eor deleted idx w = Inl Out_Of_Fuel"
| "sw_add_loop compress crc depth (Suc k) new_key key val eor deleted idx w =
     res_bind (nw_add key val eor deleted (le_bytes 8 idx) False (sw_node w)) (\<lambda>(r, nd).
       let w0 = w\<lparr>sw_node := nd\<rparr>; val' = (if r \<noteq> - 1 then drop (nat r) val else val) in
       if r \<noteq> - 1 \<and> val' = [] then Inr w0
       else
         res_bind (sw_next_page compress crc depth new_key key w0) (\<lambda>w1.
           sw_add_loop compress crc depth k new_key key val' eor deleted idx w1))"

definition max_idx :: u64 where
  "max_idx = 0x1000000000000"

definition sw_finish_add :: "bytes \<Rightarrow> bool \<Rightarrow> slice_writer \<Rightarrow> slice_writer res" where
  "sw_finish_add key eor w =
     res_bind (kb_assign key (sw_last_key w)) (\<lambda>lk.
       Inr (w\<lparr>sw_last_key := lk, sw_last_eor := eor, sw_header := (sw_header w)\<lparr>sh_stats :=
         (sh_stats (sw_header w))\<lparr>ss_key_count := ss_key_count (sh_stats (sw_header w)) + 1\<rparr>\<rparr>\<rparr>))"

definition sw_add ::
  "(bytes \<Rightarrow> bytes option) \<Rightarrow> (bytes \<Rightarrow> u32) \<Rightarrow> nat \<Rightarrow> nat \<Rightarrow> bytes \<Rightarrow> bytes \<Rightarrow> bool \<Rightarrow> bool \<Rightarrow> u64 \<Rightarrow>
     slice_writer \<Rightarrow> slice_writer res" where
  "sw_add compress crc depth k key val eor deleted idx w =
     res_assert (\<not> sw_commited w) (res_assert (idx < max_idx)
       (res_bind (sw_check key val eor deleted w) (\<lambda>new_key.
        res_bind (if new_key \<and> kb_size (sw_first_key w) = 0 then
                    res_bind (kb_assign key (sw_first_key w)) (\<lambda>fk. Inr (w\<lparr>sw_first_key := fk\<rparr>))
                  else Inr w) (\<lambda>w0.
        res_bind (sw_add_loop compress crc depth k new_key key val eor deleted idx w0)
          (sw_finish_add key eor)))))"

text \<open>One item of an \<open>iterator\<close>, and \<open>slice_writer::add(iterator*, bool)\<close> on what the iterator yields.\<close>

record item =
  it_key :: bytes
  it_value :: bytes
  it_eor :: bool
  it_deleted :: bool
  it_idx :: u64

fun sw_add_all ::
  "(bytes \<Rightarrow> bytes option) \<Rightarrow> (bytes \<Rightarrow> u32) \<Rightarrow> nat \<Rightarrow> nat \<Rightarrow> bool \<Rightarrow> item list \<Rightarrow> slice_writer \<Rightarrow>
     slice_writer res" where
  "sw_add_all compress crc depth k compact [] w = Inr w"
| "sw_add_all compress crc depth k compact (i # is) w =
     (if compact \<and> it_deleted i then sw_add_all compress crc depth k compact is w
      else
        res_bind (sw_add compress crc depth k (it_key i) (it_value i) (it_eor i) (it_deleted i) (it_idx i) w)
          (sw_add_all compress crc depth k compact is))"

text \<open>The memory image of the packed header, 58 bytes.\<close>

definition header_bytes :: "slice_header \<Rightarrow> bytes" where
  "header_bytes h = le_bytes 8 (sh_signature h) @ le_bytes 8 (sh_root h) @ le_bytes 2 (sh_first_node_size h)
     @ le_bytes 8 (ss_key_count (sh_stats h)) @ le_bytes 8 (ss_compressed_size (sh_stats h))
     @ le_bytes 8 (ss_uncompressed_size (sh_stats h)) @ le_bytes 8 (ss_total_nodes (sh_stats h))
     @ le_bytes 8 (ss_leaf_nodes (sh_stats h))"

definition header_read :: "bytes \<Rightarrow> slice_header" where
  "header_read d = \<lparr>sh_signature = le_word (peek d 0 8), sh_root = le_word (peek d 8 8),
     sh_first_node_size = le_word (peek d 16 2),
     sh_stats = \<lparr>ss_key_count = le_word (peek d 18 8), ss_compressed_size = le_word (peek d 26 8),
       ss_uncompressed_size = le_word (peek d 34 8), ss_total_nodes = le_word (peek d 42 8),
       ss_leaf_nodes = le_word (peek d 50 8)\<rparr>\<rparr>"

definition sw_write :: "bytes \<Rightarrow> slice_writer \<Rightarrow> slice_writer res" where
  "sw_write bs w = res_bind (file_write bs (sw_writer w)) (\<lambda>f. Inr (w\<lparr>sw_writer := f\<rparr>))"

definition sw_add_padding :: "slice_writer \<Rightarrow> slice_writer" where
  "sw_add_padding w = w\<lparr>sw_writer := file_padding (sw_writer w)\<rparr>"

text \<open>The last page, the size field that ends the chain of leaves, and the index.\<close>

definition sw_flush_pages ::
  "(bytes \<Rightarrow> bytes option) \<Rightarrow> (bytes \<Rightarrow> u32) \<Rightarrow> nat \<Rightarrow> slice_writer \<Rightarrow> slice_writer res" where
  "sw_flush_pages compress crc depth w =
     res_bind (sw_store compress crc (sw_node w) True w) (\<lambda>(location, nd, w0).
     res_bind (sw_write (le_bytes 2 invalid_size) (w0\<lparr>sw_node := nd\<rparr>)) (\<lambda>w1.
       let last_data_node = sw_last_node w1 in
       res_bind (if kb_size (sw_first_key w1) \<noteq> 0 then sw_add_index compress crc depth location w1
                 else Inr w1) (\<lambda>w2.
       res_bind (iw_flush compress crc depth (sw_index w2) w2) (\<lambda>(root, lvls, w3).
       res_bind (sw_link (ucast invalid_size) last_data_node
                  (w3\<lparr>sw_index := lvls, sw_header := (sw_header w3)\<lparr>sh_root := root\<rparr>\<rparr>)) (\<lambda>w4.
         sw_link (ucast invalid_size) (sw_last_node w4) w4)))))"

definition sw_flush ::
  "(bytes \<Rightarrow> bytes option) \<Rightarrow> (bytes \<Rightarrow> u32) \<Rightarrow> nat \<Rightarrow> slice_writer \<Rightarrow> slice_writer res" where
  "sw_flush compress crc depth w =
     res_assert (\<not> sw_commited w)
       (if \<not> sw_last_eor w then Inl (Thrown ''invalid_data_error'')
        else
          res_bind (sw_flush_pages compress crc depth w) (\<lambda>w1.
          res_bind (sw_write (le_bytes 2 invalid_size) w1) (\<lambda>w2.
          res_bind (sw_write (header_bytes (sw_header w2)) (sw_add_padding w2)) (\<lambda>w3.
            Inr (sw_add_padding w3)))))"

record slice =
  sl_slice_ndx :: u64
  sl_reader :: bytes
  sl_key_count :: u64
  sl_root :: u64
  sl_first_node_size :: u64
  sl_unlink :: bool

definition sw_commit :: "slice_writer \<Rightarrow> (slice \<times> slice_writer) res" where
  "sw_commit w =
     res_assert (sh_root (sw_header w) \<noteq> - 1) (res_assert (\<not> sw_commited w)
       (Inr (\<lparr>sl_slice_ndx = sw_slice_ndx w, sl_reader = sw_writer w,
               sl_key_count = ss_key_count (sh_stats (sw_header w)), sl_root = sh_root (sw_header w),
               sl_first_node_size = ucast (sh_first_node_size (sw_header w)), sl_unlink = False\<rparr>,
             w\<lparr>sw_commited := True\<rparr>)))"

section \<open>Opening and reading\<close>

definition slice_open :: "u64 \<Rightarrow> bytes \<Rightarrow> slice res" where
  "slice_open ndx f =
     res_assert (file_size f AND (of_nat file_page_size - 1) = 0) (res_assert (of_nat file_page_size < file_size f)
       (res_bind (file_pread (unat (file_size f - of_nat file_page_size)) 58 f) (\<lambda>d.
          let h = header_read d in
          if sh_signature h \<noteq> signature then Inl (Thrown ''runtime_error'')
          else Inr \<lparr>sl_slice_ndx = ndx, sl_reader = f, sl_key_count = ss_key_count (sh_stats h),
                 sl_root = sh_root h, sl_first_node_size = ucast (sh_first_node_size h),
                 sl_unlink = False\<rparr>)))"

text \<open>\<open>cache::load\<close>: the page at a location, its checksum, and the link to the page after it.\<close>

definition cache_load ::
  "(bytes \<Rightarrow> bytes option) \<Rightarrow> (bytes \<Rightarrow> u32) \<Rightarrow> bytes \<Rightarrow> u64 \<Rightarrow> node res" where
  "cache_load decompress crc f location =
     (let node_offset = offset_from location; sz = unat (size_from location) in
      res_assert (sz \<le> node_size)
        (res_bind (file_pread (unat node_offset) (sz + 6) f) (\<lambda>d.
           if crc (peek d 4 sz) \<noteq> le_word (peek d 0 4) then Inl (Thrown ''runtime_error'')
           else
             res_bind (node_load decompress (peek d 4 sz) node_init) (\<lambda>n.
             res_bind (loc_make_raw (node_offset + of_nat sz + 6) (rd16 d (4 + sz))) (\<lambda>next_node.
               set_next next_node n)))))"

text \<open>
  The rest takes the page loader \<open>slice::load\<close> as the argument \<open>ld\<close>: it is \<open>cache_load\<close> on the
  slice's file, or the cached node (\<open>Node_Cache\<close>).
\<close>

definition index_at :: "node \<Rightarrow> bytes \<Rightarrow> nat" where
  "index_at n min_key =
     (let ndx = lower_bound n min_key in
      if ndx \<noteq> unat (nd_key_count n) then
        (if sv_compare min_key (key_at n ndx) < 0 \<and> ndx \<noteq> 0 then ndx - 1 else ndx)
      else unat (of_nat ndx - 1 :: u16))"

fun find_node_for :: "nat \<Rightarrow> (u64 \<Rightarrow> node res) \<Rightarrow> u64 \<Rightarrow> bytes \<Rightarrow> bytes \<Rightarrow> u64 res" where
  "find_node_for 0 ld location min_key max_key = Inl Out_Of_Fuel"
| "find_node_for (Suc k) ld location min_key max_key =
     res_bind (ld location) (\<lambda>n.
       let ndx = index_at n min_key in
       if 0 < sv_compare min_key (value_at n ndx) then Inr (- 1)
       else if sv_compare max_key (key_at n ndx) < 0 then Inr (- 1)
       else
         let location' = le_word (attributes_at 8 n ndx) in
         if is_leaf_from location' then Inr location'
         else find_node_for k ld location' min_key max_key)"

text \<open>\<open>slice_iterator\<close>: \<open>si_node\<close> is \<open>None\<close> once \<open>m_slice\<close> is null.\<close>

record slice_iterator =
  si_node :: "node option"
  si_ndx :: u16
  si_attrs :: "u64 option"

definition slice_iterator_make :: "node \<Rightarrow> nat \<Rightarrow> slice_iterator res" where
  "slice_iterator_make n ndx =
     res_assert (ndx < unat (nd_key_count n))
       (Inr \<lparr>si_node = Some n, si_ndx = of_nat ndx, si_attrs = None\<rparr>)"

fun si_load_next :: "nat \<Rightarrow> (u64 \<Rightarrow> node res) \<Rightarrow> node \<Rightarrow> (node option) res" where
  "si_load_next 0 ld n = Inl Out_Of_Fuel"
| "si_load_next (Suc k) ld n =
     (let location = nd_next n in
      if \<not> is_valid location then Inr None
      else
        res_bind (ld location) (\<lambda>n'.
          if is_leaf_from location then Inr (Some n') else si_load_next k ld n'))"

definition si_attrs_at :: "node \<Rightarrow> u16 \<Rightarrow> u64" where
  "si_attrs_at n ndx = le_word (attributes_at 8 n (unat ndx))"

definition si_next :: "nat \<Rightarrow> (u64 \<Rightarrow> node res) \<Rightarrow> slice_iterator \<Rightarrow> (bool \<times> slice_iterator) res" where
  "si_next k ld it =
     (case si_node it of
        None \<Rightarrow> Inr (False, it)
      | Some n \<Rightarrow>
          if si_attrs it = None then Inr (True, it\<lparr>si_attrs := Some (si_attrs_at n (si_ndx it))\<rparr>)
          else if int (unat (si_ndx it)) = int (unat (nd_key_count n)) - 1 then
            res_bind (si_load_next k ld n) (\<lambda>r.
              case r of
                None \<Rightarrow> Inr (False, it\<lparr>si_node := None\<rparr>)
              | Some n' \<Rightarrow>
                  Inr (True, it\<lparr>si_node := Some n', si_ndx := 0, si_attrs := Some (si_attrs_at n' 0)\<rparr>))
          else
            Inr (True, it\<lparr>si_ndx := si_ndx it + 1, si_attrs := Some (si_attrs_at n (si_ndx it + 1))\<rparr>))"

definition si_item :: "slice_iterator \<Rightarrow> item res" where
  "si_item it =
     (case (si_node it, si_attrs it) of
        (Some n, Some idx) \<Rightarrow>
          Inr \<lparr>it_key = key_at n (unat (si_ndx it)), it_value = value_at n (unat (si_ndx it)),
            it_eor = eor_at n (unat (si_ndx it)), it_deleted = deleted_at n (unat (si_ndx it)),
            it_idx = idx\<rparr>
      | _ \<Rightarrow> Inl Undefined)"

definition slice_range :: "nat \<Rightarrow> (u64 \<Rightarrow> node res) \<Rightarrow> bytes \<Rightarrow> bytes \<Rightarrow> slice \<Rightarrow> (slice_iterator option) res" where
  "slice_range k ld min_key max_key s =
     (if sl_key_count s = 0 then Inr None
      else
        res_assert (sv_compare min_key max_key \<le> 0)
          (res_bind (find_node_for k ld (sl_root s) min_key max_key) (\<lambda>location.
             if \<not> is_valid location then Inr None
             else
               res_bind (ld location) (\<lambda>n.
               res_bind (slice_iterator_make n (lower_bound n min_key)) (\<lambda>it. Inr (Some it))))))"

definition slice_begin :: "(u64 \<Rightarrow> node res) \<Rightarrow> slice \<Rightarrow> (slice_iterator option) res" where
  "slice_begin ld s =
     (if sl_key_count s = 0 then Inr None
      else
        res_bind (loc_make_raw 0 (ucast (sl_first_node_size s))) (\<lambda>location.
        res_bind (ld location) (\<lambda>n.
        res_bind (slice_iterator_make n 0) (\<lambda>it. Inr (Some it)))))"

definition slice_unlink :: "slice \<Rightarrow> slice res" where
  "slice_unlink s = res_assert (\<not> sl_unlink s) (Inr (s\<lparr>sl_unlink := True\<rparr>))"

text \<open>A client that drains an iterator, at most \<open>m\<close> items.\<close>

fun si_drain :: "nat \<Rightarrow> (u64 \<Rightarrow> node res) \<Rightarrow> nat \<Rightarrow> slice_iterator \<Rightarrow> (item list) res" where
  "si_drain k ld 0 it = Inl Out_Of_Fuel"
| "si_drain k ld (Suc m) it =
     res_bind (si_next k ld it) (\<lambda>(more, it').
       if more then
         res_bind (si_item it') (\<lambda>i. res_bind (si_drain k ld m it') (\<lambda>is. Inr (i # is)))
       else Inr [])"

section \<open>The order check\<close>

definition well_formed_item :: "item \<Rightarrow> bool" where
  "well_formed_item i \<longleftrightarrow> it_key i \<noteq> [] \<and> length (it_key i) < max_key_size
     \<and> (it_deleted i \<longrightarrow> it_eor i \<and> it_value i = [])"

text \<open>Which item may follow which: parts of one record share a key, and only the last has \<open>eor\<close>.\<close>

definition may_follow :: "item \<Rightarrow> item \<Rightarrow> bool" where
  "may_follow a b \<longleftrightarrow> (if it_eor a then it_key a < it_key b else it_key a = it_key b \<and> \<not> it_deleted b)"

fun well_formed_stream :: "item list \<Rightarrow> bool" where
  "well_formed_stream [] = True"
| "well_formed_stream [i] = well_formed_item i"
| "well_formed_stream (i # j # is) = (well_formed_item i \<and> may_follow i j \<and> well_formed_stream (j # is))"

text \<open>\<open>check\<close> on one item after another, with what \<open>add\<close> records in between.\<close>

fun check_stream :: "item list \<Rightarrow> slice_writer \<Rightarrow> slice_writer res" where
  "check_stream [] w = Inr w"
| "check_stream (i # is) w =
     res_bind (sw_check (it_key i) (it_value i) (it_eor i) (it_deleted i) w) (\<lambda>_.
     res_bind (sw_finish_add (it_key i) (it_eor i) w) (check_stream is))"

text \<open>What the check looks at, and what it accepts, in terms of the item before.\<close>

definition last_item :: "item option \<Rightarrow> slice_writer \<Rightarrow> bool" where
  "last_item p w \<longleftrightarrow> kb_inv (sw_last_key w) \<and>
     (case p of None \<Rightarrow> kb_size (sw_last_key w) = 0
      | Some i \<Rightarrow> it_key i \<noteq> [] \<and> kb_view (sw_last_key w) = it_key i \<and> sw_last_eor w = it_eor i)"

lemma sw_check_Inr:
  assumes "last_item p w"
  shows "(\<exists>b. sw_check (it_key i) (it_value i) (it_eor i) (it_deleted i) w = Inr b)
    \<longleftrightarrow> well_formed_item i \<and> (case p of None \<Rightarrow> True | Some j \<Rightarrow> may_follow j i)"
proof (cases p)
  case None
  then have "kb_size (sw_last_key w) = 0" using assms by (simp add: last_item_def)
  with None show ?thesis
    by (auto simp: sw_check_def well_formed_item_def Let_def)
next
  case (Some j)
  then have v: "kb_view (sw_last_key w) = it_key j" "it_key j \<noteq> []" "sw_last_eor w = it_eor j"
    and "kb_inv (sw_last_key w)"
    using assms by (auto simp: last_item_def)
  then have "kb_size (sw_last_key w) \<noteq> 0" using kb_size_view [of "sw_last_key w"] by (metis length_0_conv)
  with Some v show ?thesis
    by (auto simp: sw_check_def well_formed_item_def may_follow_def Let_def)
qed

lemma sw_finish_add_last:
  assumes "last_item p w" "well_formed_item i"
  obtains w' where "sw_finish_add (it_key i) (it_eor i) w = Inr w'" "last_item (Some i) w'"
proof -
  have "kb_inv (sw_last_key w)" "length (it_key i) \<le> max_key_size"
    using assms by (auto simp: last_item_def well_formed_item_def)
  then obtain b where "kb_assign (it_key i) (sw_last_key w) = Inr b" "kb_inv b" "kb_view b = it_key i"
    by (rule kb_assign_Inr)
  then show thesis
    using that assms(2) by (auto simp: sw_finish_add_def last_item_def well_formed_item_def)
qed

lemma well_formed_stream_Cons:
  "well_formed_stream (i # is) \<longleftrightarrow> well_formed_item i
     \<and> (case is of [] \<Rightarrow> True | j # _ \<Rightarrow> may_follow i j) \<and> well_formed_stream is"
  by (cases "is") auto

lemma check_stream_iff:
  "last_item p w \<Longrightarrow> (\<exists>w'. check_stream is w = Inr w')
     \<longleftrightarrow> well_formed_stream is \<and> (case (p, is) of (Some j, i # _) \<Rightarrow> may_follow j i | _ \<Rightarrow> True)"
proof (induction "is" arbitrary: p w)
  case Nil
  then show ?case by (simp split: option.split)
next
  case (Cons i "is")
  let ?c = "sw_check (it_key i) (it_value i) (it_eor i) (it_deleted i) w"
  show ?case
  proof (cases "\<exists>b. ?c = Inr b")
    case True
    then have wf: "well_formed_item i" and mf: "case p of None \<Rightarrow> True | Some j \<Rightarrow> may_follow j i"
      using sw_check_Inr [OF Cons.prems] by simp_all
    obtain w' where w': "sw_finish_add (it_key i) (it_eor i) w = Inr w'" "last_item (Some i) w'"
      using sw_finish_add_last [OF Cons.prems wf] .
    have "(\<exists>w''. check_stream (i # is) w = Inr w'') \<longleftrightarrow> (\<exists>w''. check_stream is w' = Inr w'')"
      using True w'(1) by auto
    also have "\<dots> \<longleftrightarrow> well_formed_stream is \<and> (case is of [] \<Rightarrow> True | j # _ \<Rightarrow> may_follow i j)"
      using Cons.IH [OF w'(2)] by (simp split: list.split)
    finally show ?thesis
      using wf mf by (auto simp: well_formed_stream_Cons split: option.splits)
  next
    case False
    then have "\<nexists>w''. check_stream (i # is) w = Inr w''"
      by (auto simp: res_bind_eq_Inr)
    moreover have "\<not> (well_formed_item i \<and> (case p of None \<Rightarrow> True | Some j \<Rightarrow> may_follow j i))"
      using False sw_check_Inr [OF Cons.prems] by simp
    ultimately show ?thesis
      by (auto simp: well_formed_stream_Cons split: option.splits)
  qed
qed

text \<open>
  The checks of a new slice writer accept exactly the well-formed streams: every key of 1 to 1023
  bytes; a key greater than the one before when that one's record was complete, and equal to it when
  it was not; a deletion is a whole record with no value. Anything else is \<open>invalid_data_error\<close>.
\<close>

lemma slice_check_accepts:
  "(\<exists>w'. check_stream is (slice_writer_init ndx) = Inr w') \<longleftrightarrow> well_formed_stream is"
proof -
  have "last_item None (slice_writer_init ndx)"
    by (simp add: last_item_def slice_writer_init_def kb_inv_def key_buffer_init_def)
  from check_stream_iff [OF this] show ?thesis by simp
qed

text \<open>Storing pages and indexing them leaves alone what the check looks at.\<close>

definition same_input :: "slice_writer \<Rightarrow> slice_writer \<Rightarrow> bool" where
  "same_input w w' \<longleftrightarrow> sw_last_key w' = sw_last_key w \<and> sw_last_eor w' = sw_last_eor w
     \<and> sw_first_key w' = sw_first_key w \<and> sw_commited w' = sw_commited w
     \<and> sw_slice_ndx w' = sw_slice_ndx w \<and> sw_node w' = sw_node w \<and> sw_index w' = sw_index w
     \<and> ss_key_count (sh_stats (sw_header w')) = ss_key_count (sh_stats (sw_header w))
     \<and> sh_root (sw_header w') = sh_root (sw_header w)
     \<and> sh_signature (sw_header w') = sh_signature (sw_header w)"

lemma same_input_refl [simp]: "same_input w w"
  by (simp add: same_input_def)

lemma same_input_trans: "same_input a b \<Longrightarrow> same_input b c \<Longrightarrow> same_input a c"
  by (simp add: same_input_def)

lemma sw_put_size_same: "sw_put_size sz l w = Inr w' \<Longrightarrow> same_input w w'"
  by (auto simp: sw_put_size_def res_bind_eq_Inr res_assert_eq_Inr same_input_def split: if_splits)

lemma sw_link_same: "sw_link l i w = Inr w' \<Longrightarrow> same_input w w'"
  by (auto simp: sw_link_def res_bind_eq_Inr same_input_def split: option.splits if_splits)

lemma sw_store_Inr:
  assumes "sw_store compress crc nw leaf w = Inr (l, nw', w')"
  obtains buffer nw1 w1 w2 nd where
    "\<not> sw_commited w" "nw_flush compress nw = Inr (buffer, nw1)" "length buffer \<le> unat max_size"
    "sw_put_size (of_nat (length buffer)) leaf w = Inr w1"
    "loc_make (ucast (file_size (sw_writer w1))) (of_nat (length buffer)) leaf = Inr l"
    "length (sw_writer w1) + 4 + length buffer < max_file_size"
    "sw_link l (sw_last_node w1)
       (w1\<lparr>sw_writer := sw_writer w1 @ le_bytes 4 (crc buffer) @ buffer\<rparr>) = Inr w2"
    "nw_reset nw1 = Inr (nd, nw')"
    "w' = w2\<lparr>sw_last_node := Some (length (sw_nodes w2)), sw_nodes := sw_nodes w2 @ [nd],
              sw_cached := sw_cached w2 @ [(l, length (sw_nodes w2))],
              sw_header := (sw_header w2)\<lparr>sh_stats :=
                sw_count (length buffer) leaf (sh_stats (sw_header w2))\<rparr>\<rparr>"
  using assms
  by (auto simp: sw_store_def res_bind_eq_Inr res_assert_eq_Inr file_write_def not_le add.assoc
      simp del: append_assoc append_eq_append_conv split: prod.splits if_splits)
    (auto simp: append_assoc)

lemma sw_store_same:
  assumes "sw_store compress crc nw leaf w = Inr (l, nw', w')"
  shows "same_input w w'"
  using assms
proof (rule sw_store_Inr)
  fix buffer nw1 w1 w2 nd
  assume a: "sw_put_size (of_nat (length buffer)) leaf w = Inr w1"
    "sw_link l (sw_last_node w1) (w1\<lparr>sw_writer := sw_writer w1 @ le_bytes 4 (crc buffer) @ buffer\<rparr>) = Inr w2"
    "w' = w2\<lparr>sw_last_node := Some (length (sw_nodes w2)), sw_nodes := sw_nodes w2 @ [nd],
              sw_cached := sw_cached w2 @ [(l, length (sw_nodes w2))],
              sw_header := (sw_header w2)\<lparr>sh_stats :=
                sw_count (length buffer) leaf (sh_stats (sw_header w2))\<rparr>\<rparr>"
  have "same_input w2 w'" by (simp add: a(3) same_input_def sw_count_def)
  moreover have "same_input w1 (w1\<lparr>sw_writer := f\<rparr>)" for f by (simp add: same_input_def)
  ultimately show ?thesis
    using sw_put_size_same [OF a(1)] sw_link_same [OF a(2)] same_input_trans by blast
qed

lemma iw_add_cases:
  assumes "iw_add compress crc (Suc k) mn mx l lvls w = Inr (lvls', w')"
  obtains (fits) lvl hs where "lvls = lvl # hs" "w' = w"
  | (full) lvl hs nd l' nd' w1 fk hs' where "lvls = lvl # hs"
      "sw_store compress crc nd False w = Inr (l', nd', w1)"
      "iw_add compress crc k (kb_view fk) (kb_view (iw_last_key lvl)) l'
         (if hs = [] then [index_writer_init] else hs) w1 = Inr (hs', w')"
proof -
  obtain lvl hs where lvls: "lvls = lvl # hs" using assms by (cases lvls) auto
  show thesis
    using assms that unfolding lvls
    by (auto simp: res_bind_eq_Inr res_assert_eq_Inr split: prod.splits if_splits)
qed

lemma iw_add_same:
  "iw_add compress crc k mn mx l lvls w = Inr (lvls', w') \<Longrightarrow> same_input w w'"
proof (induction k arbitrary: mn mx l lvls w lvls' w')
  case 0
  then show ?case by simp
next
  case (Suc k)
  from Suc.prems show ?case
  proof (cases rule: iw_add_cases)
    case fits
    then show ?thesis by simp
  next
    case full
    then show ?thesis using Suc.IH sw_store_same same_input_trans by blast
  qed
qed

lemma iw_flush_same:
  "iw_flush compress crc k lvls w = Inr (r, lvls', w') \<Longrightarrow> same_input w w'"
proof (induction k arbitrary: lvls w r lvls' w')
  case 0
  then show ?case by simp
next
  case (Suc k)
  obtain lvl hs where lvls: "lvls = lvl # hs" using Suc.prems by (cases lvls) auto
  obtain l nd w1 where st: "sw_store compress crc (iw_node lvl) False w = Inr (l, nd, w1)"
    using Suc.prems unfolding lvls by (auto simp: res_bind_eq_Inr)
  show ?case
  proof (cases "hs = []")
    case True
    then show ?thesis using Suc.prems st sw_store_same [OF st] by (auto simp: lvls)
  next
    case False
    then obtain hs' w2 hs'' where a: "iw_add compress crc k (kb_view (iw_first_key lvl))
        (kb_view (iw_last_key lvl)) l hs w1 = Inr (hs', w2)" and f: "iw_flush compress crc k hs' w2 = Inr (r, hs'', w')"
      using Suc.prems st unfolding lvls by (auto simp: res_bind_eq_Inr)
    show ?thesis
      by (rule same_input_trans [OF sw_store_same [OF st] same_input_trans [OF iw_add_same [OF a] Suc.IH [OF f]]])
  qed
qed

lemma sw_next_page_cases:
  assumes "sw_next_page compress crc depth new_key key w = Inr w'"
  obtains location nd w1 where
    "sw_store compress crc (sw_node w) True w = Inr (location, nd, w1)"
    "kb_size (sw_first_key w1) = 0" "w' = w1\<lparr>sw_node := nd\<rparr>"
  | location nd w1 lvls w2 fk where
    "sw_store compress crc (sw_node w) True w = Inr (location, nd, w1)" "kb_size (sw_first_key w1) \<noteq> 0"
    "iw_add compress crc depth (kb_view (sw_first_key w1)) (kb_view (sw_last_key w1)) location
       (sw_index w1) (w1\<lparr>sw_node := nd\<rparr>) = Inr (lvls, w2)"
    "if new_key then kb_assign key (sw_first_key w2) = Inr fk else fk = kb_clear (sw_first_key w2)"
    "w' = w2\<lparr>sw_index := lvls, sw_first_key := fk\<rparr>"
proof -
  obtain location nd w1 where st: "sw_store compress crc (sw_node w) True w = Inr (location, nd, w1)"
    using assms by (auto simp: sw_next_page_def res_bind_eq_Inr)
  show thesis
  proof (cases "kb_size (sw_first_key w1) = 0")
    case True
    then show ?thesis using assms st that(1) by (simp add: sw_next_page_def)
  next
    case False
    then have "res_bind (sw_add_index compress crc depth location (w1\<lparr>sw_node := nd\<rparr>)) (\<lambda>w3.
           if new_key then
             res_bind (kb_assign key (sw_first_key w3)) (\<lambda>fk. Inr (w3\<lparr>sw_first_key := fk\<rparr>))
           else Inr (w3\<lparr>sw_first_key := kb_clear (sw_first_key w3)\<rparr>)) = Inr w'"
      using assms st by (simp add: sw_next_page_def)
    then obtain lvls w2 where ad: "iw_add compress crc depth (kb_view (sw_first_key w1)) (kb_view (sw_last_key w1)) location
         (sw_index w1) (w1\<lparr>sw_node := nd\<rparr>) = Inr (lvls, w2)"
      and rest: "(if new_key then
             res_bind (kb_assign key (sw_first_key w2)) (\<lambda>fk. Inr (w2\<lparr>sw_index := lvls, sw_first_key := fk\<rparr>))
           else Inr (w2\<lparr>sw_index := lvls, sw_first_key := kb_clear (sw_first_key w2)\<rparr>)) = Inr w'"
      by (auto simp: sw_add_index_def res_bind_eq_Inr cong: if_cong)
    show ?thesis
    proof (cases new_key)
      case True
      then show ?thesis using rest that(2) [OF st False ad] by (auto simp: res_bind_eq_Inr)
    next
      case new: False
      then show ?thesis using rest that(2) [OF st False ad] by simp
    qed
  qed
qed

lemma sw_next_page_last:
  assumes "sw_next_page compress crc depth new_key key w = Inr w'"
  shows "sw_last_key w' = sw_last_key w \<and> sw_last_eor w' = sw_last_eor w \<and> sw_commited w' = sw_commited w
    \<and> sw_slice_ndx w' = sw_slice_ndx w"
  using assms
proof (cases rule: sw_next_page_cases)
  case (1 location nd w1)
  from sw_store_same [OF 1(1)] 1(3) show ?thesis by (simp add: same_input_def)
next
  case (2 location nd w1 lvls w2 fk)
  from sw_store_same [OF 2(1)] iw_add_same [OF 2(3)] 2(5) show ?thesis by (simp add: same_input_def)
qed

lemma sw_add_loop_cases:
  assumes "sw_add_loop compress crc depth (Suc k) new_key key val eor deleted idx w = Inr w'"
  obtains (done_) r nd where
      "nw_add key val eor deleted (le_bytes 8 idx) False (sw_node w) = Inr (r, nd)" "r \<noteq> - 1"
      "drop (nat r) val = []" "w' = w\<lparr>sw_node := nd\<rparr>"
  | (page) r nd val' w1 where
      "nw_add key val eor deleted (le_bytes 8 idx) False (sw_node w) = Inr (r, nd)"
      "val' = (if r \<noteq> - 1 then drop (nat r) val else val)" "r = - 1 \<or> val' \<noteq> []"
      "sw_next_page compress crc depth new_key key (w\<lparr>sw_node := nd\<rparr>) = Inr w1"
      "sw_add_loop compress crc depth k new_key key val' eor deleted idx w1 = Inr w'"
proof -
  obtain r nd where a: "nw_add key val eor deleted (le_bytes 8 idx) False (sw_node w) = Inr (r, nd)"
    using assms by (auto simp: res_bind_eq_Inr)
  define val' where "val' = (if r \<noteq> - 1 then drop (nat r) val else val)"
  show thesis
  proof (cases "r \<noteq> - 1 \<and> val' = []")
    case True
    then show ?thesis using assms a by (intro done_ [OF a]) (auto simp: val'_def)
  next
    case False
    then have "res_bind (sw_next_page compress crc depth new_key key (w\<lparr>sw_node := nd\<rparr>)) (\<lambda>w1.
           sw_add_loop compress crc depth k new_key key val' eor deleted idx w1) = Inr w'"
      using assms unfolding val'_def by (auto simp: a Let_def)
    then show ?thesis
      using page [OF a val'_def] False by (auto simp: res_bind_eq_Inr)
  qed
qed

lemma sw_add_loop_last:
  "sw_add_loop compress crc depth k new_key key val eor deleted idx w = Inr w' \<Longrightarrow>
    sw_last_key w' = sw_last_key w \<and> sw_last_eor w' = sw_last_eor w"
proof (induction k arbitrary: val w)
  case 0
  then show ?case by simp
next
  case (Suc k)
  from Suc.prems show ?case
  proof (cases rule: sw_add_loop_cases)
    case (page r nd val' w1)
    from Suc.IH [OF page(5)] sw_next_page_last [OF page(4)] show ?thesis by simp
  qed simp
qed

lemma sw_add_check:
  assumes "sw_add compress crc depth k key val eor deleted idx w = Inr w'"
  obtains b w1 where "sw_check key val eor deleted w = Inr b"
    "sw_last_key w1 = sw_last_key w" "sw_last_eor w1 = sw_last_eor w"
    "sw_finish_add key eor w1 = Inr w'"
proof -
  obtain b w0 w1 where c: "sw_check key val eor deleted w = Inr b"
    and w0: "(if b \<and> kb_size (sw_first_key w) = 0 then
        res_bind (kb_assign key (sw_first_key w)) (\<lambda>fk. Inr (w\<lparr>sw_first_key := fk\<rparr>))
      else Inr w) = Inr w0"
    and l: "sw_add_loop compress crc depth k b key val eor deleted idx w0 = Inr w1"
    and f: "sw_finish_add key eor w1 = Inr w'"
    using assms unfolding sw_add_def res_bind_eq_Inr res_assert_eq_Inr by blast
  have "sw_last_key w0 = sw_last_key w" "sw_last_eor w0 = sw_last_eor w"
    using w0 by (auto simp: res_bind_eq_Inr split: if_splits)
  then show thesis using that [OF c _ _ f] sw_add_loop_last [OF l] by simp
qed

lemma sw_add_all_well_formed:
  "last_item p w \<Longrightarrow> sw_add_all compress crc depth k False is w = Inr w' \<Longrightarrow>
    well_formed_stream is \<and> (case (p, is) of (Some j, i # _) \<Rightarrow> may_follow j i | _ \<Rightarrow> True)"
proof (induction "is" arbitrary: p w)
  case Nil
  then show ?case by (simp split: option.split)
next
  case (Cons i "is")
  obtain w1 where a: "sw_add compress crc depth k (it_key i) (it_value i) (it_eor i) (it_deleted i) (it_idx i) w = Inr w1"
    and rest: "sw_add_all compress crc depth k False is w1 = Inr w'"
    using Cons.prems(2) by (auto simp: res_bind_eq_Inr)
  obtain b w2 where c: "sw_check (it_key i) (it_value i) (it_eor i) (it_deleted i) w = Inr b"
    and same: "sw_last_key w2 = sw_last_key w" "sw_last_eor w2 = sw_last_eor w"
    and f: "sw_finish_add (it_key i) (it_eor i) w2 = Inr w1"
    by (rule sw_add_check [OF a])
  have wf: "well_formed_item i" "case p of None \<Rightarrow> True | Some j \<Rightarrow> may_follow j i"
    using sw_check_Inr [OF Cons.prems(1)] c by auto
  have "last_item p w2" using Cons.prems(1) unfolding last_item_def same .
  then obtain w3 where "sw_finish_add (it_key i) (it_eor i) w2 = Inr w3" "last_item (Some i) w3"
    using wf(1) by (rule sw_finish_add_last)
  with f have "last_item (Some i) w1" by simp
  from Cons.IH [OF this rest] wf show ?case
    by (auto simp: well_formed_stream_Cons split: option.splits list.splits)
qed

lemma sw_add_all_compact:
  "sw_add_all compress crc depth k True is w
    = sw_add_all compress crc depth k False (filter (\<lambda>i. \<not> it_deleted i) is) w"
  by (induction "is" arbitrary: w) (auto intro: res_bind_cong)

text \<open>
  C6: Whatever the page building does, a slice can only be built from a well-formed stream: when adding
  everything an iterator yields succeeds, the items added (all of them, or those that are not
  deletions when compacting) are in ascending key order, with complete records.
\<close>

theorem slice_input_well_formed:
  assumes "sw_add_all compress crc depth k compact is (slice_writer_init ndx) = Inr w"
  shows "well_formed_stream (filter (\<lambda>i. \<not> (compact \<and> it_deleted i)) is)"
proof -
  have "last_item None (slice_writer_init ndx)"
    by (simp add: last_item_def slice_writer_init_def kb_inv_def key_buffer_init_def)
  moreover have "sw_add_all compress crc depth k False (filter (\<lambda>i. \<not> (compact \<and> it_deleted i)) is)
      (slice_writer_init ndx) = Inr w"
    using assms sw_add_all_compact by (cases compact) simp_all
  ultimately show ?thesis using sw_add_all_well_formed by blast
qed

section \<open>The header\<close>

lemma peek_append_left: "a + n \<le> length x \<Longrightarrow> peek (x @ y) a n = peek x a n"
  by (simp add: peek_def)

lemma peek_append_right: "length x \<le> a \<Longrightarrow> peek (x @ y) a n = peek y (a - length x) n"
  by (simp add: peek_def)

lemma peek_here: "length x = n \<Longrightarrow> peek (x @ y) 0 n = x"
  by (simp add: peek_def)

lemma header_roundtrip: "header_read (header_bytes h) = h"
proof -
  have p: "peek (le_bytes n x @ y) a m = (if a = 0 \<and> m = n then le_bytes n x else peek y (a - n) m)"
    if "a = 0 \<and> m = n \<or> n \<le> a" for n m a y and x :: "'a::len word"
    using that by (auto simp: peek_def)
  have q: "peek (le_bytes n x) 0 n = le_bytes n x" for n and x :: "'a::len word"
    by (simp add: peek_def)
  show ?thesis
    by (simp add: header_read_def header_bytes_def p q le_word_le_bytes_full)
qed

lemma length_header_bytes: "length (header_bytes h) = 58"
  by (simp add: header_bytes_def)

lemma file_padding_length: "length (file_padding f) mod file_page_size = 0"
proof -
  have "(n + (4096 - n mod 4096)) mod 4096 = 0" for n :: nat
  proof -
    have "n + (4096 - n mod 4096) = 4096 * (n div 4096) + 4096"
      using div_mult_mod_eq [of n 4096] mod_less_divisor [of 4096 n] by linarith
    then show ?thesis by simp
  qed
  then show ?thesis by (simp add: file_padding_def file_page_size_def)
qed

lemma sw_flush_Inr:
  assumes "sw_flush compress crc depth w = Inr w'"
  obtains w1 f where "sw_flush_pages compress crc depth w = Inr w1" "sw_header w' = sw_header w1"
    "sw_slice_ndx w' = sw_slice_ndx w1" "sw_commited w' = sw_commited w1" "length f mod file_page_size = 0"
    "sw_writer w' = file_padding (f @ header_bytes (sw_header w1))"
    "\<exists>r. f = sw_writer w1 @ le_bytes 2 invalid_size @ r" "length f + 58 < max_file_size"
proof -
  obtain w1 where w1: "sw_flush_pages compress crc depth w = Inr w1"
    using assms by (auto simp: sw_flush_def res_bind_eq_Inr res_assert_eq_Inr split: if_splits)
  define f where "f = file_padding (sw_writer w1 @ le_bytes 2 invalid_size)"
  have "\<exists>r. f = sw_writer w1 @ le_bytes 2 invalid_size @ r"
    by (simp add: f_def file_padding_def)
  moreover have "length f + 58 < max_file_size"
    using assms w1 by (auto simp: sw_flush_def res_bind_eq_Inr res_assert_eq_Inr sw_write_def
        sw_add_padding_def f_def file_write_def length_header_bytes split: if_splits)
  moreover have "w' = w1\<lparr>sw_writer := file_padding (f @ header_bytes (sw_header w1))\<rparr>"
    using assms w1 by (auto simp: sw_flush_def res_bind_eq_Inr res_assert_eq_Inr sw_write_def
        sw_add_padding_def f_def file_write_def split: if_splits)
  ultimately show thesis
    using that [OF w1] file_padding_length [of "sw_writer w1 @ le_bytes 2 invalid_size"]
    by (simp add: f_def [symmetric])
qed

lemma file_padding_header:
  assumes "length f mod file_page_size = 0"
  shows "file_padding (f @ header_bytes h) = f @ header_bytes h @ replicate 4038 0"
  using assms by (simp add: file_padding_def length_header_bytes file_page_size_def mod_add_eq [symmetric, of "length f"]
      mod_simps)

lemma sw_next_page_signature:
  assumes "sw_next_page compress crc depth new_key key w = Inr w'"
  shows "sh_signature (sw_header w') = sh_signature (sw_header w)"
  using assms
proof (cases rule: sw_next_page_cases)
  case (1 location nd w1)
  from sw_store_same [OF 1(1)] 1(3) show ?thesis by (simp add: same_input_def)
next
  case (2 location nd w1 lvls w2 fk)
  from sw_store_same [OF 2(1)] iw_add_same [OF 2(3)] 2(5) show ?thesis by (simp add: same_input_def)
qed

lemma sw_add_loop_signature:
  "sw_add_loop compress crc depth k new_key key val eor deleted idx w = Inr w' \<Longrightarrow>
    sh_signature (sw_header w') = sh_signature (sw_header w)"
proof (induction k arbitrary: val w)
  case 0
  then show ?case by simp
next
  case (Suc k)
  from Suc.prems show ?case
  proof (cases rule: sw_add_loop_cases)
    case (page r nd val' w1)
    from Suc.IH [OF page(5)] sw_next_page_signature [OF page(4)] show ?thesis by simp
  qed simp
qed

lemma sw_add_signature:
  assumes "sw_add compress crc depth k key val eor deleted idx w = Inr w'"
  shows "sh_signature (sw_header w') = sh_signature (sw_header w)"
proof -
  obtain b w0 w1 where w0: "(if b \<and> kb_size (sw_first_key w) = 0 then
        res_bind (kb_assign key (sw_first_key w)) (\<lambda>fk. Inr (w\<lparr>sw_first_key := fk\<rparr>))
      else Inr w) = Inr w0"
    and l: "sw_add_loop compress crc depth k b key val eor deleted idx w0 = Inr w1"
    and f: "sw_finish_add key eor w1 = Inr w'"
    using assms unfolding sw_add_def res_bind_eq_Inr res_assert_eq_Inr by blast
  have "sh_signature (sw_header w0) = sh_signature (sw_header w)"
    using w0 by (auto simp: res_bind_eq_Inr split: if_splits)
  moreover have "sh_signature (sw_header w') = sh_signature (sw_header w1)"
    using f by (auto simp: sw_finish_add_def res_bind_eq_Inr)
  ultimately show ?thesis using sw_add_loop_signature [OF l] by simp
qed

lemma sw_add_all_signature:
  "sw_add_all compress crc depth k compact is w = Inr w' \<Longrightarrow>
    sh_signature (sw_header w') = sh_signature (sw_header w)"
  by (induction "is" arbitrary: w) (auto simp: res_bind_eq_Inr sw_add_signature split: if_splits)

lemma sw_flush_pages_signature:
  assumes "sw_flush_pages compress crc depth w = Inr w'"
  shows "sh_signature (sw_header w') = sh_signature (sw_header w)"
    "ss_key_count (sh_stats (sw_header w')) = ss_key_count (sh_stats (sw_header w))"
proof -
  obtain location nd w0 w1 w2 root lvls w3 i w4 where
    st: "sw_store compress crc (sw_node w) True w = Inr (location, nd, w0)"
    and wr: "sw_write (le_bytes 2 invalid_size) (w0\<lparr>sw_node := nd\<rparr>) = Inr w1"
    and ix: "(if kb_size (sw_first_key w1) \<noteq> 0 then sw_add_index compress crc depth location w1 else Inr w1) = Inr w2"
    and fl: "iw_flush compress crc depth (sw_index w2) w2 = Inr (root, lvls, w3)"
    and l1: "sw_link (ucast invalid_size) (sw_last_node w1) (w3\<lparr>sw_index := lvls, sw_header := (sw_header w3)\<lparr>sh_root := root\<rparr>\<rparr>) = Inr w4"
    and l2: "sw_link (ucast invalid_size) i w4 = Inr w'"
    using assms unfolding sw_flush_pages_def Let_def by (fastforce simp: res_bind_eq_Inr split: prod.splits)
  have h1: "sh_signature (sw_header w1) = sh_signature (sw_header w)"
    "ss_key_count (sh_stats (sw_header w1)) = ss_key_count (sh_stats (sw_header w))"
    using wr sw_store_same [OF st] by (auto simp: sw_write_def res_bind_eq_Inr same_input_def)
  have h2: "sh_signature (sw_header w2) = sh_signature (sw_header w1)"
    "ss_key_count (sh_stats (sw_header w2)) = ss_key_count (sh_stats (sw_header w1))"
    using ix iw_add_same by (auto simp: sw_add_index_def res_bind_eq_Inr same_input_def split: if_splits)
  show "sh_signature (sw_header w') = sh_signature (sw_header w)"
    "ss_key_count (sh_stats (sw_header w')) = ss_key_count (sh_stats (sw_header w))"
    using h1 h2 iw_flush_same [OF fl] sw_link_same [OF l1] sw_link_same [OF l2] by (simp_all add: same_input_def)
qed

text \<open>
  A slice re-opened from its file is the slice that \<open>commit\<close> returned: the last page of the file
  holds the header, and reading it back gives the same root, key count and first page size, for
  files shorter than 4 GiB.
\<close>

lemma slice_open_commit:
  assumes "sw_add_all compress crc depth k compact is (slice_writer_init ndx) = Inr w"
    and "sw_flush compress crc depth w = Inr w'" and "sw_commit w' = Inr (s, w'')"
    and "length (sl_reader s) < 2 ^ 32"
  shows "slice_open ndx' (sl_reader s) = Inr (s\<lparr>sl_slice_ndx := ndx'\<rparr>)"
proof -
  obtain w1 f where fp: "sw_flush_pages compress crc depth w = Inr w1"
    and h: "sw_header w' = sw_header w1" "sw_slice_ndx w' = sw_slice_ndx w1" "sw_commited w' = sw_commited w1"
    and f: "length f mod file_page_size = 0"
    and wr: "sw_writer w' = file_padding (f @ header_bytes (sw_header w1))"
    and r: "\<exists>r. f = sw_writer w1 @ le_bytes 2 invalid_size @ r" and "length f + 58 < max_file_size"
    by (rule sw_flush_Inr [OF assms(2)])
  have sig: "sh_signature (sw_header w') = signature"
    using sw_add_all_signature [OF assms(1)] sw_flush_pages_signature [OF fp] h(1)
    by (simp add: slice_writer_init_def slice_header_init_def)
  define R where "R = f @ header_bytes (sw_header w') @ replicate 4038 0"
  have s: "s = \<lparr>sl_slice_ndx = sw_slice_ndx w', sl_reader = R,
      sl_key_count = ss_key_count (sh_stats (sw_header w')), sl_root = sh_root (sw_header w'),
      sl_first_node_size = ucast (sh_first_node_size (sw_header w')), sl_unlink = False\<rparr>"
    using assms(3) wr file_padding_header [OF f] h
    by (auto simp: sw_commit_def res_assert_eq_Inr R_def)
  have "f \<noteq> []" using r by (auto simp: le_bytes_def)
  obtain q where q: "length f = 4096 * q" using f by (auto simp: file_page_size_def)
  with \<open>f \<noteq> []\<close> have "0 < q" by (cases q) auto
  have len: "length R = 4096 * Suc q" using q by (simp add: R_def length_header_bytes)
  have small: "length R < 2 ^ 32" using assms(4) s by simp
  have fs: "unat (file_size R) = length R" using small by (simp add: file_size_def unat_word_of_nat)
  have a1: "file_size R AND (of_nat file_page_size - 1) = 0"
  proof -
    have "(of_nat file_page_size - 1 :: u32) = mask 12" by (simp add: file_page_size_def mask_eq_exp_minus_1)
    then have "unat (file_size R AND (of_nat file_page_size - 1)) = take_bit 12 (length R)"
      by (simp add: take_bit_eq_mask [symmetric] unsigned_take_bit_eq fs)
    also have "\<dots> = 0" using len by (simp add: take_bit_eq_mod)
    finally show ?thesis by (simp add: unat_eq_zero)
  qed
  have a2: "(of_nat file_page_size :: u32) < file_size R"
    using fs len \<open>0 < q\<close> by (simp add: word_less_nat_alt file_page_size_def)
  have off: "unat (file_size R - of_nat file_page_size) = length f"
    using a2 fs len q by (subst unat_sub) (simp_all add: file_page_size_def word_less_nat_alt word_le_nat_alt)
  have "peek R (length f) 58 = header_bytes (sw_header w')"
    by (simp add: R_def peek_def length_header_bytes)
  then have p: "file_pread (length f) 58 R = Inr (header_bytes (sw_header w'))"
    using len q by (simp add: file_pread_def)
  show ?thesis
    using a1 a2 sig unfolding s by (simp add: slice_open_def off p header_roundtrip Let_def)
qed

section \<open>Searching\<close>

lemma node_fields:
  assumes "page_ok (nd_data n) low es" "i < length es"
  shows "key_at n i = pe_key (es ! i)" "value_at n i = pe_value (es ! i)"
    "attributes_at 8 n i = pe_attrs (es ! i)"
proof -
  have "es ! i = read_entry n i" using page_ok_read [OF assms] by simp
  then show "key_at n i = pe_key (es ! i)" "value_at n i = pe_value (es ! i)"
    "attributes_at 8 n i = pe_attrs (es ! i)"
    by (simp_all add: read_entry_def)
qed

lemma node_index_at:
  assumes page: "page_ok (nd_data n) low es" "unat (nd_key_count n) = length es" "sorted (map pe_key es)"
    and "es \<noteq> []"
  shows "index_at n key = (let b = length (takeWhile (\<lambda>e. pe_key e < key) es) in
    if b = length es then b - 1 else if key < pe_key (es ! b) \<and> b \<noteq> 0 then b - 1 else b)"
proof -
  let ?b = "length (takeWhile (\<lambda>e. pe_key e < key) es)"
  have lb: "lower_bound n key = ?b" by (rule node_lower_bound_correct [OF page])
  have ble: "?b \<le> length es" by (rule length_takeWhile_le)
  have ka: "?b < length es \<Longrightarrow> key_at n ?b = pe_key (es ! ?b)"
    using node_fields [OF page(1)] by simp
  have n16: "length es < 65536" using page(1) by (simp add: page_ok_def node_size_value)
  have "unat (of_nat (length es) - 1 :: u16) = length es - 1"
  proof -
    have "unat (of_nat (length es) :: u16) = length es" using n16 by (simp add: unat_word_of_nat)
    moreover have "1 \<le> length es" using \<open>es \<noteq> []\<close> by (cases es) auto
    ultimately show ?thesis by (subst unat_sub) (simp_all add: word_le_nat_alt)
  qed
  then show ?thesis
    using lb ble ka page(2) by (auto simp: index_at_def Let_def)
qed

text \<open>
  C7: A search for a range that starts in the gap between two neighbouring index entries, above the
  last key below the one and below the first key below the other, gives up: \<open>range\<close> returns nothing
  although every key of the second entry's page, and of the ones after it, lies in the range.
\<close>

theorem slice_range_misses_gap:
  assumes "ld (sl_root s) = Inr n" and "sl_key_count s \<noteq> 0"
    and "page_ok (nd_data n) low es" and "unat (nd_key_count n) = length es"
    and "sorted (map pe_key es)" and "distinct (map pe_key es)" and "Suc i < length es"
    and "pe_key (es ! i) < min_key" and "pe_value (es ! i) < min_key"
    and "min_key < pe_key (es ! Suc i)" and "min_key \<le> max_key"
  shows "slice_range (Suc k) ld min_key max_key s = Inr None"
proof -
  have "length (takeWhile (\<lambda>e. pe_key e < min_key) es) = Suc i"
  proof (rule takeWhile_eq_take_P_nth [THEN arg_cong [where f = length], THEN trans])
    show "pe_key (es ! j) < min_key" if "j < Suc i" "j < length es" for j
    proof -
      have "pe_key (es ! j) \<le> pe_key (es ! i)"
        using assms(5,7) that by (auto simp: sorted_iff_nth_mono)
      with assms(8) show ?thesis by simp
    qed
    show "Suc i < length es \<Longrightarrow> \<not> pe_key (es ! Suc i) < min_key" using assms(10) by simp
    show "length (take (Suc i) es) = Suc i" using assms(7) by simp
  qed
  moreover have "es \<noteq> []" using assms(7) by auto
  ultimately have ix: "index_at n min_key = i"
    using node_index_at [OF assms(3-5)] assms(7,10) by (simp add: Let_def)
  have "value_at n i = pe_value (es ! i)" using node_fields [OF assms(3)] assms(7) by simp
  then have "find_node_for (Suc k) ld (sl_root s) min_key max_key = Inr (- 1)"
    using assms(1,9) by (simp add: ix Let_def)
  then show ?thesis
    using assms(2,11) by (simp add: slice_range_def is_valid_def invalid_size_def)
qed

text \<open>
  On one level of index pages whose entries cover disjoint ascending key ranges, a search whose
  start lies within the range of some entry goes on in exactly that entry's page.
\<close>

lemma slice_find_descends:
  assumes "ld location = Inr n"
    and "page_ok (nd_data n) low es" and "unat (nd_key_count n) = length es"
    and "sorted (map pe_key es)" and "i < length es"
    and "\<forall>j. Suc j < length es \<longrightarrow> pe_value (es ! j) < pe_key (es ! Suc j)"
    and "pe_key (es ! i) \<le> min_key" and "min_key \<le> pe_value (es ! i)" and "min_key \<le> max_key"
    and "\<forall>j < i. pe_key (es ! j) < pe_key (es ! i)"
  shows "find_node_for (Suc k) ld location min_key max_key
    = (let l = le_word (pe_attrs (es ! i)) in
       if is_leaf_from l then Inr l else find_node_for k ld l min_key max_key)"
proof -
  let ?b = "length (takeWhile (\<lambda>e. pe_key e < min_key) es)"
  let ?m = "if pe_key (es ! i) = min_key then i else Suc i"
  have b: "?b = ?m"
  proof (rule takeWhile_eq_take_P_nth [THEN arg_cong [where f = length], THEN trans])
    show "pe_key (es ! j) < min_key" if "j < ?m" "j < length es" for j
      using that assms(7,10) by (auto split: if_splits simp: less_Suc_eq intro: less_le_trans)
    show "\<not> pe_key (es ! ?m) < min_key" if "?m < length es"
      using that assms(6,8) by (auto split: if_splits dest!: spec [of _ i])
    show "length (take ?m es) = ?m" using assms(5) by simp
  qed
  have "index_at n min_key = i"
  proof -
    have "es \<noteq> []" using assms(5) by auto
    have "min_key < pe_key (es ! Suc i)" if "Suc i \<noteq> length es"
    proof -
      have "Suc i < length es" using assms(5) that by simp
      then show ?thesis using assms(6,8) by (auto intro: le_less_trans)
    qed
    then show ?thesis
      unfolding node_index_at [OF assms(2-4) \<open>es \<noteq> []\<close>] b using assms(5) by (auto simp: Let_def)
  qed
  then show ?thesis
    using node_fields [OF assms(2,5)] assms(1,7,8,9) by (auto simp: Let_def)
qed

end
