(* ===== verification/Slice_Fit.thy ===== *)
theory Slice_Fit
  imports Slice
begin

text \<open>
  Pages and their compressed size. LZ4 may make a page longer than it was (8128 bytes become up to 8175,
  \<open>LZ4_COMPRESSBOUND\<close>): \<open>node_writer::flush\<close> has room for that, but \<open>cache::load\<close> asserts that what it reads is no
  longer than a page. So what can be read back is said of the slices of which every page fits (\<open>pages_fit\<close>); a slice
  with a page that does not fit cannot be read (\<open>oversized_page_asserts\<close>).
\<close>

section \<open>Compression\<close>

text \<open>LZ4 as documented: decompression gives back the page that was compressed.\<close>

definition lz4_ok :: "(bytes \<Rightarrow> bytes option) \<Rightarrow> (bytes \<Rightarrow> bytes option) \<Rightarrow> bool" where
  "lz4_ok compress decompress \<longleftrightarrow> (\<forall>d c. compress d = Some c \<longrightarrow> decompress c = Some d)"

text \<open>An LZ4 that gives up on pages that would not fit; it serves as a tool in proofs only.\<close>

definition lz4_fits :: "(bytes \<Rightarrow> bytes option) \<Rightarrow> (bytes \<Rightarrow> bytes option) \<Rightarrow> bool" where
  "lz4_fits compress decompress \<longleftrightarrow>
     (\<forall>d c. compress d = Some c \<longrightarrow> decompress c = Some d \<and> length c \<le> node_size)"

definition fitting :: "(bytes \<Rightarrow> bytes option) \<Rightarrow> bytes \<Rightarrow> bytes option" where
  "fitting compress d =
     (case compress d of None \<Rightarrow> None | Some c \<Rightarrow> if length c \<le> node_size then Some c else None)"

lemma fitting_fits: "lz4_ok compress decompress \<Longrightarrow> lz4_fits (fitting compress) decompress"
  by (auto simp: lz4_ok_def lz4_fits_def fitting_def split: option.splits if_splits)

text \<open>The pages that a writer has stored, and whether each of them fits.\<close>

definition pages_fit :: "(bytes \<Rightarrow> bytes option) \<Rightarrow> slice_writer \<Rightarrow> bool" where
  "pages_fit compress w \<longleftrightarrow> (\<forall>n \<in> set (sw_nodes w). \<forall>c. compress (nd_data n) = Some c \<longrightarrow> length c \<le> node_size)"

lemma pages_fit_data: "pages_fit compress w \<longleftrightarrow> (\<forall>d \<in> nd_data ` set (sw_nodes w). \<forall>c. compress d = Some c \<longrightarrow> length c \<le> node_size)"
  by (simp add: pages_fit_def)

lemma pages_fit_simps [simp]:
  "pages_fit compress (w\<lparr>sw_node := nd\<rparr>) = pages_fit compress w" "pages_fit compress (w\<lparr>sw_index := lv\<rparr>) = pages_fit compress w"
  "pages_fit compress (w\<lparr>sw_first_key := fk\<rparr>) = pages_fit compress w" "pages_fit compress (w\<lparr>sw_last_key := fk\<rparr>) = pages_fit compress w"
  "pages_fit compress (w\<lparr>sw_last_eor := e\<rparr>) = pages_fit compress w" "pages_fit compress (w\<lparr>sw_header := h\<rparr>) = pages_fit compress w"
  "pages_fit compress (w\<lparr>sw_writer := f\<rparr>) = pages_fit compress w"
  by (simp_all add: pages_fit_def)

section \<open>A run whose pages fit is a run of the LZ4 that gives up\<close>

lemma sw_link_fit: "sw_link l i w = Inr w' \<Longrightarrow> pages_fit compress w' = pages_fit compress w"
proof -
  assume "sw_link l i w = Inr w'"
  then have "map nd_data (sw_nodes w') = map nd_data (sw_nodes w)"
    by (auto simp: sw_link_def set_next_def res_bind_eq_Inr res_assert_eq_Inr map_update list_update_id
        split: option.splits if_splits) (metis length_map list_update_id nth_map not_le)
  then have "nd_data ` set (sw_nodes w') = nd_data ` set (sw_nodes w)" by (metis image_set)
  then show ?thesis by (simp add: pages_fit_data)
qed

lemma nw_flush_fit:
  assumes "nw_flush compress nw = Inr (buffer, nw1)" "length buffer \<le> node_size"
  shows "nw_flush (fitting compress) nw = Inr (buffer, nw1)"
proof -
  define w0 where "w0 = (if nw_node nw = None then internal_reset nw else nw)"
  define w1 where "w1 = nw_put 0 (le_bytes 2 (nw_key_count w0)) w0"
  have flush: "nw_flush c nw = (case nw_node w1 of None \<Rightarrow> Inl Undefined
      | Some n \<Rightarrow> case c (nd_data n) of None \<Rightarrow> Inl (Thrown ''runtime_error'') | Some sink \<Rightarrow> Inr (sink, w1))" for c
    by (simp only: nw_flush_def Let_def w0_def w1_def)
  show ?thesis using assms unfolding flush by (auto simp: fitting_def split: option.splits)
qed

lemma sw_store_fit:
  assumes st: "sw_store compress crc nw leaf w = Inr (l, nw', w')" and fit: "pages_fit compress w'"
  shows "sw_store (fitting compress) crc nw leaf w = Inr (l, nw', w') \<and> pages_fit compress w"
  using st
proof (rule sw_store_Inr)
  fix buffer nw1 w1 w2 nd
  assume a: "\<not> sw_commited w" "nw_flush compress nw = Inr (buffer, nw1)" "length buffer \<le> unat max_size"
    "sw_put_size (of_nat (length buffer)) leaf w = Inr w1"
    "sw_link l (sw_last_node w1) (w1\<lparr>sw_writer := sw_writer w1 @ le_bytes 4 (crc buffer) @ buffer\<rparr>) = Inr w2"
    "nw_reset nw1 = Inr (nd, nw')"
    "w' = w2\<lparr>sw_last_node := Some (length (sw_nodes w2)), sw_nodes := sw_nodes w2 @ [nd],
              sw_cached := sw_cached w2 @ [(l, length (sw_nodes w2))],
              sw_header := (sw_header w2)\<lparr>sh_stats :=
                sw_count (length buffer) leaf (sh_stats (sw_header w2))\<rparr>\<rparr>"
  have "compress (nd_data nd) = Some buffer"
    using a(2,6) by (auto simp: nw_flush_def nw_reset_def Let_def split: option.splits)
  moreover have "nd \<in> set (sw_nodes w')" by (simp add: a(7))
  ultimately have "length buffer \<le> node_size" using fit unfolding pages_fit_def by blast
  with a(2) have "nw_flush (fitting compress) nw = Inr (buffer, nw1)" by (rule nw_flush_fit)
  then have "sw_store (fitting compress) crc nw leaf w = sw_store compress crc nw leaf w"
    using a(2) by (simp add: sw_store_def)
  moreover have "pages_fit compress w2" using fit by (simp add: a(7) pages_fit_def)
  then have "pages_fit compress w1" using sw_link_fit [OF a(5)] by simp
  moreover have "sw_nodes w1 = sw_nodes w"
    using a(4) by (auto simp: sw_put_size_def res_bind_eq_Inr res_assert_eq_Inr split: if_splits)
  ultimately show ?thesis using st by (simp add: pages_fit_def)
qed

lemma iw_add_fit:
  "iw_add compress crc k mn mx l lvls w = Inr (lvls', w') \<Longrightarrow> pages_fit compress w' \<Longrightarrow>
    iw_add (fitting compress) crc k mn mx l lvls w = Inr (lvls', w') \<and> pages_fit compress w"
proof (induction k arbitrary: mn mx l lvls w lvls')
  case (Suc k)
  show ?case
  proof (cases lvls)
    case Nil
    then show ?thesis using Suc.prems by simp
  next
    case (Cons lvl hs)
    obtain fk r nd where fk: "(if kb_size (iw_first_key lvl) = 0 then kb_assign mn (iw_first_key lvl) else Inr (iw_first_key lvl)) = Inr fk"
      and nd: "nw_add mn mx True False (le_bytes 8 l) True (iw_node lvl) = Inr (r, nd)"
      using Suc.prems(1) unfolding Cons by (auto simp: res_bind_eq_Inr)
    show ?thesis
    proof (cases "r = - 1")
      case False
      then show ?thesis using Suc.prems fk nd unfolding Cons by (auto simp: res_bind_eq_Inr res_assert_eq_Inr)
    next
      case True
      obtain l' nd' w1 r' nd'' hs' where st: "sw_store compress crc nd False w = Inr (l', nd', w1)"
        and ad: "nw_add mn mx True False (le_bytes 8 l) True nd' = Inr (r', nd'')"
        and up: "iw_add compress crc k (kb_view fk) (kb_view (iw_last_key lvl)) l'
              (if hs = [] then [index_writer_init] else hs) w1 = Inr (hs', w')"
        using Suc.prems(1) fk nd True unfolding Cons by (auto simp: res_bind_eq_Inr)
      note up' = Suc.IH [OF up Suc.prems(2)]
      note st' = sw_store_fit [OF st conjunct2 [OF up']]
      show ?thesis
        using Suc.prems(1) fk nd True st st' ad up up' unfolding Cons iw_add.simps by simp
    qed
  qed
qed simp

lemma iw_flush_fit:
  "iw_flush compress crc k lvls w = Inr (root, lvls', w') \<Longrightarrow> pages_fit compress w' \<Longrightarrow>
    iw_flush (fitting compress) crc k lvls w = Inr (root, lvls', w') \<and> pages_fit compress w"
proof (induction k arbitrary: lvls w root lvls')
  case (Suc k)
  show ?case
  proof (cases lvls)
    case Nil
    then show ?thesis using Suc.prems by simp
  next
    case (Cons lvl hs)
    obtain l nd w1 where st: "sw_store compress crc (iw_node lvl) False w = Inr (l, nd, w1)"
      using Suc.prems(1) unfolding Cons by (auto simp: res_bind_eq_Inr)
    show ?thesis
    proof (cases "hs = []")
      case True
      then have "w' = w1" using Suc.prems(1) st unfolding Cons by simp
      then show ?thesis using sw_store_fit [OF st] Suc.prems st True unfolding Cons by simp
    next
      case False
      obtain hs' w2 hs'' where a: "iw_add compress crc k (kb_view (iw_first_key lvl)) (kb_view (iw_last_key lvl)) l hs w1 = Inr (hs', w2)"
        and f: "iw_flush compress crc k hs' w2 = Inr (root, hs'', w')"
        using Suc.prems(1) st False unfolding Cons by (auto simp: res_bind_eq_Inr)
      note f' = Suc.IH [OF f Suc.prems(2)]
      note a' = iw_add_fit [OF a conjunct2 [OF f']]
      note st' = sw_store_fit [OF st conjunct2 [OF a']]
      show ?thesis using Suc.prems(1) st st' a a' f f' False unfolding Cons iw_flush.simps by simp
    qed
  qed
qed simp

lemma sw_add_index_fit:
  assumes "sw_add_index compress crc depth l w = Inr w'" "pages_fit compress w'"
  shows "sw_add_index (fitting compress) crc depth l w = Inr w' \<and> pages_fit compress w"
proof -
  obtain lvls w1 where a: "iw_add compress crc depth (kb_view (sw_first_key w)) (kb_view (sw_last_key w)) l (sw_index w) w = Inr (lvls, w1)"
    and w': "w' = w1\<lparr>sw_index := lvls\<rparr>" using assms(1) by (auto simp: sw_add_index_def res_bind_eq_Inr)
  have "pages_fit compress w1" using assms(2) by (simp add: w')
  from iw_add_fit [OF a this] show ?thesis by (simp add: sw_add_index_def w')
qed

lemma sw_next_page_fit:
  assumes np: "sw_next_page compress crc depth new_key key w = Inr w'" and fit: "pages_fit compress w'"
  shows "sw_next_page (fitting compress) crc depth new_key key w = Inr w' \<and> pages_fit compress w"
proof -
  obtain l nd w1 where st: "sw_store compress crc (sw_node w) True w = Inr (l, nd, w1)"
    using np by (auto simp: sw_next_page_def res_bind_eq_Inr)
  show ?thesis
  proof (cases "kb_size (sw_first_key w1) = 0")
    case True
    then have "w' = w1\<lparr>sw_node := nd\<rparr>" using np st by (simp add: sw_next_page_def)
    then show ?thesis using sw_store_fit [OF st] np st True fit by (simp add: sw_next_page_def)
  next
    case False
    obtain w3 where ix: "sw_add_index compress crc depth l (w1\<lparr>sw_node := nd\<rparr>) = Inr w3"
      and w': "(if new_key then res_bind (kb_assign key (sw_first_key w3)) (\<lambda>fk. Inr (w3\<lparr>sw_first_key := fk\<rparr>))
           else Inr (w3\<lparr>sw_first_key := kb_clear (sw_first_key w3)\<rparr>)) = Inr w'"
      using np st False by (auto simp: sw_next_page_def Let_def res_bind_eq_Inr cong: if_cong)
    have "pages_fit compress w3" using w' fit by (auto simp: res_bind_eq_Inr split: if_splits)
    note ix' = sw_add_index_fit [OF ix this]
    then have "pages_fit compress w1" by simp
    note st' = sw_store_fit [OF st this]
    show ?thesis using st' ix' w' False by (simp add: sw_next_page_def Let_def)
  qed
qed

lemma sw_add_loop_fit:
  "sw_add_loop compress crc depth k new_key key val eor deleted idx w = Inr w' \<Longrightarrow> pages_fit compress w' \<Longrightarrow>
    sw_add_loop (fitting compress) crc depth k new_key key val eor deleted idx w = Inr w' \<and> pages_fit compress w"
proof (induction k arbitrary: val w)
  case (Suc k)
  from Suc.prems(1) show ?case
  proof (cases rule: sw_add_loop_cases)
    case (done_ r nd)
    then show ?thesis using Suc.prems(2) by (simp add: Let_def)
  next
    case (page r nd val' w1)
    note rest = Suc.IH [OF page(5) Suc.prems(2)]
    note np = sw_next_page_fit [OF page(4) conjunct2 [OF rest]]
    have "(r \<noteq> - 1 \<and> val' = []) = False" using page(3) by auto
    then show ?thesis
      using rest np by (simp only: sw_add_loop.simps page(1) Let_def res_bind_Inr prod.case page(2) [symmetric] if_False simp_thms)
        simp
  qed
qed simp

lemma sw_add_fit:
  assumes "sw_add compress crc depth k key val eor deleted idx w = Inr w'" "pages_fit compress w'"
  shows "sw_add (fitting compress) crc depth k key val eor deleted idx w = Inr w' \<and> pages_fit compress w"
proof -
  obtain b w0 w1 where c: "\<not> sw_commited w" "idx < max_idx" "sw_check key val eor deleted w = Inr b"
    "(if b \<and> kb_size (sw_first_key w) = 0 then
        res_bind (kb_assign key (sw_first_key w)) (\<lambda>fk. Inr (w\<lparr>sw_first_key := fk\<rparr>)) else Inr w) = Inr w0"
    and l: "sw_add_loop compress crc depth k b key val eor deleted idx w0 = Inr w1" and f: "sw_finish_add key eor w1 = Inr w'"
    using assms(1) unfolding sw_add_def res_bind_eq_Inr res_assert_eq_Inr by blast
  have "pages_fit compress w1" using f assms(2) by (auto simp: sw_finish_add_def res_bind_eq_Inr)
  note l' = sw_add_loop_fit [OF l this]
  have "pages_fit compress w0 = pages_fit compress w" using c(4) by (auto simp: res_bind_eq_Inr split: if_splits)
  then show ?thesis using c l' f by (simp add: sw_add_def res_assert_def)
qed

lemma sw_add_all_fit:
  "sw_add_all compress crc depth k compact is w = Inr w' \<Longrightarrow> pages_fit compress w' \<Longrightarrow>
    sw_add_all (fitting compress) crc depth k compact is w = Inr w' \<and> pages_fit compress w"
proof (induction "is" arbitrary: w)
  case (Cons i "is")
  show ?case
  proof (cases "compact \<and> it_deleted i")
    case True
    then show ?thesis using Cons by simp
  next
    case False
    obtain w1 where a: "sw_add compress crc depth k (it_key i) (it_value i) (it_eor i) (it_deleted i) (it_idx i) w = Inr w1"
      and r: "sw_add_all compress crc depth k compact is w1 = Inr w'"
      using Cons.prems(1) False by (auto simp: res_bind_eq_Inr)
    note r' = Cons.IH [OF r Cons.prems(2)]
    have "(compact \<and> it_deleted i) = False" using False by simp
    then show ?thesis using sw_add_fit [OF a conjunct2 [OF r']] r' by (simp only: sw_add_all.simps if_False res_bind_Inr simp_thms)
  qed
qed simp

lemma sw_write_fit: "sw_write bs w = Inr w' \<Longrightarrow> pages_fit compress w' = pages_fit compress w"
  by (auto simp: sw_write_def res_bind_eq_Inr)

lemma sw_flush_pages_fit:
  assumes fl: "sw_flush_pages compress crc depth w = Inr w'" and fit: "pages_fit compress w'"
  shows "sw_flush_pages (fitting compress) crc depth w = Inr w' \<and> pages_fit compress w"
proof -
  obtain l nd w0 w1 w2 root lvls w3 w4 where
    st: "sw_store compress crc (sw_node w) True w = Inr (l, nd, w0)"
    and wr: "sw_write (le_bytes 2 invalid_size) (w0\<lparr>sw_node := nd\<rparr>) = Inr w1"
    and ix: "(if kb_size (sw_first_key w1) \<noteq> 0 then sw_add_index compress crc depth l w1 else Inr w1) = Inr w2"
    and fp: "iw_flush compress crc depth (sw_index w2) w2 = Inr (root, lvls, w3)"
    and l1: "sw_link (ucast invalid_size) (sw_last_node w1) (w3\<lparr>sw_index := lvls, sw_header := (sw_header w3)\<lparr>sh_root := root\<rparr>\<rparr>) = Inr w4"
    and l2: "sw_link (ucast invalid_size) (sw_last_node w4) w4 = Inr w'"
    using fl unfolding sw_flush_pages_def Let_def by (fastforce simp: res_bind_eq_Inr split: prod.splits)
  have "pages_fit compress w3" using fit sw_link_fit [OF l1] sw_link_fit [OF l2] by simp
  note fp' = iw_flush_fit [OF fp this]
  have ix': "(if kb_size (sw_first_key w1) \<noteq> 0 then sw_add_index (fitting compress) crc depth l w1 else Inr w1) = Inr w2
      \<and> pages_fit compress w1"
    using ix fp' sw_add_index_fit [of compress crc depth l w1 w2] by (auto split: if_splits)
  then have "pages_fit compress w0" using sw_write_fit [OF wr] by simp
  note st' = sw_store_fit [OF st this]
  show ?thesis using st' wr ix' fp' l1 l2 by (simp add: sw_flush_pages_def Let_def)
qed

lemma sw_flush_fit:
  assumes fl: "sw_flush compress crc depth w = Inr w'" and fit: "pages_fit compress w'"
  shows "sw_flush (fitting compress) crc depth w = Inr w' \<and> pages_fit compress w"
proof -
  obtain w1 where w1: "sw_flush_pages compress crc depth w = Inr w1"
    using fl by (auto simp: sw_flush_def res_bind_eq_Inr res_assert_eq_Inr split: if_splits)
  have "pages_fit compress w1"
    using fl fit w1 by (auto simp: sw_flush_def res_bind_eq_Inr res_assert_eq_Inr sw_add_padding_def
        dest!: sw_write_fit [where compress = compress] split: if_splits)
  note w1' = sw_flush_pages_fit [OF w1 this]
  then have "sw_flush (fitting compress) crc depth w = sw_flush compress crc depth w" using w1 by (simp add: sw_flush_def)
  then show ?thesis using w1' fl by simp
qed

section \<open>A page that does not fit\<close>

text \<open>The size is part of the location, and \<open>cache::load\<close> asserts that it is at most a page's.\<close>

lemma oversized_page_asserts:
  assumes st: "sw_store compress crc nw leaf w = Inr (l, nw', w')" and big: "nw_flush compress nw = Inr (buffer, nw1)"
    "node_size < length buffer"
  shows "cache_load decompress crc f l = Inl Assertion"
  using st
proof (rule sw_store_Inr)
  fix b nw2 w1 w2 nd
  assume a: "nw_flush compress nw = Inr (b, nw2)" "length b \<le> unat max_size"
    "loc_make (ucast (file_size (sw_writer w1))) (of_nat (length b)) leaf = Inr l"
  have b: "b = buffer" using a(1) big(1) by simp
  have sz: "unat (of_nat (length b) :: u16) = length b" using a(2) by (simp add: unat_word_of_nat max_size_def)
  have "size_from l = of_nat (length b)"
    using a(3) loc_fields(2) [of "ucast (file_size (sw_writer w1))" "of_nat (length b)" l leaf]
    by (auto simp: loc_make_def res_assert_eq_Inr)
  then have "unat (size_from l) = length buffer" using sz by (simp add: b)
  then show ?thesis using big(2) by (simp add: cache_load_def Let_def res_assert_def)
qed

end
