(* ===== verification/Slice_Scan.thy ===== *)
theory Slice_Scan
  imports Slice_Fit
begin

text \<open>
  A slice read from its first page to its last gives back what was added to it. The file of a
  writer is described as a chain of pages (\<open>chain\<close>), each followed by the size field of the next;
  \<open>scan\<close> lemmas read such a chain with \<open>slice_iterator\<close>, \<open>build\<close> lemmas show that the writer
  produces one whose entries are the pieces of the items added.
\<close>

section \<open>Chains of pages\<close>

record page =
  pg_leaf :: bool
  pg_sink :: bytes
  pg_entries :: "page_entry list"

definition page_field :: "page \<Rightarrow> u16" where
  "page_field p = loc_size (of_nat (length (pg_sink p))) (of_bool (pg_leaf p))"

definition next_field :: "page list \<Rightarrow> u16 \<Rightarrow> u16" where
  "next_field ps t = (case ps of [] \<Rightarrow> t | p # _ \<Rightarrow> page_field p)"

definition block :: "(bytes \<Rightarrow> u32) \<Rightarrow> page \<Rightarrow> bytes" where
  "block crc p = le_bytes 4 (crc (pg_sink p)) @ pg_sink p"

fun chain :: "(bytes \<Rightarrow> u32) \<Rightarrow> page list \<Rightarrow> u16 \<Rightarrow> bytes" where
  "chain crc [] t = []"
| "chain crc (p # ps) t = block crc p @ le_bytes 2 (next_field ps t) @ chain crc ps t"

lemma chain_snoc: "chain crc (ps @ [p]) t = chain crc ps (page_field p) @ block crc p @ le_bytes 2 t"
proof (induction ps)
  case Nil
  then show ?case by (simp add: next_field_def)
next
  case (Cons q ps)
  then show ?case by (cases ps) (simp_all add: next_field_def)
qed

lemma length_chain: "length (chain crc ps t) = length (chain crc ps t')"
  by (induction ps) simp_all

text \<open>A page decompresses to a data page that spells its entries.\<close>

definition page_good :: "(bytes \<Rightarrow> bytes option) \<Rightarrow> page \<Rightarrow> bool" where
  "page_good decompress p \<longleftrightarrow> length (pg_sink p) \<le> node_size \<and> (\<exists>d low. decompress (pg_sink p) = Some d
     \<and> page_ok d low (pg_entries p) \<and> rd16 d 0 = of_nat (length (pg_entries p)))"

definition next_location :: "nat \<Rightarrow> u16 \<Rightarrow> u64" where
  "next_location off sz = push_bit 16 (of_nat off) OR ucast sz"

definition node_of :: "node \<Rightarrow> page \<Rightarrow> u64 \<Rightarrow> bool" where
  "node_of n p l \<longleftrightarrow> (\<exists>low. page_ok (nd_data n) low (pg_entries p))
     \<and> unat (nd_key_count n) = length (pg_entries p) \<and> nd_next n = l"

lemma off_small: "off < 2 ^ 47 \<Longrightarrow> (of_nat off :: u64) < max_offset"
  by (simp add: max_offset_def word_less_nat_alt unat_word_of_nat)

lemma u64_of_nat: "n < 2 ^ 47 \<Longrightarrow> unat (of_nat n :: u64) = n"
  by (simp add: unat_word_of_nat)

lemma cache_load_block:
  assumes f: "f = pre @ block crc p @ le_bytes 2 sz @ post" and pre: "length pre < 2 ^ 46"
    and b: "length (pg_sink p) \<le> node_size" "decompress (pg_sink p) = Some d" "length d = node_size"
  shows "cache_load decompress crc f (next_location (length pre) (page_field p))
    = Inr \<lparr>nd_data = d, nd_key_count = rd16 d 0,
        nd_next = next_location (length pre + length (pg_sink p) + 6) sz\<rparr>"
proof -
  let ?b = "pg_sink p" and ?l = "next_location (length pre) (page_field p)"
  have b': "length ?b \<le> 8128" using b(1) by (simp add: node_size_value)
  have p47: "length pre < 2 ^ 47" using pre by simp
  have sz16: "(of_nat (length ?b) :: u16) < max_size"
    using b' by (simp add: max_size_def word_less_nat_alt unat_word_of_nat)
  note lf = loc_fields [OF off_small [OF p47] sz16 refl, of "pg_leaf p", folded page_field_def next_location_def]
  have ub: "unat (size_from ?l) = length ?b" using lf(2) b' by (simp add: unat_word_of_nat)
  have uo: "unat (offset_from ?l) = length pre" using lf(1) u64_of_nat [OF p47] by simp
  let ?D = "le_bytes 4 (crc ?b) @ ?b @ le_bytes 2 sz"
  have "peek f (length pre) (length ?b + 6) = ?D"
    by (simp add: f peek_def block_def)
  then have rd: "file_pread (length pre) (length ?b + 6) f = Inr ?D"
    by (simp add: file_pread_def f block_def)
  have p1: "peek ?D 4 (length ?b) = ?b" and p2: "peek ?D 0 4 = le_bytes 4 (crc ?b)"
    and p3: "peek ?D (4 + length ?b) 2 = le_bytes 2 sz"
    by (simp_all add: peek_def)
  have nl: "node_load decompress ?b node_init = Inr \<lparr>nd_data = d, nd_key_count = rd16 d 0, nd_next = - 1\<rparr>"
    using b(2,3) by (simp add: node_load_def node_init_def)
  have o: "offset_from ?l + of_nat (length ?b) + 6 = (of_nat (length pre + length ?b + 6) :: u64)"
    using lf(1) by simp
  have n47: "length pre + length ?b + 6 < 2 ^ 47" using pre b' by simp
  define nx where "nx = next_location (length pre + length ?b + 6) sz"
  have mk: "loc_make_raw (of_nat (length pre + length ?b + 6)) sz = Inr nx"
    using off_small [OF n47] by (simp add: loc_make_raw_def next_location_def nx_def)
  have "offset_from nx = of_nat (length pre + length ?b + 6)"
    using loc_raw_fields(1) [OF off_small [OF n47]] by (simp add: nx_def next_location_def)
  then have "offset_from nx \<noteq> 0" using u64_of_nat [OF n47] by (metis add_is_0 unat_0 zero_neq_numeral)
  then have nz: "nx \<noteq> 0" by (auto simp: offset_from_def)
  show ?thesis
    using b' unfolding cache_load_def Let_def ub uo o rd nx_def [symmetric]
    by (simp add: node_size_value p1 p2 le_word_le_bytes_full nl rd16_def p3 mk set_next_def nz del: of_nat_add)
qed

lemma cache_load_page:
  assumes f: "f = pre @ block crc p @ le_bytes 2 sz @ post" and good: "page_good decompress p"
    and pre: "length pre < 2 ^ 46"
  shows "\<exists>n. cache_load decompress crc f (next_location (length pre) (page_field p)) = Inr n
    \<and> node_of n p (next_location (length pre + length (pg_sink p) + 6) sz)"
proof -
  obtain d low where b: "length (pg_sink p) \<le> node_size" "decompress (pg_sink p) = Some d"
      "page_ok d low (pg_entries p)" and cnt: "rd16 d 0 = of_nat (length (pg_entries p))"
    using good by (auto simp: page_good_def)
  have d: "length d = node_size" and es: "length (pg_entries p) < 65536"
    using b(3) by (simp_all add: page_ok_def node_size_value)
  show ?thesis
    using cache_load_block [where crc = crc and d = d and decompress = decompress, OF f pre b(1,2) d] b(3) cnt es by (auto simp: node_of_def unat_word_of_nat)
qed

section \<open>Scanning a chain\<close>

definition item_of :: "page_entry \<Rightarrow> item" where
  "item_of e = \<lparr>it_key = pe_key e, it_value = pe_value e, it_eor = pe_eor e, it_deleted = pe_deleted e,
     it_idx = le_word (pe_attrs e)\<rparr>"

definition leaf_entries :: "page list \<Rightarrow> page_entry list" where
  "leaf_entries ps = concat (map pg_entries (filter pg_leaf ps))"

lemma leaf_entries_simps [simp]:
  "leaf_entries [] = []"
  "leaf_entries (p # ps) = (if pg_leaf p then pg_entries p @ leaf_entries ps else leaf_entries ps)"
  "leaf_entries (ps @ qs) = leaf_entries ps @ leaf_entries qs"
  by (simp_all add: leaf_entries_def)

text \<open>
  The tail \<open>ps\<close> of a chain stands in the file \<open>f\<close> at \<open>off\<close>; its leaves have entries, it is closed by
  the invalid size, and offsets stay small.
\<close>

definition tail_at :: "(bytes \<Rightarrow> bytes option) \<Rightarrow> (bytes \<Rightarrow> u32) \<Rightarrow> bytes \<Rightarrow> nat \<Rightarrow> page list \<Rightarrow> bool" where
  "tail_at decompress crc f off ps \<longleftrightarrow> off \<le> length f \<and> length f < 2 ^ 46
     \<and> (\<exists>post. drop off f = chain crc ps invalid_size @ post)
     \<and> (\<forall>p \<in> set ps. page_good decompress p \<and> (pg_leaf p \<longrightarrow> pg_entries p \<noteq> []))"

lemma page_sizes:
  assumes "page_good decompress p"
  shows "(of_nat (length (pg_sink p)) :: u16) < max_size" "length (pg_sink p) \<le> 8128"
  using assms by (auto simp: page_good_def node_size_value max_size_def word_less_nat_alt unat_word_of_nat)

lemma page_location_fields:
  assumes "page_good decompress p" "off < 2 ^ 46"
  shows "is_valid (next_location off (page_field p))"
    "is_leaf_from (next_location off (page_field p)) = pg_leaf p"
  using loc_fields [OF off_small page_sizes(1) [OF assms(1)] refl, of off "pg_leaf p"] assms(2)
  by (simp_all add: next_location_def page_field_def)

lemma end_location_invalid: "off < 2 ^ 46 \<Longrightarrow> \<not> is_valid (next_location off invalid_size)"
  using loc_raw_fields(2) [OF off_small, of off invalid_size] by (simp add: is_valid_def next_location_def)

lemma tail_at_load:
  assumes "tail_at decompress crc f off (p # ps)"
  shows "\<exists>n off'. cache_load decompress crc f (next_location off (page_field p)) = Inr n
    \<and> node_of n p (next_location off' (next_field ps invalid_size)) \<and> tail_at decompress crc f off' ps
    \<and> off' < 2 ^ 46"
proof -
  obtain post where post: "drop off f = chain crc (p # ps) invalid_size @ post"
    and off: "off \<le> length f" "length f < 2 ^ 46" and good: "\<forall>q \<in> set (p # ps). page_good decompress q
      \<and> (pg_leaf q \<longrightarrow> pg_entries q \<noteq> [])"
    using assms by (auto simp: tail_at_def)
  let ?sz = "next_field ps invalid_size" and ?pre = "take off f"
  let ?off = "off + length (pg_sink p) + 6"
  have f: "f = ?pre @ block crc p @ le_bytes 2 ?sz @ (chain crc ps invalid_size @ post)"
    using post by (metis append_take_drop_id append.assoc chain.simps(2))
  have lp: "length ?pre = off" using off by simp
  have pg: "page_good decompress p" using good by simp
  have sm: "length ?pre < 2 ^ 46" using lp off by simp
  have "drop ?off f = drop (length (pg_sink p) + 6) (drop off f)" by (simp add: add.commute add.left_commute)
  also have "\<dots> = chain crc ps invalid_size @ post"
    by (simp add: post block_def)
  finally have d: "drop ?off f = chain crc ps invalid_size @ post" .
  have "length (drop off f) \<ge> length (pg_sink p) + 6" by (simp add: post block_def)
  then have le: "?off \<le> length f" using off by simp
  have "tail_at decompress crc f ?off ps" using d le good off by (auto simp: tail_at_def)
  moreover have "?off < 2 ^ 46" using le off by simp
  ultimately show ?thesis
    using cache_load_page [OF f pg sm] unfolding lp by blast
qed

lemma si_load_next_tail:
  "tail_at decompress crc f off ps \<Longrightarrow> off < 2 ^ 46 \<Longrightarrow> length ps < k \<Longrightarrow>
    nd_next n = next_location off (next_field ps invalid_size) \<Longrightarrow>
    (if leaf_entries ps = [] then si_load_next k (cache_load decompress crc f) n = Inr None
     else \<exists>n' p ps' off'. si_load_next k (cache_load decompress crc f) n = Inr (Some n') \<and> pg_leaf p
       \<and> node_of n' p (next_location off' (next_field ps' invalid_size)) \<and> tail_at decompress crc f off' ps'
       \<and> off' < 2 ^ 46 \<and> length ps' < length ps \<and> pg_entries p \<noteq> []
       \<and> leaf_entries ps = pg_entries p @ leaf_entries ps')"
proof (induction ps arbitrary: off n k)
  case Nil
  then obtain k' where "k = Suc k'" by (cases k) auto
  with Nil show ?case by (simp add: next_field_def end_location_invalid)
next
  case (Cons p ps)
  then obtain k' where k: "k = Suc k'" "length ps < k'" by (cases k) auto
  have good: "page_good decompress p" "pg_leaf p \<Longrightarrow> pg_entries p \<noteq> []"
    using Cons.prems(1) by (auto simp: tail_at_def)
  obtain n' off' where ld: "cache_load decompress crc f (next_location off (page_field p)) = Inr n'"
    and nd: "node_of n' p (next_location off' (next_field ps invalid_size))"
    and t: "tail_at decompress crc f off' ps" and o: "off' < 2 ^ 46"
    using tail_at_load [OF Cons.prems(1)] by blast
  have nx: "nd_next n = next_location off (page_field p)"
    using Cons.prems(4) by (simp add: next_field_def)
  note lf = page_location_fields [OF good(1) Cons.prems(2)]
  show ?case
  proof (cases "pg_leaf p")
    case True
    then have "si_load_next k (cache_load decompress crc f) n = Inr (Some n')"
      using lf ld by (simp add: k(1) nx)
    then show ?thesis using True nd t o good(2) by auto
  next
    case False
    then have step: "si_load_next k (cache_load decompress crc f) n = si_load_next k' (cache_load decompress crc f) n'"
      using lf ld by (simp add: k(1) nx)
    have "nd_next n' = next_location off' (next_field ps invalid_size)" using nd by (simp add: node_of_def)
    from Cons.IH [OF t o k(2) this] step False show ?thesis by (auto split: if_splits) (metis less_SucI)
  qed
qed

lemma node_of_item:
  assumes "node_of n p l" "i < length (pg_entries p)"
  shows "si_item \<lparr>si_node = Some n, si_ndx = of_nat i, si_attrs = Some (si_attrs_at n (of_nat i))\<rparr>
    = Inr (item_of (pg_entries p ! i))" "unat (of_nat i :: u16) = i"
proof -
  obtain low where ok: "page_ok (nd_data n) low (pg_entries p)" using assms(1) by (auto simp: node_of_def)
  then have "length (pg_entries p) < 65536" by (simp add: page_ok_def node_size_value)
  then show u: "unat (of_nat i :: u16) = i" using assms(2) by (simp add: unat_word_of_nat)
  have "pg_entries p ! i = read_entry n i" using page_ok_read [OF ok assms(2)] by simp
  then show "si_item \<lparr>si_node = Some n, si_ndx = of_nat i, si_attrs = Some (si_attrs_at n (of_nat i))\<rparr>
    = Inr (item_of (pg_entries p ! i))"
    by (simp add: si_item_def si_attrs_at_def item_of_def u read_entry_def)
qed

lemma si_drain_tail:
  "node_of n p (next_location off (next_field ps invalid_size)) \<Longrightarrow> tail_at decompress crc f off ps \<Longrightarrow>
    off < 2 ^ 46 \<Longrightarrow> length ps < k \<Longrightarrow> i < length (pg_entries p) \<Longrightarrow>
    length (drop (Suc i) (pg_entries p) @ leaf_entries ps) < m \<Longrightarrow>
    si_drain k (cache_load decompress crc f) m \<lparr>si_node = Some n, si_ndx = of_nat i, si_attrs = Some a\<rparr>
      = Inr (map item_of (drop (Suc i) (pg_entries p) @ leaf_entries ps))"
proof (induction m arbitrary: n p off ps i a)
  case 0
  then show ?case by simp
next
  case (Suc m)
  let ?ld = "cache_load decompress crc f"
  note ui = node_of_item(2) [OF Suc.prems(1,5)]
  have cnt: "unat (nd_key_count n) = length (pg_entries p)" using Suc.prems(1) by (simp add: node_of_def)
  show ?case
  proof (cases "Suc i = length (pg_entries p)")
    case False
    then have i: "Suc i < length (pg_entries p)" using Suc.prems(5) by simp
    note it = node_of_item(1) [OF Suc.prems(1) i]
    have "drop (Suc i) (pg_entries p) = pg_entries p ! Suc i # drop (Suc (Suc i)) (pg_entries p)"
      using i by (simp add: Cons_nth_drop_Suc)
    moreover have "si_next k ?ld \<lparr>si_node = Some n, si_ndx = of_nat i, si_attrs = Some a\<rparr>
        = Inr (True, \<lparr>si_node = Some n, si_ndx = of_nat (Suc i), si_attrs = Some (si_attrs_at n (of_nat (Suc i)))\<rparr>)"
      using False by (simp add: si_next_def ui cnt add.commute)
    ultimately show ?thesis
      using Suc.IH [OF Suc.prems(1-4) i, of "si_attrs_at n (of_nat (Suc i))"] Suc.prems(6) it
      by (simp del: of_nat_Suc)
  next
    case True
    have nx: "nd_next n = next_location off (next_field ps invalid_size)"
      using Suc.prems(1) by (simp add: node_of_def)
    have end_: "int (unat (of_nat i :: u16)) = int (unat (nd_key_count n)) - 1"
      unfolding ui cnt using True by linarith
    note tl = si_load_next_tail [OF Suc.prems(2-4) nx]
    show ?thesis
    proof (cases "leaf_entries ps = []")
      case none: True
      then have "si_next k ?ld \<lparr>si_node = Some n, si_ndx = of_nat i, si_attrs = Some a\<rparr>
          = Inr (False, \<lparr>si_node = None, si_ndx = of_nat i, si_attrs = Some a\<rparr>)"
        using tl end_ by (simp add: si_next_def)
      then show ?thesis using none True by simp
    next
      case False
      then obtain n' p' ps' off' where ld: "si_load_next k ?ld n = Inr (Some n')"
        and nd: "node_of n' p' (next_location off' (next_field ps' invalid_size))"
        and t: "tail_at decompress crc f off' ps'" "off' < 2 ^ 46" and len: "length ps' < length ps"
        and ne: "pg_entries p' \<noteq> []" and le: "leaf_entries ps = pg_entries p' @ leaf_entries ps'"
        using tl by auto
      have i0: "0 < length (pg_entries p')" using ne by simp
      have "si_next k ?ld \<lparr>si_node = Some n, si_ndx = of_nat i, si_attrs = Some a\<rparr>
          = Inr (True, \<lparr>si_node = Some n', si_ndx = of_nat 0, si_attrs = Some (si_attrs_at n' (of_nat 0))\<rparr>)"
        using ld end_ by (simp add: si_next_def)
      moreover have "pg_entries p' = pg_entries p' ! 0 # drop (Suc 0) (pg_entries p')"
        using ne by (metis Cons_nth_drop_Suc drop_0 i0)
      moreover have "length ps' < k" using len Suc.prems(4) by simp
      moreover have "length (drop (Suc 0) (pg_entries p') @ leaf_entries ps') < m"
        using Suc.prems(6) le i0 by (simp del: length_greater_0_conv)
      ultimately show ?thesis
        using Suc.IH [OF nd t _ i0, of "si_attrs_at n' (of_nat 0)"] node_of_item(1) [OF nd i0] True le
        by (simp del: of_nat_0) (metis list.simps(9))
    qed
  qed
qed

text \<open>A whole file: starting at its first page.\<close>

lemma slice_scan:
  assumes t: "tail_at decompress crc (sl_reader s) 0 (p # ps)" and leaf: "pg_leaf p"
    and first: "sl_first_node_size s = ucast (page_field p)" and cnt: "sl_key_count s \<noteq> 0"
    and k: "Suc (length ps) < k" and m: "length (leaf_entries (p # ps)) < m"
  shows "\<exists>it. slice_begin (cache_load decompress crc (sl_reader s)) s = Inr (Some it)
    \<and> si_drain k (cache_load decompress crc (sl_reader s)) m it = Inr (map item_of (leaf_entries (p # ps)))"
proof -
  let ?ld = "cache_load decompress crc (sl_reader s)"
  obtain n off where ld: "?ld (next_location 0 (page_field p)) = Inr n"
    and nd: "node_of n p (next_location off (next_field ps invalid_size))"
    and tl: "tail_at decompress crc (sl_reader s) off ps" "off < 2 ^ 46"
    using tail_at_load [OF t] by blast
  have i0: "0 < length (pg_entries p)" using t leaf by (auto simp: tail_at_def)
  have mk: "loc_make_raw 0 (page_field p) = Inr (next_location 0 (page_field p))"
    by (simp add: loc_make_raw_def next_location_def max_offset_def)
  define it where "it = \<lparr>si_node = Some n, si_ndx = of_nat 0, si_attrs = None\<rparr>"
  have "slice_begin ?ld s = Inr (Some it)"
    using cnt first i0 nd ld by (simp add: slice_begin_def ucast_u16_u64 mk slice_iterator_make_def node_of_def it_def)
  moreover obtain m' where m': "m = Suc m'" "length (drop (Suc 0) (pg_entries p) @ leaf_entries ps) < m'"
    using m leaf i0 by (cases m) (auto simp del: length_greater_0_conv)
  have "si_next k ?ld it = Inr (True, \<lparr>si_node = Some n, si_ndx = of_nat 0, si_attrs = Some (si_attrs_at n (of_nat 0))\<rparr>)"
    by (simp add: si_next_def it_def)
  moreover have "length ps < k" using k by simp
  note dr = si_drain_tail [OF nd tl this i0 m'(2), of "si_attrs_at n (of_nat 0)"]
  moreover have "pg_entries p = pg_entries p ! 0 # drop (Suc 0) (pg_entries p)"
    using i0 by (metis Cons_nth_drop_Suc drop_0)
  ultimately show ?thesis
    using node_of_item(1) [OF nd i0] leaf unfolding m'(1)
    by (simp del: of_nat_0) (metis append_Cons list.simps(9))
qed

section \<open>What the writer has put down\<close>

definition cur_rep :: "node_writer \<Rightarrow> page_entry list \<Rightarrow> bool" where
  "cur_rep nw es \<longleftrightarrow> (if nw_node nw = None then es = []
     else nw_rep nw es \<and> (es = [] \<longrightarrow> unat (nw_data_offset nw) = node_size))"

definition chain_rep ::
  "(bytes \<Rightarrow> bytes option) \<Rightarrow> (bytes \<Rightarrow> u32) \<Rightarrow> slice_writer \<Rightarrow> page list \<Rightarrow> bool" where
  "chain_rep decompress crc w ps \<longleftrightarrow>
     (\<forall>p \<in> set ps. page_good decompress p \<and> (pg_leaf p \<longrightarrow> pg_entries p \<noteq> []))
     \<and> (if ps = [] then sw_writer w = [] \<and> sh_first_node_size (sw_header w) = invalid_size
        else (\<forall>t. sw_writer w @ le_bytes 2 t = chain crc ps t)
          \<and> sh_first_node_size (sw_header w) = page_field (hd ps) \<and> pg_leaf (hd ps))"

lemma page_field_valid: "page_good decompress p \<Longrightarrow> page_field p \<noteq> invalid_size"
  using loc_size_fields(3) [OF page_sizes(1)] by (simp add: page_field_def)

lemma nw_flush_page:
  assumes "cur_rep nw es" "nw_flush compress nw = Inr (sink, nw1)" "lz4_fits compress decompress"
  shows "page_good decompress \<lparr>pg_leaf = leaf, pg_sink = sink, pg_entries = es\<rparr>"
proof -
  define w0 where "w0 = (if nw_node nw = None then internal_reset nw else nw)"
  have rep: "nw_rep w0 es" using assms(1) nw_rep_reset by (auto simp: cur_rep_def w0_def split: if_splits)
  obtain nd where nd: "nw_node w0 = Some nd" "page_ok (nd_data nd) (unat (nw_data_offset w0)) es"
    and kc: "unat (nw_key_count w0) = length es"
    using rep by (auto simp: nw_rep_def)
  let ?c = "le_bytes 2 (nw_key_count w0)"
  let ?d = "poke (nd_data nd) 0 ?c"
  have page: "page_ok ?d (unat (nw_data_offset w0)) es" and cnt: "rd16 ?d 0 = nw_key_count w0"
    using page_ok_count [OF nd(2)] by (simp_all add: le16)
  have "compress ?d = Some sink"
    using assms(2) nd(1) by (auto simp: nw_flush_def w0_def [symmetric] Let_def split: option.splits)
  then have "decompress sink = Some ?d" "length sink \<le> node_size"
    using assms(3) by (auto simp: lz4_fits_def)
  moreover have "nw_key_count w0 = of_nat (length es)" by (simp add: kc [symmetric])
  ultimately show ?thesis using page cnt by (auto simp: page_good_def)
qed

lemma chain_rep_snoc:
  assumes rep: "chain_rep decompress crc w ps" and good: "page_good decompress p"
    and ne: "pg_leaf p \<longrightarrow> pg_entries p \<noteq> []"
    and w1: "sw_put_size (of_nat (length (pg_sink p))) (pg_leaf p) w = Inr w1"
    and w': "sw_writer w' = sw_writer w1 @ block crc p"
      "sh_first_node_size (sw_header w') = sh_first_node_size (sw_header w1)"
  shows "chain_rep decompress crc w' (ps @ [p])"
proof (cases "ps = []")
  case True
  then have "sw_writer w = []" "sh_first_node_size (sw_header w) = invalid_size"
    using rep by (simp_all add: chain_rep_def)
  then have "pg_leaf p" "sw_writer w1 = []" "sh_first_node_size (sw_header w1) = page_field p"
    using w1 by (auto simp: sw_put_size_def res_assert_eq_Inr page_field_def)
  then show ?thesis
    using good ne w' True by (simp add: chain_rep_def next_field_def)
next
  case False
  then have c: "\<forall>t. sw_writer w @ le_bytes 2 t = chain crc ps t" "pg_leaf (hd ps)"
    "sh_first_node_size (sw_header w) = page_field (hd ps)" "page_good decompress (hd ps)"
    using rep by (auto simp: chain_rep_def)
  then have "sh_first_node_size (sw_header w) \<noteq> invalid_size" using page_field_valid by metis
  then have "sw_writer w1 = sw_writer w @ le_bytes 2 (page_field p)"
    "sh_first_node_size (sw_header w1) = sh_first_node_size (sw_header w)"
    using w1 by (auto simp: sw_put_size_def res_bind_eq_Inr file_write_def page_field_def split: if_splits)
  then show ?thesis
    using False rep good ne c w' by (auto simp: chain_rep_def chain_snoc)
qed

lemma sw_link_writer:
  "sw_link l i w = Inr w' \<Longrightarrow> sw_writer w' = sw_writer w \<and> sw_header w' = sw_header w"
  by (auto simp: sw_link_def res_bind_eq_Inr split: option.splits if_splits)

lemma nw_reset_None: "nw_reset w = Inr (nd, w') \<Longrightarrow> nw_node w' = None"
  by (auto simp: nw_reset_def split: option.splits)

lemma sw_store_chain:
  assumes st: "sw_store compress crc nw leaf w = Inr (l, nw', w')" and rep: "chain_rep decompress crc w ps"
    and cur: "cur_rep nw es" and lz4: "lz4_fits compress decompress" and ne: "leaf \<longrightarrow> es \<noteq> []"
  shows "cur_rep nw' [] \<and> (\<exists>p. chain_rep decompress crc w' (ps @ [p]) \<and> pg_leaf p = leaf \<and> pg_entries p = es)"
  using st
proof (rule sw_store_Inr)
  fix buffer nw1 w1 w2 nd
  assume a: "nw_flush compress nw = Inr (buffer, nw1)"
    "sw_put_size (of_nat (length buffer)) leaf w = Inr w1"
    "sw_link l (sw_last_node w1) (w1\<lparr>sw_writer := sw_writer w1 @ le_bytes 4 (crc buffer) @ buffer\<rparr>) = Inr w2"
    "nw_reset nw1 = Inr (nd, nw')"
    "w' = w2\<lparr>sw_last_node := Some (length (sw_nodes w2)), sw_nodes := sw_nodes w2 @ [nd],
              sw_cached := sw_cached w2 @ [(l, length (sw_nodes w2))],
              sw_header := (sw_header w2)\<lparr>sh_stats :=
                sw_count (length buffer) leaf (sh_stats (sw_header w2))\<rparr>\<rparr>"
  let ?p = "\<lparr>pg_leaf = leaf, pg_sink = buffer, pg_entries = es\<rparr>"
  have "chain_rep decompress crc w' (ps @ [?p])"
    by (rule chain_rep_snoc [OF rep nw_flush_page [OF cur a(1) lz4], of leaf w1])
      (use ne a(2) sw_link_writer [OF a(3)] in \<open>auto simp: a(5) block_def\<close>)
  then show ?thesis using nw_reset_None [OF a(4)] by (auto simp: cur_rep_def)
qed

text \<open>Adding to a page that may not exist yet.\<close>

lemma nw_add_cur:
  assumes cur: "cur_rep nw es" and add: "nw_add key val eor deleted attrs no_split nw = Inr (r, nw')"
    and sz: "length attrs = 8" "14 + length key + max 16 (if no_split then length val else length val div 8) < 65536"
  shows "(r = - 1 \<and> cur_rep nw' es \<and> (space_needed key val no_split \<le> 8126 \<longrightarrow> es \<noteq> []))
    \<or> (\<exists>n. n \<le> length val \<and> r = int n \<and> cur_rep nw' (es @ [\<lparr>pe_key = key, pe_value = take n val,
          pe_eor = eor \<and> length val = n, pe_deleted = deleted, pe_attrs = attrs\<rparr>]))"
proof -
  define w0 where "w0 = (if nw_node nw = None then internal_reset nw else nw)"
  have rep: "nw_rep w0 es" using cur nw_rep_reset by (auto simp: cur_rep_def w0_def split: if_splits)
  have fresh: "es = [] \<longrightarrow> unat (nw_data_offset w0) = node_size"
    using cur nw_data_offset_reset by (auto simp: w0_def cur_rep_def)
  have node: "nw_node w0 \<noteq> None" using rep by (auto simp: nw_rep_def)
  have add0: "nw_add key val eor deleted attrs no_split w0 = Inr (r, nw')"
    using add nw_add_None [of nw key val eor deleted attrs no_split] by (simp add: w0_def split: if_splits)
  have key: "key \<noteq> []" "length key < max_key_size"
    using add by (auto simp: nw_add_def res_assert_eq_Inr)
  have cr: "cur_rep x (xs @ [y])" if "nw_rep x (xs @ [y])" for x xs y
    using that by (auto simp: cur_rep_def nw_rep_def)
  note spec = nw_add_spec [OF rep key sz, of eor deleted]
  show ?thesis
  proof (cases "unat (nw_data_offset w0) < 2 + 6 * length es + space_needed key val no_split")
    case True
    then have "r = - 1" "nw' = w0" using spec add0 by simp_all
    moreover have "es \<noteq> []" if "space_needed key val no_split \<le> 8126"
      using True that fresh by (auto simp: node_size_value)
    ultimately show ?thesis using rep fresh node by (auto simp: cur_rep_def)
  next
    case False
    then show ?thesis using spec add0 cr by (auto simp: value_part_def)
  qed
qed

text \<open>The levels of the index only ever append pages that are not leaves.\<close>

definition level_ok :: "index_writer \<Rightarrow> bool" where
  "level_ok lvl \<longleftrightarrow> (\<exists>es. cur_rep (iw_node lvl) es) \<and> kb_inv (iw_first_key lvl) \<and> kb_inv (iw_last_key lvl)"

lemma level_ok_init: "level_ok index_writer_init"
  by (auto simp: level_ok_def index_writer_init_def node_writer_init_def cur_rep_def)

lemma kb_assign_inv: "kb_inv b \<Longrightarrow> kb_assign k b = Inr b' \<Longrightarrow> kb_inv b' \<and> kb_view b' = k"
  by (auto simp: kb_assign_def kb_inv_def kb_view_def res_assert_eq_Inr)

lemma kb_view_length: "kb_inv b \<Longrightarrow> length (kb_view b) \<le> max_key_size"
  by (simp add: kb_inv_def kb_view_def)

lemma index_add_cur:
  assumes "\<exists>es. cur_rep nd es" "nw_add mn mx True False (le_bytes 8 (l :: u64)) True nd = Inr (r, nd')"
    "length mx \<le> max_key_size"
  shows "\<exists>es. cur_rep nd' es"
proof -
  have "length mn < max_key_size" using assms(2) by (auto simp: nw_add_def res_assert_eq_Inr)
  then have "14 + length mn + max 16 (if True then length mx else length mx div 8) < 65536"
    using assms(3) by (simp add: max_key_size_def)
  then show ?thesis using assms(1) nw_add_cur [OF _ assms(2) length_le_bytes] by blast
qed

lemma iw_add_parts:
  assumes "iw_add compress crc (Suc k) mn mx l (lvl # hs) w = Inr (lvls', w')"
  obtains fk r nd nd0 fk0 hs0 lk where
    "(if kb_size (iw_first_key lvl) = 0 then kb_assign mn (iw_first_key lvl) else Inr (iw_first_key lvl)) = Inr fk"
    "nw_add mn mx True False (le_bytes 8 l) True (iw_node lvl) = Inr (r, nd)"
    "if r = - 1 then \<exists>l' nd1 w1 r'. sw_store compress crc nd False w = Inr (l', nd1, w1)
         \<and> nw_add mn mx True False (le_bytes 8 l) True nd1 = Inr (r', nd0)
         \<and> iw_add compress crc k (kb_view fk) (kb_view (iw_last_key lvl)) l'
              (if hs = [] then [index_writer_init] else hs) w1 = Inr (hs0, w')
         \<and> kb_assign mn fk = Inr fk0
       else r = int (length mx) \<and> nd0 = nd \<and> fk0 = fk \<and> hs0 = hs \<and> w' = w"
    "kb_assign mx (iw_last_key lvl) = Inr lk"
    "lvls' = \<lparr>iw_node = nd0, iw_first_key = fk0, iw_last_key = lk\<rparr> # hs0"
proof -
  obtain fk where fk: "(if kb_size (iw_first_key lvl) = 0 then kb_assign mn (iw_first_key lvl)
      else Inr (iw_first_key lvl)) = Inr fk"
    using assms by (auto simp: res_bind_eq_Inr)
  obtain r nd where ad: "nw_add mn mx True False (le_bytes 8 l) True (iw_node lvl) = Inr (r, nd)"
    using assms by (auto simp: res_bind_eq_Inr)
  show thesis
  proof (cases "r = - 1")
    case True
    then show ?thesis
      using assms that [OF fk ad] by (auto simp: fk ad res_bind_eq_Inr)
  next
    case False
    then show ?thesis
      using assms that [OF fk ad] by (auto simp: fk ad res_bind_eq_Inr res_assert_eq_Inr)
  qed
qed

definition grows :: "(bytes \<Rightarrow> bytes option) \<Rightarrow> (bytes \<Rightarrow> u32) \<Rightarrow> page list \<Rightarrow> slice_writer \<Rightarrow> bool" where
  "grows decompress crc ps w \<longleftrightarrow> (\<exists>qs. chain_rep decompress crc w (ps @ qs) \<and> leaf_entries qs = [])"

lemma grows_trans:
  assumes "chain_rep decompress crc w (ps @ qs)" "leaf_entries qs = []" "grows decompress crc (ps @ qs) w'"
  shows "grows decompress crc ps w'"
  using assms by (auto simp: grows_def intro: exI [of _ "qs @ _"])

lemma iw_add_grows:
  "iw_add compress crc k mn mx l lvls w = Inr (lvls', w') \<Longrightarrow> lz4_fits compress decompress \<Longrightarrow>
    chain_rep decompress crc w ps \<Longrightarrow> list_all level_ok lvls \<Longrightarrow> length mx \<le> max_key_size \<Longrightarrow>
    grows decompress crc ps w' \<and> list_all level_ok lvls'"
proof (induction k arbitrary: mn mx l lvls w lvls' w' ps)
  case 0
  then show ?case by simp
next
  case (Suc k)
  obtain lvl hs where lvls: "lvls = lvl # hs" using Suc.prems(1) by (cases lvls) auto
  have lvl: "\<exists>es. cur_rep (iw_node lvl) es" "kb_inv (iw_first_key lvl)" "kb_inv (iw_last_key lvl)"
    using Suc.prems(4) by (simp_all add: lvls level_ok_def)
  have hs: "list_all level_ok (if hs = [] then [index_writer_init] else hs)"
    using Suc.prems(4) level_ok_init by (simp add: lvls)
  from Suc.prems(1) [unfolded lvls] show ?case
  proof (rule iw_add_parts)
    fix fk r nd nd0 fk0 hs0 lk
    assume a: "(if kb_size (iw_first_key lvl) = 0 then kb_assign mn (iw_first_key lvl) else Inr (iw_first_key lvl)) = Inr fk"
      "nw_add mn mx True False (le_bytes 8 l) True (iw_node lvl) = Inr (r, nd)"
      and b: "if r = - 1 then \<exists>l' nd1 w1 r'. sw_store compress crc nd False w = Inr (l', nd1, w1)
         \<and> nw_add mn mx True False (le_bytes 8 l) True nd1 = Inr (r', nd0)
         \<and> iw_add compress crc k (kb_view fk) (kb_view (iw_last_key lvl)) l'
              (if hs = [] then [index_writer_init] else hs) w1 = Inr (hs0, w')
         \<and> kb_assign mn fk = Inr fk0
       else r = int (length mx) \<and> nd0 = nd \<and> fk0 = fk \<and> hs0 = hs \<and> w' = w"
      and c: "kb_assign mx (iw_last_key lvl) = Inr lk"
      and d: "lvls' = \<lparr>iw_node = nd0, iw_first_key = fk0, iw_last_key = lk\<rparr> # hs0"
    have fk: "kb_inv fk" using a(1) lvl(2) kb_assign_inv by (auto split: if_splits)
    have lk: "kb_inv lk" using c lvl(3) kb_assign_inv by blast
    have nd: "\<exists>es. cur_rep nd es" by (rule index_add_cur [OF lvl(1) a(2) Suc.prems(5)])
    show ?thesis
    proof (cases "r = - 1")
      case False
      then show ?thesis
        using b d nd fk lk Suc.prems(3,4) by (auto simp: grows_def level_ok_def lvls intro: exI [of _ "[]"])
    next
      case True
      then obtain l' nd1 w1 r' where st: "sw_store compress crc nd False w = Inr (l', nd1, w1)"
        and ad: "nw_add mn mx True False (le_bytes 8 l) True nd1 = Inr (r', nd0)"
        and up: "iw_add compress crc k (kb_view fk) (kb_view (iw_last_key lvl)) l'
              (if hs = [] then [index_writer_init] else hs) w1 = Inr (hs0, w')"
        and fk0: "kb_assign mn fk = Inr fk0"
        using b by auto
      obtain es where es: "cur_rep nd es" using nd ..
      obtain p where nd1: "cur_rep nd1 []" and w1: "chain_rep decompress crc w1 (ps @ [p])" "\<not> pg_leaf p"
        using sw_store_chain [OF st Suc.prems(3) es Suc.prems(2)] by auto
      have nd0: "\<exists>es. cur_rep nd0 es" using index_add_cur [OF _ ad Suc.prems(5)] nd1 by blast
      have up': "grows decompress crc (ps @ [p]) w' \<and> list_all level_ok hs0"
        by (rule Suc.IH [OF up Suc.prems(2) w1(1) hs kb_view_length [OF lvl(3)]])
      then have "grows decompress crc ps w'" using grows_trans [OF w1(1)] w1(2) by simp
      moreover have "kb_inv fk0" using kb_assign_inv [OF fk fk0] by simp
      then have "level_ok \<lparr>iw_node = nd0, iw_first_key = fk0, iw_last_key = lk\<rparr>"
        using nd0 lk by (simp add: level_ok_def)
      ultimately show ?thesis using d up' by simp
    qed
  qed
qed

section \<open>What a writer holds\<close>

definition sw_rep ::
  "(bytes \<Rightarrow> bytes option) \<Rightarrow> (bytes \<Rightarrow> u32) \<Rightarrow> slice_writer \<Rightarrow> page list \<Rightarrow> page_entry list \<Rightarrow> bool" where
  "sw_rep decompress crc w ps cur \<longleftrightarrow> chain_rep decompress crc w ps \<and> cur_rep (sw_node w) cur
     \<and> list_all level_ok (sw_index w) \<and> kb_inv (sw_first_key w) \<and> kb_inv (sw_last_key w)"

lemma chain_rep_node [simp]:
  "chain_rep decompress crc (w\<lparr>sw_node := nd\<rparr>) ps = chain_rep decompress crc w ps"
  "chain_rep decompress crc (w\<lparr>sw_index := lv\<rparr>) ps = chain_rep decompress crc w ps"
  "chain_rep decompress crc (w\<lparr>sw_first_key := fk\<rparr>) ps = chain_rep decompress crc w ps"
  "chain_rep decompress crc (w\<lparr>sw_last_key := fk\<rparr>) ps = chain_rep decompress crc w ps"
  "chain_rep decompress crc (w\<lparr>sw_last_eor := e\<rparr>) ps = chain_rep decompress crc w ps"
  "chain_rep decompress crc (w\<lparr>sw_header := (sw_header w)\<lparr>sh_stats := st\<rparr>\<rparr>) ps
     = chain_rep decompress crc w ps"
  by (simp_all add: chain_rep_def)

lemma sw_next_page_rep:
  assumes np: "sw_next_page compress crc depth new_key key w = Inr w'"
    and rep: "sw_rep decompress crc w ps cur" and cur: "cur \<noteq> []" and lz4: "lz4_fits compress decompress"
  shows "\<exists>ps'. sw_rep decompress crc w' ps' [] \<and> leaf_entries ps' = leaf_entries ps @ cur"
proof -
  have r: "chain_rep decompress crc w ps" "cur_rep (sw_node w) cur" "list_all level_ok (sw_index w)"
    "kb_inv (sw_first_key w)" "kb_inv (sw_last_key w)"
    using rep by (simp_all add: sw_rep_def)
  from np show ?thesis
  proof (cases rule: sw_next_page_cases)
    case (1 location nd w1)
    then obtain p where p: "cur_rep nd []" "chain_rep decompress crc w1 (ps @ [p])" "pg_leaf p" "pg_entries p = cur"
      using sw_store_chain [OF 1(1) r(1,2) lz4] cur by auto
    have "sw_rep decompress crc w' (ps @ [p]) []"
      using 1(3) p r sw_store_same [OF 1(1)] by (simp add: sw_rep_def same_input_def)
    with p show ?thesis by (intro exI [of _ "ps @ [p]"]) simp
  next
    case (2 location nd w1 lvls w2 fk)
    then obtain p where p: "cur_rep nd []" "chain_rep decompress crc w1 (ps @ [p])" "pg_leaf p" "pg_entries p = cur"
      using sw_store_chain [OF 2(1) r(1,2) lz4] cur by auto
    have same: "same_input w w1" by (rule sw_store_same [OF 2(1)])
    have c: "chain_rep decompress crc (w1\<lparr>sw_node := nd\<rparr>) (ps @ [p])" using p by simp
    have lv: "list_all level_ok (sw_index w1)" and lk: "length (kb_view (sw_last_key w1)) \<le> max_key_size"
      using same r kb_view_length by (simp_all add: same_input_def)
    have g: "grows decompress crc (ps @ [p]) w2" "list_all level_ok lvls"
      using iw_add_grows [OF 2(3) lz4 c lv lk] by simp_all
    then obtain qs where qs: "chain_rep decompress crc w2 ((ps @ [p]) @ qs)" "leaf_entries qs = []"
      by (auto simp: grows_def)
    have s2: "same_input (w1\<lparr>sw_node := nd\<rparr>) w2" by (rule iw_add_same [OF 2(3)])
    have "kb_inv (sw_first_key w2)" using s2 same r by (simp add: same_input_def)
    then have "kb_inv fk" using 2(4) kb_assign_inv by (auto split: if_splits)
    moreover have "sw_node w2 = nd" "kb_inv (sw_last_key w2)"
      using s2 same r by (simp_all add: same_input_def)
    ultimately have "sw_rep decompress crc w' ((ps @ [p]) @ qs) []"
      using 2(5) p qs g(2) by (simp add: sw_rep_def)
    with p qs show ?thesis by (intro exI [of _ "(ps @ [p]) @ qs"]) simp
  qed
qed

text \<open>The entries an item becomes: the value in pieces, the end-of-record flag on the last.\<close>

definition pieces_of :: "item \<Rightarrow> page_entry list \<Rightarrow> bool" where
  "pieces_of i es \<longleftrightarrow> es \<noteq> [] \<and> (\<forall>e \<in> set es. pe_key e = it_key i \<and> pe_deleted e = it_deleted i
       \<and> pe_attrs e = le_bytes 8 (it_idx i))
     \<and> concat (map pe_value es) = it_value i
     \<and> map pe_eor es = replicate (length es - 1) False @ [it_eor i]
     \<and> (it_value i = [] \<longrightarrow> length es = 1)"

definition item_fits :: "item \<Rightarrow> bool" where
  "item_fits i \<longleftrightarrow> length (it_key i) + max 16 (length (it_value i) div 8) \<le> 8112"

lemma pieces_of_Cons:
  assumes "pieces_of i es" "it_value i \<noteq> []" "e = \<lparr>pe_key = it_key i, pe_value = v, pe_eor = False, pe_deleted = it_deleted i,
    pe_attrs = le_bytes 8 (it_idx i)\<rparr>"
  shows "pieces_of (i\<lparr>it_value := v @ it_value i\<rparr>) (e # es)"
proof -
  obtain n where "length es = Suc n" using assms(1) by (cases es) (auto simp: pieces_of_def)
  then show ?thesis using assms by (auto simp: pieces_of_def)
qed

lemma sw_add_loop_rep:
  "sw_add_loop compress crc depth k new_key (it_key i) (it_value i) (it_eor i) (it_deleted i) (it_idx i) w = Inr w' \<Longrightarrow>
    sw_rep decompress crc w ps cur \<Longrightarrow> lz4_fits compress decompress \<Longrightarrow> item_fits i \<Longrightarrow>
    \<exists>ps' cur' es. sw_rep decompress crc w' ps' cur' \<and> pieces_of i es \<and> cur' \<noteq> []
      \<and> leaf_entries ps' @ cur' = leaf_entries ps @ cur @ es"
proof (induction k arbitrary: i w ps cur)
  case 0
  then show ?case by simp
next
  case (Suc k)
  have r: "cur_rep (sw_node w) cur" using Suc.prems(2) by (simp add: sw_rep_def)
  have sz: "14 + length (it_key i) + max 16 (if False then length (it_value i) else length (it_value i) div 8) < 65536"
    "space_needed (it_key i) (it_value i) False \<le> 8126"
    using Suc.prems(4) by (simp_all add: item_fits_def space_needed_def)
  let ?e = "\<lambda>n. \<lparr>pe_key = it_key i, pe_value = take n (it_value i), pe_eor = it_eor i \<and> length (it_value i) = n,
    pe_deleted = it_deleted i, pe_attrs = le_bytes 8 (it_idx i)\<rparr>"
  from Suc.prems(1) show ?case
  proof (cases rule: sw_add_loop_cases)
    case (done_ r nd)
    then obtain n where n: "n \<le> length (it_value i)" "r = int n" "cur_rep nd (cur @ [?e n])"
      using nw_add_cur [OF r done_(1) length_le_bytes sz(1)] by auto
    then have "n = length (it_value i)" using done_(3) by simp
    then have "pieces_of i [?e n]" by (simp add: pieces_of_def)
    moreover have "sw_rep decompress crc w' ps (cur @ [?e n])"
      using Suc.prems(2) n(3) done_(4) by (simp add: sw_rep_def)
    ultimately show ?thesis
      by (intro exI [of _ ps] exI [of _ "cur @ [?e n]"] exI [of _ "[?e n]"]) simp
  next
    case (page r nd val' w1)
    have add: "(r = - 1 \<and> cur_rep nd cur \<and> cur \<noteq> [])
        \<or> (\<exists>n. n \<le> length (it_value i) \<and> r = int n \<and> cur_rep nd (cur @ [?e n]))"
      using nw_add_cur [OF r page(1) length_le_bytes sz(1)] sz(2) by auto
    show ?thesis
    proof (cases "r = - 1")
      case True
      then have rc: "sw_rep decompress crc (w\<lparr>sw_node := nd\<rparr>) ps cur" "cur \<noteq> []" and v: "val' = it_value i"
        using add Suc.prems(2) page(2) by (auto simp: sw_rep_def)
      then obtain ps' where ps': "sw_rep decompress crc w1 ps' []" "leaf_entries ps' = leaf_entries ps @ cur"
        using sw_next_page_rep [OF page(4) rc Suc.prems(3)] by blast
      from Suc.IH [OF page(5) [unfolded v] ps'(1) Suc.prems(3,4)] ps'(2)
      show ?thesis by auto
    next
      case False
      then obtain n where n: "n \<le> length (it_value i)" "r = int n" "cur_rep nd (cur @ [?e n])"
        using add by auto
      have val': "val' = drop n (it_value i)" "val' \<noteq> []" using page(2,3) False n(2) by auto
      then have eor: "length (it_value i) \<noteq> n" by auto
      have "sw_rep decompress crc (w\<lparr>sw_node := nd\<rparr>) ps (cur @ [?e n])"
        using n(3) Suc.prems(2) by (simp add: sw_rep_def)
      then obtain ps' where ps': "sw_rep decompress crc w1 ps' []"
          "leaf_entries ps' = leaf_entries ps @ cur @ [?e n]"
        using sw_next_page_rep [OF page(4) _ _ Suc.prems(3)] by auto
      define j where "j = i\<lparr>it_value := val'\<rparr>"
      have j: "it_key j = it_key i" "it_eor j = it_eor i" "it_deleted j = it_deleted i" "it_idx j = it_idx i"
        "it_value j = val'"
        by (simp_all add: j_def)
      have "length val' div 8 \<le> length (it_value i) div 8" using val'(1) by (simp add: div_le_mono)
      then have fits: "item_fits j" using Suc.prems(4) by (auto simp: item_fits_def j max_def split: if_splits)
      obtain ps'' cur'' es where w': "sw_rep decompress crc w' ps'' cur''" and es: "pieces_of j es" "cur'' \<noteq> []"
        "leaf_entries ps'' @ cur'' = leaf_entries ps' @ [] @ es"
        using Suc.IH [of j, unfolded j, OF page(5) ps'(1) Suc.prems(3) fits] by blast
      have "pieces_of (j\<lparr>it_value := take n (it_value i) @ it_value j\<rparr>) (?e n # es)"
        by (rule pieces_of_Cons [OF es(1)]) (simp_all add: j eor val'(2))
      moreover have "j\<lparr>it_value := take n (it_value i) @ it_value j\<rparr> = i" by (simp add: j_def val'(1))
      ultimately have "pieces_of i (?e n # es)" by simp
      then show ?thesis using w' es(2,3) ps'(2)
        by (intro exI [of _ ps''] exI [of _ cur''] exI [of _ "?e n # es"]) simp
    qed
  qed
qed

lemma sw_add_rep:
  assumes "sw_add compress crc depth k (it_key i) (it_value i) (it_eor i) (it_deleted i) (it_idx i) w = Inr w'"
    and rep: "sw_rep decompress crc w ps cur" and lz4: "lz4_fits compress decompress" and fits: "item_fits i"
  shows "\<exists>ps' cur' es. sw_rep decompress crc w' ps' cur' \<and> pieces_of i es \<and> cur' \<noteq> []
      \<and> leaf_entries ps' @ cur' = leaf_entries ps @ cur @ es"
proof -
  obtain b w0 w1 where w0: "(if b \<and> kb_size (sw_first_key w) = 0 then
        res_bind (kb_assign (it_key i) (sw_first_key w)) (\<lambda>fk. Inr (w\<lparr>sw_first_key := fk\<rparr>))
      else Inr w) = Inr w0"
    and l: "sw_add_loop compress crc depth k b (it_key i) (it_value i) (it_eor i) (it_deleted i) (it_idx i) w0 = Inr w1"
    and f: "sw_finish_add (it_key i) (it_eor i) w1 = Inr w'"
    using assms(1) unfolding sw_add_def res_bind_eq_Inr res_assert_eq_Inr by blast
  have "sw_rep decompress crc w0 ps cur"
    using w0 rep kb_assign_inv by (auto simp: res_bind_eq_Inr sw_rep_def split: if_splits)
  then obtain ps' cur' es where r: "sw_rep decompress crc w1 ps' cur'" "pieces_of i es" "cur' \<noteq> []"
      "leaf_entries ps' @ cur' = leaf_entries ps @ cur @ es"
    using sw_add_loop_rep [OF l _ lz4 fits] by blast
  have "sw_rep decompress crc w' ps' cur'"
    using f r(1) kb_assign_inv by (auto simp: sw_finish_add_def res_bind_eq_Inr sw_rep_def chain_rep_def)
  with r show ?thesis by blast
qed

lemma sw_add_all_rep:
  "sw_add_all compress crc depth k False is w = Inr w' \<Longrightarrow> sw_rep decompress crc w ps cur \<Longrightarrow>
    lz4_fits compress decompress \<Longrightarrow> list_all item_fits is \<Longrightarrow>
    \<exists>ps' cur' ess. sw_rep decompress crc w' ps' cur' \<and> list_all2 pieces_of is ess
      \<and> (cur = [] \<longrightarrow> is = [] \<or> cur' \<noteq> []) \<and> (cur \<noteq> [] \<longrightarrow> cur' \<noteq> [])
      \<and> leaf_entries ps' @ cur' = leaf_entries ps @ cur @ concat ess"
proof (induction "is" arbitrary: w ps cur)
  case Nil
  then show ?case by (auto intro: exI [of _ "[]"])
next
  case (Cons i "is")
  obtain w1 where a: "sw_add compress crc depth k (it_key i) (it_value i) (it_eor i) (it_deleted i) (it_idx i) w = Inr w1"
    and rest: "sw_add_all compress crc depth k False is w1 = Inr w'"
    using Cons.prems(1) by (auto simp: res_bind_eq_Inr)
  obtain ps' cur' es where w1: "sw_rep decompress crc w1 ps' cur'" "pieces_of i es"
      "leaf_entries ps' @ cur' = leaf_entries ps @ cur @ es" and ne: "cur' \<noteq> []"
    using sw_add_rep [OF a Cons.prems(2,3)] Cons.prems(4) by auto
  obtain ps'' cur'' ess where w': "sw_rep decompress crc w' ps'' cur''" "list_all2 pieces_of is ess"
      "cur'' \<noteq> []" "leaf_entries ps'' @ cur'' = leaf_entries ps' @ cur' @ concat ess"
    using Cons.IH [OF rest w1(1) Cons.prems(3)] Cons.prems(4) ne by auto
  have "leaf_entries ps'' @ cur'' = leaf_entries ps @ cur @ concat (es # ess)"
    using w'(4) w1(3) by (metis append.assoc concat.simps(2))
  with w'(1,2,3) w1(2) show ?case by (intro exI [of _ ps''] exI [of _ cur''] exI [of _ "es # ess"]) simp
qed

text \<open>How the key count grows.\<close>

lemma sw_add_loop_count:
  "sw_add_loop compress crc depth k new_key key val eor deleted idx w = Inr w' \<Longrightarrow>
    ss_key_count (sh_stats (sw_header w')) = ss_key_count (sh_stats (sw_header w))"
proof (induction k arbitrary: val w)
  case 0
  then show ?case by simp
next
  case (Suc k)
  from Suc.prems show ?case
  proof (cases rule: sw_add_loop_cases)
    case (page r nd val' w1)
    from page(4) have "ss_key_count (sh_stats (sw_header w1)) = ss_key_count (sh_stats (sw_header w))"
    proof (cases rule: sw_next_page_cases)
      case (1 location nd' w2)
      from sw_store_same [OF 1(1)] 1(3) show ?thesis by (simp add: same_input_def)
    next
      case (2 location nd' w2 lvls w3 fk)
      from sw_store_same [OF 2(1)] iw_add_same [OF 2(3)] 2(5) show ?thesis by (simp add: same_input_def)
    qed
    with Suc.IH [OF page(5)] show ?thesis by simp
  qed simp
qed

lemma sw_add_count:
  assumes "sw_add compress crc depth k key val eor deleted idx w = Inr w'"
  shows "ss_key_count (sh_stats (sw_header w')) = ss_key_count (sh_stats (sw_header w)) + 1"
proof -
  obtain b w0 w1 where w0: "(if b \<and> kb_size (sw_first_key w) = 0 then
        res_bind (kb_assign key (sw_first_key w)) (\<lambda>fk. Inr (w\<lparr>sw_first_key := fk\<rparr>))
      else Inr w) = Inr w0"
    and l: "sw_add_loop compress crc depth k b key val eor deleted idx w0 = Inr w1"
    and f: "sw_finish_add key eor w1 = Inr w'"
    using assms unfolding sw_add_def res_bind_eq_Inr res_assert_eq_Inr by blast
  then show ?thesis
    using sw_add_loop_count [OF l] by (auto simp: sw_finish_add_def res_bind_eq_Inr split: if_splits)
qed

lemma sw_add_all_count:
  "sw_add_all compress crc depth k False is w = Inr w' \<Longrightarrow>
    ss_key_count (sh_stats (sw_header w')) = ss_key_count (sh_stats (sw_header w)) + of_nat (length is)"
proof (induction "is" arbitrary: w)
  case (Cons i "is")
  then obtain w1 where a: "sw_add compress crc depth k (it_key i) (it_value i) (it_eor i) (it_deleted i) (it_idx i) w = Inr w1"
    and rest: "sw_add_all compress crc depth k False is w1 = Inr w'"
    by (auto simp: res_bind_eq_Inr)
  from sw_add_count [OF a] Cons.IH [OF rest] show ?case by simp
qed simp

section \<open>The finished file\<close>

definition appends :: "slice_writer \<Rightarrow> slice_writer \<Rightarrow> bool" where
  "appends w w' \<longleftrightarrow> (\<exists>x. sw_writer w' = sw_writer w @ x)
     \<and> (sh_first_node_size (sw_header w) \<noteq> invalid_size \<longrightarrow>
          sh_first_node_size (sw_header w') = sh_first_node_size (sw_header w))"

lemma appends_refl [simp]: "appends w w"
  by (simp add: appends_def)

lemma appends_trans: "appends a b \<Longrightarrow> appends b c \<Longrightarrow> appends a c"
  by (auto simp: appends_def)

lemma sw_store_appends:
  assumes "sw_store compress crc nw leaf w = Inr (l, nw', w')"
  shows "appends w w'"
  using assms
proof (rule sw_store_Inr)
  fix buffer nw1 w1 w2 nd
  assume a: "sw_put_size (of_nat (length buffer)) leaf w = Inr w1"
    "sw_link l (sw_last_node w1) (w1\<lparr>sw_writer := sw_writer w1 @ le_bytes 4 (crc buffer) @ buffer\<rparr>) = Inr w2"
    "w' = w2\<lparr>sw_last_node := Some (length (sw_nodes w2)), sw_nodes := sw_nodes w2 @ [nd],
              sw_cached := sw_cached w2 @ [(l, length (sw_nodes w2))],
              sw_header := (sw_header w2)\<lparr>sh_stats :=
                sw_count (length buffer) leaf (sh_stats (sw_header w2))\<rparr>\<rparr>"
  have "appends w w1"
    using a(1) by (auto simp: sw_put_size_def appends_def res_bind_eq_Inr res_assert_eq_Inr file_write_def
        split: if_splits)
  moreover have "appends w1 w'" using sw_link_writer [OF a(2)] by (simp add: a(3) appends_def)
  ultimately show ?thesis by (rule appends_trans)
qed

lemma iw_add_appends:
  "iw_add compress crc k mn mx l lvls w = Inr (lvls', w') \<Longrightarrow> appends w w'"
proof (induction k arbitrary: mn mx l lvls w lvls' w')
  case 0
  then show ?case by simp
next
  case (Suc k)
  from Suc.prems show ?case
  proof (cases rule: iw_add_cases)
    case fits
    then show ?thesis by simp
  next
    case full
    then show ?thesis using Suc.IH sw_store_appends appends_trans by blast
  qed
qed

lemma iw_flush_appends:
  "iw_flush compress crc k lvls w = Inr (r, lvls', w') \<Longrightarrow> appends w w'"
proof (induction k arbitrary: lvls w r lvls' w')
  case 0
  then show ?case by simp
next
  case (Suc k)
  obtain lvl hs where lvls: "lvls = lvl # hs" using Suc.prems by (cases lvls) auto
  obtain l nd w1 where st: "sw_store compress crc (iw_node lvl) False w = Inr (l, nd, w1)"
    using Suc.prems unfolding lvls by (auto simp: res_bind_eq_Inr)
  show ?case
  proof (cases "hs = []")
    case True
    then show ?thesis using Suc.prems st sw_store_appends [OF st] by (auto simp: lvls)
  next
    case False
    then obtain hs' w2 hs'' where a: "iw_add compress crc k (kb_view (iw_first_key lvl))
        (kb_view (iw_last_key lvl)) l hs w1 = Inr (hs', w2)" and f: "iw_flush compress crc k hs' w2 = Inr (r, hs'', w')"
      using Suc.prems st unfolding lvls by (auto simp: res_bind_eq_Inr)
    show ?thesis
      by (rule appends_trans [OF sw_store_appends [OF st] appends_trans [OF iw_add_appends [OF a] Suc.IH [OF f]]])
  qed
qed

lemma sw_flush_pages_chain:
  assumes fl: "sw_flush_pages compress crc depth w = Inr w'"
    and rep: "sw_rep decompress crc w ps cur" and cur: "cur \<noteq> []" and lz4: "lz4_fits compress decompress"
  shows "\<exists>p ps'. \<exists>x. sw_writer w' = chain crc (p # ps') invalid_size @ x \<and> pg_leaf p
    \<and> sh_first_node_size (sw_header w') = page_field p
    \<and> leaf_entries (p # ps') = leaf_entries ps @ cur
    \<and> (\<forall>q \<in> set (p # ps'). page_good decompress q \<and> (pg_leaf q \<longrightarrow> pg_entries q \<noteq> []))
    \<and> ss_key_count (sh_stats (sw_header w')) = ss_key_count (sh_stats (sw_header w))"
proof -
  obtain location nd w0 w1 w2 root lvls w3 i w4 where
    st: "sw_store compress crc (sw_node w) True w = Inr (location, nd, w0)"
    and wr: "sw_write (le_bytes 2 invalid_size) (w0\<lparr>sw_node := nd\<rparr>) = Inr w1"
    and ix: "(if kb_size (sw_first_key w1) \<noteq> 0 then sw_add_index compress crc depth location w1 else Inr w1) = Inr w2"
    and fp: "iw_flush compress crc depth (sw_index w2) w2 = Inr (root, lvls, w3)"
    and l1: "sw_link (ucast invalid_size) (sw_last_node w1) (w3\<lparr>sw_index := lvls, sw_header := (sw_header w3)\<lparr>sh_root := root\<rparr>\<rparr>) = Inr w4"
    and l2: "sw_link (ucast invalid_size) i w4 = Inr w'"
    using fl unfolding sw_flush_pages_def Let_def by (fastforce simp: res_bind_eq_Inr split: prod.splits)
  have r: "chain_rep decompress crc w ps" "cur_rep (sw_node w) cur" using rep by (simp_all add: sw_rep_def)
  obtain p where p: "chain_rep decompress crc w0 (ps @ [p])" "pg_leaf p" "pg_entries p = cur"
    using sw_store_chain [OF st r lz4] cur by auto
  obtain q qs where q: "ps @ [p] = q # qs" by (cases "ps @ [p]") auto
  have c0: "sw_writer w0 @ le_bytes 2 invalid_size = chain crc (q # qs) invalid_size"
      "sh_first_node_size (sw_header w0) = page_field q" "pg_leaf q"
      "\<forall>q \<in> set (q # qs). page_good decompress q \<and> (pg_leaf q \<longrightarrow> pg_entries q \<noteq> [])"
    using p(1) unfolding q by (simp_all add: chain_rep_def)
  have w1: "sw_writer w1 = chain crc (q # qs) invalid_size" "sw_header w1 = sw_header w0"
    using wr c0(1) by (auto simp: sw_write_def file_write_def split: if_splits)
  have "appends w1 w2"
    using ix iw_add_appends by (auto simp: sw_add_index_def res_bind_eq_Inr appends_def split: if_splits)
  moreover have "appends w2 w3" by (rule iw_flush_appends [OF fp])
  moreover have "appends w3 w'" using sw_link_writer [OF l1] sw_link_writer [OF l2] by (simp add: appends_def)
  ultimately have ap: "appends w1 w'" by (blast intro: appends_trans)
  have "page_field q \<noteq> invalid_size" using page_field_valid c0(4) by auto
  then have first: "sh_first_node_size (sw_header w') = page_field q"
    using ap c0(2) w1(2) by (simp add: appends_def)
  obtain x where x: "sw_writer w' = chain crc (q # qs) invalid_size @ x" using ap w1(1) by (auto simp: appends_def)
  have le: "leaf_entries (q # qs) = leaf_entries ps @ cur" unfolding q [symmetric] using p(2,3) by simp
  show ?thesis
    using sw_flush_pages_signature(2) [OF fl] x c0(3,4) first le by (intro exI [of _ q] exI [of _ qs] exI [of _ x]) simp
qed

section \<open>Storing succeeds\<close>

text \<open>LZ4 given the room of \<open>LZ4_compressBound\<close> does not fail; the size bound is the one \<open>load\<close> asks for.\<close>

definition lz4_total :: "(bytes \<Rightarrow> bytes option) \<Rightarrow> bool" where
  "lz4_total compress \<longleftrightarrow>
     (\<forall>d. length d = node_size \<longrightarrow> (\<exists>c. compress d = Some c \<and> length c \<le> node_size))"

definition link_ok :: "slice_writer \<Rightarrow> bool" where
  "link_ok w \<longleftrightarrow> \<not> sw_commited w \<and> (case sw_last_node w of None \<Rightarrow> True
     | Some i \<Rightarrow> i < length (sw_nodes w) \<and> sh_first_node_size (sw_header w) \<noteq> invalid_size)"

lemma sw_link_Inr:
  assumes "link_ok w" "l \<noteq> 0" "sw_nodes w' = sw_nodes w"
  obtains w2 where "sw_link l (sw_last_node w) w' = Inr w2" "sw_writer w2 = sw_writer w'"
    "sw_header w2 = sw_header w'" "length (sw_nodes w2) = length (sw_nodes w)" "sw_commited w2 = sw_commited w'"
proof (cases "sw_last_node w")
  case None
  then show ?thesis using that assms by (simp add: sw_link_def)
next
  case (Some i)
  then show ?thesis using that assms by (auto simp: sw_link_def link_ok_def set_next_def)
qed

lemma nw_flush_Inr:
  assumes "cur_rep nw es" "lz4_total compress"
  obtains sink nw1 n where "nw_flush compress nw = Inr (sink, nw1)" "length sink \<le> node_size" "nw_node nw1 = Some n"
proof -
  define w0 where "w0 = (if nw_node nw = None then internal_reset nw else nw)"
  have rep: "nw_rep w0 es" using assms(1) nw_rep_reset by (auto simp: cur_rep_def w0_def split: if_splits)
  obtain nd where nd: "nw_node w0 = Some nd" "page_ok (nd_data nd) (unat (nw_data_offset w0)) es"
    using rep by (auto simp: nw_rep_def)
  let ?d = "poke (nd_data nd) 0 (le_bytes 2 (nw_key_count w0))"
  have "length ?d = node_size" using nd(2) by (simp add: page_ok_def node_size_value)
  then obtain c where "compress ?d = Some c" "length c \<le> node_size" using assms(2) by (auto simp: lz4_total_def)
  then show thesis
    using that nd by (auto simp: nw_flush_def w0_def [symmetric] Let_def)
qed

lemma sw_store_succeeds:
  assumes ok: "link_ok w" and cur: "cur_rep nw es" and lz4: "lz4_total compress"
    and leaf: "leaf \<or> sh_first_node_size (sw_header w) \<noteq> invalid_size"
    and len: "length (sw_writer w) < 2 ^ 31"
  shows "\<exists>l nw' w'. sw_store compress crc nw leaf w = Inr (l, nw', w') \<and> link_ok w' \<and> nw_node nw' = None
    \<and> sw_last_node w' \<noteq> None \<and> is_valid l \<and> length (sw_nodes w) \<le> length (sw_nodes w')
    \<and> length (sw_writer w') \<le> length (sw_writer w) + 8134 \<and> sh_first_node_size (sw_header w') \<noteq> invalid_size"
proof -
  obtain sink nw1 n where fl: "nw_flush compress nw = Inr (sink, nw1)" "length sink \<le> 8128"
      and n: "nw_node nw1 = Some n"
    using nw_flush_Inr [OF cur lz4] by (metis node_size_value)
  let ?sz = "of_nat (length sink) :: u16"
  have sz: "?sz < max_size" "length sink \<le> unat max_size"
    using fl(2) by (simp_all add: max_size_def word_less_nat_alt unat_word_of_nat)
  note sf = loc_size_fields(3) [OF sz(1)]
  obtain w1 where w1: "sw_put_size ?sz leaf w = Inr w1"
    and l1: "length (sw_writer w1) \<le> length (sw_writer w) + 2"
    and f1: "sh_first_node_size (sw_header w1) \<noteq> invalid_size"
    and s1: "sw_nodes w1 = sw_nodes w" "sw_last_node w1 = sw_last_node w" "sw_commited w1 = sw_commited w"
    and o1: "leaf \<or> sw_writer w1 \<noteq> []"
    using that leaf len sf [of True] sf [of leaf]
    by (cases "sh_first_node_size (sw_header w) = invalid_size")
      (auto simp: sw_put_size_def file_write_def max_file_size_def le_bytes_def)
  define off where "off = (ucast (file_size (sw_writer w1)) :: u64)"
  have uoff: "unat off = length (sw_writer w1)"
    using l1 len by (simp add: off_def file_size_def unat_ucast_up unat_word_of_nat)
  then have oo: "off < max_offset" using l1 len by (simp add: max_offset_def word_less_nat_alt)
  define l where "l = push_bit 16 off OR ucast (loc_size ?sz (of_bool leaf))"
  note lf = loc_fields [OF oo sz(1) l_def]
  have "l \<noteq> 0"
  proof
    assume "l = 0"
    then have "off = 0" "\<not> leaf" using lf(1,3) by (auto simp: offset_from_def is_leaf_from_def)
    then show False using o1 uoff by simp
  qed
  have mk: "loc_make off ?sz leaf = Inr l" using oo sz(1) by (simp add: loc_make_def l_def)
  have ok1: "link_ok w1" using ok s1 f1 by (auto simp: link_ok_def split: option.splits)
  obtain w2 where w2: "sw_link l (sw_last_node w1)
       (w1\<lparr>sw_writer := sw_writer w1 @ le_bytes 4 (crc sink) @ sink\<rparr>) = Inr w2"
      "sw_writer w2 = sw_writer w1 @ le_bytes 4 (crc sink) @ sink" "sw_header w2 = sw_header w1"
      "length (sw_nodes w2) = length (sw_nodes w1)" "sw_commited w2 = sw_commited w1"
    by (rule sw_link_Inr [OF ok1 \<open>l \<noteq> 0\<close>,
          of "w1\<lparr>sw_writer := sw_writer w1 @ le_bytes 4 (crc sink) @ sink\<rparr>"]) auto
  have c: "\<not> sw_commited w" using ok by (simp add: link_ok_def)
  have "length (sw_writer w1) + 4 + length sink < max_file_size"
    using l1 len fl(2) by (simp add: max_file_size_def)
  then have fw: "file_write (le_bytes 4 (crc sink)) (sw_writer w1) = Inr (sw_writer w1 @ le_bytes 4 (crc sink))"
    "file_write sink (sw_writer w1 @ le_bytes 4 (crc sink)) = Inr (sw_writer w1 @ le_bytes 4 (crc sink) @ sink)"
    by (simp_all add: file_write_def)
  show ?thesis
    using c s1 f1 w2 l1 fl n sz(2) lf(4)
    by (simp add: sw_store_def w1 off_def [symmetric] mk fw w2(1) nw_reset_def link_ok_def sw_count_def)
qed

lemma nw_add_fresh:
  assumes "nw_node nw = None" "key \<noteq> []" "length key < max_key_size" "length attrs = 8"
    "14 + length key + max 16 (length val) \<le> 8126"
  shows "\<exists>nw'. nw_add key val eor deleted attrs no_split nw = Inr (int (length val), nw')
    \<and> cur_rep nw' [\<lparr>pe_key = key, pe_value = val, pe_eor = eor, pe_deleted = deleted, pe_attrs = attrs\<rparr>]"
proof -
  have m: "length val \<le> max 16 (length val)" "max 16 (length val div 8) \<le> max 16 (length val)"
    by (simp, rule max.mono) simp_all
  have sz: "14 + length key + max 16 (if no_split then length val else length val div 8) < 65536"
    using assms(5) m by (cases no_split; simp only: if_True if_False; linarith)
  have "space_needed key val no_split \<le> 8126"
    unfolding space_needed_def using assms(5) m by (cases no_split; simp only: if_True if_False; linarith)
  then have fit: "\<not> unat (nw_data_offset (internal_reset nw)) < 2 + 6 * length ([] :: page_entry list)
      + space_needed key val no_split"
    by (simp add: nw_data_offset_reset node_size_value)
  have v: "value_part [] (unat (nw_data_offset (internal_reset nw))) key val = length val"
    using assms(5) by (simp add: value_part_def nw_data_offset_reset node_size_value)
  from nw_add_spec [OF nw_rep_reset assms(2-4) sz, of nw eor deleted] fit v show ?thesis
    by (auto simp: nw_add_None [OF assms(1)] cur_rep_def nw_rep_def)
qed

lemma length_file_padding: "length (file_padding f) \<le> length f + 4096"
  by (simp add: file_padding_def file_page_size_def)

text \<open>The smallest whole run: one item, one leaf, one index page.\<close>

lemma one_item_slice:
  assumes lz4: "lz4_total compress" and i: "it_key i \<noteq> []" "length (it_key i) < max_key_size"
    "14 + length (it_key i) + max 16 (length (it_value i)) \<le> 8126" "it_idx i < max_idx" "it_eor i" "\<not> it_deleted i"
  shows "\<exists>w w' s w''. sw_add_all compress crc 1 1 compact [i] (slice_writer_init ndx) = Inr w
    \<and> sw_flush compress crc 1 w = Inr w' \<and> sw_commit w' = Inr (s, w'') \<and> length (sl_reader s) \<le> 24522"
proof -
  let ?init = "slice_writer_init ndx"
  have fk: "\<exists>fk. kb_assign (it_key i) key_buffer_init = Inr fk \<and> kb_inv fk \<and> kb_view fk = it_key i"
    using kb_assign_Inr [of key_buffer_init "it_key i"] i(2) by (metis kb_init_inv(1) less_imp_le)
  then obtain fk where fk: "kb_assign (it_key i) key_buffer_init = Inr fk" "kb_inv fk" "kb_view fk = it_key i" by blast
  then have nz: "kb_size fk \<noteq> 0" using i(1) kb_size_view by (metis length_0_conv)
  obtain nw where nw: "nw_add (it_key i) (it_value i) True False (le_bytes 8 (it_idx i)) False node_writer_init
      = Inr (int (length (it_value i)), nw)" "\<exists>es. cur_rep nw es"
    using nw_add_fresh [of node_writer_init "it_key i" "le_bytes 8 (it_idx i)" "it_value i" True False False] i
    by (auto simp: node_writer_init_def)
  have chk: "sw_check (it_key i) (it_value i) True False ?init = Inr True"
    using i by (simp add: sw_check_def slice_writer_init_def key_buffer_init_def kb_view_def Let_def)
  define w where "w = ?init\<lparr>sw_first_key := fk, sw_node := nw, sw_last_key := fk, sw_last_eor := True,
     sw_header := slice_header_init\<lparr>sh_stats := (sh_stats slice_header_init)\<lparr>ss_key_count := 1\<rparr>\<rparr>\<rparr>"
  have add: "sw_add_all compress crc 1 1 compact [i] ?init = Inr w"
    using i chk fk(1) nw(1)
    by (simp add: sw_add_def slice_writer_init_def sw_finish_add_def key_buffer_init_def w_def slice_header_init_def Let_def)
  have ok: "link_ok w" "sw_writer w = []" by (simp_all add: link_ok_def w_def slice_writer_init_def)
  obtain es where es: "cur_rep (sw_node w) es" using nw(2) by (auto simp: w_def)
  obtain l nd w0 where st: "sw_store compress crc (sw_node w) True w = Inr (l, nd, w0)" "link_ok w0"
      "length (sw_writer w0) \<le> 8134" "sh_first_node_size (sw_header w0) \<noteq> invalid_size" "sw_last_node w0 \<noteq> None"
    using sw_store_succeeds [OF ok(1) es lz4, where leaf = True and crc = crc] ok(2) by auto
  have same: "same_input w w0" by (rule sw_store_same [OF st(1)])
  define w1 where "w1 = w0\<lparr>sw_node := nd, sw_writer := sw_writer w0 @ le_bytes 2 invalid_size\<rparr>"
  have wr: "sw_write (le_bytes 2 invalid_size) (w0\<lparr>sw_node := nd\<rparr>) = Inr w1"
    using st(3) by (simp add: sw_write_def file_write_def max_file_size_def w1_def)
  have k1: "sw_first_key w1 = fk" "sw_last_key w1 = fk" "sw_index w1 = [index_writer_init]"
    using same by (simp_all add: w1_def same_input_def w_def slice_writer_init_def)
  have sz: "14 + length (it_key i) + max 16 (length (it_key i)) \<le> 8126"
    using i(2) by (simp add: max_key_size_def)
  obtain nx where nx: "nw_add (it_key i) (it_key i) True False (le_bytes 8 l) True node_writer_init
      = Inr (int (length (it_key i)), nx)" "\<exists>es. cur_rep nx es"
    using nw_add_fresh [of node_writer_init "it_key i" "le_bytes 8 l" "it_key i" True False True] i sz
    by (auto simp: node_writer_init_def)
  define lv where "lv = \<lparr>iw_node = nx, iw_first_key = fk, iw_last_key = fk\<rparr>"
  have ia: "sw_add_index compress crc 1 l w1 = Inr (w1\<lparr>sw_index := [lv]\<rparr>)"
  proof -
    have "kb_size (iw_first_key index_writer_init) = 0" "iw_first_key index_writer_init = key_buffer_init"
      "iw_last_key index_writer_init = key_buffer_init" "iw_node index_writer_init = node_writer_init"
      by (simp_all add: index_writer_init_def key_buffer_init_def)
    then have "iw_add compress crc (Suc 0) (it_key i) (it_key i) l [index_writer_init] w1 = Inr ([lv], w1)"
      by (simp add: fk(1) nx(1) lv_def)
    then show ?thesis by (simp add: sw_add_index_def k1 fk(3))
  qed
  let ?w2 = "w1\<lparr>sw_index := [lv]\<rparr>"
  have ok2: "link_ok ?w2" using st(2) by (auto simp: link_ok_def w1_def split: option.splits)
  obtain es' where es': "cur_rep (iw_node lv) es'" using nx(2) by (auto simp: lv_def)
  have f2: "sh_first_node_size (sw_header ?w2) \<noteq> invalid_size" using st(4) by (simp add: w1_def)
  have len2: "length (sw_writer ?w2) \<le> 8136" using st(3) by (simp add: w1_def)
  obtain root nd' w3 where st2: "sw_store compress crc (iw_node lv) False ?w2 = Inr (root, nd', w3)"
      "link_ok w3" "length (sw_writer w3) \<le> 16270" "sw_last_node w3 \<noteq> None" "is_valid root"
      "length (sw_nodes ?w2) \<le> length (sw_nodes w3)"
    using sw_store_succeeds [OF ok2 es' lz4, where leaf = False and crc = crc] f2 len2 by auto
  obtain i1 where i1: "sw_last_node w1 = Some i1" "i1 < length (sw_nodes w1)"
    using st(2,5) by (auto simp: w1_def link_ok_def)
  have inv: "(ucast invalid_size :: u64) \<noteq> 0" by (simp add: invalid_size_def)
  have link: "\<exists>y. sw_link (ucast invalid_size) (Some j) x = Inr y \<and> sw_writer y = sw_writer x
      \<and> sw_header y = sw_header x \<and> sw_last_node y = sw_last_node x \<and> sw_commited y = sw_commited x
      \<and> length (sw_nodes y) = length (sw_nodes x)" if "j < length (sw_nodes x)" for j x
    using that inv by (simp add: sw_link_def set_next_def)
  let ?w3 = "w3\<lparr>sw_index := [lv\<lparr>iw_node := nd'\<rparr>], sw_header := (sw_header w3)\<lparr>sh_root := root\<rparr>\<rparr>"
  have "i1 < length (sw_nodes ?w3)" using i1(2) st2(6) by simp
  then obtain w4 where w4: "sw_link (ucast invalid_size) (Some i1) ?w3 = Inr w4" "sw_writer w4 = sw_writer w3"
      "sh_root (sw_header w4) = root" "sw_last_node w4 = sw_last_node w3" "sw_commited w4 = sw_commited w3"
      "length (sw_nodes w4) = length (sw_nodes w3)"
    using link [of i1 ?w3] by auto
  obtain i3 where i3: "sw_last_node w3 = Some i3" "i3 < length (sw_nodes w4)"
    using st2(2,4) w4(6) by (auto simp: link_ok_def)
  obtain w5 where w5: "sw_link (ucast invalid_size) (Some i3) w4 = Inr w5" "sw_writer w5 = sw_writer w3"
      "sh_root (sw_header w5) = root" "sw_commited w5 = sw_commited w3"
    using link [OF i3(2)] w4 by auto
  have pages: "sw_flush_pages compress crc 1 w = Inr w5"
    using nz by (simp add: sw_flush_pages_def st(1) wr k1(1) ia [unfolded One_nat_def] st2(1)
        i1(1) w4(1) w4(4) i3(1) w5(1))
  have l5: "length (sw_writer w5 @ le_bytes 2 invalid_size) \<le> 16272" using w5(2) st2(3) by simp
  have lp: "length (file_padding (sw_writer w5 @ le_bytes 2 invalid_size)) \<le> 20368"
    using length_file_padding [of "sw_writer w5 @ le_bytes 2 invalid_size"] l5 by linarith
  have e: "\<not> sw_commited w" "sw_last_eor w" by (simp_all add: w_def slice_writer_init_def)
  have lh: "length (file_padding (file_padding (sw_writer w5 @ le_bytes 2 invalid_size) @ header_bytes h)) \<le> 24522" for h
    using length_file_padding [of "file_padding (sw_writer w5 @ le_bytes 2 invalid_size) @ header_bytes h"] lp
    by (simp add: length_header_bytes)
  obtain w' where w': "sw_flush compress crc 1 w = Inr w'" "sh_root (sw_header w') = root"
      "sw_commited w' = sw_commited w5" "length (sw_writer w') \<le> 24522"
    using pages l5 lp w5(3) e lh
    by (simp add: sw_flush_def sw_write_def file_write_def sw_add_padding_def max_file_size_def length_header_bytes)
  have "\<not> is_valid (- 1)" by (simp add: is_valid_def invalid_size_def)
  then have "root \<noteq> - 1" using st2(5) by auto
  moreover have "\<not> sw_commited w'" using w'(3) w5(4) st2(2) by (simp add: link_ok_def)
  ultimately have "\<exists>s w''. sw_commit w' = Inr (s, w'') \<and> length (sl_reader s) \<le> 24522"
    using w'(2,4) by (simp add: sw_commit_def)
  then show ?thesis using add w'(1) by blast
qed

lemma sw_rep_init: "sw_rep decompress crc (slice_writer_init ndx) [] []"
  by (auto simp: sw_rep_def slice_writer_init_def chain_rep_def slice_header_init_def invalid_size_def
      cur_rep_def node_writer_init_def level_ok_init)

text \<open>A finished slice: how many keys it counts, and what is read from its first page to its last.\<close>

lemma slice_key_count:
  assumes "sw_add_all compress crc depth k compact is (slice_writer_init ndx) = Inr w"
    and "sw_flush compress crc depth w = Inr w'" and "sw_commit w' = Inr (s, w'')"
  shows "sl_key_count s = of_nat (length (filter (\<lambda>i. \<not> (compact \<and> it_deleted i)) is))"
proof -
  have add: "sw_add_all compress crc depth k False (filter (\<lambda>i. \<not> (compact \<and> it_deleted i)) is) (slice_writer_init ndx) = Inr w"
    using assms(1) sw_add_all_compact by (cases compact) simp_all
  obtain w1 where fp: "sw_flush_pages compress crc depth w = Inr w1" and h: "sw_header w' = sw_header w1"
    by (rule sw_flush_Inr [OF assms(2)]) blast
  have "sl_key_count s = ss_key_count (sh_stats (sw_header w'))"
    using assms(3) by (auto simp: sw_commit_def res_assert_eq_Inr)
  then show ?thesis
    using h sw_flush_pages_signature(2) [OF fp] sw_add_all_count [OF add]
    by (simp add: slice_writer_init_def slice_header_init_def)
qed

lemma slice_scan_pieces:
  assumes "lz4_fits compress decompress"
    and "sw_add_all compress crc depth k compact is (slice_writer_init ndx) = Inr w"
    and "sw_flush compress crc depth w = Inr w'" and "sw_commit w' = Inr (s, w'')"
    and "js = filter (\<lambda>i. \<not> (compact \<and> it_deleted i)) is" and "list_all item_fits js"
    and "js \<noteq> []" and "length js < 2 ^ 64"
  shows "\<exists>ess it n. list_all2 pieces_of js ess
    \<and> slice_begin (cache_load decompress crc (sl_reader s)) s = Inr (Some it)
    \<and> (\<forall>m \<ge> n. si_drain m (cache_load decompress crc (sl_reader s)) m it = Inr (map item_of (concat ess)))"
proof -
  have add: "sw_add_all compress crc depth k False js (slice_writer_init ndx) = Inr w"
    using assms(2,5) sw_add_all_compact by (cases compact) simp_all
  obtain ps cur ess where w: "sw_rep decompress crc w ps cur" and ess: "list_all2 pieces_of js ess"
    and cur: "cur \<noteq> []" and le: "leaf_entries ps @ cur = concat ess"
    using sw_add_all_rep [OF add sw_rep_init assms(1,6)] assms(7) by auto
  obtain w1 f where fp: "sw_flush_pages compress crc depth w = Inr w1" and h: "sw_header w' = sw_header w1"
    and wr: "sw_writer w' = file_padding (f @ header_bytes (sw_header w1))"
    and f: "\<exists>r. f = sw_writer w1 @ le_bytes 2 invalid_size @ r" "length f + 58 < max_file_size"
    by (rule sw_flush_Inr [OF assms(3)]) blast
  obtain p ps' x where x: "sw_writer w1 = chain crc (p # ps') invalid_size @ x" and lf: "pg_leaf p"
    and first: "sh_first_node_size (sw_header w1) = page_field p"
    and le': "leaf_entries (p # ps') = leaf_entries ps @ cur"
    and good: "\<forall>q \<in> set (p # ps'). page_good decompress q \<and> (pg_leaf q \<longrightarrow> pg_entries q \<noteq> [])"
    and cnt: "ss_key_count (sh_stats (sw_header w1)) = ss_key_count (sh_stats (sw_header w))"
    using sw_flush_pages_chain [OF fp w cur assms(1)] by blast
  have s: "sl_reader s = sw_writer w'" "sl_first_node_size s = ucast (page_field p)"
    "sl_key_count s = ss_key_count (sh_stats (sw_header w))"
    using assms(4) h first cnt by (auto simp: sw_commit_def res_assert_eq_Inr)
  have "length (sl_reader s) < 2 ^ 46"
    using length_file_padding [of "f @ header_bytes (sw_header w1)"] f(2)
    by (simp add: s(1) wr length_header_bytes max_file_size_def)
  moreover have "\<exists>post. drop 0 (sl_reader s) = chain crc (p # ps') invalid_size @ post"
    using f(1) x by (auto simp: s(1) wr file_padding_def)
  ultimately have t: "tail_at decompress crc (sl_reader s) 0 (p # ps')"
    using good by (simp add: tail_at_def)
  have "unat (of_nat (length js) :: u64) = length js" using assms(8) by (simp add: unat_word_of_nat)
  then have "(of_nat (length js) :: u64) \<noteq> 0" using assms(7) by (metis length_0_conv unat_0)
  then have k0: "sl_key_count s \<noteq> 0" using slice_key_count [OF assms(2-4)] assms(5) by simp
  have c: "concat ess = leaf_entries (p # ps')" using le le' by simp
  obtain it where it: "slice_begin (cache_load decompress crc (sl_reader s)) s = Inr (Some it)"
    using slice_scan [OF t lf s(2) k0 lessI lessI] by blast
  have "si_drain m (cache_load decompress crc (sl_reader s)) m it = Inr (map item_of (concat ess))"
    if m: "Suc (Suc (length ps')) + Suc (length (concat ess)) \<le> m" for m
  proof -
    have "Suc (length ps') < m" "length (leaf_entries (p # ps')) < m" using m c by simp_all
    from slice_scan [OF t lf s(2) k0 this] show ?thesis using it c by auto
  qed
  with ess it show ?thesis by blast
qed

lemma slice_scan_fit:
  assumes lz4: "lz4_ok compress decompress" and fit: "pages_fit compress w'"
    and w: "sw_add_all compress crc depth k compact is (slice_writer_init ndx) = Inr w"
    and fl: "sw_flush compress crc depth w = Inr w'" and "sw_commit w' = Inr (s, w'')"
    and "js = filter (\<lambda>i. \<not> (compact \<and> it_deleted i)) is" and "list_all item_fits js"
    and "js \<noteq> []" and "length js < 2 ^ 64"
  shows "\<exists>ess it n. list_all2 pieces_of js ess
    \<and> slice_begin (cache_load decompress crc (sl_reader s)) s = Inr (Some it)
    \<and> (\<forall>m \<ge> n. si_drain m (cache_load decompress crc (sl_reader s)) m it = Inr (map item_of (concat ess)))"
proof -
  note fl' = sw_flush_fit [OF fl fit]
  note w' = sw_add_all_fit [OF w conjunct2 [OF fl']]
  show ?thesis
    by (rule slice_scan_pieces [OF fitting_fits [OF lz4] conjunct1 [OF w'] conjunct1 [OF fl'] assms(5-9)])
qed

text \<open>
  C5: Reading a slice from \<open>begin\<close> to the end gives back everything that was added, in order: each
  item as one or more parts that share its key, deleted flag and index, whose values joined are the
  item's value, and of which only the last carries the item's end-of-record flag; an item without a value is one part. It holds for any
  LZ4 that restores what it compressed, any checksum function, any slice of which every page is compressed to at most
  a page (a longer one cannot be loaded: \<open>oversized_page_asserts\<close>), and any items whose key and an eighth of whose
  value fit a page.
\<close>

theorem slice_scan_complete:
  assumes "lz4_ok compress decompress"
    and "sw_add_all compress crc depth k compact is (slice_writer_init ndx) = Inr w"
    and "sw_flush compress crc depth w = Inr w'" and "pages_fit compress w'" and "sw_commit w' = Inr (s, w'')"
    and "js = filter (\<lambda>i. \<not> (compact \<and> it_deleted i)) is" and "list_all item_fits js"
    and "js \<noteq> []" and "length js < 2 ^ 64"
  shows "\<exists>ess it n. list_all2 pieces_of js ess
    \<and> slice_begin (cache_load decompress crc (sl_reader s)) s = Inr (Some it)
    \<and> (\<forall>m \<ge> n. si_drain m (cache_load decompress crc (sl_reader s)) m it = Inr (map item_of (concat ess)))"
  by (rule slice_scan_fit [OF assms(1,4,2,3,5-9)])

definition stored_lz4 :: "bytes \<Rightarrow> bytes option" where
  "stored_lz4 d = (if length d \<le> node_size then Some d else None)"

lemma stored_lz4_ok: "lz4_ok stored_lz4 Some" "lz4_total stored_lz4" "lz4_fits stored_lz4 Some"
  by (simp_all add: lz4_ok_def lz4_fits_def lz4_total_def stored_lz4_def)

lemma stored_pages_fit [simp]: "pages_fit stored_lz4 w"
  by (simp add: pages_fit_def stored_lz4_def)

definition sample_item :: item where
  "sample_item = \<lparr>it_key = [7], it_value = [1, 2], it_eor = True, it_deleted = False, it_idx = 5\<rparr>"

theorem slice_scan_complete_witness:
  "\<exists>s ess it n. list_all2 pieces_of [sample_item] ess
    \<and> slice_begin (cache_load Some (\<lambda>_. 0) (sl_reader s)) s = Inr (Some it)
    \<and> (\<forall>m \<ge> n. si_drain m (cache_load Some (\<lambda>_. 0) (sl_reader s)) m it = Inr (map item_of (concat ess)))"
proof -
  obtain w w' s w'' where r: "sw_add_all stored_lz4 (\<lambda>_. 0) 1 1 False [sample_item] (slice_writer_init 0) = Inr w"
    "sw_flush stored_lz4 (\<lambda>_. 0) 1 w = Inr w'" "sw_commit w' = Inr (s, w'')"
    using one_item_slice [OF stored_lz4_ok(2), where i = sample_item and crc = "\<lambda>_. 0" and compact = False and ndx = 0]
    by (auto simp: sample_item_def max_key_size_def max_idx_def)
  have j: "[sample_item] = filter (\<lambda>i. \<not> (False \<and> it_deleted i)) [sample_item]" by simp
  show ?thesis
    using slice_scan_complete [OF stored_lz4_ok(1) r(1,2) stored_pages_fit r(3) j]
    by (auto simp: item_fits_def sample_item_def)
qed

section \<open>Applying the theorems on slices\<close>

lemma sample_run:
  "\<exists>w w' s w''. sw_add_all stored_lz4 (\<lambda>_. 0) 1 1 compact [sample_item] (slice_writer_init 0) = Inr w
    \<and> sw_flush stored_lz4 (\<lambda>_. 0) 1 w = Inr w' \<and> sw_commit w' = Inr (s, w'')
    \<and> length (sl_reader s) \<le> 24522"
  using one_item_slice [OF stored_lz4_ok(2), where i = sample_item and crc = "\<lambda>_. 0" and ndx = 0 and compact = compact]
  by (auto simp: sample_item_def max_key_size_def max_idx_def)

theorem slice_input_well_formed_witness:
  "\<exists>w. sw_add_all stored_lz4 (\<lambda>_. 0) 1 1 True [sample_item] (slice_writer_init 0) = Inr w
    \<and> well_formed_stream [sample_item]"
proof -
  obtain w where w: "sw_add_all stored_lz4 (\<lambda>_. 0) 1 1 True [sample_item] (slice_writer_init 0) = Inr w"
    using sample_run by blast
  have "filter (\<lambda>i. \<not> (True \<and> it_deleted i)) [sample_item] = [sample_item]" by (simp add: sample_item_def)
  with slice_input_well_formed [OF w] w show ?thesis by auto
qed

lemma slice_open_commit_witness:
  "\<exists>w w' s w''. sw_add_all stored_lz4 (\<lambda>_. 0) 1 1 True [sample_item] (slice_writer_init 0) = Inr w
    \<and> sw_flush stored_lz4 (\<lambda>_. 0) 1 w = Inr w' \<and> sw_commit w' = Inr (s, w'')
    \<and> slice_open 9 (sl_reader s) = Inr (s\<lparr>sl_slice_ndx := 9\<rparr>)"
proof -
  obtain w w' s w'' where r: "sw_add_all stored_lz4 (\<lambda>_. 0) 1 1 True [sample_item] (slice_writer_init 0) = Inr w"
    "sw_flush stored_lz4 (\<lambda>_. 0) 1 w = Inr w'" "sw_commit w' = Inr (s, w'')" and l: "length (sl_reader s) \<le> 24522"
    using sample_run by blast
  have "length (sl_reader s) < 2 ^ 32" using l by simp
  from slice_open_commit [OF r this] r show ?thesis by blast
qed

text \<open>A page can hold any short list of entries.\<close>

lemma page_exists:
  "\<forall>e \<in> set es. pe_key e \<noteq> [] \<and> length (pe_key e) < max_key_size \<and> length (pe_attrs e) = 8 \<and> pe_eor e \<Longrightarrow>
    sum_list (map (\<lambda>e. 6 + entry_size e) es) \<le> 8126 \<Longrightarrow>
    \<exists>w. nw_rep w es \<and> unat (nw_data_offset w) = 8128 - sum_list (map entry_size es)"
proof (induction es rule: rev_induct)
  case Nil
  then show ?case using nw_rep_reset nw_data_offset_reset by (auto simp: node_size_value)
next
  case (snoc e es)
  obtain w where w: "nw_rep w es" "unat (nw_data_offset w) = 8128 - sum_list (map entry_size es)"
    using snoc by auto
  have sm: "sum_list (map (\<lambda>e. 6 + entry_size e) es) = 6 * length es + sum_list (map entry_size es)"
    by (simp add: sum_list_addf sum_list_triv)
  have sz: "entry_size e = length (pe_key e) + length (pe_value e) + 8" "length (pe_key e) < max_key_size"
    "pe_key e \<noteq> []" "length (pe_attrs e) = 8" "pe_eor e"
    using snoc.prems(1) by (simp_all add: entry_size_def)
  have le: "6 * length es + sum_list (map entry_size es) + 6 + entry_size e \<le> 8126" using snoc.prems(2) sm by simp
  have w16: "6 + length (pe_key e) + 8 + max 16 (if True then length (pe_value e) else length (pe_value e) div 8) < 65536"
    using le sz(1) by simp
  have sp: "has_enough_space (pe_key e) (pe_value e) True (length (pe_attrs e)) w"
    unfolding has_enough_space_iff [OF w(1) sz(4) w16] using le sz(1) w(2) by (simp add: space_needed_def)
  have room: "2 + 6 * Suc (length es) + length (pe_key e) + 8 \<le> unat (nw_data_offset w)" using le sz(1) w(2) by simp
  have n: "length (pe_value e) = value_part es (unat (nw_data_offset w)) (pe_key e) (pe_value e)"
    using le sz(1) w(2) by (simp add: value_part_def)
  have e: "\<lparr>pe_key = pe_key e, pe_value = take (length (pe_value e)) (pe_value e),
      pe_eor = True \<and> length (pe_value e) = length (pe_value e), pe_deleted = pe_deleted e, pe_attrs = pe_attrs e\<rparr> = e"
    using sz(5) by (cases e) simp
  obtain w' where "nw_rep w' (es @ [e])"
      "unat (nw_data_offset w') = unat (nw_data_offset w) - length (pe_key e) - length (pe_value e) - 8"
    using nw_add_room [OF w(1) sz(3,2,4) sp room n, of True "pe_deleted e"] unfolding e by blast
  then show ?case using sz(1) w(2) by (intro exI [of _ w']) simp
qed

lemma node_exists:
  assumes "\<forall>e \<in> set es. pe_key e \<noteq> [] \<and> length (pe_key e) < max_key_size \<and> length (pe_attrs e) = 8 \<and> pe_eor e"
    "sum_list (map (\<lambda>e. 6 + entry_size e) es) \<le> 8126"
  obtains n :: node and low where "page_ok (nd_data n) low es" "unat (nd_key_count n) = length es"
proof -
  obtain w where "nw_rep w es" using page_exists [OF assms] by blast
  then obtain n where "nw_reset w = Inr (n, w\<lparr>nw_node := None\<rparr>)" "unat (nd_key_count n) = length es"
    "page_ok (nd_data n) (unat (nw_data_offset w)) es"
    by (rule nw_reset_rep)
  then show thesis using that by blast
qed

definition sample_index :: "page_entry list" where
  "sample_index = [\<lparr>pe_key = [1], pe_value = [3], pe_eor = True, pe_deleted = False, pe_attrs = le_bytes 8 (0x8010 :: u64)\<rparr>,
     \<lparr>pe_key = [7], pe_value = [9], pe_eor = True, pe_deleted = False, pe_attrs = le_bytes 8 (0x208010 :: u64)\<rparr>]"

lemma sample_index_node:
  obtains n :: node and low where "page_ok (nd_data n) low sample_index"
    "unat (nd_key_count n) = length sample_index"
  by (rule node_exists [of sample_index]) (auto simp: sample_index_def max_key_size_def entry_size_def)

definition sample_slice :: slice where
  "sample_slice = \<lparr>sl_slice_ndx = 0, sl_reader = [], sl_key_count = 4, sl_root = 0x400010,
     sl_first_node_size = 0x8010, sl_unlink = False\<rparr>"

theorem slice_range_misses_gap_witness:
  "\<exists>n low. page_ok (nd_data n) low sample_index \<and> slice_range (Suc 1) (\<lambda>_. Inr n) [5] [8] sample_slice = Inr None"
proof -
  obtain n :: node and low where n: "page_ok (nd_data n) low sample_index" "unat (nd_key_count n) = length sample_index"
    by (rule sample_index_node)
  have "slice_range (Suc 1) (\<lambda>_. Inr n) [5] [8] sample_slice = Inr None"
    by (rule slice_range_misses_gap [OF refl _ n, where i = 0])
      (simp_all add: sample_slice_def sample_index_def)
  with n show ?thesis by blast
qed

theorem slice_find_descends_witness:
  "\<exists>n low. page_ok (nd_data n) low sample_index \<and> find_node_for (Suc 0) (\<lambda>_. Inr n) 0x400010 [8] [200]
    = (let l = le_word (pe_attrs (sample_index ! 1)) in
       if is_leaf_from l then Inr l else find_node_for 0 (\<lambda>_. Inr n) l [8] [200])"
proof -
  obtain n :: node and low where n: "page_ok (nd_data n) low sample_index" "unat (nd_key_count n) = length sample_index"
    by (rule sample_index_node)
  have "find_node_for (Suc 0) (\<lambda>_. Inr n) 0x400010 [8] [200]
    = (let l = le_word (pe_attrs (sample_index ! 1)) in
       if is_leaf_from l then Inr l else find_node_for 0 (\<lambda>_. Inr n) l [8] [200])"
    by (rule slice_find_descends [OF refl n]) (auto simp: sample_index_def less_Suc_eq)
  with n show ?thesis by blast
qed

end
