(* ===== verification/Slabs.thy ===== *)
theory Slabs
  imports Prelude
begin

text \<open>
  The slab allocator of \<open>common/slabs.h\<close>: fixed tables of objects whose free entries are chained
  through a table of indices, and a set of such tables addressed by 32-bit handles. The invariant
  names the free chain of every table; allocating and freeing are shown to move exactly one handle
  between the free and the live ones.
\<close>

section \<open>One slab\<close>

record 'a slab =
  sb_alloc_table :: "u16 list"
  sb_object_array :: "'a list option"
  sb_capacity :: u16
  sb_size :: u16
  sb_next :: u16
  sb_slab_ndx :: u32

text \<open>The constructor. \<open>m_object_array\<close> is made on first use; \<open>dflt\<close> is a value-initialised object.\<close>

definition slab_make :: "u16 \<Rightarrow> 'a slab res" where
  "slab_make capacity =
     res_assert (0 < capacity) (res_assert (capacity \<le> 32768)
       (Inr \<lparr>sb_alloc_table = map (\<lambda>i. of_nat (Suc i)) [0..<unat capacity - 1] @ [- 1],
              sb_object_array = None, sb_capacity = capacity, sb_size = 0, sb_next = 0, sb_slab_ndx = 0\<rparr>))"

definition slab_full :: "'a slab \<Rightarrow> bool" where
  "slab_full s \<longleftrightarrow> sb_size s = sb_capacity s"

definition slab_allocate :: "'a slab \<Rightarrow> (u16 \<times> 'a slab) res" where
  "slab_allocate s =
     res_assert (sb_size s \<noteq> sb_capacity s)
       (let ndx = sb_next s in
        if length (sb_alloc_table s) \<le> unat ndx then Inl Undefined
        else Inr (ndx, s\<lparr>sb_next := sb_alloc_table s ! unat ndx,
                         sb_alloc_table := (sb_alloc_table s)[unat ndx := - 1],
                         sb_size := sb_size s + 1\<rparr>))"

definition slab_free :: "u16 \<Rightarrow> 'a slab \<Rightarrow> 'a slab res" where
  "slab_free ndx s =
     res_assert (sb_size s \<noteq> 0) (res_assert (ndx < sb_capacity s)
       (if sb_next s = - 1 then Inr (s\<lparr>sb_next := ndx, sb_size := sb_size s - 1\<rparr>)
        else
          res_assert (sb_alloc_table s ! unat ndx = - 1)
            (Inr (s\<lparr>sb_alloc_table := (sb_alloc_table s)[unat ndx := sb_next s], sb_next := ndx,
                    sb_size := sb_size s - 1\<rparr>))))"

definition slab_objects :: "'a \<Rightarrow> 'a slab \<Rightarrow> 'a list" where
  "slab_objects dflt s =
     (case sb_object_array s of None \<Rightarrow> replicate (unat (sb_capacity s)) dflt | Some os \<Rightarrow> os)"

text \<open>\<open>get\<close> returns a reference; reading it and assigning through it are two definitions here.\<close>

definition slab_get :: "'a \<Rightarrow> u16 \<Rightarrow> 'a slab \<Rightarrow> 'a res" where
  "slab_get dflt ndx s =
     res_assert (ndx < sb_capacity s) (res_assert (sb_alloc_table s ! unat ndx = - 1)
       (Inr (slab_objects dflt s ! unat ndx)))"

definition slab_put :: "'a \<Rightarrow> u16 \<Rightarrow> 'a \<Rightarrow> 'a slab \<Rightarrow> 'a slab res" where
  "slab_put dflt ndx x s =
     res_assert (ndx < sb_capacity s) (res_assert (sb_alloc_table s ! unat ndx = - 1)
       (Inr (s\<lparr>sb_object_array := Some ((slab_objects dflt s)[unat ndx := x])\<rparr>)))"

definition slab_init :: "'a \<Rightarrow> u16 \<Rightarrow> 'a \<Rightarrow> 'a slab \<Rightarrow> 'a slab res" where
  "slab_init dflt ndx x s =
     res_assert (ndx < sb_capacity s)
       (Inr (s\<lparr>sb_object_array := Some ((slab_objects dflt s)[unat ndx := x])\<rparr>))"

section \<open>Slabs\<close>

record 'a slabs =
  ss_slabs :: "'a slab list"
  ss_partial :: "u16 list"
  ss_full :: "u16 list"
  ss_slab_ndx :: u16

definition slabs_init :: "'a slabs" where
  "slabs_init = \<lparr>ss_slabs = [], ss_partial = [], ss_full = [], ss_slab_ndx = 0\<rparr>"

definition slabs_full :: "'a slabs \<Rightarrow> bool" where
  "slabs_full p \<longleftrightarrow> ss_partial p = []"

definition slabs_extend :: "'a slab \<Rightarrow> 'a slabs \<Rightarrow> 'a slabs" where
  "slabs_extend s p = p\<lparr>ss_slabs := ss_slabs p @ [s\<lparr>sb_slab_ndx := ucast (ss_slab_ndx p)\<rparr>],
     ss_partial := ss_partial p @ [of_nat (length (ss_slabs p))], ss_slab_ndx := ss_slab_ndx p + 1\<rparr>"

definition move_to_full :: "u16 \<Rightarrow> 'a slabs \<Rightarrow> 'a slabs" where
  "move_to_full ndx p = p\<lparr>ss_partial := removeAll ndx (ss_partial p), ss_full := ss_full p @ [ndx]\<rparr>"

definition move_to_partial :: "u16 \<Rightarrow> 'a slabs \<Rightarrow> 'a slabs" where
  "move_to_partial ndx p = p\<lparr>ss_full := removeAll ndx (ss_full p), ss_partial := ss_partial p @ [ndx]\<rparr>"

definition slab_index :: "u32 \<Rightarrow> 'a slabs \<Rightarrow> u16 res" where
  "slab_index handle p =
     (let slab_ndx = ucast (drop_bit 16 handle) :: u16 in
      res_assert (unat slab_ndx < length (ss_slabs p)) (Inr slab_ndx))"

definition entry_index :: "u32 \<Rightarrow> u16" where
  "entry_index handle = ucast (handle AND 0xffff)"

definition slabs_allocate :: "'a slabs \<Rightarrow> (u32 \<times> 'a slabs) res" where
  "slabs_allocate p =
     (case ss_partial p of
        [] \<Rightarrow> Inl Assertion
      | slab_ndx # _ \<Rightarrow>
          res_assert (unat slab_ndx < length (ss_slabs p))
            (let s = ss_slabs p ! unat slab_ndx in
             res_assert (\<not> slab_full s)
               (res_bind (slab_allocate s) (\<lambda>(ndx, s').
                  let handle = push_bit 16 (sb_slab_ndx s) OR ucast ndx;
                      p' = p\<lparr>ss_slabs := (ss_slabs p)[unat slab_ndx := s']\<rparr>
                  in Inr (handle, if slab_full s' then move_to_full slab_ndx p' else p')))))"

definition slabs_free :: "u32 \<Rightarrow> 'a slabs \<Rightarrow> 'a slabs res" where
  "slabs_free handle p =
     res_bind (slab_index handle p) (\<lambda>slab_ndx.
       let s = ss_slabs p ! unat slab_ndx in
       res_bind (slab_free (entry_index handle) s) (\<lambda>s'.
         let p' = p\<lparr>ss_slabs := (ss_slabs p)[unat slab_ndx := s']\<rparr> in
         Inr (if slab_full s then move_to_partial slab_ndx p' else p')))"

definition slabs_get :: "'a \<Rightarrow> u32 \<Rightarrow> 'a slabs \<Rightarrow> 'a res" where
  "slabs_get dflt handle p =
     res_bind (slab_index handle p) (\<lambda>i. slab_get dflt (entry_index handle) (ss_slabs p ! unat i))"

definition slabs_put :: "'a \<Rightarrow> u32 \<Rightarrow> 'a \<Rightarrow> 'a slabs \<Rightarrow> 'a slabs res" where
  "slabs_put dflt handle x p =
     res_bind (slab_index handle p) (\<lambda>i.
     res_bind (slab_put dflt (entry_index handle) x (ss_slabs p ! unat i)) (\<lambda>s'.
       Inr (p\<lparr>ss_slabs := (ss_slabs p)[unat i := s']\<rparr>)))"

definition slabs_init_at :: "'a \<Rightarrow> u32 \<Rightarrow> 'a \<Rightarrow> 'a slabs \<Rightarrow> 'a slabs res" where
  "slabs_init_at dflt handle x p =
     res_bind (slab_index handle p) (\<lambda>i.
     res_bind (slab_init dflt (entry_index handle) x (ss_slabs p ! unat i)) (\<lambda>s'.
       Inr (p\<lparr>ss_slabs := (ss_slabs p)[unat i := s']\<rparr>)))"

section \<open>The free chain of a slab\<close>

text \<open>\<open>free_chain t n fl\<close>: following the table from \<open>n\<close> visits exactly \<open>fl\<close> and ends at -1.\<close>

fun free_chain :: "u16 list \<Rightarrow> u16 \<Rightarrow> nat list \<Rightarrow> bool" where
  "free_chain t n [] = (n = - 1)"
| "free_chain t n (i # is) = (i < length t \<and> n = of_nat i \<and> free_chain t (t ! i) is)"

definition slab_inv :: "'a slab \<Rightarrow> nat list \<Rightarrow> bool" where
  "slab_inv s fl \<longleftrightarrow> length (sb_alloc_table s) = unat (sb_capacity s) \<and> 0 < sb_capacity s
     \<and> sb_capacity s \<le> 32768 \<and> distinct fl \<and> free_chain (sb_alloc_table s) (sb_next s) fl
     \<and> unat (sb_size s) + length fl = unat (sb_capacity s)
     \<and> (\<forall>i < unat (sb_capacity s). i \<notin> set fl \<longrightarrow> sb_alloc_table s ! i = - 1)
     \<and> (case sb_object_array s of None \<Rightarrow> True | Some os \<Rightarrow> length os = unat (sb_capacity s))"

lemma free_chain_update:
  "i \<notin> set fl \<Longrightarrow> free_chain (t[i := v]) n fl = free_chain t n fl"
  by (induction fl arbitrary: n) auto

lemma free_chain_bound: "free_chain t n fl \<Longrightarrow> i \<in> set fl \<Longrightarrow> i < length t"
  by (induction fl arbitrary: n) auto

lemma slab_make_inv:
  assumes "0 < capacity" "capacity \<le> 32768"
  obtains s where "slab_make capacity = Inr s" "slab_inv s [0..<unat capacity]"
proof -
  let ?n = "unat capacity"
  let ?t = "map (\<lambda>i. of_nat (Suc i)) [0..<?n - 1] @ [- 1] :: u16 list"
  have n: "0 < ?n" "?n \<le> 32768" using assms by (simp_all add: word_less_nat_alt word_le_nat_alt)
  have lt: "length ?t = ?n" using n by simp
  have nth: "?t ! i = (if Suc i = ?n then - 1 else of_nat (Suc i))" if "i < ?n" for i
    using that n by (auto simp: nth_append)
  have ch: "free_chain ?t (if k = ?n then - 1 else of_nat k) [k..<?n]" if "k \<le> ?n" for k
    using that
  proof (induction "?n - k" arbitrary: k)
    case 0
    then show ?case by simp
  next
    case (Suc d)
    then have k: "k < ?n" "[k..<?n] = k # [Suc k..<?n]" by (simp_all add: upt_conv_Cons)
    have "free_chain ?t (if Suc k = ?n then - 1 else of_nat (Suc k)) [Suc k..<?n]"
      using Suc.hyps k(1) by simp
    then show ?case using k lt nth [OF k(1)] by simp
  qed
  have "free_chain ?t 0 [0..<?n]" using ch [of 0] n by simp
  then have "slab_inv \<lparr>sb_alloc_table = ?t, sb_object_array = None, sb_capacity = capacity, sb_size = 0,
      sb_next = 0, sb_slab_ndx = 0\<rparr> [0..<?n]"
    using assms lt by (simp add: slab_inv_def)
  then show thesis using that assms by (simp add: slab_make_def)
qed

lemma slab_full_iff: "slab_inv s fl \<Longrightarrow> slab_full s \<longleftrightarrow> fl = []"
  by (auto simp: slab_inv_def slab_full_def word_unat_eq_iff)

lemma unat_next_u16: "n \<le> 32768 \<Longrightarrow> unat (of_nat n :: u16) = n"
  by (simp add: unat_word_of_nat)

lemma slab_allocate_Inr:
  assumes inv: "slab_inv s (i # fl)"
  obtains s' where "slab_allocate s = Inr (of_nat i, s')" "slab_inv s' fl" "i < unat (sb_capacity s)"
    "sb_capacity s' = sb_capacity s" "sb_object_array s' = sb_object_array s" "sb_slab_ndx s' = sb_slab_ndx s"
proof -
  let ?t = "sb_alloc_table s" and ?c = "unat (sb_capacity s)"
  have c: "length ?t = ?c" "?c \<le> 32768" using inv by (simp_all add: slab_inv_def word_le_nat_alt)
  have i: "i < ?c" "sb_next s = of_nat i" "free_chain ?t (?t ! i) fl" "i \<notin> set fl" "distinct fl"
    using inv by (auto simp: slab_inv_def)
  have u: "unat (of_nat i :: u16) = i" using i(1) c(2) by (simp add: unat_word_of_nat)
  have ne: "sb_size s \<noteq> sb_capacity s" using inv slab_full_iff by (force simp: slab_full_def)
  have sz: "unat (sb_size s) + length (i # fl) = ?c" using inv by (simp add: slab_inv_def)
  then have sz1: "unat (sb_size s + 1) = unat (sb_size s) + 1"
    using c(2) by (subst unat_add_lem [THEN iffD1]) simp_all
  define s' where "s' = s\<lparr>sb_next := ?t ! i, sb_alloc_table := ?t[i := - 1], sb_size := sb_size s + 1\<rparr>"
  have "slab_allocate s = Inr (of_nat i, s')"
    using ne i c u by (simp add: slab_allocate_def Let_def s'_def)
  moreover have "slab_inv s' fl"
  proof -
    have "free_chain (?t[i := - 1]) (?t ! i) fl" using i(3,4) by (simp add: free_chain_update)
    moreover have "\<forall>j < ?c. j \<notin> set fl \<longrightarrow> ?t[i := - 1] ! j = - 1"
      using inv c(1) by (auto simp: slab_inv_def nth_list_update)
    ultimately show ?thesis
      using inv i(5) sz sz1 by (simp add: slab_inv_def s'_def split: option.splits)
  qed
  ultimately show thesis using that i(1) by (simp add: s'_def)
qed

lemma slab_free_Inr:
  assumes inv: "slab_inv s fl" and i: "i < unat (sb_capacity s)" "i \<notin> set fl"
  obtains s' where "slab_free (of_nat i) s = Inr s'" "slab_inv s' (i # fl)"
    "sb_capacity s' = sb_capacity s" "sb_object_array s' = sb_object_array s" "sb_slab_ndx s' = sb_slab_ndx s"
proof -
  let ?t = "sb_alloc_table s" and ?c = "unat (sb_capacity s)"
  have c: "length ?t = ?c" "?c \<le> 32768" using inv by (simp_all add: slab_inv_def word_le_nat_alt)
  have u: "unat (of_nat i :: u16) = i" using i(1) c(2) by (simp add: unat_word_of_nat)
  have ti: "?t ! i = - 1" and ch: "free_chain ?t (sb_next s) fl" and d: "distinct fl"
    and sz: "unat (sb_size s) + length fl = ?c"
    using inv i by (simp_all add: slab_inv_def)
  have sub: "set fl \<subseteq> {0..<?c}" using free_chain_bound [OF ch] c(1) by auto
  have "length fl < ?c"
  proof -
    have "set fl \<subset> {0..<?c}" using sub i by auto
    then have "card (set fl) < card {0..<?c}" by (intro psubset_card_mono) simp_all
    then show ?thesis using distinct_card [OF d] by simp
  qed
  then have sz0: "sb_size s \<noteq> 0" "unat (sb_size s - 1) = unat (sb_size s) - 1"
    using sz by (auto simp: unat_sub word_le_nat_alt unat_gt_0 intro!: unat_sub)
  have lt: "(of_nat i :: u16) < sb_capacity s" using u i(1) by (simp add: word_less_nat_alt)
  define s' where "s' = s\<lparr>sb_alloc_table := ?t[i := sb_next s], sb_next := of_nat i, sb_size := sb_size s - 1\<rparr>"
  have "slab_free (of_nat i) s = Inr s'"
  proof (cases "sb_next s = - 1")
    case True
    then have "?t[i := sb_next s] = ?t" using ti by (metis list_update_id)
    with True show ?thesis using sz0 lt by (simp add: slab_free_def s'_def)
  next
    case False
    then show ?thesis using sz0 lt ti u by (simp add: slab_free_def s'_def)
  qed
  moreover have "slab_inv s' (i # fl)"
  proof -
    have "free_chain (?t[i := sb_next s]) (sb_next s) fl" using ch i(2) by (simp add: free_chain_update)
    moreover have "\<forall>j < ?c. j \<notin> set (i # fl) \<longrightarrow> ?t[i := sb_next s] ! j = - 1"
      using inv c(1) by (auto simp: slab_inv_def nth_list_update)
    moreover have "unat (sb_size s) \<noteq> 0" using sz0(1) by (simp add: unat_eq_zero)
    ultimately show ?thesis
      using inv i c sz sz0 d by (simp add: slab_inv_def s'_def split: option.splits)
  qed
  ultimately show thesis using that by (simp add: s'_def)
qed

section \<open>Handles\<close>

definition handle_of :: "nat \<Rightarrow> nat \<Rightarrow> u32" where
  "handle_of i j = push_bit 16 (of_nat i) OR of_nat j"

lemma bit_nat_bound: "n < 2 ^ k \<Longrightarrow> bit (n :: nat) m \<Longrightarrow> m < k"
  by (metis bit_take_bit_iff take_bit_nat_eq_self)

lemma handle_fields:
  assumes "i < 65536" "j < 65536"
  shows "ucast (drop_bit 16 (handle_of i j)) = (of_nat i :: u16)" "entry_index (handle_of i j) = of_nat j"
proof -
  have bj: "bit j m \<Longrightarrow> m < 16" for m using bit_nat_bound [of j 16] assms(2) by simp
  show "ucast (drop_bit 16 (handle_of i j)) = (of_nat i :: u16)"
    by (rule bit_word_eqI) (auto simp: handle_of_def bit_simps dest: bj)
  have m: "(0xffff :: u32) = mask 16" by (simp add: mask_eq_exp_minus_1)
  have "handle_of i j AND 0xffff = of_nat j"
    unfolding m take_bit_eq_mask [symmetric]
    by (rule bit_word_eqI) (auto simp: handle_of_def bit_simps dest: bj)
  then have "entry_index (handle_of i j) = (ucast (of_nat j :: u32) :: u16)" by (simp add: entry_index_def)
  then show "entry_index (handle_of i j) = of_nat j"
    by (auto intro!: bit_word_eqI simp: bit_simps)
qed

lemma handle_of_inject:
  assumes "i < 65536" "j < 65536" "i' < 65536" "j' < 65536" "handle_of i j = handle_of i' j'"
  shows "i = i' \<and> j = j'"
proof -
  have "(of_nat i :: u16) = of_nat i'" "(of_nat j :: u16) = of_nat j'"
    using handle_fields assms by metis+
  then have "unat (of_nat i :: u16) = unat (of_nat i' :: u16)" "unat (of_nat j :: u16) = unat (of_nat j' :: u16)"
    by simp_all
  then show ?thesis using assms by (simp add: unat_word_of_nat)
qed

lemma handle_of_valid: "i < 65536 \<Longrightarrow> j < 32768 \<Longrightarrow> handle_of i j \<noteq> - 1"
proof
  assume a: "i < 65536" "j < 32768" "handle_of i j = - 1"
  have "entry_index (- 1) = - 1"
    by (simp add: entry_index_def)
  then have "(of_nat j :: u16) = - 1" using handle_fields(2) [of i j] a by simp
  then have "unat (of_nat j :: u16) = 65535" by (simp add: unsigned_minus_1_eq_mask mask_eq_exp_minus_1)
  then show False using a(2) by (simp add: unat_word_of_nat)
qed

section \<open>What the slabs hold\<close>

definition slabs_inv :: "'a slabs \<Rightarrow> nat list list \<Rightarrow> bool" where
  "slabs_inv p fls \<longleftrightarrow> length fls = length (ss_slabs p) \<and> length (ss_slabs p) \<le> 65536
     \<and> (\<forall>i < length (ss_slabs p). slab_inv (ss_slabs p ! i) (fls ! i) \<and> sb_slab_ndx (ss_slabs p ! i) = of_nat i)
     \<and> (\<forall>n \<in> set (ss_partial p). unat n < length (ss_slabs p) \<and> fls ! unat n \<noteq> [])
     \<and> (\<forall>i < length (ss_slabs p). fls ! i \<noteq> [] \<longrightarrow> of_nat i \<in> set (ss_partial p))
     \<and> ss_slab_ndx p = of_nat (length (ss_slabs p))"

definition live_at :: "'a slabs \<Rightarrow> nat list list \<Rightarrow> nat \<Rightarrow> nat \<Rightarrow> bool" where
  "live_at p fls i j \<longleftrightarrow> i < length (ss_slabs p) \<and> j < unat (sb_capacity (ss_slabs p ! i)) \<and> j \<notin> set (fls ! i)"

text \<open>\<open>slabs_rep dflt p C\<close>: the live handles are the domain of \<open>C\<close>, which gives their objects.\<close>

definition slabs_rep :: "'a \<Rightarrow> 'a slabs \<Rightarrow> (u32 \<rightharpoonup> 'a) \<Rightarrow> bool" where
  "slabs_rep dflt p C \<longleftrightarrow> (\<exists>fls. slabs_inv p fls
     \<and> (\<forall>i j. live_at p fls i j \<longrightarrow> C (handle_of i j) = Some (slab_objects dflt (ss_slabs p ! i) ! j))
     \<and> (\<forall>h. C h \<noteq> None \<longrightarrow> (\<exists>i j. h = handle_of i j \<and> live_at p fls i j)))"

lemma slabs_rep_init: "slabs_rep dflt slabs_init Map.empty"
  by (simp add: slabs_rep_def slabs_inv_def slabs_init_def live_at_def)

lemma live_at_small:
  "slabs_inv p fls \<Longrightarrow> live_at p fls i j \<Longrightarrow> i < 65536 \<and> j < 32768"
  by (fastforce simp: slabs_inv_def live_at_def slab_inv_def word_le_nat_alt)

lemma length_slab_objects: "slab_inv s fl \<Longrightarrow> length (slab_objects dflt s) = unat (sb_capacity s)"
  by (auto simp: slab_inv_def slab_objects_def split: option.splits)

lemma slab_index_handle:
  assumes "slabs_inv p fls" "i < length (ss_slabs p)" "j < 65536"
  shows "slab_index (handle_of i j) p = Inr (of_nat i)" "unat (of_nat i :: u16) = i"
proof -
  have i: "i < 65536" using assms by (simp add: slabs_inv_def)
  then show u: "unat (of_nat i :: u16) = i" by (simp add: unat_word_of_nat)
  show "slab_index (handle_of i j) p = Inr (of_nat i)"
    using handle_fields(1) [OF i assms(3)] assms(2) u by (simp add: slab_index_def Let_def)
qed

text \<open>Reading and writing a live object.\<close>

lemma slabs_get_rep:
  assumes "slabs_rep dflt p C" "C h = Some x"
  shows "slabs_get dflt h p = Inr x"
proof -
  obtain fls i j where inv: "slabs_inv p fls" and h: "h = handle_of i j" "live_at p fls i j"
    and x: "C (handle_of i j) = Some (slab_objects dflt (ss_slabs p ! i) ! j)"
    using assms by (fastforce simp: slabs_rep_def)
  have s: "i < 65536" "j < 32768" using live_at_small [OF inv h(2)] by simp_all
  have i: "i < length (ss_slabs p)" "j < unat (sb_capacity (ss_slabs p ! i))" "j \<notin> set (fls ! i)"
    using h(2) by (simp_all add: live_at_def)
  have si: "slab_inv (ss_slabs p ! i) (fls ! i)" using inv i(1) by (simp add: slabs_inv_def)
  have j: "unat (of_nat j :: u16) = j" using s by (simp add: unat_word_of_nat)
  have "slab_get dflt (of_nat j) (ss_slabs p ! i) = Inr (slab_objects dflt (ss_slabs p ! i) ! j)"
    using i si j by (simp add: slab_get_def word_less_nat_alt slab_inv_def)
  then show ?thesis
    using slab_index_handle [OF inv i(1)] s x assms(2) h(1)
    by (simp add: slabs_get_def handle_fields)
qed

lemma slab_put_inv:
  assumes "slab_inv s fl" "j < unat (sb_capacity s)" "j \<notin> set fl"
  obtains s' where "slab_put dflt (of_nat j) x s = Inr s'" "slab_inv s' fl" "sb_capacity s' = sb_capacity s"
    "sb_slab_ndx s' = sb_slab_ndx s" "slab_objects dflt s' = (slab_objects dflt s)[j := x]"
proof -
  have j: "unat (of_nat j :: u16) = j"
    using assms(1,2) by (simp add: unat_word_of_nat slab_inv_def word_le_nat_alt)
  define s' where "s' = s\<lparr>sb_object_array := Some ((slab_objects dflt s)[j := x])\<rparr>"
  have "slab_put dflt (of_nat j) x s = Inr s'"
    using assms j by (simp add: slab_put_def word_less_nat_alt slab_inv_def s'_def)
  moreover have "slab_inv s' fl"
    using assms(1) length_slab_objects [OF assms(1)] by (simp add: slab_inv_def s'_def)
  ultimately show thesis using that by (simp add: s'_def slab_objects_def)
qed

lemma live_at_same:
  assumes "\<forall>i < length (ss_slabs p). sb_capacity (ss_slabs p' ! i) = sb_capacity (ss_slabs p ! i)"
    "length (ss_slabs p') = length (ss_slabs p)"
  shows "live_at p' fls i j = live_at p fls i j"
  using assms by (auto simp: live_at_def)

lemma slabs_inv_update:
  assumes inv: "slabs_inv p fls" and i: "i < length (ss_slabs p)"
    and s': "slab_inv s' fl'" "sb_slab_ndx s' = of_nat i"
    and p': "ss_slabs p' = (ss_slabs p)[i := s']" "ss_slab_ndx p' = ss_slab_ndx p"
    and P: "\<forall>n \<in> set (ss_partial p'). unat n < length (ss_slabs p) \<and> fls[i := fl'] ! unat n \<noteq> []"
      "\<forall>k < length (ss_slabs p). fls[i := fl'] ! k \<noteq> [] \<longrightarrow> of_nat k \<in> set (ss_partial p')"
  shows "slabs_inv p' (fls[i := fl'])"
  using assms by (auto simp: slabs_inv_def nth_list_update)

lemma slabs_put_rep:
  assumes rep: "slabs_rep dflt p C" and h: "C h \<noteq> None"
  obtains p' where "slabs_put dflt h x p = Inr p'" "slabs_rep dflt p' (C(h \<mapsto> x))"
    "slabs_full p' = slabs_full p" "length (ss_slabs p') = length (ss_slabs p)"
proof -
  obtain fls i j where inv: "slabs_inv p fls" and hij: "h = handle_of i j" "live_at p fls i j"
    and C: "\<forall>i j. live_at p fls i j \<longrightarrow> C (handle_of i j) = Some (slab_objects dflt (ss_slabs p ! i) ! j)"
      "\<forall>h. C h \<noteq> None \<longrightarrow> (\<exists>i j. h = handle_of i j \<and> live_at p fls i j)"
    using assms by (fastforce simp: slabs_rep_def)
  have s: "i < 65536" "j < 32768" using live_at_small [OF inv hij(2)] by simp_all
  have i: "i < length (ss_slabs p)" "j < unat (sb_capacity (ss_slabs p ! i))" "j \<notin> set (fls ! i)"
    using hij(2) by (simp_all add: live_at_def)
  have si: "slab_inv (ss_slabs p ! i) (fls ! i)" using inv i(1) by (simp add: slabs_inv_def)
  obtain s' where s': "slab_put dflt (of_nat j) x (ss_slabs p ! i) = Inr s'" "slab_inv s' (fls ! i)"
      "sb_capacity s' = sb_capacity (ss_slabs p ! i)" "sb_slab_ndx s' = sb_slab_ndx (ss_slabs p ! i)"
      "slab_objects dflt s' = (slab_objects dflt (ss_slabs p ! i))[j := x]"
    by (rule slab_put_inv [OF si i(2,3)])
  define p' where "p' = p\<lparr>ss_slabs := (ss_slabs p)[i := s']\<rparr>"
  have put: "slabs_put dflt h x p = Inr p'"
    using slab_index_handle [OF inv i(1)] s s'(1) hij(1)
    by (simp add: slabs_put_def handle_fields p'_def)
  have ndx: "sb_slab_ndx (ss_slabs p ! i) = of_nat i" using inv i(1) by (simp add: slabs_inv_def)
  have "slabs_inv p' (fls[i := fls ! i])"
    by (rule slabs_inv_update [OF inv i(1) s'(2)])
      (use inv s'(4) ndx in \<open>simp_all add: slabs_inv_def p'_def\<close>)
  then have inv': "slabs_inv p' fls" by simp
  have live: "live_at p' fls a b = live_at p fls a b" for a b
    by (rule live_at_same) (use i(1) in \<open>auto simp: p'_def nth_list_update s'\<close>)
  have "(C(h \<mapsto> x)) (handle_of a b) = Some (slab_objects dflt (ss_slabs p' ! a) ! b)" if ab: "live_at p fls a b" for a b
  proof (cases "a = i \<and> b = j")
    case True
    then show ?thesis using i length_slab_objects [OF si] by (simp add: hij(1) p'_def s'(5))
  next
    case False
    have "handle_of a b \<noteq> h"
      using False handle_of_inject [of a b i j] live_at_small [OF inv ab] s by (auto simp: hij(1))
    moreover have "slab_objects dflt (ss_slabs p' ! a) ! b = slab_objects dflt (ss_slabs p ! a) ! b"
      using False i by (cases "a = i") (auto simp: p'_def s'(5))
    ultimately show ?thesis using C(1) ab by simp
  qed
  moreover have "\<exists>i j. h' = handle_of i j \<and> live_at p fls i j" if "(C(h \<mapsto> x)) h' \<noteq> None" for h'
    using that C(2) h by (auto split: if_splits)
  ultimately have "slabs_rep dflt p' (C(h \<mapsto> x))"
    unfolding slabs_rep_def using inv' by (intro exI [of _ fls]) (simp add: live)
  then show thesis using that put by (simp add: p'_def slabs_full_def)
qed

text \<open>Taking a handle.\<close>

lemma slabs_allocate_rep:
  assumes rep: "slabs_rep dflt p C" and room: "\<not> slabs_full p"
  obtains h p' x where "slabs_allocate p = Inr (h, p')" "C h = None" "h \<noteq> - 1"
    "slabs_rep dflt p' (C(h \<mapsto> x))" "length (ss_slabs p') = length (ss_slabs p)"
proof -
  obtain fls where inv: "slabs_inv p fls"
    and C: "\<forall>i j. live_at p fls i j \<longrightarrow> C (handle_of i j) = Some (slab_objects dflt (ss_slabs p ! i) ! j)"
      "\<forall>h. C h \<noteq> None \<longrightarrow> (\<exists>i j. h = handle_of i j \<and> live_at p fls i j)"
    using rep by (auto simp: slabs_rep_def)
  obtain n P where n: "ss_partial p = n # P" using room by (cases "ss_partial p") (auto simp: slabs_full_def)
  define i where "i = unat n"
  have i: "i < length (ss_slabs p)" "fls ! i \<noteq> []" and ni: "n = of_nat i"
    using inv n by (simp_all add: slabs_inv_def i_def)
  let ?s = "ss_slabs p ! i"
  obtain j fl where fl: "fls ! i = j # fl" using i(2) by (cases "fls ! i") auto
  have si: "slab_inv ?s (j # fl)" and ndx: "sb_slab_ndx ?s = of_nat i" and i16: "i < 65536"
    using inv i(1) fl by (auto simp: slabs_inv_def)
  obtain s' where s': "slab_allocate ?s = Inr (of_nat j, s')" "slab_inv s' fl" "j < unat (sb_capacity ?s)"
      "sb_capacity s' = sb_capacity ?s" "sb_object_array s' = sb_object_array ?s" "sb_slab_ndx s' = sb_slab_ndx ?s"
    by (rule slab_allocate_Inr [OF si])
  have j15: "j < 32768" using s'(3) si by (simp add: slab_inv_def word_le_nat_alt)
  have nf: "\<not> slab_full ?s" using slab_full_iff [OF si] by simp
  define h where "h = handle_of i j"
  define p1 where "p1 = p\<lparr>ss_slabs := (ss_slabs p)[i := s']\<rparr>"
  define p' where "p' = (if slab_full s' then move_to_full n p1 else p1)"
  have hd: "push_bit 16 (sb_slab_ndx ?s) OR ucast (of_nat j :: u16) = h"
  proof -
    have "(ucast (of_nat j :: u16) :: u32) = of_nat j"
      using j15 by (simp add: word_unat_eq_iff unat_ucast_up unat_word_of_nat)
    then show ?thesis by (simp add: h_def handle_of_def ndx)
  qed
  have al: "slabs_allocate p = Inr (h, p')"
    using i nf s'(1) hd by (simp add: slabs_allocate_def n i_def [symmetric] Let_def p'_def p1_def)
  have sl: "ss_slabs p' = (ss_slabs p)[i := s']" by (simp add: p'_def p1_def move_to_full_def)
  have pt: "set (ss_partial p') = (if fl = [] then set (ss_partial p) - {n} else set (ss_partial p))"
    using slab_full_iff [OF s'(2)] by (auto simp: p'_def p1_def move_to_full_def)
  have inv': "slabs_inv p' (fls[i := fl])"
  proof (rule slabs_inv_update [OF inv i(1) s'(2) _ sl])
    show "sb_slab_ndx s' = of_nat i" by (simp add: s'(6) ndx)
    show "ss_slab_ndx p' = ss_slab_ndx p" by (simp add: p'_def p1_def move_to_full_def)
    have un: "unat m = i \<Longrightarrow> m = n" for m :: u16 using ni by auto
    show "\<forall>m \<in> set (ss_partial p'). unat m < length (ss_slabs p) \<and> fls[i := fl] ! unat m \<noteq> []"
      using inv pt un i(1) by (auto simp: slabs_inv_def nth_list_update split: if_splits)
    show "\<forall>k < length (ss_slabs p). fls[i := fl] ! k \<noteq> [] \<longrightarrow> of_nat k \<in> set (ss_partial p')"
    proof (intro allI impI)
      fix k
      assume k: "k < length (ss_slabs p)" "fls[i := fl] ! k \<noteq> []"
      have fk: "fls ! k \<noteq> []" using k fl by (cases "k = i") auto
      then have "of_nat k \<in> set (ss_partial p)" using inv k(1) by (simp add: slabs_inv_def)
      moreover have "of_nat k \<noteq> n" if "fl = []"
      proof -
        have "k \<noteq> i" using k that inv i(1) by (auto simp: slabs_inv_def)
        moreover have "k < 65536" using k(1) inv by (simp add: slabs_inv_def)
        ultimately show ?thesis using i16 by (auto simp: ni dest!: arg_cong [where f = unat] simp: unat_word_of_nat)
      qed
      ultimately show "of_nat k \<in> set (ss_partial p')" by (simp add: pt)
    qed
  qed
  have live: "live_at p' (fls[i := fl]) a b \<longleftrightarrow> live_at p fls a b \<or> a = i \<and> b = j" for a b
    using i(1) inv fl s'(3,4) si by (auto simp: live_at_def sl nth_list_update slabs_inv_def slab_inv_def)
  have obj: "slab_objects dflt (ss_slabs p' ! a) = slab_objects dflt (ss_slabs p ! a)" for a
    using i(1) s'(4,5) by (cases "a = i") (auto simp: sl slab_objects_def split: option.split)
  have notlive: "\<not> live_at p fls i j" using fl by (simp add: live_at_def)
  have hneq: "handle_of a b \<noteq> h" if "live_at p fls a b" for a b
    using handle_of_inject [of a b i j] live_at_small [OF inv that] i16 j15 notlive that by (auto simp: h_def)
  have "C h = None" using C(2) hneq by (metis option.exhaust_sel)
  moreover have "slabs_rep dflt p' (C(h \<mapsto> slab_objects dflt ?s ! j))"
    unfolding slabs_rep_def
  proof (intro exI [of _ "fls[i := fl]"] conjI allI impI)
    show "slabs_inv p' (fls[i := fl])" by (rule inv')
    show "(C(h \<mapsto> slab_objects dflt ?s ! j)) (handle_of a b) = Some (slab_objects dflt (ss_slabs p' ! a) ! b)"
      if "live_at p' (fls[i := fl]) a b" for a b
      using that C(1) hneq by (auto simp: live obj h_def)
    show "\<exists>a b. h' = handle_of a b \<and> live_at p' (fls[i := fl]) a b"
      if h': "(C(h \<mapsto> slab_objects dflt ?s ! j)) h' \<noteq> None" for h'
    proof (cases "h' = h")
      case True
      then show ?thesis by (auto simp: live h_def)
    next
      case False
      then obtain a b where "h' = handle_of a b" "live_at p fls a b" using C(2) h' by auto
      then show ?thesis by (auto simp: live)
    qed
  qed
  moreover have "h \<noteq> - 1" unfolding h_def by (rule handle_of_valid [OF i16 j15])
  ultimately show thesis using that al sl by simp
qed

text \<open>Giving a handle back.\<close>

lemma slabs_free_rep:
  assumes rep: "slabs_rep dflt p C" and h: "C h \<noteq> None"
  obtains p' where "slabs_free h p = Inr p'" "slabs_rep dflt p' (C(h := None))"
    "length (ss_slabs p') = length (ss_slabs p)" "\<not> slabs_full p'"
proof -
  obtain fls i j where inv: "slabs_inv p fls" and hij: "h = handle_of i j" "live_at p fls i j"
    and C: "\<forall>i j. live_at p fls i j \<longrightarrow> C (handle_of i j) = Some (slab_objects dflt (ss_slabs p ! i) ! j)"
      "\<forall>h. C h \<noteq> None \<longrightarrow> (\<exists>i j. h = handle_of i j \<and> live_at p fls i j)"
    using assms by (fastforce simp: slabs_rep_def)
  have s: "i < 65536" "j < 32768" using live_at_small [OF inv hij(2)] by simp_all
  let ?s = "ss_slabs p ! i"
  have i: "i < length (ss_slabs p)" "j < unat (sb_capacity ?s)" "j \<notin> set (fls ! i)"
    using hij(2) by (simp_all add: live_at_def)
  have si: "slab_inv ?s (fls ! i)" and ndx: "sb_slab_ndx ?s = of_nat i" using inv i(1) by (simp_all add: slabs_inv_def)
  obtain s' where s': "slab_free (of_nat j) ?s = Inr s'" "slab_inv s' (j # fls ! i)"
      "sb_capacity s' = sb_capacity ?s" "sb_object_array s' = sb_object_array ?s" "sb_slab_ndx s' = sb_slab_ndx ?s"
    by (rule slab_free_Inr [OF si i(2,3)])
  define p1 where "p1 = p\<lparr>ss_slabs := (ss_slabs p)[i := s']\<rparr>"
  define p' where "p' = (if slab_full ?s then move_to_partial (of_nat i) p1 else p1)"
  note ih = slab_index_handle [OF inv i(1)]
  have fr: "slabs_free h p = Inr p'"
    using ih s s'(1) by (simp add: slabs_free_def hij(1) handle_fields Let_def p'_def p1_def)
  have sl: "ss_slabs p' = (ss_slabs p)[i := s']" by (simp add: p'_def p1_def move_to_partial_def)
  have pt: "set (ss_partial p') = insert (of_nat i) (set (ss_partial p))"
  proof (cases "fls ! i = []")
    case True
    then show ?thesis using slab_full_iff [OF si] by (auto simp: p'_def p1_def move_to_partial_def)
  next
    case False
    then have "of_nat i \<in> set (ss_partial p)" using inv i(1) by (simp add: slabs_inv_def)
    then show ?thesis using slab_full_iff [OF si] False by (auto simp: p'_def p1_def)
  qed
  have ui: "unat (of_nat i :: u16) = i" using s by (simp add: unat_word_of_nat)
  have inv': "slabs_inv p' (fls[i := j # fls ! i])"
  proof (rule slabs_inv_update [OF inv i(1) s'(2) _ sl])
    show "sb_slab_ndx s' = of_nat i" by (simp add: s'(5) ndx)
    show "ss_slab_ndx p' = ss_slab_ndx p" by (simp add: p'_def p1_def move_to_partial_def)
    show "\<forall>m \<in> set (ss_partial p'). unat m < length (ss_slabs p) \<and> fls[i := j # fls ! i] ! unat m \<noteq> []"
      using inv i(1) by (auto simp: pt ui slabs_inv_def nth_list_update)
    show "\<forall>k < length (ss_slabs p). fls[i := j # fls ! i] ! k \<noteq> [] \<longrightarrow> of_nat k \<in> set (ss_partial p')"
      using inv i(1) by (auto simp: pt slabs_inv_def nth_list_update split: if_splits)
  qed
  have live: "live_at p' (fls[i := j # fls ! i]) a b \<longleftrightarrow> live_at p fls a b \<and> \<not> (a = i \<and> b = j)" for a b
    using i(1) inv s'(3) by (auto simp: live_at_def sl nth_list_update slabs_inv_def)
  have obj: "slab_objects dflt (ss_slabs p' ! a) = slab_objects dflt (ss_slabs p ! a)" for a
    using i(1) s'(3,4) by (cases "a = i") (auto simp: sl slab_objects_def split: option.split)
  have hneq: "handle_of a b \<noteq> h" if "live_at p fls a b" "\<not> (a = i \<and> b = j)" for a b
    using handle_of_inject [of a b i j] live_at_small [OF inv that(1)] s that(2) by (auto simp: hij(1))
  have "slabs_rep dflt p' (C(h := None))"
    unfolding slabs_rep_def
  proof (intro exI [of _ "fls[i := j # fls ! i]"] conjI allI impI)
    show "slabs_inv p' (fls[i := j # fls ! i])" by (rule inv')
    show "(C(h := None)) (handle_of a b) = Some (slab_objects dflt (ss_slabs p' ! a) ! b)"
      if "live_at p' (fls[i := j # fls ! i]) a b" for a b
      using that C(1) hneq by (auto simp: live obj)
    show "\<exists>a b. h' = handle_of a b \<and> live_at p' (fls[i := j # fls ! i]) a b" if "(C(h := None)) h' \<noteq> None" for h'
    proof -
      have "h' \<noteq> h" "C h' \<noteq> None" using that by (auto split: if_splits)
      then obtain a b where "h' = handle_of a b" "live_at p fls a b" using C(2) by auto
      then show ?thesis using \<open>h' \<noteq> h\<close> by (auto simp: live hij(1))
    qed
  qed
  moreover have "\<not> slabs_full p'" using pt by (auto simp: slabs_full_def)
  ultimately show thesis using that fr sl by simp
qed

lemma slabs_extend_rep:
  assumes rep: "slabs_rep dflt p C" and room: "length (ss_slabs p) < 65536"
    and s: "slab_inv s [0..<unat (sb_capacity s)]"
  shows "slabs_rep dflt (slabs_extend s p) C" "\<not> slabs_full (slabs_extend s p)"
    "length (ss_slabs (slabs_extend s p)) = Suc (length (ss_slabs p))"
proof -
  obtain fls where inv: "slabs_inv p fls"
    and C: "\<forall>i j. live_at p fls i j \<longrightarrow> C (handle_of i j) = Some (slab_objects dflt (ss_slabs p ! i) ! j)"
      "\<forall>h. C h \<noteq> None \<longrightarrow> (\<exists>i j. h = handle_of i j \<and> live_at p fls i j)"
    using rep by (auto simp: slabs_rep_def)
  let ?n = "length (ss_slabs p)" and ?c = "unat (sb_capacity s)"
  have lf: "length fls = ?n" using inv by (simp add: slabs_inv_def)
  have un: "unat (of_nat ?n :: u16) = ?n" using room by (simp add: unat_word_of_nat)
  have ne: "[0..<?c] \<noteq> []" using s by (simp add: slab_inv_def unat_gt_0 word_neq_0_conv [symmetric])
  have nd: "ucast (of_nat ?n :: u16) = (of_nat ?n :: u32)"
    using room by (simp add: word_unat_eq_iff unat_ucast_up unat_word_of_nat)
  have s2: "slab_inv (s\<lparr>sb_slab_ndx := x\<rparr>) fl = slab_inv s fl" for x fl by (simp add: slab_inv_def split: option.split)
  have "slabs_inv (slabs_extend s p) (fls @ [[0..<?c]])"
    using inv room s ne by (auto simp: slabs_inv_def slabs_extend_def nth_append less_Suc_eq s2 nd un)
  moreover have live: "live_at (slabs_extend s p) (fls @ [[0..<?c]]) i j = live_at p fls i j" for i j
    using lf by (auto simp: live_at_def slabs_extend_def nth_append less_Suc_eq)
  have "slab_objects dflt (ss_slabs (slabs_extend s p) ! i) = slab_objects dflt (ss_slabs p ! i)" if "i < ?n" for i
    using that by (simp add: slabs_extend_def nth_append)
  then have "\<forall>i j. live_at p fls i j \<longrightarrow> C (handle_of i j)
      = Some (slab_objects dflt (ss_slabs (slabs_extend s p) ! i) ! j)"
    using C(1) by (simp add: live_at_def)
  ultimately show "slabs_rep dflt (slabs_extend s p) C"
    unfolding slabs_rep_def using C(2) by (intro exI [of _ "fls @ [[0..<?c]]"]) (simp add: live)
  show "\<not> slabs_full (slabs_extend s p)" by (simp add: slabs_full_def slabs_extend_def)
  show "length (ss_slabs (slabs_extend s p)) = Suc ?n" by (simp add: slabs_extend_def)
qed

section \<open>Any sequence of operations\<close>

text \<open>
  The states a client can bring slabs to, with the handles it has live: \<open>C h = Some (Some x)\<close> for an object it
  last wrote \<open>x\<close> to, \<open>C h = Some None\<close> for one it was just given, whose content it does not know. It frees and
  writes only handles it holds; nothing is assumed of an object that was just allocated.
\<close>

inductive pool_run :: "'a \<Rightarrow> 'a slabs \<Rightarrow> (u32 \<rightharpoonup> 'a option) \<Rightarrow> bool" for dflt :: 'a where
  pr_init: "pool_run dflt slabs_init Map.empty"
| pr_extend: "pool_run dflt p C \<Longrightarrow> slab_make c = Inr s \<Longrightarrow> length (ss_slabs p) < 65536 \<Longrightarrow>
    pool_run dflt (slabs_extend s p) C"
| pr_alloc: "pool_run dflt p C \<Longrightarrow> slabs_allocate p = Inr (h, p') \<Longrightarrow> pool_run dflt p' (C(h \<mapsto> None))"
| pr_free: "pool_run dflt p C \<Longrightarrow> C h \<noteq> None \<Longrightarrow> slabs_free h p = Inr p' \<Longrightarrow>
    pool_run dflt p' (C(h := None))"
| pr_put: "pool_run dflt p C \<Longrightarrow> C h \<noteq> None \<Longrightarrow> slabs_put dflt h x p = Inr p' \<Longrightarrow>
    pool_run dflt p' (C(h \<mapsto> Some x))"

lemma slab_make_fresh:
  assumes "slab_make c = Inr (s :: 'a slab)"
  shows "slab_inv s [0..<unat (sb_capacity s)]"
proof -
  have c: "0 < c" "c \<le> 32768" using assms by (auto simp: slab_make_def res_assert_eq_Inr)
  obtain s' :: "'a slab" where "slab_make c = Inr s'" "slab_inv s' [0..<unat c]" by (rule slab_make_inv [OF c])
  then show ?thesis using assms by (auto simp: slab_make_def res_assert_eq_Inr)
qed

text \<open>What the client knows of the objects, against what they hold.\<close>

definition known_of :: "(u32 \<rightharpoonup> 'a option) \<Rightarrow> (u32 \<rightharpoonup> 'a) \<Rightarrow> bool" where
  "known_of C D \<longleftrightarrow> (\<forall>h. D h = None \<longleftrightarrow> C h = None) \<and> (\<forall>h x. C h = Some (Some x) \<longrightarrow> D h = Some x)"

lemma pool_run_rep: "pool_run dflt p C \<Longrightarrow> \<exists>D. slabs_rep dflt p D \<and> known_of C D"
proof (induction rule: pool_run.induct)
  case pr_init
  show ?case using slabs_rep_init by (force simp: known_of_def)
next
  case (pr_extend p C c s)
  then show ?case using slabs_extend_rep(1) [OF _ pr_extend.hyps(3) slab_make_fresh [OF pr_extend.hyps(2)]] by blast
next
  case (pr_alloc p C h p')
  then obtain D where D: "slabs_rep dflt p D" "known_of C D" by blast
  have "\<not> slabs_full p" using pr_alloc.hyps(2) by (auto simp: slabs_allocate_def slabs_full_def)
  with D(1) obtain h0 p0 x0 where a: "slabs_allocate p = Inr (h0, p0)" "D h0 = None" "h0 \<noteq> - 1"
      "slabs_rep dflt p0 (D(h0 \<mapsto> x0))" "length (ss_slabs p0) = length (ss_slabs p)"
    by (rule slabs_allocate_rep)
  moreover have "h0 = h" "p0 = p'" using a(1) pr_alloc.hyps(2) by simp_all
  moreover have "known_of (C(h \<mapsto> None)) (D(h \<mapsto> x0))" using D(2) by (auto simp: known_of_def)
  ultimately show ?case by blast
next
  case (pr_free p C h p')
  then obtain D where D: "slabs_rep dflt p D" "known_of C D" by blast
  then have D3: "D h \<noteq> None" using pr_free.hyps(2) by (simp add: known_of_def)
  obtain p0 where "slabs_free h p = Inr p0" "slabs_rep dflt p0 (D(h := None))"
      "length (ss_slabs p0) = length (ss_slabs p)" "\<not> slabs_full p0"
    by (rule slabs_free_rep [OF D(1) D3])
  moreover have "known_of (C(h := None)) (D(h := None))" using D(2) by (auto simp: known_of_def)
  ultimately show ?case using pr_free.hyps(3) by (auto simp: fun_upd_def)
next
  case (pr_put p C h x p')
  then obtain D where D: "slabs_rep dflt p D" "known_of C D" by blast
  then have D3: "D h \<noteq> None" using pr_put.hyps(2) by (simp add: known_of_def)
  obtain p0 where "slabs_put dflt h x p = Inr p0" "slabs_rep dflt p0 (D(h \<mapsto> x))"
      "slabs_full p0 = slabs_full p" "length (ss_slabs p0) = length (ss_slabs p)"
    by (rule slabs_put_rep [OF D(1) D3])
  moreover have "known_of (C(h \<mapsto> Some x)) (D(h \<mapsto> x))" using D(2) by (auto simp: known_of_def)
  ultimately show ?case using pr_put.hyps(3) by (auto simp: fun_upd_def)
qed

text \<open>The pool is full when all its entries are live, not before.\<close>

lemma slabs_full_rep:
  assumes "slabs_rep dflt p D"
  shows "slabs_full p \<longleftrightarrow>
    (\<forall>i < length (ss_slabs p). \<forall>j < unat (sb_capacity (ss_slabs p ! i)). D (handle_of i j) \<noteq> None)"
proof -
  obtain fls where inv: "slabs_inv p fls"
    and D: "\<forall>i j. live_at p fls i j \<longrightarrow> D (handle_of i j) = Some (slab_objects dflt (ss_slabs p ! i) ! j)"
      "\<forall>h. D h \<noteq> None \<longrightarrow> (\<exists>i j. h = handle_of i j \<and> live_at p fls i j)"
    using assms by (auto simp: slabs_rep_def)
  have live: "D (handle_of i j) \<noteq> None \<longleftrightarrow> j \<notin> set (fls ! i)"
    if ij: "i < length (ss_slabs p)" "j < unat (sb_capacity (ss_slabs p ! i))" for i j
  proof
    assume "D (handle_of i j) \<noteq> None"
    then obtain a b where ab: "handle_of i j = handle_of a b" "live_at p fls a b" using D(2) by blast
    have "unat (sb_capacity (ss_slabs p ! i)) \<le> 32768" "length (ss_slabs p) \<le> 65536"
      using inv ij(1) by (simp_all add: slabs_inv_def slab_inv_def word_le_nat_alt)
    then have "i < 65536" "j < 32768" using ij by simp_all
    then have "i = a \<and> j = b" using handle_of_inject [of i j a b] ab(1) live_at_small [OF inv ab(2)] by simp
    then show "j \<notin> set (fls ! i)" using ab(2) by (simp add: live_at_def)
  next
    assume "j \<notin> set (fls ! i)"
    then show "D (handle_of i j) \<noteq> None" using D(1) ij by (simp add: live_at_def)
  qed
  have bound: "\<forall>j \<in> set (fls ! i). j < unat (sb_capacity (ss_slabs p ! i))" if "i < length (ss_slabs p)" for i
    using inv that free_chain_bound by (fastforce simp: slabs_inv_def slab_inv_def)
  have full: "slabs_full p \<longleftrightarrow> (\<forall>i < length (ss_slabs p). fls ! i = [])"
  proof
    assume f: "\<forall>i < length (ss_slabs p). fls ! i = []"
    have "\<forall>n \<in> set (ss_partial p). unat n < length (ss_slabs p) \<and> fls ! unat n \<noteq> []"
      using inv by (simp add: slabs_inv_def)
    then have "n \<notin> set (ss_partial p)" for n using f by metis
    then show "slabs_full p" by (cases "ss_partial p") (auto simp: slabs_full_def)
  next
    assume "slabs_full p"
    moreover have "\<forall>i < length (ss_slabs p). fls ! i \<noteq> [] \<longrightarrow> of_nat i \<in> set (ss_partial p)"
      using inv unfolding slabs_inv_def by blast
    ultimately show "\<forall>i < length (ss_slabs p). fls ! i = []" unfolding slabs_full_def by auto
  qed
  have "fls ! i = [] \<longleftrightarrow> (\<forall>j < unat (sb_capacity (ss_slabs p ! i)). j \<notin> set (fls ! i))"
    if "i < length (ss_slabs p)" for i
    using bound [OF that] by (cases "fls ! i") auto
  then show ?thesis using live full by simp
qed

text \<open>
  C8: Whatever a client does with slabs: every object it holds can be read, and reads as what it last wrote there;
  unless all entries are live, a handle can be had, and it is one that the client does not hold and not the
  invalid handle; and a handle that it holds can be written to and given back.
\<close>

theorem slabs_safe:
  assumes "pool_run dflt p C"
  shows "(\<forall>h v. C h = Some v \<longrightarrow> (\<exists>x. slabs_get dflt h p = Inr x \<and> (v = None \<or> v = Some x)))
    \<and> (slabs_full p \<longleftrightarrow>
        (\<forall>i < length (ss_slabs p). \<forall>j < unat (sb_capacity (ss_slabs p ! i)). C (handle_of i j) \<noteq> None))
    \<and> (\<not> slabs_full p \<longrightarrow> (\<exists>h p'. slabs_allocate p = Inr (h, p') \<and> C h = None \<and> h \<noteq> - 1))
    \<and> (\<forall>h. C h \<noteq> None \<longrightarrow> (\<exists>p'. slabs_free h p = Inr p') \<and> (\<forall>x. \<exists>p'. slabs_put dflt h x p = Inr p'))"
proof -
  obtain D where rep: "slabs_rep dflt p D" and k: "known_of C D" using pool_run_rep [OF assms] by blast
  have D: "C h = None \<longleftrightarrow> D h = None" for h using k by (simp add: known_of_def)
  have "\<exists>x. slabs_get dflt h p = Inr x \<and> (v = None \<or> v = Some x)" if "C h = Some v" for h v
  proof -
    have "D h \<noteq> None" using that D [of h] by simp
    then obtain x where "D h = Some x" by blast
    moreover have "v = None \<or> v = Some x" using k that calculation by (cases v) (auto simp: known_of_def)
    ultimately show ?thesis using slabs_get_rep [OF rep] by blast
  qed
  moreover have "\<exists>h p'. slabs_allocate p = Inr (h, p') \<and> C h = None \<and> h \<noteq> - 1" if "\<not> slabs_full p"
    unfolding D by (rule slabs_allocate_rep [OF rep that]) blast
  moreover have "(\<exists>p'. slabs_free h p = Inr p') \<and> (\<forall>x. \<exists>p'. slabs_put dflt h x p = Inr p')" if "C h \<noteq> None" for h
  proof -
    have h: "D h \<noteq> None" using that D [of h] by simp
    have "\<exists>p'. slabs_free h p = Inr p'" by (rule slabs_free_rep [OF rep h]) blast
    moreover have "\<exists>p'. slabs_put dflt h x p = Inr p'" for x by (rule slabs_put_rep [OF rep h]) blast
    ultimately show ?thesis by blast
  qed
  ultimately show ?thesis using slabs_full_rep [OF rep] D by blast
qed

text \<open>Two entries of a slab of two are taken and one of them written to: the pool is full and reads as it should.\<close>

theorem slabs_safe_witness:
  "\<exists>p h h'. pool_run (0 :: nat) p [h \<mapsto> Some 7, h' \<mapsto> None] \<and> h \<noteq> h' \<and> slabs_get 0 h p = Inr 7
    \<and> slabs_get 0 h' p = Inr 0 \<and> slabs_full p \<and> (\<exists>p'. slabs_free h p = Inr p')"
proof -
  have c: "(0 :: u16) < 2" "(2 :: u16) \<le> 32768" by simp_all
  obtain s :: "nat slab" where s: "slab_make 2 = Inr s" by (rule slab_make_inv [OF c])
  have s': "s = \<lparr>sb_alloc_table = [1, - 1], sb_object_array = None, sb_capacity = 2, sb_size = 0, sb_next = 0, sb_slab_ndx = 0\<rparr>"
    using s by (simp add: slab_make_def res_assert_def split: if_splits)
  define p0 where "p0 = slabs_extend s slabs_init"
  define p1 where "p1 = p0\<lparr>ss_slabs := [s\<lparr>sb_alloc_table := [- 1, - 1], sb_next := 1, sb_size := 1\<rparr>]\<rparr>"
  define s3 where "s3 = s\<lparr>sb_alloc_table := [- 1, - 1], sb_next := - 1, sb_size := 2\<rparr>"
  define p2 where "p2 = p0\<lparr>ss_slabs := [s3], ss_partial := [], ss_full := [0]\<rparr>"
  define p3 where "p3 = p2\<lparr>ss_slabs := [s3\<lparr>sb_object_array := Some [7, 0]\<rparr>]\<rparr>"
  have replicate_2: "replicate 2 x = [x, x]" for x :: nat by (simp add: numeral_2_eq_2)
  note d = p0_def p1_def p2_def p3_def s3_def s' slabs_extend_def slabs_init_def
  have "pool_run 0 p0 Map.empty"
    unfolding p0_def by (rule pr_extend [OF pr_init s]) (simp add: slabs_init_def)
  moreover have "slabs_allocate p0 = Inr (0, p1)"
    by (simp add: slabs_allocate_def slab_allocate_def d slab_full_def res_assert_def Let_def)
  ultimately have "pool_run 0 p1 [0 \<mapsto> None]" using pr_alloc by fastforce
  moreover have "slabs_allocate p1 = Inr (1, p2)"
    by (simp add: slabs_allocate_def slab_allocate_def d slab_full_def res_assert_def Let_def move_to_full_def)
  ultimately have "pool_run 0 p2 [0 \<mapsto> None, 1 \<mapsto> None]" using pr_alloc by fastforce
  moreover have "slabs_put 0 0 7 p2 = Inr p3"
    by (simp add: slabs_put_def slab_index_def slab_put_def entry_index_def slab_objects_def d res_assert_def Let_def
      replicate_2)
  ultimately have "pool_run 0 p3 ([0 \<mapsto> None, 1 \<mapsto> None](0 \<mapsto> Some 7))" using pr_put by fastforce
  then have run: "pool_run 0 p3 [0 \<mapsto> Some 7, 1 \<mapsto> None]" by (simp add: fun_upd_twist)
  moreover have "slabs_get 0 1 p3 = Inr 0"
    by (simp add: slabs_get_def slab_index_def slab_get_def entry_index_def slab_objects_def d res_assert_def Let_def)
  moreover have "slabs_full p3" by (simp add: slabs_full_def d)
  moreover have "(0 :: u32) \<noteq> 1" by simp
  moreover have "\<exists>x. slabs_get 0 0 p3 = Inr x \<and> (Some (7 :: nat) = None \<or> Some 7 = Some x)"
    by (rule slabs_safe [OF run, THEN conjunct1, rule_format]) simp
  then have "slabs_get 0 0 p3 = Inr 7" by simp
  moreover have "\<exists>p'. slabs_free 0 p3 = Inr p'" using slabs_safe [OF run] by simp
  ultimately show ?thesis by (intro exI [of _ p3] exI [of _ 0] exI [of _ 1]) auto
qed

end
