(* ===== verification/Queue.thy ===== *)
theory Queue
  imports Prelude
begin

text \<open>
  The interface of a first-in first-out queue, and its provider \<open>common/ring_queue.h\<close>: a circular
  buffer of a power of two slots that doubles when it fills up. (The other provider is the doubly
  linked list over slabs, \<open>Slab_List\<close>.) The contract is a locale; runs of arbitrary sequences of
  operations are related to runs on plain lists inside it.
\<close>

section \<open>The contract\<close>

datatype 'a queue_op = Push 'a | Pop

fun queue_run :: "('a \<Rightarrow> 'q \<Rightarrow> 'q res) \<Rightarrow> ('q \<Rightarrow> ('a \<times> 'q) res) \<Rightarrow> 'a queue_op list \<Rightarrow> 'q \<Rightarrow> ('a list \<times> 'q) res" where
  "queue_run push pop [] q = Inr ([], q)"
| "queue_run push pop (Push x # ops) q = res_bind (push x q) (queue_run push pop ops)"
| "queue_run push pop (Pop # ops) q =
     res_bind (pop q) (\<lambda>(x, q'). res_bind (queue_run push pop ops q') (\<lambda>(xs, q''). Inr (x # xs, q'')))"

text \<open>
  The same on the list of waiting elements: \<open>None\<close> when a run pops from nothing or pushes more than
  the capacity lets wait.
\<close>

fun fifo_spec :: "nat \<Rightarrow> 'a queue_op list \<Rightarrow> 'a list \<Rightarrow> ('a list \<times> 'a list) option" where
  "fifo_spec cap [] xs = Some ([], xs)"
| "fifo_spec cap (Push x # ops) xs = (if length xs < cap then fifo_spec cap ops (xs @ [x]) else None)"
| "fifo_spec cap (Pop # ops) [] = None"
| "fifo_spec cap (Pop # ops) (x # xs) = map_option (\<lambda>(out, ys). (x # out, ys)) (fifo_spec cap ops xs)"

locale fifo =
  fixes contents :: "'q \<Rightarrow> 'a list" and inv :: "'q \<Rightarrow> bool" and cap :: nat
    and push :: "'a \<Rightarrow> 'q \<Rightarrow> 'q res" and pop :: "'q \<Rightarrow> ('a \<times> 'q) res" and is_empty :: "'q \<Rightarrow> bool"
  assumes push_contents: "inv q \<Longrightarrow> length (contents q) < cap \<Longrightarrow>
      \<exists>q'. push x q = Inr q' \<and> inv q' \<and> contents q' = contents q @ [x]"
    and pop_contents: "inv q \<Longrightarrow> contents q = x # xs \<Longrightarrow> \<exists>q'. pop q = Inr (x, q') \<and> inv q' \<and> contents q' = xs"
    and pop_nothing: "inv q \<Longrightarrow> contents q = [] \<Longrightarrow> pop q = Inl Assertion"
    and is_empty_iff: "inv q \<Longrightarrow> is_empty q \<longleftrightarrow> contents q = []"
begin

lemma run_refines:
  "inv q \<Longrightarrow> fifo_spec cap ops (contents q) = Some (out, ys) \<Longrightarrow>
    \<exists>q'. queue_run push pop ops q = Inr (out, q') \<and> inv q' \<and> contents q' = ys"
proof (induction ops arbitrary: q out)
  case Nil
  then show ?case by simp
next
  case (Cons op ops)
  show ?case
  proof (cases op)
    case (Push x)
    then have f: "length (contents q) < cap" "fifo_spec cap ops (contents q @ [x]) = Some (out, ys)"
      using Cons.prems(2) by (auto split: if_splits)
    obtain q1 where q1: "push x q = Inr q1" "inv q1" "contents q1 = contents q @ [x]"
      using push_contents [OF Cons.prems(1) f(1)] by blast
    then show ?thesis using Cons.IH [OF q1(2), of out] f(2) Push by simp
  next
    case Pop
    then obtain x xs out' where c: "contents q = x # xs" "fifo_spec cap ops xs = Some (out', ys)" "out = x # out'"
      using Cons.prems(2) by (cases "contents q") auto
    obtain q1 where q1: "pop q = Inr (x, q1)" "inv q1" "contents q1 = xs"
      using pop_contents [OF Cons.prems(1) c(1)] by blast
    obtain q' where "queue_run push pop ops q1 = Inr (out', q')" "inv q'" "contents q' = ys"
      using Cons.IH [OF q1(2)] c(2) q1(3) by blast
    then show ?thesis using q1(1) c(3) Pop by simp
  qed
qed

lemma drained_is_empty:
  "inv q \<Longrightarrow> fifo_spec cap ops (contents q) = Some (out, []) \<Longrightarrow>
    \<exists>q'. queue_run push pop ops q = Inr (out, q') \<and> is_empty q'"
  using run_refines is_empty_iff by blast

end

section \<open>ring_queue\<close>

record 'a ring_queue =
  rq_queue :: "'a list"
  rq_head :: u32
  rq_tail :: u32
  rq_mask :: u32

definition ring_queue_init :: "'a \<Rightarrow> 'a ring_queue" where
  "ring_queue_init dflt = \<lparr>rq_queue = replicate 4 dflt, rq_head = 0, rq_tail = 0, rq_mask = 3\<rparr>"

text \<open>\<open>std::move_backward\<close> of \<open>[first, last)\<close> to the end of the vector, for elements that move by copy.\<close>

definition move_to_end :: "nat \<Rightarrow> nat \<Rightarrow> 'a list \<Rightarrow> 'a list" where
  "move_to_end start stop xs = take (length xs - (stop - start)) xs @ drop start (take stop xs)"

definition rq_resize :: "'a \<Rightarrow> nat \<Rightarrow> 'a list \<Rightarrow> 'a list" where
  "rq_resize dflt n xs = take n xs @ replicate (n - length xs) dflt"

definition rq_reallocate :: "'a \<Rightarrow> 'a ring_queue \<Rightarrow> 'a ring_queue" where
  "rq_reallocate dflt q =
     (let old_size = of_nat (length (rq_queue q)) :: u32; sz = old_size * 2;
          q1 = q\<lparr>rq_queue := rq_resize dflt (unat sz) (rq_queue q), rq_mask := sz - 1\<rparr>
      in if rq_tail q1 = rq_head q1 + 1
         then q1\<lparr>rq_queue := move_to_end (unat (rq_tail q1)) (unat old_size) (rq_queue q1),
                 rq_tail := rq_tail q1 + old_size\<rparr>
         else q1)"

definition rq_push :: "'a \<Rightarrow> 'a \<Rightarrow> 'a ring_queue \<Rightarrow> 'a ring_queue res" where
  "rq_push dflt item q =
     (if length (rq_queue q) \<le> unat (rq_head q) then Inl Undefined
      else
        let q1 = q\<lparr>rq_queue := (rq_queue q)[unat (rq_head q) := item]\<rparr>;
            q2 = (if (rq_head q1 + 1) AND rq_mask q1 = rq_tail q1 then rq_reallocate dflt q1 else q1)
        in Inr (q2\<lparr>rq_head := (rq_head q2 + 1) AND rq_mask q2\<rparr>))"

definition rq_pop :: "'a ring_queue \<Rightarrow> ('a \<times> 'a ring_queue) res" where
  "rq_pop q =
     res_assert (rq_head q \<noteq> rq_tail q)
       (if length (rq_queue q) \<le> unat (rq_tail q) then Inl Undefined
        else Inr (rq_queue q ! unat (rq_tail q), q\<lparr>rq_tail := (rq_tail q + 1) AND rq_mask q\<rparr>))"

definition rq_peek :: "'a ring_queue \<Rightarrow> 'a res" where
  "rq_peek q =
     res_assert (rq_head q \<noteq> rq_tail q)
       (if length (rq_queue q) \<le> unat (rq_tail q) then Inl Undefined
        else Inr (rq_queue q ! unat (rq_tail q)))"

definition rq_empty :: "'a ring_queue \<Rightarrow> bool" where
  "rq_empty q \<longleftrightarrow> rq_head q = rq_tail q"

section \<open>ring_queue is a queue\<close>

definition rq_count :: "'a ring_queue \<Rightarrow> nat" where
  "rq_count q = (unat (rq_head q) + length (rq_queue q) - unat (rq_tail q)) mod length (rq_queue q)"

definition rq_contents :: "'a ring_queue \<Rightarrow> 'a list" where
  "rq_contents q =
     map (\<lambda>i. rq_queue q ! ((unat (rq_tail q) + i) mod length (rq_queue q))) [0..<rq_count q]"

definition rq_inv :: "'a ring_queue \<Rightarrow> bool" where
  "rq_inv q \<longleftrightarrow> (\<exists>k. 2 \<le> k \<and> k \<le> 31 \<and> length (rq_queue q) = 2 ^ k \<and> rq_mask q = mask k)
     \<and> unat (rq_head q) < length (rq_queue q) \<and> unat (rq_tail q) < length (rq_queue q)"

lemma unat_step:
  assumes "unat h < 2 ^ k" "k \<le> 31" "m = (mask k :: u32)"
  shows "unat ((h + 1) AND m) = (unat h + 1) mod 2 ^ k"
proof -
  have "(2 :: nat) ^ k \<le> 2 ^ 31" using assms(2) by (rule power_increasing) simp
  then have "unat (h + 1) = unat h + 1" using assms(1) by (subst unat_add_lem [THEN iffD1]) simp_all
  moreover have "unat (take_bit k (h + 1)) = take_bit k (unat (h + 1))" by (rule unsigned_take_bit_eq)
  ultimately show ?thesis
    unfolding assms(3) take_bit_eq_mask [symmetric] by (simp only: take_bit_eq_mod)
qed

lemma rq_init_inv: "rq_inv (ring_queue_init dflt)" "rq_contents (ring_queue_init dflt) = []"
  by (auto simp: rq_inv_def ring_queue_init_def rq_contents_def rq_count_def mask_eq_exp_minus_1
      intro: exI [of _ 2])

lemma mod_dist_Suc:
  assumes "h < (n :: nat)" "t < n"
  shows "((h + 1) mod n + n - t) mod n = ((h + n - t) mod n + 1) mod n"
    and "(h + n - t) mod n = (if t \<le> h then h - t else h + n - t)"
proof -
  show e: "(h + n - t) mod n = (if t \<le> h then h - t else h + n - t)"
  proof (cases "t \<le> h")
    case True
    then have "(h + n - t) mod n = (n + (h - t)) mod n" by (simp add: add.commute)
    also have "\<dots> = h - t" using assms by simp
    finally show ?thesis using True by simp
  qed (use assms in simp)
  show "((h + 1) mod n + n - t) mod n = ((h + n - t) mod n + 1) mod n"
  proof (cases "h + 1 = n")
    case True
    then show ?thesis unfolding e using assms by (auto simp: mod_if)
  next
    case False
    then have "(h + 1) mod n = h + 1" using assms by simp
    then have "((h + 1) mod n + n - t) mod n = (h + n - t + 1) mod n" using assms by (simp add: Suc_diff_le)
    then show ?thesis by (simp add: mod_Suc_eq)
  qed
qed

lemma rq_pop_contents:
  assumes inv: "rq_inv q" and c: "rq_contents q = x # xs"
  shows "\<exists>q'. rq_pop q = Inr (x, q') \<and> rq_inv q' \<and> rq_contents q' = xs"
proof -
  let ?n = "length (rq_queue q)" and ?t = "unat (rq_tail q)" and ?h = "unat (rq_head q)"
  obtain k where k: "2 \<le> k" "k \<le> 31" "?n = 2 ^ k" "rq_mask q = mask k" and ht: "?h < ?n" "?t < ?n"
    using inv by (auto simp: rq_inv_def)
  have cnt: "rq_count q = Suc (length xs)" using arg_cong [OF c, where f = length] by (simp add: rq_contents_def)
  define q' where "q' = q\<lparr>rq_tail := (rq_tail q + 1) AND rq_mask q\<rparr>"
  have t': "unat (rq_tail q') = (?t + 1) mod ?n"
    using unat_step [OF _ k(2,4)] ht k(3) by (simp add: q'_def)
  have ne: "rq_head q \<noteq> rq_tail q"
    using cnt ht by (auto simp: rq_count_def)
  have x: "x = rq_queue q ! ?t" and xs: "xs = map (\<lambda>i. rq_queue q ! ((?t + i) mod ?n)) [1..<rq_count q]"
    using c cnt ht by (auto simp: rq_contents_def upt_conv_Cons simp del: upt_Suc)
  have "rq_inv q'"
    using inv t' ht by (auto simp: rq_inv_def q'_def)
  moreover have "rq_count q' = length xs"
  proof -
    have e: "?h \<noteq> ?t" using ne by (simp add: word_unat_eq_iff)
    have "(?h + ?n - (?t + 1) mod ?n) mod ?n = (?h + ?n - ?t) mod ?n - 1"
    proof (cases "?t + 1 = ?n")
      case True
      then show ?thesis using ht e mod_dist_Suc(2) [OF ht] by simp
    next
      case False
      then have t1: "(?t + 1) mod ?n = ?t + 1" "?t + 1 < ?n" using ht by simp_all
      then show ?thesis using ht e mod_dist_Suc(2) [OF ht] mod_dist_Suc(2) [OF ht(1) t1(2)] by simp
    qed
    then show ?thesis using cnt t' by (simp add: rq_count_def q'_def)
  qed
  moreover have "rq_contents q' = xs"
  proof (rule nth_equalityI)
    show "length (rq_contents q') = length xs" using \<open>rq_count q' = length xs\<close> by (simp add: rq_contents_def)
    fix i
    assume "i < length (rq_contents q')"
    then have i: "i < length xs" using \<open>rq_count q' = length xs\<close> by (simp add: rq_contents_def)
    have "rq_contents q' ! i = rq_queue q ! (((?t + 1) mod ?n + i) mod ?n)"
      using i \<open>rq_count q' = length xs\<close> t' by (simp add: rq_contents_def q'_def)
    also have "((?t + 1) mod ?n + i) mod ?n = (?t + (1 + i)) mod ?n" by (simp add: mod_simps)
    also have "rq_queue q ! ((?t + (1 + i)) mod ?n) = xs ! i"
      using i cnt unfolding xs by simp
    finally show "rq_contents q' ! i = xs ! i" .
  qed
  ultimately show ?thesis
    using ne ht x by (auto simp: rq_pop_def q'_def)
qed

lemma head_position:
  assumes "h < (n :: nat)" "t < n"
  shows "(t + (h + n - t) mod n) mod n = h"
proof -
  have "(t + (h + n - t) mod n) mod n = (t + (h + n - t)) mod n" by (simp add: mod_simps)
  also have "\<dots> = h" using assms by simp
  finally show ?thesis .
qed

lemma mod_add_neq:
  assumes "i < c" "c < (n :: nat)"
  shows "(t + i) mod n \<noteq> (t + c) mod n"
proof
  assume "(t + i) mod n = (t + c) mod n"
  then have "n dvd (t + c) - (t + i)" using assms by (metis mod_eq_dvd_iff_nat add_le_mono le_refl less_imp_le)
  then have "n dvd c - i" by simp
  then show False using assms by (auto dest: dvd_imp_le)
qed

lemma rq_push_no_realloc:
  assumes ht: "h < n" "t < n" and c: "c = (h + n - t) mod n" "c + 1 < (n :: nat)" and xs: "length xs = n"
  shows "map (\<lambda>i. xs[h := x] ! ((t + i) mod n)) [0..<((h + 1) mod n + n - t) mod n]
    = map (\<lambda>i. xs ! ((t + i) mod n)) [0..<c] @ [x]"
proof -
  have hp: "(t + c) mod n = h" using head_position [OF ht] by (simp add: c(1))
  have "((h + 1) mod n + n - t) mod n = Suc c"
    using mod_dist_Suc(1) [OF ht] c by simp
  moreover have "xs[h := x] ! ((t + i) mod n) = xs ! ((t + i) mod n)" if i: "i < c" for i
  proof -
    have "(t + i) mod n \<noteq> (t + c) mod n"
      using i c(2) by (intro mod_add_neq) simp_all
    then show ?thesis using hp by simp
  qed
  ultimately show ?thesis using hp ht xs by simp
qed

lemma unwrap_copies:
  assumes "0 < t" "t < n" "length xs = n" "i < n"
  shows "move_to_end t n (rq_resize d (2 * n) xs) ! ((t + n + i) mod (2 * n)) = xs ! ((t + i) mod n)"
proof (cases "t + i < n")
  case True
  then have "(t + n + i) mod (2 * n) = t + n + i" "(t + i) mod n = t + i" by simp_all
  then show ?thesis using assms True
    by (simp add: move_to_end_def rq_resize_def nth_append)
next
  case False
  then have "(t + n + i) mod (2 * n) = t + i - n" "(t + i) mod n = t + i - n"
    using assms by (simp_all add: mod_if)
  moreover have "t + i - n < n" using assms by linarith
  ultimately show ?thesis using assms False
    by (simp add: move_to_end_def rq_resize_def nth_append)
qed

lemma double_size:
  assumes "n = 2 ^ k" "k < 31"
  shows "unat ((of_nat n :: u32) * 2) = 2 * n" and "(of_nat n :: u32) * 2 - 1 = mask (Suc k)"
    and "unat (of_nat n :: u32) = n"
proof -
  have "(2 :: nat) ^ Suc k \<le> 2 ^ 31" using assms(2) by (intro power_increasing) simp_all
  then have n: "2 * n \<le> 2 ^ 31" using assms(1) by simp
  then show "unat (of_nat n :: u32) = n" by (simp add: unat_of_nat take_bit_eq_mod)
  have "(of_nat n :: u32) * 2 = of_nat (2 * n)" by simp
  then show "unat ((of_nat n :: u32) * 2) = 2 * n" using n by (simp only: unat_of_nat take_bit_eq_mod) simp
  show "(of_nat n :: u32) * 2 - 1 = mask (Suc k)" by (simp add: assms(1) mask_eq_exp_minus_1 mult.commute)
qed

lemma grow_layout:
  fixes q :: "'a ring_queue"
  defines "n \<equiv> length (rq_queue q)" and "h \<equiv> unat (rq_head q)" and "t \<equiv> unat (rq_tail q)"
  assumes n: "n = 2 ^ k" "k < 31" and ht: "h < n" "t < n" "(h + 1) mod n = t"
  shows "unat (rq_tail (rq_reallocate dflt (q\<lparr>rq_queue := (rq_queue q)[h := x]\<rparr>))) = (if t = 0 then 0 else t + n)"
    and "i < n \<Longrightarrow> rq_queue (rq_reallocate dflt (q\<lparr>rq_queue := (rq_queue q)[h := x]\<rparr>)) !
      ((unat (rq_tail (rq_reallocate dflt (q\<lparr>rq_queue := (rq_queue q)[h := x]\<rparr>))) + i) mod (2 * n))
        = (rq_queue q)[h := x] ! ((t + i) mod n)"
proof -
  let ?q1 = "q\<lparr>rq_queue := (rq_queue q)[h := x]\<rparr>"
  note dbl = double_size [OF n]
  have n2: "2 * n \<le> 2 ^ 31"
  proof -
    have "(2 :: nat) ^ Suc k \<le> 2 ^ 31" using n(2) by (intro power_increasing) simp_all
    then show ?thesis using n(1) by simp
  qed
  have h1: "unat (rq_head q + 1) = h + 1"
    using ht n2 unfolding h_def by (subst unat_add_lem [THEN iffD1]) simp_all
  have tn: "unat (rq_tail q + of_nat n) = t + n"
    using ht n2 dbl(3) unfolding t_def by (subst unat_add_lem [THEN iffD1]) simp_all
  have cond: "rq_tail q = rq_head q + 1 \<longleftrightarrow> t \<noteq> 0"
  proof (cases "h + 1 = n")
    case True
    then show ?thesis using ht h1 by (auto simp: word_unat_eq_iff t_def)
  next
    case False
    then show ?thesis using ht h1 by (auto simp: word_unat_eq_iff t_def)
  qed
  have r: "rq_reallocate dflt ?q1 = (if t \<noteq> 0
      then ?q1\<lparr>rq_queue := move_to_end t n (rq_resize dflt (2 * n) ((rq_queue q)[h := x])),
               rq_mask := mask (Suc k), rq_tail := rq_tail q + of_nat n\<rparr>
      else ?q1\<lparr>rq_queue := rq_resize dflt (2 * n) ((rq_queue q)[h := x]), rq_mask := mask (Suc k)\<rparr>)"
    using dbl cond by (auto simp: rq_reallocate_def Let_def n_def [symmetric] t_def)
  show tail: "unat (rq_tail (rq_reallocate dflt ?q1)) = (if t = 0 then 0 else t + n)"
    using tn unfolding r by (simp add: t_def)
  assume i: "i < n"
  show "rq_queue (rq_reallocate dflt ?q1) ! ((unat (rq_tail (rq_reallocate dflt ?q1)) + i) mod (2 * n))
        = (rq_queue q)[h := x] ! ((t + i) mod n)"
  proof (cases "t = 0")
    case True
    moreover have "unat (rq_tail q) = 0" using True by (simp add: t_def)
    ultimately show ?thesis using i unfolding r by (simp add: rq_resize_def nth_append n_def)
  next
    case False
    have len: "length ((rq_queue q)[h := x]) = n" by (simp add: n_def)
    show ?thesis
      using unwrap_copies [OF _ ht(2) len i, of dflt] False tn unfolding r by simp
  qed
qed

lemma rq_push_contents:
  assumes inv: "rq_inv q" and room: "Suc (length (rq_contents q)) < 2 ^ 31"
  shows "\<exists>q'. rq_push dflt x q = Inr q' \<and> rq_inv q' \<and> rq_contents q' = rq_contents q @ [x]"
proof -
  let ?n = "length (rq_queue q)" and ?t = "unat (rq_tail q)" and ?h = "unat (rq_head q)"
  obtain k where k: "2 \<le> k" "k \<le> 31" "?n = 2 ^ k" "rq_mask q = mask k" and ht: "?h < ?n" "?t < ?n"
    using inv by (auto simp: rq_inv_def)
  have h1: "unat ((rq_head q + 1) AND rq_mask q) = (?h + 1) mod ?n"
    using unat_step [OF _ k(2,4)] ht k(3) by simp
  define q1 where "q1 = q\<lparr>rq_queue := (rq_queue q)[?h := x]\<rparr>"
  show ?thesis
  proof (cases "(rq_head q + 1) AND rq_mask q = rq_tail q")
    case False
    define q' where "q' = q1\<lparr>rq_head := (rq_head q + 1) AND rq_mask q\<rparr>"
    have p: "rq_push dflt x q = Inr q'"
      using ht False by (simp add: rq_push_def q'_def q1_def)
    have ne: "(?h + 1) mod ?n \<noteq> ?t" using False h1 by (metis word_unat_eq_iff)
    have c: "rq_count q + 1 < ?n"
    proof (rule ccontr)
      assume "\<not> rq_count q + 1 < ?n"
      moreover have "rq_count q < ?n" using ht unfolding rq_count_def by (intro mod_less_divisor) linarith
      ultimately have "rq_count q + 1 = ?n" by simp
      then have "?h - ?t + 1 = ?n \<and> ?t \<le> ?h \<or> ?h + ?n - ?t + 1 = ?n \<and> ?h < ?t"
        using mod_dist_Suc(2) [OF ht] by (auto simp: rq_count_def split: if_splits)
      then have "?h + 1 = ?n \<and> ?t = 0 \<or> ?h + 1 = ?t" using ht by linarith
      then show False using ne ht by auto
    qed
    have "rq_inv q'" using k ht h1 by (auto simp: rq_inv_def q'_def q1_def)
    moreover have "rq_contents q' = rq_contents q @ [x]"
      using rq_push_no_realloc [OF ht _ c refl, of x, unfolded rq_count_def] h1
      by (simp add: rq_contents_def rq_count_def q'_def q1_def)
    ultimately show ?thesis using p by blast
  next
    case True
    have t1: "(?h + 1) mod ?n = ?t" using True h1 by simp
    have cnt: "Suc (rq_count q) = ?n"
      using t1 ht mod_dist_Suc(2) [OF ht] by (cases "?h + 1 = ?n") (auto simp: rq_count_def)
    have "k < 31" using room cnt k(2,3) by (cases "k = 31") (auto simp: rq_contents_def)
    note dbl = double_size [OF k(3) this]
    have n2: "2 * ?n \<le> 2 ^ 31"
    proof -
      have "(2 :: nat) ^ Suc k \<le> 2 ^ 31" using \<open>k < 31\<close> by (intro power_increasing) simp_all
      then show ?thesis using k(3) by simp
    qed
    define q2 where "q2 = rq_reallocate dflt q1"
    define q' where "q' = q2\<lparr>rq_head := (rq_head q2 + 1) AND rq_mask q2\<rparr>"
    have p: "rq_push dflt x q = Inr q'"
      using ht True by (simp add: rq_push_def q'_def q2_def q1_def Let_def)
    have q2: "length (rq_queue q2) = 2 * ?n" "rq_mask q2 = mask (Suc k)" "rq_head q2 = rq_head q"
      using dbl ht by (auto simp: q2_def q1_def rq_reallocate_def rq_resize_def move_to_end_def Let_def)
    have hd': "unat (rq_head q') = ?h + 1"
      using unat_step [of "rq_head q2" "Suc k" "rq_mask q2"] q2 ht k(3) \<open>k < 31\<close> by (simp add: q'_def)
    have tl': "unat (rq_tail q') = (if ?t = 0 then 0 else ?t + ?n)"
      and el: "\<And>i. i < ?n \<Longrightarrow> rq_queue q' ! ((unat (rq_tail q') + i) mod (2 * ?n))
        = (rq_queue q)[?h := x] ! ((?t + i) mod ?n)"
      using grow_layout [OF k(3) \<open>k < 31\<close> ht t1, where dflt = dflt and x = x] by (simp_all add: q'_def q2_def q1_def)
    have "rq_inv q'"
      using k q2 hd' tl' ht \<open>k < 31\<close> by (auto simp: rq_inv_def q'_def intro!: exI [of _ "Suc k"])
    moreover have len: "length (rq_queue q') = 2 * ?n" using q2 by (simp add: q'_def)
    moreover have cnt': "rq_count q' = ?n"
      using hd' tl' t1 ht len by (cases "?h + 1 = ?n") (auto simp: rq_count_def mod_if)
    moreover have "rq_contents q' = rq_contents q @ [x]"
    proof (rule nth_equalityI)
      show "length (rq_contents q') = length (rq_contents q @ [x])"
        using cnt cnt' by (simp add: rq_contents_def)
      fix i
      assume "i < length (rq_contents q')"
      then have i: "i < ?n" using cnt' by (simp add: rq_contents_def)
      then have e: "rq_contents q' ! i = (rq_queue q)[?h := x] ! ((?t + i) mod ?n)"
        using el cnt' len by (simp add: rq_contents_def)
      have hp: "(?t + rq_count q) mod ?n = ?h" using head_position [OF ht] by (simp add: rq_count_def)
      show "rq_contents q' ! i = (rq_contents q @ [x]) ! i"
      proof (cases "i = rq_count q")
        case True
        then show ?thesis using e hp ht by (simp add: rq_contents_def nth_append)
      next
        case False
        then have ic: "i < rq_count q" "rq_count q < ?n" using i cnt by linarith+
        then show ?thesis using e hp mod_add_neq [OF ic, of ?t] by (simp add: rq_contents_def nth_append)
      qed
    qed
    ultimately show ?thesis using p by blast
  qed
qed

lemma rq_pop_nothing:
  assumes "rq_inv q" "rq_contents q = []"
  shows "rq_pop q = Inl Assertion" and "rq_empty q"
proof -
  have ht: "unat (rq_head q) < length (rq_queue q)" "unat (rq_tail q) < length (rq_queue q)"
    using assms(1) by (auto simp: rq_inv_def)
  have "rq_count q = 0" using assms(2) by (simp add: rq_contents_def)
  then have "unat (rq_head q) = unat (rq_tail q)"
    using mod_dist_Suc(2) [OF ht] ht by (simp add: rq_count_def split: if_splits)
  then have "rq_head q = rq_tail q" by (simp add: word_unat_eq_iff)
  then show "rq_pop q = Inl Assertion" "rq_empty q" by (simp_all add: rq_pop_def rq_empty_def res_assert_def)
qed

lemma rq_empty_contents: "rq_inv q \<Longrightarrow> rq_empty q \<longleftrightarrow> rq_contents q = []"
  using rq_pop_nothing(2) [of q] by (auto simp: rq_empty_def rq_contents_def rq_count_def)

lemma rq_peek_contents:
  "rq_inv q \<Longrightarrow> rq_contents q = x # xs \<Longrightarrow> rq_peek q = Inr x"
  using rq_pop_contents [of q x xs] by (auto simp: rq_pop_def rq_peek_def res_assert_def split: if_splits)

interpretation rq: fifo rq_contents rq_inv "2 ^ 31 - 1" "rq_push dflt" rq_pop rq_empty for dflt
  by unfold_locales
    (auto simp: rq_pop_nothing(1) rq_empty_contents intro: rq_push_contents rq_pop_contents)

text \<open>
  C9: a ring_queue is a first-in first-out queue: any run of pushes and pops that never pops from an
  empty queue and never lets 2^31 - 1 elements wait returns, pops what the same run on a plain list
  pops, however often the buffer doubles, wherever the head and tail stand when it does, and leaves
  the queue holding the rest in order.
\<close>

theorem ring_queue_fifo:
  assumes "fifo_spec (2 ^ 31 - 1) ops [] = Some (out, ys)"
  shows "\<exists>q. queue_run (rq_push dflt) rq_pop ops (ring_queue_init dflt) = Inr (out, q)
    \<and> rq_inv q \<and> rq_contents q = ys \<and> (rq_empty q \<longleftrightarrow> ys = [])"
  using rq.run_refines [OF rq_init_inv(1), of ops dflt out ys dflt] assms rq_init_inv(2) [of dflt] rq_empty_contents
  by auto

theorem ring_queue_fifo_witness:
  "\<exists>q. queue_run (rq_push 0) rq_pop [Push 1, Push 2, Pop, Push 3, Push 4, Push (5 :: nat), Pop, Push 6] (ring_queue_init 0)
      = Inr ([1, 2], q) \<and> rq_inv q \<and> rq_contents q = [3, 4, 5, 6] \<and> (rq_empty q \<longleftrightarrow> [3, 4, 5, 6 :: nat] = [])"
  by (rule ring_queue_fifo) simp

end
