(* ===== verification/Slab_List.thy ===== *)
theory Slab_List
  imports Slabs Queue
begin

text \<open>
  The doubly linked list of \<open>common/slab_list.h\<close>: its nodes are objects of a pool of slabs, linked by
  handles. Several lists can share one pool; \<open>sl_rep\<close> describes one of them and every operation is
  shown to leave the objects of the others alone. A list that owns its pool is a queue.
\<close>

section \<open>The code\<close>

record 'a sl_entry =
  se_prev :: u32
  se_next :: u32
  se_item :: 'a

record slab_list =
  sl_front :: u32
  sl_back :: u32
  sl_size :: u32

definition sl_invalid_handle :: u32 where
  "sl_invalid_handle = - 1"

definition slab_list_init :: slab_list where
  "slab_list_init = \<lparr>sl_front = sl_invalid_handle, sl_back = sl_invalid_handle, sl_size = 0\<rparr>"

text \<open>\<open>ext\<close> is the template parameter \<open>extend_size\<close>, \<open>d\<close> a value-initialised entry.\<close>

definition sl_allocate_entry :: "u16 \<Rightarrow> 'a sl_entry slabs \<Rightarrow> (u32 \<times> 'a sl_entry slabs) res" where
  "sl_allocate_entry ext p =
     res_bind (if slabs_full p then res_bind (slab_make ext) (\<lambda>s. Inr (slabs_extend s p)) else Inr p)
       slabs_allocate"

definition sl_free_entry :: "u32 \<Rightarrow> 'a sl_entry slabs \<Rightarrow> 'a sl_entry slabs res" where
  "sl_free_entry h p = res_assert (h \<noteq> sl_invalid_handle) (slabs_free h p)"

definition sl_get :: "'a sl_entry \<Rightarrow> u32 \<Rightarrow> 'a sl_entry slabs \<Rightarrow> 'a sl_entry res" where
  "sl_get d h p = res_assert (h \<noteq> sl_invalid_handle) (slabs_get d h p)"

text \<open>Assigning members through the reference that \<open>get_entry\<close> returns.\<close>

definition sl_modify ::
  "'a sl_entry \<Rightarrow> u32 \<Rightarrow> ('a sl_entry \<Rightarrow> 'a sl_entry) \<Rightarrow> 'a sl_entry slabs \<Rightarrow> 'a sl_entry slabs res" where
  "sl_modify d h f p = res_bind (sl_get d h p) (\<lambda>x. slabs_put d h (f x) p)"

definition sl_insert_before ::
  "u16 \<Rightarrow> 'a sl_entry \<Rightarrow> u32 \<Rightarrow> slab_list \<times> 'a sl_entry slabs \<Rightarrow> (u32 \<times> slab_list \<times> 'a sl_entry slabs) res" where
  "sl_insert_before ext d q lp =
     (let (l, p) = lp in
      res_bind (sl_allocate_entry ext p) (\<lambda>(e, p).
      res_bind (sl_get d e p) (\<lambda>_.
        if sl_front l = sl_invalid_handle then
          res_assert (sl_back l = sl_invalid_handle) (res_assert (q = sl_invalid_handle)
            (res_bind (sl_modify d e (\<lambda>x. x\<lparr>se_prev := sl_invalid_handle, se_next := sl_invalid_handle\<rparr>) p) (\<lambda>p.
              Inr (e, l\<lparr>sl_front := e, sl_back := e, sl_size := sl_size l + 1\<rparr>, p))))
        else
          res_assert (sl_back l \<noteq> sl_invalid_handle) (res_assert (q \<noteq> sl_invalid_handle)
            (res_bind (sl_get d q p) (\<lambda>y.
             res_bind (sl_modify d e (\<lambda>x. x\<lparr>se_prev := se_prev y\<rparr>) p) (\<lambda>p.
             res_bind (sl_modify d q (\<lambda>y. y\<lparr>se_prev := e\<rparr>) p) (\<lambda>p.
             res_bind (sl_modify d e (\<lambda>x. x\<lparr>se_next := q\<rparr>) p) (\<lambda>p.
               Inr (e, l\<lparr>sl_front := (if q = sl_front l then e else sl_front l), sl_size := sl_size l + 1\<rparr>, p))))))))))"

definition sl_insert_after ::
  "u16 \<Rightarrow> 'a sl_entry \<Rightarrow> u32 \<Rightarrow> slab_list \<times> 'a sl_entry slabs \<Rightarrow> (u32 \<times> slab_list \<times> 'a sl_entry slabs) res" where
  "sl_insert_after ext d q lp =
     (let (l, p) = lp in
      res_bind (sl_allocate_entry ext p) (\<lambda>(e, p).
      res_bind (sl_get d e p) (\<lambda>_.
        if sl_front l = sl_invalid_handle then
          res_assert (sl_back l = sl_invalid_handle) (res_assert (q = sl_invalid_handle)
            (res_bind (sl_modify d e (\<lambda>x. x\<lparr>se_prev := sl_invalid_handle, se_next := sl_invalid_handle\<rparr>) p) (\<lambda>p.
              Inr (e, l\<lparr>sl_front := e, sl_back := e, sl_size := sl_size l + 1\<rparr>, p))))
        else
          res_assert (sl_back l \<noteq> sl_invalid_handle) (res_assert (q \<noteq> sl_invalid_handle)
            (res_bind (sl_get d q p) (\<lambda>y.
             res_bind (sl_modify d e (\<lambda>x. x\<lparr>se_next := se_next y\<rparr>) p) (\<lambda>p.
             res_bind (sl_modify d q (\<lambda>y. y\<lparr>se_next := e\<rparr>) p) (\<lambda>p.
             res_bind (sl_modify d e (\<lambda>x. x\<lparr>se_prev := q\<rparr>) p) (\<lambda>p.
               Inr (e, l\<lparr>sl_back := (if q = sl_back l then e else sl_back l), sl_size := sl_size l + 1\<rparr>, p))))))))))"

text \<open>\<open>push_front()\<close> and \<open>push_back()\<close> without an item return the new node for the caller to fill.\<close>

definition sl_push_front_node ::
  "u16 \<Rightarrow> 'a sl_entry \<Rightarrow> slab_list \<times> 'a sl_entry slabs \<Rightarrow> (u32 \<times> slab_list \<times> 'a sl_entry slabs) res" where
  "sl_push_front_node ext d lp = sl_insert_before ext d (sl_front (fst lp)) lp"

definition sl_push_back_node ::
  "u16 \<Rightarrow> 'a sl_entry \<Rightarrow> slab_list \<times> 'a sl_entry slabs \<Rightarrow> (u32 \<times> slab_list \<times> 'a sl_entry slabs) res" where
  "sl_push_back_node ext d lp = sl_insert_after ext d (sl_back (fst lp)) lp"

definition sl_begin :: "slab_list \<Rightarrow> u32" where
  "sl_begin l = sl_front l"

definition sl_push_front ::
  "u16 \<Rightarrow> 'a sl_entry \<Rightarrow> 'a \<Rightarrow> slab_list \<times> 'a sl_entry slabs \<Rightarrow> (u32 \<times> slab_list \<times> 'a sl_entry slabs) res" where
  "sl_push_front ext d v lp =
     res_bind (sl_push_front_node ext d lp) (\<lambda>(e, l, p).
     res_bind (sl_modify d e (\<lambda>x. x\<lparr>se_item := v\<rparr>) p) (\<lambda>p. Inr (e, l, p)))"

definition sl_push_back ::
  "u16 \<Rightarrow> 'a sl_entry \<Rightarrow> 'a \<Rightarrow> slab_list \<times> 'a sl_entry slabs \<Rightarrow> (u32 \<times> slab_list \<times> 'a sl_entry slabs) res" where
  "sl_push_back ext d v lp =
     res_bind (sl_push_back_node ext d lp) (\<lambda>(e, l, p).
     res_bind (sl_modify d e (\<lambda>x. x\<lparr>se_item := v\<rparr>) p) (\<lambda>p. Inr (e, l, p)))"

definition sl_erase ::
  "'a sl_entry \<Rightarrow> u32 \<Rightarrow> slab_list \<times> 'a sl_entry slabs \<Rightarrow> (slab_list \<times> 'a sl_entry slabs) res" where
  "sl_erase d e lp =
     (let (l, p) = lp in
      res_bind (sl_get d e p) (\<lambda>x.
      res_bind (if se_prev x \<noteq> sl_invalid_handle
                then sl_modify d (se_prev x) (\<lambda>y. y\<lparr>se_next := se_next x\<rparr>) p else Inr p) (\<lambda>p.
      res_bind (sl_get d e p) (\<lambda>x.
      res_bind (if se_next x \<noteq> sl_invalid_handle
                then sl_modify d (se_next x) (\<lambda>y. y\<lparr>se_prev := se_prev x\<rparr>) p else Inr p) (\<lambda>p.
      res_bind (sl_get d e p) (\<lambda>x.
      res_bind (sl_free_entry e p) (\<lambda>p.
        Inr (l\<lparr>sl_front := (if sl_front l = e then se_next x else sl_front l),
               sl_back := (if sl_back l = e then se_prev x else sl_back l),
               sl_size := sl_size l - 1\<rparr>, p))))))))"

definition sl_pop_front ::
  "'a sl_entry \<Rightarrow> slab_list \<times> 'a sl_entry slabs \<Rightarrow> (slab_list \<times> 'a sl_entry slabs) res" where
  "sl_pop_front d lp = sl_erase d (sl_front (fst lp)) lp"

definition sl_pop_back ::
  "'a sl_entry \<Rightarrow> slab_list \<times> 'a sl_entry slabs \<Rightarrow> (slab_list \<times> 'a sl_entry slabs) res" where
  "sl_pop_back d lp = sl_erase d (sl_back (fst lp)) lp"

definition sl_next :: "'a sl_entry \<Rightarrow> u32 \<Rightarrow> 'a sl_entry slabs \<Rightarrow> u32 res" where
  "sl_next d e p = res_bind (sl_get d e p) (\<lambda>x. Inr (se_next x))"

definition sl_item :: "'a sl_entry \<Rightarrow> u32 \<Rightarrow> 'a sl_entry slabs \<Rightarrow> 'a res" where
  "sl_item d e p = res_bind (sl_get d e p) (\<lambda>x. Inr (se_item x))"

definition sl_front_item :: "'a sl_entry \<Rightarrow> slab_list \<times> 'a sl_entry slabs \<Rightarrow> 'a res" where
  "sl_front_item d lp = sl_item d (sl_front (fst lp)) (snd lp)"

definition sl_back_item :: "'a sl_entry \<Rightarrow> slab_list \<times> 'a sl_entry slabs \<Rightarrow> 'a res" where
  "sl_back_item d lp = sl_item d (sl_back (fst lp)) (snd lp)"

definition sl_empty :: "slab_list \<Rightarrow> bool" where
  "sl_empty l \<longleftrightarrow> sl_size l = 0"

text \<open>Move assignment: the new value of the target and of the source.\<close>

definition sl_move :: "slab_list \<Rightarrow> slab_list \<times> slab_list" where
  "sl_move other = (\<lparr>sl_front = sl_front other, sl_back = sl_back other, sl_size = sl_size other\<rparr>, slab_list_init)"

text \<open>What a client sees that walks from \<open>begin()\<close> by \<open>next()\<close>: at most \<open>n\<close> steps.\<close>

fun sl_walk :: "'a sl_entry \<Rightarrow> nat \<Rightarrow> u32 \<Rightarrow> 'a sl_entry slabs \<Rightarrow> 'a list res" where
  "sl_walk d 0 e p = (if e = sl_invalid_handle then Inr [] else Inl Out_Of_Fuel)"
| "sl_walk d (Suc n) e p =
     (if e = sl_invalid_handle then Inr []
      else res_bind (sl_item d e p) (\<lambda>x. res_bind (sl_next d e p) (\<lambda>e'.
             res_bind (sl_walk d n e' p) (\<lambda>xs. Inr (x # xs)))))"

section \<open>What a list holds\<close>

text \<open>\<open>seg C a hs b\<close>: the objects at \<open>hs\<close> are linked in order, from a predecessor \<open>a\<close> to a successor \<open>b\<close>.\<close>

fun seg :: "(u32 \<rightharpoonup> 'a sl_entry) \<Rightarrow> u32 \<Rightarrow> u32 list \<Rightarrow> u32 \<Rightarrow> bool" where
  "seg C a [] b = True"
| "seg C a (h # hs) b =
     ((\<exists>v. C h = Some \<lparr>se_prev = a, se_next = hd (hs @ [b]), se_item = v\<rparr>) \<and> seg C h hs b)"

definition sl_rep :: "(u32 \<rightharpoonup> 'a sl_entry) \<Rightarrow> slab_list \<Rightarrow> u32 list \<Rightarrow> bool" where
  "sl_rep C l hs \<longleftrightarrow> distinct hs \<and> sl_invalid_handle \<notin> set hs \<and> seg C sl_invalid_handle hs sl_invalid_handle
     \<and> sl_front l = hd (hs @ [sl_invalid_handle]) \<and> sl_back l = last (sl_invalid_handle # hs)
     \<and> sl_size l = of_nat (length hs)"

definition sl_items :: "(u32 \<rightharpoonup> 'a sl_entry) \<Rightarrow> u32 list \<Rightarrow> 'a list" where
  "sl_items C hs = map (\<lambda>h. se_item (the (C h))) hs"

lemma seg_append:
  "seg C a (xs @ ys) b \<longleftrightarrow> seg C a xs (hd (ys @ [b])) \<and> seg C (last (a # xs)) ys b"
  by (induction xs arbitrary: a) (auto simp: hd_append)

lemma seg_frame: "(\<forall>h \<in> set hs. C' h = C h) \<Longrightarrow> seg C' a hs b = seg C a hs b"
  by (induction hs arbitrary: a) auto

lemma seg_upd: "h \<notin> set hs \<Longrightarrow> seg (C(h := v)) a hs b = seg C a hs b"
  by (rule seg_frame) auto

lemma seg_live: "seg C a hs b \<Longrightarrow> set hs \<subseteq> dom C"
  by (induction hs arbitrary: a) auto

lemma sl_items_frame: "(\<forall>h \<in> set hs. C' h = C h) \<Longrightarrow> sl_items C' hs = sl_items C hs"
  by (simp add: sl_items_def)

lemma sl_rep_frame: "(\<forall>h \<in> set hs. C' h = C h) \<Longrightarrow> sl_rep C' l hs = sl_rep C l hs"
  unfolding sl_rep_def by (simp only: seg_frame)

lemma sl_rep_init: "sl_rep C slab_list_init []"
  by (simp add: sl_rep_def slab_list_init_def)

lemma sl_rep_length: "sl_rep C l hs \<Longrightarrow> length hs < 2 ^ 32"
proof -
  assume "sl_rep C l hs"
  then have "distinct hs" "set hs \<subset> (UNIV :: u32 set)" by (auto simp: sl_rep_def)
  then have "length hs < card (UNIV :: u32 set)"
    by (metis distinct_card finite_code psubset_card_mono)
  then show ?thesis by (simp add: card_word)
qed

lemma sl_empty_iff: "sl_rep C l hs \<Longrightarrow> sl_empty l \<longleftrightarrow> hs = []"
  using sl_rep_length [of C l hs]
  by (simp add: sl_empty_def sl_rep_def) (simp add: word_unat_eq_iff unat_of_nat take_bit_eq_mod)

lemma entry_links [simp]:
  "\<exists>v. x\<lparr>se_prev := a, se_next := b\<rparr> = \<lparr>se_prev = a, se_next = b, se_item = v\<rparr>"
  "\<exists>v. x\<lparr>se_next := b, se_prev := a\<rparr> = \<lparr>se_prev = a, se_next = b, se_item = v\<rparr>"
  by (cases x; simp)+

lemma end_ne_invalid:
  assumes "z \<notin> set xs"
  shows "last (z # xs) \<noteq> z \<longleftrightarrow> xs \<noteq> []" and "hd (xs @ [z]) \<noteq> z \<longleftrightarrow> xs \<noteq> []"
  using assms last_in_set [of xs] hd_in_set [of xs] by (cases "xs = []"; force simp: hd_append)+

lemma sl_rep_ends:
  "sl_rep C l hs \<Longrightarrow> hs \<noteq> [] \<Longrightarrow> sl_front l \<noteq> sl_invalid_handle \<and> sl_back l \<noteq> sl_invalid_handle"
  using hd_in_set last_in_set by (fastforce simp: sl_rep_def hd_append)

section \<open>One step on the pool\<close>

lemma sl_get_rep:
  "slabs_rep d p C \<Longrightarrow> C h = Some x \<Longrightarrow> h \<noteq> sl_invalid_handle \<Longrightarrow> sl_get d h p = Inr x"
  by (simp add: sl_get_def slabs_get_rep)

lemma sl_modify_rep:
  assumes "slabs_rep d p C" "C h = Some x" "h \<noteq> sl_invalid_handle"
  obtains p' where "sl_modify d h f p = Inr p'" "slabs_rep d p' (C(h \<mapsto> f x))"
proof -
  have "C h \<noteq> None" using assms(2) by simp
  from assms(1) this obtain p' where "slabs_put d h (f x) p = Inr p'" "slabs_rep d p' (C(h \<mapsto> f x))"
    "slabs_full p' = slabs_full p" "length (ss_slabs p') = length (ss_slabs p)"
    by (rule slabs_put_rep)
  then show thesis using that sl_get_rep [OF assms] by (simp add: sl_modify_def)
qed

definition sl_room :: "'a sl_entry slabs \<Rightarrow> bool" where
  "sl_room p \<longleftrightarrow> (slabs_full p \<longrightarrow> length (ss_slabs p) < 65536)"

lemma sl_allocate_rep:
  assumes rep: "slabs_rep d p C" and room: "sl_room p" and ext: "0 < ext" "ext \<le> 32768"
  obtains e p' x where "sl_allocate_entry ext p = Inr (e, p')" "C e = None" "e \<noteq> sl_invalid_handle"
    "slabs_rep d p' (C(e \<mapsto> x))"
proof (cases "slabs_full p")
  case False
  with rep obtain e p' x where "slabs_allocate p = Inr (e, p')" "C e = None" "e \<noteq> - 1"
      "slabs_rep d p' (C(e \<mapsto> x))" "length (ss_slabs p') = length (ss_slabs p)"
    by (rule slabs_allocate_rep)
  then show thesis using that False by (simp add: sl_allocate_entry_def sl_invalid_handle_def)
next
  case True
  obtain s :: "'a sl_entry slab" where s: "slab_make ext = Inr s" "slab_inv s [0..<unat ext]"
    by (rule slab_make_inv [OF ext])
  have si: "slab_inv s [0..<unat (sb_capacity s)]" by (rule slab_make_fresh [OF s(1)])
  have l: "length (ss_slabs p) < 65536" using room True by (simp add: sl_room_def)
  note e = slabs_extend_rep [OF rep l si]
  from e(1,2) obtain h p' x where "slabs_allocate (slabs_extend s p) = Inr (h, p')" "C h = None" "h \<noteq> - 1"
      "slabs_rep d p' (C(h \<mapsto> x))" "length (ss_slabs p') = length (ss_slabs (slabs_extend s p))"
    by (rule slabs_allocate_rep)
  then show thesis using that True s(1) by (simp add: sl_allocate_entry_def sl_invalid_handle_def)
qed

section \<open>Adding at the ends\<close>

lemma sl_insert_after_back:
  assumes rep: "slabs_rep d p C" and l: "sl_rep C l hs"
    and room: "sl_room p" and ext: "0 < ext" "ext \<le> 32768"
  obtains e l' p' C' where "sl_insert_after ext d (sl_back l) (l, p) = Inr (e, l', p')" "slabs_rep d p' C'"
    "sl_rep C' l' (hs @ [e])" "C e = None" "e \<noteq> sl_invalid_handle" "dom C' = insert e (dom C)"
    "\<forall>h. h \<noteq> e \<longrightarrow> h \<notin> set hs \<longrightarrow> C' h = C h" "sl_items C' hs = sl_items C hs"
proof -
  from rep room ext obtain e p1 x where a: "sl_allocate_entry ext p = Inr (e, p1)" "C e = None"
      "e \<noteq> sl_invalid_handle" "slabs_rep d p1 (C(e \<mapsto> x))"
    by (rule sl_allocate_rep)
  have g: "sl_get d e p1 = Inr x" by (rule sl_get_rep [OF a(4) _ a(3)]) simp
  have eh: "e \<notin> set hs" using a(2) l seg_live by (force simp: sl_rep_def)
  show thesis
  proof (cases hs rule: rev_cases)
    case Nil
    from a(4) obtain p2 where p2: "sl_modify d e (\<lambda>x. x\<lparr>se_prev := sl_invalid_handle, se_next := sl_invalid_handle\<rparr>) p1
        = Inr p2" "slabs_rep d p2 (C(e \<mapsto> x, e \<mapsto> x\<lparr>se_prev := sl_invalid_handle, se_next := sl_invalid_handle\<rparr>))"
      by (rule sl_modify_rep [OF _ _ a(3)]) simp
    show thesis
      by (rule that [of e _ p2, OF _ p2(2)])
        (use Nil l a g p2(1) in \<open>auto simp: sl_insert_after_def sl_rep_def sl_items_def intro: exI [of _ "se_item x"]\<close>)
  next
    case (snoc hs0 b)
    have b: "sl_back l = b" "b \<noteq> sl_invalid_handle" "sl_front l \<noteq> sl_invalid_handle" "b \<notin> set hs0"
      using l snoc sl_rep_ends [OF l] by (auto simp: sl_rep_def)
    have sg: "seg C sl_invalid_handle hs0 b" "seg C (last (sl_invalid_handle # hs0)) [b] sl_invalid_handle"
      using l snoc by (auto simp: sl_rep_def seg_append)
    then obtain v where v: "C b = Some \<lparr>se_prev = last (sl_invalid_handle # hs0), se_next = sl_invalid_handle, se_item = v\<rparr>"
      by auto
    define y where "y = \<lparr>se_prev = last (sl_invalid_handle # hs0), se_next = sl_invalid_handle, se_item = v\<rparr>"
    have be: "b \<noteq> e" using eh snoc by auto
    let ?C1 = "C(e \<mapsto> x)" and ?x2 = "x\<lparr>se_next := sl_invalid_handle\<rparr>"
    have gb: "sl_get d b p1 = Inr y" by (rule sl_get_rep [OF a(4) _ b(2)]) (use be v in \<open>simp add: y_def\<close>)
    from a(4) obtain p2 where p2: "sl_modify d e (\<lambda>x. x\<lparr>se_next := se_next y\<rparr>) p1 = Inr p2"
        "slabs_rep d p2 (?C1(e \<mapsto> x\<lparr>se_next := se_next y\<rparr>))"
      by (rule sl_modify_rep [OF _ _ a(3)]) simp
    from p2(2) obtain p3 where p3: "sl_modify d b (\<lambda>y. y\<lparr>se_next := e\<rparr>) p2 = Inr p3"
        "slabs_rep d p3 (?C1(e \<mapsto> x\<lparr>se_next := se_next y\<rparr>, b \<mapsto> y\<lparr>se_next := e\<rparr>))"
      by (rule sl_modify_rep [OF _ _ b(2), where x = y]) (use be v in \<open>simp add: y_def\<close>)
    from p3(2) obtain p4 where p4: "sl_modify d e (\<lambda>x. x\<lparr>se_prev := b\<rparr>) p3 = Inr p4"
        "slabs_rep d p4 (?C1(e \<mapsto> x\<lparr>se_next := se_next y\<rparr>, b \<mapsto> y\<lparr>se_next := e\<rparr>,
          e \<mapsto> x\<lparr>se_next := se_next y, se_prev := b\<rparr>))"
      by (rule sl_modify_rep [OF _ _ a(3)]) (use be in simp)
    let ?C' = "?C1(e \<mapsto> x\<lparr>se_next := se_next y\<rparr>, b \<mapsto> y\<lparr>se_next := e\<rparr>, e \<mapsto> x\<lparr>se_next := se_next y, se_prev := b\<rparr>)"
    have "seg ?C' sl_invalid_handle (hs0 @ [b, e]) sl_invalid_handle"
      using sg(1) b be eh snoc by (simp add: seg_append seg_upd) (simp add: y_def)
    then have r: "sl_rep ?C' (l\<lparr>sl_back := e, sl_size := sl_size l + 1\<rparr>) (hs @ [e])"
      using l snoc eh a(3) by (auto simp: sl_rep_def hd_append)
    show thesis
    proof (rule that [OF _ p4(2) r a(2,3)])
      show "sl_insert_after ext d (sl_back l) (l, p) = Inr (e, l\<lparr>sl_back := e, sl_size := sl_size l + 1\<rparr>, p4)"
        using a(1) g gb b p2(1) p3(1) p4(1) l snoc by (simp add: sl_insert_after_def sl_rep_def)
      show "dom ?C' = insert e (dom C)" using v by auto
      show "\<forall>h. h \<noteq> e \<longrightarrow> h \<notin> set hs \<longrightarrow> ?C' h = C h" using snoc by auto
      show "sl_items ?C' hs = sl_items C hs" using eh v by (auto simp: sl_items_def y_def)
    qed
  qed
qed

lemma sl_insert_before_front:
  assumes rep: "slabs_rep d p C" and l: "sl_rep C l hs"
    and room: "sl_room p" and ext: "0 < ext" "ext \<le> 32768"
  obtains e l' p' C' where "sl_insert_before ext d (sl_front l) (l, p) = Inr (e, l', p')" "slabs_rep d p' C'"
    "sl_rep C' l' (e # hs)" "C e = None" "e \<noteq> sl_invalid_handle" "dom C' = insert e (dom C)"
    "\<forall>h. h \<noteq> e \<longrightarrow> h \<notin> set hs \<longrightarrow> C' h = C h" "sl_items C' hs = sl_items C hs"
proof -
  from rep room ext obtain e p1 x where a: "sl_allocate_entry ext p = Inr (e, p1)" "C e = None"
      "e \<noteq> sl_invalid_handle" "slabs_rep d p1 (C(e \<mapsto> x))"
    by (rule sl_allocate_rep)
  have g: "sl_get d e p1 = Inr x" by (rule sl_get_rep [OF a(4) _ a(3)]) simp
  have eh: "e \<notin> set hs" using a(2) l seg_live by (force simp: sl_rep_def)
  show thesis
  proof (cases hs)
    case Nil
    from a(4) obtain p2 where p2: "sl_modify d e (\<lambda>x. x\<lparr>se_prev := sl_invalid_handle, se_next := sl_invalid_handle\<rparr>) p1
        = Inr p2" "slabs_rep d p2 (C(e \<mapsto> x, e \<mapsto> x\<lparr>se_prev := sl_invalid_handle, se_next := sl_invalid_handle\<rparr>))"
      by (rule sl_modify_rep [OF _ _ a(3)]) simp
    show thesis
      by (rule that [of e _ p2, OF _ p2(2)])
        (use Nil l a g p2(1) in \<open>auto simp: sl_insert_before_def sl_rep_def sl_items_def intro: exI [of _ "se_item x"]\<close>)
  next
    case (Cons b hs0)
    have b: "sl_front l = b" "b \<noteq> sl_invalid_handle" "sl_back l \<noteq> sl_invalid_handle" "b \<notin> set hs0"
      using l Cons sl_rep_ends [OF l] by (auto simp: sl_rep_def)
    obtain v where v: "C b = Some \<lparr>se_prev = sl_invalid_handle, se_next = hd (hs0 @ [sl_invalid_handle]), se_item = v\<rparr>"
      and sg: "seg C b hs0 sl_invalid_handle"
      using l Cons by (auto simp: sl_rep_def)
    define y where "y = \<lparr>se_prev = sl_invalid_handle, se_next = hd (hs0 @ [sl_invalid_handle]), se_item = v\<rparr>"
    have be: "b \<noteq> e" using eh Cons by auto
    let ?C1 = "C(e \<mapsto> x)"
    have gb: "sl_get d b p1 = Inr y" by (rule sl_get_rep [OF a(4) _ b(2)]) (use be v in \<open>simp add: y_def\<close>)
    from a(4) obtain p2 where p2: "sl_modify d e (\<lambda>x. x\<lparr>se_prev := se_prev y\<rparr>) p1 = Inr p2"
        "slabs_rep d p2 (?C1(e \<mapsto> x\<lparr>se_prev := se_prev y\<rparr>))"
      by (rule sl_modify_rep [OF _ _ a(3)]) simp
    from p2(2) obtain p3 where p3: "sl_modify d b (\<lambda>y. y\<lparr>se_prev := e\<rparr>) p2 = Inr p3"
        "slabs_rep d p3 (?C1(e \<mapsto> x\<lparr>se_prev := se_prev y\<rparr>, b \<mapsto> y\<lparr>se_prev := e\<rparr>))"
      by (rule sl_modify_rep [OF _ _ b(2), where x = y]) (use be v in \<open>simp add: y_def\<close>)
    from p3(2) obtain p4 where p4: "sl_modify d e (\<lambda>x. x\<lparr>se_next := b\<rparr>) p3 = Inr p4"
        "slabs_rep d p4 (?C1(e \<mapsto> x\<lparr>se_prev := se_prev y\<rparr>, b \<mapsto> y\<lparr>se_prev := e\<rparr>,
          e \<mapsto> x\<lparr>se_prev := se_prev y, se_next := b\<rparr>))"
      by (rule sl_modify_rep [OF _ _ a(3)]) (use be in simp)
    let ?C' = "?C1(e \<mapsto> x\<lparr>se_prev := se_prev y\<rparr>, b \<mapsto> y\<lparr>se_prev := e\<rparr>, e \<mapsto> x\<lparr>se_prev := se_prev y, se_next := b\<rparr>)"
    have "seg ?C' sl_invalid_handle (e # b # hs0) sl_invalid_handle"
      using sg b be eh Cons by (simp add: seg_upd y_def)
    then have r: "sl_rep ?C' (l\<lparr>sl_front := e, sl_size := sl_size l + 1\<rparr>) (e # hs)"
      using l Cons eh a(3) by (auto simp: sl_rep_def)
    show thesis
    proof (rule that [OF _ p4(2) r a(2,3)])
      show "sl_insert_before ext d (sl_front l) (l, p) = Inr (e, l\<lparr>sl_front := e, sl_size := sl_size l + 1\<rparr>, p4)"
        using a(1) g gb b p2(1) p3(1) p4(1) l Cons by (simp add: sl_insert_before_def sl_rep_def)
      show "dom ?C' = insert e (dom C)" using v by auto
      show "\<forall>h. h \<noteq> e \<longrightarrow> h \<notin> set hs \<longrightarrow> ?C' h = C h" using Cons by auto
      show "sl_items ?C' hs = sl_items C hs" using eh v by (auto simp: sl_items_def y_def)
    qed
  qed
qed

text \<open>Writing the item of a node leaves every list as it is.\<close>

lemma seg_item:
  assumes "C h = Some x"
  shows "seg (C(h \<mapsto> x\<lparr>se_item := v\<rparr>)) a hs b = seg C a hs b"
proof (induction hs arbitrary: a)
  case (Cons k hs)
  have "(\<exists>w. Some (x\<lparr>se_item := v\<rparr>) = Some \<lparr>se_prev = a, se_next = n, se_item = w\<rparr>)
      = (\<exists>w. Some x = Some \<lparr>se_prev = a, se_next = n, se_item = w\<rparr>)" for n
    by (cases x) auto
  then show ?case using Cons assms by auto
qed simp

lemma sl_rep_item: "C h = Some x \<Longrightarrow> sl_rep (C(h \<mapsto> x\<lparr>se_item := v\<rparr>)) l hs = sl_rep C l hs"
  unfolding sl_rep_def by (simp only: seg_item)

lemma sl_push_back_rep:
  assumes rep: "slabs_rep d p C" and l: "sl_rep C l hs"
    and room: "sl_room p" and ext: "0 < ext" "ext \<le> 32768"
  obtains e l' p' C' where "sl_push_back ext d v (l, p) = Inr (e, l', p')" "slabs_rep d p' C'"
    "sl_rep C' l' (hs @ [e])" "C e = None" "dom C' = insert e (dom C)"
    "\<forall>h. h \<noteq> e \<longrightarrow> h \<notin> set hs \<longrightarrow> C' h = C h" "sl_items C' (hs @ [e]) = sl_items C hs @ [v]"
proof -
  from rep l room ext obtain e l' p1 C1 where a: "sl_insert_after ext d (sl_back l) (l, p) = Inr (e, l', p1)"
      "slabs_rep d p1 C1" "sl_rep C1 l' (hs @ [e])" "C e = None" "e \<noteq> sl_invalid_handle" "dom C1 = insert e (dom C)"
      "\<forall>h. h \<noteq> e \<longrightarrow> h \<notin> set hs \<longrightarrow> C1 h = C h" "sl_items C1 hs = sl_items C hs"
    by (rule sl_insert_after_back)
  obtain x where x: "C1 e = Some x" using a(6) by auto
  obtain p2 where p2: "sl_modify d e (\<lambda>x. x\<lparr>se_item := v\<rparr>) p1 = Inr p2"
      "slabs_rep d p2 (C1(e \<mapsto> x\<lparr>se_item := v\<rparr>))"
    by (rule sl_modify_rep [OF a(2) x a(5)])
  have eh: "e \<notin> set hs" using a(3) by (simp add: sl_rep_def)
  show thesis
  proof (rule that [OF _ p2(2) _ a(4)])
    show "sl_push_back ext d v (l, p) = Inr (e, l', p2)" using a(1) p2(1) by (simp add: sl_push_back_def sl_push_back_node_def)
    show "sl_rep (C1(e \<mapsto> x\<lparr>se_item := v\<rparr>)) l' (hs @ [e])" using a(3) x by (simp add: sl_rep_item)
    show "sl_items (C1(e \<mapsto> x\<lparr>se_item := v\<rparr>)) (hs @ [e]) = sl_items C hs @ [v]"
      using a(8) eh by (auto simp: sl_items_def)
  qed (use a in auto)
qed

lemma sl_push_front_rep:
  assumes rep: "slabs_rep d p C" and l: "sl_rep C l hs"
    and room: "sl_room p" and ext: "0 < ext" "ext \<le> 32768"
  obtains e l' p' C' where "sl_push_front ext d v (l, p) = Inr (e, l', p')" "slabs_rep d p' C'"
    "sl_rep C' l' (e # hs)" "C e = None" "dom C' = insert e (dom C)"
    "\<forall>h. h \<noteq> e \<longrightarrow> h \<notin> set hs \<longrightarrow> C' h = C h" "sl_items C' (e # hs) = v # sl_items C hs"
proof -
  from rep l room ext obtain e l' p1 C1 where a: "sl_insert_before ext d (sl_front l) (l, p) = Inr (e, l', p1)"
      "slabs_rep d p1 C1" "sl_rep C1 l' (e # hs)" "C e = None" "e \<noteq> sl_invalid_handle" "dom C1 = insert e (dom C)"
      "\<forall>h. h \<noteq> e \<longrightarrow> h \<notin> set hs \<longrightarrow> C1 h = C h" "sl_items C1 hs = sl_items C hs"
    by (rule sl_insert_before_front)
  obtain x where x: "C1 e = Some x" using a(6) by auto
  obtain p2 where p2: "sl_modify d e (\<lambda>x. x\<lparr>se_item := v\<rparr>) p1 = Inr p2"
      "slabs_rep d p2 (C1(e \<mapsto> x\<lparr>se_item := v\<rparr>))"
    by (rule sl_modify_rep [OF a(2) x a(5)])
  have eh: "e \<notin> set hs" using a(3) by (simp add: sl_rep_def)
  show thesis
  proof (rule that [OF _ p2(2) _ a(4)])
    show "sl_push_front ext d v (l, p) = Inr (e, l', p2)" using a(1) p2(1) by (simp add: sl_push_front_def sl_push_front_node_def)
    show "sl_rep (C1(e \<mapsto> x\<lparr>se_item := v\<rparr>)) l' (e # hs)" using a(3) x by (simp add: sl_rep_item)
    show "sl_items (C1(e \<mapsto> x\<lparr>se_item := v\<rparr>)) (e # hs) = v # sl_items C hs"
      using a(8) eh by (auto simp: sl_items_def)
  qed (use a in auto)
qed

section \<open>Erasing\<close>

lemma seg_retarget_last:
  assumes "seg C a xs b" "xs \<noteq> []" "distinct xs"
  shows "seg (C(last xs \<mapsto> (the (C (last xs)))\<lparr>se_next := n\<rparr>)) a xs n"
proof -
  obtain ys h where xs: "xs = ys @ [h]" using assms(2) by (cases xs rule: rev_cases) auto
  have "h \<notin> set ys" using assms(3) xs by simp
  then show ?thesis using assms(1) unfolding xs by (auto simp: seg_append seg_upd)
qed

lemma seg_retarget_first:
  assumes "seg C a xs b" "xs \<noteq> []" "distinct xs"
  shows "seg (C(hd xs \<mapsto> (the (C (hd xs)))\<lparr>se_prev := m\<rparr>)) m xs b"
  using assms by (cases xs) (auto simp: seg_upd)

lemma sl_erase_rep:
  assumes rep: "slabs_rep d p C" and l: "sl_rep C l (xs @ h # ys)"
  obtains l' p' C' where "sl_erase d h (l, p) = Inr (l', p')" "slabs_rep d p' C'" "sl_rep C' l' (xs @ ys)"
    "dom C' = dom C - {h}" "\<forall>k. k \<notin> set (xs @ h # ys) \<longrightarrow> C' k = C k"
    "sl_items C' (xs @ ys) = sl_items C (xs @ ys)" "\<not> slabs_full p'"
proof -
  let ?i = sl_invalid_handle
  let ?a = "last (?i # xs)" and ?b = "hd (ys @ [?i])"
  have d: "distinct (xs @ h # ys)" "?i \<notin> set (xs @ h # ys)" using l by (simp_all add: sl_rep_def)
  have sg: "seg C ?i xs h" "seg C h ys ?i" and "seg C ?a [h] ?b"
    using l by (auto simp: sl_rep_def seg_append)
  then obtain v where v: "C h = Some \<lparr>se_prev = ?a, se_next = ?b, se_item = v\<rparr>" by auto
  define x where "x = \<lparr>se_prev = ?a, se_next = ?b, se_item = v\<rparr>"
  have h: "h \<noteq> ?i" "C h = Some x" using d v by (auto simp: x_def)
  have live: "set xs \<subseteq> dom C" "set ys \<subseteq> dom C" using seg_live sg by blast+
  have ai: "?a \<noteq> ?i \<longleftrightarrow> xs \<noteq> []" and bi: "?b \<noteq> ?i \<longleftrightarrow> ys \<noteq> []"
    by (intro end_ne_invalid; use d in simp)+
  define C1 where "C1 = (if xs = [] then C else C(last xs \<mapsto> (the (C (last xs)))\<lparr>se_next := ?b\<rparr>))"
  define C2 where "C2 = (if ys = [] then C1 else C1(hd ys \<mapsto> (the (C1 (hd ys)))\<lparr>se_prev := ?a\<rparr>))"
  have "\<exists>p1. (if ?a \<noteq> ?i then sl_modify d ?a (\<lambda>y. y\<lparr>se_next := ?b\<rparr>) p else Inr p) = Inr p1 \<and> slabs_rep d p1 C1"
  proof (cases "xs = []")
    case False
    then have ls: "?a = last xs" "last xs \<in> set xs" by simp_all
    then obtain y where y: "C (last xs) = Some y" using live by blast
    obtain p1 where "sl_modify d (last xs) (\<lambda>y. y\<lparr>se_next := ?b\<rparr>) p = Inr p1"
        "slabs_rep d p1 (C(last xs \<mapsto> y\<lparr>se_next := ?b\<rparr>))"
      by (rule sl_modify_rep [OF rep y]) (use ai False in simp)
    then show ?thesis using False ai y by (simp add: C1_def ls(1))
  qed (use rep in \<open>simp add: C1_def\<close>)
  then obtain p1 where p1: "(if ?a \<noteq> ?i then sl_modify d ?a (\<lambda>y. y\<lparr>se_next := ?b\<rparr>) p else Inr p) = Inr p1"
      "slabs_rep d p1 C1" by blast
  have h1: "C1 h = Some x" using h(2) d(1) by (auto simp: C1_def)
  have "\<exists>p2. (if ?b \<noteq> ?i then sl_modify d ?b (\<lambda>y. y\<lparr>se_prev := ?a\<rparr>) p1 else Inr p1) = Inr p2 \<and> slabs_rep d p2 C2"
  proof (cases "ys = []")
    case False
    then have ls: "?b = hd ys" "hd ys \<in> set ys" by simp_all
    have "hd ys \<notin> set xs" using ls(2) d(1) by auto
    then have "C1 (hd ys) = C (hd ys)" using last_in_set [of xs] by (cases "xs = []") (auto simp: C1_def)
    then obtain y where y: "C1 (hd ys) = Some y" using live ls by (metis domD subsetD)
    obtain p2 where "sl_modify d (hd ys) (\<lambda>y. y\<lparr>se_prev := ?a\<rparr>) p1 = Inr p2"
        "slabs_rep d p2 (C1(hd ys \<mapsto> y\<lparr>se_prev := ?a\<rparr>))"
      by (rule sl_modify_rep [OF p1(2) y]) (use bi False in simp)
    then show ?thesis using False bi y by (simp add: C2_def ls(1))
  qed (use p1 in \<open>simp add: C2_def\<close>)
  then obtain p2 where p2: "(if ?b \<noteq> ?i then sl_modify d ?b (\<lambda>y. y\<lparr>se_prev := ?a\<rparr>) p1 else Inr p1) = Inr p2"
      "slabs_rep d p2 C2" by blast
  have h2: "C2 h = Some x" using h1 d(1) by (auto simp: C2_def)
  obtain p3 where p3: "slabs_free h p2 = Inr p3" "slabs_rep d p3 (C2(h := None))" "\<not> slabs_full p3"
    by (rule slabs_free_rep [OF p2(2), of h]) (use h2 in simp)
  define l' where "l' = l\<lparr>sl_front := (if sl_front l = h then ?b else sl_front l),
      sl_back := (if sl_back l = h then ?a else sl_back l), sl_size := sl_size l - 1\<rparr>"
  have sx: "se_prev x = ?a" "se_next x = ?b" by (simp_all add: x_def)
  have er: "sl_erase d h (l, p) = Inr (l', p3)"
    using sl_get_rep [OF rep h(2,1)] sl_get_rep [OF p1(2) h1 h(1)] sl_get_rep [OF p2(2) h2 h(1)]
      p1(1) p2(1) p3(1) h(1)
    by (simp only: sl_erase_def Let_def prod.case sx res_bind_Inr sl_free_entry_def res_assert_True l'_def
        simp_thms if_True if_False)
  have hx: "last xs \<notin> set ys" "hd ys \<notin> set xs" if "xs \<noteq> []" "ys \<noteq> []"
    using d(1) that last_in_set hd_in_set by (metis Int_iff distinct_append emptyE list.set_intros(2))+
  have s1: "seg C2 ?i xs ?b"
  proof -
    have "seg C1 ?i xs ?b" using seg_retarget_last [OF sg(1)] d(1) by (simp add: C1_def)
    then show ?thesis using hx by (cases "xs = []") (auto simp: C2_def seg_upd)
  qed
  have s2: "seg C2 ?a ys ?i"
  proof -
    have "seg C1 h ys ?i" using sg(2) hx by (cases "ys = []") (auto simp: C1_def seg_upd)
    moreover have "distinct ys" using d(1) by simp
    ultimately show ?thesis using seg_retarget_first [of C1 h ys ?i ?a]
      by (cases "ys = []") (simp_all only: C2_def if_True if_False simp_thms seg.simps)
  qed
  have "seg (C2(h := None)) ?i (xs @ ys) ?i" using s1 s2 d(1) by (simp add: seg_append seg_upd)
  moreover have "sl_front l' = hd ((xs @ ys) @ [?i])" "sl_back l' = last (?i # xs @ ys)"
    using l d by (auto simp: l'_def sl_rep_def hd_append)
  moreover have "sl_size l' = of_nat (length (xs @ ys))" using l by (simp add: l'_def sl_rep_def)
  ultimately have r: "sl_rep (C2(h := None)) l' (xs @ ys)" using d by (simp add: sl_rep_def)
  have dm: "dom (C2(h := None)) = dom C - {h}"
  proof -
    have "dom C1 = dom C"
      using live(1) last_in_set [of xs] by (cases "xs = []") (simp_all add: C1_def insert_absorb subsetD)
    moreover have "dom C2 = dom C1"
      using live(2) hd_in_set [of ys] calculation by (cases "ys = []") (simp_all add: C2_def insert_absorb subsetD)
    ultimately show ?thesis by simp
  qed
  have fr: "(C2(h := None)) k = C k" if k: "k \<notin> set (xs @ h # ys)" for k
  proof -
    have "xs \<noteq> [] \<Longrightarrow> k \<noteq> last xs" "ys \<noteq> [] \<Longrightarrow> k \<noteq> hd ys" using k by fastforce+
    then show ?thesis using k by (simp add: C1_def C2_def)
  qed
  have it: "sl_items (C2(h := None)) (xs @ ys) = sl_items C (xs @ ys)"
  proof -
    have "se_item (the (C1 k)) = se_item (the (C k))" for k by (simp add: C1_def)
    moreover have "se_item (the (C2 k)) = se_item (the (C1 k))" for k by (simp add: C2_def)
    moreover have "(C2(h := None)) k = C2 k" if "k \<in> set (xs @ ys)" for k
      using that d(1) by (simp only: fun_upd_apply) (metis Un_iff disjoint_iff distinct.simps(2)
          distinct_append list.set_intros(1) set_append)
    ultimately have "se_item (the ((C2(h := None)) k)) = se_item (the (C k))" if "k \<in> set (xs @ ys)" for k
      using that by metis
    then show ?thesis unfolding sl_items_def by (rule map_cong [OF refl])
  qed
  show thesis
    by (rule that [OF er p3(2) r dm _ it p3(3)]) (use fr in blast)
qed

section \<open>Reading a list\<close>

lemma sl_walk_rep:
  assumes "slabs_rep d p C" "seg C a hs sl_invalid_handle" "sl_invalid_handle \<notin> set hs" "length hs \<le> n"
  shows "sl_walk d n (hd (hs @ [sl_invalid_handle])) p = Inr (sl_items C hs)"
  using assms(2-)
proof (induction hs arbitrary: a n)
  case Nil
  then show ?case by (cases n) (simp_all add: sl_items_def)
next
  case (Cons h hs)
  then obtain m where m: "n = Suc m" "length hs \<le> m" by (cases n) auto
  obtain v where v: "C h = Some \<lparr>se_prev = a, se_next = hd (hs @ [sl_invalid_handle]), se_item = v\<rparr>"
    and sg: "seg C h hs sl_invalid_handle" using Cons.prems(1) by auto
  have h: "h \<noteq> sl_invalid_handle" using Cons.prems(2) by auto
  have "sl_walk d m (hd (hs @ [sl_invalid_handle])) p = Inr (sl_items C hs)"
    using Cons.IH [OF sg] Cons.prems(2) m(2) by simp
  then show ?case
    using sl_get_rep [OF assms(1) v h] h m(1) v by (simp add: sl_item_def sl_next_def sl_items_def)
qed

lemma sl_front_item_rep:
  assumes "slabs_rep d p C" "sl_rep C l (h # hs)"
  shows "sl_front_item d (l, p) = Inr (hd (sl_items C (h # hs)))"
  using assms sl_get_rep [OF assms(1), of h]
  by (auto simp: sl_rep_def sl_front_item_def sl_item_def sl_items_def)

section \<open>A list that owns its pool is a queue\<close>

definition owned_list_inv :: "'a sl_entry \<Rightarrow> slab_list \<times> 'a sl_entry slabs \<Rightarrow> bool" where
  "owned_list_inv d lp \<longleftrightarrow> (\<exists>C hs. slabs_rep d (snd lp) C \<and> sl_rep C (fst lp) hs \<and> dom C = set hs)"

definition owned_list_contents :: "'a sl_entry \<Rightarrow> slab_list \<times> 'a sl_entry slabs \<Rightarrow> 'a list" where
  "owned_list_contents d lp =
     (case sl_walk d (unat (sl_size (fst lp))) (sl_front (fst lp)) (snd lp) of Inr xs \<Rightarrow> xs | Inl _ \<Rightarrow> [])"

text \<open>The client's push, and its read of \<open>front_item()\<close> followed by \<open>pop_front()\<close>.\<close>

definition sl_enqueue ::
  "u16 \<Rightarrow> 'a sl_entry \<Rightarrow> 'a \<Rightarrow> slab_list \<times> 'a sl_entry slabs \<Rightarrow> (slab_list \<times> 'a sl_entry slabs) res" where
  "sl_enqueue ext d v lp = res_bind (sl_push_back ext d v lp) (\<lambda>(e, lp'). Inr lp')"

definition sl_dequeue ::
  "'a sl_entry \<Rightarrow> slab_list \<times> 'a sl_entry slabs \<Rightarrow> ('a \<times> slab_list \<times> 'a sl_entry slabs) res" where
  "sl_dequeue d lp = res_bind (sl_front_item d lp) (\<lambda>v. res_bind (sl_pop_front d lp) (\<lambda>lp'. Inr (v, lp')))"

lemma owned_contents:
  assumes "slabs_rep d p C" "sl_rep C l hs"
  shows "owned_list_contents d (l, p) = sl_items C hs"
proof -
  have "unat (sl_size l) = length hs"
    using sl_rep_length [OF assms(2)] assms(2) by (simp add: sl_rep_def unat_of_nat take_bit_eq_mod)
  then show ?thesis
    using sl_walk_rep [OF assms(1), of sl_invalid_handle hs "length hs"] assms(2)
    by (simp add: owned_list_contents_def sl_rep_def)
qed

text \<open>A full pool has as many live objects as slabs, so a short list finds room.\<close>

lemma slabs_full_live:
  assumes "slabs_rep d p C" "slabs_full p"
  shows "length (ss_slabs p) \<le> card (dom C)"
proof -
  obtain fls where inv: "slabs_inv p fls"
    and C: "\<forall>i j. live_at p fls i j \<longrightarrow> C (handle_of i j) = Some (slab_objects d (ss_slabs p ! i) ! j)"
    using assms(1) by (auto simp: slabs_rep_def)
  let ?n = "length (ss_slabs p)"
  have n: "?n \<le> 65536" using inv by (simp add: slabs_inv_def)
  have lv: "live_at p fls i 0" if "i < ?n" for i
    using that inv assms(2) by (auto simp: live_at_def slabs_inv_def slabs_full_def slab_inv_def unat_gt_0)
  have "inj_on (\<lambda>i. handle_of i 0) {..<?n}"
    by (rule inj_onI) (use n handle_of_inject [of _ 0 _ 0] in force)
  then have "card ((\<lambda>i. handle_of i 0) ` {..<?n}) = ?n" by (simp add: card_image)
  moreover have "(\<lambda>i. handle_of i 0) ` {..<?n} \<subseteq> dom C" using C lv by auto
  moreover have "finite (dom C)" by simp
  ultimately show ?thesis by (metis card_mono)
qed

lemma owned_room:
  assumes "slabs_rep d p C" "dom C = set hs" "length hs < 65536"
  shows "sl_room p"
  using slabs_full_live [OF assms(1)] card_length [of hs] assms(2,3) by (auto simp: sl_room_def)

lemma owned_push:
  assumes inv: "owned_list_inv d lp" and len: "length (owned_list_contents d lp) < 65536"
    and ext: "0 < ext" "ext \<le> 32768"
  shows "\<exists>lp'. sl_enqueue ext d v lp = Inr lp' \<and> owned_list_inv d lp'
    \<and> owned_list_contents d lp' = owned_list_contents d lp @ [v]"
proof -
  obtain l p C hs where lp: "lp = (l, p)" and rep: "slabs_rep d p C" and l: "sl_rep C l hs" and dm: "dom C = set hs"
    using inv by (cases lp) (auto simp: owned_list_inv_def)
  have c: "owned_list_contents d lp = sl_items C hs" using owned_contents [OF rep l] lp by simp
  have room: "sl_room p" by (rule owned_room [OF rep dm]) (use len c in \<open>simp add: sl_items_def\<close>)
  from rep l room ext obtain e l' p' C' where a: "sl_push_back ext d v (l, p) = Inr (e, l', p')" "slabs_rep d p' C'"
      "sl_rep C' l' (hs @ [e])" "C e = None" "dom C' = insert e (dom C)"
      "\<forall>h. h \<noteq> e \<longrightarrow> h \<notin> set hs \<longrightarrow> C' h = C h" "sl_items C' (hs @ [e]) = sl_items C hs @ [v]"
    by (rule sl_push_back_rep)
  have "owned_list_contents d (l', p') = sl_items C hs @ [v]" using owned_contents [OF a(2,3)] a(7) by simp
  moreover have "owned_list_inv d (l', p')"
    unfolding owned_list_inv_def using a dm by (intro exI [of _ C'] exI [of _ "hs @ [e]"]) auto
  ultimately show ?thesis using a(1) lp c by (simp add: sl_enqueue_def)
qed

lemma owned_pop:
  assumes inv: "owned_list_inv d lp" and c: "owned_list_contents d lp = x # xs"
  shows "\<exists>lp'. sl_dequeue d lp = Inr (x, lp') \<and> owned_list_inv d lp' \<and> owned_list_contents d lp' = xs"
proof -
  obtain l p C hs where lp: "lp = (l, p)" and rep: "slabs_rep d p C" and l: "sl_rep C l hs" and dm: "dom C = set hs"
    using inv by (cases lp) (auto simp: owned_list_inv_def)
  have ci: "sl_items C hs = x # xs" using owned_contents [OF rep l] lp c by simp
  then obtain h hs' where hs: "hs = h # hs'" by (cases hs) (auto simp: sl_items_def)
  then have f: "sl_front l = h" using l by (simp add: sl_rep_def)
  obtain l' p' C' where e: "sl_erase d h (l, p) = Inr (l', p')" "slabs_rep d p' C'" "sl_rep C' l' ([] @ hs')"
    "dom C' = dom C - {h}" "\<forall>k. k \<notin> set ([] @ h # hs') \<longrightarrow> C' k = C k"
    "sl_items C' ([] @ hs') = sl_items C ([] @ hs')" "\<not> slabs_full p'"
    by (rule sl_erase_rep [OF rep, of l "[]" h hs']) (use l hs in simp)
  have "dom C' = set hs'" using e(4) dm hs l by (auto simp: sl_rep_def)
  then have "owned_list_inv d (l', p')" using e(2,3) by (auto simp: owned_list_inv_def)
  moreover have "owned_list_contents d (l', p') = xs"
    using owned_contents [OF e(2), of l' hs'] e(3,6) ci hs by (simp add: sl_items_def cong: map_cong)
  moreover have "sl_front_item d (l, p) = Inr x"
    using sl_front_item_rep [OF rep, of l h hs'] l hs ci by simp
  ultimately show ?thesis using e(1) f lp by (simp add: sl_dequeue_def sl_pop_front_def)
qed

lemma owned_empty:
  assumes "owned_list_inv d lp"
  shows "sl_empty (fst lp) \<longleftrightarrow> owned_list_contents d lp = []"
    and "owned_list_contents d lp = [] \<Longrightarrow> sl_dequeue d lp = Inl Assertion"
proof -
  obtain l p C hs where lp: "lp = (l, p)" and rep: "slabs_rep d p C" and l: "sl_rep C l hs"
    using assms by (cases lp) (auto simp: owned_list_inv_def)
  have c: "owned_list_contents d lp = sl_items C hs" using owned_contents [OF rep l] lp by simp
  then show "sl_empty (fst lp) \<longleftrightarrow> owned_list_contents d lp = []"
    using sl_empty_iff [OF l] lp by (simp add: sl_items_def)
  show "owned_list_contents d lp = [] \<Longrightarrow> sl_dequeue d lp = Inl Assertion"
    using c l lp by (simp add: sl_items_def sl_rep_def sl_dequeue_def sl_front_item_def sl_item_def sl_get_def)
qed

text \<open>\<open>slab_list<T, extend_size>\<close> is a queue for every legal extend size.\<close>

interpretation sl: fifo "owned_list_contents d" "\<lambda>lp. 0 < ext \<and> ext \<le> 32768 \<and> owned_list_inv d lp" 65536
  "sl_enqueue ext d" "sl_dequeue d" "\<lambda>lp. sl_empty (fst lp)" for d ext
proof (unfold_locales, goal_cases)
  case (1 q x)
  then show ?case using owned_push [of d q ext x] by simp
next
  case (2 q x xs)
  then show ?case using owned_pop [of d q x xs] by simp
next
  case (3 q)
  then show ?case using owned_empty(2) [of d q] by blast
next
  case (4 q)
  then show ?case using owned_empty(1) [of d q] by blast
qed

text \<open>
  C10: a slab_list that has its pool to itself is a first-in first-out queue under push_back and
  front_item/pop_front, and walking it from begin() by next() reads the waiting elements in order.
\<close>

theorem slab_list_fifo:
  assumes "0 < ext" "ext \<le> 32768" "fifo_spec 65536 ops [] = Some (out, ys)"
  shows "\<exists>l p. queue_run (sl_enqueue ext d) (sl_dequeue d) ops (slab_list_init, slabs_init) = Inr (out, l, p)
    \<and> sl_walk d (unat (sl_size l)) (sl_begin l) p = Inr ys \<and> (sl_empty l \<longleftrightarrow> ys = [])"
proof -
  have i: "slabs_rep d slabs_init Map.empty" "sl_rep Map.empty slab_list_init []"
    by (rule slabs_rep_init, rule sl_rep_init)
  have inv: "owned_list_inv d (slab_list_init, slabs_init)"
    unfolding owned_list_inv_def using i by (intro exI [of _ Map.empty] exI [of _ "[]"]) simp
  have c0: "owned_list_contents d (slab_list_init, slabs_init) = []"
    using owned_contents [OF i] by (simp add: sl_items_def)
  obtain l p where r: "queue_run (sl_enqueue ext d) (sl_dequeue d) ops (slab_list_init, slabs_init) = Inr (out, l, p)"
      "owned_list_inv d (l, p)" "owned_list_contents d (l, p) = ys"
    using sl.run_refines [of ext d "(slab_list_init, slabs_init)" ops out ys] assms inv c0 by auto
  obtain C hs where rep: "slabs_rep d p C" "sl_rep C l hs" using r(2) by (auto simp: owned_list_inv_def)
  have "sl_walk d (unat (sl_size l)) (sl_front l) p = Inr (sl_items C hs)"
    using sl_walk_rep [OF rep(1), of sl_invalid_handle hs "length hs"] rep(2) sl_rep_length [OF rep(2)]
    by (simp add: sl_rep_def sl_begin_def unat_of_nat take_bit_eq_mod)
  then show ?thesis using r owned_contents [OF rep] owned_empty(1) [OF r(2)] by (auto simp: sl_begin_def)
qed

theorem slab_list_fifo_witness:
  "\<forall>d. \<exists>l p. queue_run (sl_enqueue 2 d) (sl_dequeue d) [Push 1, Push 2, Push 3, Pop, Push (4 :: nat), Pop]
      (slab_list_init, slabs_init) = Inr ([1, 2], l, p)
    \<and> sl_walk d (unat (sl_size l)) (sl_begin l) p = Inr [3, 4] \<and> (sl_empty l \<longleftrightarrow> [3, 4 :: nat] = [])"
  by (rule allI, rule slab_list_fifo) simp_all

text \<open>
  Erasing any node of a list unlinks exactly that node, keeps the order and the items of the
  others, gives its handle back to the pool, and leaves every object outside the list as it was, so
  other lists in the same pool are not affected.
\<close>

lemma slab_list_erase:
  assumes "slabs_rep d p C" "sl_rep C l (xs @ h # ys)"
  shows "\<exists>l' p' C'. sl_erase d h (l, p) = Inr (l', p') \<and> slabs_rep d p' C' \<and> sl_rep C' l' (xs @ ys)
    \<and> sl_items C' (xs @ ys) = sl_items C xs @ sl_items C ys \<and> dom C' = dom C - {h}
    \<and> (\<forall>m ks. set ks \<inter> set (xs @ h # ys) = {} \<longrightarrow> sl_rep C m ks \<longrightarrow> sl_rep C' m ks \<and> sl_items C' ks = sl_items C ks)"
proof -
  obtain l' p' C' where e: "sl_erase d h (l, p) = Inr (l', p')" "slabs_rep d p' C'" "sl_rep C' l' (xs @ ys)"
    "dom C' = dom C - {h}" "\<forall>k. k \<notin> set (xs @ h # ys) \<longrightarrow> C' k = C k"
    "sl_items C' (xs @ ys) = sl_items C (xs @ ys)" "\<not> slabs_full p'"
    by (rule sl_erase_rep [OF assms])
  have "sl_rep C' m ks \<and> sl_items C' ks = sl_items C ks"
    if "set ks \<inter> set (xs @ h # ys) = {}" "sl_rep C m ks" for m ks
  proof -
    have "\<forall>k \<in> set ks. C' k = C k" using e(5) that(1) by blast
    then show ?thesis using sl_rep_frame sl_items_frame that(2) by metis
  qed
  then show ?thesis using e unfolding sl_items_def map_append by blast
qed

lemma slab_list_erase_witness:
  "\<forall>d. \<exists>l p h l' p' (C' :: u32 \<rightharpoonup> nat sl_entry). sl_erase (d :: nat sl_entry) h (l, p) = Inr (l', p') \<and> sl_rep C' l' []"
proof
  fix d :: "nat sl_entry"
  have e: "(0 :: u16) < 2" "(2 :: u16) \<le> 32768" by simp_all
  have room: "sl_room (slabs_init :: nat sl_entry slabs)" by (simp add: sl_room_def slabs_init_def)
  from slabs_rep_init sl_rep_init room e
  obtain h l p C where a: "sl_push_back 2 (d :: nat sl_entry) 7 (slab_list_init, slabs_init) = Inr (h, l, p)" "slabs_rep d p C"
    "sl_rep C l ([] @ [h])" "(Map.empty :: u32 \<rightharpoonup> nat sl_entry) h = None"
    "dom C = insert h (dom (Map.empty :: u32 \<rightharpoonup> nat sl_entry))"
    "\<forall>k. k \<noteq> h \<longrightarrow> k \<notin> set [] \<longrightarrow> C k = Map.empty k"
    "sl_items C ([] @ [h]) = sl_items Map.empty [] @ [7]"
    by (rule sl_push_back_rep)
  from slab_list_erase [OF a(2,3)]
  show "\<exists>l p h l' p' (C' :: u32 \<rightharpoonup> nat sl_entry). sl_erase d h (l, p) = Inr (l', p') \<and> sl_rep C' l' []"
  proof (elim exE conjE)
    fix l' p' and C' :: "u32 \<rightharpoonup> nat sl_entry"
    assume r: "sl_erase d h (l, p) = Inr (l', p')" "sl_rep C' l' ([] @ [])"
    show "\<exists>l p h l' p' (C' :: u32 \<rightharpoonup> nat sl_entry). sl_erase d h (l, p) = Inr (l', p') \<and> sl_rep C' l' []"
      by (intro exI conjI, rule r(1), use r(2) in simp)
  qed
qed

end
