(* ===== verification/Allocator.thy ===== *)
theory Allocator
  imports Prelude
begin

text \<open>
  The extent allocator of \<open>common/allocator.cpp\<close>: free extents are kept in two ordered sets of 64-bit
  numbers, one by size (to find the best fit) and one by position (to merge neighbours). The
  invariant says that both hold the same extents and where two of them may touch: nowhere, unless the
  allocator was first extended by no pages, as the disk does it for a new image. The empty extent that
  leaves at 0 hides the right neighbour of what is freed at 0. The theorems follow any sequence of calls
  and say what a client may rely on.
\<close>

section \<open>The code\<close>

text \<open>\<open>std::set<uint64_t>\<close>: its elements in order.\<close>

definition oset_insert :: "u64 \<Rightarrow> u64 list \<Rightarrow> u64 list" where
  "oset_insert x xs = (if x \<in> set xs then xs else takeWhile (\<lambda>y. y < x) xs @ x # dropWhile (\<lambda>y. y < x) xs)"

definition oset_erase :: "u64 \<Rightarrow> u64 list \<Rightarrow> u64 list" where
  "oset_erase x xs = removeAll x xs"

text \<open>An iterator is a position; \<open>end()\<close> is the length.\<close>

definition oset_lower_bound :: "u64 \<Rightarrow> u64 list \<Rightarrow> nat" where
  "oset_lower_bound k xs = length (takeWhile (\<lambda>y. y < k) xs)"

record allocator =
  al_free_set :: "u64 list"
  al_idx_set :: "u64 list"
  al_max_idx :: u32
  al_size :: u32

definition allocator_init :: allocator where
  "allocator_init = \<lparr>al_free_set = [], al_idx_set = [], al_max_idx = 0, al_size = 0\<rparr>"

definition pack32 :: "u32 \<Rightarrow> u32 \<Rightarrow> u64" where
  "pack32 hi lo = push_bit 32 (ucast hi) OR ucast lo"

definition lo32 :: "u64 \<Rightarrow> u32" where
  "lo32 x = ucast (x AND 0xffffffff)"

definition hi32 :: "u64 \<Rightarrow> u32" where
  "hi32 x = ucast (drop_bit 32 x)"

definition al_allocate :: "u32 \<Rightarrow> allocator \<Rightarrow> u32 \<times> allocator" where
  "al_allocate sz a =
     (let it = oset_lower_bound (pack32 sz 0) (al_free_set a) in
      if it = length (al_free_set a) then (- 1, a)
      else
        let x = al_free_set a ! it; idx = lo32 x; available_size = hi32 x;
            a1 = a\<lparr>al_free_set := oset_erase x (al_free_set a),
                   al_idx_set := oset_erase (pack32 idx available_size) (al_idx_set a)\<rparr>;
            a2 = (if sz < available_size
                  then a1\<lparr>al_free_set := oset_insert (pack32 (available_size - sz) (idx + sz)) (al_free_set a1),
                          al_idx_set := oset_insert (pack32 (idx + sz) (available_size - sz)) (al_idx_set a1)\<rparr>
                  else a1)
        in (idx, a2\<lparr>al_size := al_size a2 + sz\<rparr>))"

text \<open>The neighbours \<open>prev_it\<close> and \<open>next_it\<close> that \<open>free\<close> looks at.\<close>

definition al_neighbours :: "u32 \<Rightarrow> u64 list \<Rightarrow> u64 option \<times> u64 option" where
  "al_neighbours idx xs =
     (let it = oset_lower_bound (pack32 idx 0) xs in
      if it \<noteq> length xs then (if it \<noteq> 0 then Some (xs ! (it - 1)) else None, Some (xs ! it))
      else (Some (xs ! (it - 1)), None))"

definition al_merge_prev :: "u64 option \<Rightarrow> u32 \<times> u32 \<times> allocator \<Rightarrow> u32 \<times> u32 \<times> allocator" where
  "al_merge_prev prev_it st =
     (case (prev_it, st) of
        (None, st) \<Rightarrow> st
      | (Some x, idx, sz, a) \<Rightarrow>
          let prev_idx = hi32 x; prev_size = lo32 x in
          if prev_idx + prev_size = idx
          then (prev_idx, sz + prev_size,
                a\<lparr>al_idx_set := oset_erase x (al_idx_set a),
                  al_free_set := oset_erase (pack32 prev_size prev_idx) (al_free_set a)\<rparr>)
          else (idx, sz, a))"

definition al_merge_next :: "u64 option \<Rightarrow> u32 \<times> u32 \<times> allocator \<Rightarrow> u32 \<times> u32 \<times> allocator" where
  "al_merge_next next_it st =
     (case (next_it, st) of
        (None, st) \<Rightarrow> st
      | (Some x, idx, sz, a) \<Rightarrow>
          let next_idx = hi32 x; next_size = lo32 x in
          if idx + sz = next_idx
          then (idx, sz + next_size,
                a\<lparr>al_idx_set := oset_erase x (al_idx_set a),
                  al_free_set := oset_erase (pack32 next_size next_idx) (al_free_set a)\<rparr>)
          else (idx, sz, a))"

definition al_insert :: "u32 \<times> u32 \<times> allocator \<Rightarrow> allocator" where
  "al_insert st =
     (case st of (idx, sz, a) \<Rightarrow>
        a\<lparr>al_free_set := oset_insert (pack32 sz idx) (al_free_set a),
          al_idx_set := oset_insert (pack32 idx sz) (al_idx_set a)\<rparr>)"

definition al_free :: "u32 \<Rightarrow> u32 \<Rightarrow> allocator \<Rightarrow> allocator res" where
  "al_free idx sz a =
     res_assert (sz \<le> al_size a)
       (let a1 = a\<lparr>al_size := al_size a - sz\<rparr> in
        Inr (if length (al_idx_set a1) = 0 then al_insert (idx, sz, a1)
             else case al_neighbours idx (al_idx_set a1) of (prev_it, next_it) \<Rightarrow>
               al_insert (al_merge_next next_it (al_merge_prev prev_it (idx, sz, a1)))))"

definition al_extend :: "u32 \<Rightarrow> allocator \<Rightarrow> allocator res" where
  "al_extend sz a =
     res_bind (al_free (al_max_idx a) sz (a\<lparr>al_size := al_size a + sz\<rparr>)) (\<lambda>a'.
       Inr (a'\<lparr>al_max_idx := al_max_idx a' + sz\<rparr>))"

definition al_full :: "allocator \<Rightarrow> bool" where
  "al_full a \<longleftrightarrow> length (al_free_set a) = 0"

section \<open>Packed pairs and ordered sets\<close>

lemma unat_pack32: "unat (pack32 a b) = unat a * 2 ^ 32 + unat b"
proof -
  have "pack32 a b = push_bit 32 (ucast a) + ucast b"
    unfolding pack32_def
    by (rule disjunctive_add_eq_or [symmetric], rule bit_word_eqI) (auto simp: bit_simps dest: bit_imp_le_length)
  moreover have "unat (push_bit 32 (ucast a) :: u64) = unat a * 2 ^ 32"
  proof -
    have "unat a < 2 ^ 32" using unsigned_less [of a] by simp
    then have "unat a * 2 ^ 32 < 2 ^ 64" by simp
    then show ?thesis
      by (simp add: unsigned_push_bit_eq unat_ucast_up) (simp add: push_bit_eq_mult take_bit_eq_mod)
  qed
  moreover have "unat (ucast b :: u64) = unat b" by (simp add: unat_ucast_up)
  moreover have "unat a < 2 ^ 32" "unat b < 2 ^ 32" using unsigned_less [of a] unsigned_less [of b] by simp_all
  then have "unat a * 2 ^ 32 + unat b < 2 ^ 64" by simp
  ultimately show ?thesis by (simp add: unat_plus_if')
qed

lemma hi32_pack32 [simp]: "hi32 (pack32 a b) = a"
  unfolding hi32_def pack32_def by (rule bit_word_eqI) (auto simp: bit_simps dest: bit_imp_le_length)

lemma lo32_pack32 [simp]: "lo32 (pack32 a b) = b"
proof -
  have m: "(0xffffffff :: u64) = mask 32" by (simp add: mask_eq_exp_minus_1)
  show ?thesis unfolding lo32_def pack32_def m take_bit_eq_mask [symmetric]
    by (rule bit_word_eqI) (auto simp: bit_simps)
qed

lemma pack32_inject [simp]: "pack32 a b = pack32 c d \<longleftrightarrow> a = c \<and> b = d"
  by (metis hi32_pack32 lo32_pack32)

lemma pack32_less: "pack32 a b < pack32 c d \<longleftrightarrow> a < c \<or> a = c \<and> b < d"
proof -
  have "unat b < 2 ^ 32" "unat d < 2 ^ 32" using unsigned_less [of b] unsigned_less [of d] by simp_all
  then show ?thesis
    by (auto simp: word_less_nat_alt unat_pack32 word_unat_eq_iff)
qed

definition oset_inv :: "u64 list \<Rightarrow> bool" where
  "oset_inv xs \<longleftrightarrow> sorted_wrt (<) xs"

lemma set_oset_insert [simp]: "set (oset_insert x xs) = insert x (set xs)"
proof -
  have "set xs = set (takeWhile (\<lambda>y. y < x) xs) \<union> set (dropWhile (\<lambda>y. y < x) xs)"
    by (metis set_append takeWhile_dropWhile_id)
  then show ?thesis by (simp add: oset_insert_def insert_absorb)
qed

lemma oset_inv_between:
  "oset_inv (A @ B) \<Longrightarrow> (\<forall>y \<in> set A. y < x) \<Longrightarrow> (\<forall>y \<in> set B. x < y) \<Longrightarrow> oset_inv (A @ x # B)"
  by (auto simp: oset_inv_def sorted_wrt_append)

lemma oset_insert_inv:
  assumes "oset_inv xs"
  shows "oset_inv (oset_insert x xs)"
proof (cases "x \<in> set xs")
  case False
  have d: "x \<le> y" if "y \<in> set (dropWhile (\<lambda>y. y < x) ys)" "oset_inv ys" for y ys
    using that by (induction ys) (auto simp: oset_inv_def split: if_splits)
  have "oset_inv (takeWhile (\<lambda>y. y < x) xs @ dropWhile (\<lambda>y. y < x) xs)" using assms by simp
  moreover have "y < x" if "y \<in> set (takeWhile (\<lambda>y. y < x) xs)" for y using set_takeWhileD [OF that] by simp
  moreover have "x < y" if "y \<in> set (dropWhile (\<lambda>y. y < x) xs)" for y
    using d [OF that assms] False set_dropWhileD [OF that] by (auto simp: order.strict_iff_order)
  ultimately have "oset_inv (takeWhile (\<lambda>y. y < x) xs @ x # dropWhile (\<lambda>y. y < x) xs)"
    by (intro oset_inv_between) blast+
  then show ?thesis using False by (simp add: oset_insert_def)
qed (use assms in \<open>simp add: oset_insert_def\<close>)

lemma set_oset_erase [simp]: "set (oset_erase x xs) = set xs - {x}"
  by (simp add: oset_erase_def)

lemma oset_erase_inv: "oset_inv xs \<Longrightarrow> oset_inv (oset_erase x xs)"
  by (simp add: oset_inv_def oset_erase_def removeAll_filter_not_eq sorted_wrt_filter)

lemma oset_lower_bound:
  assumes "oset_inv xs"
  shows "i < oset_lower_bound k xs \<Longrightarrow> xs ! i < k"
    and "oset_lower_bound k xs \<le> i \<Longrightarrow> i < length xs \<Longrightarrow> k \<le> xs ! i"
    and "oset_lower_bound k xs \<le> length xs"
proof -
  show "xs ! i < k" if "i < oset_lower_bound k xs"
    using that nth_mem [of i "takeWhile (\<lambda>y. y < k) xs"] set_takeWhileD [of _ "\<lambda>y. y < k" xs]
    by (metis oset_lower_bound_def takeWhile_nth)
  show "oset_lower_bound k xs \<le> length xs" by (simp add: oset_lower_bound_def length_takeWhile_le)
  show "k \<le> xs ! i" if i: "oset_lower_bound k xs \<le> i" "i < length xs"
  proof -
    let ?n = "oset_lower_bound k xs"
    have "\<not> xs ! ?n < k"
      using nth_length_takeWhile [of "\<lambda>y. y < k" xs] i by (simp add: oset_lower_bound_def)
    moreover have "xs ! ?n \<le> xs ! i"
      using assms i by (cases "?n = i") (auto simp: oset_inv_def sorted_wrt_iff_nth_less intro: less_imp_le)
    ultimately show ?thesis by simp
  qed
qed

section \<open>The free extents\<close>

type_synonym extent = "u32 \<times> u32"

fun extent_pages :: "extent \<Rightarrow> nat set" where
  "extent_pages (i, n) = {unat i..<unat i + unat n}"

definition pages_of :: "extent set \<Rightarrow> nat set" where
  "pages_of B = (\<Union>b \<in> B. extent_pages b)"

text \<open>
  Free extents are not empty, lie below \<open>m\<close> and do not overlap; they touch at the positions up to \<open>e\<close> only, so
  not at all if \<open>e\<close> is 0.
\<close>

definition beside :: "extent \<Rightarrow> extent \<Rightarrow> bool" where
  "beside b c \<longleftrightarrow> unat (fst b) + unat (snd b) \<le> unat (fst c) \<or> unat (fst c) + unat (snd c) \<le> unat (fst b)"

definition extents_ok :: "nat \<Rightarrow> u32 \<Rightarrow> extent set \<Rightarrow> bool" where
  "extents_ok e m B \<longleftrightarrow> finite B \<and> (\<forall>(i, n) \<in> B. n \<noteq> 0 \<and> unat i + unat n \<le> unat m)
     \<and> (\<forall>b \<in> B. \<forall>c \<in> B. b \<noteq> c \<longrightarrow> beside b c)
     \<and> (\<forall>b \<in> B. \<forall>c \<in> B. unat (fst b) + unat (snd b) = unat (fst c) \<longrightarrow> unat (fst c) \<le> e)"

definition al_sets :: "allocator \<Rightarrow> extent set \<Rightarrow> bool" where
  "al_sets a B \<longleftrightarrow> oset_inv (al_free_set a) \<and> oset_inv (al_idx_set a)
     \<and> set (al_free_set a) = (\<lambda>(i, n). pack32 n i) ` B \<and> set (al_idx_set a) = (\<lambda>(i, n). pack32 i n) ` B"

definition extents_size :: "extent set \<Rightarrow> nat" where
  "extents_size B = (\<Sum>b \<in> B. unat (snd b))"

text \<open>Does the allocator hold the empty extent of a new image? It stays there for ever.\<close>

definition al_new :: "allocator \<Rightarrow> bool" where
  "al_new a \<longleftrightarrow> 0 \<in> set (al_idx_set a)"

definition empty_extent :: "bool \<Rightarrow> extent set" where
  "empty_extent w = (if w then {(0, 0)} else {})"

definition touch_bound :: "bool \<Rightarrow> nat \<Rightarrow> nat" where
  "touch_bound w e = (if w then e else 0)"

definition al_rep :: "nat \<Rightarrow> allocator \<Rightarrow> extent set \<Rightarrow> bool" where
  "al_rep e a B \<longleftrightarrow> al_sets a (B \<union> empty_extent (al_new a)) \<and> extents_ok (touch_bound (al_new a) e) (al_max_idx a) B
     \<and> unat (al_size a) + extents_size B = unat (al_max_idx a)"

lemma al_rep_init: "al_rep e allocator_init {}"
  by (simp add: al_rep_def al_sets_def extents_ok_def allocator_init_def oset_inv_def extents_size_def al_new_def
    empty_extent_def)

lemma pack32_zero [simp]: "pack32 a b = 0 \<longleftrightarrow> a = 0 \<and> b = 0"
  using pack32_inject [of a b 0 0] by (simp add: pack32_def)

lemma al_new_sets:
  assumes "al_sets a (B \<union> empty_extent w)" "\<forall>(i, n) \<in> B. n \<noteq> 0"
  shows "al_new a = w"
  using assms by (auto simp: al_new_def al_sets_def empty_extent_def)

lemma image_pack_diff:
  "(\<lambda>(i, n). pack32 i n) ` (B - {(i, n)}) = (\<lambda>(i, n). pack32 i n) ` B - {pack32 i n}"
  "(\<lambda>(i, n). pack32 n i) ` (B - {(i, n)}) = (\<lambda>(i, n). pack32 n i) ` B - {pack32 n i}"
  by auto

lemma al_insert_sets: "al_sets a B \<Longrightarrow> al_sets (al_insert (i, n, a)) (insert (i, n) B)"
  by (simp add: al_sets_def al_insert_def oset_insert_inv)

lemma al_erase_sets:
  "al_sets a B \<Longrightarrow> al_sets (a\<lparr>al_idx_set := oset_erase (pack32 i n) (al_idx_set a),
     al_free_set := oset_erase (pack32 n i) (al_free_set a)\<rparr>) (B - {(i, n)})"
  by (simp add: al_sets_def oset_erase_inv image_pack_diff)

lemma extents_subset: "extents_ok e m B \<Longrightarrow> C \<subseteq> B \<Longrightarrow> extents_ok e m C"
  unfolding extents_ok_def by (meson finite_subset subsetD)

lemma extents_disjoint:
  "extents_ok e m B \<Longrightarrow> b \<in> B \<Longrightarrow> c \<in> B \<Longrightarrow> b \<noteq> c \<Longrightarrow> extent_pages b \<inter> extent_pages c = {}"
proof -
  assume "extents_ok e m B" "b \<in> B" "c \<in> B" "b \<noteq> c"
  then have "beside b c" by (simp add: extents_ok_def)
  then show ?thesis by (cases b; cases c) (auto simp: beside_def)
qed

lemma pages_of_split:
  assumes "extents_ok e m B" "b \<in> B"
  shows "pages_of B = pages_of (B - {b}) \<union> extent_pages b" "pages_of (B - {b}) \<inter> extent_pages b = {}"
    "extents_size B = extents_size (B - {b}) + unat (snd b)"
proof -
  show "pages_of B = pages_of (B - {b}) \<union> extent_pages b" using assms(2) by (auto simp: pages_of_def)
  have "extent_pages c \<inter> extent_pages b = {}" if "c \<in> B - {b}" for c
    using extents_disjoint [OF assms(1)] assms(2) that by blast
  then show "pages_of (B - {b}) \<inter> extent_pages b = {}" unfolding pages_of_def by blast
  have "finite B" using assms(1) by (simp add: extents_ok_def)
  then show "extents_size B = extents_size (B - {b}) + unat (snd b)"
    using assms(2) by (simp add: extents_size_def sum.remove)
qed

text \<open>An extent is added that touches others only where that is allowed.\<close>

lemma extents_insert:
  assumes ok: "extents_ok e m B" and n: "n \<noteq> 0" "unat i + unat n \<le> unat m"
    and dis: "pages_of B \<inter> extent_pages (i, n) = {}"
    and touch: "\<forall>(j, t) \<in> B. (unat j + unat t = unat i \<longrightarrow> unat i \<le> e) \<and> (unat i + unat n = unat j \<longrightarrow> unat j \<le> e)"
  shows "extents_ok e m (insert (i, n) B)"
proof -
  have n0: "0 < unat n" using n(1) by (simp add: unat_gt_0)
  have ap: "beside (j, t) (i, n)" if "(j, t) \<in> B" for j t
  proof -
    have t0: "0 < unat t" using that ok by (auto simp: extents_ok_def unat_gt_0)
    have "extent_pages (j, t) \<inter> extent_pages (i, n) = {}" using dis that unfolding pages_of_def by blast
    then have "{unat j..<unat j + unat t} \<inter> {unat i..<unat i + unat n} = {}" by simp
    moreover have "max (unat i) (unat j) \<in> {unat j..<unat j + unat t} \<inter> {unat i..<unat i + unat n}"
      if "\<not> (unat j + unat t \<le> unat i \<or> unat i + unat n \<le> unat j)" using that t0 n0 by auto
    ultimately show ?thesis unfolding beside_def fst_conv snd_conv by blast
  qed
  have sym: "beside b c = beside c b" for b c by (auto simp: beside_def)
  show ?thesis
    unfolding extents_ok_def
  proof (intro conjI ballI impI)
    show "finite (insert (i, n) B)" using ok by (simp add: extents_ok_def)
  next
    fix b
    assume "b \<in> insert (i, n) B"
    then show "case b of (i, n) \<Rightarrow> n \<noteq> 0 \<and> unat i + unat n \<le> unat m" using ok n by (auto simp: extents_ok_def)
  next
    fix b c
    assume "b \<in> insert (i, n) B" "c \<in> insert (i, n) B" "b \<noteq> c"
    then consider "b = (i, n)" "c \<in> B" | "c = (i, n)" "b \<in> B" | "b \<in> B" "c \<in> B" by auto
    then show "beside b c"
    proof cases
      case 1
      then show ?thesis using ap [of "fst c" "snd c"] sym by simp
    next
      case 2
      then show ?thesis using ap [of "fst b" "snd b"] by simp
    next
      case 3
      then show ?thesis using ok \<open>b \<noteq> c\<close> by (simp add: extents_ok_def)
    qed
  next
    fix b c
    assume bc: "b \<in> insert (i, n) B" "c \<in> insert (i, n) B" "unat (fst b) + unat (snd b) = unat (fst c)"
    then consider "b = (i, n)" "c \<in> B" | "c = (i, n)" "b \<in> B" | "b = (i, n)" "c = (i, n)" | "b \<in> B" "c \<in> B" by auto
    then show "unat (fst c) \<le> e"
    proof cases
      case 4
      then show ?thesis using ok bc(3) unfolding extents_ok_def by blast
    qed (use touch bc(3) n0 in auto)
  qed
qed

section \<open>Giving an extent back\<close>

lemma al_neighbours_spec:
  assumes sets: "al_sets a B" and ne: "al_idx_set a \<noteq> []" and nb: "al_neighbours idx (al_idx_set a) = (p, nx)"
  shows "case p of None \<Rightarrow> (\<forall>(j, t) \<in> B. idx \<le> j)
      | Some x \<Rightarrow> \<exists>j t. (j, t) \<in> B \<and> x = pack32 j t \<and> j < idx \<and> (\<forall>(j', t') \<in> B. j' < idx \<longrightarrow> pack32 j' t' \<le> x)"
    and "case nx of None \<Rightarrow> (\<forall>(j, t) \<in> B. j < idx)
      | Some x \<Rightarrow> \<exists>j t. (j, t) \<in> B \<and> x = pack32 j t \<and> idx \<le> j \<and> (\<forall>(j', t') \<in> B. idx \<le> j' \<longrightarrow> x \<le> pack32 j' t')"
proof -
  let ?xs = "al_idx_set a" and ?k = "pack32 idx 0"
  define it where "it = oset_lower_bound ?k ?xs"
  have s: "oset_inv ?xs" and set: "set ?xs = (\<lambda>(i, n). pack32 i n) ` B" using sets by (simp_all add: al_sets_def)
  note lb = oset_lower_bound [OF s, where k = ?k, folded it_def]
  have it: "it \<le> length ?xs" by (rule lb(3))
  have lt: "pack32 j t < ?k \<longleftrightarrow> j < idx" for j t by (simp add: pack32_less)
  have mem: "\<exists>j t. (j, t) \<in> B \<and> ?xs ! i = pack32 j t" if "i < length ?xs" for i
    using nth_mem [OF that] set by auto
  have idx: "\<exists>i < length ?xs. ?xs ! i = pack32 j t" if "(j, t) \<in> B" for j t
  proof -
    have "pack32 j t \<in> set ?xs" using that set by auto
    then show ?thesis by (simp add: in_set_conv_nth)
  qed
  have mono: "?xs ! i \<le> ?xs ! i'" if "i \<le> i'" "i' < length ?xs" for i i'
    using s that by (cases "i = i'") (auto simp: oset_inv_def sorted_wrt_iff_nth_less intro: less_imp_le)
  have prev: "\<exists>j t. (j, t) \<in> B \<and> ?xs ! (it - 1) = pack32 j t \<and> j < idx
      \<and> (\<forall>(j', t') \<in> B. j' < idx \<longrightarrow> pack32 j' t' \<le> ?xs ! (it - 1))" if i0: "it \<noteq> 0"
  proof -
    have i1: "it - 1 < length ?xs" using it i0 by simp
    obtain j t where j: "(j, t) \<in> B" "?xs ! (it - 1) = pack32 j t" using mem [OF i1] by blast
    have "j < idx" using lb(1) [of "it - 1"] i0 j(2) lt [of j t] by simp
    have "pack32 j' t' \<le> ?xs ! (it - 1)" if jt: "(j', t') \<in> B" "j' < idx" for j' t'
    proof -
      obtain i where i: "i < length ?xs" "?xs ! i = pack32 j' t'" using idx [OF jt(1)] by blast
      have "i < it"
      proof (rule ccontr)
        assume "\<not> i < it"
        then have "?k \<le> ?xs ! i" using lb(2) i(1) by simp
        then show False using lt [of j' t'] jt(2) i(2) by simp
      qed
      then have "?xs ! i \<le> ?xs ! (it - 1)" using mono i1 by simp
      then show ?thesis using i(2) by simp
    qed
    then show ?thesis using j \<open>j < idx\<close> by blast
  qed
  have "it \<noteq> 0" if "it = length ?xs" using that ne by simp
  then have ps: "p = (if it \<noteq> 0 then Some (?xs ! (it - 1)) else None)"
    and nxs: "nx = (if it \<noteq> length ?xs then Some (?xs ! it) else None)"
    using nb unfolding al_neighbours_def Let_def it_def [symmetric] by (auto split: if_splits)
  show "case p of None \<Rightarrow> (\<forall>(j, t) \<in> B. idx \<le> j)
      | Some x \<Rightarrow> \<exists>j t. (j, t) \<in> B \<and> x = pack32 j t \<and> j < idx \<and> (\<forall>(j', t') \<in> B. j' < idx \<longrightarrow> pack32 j' t' \<le> x)"
  proof (cases "it = 0")
    case True
    have "idx \<le> j" if jt: "(j, t) \<in> B" for j t
    proof -
      obtain i where "i < length ?xs" "?xs ! i = pack32 j t" using idx [OF jt] by blast
      then show ?thesis using lb(2) [of i] lt [of j t] True by (metis le0 linorder_not_less)
    qed
    then show ?thesis using True ps by auto
  qed (use prev ps in simp)
  show "case nx of None \<Rightarrow> (\<forall>(j, t) \<in> B. j < idx)
      | Some x \<Rightarrow> \<exists>j t. (j, t) \<in> B \<and> x = pack32 j t \<and> idx \<le> j \<and> (\<forall>(j', t') \<in> B. idx \<le> j' \<longrightarrow> x \<le> pack32 j' t')"
  proof (cases "it = length ?xs")
    case True
    have "j < idx" if jt: "(j, t) \<in> B" for j t
    proof -
      obtain i where "i < length ?xs" "?xs ! i = pack32 j t" using idx [OF jt] by blast
      then show ?thesis using lb(1) [of i] lt [of j t] True by metis
    qed
    then show ?thesis using True nxs by auto
  next
    case False
    then have i1: "it < length ?xs" using it by simp
    obtain j t where j: "(j, t) \<in> B" "?xs ! it = pack32 j t" using mem [OF i1] by blast
    have "idx \<le> j" using lb(2) [of it] i1 j(2) lt [of j t] by (metis le_refl linorder_not_less)
    moreover have "?xs ! it \<le> pack32 j' t'" if jt: "(j', t') \<in> B" "idx \<le> j'" for j' t'
    proof -
      obtain i where i: "i < length ?xs" "?xs ! i = pack32 j' t'" using idx [OF jt(1)] by blast
      have "it \<le> i" using lb(1) [of i] lt [of j' t'] jt(2) i(2) by (metis linorder_not_less)
      then have "?xs ! it \<le> ?xs ! i" by (rule mono) (rule i(1))
      then show ?thesis using i(2) by simp
    qed
    ultimately show ?thesis using j False nxs by auto
  qed
qed

text \<open>The order of packed pairs.\<close>

lemma pack32_le: "pack32 a b \<le> pack32 c d \<longleftrightarrow> a < c \<or> a = c \<and> b \<le> d"
  using pack32_less [of c d a b] by (metis linorder_not_less linorder_neqE order.asym order.strict_implies_order)

text \<open>
  The extent being merged, beside the free ones and perhaps the empty one: it is disjoint from the free ones, and
  nothing is lost.
\<close>

definition merging :: "bool \<Rightarrow> nat \<Rightarrow> u32 \<Rightarrow> nat set \<Rightarrow> nat \<Rightarrow> u32 \<times> u32 \<times> allocator \<Rightarrow> extent set \<Rightarrow> bool" where
  "merging w e m F tot st B \<longleftrightarrow> (case st of (i, n, a) \<Rightarrow>
     al_sets a (B \<union> empty_extent w) \<and> extents_ok e m B \<and> n \<noteq> 0 \<and> unat i + unat n \<le> unat m
     \<and> pages_of B \<inter> extent_pages (i, n) = {} \<and> pages_of B \<union> extent_pages (i, n) = F
     \<and> extents_size B + unat n = tot)"

lemma unat_add_max:
  assumes "unat (i :: u32) + unat n \<le> unat (m :: u32)"
  shows "unat (i + n) = unat i + unat n"
proof -
  have "unat m < 2 ^ 32" using unsigned_less [of m] by simp
  then show ?thesis using assms by (subst unat_add_lem [THEN iffD1]) simp_all
qed

lemma extents_pos:
  "extents_ok e m B \<Longrightarrow> (j, t) \<in> B \<Longrightarrow> t \<noteq> 0 \<and> 0 < unat t \<and> unat j + unat t \<le> unat m"
  by (auto simp: extents_ok_def unat_gt_0)

lemma extents_beside:
  "extents_ok e m B \<Longrightarrow> (j, t) \<in> B \<Longrightarrow> (j', t') \<in> B \<Longrightarrow> (j, t) \<noteq> (j', t') \<Longrightarrow>
    unat j + unat t \<le> unat j' \<or> unat j' + unat t' \<le> unat j"
  by (drule extents_ok_def [THEN iffD1], elim conjE, drule (1) bspec [where P = "\<lambda>b. \<forall>c \<in> B. b \<noteq> c \<longrightarrow> beside b c"])
    (auto simp: beside_def)

lemma extents_touch:
  "extents_ok e m B \<Longrightarrow> (j, t) \<in> B \<Longrightarrow> (j', t') \<in> B \<Longrightarrow> unat j + unat t = unat j' \<Longrightarrow> unat j' \<le> e"
  by (drule extents_ok_def [THEN iffD1], elim conjE,
      drule (1) bspec [where P = "\<lambda>b. \<forall>c \<in> B. unat (fst b) + unat (snd b) = unat (fst c) \<longrightarrow> unat (fst c) \<le> e"]) force

lemma empty_extent_cases: "(j, t) \<in> empty_extent w \<Longrightarrow> w \<and> j = 0 \<and> t = 0"
  by (auto simp: empty_extent_def split: if_splits)

lemma merging_step:
  assumes M: "merging w e m F tot (i, n, a) B" and b: "(j, t) \<in> B"
    and touch: "unat j + unat t = unat i \<and> i' = j \<or> unat i + unat n = unat j \<and> i' = i"
  shows "merging w e m F tot (i', n + t, a\<lparr>al_idx_set := oset_erase (pack32 j t) (al_idx_set a),
      al_free_set := oset_erase (pack32 t j) (al_free_set a)\<rparr>) (B - {(j, t)})"
proof -
  have ok: "extents_ok e m B" and sets: "al_sets a (B \<union> empty_extent w)" and n: "n \<noteq> 0" "unat i + unat n \<le> unat m"
    using M by (simp_all add: merging_def)
  have t: "t \<noteq> 0" "unat j + unat t \<le> unat m" using extents_pos [OF ok b] by simp_all
  have nt: "unat (n + t) = unat n + unat t"
    by (rule unat_add_max [of n t m]) (use touch n t in auto)
  have pg: "extent_pages (i', n + t) = extent_pages (i, n) \<union> extent_pages (j, t)"
    using touch by (auto simp: nt)
  note sp = pages_of_split [OF ok b]
  have "n + t \<noteq> 0" using nt n(1) by (metis add_is_0 unat_0 unat_eq_zero)
  moreover have "unat i' + unat (n + t) \<le> unat m" using touch nt n t by auto
  moreover have "pages_of (B - {(j, t)}) \<inter> extent_pages (i', n + t) = {}"
    "pages_of (B - {(j, t)}) \<union> extent_pages (i', n + t) = F"
    using M sp(1,2) unfolding pg merging_def by auto
  moreover have "extents_size (B - {(j, t)}) + unat (n + t) = tot"
    using M sp(3) nt by (simp add: merging_def)
  moreover have "B \<union> empty_extent w - {(j, t)} = B - {(j, t)} \<union> empty_extent w"
    using t(1) by (auto simp: empty_extent_def)
  then have "al_sets (a\<lparr>al_idx_set := oset_erase (pack32 j t) (al_idx_set a),
      al_free_set := oset_erase (pack32 t j) (al_free_set a)\<rparr>) (B - {(j, t)} \<union> empty_extent w)"
    using al_erase_sets [OF sets, where i = j and n = t] by simp
  ultimately show ?thesis using extents_subset [OF ok] by (simp add: merging_def)
qed

lemma merge_prev_spec:
  assumes M: "merging w e m F tot (i, n, a) B"
    and p: "case p of None \<Rightarrow> (\<forall>(j, t) \<in> B \<union> empty_extent w. i \<le> j)
      | Some x \<Rightarrow> \<exists>j t. (j, t) \<in> B \<union> empty_extent w \<and> x = pack32 j t \<and> j < i
          \<and> (\<forall>(j', t') \<in> B \<union> empty_extent w. j' < i \<longrightarrow> pack32 j' t' \<le> x)"
  shows "\<exists>i' n' a' B'. al_merge_prev p (i, n, a) = (i', n', a') \<and> merging w e m F tot (i', n', a') B' \<and> B' \<subseteq> B
    \<and> (\<forall>(j, t) \<in> B'. unat j + unat t = unat i' \<longrightarrow> unat i' \<le> e) \<and> unat i' + unat n' = unat i + unat n
    \<and> (\<forall>(j, t) \<in> B - B'. unat j + unat t = unat i)
    \<and> al_max_idx a' = al_max_idx a \<and> al_size a' = al_size a"
proof -
  have ok: "extents_ok e m B" and n: "n \<noteq> 0" "unat i + unat n \<le> unat m" using M by (simp_all add: merging_def)
  note pos = extents_pos [OF ok]
  have stay: ?thesis if "al_merge_prev p (i, n, a) = (i, n, a)" "\<And>j t. (j, t) \<in> B \<Longrightarrow> unat j + unat t \<noteq> unat i"
    using that M by (intro exI [of _ i] exI [of _ n] exI [of _ a] exI [of _ B]) auto
  show ?thesis
  proof (cases p)
    case None
    show ?thesis
    proof (rule stay)
      show "al_merge_prev p (i, n, a) = (i, n, a)" using None by (simp add: al_merge_prev_def)
      fix j t
      assume jt: "(j, t) \<in> B"
      have "i \<le> j" using p None jt by auto
      then show "unat j + unat t \<noteq> unat i" using pos [OF jt] by (simp add: word_le_nat_alt)
    qed
  next
    case (Some x)
    then obtain j t where j: "(j, t) \<in> B \<union> empty_extent w" "x = pack32 j t" "j < i"
      "\<forall>(j', t') \<in> B \<union> empty_extent w. j' < i \<longrightarrow> pack32 j' t' \<le> x" using p by auto
    have below: "j' < j \<or> j' = j \<and> t' \<le> t" if "(j', t') \<in> B" "j' < i" for j' t'
      using j(2,4) that by (auto simp: pack32_le)
    have lt: "j' < i" if "(j', t') \<in> B" "unat j' + unat t' = unat i" for j' t'
      using that(2) pos [OF that(1)] by (simp add: word_less_nat_alt)
    show ?thesis
    proof (cases "(j, t) \<in> B")
      case False
      then have z: "j = 0" "t = 0" using j(1) empty_extent_cases by blast+
      show ?thesis
      proof (rule stay)
        have "0 < i" using j(3) z(1) by simp
        then show "al_merge_prev p (i, n, a) = (i, n, a)" using Some j(2) z by (simp add: al_merge_prev_def)
        fix j' t'
        assume jt: "(j', t') \<in> B"
        show "unat j' + unat t' \<noteq> unat i"
        proof
          assume "unat j' + unat t' = unat i"
          from below [OF jt lt [OF jt this]] show False using z pos [OF jt] by simp
        qed
      qed
    next
      case jB: True
      have jt: "unat (j + t) = unat j + unat t" by (rule unat_add_max [of j t m]) (use pos [OF jB] in simp)
      have only: "(j', t') = (j, t)" if e: "(j', t') \<in> B" "unat j' + unat t' = unat i" for j' t'
      proof (rule ccontr)
        assume ne: "(j', t') \<noteq> (j, t)"
        note b = below [OF e(1) lt [OF e]]
        have "unat j' + unat t' \<le> unat j \<or> unat j + unat t \<le> unat j'" by (rule extents_beside [OF ok e(1) jB ne])
        then show False using b e pos [OF jB] pos [OF e(1)] j(3) by (auto simp: word_less_nat_alt)
      qed
      show ?thesis
      proof (cases "unat j + unat t = unat i")
        case False
        show ?thesis
        proof (rule stay)
          have "j + t \<noteq> i" using jt False by auto
          then show "al_merge_prev p (i, n, a) = (i, n, a)" using Some j(2) by (simp add: al_merge_prev_def)
        qed (use only False in blast)
      next
        case True
        then have "j + t = i" using jt by (simp add: word_unat_eq_iff)
        let ?a' = "a\<lparr>al_idx_set := oset_erase (pack32 j t) (al_idx_set a),
            al_free_set := oset_erase (pack32 t j) (al_free_set a)\<rparr>"
        have mp: "al_merge_prev p (i, n, a) = (j, n + t, ?a')"
          using \<open>j + t = i\<close> Some j(2) by (simp add: al_merge_prev_def Let_def)
        have st: "merging w e m F tot (j, n + t, ?a') (B - {(j, t)})"
          by (rule merging_step [OF M jB]) (use True in simp)
        have "\<forall>(j', t') \<in> B - {(j, t)}. unat j' + unat t' = unat j \<longrightarrow> unat j \<le> e"
          using extents_touch [OF ok _ jB] by blast
        moreover have "unat (n + t) = unat n + unat t"
          by (rule unat_add_max [of n t m]) (use True n pos [OF jB] in simp)
        ultimately show ?thesis using True mp st
          by (intro exI [of _ j] exI [of _ "n + t"] exI [of _ ?a'] exI [of _ "B - {(j, t)}"] conjI) auto
      qed
    qed
  qed
qed

lemma merge_next_spec:
  assumes M: "merging w e m F tot (i, n, a) B"
    and p: "case p of None \<Rightarrow> (\<forall>(j, t) \<in> B. unat j \<noteq> unat i + unat n)
      | Some x \<Rightarrow> \<exists>j t. x = pack32 j t \<and> (if unat j = unat i + unat n then (j, t) \<in> B
          else \<forall>(j', t') \<in> B. unat j' = unat i + unat n \<longrightarrow> unat j' \<le> e)"
    and left: "\<forall>(j, t) \<in> B. unat j + unat t = unat i \<longrightarrow> unat i \<le> e"
  shows "\<exists>n' a' B'. al_merge_next p (i, n, a) = (i, n', a') \<and> merging w e m F tot (i, n', a') B'
    \<and> (\<forall>(j, t) \<in> B'. (unat j + unat t = unat i \<longrightarrow> unat i \<le> e) \<and> (unat i + unat n' = unat j \<longrightarrow> unat j \<le> e))
    \<and> al_max_idx a' = al_max_idx a \<and> al_size a' = al_size a"
proof -
  have ok: "extents_ok e m B" and n: "n \<noteq> 0" "unat i + unat n \<le> unat m" using M by (simp_all add: merging_def)
  note pos = extents_pos [OF ok]
  have stay: ?thesis if "al_merge_next p (i, n, a) = (i, n, a)"
    "\<And>j t. (j, t) \<in> B \<Longrightarrow> unat i + unat n = unat j \<Longrightarrow> unat j \<le> e"
    using that M left by (intro exI [of _ n] exI [of _ a] exI [of _ B]) auto
  show ?thesis
  proof (cases p)
    case None
    show ?thesis by (rule stay) (use None p in \<open>auto simp: al_merge_next_def\<close>)
  next
    case (Some x)
    then obtain j t where j: "x = pack32 j t" "if unat j = unat i + unat n then (j, t) \<in> B
        else \<forall>(j', t') \<in> B. unat j' = unat i + unat n \<longrightarrow> unat j' \<le> e" using p by auto
    have un: "unat (i + n) = unat i + unat n" by (rule unat_add_max [OF n(2)])
    show ?thesis
    proof (cases "unat j = unat i + unat n")
      case False
      show ?thesis
      proof (rule stay)
        have "i + n \<noteq> j" using un False by auto
        then show "al_merge_next p (i, n, a) = (i, n, a)" using Some j(1) by (simp add: al_merge_next_def)
      qed (use j(2) False in force)
    next
      case True
      then have eq: "i + n = j" using un by (simp add: word_unat_eq_iff)
      have jB: "(j, t) \<in> B" using j(2) True by simp
      let ?a' = "a\<lparr>al_idx_set := oset_erase (pack32 j t) (al_idx_set a),
          al_free_set := oset_erase (pack32 t j) (al_free_set a)\<rparr>"
      have mp: "al_merge_next p (i, n, a) = (i, n + t, ?a')"
        using eq Some j(1) by (simp add: al_merge_next_def Let_def)
      have st: "merging w e m F tot (i, n + t, ?a') (B - {(j, t)})"
        by (rule merging_step [OF M jB]) (use True in simp)
      have nt: "unat (n + t) = unat n + unat t"
        by (rule unat_add_max [of n t m]) (use True n pos [OF jB] in simp)
      have "unat j' \<le> e" if "(j', t') \<in> B - {(j, t)}" "unat i + unat (n + t) = unat j'" for j' t'
        using extents_touch [OF ok jB, of j' t'] that True nt by simp
      then show ?thesis using mp st left
        by (intro exI [of _ "n + t"] exI [of _ ?a'] exI [of _ "B - {(j, t)}"] conjI) auto
    qed
  qed
qed

lemma merging_done:
  assumes M: "merging w e m F tot (i, n, a) B"
    and t: "\<forall>(j, t) \<in> B. (unat j + unat t = unat i \<longrightarrow> unat i \<le> e) \<and> (unat i + unat n = unat j \<longrightarrow> unat j \<le> e)"
  shows "al_sets (al_insert (i, n, a)) (insert (i, n) B \<union> empty_extent w)" "extents_ok e m (insert (i, n) B)"
    "pages_of (insert (i, n) B) = F" "extents_size (insert (i, n) B) = tot"
proof -
  have M': "al_sets a (B \<union> empty_extent w)" "extents_ok e m B" "n \<noteq> 0" "unat i + unat n \<le> unat m"
    "pages_of B \<inter> extent_pages (i, n) = {}" "pages_of B \<union> extent_pages (i, n) = F"
    "extents_size B + unat n = tot" using M by (simp_all add: merging_def)
  show "al_sets (al_insert (i, n, a)) (insert (i, n) B \<union> empty_extent w)" using al_insert_sets [OF M'(1)] by simp
  show ok: "extents_ok e m (insert (i, n) B)" by (rule extents_insert [OF M'(2-5) t])
  have "(i, n) \<notin> B"
  proof
    assume "(i, n) \<in> B"
    then have "extent_pages (i, n) = {}" using M'(5) unfolding pages_of_def by blast
    then show False using M'(3) by (simp add: unat_eq_zero)
  qed
  then show "extents_size (insert (i, n) B) = tot"
    using M'(2,7) by (simp add: extents_size_def extents_ok_def)
  show "pages_of (insert (i, n) B) = F" using M'(6) by (auto simp: pages_of_def)
qed

lemma al_free_sets:
  assumes sets: "al_sets a (B \<union> empty_extent w)" and ok: "extents_ok e m B" and n: "n \<noteq> 0" "unat i + unat n \<le> unat m"
    and dis: "pages_of B \<inter> extent_pages (i, n) = {}" and sz: "n \<le> al_size a"
    and low: "w \<Longrightarrow> i = 0 \<Longrightarrow> unat n \<le> e \<or> B = {}"
  shows "\<exists>a' B'. al_free i n a = Inr a' \<and> al_sets a' (B' \<union> empty_extent w) \<and> extents_ok e m B'
    \<and> pages_of B' = pages_of B \<union> extent_pages (i, n) \<and> extents_size B' = extents_size B + unat n
    \<and> al_max_idx a' = al_max_idx a \<and> al_size a' = al_size a - n"
proof -
  let ?a1 = "a\<lparr>al_size := al_size a - n\<rparr>" and ?E = "empty_extent w"
  let ?F = "pages_of B \<union> extent_pages (i, n)" and ?tot = "extents_size B + unat n"
  have M: "merging w e m ?F ?tot (i, n, ?a1) B"
    using assms by (simp add: merging_def al_sets_def)
  have mx: "al_max_idx (al_insert (i', n', b)) = al_max_idx b" "al_size (al_insert (i', n', b)) = al_size b" for i' n' b
    by (simp_all add: al_insert_def)
  show ?thesis
  proof (cases "al_idx_set a = []")
    case True
    then have "B = {}" using sets by (auto simp: al_sets_def)
    then have "\<forall>(j, t) \<in> B. (unat j + unat t = unat i \<longrightarrow> unat i \<le> e) \<and> (unat i + unat n = unat j \<longrightarrow> unat j \<le> e)" by simp
    note d = merging_done [OF M this]
    have "al_free i n a = Inr (al_insert (i, n, ?a1))" using True sz by (simp add: al_free_def Let_def)
    then show ?thesis
      by (intro exI [of _ "al_insert (i, n, ?a1)"] exI [of _ "insert (i, n) B"] conjI d) (simp_all add: mx)
  next
    case False
    obtain p nx where nb: "al_neighbours i (al_idx_set a) = (p, nx)" by (cases "al_neighbours i (al_idx_set a)")
    note sp = al_neighbours_spec [OF sets False nb]
    obtain i1 n1 a1 B1 where p1: "al_merge_prev p (i, n, ?a1) = (i1, n1, a1)" "merging w e m ?F ?tot (i1, n1, a1) B1"
      "B1 \<subseteq> B" "\<forall>(j, t) \<in> B1. unat j + unat t = unat i1 \<longrightarrow> unat i1 \<le> e" "unat i1 + unat n1 = unat i + unat n"
      "\<forall>(j, t) \<in> B - B1. unat j + unat t = unat i" "al_max_idx a1 = al_max_idx ?a1" "al_size a1 = al_size ?a1"
      using merge_prev_spec [OF M sp(1)] by blast
    have nx: "case nx of None \<Rightarrow> (\<forall>(j, t) \<in> B1. unat j \<noteq> unat i1 + unat n1)
      | Some x \<Rightarrow> \<exists>j t. x = pack32 j t \<and> (if unat j = unat i1 + unat n1 then (j, t) \<in> B1
          else \<forall>(j', t') \<in> B1. unat j' = unat i1 + unat n1 \<longrightarrow> unat j' \<le> e)"
    proof (cases nx)
      case None
      then have "\<forall>(j, t) \<in> B. j < i" using sp(2) by simp
      then show ?thesis using None p1(3,5) by (fastforce simp: word_less_nat_alt)
    next
      case (Some x)
      then obtain j t where j: "(j, t) \<in> B \<union> ?E" "x = pack32 j t" "i \<le> j"
        "\<forall>(j', t') \<in> B \<union> ?E. i \<le> j' \<longrightarrow> x \<le> pack32 j' t'" using sp(2) by auto
      have n0: "0 < unat n" using n(1) by (simp add: unat_gt_0)
      show ?thesis
      proof (cases "(j, t) \<in> B")
        case False
        then have z: "w" "j = 0" "t = 0" using j(1) empty_extent_cases by blast+
        then have "i = 0" using j(3) by simp
        then have "unat j' \<le> e" if "(j', t') \<in> B1" "unat j' = unat i1 + unat n1" for j' t'
          using low [OF z(1)] that p1(3,5) by auto
        moreover have "unat j \<noteq> unat i1 + unat n1" using z(2) p1(5) n0 by simp
        ultimately show ?thesis using Some j(2) by auto
      next
        case jB: True
        have "(j, t) \<in> B1" if "unat j = unat i1 + unat n1"
          using that p1(5,6) jB n0 by force
        moreover have "j' = j" if jt: "(j', t') \<in> B1" "unat j' = unat i1 + unat n1" for j' t'
        proof (rule ccontr)
          assume ne: "j' \<noteq> j"
          have j'B: "(j', t') \<in> B" using jt(1) p1(3) by blast
          have "i \<le> j'" using jt(2) p1(5) by (simp add: word_le_nat_alt)
          then have "x \<le> pack32 j' t'" using j(4) j'B by auto
          then have "unat j < unat j'" using ne by (simp add: j(2) pack32_le word_less_nat_alt)
          moreover have "unat i \<le> unat j" using j(3) by (simp add: word_le_nat_alt)
          moreover have "0 < unat t" using extents_pos [OF ok jB] by simp
          ultimately have "unat j \<in> extent_pages (i, n)" "unat j \<in> extent_pages (j, t)" using jt(2) p1(5) by simp_all
          then show False using dis jB unfolding pages_of_def by blast
        qed
        ultimately have "if unat j = unat i1 + unat n1 then (j, t) \<in> B1
          else \<forall>(j', t') \<in> B1. unat j' = unat i1 + unat n1 \<longrightarrow> unat j' \<le> e"
          by (cases "unat j = unat i1 + unat n1") fastforce+
        then show ?thesis unfolding Some option.case j(2) by blast
      qed
    qed
    obtain n2 a2 B2 where p2: "al_merge_next nx (i1, n1, a1) = (i1, n2, a2)" "merging w e m ?F ?tot (i1, n2, a2) B2"
      "\<forall>(j, t) \<in> B2. (unat j + unat t = unat i1 \<longrightarrow> unat i1 \<le> e) \<and> (unat i1 + unat n2 = unat j \<longrightarrow> unat j \<le> e)"
      "al_max_idx a2 = al_max_idx a1" "al_size a2 = al_size a1"
      using merge_next_spec [OF p1(2) nx p1(4)] by blast
    note d = merging_done [OF p2(2,3)]
    have "al_free i n a = Inr (al_insert (i1, n2, a2))"
      using False sz nb p1(1) p2(1) by (simp add: al_free_def Let_def)
    then show ?thesis
      by (intro exI [of _ "al_insert (i1, n2, a2)"] exI [of _ "insert (i1, n2) B2"] conjI d)
        (simp_all add: mx p1 p2)
  qed
qed

lemma pages_of_bound: "extents_ok e m B \<Longrightarrow> x \<in> pages_of B \<Longrightarrow> x < unat m"
  by (fastforce simp: pages_of_def extents_ok_def)

lemma al_rep_nonzero: "al_rep e a B \<Longrightarrow> \<forall>(i, n) \<in> B. n \<noteq> 0"
  by (auto simp: al_rep_def extents_ok_def)

lemma extents_mono: "extents_ok e m B \<Longrightarrow> e \<le> e' \<Longrightarrow> extents_ok e' m B"
  unfolding extents_ok_def by (meson order_trans)

lemma al_rep_mono: "al_rep e a B \<Longrightarrow> e \<le> e' \<Longrightarrow> al_rep e' a B"
  using extents_mono [of "touch_bound (al_new a) e" _ B "touch_bound (al_new a) e'"]
  by (auto simp: al_rep_def touch_bound_def)

lemma al_free_rep:
  assumes rep: "al_rep e a B" and n: "n \<noteq> 0" "unat i + unat n \<le> unat (al_max_idx a)"
    and dis: "pages_of B \<inter> extent_pages (i, n) = {}" and sz: "n \<le> al_size a" and low: "i = 0 \<Longrightarrow> unat n \<le> e"
  shows "\<exists>a' B'. al_free i n a = Inr a' \<and> al_rep e a' B' \<and> pages_of B' = pages_of B \<union> extent_pages (i, n)
    \<and> al_max_idx a' = al_max_idx a \<and> unat (al_size a') = unat (al_size a) - unat n \<and> al_new a' = al_new a"
proof -
  let ?w = "al_new a"
  have s: "al_sets a (B \<union> empty_extent ?w)" "extents_ok (touch_bound ?w e) (al_max_idx a) B"
    "unat (al_size a) + extents_size B = unat (al_max_idx a)"
    using rep by (simp_all add: al_rep_def)
  have low': "?w \<Longrightarrow> i = 0 \<Longrightarrow> unat n \<le> touch_bound ?w e \<or> B = {}" using low by (simp add: touch_bound_def)
  obtain a' B' where f: "al_free i n a = Inr a'" "al_sets a' (B' \<union> empty_extent ?w)"
    "extents_ok (touch_bound ?w e) (al_max_idx a) B'"
    "pages_of B' = pages_of B \<union> extent_pages (i, n)" "extents_size B' = extents_size B + unat n"
    "al_max_idx a' = al_max_idx a" "al_size a' = al_size a - n"
    using al_free_sets [OF s(1,2) n dis sz low'] by blast
  have u: "unat (al_size a') = unat (al_size a) - unat n" "unat n \<le> unat (al_size a)"
    using sz f(7) by (simp_all add: unat_sub word_le_nat_alt)
  have w: "al_new a' = ?w" by (rule al_new_sets [OF f(2)]) (use f(3) in \<open>auto simp: extents_ok_def\<close>)
  then have "al_rep e a' B'" using f s u by (simp add: al_rep_def)
  then show ?thesis using f u w by blast
qed

text \<open>An extension by nothing, which the disk does on a new image, leaves the empty extent.\<close>

lemma al_extend_empty:
  assumes rep: "al_rep e a B" and m: "al_max_idx a = 0"
  shows "\<exists>a'. al_extend 0 a = Inr a' \<and> al_rep e a' B \<and> al_max_idx a' = 0 \<and> al_new a'"
proof -
  have "extents_ok (touch_bound (al_new a) e) 0 B" using rep m by (simp add: al_rep_def)
  then have B: "B = {}" by (auto simp: extents_ok_def unat_eq_zero)
  have s: "al_sets a (empty_extent (al_new a))" and sz: "al_size a = 0"
    using rep m by (simp_all add: al_rep_def B extents_size_def unat_eq_zero)
  have one: "xs = [0]" if "oset_inv xs" "set xs = {0}" for xs
  proof -
    have "sorted xs" "distinct xs" using that(1) by (simp_all add: oset_inv_def strict_sorted_iff)
    then show ?thesis using that(2) sorted_distinct_set_unique [of xs "[0]"] by simp
  qed
  have zero: "pack32 0 0 = 0" by simp
  have l: "al_idx_set a = (if al_new a then [0] else [])" "al_free_set a = (if al_new a then [0] else [])"
    using s one [of "al_idx_set a"] one [of "al_free_set a"] by (auto simp: al_sets_def empty_extent_def zero)
  let ?a' = "a\<lparr>al_free_set := [0], al_idx_set := [0]\<rparr>"
  have "al_extend 0 a = Inr ?a'"
    using l sz m by (cases "al_new a") (simp_all add: al_extend_def al_free_def al_insert_def al_neighbours_def oset_lower_bound_def
      al_merge_prev_def al_merge_next_def Let_def zero oset_insert_def oset_erase_def hi32_def lo32_def)
  moreover have "al_rep e ?a' B"
    using sz m by (simp add: al_rep_def B al_new_def empty_extent_def al_sets_def oset_inv_def extents_ok_def extents_size_def zero)
  ultimately show ?thesis using m by (intro exI [of _ ?a']) (simp add: al_new_def)
qed

lemma al_extend_rep:
  assumes rep: "al_rep e a B" and n: "n \<noteq> 0" "unat (al_max_idx a) + unat n < 2 ^ 32"
  shows "\<exists>a' B'. al_extend n a = Inr a' \<and> al_rep e a' B'
    \<and> pages_of B' = pages_of B \<union> {unat (al_max_idx a)..<unat (al_max_idx a) + unat n}
    \<and> unat (al_max_idx a') = unat (al_max_idx a) + unat n \<and> al_size a' = al_size a \<and> al_new a' = al_new a"
proof -
  let ?m = "al_max_idx a + n" and ?a = "a\<lparr>al_size := al_size a + n\<rparr>" and ?w = "al_new a"
  let ?e = "touch_bound ?w e"
  have s: "al_sets a (B \<union> empty_extent ?w)" "extents_ok ?e (al_max_idx a) B"
    "unat (al_size a) + extents_size B = unat (al_max_idx a)"
    using rep by (simp_all add: al_rep_def)
  have m: "unat ?m = unat (al_max_idx a) + unat n" using n(2) by (subst unat_add_lem [THEN iffD1]) simp_all
  have sz: "unat (al_size a + n) = unat (al_size a) + unat n"
    using n(2) s(3) by (subst unat_add_lem [THEN iffD1]) simp_all
  have sa: "al_sets ?a (B \<union> empty_extent ?w)" using s(1) by (simp add: al_sets_def)
  have ok: "extents_ok ?e ?m B" using s(2) m by (fastforce simp: extents_ok_def)
  have dis: "pages_of B \<inter> extent_pages (al_max_idx a, n) = {}"
    using pages_of_bound [OF s(2)] by fastforce
  have le: "n \<le> al_size ?a" using sz by (simp add: word_le_nat_alt)
  have mn: "unat (al_max_idx a) + unat n \<le> unat ?m" using m by simp
  have low: "?w \<Longrightarrow> al_max_idx a = 0 \<Longrightarrow> unat n \<le> ?e \<or> B = {}" using s(2) by (auto simp: extents_ok_def unat_eq_zero)
  obtain a' B' where f: "al_free (al_max_idx a) n ?a = Inr a'" "al_sets a' (B' \<union> empty_extent ?w)" "extents_ok ?e ?m B'"
    "pages_of B' = pages_of B \<union> extent_pages (al_max_idx a, n)" "extents_size B' = extents_size B + unat n"
    "al_max_idx a' = al_max_idx ?a" "al_size a' = al_size ?a - n"
    using al_free_sets [OF sa ok n(1) mn dis le low] by blast
  let ?a' = "a'\<lparr>al_max_idx := al_max_idx a' + n\<rparr>"
  have s': "al_sets ?a' (B' \<union> empty_extent ?w)" using f(2) by (simp add: al_sets_def)
  have w: "al_new ?a' = ?w" by (rule al_new_sets [OF s']) (use f(3) in \<open>auto simp: extents_ok_def\<close>)
  have "al_rep e ?a' B'" using f s(3) m s' w by (simp add: al_rep_def)
  moreover have "al_extend n a = Inr ?a'" using f(1) by (simp add: al_extend_def)
  ultimately show ?thesis using f m w
    by (intro exI [of _ ?a'] exI [of _ B'] conjI) simp_all
qed

section \<open>Taking an extent\<close>

lemma al_allocate_rep:
  assumes rep: "al_rep e a B" and n: "n \<noteq> 0" and al: "al_allocate n a = (i, a')"
  shows "(a' = a \<and> i = - 1 \<and> (\<forall>(j, t) \<in> B. t < n)) \<or>
    (\<exists>s B'. (i, s) \<in> B \<and> n \<le> s \<and> (\<forall>(j, t) \<in> B. n \<le> t \<longrightarrow> s \<le> t) \<and> al_rep e a' B'
      \<and> pages_of B' = pages_of B - extent_pages (i, n) \<and> extent_pages (i, n) \<subseteq> pages_of B
      \<and> al_max_idx a' = al_max_idx a \<and> unat (al_size a') = unat (al_size a) + unat n)"
proof -
  let ?xs = "al_free_set a" and ?k = "pack32 n 0" and ?w = "al_new a"
  let ?E = "empty_extent ?w" and ?e = "touch_bound ?w e"
  define it where "it = oset_lower_bound ?k ?xs"
  have sets: "al_sets a (B \<union> ?E)" and ok: "extents_ok ?e (al_max_idx a) B"
    and size: "unat (al_size a) + extents_size B = unat (al_max_idx a)"
    using rep by (simp_all add: al_rep_def)
  have s: "oset_inv ?xs" and set: "set ?xs = (\<lambda>(i, n). pack32 n i) ` (B \<union> ?E)" using sets by (simp_all add: al_sets_def)
  note lb = oset_lower_bound [OF s, where k = ?k, folded it_def]
  have lt: "pack32 t j < ?k \<longleftrightarrow> t < n" for t j by (simp add: pack32_less)
  have idx: "\<exists>i < length ?xs. ?xs ! i = pack32 t j" if "(j, t) \<in> B" for j t
  proof -
    have "pack32 t j \<in> set ?xs" using that set by force
    then show ?thesis by (simp add: in_set_conv_nth)
  qed
  show ?thesis
  proof (cases "it = length ?xs")
    case True
    have "t < n" if jt: "(j, t) \<in> B" for j t
    proof -
      obtain k where "k < length ?xs" "?xs ! k = pack32 t j" using idx [OF jt] by blast
      then show ?thesis using lb(1) [of k] lt [of t j] True by metis
    qed
    moreover have "a' = a \<and> i = - 1" using al True by (simp add: al_allocate_def it_def [symmetric])
    ultimately show ?thesis by auto
  next
    case False
    then have i1: "it < length ?xs" using lb(3) by simp
    then obtain j t where j0: "(j, t) \<in> B \<union> ?E" "?xs ! it = pack32 t j" using nth_mem [OF i1] set by auto
    have nt: "n \<le> t" using lb(2) [of it] i1 j0(2) lt [of t j] by (metis le_refl linorder_not_less)
    have "t \<noteq> 0" using nt n by (metis word_le_0_iff)
    then have j: "(j, t) \<in> B" "?xs ! it = pack32 t j" using j0 empty_extent_cases by blast+
    have best: "t \<le> t'" if jt: "(j', t') \<in> B" "n \<le> t'" for j' t'
    proof -
      obtain k where k: "k < length ?xs" "?xs ! k = pack32 t' j'" using idx [OF jt(1)] by blast
      have "it \<le> k" using lb(1) [of k] lt [of t' j'] jt(2) k(2) by (metis linorder_not_less)
      then have "?xs ! it \<le> ?xs ! k"
        using s k(1) by (cases "it = k") (auto simp: oset_inv_def sorted_wrt_iff_nth_less intro: less_imp_le)
      then show ?thesis using pack32_less [of t' j' t j] j(2) k(2) by (metis linorder_not_less)
    qed
    have jt: "0 < unat t" "unat j + unat t \<le> unat (al_max_idx a)" using extents_pos [OF ok j(1)] by simp_all
    have un: "unat n \<le> unat t" "0 < unat n" using nt n by (simp_all add: word_le_nat_alt unat_gt_0)
    let ?B1 = "B - {(j, t)}" and ?r = "(j + n, t - n)"
    let ?a1 = "a\<lparr>al_free_set := oset_erase (pack32 t j) ?xs, al_idx_set := oset_erase (pack32 j t) (al_idx_set a)\<rparr>"
    have "B \<union> ?E - {(j, t)} = ?B1 \<union> ?E" using \<open>t \<noteq> 0\<close> by (auto simp: empty_extent_def)
    then have s1: "al_sets ?a1 (?B1 \<union> ?E)"
      using al_erase_sets [OF sets, where i = j and n = t] by (simp add: al_sets_def)
    have ok1: "extents_ok ?e (al_max_idx a) ?B1" by (rule extents_subset [OF ok]) blast
    note sp = pages_of_split [OF ok j(1)]
    define a2 where "a2 = (if n < t then al_insert (j + n, t - n, ?a1) else ?a1)"
    define B' where "B' = (if n < t then insert ?r ?B1 else ?B1)"
    have a': "i = j" "a' = a2\<lparr>al_size := al_size a + n\<rparr>"
      using al False j(2) unfolding al_allocate_def Let_def it_def [symmetric] a2_def
      by (auto simp: al_insert_def split: if_splits)
    have res: "al_sets a2 (B' \<union> ?E) \<and> extents_ok ?e (al_max_idx a) B' \<and> pages_of B' = pages_of B - extent_pages (j, n)
        \<and> extents_size B' + unat n = extents_size B"
    proof (cases "n < t")
      case False
      then have "t = n" using nt by simp
      then have "pages_of ?B1 = pages_of B - extent_pages (j, n)" using sp(1,2) by blast
      then show ?thesis using s1 ok1 sp(3) False \<open>t = n\<close> by (simp add: a2_def B'_def del: extent_pages.simps)
    next
      case True
      have ur: "unat (j + n) = unat j + unat n" "unat (t - n) = unat t - unat n"
        using jt un nt by (auto intro!: unat_add_max [of j n "al_max_idx a"] simp: unat_sub)
      have pg: "extent_pages (j, t) = extent_pages (j, n) \<union> extent_pages ?r" "extent_pages (j, n) \<inter> extent_pages ?r = {}"
        using un by (auto simp: ur)
      have nl: "unat n < unat t" using True by (simp add: word_less_nat_alt)
      have M: "merging ?w ?e (al_max_idx a) (pages_of ?B1 \<union> extent_pages ?r) (extents_size ?B1 + unat (t - n))
          (j + n, t - n, ?a1) ?B1"
        unfolding merging_def prod.case
      proof (intro conjI s1 ok1 refl)
        show "t - n \<noteq> 0" using nl ur(2) by (metis diff_is_0_eq linorder_not_le unat_eq_zero)
        show "unat (j + n) + unat (t - n) \<le> unat (al_max_idx a)" using ur jt un by simp
        show "pages_of ?B1 \<inter> extent_pages ?r = {}" using sp(2) pg(1) by blast
      qed
      have "(unat k + unat u = unat (j + n) \<longrightarrow> unat (j + n) \<le> ?e) \<and> (unat (j + n) + unat (t - n) = unat k \<longrightarrow> unat k \<le> ?e)"
        if ku: "(k, u) \<in> ?B1" for k u
      proof -
        have kB: "(k, u) \<in> B" "(k, u) \<noteq> (j, t)" using ku by blast+
        note bs = extents_beside [OF ok kB(1) j(1) kB(2)]
        have "unat k + unat u \<noteq> unat j + unat n" using bs un nl extents_pos [OF ok kB(1)] by linarith
        moreover have "unat k \<le> ?e" if "unat j + unat t = unat k" by (rule extents_touch [OF ok j(1) kB(1) that])
        ultimately show ?thesis using ur un by simp
      qed
      then have tch: "\<forall>(k, u) \<in> ?B1. (unat k + unat u = unat (j + n) \<longrightarrow> unat (j + n) \<le> ?e)
          \<and> (unat (j + n) + unat (t - n) = unat k \<longrightarrow> unat k \<le> ?e)"
        by blast
      note d = merging_done [OF M tch]
      have "pages_of ?B1 \<union> extent_pages ?r = pages_of B - extent_pages (j, n)"
        using sp(1,2) pg by blast
      then show ?thesis using d True sp(3) ur(2) un by (simp add: a2_def B'_def)
    qed
    have mx: "al_max_idx a2 = al_max_idx a" by (simp add: a2_def al_insert_def)
    have "extents_size B' + unat n = extents_size B" using res by simp
    then have sz: "unat (al_size a) + unat n \<le> unat (al_max_idx a)" using size by simp
    then have usz: "unat (al_size a + n) = unat (al_size a) + unat n" by (rule unat_add_max)
    have s': "al_sets a' (B' \<union> ?E)" using res by (simp add: a'(2) al_sets_def)
    have w: "al_new a' = ?w" by (rule al_new_sets [OF s']) (use res in \<open>auto simp: extents_ok_def\<close>)
    have "al_rep e a' B'" unfolding al_rep_def w using res mx usz size s' by (simp add: a'(2))
    moreover have "extent_pages (j, n) \<subseteq> extent_pages (j, t)" using un by auto
    with sp(1) have "extent_pages (j, n) \<subseteq> pages_of B" by blast
    moreover have "\<forall>(j', t') \<in> B. n \<le> t' \<longrightarrow> t \<le> t'" using best by blast
    ultimately show ?thesis unfolding a'(1) using res mx usz nt j(1)
      by (intro disjI2 exI [of _ t] exI [of _ B'] conjI) (simp_all add: a'(2) del: extent_pages.simps)
  qed
qed

text \<open>A run of consecutive free pages beyond the last position where extents may touch lies in one extent.\<close>

lemma free_interval:
  assumes ok: "extents_ok e m B" and n: "0 < k" and sub: "{i..<i + k} \<subseteq> pages_of B" and e: "e \<le> i"
  shows "\<exists>(j, t) \<in> B. k \<le> unat t"
proof -
  have "i \<in> pages_of B" using sub n by auto
  then obtain j t where j: "(j, t) \<in> B" "unat j \<le> i" "i < unat j + unat t" by (auto simp: pages_of_def)
  have "i + k \<le> unat j + unat t"
  proof (rule ccontr)
    assume "\<not> i + k \<le> unat j + unat t"
    then have "unat j + unat t \<in> pages_of B" using sub j by auto
    then obtain j' t' where j': "(j', t') \<in> B" "unat j' \<le> unat j + unat t" "unat j + unat t < unat j' + unat t'"
      by (auto simp: pages_of_def)
    then have "(j, t) \<noteq> (j', t')" by auto
    from extents_beside [OF ok j(1) j'(1) this] have "unat j + unat t = unat j'" using j' j by linarith
    then show False using extents_touch [OF ok j(1) j'(1)] e j(3) by simp
  qed
  then have "k \<le> unat t" using j(2) by linarith
  then show ?thesis using j(1) by blast
qed

section \<open>Any sequence of calls\<close>

text \<open>
  The states a client can bring the allocator to, with the extents it holds, by their position, and the end of
  the highest page it ever held. It gives back only extents it was given, and extends by nothing only when there is
  nothing yet, as the disk does for a new image. A failed allocation changes nothing.
\<close>

inductive al_run :: "allocator \<Rightarrow> (u32 \<rightharpoonup> u32) \<Rightarrow> nat \<Rightarrow> bool" where
  ar_init: "al_run allocator_init Map.empty 0"
| ar_extend: "al_run a L h \<Longrightarrow> n \<noteq> 0 \<or> al_max_idx a = 0 \<Longrightarrow> unat (al_max_idx a) + unat n < 2 ^ 32 \<Longrightarrow>
    al_extend n a = Inr a' \<Longrightarrow> al_run a' L h"
| ar_allocate: "al_run a L h \<Longrightarrow> n \<noteq> 0 \<Longrightarrow> al_allocate n a = (i, a') \<Longrightarrow> i \<noteq> - 1 \<Longrightarrow>
    al_run a' (L(i \<mapsto> n)) (max h (unat i + unat n))"
| ar_free: "al_run a L h \<Longrightarrow> L i = Some n \<Longrightarrow> al_free i n a = Inr a' \<Longrightarrow> al_run a' (L(i := None)) h"

text \<open>The extents held and the free ones share out the pages below the capacity; those held lie below \<open>e\<close>.\<close>

definition held_ok :: "nat \<Rightarrow> allocator \<Rightarrow> extent set \<Rightarrow> extent set \<Rightarrow> bool" where
  "held_ok e a H B \<longleftrightarrow> al_rep e a B \<and> (\<forall>(i, n) \<in> H. n \<noteq> 0)
     \<and> (\<forall>b \<in> H. \<forall>c \<in> H. b \<noteq> c \<longrightarrow> extent_pages b \<inter> extent_pages c = {})
     \<and> pages_of H = {..<unat (al_max_idx a)} - pages_of B \<and> pages_of H \<subseteq> {..<e}"

lemma held_okD:
  assumes "held_ok e a H B"
  shows "al_rep e a B" "extents_ok (touch_bound (al_new a) e) (al_max_idx a) B"
    "pages_of H = {..<unat (al_max_idx a)} - pages_of B" "pages_of H \<subseteq> {..<e}" "\<forall>(i, n) \<in> H. n \<noteq> 0"
  using assms unfolding held_ok_def al_rep_def by blast+

lemma held_mono: "held_ok e a H B \<Longrightarrow> e \<le> e' \<Longrightarrow> held_ok e' a H B"
  using al_rep_mono [of e a B e'] by (auto simp: held_ok_def)

lemma held_init: "held_ok 0 allocator_init {} {}"
  using al_rep_init [of 0] by (simp add: held_ok_def pages_of_def) (simp add: allocator_init_def)

lemma extents_size_card: "extents_ok e m B \<Longrightarrow> card (pages_of B) = extents_size B"
proof -
  assume ok: "extents_ok e m B"
  have "card (pages_of B) = (\<Sum>b \<in> B. card (extent_pages b))"
    unfolding pages_of_def
    by (rule card_UN_disjoint) (use ok extents_disjoint [OF ok] in \<open>auto simp: extents_ok_def\<close>)
  also have "\<dots> = extents_size B" unfolding extents_size_def by (rule sum.cong) auto
  finally show ?thesis .
qed

lemma held_size:
  assumes "held_ok e a H B"
  shows "card (pages_of H) = unat (al_size a)" "finite (pages_of H)"
proof -
  note ok = held_okD(2) [OF assms] and hp = held_okD(3) [OF assms]
  have sz: "unat (al_size a) + extents_size B = unat (al_max_idx a)"
    using held_okD(1) [OF assms] by (simp add: al_rep_def)
  have sub: "pages_of B \<subseteq> {..<unat (al_max_idx a)}" using pages_of_bound [OF ok] by blast
  then have "card (pages_of H) = unat (al_max_idx a) - card (pages_of B)"
    unfolding hp by (subst card_Diff_subset) (auto intro: finite_subset)
  then show "card (pages_of H) = unat (al_size a)" using sz extents_size_card [OF ok] by simp
  show "finite (pages_of H)" unfolding hp by simp
qed

lemma held_free:
  assumes held: "held_ok e a H B" and h: "(i, n) \<in> H"
  shows "\<exists>a' B'. al_free i n a = Inr a' \<and> held_ok e a' (H - {(i, n)}) B'"
proof -
  note rep = held_okD(1) [OF held] and hp = held_okD(3) [OF held] and he = held_okD(4) [OF held]
  have nz: "n \<noteq> 0" and dj: "\<And>b. b \<in> H \<Longrightarrow> b \<noteq> (i, n) \<Longrightarrow> extent_pages b \<inter> extent_pages (i, n) = {}"
    using held h unfolding held_ok_def by blast+
  have ep: "extent_pages (i, n) \<subseteq> pages_of H" using h unfolding pages_of_def by blast
  then have dis: "pages_of B \<inter> extent_pages (i, n) = {}" and sub: "extent_pages (i, n) \<subseteq> {..<unat (al_max_idx a)}"
    using hp by blast+
  have n0: "0 < unat n" using nz by (simp add: unat_gt_0)
  then have last: "unat i + unat n - 1 \<in> extent_pages (i, n)" by auto
  then have bd: "unat i + unat n \<le> unat (al_max_idx a)" using sub n0 by fastforce
  have "unat i + unat n - 1 < e" using last ep he by blast
  then have low: "i = 0 \<Longrightarrow> unat n \<le> e" by simp
  have "unat n = card (extent_pages (i, n))" by simp
  also have "\<dots> \<le> card (pages_of H)" by (rule card_mono [OF held_size(2) [OF held] ep])
  finally have le: "n \<le> al_size a" using held_size(1) [OF held] by (simp add: word_le_nat_alt)
  obtain a' B' where f: "al_free i n a = Inr a'" "al_rep e a' B'" "pages_of B' = pages_of B \<union> extent_pages (i, n)"
    "al_max_idx a' = al_max_idx a"
    using al_free_rep [OF rep nz bd dis le low] by blast
  have "pages_of H = pages_of (H - {(i, n)}) \<union> extent_pages (i, n)" using h unfolding pages_of_def by blast
  moreover have "pages_of (H - {(i, n)}) \<inter> extent_pages (i, n) = {}" using dj unfolding pages_of_def by blast
  ultimately have "pages_of (H - {(i, n)}) = {..<unat (al_max_idx a')} - pages_of B'" "pages_of (H - {(i, n)}) \<subseteq> {..<e}"
    unfolding f(3,4) using hp he by blast+
  then have "held_ok e a' (H - {(i, n)}) B'" using held f(2) unfolding held_ok_def by blast
  then show ?thesis using f(1) by blast
qed

lemma held_extend:
  assumes held: "held_ok e a H B" and n: "n \<noteq> 0 \<or> al_max_idx a = 0" "unat (al_max_idx a) + unat n < 2 ^ 32"
  shows "\<exists>a' B'. al_extend n a = Inr a' \<and> held_ok e a' H B' \<and> unat (al_max_idx a') = unat (al_max_idx a) + unat n"
proof (cases "n = 0")
  case False
  note rep = held_okD(1) [OF held]
  have ok: "extents_ok (touch_bound (al_new a) e) (al_max_idx a) B" using rep by (simp add: al_rep_def)
  obtain a' B' where f: "al_extend n a = Inr a'" "al_rep e a' B'"
      "pages_of B' = pages_of B \<union> {unat (al_max_idx a)..<unat (al_max_idx a) + unat n}"
      "unat (al_max_idx a') = unat (al_max_idx a) + unat n"
    using al_extend_rep [OF rep False n(2)] by auto
  have "{..<unat (al_max_idx a')} - pages_of B' = {..<unat (al_max_idx a)} - pages_of B"
    unfolding f(3,4) by auto
  then have "held_ok e a' H B'" using held f(2) unfolding held_ok_def by metis
  then show ?thesis using f by blast
next
  case True
  then have m: "al_max_idx a = 0" using n(1) by simp
  from al_extend_empty [OF held_okD(1) [OF held] m] obtain a' where "al_extend 0 a = Inr a'" "al_rep e a' B" "al_max_idx a' = 0"
    by blast
  then show ?thesis using True m held by (auto simp: held_ok_def)
qed

lemma held_allocate:
  assumes held: "held_ok e a H B" and n: "n \<noteq> 0" and al: "al_allocate n a = (i, a')" and i: "i \<noteq> - 1"
    and e': "e \<le> e'" "unat i + unat n \<le> e'"
  shows "\<exists>B'. held_ok e' a' (insert (i, n) H) B'" and "\<forall>t. (i, t) \<notin> H"
proof -
  note rep = held_okD(1) [OF held] and hp = held_okD(3) [OF held] and he = held_okD(4) [OF held]
    and nz = held_okD(5) [OF held] and ok = held_okD(2) [OF held]
  obtain B' where f: "al_rep e a' B'" "pages_of B' = pages_of B - extent_pages (i, n)"
      "extent_pages (i, n) \<subseteq> pages_of B" "al_max_idx a' = al_max_idx a"
    using al_allocate_rep [OF rep n al] i by blast
  have n0: "0 < unat n" using n by (simp add: unat_gt_0)
  have dj: "extent_pages b \<inter> extent_pages (i, n) = {}" if "b \<in> H" for b
  proof -
    have "extent_pages b \<subseteq> pages_of H" using that unfolding pages_of_def by blast
    then show ?thesis using hp f(3) by blast
  qed
  show "\<forall>t. (i, t) \<notin> H"
  proof (intro allI notI)
    fix t
    assume t: "(i, t) \<in> H"
    then have "0 < unat t" using nz by (auto simp: unat_gt_0)
    then have "unat i \<in> extent_pages (i, t) \<inter> extent_pages (i, n)" using n0 by simp
    then show False using dj [OF t] by blast
  qed
  have un: "pages_of (insert (i, n) H) = pages_of H \<union> extent_pages (i, n)" unfolding pages_of_def by blast
  moreover have "pages_of B \<subseteq> {..<unat (al_max_idx a)}" using pages_of_bound [OF ok] by blast
  ultimately have pg: "pages_of (insert (i, n) H) = {..<unat (al_max_idx a')} - pages_of B'"
    unfolding f(2,4) using hp f(3) by blast
  have "pages_of (insert (i, n) H) \<subseteq> {..<e'}" unfolding un using he e' by auto
  moreover have "\<forall>b \<in> insert (i, n) H. \<forall>c \<in> insert (i, n) H. b \<noteq> c \<longrightarrow> extent_pages b \<inter> extent_pages c = {}"
    using held dj unfolding held_ok_def by blast
  ultimately have "held_ok e' a' (insert (i, n) H) B'"
    using al_rep_mono [OF f(1) e'(1)] pg n nz unfolding held_ok_def by blast
  then show "\<exists>B'. held_ok e' a' (insert (i, n) H) B'" by blast
qed

lemma al_run_held: "al_run a L h \<Longrightarrow> \<exists>B. held_ok h a (Map.graph L) B"
proof (induction rule: al_run.induct)
  case ar_init
  then show ?case using held_init by auto
next
  case (ar_extend a L h n a')
  then obtain B where B: "held_ok h a (Map.graph L) B" by blast
  show ?case using held_extend [OF B ar_extend.hyps(2,3)] ar_extend.hyps(4) by auto
next
  case (ar_allocate a L h n i a')
  then obtain B where B: "held_ok h a (Map.graph L) B" by blast
  have e: "h \<le> max h (unat i + unat n)" "unat i + unat n \<le> max h (unat i + unat n)" by simp_all
  note al = held_allocate [OF B ar_allocate.hyps(2-4) e]
  have "L i = None" using al(2) by (metis in_graphI not_None_eq)
  then have "Map.graph (L(i \<mapsto> n)) = insert (i, n) (Map.graph L)" by (simp add: fun_upd_idem)
  then show ?case using al(1) by (simp only:)
next
  case (ar_free a L h i n a')
  then obtain B where B: "held_ok h a (Map.graph L) B" by blast
  have "(i, n) \<in> Map.graph L" using ar_free.hyps(2) by (simp add: graph_def)
  moreover have "Map.graph (L(i := None)) = Map.graph L - {(i, n)}"
    using ar_free.hyps(2) by (auto simp: graph_def split: if_splits)
  ultimately show ?case using held_free [OF B, of i n] ar_free.hyps(3) by (metis Inr_inject)
qed

text \<open>
  C11: Whatever a client does with the allocator, no two extents it holds share a page and all lie
  below the capacity, the allocator's size is the number of pages held, and giving back a held extent
  succeeds. The allocator may have been extended by nothing at first, as for a new image.
\<close>

theorem allocator_exclusive:
  assumes "al_run a L h"
  shows "(\<forall>i m j n. L i = Some m \<longrightarrow> L j = Some n \<longrightarrow> i \<noteq> j \<longrightarrow> extent_pages (i, m) \<inter> extent_pages (j, n) = {})
    \<and> pages_of (Map.graph L) \<subseteq> {..<unat (al_max_idx a)} \<and> unat (al_size a) = card (pages_of (Map.graph L))
    \<and> (\<forall>i n. L i = Some n \<longrightarrow> (\<exists>a'. al_free i n a = Inr a'))"
proof (intro conjI allI impI)
  obtain B where B: "held_ok h a (Map.graph L) B" using al_run_held [OF assms] by blast
  show "pages_of (Map.graph L) \<subseteq> {..<unat (al_max_idx a)}" using B by (auto simp: held_ok_def)
  show "unat (al_size a) = card (pages_of (Map.graph L))" using held_size(1) [OF B] by simp
  show "\<exists>a'. al_free i n a = Inr a'" if "L i = Some n" for i n
    using held_free [OF B, of i n] that by (auto simp: graph_def)
  fix i m j n
  assume "L i = Some m" "L j = Some n" "i \<noteq> j"
  then have "(i, m) \<in> Map.graph L" "(j, n) \<in> Map.graph L" "(i, m) \<noteq> (j, n)" by (auto simp: graph_def)
  moreover have "\<forall>b \<in> Map.graph L. \<forall>c \<in> Map.graph L. b \<noteq> c \<longrightarrow> extent_pages b \<inter> extent_pages c = {}"
    using B by (simp add: held_ok_def)
  ultimately show "extent_pages (i, m) \<inter> extent_pages (j, n) = {}" by blast
qed

text \<open>
  C12: An allocation gives consecutive free pages or, when it fails, changes nothing. On an image that was not
  empty at first it fails only when no run of that many pages is free anywhere: free extents are always merged. On a
  new image, whose empty extent at 0 keeps neighbours from being merged, it fails only when there is no such run
  beyond the highest page that was ever held, so it may fail although one is free below.
\<close>

theorem allocator_complete:
  assumes "al_run a L h" "n \<noteq> 0" "al_allocate n a = (i, a')"
  shows "if i = - 1
    then a' = a \<and> (\<forall>k \<ge> (if al_new a then h else 0).
      \<not> {k..<k + unat n} \<subseteq> {..<unat (al_max_idx a)} - pages_of (Map.graph L))
    else extent_pages (i, n) \<subseteq> {..<unat (al_max_idx a)} - pages_of (Map.graph L)"
proof -
  obtain B where B: "held_ok h a (Map.graph L) B" using al_run_held [OF assms(1)] by blast
  note rep = held_okD(1) [OF B] and hp = held_okD(3) [OF B] and ok = held_okD(2) [OF B]
  have fr: "{..<unat (al_max_idx a)} - pages_of (Map.graph L) = pages_of B"
    unfolding hp using pages_of_bound [OF ok] by blast
  have n0: "0 < unat n" using assms(2) by (simp add: unat_gt_0)
  from al_allocate_rep [OF rep assms(2,3)]
  consider "a' = a" "i = - 1" "\<forall>(j, t) \<in> B. t < n"
    | s where "(i, s) \<in> B" "n \<le> s" "extent_pages (i, n) \<subseteq> pages_of B" by blast
  then show ?thesis
  proof cases
    case 1
    have "\<not> {k..<k + unat n} \<subseteq> pages_of B" if "(if al_new a then h else 0) \<le> k" for k
    proof
      assume sub: "{k..<k + unat n} \<subseteq> pages_of B"
      have "touch_bound (al_new a) h \<le> k" using that by (simp add: touch_bound_def)
      from free_interval [OF ok n0 sub this] show False using 1(3) by (fastforce simp: word_less_nat_alt)
    qed
    then show ?thesis using 1 unfolding fr by simp
  next
    case (2 s)
    have "unat i < unat (al_max_idx a)" using extents_pos [OF ok 2(1)] by simp
    then have "i \<noteq> - 1" using word_n1_ge [of "al_max_idx a"] by (auto simp: word_less_nat_alt word_le_nat_alt)
    then show ?thesis using 2(3) unfolding fr by auto
  qed
qed

lemma al_run_one:
  defines "a1 \<equiv> \<lparr>al_free_set = [pack32 8 0], al_idx_set = [pack32 0 8], al_max_idx = 8, al_size = 0\<rparr>"
  shows "al_run a1 Map.empty 0" and "fst (al_allocate 3 a1) = 0" and "fst (al_allocate 9 a1) = - 1"
proof -
  have "al_extend 8 allocator_init = Inr a1"
    unfolding a1_def by (simp add: al_extend_def al_free_def al_insert_def oset_insert_def allocator_init_def)
  then show "al_run a1 Map.empty 0"
    by (intro ar_extend [OF ar_init, of 8]) (simp_all add: allocator_init_def)
  show "fst (al_allocate 3 a1) = 0" "fst (al_allocate 9 a1) = - 1"
    unfolding a1_def by (simp_all add: al_allocate_def oset_lower_bound_def pack32_less Let_def)
qed

text \<open>A new image: nothing, then 8 pages, of which 3 are held.\<close>

theorem allocator_exclusive_witness:
  "\<exists>a L a'. al_run a L 3 \<and> al_new a \<and> L 0 = Some 3 \<and> unat (al_size a) = card (pages_of (Map.graph L)) \<and> al_free 0 3 a = Inr a'"
proof -
  let ?a0 = "\<lparr>al_free_set = [pack32 0 0], al_idx_set = [pack32 0 0], al_max_idx = 0, al_size = 0\<rparr>"
  let ?a1 = "\<lparr>al_free_set = [pack32 0 0, pack32 8 0], al_idx_set = [pack32 0 0, pack32 0 8], al_max_idx = 8, al_size = 0\<rparr>"
  let ?a2 = "\<lparr>al_free_set = [pack32 0 0, pack32 5 3], al_idx_set = [pack32 0 0, pack32 3 5], al_max_idx = 8, al_size = 3\<rparr>"
  note eval = al_free_def al_allocate_def al_extend_def oset_lower_bound_def oset_insert_def oset_erase_def pack32_less
    al_neighbours_def al_merge_prev_def al_merge_next_def al_insert_def Let_def
  have "al_extend 0 allocator_init = Inr ?a0" by (simp add: eval allocator_init_def)
  from ar_extend [OF ar_init _ _ this] have r0: "al_run ?a0 Map.empty 0" by (simp add: allocator_init_def)
  have "al_extend 8 ?a0 = Inr ?a1" by (simp add: eval)
  from ar_extend [OF r0 _ _ this] have r1: "al_run ?a1 Map.empty 0" by simp
  have "al_allocate 3 ?a1 = (0, ?a2)" by (simp add: eval)
  from ar_allocate [OF r1 _ this] have r2: "al_run ?a2 [0 \<mapsto> 3] 3" by simp
  have "al_new ?a2" by (simp add: al_new_def)
  then show ?thesis using allocator_exclusive [OF r2] r2 by (metis fun_upd_same)
qed

theorem allocator_complete_witness:
  "\<exists>a L a'. al_run a L 0 \<and> \<not> al_new a \<and> al_allocate 9 a = (- 1, a')
    \<and> \<not> {0..<9} \<subseteq> {..<unat (al_max_idx a)} - pages_of (Map.graph L)"
proof -
  let ?a = "\<lparr>al_free_set = [pack32 8 0], al_idx_set = [pack32 0 8], al_max_idx = 8, al_size = 0\<rparr>"
  obtain a' where a': "al_allocate 9 ?a = (- 1, a')" using al_run_one(3) by (metis prod.collapse)
  have "(9 :: u32) \<noteq> 0" by simp
  from allocator_complete [OF al_run_one(1) this a']
  have "\<not> {0..<0 + unat (9 :: u32)} \<subseteq> {..<unat (al_max_idx ?a)} - pages_of (Map.graph Map.empty)"
    by (simp only: if_True if_False simp_thms le0 split: if_splits)
  moreover have "\<not> al_new ?a" by (simp add: al_new_def)
  ultimately show ?thesis using a' al_run_one(1) by fastforce
qed

end
