(* ===== verification/Message.thy ===== *)
theory Message
  imports Prelude
begin

text \<open>
  The message format: elements (\<open>message/element.h\<close>), building (\<open>message/builder.h\<close>) and parsing
  (\<open>message/parser.h\<close>). A message lives in a caller's buffer; pointers into it are positions. What
  is parsed at the place an element was serialized to is shown to be the element, and where it is not.
\<close>

section \<open>Memory\<close>

abbreviation mem_peek :: "nat \<Rightarrow> nat \<Rightarrow> bytes \<Rightarrow> bytes" where
  "mem_peek n i buf \<equiv> peek buf i n"

abbreviation mem_poke :: "nat \<Rightarrow> bytes \<Rightarrow> bytes \<Rightarrow> bytes" where
  "mem_poke i bs buf \<equiv> poke buf i bs"

text \<open>Reading and writing past the end of the buffer is undefined.\<close>

definition mem_read :: "nat \<Rightarrow> nat \<Rightarrow> bytes \<Rightarrow> bytes res" where
  "mem_read n i buf = (if i + n \<le> length buf then Inr (mem_peek n i buf) else Inl Undefined)"

definition mem_write :: "nat \<Rightarrow> bytes \<Rightarrow> bytes \<Rightarrow> bytes res" where
  "mem_write i bs buf = (if i + length bs \<le> length buf then Inr (mem_poke i bs buf) else Inl Undefined)"

lemma peek_poke_field: "i + length bs \<le> length buf \<Longrightarrow> n = length bs \<Longrightarrow> mem_peek n i (mem_poke i bs buf) = bs"
  by (simp add: peek_poke_same)

section \<open>Building\<close>

record builder =
  b_buffer :: bytes
  b_max_size :: u16
  b_offset :: u16

definition builder_init :: "bytes \<Rightarrow> u16 \<Rightarrow> builder" where
  "builder_init buffer max_size = \<lparr>b_buffer = buffer, b_max_size = max_size, b_offset = 0\<rparr>"

definition available_space :: "builder \<Rightarrow> u16" where
  "available_space b = b_max_size b - b_offset b"

definition insufficient_space :: fault where
  "insufficient_space = Thrown ''insufficient_space_error''"

definition malformed_message :: fault where
  "malformed_message = Thrown ''malformed_message_error''"

text \<open>\<open>memcpy\<close> to the current position, which moves behind what was copied.\<close>

definition b_copy :: "bytes \<Rightarrow> builder \<Rightarrow> builder res" where
  "b_copy bs b = res_bind (mem_write (unat (b_offset b)) bs (b_buffer b)) (\<lambda>buf.
     Inr (b\<lparr>b_buffer := buf, b_offset := b_offset b + of_nat (length bs)\<rparr>))"

text \<open>\<open>integral_type<T>\<close>: the type of the value is the type \<open>T\<close>, as a word of its width.\<close>

definition integral_serialize :: "'a::len word \<Rightarrow> builder \<Rightarrow> builder res" where
  "integral_serialize v b =
     (let n = LENGTH('a) div 8 in
      if unat (b_offset b) + n > unat (b_max_size b) then Inl insufficient_space
      else b_copy (le_bytes n v) b)"

definition container_serialize :: "bytes \<Rightarrow> builder \<Rightarrow> builder res" where
  "container_serialize v b =
     res_assert (length v < 65536)
       (let n = of_nat (length v) :: u16 in
        if unat (b_offset b) + 2 + unat n > unat (b_max_size b) then Inl insufficient_space
        else res_bind (b_copy (le_bytes 2 n) b) (b_copy v))"

text \<open>
  \<open>struct_builder\<close>: \<open>sb_live\<close> is whether \<open>m_builder\<close> is set; \<open>m_size\<close>, \<open>m_offsets\<close> and \<open>m_static\<close> are
  the positions after one another from \<open>m_offset\<close>. \<open>sb_count\<close> and \<open>sb_static_size\<close> are the template
  parameters.
\<close>

record struct_builder =
  sb_count :: nat
  sb_static_size :: nat
  sb_live :: bool
  sb_offset :: u16

definition sb_min_size :: "nat \<Rightarrow> nat \<Rightarrow> nat" where
  "sb_min_size element_count static_size = 2 + 2 * element_count + static_size"

definition struct_builder_init :: "nat \<Rightarrow> nat \<Rightarrow> builder \<Rightarrow> (struct_builder \<times> builder) res" where
  "struct_builder_init element_count static_size b =
     (let min_size = sb_min_size element_count static_size in
      res_assert (unat (b_offset b) + min_size \<le> unat (b_max_size b))
        (res_bind (b_copy (replicate min_size 0) b) (\<lambda>b'.
           Inr (\<lparr>sb_count = element_count, sb_static_size = static_size, sb_live = True, sb_offset = b_offset b\<rparr>, b'))))"

definition sb_offsets_pos :: "struct_builder \<Rightarrow> nat \<Rightarrow> nat" where
  "sb_offsets_pos s k = unat (sb_offset s) + 2 + 2 * k"

definition sb_static_pos :: "struct_builder \<Rightarrow> nat \<Rightarrow> nat" where
  "sb_static_pos s k = unat (sb_offset s) + 2 + 2 * sb_count s + k"

definition sb_finalize :: "struct_builder \<times> builder \<Rightarrow> (struct_builder \<times> builder) res" where
  "sb_finalize sb = (case sb of (s, b) \<Rightarrow>
     res_assert (sb_live s)
       (res_bind (mem_write (unat (sb_offset s)) (le_bytes 2 (b_offset b - sb_offset s - 2)) (b_buffer b)) (\<lambda>buf.
          Inr (s\<lparr>sb_live := False\<rparr>, b\<lparr>b_buffer := buf\<rparr>))))"

definition sb_destroy :: "struct_builder \<times> builder \<Rightarrow> (struct_builder \<times> builder) res" where
  "sb_destroy sb = (if sb_live (fst sb) then sb_finalize sb else Inr sb)"

definition sb_set_offset :: "nat \<Rightarrow> struct_builder \<times> builder \<Rightarrow> (struct_builder \<times> builder) res" where
  "sb_set_offset k sb = (case sb of (s, b) \<Rightarrow>
     res_bind (mem_read 2 (sb_offsets_pos s k) (b_buffer b)) (\<lambda>bs.
     res_assert (le_word bs = (0 :: u16))
       (if \<not> sb_live s then Inl Undefined
        else res_bind (mem_write (sb_offsets_pos s k) (le_bytes 2 (b_offset b - sb_offset s)) (b_buffer b)) (\<lambda>buf.
          Inr (s, b\<lparr>b_buffer := buf\<rparr>)))))"

text \<open>\<open>add_value\<close> through a structure or a list; \<open>ser\<close> is the serializer of the element type.\<close>

definition sb_add_value :: "(builder \<Rightarrow> builder res) \<Rightarrow> struct_builder \<times> builder \<Rightarrow> (struct_builder \<times> builder) res" where
  "sb_add_value ser sb = (case sb of (s, b) \<Rightarrow>
     res_assert (sb_live s) (res_bind (ser b) (\<lambda>b'. Inr (s, b'))))"

record list_builder =
  lb_live :: bool
  lb_elements :: nat

definition list_builder_init :: "builder \<Rightarrow> (list_builder \<times> builder) res" where
  "list_builder_init b =
     res_assert (unat (b_offset b) + 2 \<le> unat (b_max_size b))
       (res_bind (b_copy (le_bytes 2 (0 :: u16)) b) (\<lambda>b'.
          Inr (\<lparr>lb_live = True, lb_elements = unat (b_offset b)\<rparr>, b')))"

definition lb_finalize :: "list_builder \<times> builder \<Rightarrow> (list_builder \<times> builder) res" where
  "lb_finalize lb = res_assert (lb_live (fst lb)) (Inr ((fst lb)\<lparr>lb_live := False\<rparr>, snd lb))"

definition lb_destroy :: "list_builder \<times> builder \<Rightarrow> (list_builder \<times> builder) res" where
  "lb_destroy lb = (if lb_live (fst lb) then lb_finalize lb else Inr lb)"

definition lb_add_element :: "list_builder \<times> builder \<Rightarrow> (list_builder \<times> builder) res" where
  "lb_add_element lb = (case lb of (l, b) \<Rightarrow>
     res_assert (lb_live l)
       (res_bind (mem_read 2 (lb_elements l) (b_buffer b)) (\<lambda>bs.
        res_bind (mem_write (lb_elements l) (le_bytes 2 (le_word bs + 1 :: u16)) (b_buffer b)) (\<lambda>buf.
          Inr (l, b\<lparr>b_buffer := buf\<rparr>)))))"

definition lb_add_value :: "(builder \<Rightarrow> builder res) \<Rightarrow> list_builder \<times> builder \<Rightarrow> (list_builder \<times> builder) res" where
  "lb_add_value ser lb = (case lb of (l, b) \<Rightarrow>
     if \<not> lb_live l then Inl Undefined else res_bind (ser b) (\<lambda>b'. Inr (l, b')))"

section \<open>Parsing\<close>

record parser =
  p_buffer :: bytes
  p_size :: u16

definition parser_init :: "bytes \<Rightarrow> u16 \<Rightarrow> parser" where
  "parser_init buffer sz = \<lparr>p_buffer = buffer, p_size = sz\<rparr>"

definition parser_of_view :: "bytes \<Rightarrow> parser" where
  "parser_of_view buffer = \<lparr>p_buffer = buffer, p_size = of_nat (length buffer)\<rparr>"

text \<open>
  \<open>integral_type::parse\<close> takes the position as a \<open>value_type\<close>: the 16-bit position the callers pass
  is first converted to the type of the value, signed or not, and may change.
\<close>

definition as_value_type :: "bool \<Rightarrow> 'a::len itself \<Rightarrow> u16 \<Rightarrow> int" where
  "as_value_type sg TY offset =
     (let v = ucast offset :: 'a word in if sg then sint v else uint v)"

definition integral_parse :: "bool \<Rightarrow> parser \<Rightarrow> u16 \<Rightarrow> 'a::len word res" where
  "integral_parse sg p offset =
     (let i = as_value_type sg TYPE('a) offset; n = LENGTH('a) div 8 in
      if i + int n > uint (p_size p) then Inl malformed_message
      else if i < 0 then Inl Undefined
      else res_bind (mem_read n (nat i) (p_buffer p)) (\<lambda>bs. Inr (le_word bs)))"

definition container_parse :: "parser \<Rightarrow> u16 \<Rightarrow> bytes res" where
  "container_parse p offset =
     (if unat offset + 2 > unat (p_size p) then Inl malformed_message
      else res_bind (mem_read 2 (unat offset) (p_buffer p)) (\<lambda>bs.
        let n = le_word bs :: u16; offset' = offset + 2 in
        if unat offset' + unat n > unat (p_size p) then Inl malformed_message
        else mem_read (unat n) (unat offset') (p_buffer p)))"

record struct_parser =
  sp_parser :: parser
  sp_count :: nat
  sp_offset :: u16

definition struct_parser_init :: "nat \<Rightarrow> nat \<Rightarrow> parser \<Rightarrow> u16 \<Rightarrow> struct_parser res" where
  "struct_parser_init element_count static_size p offset =
     (if unat offset + sb_min_size element_count static_size > unat (p_size p) then Inl malformed_message
      else Inr \<lparr>sp_parser = p, sp_count = element_count, sp_offset = offset\<rparr>)"

definition sp_raw_offset :: "nat \<Rightarrow> struct_parser \<Rightarrow> u16 res" where
  "sp_raw_offset k s =
     res_bind (mem_read 2 (unat (sp_offset s) + 2 + 2 * k) (p_buffer (sp_parser s))) (\<lambda>bs. Inr (le_word bs))"

definition sp_has_offset :: "nat \<Rightarrow> struct_parser \<Rightarrow> bool res" where
  "sp_has_offset k s = res_bind (sp_raw_offset k s) (\<lambda>v. Inr (v \<noteq> 0))"

definition sp_offset_at :: "nat \<Rightarrow> struct_parser \<Rightarrow> u16 res" where
  "sp_offset_at k s = res_bind (sp_raw_offset k s) (\<lambda>v.
     if v = 0 then Inl malformed_message
     else if unat (sp_offset s) + unat v > unat (p_size (sp_parser s)) then Inl malformed_message
     else Inr (v + sp_offset s))"

definition sp_static :: "nat \<Rightarrow> struct_parser \<Rightarrow> u16 res" where
  "sp_static k s =
     res_bind (mem_read 2 (unat (sp_offset s) + 2 + 2 * sp_count s + k) (p_buffer (sp_parser s))) (\<lambda>bs. Inr (le_word bs))"

record list_parser =
  lp_parser :: parser
  lp_offset :: u16
  lp_elements :: u16
  lp_element_size :: u16

definition list_parser_init :: "parser \<Rightarrow> u16 \<Rightarrow> list_parser res" where
  "list_parser_init p offset =
     (if unat offset + 2 > unat (p_size p) then Inl malformed_message
      else res_bind (mem_read 2 (unat offset) (p_buffer p)) (\<lambda>bs.
        Inr \<lparr>lp_parser = p, lp_offset = offset + 2, lp_elements = le_word bs, lp_element_size = 0\<rparr>))"

section \<open>Elements come back\<close>

definition builder_ok :: "builder \<Rightarrow> bool" where
  "builder_ok b \<longleftrightarrow> unat (b_max_size b) \<le> length (b_buffer b) \<and> b_offset b \<le> b_max_size b"

text \<open>What was built before a point stays as it is.\<close>

definition extends :: "builder \<Rightarrow> builder \<Rightarrow> bool" where
  "extends b b' \<longleftrightarrow> b_max_size b' = b_max_size b \<and> length (b_buffer b') = length (b_buffer b)
     \<and> b_offset b \<le> b_offset b' \<and> b_offset b' \<le> b_max_size b'
     \<and> (\<forall>i n. i + n \<le> unat (b_offset b) \<longrightarrow> mem_peek n i (b_buffer b') = mem_peek n i (b_buffer b))"

lemma extends_trans: "extends a b \<Longrightarrow> extends b c \<Longrightarrow> extends a c"
  unfolding extends_def by (auto simp: word_le_nat_alt)

lemma extends_ok: "extends b b' \<Longrightarrow> builder_ok b \<Longrightarrow> builder_ok b'"
  by (auto simp: extends_def builder_ok_def)

lemma extends_refl: "builder_ok b \<Longrightarrow> extends b b"
  by (simp add: extends_def builder_ok_def)

lemma b_copy_spec:
  assumes "builder_ok b" "unat (b_offset b) + length bs \<le> unat (b_max_size b)"
  obtains b' where "b_copy bs b = Inr b'" "extends b b'" "unat (b_offset b') = unat (b_offset b) + length bs"
    "mem_peek (length bs) (unat (b_offset b)) (b_buffer b') = bs"
proof -
  let ?o = "unat (b_offset b)"
  have l: "?o + length bs \<le> length (b_buffer b)" using assms by (simp add: builder_ok_def)
  define b' where "b' = b\<lparr>b_buffer := mem_poke ?o bs (b_buffer b), b_offset := b_offset b + of_nat (length bs)\<rparr>"
  have "unat (b_max_size b) < 2 ^ 16" using unsigned_less [of "b_max_size b"] by simp
  then have lt: "?o + length bs < 2 ^ 16" using assms(2) by simp
  then have u: "unat (b_offset b + of_nat (length bs)) = ?o + length bs"
    by (subst unat_add_lem [THEN iffD1]) (simp_all add: unat_word_of_nat)
  show thesis
  proof (rule that [of b'])
    show "b_copy bs b = Inr b'" using l by (simp add: b_copy_def mem_write_def b'_def)
    show "unat (b_offset b') = ?o + length bs" using u by (simp add: b'_def)
    show "mem_peek (length bs) ?o (b_buffer b') = bs" using peek_poke_same [OF l] by (simp add: b'_def)
    show "extends b b'"
      using l u assms(2) by (auto simp: extends_def b'_def word_le_nat_alt intro!: peek_poke_other)
  qed
qed

lemma extends_peek:
  "extends b b' \<Longrightarrow> i + n \<le> unat (b_offset b) \<Longrightarrow> mem_peek n i (b_buffer b') = mem_peek n i (b_buffer b)"
  by (simp add: extends_def)

lemma integral_serialize_spec:
  assumes "builder_ok b" "LENGTH('a::len) = 8 * n" "unat (b_offset b) + n \<le> unat (b_max_size b)"
  obtains b' where "integral_serialize (v :: 'a word) b = Inr b'" "extends b b'"
    "unat (b_offset b') = unat (b_offset b) + n" "mem_peek n (unat (b_offset b)) (b_buffer b') = le_bytes n v"
proof -
  obtain b' where "b_copy (le_bytes n v) b = Inr b'" "extends b b'"
    "unat (b_offset b') = unat (b_offset b) + length (le_bytes n v)"
    "mem_peek (length (le_bytes n v)) (unat (b_offset b)) (b_buffer b') = le_bytes n v"
    by (rule b_copy_spec [OF assms(1), of "le_bytes n v"]) (use assms(3) in simp)
  then show thesis using that assms(2,3) by (simp add: integral_serialize_def)
qed

lemma as_value_type_id:
  assumes "unat offset < 2 ^ LENGTH('a::len)" "sg \<Longrightarrow> unat offset < 2 ^ (LENGTH('a) - 1)"
  shows "as_value_type sg TYPE('a) offset = int (unat offset)"
proof -
  have "uint (ucast offset :: 'a word) = take_bit LENGTH('a) (uint offset)" by (rule unsigned_ucast_eq)
  also have "\<dots> = uint offset"
  proof (rule take_bit_int_eq_self)
    have "int (unat offset) < int (2 ^ LENGTH('a))" using assms(1) by (simp only: of_nat_less_iff)
    then show "uint offset < 2 ^ LENGTH('a)" by simp
  qed simp
  finally have u: "uint (ucast offset :: 'a word) = int (unat offset)" by simp
  have "sint (ucast offset :: 'a word) = int (unat offset)" if sg
  proof -
    have "int (unat offset) < int (2 ^ (LENGTH('a) - 1))" using assms(2) [OF that] by (simp only: of_nat_less_iff)
    then have "int (unat offset) < 2 ^ (LENGTH('a) - 1)" by simp
    then show ?thesis unfolding sint_uint u
      by (intro signed_take_bit_int_eq_self) (auto intro: order.trans [of _ 0])
  qed
  with u show ?thesis by (simp add: as_value_type_def Let_def)
qed

lemma integral_parse_spec:
  assumes "LENGTH('a::len) = 8 * n" "unat i + n \<le> unat (p_size p)" "unat (p_size p) \<le> length (p_buffer p)"
    and "unat i < 2 ^ LENGTH('a)" "sg \<Longrightarrow> unat i < 2 ^ (LENGTH('a) - 1)"
    and "mem_peek n (unat i) (p_buffer p) = le_bytes n v"
  shows "integral_parse sg p i = Inr (v :: 'a word)"
proof -
  have "int (unat i + n) \<le> int (unat (p_size p))" using assms(2) by (simp only: of_nat_le_iff)
  then have "\<not> uint (p_size p) < int (unat i) + int n" by simp
  moreover have "as_value_type sg TYPE('a) i = int (unat i)" by (rule as_value_type_id [OF assms(4,5)])
  moreover have "mem_read n (unat i) (p_buffer p) = Inr (le_bytes n v)"
    using assms(2,3,6) by (simp add: mem_read_def)
  moreover have "le_word (le_bytes n v) = v" by (rule le_word_le_bytes_full) (simp add: assms(1))
  ultimately show ?thesis using assms(1) by (simp add: integral_parse_def)
qed

lemma container_serialize_spec:
  assumes "builder_ok b" "unat (b_offset b) + 2 + length v \<le> unat (b_max_size b)"
  obtains b' where "container_serialize v b = Inr b'" "extends b b'"
    "unat (b_offset b') = unat (b_offset b) + 2 + length v"
    "mem_peek 2 (unat (b_offset b)) (b_buffer b') = le_bytes 2 (of_nat (length v) :: u16)"
    "mem_peek (length v) (unat (b_offset b) + 2) (b_buffer b') = v"
proof -
  let ?l = "le_bytes 2 (of_nat (length v) :: u16)"
  have "unat (b_max_size b) < 2 ^ 16" using unsigned_less [of "b_max_size b"] by simp
  then have lv: "length v < 65536" "unat (of_nat (length v) :: u16) = length v"
    using assms(2) by (simp_all add: unat_word_of_nat)
  obtain b1 where b1: "b_copy ?l b = Inr b1" "extends b b1" "unat (b_offset b1) = unat (b_offset b) + length ?l"
    "mem_peek (length ?l) (unat (b_offset b)) (b_buffer b1) = ?l"
    by (rule b_copy_spec [OF assms(1), of ?l]) (use assms(2) in simp)
  have ok1: "builder_ok b1" by (rule extends_ok [OF b1(2) assms(1)])
  obtain b2 where b2: "b_copy v b1 = Inr b2" "extends b1 b2" "unat (b_offset b2) = unat (b_offset b1) + length v"
    "mem_peek (length v) (unat (b_offset b1)) (b_buffer b2) = v"
    by (rule b_copy_spec [OF ok1, of v]) (use assms(2) b1 in \<open>simp add: extends_def\<close>)
  have "container_serialize v b = Inr b2" using assms(2) lv b1(1) b2(1) by (simp add: container_serialize_def Let_def)
  moreover have "mem_peek 2 (unat (b_offset b)) (b_buffer b2) = ?l"
    using extends_peek [OF b2(2)] b1(3,4) by simp
  ultimately show thesis using that extends_trans [OF b1(2) b2(2)] b1(3) b2(3,4) by simp
qed

lemma container_parse_spec:
  assumes "unat i + 2 + length v \<le> unat (p_size p)" "unat (p_size p) \<le> length (p_buffer p)"
    and "mem_peek 2 (unat i) (p_buffer p) = le_bytes 2 (of_nat (length v) :: u16)"
    and "mem_peek (length v) (unat i + 2) (p_buffer p) = v"
  shows "container_parse p i = Inr v"
proof -
  have ps: "unat (p_size p) < 2 ^ 16" using unsigned_less [of "p_size p"] by simp
  then have lv: "unat (of_nat (length v) :: u16) = length v" using assms(1) by (simp add: unat_word_of_nat)
  have i2: "unat (i + 2) = unat i + 2" using assms(1) ps by (subst unat_add_lem [THEN iffD1]) simp_all
  have "le_word (le_bytes 2 (of_nat (length v) :: u16)) = (of_nat (length v) :: u16)"
    by (rule le_word_le_bytes_full) simp
  then show ?thesis using assms lv i2 by (simp add: container_parse_def mem_read_def Let_def)
qed

text \<open>
  C13: an integral element that was serialized is what a parser reads at its position, whatever is
  built behind it, provided the position fits the element's own type (below 128 for \<open>int8_t\<close> and
  \<open>char\<close>, 256 for \<open>uint8_t\<close>, 32768 for \<open>int16_t\<close>, always for the wider ones).
\<close>

theorem integral_roundtrip:
  fixes v :: "'a::len word"
  assumes "builder_ok b" "LENGTH('a) = 8 * n"
    and "unat (b_offset b) < 2 ^ (if sg then LENGTH('a) - 1 else LENGTH('a))"
    and "integral_serialize v b = Inr b1" "extends b1 b2"
  shows "integral_parse sg (parser_init (b_buffer b2) (b_offset b2)) (b_offset b) = Inr v"
proof -
  have sp: "unat (b_offset b) + n \<le> unat (b_max_size b)"
    using assms(2,4) by (auto simp: integral_serialize_def Let_def split: if_splits)
  obtain b' where b': "integral_serialize v b = Inr b'" "extends b b'"
    "unat (b_offset b') = unat (b_offset b) + n" "mem_peek n (unat (b_offset b)) (b_buffer b') = le_bytes n v"
    by (rule integral_serialize_spec [OF assms(1,2) sp])
  then have e: "b' = b1" using assms(4) by simp
  have ok: "builder_ok b2" using extends_ok assms(1,5) b'(2) e by blast
  have "unat (b_offset b1) \<le> unat (b_offset b2)" using assms(5) by (simp add: extends_def word_le_nat_alt)
  moreover have "unat (b_offset b) < 2 ^ LENGTH('a)"
    using assms(3) by (auto split: if_splits intro: order.strict_trans2 [OF _ power_increasing])
  moreover have "mem_peek n (unat (b_offset b)) (b_buffer b2) = le_bytes n v"
    using extends_peek [OF assms(5)] b' e by simp
  ultimately show ?thesis
    using b' e ok assms(3)
    by (intro integral_parse_spec [OF assms(2)]) (auto simp: parser_init_def builder_ok_def word_le_nat_alt)
qed

text \<open>A string that was serialized is what a parser reads at its position, whatever is built behind it.\<close>

lemma container_roundtrip:
  assumes "builder_ok b" "container_serialize v b = Inr b1" "extends b1 b2"
  shows "container_parse (parser_init (b_buffer b2) (b_offset b2)) (b_offset b) = Inr v"
proof -
  have sp: "length v < 65536" "unat (b_offset b) + 2 + length v \<le> unat (b_max_size b)"
    using assms(2)
    by (auto simp: container_serialize_def Let_def res_assert_eq_Inr unat_word_of_nat split: if_splits)
  obtain b' where b': "container_serialize v b = Inr b'" "extends b b'"
    "unat (b_offset b') = unat (b_offset b) + 2 + length v"
    "mem_peek 2 (unat (b_offset b)) (b_buffer b') = le_bytes 2 (of_nat (length v) :: u16)"
    "mem_peek (length v) (unat (b_offset b) + 2) (b_buffer b') = v"
    by (rule container_serialize_spec [OF assms(1) sp(2)])
  then have e: "b' = b1" using assms(2) by simp
  have ok: "builder_ok b2" using extends_ok assms(1,3) b'(2) e by blast
  have "unat (b_offset b1) \<le> unat (b_offset b2)" using assms(3) by (simp add: extends_def word_le_nat_alt)
  moreover have "mem_peek 2 (unat (b_offset b)) (b_buffer b2) = le_bytes 2 (of_nat (length v) :: u16)"
    "mem_peek (length v) (unat (b_offset b) + 2) (b_buffer b2) = v"
    using extends_peek [OF assms(3)] b' e by simp_all
  ultimately show ?thesis
    using b' e ok by (intro container_parse_spec) (auto simp: parser_init_def builder_ok_def word_le_nat_alt)
qed

text \<open>
  an \<open>int8_t\<close> beyond the first 128 bytes of a message is not read back: the position 130 becomes
  -126, and the read is before the start of the buffer.
\<close>

lemma int8_position_lost:
  "integral_parse True p 130 = (Inl Undefined :: u8 res)"
proof -
  have "0 \<le> uint (p_size p)" by simp
  then have "\<not> uint (p_size p) \<le> - 126" by linarith
  then show ?thesis by (simp add: integral_parse_def as_value_type_def)
qed

theorem integral_roundtrip_witness:
  "\<exists>b1. integral_serialize (0x12345678 :: u32) (builder_init (replicate 16 0) 16) = Inr b1
    \<and> integral_parse False (parser_init (b_buffer b1) (b_offset b1)) 0 = Inr (0x12345678 :: u32)"
proof -
  let ?b = "builder_init (replicate 16 0) 16"
  have ok: "builder_ok ?b" by (simp add: builder_ok_def builder_init_def)
  obtain b1 where b1: "integral_serialize (0x12345678 :: u32) ?b = Inr b1" "extends ?b b1"
    "unat (b_offset b1) = unat (b_offset ?b) + 4" "mem_peek 4 (unat (b_offset ?b)) (b_buffer b1) = le_bytes 4 (0x12345678 :: u32)"
    by (rule integral_serialize_spec [OF ok, of 4 "0x12345678 :: u32"]) (simp_all add: builder_init_def)
  have "extends b1 b1" by (rule extends_refl [OF extends_ok [OF b1(2) ok]])
  then have "integral_parse False (parser_init (b_buffer b1) (b_offset b1)) (b_offset ?b) = Inr (0x12345678 :: u32)"
    by (intro integral_roundtrip [OF ok _ _ b1(1), of 4]) (simp_all add: builder_init_def)
  then show ?thesis using b1(1) by (auto simp: builder_init_def)
qed

lemma container_roundtrip_witness:
  "\<exists>b1. container_serialize [7, 8, 9] (builder_init (replicate 16 0) 16) = Inr b1
    \<and> container_parse (parser_init (b_buffer b1) (b_offset b1)) 0 = Inr [7, 8, 9]"
proof -
  let ?b = "builder_init (replicate 16 0) 16" and ?v = "[7, 8, 9] :: bytes"
  have ok: "builder_ok ?b" by (simp add: builder_ok_def builder_init_def)
  obtain b1 where b1: "container_serialize ?v ?b = Inr b1" "extends ?b b1"
    "unat (b_offset b1) = unat (b_offset ?b) + 2 + length ?v"
    "mem_peek 2 (unat (b_offset ?b)) (b_buffer b1) = le_bytes 2 (of_nat (length ?v) :: u16)"
    "mem_peek (length ?v) (unat (b_offset ?b) + 2) (b_buffer b1) = ?v"
    by (rule container_serialize_spec [OF ok, of ?v]) (simp_all add: builder_init_def)
  have "extends b1 b1" by (rule extends_refl [OF extends_ok [OF b1(2) ok]])
  then have "container_parse (parser_init (b_buffer b1) (b_offset b1)) (b_offset ?b) = Inr ?v"
    by (rule container_roundtrip [OF ok b1(1)])
  then show ?thesis using b1(1) by (auto simp: builder_init_def)
qed

section \<open>Structures\<close>

lemma peek_peek: "i + n \<le> m \<Longrightarrow> mem_peek n (j + i) buf = mem_peek n i (mem_peek m j buf)"
  by (simp add: peek_def drop_take add.commute)

lemma peek_replicate: "i + n \<le> m \<Longrightarrow> mem_peek n i (replicate m x) = replicate n x"
  by (simp add: peek_def)

lemma struct_builder_init_spec:
  assumes "builder_ok b" "unat (b_offset b) + sb_min_size c st \<le> unat (b_max_size b)"
  obtains b' where "struct_builder_init c st b =
      Inr (\<lparr>sb_count = c, sb_static_size = st, sb_live = True, sb_offset = b_offset b\<rparr>, b')"
    "extends b b'" "unat (b_offset b') = unat (b_offset b) + sb_min_size c st"
    "\<forall>i n. i + n \<le> sb_min_size c st \<longrightarrow> mem_peek n (unat (b_offset b) + i) (b_buffer b') = replicate n 0"
proof -
  let ?m = "sb_min_size c st"
  obtain b' where b': "b_copy (replicate ?m 0) b = Inr b'" "extends b b'"
    "unat (b_offset b') = unat (b_offset b) + length (replicate ?m (0 :: u8))"
    "mem_peek (length (replicate ?m (0 :: u8))) (unat (b_offset b)) (b_buffer b') = replicate ?m 0"
    by (rule b_copy_spec [OF assms(1), of "replicate ?m 0"]) (use assms(2) in simp)
  have "mem_peek n (unat (b_offset b) + i) (b_buffer b') = replicate n 0" if "i + n \<le> ?m" for i n
    using peek_peek [OF that, where j = "unat (b_offset b)" and buf = "b_buffer b'"] b'(4) peek_replicate [OF that] by simp
  then show thesis using that b' assms(2) by (simp add: struct_builder_init_def Let_def)
qed

text \<open>Writing two bytes of what was built already.\<close>

definition patched :: "nat \<Rightarrow> u16 \<Rightarrow> builder \<Rightarrow> builder \<Rightarrow> bool" where
  "patched i v b b' \<longleftrightarrow> b_offset b' = b_offset b \<and> b_max_size b' = b_max_size b \<and> builder_ok b'
     \<and> mem_peek 2 i (b_buffer b') = le_bytes 2 v
     \<and> (\<forall>j n. j + n \<le> i \<or> i + 2 \<le> j \<longrightarrow> j + n \<le> unat (b_offset b) \<longrightarrow> mem_peek n j (b_buffer b') = mem_peek n j (b_buffer b))"

lemma patch_spec:
  assumes "builder_ok b" "i + 2 \<le> unat (b_offset b)"
  obtains buf where "mem_write i (le_bytes 2 v) (b_buffer b) = Inr buf" "patched i v b (b\<lparr>b_buffer := buf\<rparr>)"
proof -
  let ?buf = "mem_poke i (le_bytes 2 v) (b_buffer b)"
  have l: "unat (b_offset b) \<le> length (b_buffer b)" using assms(1) by (auto simp: builder_ok_def word_le_nat_alt)
  then have i: "i + length (le_bytes 2 v) \<le> length (b_buffer b)" using assms(2) by simp
  have "patched i v b (b\<lparr>b_buffer := ?buf\<rparr>)"
    using i l assms by (auto simp: patched_def builder_ok_def peek_poke_field intro!: peek_poke_other)
  then show thesis using that [of ?buf] i by (simp add: mem_write_def)
qed

lemma patched_peek:
  "patched i v b b' \<Longrightarrow> j + n \<le> i \<or> i + 2 \<le> j \<Longrightarrow> j + n \<le> unat (b_offset b) \<Longrightarrow>
    mem_peek n j (b_buffer b') = mem_peek n j (b_buffer b)"
  unfolding patched_def by blast

lemma le_word_2 [simp]: "le_word (le_bytes 2 (v :: u16)) = v"
  by (rule le_word_le_bytes_full) simp

lemma zero_field: "replicate 2 (0 :: u8) = le_bytes 2 (0 :: u16)"
  by (simp add: le_bytes_def numeral_2_eq_2)

lemma sb_set_offset_spec:
  assumes "builder_ok b" "sb_live s" "sb_offsets_pos s k + 2 \<le> unat (b_offset b)"
    "mem_peek 2 (sb_offsets_pos s k) (b_buffer b) = replicate 2 0"
  obtains b' where "sb_set_offset k (s, b) = Inr (s, b')" "patched (sb_offsets_pos s k) (b_offset b - sb_offset s) b b'"
proof -
  obtain buf where w: "mem_write (sb_offsets_pos s k) (le_bytes 2 (b_offset b - sb_offset s)) (b_buffer b) = Inr buf"
      "patched (sb_offsets_pos s k) (b_offset b - sb_offset s) b (b\<lparr>b_buffer := buf\<rparr>)"
    by (rule patch_spec [OF assms(1,3)])
  have "mem_read 2 (sb_offsets_pos s k) (b_buffer b) = Inr (le_bytes 2 (0 :: u16))"
    using assms by (auto simp: mem_read_def zero_field [symmetric] builder_ok_def word_le_nat_alt)
  then have "sb_set_offset k (s, b) = Inr (s, b\<lparr>b_buffer := buf\<rparr>)"
    using w(1) assms(2) by (simp add: sb_set_offset_def)
  then show thesis using that w(2) by blast
qed

lemma sb_destroy_spec:
  assumes "builder_ok b" "sb_live s" "unat (sb_offset s) + 2 \<le> unat (b_offset b)"
  obtains b' where "sb_destroy (s, b) = Inr (s\<lparr>sb_live := False\<rparr>, b')"
    "patched (unat (sb_offset s)) (b_offset b - sb_offset s - 2) b b'"
proof -
  obtain buf where "mem_write (unat (sb_offset s)) (le_bytes 2 (b_offset b - sb_offset s - 2)) (b_buffer b) = Inr buf"
      "patched (unat (sb_offset s)) (b_offset b - sb_offset s - 2) b (b\<lparr>b_buffer := buf\<rparr>)"
    by (rule patch_spec [OF assms(1,3)])
  then show thesis using that assms(2) by (simp add: sb_destroy_def sb_finalize_def)
qed

lemma sp_offset_at_spec:
  assumes "unat (p_size p) \<le> length (p_buffer p)" "unat o' + 2 + 2 * k + 2 \<le> unat (p_size p)"
    and "mem_peek 2 (unat o' + 2 + 2 * k) (p_buffer p) = le_bytes 2 v" "v \<noteq> 0" "unat o' + unat v \<le> unat (p_size p)"
  shows "sp_offset_at k \<lparr>sp_parser = p, sp_count = c, sp_offset = o'\<rparr> = Inr (v + o')"
    and "sp_has_offset k \<lparr>sp_parser = p, sp_count = c, sp_offset = o'\<rparr> = Inr True"
  using assms by (simp_all add: sp_offset_at_def sp_has_offset_def sp_raw_offset_def mem_read_def)

end
