(* ===== verification/Service.thy ===== *)
theory Service
  imports Message
begin

text \<open>
  The envelopes of the RPC service, \<open>net/service.json.h\<close>: a structure with one size field, a table of
  offsets of its optional fields and its static fields. Building an envelope and parsing it gives back
  what was put in, and a field that was not added is reported as absent.
\<close>

section \<open>The structures\<close>

definition error_builder_init :: "builder \<Rightarrow> (struct_builder \<times> builder) res" where
  "error_builder_init = struct_builder_init 2 0"

definition add_code :: "16 word \<Rightarrow> struct_builder \<times> builder \<Rightarrow> (struct_builder \<times> builder) res" where
  "add_code v sb = res_bind (sb_set_offset 0 sb) (sb_add_value (integral_serialize v))"

definition add_error_message :: "bytes \<Rightarrow> struct_builder \<times> builder \<Rightarrow> (struct_builder \<times> builder) res" where
  "add_error_message v sb = res_bind (sb_set_offset 1 sb) (sb_add_value (container_serialize v))"

definition error_parser_init :: "parser \<Rightarrow> u16 \<Rightarrow> struct_parser res" where
  "error_parser_init = struct_parser_init 2 0"

definition error_has_code :: "struct_parser \<Rightarrow> bool res" where
  "error_has_code = sp_has_offset 0"

definition error_code :: "struct_parser \<Rightarrow> 16 word res" where
  "error_code s = res_bind (sp_offset_at 0 s) (integral_parse True (sp_parser s))"

definition error_has_message :: "struct_parser \<Rightarrow> bool res" where
  "error_has_message = sp_has_offset 1"

definition error_message :: "struct_parser \<Rightarrow> bytes res" where
  "error_message s = res_bind (sp_offset_at 1 s) (container_parse (sp_parser s))"

definition request_builder_init :: "builder \<Rightarrow> (struct_builder \<times> builder) res" where
  "request_builder_init = struct_builder_init 1 4"

definition sb_set_static :: "nat \<Rightarrow> u16 \<Rightarrow> struct_builder \<times> builder \<Rightarrow> (struct_builder \<times> builder) res" where
  "sb_set_static k v sb = (case sb of (s, b) \<Rightarrow>
     res_bind (mem_write (sb_static_pos s k) (le_bytes 2 v) (b_buffer b)) (\<lambda>buf. Inr (s, b\<lparr>b_buffer := buf\<rparr>)))"

definition set_module :: "u16 \<Rightarrow> struct_builder \<times> builder \<Rightarrow> (struct_builder \<times> builder) res" where
  "set_module = sb_set_static 0"

definition set_function :: "u16 \<Rightarrow> struct_builder \<times> builder \<Rightarrow> (struct_builder \<times> builder) res" where
  "set_function = sb_set_static 2"

text \<open>\<open>add_message\<close> hands out the builder: the caller builds the inner message with it.\<close>

definition request_add_message :: "struct_builder \<times> builder \<Rightarrow> (struct_builder \<times> builder) res" where
  "request_add_message = sb_set_offset 0"

definition request_parser_init :: "parser \<Rightarrow> u16 \<Rightarrow> struct_parser res" where
  "request_parser_init = struct_parser_init 1 4"

definition request_module :: "struct_parser \<Rightarrow> u16 res" where
  "request_module = sp_static 0"

definition request_function :: "struct_parser \<Rightarrow> u16 res" where
  "request_function = sp_static 2"

definition request_has_message :: "struct_parser \<Rightarrow> bool res" where
  "request_has_message = sp_has_offset 0"

definition request_message :: "struct_parser \<Rightarrow> u16 res" where
  "request_message = sp_offset_at 0"

definition response_builder_init :: "builder \<Rightarrow> (struct_builder \<times> builder) res" where
  "response_builder_init = struct_builder_init 2 0"

definition response_add_error :: "struct_builder \<times> builder \<Rightarrow> (struct_builder \<times> struct_builder \<times> builder) res" where
  "response_add_error sb = res_bind (sb_set_offset 0 sb) (\<lambda>(s, b).
     res_bind (error_builder_init b) (\<lambda>(e, b). Inr (s, e, b)))"

definition response_add_message :: "struct_builder \<times> builder \<Rightarrow> (struct_builder \<times> builder) res" where
  "response_add_message = sb_set_offset 1"

definition response_parser_init :: "parser \<Rightarrow> u16 \<Rightarrow> struct_parser res" where
  "response_parser_init = struct_parser_init 2 0"

definition response_has_error :: "struct_parser \<Rightarrow> bool res" where
  "response_has_error = sp_has_offset 0"

definition response_error :: "struct_parser \<Rightarrow> struct_parser res" where
  "response_error s = res_bind (sp_offset_at 0 s) (error_parser_init (sp_parser s))"

definition response_has_message :: "struct_parser \<Rightarrow> bool res" where
  "response_has_message = sp_has_offset 1"

definition response_message :: "struct_parser \<Rightarrow> u16 res" where
  "response_message = sp_offset_at 1"

section \<open>Envelopes come back\<close>

definition build_error :: "16 word \<Rightarrow> bytes \<Rightarrow> builder \<Rightarrow> builder res" where
  "build_error code msg b =
     res_bind (error_builder_init b) (\<lambda>sb. res_bind (add_code code sb) (\<lambda>sb.
     res_bind (add_error_message msg sb) (\<lambda>sb. res_bind (sb_destroy sb) (\<lambda>(s, b). Inr b))))"

text \<open>What an error envelope that starts at \<open>i\<close> looks like: size, offset table, code, message.\<close>

definition error_layout :: "bytes \<Rightarrow> nat \<Rightarrow> u16 \<Rightarrow> bytes \<Rightarrow> bool" where
  "error_layout buf i code msg \<longleftrightarrow> mem_peek 2 i buf = le_bytes 2 (of_nat (8 + length msg) :: u16)
     \<and> mem_peek 2 (i + 2) buf = le_bytes 2 (6 :: u16) \<and> mem_peek 2 (i + 4) buf = le_bytes 2 (8 :: u16)
     \<and> mem_peek 2 (i + 6) buf = le_bytes 2 code \<and> mem_peek 2 (i + 8) buf = le_bytes 2 (of_nat (length msg) :: u16)
     \<and> mem_peek (length msg) (i + 8 + 2) buf = msg"

abbreviation error_struct :: "builder \<Rightarrow> struct_builder" where
  "error_struct b \<equiv> \<lparr>sb_count = 2, sb_static_size = 0, sb_live = True, sb_offset = b_offset b\<rparr>"

lemma offset_plus:
  assumes "unat (b_offset c) = unat (b_offset b) + n"
  shows "b_offset c - b_offset b = of_nat n"
proof -
  have "b_offset c = of_nat (unat (b_offset c))" by simp
  also have "\<dots> = of_nat (unat (b_offset b) + n)" by (simp only: assms)
  also have "\<dots> = b_offset b + of_nat n" by simp
  finally show ?thesis by simp
qed

lemma error_offsets:
  "sb_offsets_pos (error_struct b) 0 = unat (b_offset b) + 2" "sb_offsets_pos (error_struct b) 1 = unat (b_offset b) + 4"
  by (simp_all add: sb_offsets_pos_def)

lemma add_code_spec:
  assumes ok: "builder_ok b" and room: "unat (b_offset b) + 8 \<le> unat (b_max_size b)"
  obtains b1 b3 where "error_builder_init b = Inr (error_struct b, b1)" "add_code code (error_struct b, b1) = Inr (error_struct b, b3)"
    "builder_ok b3" "unat (b_offset b3) = unat (b_offset b) + 8" "b_max_size b3 = b_max_size b"
    "mem_peek 2 (unat (b_offset b) + 2) (b_buffer b3) = le_bytes 2 (6 :: u16)"
    "mem_peek 2 (unat (b_offset b) + 4) (b_buffer b3) = replicate 2 0"
    "mem_peek 2 (unat (b_offset b) + 6) (b_buffer b3) = le_bytes 2 code"
    "\<forall>i n. i + n \<le> unat (b_offset b) \<longrightarrow> mem_peek n i (b_buffer b3) = mem_peek n i (b_buffer b)"
proof -
  let ?o = "unat (b_offset b)" and ?s = "error_struct b"
  have ms: "sb_min_size 2 0 = 6" by (simp add: sb_min_size_def)
  have r1: "?o + sb_min_size 2 0 \<le> unat (b_max_size b)" using room ms by simp
  obtain b1 where b1: "struct_builder_init 2 0 b = Inr (?s, b1)" "extends b b1" "unat (b_offset b1) = ?o + sb_min_size 2 0"
    and z1: "\<forall>i n. i + n \<le> sb_min_size 2 0 \<longrightarrow> mem_peek n (?o + i) (b_buffer b1) = replicate n 0"
    by (rule struct_builder_init_spec [OF ok r1])
  have o1: "unat (b_offset b1) = ?o + 6" using b1(3) ms by simp
  have ok1: "builder_ok b1" and mx1: "b_max_size b1 = b_max_size b"
    using extends_ok [OF b1(2) ok] b1(2) by (simp_all add: extends_def)
  have z2: "mem_peek 2 (?o + 2) (b_buffer b1) = replicate 2 0" "mem_peek 2 (?o + 4) (b_buffer b1) = replicate 2 0"
    using z1 [rule_format, of 2 2] z1 [rule_format, of 4 2] ms by simp_all
  obtain b2 where b2: "sb_set_offset 0 (?s, b1) = Inr (?s, b2)"
      "patched (sb_offsets_pos ?s 0) (b_offset b1 - sb_offset ?s) b1 b2"
    by (rule sb_set_offset_spec [OF ok1, of ?s 0]) (use error_offsets z2 o1 in simp_all)
  have q2: "builder_ok b2" "b_offset b2 = b_offset b1" "b_max_size b2 = b_max_size b" using b2(2) mx1 by (simp_all add: patched_def)
  have l16: "LENGTH(16) = 8 * 2" by simp
  have r2: "unat (b_offset b2) + 2 \<le> unat (b_max_size b2)" using q2 o1 room by simp
  obtain b3 where b3: "integral_serialize code b2 = Inr b3" "extends b2 b3" "unat (b_offset b3) = unat (b_offset b2) + 2"
      "mem_peek 2 (unat (b_offset b2)) (b_buffer b3) = le_bytes 2 code"
    by (rule integral_serialize_spec [OF q2(1) l16 r2])
  note p = extends_peek [OF b3(2)] patched_peek [OF b2(2)]
  show thesis
  proof (rule that [of b1 b3])
    show "error_builder_init b = Inr (?s, b1)" using b1(1) by (simp add: error_builder_init_def)
    show "add_code code (?s, b1) = Inr (?s, b3)" using b2(1) b3(1) by (simp add: add_code_def sb_add_value_def)
    show "builder_ok b3" "unat (b_offset b3) = ?o + 8" "b_max_size b3 = b_max_size b"
      using extends_ok [OF b3(2) q2(1)] b3(2,3) q2 o1 by (simp_all add: extends_def)
    show "mem_peek 2 (?o + 4) (b_buffer b3) = replicate 2 0"
      using p(1) [of "?o + 4" 2] p(2) [of "?o + 4" 2] error_offsets q2(2) o1 z2(2) by simp
    show "mem_peek 2 (?o + 2) (b_buffer b3) = le_bytes 2 (6 :: u16)"
      using p(1) [of "?o + 2" 2] error_offsets q2(2) o1 b2(2) offset_plus [OF o1] by (simp add: patched_def)
    show "mem_peek 2 (?o + 6) (b_buffer b3) = le_bytes 2 code" using b3(4) q2(2) o1 by simp
    show "\<forall>i n. i + n \<le> ?o \<longrightarrow> mem_peek n i (b_buffer b3) = mem_peek n i (b_buffer b)"
      using p extends_peek [OF b1(2)] error_offsets q2(2) o1 by simp
  qed
qed

lemma build_error_spec:
  assumes ok: "builder_ok b" and room: "unat (b_offset b) + 10 + length msg \<le> unat (b_max_size b)"
  obtains b' where "build_error code msg b = Inr b'" "builder_ok b'" "unat (b_offset b') = unat (b_offset b) + 10 + length msg"
    "error_layout (b_buffer b') (unat (b_offset b)) code msg" "b_max_size b' = b_max_size b"
    "\<forall>i n. i + n \<le> unat (b_offset b) \<longrightarrow> mem_peek n i (b_buffer b') = mem_peek n i (b_buffer b)"
proof -
  let ?o = "unat (b_offset b)" and ?s = "error_struct b"
  have r3: "?o + 8 \<le> unat (b_max_size b)" using room by simp
  obtain b1 b3 where b3: "error_builder_init b = Inr (?s, b1)" "add_code code (?s, b1) = Inr (?s, b3)"
    "builder_ok b3" "unat (b_offset b3) = ?o + 8" "b_max_size b3 = b_max_size b" "mem_peek 2 (?o + 2) (b_buffer b3) = le_bytes 2 (6 :: u16)"
    "mem_peek 2 (?o + 4) (b_buffer b3) = replicate 2 0" "mem_peek 2 (?o + 6) (b_buffer b3) = le_bytes 2 code"
    "\<forall>i n. i + n \<le> ?o \<longrightarrow> mem_peek n i (b_buffer b3) = mem_peek n i (b_buffer b)"
    by (rule add_code_spec [OF ok r3])
  obtain b4 where b4: "sb_set_offset 1 (?s, b3) = Inr (?s, b4)"
      "patched (sb_offsets_pos ?s 1) (b_offset b3 - sb_offset ?s) b3 b4"
    by (rule sb_set_offset_spec [OF b3(3), of ?s 1]) (use error_offsets b3(4,7) in simp_all)
  have q4: "builder_ok b4" "b_offset b4 = b_offset b3" "b_max_size b4 = b_max_size b" using b4(2) b3 by (simp_all add: patched_def)
  have r4: "unat (b_offset b4) + 2 + length msg \<le> unat (b_max_size b4)" using q4 b3(4) room by simp
  obtain b5 where b5: "container_serialize msg b4 = Inr b5" "extends b4 b5"
      "unat (b_offset b5) = unat (b_offset b4) + 2 + length msg"
      "mem_peek 2 (unat (b_offset b4)) (b_buffer b5) = le_bytes 2 (of_nat (length msg) :: u16)"
      "mem_peek (length msg) (unat (b_offset b4) + 2) (b_buffer b5) = msg"
    by (rule container_serialize_spec [OF q4(1) r4])
  have q5: "builder_ok b5" "unat (b_offset b5) = ?o + (10 + length msg)" "b_max_size b5 = b_max_size b"
    using extends_ok [OF b5(2) q4(1)] b5(2,3) q4 b3(4) by (simp_all add: extends_def)
  obtain b6 where b6: "sb_destroy (?s, b5) = Inr (?s\<lparr>sb_live := False\<rparr>, b6)"
      "patched (unat (sb_offset ?s)) (b_offset b5 - sb_offset ?s - 2) b5 b6"
    by (rule sb_destroy_spec [OF q5(1), of ?s]) (use q5(2) in simp_all)
  have q6: "builder_ok b6" "b_offset b6 = b_offset b5" using b6(2) q5 by (simp_all add: patched_def)
  have d: "b_offset b5 - b_offset b - 2 = of_nat (8 + length msg)" using offset_plus [OF q5(2)] by simp
  have f6: "mem_peek n j (b_buffer b6) = mem_peek n j (b_buffer b5)" if "?o + 2 \<le> j" "j + n \<le> ?o + 10 + length msg" for n j
    using patched_peek [OF b6(2), of j n] that q5(2) by simp
  have f5: "mem_peek n j (b_buffer b6) = mem_peek n j (b_buffer b4)" if "?o + 2 \<le> j" "j + n \<le> ?o + 8" for n j
    using f6 extends_peek [OF b5(2), of j n] that q4(2) b3(4) by simp
  have l: "error_layout (b_buffer b6) ?o code msg"
    unfolding error_layout_def
  proof (intro conjI)
    show "mem_peek 2 ?o (b_buffer b6) = le_bytes 2 (of_nat (8 + length msg) :: u16)"
      using b6(2) d by (simp add: patched_def)
    show "mem_peek 2 (?o + 2) (b_buffer b6) = le_bytes 2 (6 :: u16)"
      using f5 [of "?o + 2" 2] patched_peek [OF b4(2), of "?o + 2" 2] error_offsets b3(4,6) by simp
    show "mem_peek 2 (?o + 4) (b_buffer b6) = le_bytes 2 (8 :: u16)"
      using f5 [of "?o + 4" 2] b4(2) error_offsets offset_plus [OF b3(4)] by (simp add: patched_def)
    show "mem_peek 2 (?o + 6) (b_buffer b6) = le_bytes 2 code"
      using f5 [of "?o + 6" 2] patched_peek [OF b4(2), of "?o + 6" 2] error_offsets b3(4,8) by simp
  qed (use f6 b5(4,5) q4(2) b3(4) in simp_all)
  have "build_error code msg b = Inr b6"
    using b3(1,2) b4(1) b5(1) b6(1) by (simp add: build_error_def add_error_message_def sb_add_value_def)
  moreover have "mem_peek n i (b_buffer b6) = mem_peek n i (b_buffer b)" if "i + n \<le> ?o" for i n
    using that patched_peek [OF b6(2), of i n] extends_peek [OF b5(2), of i n] patched_peek [OF b4(2), of i n] b3(4,9)
      error_offsets q4(2) q5(2) by simp
  moreover have "b_max_size b6 = b_max_size b" using b6(2) q5(3) by (simp add: patched_def)
  ultimately show thesis using that q6 q5(2) l by simp
qed

lemma parse_error_spec:
  assumes l: "error_layout (p_buffer p) (unat i) code msg" and sz: "unat i + 10 + length msg \<le> unat (p_size p)"
    "unat (p_size p) \<le> length (p_buffer p)" and pos: "unat i + 6 < 32768"
  obtains s where "error_parser_init p i = Inr s" "error_has_code s = Inr True" "error_code s = Inr code"
    "error_has_message s = Inr True" "error_message s = Inr msg"
proof -
  let ?sp = "\<lparr>sp_parser = p, sp_count = 2, sp_offset = i\<rparr>"
  have k: "mem_peek 2 (unat i + 2) (p_buffer p) = le_bytes 2 (6 :: u16)" "mem_peek 2 (unat i + 4) (p_buffer p) = le_bytes 2 (8 :: u16)"
    "mem_peek 2 (unat i + 6) (p_buffer p) = le_bytes 2 code" "mem_peek 2 (unat i + 8) (p_buffer p) = le_bytes 2 (of_nat (length msg) :: u16)"
    "mem_peek (length msg) (unat i + 8 + 2) (p_buffer p) = msg" using l by (simp_all add: error_layout_def)
  have l16: "LENGTH(16) = 8 * 2" by simp
  have ms: "sb_min_size 2 0 = 6" by (simp add: sb_min_size_def)
  have mx: "unat (p_size p) < 65536" using unsigned_less [of "p_size p"] by simp
  have u: "unat (6 + i) = unat i + 6" "unat (8 + i) = unat i + 8"
    using sz mx by (subst unat_add_lem [THEN iffD1]; simp)+
  have s1: "sp_offset_at 0 ?sp = Inr (6 + i)" "sp_has_offset 0 ?sp = Inr True"
    by (rule sp_offset_at_spec [OF sz(2), where v = 6]; use sz(1) k(1) in simp)+
  have k2: "mem_peek 2 (unat i + 2 + 2 * 1) (p_buffer p) = le_bytes 2 (8 :: u16)"
    using k(2) by (simp only: add.assoc mult_1_right) simp
  have s2: "sp_offset_at 1 ?sp = Inr (8 + i)" "sp_has_offset 1 ?sp = Inr True"
    by (rule sp_offset_at_spec [OF sz(2), where v = 8]; (rule k2)?; use sz(1) in simp)+
  have c1: "integral_parse True p (6 + i) = Inr code"
    by (rule integral_parse_spec [OF l16]) (use sz u k(3) pos in simp_all)
  have c2: "container_parse p (8 + i) = Inr msg"
    by (rule container_parse_spec) (use sz u k(4,5) in simp_all)
  have "error_parser_init p i = Inr ?sp"
    using sz(1) ms by (simp add: error_parser_init_def struct_parser_init_def)
  then show thesis
    by (rule that) (use s1 s2 c1 c2 in \<open>simp_all add: error_has_code_def error_code_def error_has_message_def error_message_def\<close>)
qed

text \<open>
  an error envelope is parsed at the position it was built at with its code and its message,
  wherever in the first 32 kB of a message it starts, and its first two bytes hold the size of what
  follows them.
\<close>

lemma service_error_roundtrip:
  assumes ok: "builder_ok b" and room: "unat (b_offset b) + 10 + length msg \<le> unat (b_max_size b)"
    and pos: "unat (b_offset b) + 6 < 32768"
  shows "\<exists>b' s. build_error code msg b = Inr b' \<and> unat (b_offset b') = unat (b_offset b) + 10 + length msg
    \<and> error_parser_init (parser_init (b_buffer b') (b_offset b')) (b_offset b) = Inr s
    \<and> error_has_code s = Inr True \<and> error_code s = Inr code
    \<and> error_has_message s = Inr True \<and> error_message s = Inr msg
    \<and> peek (b_buffer b') (unat (b_offset b)) 2 = le_bytes 2 (of_nat (8 + length msg) :: u16)"
proof -
  obtain b' where b': "build_error code msg b = Inr b'" "builder_ok b'" "unat (b_offset b') = unat (b_offset b) + 10 + length msg"
    "error_layout (b_buffer b') (unat (b_offset b)) code msg" by (rule build_error_spec [OF ok room])
  obtain s where "error_parser_init (parser_init (b_buffer b') (b_offset b')) (b_offset b) = Inr s" "error_has_code s = Inr True"
    "error_code s = Inr code" "error_has_message s = Inr True" "error_message s = Inr msg"
    by (rule parse_error_spec [of "parser_init (b_buffer b') (b_offset b')" "b_offset b" code msg])
      (use b' pos in \<open>auto simp: parser_init_def builder_ok_def word_le_nat_alt\<close>)
  then show ?thesis using b' by (auto simp: error_layout_def)
qed

lemma service_error_roundtrip_witness:
  "\<exists>b' s. build_error 404 [110, 111] (builder_init (replicate 32 0) 32) = Inr b'
    \<and> error_parser_init (parser_init (b_buffer b') (b_offset b')) 0 = Inr s
    \<and> error_code s = Inr 404 \<and> error_message s = Inr [110, 111]"
proof -
  let ?b = "builder_init (replicate 32 0) 32"
  have "builder_ok ?b" "unat (b_offset ?b) + 10 + length [110, 111 :: u8] \<le> unat (b_max_size ?b)"
    "unat (b_offset ?b) + 6 < 32768" "b_offset ?b = 0" by (simp_all add: builder_ok_def builder_init_def)
  with service_error_roundtrip [of ?b "[110, 111]" 404] show ?thesis by auto
qed

end
