(* ===== verification/WTinyLFU.thy ===== *)
theory WTinyLFU
  imports Prelude "HOL-Library.Multiset"
begin

text \<open>
  The page cache policy of \<open>common/wtinylfu.h\<close>: a window and two main segments, each in order of
  use, and frequency sketches that decide which of two candidates is evicted. A list node is named by
  its key, because the keys of the nodes are distinct; what a cache promises its client is a locale.
\<close>

section \<open>Frequency sketches\<close>

record sketch =
  fs_table :: "u64 list"
  fs_table_mask :: u64
  fs_max_samples :: u32
  fs_samples :: u32

text \<open>The position of the highest bit, 32 minus \<open>__builtin_clz\<close>, which is undefined on 0.\<close>

definition bit_length :: "u32 \<Rightarrow> nat" where
  "bit_length x = length (dropWhile Not (map (bit x) (rev [0..<32])))"

definition fs_initialize :: "u32 \<Rightarrow> sketch res" where
  "fs_initialize max_items =
     (if max_items = 0 \<or> bit_length max_items = 32 then Inl Undefined
      else let n = unat (push_bit (bit_length max_items) (1 :: u32)) in
        Inr \<lparr>fs_table = replicate n 0, fs_table_mask = of_nat n - 1, fs_max_samples = max_items * 10, fs_samples = 0\<rparr>)"

definition fs_seeds :: "u64 list" where
  "fs_seeds = [0xc3a5c85c97cb3127, 0xb492b66fbe98f273, 0x9ae16a3b2f90404f, 0xcbf29ce484222325]"

definition fs_index_of :: "sketch \<Rightarrow> u32 \<Rightarrow> nat \<Rightarrow> u32" where
  "fs_index_of f item i =
     (let hash = fs_seeds ! i * ucast item; hash = hash + drop_bit 32 hash
      in ucast (ucast (ucast hash :: u32) AND fs_table_mask f))"

definition fs_start :: "u32 \<Rightarrow> u32" where
  "fs_start hash = push_bit 2 (hash AND 3)"

text \<open>The counter read for the \<open>i\<close>-th probe: the whole word, shifted by at most 12.\<close>

definition fs_count :: "sketch \<Rightarrow> u32 \<Rightarrow> nat \<Rightarrow> u32 res" where
  "fs_count f hash i =
     (let index = fs_index_of f hash i in
      if length (fs_table f) \<le> unat index then Inl Undefined
      else Inr (ucast (drop_bit (unat (push_bit 2 (fs_start hash + of_nat i) AND 0x0f)) (fs_table f ! unat index))))"

definition fs_frequency :: "sketch \<Rightarrow> u32 \<Rightarrow> u32 res" where
  "fs_frequency f hash =
     res_bind (fs_count f hash 0) (\<lambda>c0. res_bind (fs_count f hash 1) (\<lambda>c1.
     res_bind (fs_count f hash 2) (\<lambda>c2. res_bind (fs_count f hash 3) (\<lambda>c3.
       Inr (min (min (min (min (- 1) c0) c1) c2) c3)))))"

definition fs_increment_at :: "u32 \<Rightarrow> u32 \<Rightarrow> sketch \<Rightarrow> (bool \<times> sketch) res" where
  "fs_increment_at i j f =
     (let offset = unat (push_bit 2 j); mask = push_bit offset (0x0f :: u64) in
      if length (fs_table f) \<le> unat i \<or> 64 \<le> offset then Inl Undefined
      else if (fs_table f ! unat i) AND mask \<noteq> mask
      then Inr (True, f\<lparr>fs_table := (fs_table f)[unat i := fs_table f ! unat i + push_bit offset 1]\<rparr>)
      else Inr (False, f))"

definition popcount64 :: "u64 \<Rightarrow> nat" where
  "popcount64 x = length (filter (bit x) [0..<64])"

definition fs_reset :: "sketch \<Rightarrow> sketch" where
  "fs_reset f =
     (let count = of_nat (sum_list (map (\<lambda>c. popcount64 (c AND 0x1111111111111111)) (fs_table f))) :: u32
      in f\<lparr>fs_table := map (\<lambda>c. drop_bit 1 c AND 0x7777777777777777) (fs_table f),
           fs_samples := drop_bit 1 (fs_samples f) - drop_bit 2 count\<rparr>)"

fun fs_increment_probes :: "nat list \<Rightarrow> u32 \<Rightarrow> bool \<times> sketch \<Rightarrow> (bool \<times> sketch) res" where
  "fs_increment_probes [] hash st = Inr st"
| "fs_increment_probes (i # is) hash (added, f) =
     res_bind (fs_increment_at (fs_index_of f hash i) (fs_start hash + of_nat i) f) (\<lambda>(a, f').
       fs_increment_probes is hash (added \<or> a, f'))"

definition fs_increment :: "u32 \<Rightarrow> sketch \<Rightarrow> sketch res" where
  "fs_increment hash f =
     res_bind (fs_increment_probes [0, 1, 2, 3] hash (True, f)) (\<lambda>(added, f).
       if added then
         let f' = f\<lparr>fs_samples := fs_samples f + 1\<rparr> in
         Inr (if fs_samples f' = fs_max_samples f' then fs_reset f' else f')
       else Inr f)"

section \<open>Segments\<close>

datatype segment = WINDOW | MAIN_A1 | MAIN_A2

record ('k, 'v) wt_item =
  it_location :: segment
  it_key :: 'k
  it_item :: 'v

record ('k, 'v) lru =
  lru_list :: "('k, 'v) wt_item list"
  lru_items :: u32
  lru_max :: u32

definition lru_initialize :: "u32 \<Rightarrow> ('k, 'v) lru" where
  "lru_initialize max_items = \<lparr>lru_list = [], lru_items = 0, lru_max = max_items\<rparr>"

definition lru_is_full :: "('k, 'v) lru \<Rightarrow> bool" where
  "lru_is_full l \<longleftrightarrow> lru_items l = lru_max l"

text \<open>The new node's item is assigned by the caller right after; it is a parameter here.\<close>

definition lru_create :: "'k \<Rightarrow> 'v \<Rightarrow> ('k, 'v) lru \<Rightarrow> ('k, 'v) lru res" where
  "lru_create k v l = res_assert (lru_items l \<noteq> lru_max l)
     (Inr (l\<lparr>lru_items := lru_items l + 1, lru_list := \<lparr>it_location = WINDOW, it_key = k, it_item = v\<rparr> # lru_list l\<rparr>))"

definition lru_eviction_candidate :: "('k, 'v) lru \<Rightarrow> ('k, 'v) wt_item res" where
  "lru_eviction_candidate l = (if lru_list l = [] then Inl Undefined else Inr (last (lru_list l)))"

definition lru_find :: "'k \<Rightarrow> ('k, 'v) lru \<Rightarrow> ('k, 'v) wt_item res" where
  "lru_find k l = (case find (\<lambda>x. it_key x = k) (lru_list l) of None \<Rightarrow> Inl Undefined | Some x \<Rightarrow> Inr x)"

definition lru_remove :: "'k \<Rightarrow> ('k, 'v) lru \<Rightarrow> ('k, 'v) lru" where
  "lru_remove k l = l\<lparr>lru_list := filter (\<lambda>x. it_key x \<noteq> k) (lru_list l)\<rparr>"

definition lru_evict :: "'k \<Rightarrow> ('k, 'v) lru \<Rightarrow> ('k, 'v) lru res" where
  "lru_evict k l = res_assert (lru_items l \<noteq> 0)
     (res_bind (lru_find k l) (\<lambda>_. Inr (lru_remove k (l\<lparr>lru_items := lru_items l - 1\<rparr>))))"

text \<open>
  \<open>move\<close> from another segment, after the caller has set the node's location, and \<open>move\<close> from the
  segment itself (the node goes to the front).
\<close>

definition lru_move :: "segment \<Rightarrow> 'k \<Rightarrow> ('k, 'v) lru \<Rightarrow> ('k, 'v) lru \<Rightarrow> (('k, 'v) lru \<times> ('k, 'v) lru) res" where
  "lru_move loc k l source =
     res_bind (lru_find k source) (\<lambda>x.
       Inr (l\<lparr>lru_items := lru_items l + 1, lru_list := x\<lparr>it_location := loc\<rparr> # lru_list l\<rparr>,
            lru_remove k (source\<lparr>lru_items := lru_items source - 1\<rparr>)))"

definition lru_move_front :: "'k \<Rightarrow> ('k, 'v) lru \<Rightarrow> ('k, 'v) lru res" where
  "lru_move_front k l =
     res_bind (lru_find k l) (\<lambda>x.
       Inr ((lru_remove k l)\<lparr>lru_items := lru_items l + 1 - 1, lru_list := x # lru_list (lru_remove k l)\<rparr>))"

section \<open>The cache\<close>

text \<open>\<open>wt_map\<close> lists the keys of \<open>m_map\<close>; the iterator it holds for a key is the node with that key.\<close>

record ('k, 'v) wtinylfu =
  wt_window :: "('k, 'v) lru"
  wt_main_a1 :: "('k, 'v) lru"
  wt_main_a2 :: "('k, 'v) lru"
  wt_map :: "'k list"
  wt_counters :: "sketch list"
  wt_empty_item :: 'v

fun fs_initialize_all :: "nat \<Rightarrow> u32 \<Rightarrow> sketch list res" where
  "fs_initialize_all 0 n = Inr []"
| "fs_initialize_all (Suc k) n = res_bind (fs_initialize n) (\<lambda>f. res_bind (fs_initialize_all k n) (\<lambda>fs. Inr (f # fs)))"

definition wtinylfu_init :: "u32 \<Rightarrow> 'v \<Rightarrow> ('k, 'v) wtinylfu res" where
  "wtinylfu_init max_items empty_item =
     res_assert (100 \<le> max_items)
       (let window = max_items div 100; a1 = 2 * (max_items - window) div 10 in
        res_bind (fs_initialize_all 4096 (max_items div 4096)) (\<lambda>cs.
          Inr \<lparr>wt_window = lru_initialize window, wt_main_a1 = lru_initialize a1,
               wt_main_a2 = lru_initialize (max_items - window - a1), wt_map = [], wt_counters = cs,
               wt_empty_item = empty_item\<rparr>))"

definition wt_find :: "'k \<Rightarrow> ('k, 'v) wtinylfu \<Rightarrow> ('k, 'v) wt_item option" where
  "wt_find k w =
     (if k \<in> set (wt_map w)
      then find (\<lambda>x. it_key x = k) (lru_list (wt_window w) @ lru_list (wt_main_a1 w) @ lru_list (wt_main_a2 w))
      else None)"

definition wt_frequency :: "('k \<Rightarrow> u64) \<Rightarrow> 'k \<Rightarrow> ('k, 'v) wtinylfu \<Rightarrow> u32 res" where
  "wt_frequency hasher k w =
     (let hash = hasher k in fs_frequency (wt_counters w ! unat (hash AND 0xfff)) (ucast (drop_bit 12 hash)))"

definition wt_increment :: "('k \<Rightarrow> u64) \<Rightarrow> 'k \<Rightarrow> ('k, 'v) wtinylfu \<Rightarrow> ('k, 'v) wtinylfu res" where
  "wt_increment hasher k w =
     (let hash = hasher k; i = unat (hash AND 0xfff) in
      res_bind (fs_increment (ucast (drop_bit 12 hash)) (wt_counters w ! i)) (\<lambda>f.
        Inr (w\<lparr>wt_counters := (wt_counters w)[i := f]\<rparr>)))"

definition wt_create :: "('k \<Rightarrow> u64) \<Rightarrow> 'k \<Rightarrow> 'v \<Rightarrow> ('k, 'v) wtinylfu \<Rightarrow> ('k, 'v) wtinylfu res" where
  "wt_create hasher k v w =
     res_bind (lru_create k v (wt_window w)) (\<lambda>win.
     res_assert (k \<notin> set (wt_map w))
       (wt_increment hasher k (w\<lparr>wt_window := win, wt_map := k # wt_map w\<rparr>)))"

definition wt_evict_from_window :: "('k, 'v) wtinylfu \<Rightarrow> 'k \<Rightarrow> ('k, 'v) wtinylfu res" where
  "wt_evict_from_window w k = res_bind (lru_evict k (wt_window w)) (\<lambda>l.
     Inr (w\<lparr>wt_map := removeAll k (wt_map w), wt_window := l\<rparr>))"

definition wt_evict_from_a1 :: "('k, 'v) wtinylfu \<Rightarrow> 'k \<Rightarrow> ('k, 'v) wtinylfu res" where
  "wt_evict_from_a1 w k = res_bind (lru_evict k (wt_main_a1 w)) (\<lambda>l.
     Inr (w\<lparr>wt_map := removeAll k (wt_map w), wt_main_a1 := l\<rparr>))"

definition wt_evict_from_a2 :: "('k, 'v) wtinylfu \<Rightarrow> 'k \<Rightarrow> ('k, 'v) wtinylfu res" where
  "wt_evict_from_a2 w k = res_bind (lru_evict k (wt_main_a2 w)) (\<lambda>l.
     Inr (w\<lparr>wt_map := removeAll k (wt_map w), wt_main_a2 := l\<rparr>))"

definition wt_window_to_a1 :: "('k, 'v) wtinylfu \<Rightarrow> 'k \<Rightarrow> ('k, 'v) wtinylfu res" where
  "wt_window_to_a1 w k = res_bind (lru_move MAIN_A1 k (wt_main_a1 w) (wt_window w)) (\<lambda>(a1, win).
     Inr (w\<lparr>wt_main_a1 := a1, wt_window := win\<rparr>))"

definition wt_evict_worse_candidate :: "('k \<Rightarrow> u64) \<Rightarrow> ('k, 'v) wtinylfu \<Rightarrow> ('v \<times> ('k, 'v) wtinylfu) res" where
  "wt_evict_worse_candidate hasher w =
     res_bind (lru_eviction_candidate (wt_window w)) (\<lambda>it1.
     res_bind (lru_eviction_candidate (wt_main_a1 w)) (\<lambda>it2.
     res_bind (wt_frequency hasher (it_key it1) w) (\<lambda>f1.
     res_bind (wt_frequency hasher (it_key it2) w) (\<lambda>f2.
       if f1 > f2 then
         res_bind (wt_evict_from_a1 w (it_key it2)) (\<lambda>w.
         res_bind (wt_window_to_a1 w (it_key it1)) (\<lambda>w. Inr (it_item it2, w)))
       else
         res_bind (wt_evict_from_window w (it_key it1)) (\<lambda>w. Inr (it_item it1, w))))))"

definition wt_evict_if_necessary :: "('k \<Rightarrow> u64) \<Rightarrow> ('k, 'v) wtinylfu \<Rightarrow> ('v \<times> ('k, 'v) wtinylfu) res" where
  "wt_evict_if_necessary hasher w =
     (if \<not> lru_is_full (wt_window w) then Inr (wt_empty_item w, w)
      else if \<not> lru_is_full (wt_main_a1 w) then
        res_bind (lru_eviction_candidate (wt_window w)) (\<lambda>it.
        res_bind (wt_window_to_a1 w (it_key it)) (\<lambda>w. Inr (wt_empty_item w, w)))
      else wt_evict_worse_candidate hasher w)"

definition wt_evict :: "('k \<Rightarrow> u64) \<Rightarrow> ('k, 'v) wtinylfu \<Rightarrow> ('v \<times> ('k, 'v) wtinylfu) res" where
  "wt_evict hasher w =
     (if lru_items (wt_window w) \<noteq> 0 \<or> lru_items (wt_main_a1 w) \<noteq> 0 then
        if lru_items (wt_window w) = 0 then
          res_bind (lru_eviction_candidate (wt_main_a1 w)) (\<lambda>it.
          res_bind (wt_evict_from_a1 w (it_key it)) (\<lambda>w. Inr (it_item it, w)))
        else if lru_items (wt_main_a1 w) = 0 then
          res_bind (lru_eviction_candidate (wt_window w)) (\<lambda>it.
          res_bind (wt_evict_from_window w (it_key it)) (\<lambda>w. Inr (it_item it, w)))
        else wt_evict_worse_candidate hasher w
      else if lru_items (wt_main_a2 w) = 0 then Inr (wt_empty_item w, w)
      else
        res_bind (lru_eviction_candidate (wt_main_a2 w)) (\<lambda>it.
        res_bind (wt_evict_from_a2 w (it_key it)) (\<lambda>w. Inr (it_item it, w))))"

definition wt_touch_a1 :: "'k \<Rightarrow> ('k, 'v) wtinylfu \<Rightarrow> ('k, 'v) wtinylfu res" where
  "wt_touch_a1 k w =
     (let full = lru_is_full (wt_main_a2 w) in
      res_bind (lru_move MAIN_A2 k (wt_main_a2 w) (wt_main_a1 w)) (\<lambda>(a2, a1).
        if full then
          res_bind (lru_eviction_candidate a2) (\<lambda>it1.
          res_bind (lru_move MAIN_A1 (it_key it1) a1 a2) (\<lambda>(a1, a2). Inr (w\<lparr>wt_main_a1 := a1, wt_main_a2 := a2\<rparr>)))
        else Inr (w\<lparr>wt_main_a1 := a1, wt_main_a2 := a2\<rparr>)))"

definition wt_touch :: "('k \<Rightarrow> u64) \<Rightarrow> ('k, 'v) wt_item \<Rightarrow> ('k, 'v) wtinylfu \<Rightarrow> ('k, 'v) wtinylfu res" where
  "wt_touch hasher it w =
     res_bind (wt_increment hasher (it_key it) w) (\<lambda>w.
       case it_location it of
         WINDOW \<Rightarrow> res_bind (lru_move_front (it_key it) (wt_window w)) (\<lambda>l. Inr (w\<lparr>wt_window := l\<rparr>))
       | MAIN_A1 \<Rightarrow> wt_touch_a1 (it_key it) w
       | MAIN_A2 \<Rightarrow> res_bind (lru_move_front (it_key it) (wt_main_a2 w)) (\<lambda>l. Inr (w\<lparr>wt_main_a2 := l\<rparr>)))"

definition wt_sizes_ok :: "('k, 'v) wtinylfu \<Rightarrow> bool" where
  "wt_sizes_ok w \<longleftrightarrow> lru_items (wt_window w) \<le> lru_max (wt_window w)
     \<and> lru_items (wt_main_a1 w) \<le> lru_max (wt_main_a1 w) \<and> lru_items (wt_main_a2 w) \<le> lru_max (wt_main_a2 w)"

text \<open>\<open>k0\<close> is the default-constructed key, which may not be used.\<close>

definition wt_get :: "('k \<Rightarrow> u64) \<Rightarrow> 'k \<Rightarrow> 'k \<Rightarrow> ('k, 'v) wtinylfu \<Rightarrow> ('v \<times> ('k, 'v) wtinylfu) res" where
  "wt_get hasher k0 k w =
     res_assert (k \<noteq> k0)
       (case wt_find k w of
          None \<Rightarrow> Inr (wt_empty_item w, w)
        | Some it \<Rightarrow> res_bind (wt_touch hasher it w) (\<lambda>w. res_assert (wt_sizes_ok w) (Inr (it_item it, w))))"

definition wt_set :: "('k \<Rightarrow> u64) \<Rightarrow> 'k \<Rightarrow> 'k \<Rightarrow> 'v \<Rightarrow> ('k, 'v) wtinylfu \<Rightarrow> ('v \<times> ('k, 'v) wtinylfu) res" where
  "wt_set hasher k0 k v w =
     res_assert (k \<noteq> k0) (res_assert (wt_find k w = None)
       (res_bind (wt_evict_if_necessary hasher w) (\<lambda>(old, w).
        res_bind (wt_create hasher k v w) (\<lambda>w. res_assert (wt_sizes_ok w) (Inr (old, w))))))"

section \<open>Sketches never fault\<close>

definition sketch_ok :: "sketch \<Rightarrow> bool" where
  "sketch_ok f \<longleftrightarrow> unat (fs_table_mask f) < length (fs_table f)"

lemma fs_index_bound: "sketch_ok f \<Longrightarrow> unat (fs_index_of f h i) < length (fs_table f)"
proof -
  assume "sketch_ok f"
  let ?h = "fs_seeds ! i * ucast h :: u64"
  let ?m = "ucast (ucast (?h + drop_bit 32 ?h) :: u32) AND fs_table_mask f"
  have "unat (ucast ?m :: u32) \<le> unat ?m" by (simp add: unsigned_ucast_eq take_bit_nat_less_eq_self)
  also have "\<dots> \<le> unat (fs_table_mask f)" by (simp add: word_le_nat_alt [symmetric] word_and_le1)
  finally show ?thesis using \<open>sketch_ok f\<close> by (simp add: fs_index_of_def sketch_ok_def Let_def)
qed

lemma and_3_cases: "(x :: u32) AND 3 = 0 \<or> x AND 3 = 1 \<or> x AND 3 = 2 \<or> x AND 3 = 3"
proof -
  have "x AND 3 \<le> 3" by (rule word_and_le1)
  then have "unat (x AND 3) \<le> 3" unfolding word_le_nat_alt by simp
  then have "unat (x AND 3) \<in> {0, 1, 2, 3}" by auto
  then show ?thesis by (auto simp: word_unat_eq_iff)
qed

lemma fs_offset_bound: "i \<in> {0, 1, 2, 3} \<Longrightarrow> unat (push_bit 2 (fs_start hash + of_nat i)) < 64"
proof -
  assume i: "i \<in> {0, 1, 2, 3}"
  have "fs_start hash \<in> {0, 4, 8, 12}"
    using and_3_cases [of hash] unfolding fs_start_def by (elim disjE; simp only:; simp)
  then show ?thesis using i by auto
qed

lemma fs_increment_at_ok:
  assumes "sketch_ok f" "unat i < length (fs_table f)" "unat (push_bit 2 j) < 64"
  shows "\<exists>a f'. fs_increment_at i j f = Inr (a, f') \<and> sketch_ok f'"
  using assms by (auto simp: fs_increment_at_def Let_def sketch_ok_def)

lemma fs_increment_ok:
  assumes "sketch_ok f"
  shows "\<exists>f'. fs_increment hash f = Inr f' \<and> sketch_ok f'"
proof -
  have "\<exists>a' f'. fs_increment_probes is hash (a, f) = Inr (a', f') \<and> sketch_ok f'"
    if "set is \<subseteq> {0, 1, 2, 3}" "sketch_ok f" for "is" a f
    using that
  proof (induction "is" arbitrary: a f)
    case (Cons i "is")
    then have "i \<in> {0, 1, 2, 3}" by simp
    from fs_increment_at_ok [OF Cons.prems(2) fs_index_bound [OF Cons.prems(2)] fs_offset_bound [OF this]]
    obtain b f1 where "fs_increment_at (fs_index_of f hash i) (fs_start hash + of_nat i) f = Inr (b, f1)" "sketch_ok f1"
      by blast
    then show ?case using Cons.IH [of f1 "a \<or> b"] Cons.prems(1) by simp
  qed simp
  from this [of "[0, 1, 2, 3]" f True] assms
  obtain a f1 where f1: "fs_increment_probes [0, 1, 2, 3] hash (True, f) = Inr (a, f1)" "sketch_ok f1" by auto
  then show ?thesis
    by (auto simp del: fs_increment_probes.simps simp: fs_increment_def Let_def fs_reset_def sketch_ok_def)
qed

lemma fs_frequency_ok: "sketch_ok f \<Longrightarrow> \<exists>n. fs_frequency f hash = Inr n"
  using fs_index_bound [of f hash] by (simp add: fs_frequency_def fs_count_def Let_def not_le)

section \<open>What a segment holds\<close>

definition lru_keys :: "('k, 'v) lru \<Rightarrow> 'k set" where
  "lru_keys l = it_key ` set (lru_list l)"

definition lru_pairs :: "('k, 'v) lru \<Rightarrow> ('k \<times> 'v) set" where
  "lru_pairs l = (\<lambda>x. (it_key x, it_item x)) ` set (lru_list l)"

definition lru_ok :: "segment \<Rightarrow> ('k, 'v) lru \<Rightarrow> bool" where
  "lru_ok loc l \<longleftrightarrow> unat (lru_items l) = length (lru_list l) \<and> lru_items l \<le> lru_max l \<and> 0 < lru_max l
     \<and> distinct (map it_key (lru_list l)) \<and> (\<forall>x \<in> set (lru_list l). it_location x = loc)"

lemma lru_pairs_keys: "fst ` lru_pairs l = lru_keys l"
  by (force simp: lru_pairs_def lru_keys_def)

lemma lru_find_ok:
  fixes l :: "('k, 'v) lru"
  assumes "lru_ok loc l" "k \<in> lru_keys l"
  obtains x :: "('k, 'v) wt_item" where "lru_find k l = Inr x" "x \<in> set (lru_list l)" "it_key x = k"
proof (cases "find (\<lambda>x. it_key x = k) (lru_list l)")
  case None
  then show thesis using assms(2) by (auto simp: find_None_iff lru_keys_def)
next
  case (Some x)
  then have "x \<in> set (lru_list l)" "it_key x = k" by (auto simp: find_Some_iff)
  then show thesis using that Some by (simp add: lru_find_def)
qed

lemma lru_remove_simps [simp]:
  fixes l :: "('k, 'v) lru"
  shows "lru_keys (lru_remove k l) = lru_keys l - {k}"
  "lru_pairs (lru_remove k l) = {p \<in> lru_pairs l. fst p \<noteq> k}"
  "lru_items (lru_remove k l) = lru_items l" "lru_max (lru_remove k l) = lru_max l"
proof -
  show "lru_keys (lru_remove k l) = lru_keys l - {k}"
    unfolding lru_remove_def lru_keys_def by auto
  show "lru_pairs (lru_remove k l) = {p \<in> lru_pairs l. fst p \<noteq> k}"
  proof (rule set_eqI)
    fix p
    have "p \<in> lru_pairs (lru_remove k l) \<longleftrightarrow> (\<exists>x \<in> set (lru_list l). it_key x \<noteq> k \<and> p = (it_key x, it_item x))"
      unfolding lru_remove_def lru_pairs_def by auto
    also have "\<dots> \<longleftrightarrow> (\<exists>x \<in> set (lru_list l). p = (it_key x, it_item x)) \<and> fst p \<noteq> k" by (cases p) auto
    also have "\<dots> \<longleftrightarrow> p \<in> {p \<in> lru_pairs l. fst p \<noteq> k}" unfolding lru_pairs_def by blast
    finally show "p \<in> lru_pairs (lru_remove k l) \<longleftrightarrow> p \<in> {p \<in> lru_pairs l. fst p \<noteq> k}" .
  qed
qed (simp_all add: lru_remove_def)

lemma length_filter_key:
  fixes xs :: "('k, 'v) wt_item list"
  shows "distinct (map it_key xs) \<Longrightarrow> k \<in> it_key ` set xs \<Longrightarrow> Suc (length (filter (\<lambda>x. it_key x \<noteq> k) xs)) = length xs"
proof (induction xs)
  case (Cons x xs)
  show ?case
  proof (cases "it_key x = k")
    case True
    then have "\<forall>y \<in> set xs. it_key y \<noteq> k"
      using Cons.prems(1) by (metis distinct.simps(2) image_eqI list.map(2) list.set_map)
    then show ?thesis using True by (simp add: filter_id_conv)
  next
    case False
    then show ?thesis using Cons by auto
  qed
qed simp

lemma lru_ok_remove:
  fixes l :: "('k, 'v) lru"
  assumes "lru_ok loc l" "k \<in> lru_keys l"
  shows "lru_ok loc (lru_remove k (l\<lparr>lru_items := lru_items l - 1\<rparr>))" "lru_items l \<noteq> 0"
    "unat (lru_items l - 1) = unat (lru_items l) - 1"
proof -
  have "lru_list l \<noteq> []" using assms(2) by (auto simp: lru_keys_def)
  then show nz: "lru_items l \<noteq> 0" using assms(1) by (auto simp: lru_ok_def)
  then show u: "unat (lru_items l - 1) = unat (lru_items l) - 1"
    by (simp add: unat_sub word_le_nat_alt unat_gt_0 Suc_leI)
  have "Suc (length (filter (\<lambda>x. it_key x \<noteq> k) (lru_list l))) = length (lru_list l)"
    using assms length_filter_key [of "lru_list l" k] by (simp add: lru_ok_def lru_keys_def)
  then have c: "unat (lru_items l - 1) = length (filter (\<lambda>x. it_key x \<noteq> k) (lru_list l))"
    using u assms(1) by (simp add: lru_ok_def)
  have "lru_items l - 1 \<le> lru_max l"
    using assms(1) u by (simp add: lru_ok_def word_le_nat_alt) linarith
  then show "lru_ok loc (lru_remove k (l\<lparr>lru_items := lru_items l - 1\<rparr>))"
    using assms(1) c by (auto simp: lru_ok_def lru_remove_def distinct_map inj_on_def)
qed

lemma lru_evict_ok:
  fixes l :: "('k, 'v) lru"
  assumes "lru_ok loc l" "k \<in> lru_keys l"
  obtains l' :: "('k, 'v) lru" where "lru_evict k l = Inr l'" "lru_ok loc l'" "lru_keys l' = lru_keys l - {k}"
    "lru_pairs l' = {p \<in> lru_pairs l. fst p \<noteq> k}" "unat (lru_items l') = unat (lru_items l) - 1" "lru_max l' = lru_max l"
proof -
  obtain x where "lru_find k l = Inr x" by (rule lru_find_ok [OF assms])
  then show thesis
    using that [of "lru_remove k (l\<lparr>lru_items := lru_items l - 1\<rparr>)"] lru_ok_remove [OF assms]
    by (simp add: lru_evict_def lru_keys_def [of "l\<lparr>lru_items := _\<rparr>"] lru_pairs_def [of "l\<lparr>lru_items := _\<rparr>"]
        lru_keys_def [of l] lru_pairs_def [of l])
qed

lemma lru_push_ok:
  fixes l :: "('k, 'v) lru"
  assumes "lru_ok loc l" "\<not> lru_is_full l" "it_key x \<notin> lru_keys l" "it_location x = loc"
  shows "lru_ok loc (l\<lparr>lru_items := lru_items l + 1, lru_list := x # lru_list l\<rparr>)"
    "unat (lru_items l + 1) = unat (lru_items l) + 1"
proof -
  have lt: "unat (lru_items l) < unat (lru_max l)"
    using assms(1,2) by (auto simp: lru_ok_def lru_is_full_def word_le_nat_alt word_unat_eq_iff)
  have "unat (lru_max l) < 2 ^ 32" using unsigned_less [of "lru_max l"] by simp
  then show u: "unat (lru_items l + 1) = unat (lru_items l) + 1"
    using lt by (subst unat_add_lem [THEN iffD1]) simp_all
  have "lru_items l + 1 \<le> lru_max l" using lt by (simp add: word_le_nat_alt u)
  then show "lru_ok loc (l\<lparr>lru_items := lru_items l + 1, lru_list := x # lru_list l\<rparr>)"
    using assms u by (simp add: lru_ok_def lru_keys_def)
qed

lemma lru_move_ok:
  fixes l :: "('k, 'v) lru"
  assumes "lru_ok loc l" "lru_ok loc' s" "\<not> lru_is_full l" "k \<in> lru_keys s" "k \<notin> lru_keys l"
  obtains l' s' :: "('k, 'v) lru" where "lru_move loc k l s = Inr (l', s')" "lru_ok loc l'" "lru_ok loc' s'"
    "lru_keys l' = insert k (lru_keys l)" "lru_keys s' = lru_keys s - {k}"
    "lru_pairs l' = lru_pairs l \<union> {p \<in> lru_pairs s. fst p = k}" "lru_pairs s' = {p \<in> lru_pairs s. fst p \<noteq> k}"
    "lru_max l' = lru_max l" "lru_max s' = lru_max s" "unat (lru_items s') = unat (lru_items s) - 1"
    "unat (lru_items l') = unat (lru_items l) + 1"
proof -
  obtain x where x: "lru_find k s = Inr x" "x \<in> set (lru_list s)" "it_key x = k" by (rule lru_find_ok [OF assms(2,4)])
  define y where "y = x\<lparr>it_location := loc\<rparr>"
  define l' where "l' = l\<lparr>lru_items := lru_items l + 1, lru_list := y # lru_list l\<rparr>"
  define s' where "s' = lru_remove k (s\<lparr>lru_items := lru_items s - 1\<rparr>)"
  have y: "it_key y = k" "it_location y = loc" "it_item y = it_item x" using x by (simp_all add: y_def)
  have kl: "it_key y \<notin> lru_keys l" using y assms(5) by simp
  note p = lru_push_ok [OF assms(1,3) kl y(2)]
  note r = lru_ok_remove [OF assms(2,4)]
  have "{p \<in> lru_pairs s. fst p = k} = {(k, it_item x)}"
  proof -
    have "z = x" if "z \<in> set (lru_list s)" "it_key z = k" for z
      using that x assms(2) unfolding lru_ok_def distinct_map inj_on_def by metis
    then show ?thesis using x unfolding lru_pairs_def by force
  qed
  then have pairs: "lru_pairs l' = lru_pairs l \<union> {p \<in> lru_pairs s. fst p = k}"
    using y by (auto simp: l'_def lru_pairs_def)
  have keys: "lru_keys l' = insert k (lru_keys l)" using y by (simp add: l'_def lru_keys_def)
  have s0: "lru_keys (s\<lparr>lru_items := i\<rparr>) = lru_keys s" "lru_pairs (s\<lparr>lru_items := i\<rparr>) = lru_pairs s" for i
    by (simp_all add: lru_keys_def lru_pairs_def)
  have mv: "lru_move loc k l s = Inr (l', s')" using x by (simp add: lru_move_def l'_def s'_def y_def)
  show thesis
    by (rule that [OF mv _ _ keys _ pairs]) (use p r y s0 in \<open>simp_all add: l'_def s'_def\<close>)
qed

lemma lru_move_front_ok:
  fixes l :: "('k, 'v) lru"
  assumes "lru_ok loc l" "k \<in> lru_keys l"
  obtains l' :: "('k, 'v) lru" where "lru_move_front k l = Inr l'" "lru_ok loc l'" "lru_keys l' = lru_keys l"
    "lru_pairs l' = lru_pairs l" "lru_items l' = lru_items l" "lru_max l' = lru_max l"
proof -
  obtain x where x: "lru_find k l = Inr x" "x \<in> set (lru_list l)" "it_key x = k" by (rule lru_find_ok [OF assms])
  have only: "z = x" if "z \<in> set (lru_list l)" "it_key z = k" for z
    using that x assms(1) unfolding lru_ok_def distinct_map inj_on_def by metis
  let ?xs = "filter (\<lambda>y. it_key y \<noteq> k) (lru_list l)"
  define l' where "l' = (lru_remove k l)\<lparr>lru_items := lru_items l + 1 - 1, lru_list := x # lru_list (lru_remove k l)\<rparr>"
  have "set (lru_list l') = insert x {y \<in> set (lru_list l). it_key y \<noteq> k}" by (simp add: l'_def lru_remove_def)
  also have "\<dots> = set (lru_list l)" using x only by blast
  finally have set: "set (lru_list l') = set (lru_list l)" .
  have "Suc (length ?xs) = length (lru_list l)"
    using assms length_filter_key [of "lru_list l" k] by (simp add: lru_ok_def lru_keys_def)
  moreover have "distinct (map it_key (x # ?xs))"
    using assms(1) x by (auto simp: lru_ok_def distinct_map inj_on_def)
  ultimately have "lru_ok loc l'"
    using assms(1) x by (auto simp: lru_ok_def l'_def lru_remove_def)
  moreover have "lru_move_front k l = Inr l'" using x by (simp add: lru_move_front_def l'_def)
  ultimately show thesis
    by (intro that [of l']) (simp_all add: lru_keys_def lru_pairs_def set, simp_all add: l'_def)
qed

lemma lru_candidate_ok:
  fixes l :: "('k, 'v) lru"
  assumes "lru_ok loc l" "lru_items l \<noteq> 0"
  obtains x where "lru_eviction_candidate l = Inr x" "it_key x \<in> lru_keys l" "(it_key x, it_item x) \<in> lru_pairs l"
proof -
  have "lru_list l \<noteq> []" using assms by (auto simp: lru_ok_def unat_eq_zero)
  then show thesis using that [of "last (lru_list l)"]
    by (simp add: lru_eviction_candidate_def lru_keys_def lru_pairs_def)
qed

section \<open>What the cache holds\<close>

definition wt_pairs :: "('k, 'v) wtinylfu \<Rightarrow> ('k \<times> 'v) set" where
  "wt_pairs w = lru_pairs (wt_window w) \<union> lru_pairs (wt_main_a1 w) \<union> lru_pairs (wt_main_a2 w)"

definition wt_inv :: "('k, 'v) wtinylfu \<Rightarrow> bool" where
  "wt_inv w \<longleftrightarrow> lru_ok WINDOW (wt_window w) \<and> lru_ok MAIN_A1 (wt_main_a1 w) \<and> lru_ok MAIN_A2 (wt_main_a2 w)
     \<and> lru_keys (wt_window w) \<inter> lru_keys (wt_main_a1 w) = {} \<and> lru_keys (wt_window w) \<inter> lru_keys (wt_main_a2 w) = {}
     \<and> lru_keys (wt_main_a1 w) \<inter> lru_keys (wt_main_a2 w) = {}
     \<and> set (wt_map w) = lru_keys (wt_window w) \<union> lru_keys (wt_main_a1 w) \<union> lru_keys (wt_main_a2 w)
     \<and> length (wt_counters w) = 4096 \<and> (\<forall>f \<in> set (wt_counters w). sketch_ok f)"

lemma wt_pairs_keys: "wt_inv w \<Longrightarrow> fst ` wt_pairs w = set (wt_map w)"
  by (simp add: wt_pairs_def wt_inv_def image_Un lru_pairs_keys)

lemma hash_slot: "unat ((h :: u64) AND 0xfff) < 4096"
proof -
  have "h AND 0xfff \<le> 0xfff" by (rule word_and_le1)
  then show ?thesis by (simp add: word_le_nat_alt)
qed

lemma wt_increment_ok:
  fixes w :: "('k, 'v) wtinylfu"
  assumes "length (wt_counters w) = 4096" "\<forall>f \<in> set (wt_counters w). sketch_ok f"
  obtains cs where "wt_increment hasher k w = Inr (w\<lparr>wt_counters := cs\<rparr>)" "length cs = 4096" "\<forall>f \<in> set cs. sketch_ok f"
proof -
  let ?i = "unat (hasher k AND 0xfff)"
  have i: "?i < length (wt_counters w)" using hash_slot assms(1) by simp
  then have "sketch_ok (wt_counters w ! ?i)" using assms(2) by simp
  from fs_increment_ok [OF this, of "ucast (drop_bit 12 (hasher k))"]
  obtain f where f: "fs_increment (ucast (drop_bit 12 (hasher k))) (wt_counters w ! ?i) = Inr f" "sketch_ok f" by blast
  show thesis
    by (rule that [of "(wt_counters w)[?i := f]"])
      (use f assms i in \<open>auto simp: wt_increment_def Let_def dest!: set_update_subset_insert [THEN subsetD]\<close>)
qed

lemma wt_frequency_ok: "wt_inv w \<Longrightarrow> \<exists>n. wt_frequency hasher k w = Inr n"
  using hash_slot [of "hasher k"] by (auto simp: wt_frequency_def Let_def wt_inv_def intro!: fs_frequency_ok)

text \<open>The four ways in which nodes leave a segment.\<close>

lemma lru_pairs_other:
  fixes l :: "('k, 'v) lru"
  assumes "k \<notin> lru_keys l"
  shows "{p \<in> lru_pairs l. fst p \<noteq> k} = lru_pairs l" "{p \<in> lru_pairs l. fst p = k} = {}"
  using assms unfolding lru_pairs_keys [symmetric] by force+

lemma not_full:
  "lru_items l \<noteq> 0 \<Longrightarrow> lru_items l \<le> lru_max l \<Longrightarrow> unat (lru_items l') = unat (lru_items l) - 1 \<Longrightarrow>
    lru_max l' = lru_max l \<Longrightarrow> \<not> lru_is_full l'"
  using unat_gt_0 [of "lru_items l"] by (fastforce simp: lru_is_full_def word_le_nat_alt)

lemma lru_nonempty: "lru_ok loc l \<Longrightarrow> k \<in> lru_keys l \<Longrightarrow> lru_items l \<noteq> 0"
  by (rule lru_ok_remove(2))

lemma wt_evict_from_window_ok:
  fixes w :: "('k, 'v) wtinylfu"
  assumes inv: "wt_inv w" and k: "k \<in> lru_keys (wt_window w)"
  obtains w' where "wt_evict_from_window w k = Inr w'" "wt_inv w'" "wt_pairs w' = {p \<in> wt_pairs w. fst p \<noteq> k}"
    "\<not> lru_is_full (wt_window w')" "wt_empty_item w' = wt_empty_item w"
proof -
  have ok: "lru_ok WINDOW (wt_window w)" using inv by (simp add: wt_inv_def)
  obtain l' where l': "lru_evict k (wt_window w) = Inr l'" "lru_ok WINDOW l'" "lru_keys l' = lru_keys (wt_window w) - {k}"
    "lru_pairs l' = {p \<in> lru_pairs (wt_window w). fst p \<noteq> k}" "unat (lru_items l') = unat (lru_items (wt_window w)) - 1"
    "lru_max l' = lru_max (wt_window w)" by (rule lru_evict_ok [OF ok k])
  define w' where "w' = w\<lparr>wt_map := removeAll k (wt_map w), wt_window := l'\<rparr>"
  have nk: "k \<notin> lru_keys (wt_main_a1 w)" "k \<notin> lru_keys (wt_main_a2 w)" using inv k unfolding wt_inv_def by blast+
  have "wt_inv w'" using inv l'(2,3) nk by (auto simp: wt_inv_def w'_def)
  moreover have "wt_pairs w' = {p \<in> wt_pairs w. fst p \<noteq> k}"
    using lru_pairs_other(1) [OF nk(1)] lru_pairs_other(1) [OF nk(2)] l'(4) by (auto simp: wt_pairs_def w'_def)
  moreover have "\<not> lru_is_full (wt_window w')"
    using not_full [OF lru_nonempty [OF ok k] _ l'(5,6)] ok by (simp add: w'_def lru_ok_def)
  ultimately show thesis using that [of w'] l'(1) by (simp add: wt_evict_from_window_def w'_def)
qed

lemma wt_evict_from_a1_ok:
  fixes w :: "('k, 'v) wtinylfu"
  assumes inv: "wt_inv w" and k: "k \<in> lru_keys (wt_main_a1 w)"
  obtains w' where "wt_evict_from_a1 w k = Inr w'" "wt_inv w'" "wt_pairs w' = {p \<in> wt_pairs w. fst p \<noteq> k}"
    "\<not> lru_is_full (wt_main_a1 w')" "wt_window w' = wt_window w" "wt_empty_item w' = wt_empty_item w"
proof -
  have ok: "lru_ok MAIN_A1 (wt_main_a1 w)" using inv by (simp add: wt_inv_def)
  obtain l' where l': "lru_evict k (wt_main_a1 w) = Inr l'" "lru_ok MAIN_A1 l'" "lru_keys l' = lru_keys (wt_main_a1 w) - {k}"
    "lru_pairs l' = {p \<in> lru_pairs (wt_main_a1 w). fst p \<noteq> k}" "unat (lru_items l') = unat (lru_items (wt_main_a1 w)) - 1"
    "lru_max l' = lru_max (wt_main_a1 w)" by (rule lru_evict_ok [OF ok k])
  define w' where "w' = w\<lparr>wt_map := removeAll k (wt_map w), wt_main_a1 := l'\<rparr>"
  have nk: "k \<notin> lru_keys (wt_window w)" "k \<notin> lru_keys (wt_main_a2 w)" using inv k unfolding wt_inv_def by blast+
  have "wt_inv w'" using inv l'(2,3) nk by (auto simp: wt_inv_def w'_def)
  moreover have "wt_pairs w' = {p \<in> wt_pairs w. fst p \<noteq> k}"
    using lru_pairs_other(1) [OF nk(1)] lru_pairs_other(1) [OF nk(2)] l'(4) by (auto simp: wt_pairs_def w'_def)
  moreover have "\<not> lru_is_full (wt_main_a1 w')"
    using not_full [OF lru_nonempty [OF ok k] _ l'(5,6)] ok by (simp add: w'_def lru_ok_def)
  ultimately show thesis using that [of w'] l'(1) by (simp add: wt_evict_from_a1_def w'_def)
qed

lemma wt_evict_from_a2_ok:
  fixes w :: "('k, 'v) wtinylfu"
  assumes inv: "wt_inv w" and k: "k \<in> lru_keys (wt_main_a2 w)"
  obtains w' where "wt_evict_from_a2 w k = Inr w'" "wt_inv w'" "wt_pairs w' = {p \<in> wt_pairs w. fst p \<noteq> k}"
    "wt_empty_item w' = wt_empty_item w"
proof -
  have ok: "lru_ok MAIN_A2 (wt_main_a2 w)" using inv by (simp add: wt_inv_def)
  obtain l' where l': "lru_evict k (wt_main_a2 w) = Inr l'" "lru_ok MAIN_A2 l'" "lru_keys l' = lru_keys (wt_main_a2 w) - {k}"
    "lru_pairs l' = {p \<in> lru_pairs (wt_main_a2 w). fst p \<noteq> k}" "unat (lru_items l') = unat (lru_items (wt_main_a2 w)) - 1"
    "lru_max l' = lru_max (wt_main_a2 w)" by (rule lru_evict_ok [OF ok k])
  define w' where "w' = w\<lparr>wt_map := removeAll k (wt_map w), wt_main_a2 := l'\<rparr>"
  have nk: "k \<notin> lru_keys (wt_window w)" "k \<notin> lru_keys (wt_main_a1 w)" using inv k unfolding wt_inv_def by blast+
  have "wt_inv w'" using inv l'(2,3) nk by (auto simp: wt_inv_def w'_def)
  moreover have "wt_pairs w' = {p \<in> wt_pairs w. fst p \<noteq> k}"
    using lru_pairs_other(1) [OF nk(1)] lru_pairs_other(1) [OF nk(2)] l'(4) by (auto simp: wt_pairs_def w'_def)
  ultimately show thesis using that [of w'] l'(1) by (simp add: wt_evict_from_a2_def w'_def)
qed

lemma wt_window_to_a1_ok:
  fixes w :: "('k, 'v) wtinylfu"
  assumes inv: "wt_inv w" and k: "k \<in> lru_keys (wt_window w)" and room: "\<not> lru_is_full (wt_main_a1 w)"
  obtains w' where "wt_window_to_a1 w k = Inr w'" "wt_inv w'" "wt_pairs w' = wt_pairs w"
    "\<not> lru_is_full (wt_window w')" "wt_empty_item w' = wt_empty_item w"
proof -
  have ok: "lru_ok MAIN_A1 (wt_main_a1 w)" "lru_ok WINDOW (wt_window w)" using inv by (simp_all add: wt_inv_def)
  have nk: "k \<notin> lru_keys (wt_main_a1 w)" "k \<notin> lru_keys (wt_main_a2 w)" using inv k unfolding wt_inv_def by blast+
  obtain l' s' where m: "lru_move MAIN_A1 k (wt_main_a1 w) (wt_window w) = Inr (l', s')" "lru_ok MAIN_A1 l'" "lru_ok WINDOW s'"
    "lru_keys l' = insert k (lru_keys (wt_main_a1 w))" "lru_keys s' = lru_keys (wt_window w) - {k}"
    "lru_pairs l' = lru_pairs (wt_main_a1 w) \<union> {p \<in> lru_pairs (wt_window w). fst p = k}"
    "lru_pairs s' = {p \<in> lru_pairs (wt_window w). fst p \<noteq> k}"
    "lru_max l' = lru_max (wt_main_a1 w)" "lru_max s' = lru_max (wt_window w)"
    "unat (lru_items s') = unat (lru_items (wt_window w)) - 1" "unat (lru_items l') = unat (lru_items (wt_main_a1 w)) + 1"
    by (rule lru_move_ok [OF ok room k nk(1)])
  define w' where "w' = w\<lparr>wt_main_a1 := l', wt_window := s'\<rparr>"
  have "wt_inv w'" using inv m(2-5) nk k by (auto simp: wt_inv_def w'_def)
  moreover have "wt_pairs w' = wt_pairs w" using m(6,7) by (auto simp: wt_pairs_def w'_def)
  moreover have "\<not> lru_is_full (wt_window w')"
    using not_full [OF lru_nonempty [OF ok(2) k] _ m(10,9)] ok(2) by (simp add: w'_def lru_ok_def)
  ultimately show thesis using that [of w'] m(1) by (simp add: wt_window_to_a1_def w'_def)
qed

section \<open>The operations\<close>

lemma wt_evict_worse_candidate_ok:
  fixes w :: "('k, 'v) wtinylfu"
  assumes inv: "wt_inv w" and ne: "lru_items (wt_window w) \<noteq> 0" "lru_items (wt_main_a1 w) \<noteq> 0"
  obtains k v w' where "wt_evict_worse_candidate hasher w = Inr (v, w')" "(k, v) \<in> wt_pairs w" "wt_inv w'"
    "wt_pairs w' = {p \<in> wt_pairs w. fst p \<noteq> k}" "\<not> lru_is_full (wt_window w')" "wt_empty_item w' = wt_empty_item w"
proof -
  have ok: "lru_ok WINDOW (wt_window w)" "lru_ok MAIN_A1 (wt_main_a1 w)" using inv by (simp_all add: wt_inv_def)
  obtain x where x: "lru_eviction_candidate (wt_window w) = Inr x" "it_key x \<in> lru_keys (wt_window w)"
      "(it_key x, it_item x) \<in> lru_pairs (wt_window w)" by (rule lru_candidate_ok [OF ok(1) ne(1)])
  obtain y where y: "lru_eviction_candidate (wt_main_a1 w) = Inr y" "it_key y \<in> lru_keys (wt_main_a1 w)"
      "(it_key y, it_item y) \<in> lru_pairs (wt_main_a1 w)" by (rule lru_candidate_ok [OF ok(2) ne(2)])
  obtain f1 f2 where f: "wt_frequency hasher (it_key x) w = Inr f1" "wt_frequency hasher (it_key y) w = Inr f2"
    using wt_frequency_ok [OF inv] by blast
  show thesis
  proof (cases "f1 > f2")
    case True
    obtain w1 where w1: "wt_evict_from_a1 w (it_key y) = Inr w1" "wt_inv w1" "wt_pairs w1 = {p \<in> wt_pairs w. fst p \<noteq> it_key y}"
      "\<not> lru_is_full (wt_main_a1 w1)" "wt_window w1 = wt_window w" "wt_empty_item w1 = wt_empty_item w"
      by (rule wt_evict_from_a1_ok [OF inv y(2)])
    have x1: "it_key x \<in> lru_keys (wt_window w1)" using x(2) w1(5) by simp
    obtain w2 where w2: "wt_window_to_a1 w1 (it_key x) = Inr w2" "wt_inv w2" "wt_pairs w2 = wt_pairs w1"
      "\<not> lru_is_full (wt_window w2)" "wt_empty_item w2 = wt_empty_item w1"
      by (rule wt_window_to_a1_ok [OF w1(2) x1 w1(4)])
    show thesis
      by (rule that [of "it_item y" w2 "it_key y"])
        (use True x(1) y f w1 w2 in \<open>simp_all add: wt_evict_worse_candidate_def wt_pairs_def [of w]\<close>)
  next
    case False
    obtain w1 where w1: "wt_evict_from_window w (it_key x) = Inr w1" "wt_inv w1" "wt_pairs w1 = {p \<in> wt_pairs w. fst p \<noteq> it_key x}"
      "\<not> lru_is_full (wt_window w1)" "wt_empty_item w1 = wt_empty_item w"
      by (rule wt_evict_from_window_ok [OF inv x(2)])
    show thesis
      by (rule that [of "it_item x" w1 "it_key x"])
        (use False x y(1) f w1 in \<open>simp_all add: wt_evict_worse_candidate_def wt_pairs_def [of w]\<close>)
  qed
qed

text \<open>Making room before an insertion: nothing leaves the cache, or one pair does and its item is returned.\<close>

definition one_dropped :: "'v \<Rightarrow> ('k \<times> 'v) set \<Rightarrow> 'v \<Rightarrow> ('k \<times> 'v) set \<Rightarrow> bool" where
  "one_dropped e P v P' \<longleftrightarrow> v = e \<and> P' = P \<or> (\<exists>k. (k, v) \<in> P \<and> P' = {p \<in> P. fst p \<noteq> k})"

lemma lru_full_items: "lru_ok loc l \<Longrightarrow> lru_is_full l \<Longrightarrow> lru_items l \<noteq> 0"
  by (auto simp: lru_ok_def lru_is_full_def)

lemma wt_evict_if_necessary_ok:
  fixes w :: "('k, 'v) wtinylfu"
  assumes inv: "wt_inv w"
  obtains v w' where "wt_evict_if_necessary hasher w = Inr (v, w')" "wt_inv w'" "\<not> lru_is_full (wt_window w')"
    "one_dropped (wt_empty_item w) (wt_pairs w) v (wt_pairs w')" "wt_empty_item w' = wt_empty_item w"
proof -
  have ok: "lru_ok WINDOW (wt_window w)" "lru_ok MAIN_A1 (wt_main_a1 w)" using inv by (simp_all add: wt_inv_def)
  consider "\<not> lru_is_full (wt_window w)" | "lru_is_full (wt_window w)" "\<not> lru_is_full (wt_main_a1 w)"
    | "lru_is_full (wt_window w)" "lru_is_full (wt_main_a1 w)" by blast
  then show thesis
  proof cases
    case 1
    then have "wt_evict_if_necessary hasher w = Inr (wt_empty_item w, w)" by (simp add: wt_evict_if_necessary_def)
    then show thesis by (rule that [OF _ inv 1]) (simp_all add: one_dropped_def)
  next
    case 2
    obtain x where x: "lru_eviction_candidate (wt_window w) = Inr x" "it_key x \<in> lru_keys (wt_window w)"
      by (rule lru_candidate_ok [OF ok(1) lru_full_items [OF ok(1) 2(1)]])
    obtain w1 where w1: "wt_window_to_a1 w (it_key x) = Inr w1" "wt_inv w1" "wt_pairs w1 = wt_pairs w"
      "\<not> lru_is_full (wt_window w1)" "wt_empty_item w1 = wt_empty_item w"
      by (rule wt_window_to_a1_ok [OF inv x(2) 2(2)])
    show thesis
      by (rule that [of "wt_empty_item w" w1])
        (use 2 x(1) w1 in \<open>simp_all add: wt_evict_if_necessary_def one_dropped_def\<close>)
  next
    case 3
    obtain k v w1 where w1: "wt_evict_worse_candidate hasher w = Inr (v, w1)" "(k, v) \<in> wt_pairs w" "wt_inv w1"
      "wt_pairs w1 = {p \<in> wt_pairs w. fst p \<noteq> k}" "\<not> lru_is_full (wt_window w1)" "wt_empty_item w1 = wt_empty_item w"
      by (rule wt_evict_worse_candidate_ok [OF inv lru_full_items [OF ok(1) 3(1)] lru_full_items [OF ok(2) 3(2)]])
    have od: "one_dropped (wt_empty_item w) (wt_pairs w) v (wt_pairs w1)" using w1(2,4) unfolding one_dropped_def by blast
    have "wt_evict_if_necessary hasher w = Inr (v, w1)" using 3 w1(1) by (simp add: wt_evict_if_necessary_def)
    then show thesis by (rule that [OF _ w1(3,5) od w1(6)])
  qed
qed

lemma wt_sizes: "wt_inv w \<Longrightarrow> wt_sizes_ok w"
  by (simp add: wt_inv_def wt_sizes_ok_def lru_ok_def)

definition wt_nodes :: "('k, 'v) wtinylfu \<Rightarrow> ('k, 'v) wt_item list" where
  "wt_nodes w = lru_list (wt_window w) @ lru_list (wt_main_a1 w) @ lru_list (wt_main_a2 w)"

lemma wt_map_nodes: "wt_inv w \<Longrightarrow> set (wt_map w) = it_key ` set (wt_nodes w)"
  by (simp add: wt_inv_def wt_nodes_def lru_keys_def image_Un Un_assoc)

lemma wt_find_None:
  fixes w :: "('k, 'v) wtinylfu"
  assumes inv: "wt_inv w"
  shows "wt_find k w = None \<longleftrightarrow> k \<notin> fst ` wt_pairs w"
proof (cases "k \<in> set (wt_map w)")
  case True
  then have "\<exists>x \<in> set (wt_nodes w). it_key x = k" using wt_map_nodes [OF inv] by auto
  then have "find (\<lambda>x. it_key x = k) (wt_nodes w) \<noteq> None" unfolding find_None_iff by blast
  then show ?thesis using True wt_pairs_keys [OF inv] by (simp add: wt_find_def wt_nodes_def)
next
  case False
  then show ?thesis using wt_pairs_keys [OF inv] by (simp add: wt_find_def)
qed

lemma wt_find_Some:
  fixes w :: "('k, 'v) wtinylfu"
  assumes inv: "wt_inv w" and f: "wt_find k w = Some x"
  shows "it_key x = k" "(k, it_item x) \<in> wt_pairs w"
    "case it_location x of WINDOW \<Rightarrow> k \<in> lru_keys (wt_window w) | MAIN_A1 \<Rightarrow> k \<in> lru_keys (wt_main_a1 w)
      | MAIN_A2 \<Rightarrow> k \<in> lru_keys (wt_main_a2 w)"
proof -
  have "find (\<lambda>x. it_key x = k) (wt_nodes w) = Some x" using f by (simp add: wt_find_def wt_nodes_def split: if_splits)
  then have x: "it_key x = k" "x \<in> set (wt_nodes w)" by (auto simp: find_Some_iff)
  then show "it_key x = k" by simp
  show "(k, it_item x) \<in> wt_pairs w" using x by (auto simp: wt_pairs_def wt_nodes_def lru_pairs_def)
  have loc: "\<forall>x \<in> set (lru_list (wt_window w)). it_location x = WINDOW"
    "\<forall>x \<in> set (lru_list (wt_main_a1 w)). it_location x = MAIN_A1"
    "\<forall>x \<in> set (lru_list (wt_main_a2 w)). it_location x = MAIN_A2" using inv by (simp_all add: wt_inv_def lru_ok_def)
  consider "x \<in> set (lru_list (wt_window w))" | "x \<in> set (lru_list (wt_main_a1 w))" | "x \<in> set (lru_list (wt_main_a2 w))"
    using x(2) by (auto simp: wt_nodes_def)
  then show "case it_location x of WINDOW \<Rightarrow> k \<in> lru_keys (wt_window w) | MAIN_A1 \<Rightarrow> k \<in> lru_keys (wt_main_a1 w)
      | MAIN_A2 \<Rightarrow> k \<in> lru_keys (wt_main_a2 w)"
    by cases (use loc x(1) in \<open>simp_all add: lru_keys_def\<close>, blast+)
qed

lemma wt_create_ok:
  fixes w :: "('k, 'v) wtinylfu"
  assumes inv: "wt_inv w" and room: "\<not> lru_is_full (wt_window w)" and k: "k \<notin> fst ` wt_pairs w"
  obtains w' where "wt_create hasher k v w = Inr w'" "wt_inv w'" "wt_pairs w' = insert (k, v) (wt_pairs w)"
    "wt_empty_item w' = wt_empty_item w"
proof -
  let ?x = "\<lparr>it_location = WINDOW, it_key = k, it_item = v\<rparr>"
  have ok: "lru_ok WINDOW (wt_window w)" using inv by (simp add: wt_inv_def)
  have nk: "k \<notin> set (wt_map w)" using k unfolding wt_pairs_keys [OF inv] .
  then have kl: "it_key ?x \<notin> lru_keys (wt_window w)" "k \<notin> lru_keys (wt_main_a1 w)" "k \<notin> lru_keys (wt_main_a2 w)"
    using inv by (simp_all add: wt_inv_def)
  define l' where "l' = (wt_window w)\<lparr>lru_items := lru_items (wt_window w) + 1, lru_list := ?x # lru_list (wt_window w)\<rparr>"
  have l': "lru_ok WINDOW l'" using lru_push_ok(1) [OF ok room kl(1)] by (simp add: l'_def)
  have lk: "lru_keys l' = insert k (lru_keys (wt_window w))" "lru_pairs l' = insert (k, v) (lru_pairs (wt_window w))"
    by (simp_all add: l'_def lru_keys_def lru_pairs_def)
  let ?w1 = "w\<lparr>wt_window := l', wt_map := k # wt_map w\<rparr>"
  obtain cs where cs: "wt_increment hasher k ?w1 = Inr (?w1\<lparr>wt_counters := cs\<rparr>)" "length cs = 4096" "\<forall>f \<in> set cs. sketch_ok f"
    by (rule wt_increment_ok [of ?w1]) (use inv in \<open>simp_all add: wt_inv_def\<close>)
  have "wt_inv (?w1\<lparr>wt_counters := cs\<rparr>)" using inv l' lk(1) cs(2,3) kl by (auto simp: wt_inv_def)
  moreover have "wt_pairs (?w1\<lparr>wt_counters := cs\<rparr>) = insert (k, v) (wt_pairs w)" using lk(2) by (simp add: wt_pairs_def)
  moreover have "wt_create hasher k v w = Inr (?w1\<lparr>wt_counters := cs\<rparr>)"
    using room nk cs(1) by (simp add: wt_create_def lru_create_def lru_is_full_def l'_def)
  ultimately show thesis using that by simp
qed

text \<open>A node leaves a segment and another one enters it: the counter and the invariant are as before.\<close>

lemma lru_replace_ok:
  fixes l :: "('k, 'v) lru"
  assumes "lru_ok loc l" "z \<in> lru_keys l" "it_key y \<notin> lru_keys l" "it_location y = loc"
  shows "lru_ok loc (l\<lparr>lru_list := y # filter (\<lambda>x. it_key x \<noteq> z) (lru_list l)\<rparr>)"
proof -
  have "Suc (length (filter (\<lambda>x. it_key x \<noteq> z) (lru_list l))) = length (lru_list l)"
    using assms length_filter_key [of "lru_list l" z] by (simp add: lru_ok_def lru_keys_def)
  then show ?thesis using assms by (auto simp: lru_ok_def lru_keys_def distinct_map inj_on_def)
qed

lemma lru_pairs_split:
  fixes l :: "('k, 'v) lru"
  assumes "lru_ok loc l" "x \<in> set (lru_list l)"
  shows "lru_pairs l = insert (it_key x, it_item x) {p \<in> lru_pairs l. fst p \<noteq> it_key x}"
proof -
  have "z = x" if "z \<in> set (lru_list l)" "it_key z = it_key x" for z
    using that assms unfolding lru_ok_def distinct_map inj_on_def by metis
  then show ?thesis using assms(2) unfolding lru_pairs_def by force
qed

lemma lru_pairs_replace:
  fixes l :: "('k, 'v) lru"
  shows "lru_pairs (l\<lparr>lru_list := y # filter (\<lambda>x. it_key x \<noteq> z) (lru_list l)\<rparr>)
    = insert (it_key y, it_item y) {p \<in> lru_pairs l. fst p \<noteq> z}"
  unfolding lru_remove_simps(2) [symmetric] by (simp add: lru_pairs_def lru_remove_def)

lemma wt_touch_a1_full:
  fixes w :: "('k, 'v) wtinylfu"
  assumes inv: "wt_inv w" and k: "k \<in> lru_keys (wt_main_a1 w)" and full: "lru_is_full (wt_main_a2 w)"
  obtains w' where "wt_touch_a1 k w = Inr w'" "wt_inv w'" "wt_pairs w' = wt_pairs w" "wt_empty_item w' = wt_empty_item w"
proof -
  let ?a1 = "wt_main_a1 w" and ?a2 = "wt_main_a2 w"
  have ok: "lru_ok MAIN_A1 ?a1" "lru_ok MAIN_A2 ?a2" using inv by (simp_all add: wt_inv_def)
  obtain x where x: "lru_find k ?a1 = Inr x" "x \<in> set (lru_list ?a1)" "it_key x = k" by (rule lru_find_ok [OF ok(1) k])
  have ne: "lru_list ?a2 \<noteq> []" using lru_full_items [OF ok(2) full] ok(2) by (auto simp: lru_ok_def unat_eq_zero)
  define z where "z = last (lru_list ?a2)"
  have z: "z \<in> set (lru_list ?a2)" "it_key z \<in> lru_keys ?a2" using ne by (simp_all add: z_def lru_keys_def)
  have ka2: "k \<notin> lru_keys ?a2" and za1: "it_key z \<notin> lru_keys ?a1" using inv k z(2) unfolding wt_inv_def by blast+
  then have zk: "it_key z \<noteq> k" using k by blast
  define y where "y = x\<lparr>it_location := MAIN_A2\<rparr>"
  define z' where "z' = z\<lparr>it_location := MAIN_A1\<rparr>"
  have y: "it_key y = k" "it_location y = MAIN_A2" "it_item y = it_item x"
    and z': "it_key z' = it_key z" "it_location z' = MAIN_A1" "it_item z' = it_item z" using x(3) by (simp_all add: y_def z'_def)
  define a1 where "a1 = ?a1\<lparr>lru_list := z' # filter (\<lambda>x. it_key x \<noteq> k) (lru_list ?a1)\<rparr>"
  define a2 where "a2 = ?a2\<lparr>lru_list := y # filter (\<lambda>x. it_key x \<noteq> it_key z) (lru_list ?a2)\<rparr>"
  have ok': "lru_ok MAIN_A1 a1" "lru_ok MAIN_A2 a2"
    using lru_replace_ok [OF ok(1) k _ z'(2)] lru_replace_ok [OF ok(2) z(2) _ y(2)] za1 ka2 z'(1) y(1)
    by (simp_all add: a1_def a2_def)
  have find_z: "find (\<lambda>x. it_key x = it_key z) (lru_list ?a2) = Some z"
  proof -
    obtain x where x: "lru_find (it_key z) ?a2 = Inr x" "x \<in> set (lru_list ?a2)" "it_key x = it_key z"
      by (rule lru_find_ok [OF ok(2) z(2)])
    then have "x = z" using z(1) ok(2) unfolding lru_ok_def distinct_map inj_on_def by metis
    then show ?thesis using x(1) by (simp add: lru_find_def split: option.splits)
  qed
  have keys: "lru_keys a1 = insert (it_key z) (lru_keys ?a1 - {k})" "lru_keys a2 = insert k (lru_keys ?a2 - {it_key z})"
    using y(1) z'(1) by (auto simp: a1_def a2_def lru_keys_def)
  have "lru_pairs a1 = insert (it_key z, it_item z) {p \<in> lru_pairs ?a1. fst p \<noteq> k}"
    "lru_pairs a2 = insert (k, it_item x) {p \<in> lru_pairs ?a2. fst p \<noteq> it_key z}"
    using lru_pairs_replace [where l = ?a1 and y = z' and z = k] lru_pairs_replace [where l = ?a2 and y = y and z = "it_key z"] y z' by (simp_all add: a1_def a2_def)
  moreover note lru_pairs_split [OF ok(1) x(2), unfolded x(3)] lru_pairs_split [OF ok(2) z(1)]
  ultimately have pairs: "lru_pairs a1 \<union> lru_pairs a2 = lru_pairs ?a1 \<union> lru_pairs ?a2" by blast
  define w' where "w' = w\<lparr>wt_main_a1 := a1, wt_main_a2 := a2\<rparr>"
  have "wt_touch_a1 k w = Inr w'"
    using full x(1) ne zk y(1) find_z
    by (simp add: wt_touch_a1_def lru_move_def y_def [symmetric] lru_eviction_candidate_def z_def [symmetric] lru_find_def
        [where k = "it_key z"] lru_remove_def w'_def a1_def a2_def z'_def)
  moreover have "wt_inv w'"
    using inv ok' keys k z(2) zk unfolding wt_inv_def w'_def by (simp, blast)
  moreover have "wt_pairs w' = wt_pairs w" using pairs by (simp add: wt_pairs_def w'_def Un_assoc)
  ultimately show thesis using that by (simp add: w'_def)
qed

lemma wt_touch_a1_ok:
  fixes w :: "('k, 'v) wtinylfu"
  assumes inv: "wt_inv w" and k: "k \<in> lru_keys (wt_main_a1 w)"
  obtains w' where "wt_touch_a1 k w = Inr w'" "wt_inv w'" "wt_pairs w' = wt_pairs w" "wt_empty_item w' = wt_empty_item w"
proof (cases "lru_is_full (wt_main_a2 w)")
  case True
  then show thesis using wt_touch_a1_full [OF inv k] that by blast
next
  case False
  have ok: "lru_ok MAIN_A2 (wt_main_a2 w)" "lru_ok MAIN_A1 (wt_main_a1 w)" using inv by (simp_all add: wt_inv_def)
  have nk: "k \<notin> lru_keys (wt_main_a2 w)" "k \<notin> lru_keys (wt_window w)" using inv k unfolding wt_inv_def by blast+
  obtain l' s' where m: "lru_move MAIN_A2 k (wt_main_a2 w) (wt_main_a1 w) = Inr (l', s')" "lru_ok MAIN_A2 l'" "lru_ok MAIN_A1 s'"
    "lru_keys l' = insert k (lru_keys (wt_main_a2 w))" "lru_keys s' = lru_keys (wt_main_a1 w) - {k}"
    "lru_pairs l' = lru_pairs (wt_main_a2 w) \<union> {p \<in> lru_pairs (wt_main_a1 w). fst p = k}"
    "lru_pairs s' = {p \<in> lru_pairs (wt_main_a1 w). fst p \<noteq> k}"
    by (rule lru_move_ok [OF ok False k nk(1)])
  define w' where "w' = w\<lparr>wt_main_a1 := s', wt_main_a2 := l'\<rparr>"
  have "wt_inv w'" using inv m(2-5) nk k by (auto simp: wt_inv_def w'_def)
  moreover have "wt_pairs w' = wt_pairs w" using m(6,7) by (auto simp: wt_pairs_def w'_def)
  moreover have "wt_touch_a1 k w = Inr w'" using False m(1) by (simp add: wt_touch_a1_def w'_def)
  ultimately show thesis using that by (simp add: w'_def)
qed

lemma wt_touch_ok:
  fixes w :: "('k, 'v) wtinylfu"
  assumes inv: "wt_inv w" and x: "it_key x = k" "case it_location x of WINDOW \<Rightarrow> k \<in> lru_keys (wt_window w)
      | MAIN_A1 \<Rightarrow> k \<in> lru_keys (wt_main_a1 w) | MAIN_A2 \<Rightarrow> k \<in> lru_keys (wt_main_a2 w)"
  obtains w' where "wt_touch hasher x w = Inr w'" "wt_inv w'" "wt_pairs w' = wt_pairs w" "wt_empty_item w' = wt_empty_item w"
proof -
  obtain cs where cs: "wt_increment hasher k w = Inr (w\<lparr>wt_counters := cs\<rparr>)" "length cs = 4096" "\<forall>f \<in> set cs. sketch_ok f"
    by (rule wt_increment_ok [of w]) (use inv in \<open>simp_all add: wt_inv_def\<close>)
  let ?w1 = "w\<lparr>wt_counters := cs\<rparr>"
  have inv1: "wt_inv ?w1" using inv cs(2,3) by (simp add: wt_inv_def)
  have same: "wt_window ?w1 = wt_window w" "wt_main_a1 ?w1 = wt_main_a1 w" "wt_main_a2 ?w1 = wt_main_a2 w" "wt_pairs ?w1 = wt_pairs w"
    by (simp_all add: wt_pairs_def)
  show thesis
  proof (cases "it_location x")
    case WINDOW
    then have k: "k \<in> lru_keys (wt_window w)" and ok: "lru_ok WINDOW (wt_window w)" using x(2) inv by (simp_all add: wt_inv_def)
    obtain l' where l': "lru_move_front k (wt_window w) = Inr l'" "lru_ok WINDOW l'" "lru_keys l' = lru_keys (wt_window w)"
      "lru_pairs l' = lru_pairs (wt_window w)" by (rule lru_move_front_ok [OF ok k])
    show thesis
      by (rule that [of "?w1\<lparr>wt_window := l'\<rparr>"])
        (use WINDOW x(1) cs(1) l' inv1 in \<open>simp_all add: wt_touch_def wt_inv_def wt_pairs_def\<close>)
  next
    case MAIN_A1
    then have k: "k \<in> lru_keys (wt_main_a1 ?w1)" using x(2) by simp
    obtain w' where "wt_touch_a1 k ?w1 = Inr w'" "wt_inv w'" "wt_pairs w' = wt_pairs ?w1" "wt_empty_item w' = wt_empty_item ?w1"
      by (rule wt_touch_a1_ok [OF inv1 k])
    then show thesis using that MAIN_A1 x(1) cs(1) same(4) by (simp add: wt_touch_def)
  next
    case MAIN_A2
    then have k: "k \<in> lru_keys (wt_main_a2 w)" and ok: "lru_ok MAIN_A2 (wt_main_a2 w)" using x(2) inv by (simp_all add: wt_inv_def)
    obtain l' where l': "lru_move_front k (wt_main_a2 w) = Inr l'" "lru_ok MAIN_A2 l'" "lru_keys l' = lru_keys (wt_main_a2 w)"
      "lru_pairs l' = lru_pairs (wt_main_a2 w)" by (rule lru_move_front_ok [OF ok k])
    show thesis
      by (rule that [of "?w1\<lparr>wt_main_a2 := l'\<rparr>"])
        (use MAIN_A2 x(1) cs(1) l' inv1 in \<open>simp_all add: wt_touch_def wt_inv_def wt_pairs_def\<close>)
  qed
qed

lemma wt_pairs_fun: "wt_inv w \<Longrightarrow> (k, v) \<in> wt_pairs w \<Longrightarrow> (k, v') \<in> wt_pairs w \<Longrightarrow> v = v'"
proof -
  assume inv: "wt_inv w" and p: "(k, v) \<in> wt_pairs w" "(k, v') \<in> wt_pairs w"
  have one: "v = v'" if "lru_ok loc l" "(k, v) \<in> lru_pairs l" "(k, v') \<in> lru_pairs l" for loc and l :: "('a, 'b) lru"
  proof -
    obtain x y where "x \<in> set (lru_list l)" "y \<in> set (lru_list l)" "it_key x = k" "it_key y = k" "it_item x = v" "it_item y = v'"
      using \<open>(k, v) \<in> lru_pairs l\<close> \<open>(k, v') \<in> lru_pairs l\<close> unfolding lru_pairs_def by auto
    moreover from this have "x = y" using \<open>lru_ok loc l\<close> unfolding lru_ok_def distinct_map inj_on_def by metis
    ultimately show "v = v'" by simp
  qed
  have key: "k \<in> lru_keys l" if "(k, u) \<in> lru_pairs l" for u and l :: "('a, 'b) lru"
    using that unfolding lru_pairs_keys [symmetric] by force
  have dis: "lru_keys (wt_window w) \<inter> lru_keys (wt_main_a1 w) = {}" "lru_keys (wt_window w) \<inter> lru_keys (wt_main_a2 w) = {}"
    "lru_keys (wt_main_a1 w) \<inter> lru_keys (wt_main_a2 w) = {}" using inv by (simp_all add: wt_inv_def)
  have ok: "lru_ok WINDOW (wt_window w)" "lru_ok MAIN_A1 (wt_main_a1 w)" "lru_ok MAIN_A2 (wt_main_a2 w)"
    using inv by (simp_all add: wt_inv_def)
  show "v = v'"
    using p key dis one [OF ok(1)] one [OF ok(2)] one [OF ok(3)] unfolding wt_pairs_def by blast
qed

text \<open>Lookup, insertion and eviction.\<close>

lemma wt_get_hit:
  fixes w :: "('k, 'v) wtinylfu"
  assumes inv: "wt_inv w" and k: "k \<noteq> k0" "(k, v) \<in> wt_pairs w"
  shows "\<exists>w'. wt_get hasher k0 k w = Inr (v, w') \<and> wt_inv w' \<and> wt_pairs w' = wt_pairs w \<and> wt_empty_item w' = wt_empty_item w"
proof -
  have "k \<in> fst ` wt_pairs w" using k(2) by force
  then obtain x where x: "wt_find k w = Some x" using wt_find_None [OF inv, of k] by auto
  note f = wt_find_Some [OF inv x]
  obtain w' where w': "wt_touch hasher x w = Inr w'" "wt_inv w'" "wt_pairs w' = wt_pairs w" "wt_empty_item w' = wt_empty_item w"
    by (rule wt_touch_ok [OF inv f(1,3)])
  have "it_item x = v" by (rule wt_pairs_fun [OF inv f(2) k(2)])
  then have "wt_get hasher k0 k w = Inr (v, w')" using k(1) x w'(1) wt_sizes [OF w'(2)] by (simp add: wt_get_def)
  then show ?thesis using w'(2-4) by blast
qed

lemma wt_get_miss:
  "wt_inv w \<Longrightarrow> k \<noteq> k0 \<Longrightarrow> k \<notin> fst ` wt_pairs w \<Longrightarrow> wt_get hasher k0 k w = Inr (wt_empty_item w, w)"
  using wt_find_None [of w k] by (simp add: wt_get_def)

lemma wt_set_ok:
  fixes w :: "('k, 'v) wtinylfu"
  assumes inv: "wt_inv w" and k: "k \<noteq> k0" "k \<notin> fst ` wt_pairs w"
  shows "\<exists>old w' P. wt_set hasher k0 k v w = Inr (old, w') \<and> wt_inv w' \<and> wt_empty_item w' = wt_empty_item w
    \<and> one_dropped (wt_empty_item w) (wt_pairs w) old P \<and> wt_pairs w' = insert (k, v) P"
proof -
  obtain old w1 where w1: "wt_evict_if_necessary hasher w = Inr (old, w1)" "wt_inv w1" "\<not> lru_is_full (wt_window w1)"
    "one_dropped (wt_empty_item w) (wt_pairs w) old (wt_pairs w1)" "wt_empty_item w1 = wt_empty_item w"
    by (rule wt_evict_if_necessary_ok [OF inv])
  have "wt_pairs w1 \<subseteq> wt_pairs w" using w1(4) unfolding one_dropped_def by blast
  then have k1: "k \<notin> fst ` wt_pairs w1" using k(2) by blast
  obtain w2 where w2: "wt_create hasher k v w1 = Inr w2" "wt_inv w2" "wt_pairs w2 = insert (k, v) (wt_pairs w1)"
    "wt_empty_item w2 = wt_empty_item w1" by (rule wt_create_ok [OF w1(2,3) k1])
  have "wt_set hasher k0 k v w = Inr (old, w2)"
    using k wt_find_None [OF inv, of k] w1(1) w2(1) wt_sizes [OF w2(2)] by (simp add: wt_set_def)
  then show ?thesis using w1(4,5) w2(2-4) by auto
qed

lemma lru_items_0: "lru_ok loc l \<Longrightarrow> lru_items l = 0 \<Longrightarrow> lru_pairs l = {}"
  by (simp add: lru_ok_def lru_pairs_def)

lemma wt_evict_ok:
  fixes w :: "('k, 'v) wtinylfu"
  assumes inv: "wt_inv w"
  shows "\<exists>old w'. wt_evict hasher w = Inr (old, w') \<and> wt_inv w' \<and> wt_empty_item w' = wt_empty_item w
    \<and> one_dropped (wt_empty_item w) (wt_pairs w) old (wt_pairs w') \<and> (wt_pairs w \<noteq> {} \<longrightarrow> wt_pairs w' \<noteq> wt_pairs w)"
proof -
  have ok: "lru_ok WINDOW (wt_window w)" "lru_ok MAIN_A1 (wt_main_a1 w)" "lru_ok MAIN_A2 (wt_main_a2 w)"
    using inv by (simp_all add: wt_inv_def)
  have drop: ?thesis if "wt_evict hasher w = Inr (v, w')" "(k, v) \<in> wt_pairs w" "wt_inv w'"
    "wt_pairs w' = {p \<in> wt_pairs w. fst p \<noteq> k}" "wt_empty_item w' = wt_empty_item w" for v w' k
  proof -
    have "one_dropped (wt_empty_item w) (wt_pairs w) v (wt_pairs w')" using that(2,4) unfolding one_dropped_def by blast
    moreover have "(k, v) \<notin> wt_pairs w'" by (simp add: that(4))
    ultimately show ?thesis using that by blast
  qed
  let ?a = "lru_items (wt_window w)" and ?b = "lru_items (wt_main_a1 w)" and ?c = "lru_items (wt_main_a2 w)"
  consider "?a = 0" "?b \<noteq> 0" | "?a \<noteq> 0" "?b = 0" | "?a \<noteq> 0" "?b \<noteq> 0" | "?a = 0" "?b = 0" "?c \<noteq> 0" | "?a = 0" "?b = 0" "?c = 0"
    by blast
  then show ?thesis
  proof cases
    case 1
    obtain x where x: "lru_eviction_candidate (wt_main_a1 w) = Inr x" "it_key x \<in> lru_keys (wt_main_a1 w)"
      "(it_key x, it_item x) \<in> lru_pairs (wt_main_a1 w)" by (rule lru_candidate_ok [OF ok(2) 1(2)])
    obtain w' where w': "wt_evict_from_a1 w (it_key x) = Inr w'" "wt_inv w'" "wt_pairs w' = {p \<in> wt_pairs w. fst p \<noteq> it_key x}"
      "wt_empty_item w' = wt_empty_item w" by (rule wt_evict_from_a1_ok [OF inv x(2)])
    have p: "(it_key x, it_item x) \<in> wt_pairs w" using x(3) by (simp add: wt_pairs_def)
    have "wt_evict hasher w = Inr (it_item x, w')" using 1 x(1) w'(1) by (simp add: wt_evict_def)
    then show ?thesis by (rule drop [OF _ p w'(2-4)])
  next
    case 2
    obtain x where x: "lru_eviction_candidate (wt_window w) = Inr x" "it_key x \<in> lru_keys (wt_window w)"
      "(it_key x, it_item x) \<in> lru_pairs (wt_window w)" by (rule lru_candidate_ok [OF ok(1) 2(1)])
    obtain w' where w': "wt_evict_from_window w (it_key x) = Inr w'" "wt_inv w'" "wt_pairs w' = {p \<in> wt_pairs w. fst p \<noteq> it_key x}"
      "wt_empty_item w' = wt_empty_item w" by (rule wt_evict_from_window_ok [OF inv x(2)])
    have p: "(it_key x, it_item x) \<in> wt_pairs w" using x(3) by (simp add: wt_pairs_def)
    have "wt_evict hasher w = Inr (it_item x, w')" using 2 x(1) w'(1) by (simp add: wt_evict_def)
    then show ?thesis by (rule drop [OF _ p w'(2-4)])
  next
    case 3
    obtain k v w' where w': "wt_evict_worse_candidate hasher w = Inr (v, w')" "(k, v) \<in> wt_pairs w" "wt_inv w'"
      "wt_pairs w' = {p \<in> wt_pairs w. fst p \<noteq> k}" "wt_empty_item w' = wt_empty_item w"
      by (rule wt_evict_worse_candidate_ok [OF inv 3])
    have "wt_evict hasher w = Inr (v, w')" using 3 w'(1) by (simp add: wt_evict_def)
    then show ?thesis by (rule drop [OF _ w'(2-5)])
  next
    case 4
    obtain x where x: "lru_eviction_candidate (wt_main_a2 w) = Inr x" "it_key x \<in> lru_keys (wt_main_a2 w)"
      "(it_key x, it_item x) \<in> lru_pairs (wt_main_a2 w)" by (rule lru_candidate_ok [OF ok(3) 4(3)])
    obtain w' where w': "wt_evict_from_a2 w (it_key x) = Inr w'" "wt_inv w'" "wt_pairs w' = {p \<in> wt_pairs w. fst p \<noteq> it_key x}"
      "wt_empty_item w' = wt_empty_item w" by (rule wt_evict_from_a2_ok [OF inv x(2)])
    have p: "(it_key x, it_item x) \<in> wt_pairs w" using x(3) by (simp add: wt_pairs_def)
    have "wt_evict hasher w = Inr (it_item x, w')" using 4 x(1) w'(1) by (simp add: wt_evict_def)
    then show ?thesis by (rule drop [OF _ p w'(2-4)])
  next
    case 5
    have "wt_pairs w = {}"
      using lru_items_0 [OF ok(1) 5(1)] lru_items_0 [OF ok(2) 5(2)] lru_items_0 [OF ok(3) 5(3)] by (simp add: wt_pairs_def)
    then show ?thesis using 5 inv by (simp add: wt_evict_def one_dropped_def)
  qed
qed

text \<open>A fresh cache. The sketches need at least one item each, and the sizes must not wrap.\<close>

lemma bit_length_bounds:
  fixes x :: u32
  assumes "x \<noteq> 0" "unat x < 2 ^ n" "n < 32"
  shows "0 < bit_length x" "bit_length x \<le> n"
proof -
  let ?b = "map (bit x) (rev [0..<32])"
  have "\<exists>i < 32. bit x i"
    using assms(1) by (auto intro!: bit_word_eqI)
  then have "\<exists>b \<in> set ?b. b" by auto
  then have "dropWhile Not ?b \<noteq> []" unfolding dropWhile_eq_Nil_conv by blast
  then show "0 < bit_length x" by (simp add: bit_length_def)
  have hi: "\<not> bit x i" if "n \<le> i" for i
  proof -
    have "(2 :: nat) ^ n \<le> 2 ^ i" using that by (rule power_increasing) simp
    with assms(2) have "unat x < 2 ^ i" by (rule less_le_trans)
    then have "\<not> bit (unat x) i" by (simp add: bit_iff_odd)
    then show ?thesis by (simp add: bit_unsigned_iff)
  qed
  have "rev [0..<32] = rev [n..<32] @ rev [0..<n]"
    using assms(3) upt_add_eq_append [of 0 n "32 - n"] by (simp flip: rev_append)
  then have "dropWhile Not ?b = dropWhile Not (map (bit x) (rev [0..<n]))"
    using hi by (auto intro!: dropWhile_append2)
  then show "bit_length x \<le> n"
    using length_dropWhile_le [of Not "map (bit x) (rev [0..<n])"] by (simp add: bit_length_def)
qed

lemma fs_initialize_ok:
  assumes "0 < n" "n < 2 ^ 24"
  shows "\<exists>f. fs_initialize n = Inr f \<and> sketch_ok f"
proof -
  have n: "n \<noteq> 0" "unat n < 2 ^ 24" using assms by (auto simp: word_less_nat_alt)
  note b = bit_length_bounds [OF n]
  have le: "(2 :: nat) ^ bit_length n \<le> 2 ^ 24" using b by (intro power_increasing) simp_all
  then have u: "unat (push_bit (bit_length n) (1 :: u32)) = 2 ^ bit_length n"
  proof -
    have "push_bit (bit_length n) (1 :: u32) = of_nat (2 ^ bit_length n)" by (simp add: push_bit_eq_mult)
    moreover have "unat (of_nat (2 ^ bit_length n) :: u32) = 2 ^ bit_length n"
      using le by (intro unat_word_of_nat) simp
    ultimately show ?thesis by simp
  qed
  have "unat (of_nat (2 ^ bit_length n) - 1 :: u64) < 2 ^ bit_length n"
  proof -
    have "unat (of_nat (2 ^ bit_length n) :: u64) = 2 ^ bit_length n"
      using le by (intro unat_word_of_nat) simp
    moreover from this have "(1 :: u64) \<le> of_nat (2 ^ bit_length n)" by (simp add: word_le_nat_alt)
    ultimately show ?thesis by (simp add: unat_sub)
  qed
  then show ?thesis using n b u by (simp add: fs_initialize_def Let_def sketch_ok_def)
qed

lemma fs_initialize_all_ok:
  assumes "0 < n" "n < 2 ^ 24"
  shows "\<exists>fs. fs_initialize_all k n = Inr fs \<and> length fs = k \<and> (\<forall>f \<in> set fs. sketch_ok f)"
proof (induction k)
  case (Suc k)
  then show ?case using fs_initialize_ok [OF assms] by auto
qed simp

lemma wtinylfu_init_ok:
  assumes n: "4096 \<le> n" "n \<le> 0x80000000"
  obtains w :: "('k, 'v) wtinylfu" where "wtinylfu_init n e = Inr w" "wt_inv w" "wt_pairs w = {}" "wt_empty_item w = e"
proof -
  have u: "4096 \<le> unat n" "unat n \<le> 2147483648" using n by (simp_all add: word_le_nat_alt)
  have "0 < n div 4096" "n div 4096 < 2 ^ 24" using u by (simp_all add: word_less_nat_alt unat_div)
  from fs_initialize_all_ok [OF this, of 4096]
  obtain cs where cs: "fs_initialize_all 4096 (n div 4096) = Inr cs" "length cs = 4096" "\<forall>f \<in> set cs. sketch_ok f" by blast
  define win where "win = n div 100"
  define a1 where "a1 = 2 * (n - win) div 10"
  have win: "unat win = unat n div 100" by (simp add: win_def unat_div)
  have nw: "unat (n - win) = unat n - unat n div 100" using win by (subst unat_sub) (simp_all add: word_le_nat_alt)
  have two: "unat (2 * (n - win)) = 2 * (unat n - unat n div 100)"
    using nw u by (subst unat_mult_lem [THEN iffD1]) simp_all
  have "unat a1 = unat (2 * (n - win)) div unat (10 :: u32)" unfolding a1_def by (rule unat_div)
  then have a1: "unat a1 = 2 * (unat n - unat n div 100) div 10" unfolding two by simp
  have "unat (n - win - a1) = unat n - unat n div 100 - 2 * (unat n - unat n div 100) div 10"
    using nw a1 by (subst unat_sub) (simp_all add: word_le_nat_alt)
  then have "0 < unat (n - win - a1)" using u by linarith
  moreover have "0 < unat a1" "0 < unat win" using win a1 u by simp_all
  ultimately have pos: "0 < win" "0 < a1" "0 < n - win - a1" by (simp_all add: word_less_nat_alt)
  define w :: "('k, 'v) wtinylfu" where "w = \<lparr>wt_window = lru_initialize win, wt_main_a1 = lru_initialize a1,
    wt_main_a2 = lru_initialize (n - win - a1), wt_map = [], wt_counters = cs, wt_empty_item = e\<rparr>"
  have "wtinylfu_init n e = Inr w"
    using cs(1) u by (simp add: wtinylfu_init_def Let_def w_def win_def a1_def word_le_nat_alt del: fs_initialize_all.simps)
  moreover have "wt_inv w"
    using cs(2,3) pos by (simp add: wt_inv_def w_def lru_ok_def lru_initialize_def lru_keys_def)
  moreover have "wt_pairs w = {}" by (simp add: w_def wt_pairs_def lru_pairs_def lru_initialize_def)
  ultimately show thesis using that by (simp add: w_def)
qed

section \<open>What a cache promises\<close>

text \<open>
  A cache of items under keys: looking up changes nothing and finds what was put; making room hands
  back at most one item, which is then gone; nothing else is lost. \<open>usable\<close> are the keys allowed.
\<close>

datatype ('k, 'v) cache_op = Fetch 'k 'v | Shrink

text \<open>
  What a client does: look a key up and put an item of its own when it is absent, or ask for an item
  out. The result lists the items the cache took and those it gave out.
\<close>

fun cache_run :: "('k \<Rightarrow> 'c \<Rightarrow> ('v \<times> 'c) res) \<Rightarrow> ('k \<Rightarrow> 'v \<Rightarrow> 'c \<Rightarrow> ('v \<times> 'c) res) \<Rightarrow> ('c \<Rightarrow> ('v \<times> 'c) res) \<Rightarrow> 'v
    \<Rightarrow> ('k, 'v) cache_op list \<Rightarrow> 'c \<Rightarrow> ('v list \<times> 'v list \<times> 'c) res" where
  "cache_run get give evict none [] c = Inr ([], [], c)"
| "cache_run get give evict none (Fetch k v # ops) c =
     res_bind (get k c) (\<lambda>(found, c).
       if found \<noteq> none then cache_run get give evict none ops c
       else res_bind (give k v c) (\<lambda>(old, c).
         res_bind (cache_run get give evict none ops c) (\<lambda>(took, out, c).
           Inr (v # took, (if old = none then out else old # out), c))))"
| "cache_run get give evict none (Shrink # ops) c =
     res_bind (evict c) (\<lambda>(old, c).
       res_bind (cache_run get give evict none ops c) (\<lambda>(took, out, c).
         Inr (took, (if old = none then out else old # out), c)))"

definition op_allowed :: "('k \<Rightarrow> bool) \<Rightarrow> 'v \<Rightarrow> ('k, 'v) cache_op \<Rightarrow> bool" where
  "op_allowed usable none x \<longleftrightarrow> (case x of Fetch k v \<Rightarrow> usable k \<and> v \<noteq> none | Shrink \<Rightarrow> True)"

definition pair_items :: "('k \<times> 'v) set \<Rightarrow> 'v multiset" where
  "pair_items P = image_mset snd (mset_set P)"

locale item_cache =
  fixes inv :: "'c \<Rightarrow> bool" and pairs :: "'c \<Rightarrow> ('k \<times> 'v) set" and none :: 'v and usable :: "'k \<Rightarrow> bool"
    and get :: "'k \<Rightarrow> 'c \<Rightarrow> ('v \<times> 'c) res" and give :: "'k \<Rightarrow> 'v \<Rightarrow> 'c \<Rightarrow> ('v \<times> 'c) res"
    and evict :: "'c \<Rightarrow> ('v \<times> 'c) res"
  assumes pairs_fun: "inv c \<Longrightarrow> (k, v) \<in> pairs c \<Longrightarrow> (k, v') \<in> pairs c \<Longrightarrow> v = v'"
    and pairs_finite: "inv c \<Longrightarrow> finite (pairs c)"
    and get_hit: "inv c \<Longrightarrow> usable k \<Longrightarrow> (k, v) \<in> pairs c \<Longrightarrow> \<exists>c'. get k c = Inr (v, c') \<and> inv c' \<and> pairs c' = pairs c"
    and get_miss: "inv c \<Longrightarrow> usable k \<Longrightarrow> k \<notin> fst ` pairs c \<Longrightarrow> get k c = Inr (none, c)"
    and give_drops: "inv c \<Longrightarrow> usable k \<Longrightarrow> k \<notin> fst ` pairs c \<Longrightarrow>
      \<exists>old c' P. give k v c = Inr (old, c') \<and> inv c' \<and> one_dropped none (pairs c) old P \<and> pairs c' = insert (k, v) P"
    and evict_drops: "inv c \<Longrightarrow> \<exists>old c'. evict c = Inr (old, c') \<and> inv c' \<and> one_dropped none (pairs c) old (pairs c')
      \<and> (pairs c \<noteq> {} \<longrightarrow> pairs c' \<noteq> pairs c)"
begin

text \<open>An eviction step in terms of the items held, when no item held is the empty one.\<close>

lemma dropped_items:
  assumes "inv c" "none \<notin> snd ` pairs c" "one_dropped none (pairs c) old P"
  shows "P \<subseteq> pairs c" "pair_items (pairs c) = (if old = none then {#} else {#old#}) + pair_items P"
proof -
  show sub: "P \<subseteq> pairs c" using assms(3) unfolding one_dropped_def by blast
  show "pair_items (pairs c) = (if old = none then {#} else {#old#}) + pair_items P"
  proof (cases "old = none")
    case True
    then show ?thesis using assms(2,3) unfolding one_dropped_def by force
  next
    case False
    then obtain k where k: "(k, old) \<in> pairs c" "P = {p \<in> pairs c. fst p \<noteq> k}" using assms(3) unfolding one_dropped_def by blast
    have "P = pairs c - {(k, old)}"
    proof (rule set_eqI)
      fix p
      show "p \<in> P \<longleftrightarrow> p \<in> pairs c - {(k, old)}"
        using k pairs_fun [OF assms(1) k(1), of "snd p"] by (cases p) auto
    qed
    then have "mset_set (pairs c) = add_mset (k, old) (mset_set P)"
      using k(1) pairs_finite [OF assms(1)] by (simp add: mset_set.remove)
    then show ?thesis using False by (simp add: pair_items_def)
  qed
qed

text \<open>No item is lost and none is handed out twice, whatever the client asks for.\<close>

lemma run_conserves:
  assumes "inv c" "none \<notin> snd ` pairs c" "list_all (op_allowed usable none) ops"
  shows "\<exists>took out c'. cache_run get give evict none ops c = Inr (took, out, c') \<and> inv c' \<and> none \<notin> snd ` pairs c'
    \<and> pair_items (pairs c') + mset out = pair_items (pairs c) + mset took"
  using assms
proof (induction ops arbitrary: c)
  case (Cons x ops)
  show ?case
  proof (cases x)
    case (Fetch k v)
    then have u: "usable k" "v \<noteq> none" using Cons.prems(3) by (simp_all add: op_allowed_def)
    show ?thesis
    proof (cases "k \<in> fst ` pairs c")
      case True
      then obtain v' where v': "(k, v') \<in> pairs c" by force
      then have nv: "v' \<noteq> none" using Cons.prems(2) by force
      obtain c1 where c1: "get k c = Inr (v', c1)" "inv c1" "pairs c1 = pairs c"
        using get_hit [OF Cons.prems(1) u(1) v'] by blast
      then show ?thesis using Cons.IH [of c1] Cons.prems Fetch nv by simp
    next
      case False
      obtain old c1 P where c1: "give k v c = Inr (old, c1)" "inv c1" "one_dropped none (pairs c) old P" "pairs c1 = insert (k, v) P"
        using give_drops [OF Cons.prems(1) u(1) False] by blast
      note d = dropped_items [OF Cons.prems(1,2) c1(3)]
      have "finite P" using d(1) pairs_finite [OF Cons.prems(1)] by (rule finite_subset)
      moreover have "(k, v) \<notin> P" using d(1) False by force
      ultimately have i: "pair_items (pairs c1) = add_mset v (pair_items P)" by (simp add: c1(4) pair_items_def)
      have "none \<notin> snd ` pairs c1" using Cons.prems(2) d(1) u(2) c1(4) by auto
      from Cons.IH [OF c1(2) this] Cons.prems(3) obtain took out c' where
        r: "cache_run get give evict none ops c1 = Inr (took, out, c')" "inv c'" "none \<notin> snd ` pairs c'"
          "pair_items (pairs c') + mset out = pair_items (pairs c1) + mset took" by auto
      have run: "cache_run get give evict none (x # ops) c = Inr (v # took, (if old = none then out else old # out), c')"
        using get_miss [OF Cons.prems(1) u(1) False] c1(1) r(1) Fetch by simp
      have "pair_items (pairs c') + mset (if old = none then out else old # out) = pair_items (pairs c) + mset (v # took)"
        using r(4) i d(2) by (cases "old = none") simp_all
      then show ?thesis using run r(2,3) by blast
    qed
  next
    case Shrink
    obtain old c1 where c1: "evict c = Inr (old, c1)" "inv c1" "one_dropped none (pairs c) old (pairs c1)"
      using evict_drops [OF Cons.prems(1)] by blast
    note d = dropped_items [OF Cons.prems(1,2) c1(3)]
    have "none \<notin> snd ` pairs c1" using Cons.prems(2) d(1) by auto
    from Cons.IH [OF c1(2) this] Cons.prems(3) obtain took out c' where
      r: "cache_run get give evict none ops c1 = Inr (took, out, c')" "inv c'" "none \<notin> snd ` pairs c'"
        "pair_items (pairs c') + mset out = pair_items (pairs c1) + mset took" by auto
    have run: "cache_run get give evict none (x # ops) c = Inr (took, (if old = none then out else old # out), c')"
      using c1(1) r(1) Shrink by simp
    have "pair_items (pairs c') + mset (if old = none then out else old # out) = pair_items (pairs c) + mset took"
      using r(4) d(2) by (cases "old = none") simp_all
    then show ?thesis using run r(2,3) by blast
  qed
qed simp

end

interpretation wc: item_cache "\<lambda>w. wt_inv w \<and> wt_empty_item w = e" wt_pairs e "\<lambda>k. k \<noteq> k0" "wt_get hasher k0"
  "wt_set hasher k0" "wt_evict hasher" for e and k0 and hasher
proof (unfold_locales, goal_cases)
  case (1 c k v v')
  then show ?case using wt_pairs_fun [of c k v v'] by simp
next
  case (2 c)
  then show ?case by (simp add: wt_pairs_def lru_pairs_def)
next
  case (3 c k v)
  then show ?case using wt_get_hit [of c k k0 v hasher] by auto
next
  case (4 c k)
  then show ?case using wt_get_miss [of c k k0 hasher] by simp
next
  case (5 c k v)
  then show ?case using wt_set_ok [of c k k0 hasher v] by simp
next
  case (6 c)
  then show ?case using wt_evict_ok [of c hasher] by auto
qed

section \<open>Properties\<close>

text \<open>
  C14: From a new cache of 4096 to 2^31 items, any sequence of fetches (look a key up, put an item when
  it is absent) and evictions runs without a fault or a failed assertion, whatever the sketches say, and
  the items that went in are exactly the items still held and the items handed back, each once.
\<close>

theorem wtinylfu_conserves:
  fixes hasher :: "'k \<Rightarrow> u64" and none :: 'v
  assumes "4096 \<le> n" "n \<le> 0x80000000" "list_all (op_allowed (\<lambda>k. k \<noteq> k0) none) ops"
  shows "\<exists>w took out w'. wtinylfu_init n none = Inr w
    \<and> cache_run (wt_get hasher k0) (wt_set hasher k0) (wt_evict hasher) none ops w = Inr (took, out, w')
    \<and> wt_sizes_ok w' \<and> pair_items (wt_pairs w') + mset out = mset took"
proof -
  obtain w :: "('k, 'v) wtinylfu" where w: "wtinylfu_init n none = Inr w" "wt_inv w" "wt_pairs w = {}" "wt_empty_item w = none"
    by (rule wtinylfu_init_ok [OF assms(1,2)])
  have "wt_inv w \<and> wt_empty_item w = none" "none \<notin> snd ` wt_pairs w" using w by simp_all
  from wc.run_conserves [OF this assms(3), of hasher] show ?thesis
    using w(1,3) wt_sizes by (fastforce simp: pair_items_def)
qed

lemma wtinylfu_conserves_witness:
  "\<exists>w took out w'. wtinylfu_init 4096 (0 :: nat) = Inr w
    \<and> cache_run (wt_get of_nat (0 :: nat)) (wt_set of_nat 0) (wt_evict of_nat) 0 [Fetch 1 7, Fetch 2 8, Shrink, Fetch 1 9] w
      = Inr (took, out, w')
    \<and> wt_sizes_ok w' \<and> pair_items (wt_pairs w') + mset out = mset took"
  by (rule wtinylfu_conserves) (simp_all add: op_allowed_def)

text \<open>
  A key that the cache holds is found, and the lookup keeps every item; looking up a key that was
  just put returns the item put, because an insertion never evicts the item it inserts.
\<close>

lemma wtinylfu_get_after_set:
  assumes "wt_inv w" "k \<noteq> k0" "wt_find k w = None"
  shows "\<exists>old w1 w2. wt_set hasher k0 k v w = Inr (old, w1) \<and> wt_get hasher k0 k w1 = Inr (v, w2) \<and> wt_pairs w2 = wt_pairs w1"
proof -
  have "k \<notin> fst ` wt_pairs w" using wt_find_None [OF assms(1)] assms(3) by simp
  from wt_set_ok [OF assms(1,2) this, of hasher v] obtain old w1 P where
    w1: "wt_set hasher k0 k v w = Inr (old, w1)" "wt_inv w1" "wt_pairs w1 = insert (k, v) P" by blast
  then show ?thesis using wt_get_hit [OF w1(2) assms(2), of v hasher] by auto
qed

definition small_wt :: "(nat, nat) wtinylfu" where
  "small_wt = \<lparr>wt_window = lru_initialize 1, wt_main_a1 = lru_initialize 1, wt_main_a2 = lru_initialize 1, wt_map = [],
     wt_counters = replicate 4096 \<lparr>fs_table = [0, 0], fs_table_mask = 1, fs_max_samples = 10, fs_samples = 0\<rparr>, wt_empty_item = 0\<rparr>"

lemma wtinylfu_get_after_set_witness:
  "\<exists>old w1 w2. wt_set of_nat 0 5 70 small_wt = Inr (old, w1) \<and> wt_get of_nat 0 5 w1 = Inr (70, w2) \<and> wt_pairs w2 = wt_pairs w1"
  by (rule wtinylfu_get_after_set)
    (simp_all add: wt_inv_def small_wt_def lru_ok_def lru_initialize_def lru_keys_def sketch_ok_def wt_find_def)

text \<open>
  A cache of 100 to 4095 items, which the constructor's assertion allows, computes the leading zeros
  of 0 when it sizes its sketches: its construction is undefined.
\<close>

lemma wtinylfu_small_undefined:
  assumes "100 \<le> n" "n < 4096"
  shows "wtinylfu_init n e = Inl Undefined"
proof -
  have "n div 4096 = 0" using assms(2) by (simp add: word_unat_eq_iff unat_div word_less_nat_alt)
  moreover have "fs_initialize_all k 0 = Inl Undefined" if "0 < k" for k
    using that by (cases k) (simp_all add: fs_initialize_def)
  ultimately show ?thesis using assms(1) by (simp add: wtinylfu_init_def Let_def del: fs_initialize_all.simps)
qed

lemma wtinylfu_small_undefined_witness: "wtinylfu_init 1000 (0 :: nat) = Inl Undefined"
  by (rule wtinylfu_small_undefined) simp_all

end
