(* ===== verification/Disk.thy ===== *)
theory Disk
  imports Allocator
begin

text \<open>
  The data file of the storage engine: \<open>storage/common.h\<close>, \<open>storage/disk.h\<close> and \<open>disk.cpp\<close>, with the
  error handling of \<open>pread\<close> and \<open>pwritev\<close> from \<open>io/file.cpp\<close>. The system calls are a parameter.
\<close>

section \<open>Pages and descriptors\<close>

definition page_bits :: nat where "page_bits = 12"

definition page_size :: u32 where "page_size = push_bit page_bits 1"

definition page_mask :: u32 where "page_mask = page_size - 1"

definition file_pages_bits :: nat where "file_pages_bits = 25"

record file_descriptor =
  fd_cache_id :: u64
  fd_size :: u64
  fd_extents :: "u64 list"

section \<open>The data file\<close>

text \<open>
  The system calls. \<open>pread\<close> takes the file, an offset and a size and gives its return value and the bytes
  read; \<open>pwritev\<close> takes the buffers and gives its return value and the new file; \<open>fallocate\<close> likewise.
\<close>

record 'd file_io =
  io_pread :: "'d \<Rightarrow> u64 \<Rightarrow> u32 \<Rightarrow> int \<times> bytes"
  io_pwritev :: "'d \<Rightarrow> u64 \<Rightarrow> bytes list \<Rightarrow> int \<times> 'd"
  io_allocate :: "'d \<Rightarrow> u64 \<Rightarrow> u64 \<Rightarrow> int \<times> 'd"

definition file_pread :: "'d file_io \<Rightarrow> u64 \<Rightarrow> u32 \<Rightarrow> 'd \<Rightarrow> bytes res" where
  "file_pread io offset sz d =
     (case io_pread io d offset sz of (r, bs) \<Rightarrow>
        if r = - 1 then Inl (Thrown ''file::error'')
        else if r \<noteq> sint sz then Inl (Thrown ''file::error'')
        else Inr bs)"

definition file_pwritev :: "'d file_io \<Rightarrow> u64 \<Rightarrow> bytes list \<Rightarrow> 'd \<Rightarrow> (u32 \<times> 'd) res" where
  "file_pwritev io offset iov d =
     (case io_pwritev io d offset iov of (r, d') \<Rightarrow>
        if r = - 1 then Inl (Thrown ''file::error'') else Inr (of_int r, d'))"

definition file_allocate :: "'d file_io \<Rightarrow> u64 \<Rightarrow> u64 \<Rightarrow> 'd \<Rightarrow> 'd res" where
  "file_allocate io offset sz d =
     (case io_allocate io d offset sz of (r, d') \<Rightarrow> if r = - 1 then Inl (Thrown ''file::error'') else Inr d')"

record 'd disk =
  dk_file :: 'd
  dk_preallocate :: bool
  dk_blocks :: allocator
  dk_next_cache_id :: u64

text \<open>The constructor, given what \<open>fstat\<close> or the block device says of the size.\<close>

definition disk_init :: "'d \<Rightarrow> bool \<Rightarrow> u64 \<Rightarrow> bool \<Rightarrow> 'd disk res" where
  "disk_init file is_blk sz preallocate_space =
     (if sz AND ucast page_mask \<noteq> 0 then Inl (Thrown ''disk::error'')
      else res_bind (al_extend (ucast (drop_bit 12 sz)) allocator_init) (\<lambda>a.
        Inr \<lparr>dk_file = file, dk_preallocate = (preallocate_space \<and> \<not> is_blk), dk_blocks = a, dk_next_cache_id = 1\<rparr>))"

definition disk_read :: "'d file_io \<Rightarrow> u32 \<Rightarrow> 'd disk \<Rightarrow> bytes res" where
  "disk_read io page d = file_pread io (push_bit page_bits (ucast page)) page_size (dk_file d)"

definition disk_write :: "'d file_io \<Rightarrow> u32 \<Rightarrow> bytes list \<Rightarrow> 'd disk \<Rightarrow> (u32 \<times> 'd disk) res" where
  "disk_write io page iov d =
     res_bind (file_pwritev io (push_bit page_bits (ucast page)) iov (dk_file d)) (\<lambda>(r, f).
       Inr (r, d\<lparr>dk_file := f\<rparr>))"

text \<open>
  \<open>allocate_space\<close> when no other thread is extending the file; another thread would wait for the
  extension and retry.
\<close>

definition disk_allocate_space :: "'d file_io \<Rightarrow> 'd disk \<Rightarrow> 'd disk res" where
  "disk_allocate_space io d =
     res_bind
       (if dk_preallocate d
        then file_allocate io (push_bit page_bits (ucast (al_max_idx (dk_blocks d)))) (push_bit page_bits 32768) (dk_file d)
        else Inr (dk_file d)) (\<lambda>f.
     res_bind (al_extend 32768 (dk_blocks d)) (\<lambda>a. Inr (d\<lparr>dk_file := f, dk_blocks := a\<rparr>)))"

fun disk_allocate :: "nat \<Rightarrow> 'd file_io \<Rightarrow> u32 \<Rightarrow> 'd disk \<Rightarrow> (u32 \<times> 'd disk) res" where
  "disk_allocate 0 io pages d = Inl Out_Of_Fuel"
| "disk_allocate (Suc fuel) io pages d =
     (case al_allocate pages (dk_blocks d) of (block_page, a) \<Rightarrow>
        if block_page \<noteq> - 1 then Inr (block_page, d\<lparr>dk_blocks := a\<rparr>)
        else res_bind (disk_allocate_space io (d\<lparr>dk_blocks := a\<rparr>)) (disk_allocate fuel io pages))"

definition disk_free :: "u32 \<Rightarrow> u32 \<Rightarrow> 'd disk \<Rightarrow> 'd disk res" where
  "disk_free page pages d = res_bind (al_free page pages (dk_blocks d)) (\<lambda>a. Inr (d\<lparr>dk_blocks := a\<rparr>))"

fun disk_remove :: "u64 list \<Rightarrow> 'd disk \<Rightarrow> 'd disk res" where
  "disk_remove [] d = Inr d"
| "disk_remove (extent # es) d = res_bind (disk_free (hi32 extent) (lo32 extent) d) (disk_remove es)"

definition disk_size :: "'d disk \<Rightarrow> u32" where
  "disk_size d = al_size (dk_blocks d)"

definition disk_capacity :: "'d disk \<Rightarrow> u32" where
  "disk_capacity d = al_max_idx (dk_blocks d)"

definition disk_new_cache_id :: "'d disk \<Rightarrow> u64 \<times> 'd disk" where
  "disk_new_cache_id d = (dk_next_cache_id d, d\<lparr>dk_next_cache_id := dk_next_cache_id d + 1\<rparr>)"

text \<open>Where a page of a file is; -1 when the extents do not reach that far.\<close>

fun get_disk_page :: "u32 \<Rightarrow> u64 list \<Rightarrow> u32" where
  "get_disk_page file_page [] = - 1"
| "get_disk_page file_page (extent # es) =
     (let extent_page = hi32 extent; extent_pages = lo32 extent in
      if extent_pages > file_page then extent_page + file_page else get_disk_page (file_page - extent_pages) es)"

section \<open>What the system calls promise\<close>

text \<open>
  A view gives the bytes of the file, None past its end. Reads and writes do what POSIX says of calls that
  complete: at most \<open>IOV_MAX\<close> buffers, fewer than 2^31 bytes, reads within the file. \<open>fallocate\<close> may fail, as
  on a full file system; \<open>file_allocates\<close> says that it does not.
\<close>

definition file_io_safe :: "'d file_io \<Rightarrow> ('d \<Rightarrow> nat \<Rightarrow> u8 option) \<Rightarrow> bool" where
  "file_io_safe io view \<longleftrightarrow>
     (\<forall>d off n. 0 \<le> sint n \<and> (\<forall>i < unat n. view d (unat off + i) \<noteq> None) \<longrightarrow>
        io_pread io d off n = (sint n, map (\<lambda>i. the (view d (unat off + i))) [0..<unat n]))
     \<and> (\<forall>d off bufs. length bufs \<le> 1024 \<and> length (concat bufs) < 2 ^ 31 \<longrightarrow>
        (\<exists>d'. io_pwritev io d off bufs = (int (length (concat bufs)), d')
          \<and> (\<forall>i < length (concat bufs). view d' (unat off + i) = Some (concat bufs ! i))
          \<and> (\<forall>j. (j < unat off \<or> unat off + length (concat bufs) \<le> j) \<and> view d j \<noteq> None \<longrightarrow> view d' j = view d j)))
     \<and> (\<forall>d off n r d'. io_allocate io d off n = (r, d') \<and> r \<noteq> - 1 \<longrightarrow>
          (\<forall>j. view d j \<noteq> None \<longrightarrow> view d' j = view d j))"

definition file_allocates :: "'d file_io \<Rightarrow> bool" where
  "file_allocates io \<longleftrightarrow> (\<forall>d off n. fst (io_allocate io d off n) \<noteq> - 1)"

definition file_io_ok :: "'d file_io \<Rightarrow> ('d \<Rightarrow> nat \<Rightarrow> u8 option) \<Rightarrow> bool" where
  "file_io_ok io view \<longleftrightarrow> file_io_safe io view \<and> file_allocates io"

lemma file_io_ok_safe: "file_io_ok io view \<Longrightarrow> file_io_safe io view"
  by (simp add: file_io_ok_def)

definition page_is :: "('d \<Rightarrow> nat \<Rightarrow> u8 option) \<Rightarrow> 'd \<Rightarrow> nat \<Rightarrow> bytes \<Rightarrow> bool" where
  "page_is view d p b \<longleftrightarrow> length b = 4096 \<and> (\<forall>i < 4096. view d (4096 * p + i) = Some (b ! i))"

lemma page_offset: "unat (push_bit page_bits (ucast (p :: u32)) :: u64) = 4096 * unat p"
proof -
  have "unat p < 2 ^ 32" using unsigned_less [of p] by simp
  then show ?thesis
    by (simp add: page_bits_def unsigned_push_bit_eq unat_ucast_up) (simp add: push_bit_eq_mult take_bit_eq_mod)
qed

lemma disk_read_page:
  assumes "file_io_safe io view" "page_is view (dk_file d) (unat p) b"
  shows "disk_read io p d = Inr b"
proof -
  have sz: "unat page_size = 4096" "sint page_size = 4096" by (simp_all add: page_size_def page_bits_def)
  have def: "\<forall>i < unat page_size. view (dk_file d) (4096 * unat p + i) \<noteq> None"
    using assms(2) by (simp add: page_is_def sz)
  have r: "io_pread io (dk_file d) (push_bit page_bits (ucast p)) page_size
      = (4096, map (\<lambda>i. the (view (dk_file d) (4096 * unat p + i))) [0..<4096])"
    using assms(1) def unfolding file_io_safe_def by (simp add: sz page_offset)
  have "map (\<lambda>i. the (view (dk_file d) (4096 * unat p + i))) [0..<4096] = b"
    using assms(2) by (intro nth_equalityI) (simp_all add: page_is_def del: upt_rec_numeral)
  then show ?thesis using r by (simp add: disk_read_def file_pread_def sz del: upt_rec_numeral)
qed

lemma length_concat_pages: "\<forall>b \<in> set bs. length b = 4096 \<Longrightarrow> length (concat bs) = 4096 * length bs"
  by (induction bs) simp_all

lemma nth_concat_pages:
  "\<forall>b \<in> set bs. length b = 4096 \<Longrightarrow> k < length bs \<Longrightarrow> i < 4096 \<Longrightarrow> concat bs ! (4096 * k + i) = bs ! k ! i"
proof (induction bs arbitrary: k)
  case (Cons b bs)
  then show ?case by (cases k) (simp_all add: nth_append)
qed simp

lemma disk_write_pages:
  fixes d :: "'d disk"
  assumes io: "file_io_safe io view" and bs: "\<forall>b \<in> set bs. length b = 4096" and n: "length bs \<le> 1024"
  obtains d' :: "'d disk" where "disk_write io p bs d = Inr (of_nat (4096 * length bs), d')" "d' = d\<lparr>dk_file := dk_file d'\<rparr>"
    "\<forall>k < length bs. page_is view (dk_file d') (unat p + k) (bs ! k)"
    "\<forall>q b. (q < unat p \<or> unat p + length bs \<le> q) \<and> page_is view (dk_file d) q b \<longrightarrow> page_is view (dk_file d') q b"
proof -
  note len = length_concat_pages [OF bs]
  let ?off = "push_bit page_bits (ucast p) :: u64"
  have small: "length (concat bs) < 2 ^ 31" using n by (simp add: len)
  have "\<exists>f. io_pwritev io (dk_file d) ?off bs = (int (length (concat bs)), f)
    \<and> (\<forall>i < length (concat bs). view f (unat ?off + i) = Some (concat bs ! i))
    \<and> (\<forall>j. (j < unat ?off \<or> unat ?off + length (concat bs) \<le> j) \<and> view (dk_file d) j \<noteq> None \<longrightarrow> view f j = view (dk_file d) j)"
    using io n small unfolding file_io_safe_def by blast
  then obtain f where f: "io_pwritev io (dk_file d) ?off bs = (int (4096 * length bs), f)"
    "\<forall>i < 4096 * length bs. view f (4096 * unat p + i) = Some (concat bs ! i)"
    "\<forall>j. (j < 4096 * unat p \<or> 4096 * unat p + 4096 * length bs \<le> j) \<and> view (dk_file d) j \<noteq> None \<longrightarrow> view f j = view (dk_file d) j"
    unfolding page_offset len by blast
  let ?d' = "d\<lparr>dk_file := f\<rparr>"
  have "disk_write io p bs d = Inr (of_nat (4096 * length bs), ?d')"
    unfolding disk_write_def file_pwritev_def f(1) by simp
  moreover have "page_is view f (unat p + k) (bs ! k)" if k: "k < length bs" for k
    unfolding page_is_def
  proof (intro conjI allI impI)
    show "length (bs ! k) = 4096" using bs k by simp
    fix i :: nat
    assume i: "i < 4096"
    have "4096 * k + i < 4096 * length bs" using k i by linarith
    then have "view f (4096 * unat p + (4096 * k + i)) = Some (concat bs ! (4096 * k + i))" using f(2) by blast
    then show "view f (4096 * (unat p + k) + i) = Some (bs ! k ! i)"
      using nth_concat_pages [OF bs k i] by (simp add: algebra_simps)
  qed
  moreover have "page_is view f q b" if q: "q < unat p \<or> unat p + length bs \<le> q" "page_is view (dk_file d) q b" for q b
    unfolding page_is_def
  proof (intro conjI allI impI)
    show "length b = 4096" using q(2) by (simp add: page_is_def)
    fix i :: nat
    assume i: "i < 4096"
    have v: "view (dk_file d) (4096 * q + i) = Some (b ! i)" using q(2) i by (simp add: page_is_def)
    have "4096 * q + i < 4096 * unat p \<or> 4096 * unat p + 4096 * length bs \<le> 4096 * q + i" using q(1) i by linarith
    then show "view f (4096 * q + i) = Some (b ! i)" using f(3) v by simp
  qed
  ultimately show thesis by (intro that [of ?d']) simp_all
qed

section \<open>Space on the disk\<close>

text \<open>
  \<open>disk_ok d H T\<close>: exactly the extents of \<open>H\<close> are in use, and all that ever were lie below \<open>T\<close>; the capacity is far
  enough from 2^32 pages for \<open>T\<close> to be reached. The image may have been empty at first.
\<close>

definition disk_limit :: nat where "disk_limit = 2 ^ 32 - 131072"

definition disk_ok :: "'d disk \<Rightarrow> extent set \<Rightarrow> nat \<Rightarrow> bool" where
  "disk_ok d H T \<longleftrightarrow> (\<exists>B. held_ok T (dk_blocks d) H B) \<and> T \<le> disk_limit
     \<and> unat (al_max_idx (dk_blocks d)) \<le> disk_limit + 32768"

text \<open>Every use of \<open>disk_allocate\<close> below has this fuel: the capacity is less than \<open>131072 * 32768\<close> pages.\<close>

definition disk_fuel :: nat where "disk_fuel = 131072"

definition file_kept :: "('d \<Rightarrow> nat \<Rightarrow> u8 option) \<Rightarrow> 'd disk \<Rightarrow> 'd disk \<Rightarrow> bool" where
  "file_kept view d d' \<longleftrightarrow> (\<forall>q b. page_is view (dk_file d) q b \<longrightarrow> page_is view (dk_file d') q b)
     \<and> dk_next_cache_id d' = dk_next_cache_id d"

lemma file_kept_refl [simp]: "file_kept view d d" "file_kept view d (d\<lparr>dk_blocks := a\<rparr>)"
  by (simp_all add: file_kept_def)

lemma file_kept_trans: "file_kept view d d' \<Longrightarrow> file_kept view d' d'' \<Longrightarrow> file_kept view d d''"
  by (simp add: file_kept_def)

text \<open>An extension succeeds, or \<open>fallocate\<close> fails.\<close>

definition allocate_failed :: "'d file_io \<Rightarrow> 'd disk \<Rightarrow> fault \<Rightarrow> bool" where
  "allocate_failed io d e \<longleftrightarrow> e = Thrown ''file::error'' \<and> dk_preallocate d \<and> \<not> file_allocates io"

lemma disk_allocate_space_ok:
  fixes d :: "'d disk"
  assumes io: "file_io_safe io view" and ok: "disk_ok d H T" and room: "unat (al_max_idx (dk_blocks d)) \<le> disk_limit"
  shows "case disk_allocate_space io d of Inl e \<Rightarrow> allocate_failed io d e
    | Inr d' \<Rightarrow> disk_ok d' H T \<and> file_kept view d d' \<and> dk_preallocate d' = dk_preallocate d
        \<and> unat (al_max_idx (dk_blocks d')) = unat (al_max_idx (dk_blocks d)) + 32768"
proof -
  let ?off = "push_bit page_bits (ucast (al_max_idx (dk_blocks d)))" and ?n = "push_bit page_bits 32768"
  let ?f = "if dk_preallocate d then file_allocate io ?off ?n (dk_file d) else Inr (dk_file d)"
  obtain r g where g: "io_allocate io (dk_file d) ?off ?n = (r, g)" by (cases "io_allocate io (dk_file d) ?off ?n")
  have kept: "r \<noteq> - 1 \<Longrightarrow> \<forall>j. view (dk_file d) j \<noteq> None \<longrightarrow> view g j = view (dk_file d) j"
    using io g unfolding file_io_safe_def by blast
  show ?thesis
  proof (cases ?f)
    case (Inl e)
    then have "e = Thrown ''file::error''" "dk_preallocate d" "r = - 1"
      using g by (auto simp: file_allocate_def split: if_splits)
    moreover from this(3) g have "\<not> file_allocates io" unfolding file_allocates_def by (metis fst_conv)
    ultimately show ?thesis using Inl by (simp add: disk_allocate_space_def allocate_failed_def)
  next
    case (Inr f)
    then have f: "\<forall>j. view (dk_file d) j \<noteq> None \<longrightarrow> view f j = view (dk_file d) j"
      using g kept by (auto simp: file_allocate_def split: if_splits)
    obtain B where B: "held_ok T (dk_blocks d) H B" using ok by (auto simp: disk_ok_def)
    have lt: "unat (al_max_idx (dk_blocks d)) + unat (32768 :: u32) < 2 ^ 32" using room by (simp add: disk_limit_def)
    obtain a B' where a: "al_extend 32768 (dk_blocks d) = Inr a" "held_ok T a H B'"
      "unat (al_max_idx a) = unat (al_max_idx (dk_blocks d)) + 32768"
      using held_extend [OF B _ lt] by auto
    have "disk_ok (d\<lparr>dk_file := f, dk_blocks := a\<rparr>) H T" using ok a room by (auto simp: disk_ok_def)
    moreover have "file_kept view d (d\<lparr>dk_file := f, dk_blocks := a\<rparr>)" using f by (simp add: file_kept_def page_is_def)
    moreover have "disk_allocate_space io d = Inr (d\<lparr>dk_file := f, dk_blocks := a\<rparr>)"
      using Inr a(1) by (simp add: disk_allocate_space_def)
    ultimately show ?thesis using a(3) by simp
  qed
qed

lemma free_extent_start:
  assumes ok: "extents_ok e m B" and b: "(i, s) \<in> B" and free: "{T..<unat m} \<subseteq> pages_of B" and e: "e \<le> T"
  shows "unat i \<le> T"
proof (rule ccontr)
  assume "\<not> unat i \<le> T"
  then have i: "T < unat i" by simp
  have m: "unat i + unat s \<le> unat m" "0 < unat s" using extents_pos [OF ok b] by simp_all
  have "unat i - 1 \<in> {T..<unat m}" using i m unfolding atLeastLessThan_iff by linarith
  then have "unat i - 1 \<in> pages_of B" using free by blast
  then obtain j t where jt: "(j, t) \<in> B" "unat j \<le> unat i - 1" "unat i - 1 < unat j + unat t" by (auto simp: pages_of_def)
  then have "(j, t) \<noteq> (i, s)" using i by auto
  from extents_beside [OF ok jt(1) b this] have "unat j + unat t = unat i" using jt i m by linarith
  then show False using extents_touch [OF ok jt(1) b] e i by simp
qed

lemma al_allocate_low:
  assumes held: "held_ok T a H B" and n: "n \<noteq> 0" and al: "al_allocate n a = (i, a')" and i: "i \<noteq> - 1"
  shows "unat i \<le> T" "al_max_idx a' = al_max_idx a" "unat i + unat n \<le> unat (al_max_idx a)"
proof -
  note rep = held_okD(1) [OF held] and ok = held_okD(2) [OF held] and hp = held_okD(3) [OF held] and T = held_okD(4) [OF held]
  obtain s where s: "(i, s) \<in> B" "n \<le> s" "al_max_idx a' = al_max_idx a" using al_allocate_rep [OF rep n al] i by blast
  have "{T..<unat (al_max_idx a)} \<subseteq> pages_of B" using hp T by fastforce
  moreover have "touch_bound (al_new a) T \<le> T" by (simp add: touch_bound_def)
  ultimately show "unat i \<le> T" by (rule free_extent_start [OF ok s(1)])
  show "al_max_idx a' = al_max_idx a" by fact
  show "unat i + unat n \<le> unat (al_max_idx a)" using extents_pos [OF ok s(1)] s(2) by (simp add: word_le_nat_alt)
qed

lemma disk_ok_fresh:
  assumes "disk_ok d (insert b H) T" "b \<notin> H"
  shows "extent_pages b \<inter> pages_of H = {}"
proof -
  have "extent_pages x \<inter> extent_pages b = {}" if "x \<in> H" for x
    using assms that unfolding disk_ok_def held_ok_def by (metis insertCI)
  then show ?thesis unfolding pages_of_def by blast
qed

lemma disk_allocate_now:
  fixes d :: "'d disk"
  assumes ok: "disk_ok d H T" and n: "n \<noteq> 0" and lim: "T + unat n \<le> disk_limit"
    and al: "al_allocate n (dk_blocks d) = (p, a)" and p: "p \<noteq> - 1"
  shows "disk_allocate (Suc fuel) io n d = Inr (p, d\<lparr>dk_blocks := a\<rparr>)"
    "disk_ok (d\<lparr>dk_blocks := a\<rparr>) (insert (p, n) H) (T + unat n)" "\<forall>t. (p, t) \<notin> H" "unat p + unat n < 2 ^ 32"
    "al_max_idx a = al_max_idx (dk_blocks d)"
proof -
  obtain B where B: "held_ok T (dk_blocks d) H B" using ok by (auto simp: disk_ok_def)
  note low = al_allocate_low [OF B n al p]
  have e: "T \<le> T + unat n" "unat p + unat n \<le> T + unat n" using low(1) by simp_all
  show "disk_allocate (Suc fuel) io n d = Inr (p, d\<lparr>dk_blocks := a\<rparr>)" using al p by simp
  show "\<forall>t. (p, t) \<notin> H" by (rule held_allocate(2) [OF B n al p e])
  show "unat p + unat n < 2 ^ 32" using low(3) ok by (simp add: disk_ok_def disk_limit_def)
  show "disk_ok (d\<lparr>dk_blocks := a\<rparr>) (insert (p, n) H) (T + unat n)"
    using held_allocate(1) [OF B n al p e] ok lim low(2) by (simp add: disk_ok_def)
  show "al_max_idx a = al_max_idx (dk_blocks d)" by (rule low(2))
qed

lemma disk_allocate_fits:
  assumes ok: "disk_ok d H T" and n: "n \<noteq> 0" and al: "al_allocate n (dk_blocks d) = (- 1, a)"
  shows "a = dk_blocks d" "unat (al_max_idx (dk_blocks d)) < T + unat n"
proof -
  obtain B where B: "held_ok T (dk_blocks d) H B" using ok by (auto simp: disk_ok_def)
  note rep = held_okD(1) [OF B] and okB = held_okD(2) [OF B] and hp = held_okD(3) [OF B] and T = held_okD(4) [OF B]
  have bound: "unat i < unat (al_max_idx (dk_blocks d))" if "(i, s) \<in> B" for i s
    using extents_pos [OF okB that] by simp
  have "unat (al_max_idx (dk_blocks d)) \<le> unat (- 1 :: u32)" using word_n1_ge word_le_nat_alt by blast
  then have "(- 1, s) \<notin> B" for s using bound [of "- 1" s] by auto
  with al_allocate_rep [OF rep n al] have none: "a = dk_blocks d" "\<forall>(j, t) \<in> B. t < n" by blast+
  show "a = dk_blocks d" by fact
  show "unat (al_max_idx (dk_blocks d)) < T + unat n"
  proof (rule ccontr)
    assume "\<not> unat (al_max_idx (dk_blocks d)) < T + unat n"
    then have "{T..<T + unat n} \<subseteq> {..<unat (al_max_idx (dk_blocks d))}" by auto
    moreover have "{T..<T + unat n} \<inter> pages_of H = {}" using T by auto
    ultimately have "{T..<T + unat n} \<subseteq> pages_of B" using hp by blast
    moreover have "touch_bound (al_new (dk_blocks d)) T \<le> T" by (simp add: touch_bound_def)
    ultimately obtain j t where "(j, t) \<in> B" "unat n \<le> unat t"
      using free_interval [OF okB, of "unat n" T] n by (auto simp: unat_gt_0)
    then show False using none(2) by (auto simp: word_less_nat_alt)
  qed
qed

text \<open>What an allocation does: it gives pages that are not in use, having extended the disk no further than past its need.\<close>

definition disk_allocated :: "('d \<Rightarrow> nat \<Rightarrow> u8 option) \<Rightarrow> extent set \<Rightarrow> nat \<Rightarrow> u32 \<Rightarrow> 'd disk \<Rightarrow> u32 \<Rightarrow> 'd disk \<Rightarrow> bool" where
  "disk_allocated view H T n d p d' \<longleftrightarrow> disk_ok d' (insert (p, n) H) (T + unat n) \<and> (\<forall>t. (p, t) \<notin> H)
     \<and> unat p + unat n < 2 ^ 32 \<and> file_kept view d d'
     \<and> (disk_capacity d' = disk_capacity d \<or> unat (disk_capacity d') < T + unat n + 32768)"

lemma disk_allocate_steps:
  fixes d :: "'d disk"
  assumes io: "file_io_safe io view" and ok: "disk_ok d H T" and n: "n \<noteq> 0" and lim: "T + unat n \<le> disk_limit"
    and fuel: "T + unat n \<le> unat (al_max_idx (dk_blocks d)) + 32768 * fuel"
  shows "case disk_allocate (Suc fuel) io n d of Inl e \<Rightarrow> allocate_failed io d e
    | Inr (p, d') \<Rightarrow> disk_allocated view H T n d p d'"
  using ok fuel
proof (induction fuel arbitrary: d)
  case (0 d)
  obtain p a where al: "al_allocate n (dk_blocks d) = (p, a)" by (cases "al_allocate n (dk_blocks d)")
  then have p: "p \<noteq> - 1" using disk_allocate_fits(2) [OF 0(1) n] 0(2) by auto
  note now = disk_allocate_now [OF 0(1) n lim al p]
  show ?case unfolding now(1) using now(2-) by (simp add: disk_allocated_def disk_capacity_def)
next
  case (Suc fuel d)
  obtain p a where al: "al_allocate n (dk_blocks d) = (p, a)" by (cases "al_allocate n (dk_blocks d)")
  show ?case
  proof (cases "p = - 1")
    case False
    note now = disk_allocate_now [OF Suc.prems(1) n lim al False]
    show ?thesis unfolding now(1) using now(2-) by (simp add: disk_allocated_def disk_capacity_def)
  next
    case True
    note fits = disk_allocate_fits [OF Suc.prems(1) n al [unfolded True]]
    have room: "unat (al_max_idx (dk_blocks d)) \<le> disk_limit" using fits(2) lim by simp
    have "d\<lparr>dk_blocks := a\<rparr> = d" using fits(1) by simp
    then have run: "disk_allocate (Suc (Suc fuel)) io n d = res_bind (disk_allocate_space io d) (disk_allocate (Suc fuel) io n)"
      using al True by (simp del: disk_allocate.simps(2) add: disk_allocate.simps(2) [of "Suc fuel"])
    note sp = disk_allocate_space_ok [OF io Suc.prems(1) room]
    show ?thesis
    proof (cases "disk_allocate_space io d")
      case (Inl e)
      then show ?thesis using sp run by simp
    next
      case (Inr d1)
      then have d1: "disk_ok d1 H T" "file_kept view d d1" "dk_preallocate d1 = dk_preallocate d"
        "unat (al_max_idx (dk_blocks d1)) = unat (al_max_idx (dk_blocks d)) + 32768" using sp by simp_all
      have "T + unat n \<le> unat (al_max_idx (dk_blocks d1)) + 32768 * fuel" using Suc.prems(2) d1(4) by simp
      note ih = Suc.IH [OF d1(1) this]
      have near: "unat (disk_capacity d1) < T + unat n + 32768" using fits(2) d1(4) by (simp add: disk_capacity_def)
      show ?thesis
      proof (cases "disk_allocate (Suc fuel) io n d1")
        case (Inl e)
        then show ?thesis using ih run Inr d1(3) by (simp add: allocate_failed_def)
      next
        case r: (Inr pd)
        obtain q d' where pd: "pd = (q, d')" by (cases pd)
        have "disk_allocated view H T n d1 q d'" using ih r pd by simp
        then have "disk_allocated view H T n d q d'"
          using near file_kept_trans [OF d1(2)] unfolding disk_allocated_def by (metis (no_types))
        then show ?thesis using run Inr r pd by simp
      qed
    qed
  qed
qed

lemma disk_allocate_any:
  fixes d :: "'d disk"
  assumes io: "file_io_safe io view" and ok: "disk_ok d H T" and n: "n \<noteq> 0" and lim: "T + unat n \<le> disk_limit"
  shows "case disk_allocate disk_fuel io n d of Inl e \<Rightarrow> allocate_failed io d e
    | Inr (p, d') \<Rightarrow> disk_allocated view H T n d p d'"
proof -
  have "T + unat n \<le> unat (al_max_idx (dk_blocks d)) + 32768 * 131071" using lim by (simp add: disk_limit_def)
  from disk_allocate_steps [OF io ok n lim this] show ?thesis by (simp only: disk_fuel_def numeral_eq_Suc) simp
qed

lemma disk_allocate_ok:
  fixes d :: "'d disk"
  assumes io: "file_io_ok io view" and ok: "disk_ok d H T" and n: "n \<noteq> 0" and lim: "T + unat n \<le> disk_limit"
  obtains p and d' :: "'d disk" where "disk_allocate disk_fuel io n d = Inr (p, d')" "disk_ok d' (insert (p, n) H) (T + unat n)"
    "\<forall>t. (p, t) \<notin> H" "unat p + unat n < 2 ^ 32" "file_kept view d d'"
proof -
  have "file_io_safe io view" "file_allocates io" using io by (simp_all add: file_io_ok_def)
  with disk_allocate_any [OF _ ok n lim, of io view] show thesis
    using that by (auto simp: allocate_failed_def disk_allocated_def split: sum.splits prod.splits)
qed

lemma al_free_max:
  assumes "al_free i n a = Inr a'"
  shows "al_max_idx a' = al_max_idx a"
proof -
  have ins: "al_max_idx (al_insert st) = al_max_idx (snd (snd st))" for st
    by (cases st) (simp add: al_insert_def)
  have prev: "al_max_idx (snd (snd (al_merge_prev x st))) = al_max_idx (snd (snd st))" for x st
    by (cases st; cases x) (simp_all add: al_merge_prev_def Let_def)
  have nxt: "al_max_idx (snd (snd (al_merge_next x st))) = al_max_idx (snd (snd st))" for x st
    by (cases st; cases x) (simp_all add: al_merge_next_def Let_def)
  show ?thesis using assms
    by (auto simp: al_free_def Let_def res_assert_eq_Inr ins prev nxt split: if_splits prod.splits)
qed

lemma disk_free_ok:
  assumes ok: "disk_ok d H T" and h: "(i, n) \<in> H"
  obtains d' where "disk_free i n d = Inr d'" "disk_ok d' (H - {(i, n)}) T" "dk_file d' = dk_file d"
    "dk_next_cache_id d' = dk_next_cache_id d"
proof -
  obtain B where B: "held_ok T (dk_blocks d) H B" using ok by (auto simp: disk_ok_def)
  obtain a B' where a: "al_free i n (dk_blocks d) = Inr a" "held_ok T a (H - {(i, n)}) B'" using held_free [OF B h] by blast
  have m: "al_max_idx a = al_max_idx (dk_blocks d)" using a(1) by (rule al_free_max)
  have "pages_of (H - {(i, n)}) \<subseteq> pages_of H" unfolding pages_of_def by blast
  then have "disk_ok (d\<lparr>dk_blocks := a\<rparr>) (H - {(i, n)}) T" using ok a(2) m by (auto simp: disk_ok_def)
  then show thesis using that a(1) by (simp add: disk_free_def)
qed

section \<open>The pages of a file\<close>

definition extent_at :: "u64 \<Rightarrow> extent" where
  "extent_at e = (hi32 e, lo32 e)"

definition file_disk_pages :: "u64 list \<Rightarrow> nat list" where
  "file_disk_pages es = concat (map (\<lambda>e. [unat (hi32 e)..<unat (hi32 e) + unat (lo32 e)]) es)"

lemma file_disk_pages_simps [simp]:
  "file_disk_pages [] = []"
  "file_disk_pages (e # es) = [unat (hi32 e)..<unat (hi32 e) + unat (lo32 e)] @ file_disk_pages es"
  "file_disk_pages (es @ fs) = file_disk_pages es @ file_disk_pages fs"
  by (simp_all add: file_disk_pages_def)

lemma set_file_disk_pages: "set (file_disk_pages es) = pages_of (extent_at ` set es)"
  by (auto simp: file_disk_pages_def pages_of_def extent_at_def)

lemma get_disk_page_nth:
  assumes "i < length (file_disk_pages es)" "i < 2 ^ 32" "\<forall>e \<in> set es. unat (hi32 e) + unat (lo32 e) < 2 ^ 32"
  shows "unat (get_disk_page (of_nat i) es) = file_disk_pages es ! i"
  using assms
proof (induction es arbitrary: i)
  case (Cons e es)
  have i: "unat (of_nat i :: u32) = i" using Cons.prems(2) by (simp add: unat_word_of_nat)
  show ?case
  proof (cases "i < unat (lo32 e)")
    case True
    have "unat (hi32 e + of_nat i) = unat (hi32 e) + i"
      using Cons.prems(3) True i by (subst unat_add_lem [THEN iffD1]) simp_all
    then show ?thesis using True i by (simp add: word_less_nat_alt nth_append)
  next
    case False
    have "of_nat i - lo32 e = of_nat (i - unat (lo32 e))" using False by (simp add: of_nat_diff)
    then show ?thesis using Cons.IH [of "i - unat (lo32 e)"] Cons.prems False i
      by (simp add: word_less_nat_alt nth_append)
  qed
qed simp

lemma disk_remove_ok:
  assumes "disk_ok d H T" "extent_at ` set es \<subseteq> H" "distinct (map extent_at es)"
  shows "\<exists>d'. disk_remove es d = Inr d' \<and> disk_ok d' (H - extent_at ` set es) T \<and> dk_file d' = dk_file d
    \<and> dk_next_cache_id d' = dk_next_cache_id d"
  using assms
proof (induction es arbitrary: d H)
  case (Cons e es)
  have e: "(hi32 e, lo32 e) \<in> H" using Cons.prems(2) by (simp add: extent_at_def)
  obtain d1 where d1: "disk_free (hi32 e) (lo32 e) d = Inr d1" "disk_ok d1 (H - {extent_at e}) T" "dk_file d1 = dk_file d"
    "dk_next_cache_id d1 = dk_next_cache_id d" using disk_free_ok [OF Cons.prems(1) e] by (auto simp: extent_at_def)
  have "extent_at ` set es \<subseteq> H - {extent_at e}" using Cons.prems(2,3) by auto
  from Cons.IH [OF d1(2) this] Cons.prems(3) obtain d' where d': "disk_remove es d1 = Inr d'"
    "disk_ok d' (H - {extent_at e} - extent_at ` set es) T" "dk_file d' = dk_file d1" "dk_next_cache_id d' = dk_next_cache_id d1"
    by auto
  have "H - {extent_at e} - extent_at ` set es = H - extent_at ` set (e # es)" by auto
  then show ?case using d1 d' by simp
qed simp

text \<open>A new disk: nothing is in use. The image may be empty.\<close>

lemma disk_init_ok:
  assumes sz: "unat sz = 4096 * n" "n \<le> disk_limit"
  obtains d where "disk_init f blk sz pre = Inr d" "disk_ok d {} 0" "dk_file d = f" "dk_next_cache_id d = 1"
    "unat (disk_capacity d) = n"
proof -
  have n32: "n < 2 ^ 32" using sz(2) by (simp add: disk_limit_def)
  have "sz AND ucast page_mask = take_bit 12 sz"
    by (simp add: take_bit_eq_mask mask_eq_exp_minus_1 page_mask_def page_size_def page_bits_def)
  moreover have "unat (take_bit 12 sz) = 0" using sz(1) by (simp add: unat_mod take_bit_eq_mod)
  ultimately have al: "sz AND ucast page_mask = 0" by (simp only: unat_eq_zero)
  have "unat (drop_bit 12 sz) = n" using sz(1) by (simp add: unat_div drop_bit_eq_div)
  then have u: "unat (ucast (drop_bit 12 sz) :: u32) = n" using n32 by (simp add: unsigned_ucast_eq take_bit_nat_eq_self)
  let ?n = "ucast (drop_bit 12 sz) :: u32"
  have m: "al_max_idx allocator_init = 0" by (simp add: allocator_init_def)
  have lt: "unat (al_max_idx allocator_init) + unat ?n < 2 ^ 32" using u n32 m by simp
  obtain a B where a: "al_extend ?n allocator_init = Inr a" "held_ok 0 a {} B" "unat (al_max_idx a) = n"
    using held_extend [OF held_init _ lt] u m by auto
  then show thesis
    using that [of "\<lparr>dk_file = f, dk_preallocate = (pre \<and> \<not> blk), dk_blocks = a, dk_next_cache_id = 1\<rparr>"] al sz(2)
    by (auto simp: disk_init_def disk_ok_def disk_capacity_def)
qed

section \<open>Properties\<close>

text \<open>A data file in memory, for the witnesses.\<close>

definition mem_io :: "(nat \<Rightarrow> u8 option) file_io" where
  "mem_io = \<lparr>io_pread = (\<lambda>d off n. (sint n, map (\<lambda>i. the (d (unat off + i))) [0..<unat n])),
     io_pwritev = (\<lambda>d off bufs. (int (length (concat bufs)), \<lambda>j.
       if unat off \<le> j \<and> j < unat off + length (concat bufs) then Some (concat bufs ! (j - unat off)) else d j)),
     io_allocate = (\<lambda>d off n. (0, d))\<rparr>"

lemma mem_io_ok: "file_io_ok mem_io (\<lambda>d. d)"
  by (auto simp: file_io_ok_def file_io_safe_def file_allocates_def mem_io_def)



text \<open>
  The page lookup that walks the extents is the lookup in the list of all pages of the file, and -1
  past its end.
\<close>

lemma disk_page_lookup:
  assumes "i < 2 ^ 32" "\<forall>e \<in> set es. unat (hi32 e) + unat (lo32 e) < 2 ^ 32"
  shows "get_disk_page (of_nat i) es =
    (if i < length (file_disk_pages es) then of_nat (file_disk_pages es ! i) else - 1)"
proof (cases "i < length (file_disk_pages es)")
  case True
  show ?thesis unfolding get_disk_page_nth [OF True assms, symmetric] using True by simp
next
  case False
  then have "get_disk_page (of_nat i) es = - 1" using assms(1)
  proof (induction es arbitrary: i)
    case (Cons e es)
    have i: "unat (of_nat i :: u32) = i" using Cons.prems(2) by (simp add: unat_word_of_nat)
    have "unat (lo32 e) \<le> i" using Cons.prems(1) by simp
    moreover from this have "of_nat i - lo32 e = of_nat (i - unat (lo32 e))" by (simp add: of_nat_diff)
    ultimately show ?case using Cons.IH [of "i - unat (lo32 e)"] Cons.prems i by (simp add: word_less_nat_alt)
  qed simp
  then show ?thesis using False by simp
qed

lemma disk_page_lookup_witness: "get_disk_page (of_nat 5) [pack32 100 4, pack32 7 3] = 8"
  using disk_page_lookup [of 5 "[pack32 100 4, pack32 7 3]"] by (simp add: upt_rec)

text \<open>
  The disk made on an empty file enters an extent of no pages at 0. It hides the neighbour of every
  extent freed at 0: 8 pages taken and given back leave all 32768 pages free, yet they are not found
  as one extent, and the disk is extended.
\<close>

lemma empty_image_fragments:
  "\<exists>d d1 d2 d3 p. disk_init f False 0 False = Inr d \<and> disk_allocate 2 io 8 d = Inr (0, d1) \<and> disk_free 0 8 d1 = Inr d2
    \<and> disk_size d2 = 0 \<and> disk_capacity d2 = 32768 \<and> disk_allocate 2 io 32768 d2 = Inr (p, d3) \<and> disk_capacity d3 = 65536"
proof -
  let ?a0 = "\<lparr>al_free_set = [pack32 0 0], al_idx_set = [pack32 0 0], al_max_idx = 0, al_size = 0\<rparr>"
  let ?a1 = "\<lparr>al_free_set = [pack32 0 0, pack32 32768 0], al_idx_set = [pack32 0 0, pack32 0 32768], al_max_idx = 32768, al_size = 0\<rparr>"
  let ?a2 = "\<lparr>al_free_set = [pack32 0 0, pack32 32760 8], al_idx_set = [pack32 0 0, pack32 8 32760], al_max_idx = 32768, al_size = 8\<rparr>"
  let ?a3 = "\<lparr>al_free_set = [pack32 0 0, pack32 8 0, pack32 32760 8], al_idx_set = [pack32 0 0, pack32 0 8, pack32 8 32760],
    al_max_idx = 32768, al_size = 0\<rparr>"
  note eval = al_free_def al_allocate_def al_extend_def oset_lower_bound_def oset_insert_def oset_erase_def pack32_less
    al_neighbours_def al_merge_prev_def al_merge_next_def al_insert_def Let_def
  have a0: "al_extend 0 allocator_init = Inr ?a0" by (simp add: eval allocator_init_def)
  have a1: "al_allocate 8 ?a0 = (- 1, ?a0)" "al_extend 32768 ?a0 = Inr ?a1" by (simp_all add: eval)
  have a2: "al_allocate 8 ?a1 = (0, ?a2)" by (simp add: eval)
  have a3: "al_free 0 8 ?a2 = Inr ?a3" by (simp add: eval)
  obtain a4 where a4: "al_allocate 32768 ?a3 = (- 1, ?a3)" "al_extend 32768 ?a3 = Inr a4" "al_max_idx a4 = 65536"
    and a5: "fst (al_allocate 32768 a4) \<noteq> - 1" "al_max_idx (snd (al_allocate 32768 a4)) = 65536" by (simp add: eval)
  let ?d = "\<lambda>a. \<lparr>dk_file = f, dk_preallocate = False, dk_blocks = a, dk_next_cache_id = 1\<rparr>"
  obtain p5 a5 where p5: "al_allocate 32768 a4 = (p5, a5)" "p5 \<noteq> - 1" "al_max_idx a5 = 65536"
    using a5 by (metis prod.collapse)
  have "disk_init f False 0 False = Inr (?d ?a0)" using a0 by (simp add: disk_init_def)
  moreover have "disk_allocate 2 io 8 (?d ?a0) = Inr (0, ?d ?a2)"
    using a1 a2 by (simp add: numeral_2_eq_2 disk_allocate_space_def)
  moreover have "disk_free 0 8 (?d ?a2) = Inr (?d ?a3)" using a3 by (simp add: disk_free_def)
  moreover have "disk_allocate 2 io 32768 (?d ?a3) = Inr (p5, ?d a5)"
    using a4 p5 by (simp add: numeral_2_eq_2 disk_allocate_space_def)
  moreover have "disk_capacity (?d a5) = 65536" "disk_size (?d ?a3) = 0" "disk_capacity (?d ?a3) = 32768"
    using p5(3) by (simp_all add: disk_capacity_def disk_size_def)
  ultimately show ?thesis by blast
qed

end
