(* ===== verification/Page_Cache.thy ===== *)
theory Page_Cache
  imports Slabs WTinyLFU
begin

text \<open>
  The page cache of \<open>storage/cache.h\<close> and \<open>cache.cpp\<close>: page memory in large buffers, a pool of page
  handles, and the policy that says which page to give up. A page is free, held by a client, or cached
  under a key; the lemmas follow the pages from one to the other and show that their memory is apart.
\<close>

section \<open>The code\<close>

text \<open>The contents of a new \<open>aligned_buffer\<close> are indeterminate; the model has zeros there.\<close>

record page_cache =
  pc_buffers :: "bytes list"
  pc_pages :: "unit slabs"
  pc_lfu :: "(u64, u32) wtinylfu"

function cache_fill :: "nat \<Rightarrow> page_cache \<Rightarrow> page_cache res" where
  "cache_fill total_size c =
     (if total_size = 0 then Inr c
      else let part_size = min total_size (2 ^ 27) in
        res_bind (slab_make (of_nat (part_size div 4096))) (\<lambda>s.
          cache_fill (total_size - part_size)
            (c\<lparr>pc_buffers := pc_buffers c @ [replicate part_size 0], pc_pages := slabs_extend s (pc_pages c)\<rparr>)))"
  by pat_completeness auto
termination by (relation "measure fst") auto

declare cache_fill.simps [simp del]

definition cache_init :: "nat \<Rightarrow> page_cache res" where
  "cache_init cache_bits =
     res_bind (wtinylfu_init (push_bit cache_bits 1) (- 1)) (\<lambda>l.
       cache_fill (2 ^ (cache_bits + 12)) \<lparr>pc_buffers = [], pc_pages = slabs_init, pc_lfu = l\<rparr>)"

definition cache_free :: "u32 \<Rightarrow> page_cache \<Rightarrow> page_cache res" where
  "cache_free page c = res_bind (slabs_free page (pc_pages c)) (\<lambda>p. Inr (c\<lparr>pc_pages := p\<rparr>))"

definition cache_allocate :: "(u64 \<Rightarrow> u64) \<Rightarrow> page_cache \<Rightarrow> (u32 \<times> page_cache) res" where
  "cache_allocate hasher c =
     res_bind
       (if slabs_full (pc_pages c) then
          res_bind (wt_evict hasher (pc_lfu c)) (\<lambda>(old_page, l).
            if old_page \<noteq> - 1 then cache_free old_page (c\<lparr>pc_lfu := l\<rparr>) else Inr (c\<lparr>pc_lfu := l\<rparr>))
        else Inr c) (\<lambda>c.
     res_bind (slabs_allocate (pc_pages c)) (\<lambda>(page, p). Inr (page, c\<lparr>pc_pages := p\<rparr>)))"

definition cache_add :: "(u64 \<Rightarrow> u64) \<Rightarrow> u64 \<Rightarrow> u32 \<Rightarrow> page_cache \<Rightarrow> page_cache res" where
  "cache_add hasher cache_key page c =
     res_bind (wt_set hasher 0 cache_key page (pc_lfu c)) (\<lambda>(old_page, l).
       if old_page \<noteq> - 1 then cache_free old_page (c\<lparr>pc_lfu := l\<rparr>) else Inr (c\<lparr>pc_lfu := l\<rparr>))"

definition cache_get :: "(u64 \<Rightarrow> u64) \<Rightarrow> u64 \<Rightarrow> page_cache \<Rightarrow> (u32 \<times> page_cache) res" where
  "cache_get hasher cache_key c =
     res_bind (wt_get hasher 0 cache_key (pc_lfu c)) (\<lambda>(page, l). Inr (page, c\<lparr>pc_lfu := l\<rparr>))"

text \<open>A pointer is a buffer and a position in it; copying through it is \<open>mem_load\<close> and \<open>mem_store\<close>.\<close>

definition get_memory :: "u32 \<Rightarrow> page_cache \<Rightarrow> (nat \<times> nat) res" where
  "get_memory page c =
     res_bind (slab_index page (pc_pages c)) (\<lambda>buffer_ndx.
       if length (pc_buffers c) \<le> unat buffer_ndx then Inl Undefined
       else Inr (unat buffer_ndx, unat (push_bit 12 (ucast (entry_index page) :: u32))))"

definition mem_load :: "u32 \<Rightarrow> nat \<Rightarrow> nat \<Rightarrow> page_cache \<Rightarrow> bytes res" where
  "mem_load page off n c =
     res_bind (get_memory page c) (\<lambda>(b, pos).
       if length (pc_buffers c ! b) < pos + off + n then Inl Undefined
       else Inr (take n (drop (pos + off) (pc_buffers c ! b))))"

abbreviation splice :: "nat \<Rightarrow> bytes \<Rightarrow> bytes \<Rightarrow> bytes" where
  "splice off bs xs \<equiv> poke xs off bs"

definition mem_store :: "u32 \<Rightarrow> nat \<Rightarrow> bytes \<Rightarrow> page_cache \<Rightarrow> page_cache res" where
  "mem_store page off bs c =
     res_bind (get_memory page c) (\<lambda>(b, pos).
       if length (pc_buffers c ! b) < pos + off + length bs then Inl Undefined
       else Inr (c\<lparr>pc_buffers := (pc_buffers c)[b := splice (pos + off) bs (pc_buffers c ! b)]\<rparr>))"

section \<open>Capacities of the pool\<close>

abbreviation capacities :: "'a slabs \<Rightarrow> nat list" where
  "capacities p \<equiv> map (\<lambda>s. unat (sb_capacity s)) (ss_slabs p)"

lemma map_update_same: "i < length xs \<Longrightarrow> f y = f (xs ! i) \<Longrightarrow> map f (xs[i := y]) = map f xs"
  by (metis list_update_id map_update)

lemma capacities_allocate: "slabs_allocate p = Inr (h, p') \<Longrightarrow> capacities p' = capacities p"
  by (auto simp: slabs_allocate_def slab_allocate_def Let_def res_assert_eq_Inr res_bind_eq_Inr move_to_full_def map_update_same
      split: list.splits if_splits)

lemma capacities_free: "slabs_free h p = Inr p' \<Longrightarrow> capacities p' = capacities p"
  by (auto simp: slabs_free_def slab_free_def slab_index_def Let_def res_assert_eq_Inr res_bind_eq_Inr move_to_partial_def map_update_same
      split: if_splits)

definition pool_pages :: "'a slabs \<Rightarrow> nat" where
  "pool_pages p = sum_list (capacities p)"

text \<open>The live handles; when the pool is full they are all the handles there are.\<close>

lemma live_handle:
  assumes "slabs_rep dflt p C" "C h \<noteq> None"
  obtains i j where "h = handle_of i j" "i < length (ss_slabs p)" "j < unat (sb_capacity (ss_slabs p ! i))"
    "i < 65536" "j < 32768" "slab_index h p = Inr (of_nat i)" "unat (of_nat i :: u16) = i" "entry_index h = of_nat j" "h \<noteq> - 1"
proof -
  obtain fls where fls: "slabs_inv p fls" "\<forall>h. C h \<noteq> None \<longrightarrow> (\<exists>i j. h = handle_of i j \<and> live_at p fls i j)"
    using assms(1) unfolding slabs_rep_def by blast
  then obtain i j where ij: "h = handle_of i j" "live_at p fls i j" using assms(2) by blast
  note small = live_at_small [OF fls(1) ij(2)]
  have i: "i < length (ss_slabs p)" "j < unat (sb_capacity (ss_slabs p ! i))" using ij(2) by (simp_all add: live_at_def)
  have j: "j < 65536" using small by simp
  show thesis
    by (rule that [OF ij(1) i])
      (use small slab_index_handle [OF fls(1) i(1) j] handle_fields [of i j] handle_of_valid [of i j] ij(1) in simp_all)
qed

lemma full_pool:
  assumes "slabs_rep dflt p C" "slabs_full p"
  shows "finite (dom C)" "card (dom C) = pool_pages p"
proof -
  obtain fls where fls: "slabs_inv p fls" "\<forall>i j. live_at p fls i j \<longrightarrow> C (handle_of i j) \<noteq> None"
    "\<forall>h. C h \<noteq> None \<longrightarrow> (\<exists>i j. h = handle_of i j \<and> live_at p fls i j)"
    using assms(1) unfolding slabs_rep_def by fastforce
  have none: "fls ! i = []" if "i < length (ss_slabs p)" for i
    using fls(1) that assms(2) by (auto simp: slabs_inv_def slabs_full_def)
  let ?I = "SIGMA i : {..<length (ss_slabs p)}. {..<unat (sb_capacity (ss_slabs p ! i))}"
  have live: "live_at p fls i j \<longleftrightarrow> (i, j) \<in> ?I" for i j using none by (auto simp: live_at_def)
  have dom: "dom C = (\<lambda>(i, j). handle_of i j) ` ?I"
  proof (rule set_eqI)
    fix h
    show "h \<in> dom C \<longleftrightarrow> h \<in> (\<lambda>(i, j). handle_of i j) ` ?I"
      using fls(2,3) unfolding live by (auto simp: domIff)
  qed
  have inj: "inj_on (\<lambda>(i, j). handle_of i j) ?I"
  proof (rule inj_onI)
    fix x y
    assume x: "x \<in> ?I" and y: "y \<in> ?I" and eq: "(\<lambda>(i, j). handle_of i j) x = (\<lambda>(i, j). handle_of i j) y"
    obtain i j where ij: "x = (i, j)" by (cases x)
    obtain i' j' where ij': "y = (i', j')" by (cases y)
    have "i < 65536 \<and> j < 32768" "i' < 65536 \<and> j' < 32768"
      using x y live_at_small [OF fls(1)] live unfolding ij ij' by blast+
    then show "x = y" using handle_of_inject [of i j i' j'] eq by (simp add: ij ij')
  qed
  show "finite (dom C)" unfolding dom by simp
  have "card (dom C) = card ?I" unfolding dom by (rule card_image [OF inj])
  also have "\<dots> = (\<Sum>i < length (ss_slabs p). unat (sb_capacity (ss_slabs p ! i)))" by simp
  also have "\<dots> = pool_pages p" by (simp add: pool_pages_def sum_list_sum_nth atLeast0LessThan)
  finally show "card (dom C) = pool_pages p" .
qed

section \<open>Pages and their owners\<close>

text \<open>\<open>cache_rep c H P\<close>: clients hold the pages \<open>H\<close>, and \<open>P\<close> are the keys and pages cached.\<close>

definition cache_rep :: "page_cache \<Rightarrow> u32 set \<Rightarrow> (u64 \<times> u32) set \<Rightarrow> bool" where
  "cache_rep c H P \<longleftrightarrow> (\<exists>C. slabs_rep () (pc_pages c) C \<and> dom C = H \<union> snd ` P) \<and> H \<inter> snd ` P = {} \<and> inj_on snd P
     \<and> wt_inv (pc_lfu c) \<and> wt_empty_item (pc_lfu c) = - 1 \<and> wt_pairs (pc_lfu c) = P
     \<and> map length (pc_buffers c) = map ((*) 4096) (capacities (pc_pages c))"

definition cache_pages :: "page_cache \<Rightarrow> nat" where
  "cache_pages c = pool_pages (pc_pages c)"

text \<open>The memory of a page.\<close>

definition page_bytes :: "page_cache \<Rightarrow> u32 \<Rightarrow> bytes" where
  "page_bytes c h = (case get_memory h c of Inl _ \<Rightarrow> [] | Inr (b, pos) \<Rightarrow> take 4096 (drop pos (pc_buffers c ! b)))"

definition live_page :: "page_cache \<Rightarrow> u32 \<Rightarrow> bool" where
  "live_page c h \<longleftrightarrow> (\<exists>i j. h = handle_of i j \<and> i < 65536 \<and> j < 32768 \<and> get_memory h c = Inr (i, 4096 * j)
     \<and> i < length (pc_buffers c) \<and> 4096 * j + 4096 \<le> length (pc_buffers c ! i))"

lemma cache_rep_live:
  assumes rep: "cache_rep c H P" and h: "h \<in> H \<union> snd ` P"
  shows "live_page c h" "h \<noteq> - 1"
proof -
  obtain C where C: "slabs_rep () (pc_pages c) C" "dom C = H \<union> snd ` P" using rep by (auto simp: cache_rep_def)
  then have "C h \<noteq> None" using h by blast
  then obtain i j where ij: "h = handle_of i j" "i < length (ss_slabs (pc_pages c))"
    "j < unat (sb_capacity (ss_slabs (pc_pages c) ! i))" "i < 65536" "j < 32768"
    "slab_index h (pc_pages c) = Inr (of_nat i)" "unat (of_nat i :: u16) = i" "entry_index h = of_nat j" "h \<noteq> - 1"
    by (rule live_handle [OF C(1)])
  have len: "map length (pc_buffers c) = map ((*) 4096) (capacities (pc_pages c))" using rep by (simp add: cache_rep_def)
  then have i: "i < length (pc_buffers c)" using ij(2) by (metis length_map)
  have "map length (pc_buffers c) ! i = map ((*) 4096) (capacities (pc_pages c)) ! i" using len by simp
  then have li: "length (pc_buffers c ! i) = 4096 * unat (sb_capacity (ss_slabs (pc_pages c) ! i))" using i ij(2) by simp
  have "unat (ucast (of_nat j :: u16) :: u32) = j" using ij(5) by (simp add: unat_ucast_up unat_word_of_nat)
  then have "unat (push_bit 12 (ucast (of_nat j :: u16) :: u32)) = 4096 * j"
    using ij(5) by (simp add: unsigned_push_bit_eq) (simp add: push_bit_eq_mult take_bit_eq_mod)
  then have "get_memory h c = Inr (i, 4096 * j)" using ij i by (simp add: get_memory_def)
  then show "live_page c h" using ij i li unfolding live_page_def by (intro exI [of _ i] exI [of _ j]) simp
  show "h \<noteq> - 1" by fact
qed

lemma window_splice:
  assumes "pos + 4096 \<le> length xs" "off + length bs \<le> 4096"
  shows "take 4096 (drop pos (splice (pos + off) bs xs)) = splice off bs (take 4096 (drop pos xs))"
proof (rule nth_equalityI)
  have l: "length (splice (pos + off) bs xs) = length xs" using assms by (intro length_poke) simp
  have l': "length (splice off bs (take 4096 (drop pos xs))) = 4096" using assms by (subst length_poke) simp_all
  show "length (take 4096 (drop pos (splice (pos + off) bs xs))) = length (splice off bs (take 4096 (drop pos xs)))"
    using l l' assms by simp
  fix i
  assume "i < length (take 4096 (drop pos (splice (pos + off) bs xs)))"
  then have "i < 4096" by simp
  then show "take 4096 (drop pos (splice (pos + off) bs xs)) ! i = splice off bs (take 4096 (drop pos xs)) ! i"
    using assms l by (simp add: nth_poke)
qed

lemma other_window:
  assumes "pos + 4096 \<le> off \<or> off + length bs \<le> pos" "off + length bs \<le> length xs" "pos + 4096 \<le> length xs"
  shows "take 4096 (drop pos (splice off bs xs)) = take 4096 (drop pos xs)"
proof (rule nth_equalityI)
  show "length (take 4096 (drop pos (splice off bs xs))) = length (take 4096 (drop pos xs))"
    using assms by (simp add: length_poke)
  fix i
  assume "i < length (take 4096 (drop pos (splice off bs xs)))"
  then show "take 4096 (drop pos (splice off bs xs)) ! i = take 4096 (drop pos xs) ! i"
    using assms by (auto simp: nth_poke length_poke)
qed

lemma get_memory_cong:
  "ss_slabs (pc_pages c') = ss_slabs (pc_pages c) \<Longrightarrow> length (pc_buffers c') = length (pc_buffers c) \<Longrightarrow> get_memory h c' = get_memory h c"
  by (simp add: get_memory_def slab_index_def Let_def)

lemma mem_load_ok:
  assumes "live_page c h" "off + n \<le> 4096"
  shows "mem_load h off n c = Inr (take n (drop off (page_bytes c h)))" "length (page_bytes c h) = 4096"
proof -
  obtain i j where ij: "get_memory h c = Inr (i, 4096 * j)" "4096 * j + 4096 \<le> length (pc_buffers c ! i)"
    using assms(1) by (auto simp: live_page_def)
  show "mem_load h off n c = Inr (take n (drop off (page_bytes c h)))"
    using ij assms(2) by (simp add: mem_load_def page_bytes_def drop_take min_def add.commute)
  show "length (page_bytes c h) = 4096" using ij by (simp add: page_bytes_def)
qed

text \<open>Storing through the pointer of a page changes that page, and the memory of no other page.\<close>

lemma mem_store_ok:
  assumes live: "live_page c h" and n: "off + length bs \<le> 4096"
  obtains c' where "mem_store h off bs c = Inr c'" "page_bytes c' h = splice off bs (page_bytes c h)"
    "\<And>h'. live_page c h' \<Longrightarrow> h' \<noteq> h \<Longrightarrow> page_bytes c' h' = page_bytes c h'"
    "pc_pages c' = pc_pages c" "pc_lfu c' = pc_lfu c" "map length (pc_buffers c') = map length (pc_buffers c)"
proof -
  obtain i j where ij: "h = handle_of i j" "i < 65536" "j < 32768" "get_memory h c = Inr (i, 4096 * j)"
    "i < length (pc_buffers c)" "4096 * j + 4096 \<le> length (pc_buffers c ! i)" using live unfolding live_page_def by blast
  let ?B = "pc_buffers c ! i" and ?o = "4096 * j + off"
  define c' where "c' = c\<lparr>pc_buffers := (pc_buffers c)[i := splice ?o bs ?B]\<rparr>"
  have st: "mem_store h off bs c = Inr c'" using ij n by (simp add: mem_store_def c'_def)
  have gm: "get_memory h' c' = get_memory h' c" for h' by (rule get_memory_cong) (simp_all add: c'_def)
  have ls: "length (splice ?o bs ?B) = length ?B" using ij(6) n by (intro length_poke) simp
  have "page_bytes c' h = take 4096 (drop (4096 * j) (splice ?o bs ?B))"
    using ij(4,5) by (simp add: page_bytes_def gm) (simp add: c'_def)
  also have "\<dots> = splice off bs (take 4096 (drop (4096 * j) ?B))"
    by (rule window_splice [OF ij(6) n])
  also have "\<dots> = splice off bs (page_bytes c h)" using ij(4) by (simp add: page_bytes_def)
  finally have own: "page_bytes c' h = splice off bs (page_bytes c h)" .
  have other: "page_bytes c' h' = page_bytes c h'" if h': "live_page c h'" "h' \<noteq> h" for h'
  proof -
    obtain k l where kl: "h' = handle_of k l" "get_memory h' c = Inr (k, 4096 * l)"
      "k < length (pc_buffers c)" "4096 * l + 4096 \<le> length (pc_buffers c ! k)" using h'(1) unfolding live_page_def by blast
    show ?thesis
    proof (cases "k = i")
      case False
      then show ?thesis using kl(2) by (simp add: page_bytes_def gm) (simp add: c'_def)
    next
      case True
      then have "l \<noteq> j" using kl(1) ij(1) h'(2) by auto
      then have "4096 * l + 4096 \<le> ?o \<or> ?o + length bs \<le> 4096 * l" using n by linarith
      then have "take 4096 (drop (4096 * l) (splice ?o bs ?B)) = take 4096 (drop (4096 * l) ?B)"
        using ij(6) n kl(4) True by (intro other_window) simp_all
      then show ?thesis using kl(2,3) True by (simp add: page_bytes_def gm) (simp add: c'_def)
    qed
  qed
  have "map length (pc_buffers c') = map length (pc_buffers c)"
    unfolding c'_def by (simp add: map_update_same ij(5) ls)
  then show thesis using that [OF st own other] by (simp add: c'_def)
qed

lemma mem_store_rep:
  assumes rep: "cache_rep c H P" and h: "h \<in> H" and n: "off + length bs \<le> 4096"
  obtains c' where "mem_store h off bs c = Inr c'" "cache_rep c' H P" "page_bytes c' h = splice off bs (page_bytes c h)"
    "\<forall>h' \<in> H \<union> snd ` P. h' \<noteq> h \<longrightarrow> page_bytes c' h' = page_bytes c h'" "cache_pages c' = cache_pages c"
proof -
  have "live_page c h" using cache_rep_live(1) [OF rep, of h] h by blast
  from this n obtain c' where c': "mem_store h off bs c = Inr c'" "page_bytes c' h = splice off bs (page_bytes c h)"
    "\<And>h'. live_page c h' \<Longrightarrow> h' \<noteq> h \<Longrightarrow> page_bytes c' h' = page_bytes c h'"
    "pc_pages c' = pc_pages c" "pc_lfu c' = pc_lfu c" "map length (pc_buffers c') = map length (pc_buffers c)"
    by (rule mem_store_ok) blast
  have "cache_rep c' H P" using rep c'(4-6) by (simp add: cache_rep_def)
  moreover have "\<forall>h' \<in> H \<union> snd ` P. h' \<noteq> h \<longrightarrow> page_bytes c' h' = page_bytes c h'"
    using c'(3) cache_rep_live(1) [OF rep] by blast
  ultimately show thesis using that c'(1,2,4) by (simp add: cache_pages_def)
qed

text \<open>Operations that move pages between owners leave all memory as it is.\<close>

definition same_memory :: "page_cache \<Rightarrow> page_cache \<Rightarrow> bool" where
  "same_memory c c' \<longleftrightarrow> page_bytes c' = page_bytes c \<and> cache_pages c' = cache_pages c"

lemma same_memory_trans: "same_memory c c' \<Longrightarrow> same_memory c' c'' \<Longrightarrow> same_memory c c''"
  by (simp add: same_memory_def)

lemma same_memoryI:
  "pc_buffers c' = pc_buffers c \<Longrightarrow> capacities (pc_pages c') = capacities (pc_pages c) \<Longrightarrow> same_memory c c'"
proof -
  assume b: "pc_buffers c' = pc_buffers c" and s: "capacities (pc_pages c') = capacities (pc_pages c)"
  then have "length (ss_slabs (pc_pages c')) = length (ss_slabs (pc_pages c))" by (metis length_map)
  then have "get_memory h c' = get_memory h c" for h using b by (simp add: get_memory_def slab_index_def Let_def)
  then have "page_bytes c' h = page_bytes c h" for h unfolding page_bytes_def b by simp
  then show ?thesis using s by (simp add: same_memory_def fun_eq_iff cache_pages_def pool_pages_def)
qed

lemma cache_rep_pool:
  assumes "cache_rep c H P"
  obtains C where "slabs_rep () (pc_pages c) C" "dom C = H \<union> snd ` P" "H \<inter> snd ` P = {}"
  using assms unfolding cache_rep_def by blast

lemma cache_rep_pages:
  assumes "cache_rep c H P" "slabs_rep () p C" "dom C = H' \<union> snd ` P" "H' \<inter> snd ` P = {}"
    "capacities p = capacities (pc_pages c)"
  shows "cache_rep (c\<lparr>pc_pages := p\<rparr>) H' P"
proof -
  have "\<exists>C. slabs_rep () p C \<and> dom C = H' \<union> snd ` P" using assms(2,3) by blast
  then show ?thesis using assms(1,4,5) unfolding cache_rep_def by (simp del: map_map)
qed

lemma cache_free_ok:
  assumes rep: "cache_rep c H P" and h: "h \<in> H"
  obtains c' where "cache_free h c = Inr c'" "cache_rep c' (H - {h}) P" "same_memory c c'" "\<not> slabs_full (pc_pages c')"
    "pc_lfu c' = pc_lfu c"
proof -
  obtain C where C: "slabs_rep () (pc_pages c) C" "dom C = H \<union> snd ` P" "H \<inter> snd ` P = {}" by (rule cache_rep_pool [OF rep])
  have "C h \<noteq> None" using C(2) h by blast
  then obtain p where p: "slabs_free h (pc_pages c) = Inr p" "slabs_rep () p (C(h := None))" "\<not> slabs_full p"
    by (rule slabs_free_rep [OF C(1)])
  note cap = capacities_free [OF p(1)]
  have "dom (C(h := None)) = dom C - {h}" by simp
  also have "\<dots> = (H - {h}) \<union> snd ` P" using C(2,3) h by blast
  finally have "cache_rep (c\<lparr>pc_pages := p\<rparr>) (H - {h}) P"
    by (rule cache_rep_pages [OF rep p(2) _ _ cap]) (use C(3) in blast)
  then show thesis using that [of "c\<lparr>pc_pages := p\<rparr>"] p cap by (simp add: cache_free_def same_memoryI)
qed

text \<open>The policy changes what is cached; the pages in use are the same.\<close>

lemma cache_rep_lfu:
  assumes "cache_rep c H P" "wt_inv l" "wt_empty_item l = - 1" "wt_pairs l = P'" "H' \<union> snd ` P' = H \<union> snd ` P"
    "H' \<inter> snd ` P' = {}" "inj_on snd P'"
  shows "cache_rep (c\<lparr>pc_lfu := l\<rparr>) H' P'"
  using assms by (simp add: cache_rep_def)

lemma cache_dropped:
  assumes rep: "cache_rep c H P" and d: "one_dropped (- 1) P old Q"
  shows "Q \<subseteq> P" "inj_on snd Q" "old = - 1 \<and> Q = P \<or> old \<noteq> - 1 \<and> old \<notin> H \<and> old \<in> snd ` P \<and> snd ` Q = snd ` P - {old} \<and> Q \<noteq> P"
proof -
  have inj: "inj_on snd P" and dis: "H \<inter> snd ` P = {}" and inv: "wt_inv (pc_lfu c)" "wt_pairs (pc_lfu c) = P"
    using rep by (simp_all add: cache_rep_def)
  show sub: "Q \<subseteq> P" using d unfolding one_dropped_def by blast
  show "inj_on snd Q" using inj sub by (rule inj_on_subset)
  consider "old = - 1" "Q = P" | k where "(k, old) \<in> P" "Q = {p \<in> P. fst p \<noteq> k}" using d unfolding one_dropped_def by blast
  then show "old = - 1 \<and> Q = P \<or> old \<noteq> - 1 \<and> old \<notin> H \<and> old \<in> snd ` P \<and> snd ` Q = snd ` P - {old} \<and> Q \<noteq> P"
  proof cases
    case 2
    have same: "v = old" if "(k, v) \<in> P" for v by (rule wt_pairs_fun [OF inv(1), of k]) (use that 2(1) inv(2) in simp_all)
    have Q: "Q = P - {(k, old)}" unfolding 2(2) by (auto dest: same)
    have "snd ` Q = snd ` P - {old}" unfolding Q using inj_on_image_set_diff [OF inj, of P "{(k, old)}"] 2(1) by simp
    moreover have mem: "old \<in> snd ` P" using 2(1) by force
    moreover have "Q \<noteq> P" using Q 2(1) by blast
    moreover have "old \<noteq> - 1" by (rule cache_rep_live(2) [OF rep]) (use mem in blast)
    moreover have "old \<notin> H" using mem dis by blast
    ultimately show ?thesis by simp
  qed simp
qed

lemma finite_wt_pairs: "finite (wt_pairs w)"
  by (simp add: wt_pairs_def lru_pairs_def)

text \<open>A page is found unless the clients hold all pages; to make room at most one cached page is given up.\<close>

lemma cache_allocate_ok:
  assumes rep: "cache_rep c H P" and room: "card H < cache_pages c"
  shows "\<exists>h c' Q. cache_allocate hasher c = Inr (h, c') \<and> h \<notin> H \<and> cache_rep c' (insert h H) Q \<and> Q \<subseteq> P \<and> same_memory c c'"
proof -
  have take: ?thesis
    if a: "cache_rep c1 H Q" "Q \<subseteq> P" "same_memory c c1" "\<not> slabs_full (pc_pages c1)"
      "(if slabs_full (pc_pages c) then res_bind (wt_evict hasher (pc_lfu c)) (\<lambda>(old_page, l).
            if old_page \<noteq> - 1 then cache_free old_page (c\<lparr>pc_lfu := l\<rparr>) else Inr (c\<lparr>pc_lfu := l\<rparr>))
        else Inr c) = Inr c1" for c1 Q
  proof -
    obtain C where C: "slabs_rep () (pc_pages c1) C" "dom C = H \<union> snd ` Q" "H \<inter> snd ` Q = {}" by (rule cache_rep_pool [OF a(1)])
    obtain h p x where h: "slabs_allocate (pc_pages c1) = Inr (h, p)" "C h = None" "slabs_rep () p (C(h \<mapsto> x))"
      by (rule slabs_allocate_rep [OF C(1) a(4)]) blast
    note cap = capacities_allocate [OF h(1)]
    have hn: "h \<notin> H" "h \<notin> snd ` Q" using h(2) C(2) by blast+
    have "dom (C(h \<mapsto> x)) = insert h H \<union> snd ` Q" using C(2) by simp
    then have "cache_rep (c1\<lparr>pc_pages := p\<rparr>) (insert h H) Q"
      by (rule cache_rep_pages [OF a(1) h(3) _ _ cap]) (use C(3) hn in blast)
    moreover have "same_memory c (c1\<lparr>pc_pages := p\<rparr>)"
      by (rule same_memory_trans [OF a(3) same_memoryI]) (use cap in simp_all)
    moreover have "cache_allocate hasher c = Inr (h, c1\<lparr>pc_pages := p\<rparr>)"
      unfolding cache_allocate_def a(5) by (simp add: h(1))
    ultimately show ?thesis using hn(1) a(2) by blast
  qed
  show ?thesis
  proof (cases "slabs_full (pc_pages c)")
    case False
    then show ?thesis using take [OF rep] by (simp add: same_memory_def)
  next
    case True
    have wt: "wt_inv (pc_lfu c)" "wt_empty_item (pc_lfu c) = - 1" "wt_pairs (pc_lfu c) = P" using rep by (simp_all add: cache_rep_def)
    obtain C where C: "slabs_rep () (pc_pages c) C" "dom C = H \<union> snd ` P" "H \<inter> snd ` P = {}" by (rule cache_rep_pool [OF rep])
    have "P \<noteq> {}" using full_pool [OF C(1) True] C(2) room by (auto simp: cache_pages_def)
    with wt_evict_ok [OF wt(1), of hasher] obtain old l where l: "wt_evict hasher (pc_lfu c) = Inr (old, l)" "wt_inv l"
      "wt_empty_item l = - 1" "one_dropped (- 1) P old (wt_pairs l)" "wt_pairs l \<noteq> P" unfolding wt by metis
    note dr = cache_dropped [OF rep l(4)]
    have dr3: "old \<noteq> - 1" "old \<notin> H" "old \<in> snd ` P" "snd ` wt_pairs l = snd ` P - {old}" using dr(3) l(5) by blast+
    have rep1: "cache_rep (c\<lparr>pc_lfu := l\<rparr>) (insert old H) (wt_pairs l)"
      by (intro cache_rep_lfu [OF rep l(2,3) refl _ _ dr(2)]) (use dr3 C(3) in blast)+
    obtain c1 where c1: "cache_free old (c\<lparr>pc_lfu := l\<rparr>) = Inr c1" "cache_rep c1 (insert old H - {old}) (wt_pairs l)"
      "same_memory (c\<lparr>pc_lfu := l\<rparr>) c1" "\<not> slabs_full (pc_pages c1)" by (rule cache_free_ok [OF rep1]) blast+
    have H: "insert old H - {old} = H" using dr3(2) by blast
    have "same_memory c c1" by (rule same_memory_trans [OF same_memoryI c1(3)]) simp_all
    then show ?thesis by (rule take [OF c1(2) [unfolded H] dr(1) _ c1(4)]) (use True l(1) dr3(1) c1(1) in simp)
  qed
qed

lemma cache_get_ok:
  assumes rep: "cache_rep c H P" and k: "k \<noteq> 0"
  shows "(k, h) \<in> P \<Longrightarrow> \<exists>c'. cache_get hasher k c = Inr (h, c') \<and> cache_rep c' H P \<and> same_memory c c'"
    and "k \<notin> fst ` P \<Longrightarrow> cache_get hasher k c = Inr (- 1, c)"
proof -
  have wt: "wt_inv (pc_lfu c)" "wt_empty_item (pc_lfu c) = - 1" "wt_pairs (pc_lfu c) = P" using rep by (simp_all add: cache_rep_def)
  show "k \<notin> fst ` P \<Longrightarrow> cache_get hasher k c = Inr (- 1, c)"
    using wt_get_miss [OF wt(1) k, of hasher] wt by (simp add: cache_get_def)
  assume "(k, h) \<in> P"
  then obtain l where l: "wt_get hasher 0 k (pc_lfu c) = Inr (h, l)" "wt_inv l" "wt_pairs l = P" "wt_empty_item l = - 1"
    using wt_get_hit [OF wt(1) k, of h hasher] wt by auto
  have "cache_rep (c\<lparr>pc_lfu := l\<rparr>) H P" using rep l by (simp add: cache_rep_def)
  moreover have "same_memory c (c\<lparr>pc_lfu := l\<rparr>)" by (rule same_memoryI) simp_all
  ultimately show "\<exists>c'. cache_get hasher k c = Inr (h, c') \<and> cache_rep c' H P \<and> same_memory c c'"
    using l(1) by (auto simp: cache_get_def)
qed

text \<open>A client gives a page to the cache under a new key; a page the policy gives up for it becomes free.\<close>

lemma cache_add_ok:
  assumes rep: "cache_rep c H P" and h: "h \<in> H" and k: "k \<noteq> 0" "k \<notin> fst ` P"
  obtains c' Q where "cache_add hasher k h c = Inr c'" "cache_rep c' (H - {h}) (insert (k, h) Q)" "Q \<subseteq> P" "same_memory c c'"
proof -
  have wt: "wt_inv (pc_lfu c)" "wt_empty_item (pc_lfu c) = - 1" "wt_pairs (pc_lfu c) = P" using rep by (simp_all add: cache_rep_def)
  have "k \<notin> fst ` wt_pairs (pc_lfu c)" using k(2) wt by simp
  from wt_set_ok [OF wt(1) k(1) this, of hasher h] obtain old l Q where
    l: "wt_set hasher 0 k h (pc_lfu c) = Inr (old, l)" "wt_inv l" "wt_empty_item l = - 1" "one_dropped (- 1) P old Q"
      "wt_pairs l = insert (k, h) Q" unfolding wt by blast
  note dr = cache_dropped [OF rep l(4)]
  have dis: "H \<inter> snd ` P = {}" using rep by (simp add: cache_rep_def)
  have "h \<notin> snd ` Q" using dr(1) dis h by blast
  then have inj: "inj_on snd (insert (k, h) Q)" using dr(2) by auto
  let ?c = "c\<lparr>pc_lfu := l\<rparr>"
  show thesis
  proof (cases "old = - 1")
    case True
    then have Q: "Q = P" using dr(3) by blast
    have "cache_rep ?c (H - {h}) (insert (k, h) Q)"
      by (rule cache_rep_lfu [OF rep l(2,3,5) _ _ inj]) (use h dis Q in auto)
    moreover have "same_memory c ?c" by (rule same_memoryI) simp_all
    ultimately show thesis using that [of ?c Q] dr(1) l(1) True by (simp add: cache_add_def)
  next
    case False
    then have d: "old \<notin> H" "old \<in> snd ` P" "snd ` Q = snd ` P - {old}" using dr(3) by blast+
    have rep1: "cache_rep ?c (insert old (H - {h})) (insert (k, h) Q)"
      by (rule cache_rep_lfu [OF rep l(2,3,5) _ _ inj]) (use h dis d in auto)
    obtain c' where c': "cache_free old ?c = Inr c'" "cache_rep c' (insert old (H - {h}) - {old}) (insert (k, h) Q)" "same_memory ?c c'"
      by (rule cache_free_ok [OF rep1]) blast+
    have H: "insert old (H - {h}) - {old} = H - {h}" using d(1) by blast
    have "same_memory c c'" by (rule same_memory_trans [OF same_memoryI c'(3)]) simp_all
    then show thesis using that [of c' Q] c'(1,2) H dr(1) l(1) False by (simp add: cache_add_def)
  qed
qed

section \<open>A new cache\<close>

lemma cache_fill_ok:
  assumes "cache_rep c {} {}" "tot = 4096 * n" "length (pc_buffers c) + (n + 32767) div 32768 \<le> 65536"
  shows "\<exists>c'. cache_fill tot c = Inr c' \<and> cache_rep c' {} {} \<and> cache_pages c' = cache_pages c + n"
  using assms
proof (induction tot c arbitrary: n rule: cache_fill.induct)
  case (1 tot c)
  show ?case
  proof (cases "n = 0")
    case True
    then show ?thesis using 1 by (simp add: cache_fill.simps)
  next
    case False
    define m where "m = min n 32768"
    have part: "min tot (2 ^ 27) = 4096 * m" using 1(3) by (simp add: m_def)
    have m: "0 < m" "m \<le> 32768" "m \<le> n" using False by (simp_all add: m_def)
    have u: "unat (of_nat m :: u16) = m" using m by (simp add: unat_word_of_nat)
    obtain s :: "unit slab" where s: "slab_make (of_nat m) = Inr s" "slab_inv s [0..<m]"
      by (rule slab_make_inv [of "of_nat m :: u16"]) (use m u in \<open>simp_all add: word_less_nat_alt word_le_nat_alt\<close>)
    have cap: "unat (sb_capacity s) = m" using s(1) u by (auto simp: slab_make_def res_assert_eq_Inr)
    define c1 where "c1 = c\<lparr>pc_buffers := pc_buffers c @ [replicate (4096 * m) 0], pc_pages := slabs_extend s (pc_pages c)\<rparr>"
    have rep: "map length (pc_buffers c) = map ((*) 4096) (capacities (pc_pages c))" using 1(2) by (simp add: cache_rep_def)
    then have len: "length (ss_slabs (pc_pages c)) = length (pc_buffers c)" by (metis length_map)
    have div: "(n + 32767) div 32768 = Suc ((n - m + 32767) div 32768)"
      using m by (cases "n \<le> 32768") (simp_all add: m_def le_div_geq)
    have lt: "length (ss_slabs (pc_pages c)) < 65536" using 1(4) len div by simp
    obtain C where C: "slabs_rep () (pc_pages c) C" "dom C = {}" by (rule cache_rep_pool [OF 1(2)]) simp
    have sr: "slabs_rep () (slabs_extend s (pc_pages c)) C"
      by (rule slabs_extend_rep(1) [OF C(1) lt]) (use s(2) cap in simp)
    have caps: "capacities (slabs_extend s (pc_pages c)) = capacities (pc_pages c) @ [m]" by (simp add: slabs_extend_def cap)
    have "\<exists>C. slabs_rep () (slabs_extend s (pc_pages c)) C \<and> dom C = {}" using sr C(2) by blast
    then have "cache_rep c1 {} {}" using 1(2) rep caps by (simp add: cache_rep_def c1_def del: map_map)
    moreover have "tot - min tot (2 ^ 27) = 4096 * (n - m)" using part 1(3) m by (simp add: diff_mult_distrib2)
    moreover have "length (pc_buffers c1) + (n - m + 32767) div 32768 \<le> 65536" using 1(4) div by (simp add: c1_def)
    ultimately have "\<exists>c'. cache_fill (tot - min tot (2 ^ 27)) c1 = Inr c' \<and> cache_rep c' {} {} \<and> cache_pages c' = cache_pages c1 + (n - m)"
      using 1(1) [OF _ refl, of s "n - m"] 1(3) False part s(1) by (simp add: c1_def)
    moreover have "cache_fill tot c = cache_fill (tot - min tot (2 ^ 27)) c1"
      using False 1(3) s(1) part by (subst cache_fill.simps) (simp add: c1_def Let_def)
    moreover have "cache_pages c1 = cache_pages c + m" by (simp add: cache_pages_def pool_pages_def c1_def caps)
    ultimately show ?thesis using m(3) by simp
  qed
qed

lemma cache_init_ok:
  assumes "12 \<le> bits" "bits \<le> 31"
  obtains c where "cache_init bits = Inr c" "cache_rep c {} {}" "cache_pages c = 2 ^ bits"
proof -
  have lo: "(2 :: nat) ^ 12 \<le> 2 ^ bits" "(2 :: nat) ^ bits \<le> 2 ^ 31"
    by (rule power_increasing [OF assms(1)], simp) (rule power_increasing [OF assms(2)], simp)
  have u: "unat (push_bit bits (1 :: u32)) = 2 ^ bits"
  proof -
    have "push_bit bits (1 :: u32) = of_nat (2 ^ bits)" by (simp add: push_bit_eq_mult)
    moreover have "unat (of_nat (2 ^ bits) :: u32) = 2 ^ bits" using lo(2) by (intro unat_word_of_nat) simp
    ultimately show ?thesis by simp
  qed
  have "4096 \<le> push_bit bits (1 :: u32)" "push_bit bits (1 :: u32) \<le> 0x80000000" using lo u by (simp_all add: word_le_nat_alt)
  then obtain l :: "(u64, u32) wtinylfu" where l: "wtinylfu_init (push_bit bits 1) (- 1 :: u32) = Inr l" "wt_inv l" "wt_pairs l = {}" "wt_empty_item l = - 1"
    by (rule wtinylfu_init_ok)
  let ?c = "\<lparr>pc_buffers = [], pc_pages = slabs_init, pc_lfu = l\<rparr>"
  have "cache_rep ?c {} {}"
    using l(2-4) slabs_rep_init [of "()"] by (auto simp: cache_rep_def slabs_init_def intro!: exI [of _ Map.empty])
  moreover have "(2 :: nat) ^ (bits + 12) = 4096 * 2 ^ bits" by (simp add: power_add)
  moreover have "length (pc_buffers ?c) + (2 ^ bits + 32767) div 32768 \<le> 65536" using lo(2) by simp
  ultimately obtain c where "cache_fill (2 ^ (bits + 12)) ?c = Inr c" "cache_rep c {} {}" "cache_pages c = cache_pages ?c + 2 ^ bits"
    using cache_fill_ok by blast
  then show thesis using that [of c] l(1) by (simp add: cache_init_def cache_pages_def pool_pages_def slabs_init_def)
qed

section \<open>Properties\<close>

text \<open>
  C16: As long as the clients do not hold every page, an allocation succeeds (giving up a cached page when
  the pool is full) and returns a page that no client holds; storing anything within the page leaves
  every page that a client holds, or that is cached, as it is.
\<close>

theorem page_cache_exclusive:
  assumes "cache_rep c H P" "card H < cache_pages c" "off + length bs \<le> 4096"
  shows "\<exists>h c1 c2 Q. cache_allocate hasher c = Inr (h, c1) \<and> mem_store h off bs c1 = Inr c2 \<and> h \<notin> H \<and> Q \<subseteq> P
    \<and> cache_rep c2 (insert h H) Q \<and> page_bytes c2 h = splice off bs (page_bytes c h)
    \<and> (\<forall>h' \<in> H \<union> snd ` Q. page_bytes c2 h' = page_bytes c h')"
proof -
  obtain h c1 Q where a: "cache_allocate hasher c = Inr (h, c1)" "h \<notin> H" "cache_rep c1 (insert h H) Q" "Q \<subseteq> P" "same_memory c c1"
    using cache_allocate_ok [OF assms(1,2), of hasher] by blast
  have h: "h \<in> insert h H" by simp
  obtain c2 where c2: "mem_store h off bs c1 = Inr c2" "cache_rep c2 (insert h H) Q" "page_bytes c2 h = splice off bs (page_bytes c1 h)"
    "\<forall>h' \<in> insert h H \<union> snd ` Q. h' \<noteq> h \<longrightarrow> page_bytes c2 h' = page_bytes c1 h'" by (rule mem_store_rep [OF a(3) h assms(3)])
  have "insert h H \<inter> snd ` Q = {}" using a(3) by (simp add: cache_rep_def)
  then have "h \<notin> H \<union> snd ` Q" using a(2) by blast
  then have "\<forall>h' \<in> H \<union> snd ` Q. page_bytes c2 h' = page_bytes c h'" using c2(4) a(5) by (auto simp: same_memory_def)
  then show ?thesis using a c2 by (auto simp: same_memory_def)
qed

lemma page_cache_exclusive_witness:
  "\<exists>c h c1 c2. cache_init 12 = Inr c \<and> cache_allocate id c = Inr (h, c1) \<and> mem_store h 100 [1, 2, 3] c1 = Inr c2
    \<and> page_bytes c2 h = splice 100 [1, 2, 3] (page_bytes c h)"
proof -
  obtain c where c: "cache_init 12 = Inr c" "cache_rep c {} {}" "cache_pages c = 2 ^ 12" by (rule cache_init_ok [of 12]) simp_all
  have "card ({} :: u32 set) < cache_pages c" "100 + length [1, 2, 3 :: u8] \<le> 4096" using c(3) by simp_all
  from page_cache_exclusive [OF c(2) this, of id] c(1) show ?thesis by blast
qed

end
