(* ===== verification/Latch.thy ===== *)
theory Latch
  imports Prelude
begin

text \<open>
  The page latch of \<open>storage/latch.h\<close> and the way \<open>disk_reader::read\<close> uses it: of all the threads that
  miss the same page at the same time, one loads it and the others wait. Threads are cooperative, so a
  step of the system is what one thread does between two points where it can be suspended. A thread that waits
  is in the queue of a condition and goes on only when the condition has been signalled, which puts it into the run queue.
\<close>

section \<open>The code\<close>

text \<open>\<open>condition::signal_all\<close>: every thread of the queue goes to the end of the run queue.\<close>

fun wq_signal_all :: "nat list \<Rightarrow> nat list \<Rightarrow> nat list \<times> nat list" where
  "wq_signal_all [] run_queue = ([], run_queue)"
| "wq_signal_all (t # ts) run_queue = wq_signal_all ts (run_queue @ [t])"

lemma wq_signal_all_eq [simp]: "wq_signal_all ts q = ([], q @ ts)"
  by (induction ts arbitrary: q) simp_all

record 'v latch_entry =
  le_ref_count :: u32
  le_released :: bool
  le_cond :: "nat list"
  le_value :: 'v

record ('k, 'v) latch =
  lt_entries :: "'k \<rightharpoonup> 'v latch_entry"
  lt_empty_value :: 'v

definition latch_init :: "'v \<Rightarrow> ('k, 'v) latch" where
  "latch_init none = \<lparr>lt_entries = Map.empty, lt_empty_value = none\<rparr>"

definition lt_acquire :: "'k \<Rightarrow> ('k, 'v) latch \<Rightarrow> 'v \<times> ('k, 'v) latch" where
  "lt_acquire k l =
     (let e = (case lt_entries l k of
                 None \<Rightarrow> \<lparr>le_ref_count = 0, le_released = False, le_cond = [], le_value = lt_empty_value l\<rparr>
               | Some e \<Rightarrow> e);
          e' = e\<lparr>le_ref_count := le_ref_count e + 1\<rparr>
      in (le_value e', l\<lparr>lt_entries := (lt_entries l)(k \<mapsto> e')\<rparr>))"

definition lt_release :: "'k \<Rightarrow> ('k, 'v) latch \<Rightarrow> nat list \<Rightarrow> (('k, 'v) latch \<times> nat list) res" where
  "lt_release k l run_queue =
     (case lt_entries l k of
        None \<Rightarrow> Inl Assertion
      | Some e \<Rightarrow>
          (case wq_signal_all (le_cond e) run_queue of (cond, run_queue) \<Rightarrow>
             Inr (l\<lparr>lt_entries := (lt_entries l)(k \<mapsto> e\<lparr>le_released := True, le_cond := cond\<rparr>)\<rparr>, run_queue)))"

text \<open>
  A turn of the loop of \<open>wait_for\<close>, by thread \<open>t\<close>: the call returns, or the thread is suspended in the queue of the
  condition. When it is woken it takes the next turn.
\<close>

definition lt_wait_for :: "nat \<Rightarrow> 'k \<Rightarrow> ('k, 'v) latch \<Rightarrow> (bool \<times> ('k, 'v) latch) res" where
  "lt_wait_for t k l =
     (case lt_entries l k of
        None \<Rightarrow> Inl Assertion
      | Some e \<Rightarrow>
          if le_released e then Inr (True, l)
          else Inr (False, l\<lparr>lt_entries := (lt_entries l)(k \<mapsto> e\<lparr>le_cond := le_cond e @ [t]\<rparr>)\<rparr>))"

definition lt_remove :: "'k \<Rightarrow> ('k, 'v) latch \<Rightarrow> (bool \<times> ('k, 'v) latch) res" where
  "lt_remove k l =
     (case lt_entries l k of
        None \<Rightarrow> Inl Assertion
      | Some e \<Rightarrow> res_assert (le_ref_count e \<noteq> 0)
          (let e' = e\<lparr>le_ref_count := le_ref_count e - 1\<rparr> in
           if le_ref_count e' = 0 then Inr (True, l\<lparr>lt_entries := (lt_entries l)(k := None)\<rparr>)
           else Inr (False, l\<lparr>lt_entries := (lt_entries l)(k \<mapsto> e')\<rparr>)))"

definition lt_set :: "'k \<Rightarrow> 'v \<Rightarrow> ('k, 'v) latch \<Rightarrow> ('k, 'v) latch res" where
  "lt_set k v l =
     (case lt_entries l k of
        None \<Rightarrow> Inl Assertion
      | Some e \<Rightarrow> Inr (l\<lparr>lt_entries := (lt_entries l)(k \<mapsto> e\<lparr>le_value := v\<rparr>)\<rparr>))"

section \<open>The readers of one page\<close>

text \<open>
  Where a thread is in \<open>disk_reader::read\<close>: outside, suspended in the disk read of the page it
  allocated, suspended in \<open>wait_for\<close>, past the return, or out of it by an exception of the disk read.
\<close>

datatype reader = Idle | Loading u32 | Waiting u32 | Returned u32 | Failed

record reading =
  rd_latch :: "(u64, u32) latch"
  rd_cached :: "u32 option"
  rd_pc :: "nat \<Rightarrow> reader"
  rd_run_queue :: "nat list"

definition rd_init :: reading where
  "rd_init = \<lparr>rd_latch = latch_init (- 1), rd_cached = None, rd_pc = (\<lambda>_. Idle), rd_run_queue = []\<rparr>"

text \<open>The end of the call: the last thread out gives the page to the cache, which must not have it.\<close>

definition rd_end :: "u64 \<Rightarrow> u32 \<Rightarrow> nat \<Rightarrow> reading \<Rightarrow> reading res" where
  "rd_end key mem_page t r =
     res_bind (lt_remove key (rd_latch r)) (\<lambda>(last, l).
       let r' = r\<lparr>rd_latch := l, rd_pc := (rd_pc r)(t := Returned mem_page)\<rparr> in
       if last then res_assert (rd_cached r = None) (Inr (r'\<lparr>rd_cached := Some mem_page\<rparr>)) else Inr r')"

definition rd_wait :: "u64 \<Rightarrow> u32 \<Rightarrow> nat \<Rightarrow> reading \<Rightarrow> reading res" where
  "rd_wait key mem_page t r =
     res_bind (lt_wait_for t key (rd_latch r)) (\<lambda>(ready, l).
       if ready then rd_end key mem_page t (r\<lparr>rd_latch := l\<rparr>)
       else Inr (r\<lparr>rd_latch := l, rd_pc := (rd_pc r)(t := Waiting mem_page)\<rparr>))"

text \<open>From the call to the first suspension: \<open>h\<close> is the page that the cache would allocate.\<close>

definition rd_begin :: "u64 \<Rightarrow> u32 \<Rightarrow> nat \<Rightarrow> reading \<Rightarrow> reading res" where
  "rd_begin key h t r =
     (case rd_cached r of
        Some p \<Rightarrow> Inr (r\<lparr>rd_pc := (rd_pc r)(t := Returned p)\<rparr>)
      | None \<Rightarrow>
          (case lt_acquire key (rd_latch r) of (mem_page, l) \<Rightarrow>
             if mem_page = - 1
             then res_bind (lt_set key h l) (\<lambda>l. Inr (r\<lparr>rd_latch := l, rd_pc := (rd_pc r)(t := Loading h)\<rparr>))
             else rd_wait key mem_page t (r\<lparr>rd_latch := l\<rparr>)))"

definition rd_loaded :: "u64 \<Rightarrow> u32 \<Rightarrow> nat \<Rightarrow> reading \<Rightarrow> reading res" where
  "rd_loaded key mem_page t r =
     res_bind (lt_release key (rd_latch r) (rd_run_queue r)) (\<lambda>(l, q).
       rd_end key mem_page t (r\<lparr>rd_latch := l, rd_run_queue := q\<rparr>))"

text \<open>
  A step of one of \<open>N\<close> threads, or of the cache, which may give the page up. \<open>fails\<close> says whether a disk
  read may throw: then the thread leaves without touching the latch, and may read again later. The threads of the run
  queue are woken in any order.
\<close>

inductive rd_step :: "bool \<Rightarrow> u64 \<Rightarrow> nat \<Rightarrow> reading \<Rightarrow> reading \<Rightarrow> bool" for fails key N where
  rs_begin: "t < N \<Longrightarrow> rd_pc r t = Idle \<Longrightarrow> h \<noteq> - 1 \<Longrightarrow> rd_begin key h t r = Inr r' \<Longrightarrow> rd_step fails key N r r'"
| rs_loaded: "t < N \<Longrightarrow> rd_pc r t = Loading h \<Longrightarrow> rd_loaded key h t r = Inr r' \<Longrightarrow> rd_step fails key N r r'"
| rs_wake: "t < N \<Longrightarrow> t \<in> set (rd_run_queue r) \<Longrightarrow> rd_pc r t = Waiting h \<Longrightarrow>
    rd_wait key h t (r\<lparr>rd_run_queue := remove1 t (rd_run_queue r)\<rparr>) = Inr r' \<Longrightarrow> rd_step fails key N r r'"
| rs_again: "t < N \<Longrightarrow> rd_pc r t = Returned h \<Longrightarrow> rd_step fails key N r (r\<lparr>rd_pc := (rd_pc r)(t := Idle)\<rparr>)"
| rs_evict: "rd_step fails key N r (r\<lparr>rd_cached := None\<rparr>)"
| rs_fail: "fails \<Longrightarrow> t < N \<Longrightarrow> rd_pc r t = Loading h \<Longrightarrow> rd_step fails key N r (r\<lparr>rd_pc := (rd_pc r)(t := Failed)\<rparr>)"
| rs_retry: "t < N \<Longrightarrow> rd_pc r t = Failed \<Longrightarrow> rd_step fails key N r (r\<lparr>rd_pc := (rd_pc r)(t := Idle)\<rparr>)"

abbreviation rd_reach :: "bool \<Rightarrow> u64 \<Rightarrow> nat \<Rightarrow> reading \<Rightarrow> bool" where
  "rd_reach fails key N \<equiv> (rd_step fails key N)\<^sup>*\<^sup>* rd_init"

section \<open>The invariant\<close>

definition loaders :: "reading \<Rightarrow> nat set" where
  "loaders r = {t. \<exists>h. rd_pc r t = Loading h}"

definition waiters :: "reading \<Rightarrow> nat set" where
  "waiters r = {t. \<exists>h. rd_pc r t = Waiting h}"

definition rd_queued :: "reading \<Rightarrow> u32 latch_entry \<Rightarrow> bool" where
  "rd_queued r e \<longleftrightarrow> distinct (rd_run_queue r) \<and> distinct (le_cond e)
     \<and> (if le_released e then le_cond e = [] \<and> set (rd_run_queue r) = waiters r
        else rd_run_queue r = [] \<and> set (le_cond e) = waiters r)"

definition rd_inv :: "nat \<Rightarrow> u64 \<Rightarrow> reading \<Rightarrow> bool" where
  "rd_inv N key r \<longleftrightarrow> lt_empty_value (rd_latch r) = - 1 \<and> loaders r \<union> waiters r \<subseteq> {..<N}
     \<and> (\<forall>t. rd_pc r t \<noteq> Failed)
     \<and> (case lt_entries (rd_latch r) key of
          None \<Rightarrow> loaders r \<union> waiters r = {} \<and> rd_run_queue r = []
        | Some e \<Rightarrow> rd_cached r = None \<and> le_value e \<noteq> - 1 \<and> loaders r \<union> waiters r \<noteq> {}
            \<and> unat (le_ref_count e) = card (loaders r \<union> waiters r)
            \<and> (\<forall>t h. rd_pc r t = Loading h \<or> rd_pc r t = Waiting h \<longrightarrow> h = le_value e)
            \<and> (\<forall>s t. s \<in> loaders r \<longrightarrow> t \<in> loaders r \<longrightarrow> s = t)
            \<and> (le_released e \<longleftrightarrow> loaders r = {}) \<and> rd_queued r e)"

lemma loaders_upd [simp]:
  "loaders (r\<lparr>rd_pc := (rd_pc r)(t := c)\<rparr>) = (if \<exists>h. c = Loading h then insert t (loaders r) else loaders r - {t})"
  "waiters (r\<lparr>rd_pc := (rd_pc r)(t := c)\<rparr>) = (if \<exists>h. c = Waiting h then insert t (waiters r) else waiters r - {t})"
  by (auto simp: loaders_def waiters_def)

lemma loaders_other [simp]:
  "loaders (r\<lparr>rd_latch := l\<rparr>) = loaders r" "waiters (r\<lparr>rd_latch := l\<rparr>) = waiters r"
  "loaders (r\<lparr>rd_cached := c\<rparr>) = loaders r" "waiters (r\<lparr>rd_cached := c\<rparr>) = waiters r"
  "loaders (r\<lparr>rd_run_queue := q\<rparr>) = loaders r" "waiters (r\<lparr>rd_run_queue := q\<rparr>) = waiters r"
  "loaders (r\<lparr>rd_latch := l, rd_pc := p\<rparr>) = loaders (r\<lparr>rd_pc := p\<rparr>)"
  "waiters (r\<lparr>rd_latch := l, rd_pc := p\<rparr>) = waiters (r\<lparr>rd_pc := p\<rparr>)"
  by (simp_all add: loaders_def waiters_def)

lemma rd_init_inv: "rd_inv N key rd_init"
  by (auto simp: rd_inv_def rd_init_def latch_init_def loaders_def waiters_def)

lemma pc_sets:
  "rd_pc r t = Loading h \<Longrightarrow> t \<in> loaders r" "rd_pc r t = Waiting h \<Longrightarrow> t \<in> waiters r"
  "rd_pc r t = Loading h \<Longrightarrow> t \<notin> waiters r" "rd_pc r t = Waiting h \<Longrightarrow> t \<notin> loaders r"
  "rd_pc r t = Idle \<Longrightarrow> t \<notin> loaders r \<union> waiters r" "rd_pc r t = Returned h \<Longrightarrow> t \<notin> loaders r \<union> waiters r"
  by (simp_all add: loaders_def waiters_def)

text \<open>A thread that may leave does so without a failed assertion, and the last one finds the cache without the page.\<close>

lemma rd_end_ok:
  assumes inv: "lt_empty_value (rd_latch r) = - 1" "loaders r = {}" "waiters r \<subseteq> {..<N}" "\<forall>t. rd_pc r t \<noteq> Failed"
    and e: "lt_entries (rd_latch r) key = Some e" "rd_cached r = None" "le_value e \<noteq> - 1"
      "unat (le_ref_count e) = card (insert t (waiters r))" "\<forall>s h. rd_pc r s = Waiting h \<longrightarrow> h = le_value e" "le_released e"
    and q: "distinct (rd_run_queue r)" "le_cond e = []" "set (rd_run_queue r) = waiters r - {t}"
    and t: "t < N"
  obtains r' where "rd_end key h t r = Inr r'" "rd_inv N key r'"
proof -
  let ?W = "waiters r - {t}"
  have fin: "finite (waiters r)" using inv(3) by (rule finite_subset) simp
  then have c: "unat (le_ref_count e) = Suc (card ?W)" using e(4) by (simp add: card.insert_remove)
  then have n0: "le_ref_count e \<noteq> 0" by auto
  have u: "unat (le_ref_count e - 1) = card ?W" using c n0 by (simp add: unat_sub word_le_nat_alt)
  show thesis
  proof (cases "?W = {}")
    case True
    let ?l = "(rd_latch r)\<lparr>lt_entries := (lt_entries (rd_latch r))(key := None)\<rparr>"
    let ?r = "r\<lparr>rd_latch := ?l, rd_pc := (rd_pc r)(t := Returned h), rd_cached := Some h\<rparr>"
    have "le_ref_count e - 1 = 0" using u True by (simp add: unat_eq_zero)
    then have "rd_end key h t r = Inr ?r" using e(1,2) n0 by (simp add: rd_end_def lt_remove_def)
    moreover have "rd_run_queue r = []" using q(3) unfolding True by simp
    then have "rd_inv N key ?r"
      using inv True by (auto simp: rd_inv_def loaders_def waiters_def)
    ultimately show thesis by (rule that)
  next
    case False
    let ?l = "(rd_latch r)\<lparr>lt_entries := (lt_entries (rd_latch r))(key \<mapsto> e\<lparr>le_ref_count := le_ref_count e - 1\<rparr>)\<rparr>"
    let ?r = "r\<lparr>rd_latch := ?l, rd_pc := (rd_pc r)(t := Returned h)\<rparr>"
    have "card ?W \<noteq> 0" using False fin by simp
    then have nz: "le_ref_count e - 1 \<noteq> 0" using u by auto
    then have "rd_end key h t r = Inr ?r" using e(1) n0 by (simp add: rd_end_def lt_remove_def)
    moreover have "rd_inv N key ?r"
    proof -
      have sets: "loaders ?r = {}" "waiters ?r = ?W" using inv(2) by auto
      then have "rd_queued ?r (e\<lparr>le_ref_count := le_ref_count e - 1\<rparr>)"
        using q e(6) unfolding rd_queued_def by simp
      then show ?thesis using sets inv e u False unfolding rd_inv_def by (auto simp: loaders_def)
    qed
    ultimately show thesis by (rule that)
  qed
qed

lemma rd_wait_released:
  "lt_entries (rd_latch r) key = Some e \<Longrightarrow> le_released e \<Longrightarrow> rd_wait key h t r = rd_end key h t r"
  by (simp add: rd_wait_def lt_wait_for_def)

lemma rd_begin_ok:
  assumes inv: "rd_inv N key r" and t: "t < N" "rd_pc r t = Idle" and h: "h \<noteq> - 1" and N: "N < 2 ^ 32"
  obtains r' where "rd_begin key h t r = Inr r'" "rd_inv N key r'"
proof (cases "rd_cached r")
  case (Some p)
  have "rd_inv N key (r\<lparr>rd_pc := (rd_pc r)(t := Returned p)\<rparr>)"
    using inv Some pc_sets(5) [OF t(2)] by (auto simp: rd_inv_def split: option.splits)
  then show thesis using that Some by (simp add: rd_begin_def)
next
  case None
  note ni = pc_sets(5) [OF t(2)]
  have emp: "lt_empty_value (rd_latch r) = - 1" using inv by (simp add: rd_inv_def)
  show thesis
  proof (cases "lt_entries (rd_latch r) key")
    case no: None
    let ?e = "\<lparr>le_ref_count = 1, le_released = False, le_cond = [], le_value = h\<rparr> :: u32 latch_entry"
    let ?l = "(rd_latch r)\<lparr>lt_entries := (lt_entries (rd_latch r))(key \<mapsto> ?e)\<rparr>"
    let ?r = "r\<lparr>rd_latch := ?l, rd_pc := (rd_pc r)(t := Loading h)\<rparr>"
    have "rd_begin key h t r = Inr ?r"
      using None no emp by (simp add: rd_begin_def lt_acquire_def lt_set_def)
    moreover have "rd_inv N key ?r"
      using inv no t h None by (auto simp: rd_inv_def rd_queued_def loaders_def waiters_def)
    ultimately show thesis by (rule that)
  next
    case (Some e)
    let ?T = "loaders r \<union> waiters r"
    have e: "le_value e \<noteq> - 1" "unat (le_ref_count e) = card ?T" "?T \<subseteq> {..<N}" "rd_queued r e"
      "le_released e \<longleftrightarrow> loaders r = {}" using inv Some by (simp_all add: rd_inv_def)
    have fin: "finite ?T" using e(3) by (rule finite_subset) simp
    have "insert t ?T \<subseteq> {..<N}" using e(3) t(1) by simp
    then have "card (insert t ?T) \<le> N" using card_mono [of "{..<N}"] by fastforce
    then have c: "card ?T + 1 \<le> N" using ni fin by simp
    have u: "unat (le_ref_count e + 1) = card ?T + 1"
      using c N e(2) by (subst unat_add_lem [THEN iffD1]) simp_all
    let ?e = "e\<lparr>le_ref_count := le_ref_count e + 1\<rparr>"
    let ?l = "(rd_latch r)\<lparr>lt_entries := (lt_entries (rd_latch r))(key \<mapsto> ?e)\<rparr>"
    have b: "rd_begin key h t r = rd_wait key (le_value e) t (r\<lparr>rd_latch := ?l\<rparr>)"
      using None Some e(1) by (simp add: rd_begin_def lt_acquire_def)
    show thesis
    proof (cases "le_released e")
      case True
      obtain r' where r': "rd_end key (le_value e) t (r\<lparr>rd_latch := ?l\<rparr>) = Inr r'" "rd_inv N key r'"
      proof (rule rd_end_ok [of "r\<lparr>rd_latch := ?l\<rparr>" N key ?e t "le_value e"])
        show "unat (le_ref_count ?e) = card (insert t (waiters (r\<lparr>rd_latch := ?l\<rparr>)))"
          using u e(5) True ni fin by simp
      qed (use inv Some True None t(1) ni e in \<open>auto simp: rd_inv_def rd_queued_def\<close>)
      have "rd_wait key (le_value e) t (r\<lparr>rd_latch := ?l\<rparr>) = rd_end key (le_value e) t (r\<lparr>rd_latch := ?l\<rparr>)"
        using True by (intro rd_wait_released [of _ _ ?e]) simp_all
      then show thesis using that b r' by simp
    next
      case False
      let ?e' = "?e\<lparr>le_cond := le_cond e @ [t]\<rparr>"
      let ?r = "r\<lparr>rd_latch := ?l\<lparr>lt_entries := (lt_entries (rd_latch r))(key \<mapsto> ?e')\<rparr>, rd_pc := (rd_pc r)(t := Waiting (le_value e))\<rparr>"
      have "rd_begin key h t r = Inr ?r" using False unfolding b by (simp add: rd_wait_def lt_wait_for_def)
      moreover have "rd_inv N key ?r"
      proof -
        have sets: "loaders ?r = loaders r" "waiters ?r = insert t (waiters r)" using ni by auto
        moreover have "card (loaders r \<union> insert t (waiters r)) = card ?T + 1" using ni fin by simp
        moreover have "rd_queued ?r ?e'" using e(4) ni False sets(2) unfolding rd_queued_def by auto
        ultimately show ?thesis using inv Some u t(1) None unfolding rd_inv_def by simp
      qed
      ultimately show thesis by (rule that)
    qed
  qed
qed

lemma rd_loaded_ok:
  assumes inv: "rd_inv N key r" and t: "t < N" "rd_pc r t = Loading h"
  obtains r' where "rd_loaded key h t r = Inr r'" "rd_inv N key r'"
proof -
  note tl = pc_sets(1,3) [OF t(2)]
  then obtain e where e: "lt_entries (rd_latch r) key = Some e" using inv by (fastforce simp: rd_inv_def split: option.splits)
  have i: "rd_cached r = None" "le_value e \<noteq> - 1" "unat (le_ref_count e) = card (loaders r \<union> waiters r)"
    "\<forall>t h. rd_pc r t = Loading h \<or> rd_pc r t = Waiting h \<longrightarrow> h = le_value e"
    "\<forall>s t. s \<in> loaders r \<longrightarrow> t \<in> loaders r \<longrightarrow> s = t" "lt_empty_value (rd_latch r) = - 1"
    "loaders r \<union> waiters r \<subseteq> {..<N}" "\<forall>t. rd_pc r t \<noteq> Failed" "rd_queued r e" "\<not> le_released e"
    using inv e tl(1) by (auto simp: rd_inv_def)
  have one: "loaders r = {t}" using tl(1) i(5) by blast
  let ?e = "e\<lparr>le_released := True, le_cond := []\<rparr>"
  let ?l = "(rd_latch r)\<lparr>lt_entries := (lt_entries (rd_latch r))(key \<mapsto> ?e)\<rparr>"
  let ?rel = "r\<lparr>rd_latch := ?l, rd_run_queue := le_cond e\<rparr>"
  let ?r = "?rel\<lparr>rd_pc := (rd_pc r)(t := Idle)\<rparr>"
  have pcs: "rd_pc ?r = (rd_pc r)(t := Idle)" by simp
  have idle: "loaders ?r = {}" "waiters ?r = waiters r" using one tl(2) by (auto simp: loaders_def waiters_def)
  obtain r' where r': "rd_end key h t ?r = Inr r'" "rd_inv N key r'"
  proof (rule rd_end_ok [of ?r N key ?e t h])
    show "waiters ?r \<subseteq> {..<N}" "loaders ?r = {}" using i(7) idle by simp_all
    show "unat (le_ref_count ?e) = card (insert t (waiters ?r))" using i(3) one idle by simp
    show "set (rd_run_queue ?r) = waiters ?r - {t}" using i(9,10) idle(2) tl(2) by (simp add: rd_queued_def)
    show "\<forall>s h. rd_pc ?r s = Waiting h \<longrightarrow> h = le_value ?e"
    proof (intro allI impI)
      fix s h'
      assume "rd_pc ?r s = Waiting h'"
      then have "rd_pc r s = Waiting h'" by (simp split: if_splits)
      then have "h' = le_value e" using i(4) by blast
      then show "h' = le_value ?e" by simp
    qed
  qed (use i t e in \<open>auto simp: rd_queued_def\<close>)
  have same: "rd_end key h t (r1\<lparr>rd_pc := (rd_pc r1)(t := Idle)\<rparr>) = rd_end key h t r1" for r1
    by (simp add: rd_end_def Let_def cong del: if_weak_cong)
  have "rd_run_queue r = []" using i(9,10) by (simp add: rd_queued_def)
  then have "rd_loaded key h t r = rd_end key h t ?rel" using e by (simp add: rd_loaded_def lt_release_def)
  also have "\<dots> = Inr r'" using r'(1) same [of ?rel] by simp
  finally show thesis using r'(2) by (rule that)
qed

lemma rd_wake_ok:
  assumes inv: "rd_inv N key r" and t: "t < N" "t \<in> set (rd_run_queue r)" "rd_pc r t = Waiting h"
  obtains r' where "rd_wait key h t (r\<lparr>rd_run_queue := remove1 t (rd_run_queue r)\<rparr>) = Inr r'" "rd_inv N key r'"
    "rd_pc r' = (rd_pc r)(t := Returned h)"
proof -
  let ?r = "r\<lparr>rd_run_queue := remove1 t (rd_run_queue r)\<rparr>"
  have tw: "t \<in> waiters r" by (rule pc_sets(2) [OF t(3)])
  then obtain e where e: "lt_entries (rd_latch r) key = Some e" using inv by (fastforce simp: rd_inv_def split: option.splits)
  have q: "rd_queued r e" "le_released e \<longleftrightarrow> loaders r = {}" using inv e by (simp_all add: rd_inv_def)
  then have rel: "le_released e" using t(2) by (auto simp: rd_queued_def split: if_splits)
  obtain r' where r': "rd_end key h t ?r = Inr r'" "rd_inv N key r'"
    by (rule rd_end_ok [of ?r N key e t h])
      (use inv e q rel tw t(1) in \<open>auto simp: rd_inv_def rd_queued_def insert_absorb\<close>)
  have "rd_pc r' = (rd_pc r)(t := Returned h)"
    using r'(1) by (auto simp: rd_end_def Let_def res_bind_eq_Inr res_assert_eq_Inr split: if_splits)
  moreover have "rd_wait key h t ?r = rd_end key h t ?r" using e rel by (intro rd_wait_released [of _ _ e]) simp_all
  ultimately show thesis using that r' by simp
qed

lemma rd_step_inv:
  assumes "rd_step fails key N r r'" "rd_inv N key r" "N < 2 ^ 32"
  shows "rd_inv N key r' \<or> (\<exists>t h. rd_pc r t = Loading h \<and> fails \<and> r' = r\<lparr>rd_pc := (rd_pc r)(t := Failed)\<rparr>)"
  using assms(1)
proof cases
  case (rs_begin t h)
  obtain r1 where "rd_begin key h t r = Inr r1" "rd_inv N key r1" by (rule rd_begin_ok [OF assms(2) rs_begin(1-3) assms(3)])
  then show ?thesis using rs_begin(4) by simp
next
  case (rs_loaded t h)
  obtain r1 where "rd_loaded key h t r = Inr r1" "rd_inv N key r1" by (rule rd_loaded_ok [OF assms(2) rs_loaded(1,2)])
  then show ?thesis using rs_loaded(3) by simp
next
  case (rs_wake t h)
  show ?thesis by (rule rd_wake_ok [OF assms(2) rs_wake(1-3)]) (use rs_wake(4) in simp)
next
  case (rs_again t h)
  then show ?thesis using assms(2) pc_sets(6) [OF rs_again(3)]
    by (auto simp: rd_inv_def rd_queued_def split: option.splits)
next
  case rs_evict
  then show ?thesis using assms(2) by (auto simp: rd_inv_def rd_queued_def split: option.splits)
next
  case (rs_retry t)
  then show ?thesis using assms(2) by (simp add: rd_inv_def)
qed blast

lemma rd_reach_inv: "rd_reach False key N r \<Longrightarrow> N < 2 ^ 32 \<Longrightarrow> rd_inv N key r"
  by (induction rule: rtranclp_induct) (simp add: rd_init_inv, use rd_step_inv in blast)

section \<open>Properties\<close>

text \<open>
  C17: However the threads that read a page are interleaved, and whenever the cache gives the page up, at
  most one of them is loading it, all that load or wait do so for the same memory page, and no assertion
  fails: neither in the latch nor in the cache, which is given the page only when it does not have it.
\<close>

theorem page_latch_safe:
  assumes "rd_reach False key N r" "N < 2 ^ 32"
  shows "(\<forall>s t h p. rd_pc r s = Loading h \<and> (rd_pc r t = Loading p \<or> rd_pc r t = Waiting p) \<longrightarrow> p = h \<and> (rd_pc r t = Loading p \<longrightarrow> s = t))
    \<and> (\<forall>t < N. case rd_pc r t of
         Idle \<Rightarrow> \<forall>h. h \<noteq> - 1 \<longrightarrow> (\<exists>r'. rd_begin key h t r = Inr r')
       | Loading h \<Rightarrow> \<exists>r'. rd_loaded key h t r = Inr r'
       | Waiting h \<Rightarrow> \<exists>r'. rd_wait key h t (r\<lparr>rd_run_queue := remove1 t (rd_run_queue r)\<rparr>) = Inr r'
       | Returned h \<Rightarrow> True
       | Failed \<Rightarrow> False)"
proof -
  have inv: "rd_inv N key r" by (rule rd_reach_inv [OF assms])
  have one: "p = h \<and> (rd_pc r t = Loading p \<longrightarrow> s = t)"
    if "rd_pc r s = Loading h" "rd_pc r t = Loading p \<or> rd_pc r t = Waiting p" for s t h p
  proof -
    have s: "s \<in> loaders r" by (rule pc_sets(1) [OF that(1)])
    then obtain e where "lt_entries (rd_latch r) key = Some e" using inv by (fastforce simp: rd_inv_def split: option.splits)
    then have "\<forall>t h. rd_pc r t = Loading h \<or> rd_pc r t = Waiting h \<longrightarrow> h = le_value e"
      "\<forall>s t. s \<in> loaders r \<longrightarrow> t \<in> loaders r \<longrightarrow> s = t" using inv by (simp_all add: rd_inv_def)
    then show ?thesis using that s pc_sets(1) [of r t p] by blast
  qed
  have step: "case rd_pc r t of
         Idle \<Rightarrow> \<forall>h. h \<noteq> - 1 \<longrightarrow> (\<exists>r'. rd_begin key h t r = Inr r')
       | Loading h \<Rightarrow> \<exists>r'. rd_loaded key h t r = Inr r'
       | Waiting h \<Rightarrow> \<exists>r'. rd_wait key h t (r\<lparr>rd_run_queue := remove1 t (rd_run_queue r)\<rparr>) = Inr r'
       | Returned h \<Rightarrow> True
       | Failed \<Rightarrow> False" if t: "t < N" for t
  proof (cases "rd_pc r t")
    case Idle
    have "\<exists>r'. rd_begin key h t r = Inr r'" if "h \<noteq> - 1" for h
      by (rule rd_begin_ok [OF inv t Idle that assms(2)]) blast
    then show ?thesis using Idle by simp
  next
    case (Loading h)
    have "\<exists>r'. rd_loaded key h t r = Inr r'" by (rule rd_loaded_ok [OF inv t Loading]) blast
    then show ?thesis using Loading by simp
  next
    case (Waiting h)
    have "t \<in> waiters r" by (rule pc_sets(2) [OF Waiting])
    then obtain e where e: "lt_entries (rd_latch r) key = Some e" using inv by (fastforce simp: rd_inv_def split: option.splits)
    show ?thesis
    proof (cases "t \<in> set (rd_run_queue r)")
      case True
      show ?thesis by (rule rd_wake_ok [OF inv t True Waiting]) (use Waiting in simp)
    next
      case False
      have "rd_queued r e" using inv e by (simp add: rd_inv_def)
      then have "\<not> le_released e" using False \<open>t \<in> waiters r\<close> by (auto simp: rd_queued_def)
      then show ?thesis using Waiting e by (simp add: rd_wait_def lt_wait_for_def)
    qed
  qed (use inv in \<open>simp_all add: rd_inv_def\<close>)
  show ?thesis using one step by blast
qed

text \<open>The readers of page 9: one that loads it into page 5 of the cache, and another one that waits.\<close>

definition two_readers :: "u32 \<Rightarrow> nat list \<Rightarrow> u64 \<Rightarrow> (nat \<Rightarrow> reader) \<Rightarrow> reading" where
  "two_readers n ts key pc =
     \<lparr>rd_latch = \<lparr>lt_entries = [key \<mapsto> \<lparr>le_ref_count = n, le_released = False, le_cond = ts, le_value = 5\<rparr>],
     lt_empty_value = - 1\<rparr>, rd_cached = None, rd_pc = pc, rd_run_queue = []\<rparr>"

lemma one_reader: "rd_reach fails key 2 (two_readers 1 [] key ((\<lambda>_. Idle)(0 := Loading 5)))"
proof (rule r_into_rtranclp)
  show "rd_step fails key 2 rd_init (two_readers 1 [] key ((\<lambda>_. Idle)(0 := Loading 5)))"
    by (rule rs_begin [of 0 _ _ 5])
      (simp_all add: rd_init_def rd_begin_def lt_acquire_def lt_set_def latch_init_def two_readers_def)
qed

lemma reader_waits: "rd_reach fails key 2 (two_readers 2 [1] key ((\<lambda>_. Idle)(0 := Loading 5, 1 := Waiting 5)))"
proof (rule rtranclp.rtrancl_into_rtrancl [OF one_reader])
  show "rd_step fails key 2 (two_readers 1 [] key ((\<lambda>_. Idle)(0 := Loading 5)))
      (two_readers 2 [1] key ((\<lambda>_. Idle)(0 := Loading 5, 1 := Waiting 5)))"
    by (rule rs_begin [of 1 _ _ 6]) (simp_all add: rd_begin_def lt_acquire_def rd_wait_def lt_wait_for_def two_readers_def)
qed

lemma page_latch_safe_witness:
  "\<exists>r r'. rd_reach False 9 2 r \<and> rd_pc r 0 = Loading 5 \<and> rd_loaded 9 5 0 r = Inr r'"
proof -
  let ?r = "two_readers 1 [] 9 ((\<lambda>_. Idle)(0 := Loading 5))"
  have pc: "rd_pc ?r 0 = Loading 5" by (simp add: two_readers_def)
  have "case rd_pc ?r 0 of
         Idle \<Rightarrow> \<forall>h. h \<noteq> - 1 \<longrightarrow> (\<exists>r'. rd_begin 9 h 0 ?r = Inr r')
       | Loading h \<Rightarrow> \<exists>r'. rd_loaded 9 h 0 ?r = Inr r'
       | Waiting h \<Rightarrow> \<exists>r'. rd_wait 9 h 0 (?r\<lparr>rd_run_queue := remove1 0 (rd_run_queue ?r)\<rparr>) = Inr r'
       | Returned h \<Rightarrow> True
       | Failed \<Rightarrow> False"
    by (rule page_latch_safe [OF one_reader [of False 9], THEN conjunct2, rule_format]) simp_all
  then have "\<exists>r'. rd_loaded 9 5 0 ?r = Inr r'" unfolding pc by simp
  then show ?thesis using one_reader [of False 9] pc by blast
qed

lemma rd_end_pc: "rd_end key h t r = Inr r' \<Longrightarrow> rd_pc r' = (rd_pc r)(t := Returned h)"
  by (auto simp: rd_end_def Let_def res_bind_eq_Inr res_assert_eq_Inr split: if_splits)

lemma rd_loaded_pc: "rd_loaded key h t r = Inr r' \<Longrightarrow> rd_pc r' = (rd_pc r)(t := Returned h)"
  by (auto simp: rd_loaded_def res_bind_eq_Inr dest!: rd_end_pc)

lemma returned_leaves:
  "rd_pc r' = (rd_pc r)(t := Returned h) \<Longrightarrow> loaders r' \<union> waiters r' = loaders r \<union> waiters r - {t}"
  by (auto simp: loaders_def waiters_def)



text \<open>What a failed read leaves behind.\<close>

definition abandoned :: "u64 \<Rightarrow> reading \<Rightarrow> bool" where
  "abandoned key r \<longleftrightarrow> (\<exists>e. lt_entries (rd_latch r) key = Some e \<and> \<not> le_released e \<and> le_value e \<noteq> - 1) \<and> rd_cached r = None
     \<and> (\<forall>t h. rd_pc r t \<noteq> Loading h) \<and> rd_run_queue r = []"

lemma abandoned_step:
  assumes "rd_step fails key N r r'" "abandoned key r"
  shows "abandoned key r'" "rd_pc r t = Waiting h \<Longrightarrow> rd_pc r' t = Waiting h" "rd_pc r' t = Returned h \<Longrightarrow> rd_pc r t = Returned h"
proof -
  obtain e where e: "lt_entries (rd_latch r) key = Some e" "\<not> le_released e" "le_value e \<noteq> - 1"
    and a: "rd_cached r = None" "\<forall>t h. rd_pc r t \<noteq> Loading h" "rd_run_queue r = []" using assms(2) by (auto simp: abandoned_def)
  have "abandoned key r' \<and> (rd_pc r t = Waiting h \<longrightarrow> rd_pc r' t = Waiting h) \<and> (rd_pc r' t = Returned h \<longrightarrow> rd_pc r t = Returned h)"
    using assms(1)
  proof cases
    case (rs_begin u p)
    have "r' = r\<lparr>rd_latch := (rd_latch r)\<lparr>lt_entries := (lt_entries (rd_latch r))
          (key \<mapsto> e\<lparr>le_ref_count := le_ref_count e + 1, le_cond := le_cond e @ [u]\<rparr>)\<rparr>, rd_pc := (rd_pc r)(u := Waiting (le_value e))\<rparr>"
      using rs_begin(4) e a(1) by (auto simp: rd_begin_def lt_acquire_def rd_wait_def lt_wait_for_def)
    then show ?thesis using rs_begin(2) e a by (simp add: abandoned_def)
  qed (use e a in \<open>auto simp: abandoned_def\<close>)
  then show "abandoned key r'" "rd_pc r t = Waiting h \<Longrightarrow> rd_pc r' t = Waiting h" "rd_pc r' t = Returned h \<Longrightarrow> rd_pc r t = Returned h"
    by blast+
qed

lemma failed_abandoned:
  assumes "rd_inv N key r" "rd_pc r t = Loading h"
  shows "abandoned key (r\<lparr>rd_pc := (rd_pc r)(t := Failed)\<rparr>)"
proof -
  have t: "t \<in> loaders r" by (rule pc_sets(1) [OF assms(2)])
  then obtain e where e: "lt_entries (rd_latch r) key = Some e" using assms(1) by (fastforce simp: rd_inv_def split: option.splits)
  then have i: "rd_cached r = None" "le_value e \<noteq> - 1" "\<forall>s t. s \<in> loaders r \<longrightarrow> t \<in> loaders r \<longrightarrow> s = t" "\<not> le_released e" "rd_queued r e"
    using assms(1) t by (auto simp: rd_inv_def)
  then have "rd_pc r s \<noteq> Loading p" if "s \<noteq> t" for s p using that t pc_sets(1) [of r s p] by blast
  then show ?thesis using i e by (auto simp: abandoned_def rd_queued_def)
qed

lemma rd_reach_cases: "rd_reach fails key N r \<Longrightarrow> N < 2 ^ 32 \<Longrightarrow> rd_inv N key r \<or> abandoned key r"
proof (induction rule: rtranclp_induct)
  case (step r r')
  then show ?case using rd_step_inv [OF step.hyps(2)] abandoned_step(1) [OF step.hyps(2)] failed_abandoned by metis
qed (simp add: rd_init_inv)

text \<open>
  C19: When the disk read of a page throws, no read of this page returns any more. Whatever the readers do from then on,
  however many there are, and even when the reader that failed tries again: the page is never in the cache, the readers
  that wait for it stay asleep for ever, because nobody loads it again and the run queue stays empty, and no reader that
  has not returned before the failure ever returns.
\<close>

theorem failed_read_blocks:
  assumes "rd_reach True key N q" "N < 2 ^ 32" "rd_pc q s = Loading p" "r = q\<lparr>rd_pc := (rd_pc q)(s := Failed)\<rparr>"
    "(rd_step True key N)\<^sup>*\<^sup>* r r'"
  shows "loaders r' = {} \<and> rd_cached r' = None \<and> rd_run_queue r' = [] \<and> waiters r \<subseteq> waiters r'
    \<and> (\<forall>t h. rd_pc r' t = Returned h \<longrightarrow> rd_pc r t = Returned h)"
proof -
  have "rd_inv N key q" using rd_reach_cases [OF assms(1,2)] assms(3) by (auto simp: abandoned_def)
  then have "abandoned key r" unfolding assms(4) by (rule failed_abandoned [OF _ assms(3)])
  with assms(5) have "abandoned key r' \<and> waiters r \<subseteq> waiters r' \<and> (\<forall>t h. rd_pc r' t = Returned h \<longrightarrow> rd_pc r t = Returned h)"
  proof (induction rule: rtranclp_induct)
    case (step r1 r2)
    then have "waiters r1 \<subseteq> waiters r2" using abandoned_step(2) [OF step.hyps(2)] by (fastforce simp: waiters_def)
    then show ?case using step abandoned_step(1,3) [OF step.hyps(2)] by blast
  qed simp
  then show ?thesis by (auto simp: abandoned_def loaders_def)
qed

theorem failed_read_blocks_witness:
  "\<exists>r. rd_reach True 9 2 r \<and> rd_pc r 0 = Failed \<and> waiters r = {1}
    \<and> (\<forall>r'. (rd_step True 9 2)\<^sup>*\<^sup>* r r' \<longrightarrow> 1 \<in> waiters r' \<and> rd_run_queue r' = [] \<and> (\<forall>h. rd_pc r' 0 \<noteq> Returned h))"
proof -
  let ?q = "two_readers 2 [1] 9 ((\<lambda>_. Idle)(0 := Loading 5, 1 := Waiting 5))"
  let ?r = "?q\<lparr>rd_pc := (rd_pc ?q)(0 := Failed)\<rparr>"
  have q: "rd_pc ?q 0 = Loading 5" by (simp add: two_readers_def)
  have w: "waiters ?r = {1}" by (auto simp: two_readers_def waiters_def)
  have "rd_step True 9 2 ?q ?r" by (rule rs_fail [OF _ _ q]) simp_all
  with reader_waits have "rd_reach True 9 2 ?r" by (rule rtranclp.rtrancl_into_rtrancl)
  moreover have "1 \<in> waiters r' \<and> rd_run_queue r' = [] \<and> (\<forall>h. rd_pc r' 0 \<noteq> Returned h)"
    if "(rd_step True 9 2)\<^sup>*\<^sup>* ?r r'" for r'
  proof -
    have "waiters ?r \<subseteq> waiters r' \<and> rd_run_queue r' = [] \<and> (\<forall>t h. rd_pc r' t = Returned h \<longrightarrow> rd_pc ?r t = Returned h)"
      using failed_read_blocks [OF reader_waits [of True 9] _ q refl that] by simp
    moreover have "rd_pc ?r 0 = Failed" by simp
    ultimately show ?thesis unfolding w by (metis insert_subset reader.distinct(19))
  qed
  ultimately show ?thesis using w by (intro exI [of _ ?r]) simp
qed

end
