(* ===== verification/Ushard_Iterator.thy ===== *)
theory Ushard_Iterator
  imports Slice_Scan "HOL-Library.Multiset"
begin

text \<open>
  The merging iterator of a ushard (\<open>tyrdbs/ushard.cpp\<close>, class \<open>ushard_iterator\<close>). The virtual
  functions of \<open>tyrdbs/iterator.h\<close> are arguments of the definitions: \<open>step\<close> is \<open>next()\<close>, and
  \<open>cur\<close> reads \<open>key()\<close>, \<open>value()\<close>, \<open>eor()\<close>, \<open>deleted()\<close> and \<open>idx()\<close> at the current position.
  The locale \<open>item_iterator\<close> is the contract between an iterator and its client; it is interpreted on
  the slice iterator and on the merging iterator itself. \<open>merged\<close> is the reference: for every
  key in ascending order, the parts of the record with the largest index.
\<close>

section \<open>The code\<close>

fun res_map :: "('a \<Rightarrow> 'b res) \<Rightarrow> 'a list \<Rightarrow> 'b list res" where
  "res_map f [] = Inr []"
| "res_map f (x # xs) = res_bind (f x) (\<lambda>y. res_bind (res_map f xs) (\<lambda>ys. Inr (y # ys)))"

text \<open>\<open>ushard_iterator::cmp\<close>: the vector is kept with the smallest key, and of equal keys the newest, at its back.\<close>

definition item_before :: "item \<Rightarrow> item \<Rightarrow> bool" where
  "item_before a b =
     (let c = sv_compare (it_key a) (it_key b) in
      if c = 0 then it_idx a < it_idx b else 0 < c)"

record 'it ushard_iterator =
  ui_elements :: "'it list"
  ui_max_key :: key_buffer
  ui_last_key :: key_buffer

definition ui_item :: "('it \<Rightarrow> item res) \<Rightarrow> 'it ushard_iterator \<Rightarrow> item res" where
  "ui_item cur u = (if ui_elements u = [] then Inl Undefined else cur (last (ui_elements u)))"

text \<open>\<open>std::sort\<close> with \<open>cmp\<close>: a permutation in order, here by insertion.\<close>

fun place :: "'it \<times> item \<Rightarrow> ('it \<times> item) list \<Rightarrow> ('it \<times> item) list" where
  "place p [] = [p]"
| "place p (q # qs) = (if item_before (snd q) (snd p) then q # place p qs else p # q # qs)"

definition sort_elements :: "('it \<Rightarrow> item res) \<Rightarrow> 'it list \<Rightarrow> 'it list res" where
  "sort_elements cur es =
     res_bind (res_map cur es) (\<lambda>is. Inr (map fst (foldr place (zip es is) [])))"

text \<open>\<open>std::lower_bound\<close> with \<open>cmp\<close>: the first position that does not come before \<open>v\<close>.\<close>

definition lower_bound_before :: "item list \<Rightarrow> item \<Rightarrow> nat" where
  "lower_bound_before is v = length (takeWhile (\<lambda>i. item_before i v) is)"

definition ui_is_out_of_bounds :: "('it \<Rightarrow> item res) \<Rightarrow> 'it ushard_iterator \<Rightarrow> bool res" where
  "ui_is_out_of_bounds cur u =
     (if kb_size (ui_max_key u) = 0 then Inr False
      else res_bind (ui_item cur u) (\<lambda>i. Inr (0 < sv_compare (it_key i) (kb_view (ui_max_key u)))))"

definition ui_advance_last ::
  "('it \<Rightarrow> (bool \<times> 'it) res) \<Rightarrow> 'it ushard_iterator \<Rightarrow> (bool \<times> 'it ushard_iterator) res" where
  "ui_advance_last step u =
     (if ui_elements u = [] then Inl Undefined
      else
        res_bind (step (last (ui_elements u))) (\<lambda>(has_next, e).
          Inr (has_next, u\<lparr>ui_elements := butlast (ui_elements u) @ [e]\<rparr>)))"

definition ui_advance ::
  "('it \<Rightarrow> (bool \<times> 'it) res) \<Rightarrow> ('it \<Rightarrow> item res) \<Rightarrow> 'it ushard_iterator \<Rightarrow>
     (bool \<times> 'it ushard_iterator) res" where
  "ui_advance step cur u =
     res_bind (ui_advance_last step u) (\<lambda>(has_next, u1).
       let es = ui_elements u1 in
       if \<not> has_next then Inr (butlast es \<noteq> [], u1\<lparr>ui_elements := butlast es\<rparr>)
       else
         res_bind (res_map cur es) (\<lambda>is.
           let it = lower_bound_before is (last is) in
           if it \<noteq> length es - 1 then
             Inr (True, u1\<lparr>ui_elements := take it es @ [last es] @ drop it (butlast es)\<rparr>)
           else Inr (True, u1)))"

text \<open>The loop of \<open>next\<close> that leaves the record behind, older versions of it included.\<close>

fun ui_skip ::
  "('it \<Rightarrow> (bool \<times> 'it) res) \<Rightarrow> ('it \<Rightarrow> item res) \<Rightarrow> nat \<Rightarrow> 'it ushard_iterator \<Rightarrow>
     (bool \<times> 'it ushard_iterator) res" where
  "ui_skip step cur 0 u = Inl Out_Of_Fuel"
| "ui_skip step cur (Suc k) u =
     res_bind (ui_advance step cur u) (\<lambda>(more, u1).
       if \<not> more then Inr (False, u1)
       else
         res_bind (ui_is_out_of_bounds cur u1) (\<lambda>out.
           if out then Inr (False, u1\<lparr>ui_elements := []\<rparr>)
           else
             res_bind (ui_item cur u1) (\<lambda>i.
               if sv_compare (it_key i) (kb_view (ui_last_key u1)) \<noteq> 0 then
                 res_bind (kb_assign (it_key i) (ui_last_key u1)) (\<lambda>lk. Inr (True, u1\<lparr>ui_last_key := lk\<rparr>))
               else ui_skip step cur k u1)))"

definition ui_next ::
  "('it \<Rightarrow> (bool \<times> 'it) res) \<Rightarrow> ('it \<Rightarrow> item res) \<Rightarrow> nat \<Rightarrow> 'it ushard_iterator \<Rightarrow>
     (bool \<times> 'it ushard_iterator) res" where
  "ui_next step cur k u =
     (if ui_elements u = [] then Inr (False, u)
      else if kb_size (ui_last_key u) = 0 then
        res_bind (sort_elements cur (ui_elements u)) (\<lambda>es.
          let u1 = u\<lparr>ui_elements := es\<rparr> in
          res_bind (ui_item cur u1) (\<lambda>i.
          res_bind (kb_assign (it_key i) (ui_last_key u1)) (\<lambda>lk.
          let u2 = u1\<lparr>ui_last_key := lk\<rparr> in
          res_bind (ui_is_out_of_bounds cur u2) (\<lambda>out.
            if out then Inr (False, u2\<lparr>ui_elements := []\<rparr>) else Inr (True, u2)))))
      else
        res_bind (ui_item cur u) (\<lambda>i.
          if \<not> it_eor i then
            res_bind (ui_advance_last step u) (\<lambda>(has_next, u1). res_assert has_next (Inr (True, u1)))
          else ui_skip step cur k u))"

text \<open>
  The constructors. \<open>open_slice\<close> is \<open>slice->begin()\<close> or \<open>slice->range(min_key, max_key)\<close> with the
  slice kept beside its iterator. The sources of the second constructor are opened by jobs; the
  list is the order in which they finish.
\<close>

fun ui_open ::
  "('sl \<Rightarrow> 'it option res) \<Rightarrow> ('it \<Rightarrow> (bool \<times> 'it) res) \<Rightarrow> ('it \<Rightarrow> bool res) \<Rightarrow> 'sl list \<Rightarrow> 'it list res" where
  "ui_open open_slice step keep [] = Inr []"
| "ui_open open_slice step keep (s # ss) =
     res_bind (open_slice s) (\<lambda>r.
       case r of
         None \<Rightarrow> ui_open open_slice step keep ss
       | Some it \<Rightarrow>
           res_bind (step it) (\<lambda>(more, it').
             if \<not> more then ui_open open_slice step keep ss
             else
               res_bind (keep it') (\<lambda>k.
                 if k then res_bind (ui_open open_slice step keep ss) (\<lambda>es. Inr (it' # es))
                 else ui_open open_slice step keep ss)))"

definition ui_make_begin ::
  "('sl \<Rightarrow> 'it option res) \<Rightarrow> ('it \<Rightarrow> (bool \<times> 'it) res) \<Rightarrow> 'sl list \<Rightarrow> 'it ushard_iterator res" where
  "ui_make_begin open_slice step ss =
     res_bind (ui_open open_slice step (\<lambda>_. Inr True) ss) (\<lambda>es.
       Inr \<lparr>ui_elements = es, ui_max_key = key_buffer_init, ui_last_key = key_buffer_init\<rparr>)"

definition ui_make_range ::
  "('sl \<Rightarrow> 'it option res) \<Rightarrow> ('it \<Rightarrow> (bool \<times> 'it) res) \<Rightarrow> ('it \<Rightarrow> item res) \<Rightarrow> bytes \<Rightarrow> 'sl list \<Rightarrow>
     'it ushard_iterator res" where
  "ui_make_range open_slice step cur max_key ss =
     res_bind (ui_open open_slice step
       (\<lambda>it. res_bind (cur it) (\<lambda>i. Inr (\<not> 0 < sv_compare (it_key i) max_key))) ss) (\<lambda>es.
     res_bind (if es \<noteq> [] then kb_assign max_key key_buffer_init else Inr key_buffer_init) (\<lambda>mk.
       Inr \<lparr>ui_elements = es, ui_max_key = mk, ui_last_key = key_buffer_init\<rparr>))"

text \<open>A client that drains an iterator, at most \<open>m\<close> items.\<close>

fun drain :: "('it \<Rightarrow> (bool \<times> 'it) res) \<Rightarrow> ('it \<Rightarrow> item res) \<Rightarrow> nat \<Rightarrow> 'it \<Rightarrow> item list res" where
  "drain step cur 0 it = Inl Out_Of_Fuel"
| "drain step cur (Suc m) it =
     res_bind (step it) (\<lambda>(more, it').
       if more then res_bind (cur it') (\<lambda>i. res_bind (drain step cur m it') (\<lambda>is. Inr (i # is)))
       else Inr [])"

section \<open>The reference\<close>

definition part :: "bytes \<Rightarrow> item list \<Rightarrow> item list" where
  "part K xs = filter (\<lambda>i. it_key i = K) xs"

definition rivals :: "bytes \<Rightarrow> item list list \<Rightarrow> item list list" where
  "rivals K Ls = filter (\<lambda>p. p \<noteq> []) (map (part K) Ls)"

definition pick_newest :: "item list list \<Rightarrow> item list" where
  "pick_newest ps = (case ps of [] \<Rightarrow> []
     | p # qs \<Rightarrow> fold (\<lambda>q b. if it_idx (hd b) < it_idx (hd q) then q else b) qs p)"

definition newest :: "bytes \<Rightarrow> item list list \<Rightarrow> item list" where
  "newest K Ls = pick_newest (rivals K Ls)"

definition stream_keys :: "item list list \<Rightarrow> bytes list" where
  "stream_keys Ls = sorted_list_of_set (it_key ` set (concat Ls))"

definition merged :: "item list list \<Rightarrow> item list" where
  "merged Ls = concat (map (\<lambda>K. newest K Ls) (stream_keys Ls))"

text \<open>Two sources never hold versions of a record with the same index.\<close>

definition idx_distinct :: "item list list \<Rightarrow> bool" where
  "idx_distinct Ls \<longleftrightarrow> (\<forall>K. distinct (map (\<lambda>p. it_idx (hd p)) (rivals K Ls)))"

text \<open>What a slice yields: its records are complete.\<close>

definition record_stream :: "item list \<Rightarrow> bool" where
  "record_stream xs \<longleftrightarrow> well_formed_stream xs \<and> (xs \<noteq> [] \<longrightarrow> it_eor (last xs))"

section \<open>The reference, record by record\<close>

lemma item_before_iff:
  "item_before a b \<longleftrightarrow> it_key b < it_key a \<or> it_key a = it_key b \<and> it_idx a < it_idx b"
  by (auto simp: item_before_def Let_def)

lemma pick_newest_max:
  assumes "ps \<noteq> []"
  shows "pick_newest ps \<in> set ps \<and> (\<forall>q \<in> set ps. it_idx (hd q) \<le> it_idx (hd (pick_newest ps)))"
proof -
  have "fold (\<lambda>q b. if it_idx (hd b) < it_idx (hd q) then q else b) qs p \<in> set (p # qs)
    \<and> (\<forall>q \<in> set (p # qs). it_idx (hd q) \<le> it_idx (hd (fold (\<lambda>q b. if it_idx (hd b) < it_idx (hd q) then q else b) qs p)))"
    for p qs
  proof (induction qs arbitrary: p)
    case (Cons q qs)
    show ?case
      using Cons.IH [of "if it_idx (hd p) < it_idx (hd q) then q else p"]
      by (auto split: if_splits)
  qed simp
  then show ?thesis using assms by (cases ps) (simp_all add: pick_newest_def)
qed

lemma newest_eq:
  assumes "idx_distinct Ls" "p \<in> set (rivals K Ls)" "\<forall>q \<in> set (rivals K Ls). it_idx (hd q) \<le> it_idx (hd p)"
  shows "newest K Ls = p"
proof -
  have d: "inj_on (\<lambda>p. it_idx (hd p)) (set (rivals K Ls))"
    using assms(1) by (simp add: idx_distinct_def distinct_map)
  have "newest K Ls \<in> set (rivals K Ls)" "\<forall>q \<in> set (rivals K Ls). it_idx (hd q) \<le> it_idx (hd (newest K Ls))"
    using pick_newest_max [of "rivals K Ls"] assms(2) unfolding newest_def by (metis empty_iff empty_set)+
  then show ?thesis using d assms(2,3) by (metis inj_onD order_antisym)
qed

lemma rivals_nonempty [simp]: "rivals K (filter (\<lambda>L. L \<noteq> []) Ls) = rivals K Ls"
  by (induction Ls) (auto simp: rivals_def part_def)

lemma mset_rivals: "mset Ls = mset Ms \<Longrightarrow> mset (rivals K Ls) = mset (rivals K Ms)"
  by (simp add: rivals_def mset_filter)

lemma mset_same:
  assumes "mset Ls = mset Ms" "idx_distinct Ls"
  shows "idx_distinct Ms" "newest K Ls = newest K Ms" "merged Ls = merged Ms"
proof -
  have d: "distinct (map (\<lambda>p. it_idx (hd p)) (rivals K Ms))" for K
  proof -
    have "mset (map (\<lambda>p. it_idx (hd p)) (rivals K Ls)) = mset (map (\<lambda>p. it_idx (hd p)) (rivals K Ms))"
      using mset_rivals [OF assms(1)] by simp
    then show ?thesis using assms(2) by (metis idx_distinct_def mset_eq_imp_distinct_iff)
  qed
  then show dm: "idx_distinct Ms" by (simp add: idx_distinct_def)
  have n: "newest K Ls = newest K Ms" for K
  proof (cases "rivals K Ms = []")
    case True
    then have "rivals K Ls = []" using mset_rivals [OF assms(1), of K] by simp
    with True show ?thesis by (simp add: newest_def)
  next
    case False
    have st: "set (rivals K Ls) = set (rivals K Ms)" using mset_rivals [OF assms(1)] by (metis set_mset_mset)
    then show ?thesis
      using newest_eq [OF assms(2)] pick_newest_max [OF False] by (metis newest_def)
  qed
  then show "newest K Ls = newest K Ms" .
  have "set Ls = set Ms" using assms(1) by (metis set_mset_mset)
  then have "stream_keys Ls = stream_keys Ms" by (simp add: stream_keys_def)
  then show "merged Ls = merged Ms" by (simp add: merged_def n)
qed

lemma merged_nonempty [simp]:
  "merged (filter (\<lambda>L. L \<noteq> []) Ls) = merged Ls" "idx_distinct (filter (\<lambda>L. L \<noteq> []) Ls) = idx_distinct Ls"
proof -
  have "stream_keys (filter (\<lambda>L. L \<noteq> []) Ls) = stream_keys Ls"
    unfolding stream_keys_def by (rule arg_cong [of _ _ sorted_list_of_set]) (force intro!: image_eqI)
  then show "merged (filter (\<lambda>L. L \<noteq> []) Ls) = merged Ls" by (simp add: merged_def newest_def)
qed (simp add: idx_distinct_def)

definition drop_key :: "bytes \<Rightarrow> item list \<Rightarrow> item list" where
  "drop_key K L = filter (\<lambda>i. it_key i \<noteq> K) L"

lemma part_drop_key: "part K' (drop_key K L) = (if K' = K then [] else part K' L)"
  by (auto simp: part_def drop_key_def intro: filter_cong)

lemma rivals_drop_key: "rivals K' (map (drop_key K) Ls) = (if K' = K then [] else rivals K' Ls)"
  by (induction Ls) (auto simp: rivals_def part_drop_key)

lemma idx_distinct_drop_key: "idx_distinct Ls \<Longrightarrow> idx_distinct (map (drop_key K) Ls)"
  by (simp add: idx_distinct_def rivals_drop_key)

lemma merged_step:
  assumes "i \<in> set (concat Ls)" "K = it_key i" "\<forall>j \<in> set (concat Ls). K \<le> it_key j"
  shows "merged Ls = newest K Ls @ merged (map (drop_key K) Ls)"
proof -
  let ?A = "it_key ` set (concat Ls)"
  have "Min ?A = K" using assms by (intro Min_eqI) auto
  moreover have "it_key ` set (concat (map (drop_key K) Ls)) = ?A - {K}"
    by (auto simp: drop_key_def)
  moreover have "?A \<noteq> {}" using assms(1) by (metis empty_iff image_is_empty)
  ultimately have k: "stream_keys Ls = K # stream_keys (map (drop_key K) Ls)"
    using sorted_list_of_set_nonempty [of ?A] by (simp add: stream_keys_def)
  have "K' \<noteq> K" if "K' \<in> set (stream_keys (map (drop_key K) Ls))" for K'
    using that by (auto simp: stream_keys_def drop_key_def)
  then show ?thesis
    unfolding merged_def k by (auto simp: newest_def rivals_drop_key intro!: arg_cong [of _ _ concat])
qed

lemma merged_empty: "\<forall>L \<in> set Ls. L = [] \<Longrightarrow> merged Ls = []"
proof -
  assume "\<forall>L \<in> set Ls. L = []"
  then have "stream_keys Ls = []" by (simp add: stream_keys_def)
  then show ?thesis by (simp add: merged_def)
qed

section \<open>Streams of records\<close>

lemma record_stream_Cons:
  "record_stream (x # xs) \<longleftrightarrow> well_formed_item x \<and> record_stream xs
     \<and> (case xs of [] \<Rightarrow> it_eor x | y # _ \<Rightarrow> may_follow x y)"
  by (cases xs) (auto simp: record_stream_def)

lemma record_stream_head:
  "record_stream (x # xs) \<Longrightarrow> (\<forall>y \<in> set xs. it_key x \<le> it_key y) \<and> (it_eor x \<longrightarrow> (\<forall>y \<in> set xs. it_key x < it_key y))"
proof (induction xs arbitrary: x)
  case (Cons y ys)
  have "may_follow x y" "record_stream (y # ys)" using Cons.prems by (simp_all add: record_stream_Cons)
  with Cons.IH [of y] show ?case by (force simp: may_follow_def split: if_splits)
qed simp

lemma record_stream_hd_le: "record_stream M \<Longrightarrow> i \<in> set M \<Longrightarrow> it_key (hd M) \<le> it_key i"
  using record_stream_head [of "hd M" "tl M"] by (cases M) auto

lemma record_stream_keys:
  "record_stream xs \<Longrightarrow> i \<in> set xs \<Longrightarrow> it_key i \<noteq> [] \<and> length (it_key i) \<le> max_key_size"
  by (induction xs) (auto simp: record_stream_Cons well_formed_item_def)

lemma record_stream_more:
  assumes "record_stream (x # xs)" "\<not> it_eor x"
  obtains y ys where "xs = y # ys" "it_key y = it_key x"
  using assms by (cases xs) (auto simp: record_stream_Cons may_follow_def)

lemma drop_key_above: "record_stream (x # xs) \<Longrightarrow> K < it_key x \<Longrightarrow> drop_key K (x # xs) = x # xs"
  using record_stream_head [of x xs] by (force simp: drop_key_def filter_id_conv)

section \<open>The order of the elements\<close>

lemma item_before_trans: "\<not> item_before q p \<Longrightarrow> \<not> item_before r q \<Longrightarrow> \<not> item_before r p"
  by (auto simp: item_before_iff)

definition in_order :: "item list list \<Rightarrow> bool" where
  "in_order Ls \<longleftrightarrow> sorted_wrt (\<lambda>L M. \<not> item_before (hd M) (hd L)) Ls"

lemma place_rep:
  "list_all2 (\<lambda>p M. R (fst p) M \<and> snd p = hd M) S Ms \<Longrightarrow> in_order Ms \<Longrightarrow> R e L \<Longrightarrow>
    \<exists>Ms'. list_all2 (\<lambda>p M. R (fst p) M \<and> snd p = hd M) (place (e, hd L) S) Ms'
      \<and> mset Ms' = add_mset L (mset Ms) \<and> in_order Ms'"
proof (induction S arbitrary: Ms)
  case Nil
  then show ?case by (auto simp: in_order_def intro!: exI [of _ "[L]"])
next
  case (Cons q qs)
  then obtain M Ns where Ms: "Ms = M # Ns" "R (fst q) M" "snd q = hd M"
    "list_all2 (\<lambda>p M. R (fst p) M \<and> snd p = hd M) qs Ns" by (auto simp: list_all2_Cons1)
  have ord: "in_order Ns" "\<forall>N \<in> set Ns. \<not> item_before (hd N) (hd M)"
    using Cons.prems(2) by (auto simp: in_order_def Ms(1))
  show ?case
  proof (cases "item_before (hd M) (hd L)")
    case True
    obtain Ns' where n: "list_all2 (\<lambda>p M. R (fst p) M \<and> snd p = hd M) (place (e, hd L) qs) Ns'"
      "mset Ns' = add_mset L (mset Ns)" "in_order Ns'"
      using Cons.IH [OF Ms(4) ord(1) Cons.prems(3)] by blast
    have "set Ns' = insert L (set Ns)" using n(2) by (metis set_mset_add_mset_insert set_mset_mset)
    moreover have "\<not> item_before (hd L) (hd M)" using True by (auto simp: item_before_iff)
    ultimately have "in_order (M # Ns')" using n(3) ord by (simp add: in_order_def)
    with n Ms True show ?thesis by (intro exI [of _ "M # Ns'"]) simp
  next
    case False
    then have "in_order (L # Ms)"
      using ord item_before_trans [OF False] by (simp add: in_order_def Ms(1))
    with Cons.prems Ms False show ?thesis by (intro exI [of _ "L # Ms"]) simp
  qed
qed

lemma sort_rep:
  assumes "list_all2 R es Ls"
  shows "\<exists>Ms. list_all2 R (map fst (foldr place (zip es (map hd Ls)) [])) Ms \<and> mset Ms = mset Ls \<and> in_order Ms"
proof -
  have "list_all2 R es Ls \<Longrightarrow>
    \<exists>Ms. list_all2 (\<lambda>p M. R (fst p) M \<and> snd p = hd M) (foldr place (zip es (map hd Ls)) []) Ms
      \<and> mset Ms = mset Ls \<and> in_order Ms" for es
  proof (induction rule: list_all2_induct)
    case Nil
    then show ?case by (simp add: in_order_def)
  next
    case (Cons e es L Ls)
    then obtain Ms where m: "list_all2 (\<lambda>p M. R (fst p) M \<and> snd p = hd M)
        (foldr place (zip es (map hd Ls)) []) Ms" "mset Ms = mset Ls" "in_order Ms" by blast
    from place_rep [of R, OF m(1,3) Cons(1)] m(2) show ?case by auto
  qed
  from this [OF assms] obtain Ms where m: "list_all2 (\<lambda>p M. R (fst p) M \<and> snd p = hd M)
      (foldr place (zip es (map hd Ls)) []) Ms" "mset Ms = mset Ls" "in_order Ms" by blast
  from m(1) have "list_all2 (\<lambda>p M. R (fst p) M) (foldr place (zip es (map hd Ls)) []) Ms"
    by (rule list_all2_mono) simp
  with m(2,3) show ?thesis unfolding list_all2_map1 by blast
qed

lemma insert_in_order:
  assumes "in_order As" "n = length (takeWhile (\<lambda>A. item_before (hd A) (hd M)) As)"
  shows "in_order (take n As @ [M] @ drop n As)"
proof -
  let ?P = "\<lambda>A. item_before (hd A) (hd M)"
  have t: "take n As = takeWhile ?P As" "drop n As = dropWhile ?P As"
    unfolding assms(2) by (metis takeWhile_eq_take, metis dropWhile_eq_drop)
  have sw: "in_order (takeWhile ?P As @ dropWhile ?P As)" using assms(1) by simp
  have "\<not> item_before (hd B) (hd M)" if B: "B \<in> set (dropWhile ?P As)" for B
  proof (cases "dropWhile ?P As")
    case (Cons C Cs)
    then have "\<not> ?P C" by (simp add: dropWhile_eq_Cons_conv)
    moreover have "B = C \<or> \<not> item_before (hd B) (hd C)"
      using sw B by (auto simp: in_order_def sorted_wrt_append Cons)
    ultimately show ?thesis using item_before_trans by blast
  next
    case Nil
    then show ?thesis using B by (metis empty_iff empty_set)
  qed
  moreover have "\<not> item_before (hd M) (hd A)" if "A \<in> set (takeWhile ?P As)" for A
    using set_takeWhileD [OF that] by (auto simp: item_before_iff)
  moreover have "in_order (T @ [M] @ D)" if "in_order (T @ D)" "\<forall>B \<in> set D. \<not> item_before (hd B) (hd M)"
    "\<forall>A \<in> set T. \<not> item_before (hd M) (hd A)" for T D
    using that by (simp add: in_order_def sorted_wrt_append)
  ultimately show ?thesis using sw unfolding t by blast
qed

text \<open>The element at the back holds the newest version of the smallest key.\<close>

lemma last_in_order:
  assumes "in_order Ls" "Ls \<noteq> []" "M \<in> set Ls"
  shows "it_key (hd (last Ls)) < it_key (hd M)
    \<or> it_key (hd (last Ls)) = it_key (hd M) \<and> it_idx (hd M) \<le> it_idx (hd (last Ls))"
proof (cases "M = last Ls")
  case False
  then have "M \<in> set (butlast Ls)"
    by (metis assms(2,3) append_butlast_last_id insert_iff list.set(2) rotate1.simps(2) set_rotate1)
  then have "\<not> item_before (hd (last Ls)) (hd M)"
    using assms(1,2) unfolding in_order_def
    by (metis append_butlast_last_id list.set_intros(1) sorted_wrt_append)
  then show ?thesis by (auto simp: item_before_iff)
qed simp

lemma newest_last:
  assumes "in_order Ls" "Ls \<noteq> []" "\<forall>L \<in> set Ls. L \<noteq> [] \<and> record_stream L" "idx_distinct Ls"
  shows "merged Ls = part (it_key (hd (last Ls))) (last Ls) @ merged (map (drop_key (it_key (hd (last Ls)))) Ls)"
proof -
  let ?K = "it_key (hd (last Ls))"
  have hd_le: "it_key (hd M) \<le> it_key j" if "M \<in> set Ls" "j \<in> set M" for M j
    using assms(3) that record_stream_head [of "hd M" "tl M"] by (cases M) auto
  have K_le: "?K \<le> it_key j" if "M \<in> set Ls" "j \<in> set M" for M j
    using last_in_order [OF assms(1,2) that(1)] hd_le [OF that] by auto
  have l: "last Ls \<in> set Ls" "last Ls \<noteq> []" using assms(2,3) by auto
  have hd_part: "hd (part ?K M) = hd M" if M: "M \<in> set Ls" "part ?K M \<noteq> []" for M
  proof (cases M)
    case (Cons x xs)
    obtain j where "j \<in> set M" "it_key j = ?K" using M(2) by (auto simp: part_def filter_empty_conv)
    then have "it_key (hd M) = ?K" using hd_le [OF M(1)] last_in_order [OF assms(1,2) M(1)] by force
    then show ?thesis by (simp add: Cons part_def)
  qed (use M in \<open>simp add: part_def\<close>)
  have "part ?K (last Ls) \<noteq> []" using l(2) by (cases "last Ls") (auto simp: part_def)
  moreover have "it_idx (hd (part ?K M)) \<le> it_idx (hd (part ?K (last Ls)))"
    if M: "M \<in> set Ls" "part ?K M \<noteq> []" for M
  proof -
    have "hd (part ?K M) \<in> set (part ?K M)" using M(2) by simp
    then have "it_key (hd M) = ?K" unfolding hd_part [OF M] by (simp add: part_def)
    then show ?thesis
      using last_in_order [OF assms(1,2) M(1)] hd_part [OF M] hd_part [OF l(1)] \<open>part ?K (last Ls) \<noteq> []\<close> by auto
  qed
  ultimately have "newest ?K Ls = part ?K (last Ls)"
    using l(1) by (intro newest_eq [OF assms(4)]) (auto simp: rivals_def)
  moreover have "hd (last Ls) \<in> set (concat Ls)" using l by (metis UN_I hd_in_set set_concat)
  ultimately show ?thesis
    using merged_step [of "hd (last Ls)" Ls ?K] K_le by auto
qed

section \<open>Leaving a record\<close>

definition within :: "'it ushard_iterator \<Rightarrow> bytes \<Rightarrow> bool" where
  "within u K \<longleftrightarrow> kb_size (ui_max_key u) = 0 \<or> K \<le> kb_view (ui_max_key u)"

definition bounded :: "'it ushard_iterator \<Rightarrow> item list \<Rightarrow> item list" where
  "bounded u xs = filter (\<lambda>i. within u (it_key i)) xs"

text \<open>What is left of the streams when all versions of \<open>K\<close> are behind.\<close>

definition left_of :: "bytes \<Rightarrow> item list list \<Rightarrow> item list list" where
  "left_of K Ls = filter (\<lambda>L. L \<noteq> []) (map (drop_key K) Ls)"

lemma mset_left_of: "mset Ls = mset Ms \<Longrightarrow> mset (left_of K Ls) = mset (left_of K Ms)"
  by (simp add: left_of_def mset_filter)

lemma left_of_nonempty: "left_of K (filter (\<lambda>L. L \<noteq> []) Ls) = left_of K Ls"
  by (induction Ls) (auto simp: left_of_def drop_key_def)

lemma left_of_tl: "it_key (hd L) = K \<Longrightarrow> L \<noteq> [] \<Longrightarrow> left_of K (As @ [tl L]) = left_of K (As @ [L])"
  by (cases L) (auto simp: left_of_def drop_key_def)

lemma left_of_above:
  "\<forall>M \<in> set Ms. M \<noteq> [] \<and> record_stream M \<and> K < it_key (hd M) \<Longrightarrow> left_of K Ms = Ms"
proof (induction Ms)
  case (Cons M Ms)
  then obtain x xs where "M = x # xs" by (cases M) auto
  with Cons show ?case using drop_key_above [of x xs K] by (simp add: left_of_def)
qed (simp add: left_of_def)

lemma record_stream_drop_key:
  "record_stream L \<Longrightarrow> L \<noteq> [] \<longrightarrow> K \<le> it_key (hd L) \<Longrightarrow> record_stream (drop_key K L)"
proof (induction L)
  case (Cons x xs)
  have xs: "record_stream xs" using Cons.prems(1) by (simp add: record_stream_Cons)
  show ?case
  proof (cases "it_key x = K")
    case True
    moreover have "xs \<noteq> [] \<longrightarrow> K \<le> it_key (hd xs)"
      using record_stream_head [OF Cons.prems(1)] True by auto
    ultimately show ?thesis using Cons.IH [OF xs] by (simp add: drop_key_def)
  next
    case False
    then show ?thesis using drop_key_above [OF Cons.prems(1), of K] Cons.prems by simp
  qed
qed (simp add: drop_key_def)

lemma record_stream_tl: "record_stream L \<Longrightarrow> record_stream (tl L)"
  by (cases L) (auto simp: record_stream_Cons)

lemma mset_sum_length: "mset Ms = mset Ls \<Longrightarrow> sum_list (map length Ms) = sum_list (map length Ls)"
  by (metis mset_map sum_mset_sum_list)

lemma merged_left_of: "merged (left_of K Ls) = merged (map (drop_key K) Ls)"
  by (simp add: left_of_def)

lemma set_merged: "set (merged Ls) \<subseteq> set (concat Ls)"
proof -
  have "set (newest K Ls) \<subseteq> set (concat Ls)" for K
  proof (cases "rivals K Ls = []")
    case True
    then show ?thesis by (simp add: newest_def pick_newest_def)
  next
    case False
    then have "newest K Ls \<in> set (rivals K Ls)" using pick_newest_max unfolding newest_def by blast
    then show ?thesis by (auto simp: rivals_def part_def)
  qed
  then show ?thesis unfolding merged_def by fastforce
qed

text \<open>The merged stream from the back of ordered elements on.\<close>

lemma bounded_merged:
  fixes u :: "'it ushard_iterator"
  assumes "in_order Ls" "Ls \<noteq> []" "\<forall>L \<in> set Ls. L \<noteq> [] \<and> record_stream L" "idx_distinct Ls"
    and K: "K = it_key (hd (last Ls))"
  shows "bounded u (merged Ls)
    = (if within u K then part K (last Ls) @ bounded u (merged (left_of K Ls)) else [])"
    "part K (last Ls) \<noteq> []"
proof -
  have "K \<le> it_key i" if "i \<in> set (concat Ls)" for i
  proof -
    from that obtain M where M: "M \<in> set Ls" "i \<in> set M" by auto
    then have "it_key (hd M) \<le> it_key i" using assms(3) record_stream_hd_le by blast
    moreover have "K \<le> it_key (hd M)" using last_in_order [OF assms(1,2) M(1)] K by auto
    ultimately show ?thesis by simp
  qed
  then have "bounded u (merged Ls) = []" if "\<not> within u K"
    using that set_merged [of Ls] by (fastforce simp: bounded_def within_def filter_empty_conv)
  moreover have "bounded u (part K L) = part K L" if "within u K" for L
    using that by (auto simp: bounded_def part_def intro: filter_cong)
  ultimately show "bounded u (merged Ls)
    = (if within u K then part K (last Ls) @ bounded u (merged (left_of K Ls)) else [])"
    using newest_last [OF assms(1-4)] K by (simp add: bounded_def merged_left_of)
  have "last Ls \<noteq> []" using assms(2,3) by simp
  then show "part K (last Ls) \<noteq> []" using K by (cases "last Ls") (auto simp: part_def)
qed

text \<open>Sources that start beyond the bound do not matter.\<close>

lemma filter_sorted_list_of_set:
  "finite A \<Longrightarrow> filter P (sorted_list_of_set A) = sorted_list_of_set {x \<in> A. P x}"
  by (rule sorted_distinct_set_unique) (auto simp: sorted_wrt_filter)

lemma merged_bound:
  "filter (\<lambda>i. P (it_key i)) (merged Ls) = concat (map (\<lambda>K. newest K Ls) (filter P (stream_keys Ls)))"
proof -
  have "filter (\<lambda>i. P (it_key i)) (newest K Ls) = (if P K then newest K Ls else [])" for K
  proof -
    have "\<forall>i \<in> set (newest K Ls). it_key i = K"
    proof (cases "rivals K Ls = []")
      case False
      then have "newest K Ls \<in> set (rivals K Ls)" using pick_newest_max unfolding newest_def by blast
      then show ?thesis by (auto simp: rivals_def part_def)
    qed (simp add: newest_def pick_newest_def)
    then show ?thesis by (auto simp: filter_empty_conv intro: filter_True)
  qed
  then have "filter (\<lambda>i. P (it_key i)) (concat (map (\<lambda>K. newest K Ls) ks))
      = concat (map (\<lambda>K. newest K Ls) (filter P ks))" for ks
    by (induction ks) simp_all
  then show ?thesis by (simp add: merged_def)
qed

lemma merged_drop_sources:
  assumes "\<forall>L \<in> set Ls. \<not> Q L \<longrightarrow> (\<forall>i \<in> set L. \<not> P (it_key i))"
  shows "filter (\<lambda>i. P (it_key i)) (merged (filter Q Ls)) = filter (\<lambda>i. P (it_key i)) (merged Ls)"
proof -
  have "rivals K (filter Q Ls) = rivals K Ls" if "P K" for K
    using assms that by (induction Ls) (auto simp: rivals_def part_def filter_empty_conv)
  moreover have "filter P (stream_keys (filter Q Ls)) = filter P (stream_keys Ls)"
    unfolding stream_keys_def filter_sorted_list_of_set [OF finite_imageI [OF finite_set]]
    using assms by (intro arg_cong [of _ _ sorted_list_of_set]) (auto intro!: image_eqI)
  ultimately show ?thesis
    unfolding merged_bound by (auto simp: newest_def intro!: arg_cong [of _ _ concat])
qed

lemma idx_distinct_filter: "idx_distinct Ls \<Longrightarrow> idx_distinct (filter Q Ls)"
proof -
  have "rivals K (filter Q Ls) = filter (\<lambda>p. p \<noteq> []) (map (part K) (filter Q Ls))" for K by (simp add: rivals_def)
  have "distinct (map f (rivals K Ls)) \<Longrightarrow> distinct (map f (rivals K (filter Q Ls)))
      \<and> set (rivals K (filter Q Ls)) \<subseteq> set (rivals K Ls)" for f :: "item list \<Rightarrow> u64" and K
    by (induction Ls) (auto simp: rivals_def)
  then show "idx_distinct Ls \<Longrightarrow> ?thesis" by (simp add: idx_distinct_def)
qed

section \<open>The contract of an iterator\<close>

text \<open>An iterator before its first \<open>next\<close>, and a slice before its iterator is made.\<close>

definition source ::
  "('it \<Rightarrow> (bool \<times> 'it) res) \<Rightarrow> ('it \<Rightarrow> item list \<Rightarrow> bool) \<Rightarrow> 'it \<Rightarrow> item list \<Rightarrow> bool" where
  "source step stream it xs \<longleftrightarrow>
     (\<exists>it'. step it = Inr (xs \<noteq> [], it') \<and> (xs \<noteq> [] \<longrightarrow> stream it' xs))"

definition opens ::
  "('sl \<Rightarrow> 'it option res) \<Rightarrow> ('it \<Rightarrow> (bool \<times> 'it) res) \<Rightarrow> ('it \<Rightarrow> item list \<Rightarrow> bool) \<Rightarrow> 'sl \<Rightarrow> item list \<Rightarrow> bool" where
  "opens open_slice step stream s xs \<longleftrightarrow>
     (open_slice s = Inr None \<and> xs = []) \<or> (\<exists>it. open_slice s = Inr (Some it) \<and> source step stream it xs)"

text \<open>\<open>stream it xs\<close>: the iterator stands on the first item of \<open>xs\<close> and runs through the rest.\<close>

locale item_iterator =
  fixes step :: "'it \<Rightarrow> (bool \<times> 'it) res"
    and cur :: "'it \<Rightarrow> item res"
    and stream :: "'it \<Rightarrow> item list \<Rightarrow> bool"
  assumes stream_ne: "stream it xs \<Longrightarrow> xs \<noteq> []"
    and stream_cur: "stream it (x # xs) \<Longrightarrow> cur it = Inr x"
    and stream_step: "stream it (x # y # xs) \<Longrightarrow> \<exists>it'. step it = Inr (True, it') \<and> stream it' (y # xs)"
    and stream_end: "stream it [x] \<Longrightarrow> \<exists>it'. step it = Inr (False, it')"
begin

lemma drain_stream: "stream it (x # xs) \<Longrightarrow> length xs < m \<Longrightarrow> drain step cur m it = Inr xs"
proof (induction m arbitrary: it x xs)
  case (Suc m)
  show ?case
  proof (cases xs)
    case Nil
    with Suc.prems stream_end show ?thesis by fastforce
  next
    case (Cons y ys)
    then obtain it' where "step it = Inr (True, it')" "stream it' (y # ys)"
      using Suc.prems stream_step by blast
    with Suc.IH [of it' y ys] Suc.prems(2) stream_cur Cons show ?thesis by simp
  qed
qed simp

text \<open>What \<open>next\<close> does at the head of a stream.\<close>

lemma step_stream:
  assumes "stream it L"
  obtains it' where "step it = Inr (tl L \<noteq> [], it')" "tl L \<noteq> [] \<longrightarrow> stream it' (tl L)" "L \<noteq> []"
proof -
  obtain x xs where L: "L = x # xs" using stream_ne [OF assms] by (cases L) auto
  show thesis
  proof (cases xs)
    case Nil
    with assms L obtain it' where "step it = Inr (False, it')" using stream_end by blast
    with L Nil show thesis by (intro that) auto
  next
    case (Cons y ys)
    with assms L obtain it' where "step it = Inr (True, it')" "stream it' (y # ys)" using stream_step by blast
    with L Cons show thesis by (intro that) auto
  qed
qed

lemma cur_stream: "stream it L \<Longrightarrow> cur it = Inr (hd L)"
  using stream_ne [of it L] stream_cur by (cases L) auto

lemma res_map_cur: "list_all2 stream es Ls \<Longrightarrow> res_map cur es = Inr (map hd Ls)"
  by (induction rule: list_all2_induct) (auto simp: cur_stream)

lemma streams_ne: "list_all2 stream es Ls \<Longrightarrow> L \<in> set Ls \<Longrightarrow> L \<noteq> []"
  by (induction rule: list_all2_induct) (auto dest: stream_ne)

definition rep :: "'it ushard_iterator \<Rightarrow> item list list \<Rightarrow> bool" where
  "rep u Ls \<longleftrightarrow> list_all2 stream (ui_elements u) Ls"

lemma rep_empty: "rep u Ls \<Longrightarrow> ui_elements u = [] \<longleftrightarrow> Ls = []"
  by (auto simp: rep_def)

lemma item_rep: "rep u Ls \<Longrightarrow> Ls \<noteq> [] \<Longrightarrow> ui_item cur u = Inr (hd (last Ls))"
proof -
  assume r: "rep u Ls" "Ls \<noteq> []"
  obtain As L where Ls: "Ls = As @ [L]" using r(2) by (metis append_butlast_last_id)
  obtain es e where "ui_elements u = es @ [e]" "stream e L"
    using r(1) by (auto simp: rep_def Ls list_all2_append2 list_all2_Cons2)
  then show ?thesis by (simp add: ui_item_def cur_stream Ls)
qed

lemma advance_last_rep:
  assumes "rep u (As @ [L])"
  obtains e where "ui_advance_last step u
      = Inr (tl L \<noteq> [], u\<lparr>ui_elements := butlast (ui_elements u) @ [e]\<rparr>)"
    "list_all2 stream (butlast (ui_elements u)) As" "tl L \<noteq> [] \<longrightarrow> stream e (tl L)"
proof -
  obtain es e0 where es: "ui_elements u = es @ [e0]" "list_all2 stream es As" "stream e0 L"
    using assms by (auto simp: rep_def list_all2_append2 list_all2_Cons2)
  from es(3) obtain e where "step e0 = Inr (tl L \<noteq> [], e)" "tl L \<noteq> [] \<longrightarrow> stream e (tl L)"
    by (rule step_stream)
  with es show thesis by (intro that [of e]) (auto simp: ui_advance_last_def)
qed

lemma advance_rep:
  assumes "rep u (As @ [L])" "in_order As"
  shows "\<exists>es Ms. ui_advance step cur u = Inr (Ms \<noteq> [], u\<lparr>ui_elements := es\<rparr>)
    \<and> list_all2 stream es Ms \<and> in_order Ms \<and> mset Ms = mset (filter (\<lambda>L. L \<noteq> []) (As @ [tl L]))"
proof -
  obtain e where e: "ui_advance_last step u
      = Inr (tl L \<noteq> [], u\<lparr>ui_elements := butlast (ui_elements u) @ [e]\<rparr>)"
    and as: "list_all2 stream (butlast (ui_elements u)) As" and t: "tl L \<noteq> [] \<longrightarrow> stream e (tl L)"
    by (rule advance_last_rep [OF assms(1)])
  let ?es = "butlast (ui_elements u)"
  have len: "length ?es = length As" using as by (rule list_all2_lengthD)
  have ne: "filter (\<lambda>L. L \<noteq> []) As = As" using streams_ne [OF as] by (simp add: filter_id_conv)
  show ?thesis
  proof (cases "tl L = []")
    case True
    have "(?es \<noteq> []) = (As \<noteq> [])" using len by (metis length_0_conv)
    with True show ?thesis using e as assms(2) ne
      by (intro exI [of _ ?es] exI [of _ As]) (simp add: ui_advance_def)
  next
    case False
    define n where "n = length (takeWhile (\<lambda>A. item_before (hd A) (hd (tl L))) As)"
    let ?Ms = "take n As @ [tl L] @ drop n As"
    have all: "list_all2 stream (?es @ [e]) (As @ [tl L])" using as t False by (simp add: list_all2_appendI)
    have n: "lower_bound_before (map hd (As @ [tl L])) (last (map hd (As @ [tl L]))) = n"
    proof -
      have "\<not> item_before (hd (tl L)) (hd (tl L))" by (simp add: item_before_iff)
      then show ?thesis by (simp add: lower_bound_before_def n_def takeWhile_map o_def takeWhile_tail)
    qed
    have le: "n \<le> length As" by (simp add: n_def length_takeWhile_le)
    have es: "take n (?es @ [e]) @ [e] @ drop n ?es = take n ?es @ [e] @ drop n ?es" using le len by simp
    have "ui_advance step cur u = Inr (True, u\<lparr>ui_elements := take n ?es @ [e] @ drop n ?es\<rparr>)"
      using e False res_map_cur [OF all] n le len
      by (simp add: ui_advance_def Let_def es [simplified])
    moreover have "list_all2 stream (take n ?es @ [e] @ drop n ?es) ?Ms"
      using as t False by (intro list_all2_appendI list_all2_takeI list_all2_dropI) auto
    moreover have "mset ?Ms = mset (As @ [tl L])"
      using mset_append [of "take n As" "drop n As"] by simp
    ultimately show ?thesis
      using insert_in_order [OF assms(2) n_def] False ne by (intro exI conjI) auto
  qed
qed

lemma out_of_bounds_rep:
  "rep u Ls \<Longrightarrow> Ls \<noteq> [] \<Longrightarrow> ui_is_out_of_bounds cur u = Inr (\<not> within u (it_key (hd (last Ls))))"
  by (simp add: ui_is_out_of_bounds_def within_def item_rep not_le)

lemma skip_rep:
  "rep u (As @ [L]) \<Longrightarrow> in_order As \<Longrightarrow> \<forall>M \<in> set (As @ [L]). record_stream M \<and> K \<le> it_key (hd M) \<Longrightarrow>
    kb_inv (ui_last_key u) \<Longrightarrow> kb_view (ui_last_key u) = K \<Longrightarrow> it_key (hd L) = K \<Longrightarrow> within u K \<Longrightarrow>
    sum_list (map length (As @ [L])) \<le> k \<Longrightarrow>
    \<exists>more es lk Ms. ui_skip step cur k u = Inr (more, u\<lparr>ui_elements := es, ui_last_key := lk\<rparr>)
      \<and> mset Ms = mset (left_of K (As @ [L])) \<and> in_order Ms
      \<and> more = (Ms \<noteq> [] \<and> within u (it_key (hd (last Ms))))
      \<and> (if more then list_all2 stream es Ms \<and> kb_inv lk \<and> kb_view lk = it_key (hd (last Ms)) else es = [])"
proof (induction k arbitrary: u As L)
  case 0
  have "L \<noteq> []" using streams_ne 0(1) by (metis rep_def in_set_conv_decomp)
  then show ?case using 0(8) by simp
next
  case (Suc k)
  have ne: "\<forall>M \<in> set (As @ [L]). M \<noteq> []" using streams_ne Suc.prems(1) unfolding rep_def by blast
  obtain es Ms where adv: "ui_advance step cur u = Inr (Ms \<noteq> [], u\<lparr>ui_elements := es\<rparr>)"
    and es: "list_all2 stream es Ms" and ord: "in_order Ms"
    and ms: "mset Ms = mset (filter (\<lambda>L. L \<noteq> []) (As @ [tl L]))"
    using advance_rep [OF Suc.prems(1,2)] by blast
  let ?u = "u\<lparr>ui_elements := es\<rparr>"
  have left: "mset (left_of K Ms) = mset (left_of K (As @ [L]))"
    using mset_left_of [OF ms, of K] left_of_tl [OF Suc.prems(6)] ne
    unfolding left_of_nonempty by (metis in_set_conv_decomp)
  show ?case
  proof (cases "Ms = []")
    case True
    then have "es = []" using es by simp
    with adv True left ord show ?thesis
      by (intro exI [of _ False] exI [of _ "[]"] exI [of _ "ui_last_key u"] exI [of _ "[]"]) (simp add: left_of_def)
  next
    case False
    let ?B = "last Ms"
    have "set Ms = set (filter (\<lambda>L. L \<noteq> []) (As @ [tl L]))" using ms by (metis set_mset_mset)
    then have sub: "M \<in> set Ms \<Longrightarrow> M \<noteq> [] \<and> (M \<in> set As \<or> M = tl L)" for M
      by (auto split: if_splits)
    have L: "L = hd L # tl L" using ne by simp
    have rs: "record_stream M \<and> K \<le> it_key (hd M)" if "M \<in> set Ms" for M
      using sub [OF that] Suc.prems(3) record_stream_tl [of L] record_stream_head [of "hd L" "tl L"] L Suc.prems(6)
      by (auto simp: hd_in_set)
    have r: "rep ?u Ms" using es by (simp add: rep_def)
    have B: "?B \<in> set Ms" using False by simp
    note out = out_of_bounds_rep [OF r False] and it = item_rep [OF r False]
    show ?thesis
    proof (cases "it_key (hd ?B) = K")
      case True
      obtain As' where Ms: "Ms = As' @ [?B]" using False by (metis append_butlast_last_id)
      have "in_order As'" using ord by (metis Ms in_order_def sorted_wrt_append)
      moreover have "\<forall>M \<in> set (As' @ [?B]). record_stream M \<and> K \<le> it_key (hd M)" using rs Ms by metis
      moreover have "sum_list (map length (As' @ [?B])) \<le> k"
      proof -
        have "sum_list (map length Ms) = sum_list (map length (filter (\<lambda>L. L \<noteq> []) (As @ [tl L])))"
          using ms by (rule mset_sum_length)
        also have "\<dots> = sum_list (map length (As @ [tl L]))"
          by (rule sum_list_map_filter) auto
        also have "\<dots> < sum_list (map length (As @ [L]))" using ne by simp
        finally show ?thesis using Suc.prems(8) Ms by simp
      qed
      moreover have "rep ?u (As' @ [?B])" "kb_inv (ui_last_key ?u)" "kb_view (ui_last_key ?u) = K"
        "within ?u = within u"
        using r Ms Suc.prems(4,5) by (simp_all add: within_def fun_eq_iff)
      ultimately obtain more es' lk Ns where "ui_skip step cur k ?u = Inr (more, ?u\<lparr>ui_elements := es', ui_last_key := lk\<rparr>)"
        "mset Ns = mset (left_of K (As' @ [?B]))" "in_order Ns"
        "more = (Ns \<noteq> [] \<and> within u (it_key (hd (last Ns))))"
        "if more then list_all2 stream es' Ns \<and> kb_inv lk \<and> kb_view lk = it_key (hd (last Ns)) else es' = []"
        using Suc.IH [of ?u As' ?B] True Suc.prems(7) by metis
      moreover have "ui_skip step cur (Suc k) u = ui_skip step cur k ?u"
        using adv out it False True Suc.prems(5,7) \<open>within ?u = within u\<close> by simp
      ultimately show ?thesis
        using left Ms by (intro exI [of _ more] exI [of _ es'] exI [of _ lk] exI [of _ Ns]) simp
    next
      case other: False
      then have "K < it_key (hd ?B)" using rs [OF B] by (metis order_less_le)
      moreover have "it_key (hd ?B) \<le> it_key (hd M)" if "M \<in> set Ms" for M
        using last_in_order [OF ord False that] by auto
      ultimately have "left_of K Ms = Ms" using rs sub by (intro left_of_above) force
      then have ms': "mset Ms = mset (left_of K (As @ [L]))" using left by simp
      show ?thesis
      proof (cases "within u (it_key (hd ?B))")
        case True
        have "hd ?B \<in> set ?B" using sub [OF B] by simp
        then have "length (it_key (hd ?B)) \<le> max_key_size" using rs [OF B] record_stream_keys by blast
        then obtain lk where "kb_assign (it_key (hd ?B)) (ui_last_key u) = Inr lk" "kb_inv lk" "kb_view lk = it_key (hd ?B)"
          by (rule kb_assign_Inr [OF Suc.prems(4)])
        with True other adv out it False ms' ord es Suc.prems(5) show ?thesis
          by (intro exI [of _ True] exI [of _ es] exI [of _ lk] exI [of _ Ms]) (simp add: within_def)
      next
        case False
        with \<open>Ms \<noteq> []\<close> adv out ms' ord show ?thesis
          by (intro exI [of _ False] exI [of _ "[]"] exI [of _ "ui_last_key u"] exI [of _ Ms]) (simp add: within_def)
      qed
    qed
  qed
qed

definition ui_stream :: "nat \<Rightarrow> 'it ushard_iterator \<Rightarrow> item list \<Rightarrow> bool" where
  "ui_stream k u xs \<longleftrightarrow> (\<exists>As L K. rep u (As @ [L]) \<and> in_order As \<and> K = it_key (hd L)
     \<and> (\<forall>M \<in> set (As @ [L]). record_stream M \<and> K \<le> it_key (hd M))
     \<and> kb_inv (ui_last_key u) \<and> kb_view (ui_last_key u) = K \<and> within u K
     \<and> sum_list (map length (As @ [L])) \<le> k \<and> idx_distinct (left_of K (As @ [L]))
     \<and> xs = part K L @ bounded u (merged (left_of K (As @ [L]))))"

text \<open>Elements in order are a stream once the key at the back is taken down.\<close>

lemma ui_streamI:
  assumes "rep u Ms" "in_order Ms" "Ms \<noteq> []" "\<forall>M \<in> set Ms. M \<noteq> [] \<and> record_stream M" "idx_distinct Ms"
    and "kb_inv (ui_last_key u)" "kb_view (ui_last_key u) = it_key (hd (last Ms))"
    and "within u (it_key (hd (last Ms)))" "sum_list (map length Ms) \<le> k"
  shows "ui_stream k u (bounded u (merged Ms))"
proof -
  obtain As L where Ms: "Ms = As @ [L]" using assms(3) by (metis append_butlast_last_id)
  have "in_order As" using assms(2) by (simp add: Ms in_order_def sorted_wrt_append)
  moreover have "\<forall>M \<in> set Ms. it_key (hd L) \<le> it_key (hd M)"
    using last_in_order [OF assms(2,3)] unfolding Ms last_snoc by (metis less_imp_le order_eq_iff)
  moreover have "idx_distinct (left_of (it_key (hd L)) Ms)"
    by (simp add: left_of_def idx_distinct_drop_key assms(5))
  moreover have "bounded u (merged Ms) = part (it_key (hd L)) L @ bounded u (merged (left_of (it_key (hd L)) Ms))"
    using bounded_merged(1) [OF assms(2-5) refl, of u] assms(8) Ms by simp
  ultimately show ?thesis
    unfolding ui_stream_def using assms Ms by (intro exI [of _ As] exI [of _ L] exI [of _ "it_key (hd L)"]) simp
qed

lemma left_of_props:
  assumes "mset Ms = mset (left_of K Ls)" "\<forall>L \<in> set Ls. record_stream L" "idx_distinct (left_of K Ls)"
    "\<forall>L \<in> set Ls. L \<noteq> [] \<longrightarrow> K \<le> it_key (hd L)"
  shows "\<forall>M \<in> set Ms. M \<noteq> [] \<and> record_stream M" "idx_distinct Ms" "merged Ms = merged (left_of K Ls)"
    "sum_list (map length Ms) \<le> sum_list (map length Ls)"
proof -
  have "set Ms = set (left_of K Ls)" using assms(1) by (metis set_mset_mset)
  moreover have "record_stream (drop_key K L)" if "L \<in> set Ls" for L
    using record_stream_drop_key [of L K] assms(2,4) that by (cases "L = []") (auto simp: drop_key_def)
  ultimately show "\<forall>M \<in> set Ms. M \<noteq> [] \<and> record_stream M" by (auto simp: left_of_def)
  show "idx_distinct Ms" "merged Ms = merged (left_of K Ls)"
    using mset_same [OF assms(1) [symmetric] assms(3)] by simp_all
  have "sum_list (map length Ms) = sum_list (map length (left_of K Ls))"
    using assms(1) by (rule mset_sum_length)
  also have "\<dots> = sum_list (map length (map (drop_key K) Ls))"
    unfolding left_of_def by (rule sum_list_map_filter) auto
  also have "\<dots> \<le> sum_list (map length Ls)"
    by (simp add: o_def drop_key_def sum_list_mono)
  finally show "sum_list (map length Ms) \<le> sum_list (map length Ls)" .
qed

lemma next_rep:
  assumes "ui_stream k u (x # xs)"
  shows "ui_item cur u = Inr x \<and> (\<exists>u'. ui_next step cur k u = Inr (xs \<noteq> [], u') \<and> (xs \<noteq> [] \<longrightarrow> ui_stream k u' xs))"
proof -
  obtain As L K where r: "rep u (As @ [L])" and ord: "in_order As" and K: "K = it_key (hd L)"
    and rs: "\<forall>M \<in> set (As @ [L]). record_stream M \<and> K \<le> it_key (hd M)"
    and lk: "kb_inv (ui_last_key u)" "kb_view (ui_last_key u) = K" and w: "within u K"
    and le: "sum_list (map length (As @ [L])) \<le> k" and d: "idx_distinct (left_of K (As @ [L]))"
    and xs: "x # xs = part K L @ bounded u (merged (left_of K (As @ [L])))"
    using assms unfolding ui_stream_def by blast
  have ne: "\<forall>M \<in> set (As @ [L]). M \<noteq> []" using streams_ne r unfolding rep_def by blast
  obtain y ys where L: "L = y # ys" using ne by (cases L) auto
  have part: "part K L = y # part K ys" using K L by (simp add: part_def)
  have x: "x = y" and it: "ui_item cur u = Inr y" using xs part item_rep [OF r] L by simp_all
  have "y \<in> set L" by (simp add: L)
  then have "K \<noteq> []" using record_stream_keys [of L y] rs K L by simp
  then have sz: "kb_size (ui_last_key u) \<noteq> 0" using lk by (auto simp: kb_view_def)
  have el: "ui_elements u \<noteq> []" using rep_empty [OF r] by simp
  show ?thesis
  proof (cases "it_eor y")
    case False
    then obtain z zs where ys: "ys = z # zs" "it_key z = K"
      using record_stream_more [of y ys] rs L K by auto
    obtain e where e: "ui_advance_last step u = Inr (True, u\<lparr>ui_elements := butlast (ui_elements u) @ [e]\<rparr>)"
      and as: "list_all2 stream (butlast (ui_elements u)) As" and t: "stream e ys"
      using advance_last_rep [OF r] L ys by auto
    let ?u = "u\<lparr>ui_elements := butlast (ui_elements u) @ [e]\<rparr>"
    have left: "left_of K (As @ [ys]) = left_of K (As @ [L])" using left_of_tl [of L K As] L K by simp
    have rs': "record_stream ys" using rs L record_stream_tl [of L] by simp
    have "ui_stream k ?u xs"
      unfolding ui_stream_def
    proof (intro exI conjI)
      show "rep ?u (As @ [ys])" using as t by (simp add: rep_def list_all2_appendI)
      show "xs = part K ys @ bounded ?u (merged (left_of K (As @ [ys])))"
        using xs part left by (simp add: bounded_def within_def)
    qed (use ord ys rs rs' lk w le d left L in \<open>auto simp: within_def\<close>)
    moreover have "ui_next step cur k u = Inr (True, ?u)"
      using el sz it False e by (simp add: ui_next_def)
    moreover have "xs \<noteq> []" using xs part ys by (auto simp: part_def)
    ultimately show ?thesis using x it by auto
  next
    case True
    have "record_stream (y # ys)" using rs L by simp
    then have "part K ys = []" using record_stream_head [of y ys] True K L by (auto simp: part_def filter_empty_conv)
    then have xs': "xs = bounded u (merged (left_of K (As @ [L])))" using xs part by simp
    obtain more es lk' Ms where sk: "ui_skip step cur k u = Inr (more, u\<lparr>ui_elements := es, ui_last_key := lk'\<rparr>)"
      and ms: "mset Ms = mset (left_of K (As @ [L]))" "in_order Ms"
      and more: "more = (Ms \<noteq> [] \<and> within u (it_key (hd (last Ms))))"
      and ok: "if more then list_all2 stream es Ms \<and> kb_inv lk' \<and> kb_view lk' = it_key (hd (last Ms)) else es = []"
      using skip_rep [OF r ord rs lk _ w le] K by blast
    have nx: "ui_next step cur k u = ui_skip step cur k u" using el sz it True by (simp add: ui_next_def)
    note p = left_of_props [OF ms(1) _ d]
    have p: "\<forall>M \<in> set Ms. M \<noteq> [] \<and> record_stream M" "idx_distinct Ms" "merged Ms = merged (left_of K (As @ [L]))"
      "sum_list (map length Ms) \<le> k"
      using left_of_props [OF ms(1) _ d] rs le by auto
    have xs'': "xs = bounded u (merged Ms)" using xs' p(3) by simp
    show ?thesis
    proof (cases more)
      case m: True
      then have "xs \<noteq> []"
        using bounded_merged(1) [OF ms(2) _ p(1,2) refl, of u] bounded_merged(2) [OF ms(2) _ p(1,2) refl] more xs''
        by simp
      moreover have "ui_stream k (u\<lparr>ui_elements := es, ui_last_key := lk'\<rparr>) xs"
        using ui_streamI [where u = "u\<lparr>ui_elements := es, ui_last_key := lk'\<rparr>" and Ms = Ms and k = k] m ok more ms(2) p xs''
        by (simp add: rep_def within_def bounded_def)
      ultimately show ?thesis using nx sk m x it by simp
    next
      case False
      then have "xs = []"
        using bounded_merged(1) [OF ms(2) _ p(1,2) refl, of u] more xs''
        by (cases "Ms = []") (auto simp: merged_empty bounded_def)
      then show ?thesis using nx sk False x it by simp
    qed
  qed
qed

lemma drain_source: "source step stream it xs \<Longrightarrow> length xs < m \<Longrightarrow> drain step cur m it = Inr xs"
proof -
  assume a: "source step stream it xs" "length xs < m"
  then obtain m' where m: "m = Suc m'" "length xs \<le> m'" by (cases m) auto
  from a(1) obtain it' where it': "step it = Inr (xs \<noteq> [], it')" "xs \<noteq> [] \<longrightarrow> stream it' xs"
    by (auto simp: source_def)
  show ?thesis
  proof (cases xs)
    case (Cons y ys)
    with it' m drain_stream [of it' y ys m'] stream_cur show ?thesis by simp
  qed (use it' m in simp)
qed

lemma ui_iterator: "item_iterator (ui_next step cur k) (ui_item cur) (ui_stream k)"
proof (unfold_locales, goal_cases)
  case (1 u xs)
  then obtain As L K where "rep u (As @ [L])" "xs = part K L @ bounded u (merged (left_of K (As @ [L])))" "K = it_key (hd L)"
    unfolding ui_stream_def by blast
  moreover have "L \<noteq> []" using calculation(1) streams_ne by (metis in_set_conv_decomp rep_def)
  ultimately show ?case by (cases L) (auto simp: part_def)
next
  case (2 u x xs)
  then show ?case using next_rep by blast
next
  case (3 u x y xs)
  then show ?case using next_rep [OF 3] by simp
next
  case (4 u x)
  then show ?case using next_rep [OF 4] by simp
qed

lemma ui_source:
  assumes "rep u Ls" "\<forall>L \<in> set Ls. record_stream L" "idx_distinct Ls"
    and "kb_inv (ui_last_key u)" "kb_size (ui_last_key u) = 0" "sum_list (map length Ls) \<le> k"
  shows "source (ui_next step cur k) (ui_stream k) u (bounded u (merged Ls))"
proof (cases "Ls = []")
  case True
  then have "ui_elements u = []" using rep_empty assms(1) by simp
  then show ?thesis using True by (simp add: source_def ui_next_def merged_empty bounded_def)
next
  case False
  have el: "ui_elements u \<noteq> []" using rep_empty assms(1) False by simp
  have r: "list_all2 stream (ui_elements u) Ls" using assms(1) by (simp add: rep_def)
  let ?es = "map fst (foldr place (zip (ui_elements u) (map hd Ls)) [])"
  obtain Ms where ms: "list_all2 stream ?es Ms" "mset Ms = mset Ls" "in_order Ms"
    using sort_rep [OF r] by blast
  have sort: "sort_elements cur (ui_elements u) = Inr ?es"
    using res_map_cur [OF r] by (simp add: sort_elements_def)
  have ne: "Ms \<noteq> []" using ms(2) False by auto
  have "set Ms = set Ls" using ms(2) by (metis set_mset_mset)
  then have rs: "\<forall>M \<in> set Ms. M \<noteq> [] \<and> record_stream M" using assms(2) streams_ne [OF r] by auto
  have d: "idx_distinct Ms" "merged Ms = merged Ls"
    using mset_same [OF ms(2) [symmetric] assms(3)] by simp_all
  let ?K = "it_key (hd (last Ms))" and ?u1 = "u\<lparr>ui_elements := ?es\<rparr>"
  have r1: "rep ?u1 Ms" using ms(1) by (simp add: rep_def)
  have "last Ms \<in> set Ms" "last Ms \<noteq> []" using ne rs by auto
  then have "length ?K \<le> max_key_size" using record_stream_keys rs by (metis hd_in_set)
  then obtain lk where lk: "kb_assign ?K (ui_last_key u) = Inr lk" "kb_inv lk" "kb_view lk = ?K"
    by (rule kb_assign_Inr [OF assms(4)])
  let ?u2 = "?u1\<lparr>ui_last_key := lk\<rparr>"
  have r2: "rep ?u2 Ms" using ms(1) by (simp add: rep_def)
  have w: "within ?u2 = within u" "bounded ?u2 = bounded u"
    by (simp_all add: within_def bounded_def fun_eq_iff)
  have nx: "ui_next step cur k u
      = (if within u ?K then Inr (True, ?u2) else Inr (False, ?u2\<lparr>ui_elements := []\<rparr>))"
    using el assms(5) sort item_rep [OF r1 ne] lk(1) out_of_bounds_rep [OF r2 ne] w
    by (simp add: ui_next_def Let_def)
  note b = bounded_merged(1) [OF ms(3) ne rs d(1) refl, of u] bounded_merged(2) [OF ms(3) ne rs d(1) refl]
  have len: "sum_list (map length Ms) \<le> k" using mset_sum_length [OF ms(2)] assms(6) by simp
  show ?thesis
  proof (cases "within u ?K")
    case True
    have "ui_stream k ?u2 (bounded ?u2 (merged Ms))"
      using lk w True len by (intro ui_streamI [OF r2 ms(3) ne rs d(1)]) simp_all
    moreover have "bounded u (merged Ls) \<noteq> []" using b True d(2) by simp
    ultimately show ?thesis using nx True w d(2) by (simp add: source_def)
  next
    case False
    then have "bounded u (merged Ls) = []" using b(1) d(2) by simp
    then show ?thesis using nx False by (simp add: source_def)
  qed
qed

lemma open_rep:
  "list_all2 (opens open_slice step stream) ss Ls \<Longrightarrow> (\<And>it L. stream it L \<Longrightarrow> keep it = Inr (Q L)) \<Longrightarrow>
    \<exists>es. ui_open open_slice step keep ss = Inr es \<and> list_all2 stream es (filter (\<lambda>L. L \<noteq> [] \<and> Q L) Ls)"
proof (induction rule: list_all2_induct)
  case (Cons s ss L Ls)
  then obtain es where es: "ui_open open_slice step keep ss = Inr es"
    "list_all2 stream es (filter (\<lambda>L. L \<noteq> [] \<and> Q L) Ls)" by blast
  from Cons(1) show ?case
    unfolding opens_def source_def
  proof (elim disjE exE conjE)
    fix it it'
    assume o: "open_slice s = Inr (Some it)" "step it = Inr (L \<noteq> [], it')" "L \<noteq> [] \<longrightarrow> stream it' L"
    show ?thesis
    proof (cases "L \<noteq> [] \<and> Q L")
      case True
      with o es Cons(4) show ?thesis by (intro exI [of _ "it' # es"]) simp
    next
      case False
      with o es Cons(4) show ?thesis by (cases "L = []") auto
    qed
  qed (use es in simp)
qed simp

lemma begin_source:
  assumes "list_all2 (opens open_slice step stream) ss Ls" "\<forall>L \<in> set Ls. record_stream L" "idx_distinct Ls"
    and "sum_list (map length Ls) \<le> k"
  shows "\<exists>u. ui_make_begin open_slice step ss = Inr u
    \<and> source (ui_next step cur k) (ui_stream k) u (merged Ls)"
proof -
  let ?Ls = "filter (\<lambda>L. L \<noteq> []) Ls"
  obtain es where es: "ui_open open_slice step (\<lambda>_. Inr True) ss = Inr es" "list_all2 stream es ?Ls"
    using open_rep [OF assms(1), of "\<lambda>_. Inr True" "\<lambda>_. True"] by auto
  let ?u = "\<lparr>ui_elements = es, ui_max_key = key_buffer_init, ui_last_key = key_buffer_init\<rparr>"
  have b: "bounded ?u = id" by (simp add: fun_eq_iff bounded_def within_def key_buffer_init_def)
  have "sum_list (map length ?Ls) = sum_list (map length Ls)" by (rule sum_list_map_filter) auto
  then have "source (ui_next step cur k) (ui_stream k) ?u (bounded ?u (merged ?Ls))"
    using es assms by (intro ui_source) (auto simp: rep_def key_buffer_init_def kb_inv_def)
  then show ?thesis using es b by (simp add: ui_make_begin_def)
qed

lemma range_source:
  assumes "list_all2 (opens open_slice step stream) ss Ls" "\<forall>L \<in> set Ls. record_stream L" "idx_distinct Ls"
    and "sum_list (map length Ls) \<le> k" "length max_key \<le> max_key_size"
  shows "\<exists>u. ui_make_range open_slice step cur max_key ss = Inr u
    \<and> source (ui_next step cur k) (ui_stream k) u (filter (\<lambda>i. it_key i \<le> max_key) (merged Ls))"
proof -
  let ?Q = "\<lambda>L. L \<noteq> [] \<and> it_key (hd L) \<le> max_key"
  let ?Ls = "filter ?Q Ls"
  obtain es where es: "ui_open open_slice step
      (\<lambda>it. res_bind (cur it) (\<lambda>i. Inr (\<not> 0 < sv_compare (it_key i) max_key))) ss = Inr es" "list_all2 stream es ?Ls"
    using open_rep [OF assms(1), of "\<lambda>it. res_bind (cur it) (\<lambda>i. Inr (\<not> 0 < sv_compare (it_key i) max_key))"
        "\<lambda>L. it_key (hd L) \<le> max_key"] cur_stream by (auto simp: not_less)
  obtain mk where mk: "kb_assign max_key key_buffer_init = Inr mk" "kb_inv mk" "kb_view mk = max_key"
    by (rule kb_assign_Inr [OF kb_init_inv(1) assms(5)])
  let ?m = "if es \<noteq> [] then mk else key_buffer_init"
  let ?u = "\<lparr>ui_elements = es, ui_max_key = ?m, ui_last_key = key_buffer_init\<rparr>"
  have len: "sum_list (map length ?Ls) \<le> k"
  proof -
    have "sum_list (map length (filter ?Q Ls)) \<le> sum_list (map length Ls)" by (induction Ls) auto
    then show ?thesis using assms(4) by simp
  qed
  have src: "source (ui_next step cur k) (ui_stream k) ?u (bounded ?u (merged ?Ls))"
    using es(2) assms(2,3) len
    by (intro ui_source) (auto simp: rep_def key_buffer_init_def kb_inv_def intro: idx_distinct_filter)
  have far: "\<forall>L \<in> set Ls. \<not> ?Q L \<longrightarrow> (\<forall>i \<in> set L. \<not> it_key i \<le> max_key)"
    using assms(2) record_stream_hd_le by (metis empty_iff empty_set order_trans)
  have "bounded ?u (merged ?Ls) = filter (\<lambda>i. it_key i \<le> max_key) (merged ?Ls)"
  proof (cases "es = []")
    case True
    then have "?Ls = []" using es(2) by simp
    then show ?thesis unfolding \<open>?Ls = []\<close> by (simp add: merged_empty bounded_def)
  next
    case False
    then have "?Ls \<noteq> []" using es(2) by auto
    then obtain L where L: "L \<in> set Ls" "?Q L" by (auto simp: filter_empty_conv)
    then have "it_key (hd L) \<noteq> []" using assms(2) record_stream_keys hd_in_set by blast
    then have "max_key \<noteq> []" using L(2) by (cases "it_key (hd L)") auto
    then have "kb_size mk \<noteq> 0" using mk by (auto simp: kb_view_def)
    with False mk show ?thesis by (simp add: bounded_def within_def)
  qed
  also have "\<dots> = filter (\<lambda>i. it_key i \<le> max_key) (merged Ls)"
    by (rule merged_drop_sources [OF far])
  finally show ?thesis using src es(1) mk(1) by (auto simp: ui_make_range_def)
qed

end

end
