(* ===== verification/Ushard.thy ===== *)
theory Ushard
  imports Ushard_Iterator "HOL-Library.Sublist"
begin

text \<open>
  A ushard (\<open>tyrdbs/ushard.cpp\<close>) keeps its slices in tiers by size. A reader merges all of them; a
  merge replaces the slices of one tier by one slice, a compaction replaces all slices and forgets
  deleted records. Slices go on being added while a merge writes its result. \<open>slice_holds\<close> says what a slice
  contains; \<open>visible\<close> is what a reader of several slices finds under a key.
\<close>

section \<open>Slices as sources\<close>

text \<open>The element of a merging iterator: a slice and the iterator on it. \<open>ld\<close> is \<open>slice::load\<close>.\<close>

type_synonym element = "slice \<times> slice_iterator"

definition el_step :: "nat \<Rightarrow> (slice \<Rightarrow> u64 \<Rightarrow> node res) \<Rightarrow> element \<Rightarrow> (bool \<times> element) res" where
  "el_step k ld e = res_bind (si_next k (ld (fst e)) (snd e)) (\<lambda>(more, it). Inr (more, (fst e, it)))"

definition el_cur :: "element \<Rightarrow> item res" where
  "el_cur e = si_item (snd e)"

definition el_begin :: "(slice \<Rightarrow> u64 \<Rightarrow> node res) \<Rightarrow> slice \<Rightarrow> element option res" where
  "el_begin ld s = res_bind (slice_begin (ld s) s) (\<lambda>r. Inr (map_option (Pair s) r))"

definition el_range ::
  "nat \<Rightarrow> (slice \<Rightarrow> u64 \<Rightarrow> node res) \<Rightarrow> bytes \<Rightarrow> bytes \<Rightarrow> slice \<Rightarrow> element option res" where
  "el_range k ld min_key max_key s =
     res_bind (slice_range k (ld s) min_key max_key s) (\<lambda>r. Inr (map_option (Pair s) r))"

text \<open>\<open>slice_writer::add(iterator*, bool)\<close>.\<close>

fun sw_add_iterator ::
  "('it \<Rightarrow> (bool \<times> 'it) res) \<Rightarrow> ('it \<Rightarrow> item res) \<Rightarrow> (bytes \<Rightarrow> bytes option) \<Rightarrow> (bytes \<Rightarrow> u32) \<Rightarrow> nat \<Rightarrow> nat \<Rightarrow>
     bool \<Rightarrow> nat \<Rightarrow> 'it \<Rightarrow> slice_writer \<Rightarrow> slice_writer res" where
  "sw_add_iterator step cur compress crc depth k compact 0 it w = Inl Out_Of_Fuel"
| "sw_add_iterator step cur compress crc depth k compact (Suc m) it w =
     res_bind (step it) (\<lambda>(more, it').
       if \<not> more then Inr w
       else
         res_bind (cur it') (\<lambda>i.
           if compact \<and> it_deleted i then sw_add_iterator step cur compress crc depth k compact m it' w
           else
             res_bind (sw_add compress crc depth k (it_key i) (it_value i) (it_eor i) (it_deleted i) (it_idx i) w)
               (sw_add_iterator step cur compress crc depth k compact m it')))"

section \<open>Tiers\<close>

definition max_slices_per_tier :: nat where
  "max_slices_per_tier = 4"

text \<open>The calls of \<open>ushard::meta_callback\<close>; \<open>merge\<close> takes a \<open>uint16_t\<close>.\<close>

datatype meta_event = Slice_Added slice | Slices_Removed "slice list" | Merge_Wanted u16

text \<open>\<open>m_tier_map\<close>, in the order in which an iteration over it runs.\<close>

type_synonym tier_map = "(u32 \<times> slice list) list"

fun tm_put :: "u32 \<Rightarrow> slice list \<Rightarrow> tier_map \<Rightarrow> tier_map" where
  "tm_put t ss [] = [(t, ss)]"
| "tm_put t ss ((t', ss') # tm) = (if t' = t then (t, ss) # tm else (t', ss') # tm_put t ss tm)"

definition tm_slices :: "u32 \<Rightarrow> tier_map \<Rightarrow> slice list" where
  "tm_slices t tm = (case map_of tm t of None \<Rightarrow> [] | Some ss \<Rightarrow> ss)"

record ushard =
  us_tier_map :: tier_map
  us_dropped :: bool

definition ushard_init :: ushard where
  "ushard_init = \<lparr>us_tier_map = [], us_dropped = False\<rparr>"

text \<open>\<open>__builtin_clzll\<close> is undefined at 0.\<close>

definition clzll :: "u64 \<Rightarrow> nat" where
  "clzll x = length (takeWhile Not (bits_of 64 x))"

definition tier_of :: "slice \<Rightarrow> u32 res" where
  "tier_of s =
     (if sl_key_count s = 0 then Inl Undefined
      else Inr (drop_bit 2 (of_nat (64 - clzll (sl_key_count s)))))"

definition us_get_slices :: "ushard \<Rightarrow> slice list" where
  "us_get_slices u = concat (map snd (us_tier_map u))"

text \<open>\<open>m_tier_map[tier]\<close> adds an empty tier where there is none.\<close>

definition us_get_slices_for :: "u32 \<Rightarrow> ushard \<Rightarrow> slice list \<times> ushard" where
  "us_get_slices_for tier u =
     (let ss = tm_slices tier (us_tier_map u) in (ss, u\<lparr>us_tier_map := tm_put tier ss (us_tier_map u)\<rparr>))"

definition us_key_count :: "slice list \<Rightarrow> u64" where
  "us_key_count ss = sum_list (map sl_key_count ss)"

definition us_add :: "slice \<Rightarrow> bool \<Rightarrow> ushard \<Rightarrow> (ushard \<times> meta_event list) res" where
  "us_add s use_add_callback u =
     res_bind (tier_of s) (\<lambda>tier.
       let ss = tm_slices tier (us_tier_map u) @ [s] in
       Inr (u\<lparr>us_tier_map := tm_put tier ss (us_tier_map u)\<rparr>,
            (if use_add_callback then [Slice_Added s] else [])
            @ (if max_slices_per_tier < length ss then [Merge_Wanted (ucast tier)] else [])))"

definition us_remove_from :: "u32 \<Rightarrow> nat \<Rightarrow> ushard \<Rightarrow> (ushard \<times> meta_event list) res" where
  "us_remove_from tier n u =
     (let ss = tm_slices tier (us_tier_map u) in
      if length ss < n then Inl Undefined
      else
        Inr (u\<lparr>us_tier_map := tm_put tier (drop n ss) (us_tier_map u)\<rparr>,
             if max_slices_per_tier < length (drop n ss) then [Merge_Wanted (ucast tier)] else []))"

section \<open>Merging and compacting\<close>

text \<open>
  The new slice: a writer filled from the merging iterator. \<open>depth\<close> is the writer's fuel (\<open>Slice\<close>), \<open>k\<close>
  the reader's.
\<close>

definition us_build_writer ::
  "(bytes \<Rightarrow> bytes option) \<Rightarrow> (bytes \<Rightarrow> u32) \<Rightarrow> nat \<Rightarrow> (slice \<Rightarrow> u64 \<Rightarrow> node res) \<Rightarrow> nat \<Rightarrow> u64 \<Rightarrow> bool \<Rightarrow> slice list \<Rightarrow>
     slice_writer res" where
  "us_build_writer compress crc depth ld k ndx compact ss =
     res_bind (ui_make_begin (el_begin ld) (el_step k ld) ss) (\<lambda>it.
     res_bind (sw_add_iterator (ui_next (el_step k ld) el_cur k) (ui_item el_cur) compress crc depth depth compact k it
                (slice_writer_init ndx)) (\<lambda>w.
       sw_flush compress crc depth w))"

definition us_build ::
  "(bytes \<Rightarrow> bytes option) \<Rightarrow> (bytes \<Rightarrow> u32) \<Rightarrow> nat \<Rightarrow> (slice \<Rightarrow> u64 \<Rightarrow> node res) \<Rightarrow> nat \<Rightarrow> u64 \<Rightarrow> bool \<Rightarrow> slice list \<Rightarrow>
     slice res" where
  "us_build compress crc depth ld k ndx compact ss =
     res_bind (us_build_writer compress crc depth ld k ndx compact ss) (\<lambda>w.
     res_bind (sw_commit w) (\<lambda>(s, _). Inr s))"

text \<open>The two halves of \<open>merge\<close>: what it reads off the tier, and what it does once the slice is there.\<close>

definition us_merge_start :: "u32 \<Rightarrow> ushard \<Rightarrow> slice list \<times> ushard \<times> meta_event list" where
  "us_merge_start tier u =
     (let (ss, u1) = us_get_slices_for tier u in
      if length ss \<le> max_slices_per_tier then ([], u1, []) else (ss, u1, [Slices_Removed ss]))"

definition us_merge_finish :: "u32 \<Rightarrow> nat \<Rightarrow> slice \<Rightarrow> ushard \<Rightarrow> (ushard \<times> meta_event list) res" where
  "us_merge_finish tier n s u =
     res_bind (us_add s True u) (\<lambda>(u1, ev1).
     res_bind (us_remove_from tier n u1) (\<lambda>(u2, ev2). Inr (u2, ev1 @ ev2)))"

definition us_merge ::
  "(bytes \<Rightarrow> bytes option) \<Rightarrow> (bytes \<Rightarrow> u32) \<Rightarrow> nat \<Rightarrow> (slice \<Rightarrow> u64 \<Rightarrow> node res) \<Rightarrow> nat \<Rightarrow> u64 \<Rightarrow> u32 \<Rightarrow> ushard \<Rightarrow>
     (u64 \<times> ushard \<times> meta_event list) res" where
  "us_merge compress crc depth ld k ndx tier u =
     (let (ss, u1, ev) = us_merge_start tier u in
      if ss = [] then Inr (0, u1, ev)
      else
        res_bind (us_build compress crc depth ld k ndx False ss) (\<lambda>s.
        res_bind (us_merge_finish tier (length ss) s u1) (\<lambda>(u2, ev2).
          Inr (us_key_count ss, u2, ev @ ev2))))"

definition us_compact_start :: "ushard \<Rightarrow> slice list \<times> tier_map \<times> meta_event list" where
  "us_compact_start u =
     (let ss = us_get_slices u in
      if length ss < 2 then ([], us_tier_map u, []) else (ss, us_tier_map u, [Slices_Removed ss]))"

fun us_remove_all :: "tier_map \<Rightarrow> ushard \<Rightarrow> (ushard \<times> meta_event list) res" where
  "us_remove_all [] u = Inr (u, [])"
| "us_remove_all ((tier, ss) # tm) u =
     res_bind (us_remove_from tier (length ss) u) (\<lambda>(u1, ev1).
     res_bind (us_remove_all tm u1) (\<lambda>(u2, ev2). Inr (u2, ev1 @ ev2)))"

definition us_compact_finish :: "tier_map \<Rightarrow> slice \<Rightarrow> ushard \<Rightarrow> (ushard \<times> meta_event list) res" where
  "us_compact_finish checkpoint s u =
     res_bind (us_add s True u) (\<lambda>(u1, ev1).
     res_bind (us_remove_all checkpoint u1) (\<lambda>(u2, ev2). Inr (u2, ev1 @ ev2)))"

definition us_compact ::
  "(bytes \<Rightarrow> bytes option) \<Rightarrow> (bytes \<Rightarrow> u32) \<Rightarrow> nat \<Rightarrow> (slice \<Rightarrow> u64 \<Rightarrow> node res) \<Rightarrow> nat \<Rightarrow> u64 \<Rightarrow> ushard \<Rightarrow>
     (u64 \<times> ushard \<times> meta_event list) res" where
  "us_compact compress crc depth ld k ndx u =
     (let (ss, checkpoint, ev) = us_compact_start u in
      if ss = [] then Inr (0, u, ev)
      else
        res_bind (us_build compress crc depth ld k ndx True ss) (\<lambda>s.
        res_bind (us_compact_finish checkpoint s u) (\<lambda>(u1, ev2).
          Inr (us_key_count ss, u1, ev @ ev2))))"

definition us_begin :: "(slice \<Rightarrow> u64 \<Rightarrow> node res) \<Rightarrow> nat \<Rightarrow> ushard \<Rightarrow> element ushard_iterator res" where
  "us_begin ld k u = ui_make_begin (el_begin ld) (el_step k ld) (us_get_slices u)"

definition us_range ::
  "(slice \<Rightarrow> u64 \<Rightarrow> node res) \<Rightarrow> nat \<Rightarrow> bytes \<Rightarrow> bytes \<Rightarrow> ushard \<Rightarrow> element ushard_iterator res" where
  "us_range ld k min_key max_key u =
     ui_make_range (el_range k ld min_key max_key) (el_step k ld) el_cur max_key (us_get_slices u)"

definition us_drop :: "ushard \<Rightarrow> ushard" where
  "us_drop u = u\<lparr>us_dropped := True\<rparr>"

text \<open>The destructor; the result is what becomes of the slices.\<close>

definition us_destroy :: "ushard \<Rightarrow> slice list res" where
  "us_destroy u =
     (if \<not> us_dropped u then Inr (us_get_slices u) else res_map slice_unlink (us_get_slices u))"

text \<open>A reader of everything.\<close>

definition us_read :: "(slice \<Rightarrow> u64 \<Rightarrow> node res) \<Rightarrow> nat \<Rightarrow> ushard \<Rightarrow> item list res" where
  "us_read ld k u =
     res_bind (us_begin ld k u) (drain (ui_next (el_step k ld) el_cur k) (ui_item el_cur) k)"

section \<open>What slices contain\<close>

definition el_stream :: "nat \<Rightarrow> (slice \<Rightarrow> u64 \<Rightarrow> node res) \<Rightarrow> element \<Rightarrow> item list \<Rightarrow> bool" where
  "el_stream k ld e xs \<longleftrightarrow> (case xs of [] \<Rightarrow> False
     | x # ys \<Rightarrow> si_item (snd e) = Inr x \<and> (\<exists>m. si_drain k (ld (fst e)) m (snd e) = Inr ys))"

lemma si_drain_cases:
  assumes "si_drain k ld m it = Inr xs"
  obtains it' where "si_next k ld it = Inr (xs \<noteq> [], it')"
    "xs \<noteq> [] \<longrightarrow> si_item it' = Inr (hd xs) \<and> (\<exists>m'. si_drain k ld m' it' = Inr (tl xs))"
proof (cases m)
  case (Suc m')
  then obtain more it' where n: "si_next k ld it = Inr (more, it')"
    "(if more then res_bind (si_item it') (\<lambda>i. res_bind (si_drain k ld m' it') (\<lambda>is. Inr (i # is)))
       else Inr []) = Inr xs"
    using assms by (auto simp: res_bind_eq_Inr)
  then show thesis by (intro that [of it']) (auto simp: res_bind_eq_Inr split: if_splits)
qed (use assms in simp)

interpretation si: item_iterator "el_step k ld" el_cur "el_stream k ld" for k ld
proof (unfold_locales, goal_cases)
  case (1 e xs)
  then show ?case by (cases xs) (simp_all add: el_stream_def)
next
  case (2 e x xs)
  then show ?case by (simp add: el_stream_def el_cur_def)
next
  case (3 e x y xs)
  then obtain m where "si_drain k (ld (fst e)) m (snd e) = Inr (y # xs)" by (auto simp: el_stream_def)
  then obtain it' where "si_next k (ld (fst e)) (snd e) = Inr (True, it')" "si_item it' = Inr y"
    "\<exists>m'. si_drain k (ld (fst e)) m' it' = Inr xs" by (rule si_drain_cases) auto
  then show ?case by (simp add: el_step_def el_stream_def)
next
  case (4 e x)
  then obtain m where "si_drain k (ld (fst e)) m (snd e) = Inr []" by (auto simp: el_stream_def)
  then obtain it' where "si_next k (ld (fst e)) (snd e) = Inr (False, it')" by (rule si_drain_cases) auto
  then show ?case by (simp add: el_step_def)
qed

text \<open>The merging iterator keeps the same contract.\<close>

interpretation um: item_iterator "ui_next (el_step k ld) el_cur n" "ui_item el_cur" "si.ui_stream k ld n" for k ld n
  by (rule si.ui_iterator)

lemma drain_opens:
  assumes "slice_begin (ld s) s = Inr (Some it)" "si_drain k (ld s) m it = Inr xs"
  shows "opens (el_begin ld) (el_step k ld) (el_stream k ld) s xs"
proof -
  obtain it' where "si_next k (ld s) it = Inr (xs \<noteq> [], it')"
    "xs \<noteq> [] \<longrightarrow> si_item it' = Inr (hd xs) \<and> (\<exists>m'. si_drain k (ld s) m' it' = Inr (tl xs))"
    using assms(2) by (rule si_drain_cases)
  with assms(1) show ?thesis
    by (cases xs) (auto simp: opens_def source_def el_begin_def el_step_def el_stream_def)
qed

text \<open>With enough fuel, the slice reads as \<open>xs\<close>; the rest says that \<open>xs\<close> came out of a writer.\<close>

definition slice_holds :: "(slice \<Rightarrow> u64 \<Rightarrow> node res) \<Rightarrow> slice \<Rightarrow> item list \<Rightarrow> bool" where
  "slice_holds ld s xs \<longleftrightarrow> record_stream xs \<and> list_all item_fits xs \<and> xs \<noteq> []
     \<and> (\<exists>it k0. slice_begin (ld s) s = Inr (Some it) \<and> (\<forall>k \<ge> k0. si_drain k (ld s) k it = Inr xs))"

lemma slices_open:
  "list_all2 (slice_holds ld) ss Ls \<Longrightarrow>
    \<exists>k0. \<forall>k \<ge> k0. list_all2 (opens (el_begin ld) (el_step k ld) (el_stream k ld)) ss Ls"
proof (induction rule: list_all2_induct)
  case (Cons s ss L Ls)
  obtain k0 where k0: "\<forall>k \<ge> k0. opens (el_begin ld) (el_step k ld) (el_stream k ld) s L"
    using Cons(1) drain_opens unfolding slice_holds_def by metis
  obtain k1 where "\<forall>k \<ge> k1. list_all2 (opens (el_begin ld) (el_step k ld) (el_stream k ld)) ss Ls"
    using Cons(3) by blast
  with k0 show ?case by (intro exI [of _ "max k0 k1"]) simp
qed simp

lemma slice_holds_streams: "list_all2 (slice_holds ld) ss Ls \<Longrightarrow> \<forall>L \<in> set Ls. record_stream L \<and> list_all item_fits L \<and> L \<noteq> []"
  by (induction rule: list_all2_induct) (simp_all add: slice_holds_def)

text \<open>Reading several slices through the merging iterator.\<close>

lemma read_slices:
  assumes "list_all2 (slice_holds ld) ss Ls" "idx_distinct Ls"
  shows "\<exists>k0. \<forall>k \<ge> k0. \<exists>u. ui_make_begin (el_begin ld) (el_step k ld) ss = Inr u
    \<and> source (ui_next (el_step k ld) el_cur k) (si.ui_stream k ld k) u (merged Ls)
    \<and> length (merged Ls) < k"
proof -
  obtain k0 where k0: "\<forall>k \<ge> k0. list_all2 (opens (el_begin ld) (el_step k ld) (el_stream k ld)) ss Ls"
    using slices_open [OF assms(1)] by blast
  let ?k = "max k0 (Suc (length (merged Ls) + sum_list (map length Ls)))"
  have "\<exists>u. ui_make_begin (el_begin ld) (el_step k ld) ss = Inr u
    \<and> source (ui_next (el_step k ld) el_cur k) (si.ui_stream k ld k) u (merged Ls)" if "?k \<le> k" for k
    using k0 that slice_holds_streams [OF assms(1)] assms(2)
    by (intro si.begin_source) auto
  then show ?thesis by (intro exI [of _ ?k]) auto
qed

section \<open>Streams that writers make\<close>

lemma record_stream_Nil [simp]: "record_stream []"
  by (simp add: record_stream_def)

lemma record_stream_append:
  "record_stream xs \<Longrightarrow> record_stream ys \<Longrightarrow> \<forall>x \<in> set xs. \<forall>y \<in> set ys. it_key x < it_key y \<Longrightarrow>
    record_stream (xs @ ys)"
proof (induction xs)
  case (Cons x xs)
  have "record_stream (xs @ ys)"
    using Cons by (simp add: record_stream_Cons)
  with Cons.prems show ?case
    by (cases xs; cases ys) (auto simp: record_stream_Cons may_follow_def)
qed simp

lemma record_stream_part: "record_stream L \<Longrightarrow> record_stream (part K L)"
proof (induction L)
  case (Cons x xs)
  then have IH: "record_stream (part K xs)" by (simp add: record_stream_Cons)
  show ?case
  proof (cases "it_key x = K")
    case True
    show ?thesis
    proof (cases "it_eor x")
      case eor: True
      then have "part K xs = []"
        using record_stream_head [OF Cons.prems] True by (auto simp: part_def filter_empty_conv)
      then show ?thesis using True eor Cons.prems by (simp add: part_def record_stream_Cons)
    next
      case False
      then obtain y ys where "xs = y # ys" "it_key y = K"
        using record_stream_more [OF Cons.prems] True by auto
      then show ?thesis using IH Cons.prems True by (simp add: part_def record_stream_Cons)
    qed
  qed (use IH in \<open>simp add: part_def\<close>)
qed (simp add: part_def)

lemma newest_cases: "newest K Ls = [] \<or> newest K Ls \<in> set (rivals K Ls)"
  using pick_newest_max [of "rivals K Ls"] by (cases "rivals K Ls = []") (auto simp: newest_def pick_newest_def)

lemma record_stream_merged:
  assumes "\<forall>L \<in> set Ls. record_stream L"
  shows "record_stream (merged Ls)"
proof -
  have n: "record_stream (newest K Ls) \<and> (\<forall>i \<in> set (newest K Ls). it_key i = K)" for K
    using newest_cases [of K Ls]
  proof
    assume "newest K Ls \<in> set (rivals K Ls)"
    then obtain L where "L \<in> set Ls" "newest K Ls = part K L" by (auto simp: rivals_def)
    then show ?thesis using record_stream_part assms by (auto simp: part_def)
  qed (simp add: record_stream_def)
  have "sorted_wrt (<) ks \<Longrightarrow> record_stream (concat (map (\<lambda>K. newest K Ls) ks))" for ks
  proof (induction ks)
    case (Cons K ks)
    then show ?case using n by (auto intro!: record_stream_append)
  qed (simp add: record_stream_def)
  then show ?thesis by (simp add: merged_def stream_keys_def)
qed

text \<open>Compaction drops whole records.\<close>

lemma record_stream_filter:
  "record_stream xs \<Longrightarrow> record_stream (filter (\<lambda>i. \<not> it_deleted i) xs)"
proof (induction xs)
  case (Cons x xs)
  then have IH: "record_stream (filter (\<lambda>i. \<not> it_deleted i) xs)" by (simp add: record_stream_Cons)
  show ?case
  proof (cases "it_deleted x")
    case False
    have "case filter (\<lambda>i. \<not> it_deleted i) xs of [] \<Rightarrow> it_eor x | y # _ \<Rightarrow> may_follow x y"
    proof (cases "it_eor x")
      case True
      have "it_key x < it_key y" if "filter (\<lambda>i. \<not> it_deleted i) xs = y # ys" for y ys
      proof -
        have "y \<in> set xs" using that by (metis filter_is_subset list.set_intros(1) subsetD)
        then show ?thesis using record_stream_head [OF Cons.prems] True by simp
      qed
      then show ?thesis using True by (auto simp: may_follow_def split: list.split)
    next
      case False
      then show ?thesis using Cons.prems by (cases xs) (auto simp: record_stream_Cons may_follow_def)
    qed
    then show ?thesis using IH Cons.prems False by (simp add: record_stream_Cons)
  qed (use IH in simp)
qed simp

text \<open>The parts of an item on the pages.\<close>

lemma pieces_items:
  assumes "pieces_of i es"
  shows "map item_of es \<noteq> []" "\<forall>j \<in> set (map item_of es). it_key j = it_key i \<and> it_deleted j = it_deleted i \<and> it_idx j = it_idx i"
    "concat (map it_value (map item_of es)) = it_value i" "hd (map item_of es) \<in> set (map item_of es)"
proof -
  show ne: "map item_of es \<noteq> []" using assms by (simp add: pieces_of_def)
  show "hd (map item_of es) \<in> set (map item_of es)" by (rule hd_in_set [OF ne])
qed (use assms in \<open>auto simp: pieces_of_def item_of_def o_def le_word_le_bytes_full\<close>)

lemma record_stream_same_key:
  "\<forall>j \<in> set js. it_key j = K \<and> \<not> it_deleted j \<Longrightarrow> K \<noteq> [] \<Longrightarrow> length K < max_key_size \<Longrightarrow>
    map it_eor js = replicate n False @ [True] \<Longrightarrow> record_stream js"
proof (induction n arbitrary: js)
  case 0
  then obtain j where "js = [j]" "it_eor j" by (auto simp: map_eq_Cons_conv)
  with 0 show ?case by (auto simp: record_stream_def well_formed_item_def)
next
  case (Suc n)
  then obtain j js' where j: "js = j # js'" "\<not> it_eor j" "map it_eor js' = replicate n False @ [True]"
    by (auto simp: map_eq_Cons_conv)
  have js: "\<forall>j \<in> set js'. it_key j = K \<and> \<not> it_deleted j" using Suc.prems(1) j(1) by simp
  then have rs: "record_stream js'" using Suc.IH Suc.prems(2,3) j(3) by blast
  obtain y ys where y: "js' = y # ys" using j(3) by (cases js') auto
  have "well_formed_item j" "may_follow j y"
    using Suc.prems(1-3) j(1,2) js y by (simp_all add: well_formed_item_def may_follow_def)
  then show ?case using rs j(1) y by (simp add: record_stream_Cons)
qed

lemma record_stream_into:
  "\<forall>j \<in> set c. it_key j = K \<and> \<not> it_deleted j \<and> \<not> it_eor j \<Longrightarrow> K \<noteq> [] \<Longrightarrow> length K < max_key_size \<Longrightarrow>
    record_stream (x # xs) \<Longrightarrow> it_key x = K \<Longrightarrow> \<not> it_deleted x \<Longrightarrow> record_stream (c @ x # xs)"
proof (induction c)
  case (Cons j c)
  then have "record_stream (c @ x # xs)" by simp
  moreover have "well_formed_item j" "\<forall>y. y \<in> set (c @ [x]) \<longrightarrow> may_follow j y"
    using Cons.prems by (auto simp: well_formed_item_def may_follow_def)
  ultimately show ?case by (cases c) (auto simp: record_stream_Cons)
qed simp

lemma record_stream_pieces:
  "record_stream js \<Longrightarrow> list_all2 pieces_of js ess \<Longrightarrow> record_stream (map item_of (concat ess))
    \<and> it_key ` set (map item_of (concat ess)) = it_key ` set js
    \<and> (js \<noteq> [] \<longrightarrow> it_key (hd (map item_of (concat ess))) = it_key (hd js)
        \<and> it_deleted (hd (map item_of (concat ess))) = it_deleted (hd js))"
proof (induction js arbitrary: ess)
  case (Cons i js)
  obtain es ess' where ess: "ess = es # ess'" "pieces_of i es" "list_all2 pieces_of js ess'"
    using Cons.prems(2) by (auto simp: list_all2_Cons1)
  let ?c = "map item_of es" and ?xs = "map item_of (concat ess')"
  have js: "record_stream js" and wf: "well_formed_item i" using Cons.prems(1) by (simp_all add: record_stream_Cons)
  note IH = Cons.IH [OF js ess(3)]
  note pc = pieces_items [OF ess(2)]
  have eors: "map it_eor ?c = replicate (length es - 1) False @ [it_eor i]"
    using ess(2) by (auto simp: pieces_of_def item_of_def o_def)
  have K: "it_key i \<noteq> []" "length (it_key i) < max_key_size" using wf by (simp_all add: well_formed_item_def)
  have rs: "record_stream (?c @ ?xs)"
  proof (cases "it_eor i")
    case True
    have "record_stream ?c"
    proof (cases "it_deleted i")
      case d: True
      then have v: "it_value i = []" using wf by (simp add: well_formed_item_def)
      then obtain e where e: "es = [e]" using ess(2) by (auto simp: pieces_of_def length_Suc_conv)
      have "well_formed_item (item_of e)" using pc eors e d True v K by (simp add: well_formed_item_def)
      then show ?thesis using eors e True by (simp add: record_stream_def)
    next
      case False
      then have "\<forall>j \<in> set ?c. it_key j = it_key i \<and> \<not> it_deleted j" using pc(2) by blast
      from record_stream_same_key [OF this K eors [unfolded eqTrueI [OF True]]] show ?thesis .
    qed
    moreover have "\<forall>x \<in> set ?c. \<forall>y \<in> set ?xs. it_key x < it_key y"
    proof (intro ballI)
      fix x y assume x: "x \<in> set ?c" and y: "y \<in> set ?xs"
      have "it_key y \<in> it_key ` set js" using IH y by blast
      then obtain j where "j \<in> set js" "it_key y = it_key j" by blast
      moreover have "it_key x = it_key i" using pc(2) x by blast
      ultimately show "it_key x < it_key y" using record_stream_head [OF Cons.prems(1)] True by simp
    qed
    ultimately show ?thesis using IH record_stream_append by blast
  next
    case False
    then obtain j ks where j: "js = j # ks" "it_key j = it_key i" by (rule record_stream_more [OF Cons.prems(1)])
    have d: "\<not> it_deleted j" "\<not> it_deleted i"
      using Cons.prems(1) False wf by (auto simp: record_stream_Cons j(1) may_follow_def well_formed_item_def)
    obtain x xs where x: "?xs = x # xs" using IH j(1) by (cases ?xs) auto
    have h: "it_key x = it_key i" "\<not> it_deleted x" and rx: "record_stream (x # xs)" using IH j d x by simp_all
    have "\<not> it_eor y" if "y \<in> set ?c" for y
    proof -
      have "it_eor y \<in> set (map it_eor ?c)" using that by auto
      then show ?thesis unfolding eors using False by auto
    qed
    then have "\<forall>y \<in> set ?c. it_key y = it_key i \<and> \<not> it_deleted y \<and> \<not> it_eor y" using pc(2) d by blast
    from record_stream_into [OF this K rx h] show ?thesis unfolding x .
  qed
  have c: "it_key ` set ?c = {it_key i}"
  proof -
    have "it_key ` set ?c \<subseteq> {it_key i}" using pc(2) by blast
    moreover have "it_key (hd ?c) = it_key i" using pc(2,4) by blast
    ultimately show ?thesis using pc(4) by (metis imageI insert_absorb insert_subset subset_singletonD empty_iff)
  qed
  have h: "it_key (hd ?c) = it_key i" "it_deleted (hd ?c) = it_deleted i" using pc(2,4) by blast+
  have e: "map item_of (concat ess) = ?c @ ?xs" by (simp add: ess(1))
  show ?case unfolding e using rs IH pc(1) c h by (simp add: hd_append image_Un)
qed simp

section \<open>What a reader finds\<close>

text \<open>A record: its value, whether it marks a deletion, and its index.\<close>

definition record_of :: "item list \<Rightarrow> (bytes \<times> bool \<times> u64) option" where
  "record_of p = (if p = [] then None else Some (concat (map it_value p), it_deleted (hd p), it_idx (hd p)))"

definition visible :: "bytes \<Rightarrow> item list list \<Rightarrow> (bytes \<times> bool \<times> u64) option" where
  "visible K Ls = record_of (newest K Ls)"

lemma part_merged: "part K (merged Ls) = newest K Ls"
proof -
  have "filter (\<lambda>k. k = K) (stream_keys Ls) = (if K \<in> set (stream_keys Ls) then [K] else [])"
  proof -
    let ?A = "it_key ` set (concat Ls)"
    have "{x \<in> ?A. x = K} = (if K \<in> ?A then {K} else {})" by auto
    then show ?thesis unfolding stream_keys_def filter_sorted_list_of_set [OF finite_imageI [OF finite_set]]
      by (cases "K \<in> ?A") simp_all
  qed
  moreover have "newest K Ls = []" if "K \<notin> set (stream_keys Ls)"
    using newest_cases [of K Ls]
  proof
    assume "newest K Ls \<in> set (rivals K Ls)"
    then obtain L where "L \<in> set Ls" "part K L \<noteq> []" by (auto simp: rivals_def)
    then have False using that by (auto simp: stream_keys_def part_def filter_empty_conv)
    then show ?thesis ..
  qed
  ultimately show ?thesis
    using merged_bound [of "\<lambda>k. k = K" Ls] by (auto simp: part_def)
qed

lemma visible_merged: "record_of (part K (merged Ls)) = visible K Ls"
  by (simp add: part_merged visible_def)

lemma record_of_idx: "record_of p = record_of q \<Longrightarrow> (p = [] \<longleftrightarrow> q = []) \<and> (p \<noteq> [] \<longrightarrow> it_idx (hd p) = it_idx (hd q))"
  by (auto simp: record_of_def split: if_splits)

text \<open>Streams with the same records are the same to a reader.\<close>

lemma rivals_same:
  "list_all2 (\<lambda>L M. \<forall>K. record_of (part K L) = record_of (part K M)) Ls Ms \<Longrightarrow>
    list_all2 (\<lambda>p q. record_of p = record_of q) (rivals K Ls) (rivals K Ms)"
proof (induction rule: list_all2_induct)
  case (Cons L Ls M Ms)
  then show ?case using record_of_idx [of "part K L" "part K M"] by (simp add: rivals_def)
qed (simp add: rivals_def)

lemma pick_newest_same:
  assumes "list_all2 (\<lambda>p q. record_of p = record_of q) ps qs" "\<forall>p \<in> set ps. p \<noteq> []"
  shows "record_of (pick_newest ps) = record_of (pick_newest qs)"
proof -
  have "list_all2 (\<lambda>p q. record_of p = record_of q) ps qs \<Longrightarrow> \<forall>p \<in> set ps. p \<noteq> [] \<Longrightarrow> record_of a = record_of b \<Longrightarrow> a \<noteq> [] \<Longrightarrow>
      record_of (fold (\<lambda>q b. if it_idx (hd b) < it_idx (hd q) then q else b) ps a)
        = record_of (fold (\<lambda>q b. if it_idx (hd b) < it_idx (hd q) then q else b) qs b)" for ps qs a b
  proof (induction ps qs arbitrary: a b rule: list_all2_induct)
    case (Cons p ps q qs)
    have "it_idx (hd a) = it_idx (hd b)" "it_idx (hd p) = it_idx (hd q)"
      using record_of_idx [of a b] record_of_idx [of p q] Cons.prems Cons(1) by simp_all
    moreover have "\<forall>p \<in> set ps. p \<noteq> []" "p \<noteq> []" using Cons.prems(1) by simp_all
    ultimately show ?case using Cons.IH [of a b] Cons.IH [of p q] Cons.prems(2,3) Cons(1) by simp
  qed simp
  note fold_same = this
  show ?thesis
  proof (cases ps)
    case (Cons p ps')
    then obtain q qs' where "qs = q # qs'" "record_of p = record_of q"
      "list_all2 (\<lambda>p q. record_of p = record_of q) ps' qs'"
      using assms(1) by (auto simp: list_all2_Cons1)
    with Cons fold_same [of ps' qs' p q] assms(2) show ?thesis by (simp add: pick_newest_def)
  qed (use assms in simp)
qed

lemma same_records:
  assumes "list_all2 (\<lambda>L M. \<forall>K. record_of (part K L) = record_of (part K M)) Ls Ms"
  shows "visible K Ls = visible K Ms" "idx_distinct Ls \<Longrightarrow> idx_distinct Ms"
proof -
  show "visible K Ls = visible K Ms"
    unfolding visible_def newest_def
    by (rule pick_newest_same [OF rivals_same [OF assms]]) (simp add: rivals_def)
  have "map (\<lambda>p. it_idx (hd p)) (rivals K Ls) = map (\<lambda>p. it_idx (hd p)) (rivals K Ms)" for K
  proof -
    have "\<forall>p \<in> set (rivals K Ls). p \<noteq> []" by (simp add: rivals_def)
    with rivals_same [OF assms, of K] show ?thesis
    proof (induction rule: list_all2_induct)
      case (Cons p ps q qs)
      then show ?case using record_of_idx [of p q] by simp
    qed simp
  qed
  then show "idx_distinct Ls \<Longrightarrow> idx_distinct Ms" by (simp add: idx_distinct_def)
qed

text \<open>Replacing some streams by their merge, and a reader sees no difference.\<close>

lemma rivals_merged: "rivals K (merged As # Bs) = (if newest K As = [] then [] else [newest K As]) @ rivals K Bs"
  by (simp add: rivals_def part_merged)

lemma rivals_append: "rivals K (As @ Bs) = rivals K As @ rivals K Bs"
  by (simp add: rivals_def)

lemma merged_absorbs:
  assumes "idx_distinct (As @ Bs)"
  shows "visible K (merged As # Bs) = visible K (As @ Bs)" "idx_distinct (merged As # Bs)"
proof -
  have sub: "set (rivals K (merged As # Bs)) \<subseteq> set (rivals K (As @ Bs))" for K
    using newest_cases [of K As] by (auto simp: rivals_merged rivals_append)
  show "idx_distinct (merged As # Bs)"
    unfolding idx_distinct_def
  proof
    fix K
    show "distinct (map (\<lambda>p. it_idx (hd p)) (rivals K (merged As # Bs)))"
    proof (cases "newest K As = []")
      case True
      then show ?thesis using assms by (simp add: idx_distinct_def rivals_merged rivals_append)
    next
      case False
      then have "newest K As \<in> set (rivals K As)" using newest_cases [of K As] by blast
      then show ?thesis using assms False unfolding idx_distinct_def rivals_merged rivals_append by force
    qed
  qed
  show "visible K (merged As # Bs) = visible K (As @ Bs)"
  proof (cases "rivals K (merged As # Bs) = []")
    case True
    then have "newest K As = []" "rivals K Bs = []" by (auto simp: rivals_merged split: if_splits)
    moreover have "rivals K As = []"
    proof (rule ccontr)
      assume ne: "rivals K As \<noteq> []"
      then have "newest K As \<in> set (rivals K As)" using pick_newest_max unfolding newest_def by blast
      then show False using \<open>newest K As = []\<close> by (simp add: rivals_def)
    qed
    ultimately show ?thesis using True by (simp add: visible_def newest_def rivals_append)
  next
    case False
    let ?p = "newest K (merged As # Bs)"
    have p: "?p \<in> set (rivals K (merged As # Bs))"
      "\<forall>q \<in> set (rivals K (merged As # Bs)). it_idx (hd q) \<le> it_idx (hd ?p)"
      using pick_newest_max [OF False] unfolding newest_def by blast+
    have "it_idx (hd q) \<le> it_idx (hd ?p)" if q: "q \<in> set (rivals K (As @ Bs))" for q
    proof (cases "q \<in> set (rivals K Bs)")
      case True
      then show ?thesis using p(2) by (auto simp: rivals_merged)
    next
      case False
      then have qa: "q \<in> set (rivals K As)" using q by (auto simp: rivals_append)
      then have ne: "rivals K As \<noteq> []" by auto
      note mx = pick_newest_max [OF ne, folded newest_def]
      have "newest K As \<noteq> []" using mx by (auto simp: rivals_def)
      then have "it_idx (hd (newest K As)) \<le> it_idx (hd ?p)" using p(2) by (simp add: rivals_merged)
      with mx qa show ?thesis by (meson order_trans)
    qed
    then have "newest K (As @ Bs) = ?p" using newest_eq [OF assms, of ?p K] p(1) sub by blast
    then show ?thesis by (simp add: visible_def)
  qed
qed

section \<open>The tier map\<close>

lemma mset_tm_put:
  "mset (concat (map snd (tm_put t ss tm))) + mset (tm_slices t tm) = mset (concat (map snd tm)) + mset ss"
  by (induction t ss tm rule: tm_put.induct) (simp_all add: tm_slices_def)

lemma tm_slices_put: "tm_slices t (tm_put t' ss tm) = (if t = t' then ss else tm_slices t tm)"
  by (induction t' ss tm rule: tm_put.induct) (auto simp: tm_slices_def)

lemma us_add_Inr:
  assumes "us_add s b u = Inr (u', ev)"
  shows "\<exists>t. tier_of s = Inr t \<and> mset (us_get_slices u') = add_mset s (mset (us_get_slices u))
    \<and> (\<forall>t'. tm_slices t' (us_tier_map u') = tm_slices t' (us_tier_map u) @ (if t' = t then [s] else []))
    \<and> us_dropped u' = us_dropped u"
proof -
  obtain t where t: "tier_of s = Inr t"
    "u' = u\<lparr>us_tier_map := tm_put t (tm_slices t (us_tier_map u) @ [s]) (us_tier_map u)\<rparr>"
    using assms by (auto simp: us_add_def res_bind_eq_Inr Let_def)
  then show ?thesis
    using mset_tm_put [of t "tm_slices t (us_tier_map u) @ [s]" "us_tier_map u"]
    by (simp add: us_get_slices_def tm_slices_put)
qed

lemma us_remove_from_Inr:
  assumes "us_remove_from t n u = Inr (u', ev)"
  shows "n \<le> length (tm_slices t (us_tier_map u))
    \<and> mset (us_get_slices u') + mset (take n (tm_slices t (us_tier_map u))) = mset (us_get_slices u)
    \<and> (\<forall>t'. tm_slices t' (us_tier_map u') = (if t' = t then drop n (tm_slices t (us_tier_map u)) else tm_slices t' (us_tier_map u)))
    \<and> us_dropped u' = us_dropped u"
proof -
  let ?ss = "tm_slices t (us_tier_map u)"
  have u': "n \<le> length ?ss" "u' = u\<lparr>us_tier_map := tm_put t (drop n ?ss) (us_tier_map u)\<rparr>"
    using assms by (auto simp: us_remove_from_def Let_def split: if_splits)
  have "mset (us_get_slices u') + mset ?ss = mset (us_get_slices u) + mset (drop n ?ss)"
    using mset_tm_put [of t "drop n ?ss" "us_tier_map u"] u'(2) by (simp add: us_get_slices_def)
  moreover have "mset ?ss = mset (take n ?ss) + mset (drop n ?ss)"
    using mset_append [of "take n ?ss" "drop n ?ss"] by simp
  ultimately show ?thesis using u' by (simp add: tm_slices_put)
qed

lemma us_merge_finish_Inr:
  assumes "us_merge_finish t n s u = Inr (u', ev)" "prefix ss (tm_slices t (us_tier_map u))" "length ss = n"
  shows "mset (us_get_slices u') + mset ss = add_mset s (mset (us_get_slices u))"
proof -
  obtain u1 ev1 ev2 where a: "us_add s True u = Inr (u1, ev1)" and r: "us_remove_from t n u1 = Inr (u', ev2)"
    using assms(1) by (auto simp: us_merge_finish_def res_bind_eq_Inr)
  have "take n (tm_slices t (us_tier_map u1)) = ss"
    using us_add_Inr [OF a] assms(2,3) by (auto simp: prefix_def)
  then show ?thesis using us_add_Inr [OF a] us_remove_from_Inr [OF r] by auto
qed

section \<open>The slice a merge writes\<close>

context item_iterator
begin

lemma stream_source: "stream it (x # xs) \<Longrightarrow> cur it = Inr x \<and> source step stream it xs"
  using stream_cur stream_step stream_end by (cases xs) (fastforce simp: source_def)+

lemma add_iterator_source:
  "source step stream it xs \<Longrightarrow> length xs < m \<Longrightarrow>
    sw_add_iterator step cur compress crc depth k compact m it w = sw_add_all compress crc depth k compact xs w"
proof (induction m arbitrary: it xs w)
  case (Suc m)
  obtain it' where it': "step it = Inr (xs \<noteq> [], it')" "xs \<noteq> [] \<longrightarrow> stream it' xs"
    using Suc.prems(1) by (auto simp: source_def)
  show ?case
  proof (cases xs)
    case (Cons y ys)
    then have s: "stream it' (y # ys)" using it'(2) by simp
    show ?thesis
      using it' Cons stream_source [OF s] Suc.IH [of it' ys] Suc.prems(2)
      by (auto intro: res_bind_cong)
  qed (use it' in simp)
qed simp

end

text \<open>The pages hold each item in parts; a reader joins them again.\<close>

lemma part_append: "part K (xs @ ys) = part K xs @ part K ys"
  by (simp add: part_def)

lemma record_of_pieces:
  "list_all2 pieces_of js ess \<Longrightarrow> record_of (part K (map item_of (concat ess))) = record_of (part K js)"
proof (induction rule: list_all2_induct)
  case (Cons i js es ess)
  note pc = pieces_items [OF Cons(1)]
  have e: "map item_of (concat (es # ess)) = map item_of es @ map item_of (concat ess)" by simp
  show ?case
  proof (cases "it_key i = K")
    case True
    have "part K (map item_of es) = map item_of es"
      unfolding part_def using pc(2) True by (intro filter_True) blast
    moreover have "it_deleted (hd (map item_of es)) = it_deleted i" "it_idx (hd (map item_of es)) = it_idx i"
      using pc(2,4) by blast+
    moreover have "concat (map it_value (part K (map item_of (concat ess)))) = concat (map it_value (part K js))"
      using Cons(3) by (auto simp: record_of_def split: if_splits)
    moreover have "part K (i # js) = i # part K js" using True by (simp add: part_def)
    ultimately show ?thesis
      unfolding e part_append record_of_def using pc(1,3) by (simp add: hd_append)
  next
    case False
    have "part K (map item_of es) = []"
      unfolding part_def using pc(2) False by (intro filter_False) metis
    moreover have "part K (i # js) = part K js" using False by (simp add: part_def)
    ultimately show ?thesis unfolding e part_append using Cons(3) by simp
  qed
qed simp

lemma pieces_fit:
  assumes "list_all2 pieces_of js ess" "list_all item_fits js"
  shows "list_all item_fits (map item_of (concat ess))"
  using assms
proof (induction rule: list_all2_induct)
  case (Cons i js es ess)
  have "item_fits (item_of e)" if e: "e \<in> set es" for e
  proof -
    obtain as bs where "es = as @ e # bs" using e by (meson split_list)
    moreover have "it_value i = concat (map pe_value es)" using Cons(1) by (simp add: pieces_of_def)
    ultimately have "length (pe_value e) \<le> length (it_value i)" by simp
    then have "length (pe_value e) div 8 \<le> length (it_value i) div 8" by (rule div_le_mono)
    moreover have "pe_key e = it_key i" using Cons(1) e by (simp add: pieces_of_def)
    ultimately show ?thesis using Cons.prems by (auto simp: item_fits_def item_of_def)
  qed
  with Cons show ?case by (auto simp: list_all_iff)
qed simp

definition slice_load :: "(bytes \<Rightarrow> bytes option) \<Rightarrow> (bytes \<Rightarrow> u32) \<Rightarrow> slice \<Rightarrow> u64 \<Rightarrow> node res" where
  "slice_load decompress crc s = cache_load decompress crc (sl_reader s)"

lemma set_merged_Ls: "i \<in> set (merged Ls) \<Longrightarrow> \<exists>L \<in> set Ls. i \<in> set L"
  using set_merged [of Ls] by auto

section \<open>More fuel\<close>

text \<open>\<open>below r r'\<close>: what \<open>r\<close> returns, \<open>r'\<close> returns as well.\<close>

definition below :: "'a res \<Rightarrow> 'a res \<Rightarrow> bool" where
  "below r r' \<longleftrightarrow> (\<forall>y. r = Inr y \<longrightarrow> r' = Inr y)"

named_theorems below_intros \<open>results that grow with the fuel\<close>

lemma belowD: "below r r' \<Longrightarrow> r = Inr y \<Longrightarrow> r' = Inr y"
  by (simp add: below_def)

lemma below_basic [below_intros]: "below r r" "below (Inl e) r"
  by (simp_all add: below_def)

lemma below_bind [below_intros]:
  "below r r' \<Longrightarrow> (\<And>x. below (f x) (f' x)) \<Longrightarrow> below (res_bind r f) (res_bind r' f')"
  by (cases r) (auto simp: below_def)

lemma below_if [below_intros]:
  "below a a' \<Longrightarrow> below b b' \<Longrightarrow> below (if c then a else b) (if c then a' else b')"
  by simp

lemma below_assert [below_intros]: "below a a' \<Longrightarrow> below (res_assert c a) (res_assert c a')"
  by (simp add: res_assert_def below_def)

lemma below_option [below_intros]:
  "below a a' \<Longrightarrow> (\<And>x. below (f x) (f' x)) \<Longrightarrow>
    below (case z of None \<Rightarrow> a | Some x \<Rightarrow> f x) (case z of None \<Rightarrow> a' | Some x \<Rightarrow> f' x)"
  by (cases z) simp_all

lemma below_prod [below_intros]:
  "(\<And>x y. below (f x y) (f' x y)) \<Longrightarrow> below (case z of (x, y) \<Rightarrow> f x y) (case z of (x, y) \<Rightarrow> f' x y)"
  by (cases z) simp

lemma si_load_next_fuel: "k \<le> k' \<Longrightarrow> below (si_load_next k ld n) (si_load_next k' ld n)"
proof (induction k arbitrary: n k')
  case (Suc k)
  then obtain l where "k' = Suc l" "k \<le> l" by (cases k') auto
  with Suc.IH show ?case by (auto simp: Let_def intro!: below_intros)
qed (simp add: below_intros)

lemma el_step_fuel: "k \<le> k' \<Longrightarrow> below (el_step k ld e) (el_step k' ld e)"
  unfolding el_step_def si_next_def by (intro below_intros si_load_next_fuel)

text \<open>A loop over a step that gives no less runs to no less.\<close>

lemma ui_advance_last_fuel:
  "(\<And>it. below (step it) (step' it)) \<Longrightarrow> below (ui_advance_last step u) (ui_advance_last step' u)"
  unfolding ui_advance_last_def by (intro below_intros)

lemma ui_advance_fuel:
  "(\<And>it. below (step it) (step' it)) \<Longrightarrow> below (ui_advance step cur u) (ui_advance step' cur u)"
  unfolding ui_advance_def Let_def by (intro below_intros ui_advance_last_fuel)

lemma ui_skip_fuel:
  assumes ext: "\<And>it. below (step it) (step' it)"
  shows "k \<le> k' \<Longrightarrow> below (ui_skip step cur k u) (ui_skip step' cur k' u)"
proof (induction k arbitrary: u k')
  case (Suc k)
  then obtain l where "k' = Suc l" "k \<le> l" by (cases k') auto
  with Suc.IH show ?case unfolding \<open>k' = Suc l\<close> ui_skip.simps
    by (intro below_intros ui_advance_fuel ext) blast
qed (simp add: below_intros)

lemma ui_next_fuel:
  "(\<And>it. below (step it) (step' it)) \<Longrightarrow> k \<le> k' \<Longrightarrow>
    below (ui_next step cur k u) (ui_next step' cur k' u)"
  unfolding ui_next_def Let_def by (intro below_intros ui_advance_last_fuel ui_skip_fuel)

lemma ui_open_fuel:
  assumes ext: "\<And>it. below (step it) (step' it)"
  shows "below (ui_open open_slice step keep ss) (ui_open open_slice step' keep ss)"
proof (induction ss)
  case (Cons s ss)
  then show ?case unfolding ui_open.simps by (intro below_intros ext)
qed (simp add: below_intros)

lemma sw_add_iterator_fuel:
  assumes ext: "\<And>it. below (step it) (step' it)"
  shows "m \<le> m' \<Longrightarrow> below (sw_add_iterator step cur compress crc depth k compact m it w)
    (sw_add_iterator step' cur compress crc depth k compact m' it w)"
proof (induction m arbitrary: it w m')
  case (Suc m)
  then obtain l where "m' = Suc l" "m \<le> l" by (cases m') auto
  with Suc.IH show ?case unfolding \<open>m' = Suc l\<close> sw_add_iterator.simps
    by (intro below_intros ext) blast+
qed (simp add: below_intros)

lemma us_build_writer_fuel:
  assumes "us_build_writer compress crc depth ld k ndx compact ss = Inr w" "k \<le> k'"
  shows "us_build_writer compress crc depth ld k' ndx compact ss = Inr w"
proof -
  have "below (us_build_writer compress crc depth ld k ndx compact ss) (us_build_writer compress crc depth ld k' ndx compact ss)"
    unfolding us_build_writer_def ui_make_begin_def
    by (intro below_intros ui_open_fuel sw_add_iterator_fuel ui_next_fuel el_step_fuel assms(2))
  then show ?thesis using assms(1) by (rule belowD)
qed

text \<open>The slice that comes out, for whatever fuel it was built with.\<close>

lemma built_slice:
  assumes lz4: "lz4_ok compress decompress" and fit: "\<forall>w. us_build_writer compress crc depth ld k ndx compact ss = Inr w \<longrightarrow> pages_fit compress w"
    and src: "list_all2 (slice_holds ld) ss Ls" and d: "idx_distinct Ls"
    and js: "js = filter (\<lambda>i. \<not> (compact \<and> it_deleted i)) (merged Ls)" "length js < 2 ^ 64"
    and b0: "us_build compress crc depth ld k ndx compact ss = Inr s"
  shows "sl_key_count s = of_nat (length js)"
    "js \<noteq> [] \<Longrightarrow> \<exists>xs. slice_holds (slice_load decompress crc) s xs \<and> (\<forall>K. record_of (part K xs) = record_of (part K js))"
proof -
  obtain k0 where k0: "\<forall>k \<ge> k0. \<exists>u. ui_make_begin (el_begin ld) (el_step k ld) ss = Inr u
    \<and> source (ui_next (el_step k ld) el_cur k) (si.ui_stream k ld k) u (merged Ls) \<and> length (merged Ls) < k"
    using read_slices [OF src d] by blast
  define m where "m = max k k0"
  obtain w1 w2 where w1: "us_build_writer compress crc depth ld k ndx compact ss = Inr w1" and c: "sw_commit w1 = Inr (s, w2)"
    using b0 by (auto simp: us_build_def res_bind_eq_Inr)
  have b: "us_build_writer compress crc depth ld m ndx compact ss = Inr w1"
    using us_build_writer_fuel [OF w1] by (simp add: m_def)
  note st = slice_holds_streams [OF src]
  have rs: "record_stream js"
    using record_stream_filter record_stream_merged st unfolding js(1) by (cases compact) auto
  have fits: "list_all item_fits js"
    using st set_merged_Ls unfolding js(1) list_all_iff by fastforce
  obtain u where u: "ui_make_begin (el_begin ld) (el_step m ld) ss = Inr u"
    and sr: "source (ui_next (el_step m ld) el_cur m) (si.ui_stream m ld m) u (merged Ls)" "length (merged Ls) < m"
    using k0 max.cobounded2 [of k0 k] unfolding m_def by blast
  obtain w where w: "sw_add_all compress crc depth depth compact (merged Ls) (slice_writer_init ndx) = Inr w"
    and f: "sw_flush compress crc depth w = Inr w1" "sw_commit w1 = Inr (s, w2)"
    using b c u um.add_iterator_source [OF sr] by (auto simp: us_build_writer_def res_bind_eq_Inr)
  have fit': "pages_fit compress w1" using fit w1 by blast
  show "sl_key_count s = of_nat (length js)" using slice_key_count [OF w f] js(1) by simp
  assume ne: "js \<noteq> []"
  obtain ess it n where ess: "list_all2 pieces_of js ess"
    and it: "slice_begin (cache_load decompress crc (sl_reader s)) s = Inr (Some it)"
      "\<forall>m \<ge> n. si_drain m (cache_load decompress crc (sl_reader s)) m it = Inr (map item_of (concat ess))"
    using slice_scan_fit [OF lz4 fit' w f js(1) fits ne js(2)] by blast
  let ?xs = "map item_of (concat ess)"
  have "record_stream ?xs" and ks: "it_key ` set ?xs = it_key ` set js" using record_stream_pieces [OF rs ess] by simp_all
  moreover have "?xs \<noteq> []" using ks ne by (metis empty_set image_is_empty set_empty2)
  ultimately have "slice_holds (slice_load decompress crc) s ?xs"
    using it pieces_fit [OF ess fits] by (auto simp: slice_holds_def slice_load_def)
  then show "\<exists>xs. slice_holds (slice_load decompress crc) s xs \<and> (\<forall>K. record_of (part K xs) = record_of (part K js))"
    using record_of_pieces [OF ess] by blast
qed

section \<open>Merging and compacting, as a reader sees it\<close>

lemma mset_contents:
  assumes "list_all2 R ss Ls" "mset ts = mset ss"
  shows "\<exists>Ms. list_all2 R ts Ms \<and> mset Ms = mset Ls"
  using assms
proof (induction ss arbitrary: Ls ts)
  case (Cons s ss)
  obtain L Ls' where L: "Ls = L # Ls'" "R s L" "list_all2 R ss Ls'" using Cons.prems(1) by (auto simp: list_all2_Cons1)
  have "s \<in> set ts" using Cons.prems(2) by (metis list.set_intros(1) mset_eq_setD)
  then obtain as bs where ts: "ts = as @ s # bs" by (meson split_list)
  then have "mset (as @ bs) = mset ss" using Cons.prems(2) by simp
  then obtain Ms where Ms: "list_all2 R (as @ bs) Ms" "mset Ms = mset Ls'" using Cons.IH [OF L(3)] by blast
  then obtain Ma Mb where m: "Ms = Ma @ Mb" "list_all2 R as Ma" "list_all2 R bs Mb" by (auto simp: list_all2_append1)
  then have "list_all2 R ts (Ma @ L # Mb)" using L(2) ts by (simp add: list_all2_appendI)
  then show ?case using m(1) Ms(2) L(1) by (intro exI [of _ "Ma @ L # Mb"]) simp
qed simp

text \<open>What is read from slices with given contents.\<close>

lemma us_read_slices:
  assumes "list_all2 (slice_holds ld) (us_get_slices u) Ls" "idx_distinct Ls"
  shows "\<exists>k0. \<forall>k \<ge> k0. us_read ld k u = Inr (merged Ls)"
proof -
  obtain k0 where "\<forall>k \<ge> k0. \<exists>v. ui_make_begin (el_begin ld) (el_step k ld) (us_get_slices u) = Inr v
    \<and> source (ui_next (el_step k ld) el_cur k) (si.ui_stream k ld k) v (merged Ls) \<and> length (merged Ls) < k"
    using read_slices [OF assms] by blast
  then have "us_read ld k u = Inr (merged Ls)" if "k0 \<le> k" for k
    using that um.drain_source unfolding us_read_def us_begin_def by fastforce
  then show ?thesis by blast
qed

lemma slice_holds_fun: "slice_holds ld s xs \<Longrightarrow> slice_holds ld s ys \<Longrightarrow> xs = ys"
proof -
  assume h: "slice_holds ld s xs" "slice_holds ld s ys"
  obtain it k0 where x: "slice_begin (ld s) s = Inr (Some it)" "\<forall>k \<ge> k0. si_drain k (ld s) k it = Inr xs"
    using h(1) unfolding slice_holds_def by blast
  obtain it' k1 where y: "slice_begin (ld s) s = Inr (Some it')" "\<forall>k \<ge> k1. si_drain k (ld s) k it' = Inr ys"
    using h(2) unfolding slice_holds_def by blast
  have "it' = it" using x(1) y(1) by simp
  with x(2) [rule_format, OF max.cobounded1 [of k0 k1]] y(2) [rule_format, OF max.cobounded2 [of k1 k0]]
  show ?thesis by simp
qed

lemma slices_hold_fun: "list_all2 (slice_holds ld) ss As \<Longrightarrow> list_all2 (slice_holds ld) ss Bs \<Longrightarrow> As = Bs"
proof (induction ss arbitrary: As Bs)
  case (Cons s ss)
  obtain A As' B Bs' where ab: "As = A # As'" "slice_holds ld s A" "list_all2 (slice_holds ld) ss As'"
    "Bs = B # Bs'" "slice_holds ld s B" "list_all2 (slice_holds ld) ss Bs'"
    using Cons.prems unfolding list_all2_Cons1 by blast
  with Cons.IH [OF ab(3,6)] slice_holds_fun [OF ab(2,5)] show ?case by simp
qed simp

text \<open>Some of the slices replaced by one with the records of their merge.\<close>

lemma replaced_view:
  assumes old: "list_all2 (slice_holds ld) os Ls" "idx_distinct Ls"
    and ss: "list_all2 (slice_holds ld) ss As" and rest: "mset os = mset ss + mset rs" "mset ns = add_mset s (mset rs)"
    and s: "slice_holds ld s xs" "\<forall>K. record_of (part K xs) = visible K As"
  shows "\<exists>Ms. list_all2 (slice_holds ld) ns Ms \<and> idx_distinct Ms \<and> (\<forall>K. visible K Ms = visible K Ls)"
proof -
  obtain Ls' where Ls': "list_all2 (slice_holds ld) (ss @ rs) Ls'" "mset Ls' = mset Ls"
    using mset_contents [OF old(1), of "ss @ rs"] rest(1) by auto
  then obtain As' Bs where b: "Ls' = As' @ Bs" "list_all2 (slice_holds ld) ss As'" "list_all2 (slice_holds ld) rs Bs"
    unfolding list_all2_append1 by blast
  have "As' = As" by (rule slices_hold_fun [OF b(2) ss])
  then have ab: "mset (As @ Bs) = mset Ls" using Ls'(2) b(1) by simp
  have d: "idx_distinct (As @ Bs)" using mset_same(1) [OF ab [symmetric] old(2)] .
  have v1: "visible K (As @ Bs) = visible K Ls" for K
    unfolding visible_def mset_same(2) [OF ab d] by (rule refl)
  have same: "list_all2 (\<lambda>L M. \<forall>K. record_of (part K L) = record_of (part K M)) (merged As # Bs) (xs # Bs)"
    using s(2) by (simp add: visible_merged list_all2_same)
  obtain Ms where Ms: "list_all2 (slice_holds ld) ns Ms" "mset Ms = mset (xs # Bs)"
    using mset_contents [of "slice_holds ld" "s # rs" "xs # Bs" ns] s(1) b(3) rest(2) by auto
  have dx: "idx_distinct (xs # Bs)" using same_records(2) [OF same merged_absorbs(2) [OF d]] .
  note sm = mset_same [OF Ms(2) [symmetric] dx]
  have m: "idx_distinct Ms" "visible K Ms = visible K (xs # Bs)" for K
    unfolding visible_def sm(2) [symmetric] by (rule sm(1), rule refl)
  have "visible K Ms = visible K Ls" for K
    using m(2) [of K] v1 [of K] same_records(1) [OF same, of K] merged_absorbs(1) [OF d, of K] by simp
  with Ms(1) m(1) show ?thesis by blast
qed

lemma length_newest: "length (newest K Ls) \<le> length (part K (concat Ls))"
  using newest_cases [of K Ls]
proof
  assume "newest K Ls \<in> set (rivals K Ls)"
  then obtain L where L: "L \<in> set Ls" "newest K Ls = part K L" by (auto simp: rivals_def)
  then obtain as bs where "Ls = as @ L # bs" by (meson split_list)
  with L show ?thesis by (simp add: part_def)
qed simp

lemma length_parts:
  assumes "\<And>K. length (f K) \<le> length (part K xs)"
  shows "distinct ks \<Longrightarrow> length (concat (map f ks)) \<le> length (filter (\<lambda>i. it_key i \<in> set ks) xs)"
proof (induction ks)
  case (Cons K ks)
  have "length (filter (\<lambda>i. it_key i \<in> set (K # ks)) xs)
      = length (part K xs) + length (filter (\<lambda>i. it_key i \<in> set ks) xs)" for xs
    using Cons.prems by (induction xs) (auto simp: part_def)
  then show ?case using Cons assms [of K] by simp
qed simp

lemma length_merged: "length (merged Ls) \<le> length (concat Ls)"
proof -
  have "length (merged Ls) \<le> length (filter (\<lambda>i. it_key i \<in> set (stream_keys Ls)) (concat Ls))"
    unfolding merged_def by (rule length_parts [OF length_newest]) (simp add: stream_keys_def)
  also have "\<dots> \<le> length (concat Ls)" by (rule length_filter_le)
  finally show ?thesis .
qed

lemma merged_ne: "L \<in> set Ls \<Longrightarrow> L \<noteq> [] \<Longrightarrow> merged Ls \<noteq> []"
proof -
  assume L: "L \<in> set Ls" "L \<noteq> []"
  let ?K = "it_key (hd L)"
  have "part ?K L \<noteq> []" using L(2) by (cases L) (auto simp: part_def)
  then have "rivals ?K Ls \<noteq> []" using L(1) by (auto simp: rivals_def filter_empty_conv)
  then have "newest ?K Ls \<in> set (rivals ?K Ls)" using pick_newest_max unfolding newest_def by blast
  then have "part ?K (merged Ls) \<noteq> []" by (simp add: part_merged rivals_def)
  then show ?thesis by (auto simp: part_def)
qed

text \<open>Slices that arrive while a merge writes its result.\<close>

fun us_add_all :: "slice list \<Rightarrow> ushard \<Rightarrow> (ushard \<times> meta_event list) res" where
  "us_add_all [] u = Inr (u, [])"
| "us_add_all (s # ss) u =
     res_bind (us_add s True u) (\<lambda>(u1, ev1).
     res_bind (us_add_all ss u1) (\<lambda>(u2, ev2). Inr (u2, ev1 @ ev2)))"

lemma us_add_all_prefix:
  "us_add_all ss u = Inr (u', ev) \<Longrightarrow> prefix (tm_slices t (us_tier_map u)) (tm_slices t (us_tier_map u'))"
proof (induction ss arbitrary: u ev)
  case (Cons s ss)
  then obtain u1 ev1 ev2 where a: "us_add s True u = Inr (u1, ev1)" "us_add_all ss u1 = Inr (u', ev2)"
    by (auto simp: res_bind_eq_Inr)
  have "prefix (tm_slices t (us_tier_map u)) (tm_slices t (us_tier_map u1))"
    using us_add_Inr [OF a(1)] by auto
  also have "prefix (tm_slices t (us_tier_map u1)) (tm_slices t (us_tier_map u'))" by (rule Cons.IH [OF a(2)])
  finally show ?case .
qed simp

lemma us_merge_start_ne:
  assumes "us_merge_start tier u = (ss, u1, ev)" "ss \<noteq> []"
  shows "ss = tm_slices tier (us_tier_map u1)" "mset (us_get_slices u1) = mset (us_get_slices u)"
    "max_slices_per_tier < length ss" "ev = [Slices_Removed ss]"
proof -
  have u1: "u1 = u\<lparr>us_tier_map := tm_put tier (tm_slices tier (us_tier_map u)) (us_tier_map u)\<rparr>"
    and ss: "ss = tm_slices tier (us_tier_map u)" "max_slices_per_tier < length ss" "ev = [Slices_Removed ss]"
    using assms by (auto simp: us_merge_start_def us_get_slices_for_def Let_def split: if_splits)
  then show "ss = tm_slices tier (us_tier_map u1)" "max_slices_per_tier < length ss" "ev = [Slices_Removed ss]"
    by (simp_all add: tm_slices_put)
  show "mset (us_get_slices u1) = mset (us_get_slices u)"
    using mset_tm_put [of tier "tm_slices tier (us_tier_map u)" "us_tier_map u"] by (simp add: u1 us_get_slices_def)
qed

lemma tm_slices_sub: "mset (tm_slices t tm) \<subseteq># mset (concat (map snd tm))"
proof (induction tm)
  case (Cons p tm)
  then show ?case by (cases p) (auto simp: tm_slices_def intro: subset_mset.add_increasing)
qed (simp add: tm_slices_def)

text \<open>The slices of a ushard with distinct indices, and what a reader of everything gets.\<close>

definition ushard_holds :: "(slice \<Rightarrow> u64 \<Rightarrow> node res) \<Rightarrow> ushard \<Rightarrow> item list list \<Rightarrow> bool" where
  "ushard_holds ld u Ls \<longleftrightarrow> list_all2 (slice_holds ld) (us_get_slices u) Ls \<and> idx_distinct Ls"

definition reads :: "(slice \<Rightarrow> u64 \<Rightarrow> node res) \<Rightarrow> ushard \<Rightarrow> item list \<Rightarrow> bool" where
  "reads ld u xs \<longleftrightarrow> (\<exists>k0. \<forall>k \<ge> k0. us_read ld k u = Inr xs)"

lemma ushard_holds_reads: "ushard_holds ld u Ls \<Longrightarrow> reads ld u (merged Ls)"
  using us_read_slices by (simp add: ushard_holds_def reads_def)

text \<open>
  C20: A merge changes nothing for a reader: whatever slices arrive while the result is written,
  the ushard afterwards reads, key by key, the value, deletion mark and index that it read
  before, and its slices are again such that it can be read and merged. It is said of the merges of which every page
  written is compressed to at most a page (\<open>pages_fit\<close>), because the others leave a slice that cannot be loaded.
\<close>

theorem ushard_merge_keeps_view:
  assumes lz4: "lz4_ok compress decompress" and ld: "ld = slice_load decompress crc"
    and start: "us_merge_start tier u = (ss, u1, ev1)" "ss \<noteq> []"
    and adds: "us_add_all as u1 = Inr (u2, ev2)"
    and holds: "ushard_holds ld u2 Ls" and len: "length (concat Ls) < 2 ^ 64"
    and build: "us_build compress crc depth ld k ndx False ss = Inr s"
    and fit: "\<forall>w. us_build_writer compress crc depth ld k ndx False ss = Inr w \<longrightarrow> pages_fit compress w"
    and finish: "us_merge_finish tier (length ss) s u2 = Inr (u3, ev3)"
  shows "\<exists>xs ys Ms. reads ld u2 xs \<and> reads ld u3 ys \<and> ushard_holds ld u3 Ms
    \<and> (\<forall>K. record_of (part K ys) = record_of (part K xs))"
proof -
  note st = us_merge_start_ne [OF start]
  have pre: "prefix ss (tm_slices tier (us_tier_map u2))"
    using us_add_all_prefix [OF adds, of tier] st(1) by simp
  then obtain rs' where t: "tm_slices tier (us_tier_map u2) = ss @ rs'" by (auto simp: prefix_def)
  have "mset ss \<subseteq># mset (us_get_slices u2)"
    using tm_slices_sub [of tier "us_tier_map u2"] unfolding t us_get_slices_def
    by (metis mset_append mset_subset_eq_add_left subset_mset.order_trans)
  then obtain rs where rs: "mset (us_get_slices u2) = mset (ss @ rs)"
    by (metis ex_mset mset_append subset_mset.le_iff_add)
  have u3: "mset (us_get_slices u3) = add_mset s (mset rs)"
    using us_merge_finish_Inr [OF finish pre refl] rs by simp
  have h: "list_all2 (slice_holds ld) (us_get_slices u2) Ls" "idx_distinct Ls"
    using holds by (simp_all add: ushard_holds_def)
  obtain Ls' where Ls': "list_all2 (slice_holds ld) (ss @ rs) Ls'" "mset Ls' = mset Ls"
    using mset_contents [OF h(1) rs [symmetric]] by blast
  then obtain As Bs where ab: "Ls' = As @ Bs" "list_all2 (slice_holds ld) ss As"
    by (auto simp: list_all2_append1)
  have "idx_distinct (As @ Bs)" using mset_same(1) Ls'(2) h(2) ab(1) by metis
  then have d: "idx_distinct As" by (auto simp: idx_distinct_def rivals_append)
  have "length (concat Ls') = length (concat Ls)"
    using mset_sum_length [OF Ls'(2)] by (simp add: length_concat)
  then have l: "length (merged As) < 2 ^ 64" using length_merged [of As] len by (simp add: ab(1))
  obtain A As' where "As = A # As'" using ab(2) start(2) by (cases As) auto
  then have "merged As \<noteq> []" using slice_holds_streams [OF ab(2)] by (intro merged_ne [of A]) auto
  then obtain xs where xs: "slice_holds ld s xs" "\<forall>K. record_of (part K xs) = visible K As"
    using built_slice(2) [OF lz4 fit ab(2) d _ _ build, of "merged As"] l unfolding ld by (auto simp: visible_merged)
  obtain Ms where Ms: "list_all2 (slice_holds ld) (us_get_slices u3) Ms" "idx_distinct Ms"
    "\<forall>K. visible K Ms = visible K Ls"
    using replaced_view [OF h ab(2) _ u3 xs] rs by auto
  then have "ushard_holds ld u3 Ms" by (simp add: ushard_holds_def)
  then show ?thesis
    using ushard_holds_reads [OF holds] ushard_holds_reads [of ld u3 Ms] Ms(3) by (metis visible_merged)
qed

section \<open>Compaction\<close>

lemma record_stream_deleted:
  "record_stream (x # xs) \<Longrightarrow> \<forall>y \<in> set xs. it_key y = it_key x \<longrightarrow> \<not> it_deleted y"
proof (induction xs arbitrary: x)
  case (Cons y ys)
  have m: "may_follow x y" "record_stream (y # ys)" using Cons.prems by (simp_all add: record_stream_Cons)
  show ?case
  proof (cases "it_eor x")
    case True
    then show ?thesis using record_stream_head [OF Cons.prems] by fastforce
  next
    case False
    then show ?thesis using m Cons.IH [OF m(2)] by (auto simp: may_follow_def)
  qed
qed simp

lemma part_filter_deleted:
  assumes "record_stream xs"
  shows "record_of (part K (filter (\<lambda>i. \<not> it_deleted i) xs))
    = (case record_of (part K xs) of Some (v, d, i) \<Rightarrow> if d then None else Some (v, d, i) | None \<Rightarrow> None)"
proof (cases "part K xs")
  case Nil
  then have "part K (filter (\<lambda>i. \<not> it_deleted i) xs) = []" by (auto simp: part_def filter_empty_conv)
  then show ?thesis using Nil by (simp add: record_of_def)
next
  case (Cons p ps)
  have f: "part K (filter (\<lambda>i. \<not> it_deleted i) xs) = filter (\<lambda>i. \<not> it_deleted i) (part K xs)"
    by (simp add: part_def) (meson conj_commute)
  have rs: "record_stream (p # ps)" using record_stream_part [OF assms, of K] Cons by simp
  have "\<forall>y \<in> set (part K xs). it_key y = K" by (simp add: part_def)
  then have k: "\<forall>y \<in> set ps. it_key y = it_key p" by (simp add: Cons)
  show ?thesis
  proof (cases "it_deleted p")
    case True
    then have "it_eor p" using rs by (simp add: record_stream_Cons well_formed_item_def)
    then have lt: "\<forall>y \<in> set ps. it_key p < it_key y" using record_stream_head [OF rs] by blast
    have "ps = []"
    proof (rule ccontr)
      assume "ps \<noteq> []"
      then obtain y where "y \<in> set ps" by (meson hd_in_set)
      then show False using lt k by (metis order_less_irrefl)
    qed
    then show ?thesis unfolding f Cons using True by (simp add: record_of_def)
  next
    case False
    have "filter (\<lambda>i. \<not> it_deleted i) ps = ps"
      using record_stream_deleted [OF rs] k by (intro filter_True) simp
    then show ?thesis unfolding f Cons using False by (simp add: record_of_def)
  qed
qed

lemma us_remove_all_Inr:
  "us_remove_all cp u = Inr (u', ev) \<Longrightarrow> distinct (map fst cp) \<Longrightarrow>
    \<forall>(t, ss) \<in> set cp. prefix ss (tm_slices t (us_tier_map u)) \<Longrightarrow>
    mset (us_get_slices u') + mset (concat (map snd cp)) = mset (us_get_slices u)"
proof (induction cp arbitrary: u ev)
  case (Cons p cp)
  obtain t ss where p: "p = (t, ss)" by (cases p)
  obtain u1 ev1 ev2 where r: "us_remove_from t (length ss) u = Inr (u1, ev1)" "us_remove_all cp u1 = Inr (u', ev2)"
    using Cons.prems(1) by (auto simp: p res_bind_eq_Inr)
  note rm = us_remove_from_Inr [OF r(1)]
  have pre: "prefix ss (tm_slices t (us_tier_map u))" using Cons.prems(3) by (simp add: p)
  then have "take (length ss) (tm_slices t (us_tier_map u)) = ss" by (auto simp: prefix_def)
  moreover have "\<forall>(t', ss') \<in> set cp. prefix ss' (tm_slices t' (us_tier_map u1))"
    using Cons.prems(2,3) rm by (force simp: p)
  ultimately show ?case
    using Cons.IH [OF r(2)] Cons.prems(2) rm by (simp add: p ac_simps)
qed simp

lemma tm_slices_mem: "distinct (map fst tm) \<Longrightarrow> (t, ss) \<in> set tm \<Longrightarrow> tm_slices t tm = ss"
  by (simp add: tm_slices_def)

lemma us_compact_finish_Inr:
  assumes "us_compact_finish cp s u = Inr (u', ev)" "distinct (map fst cp)"
    "\<forall>(t, ss) \<in> set cp. prefix ss (tm_slices t (us_tier_map u))"
  shows "mset (us_get_slices u') + mset (concat (map snd cp)) = add_mset s (mset (us_get_slices u))"
    "sl_key_count s \<noteq> 0"
proof -
  obtain u1 ev1 ev2 where a: "us_add s True u = Inr (u1, ev1)" and r: "us_remove_all cp u1 = Inr (u', ev2)"
    using assms(1) by (auto simp: us_compact_finish_def res_bind_eq_Inr)
  have "\<forall>(t, ss) \<in> set cp. prefix ss (tm_slices t (us_tier_map u1))"
    using us_add_Inr [OF a] assms(3) by (fastforce simp: prefix_def)
  then show "mset (us_get_slices u') + mset (concat (map snd cp)) = add_mset s (mset (us_get_slices u))"
    using us_remove_all_Inr [OF r assms(2)] us_add_Inr [OF a] by auto
  show "sl_key_count s \<noteq> 0" using us_add_Inr [OF a] by (auto simp: tier_of_def split: if_splits)
qed

lemma tiers_prefix:
  "distinct (map fst tm) \<Longrightarrow> \<forall>(t, ss) \<in> set tm. prefix ss (tm_slices t tm)"
  using tm_slices_mem by fastforce

text \<open>
  C21: A compaction leaves one slice, which reads as the ushard did except that the records marked
  deleted are gone. (With nothing but deleted records there is no such slice: \<open>tier_of\<close> is undefined.) As for
  merges, every page written has to fit.
\<close>

theorem ushard_compact_view:
  assumes lz4: "lz4_ok compress decompress" and ld: "ld = slice_load decompress crc"
    and holds: "ushard_holds ld u Ls" "distinct (map fst (us_tier_map u))" "length (concat Ls) < 2 ^ 64"
    and two: "2 \<le> length (us_get_slices u)"
    and run: "us_compact compress crc depth ld k ndx u = Inr (n, u', ev)"
    and fit: "\<forall>w. us_build_writer compress crc depth ld k ndx True (us_get_slices u) = Inr w \<longrightarrow> pages_fit compress w"
  shows "\<exists>xs ys s. us_get_slices u' = [s] \<and> reads ld u xs \<and> reads ld u' ys
    \<and> (\<forall>K. record_of (part K ys)
        = (case record_of (part K xs) of Some (v, d, i) \<Rightarrow> if d then None else Some (v, d, i) | None \<Rightarrow> None))"
proof -
  let ?ss = "us_get_slices u" and ?js = "filter (\<lambda>i. \<not> (True \<and> it_deleted i)) (merged Ls)"
  have h: "list_all2 (slice_holds ld) ?ss Ls" "idx_distinct Ls" using holds(1) by (simp_all add: ushard_holds_def)
  obtain s ev2 where b: "us_build compress crc depth ld k ndx True ?ss = Inr s"
    and f: "us_compact_finish (us_tier_map u) s u = Inr (u', ev2)"
    using run two by (auto simp: us_compact_def us_compact_start_def Let_def res_bind_eq_Inr split: if_splits)
  note fin' = us_compact_finish_Inr [OF f holds(2) tiers_prefix [OF holds(2)]]
  then have "mset (us_get_slices u') = {#s#}" by (simp add: us_get_slices_def)
  then have fin: "us_get_slices u' = [s]" "sl_key_count s \<noteq> 0" using fin'(2) by (metis mset_single_iff_right, simp)
  have len: "length ?js < 2 ^ 64"
    using length_merged [of Ls] length_filter_le [of "\<lambda>i. \<not> (True \<and> it_deleted i)" "merged Ls"] holds(3) by linarith
  note bs = built_slice [OF lz4 fit h refl len b]
  have "?js \<noteq> []" using bs(1) fin(2) by auto
  then obtain xs where xs: "slice_holds ld s xs" "\<forall>K. record_of (part K xs) = record_of (part K ?js)"
    using bs(2) ld by blast
  have d: "idx_distinct [xs]" by (simp add: idx_distinct_def rivals_def)
  then have "ushard_holds ld u' [xs]" using fin(1) xs(1) by (simp add: ushard_holds_def)
  then have r: "reads ld u' (merged [xs])" by (rule ushard_holds_reads)
  have "record_of (part K (merged [xs])) = record_of (part K xs)" for K
    unfolding visible_merged by (simp add: visible_def newest_def rivals_def pick_newest_def)
  moreover have "record_stream (merged Ls)" using record_stream_merged slice_holds_streams [OF h(1)] by blast
  ultimately have "\<forall>K. record_of (part K (merged [xs])) = (case record_of (part K (merged Ls)) of
      Some (v, d, i) \<Rightarrow> if d then None else Some (v, d, i) | None \<Rightarrow> None)"
    using xs(2) part_filter_deleted by simp
  then show ?thesis using fin(1) r ushard_holds_reads [OF holds(1)] by blast
qed

end
