(* ===== verification/Ushard_Tiers.thy ===== *)
theory Ushard_Tiers
  imports Ushard
begin

text \<open>
  How the tiers of a ushard evolve while slices are added and merges and compactions run. \<open>us_run\<close> is the
  step relation: its second argument holds the merges asked for and not yet started, its third the
  slices the ushard is meant to own.
\<close>

section \<open>How large the slices of a tier are\<close>

lemma clzll_bits:
  assumes "x \<noteq> 0"
  shows "clzll x < 64" "bit x (63 - clzll x)" "\<And>i. bit x i \<Longrightarrow> i \<le> 63 - clzll x"
proof -
  let ?n = "clzll x" and ?bs = "bits_of 64 x"
  obtain i where i: "bit x i" using assms by (auto simp: bit_eq_iff)
  then have i64: "i < 64" using bit_imp_le_length [OF i] by simp
  have "?bs ! (63 - i)" using i i64 by simp
  moreover have "63 - i < length ?bs" by simp
  ultimately have "\<exists>b \<in> set ?bs. \<not> Not b" using nth_mem by blast
  then have "takeWhile Not ?bs \<noteq> ?bs" by (metis set_takeWhileD)
  moreover have "length (takeWhile Not ?bs) \<le> length ?bs" by (rule length_takeWhile_le)
  ultimately have "length (takeWhile Not ?bs) < length ?bs"
    by (metis le_neq_implies_less takeWhile_eq_take take_all order_refl)
  then show n: "?n < 64" by (simp add: clzll_def)
  have "\<not> Not (?bs ! ?n)" unfolding clzll_def using n
    by (intro nth_length_takeWhile) (simp add: clzll_def)
  then show "bit x (63 - ?n)" using n by simp
  show "j \<le> 63 - ?n" if "bit x j" for j
  proof (rule ccontr)
    assume "\<not> j \<le> 63 - ?n"
    moreover have "j < 64" using bit_imp_le_length [OF that] by simp
    ultimately have j: "63 - j < ?n" "?bs ! (63 - j)" using that by simp_all
    then have "takeWhile Not ?bs ! (63 - j) = ?bs ! (63 - j)" by (simp add: clzll_def takeWhile_nth)
    moreover have "Not (takeWhile Not ?bs ! (63 - j))"
      using j(1) unfolding clzll_def by (metis nth_mem set_takeWhileD)
    ultimately show False using j(2) by simp
  qed
qed

lemma tier_size:
  assumes "tier_of s = Inr t"
  shows "unat t \<le> 16 \<and> 2 ^ (4 * unat t) \<le> 2 * unat (sl_key_count s)
    \<and> 2 * unat (sl_key_count s) < 2 ^ (4 * unat t + 4)"
proof -
  let ?x = "sl_key_count s"
  have x: "?x \<noteq> 0" and t: "t = drop_bit 2 (of_nat (64 - clzll ?x))"
    using assms by (auto simp: tier_of_def split: if_splits)
  note c = clzll_bits [OF x]
  define b where "b = 63 - clzll ?x"
  have sb: "64 - clzll ?x = Suc b" "b < 64" using c(1) by (simp_all add: b_def)
  have "unat t = unat (of_nat (Suc b) :: u32) div 4"
    unfolding t sb(1) by (simp add: drop_bit_eq_div unat_div del: of_nat_Suc)
  also have "unat (of_nat (Suc b) :: u32) = Suc b" using sb(2) by (intro unat_word_of_nat) simp
  finally have ut: "unat t = Suc b div 4" .
  have lo: "2 ^ b \<le> unat ?x"
  proof -
    have "bit (unat ?x) b" using c(2) by (simp add: b_def bit_unsigned_iff)
    then show ?thesis by (metis bit_iff_odd div_less even_zero linorder_not_less)
  qed
  have hi: "unat ?x < 2 ^ Suc b"
  proof -
    have "take_bit (Suc b) ?x = ?x"
      by (rule bit_word_eqI) (use c(3) in \<open>auto simp: bit_take_bit_iff b_def less_Suc_eq_le\<close>)
    then have "take_bit (Suc b) (unat ?x) = unat ?x" by (metis unsigned_take_bit_eq)
    then show ?thesis by (metis take_bit_nat_less_exp)
  qed
  have "(2 :: nat) ^ (4 * unat t) \<le> 2 ^ Suc b" unfolding ut by (intro power_increasing) auto
  moreover have "(2 :: nat) ^ Suc (Suc b) \<le> 2 ^ (4 * unat t + 4)" unfolding ut by (intro power_increasing) auto
  moreover have "unat t \<le> 16" unfolding ut using sb(2) by simp
  ultimately show ?thesis using lo hi by simp
qed

section \<open>Runs\<close>

definition wanted :: "meta_event list \<Rightarrow> u16 set" where
  "wanted ev = {w. Merge_Wanted w \<in> set ev}"

inductive us_run :: "ushard \<Rightarrow> u16 set \<Rightarrow> slice multiset \<Rightarrow> bool" where
  run_init: "us_run ushard_init {} {#}"
| run_add: "us_run u P H \<Longrightarrow> us_add s True u = Inr (u', ev) \<Longrightarrow> us_run u' (P \<union> wanted ev) (add_mset s H)"
| run_merge: "us_run u P H \<Longrightarrow> w \<in> P \<Longrightarrow> us_merge_start (ucast w) u = (ss, u1, ev1) \<Longrightarrow> ss \<noteq> [] \<Longrightarrow>
    us_add_all as u1 = Inr (u2, ev2) \<Longrightarrow> us_merge_finish (ucast w) (length ss) s u2 = Inr (u3, ev3) \<Longrightarrow>
    us_run u3 (P - {w} \<union> wanted (ev1 @ ev2 @ ev3)) (add_mset s (H + mset as - mset ss))"
| run_merge_none: "us_run u P H \<Longrightarrow> w \<in> P \<Longrightarrow> us_merge_start (ucast w) u = ([], u1, ev1) \<Longrightarrow> us_run u1 (P - {w}) H"
| run_compact: "us_run u P H \<Longrightarrow> us_compact_start u = (ss, cp, ev1) \<Longrightarrow> ss \<noteq> [] \<Longrightarrow>
    us_add_all as u = Inr (u1, ev2) \<Longrightarrow> us_compact_finish cp s u1 = Inr (u2, ev3) \<Longrightarrow>
    us_run u2 (P \<union> wanted (ev1 @ ev2 @ ev3)) (add_mset s (H + mset as - mset ss))"

text \<open>The tiers are filed by size, and an overfull one is known to the caller, a tier \<open>x\<close> excepted.\<close>

definition filed :: "tier_map \<Rightarrow> bool" where
  "filed tm \<longleftrightarrow> distinct (map fst tm) \<and> (\<forall>t. \<forall>s \<in> set (tm_slices t tm). tier_of s = Inr t)"

definition known :: "u32 set \<Rightarrow> tier_map \<Rightarrow> u16 set \<Rightarrow> bool" where
  "known X tm P \<longleftrightarrow> (\<forall>t. max_slices_per_tier < length (tm_slices t tm) \<longrightarrow> t \<in> X \<or> ucast t \<in> P)"

lemma keys_tm_put: "set (map fst (tm_put t ss tm)) = insert t (set (map fst tm))"
  by (induction t ss tm rule: tm_put.induct) auto

lemma distinct_tm_put: "distinct (map fst tm) \<Longrightarrow> distinct (map fst (tm_put t ss tm))"
proof (induction t ss tm rule: tm_put.induct)
  case (2 t ss t' ss' tm)
  then show ?case using keys_tm_put [of t ss tm] by auto
qed simp

lemma filed_put: "filed tm \<Longrightarrow> \<forall>s \<in> set ss. tier_of s = Inr t \<Longrightarrow> filed (tm_put t ss tm)"
  by (auto simp: filed_def distinct_tm_put tm_slices_put)

lemma known_put:
  "known X tm P \<Longrightarrow> (max_slices_per_tier < length ss \<Longrightarrow> t \<in> X \<or> ucast t \<in> P') \<Longrightarrow> known X (tm_put t ss tm) (P \<union> P')"
  by (auto simp: known_def tm_slices_put)

lemma us_add_kept:
  assumes "us_add s True u = Inr (u', ev)" "filed (us_tier_map u)" "known X (us_tier_map u) P"
  shows "filed (us_tier_map u')" "known X (us_tier_map u') (P \<union> wanted ev)"
proof -
  obtain t where t: "tier_of s = Inr t"
    "u' = u\<lparr>us_tier_map := tm_put t (tm_slices t (us_tier_map u) @ [s]) (us_tier_map u)\<rparr>"
    "max_slices_per_tier < length (tm_slices t (us_tier_map u) @ [s]) \<Longrightarrow> Merge_Wanted (ucast t) \<in> set ev"
    using assms(1) by (auto simp: us_add_def res_bind_eq_Inr Let_def)
  show "filed (us_tier_map u')" using assms(2) t(1,2) by (auto simp: filed_def intro!: filed_put [unfolded filed_def])
  show "known X (us_tier_map u') (P \<union> wanted ev)"
    unfolding t(2) using assms(3) t(3) by (auto simp: wanted_def intro: known_put)
qed

lemma us_add_all_kept:
  "us_add_all ss u = Inr (u', ev) \<Longrightarrow> filed (us_tier_map u) \<Longrightarrow> known X (us_tier_map u) P \<Longrightarrow>
    filed (us_tier_map u') \<and> known X (us_tier_map u') (P \<union> wanted ev)
    \<and> mset (us_get_slices u') = mset ss + mset (us_get_slices u)"
proof (induction ss arbitrary: u ev P)
  case (Cons s ss)
  then obtain u1 ev1 ev2 where a: "us_add s True u = Inr (u1, ev1)" "us_add_all ss u1 = Inr (u', ev2)" "ev = ev1 @ ev2"
    by (auto simp: res_bind_eq_Inr)
  have "P \<union> wanted ev = (P \<union> wanted ev1) \<union> wanted ev2" by (auto simp: a(3) wanted_def)
  with Cons.IH [OF a(2) us_add_kept [OF a(1) Cons.prems(2,3)]] us_add_Inr [OF a(1)] show ?case by auto
qed (simp add: wanted_def)

lemma us_remove_from_kept:
  assumes "us_remove_from t n u = Inr (u', ev)" "filed (us_tier_map u)" "known X (us_tier_map u) P"
  shows "filed (us_tier_map u')" "known (X - {t}) (us_tier_map u') (P \<union> wanted ev)"
proof -
  let ?ss = "drop n (tm_slices t (us_tier_map u))"
  have u': "u' = u\<lparr>us_tier_map := tm_put t ?ss (us_tier_map u)\<rparr>"
    "max_slices_per_tier < length ?ss \<Longrightarrow> Merge_Wanted (ucast t) \<in> set ev"
    using assms(1) by (auto simp: us_remove_from_def Let_def split: if_splits)
  have "\<forall>s \<in> set ?ss. tier_of s = Inr t" using assms(2) in_set_dropD unfolding filed_def by fast
  then show "filed (us_tier_map u')" using filed_put [OF assms(2)] u'(1) by simp
  show "known (X - {t}) (us_tier_map u') (P \<union> wanted ev)"
    using assms(3) u' by (auto simp: known_def tm_slices_put wanted_def split: if_splits)
qed

lemma us_remove_all_kept:
  "us_remove_all cp u = Inr (u', ev) \<Longrightarrow> filed (us_tier_map u) \<Longrightarrow> known {} (us_tier_map u) P \<Longrightarrow>
    filed (us_tier_map u') \<and> known {} (us_tier_map u') (P \<union> wanted ev)"
proof (induction cp arbitrary: u ev P)
  case (Cons p cp)
  obtain t ss where p: "p = (t, ss)" by (cases p)
  obtain u1 ev1 ev2 where r: "us_remove_from t (length ss) u = Inr (u1, ev1)" "us_remove_all cp u1 = Inr (u', ev2)"
    "ev = ev1 @ ev2"
    using Cons.prems(1) by (auto simp: p res_bind_eq_Inr)
  have "P \<union> wanted ev = (P \<union> wanted ev1) \<union> wanted ev2" by (auto simp: r(3) wanted_def)
  with Cons.IH [OF r(2)] us_remove_from_kept [OF r(1) Cons.prems(2,3)] show ?case by simp
qed (simp add: wanted_def)

text \<open>Tiers are small, so a request names one of them.\<close>

lemma request_names_tier:
  assumes "filed tm" "tm_slices t tm \<noteq> []" "ucast t = (w :: u16)"
  shows "t = ucast w"
proof -
  obtain s where "tier_of s = Inr t" using assms(1,2) unfolding filed_def by (meson hd_in_set)
  then have "unat t < 2 ^ 16" using tier_size by fastforce
  then have "unat w = unat t"
    by (simp add: assms(3) [symmetric] unsigned_ucast_eq take_bit_nat_eq_self)
  moreover have "unat (ucast w :: u32) = unat w" by (rule unat_ucast_up) simp
  ultimately have "unat t = unat (ucast w :: u32)" by simp
  then show ?thesis by (metis word_unat_eq_iff)
qed

lemma us_merge_start_kept:
  assumes "us_merge_start (ucast w) u = (ss, u1, ev)" "filed (us_tier_map u)" "known {} (us_tier_map u) P"
  shows "filed (us_tier_map u1)" "known {ucast w} (us_tier_map u1) (P - {w})"
    "ss = [] \<Longrightarrow> known {} (us_tier_map u1) (P - {w})" "mset (us_get_slices u1) = mset (us_get_slices u)"
    "wanted ev = {}"
proof -
  let ?t = "ucast w :: u32"
  let ?ts = "tm_slices ?t (us_tier_map u)"
  have u1: "u1 = u\<lparr>us_tier_map := tm_put ?t ?ts (us_tier_map u)\<rparr>"
    and ss: "ss = [] \<longrightarrow> length ?ts \<le> max_slices_per_tier"
    and ev: "wanted ev = {}"
    using assms(1) by (auto simp: us_merge_start_def us_get_slices_for_def Let_def wanted_def split: if_splits)
  show "wanted ev = {}" by (rule ev)
  show "filed (us_tier_map u1)" using assms(2) by (auto simp: u1 filed_def intro!: filed_put [unfolded filed_def])
  show k: "known {?t} (us_tier_map u1) (P - {w})"
    unfolding known_def
  proof (intro allI impI)
    fix t assume a: "max_slices_per_tier < length (tm_slices t (us_tier_map u1))"
    then have "max_slices_per_tier < length (tm_slices t (us_tier_map u))" by (auto simp: u1 tm_slices_put split: if_splits)
    then have "ucast t \<in> P" "tm_slices t (us_tier_map u) \<noteq> []" using assms(3) by (auto simp: known_def)
    then show "t \<in> {?t} \<or> ucast t \<in> P - {w}" using request_names_tier [OF assms(2)] by blast
  qed
  show "known {} (us_tier_map u1) (P - {w})" if "ss = []"
    using k ss that by (auto simp: known_def u1 tm_slices_put split: if_splits)
  show "mset (us_get_slices u1) = mset (us_get_slices u)"
    using mset_tm_put [of ?t ?ts "us_tier_map u"] by (simp add: u1 us_get_slices_def)
qed

lemma run_kept:
  "us_run u P H \<Longrightarrow> filed (us_tier_map u) \<and> known {} (us_tier_map u) P \<and> mset (us_get_slices u) = H"
proof (induction rule: us_run.induct)
  case run_init
  show ?case by (simp add: ushard_init_def filed_def known_def tm_slices_def us_get_slices_def)
next
  case (run_add u P H s u' ev)
  then show ?case using us_add_kept [OF run_add(2)] us_add_Inr [OF run_add(2)] by auto
next
  case (run_merge u P H w ss u1 ev1 as u2 ev2 s u3 ev3)
  have ih: "filed (us_tier_map u)" "known {} (us_tier_map u) P" "mset (us_get_slices u) = H"
    using run_merge.IH by simp_all
  note st = us_merge_start_kept [OF run_merge(3) ih(1,2)]
  note ad = us_add_all_kept [OF run_merge(5) st(1,2)]
  note ne = us_merge_start_ne [OF run_merge(3,4)]
  have pre: "prefix ss (tm_slices (ucast w) (us_tier_map u2))"
    using us_add_all_prefix [OF run_merge(5), of "ucast w"] ne(1) by simp
  have fin: "mset (us_get_slices u3) + mset ss = add_mset s (mset (us_get_slices u2))"
    by (rule us_merge_finish_Inr [OF run_merge(6) pre refl])
  obtain u' e1 e2 where f: "us_add s True u2 = Inr (u', e1)" "us_remove_from (ucast w) (length ss) u' = Inr (u3, e2)"
    "ev3 = e1 @ e2"
    using run_merge(6) by (auto simp: us_merge_finish_def res_bind_eq_Inr)
  note fa = us_add_kept [OF f(1)]
  have "filed (us_tier_map u3)" "known ({ucast w} - {ucast w}) (us_tier_map u3) (P - {w} \<union> wanted ev2 \<union> wanted e1 \<union> wanted e2)"
    using us_remove_from_kept [OF f(2)] us_add_kept [OF f(1)] ad by blast+
  moreover have "P - {w} \<union> wanted (ev1 @ ev2 @ ev3) = P - {w} \<union> wanted ev2 \<union> wanted e1 \<union> wanted e2"
    using st(5) by (auto simp: f(3) wanted_def)
  moreover have "mset (us_get_slices u3) = add_mset s (H + mset as - mset ss)"
  proof -
    have m: "mset (us_get_slices u2) = H + mset as" using ad st(4) ih(3) by simp
    have "mset ss \<subseteq># mset (us_get_slices u2)"
      using pre tm_slices_sub [of "ucast w" "us_tier_map u2"] unfolding us_get_slices_def prefix_def
      by (metis mset_append mset_subset_eq_add_left subset_mset.order_trans)
    then show ?thesis using fin m by (metis add_diff_cancel_right' add_mset_add_single subset_mset.add_diff_assoc2)
  qed
  ultimately show ?case by simp
next
  case (run_merge_none u P H w u1 ev1)
  then show ?case using us_merge_start_kept [OF run_merge_none(3)] by auto
next
  case (run_compact u P H ss cp ev1 as u1 ev2 s u2 ev3)
  have ih: "filed (us_tier_map u)" "known {} (us_tier_map u) P" "mset (us_get_slices u) = H"
    using run_compact.IH by simp_all
  have st: "cp = us_tier_map u" "ss = us_get_slices u" "wanted ev1 = {}"
    using run_compact(2,3) by (auto simp: us_compact_start_def Let_def wanted_def split: if_splits)
  note ad = us_add_all_kept [OF run_compact(4) ih(1,2)]
  have d: "distinct (map fst (us_tier_map u))" using ih(1) by (simp add: filed_def)
  have pre: "\<forall>(t, ss) \<in> set cp. prefix ss (tm_slices t (us_tier_map u1))"
    using tiers_prefix [OF d] us_add_all_prefix [OF run_compact(4)] st(1) by (fastforce intro: prefix_order.trans)
  have fin: "mset (us_get_slices u2) + mset ss = add_mset s (mset (us_get_slices u1))"
    using us_compact_finish_Inr(1) [OF run_compact(5) _ pre] d st by (simp add: us_get_slices_def)
  obtain u' e1 e2 where f: "us_add s True u1 = Inr (u', e1)" "us_remove_all cp u' = Inr (u2, e2)" "ev3 = e1 @ e2"
    using run_compact(5) by (auto simp: us_compact_finish_def res_bind_eq_Inr)
  have "filed (us_tier_map u2) \<and> known {} (us_tier_map u2) (P \<union> wanted ev2 \<union> wanted e1 \<union> wanted e2)"
    using us_remove_all_kept [OF f(2)] us_add_kept [OF f(1)] ad by blast
  moreover have "P \<union> wanted (ev1 @ ev2 @ ev3) = P \<union> wanted ev2 \<union> wanted e1 \<union> wanted e2"
    using st(3) by (auto simp: f(3) wanted_def)
  moreover have "mset (us_get_slices u2) = add_mset s (H + mset as - mset ss)"
  proof -
    have m: "mset (us_get_slices u1) = mset as + mset ss" "H = mset ss" using ad ih(3) st(2) by simp_all
    then show ?thesis using fin by (simp add: add.commute)
  qed
  ultimately show ?case by simp
qed

text \<open>
  C22: However additions, merges and compactions follow one another, slices arriving while a result
  is written included, the ushard owns exactly the slices added or written and not since replaced, each
  tier occurs once and holds slices of its size (tier \<open>t\<close> those whose key count has \<open>4 t\<close> to \<open>4 t + 3\<close> bits), and every tier with more
  than four slices has a merge request outstanding.
\<close>

theorem ushard_tiers_kept:
  assumes "us_run u P H"
  shows "mset (us_get_slices u) = H \<and> distinct (map fst (us_tier_map u))
    \<and> (\<forall>(t, ss) \<in> set (us_tier_map u).
         (\<forall>s \<in> set ss. unat t \<le> 16 \<and> 2 ^ (4 * unat t) \<le> 2 * unat (sl_key_count s)
            \<and> 2 * unat (sl_key_count s) < 2 ^ (4 * unat t + 4))
         \<and> (max_slices_per_tier < length ss \<longrightarrow> ucast t \<in> P))"
proof -
  have k: "filed (us_tier_map u)" "known {} (us_tier_map u) P" "mset (us_get_slices u) = H"
    using run_kept [OF assms] by simp_all
  have d: "distinct (map fst (us_tier_map u))" using k(1) by (simp add: filed_def)
  have "tm_slices t (us_tier_map u) = ss" if "(t, ss) \<in> set (us_tier_map u)" for t ss
    by (rule tm_slices_mem [OF d that])
  then show ?thesis
    using k d tier_size by (fastforce simp: filed_def known_def)
qed

section \<open>Applying the theorems on ushards\<close>

lemma tier_of_one: "sl_key_count s = 1 \<Longrightarrow> tier_of s = Inr 0"
proof -
  have "clzll 1 = 63" by (simp add: clzll_def) code_simp
  then show "sl_key_count s = 1 \<Longrightarrow> ?thesis" by (simp add: tier_of_def)
qed

definition version :: "nat \<Rightarrow> item" where
  "version j = \<lparr>it_key = [7], it_value = [], it_eor = True, it_deleted = False, it_idx = of_nat j\<rparr>"

abbreviation sample_ld :: "slice \<Rightarrow> u64 \<Rightarrow> node res" where
  "sample_ld \<equiv> slice_load Some (\<lambda>_. 0)"

lemma pieces_of_single:
  assumes "pieces_of i es" "it_value i = []"
  obtains e where "es = [e]" "item_of e = i"
proof -
  have "length es = 1" using assms by (simp add: pieces_of_def)
  then obtain e where e: "es = [e]" by (auto simp: length_Suc_conv)
  have "pe_value e = []" "pe_eor e = it_eor i" "pe_key e = it_key i" "pe_deleted e = it_deleted i"
    "pe_attrs e = le_bytes 8 (it_idx i)"
    using assms by (simp_all add: pieces_of_def e)
  then have "item_of e = i" using assms(2) by (simp add: item_of_def le_word_le_bytes_full)
  with e show thesis by (rule that)
qed

lemma version_written:
  assumes "j < 5"
  shows "\<exists>w w' s w''. sw_add_all stored_lz4 (\<lambda>_. 0) 1 1 compact [version j] (slice_writer_init 0) = Inr w
    \<and> sw_flush stored_lz4 (\<lambda>_. 0) 1 w = Inr w' \<and> sw_commit w' = Inr (s, w'')
    \<and> slice_holds sample_ld s [version j] \<and> sl_key_count s = 1"
proof -
  have "it_idx (version j) < max_idx"
    using assms by (simp add: version_def max_idx_def word_less_nat_alt unat_word_of_nat)
  then obtain w w' s w'' where r: "sw_add_all stored_lz4 (\<lambda>_. 0) 1 1 compact [version j] (slice_writer_init 0) = Inr w"
    "sw_flush stored_lz4 (\<lambda>_. 0) 1 w = Inr w'" "sw_commit w' = Inr (s, w'')"
    using one_item_slice [OF stored_lz4_ok(2), where i = "version j" and crc = "\<lambda>_. 0" and ndx = 0 and compact = compact]
    by (auto simp: version_def max_key_size_def)
  have js: "[version j] = filter (\<lambda>i. \<not> (compact \<and> it_deleted i)) [version j]" by (simp add: version_def)
  have f: "list_all item_fits [version j]" by (simp add: version_def item_fits_def)
  obtain ess it n where ess: "list_all2 pieces_of [version j] ess"
    "slice_begin (cache_load Some (\<lambda>_. 0) (sl_reader s)) s = Inr (Some it)"
    "\<forall>m \<ge> n. si_drain m (cache_load Some (\<lambda>_. 0) (sl_reader s)) m it = Inr (map item_of (concat ess))"
    using slice_scan_fit [OF stored_lz4_ok(1) stored_pages_fit r js f] by auto
  obtain es where es: "ess = [es]" "pieces_of (version j) es" using ess(1) by (auto simp: list_all2_Cons1)
  obtain e where e: "es = [e]" "item_of e = version j"
    by (rule pieces_of_single [OF es(2)]) (simp add: version_def)
  then have "slice_holds sample_ld s [version j]"
  proof -
    have "map item_of (concat ess) = [version j]" by (simp add: es(1) e)
    moreover have "record_stream [version j]"
      by (simp add: record_stream_def well_formed_item_def version_def max_key_size_def)
    ultimately show ?thesis
      unfolding slice_holds_def slice_load_def using ess(2,3) f
      by (intro conjI exI [of _ it] exI [of _ n]) (simp_all del: si_drain.simps)
  qed
  moreover have "sl_key_count s = 1" unfolding slice_key_count [OF r] js [symmetric] by simp
  ultimately show ?thesis using r by (intro exI conjI)
qed

abbreviation versions :: "item list list" where
  "versions \<equiv> map (\<lambda>j. [version j]) [0..<5]"

lemma versions_merged: "merged versions = [version 4]" "idx_distinct versions"
proof -
  have r: "rivals K versions = (if K = [7] then versions else [])" for K
    by (simp add: rivals_def part_def version_def upt_conv_Cons)
  have "stream_keys versions = [[7]]" by (simp add: stream_keys_def version_def upt_conv_Cons)
  then show "merged versions = [version 4]"
    by (simp add: merged_def newest_def r) (simp add: pick_newest_def version_def upt_conv_Cons)
  show "idx_distinct versions"
    by (simp add: idx_distinct_def r) (simp add: version_def upt_conv_Cons)
qed

lemma sample_tier:
  obtains ss where "list_all2 (slice_holds sample_ld) ss versions" "length ss = 5" "\<forall>s \<in> set ss. sl_key_count s = 1"
proof -
  have "\<forall>j. \<exists>s. j < 5 \<longrightarrow> slice_holds sample_ld s [version j] \<and> sl_key_count s = 1"
    using version_written [where compact = False] by blast
  then obtain f where f: "\<forall>j < 5. slice_holds sample_ld (f j) [version j] \<and> sl_key_count (f j) = 1"
    unfolding choice_iff by blast
  then have "list_all2 (slice_holds sample_ld) (map f [0..<5]) versions"
    "\<forall>s \<in> set (map f [0..<5]). sl_key_count s = 1"
    by (auto simp: list_all2_conv_all_nth)
  then show thesis using that [of "map f [0..<5]"] by simp
qed

lemma sample_build:
  assumes "list_all2 (slice_holds sample_ld) ss versions"
  shows "\<exists>k s. us_build stored_lz4 (\<lambda>_. 0) 1 sample_ld k 0 compact ss = Inr s \<and> sl_key_count s = 1"
proof -
  obtain k u where u: "ui_make_begin (el_begin sample_ld) (el_step k sample_ld) ss = Inr u"
    and sr: "source (ui_next (el_step k sample_ld) el_cur k) (si.ui_stream k sample_ld k) u [version 4]"
      "length [version 4] < k"
    using read_slices [OF assms versions_merged(2)] unfolding versions_merged(1) by blast
  have "(4 :: nat) < 5" by simp
  from version_written [OF this, of compact] obtain w w1 s w2 where
    w: "sw_add_all stored_lz4 (\<lambda>_. 0) 1 1 compact [version 4] (slice_writer_init 0) = Inr w"
      "sw_flush stored_lz4 (\<lambda>_. 0) 1 w = Inr w1" "sw_commit w1 = Inr (s, w2)" "sl_key_count s = 1" by blast
  have "us_build stored_lz4 (\<lambda>_. 0) 1 sample_ld k 0 compact ss = Inr s"
    unfolding us_build_def us_build_writer_def u res_bind_Inr um.add_iterator_source [OF sr] w by simp
  with w(4) show ?thesis by blast
qed

definition sample_ushard :: "slice list \<Rightarrow> ushard" where
  "sample_ushard ss = \<lparr>us_tier_map = [(0, ss)], us_dropped = False\<rparr>"

theorem ushard_merge_keeps_view_witness:
  "\<exists>ss s u3 ev3 xs ys Ms. length ss = 5
    \<and> us_merge_finish 0 5 s (sample_ushard ss) = Inr (u3, ev3) \<and> us_get_slices u3 = [s]
    \<and> reads sample_ld (sample_ushard ss) xs \<and> reads sample_ld u3 ys \<and> ushard_holds sample_ld u3 Ms
    \<and> (\<forall>K. record_of (part K ys) = record_of (part K xs))"
proof -
  obtain ss where ss: "list_all2 (slice_holds sample_ld) ss versions" "length ss = 5"
    by (rule sample_tier)
  obtain k s where b: "us_build stored_lz4 (\<lambda>_. 0) 1 sample_ld k 0 False ss = Inr s" "sl_key_count s = 1"
    using sample_build [OF ss(1)] by blast
  let ?u = "sample_ushard ss"
  have ne: "ss \<noteq> []" using ss(2) by auto
  have start: "us_merge_start 0 ?u = (ss, ?u, [Slices_Removed ss])"
    using ss(2) by (simp add: us_merge_start_def us_get_slices_for_def tm_slices_def sample_ushard_def max_slices_per_tier_def)
  have adds: "us_add_all [] ?u = Inr (?u, [])" by simp
  have h: "ushard_holds sample_ld ?u versions"
    using ss(1) versions_merged(2) by (simp add: ushard_holds_def us_get_slices_def sample_ushard_def)
  have fin: "us_merge_finish 0 (length ss) s ?u = Inr (sample_ushard [s], [Slice_Added s, Merge_Wanted 0])"
    using tier_of_one [OF b(2)] ss(2)
    by (simp add: us_merge_finish_def us_add_def us_remove_from_def tm_slices_def sample_ushard_def max_slices_per_tier_def)
  have len: "length (concat versions) < 2 ^ 64" by simp
  from ushard_merge_keeps_view [OF stored_lz4_ok(1) refl start ne adds h len b(1) _ fin] fin ss(2) show ?thesis
    by (force simp: us_get_slices_def sample_ushard_def)
qed

theorem ushard_compact_view_witness:
  "\<exists>ss s u' xs ys. length ss = 5 \<and> us_get_slices u' = [s]
    \<and> reads sample_ld (sample_ushard ss) xs \<and> reads sample_ld u' ys
    \<and> (\<forall>K. record_of (part K ys) = (case record_of (part K xs) of
         Some (v, d, i) \<Rightarrow> if d then None else Some (v, d, i) | None \<Rightarrow> None))"
proof -
  obtain ss where ss: "list_all2 (slice_holds sample_ld) ss versions" "length ss = 5"
    by (rule sample_tier)
  obtain k s where b: "us_build stored_lz4 (\<lambda>_. 0) 1 sample_ld k 0 True ss = Inr s" "sl_key_count s = 1"
    using sample_build [OF ss(1)] by blast
  let ?u = "sample_ushard ss"
  have g: "us_get_slices ?u = ss" by (simp add: us_get_slices_def sample_ushard_def)
  have h: "ushard_holds sample_ld ?u versions"
    using ss(1) versions_merged(2) by (simp add: ushard_holds_def g)
  have "us_compact_finish [(0, ss)] s ?u = Inr (sample_ushard [s], [Slice_Added s, Merge_Wanted 0])"
    using tier_of_one [OF b(2)] ss(2)
    by (simp add: us_compact_finish_def us_add_def us_remove_from_def tm_slices_def sample_ushard_def max_slices_per_tier_def)
  then have run: "us_compact stored_lz4 (\<lambda>_. 0) 1 sample_ld k 0 ?u
      = Inr (us_key_count ss, sample_ushard [s], [Slices_Removed ss, Slice_Added s, Merge_Wanted 0])"
    using b(1) ss(2) g by (auto simp: us_compact_def us_compact_start_def sample_ushard_def)
  have d: "distinct (map fst (us_tier_map ?u))" and len: "length (concat versions) < 2 ^ 64"
    and two: "2 \<le> length (us_get_slices ?u)" using ss(2) g by (simp_all add: sample_ushard_def)
  from ushard_compact_view [OF stored_lz4_ok(1) refl h d len two run] stored_pages_fit ss(2) show ?thesis by blast
qed

lemma five_added:
  assumes "tier_of s = Inr 0"
  shows "us_run (sample_ushard [s, s, s, s, s]) {0} {#s, s, s, s, s#}"
proof -
  have a: "us_add s True \<lparr>us_tier_map = [(0, ss)], us_dropped = False\<rparr>
      = Inr (\<lparr>us_tier_map = [(0, ss @ [s])], us_dropped = False\<rparr>,
          Slice_Added s # (if 4 < Suc (length ss) then [Merge_Wanted 0] else []))" for ss
    using assms by (simp add: us_add_def tm_slices_def max_slices_per_tier_def)
  have "us_add s True ushard_init = Inr (\<lparr>us_tier_map = [(0, [s])], us_dropped = False\<rparr>, [Slice_Added s])"
    using assms by (simp add: us_add_def tm_slices_def max_slices_per_tier_def ushard_init_def)
  from run_add [OF run_init this] have "us_run \<lparr>us_tier_map = [(0, [s])], us_dropped = False\<rparr> {} {#s#}"
    by (simp add: wanted_def)
  from run_add [OF run_add [OF run_add [OF run_add [OF this a] a] a] a] show ?thesis
    by (simp add: wanted_def sample_ushard_def)
qed

theorem ushard_tiers_kept_witness:
  "tier_of sample_slice = Inr 0 \<and> mset (us_get_slices (sample_ushard (replicate 5 sample_slice))) = replicate_mset 5 sample_slice
    \<and> 2 ^ (4 * unat (0 :: u32)) \<le> 2 * unat (sl_key_count sample_slice)"
proof -
  have "clzll 4 = 61" by (simp add: clzll_def) code_simp
  then have t: "tier_of sample_slice = Inr 0" by (simp add: tier_of_def sample_slice_def drop_bit_eq_div) 
  show ?thesis
    using ushard_tiers_kept [OF five_added [OF t]] t
    by (simp add: sample_ushard_def us_get_slices_def numeral_eq_Suc)
qed

end
