(* ===== verification/Collection.thy ===== *)
theory Collection
  imports Ushard
begin

text \<open>
  A collection (\<open>tyrdbs/collection.cpp\<close>) maps numbers to ushards. The ushards are shared: a caller that
  got one keeps it after the collection forgot it, and its files go when the last holder lets go of a
  dropped ushard. They live in a list here, a \<open>shared_ptr\<close> is a position in it.
\<close>

section \<open>The code\<close>

record collection =
  co_name :: string
  co_heap :: "ushard list"
  co_map :: "u32 \<rightharpoonup> nat"
  co_dropped :: bool

text \<open>
  \<open>format_to\<close> of \<open>common/fmt.h\<close> writes at most \<open>sz - 1\<close> characters, but puts the final zero where the
  uncut text would end: beyond the buffer when the text did not fit.
\<close>

definition format_to :: "nat \<Rightarrow> string \<Rightarrow> string res" where
  "format_to sz text = (if sz \<le> length text then Inl Undefined else Inr text)"

definition collection_make :: "string \<Rightarrow> collection res" where
  "collection_make name = res_bind (format_to 256 name) (\<lambda>n.
     Inr \<lparr>co_name = n, co_heap = [], co_map = Map.empty, co_dropped = False\<rparr>)"

definition get_ushard :: "u32 \<Rightarrow> bool \<Rightarrow> collection \<Rightarrow> nat option \<times> collection" where
  "get_ushard i auto_create c =
     (case co_map c i of
        Some p \<Rightarrow> (Some p, c)
      | None \<Rightarrow>
          if auto_create then
            (Some (length (co_heap c)),
             c\<lparr>co_heap := co_heap c @ [ushard_init], co_map := (co_map c)(i \<mapsto> length (co_heap c))\<rparr>)
          else (None, c))"

definition drop_ushard :: "u32 \<Rightarrow> collection \<Rightarrow> collection" where
  "drop_ushard i c =
     (case co_map c i of
        None \<Rightarrow> c
      | Some p \<Rightarrow> c\<lparr>co_heap := (co_heap c)[p := us_drop (co_heap c ! p)], co_map := (co_map c)(i := None)\<rparr>)"

definition co_drop :: "collection \<Rightarrow> collection" where
  "co_drop c = c\<lparr>co_dropped := True\<rparr>"

text \<open>The destructor: every ushard still in the map is dropped.\<close>

definition collection_destroy :: "collection \<Rightarrow> collection" where
  "collection_destroy c =
     (if \<not> co_dropped c then c
      else c\<lparr>co_heap := map (\<lambda>p. if p \<in> ran (co_map c) then us_drop (co_heap c ! p) else co_heap c ! p)
                          [0..<length (co_heap c)],
             co_map := Map.empty\<rparr>)"

section \<open>Ushards are kept apart\<close>

definition collection_inv :: "collection \<Rightarrow> bool" where
  "collection_inv c \<longleftrightarrow> inj_on (co_map c) (dom (co_map c)) \<and> (\<forall>p \<in> ran (co_map c). p < length (co_heap c))"

lemma make_inv: "collection_make name = Inr c \<Longrightarrow> collection_inv c"
  by (auto simp: collection_inv_def collection_make_def res_bind_eq_Inr)

lemma long_name_undefined: "256 \<le> length name \<Longrightarrow> collection_make name = Inl Undefined"
  by (simp add: collection_make_def format_to_def)

lemma get_ushard_inv:
  assumes "collection_inv c"
  shows "collection_inv (snd (get_ushard i b c))"
proof (cases "co_map c i")
  case None
  have "length (co_heap c) \<notin> ran (co_map c)" using assms by (auto simp: collection_inv_def)
  then have "inj_on ((co_map c)(i \<mapsto> length (co_heap c))) (dom ((co_map c)(i \<mapsto> length (co_heap c))))"
    using assms None by (auto simp: collection_inv_def inj_on_def ran_def split: if_splits)
  then show ?thesis using assms None
    by (auto simp: get_ushard_def collection_inv_def ran_map_upd less_SucI split: if_splits)
qed (use assms in \<open>simp add: get_ushard_def\<close>)

lemma drop_ushard_inv: "collection_inv c \<Longrightarrow> collection_inv (drop_ushard i c)"
  by (auto simp: drop_ushard_def collection_inv_def inj_on_def ran_def split: option.splits)

text \<open>A number keeps its ushard; a dropped one is marked, and no other ushard is touched.\<close>

lemma get_ushard_again: "get_ushard i b c = (Some p, c') \<Longrightarrow> get_ushard i b' c' = (Some p, c')"
  by (auto simp: get_ushard_def split: option.splits if_splits)

lemma drop_ushard_marks:
  assumes "collection_inv c" "co_map c i = Some p"
  shows "us_dropped (co_heap (drop_ushard i c) ! p)" "co_map (drop_ushard i c) i = None"
    "\<And>q. q \<noteq> p \<Longrightarrow> co_heap (drop_ushard i c) ! q = co_heap c ! q"
    "\<And>j q. j \<noteq> i \<Longrightarrow> co_map c j = Some q \<Longrightarrow> co_heap (drop_ushard i c) ! q = co_heap c ! q"
proof -
  have "p < length (co_heap c)" using assms by (auto simp: collection_inv_def ran_def)
  then show "us_dropped (co_heap (drop_ushard i c) ! p)" using assms(2) by (simp add: drop_ushard_def us_drop_def)
  show "co_map (drop_ushard i c) i = None" using assms(2) by (simp add: drop_ushard_def)
  show o: "co_heap (drop_ushard i c) ! q = co_heap c ! q" if "q \<noteq> p" for q
    using assms(2) that by (simp add: drop_ushard_def)
  show "co_heap (drop_ushard i c) ! q = co_heap c ! q" if j: "j \<noteq> i" "co_map c j = Some q" for j q
    using assms j o by (metis collection_inv_def domI inj_onD)
qed

lemma destroy_marks:
  assumes "collection_inv c" "co_dropped c" "co_map c i = Some p"
  shows "us_dropped (co_heap (collection_destroy c) ! p)"
proof -
  have "p < length (co_heap c)" "p \<in> ran (co_map c)" using assms by (auto simp: collection_inv_def ran_def)
  then show ?thesis using assms(2) by (simp add: collection_destroy_def us_drop_def)
qed

end
