(* ===== verification/File_Store.thy ===== *)
theory File_Store
  imports Disk Page_Cache
begin

text \<open>
  Files of the storage engine: \<open>storage/disk_writer\<close>, \<open>disk_reader\<close>, \<open>file_writer\<close>, \<open>file_reader\<close> and
  \<open>engine\<close>. A writer fills pages of the page cache; they are dirty until a flush allocates space on the
  disk, writes them and hands them to the cache. \<open>m_states\<close> is a list in the order of the slab list
  (\<open>Slab_List\<close>), each state with a number that stands for its address. One client thread runs here: while a writer
  waits for clean pages, the flush thread it has started is the only thread that can run, and it runs to its end; if
  it has not signalled the condition by then, the writer is blocked. The latches, which only matter while a flush or
  a read of another thread is under way, are empty (\<open>Latch\<close> has the interleavings of the reads).
\<close>

section \<open>The state\<close>

text \<open>\<open>buffer\<close> is the memory of \<open>mem_page\<close>, null where \<open>mem_page\<close> is the invalid handle.\<close>

record writer_state =
  ws_offset :: u32
  ws_descriptor :: file_descriptor
  ws_cached :: "u32 list"
  ws_mem_page :: u32

text \<open>\<open>fs_waiting\<close>: the writer that runs is suspended on \<open>m_dirty_pages_cond\<close>.\<close>

record 'd file_store =
  fs_disk :: "'d disk"
  fs_cache :: page_cache
  fs_max_dirty :: u32
  fs_dirty :: u32
  fs_flush_active :: bool
  fs_waiting :: bool
  fs_states :: "(nat \<times> writer_state) list"
  fs_next_state :: nat

record file_writer =
  fw_state :: nat
  fw_commited :: bool
  fw_flushed :: bool

definition ws_at :: "nat \<Rightarrow> 'd file_store \<Rightarrow> writer_state res" where
  "ws_at p fs = (case map_of (fs_states fs) p of None \<Rightarrow> Inl Undefined | Some s \<Rightarrow> Inr s)"

definition ws_put :: "nat \<Rightarrow> writer_state \<Rightarrow> 'd file_store \<Rightarrow> 'd file_store" where
  "ws_put p s fs = fs\<lparr>fs_states := map (\<lambda>(q, t). if q = p then (q, s) else (q, t)) (fs_states fs)\<rparr>"

text \<open>\<open>engine::engine\<close>, after the disk has been opened.\<close>

definition engine_init :: "nat \<Rightarrow> nat \<Rightarrow> 'd disk \<Rightarrow> 'd file_store res" where
  "engine_init cache_bits write_cache_bits d =
     res_bind (cache_init cache_bits) (\<lambda>c.
       res_assert (6 < cache_bits) (res_assert (write_cache_bits < cache_bits)
         (Inr \<lparr>fs_disk = d, fs_cache = c, fs_max_dirty = push_bit write_cache_bits 1, fs_dirty = 0,
            fs_flush_active = False, fs_waiting = False, fs_states = [], fs_next_state = 0\<rparr>)))"

section \<open>Writing pages\<close>

definition dw_allocate :: "'d file_store \<Rightarrow> nat \<times> 'd file_store" where
  "dw_allocate fs =
     (let (i, d) = disk_new_cache_id (fs_disk fs);
          s = \<lparr>ws_offset = 0, ws_descriptor = \<lparr>fd_cache_id = i, fd_size = 0, fd_extents = []\<rparr>,
                ws_cached = [], ws_mem_page = - 1\<rparr> in
      (fs_next_state fs, fs\<lparr>fs_disk := d, fs_states := fs_states fs @ [(fs_next_state fs, s)],
         fs_next_state := Suc (fs_next_state fs)\<rparr>))"

definition dw_free :: "nat \<Rightarrow> 'd file_store \<Rightarrow> 'd file_store" where
  "dw_free p fs = fs\<lparr>fs_states := filter (\<lambda>(q, _). q \<noteq> p) (fs_states fs)\<rparr>"

definition page_key :: "u64 \<Rightarrow> u32 \<Rightarrow> u64" where
  "page_key cache_id file_page = push_bit file_pages_bits cache_id OR ucast file_page"

text \<open>The write loop of \<open>flush_pages\<close>, in batches of at most \<open>IOV_MAX\<close> buffers.\<close>

definition iov_max :: nat where "iov_max = 1024"

fun res_list :: "'a res list \<Rightarrow> 'a list res" where
  "res_list [] = Inr []"
| "res_list (r # rs) = res_bind r (\<lambda>x. res_bind (res_list rs) (\<lambda>xs. Inr (x # xs)))"

function dw_write_batches ::
  "'d file_io \<Rightarrow> page_cache \<Rightarrow> u32 \<Rightarrow> u32 list \<Rightarrow> 'd disk \<Rightarrow> 'd disk res" where
  "dw_write_batches io c disk_page mem_pages d =
     (if mem_pages = [] then Inr d
      else
        let batch = take iov_max mem_pages in
        res_bind (res_list (map (\<lambda>h. mem_load h 0 4096 c) batch)) (\<lambda>iov.
        res_bind (disk_write io disk_page iov d) (\<lambda>(r, d').
          if r \<noteq> push_bit page_bits (of_nat (length batch)) then Inl (Thrown ''disk::error'')
          else dw_write_batches io c (disk_page + of_nat (length batch)) (drop iov_max mem_pages) d')))"
  by pat_completeness auto
termination by (relation "measure (\<lambda>(_, _, _, hs, _). length hs)") (auto simp: iov_max_def)

declare dw_write_batches.simps [simp del]

fun dw_add_pages ::
  "(u64 \<Rightarrow> u64) \<Rightarrow> u64 \<Rightarrow> u32 \<Rightarrow> u32 list \<Rightarrow> page_cache \<Rightarrow> page_cache res" where
  "dw_add_pages hasher cache_id file_page [] c = Inr c"
| "dw_add_pages hasher cache_id file_page (h # hs) c =
     res_assert (file_page < push_bit file_pages_bits 1)
       (res_bind (cache_add hasher (page_key cache_id file_page) h c)
          (dw_add_pages hasher cache_id (file_page + 1) hs))"

definition extents_pages :: "u64 list \<Rightarrow> u32" where
  "extents_pages es = sum_list (map lo32 es)"

definition dw_signal_clean :: "'d file_store \<Rightarrow> 'd file_store" where
  "dw_signal_clean fs = fs\<lparr>fs_waiting := False\<rparr>"

definition dw_flush_pages ::
  "'d file_io \<Rightarrow> (u64 \<Rightarrow> u64) \<Rightarrow> nat \<Rightarrow> 'd file_store \<Rightarrow> 'd file_store res" where
  "dw_flush_pages io hasher p fs =
     res_bind (ws_at p fs) (\<lambda>s.
       if ws_cached s = [] then Inr fs
       else
         let cached_pages = ws_cached s; fd = ws_descriptor s;
             file_page = extents_pages (fd_extents fd); pages = of_nat (length cached_pages) in
         res_bind (disk_allocate disk_fuel io pages (fs_disk fs)) (\<lambda>(disk_page, d).
         res_bind (dw_write_batches io (fs_cache fs) disk_page cached_pages d) (\<lambda>d1.
         res_bind (dw_add_pages hasher (fd_cache_id fd) file_page cached_pages (fs_cache fs)) (\<lambda>c.
           res_assert (of_nat (length cached_pages) \<le> fs_dirty fs)
             (Inr (dw_signal_clean (ws_put p
               (s\<lparr>ws_cached := [], ws_descriptor := fd\<lparr>fd_extents := fd_extents fd @ [pack32 disk_page pages]\<rparr>\<rparr>)
               (fs\<lparr>fs_disk := d1, fs_cache := c, fs_dirty := fs_dirty fs - of_nat (length cached_pages)\<rparr>))))))))"

text \<open>\<open>flush_thread\<close>, over the states of the list.\<close>

fun dw_flush_all :: "'d file_io \<Rightarrow> (u64 \<Rightarrow> u64) \<Rightarrow> nat list \<Rightarrow> 'd file_store \<Rightarrow> 'd file_store res" where
  "dw_flush_all io hasher [] fs = Inr fs"
| "dw_flush_all io hasher (p # ps) fs = res_bind (dw_flush_pages io hasher p fs) (dw_flush_all io hasher ps)"

definition dw_flush_thread :: "'d file_io \<Rightarrow> (u64 \<Rightarrow> u64) \<Rightarrow> 'd file_store \<Rightarrow> 'd file_store res" where
  "dw_flush_thread io hasher fs =
     res_bind (dw_flush_all io hasher (map fst (fs_states fs)) fs) (\<lambda>fs. Inr (fs\<lparr>fs_flush_active := False\<rparr>))"

text \<open>Is a thread created?\<close>

definition dw_start_global_flush :: "'d file_store \<Rightarrow> bool \<times> 'd file_store" where
  "dw_start_global_flush fs =
     (if fs_flush_active fs then (False, fs) else (True, fs\<lparr>fs_flush_active := True\<rparr>))"

text \<open>
  The writer starts a flush and waits; the thread created for it runs. If that has not signalled the condition, no
  thread is left that could, and the wait has no end.
\<close>

definition dw_wait_once :: "'d file_io \<Rightarrow> (u64 \<Rightarrow> u64) \<Rightarrow> 'd file_store \<Rightarrow> 'd file_store res" where
  "dw_wait_once io hasher fs =
     (case dw_start_global_flush fs of (created, fs1) \<Rightarrow>
        let fs2 = fs1\<lparr>fs_waiting := True\<rparr> in
        res_bind (if created then dw_flush_thread io hasher fs2 else Inr fs2) (\<lambda>fs3.
          if fs_waiting fs3 then Inl Blocked else Inr fs3))"

text \<open>The loop of \<open>allocate_page\<close>. After a flush of everything, a second one finds nothing to do.\<close>

fun dw_wait_clean :: "'d file_io \<Rightarrow> (u64 \<Rightarrow> u64) \<Rightarrow> nat \<Rightarrow> 'd file_store \<Rightarrow> 'd file_store res" where
  "dw_wait_clean io hasher 0 fs = Inl Out_Of_Fuel"
| "dw_wait_clean io hasher (Suc k) fs =
     (if fs_max_dirty fs \<le> fs_dirty fs then res_bind (dw_wait_once io hasher fs) (dw_wait_clean io hasher k)
      else Inr fs)"

definition dw_allocate_page ::
  "'d file_io \<Rightarrow> (u64 \<Rightarrow> u64) \<Rightarrow> nat \<Rightarrow> 'd file_store \<Rightarrow> 'd file_store res" where
  "dw_allocate_page io hasher p fs =
     res_bind (ws_at p fs) (\<lambda>s0. res_assert (ws_mem_page s0 = - 1)
       (res_bind (dw_wait_clean io hasher 2 fs) (\<lambda>fs1.
        res_bind (cache_allocate hasher (fs_cache fs1)) (\<lambda>(mem_page, c).
        res_bind (ws_at p fs1) (\<lambda>s.
          Inr (ws_put p (s\<lparr>ws_mem_page := mem_page\<rparr>)
                (fs1\<lparr>fs_dirty := fs_dirty fs1 + 1, fs_cache := c\<rparr>)))))))"

definition dw_write_page :: "nat \<Rightarrow> 'd file_store \<Rightarrow> 'd file_store res" where
  "dw_write_page p fs =
     res_bind (ws_at p fs) (\<lambda>s.
       if ws_offset s = 0 then res_assert (ws_mem_page s = - 1) (Inr fs)
       else Inr (ws_put p (s\<lparr>ws_cached := ws_cached s @ [ws_mem_page s], ws_mem_page := - 1, ws_offset := 0\<rparr>) fs))"

fun free_pages :: "u32 list \<Rightarrow> page_cache \<Rightarrow> page_cache res" where
  "free_pages [] c = Inr c"
| "free_pages (h # hs) c = res_bind (cache_free h c) (free_pages hs)"

definition dw_remove :: "nat \<Rightarrow> 'd file_store \<Rightarrow> 'd file_store res" where
  "dw_remove p fs =
     res_bind (ws_at p fs) (\<lambda>s.
     res_bind (if ws_mem_page s \<noteq> - 1
               then res_bind (cache_free (ws_mem_page s) (fs_cache fs)) (\<lambda>c.
                      Inr (fs\<lparr>fs_cache := c, fs_dirty := fs_dirty fs - 1\<rparr>))
               else Inr fs) (\<lambda>fs1.
     res_bind (disk_remove (fd_extents (ws_descriptor s)) (fs_disk fs1)) (\<lambda>d.
     res_bind (free_pages (ws_cached s) (fs_cache fs1)) (\<lambda>c.
       res_assert (of_nat (length (ws_cached s)) \<le> fs_dirty fs1)
         (Inr (dw_signal_clean
           (fs1\<lparr>fs_disk := d, fs_cache := c, fs_dirty := fs_dirty fs1 - of_nat (length (ws_cached s))\<rparr>)))))))"

section \<open>Files\<close>

definition fw_make :: "'d file_store \<Rightarrow> file_writer \<times> 'd file_store" where
  "fw_make fs = (let (p, fs') = dw_allocate fs in
     (\<lparr>fw_state = p, fw_commited = False, fw_flushed = False\<rparr>, fs'))"

text \<open>The loop of \<open>write\<close>; every turn but one uses up data, so two turns more than bytes are enough.\<close>

fun fw_write_loop ::
  "'d file_io \<Rightarrow> (u64 \<Rightarrow> u64) \<Rightarrow> nat \<Rightarrow> nat \<Rightarrow> bytes \<Rightarrow> 'd file_store \<Rightarrow> 'd file_store res" where
  "fw_write_loop io hasher 0 p data fs = Inl Out_Of_Fuel"
| "fw_write_loop io hasher (Suc k) p data fs =
     (if data = [] then Inr fs
      else
        res_bind (ws_at p fs) (\<lambda>s0.
        res_bind (if ws_mem_page s0 = - 1 then dw_allocate_page io hasher p fs else Inr fs) (\<lambda>fs1.
        res_bind (ws_at p fs1) (\<lambda>s.
          let part_size = min (unat (page_size - ws_offset s)) (length data) in
          res_bind
            (if part_size \<noteq> 0 then
               res_bind (mem_store (ws_mem_page s) (unat (ws_offset s)) (take part_size data) (fs_cache fs1)) (\<lambda>c.
                 Inr (ws_put p
                   (s\<lparr>ws_offset := ws_offset s + of_nat part_size,
                      ws_descriptor := (ws_descriptor s)\<lparr>fd_size := fd_size (ws_descriptor s) + of_nat part_size\<rparr>\<rparr>)
                   (fs1\<lparr>fs_cache := c\<rparr>)))
             else Inr fs1) (\<lambda>fs2.
          res_bind (ws_at p fs2) (\<lambda>s2.
          res_bind (if ws_offset s2 = page_size then dw_write_page p fs2 else Inr fs2)
            (fw_write_loop io hasher k p (drop part_size data))))))))"

definition fw_write ::
  "'d file_io \<Rightarrow> (u64 \<Rightarrow> u64) \<Rightarrow> file_writer \<Rightarrow> bytes \<Rightarrow> 'd file_store \<Rightarrow> 'd file_store res" where
  "fw_write io hasher w data fs =
     res_bind (ws_at (fw_state w) fs) (\<lambda>s.
       if 2 ^ 37 \<le> fd_size (ws_descriptor s) + of_nat (length data) then Inl (Thrown ''error'')
       else res_assert (\<not> fw_commited w)
         (fw_write_loop io hasher (length data + 2) (fw_state w) data fs))"

definition fw_add_padding :: "file_writer \<Rightarrow> 'd file_store \<Rightarrow> 'd file_store res" where
  "fw_add_padding w fs =
     res_assert (\<not> fw_commited w)
       (res_bind (ws_at (fw_state w) fs) (\<lambda>s.
          if ws_offset s AND page_mask = 0 then Inr fs
          else
            let sz = page_size - (ws_offset s AND page_mask) in
            res_bind (mem_store (ws_mem_page s) (unat (ws_offset s)) (replicate (unat sz) 0) (fs_cache fs)) (\<lambda>c.
              Inr (ws_put (fw_state w)
                (s\<lparr>ws_offset := ws_offset s + sz,
                   ws_descriptor := (ws_descriptor s)\<lparr>fd_size := fd_size (ws_descriptor s) + ucast sz\<rparr>\<rparr>)
                (fs\<lparr>fs_cache := c\<rparr>)))))"

definition fw_flush ::
  "'d file_io \<Rightarrow> (u64 \<Rightarrow> u64) \<Rightarrow> file_writer \<Rightarrow> 'd file_store \<Rightarrow> (file_writer \<times> 'd file_store) res" where
  "fw_flush io hasher w fs =
     res_assert (\<not> fw_flushed w)
       (res_bind (dw_write_page (fw_state w) fs) (\<lambda>fs1.
        res_bind (dw_flush_pages io hasher (fw_state w) fs1) (\<lambda>fs2. Inr (w\<lparr>fw_flushed := True\<rparr>, fs2))))"

text \<open>The descriptor is moved out; what is left of it has no extents.\<close>

definition fw_commit :: "file_writer \<Rightarrow> 'd file_store \<Rightarrow> (file_descriptor \<times> file_writer \<times> 'd file_store) res" where
  "fw_commit w fs =
     res_assert (fw_flushed w) (res_assert (\<not> fw_commited w)
       (res_bind (ws_at (fw_state w) fs) (\<lambda>s.
          Inr (ws_descriptor s, w\<lparr>fw_commited := True\<rparr>,
            ws_put (fw_state w) (s\<lparr>ws_descriptor := (ws_descriptor s)\<lparr>fd_extents := []\<rparr>\<rparr>) fs))))"

definition fw_size :: "file_writer \<Rightarrow> 'd file_store \<Rightarrow> u32 res" where
  "fw_size w fs = res_bind (ws_at (fw_state w) fs) (\<lambda>s. Inr (ucast (fd_size (ws_descriptor s))))"

definition fw_destroy :: "file_writer \<Rightarrow> 'd file_store \<Rightarrow> 'd file_store res" where
  "fw_destroy w fs =
     res_bind (if \<not> fw_commited w then dw_remove (fw_state w) fs else Inr fs) (\<lambda>fs1.
       Inr (dw_free (fw_state w) fs1))"

definition dr_read ::
  "'d file_io \<Rightarrow> (u64 \<Rightarrow> u64) \<Rightarrow> u64 \<Rightarrow> u32 \<Rightarrow> u64 list \<Rightarrow> 'd file_store \<Rightarrow> (u32 \<times> 'd file_store) res" where
  "dr_read io hasher cache_id file_page extents fs =
     res_assert (file_page < push_bit file_pages_bits 1)
       (let cache_key = page_key cache_id file_page in
        res_bind (cache_get hasher cache_key (fs_cache fs)) (\<lambda>(mem_page, c).
          if mem_page \<noteq> - 1 then Inr (mem_page, fs\<lparr>fs_cache := c\<rparr>)
          else
            res_bind (cache_allocate hasher c) (\<lambda>(mem_page, c1).
            res_bind (disk_read io (get_disk_page file_page extents) (fs_disk fs)) (\<lambda>bs.
            res_bind (mem_store mem_page 0 bs c1) (\<lambda>c2.
            res_bind (cache_add hasher cache_key mem_page c2) (\<lambda>c3.
              Inr (mem_page, fs\<lparr>fs_cache := c3\<rparr>)))))))"

text \<open>\<open>file_reader::pread\<close>; every turn of the loop copies something.\<close>

fun fr_pread_loop ::
  "'d file_io \<Rightarrow> (u64 \<Rightarrow> u64) \<Rightarrow> nat \<Rightarrow> file_descriptor \<Rightarrow> u64 \<Rightarrow> nat \<Rightarrow> 'd file_store \<Rightarrow> (bytes \<times> 'd file_store) res" where
  "fr_pread_loop io hasher 0 fd offset sz fs = Inl Out_Of_Fuel"
| "fr_pread_loop io hasher (Suc k) fd offset sz fs =
     (if sz = 0 then Inr ([], fs)
      else
        res_bind (dr_read io hasher (fd_cache_id fd) (ucast (drop_bit page_bits offset)) (fd_extents fd) fs) (\<lambda>(h, fs1).
        let page_offset = ucast offset AND page_mask; part_size = min (unat (page_size - page_offset)) sz in
        res_assert (part_size \<noteq> 0)
          (res_bind (mem_load h (unat page_offset) part_size (fs_cache fs1)) (\<lambda>bs.
           res_bind (fr_pread_loop io hasher k fd (offset + of_nat part_size) (sz - part_size) fs1) (\<lambda>(rest, fs2).
             Inr (bs @ rest, fs2))))))"

definition fr_pread ::
  "'d file_io \<Rightarrow> (u64 \<Rightarrow> u64) \<Rightarrow> u64 \<Rightarrow> u32 \<Rightarrow> file_descriptor \<Rightarrow> 'd file_store \<Rightarrow> (bytes \<times> 'd file_store) res" where
  "fr_pread io hasher offset sz fd fs =
     res_assert (offset < fd_size fd)
       (let n = (if fd_size fd < offset + ucast sz then ucast (fd_size fd - offset) else sz :: u32) in
        fr_pread_loop io hasher (Suc (unat n)) fd offset (unat n) fs)"

definition fr_unlink :: "file_descriptor \<Rightarrow> 'd file_store \<Rightarrow> 'd file_store res" where
  "fr_unlink fd fs = res_bind (disk_remove (fd_extents fd) (fs_disk fs)) (\<lambda>d. Inr (fs\<lparr>fs_disk := d\<rparr>))"

end
