(* ===== verification/File_Pages.thy ===== *)
theory File_Pages
  imports File_Store Slice
begin

text \<open>
  The pages of the files of an engine, on the disk and in memory: \<open>files_ok\<close> says that the live files own
  disjoint extents that hold their pages, \<open>pages_ok\<close> that the page cache holds nothing but true copies of
  pages. Each step of \<open>File_Store\<close> that touches the disk or the cache has its lemma here;
  \<open>File_Refinement\<close> puts them together. \<open>D i\<close> are the pages that were written under the cache id \<open>i\<close>.
\<close>

section \<open>Keys of the page cache\<close>

lemma page_key_nat:
  assumes "unat i < 2 ^ 39" "unat q < 2 ^ 25"
  shows "unat (page_key i q) = unat i * 2 ^ 25 + unat q"
proof -
  have p: "unat (push_bit 25 i) = push_bit 25 (unat i)"
    using assms(1) by (simp add: unsigned_push_bit_eq) (simp add: take_bit_nat_eq_self push_bit_eq_mult)
  have u: "unat (ucast q :: u64) = unat q" by (rule unat_ucast_up) simp
  have "unat (page_key i q) = push_bit 25 (unat i) OR unat q"
    by (simp only: page_key_def file_pages_bits_def unsigned_or_eq p u)
  also have "\<dots> = push_bit 25 (unat i) + unat q"
  proof (rule disjunctive_add_eq_or [symmetric], rule bit_eqI)
    fix n
    have "take_bit 25 (unat q) = unat q" using assms(2) by (simp add: take_bit_nat_eq_self)
    then have "\<not> bit (unat q) n" if "25 \<le> n" by (metis bit_take_bit_iff linorder_not_less that)
    then show "bit (push_bit 25 (unat i) AND unat q) n \<longleftrightarrow> bit 0 n"
      by (cases "25 \<le> n") (simp_all add: bit_simps)
  qed
  finally show ?thesis by (simp add: push_bit_eq_mult)
qed

lemma page_key_inject:
  assumes "unat i < 2 ^ 39" "unat q < 2 ^ 25" "unat i' < 2 ^ 39" "unat q' < 2 ^ 25" "page_key i q = page_key i' q'"
  shows "i = i' \<and> q = q'"
proof -
  have e: "unat i * 2 ^ 25 + unat q = unat i' * 2 ^ 25 + unat q'"
    using page_key_nat [OF assms(1,2)] page_key_nat [OF assms(3,4)] assms(5) by simp
  then have "(unat i * 2 ^ 25 + unat q) mod 2 ^ 25 = (unat i' * 2 ^ 25 + unat q') mod 2 ^ 25" by (rule arg_cong)
  then have q: "unat q = unat q'" using assms(2,4) by simp
  then have "unat i = unat i'" using e by simp
  then show ?thesis using q by (simp add: word_unat_eq_iff)
qed

lemma page_key_nonzero:
  assumes "unat i < 2 ^ 39" "unat q < 2 ^ 25" "0 < i"
  shows "page_key i q \<noteq> 0"
proof
  assume "page_key i q = 0"
  then have "unat i = 0" using page_key_nat [OF assms(1,2)] by simp
  then show False using assms(3) by (simp add: unat_eq_zero)
qed

section \<open>Writing pages out\<close>

lemma unat_plus_of_nat: "unat p + n < 2 ^ 32 \<Longrightarrow> unat (p + of_nat n) = unat p + n" for p :: u32
  by (simp add: unat_word_ariths unat_of_nat take_bit_eq_mod)

lemma res_list_Inr: "\<forall>x \<in> set xs. f x = Inr (g x) \<Longrightarrow> res_list (map f xs) = Inr (map g xs)"
  by (induction xs) simp_all

lemma write_batches_step:
  fixes d :: "'d disk"
  assumes io: "file_io_ok io view" and live: "\<forall>h \<in> set hs. live_page c h" and ne: "hs \<noteq> []"
  shows "\<exists>d1. dw_write_batches io c p hs d = dw_write_batches io c (p + of_nat (length (take iov_max hs))) (drop iov_max hs) d1
      \<and> d1 = d\<lparr>dk_file := dk_file d1\<rparr>
      \<and> (\<forall>j < length (take iov_max hs). page_is view (dk_file d1) (unat p + j) (page_bytes c (take iov_max hs ! j)))
      \<and> (\<forall>q b. (q < unat p \<or> unat p + length (take iov_max hs) \<le> q) \<and> page_is view (dk_file d) q b \<longrightarrow> page_is view (dk_file d1) q b)"
proof -
  let ?b = "take iov_max hs"
  let ?n = "length ?b"
  have pages: "\<forall>b \<in> set (map (page_bytes c) ?b). length b = 4096"
    using live mem_load_ok(2) [of c _ 0 0] by (auto dest: in_set_takeD)
  have iov: "res_list (map (\<lambda>h. mem_load h 0 4096 c) ?b) = Inr (map (page_bytes c) ?b)"
  proof (rule res_list_Inr, rule ballI)
    fix h assume "h \<in> set ?b"
    then have "live_page c h" using live in_set_takeD by fast
    from mem_load_ok [OF this, of 0 4096] show "mem_load h 0 4096 c = Inr (page_bytes c h)" by simp
  qed
  have nb: "length (map (page_bytes c) ?b) \<le> 1024" by (simp add: iov_max_def)
  have r: "(of_nat (4096 * ?n) :: u32) = push_bit page_bits (of_nat ?n)"
    by (simp add: page_bits_def push_bit_eq_mult mult.commute)
  show ?thesis
  proof (rule disk_write_pages [OF file_io_ok_safe [OF io] pages nb, of p d])
    fix d1 :: "'d disk"
    assume d1: "disk_write io p (map (page_bytes c) ?b) d = Inr (of_nat (4096 * length (map (page_bytes c) ?b)), d1)"
      "d1 = d\<lparr>dk_file := dk_file d1\<rparr>"
      "\<forall>k < length (map (page_bytes c) ?b). page_is view (dk_file d1) (unat p + k) (map (page_bytes c) ?b ! k)"
      "\<forall>q b. (q < unat p \<or> unat p + length (map (page_bytes c) ?b) \<le> q) \<and> page_is view (dk_file d) q b \<longrightarrow> page_is view (dk_file d1) q b"
    have w: "disk_write io p (map (page_bytes c) ?b) d = Inr (push_bit page_bits (of_nat ?n), d1)"
      unfolding d1(1) length_map r ..
    have "dw_write_batches io c p hs d = dw_write_batches io c (p + of_nat ?n) (drop iov_max hs) d1"
      by (subst dw_write_batches.simps) (simp only: ne if_False Let_def iov w res_bind_Inr prod.case simp_thms not_False_eq_True)
    then show ?thesis using d1(2-4) by (intro exI [of _ d1]) simp
  qed
qed

lemma write_batches_ok:
  fixes d :: "'d disk"
  assumes io: "file_io_ok io view"
  shows "\<forall>h \<in> set hs. live_page c h \<Longrightarrow> unat p + length hs < 2 ^ 32 \<Longrightarrow>
    \<exists>d'. dw_write_batches io c p hs d = Inr d' \<and> d' = d\<lparr>dk_file := dk_file d'\<rparr>
      \<and> (\<forall>j < length hs. page_is view (dk_file d') (unat p + j) (page_bytes c (hs ! j)))
      \<and> (\<forall>q b. (q < unat p \<or> unat p + length hs \<le> q) \<and> page_is view (dk_file d) q b \<longrightarrow> page_is view (dk_file d') q b)"
proof (induction "length hs" arbitrary: hs p d rule: less_induct)
  case (less hs p d)
  show ?case
  proof (cases "hs = []")
    case True
    then show ?thesis by (simp add: dw_write_batches.simps)
  next
    case False
    obtain b r where br: "take iov_max hs = b" "drop iov_max hs = r" by blast
    have hs: "hs = b @ r" unfolding br [symmetric] by simp
    have b: "0 < length b" unfolding br(1) [symmetric] using False by (simp add: iov_max_def)
    have n: "length hs = length b + length r" by (simp add: hs)
    obtain d1 :: "'d disk" where d1: "dw_write_batches io c p hs d = dw_write_batches io c (p + of_nat (length b)) r d1"
      "d1 = d\<lparr>dk_file := dk_file d1\<rparr>"
      "\<forall>j < length b. page_is view (dk_file d1) (unat p + j) (page_bytes c (b ! j))"
      "\<forall>q x. (q < unat p \<or> unat p + length b \<le> q) \<and> page_is view (dk_file d) q x \<longrightarrow> page_is view (dk_file d1) q x"
      using write_batches_step [OF io less.prems(1) False, of p d] unfolding br by blast
    have "unat p + length b < 2 ^ 32" using less.prems(2) n by linarith
    then have up: "unat (p + of_nat (length b)) = unat p + length b" by (rule unat_plus_of_nat)
    have "\<forall>h \<in> set r. live_page c h" using less.prems(1) by (simp add: hs)
    moreover have "unat (p + of_nat (length b)) + length r < 2 ^ 32" using less.prems(2) n unfolding up by linarith
    moreover have "length r < length hs" using n b by linarith
    ultimately obtain d' where d': "dw_write_batches io c (p + of_nat (length b)) r d1 = Inr d'" "d' = d1\<lparr>dk_file := dk_file d'\<rparr>"
      "\<forall>j < length r. page_is view (dk_file d') (unat p + length b + j) (page_bytes c (r ! j))"
      "\<forall>q x. (q < unat p + length b \<or> unat p + length b + length r \<le> q) \<and> page_is view (dk_file d1) q x \<longrightarrow> page_is view (dk_file d') q x"
      using less.hyps [of r "p + of_nat (length b)" d1] unfolding up by blast
    have "page_is view (dk_file d') (unat p + j) (page_bytes c (hs ! j))" if j: "j < length hs" for j
    proof (cases "j < length b")
      case True
      then have "page_is view (dk_file d1) (unat p + j) (page_bytes c (hs ! j))" using d1(3) by (simp add: hs nth_append)
      moreover have "unat p + j < unat p + length b" using True by linarith
      ultimately show ?thesis using d'(4) by blast
    next
      case False
      then have "j - length b < length r" "unat p + length b + (j - length b) = unat p + j" using j n by linarith+
      moreover have "hs ! j = r ! (j - length b)" using False by (simp add: hs nth_append)
      ultimately show ?thesis using d'(3) by metis
    qed
    moreover have "page_is view (dk_file d') q x"
      if q: "q < unat p \<or> unat p + length hs \<le> q" "page_is view (dk_file d) q x" for q x
    proof -
      have q': "q < unat p \<or> unat p + length b \<le> q" "q < unat p + length b \<or> unat p + length b + length r \<le> q"
        using q(1) n by linarith+
      have "page_is view (dk_file d1) q x" using d1(4) q'(1) q(2) by blast
      then show ?thesis using d'(4) q'(2) by blast
    qed
    moreover have "d' = d\<lparr>dk_file := dk_file d'\<rparr>" by (subst d'(2), subst d1(2)) simp
    moreover have "dw_write_batches io c p hs d = Inr d'" unfolding d1(1) by (rule d'(1))
    ultimately show ?thesis by blast
  qed
qed

section \<open>The disk\<close>

definition disk_pages :: "('d \<Rightarrow> nat \<Rightarrow> u8 option) \<Rightarrow> 'd \<Rightarrow> u64 list \<Rightarrow> bytes list \<Rightarrow> bool" where
  "disk_pages view f es pgs \<longleftrightarrow> (\<forall>e \<in> set es. unat (hi32 e) + unat (lo32 e) < 2 ^ 32)
     \<and> list_all2 (page_is view f) (file_disk_pages es) pgs"

text \<open>The live files, each with its cache id and its extents.\<close>

definition files_extents :: "(u64 \<times> u64 list) list \<Rightarrow> extent list" where
  "files_extents fds = concat (map (\<lambda>(i, es). map extent_at es) fds)"

definition files_ok ::
  "('d \<Rightarrow> nat \<Rightarrow> u8 option) \<Rightarrow> (u64 \<Rightarrow> bytes list) \<Rightarrow> nat \<Rightarrow> (u64 \<times> u64 list) list \<Rightarrow> 'd disk \<Rightarrow> bool" where
  "files_ok view D T fds d \<longleftrightarrow> disk_ok d (set (files_extents fds)) T \<and> distinct (files_extents fds) \<and> distinct (map fst fds)
     \<and> (\<forall>(i, es) \<in> set fds. 0 < i \<and> i < dk_next_cache_id d \<and> disk_pages view (dk_file d) es (D i))"

lemma mset_files_extents: "mset (files_extents fds) = (\<Sum>(i, es) \<in># mset fds. mset (map extent_at es))"
  by (induction fds) (auto simp: files_extents_def)

lemma files_ok_perm:
  assumes "mset fds = mset fds'"
  shows "files_ok view D T fds d \<longleftrightarrow> files_ok view D T fds' d"
proof -
  have "mset (files_extents fds) = mset (files_extents fds')" "mset (map fst fds) = mset (map fst fds')"
    using assms by (simp_all add: mset_files_extents mset_map)
  then have "distinct (files_extents fds) = distinct (files_extents fds')" "distinct (map fst fds) = distinct (map fst fds')"
    "set (files_extents fds) = set (files_extents fds')"
    by (auto intro!: mset_eq_imp_distinct_iff dest: mset_eq_setD)
  then show ?thesis using mset_eq_setD [OF assms] by (simp add: files_ok_def)
qed

lemma disk_pages_keep:
  assumes "disk_pages view f es pgs" "\<And>q b. q \<in> set (file_disk_pages es) \<Longrightarrow> page_is view f q b \<Longrightarrow> page_is view f' q b"
  shows "disk_pages view f' es pgs"
  using assms unfolding disk_pages_def by (auto elim!: list.rel_mono_strong)

lemma extents_pages_length: "extents_pages es = of_nat (length (file_disk_pages es))"
  by (induction es) (simp_all add: extents_pages_def)

lemma files_ok_member:
  assumes "files_ok view D T fds d" "(i, es) \<in> set fds"
  shows "disk_pages view (dk_file d) es (D i)" "0 < i" "i < dk_next_cache_id d"
    "set (file_disk_pages es) \<subseteq> pages_of (set (files_extents fds))" "length (file_disk_pages es) = length (D i)"
proof -
  show p: "disk_pages view (dk_file d) es (D i)" and "0 < i" "i < dk_next_cache_id d"
    using assms unfolding files_ok_def by blast+
  have "extent_at ` set es \<subseteq> set (files_extents fds)" using assms(2) by (force simp: files_extents_def)
  then show "set (file_disk_pages es) \<subseteq> pages_of (set (files_extents fds))"
    unfolding set_file_disk_pages pages_of_def by blast
  show "length (file_disk_pages es) = length (D i)" using p by (auto simp: disk_pages_def dest: list_all2_lengthD)
qed

text \<open>Flushing pages: the file gets one more extent, and the pages of all other files stay.\<close>

lemma files_flush:
  fixes d :: "'d disk"
  assumes io: "file_io_ok io view" and ok: "files_ok view D T ((i, es) # rest) d"
    and live: "\<forall>h \<in> set hs. live_page c h" and hs: "hs \<noteq> []" and lim: "T + length hs \<le> disk_limit"
  shows "\<exists>p d1 d2. disk_allocate disk_fuel io (of_nat (length hs)) d = Inr (p, d1) \<and> dw_write_batches io c p hs d1 = Inr d2
    \<and> files_ok view (D(i := D i @ map (page_bytes c) hs)) (T + length hs) ((i, es @ [pack32 p (of_nat (length hs))]) # rest) d2
    \<and> dk_next_cache_id d2 = dk_next_cache_id d"
proof -
  let ?n = "of_nat (length hs) :: u32" and ?H = "set (files_extents ((i, es) # rest))" and ?D = "D(i := D i @ map (page_bytes c) hs)"
  have n: "unat ?n = length hs" using lim by (intro unat_word_of_nat) (simp add: disk_limit_def)
  have nz: "?n \<noteq> 0" using hs n by (metis length_0_conv unat_0)
  have lim': "T + unat ?n \<le> disk_limit" using lim n by simp
  have dok: "disk_ok d ?H T" using ok by (simp add: files_ok_def)
  obtain p and d1 :: "'d disk" where d1: "disk_allocate disk_fuel io ?n d = Inr (p, d1)" "disk_ok d1 (insert (p, ?n) ?H) (T + unat ?n)"
    "\<forall>t. (p, t) \<notin> ?H" "unat p + unat ?n < 2 ^ 32" "file_kept view d d1" by (rule disk_allocate_ok [OF io dok nz lim'])
  have sz: "unat p + length hs < 2 ^ 32" using d1(4) n by simp
  obtain d2 where d2: "dw_write_batches io c p hs d1 = Inr d2" "d2 = d1\<lparr>dk_file := dk_file d2\<rparr>"
    "\<forall>j < length hs. page_is view (dk_file d2) (unat p + j) (page_bytes c (hs ! j))"
    "\<forall>q b. (q < unat p \<or> unat p + length hs \<le> q) \<and> page_is view (dk_file d1) q b \<longrightarrow> page_is view (dk_file d2) q b"
    using write_batches_ok [OF io live sz, of d1] by blast
  have fresh: "extent_pages (p, ?n) \<inter> pages_of ?H = {}" by (rule disk_ok_fresh [OF d1(2)]) (use d1(3) in blast)
  have keep: "disk_pages view (dk_file d2) es' pgs"
    if m: "(j, es') \<in> set ((i, es) # rest)" and dp: "disk_pages view (dk_file d) es' pgs" for j es' pgs
  proof (rule disk_pages_keep [OF dp])
    fix q b assume q: "q \<in> set (file_disk_pages es')" "page_is view (dk_file d) q b"
    have "q \<in> pages_of ?H" using files_ok_member(4) [OF ok m] q(1) by blast
    then have "q \<notin> extent_pages (p, ?n)" using fresh by blast
    then have "q < unat p \<or> unat p + length hs \<le> q" using n by auto
    moreover have "page_is view (dk_file d1) q b" using d1(5) q(2) by (simp add: file_kept_def)
    ultimately show "page_is view (dk_file d2) q b" using d2(4) by blast
  qed
  have ext: "set (files_extents ((i, es @ [pack32 p ?n]) # rest)) = insert (p, ?n) ?H"
    by (auto simp: files_extents_def extent_at_def)
  have "disk_ok d2 (insert (p, ?n) ?H) (T + length hs)" using d1(2) n by (subst d2(2)) (simp add: disk_ok_def)
  moreover have "distinct (files_extents ((i, es @ [pack32 p ?n]) # rest))"
    using ok d1(3) by (auto simp: files_ok_def files_extents_def extent_at_def)
  moreover have nxt: "dk_next_cache_id d2 = dk_next_cache_id d" using d1(5) by (subst d2(2)) (simp add: file_kept_def)
  moreover have "disk_pages view (dk_file d2) (es @ [pack32 p ?n]) (?D i)"
  proof -
    have "disk_pages view (dk_file d2) es (D i)" by (rule keep [OF _ files_ok_member(1) [OF ok]]) auto
    moreover have "list_all2 (page_is view (dk_file d2)) [unat p..<unat p + length hs] (map (page_bytes c) hs)"
      using d2(3) by (simp add: list_all2_conv_all_nth)
    ultimately show ?thesis using sz n by (auto simp: disk_pages_def intro: list_all2_appendI)
  qed
  moreover have "disk_pages view (dk_file d2) es' (?D j)" "0 < j" "j < dk_next_cache_id d" if m: "(j, es') \<in> set rest" for j es'
  proof -
    have "j \<noteq> i" using ok m by (force simp: files_ok_def)
    then show "disk_pages view (dk_file d2) es' (?D j)" using keep [OF _ files_ok_member(1) [OF ok], of j es'] m by simp
    show "0 < j" "j < dk_next_cache_id d" using files_ok_member(2,3) [OF ok, of j es'] m by simp_all
  qed
  moreover have "0 < i" "i < dk_next_cache_id d" "distinct (map fst ((i, es @ [pack32 p ?n]) # rest))"
    using ok by (auto simp: files_ok_def)
  ultimately have "files_ok view ?D (T + length hs) ((i, es @ [pack32 p ?n]) # rest) d2"
    unfolding files_ok_def ext by auto
  then show ?thesis using d1(1) d2(1) nxt by blast
qed

lemma files_remove:
  assumes ok: "files_ok view D T ((i, es) # rest) d"
  shows "\<exists>d'. disk_remove es d = Inr d' \<and> files_ok view D T rest d' \<and> dk_next_cache_id d' = dk_next_cache_id d"
proof -
  let ?H = "set (files_extents ((i, es) # rest))"
  have dis: "distinct (map extent_at es)" "extent_at ` set es \<subseteq> ?H" "?H - extent_at ` set es = set (files_extents rest)"
    using ok by (auto simp: files_ok_def files_extents_def)
  have "disk_ok d ?H T" using ok by (simp add: files_ok_def)
  from disk_remove_ok [OF this dis(2,1)] obtain d' where d': "disk_remove es d = Inr d'" "disk_ok d' (set (files_extents rest)) T"
    "dk_file d' = dk_file d" "dk_next_cache_id d' = dk_next_cache_id d" unfolding dis(3) by blast
  have "files_ok view D T rest d'" using ok d'(2-4) by (auto simp: files_ok_def files_extents_def)
  then show ?thesis using d'(1,4) by blast
qed

lemma files_new:
  assumes ok: "files_ok view D T fds d" and id: "disk_new_cache_id d = (i, d')" and small: "unat (dk_next_cache_id d) < 2 ^ 39"
    and pos: "0 < dk_next_cache_id d"
  shows "files_ok view (D(i := [])) T ((i, []) # fds) d'" "i = dk_next_cache_id d" "0 < dk_next_cache_id d'"
    "unat (dk_next_cache_id d') = Suc (unat (dk_next_cache_id d))"
proof -
  show i: "i = dk_next_cache_id d" using id by (simp add: disk_new_cache_id_def)
  have d': "d' = d\<lparr>dk_next_cache_id := i + 1\<rparr>" using id by (auto simp: disk_new_cache_id_def)
  have "unat (i + 1) = unat i + unat (1 :: u64)" using small unfolding i by (intro unat_add_lem [THEN iffD1]) simp
  then show u: "unat (dk_next_cache_id d') = Suc (unat (dk_next_cache_id d))" by (simp add: d' i)
  then show "0 < dk_next_cache_id d'" by (simp add: word_less_nat_alt)
  have lt: "j < dk_next_cache_id d'" if "j \<le> i" for j using that u unfolding i by (simp add: word_less_nat_alt word_le_nat_alt)
  have "disk_pages view (dk_file d') es ((D(i := [])) j) \<and> 0 < j \<and> j < dk_next_cache_id d'" if m: "(j, es) \<in> set fds" for j es
  proof -
    have j: "j < i" using files_ok_member(3) [OF ok m] by (simp add: i)
    then have "j \<noteq> i" "j \<le> i" by simp_all
    then show ?thesis using files_ok_member(1,2) [OF ok m] lt by (simp add: d')
  qed
  moreover have "i \<notin> fst ` set fds" using files_ok_member(3) [OF ok] by (force simp: i)
  moreover have "disk_ok d' (set (files_extents fds)) T" using ok by (simp add: files_ok_def disk_ok_def d')
  ultimately show "files_ok view (D(i := [])) T ((i, []) # fds) d'"
    using ok lt [of i] pos i by (auto simp: files_ok_def files_extents_def disk_pages_def)
qed

lemma files_read:
  assumes io: "file_io_ok io view" and ok: "files_ok view D T fds d" and m: "(i, es) \<in> set fds"
    and q: "q < length (D i)" "q < 2 ^ 32"
  shows "disk_read io (get_disk_page (of_nat q) es) d = Inr (D i ! q)"
proof (rule disk_read_page [OF file_io_ok_safe [OF io]])
  have p: "disk_pages view (dk_file d) es (D i)" "length (file_disk_pages es) = length (D i)" by (rule files_ok_member [OF ok m])+
  then have "page_is view (dk_file d) (file_disk_pages es ! q) (D i ! q)"
    using q(1) by (auto simp: disk_pages_def list_all2_conv_all_nth)
  moreover have "unat (get_disk_page (of_nat q) es) = file_disk_pages es ! q"
    using p q by (intro get_disk_page_nth) (auto simp: disk_pages_def)
  ultimately show "page_is view (dk_file d) (unat (get_disk_page (of_nat q) es)) (D i ! q)" by simp
qed

section \<open>The page cache\<close>

text \<open>\<open>pages_ok D nxt hs c\<close>: the writers hold the pages \<open>hs\<close>, and what is cached are copies of pages of \<open>D\<close>.\<close>

definition page_of :: "(u64 \<Rightarrow> bytes list) \<Rightarrow> u64 \<Rightarrow> u64 \<Rightarrow> bytes \<Rightarrow> bool" where
  "page_of D nxt k b \<longleftrightarrow> (\<exists>i q. 0 < i \<and> i < nxt \<and> unat nxt \<le> 2 ^ 39 \<and> q < length (D i) \<and> length (D i) \<le> 2 ^ 25
     \<and> k = page_key i (of_nat q) \<and> b = D i ! q)"

definition true_copies :: "(u64 \<Rightarrow> bytes list) \<Rightarrow> u64 \<Rightarrow> page_cache \<Rightarrow> (u64 \<times> u32) set \<Rightarrow> bool" where
  "true_copies D nxt c P \<longleftrightarrow> (\<forall>(k, h) \<in> P. page_of D nxt k (page_bytes c h))"

definition pages_ok :: "(u64 \<Rightarrow> bytes list) \<Rightarrow> u64 \<Rightarrow> u32 list \<Rightarrow> page_cache \<Rightarrow> bool" where
  "pages_ok D nxt hs c \<longleftrightarrow> (\<exists>P. cache_rep c (set hs) P \<and> true_copies D nxt c P) \<and> distinct hs"

lemma pages_ok_perm: "mset hs = mset hs' \<Longrightarrow> pages_ok D nxt hs c \<longleftrightarrow> pages_ok D nxt hs' c"
  using mset_eq_setD [of hs hs'] mset_eq_imp_distinct_iff [of hs hs'] by (simp add: pages_ok_def)

lemma pages_ok_live: "pages_ok D nxt hs c \<Longrightarrow> h \<in> set hs \<Longrightarrow> live_page c h \<and> h \<noteq> - 1 \<and> length (page_bytes c h) = 4096"
  using cache_rep_live [of c "set hs" _ h] mem_load_ok(2) [of c h 0 0] by (auto simp: pages_ok_def)

lemma true_copies_mono:
  assumes "true_copies D nxt c P" "Q \<subseteq> P" "page_bytes c' = page_bytes c"
  shows "true_copies D nxt c' Q"
  using assms(1,2) unfolding true_copies_def assms(3) by blast

lemma pages_allocate:
  assumes ok: "pages_ok D nxt hs c" and room: "length hs < cache_pages c"
  shows "\<exists>h c'. cache_allocate hasher c = Inr (h, c') \<and> pages_ok D nxt (h # hs) c' \<and> same_memory c c'
    \<and> wt_pairs (pc_lfu c') \<subseteq> wt_pairs (pc_lfu c)"
proof -
  obtain P where P: "cache_rep c (set hs) P" "true_copies D nxt c P" "distinct hs" using ok by (auto simp: pages_ok_def)
  have "card (set hs) < cache_pages c" using room card_length [of hs] by linarith
  from cache_allocate_ok [OF P(1) this, of hasher] obtain h c' Q where h: "cache_allocate hasher c = Inr (h, c')" "h \<notin> set hs"
    "cache_rep c' (insert h (set hs)) Q" "Q \<subseteq> P" "same_memory c c'" by blast
  have "true_copies D nxt c' Q" by (rule true_copies_mono [OF P(2) h(4)]) (use h(5) in \<open>simp add: same_memory_def\<close>)
  then have "pages_ok D nxt (h # hs) c'" using h(2,3) P(3) by (auto simp: pages_ok_def)
  moreover have "wt_pairs (pc_lfu c') \<subseteq> wt_pairs (pc_lfu c)" using h(3,4) P(1) by (simp add: cache_rep_def)
  ultimately show ?thesis using h(1,5) by blast
qed

lemma pages_free:
  assumes ok: "pages_ok D nxt (h # hs) c"
  shows "\<exists>c'. cache_free h c = Inr c' \<and> pages_ok D nxt hs c' \<and> same_memory c c'"
proof -
  obtain P where P: "cache_rep c (set (h # hs)) P" "true_copies D nxt c P" "distinct (h # hs)" using ok by (auto simp: pages_ok_def)
  have "h \<in> set (h # hs)" by simp
  from cache_free_ok [OF P(1) this] obtain c' where c': "cache_free h c = Inr c'" "cache_rep c' (set (h # hs) - {h}) P" "same_memory c c'"
    by blast
  have "true_copies D nxt c' P" by (rule true_copies_mono [OF P(2)]) (use c'(3) in \<open>auto simp: same_memory_def\<close>)
  moreover have "set (h # hs) - {h} = set hs" using P(3) by auto
  ultimately have "pages_ok D nxt hs c'" using c'(2) P(3) by (auto simp: pages_ok_def)
  then show ?thesis using c'(1,3) by blast
qed

lemma pages_store:
  assumes ok: "pages_ok D nxt hs c" and h: "h \<in> set hs" and n: "off + length bs \<le> 4096"
  shows "\<exists>c'. mem_store h off bs c = Inr c' \<and> pages_ok D nxt hs c' \<and> page_bytes c' h = poke (page_bytes c h) off bs
    \<and> (\<forall>h' \<in> set hs. h' \<noteq> h \<longrightarrow> page_bytes c' h' = page_bytes c h') \<and> cache_pages c' = cache_pages c
    \<and> wt_pairs (pc_lfu c') = wt_pairs (pc_lfu c)"
proof -
  obtain P where P: "cache_rep c (set hs) P" "true_copies D nxt c P" "distinct hs" using ok by (auto simp: pages_ok_def)
  obtain c' where c': "mem_store h off bs c = Inr c'" "cache_rep c' (set hs) P" "page_bytes c' h = poke (page_bytes c h) off bs"
    "\<forall>h' \<in> set hs \<union> snd ` P. h' \<noteq> h \<longrightarrow> page_bytes c' h' = page_bytes c h'" "cache_pages c' = cache_pages c"
    by (rule mem_store_rep [OF P(1) h n])
  have "set hs \<inter> snd ` P = {}" using P(1) by (simp add: cache_rep_def)
  then have "h \<notin> snd ` P" using h by blast
  then have "page_bytes c' g = page_bytes c g" if "(k, g) \<in> P" for k g using c'(4) that by force
  then have "true_copies D nxt c' P" using P(2) unfolding true_copies_def by fastforce
  moreover have "wt_pairs (pc_lfu c') = wt_pairs (pc_lfu c)" using c'(2) P(1) by (simp add: cache_rep_def)
  ultimately show ?thesis using c' P(3) by (auto simp: pages_ok_def)
qed

lemma page_of_grow:
  assumes "page_of D nxt k b" "nxt \<le> nxt'" "unat nxt' \<le> 2 ^ 39"
    "\<And>i. i < nxt \<Longrightarrow> length (D i) \<le> 2 ^ 25 \<Longrightarrow> (\<exists>xs. D' i = D i @ xs) \<and> length (D' i) \<le> 2 ^ 25"
  shows "page_of D' nxt' k b"
proof -
  obtain i q where iq: "0 < i" "i < nxt" "q < length (D i)" "length (D i) \<le> 2 ^ 25" "k = page_key i (of_nat q)" "b = D i ! q"
    using assms(1) unfolding page_of_def by blast
  obtain xs where xs: "D' i = D i @ xs" "length (D' i) \<le> 2 ^ 25" using assms(4) iq(2,4) by blast
  then have "q < length (D' i)" "b = D' i ! q" using iq(3,6) by (simp_all add: nth_append)
  moreover have "i < nxt'" using iq(2) assms(2) by (rule order_less_le_trans)
  ultimately show ?thesis unfolding page_of_def using iq(1,5) xs(2) assms(3) by blast
qed

lemma unat_page: "q \<le> 2 ^ 25 \<Longrightarrow> unat (of_nat q :: u32) = q"
  by (intro unat_word_of_nat) simp

lemma page_of_key:
  assumes "page_of D nxt (page_key i (of_nat q)) b" "i < nxt" "unat nxt \<le> 2 ^ 39" "q < 2 ^ 25"
  shows "q < length (D i) \<and> b = D i ! q"
proof -
  obtain j r where jr: "j < nxt" "r < length (D j)" "length (D j) \<le> 2 ^ 25" "page_key i (of_nat q) = page_key j (of_nat r)" "b = D j ! r"
    using assms(1) unfolding page_of_def by blast
  have "unat i < 2 ^ 39" "unat j < 2 ^ 39" using assms(2,3) jr(1) by (simp_all add: word_less_nat_alt)
  moreover have "unat (of_nat q :: u32) = q" "unat (of_nat r :: u32) = r" "r < 2 ^ 25" using assms(4) jr(2,3) by (auto intro: unat_page)
  ultimately have "i = j \<and> (of_nat q :: u32) = of_nat r" using assms(4) jr(4) by (intro page_key_inject) simp_all
  moreover from this have "q = r" using \<open>unat (of_nat q :: u32) = q\<close> \<open>unat (of_nat r :: u32) = r\<close> by metis
  ultimately show ?thesis using jr(2,5) by simp
qed

text \<open>A page goes to the cache under a key that is not cached; \<open>D'\<close> are the pages with this one.\<close>

lemma pages_add:
  assumes ok: "pages_ok D nxt (h # hs) c" and i: "0 < i" "i < nxt" "unat nxt \<le> 2 ^ 39"
    and q: "q < length (D' i)" "length (D' i) \<le> 2 ^ 25" "page_bytes c h = D' i ! q"
    and new: "page_key i (of_nat q) \<notin> fst ` wt_pairs (pc_lfu c)"
    and grow: "\<And>j. length (D j) \<le> 2 ^ 25 \<Longrightarrow> (\<exists>xs. D' j = D j @ xs) \<and> length (D' j) \<le> 2 ^ 25"
  shows "\<exists>c'. cache_add hasher (page_key i (of_nat q)) h c = Inr c' \<and> pages_ok D' nxt hs c' \<and> same_memory c c' \<and> live_page c' h"
proof -
  let ?k = "page_key i (of_nat q)"
  obtain P where P: "cache_rep c (set (h # hs)) P" "true_copies D nxt c P" "distinct (h # hs)" using ok by (auto simp: pages_ok_def)
  have PP: "wt_pairs (pc_lfu c) = P" using P(1) by (simp add: cache_rep_def)
  have "unat i < 2 ^ 39" using i(2,3) by (simp add: word_less_nat_alt)
  moreover have "unat (of_nat q :: u32) < 2 ^ 25" using q(1,2) unat_page [of q] by simp
  ultimately have nz: "?k \<noteq> 0" using i(1) by (rule page_key_nonzero)
  have h: "h \<in> set (h # hs)" by simp
  obtain c' Q where c': "cache_add hasher ?k h c = Inr c'" "cache_rep c' (set (h # hs) - {h}) (insert (?k, h) Q)" "Q \<subseteq> P" "same_memory c c'"
    by (rule cache_add_ok [OF P(1) h nz new [unfolded PP]])
  have b: "page_bytes c' = page_bytes c" using c'(4) by (simp add: same_memory_def)
  have "page_of D' nxt k (page_bytes c' g)" if "(k, g) \<in> Q" for k g
  proof -
    have "page_of D nxt k (page_bytes c g)" using P(2) c'(3) that unfolding true_copies_def by blast
    then show ?thesis unfolding b by (rule page_of_grow [OF _ order_refl i(3)]) (rule grow)
  qed
  moreover have "page_of D' nxt ?k (page_bytes c' h)" unfolding b page_of_def using i q by blast
  ultimately have "true_copies D' nxt c' (insert (?k, h) Q)" unfolding true_copies_def by blast
  moreover have "set (h # hs) - {h} = set hs" using P(3) by auto
  ultimately have "pages_ok D' nxt hs c'" using c'(2) P(3) by (auto simp: pages_ok_def)
  moreover have "live_page c' h" by (rule cache_rep_live(1) [OF c'(2)]) simp
  ultimately show ?thesis using c'(1,4) by blast
qed

lemma pages_cached:
  assumes ok: "pages_ok D nxt hs c" and k: "(page_key i (of_nat q), g) \<in> wt_pairs (pc_lfu c)"
    and i: "i < nxt" "unat nxt \<le> 2 ^ 39" "q < 2 ^ 25"
  shows "q < length (D i)" "page_bytes c g = D i ! q"
proof -
  obtain P where P: "cache_rep c (set hs) P" "true_copies D nxt c P" using ok by (auto simp: pages_ok_def)
  have "(page_key i (of_nat q), g) \<in> P" using P(1) k by (simp add: cache_rep_def)
  then have "page_of D nxt (page_key i (of_nat q)) (page_bytes c g)" using P(2) by (auto simp: true_copies_def)
  from page_of_key [OF this i] show "q < length (D i)" "page_bytes c g = D i ! q" by simp_all
qed

lemma add_pages_ok:
  assumes "pages_ok D nxt (hs @ rest) c" "0 < i" "i < nxt" "unat nxt \<le> 2 ^ 39" "length (D i) + length hs \<le> 2 ^ 25"
  shows "\<exists>c'. dw_add_pages hasher i (of_nat (length (D i))) hs c = Inr c'
    \<and> pages_ok (D(i := D i @ map (page_bytes c) hs)) nxt rest c' \<and> same_memory c c'"
  using assms
proof (induction hs arbitrary: D c)
  case Nil
  then show ?case by (simp add: same_memory_def)
next
  case (Cons h hs)
  let ?q = "length (D i)" and ?D = "D(i := D i @ [page_bytes c h])"
  have q: "?q < 2 ^ 25" using Cons.prems(5) by simp
  have "page_key i (of_nat ?q) \<notin> fst ` wt_pairs (pc_lfu c)"
    using pages_cached(1) [OF Cons.prems(1) _ Cons.prems(3,4) q] by force
  moreover have "(\<exists>xs. ?D j = D j @ xs) \<and> length (?D j) \<le> 2 ^ 25" if "length (D j) \<le> 2 ^ 25" for j
    using that q by auto
  moreover have "pages_ok D nxt (h # hs @ rest) c" "?q < length (?D i)" "length (?D i) \<le> 2 ^ 25" "page_bytes c h = ?D i ! ?q"
    using Cons.prems(1) q by simp_all
  ultimately obtain c1 where c1: "cache_add hasher (page_key i (of_nat ?q)) h c = Inr c1" "pages_ok ?D nxt (hs @ rest) c1"
    "same_memory c c1" using pages_add [where D = D and D' = ?D and q = ?q and hasher = hasher, OF _ Cons.prems(2-4)] by blast
  have b: "page_bytes c1 = page_bytes c" using c1(3) by (simp add: same_memory_def)
  have "length (?D i) + length hs \<le> 2 ^ 25" using Cons.prems(5) by simp
  moreover have D: "?D(i := ?D i @ map (page_bytes c) hs) = D(i := D i @ map (page_bytes c) (h # hs))" by simp
  moreover have L: "length (?D i) = Suc ?q" by simp
  ultimately obtain c' where c': "dw_add_pages hasher i (of_nat (Suc ?q)) hs c1 = Inr c'"
    "pages_ok (D(i := D i @ map (page_bytes c) (h # hs))) nxt rest c'" "same_memory c1 c'"
    using Cons.IH [OF c1(2) Cons.prems(2-4)] unfolding b D L by blast
  have "(of_nat ?q :: u32) < push_bit file_pages_bits 1"
    using q unat_page [of ?q] by (simp add: word_less_nat_alt file_pages_bits_def)
  then have "dw_add_pages hasher i (of_nat ?q) (h # hs) c = Inr c'" using c1(1) c'(1) by (simp add: add.commute)
  then show ?case using c'(2) same_memory_trans [OF c1(3) c'(3)] by blast
qed

text \<open>Reading a page: from the cache, or from the disk into a page taken for it.\<close>

lemma pages_hit:
  assumes ok: "pages_ok D nxt hs c" and k: "(k, g) \<in> wt_pairs (pc_lfu c)" "k \<noteq> 0"
  shows "\<exists>c'. cache_get hasher k c = Inr (g, c') \<and> pages_ok D nxt hs c' \<and> same_memory c c' \<and> live_page c' g \<and> g \<noteq> - 1"
proof -
  obtain P where P: "cache_rep c (set hs) P" "true_copies D nxt c P" "distinct hs" using ok by (auto simp: pages_ok_def)
  have g: "(k, g) \<in> P" using P(1) k(1) by (simp add: cache_rep_def)
  from cache_get_ok(1) [OF P(1) k(2) g, of hasher] obtain c' where
    c': "cache_get hasher k c = Inr (g, c')" "cache_rep c' (set hs) P" "same_memory c c'" by blast
  have "true_copies D nxt c' P" by (rule true_copies_mono [OF P(2) order_refl]) (use c'(3) in \<open>simp add: same_memory_def\<close>)
  then have "pages_ok D nxt hs c'" using c'(2) P(3) by (auto simp: pages_ok_def)
  moreover have "live_page c' g" "g \<noteq> - 1" using cache_rep_live [OF c'(2), of g] g by force+
  ultimately show ?thesis using c'(1,3) by blast
qed

lemma pages_miss:
  assumes "pages_ok D nxt hs c" "k \<notin> fst ` wt_pairs (pc_lfu c)" "k \<noteq> 0"
  shows "cache_get hasher k c = Inr (- 1, c)"
proof -
  obtain P where P: "cache_rep c (set hs) P" using assms(1) by (auto simp: pages_ok_def)
  then have "k \<notin> fst ` P" using assms(2) by (simp add: cache_rep_def)
  then show ?thesis by (rule cache_get_ok(2) [OF P assms(3)])
qed

lemma pages_load:
  assumes ok: "pages_ok D nxt hs c" and room: "length hs < cache_pages c" and i: "0 < i" "i < nxt" "unat nxt \<le> 2 ^ 39"
    and q: "q < length (D i)" "length (D i) \<le> 2 ^ 25" and len: "length (D i ! q) = 4096"
    and new: "page_key i (of_nat q) \<notin> fst ` wt_pairs (pc_lfu c)"
  shows "\<exists>h c1 c2 c3. cache_allocate hasher c = Inr (h, c1) \<and> mem_store h 0 (D i ! q) c1 = Inr c2
    \<and> cache_add hasher (page_key i (of_nat q)) h c2 = Inr c3 \<and> pages_ok D nxt hs c3 \<and> page_bytes c3 h = D i ! q \<and> live_page c3 h
    \<and> (\<forall>g \<in> set hs. page_bytes c3 g = page_bytes c g) \<and> cache_pages c3 = cache_pages c"
proof -
  obtain h c1 where c1: "cache_allocate hasher c = Inr (h, c1)" "pages_ok D nxt (h # hs) c1" "same_memory c c1"
    "wt_pairs (pc_lfu c1) \<subseteq> wt_pairs (pc_lfu c)" using pages_allocate [OF ok room, of hasher] by blast
  have h: "h \<in> set (h # hs)" "0 + length (D i ! q) \<le> 4096" using len by simp_all
  obtain c2 where c2: "mem_store h 0 (D i ! q) c1 = Inr c2" "pages_ok D nxt (h # hs) c2"
    "page_bytes c2 h = poke (page_bytes c1 h) 0 (D i ! q)" "\<forall>g \<in> set (h # hs). g \<noteq> h \<longrightarrow> page_bytes c2 g = page_bytes c1 g"
    "cache_pages c2 = cache_pages c1" "wt_pairs (pc_lfu c2) = wt_pairs (pc_lfu c1)" using pages_store [OF c1(2) h] by blast
  have l1: "length (page_bytes c1 h) = 4096" using pages_ok_live [OF c1(2)] by simp
  have b: "page_bytes c2 h = D i ! q" unfolding c2(3) using l1 len by (simp add: poke_def)
  have new2: "page_key i (of_nat q) \<notin> fst ` wt_pairs (pc_lfu c2)" using new c1(4) c2(6) by auto
  obtain c3 where c3: "cache_add hasher (page_key i (of_nat q)) h c2 = Inr c3" "pages_ok D nxt hs c3" "same_memory c2 c3" "live_page c3 h"
    using pages_add [where D = D and D' = D and hasher = hasher, OF c2(2) i q b new2] by auto
  have m3: "page_bytes c3 = page_bytes c2" "cache_pages c3 = cache_pages c2" using c3(3) by (simp_all add: same_memory_def)
  have m1: "page_bytes c1 = page_bytes c" "cache_pages c1 = cache_pages c" using c1(3) by (simp_all add: same_memory_def)
  have "h \<notin> set hs" using c1(2) by (simp add: pages_ok_def)
  then have "\<forall>g \<in> set hs. page_bytes c3 g = page_bytes c g" using c2(4) m1 m3 by auto
  moreover have "page_bytes c3 h = D i ! q" "cache_pages c3 = cache_pages c" using b m1(2) m3 c2(5) by simp_all
  ultimately show ?thesis using c1(1) c2(1) c3(1,2,4) by blast
qed

end
