(* ===== verification/File_Writing.thy ===== *)
theory File_Writing
  imports File_Pages
begin

text \<open>
  Writing files of the storage engine. \<open>store_at\<close> is the invariant that ties the state of the engine to the
  bytes of the open files and of the committed ones; the flush, the wait for clean pages and the writes keep
  it, and a writer's file has the bytes that \<open>file_write\<close> and \<open>file_padding\<close> of \<open>Slice\<close> give.
\<close>

section \<open>What a file holds\<close>

abbreviation file_key :: "file_descriptor \<Rightarrow> u64 \<times> u64 list" where
  "file_key fd \<equiv> (fd_cache_id fd, fd_extents fd)"

definition held :: "writer_state \<Rightarrow> u32 list" where
  "held s = ws_cached s @ (if ws_mem_page s = - 1 then [] else [ws_mem_page s])"

text \<open>\<open>f\<close> is what has been written to an open file, \<open>pgs\<close> its pages on the disk.\<close>

definition writer_ok :: "bytes list \<Rightarrow> page_cache \<Rightarrow> writer_state \<Rightarrow> bytes \<Rightarrow> bool" where
  "writer_ok pgs c s f \<longleftrightarrow> length f = unat (fd_size (ws_descriptor s)) \<and> length f \<le> 2 ^ 37
     \<and> (let all = concat (pgs @ map (page_bytes c) (ws_cached s)) in
        if ws_mem_page s = - 1 then ws_offset s = 0 \<and> f = take (length f) all \<and> length f \<le> length all \<and> length all < length f + 4096
        else unat (ws_offset s) \<le> 4096 \<and> f = all @ take (unat (ws_offset s)) (page_bytes c (ws_mem_page s)))"

lemma writer_ok_mem:
  assumes "ws_mem_page s \<noteq> - 1"
  shows "writer_ok pgs c s f \<longleftrightarrow> length f = unat (fd_size (ws_descriptor s)) \<and> length f \<le> 2 ^ 37 \<and> unat (ws_offset s) \<le> 4096
    \<and> f = concat (pgs @ map (page_bytes c) (ws_cached s)) @ take (unat (ws_offset s)) (page_bytes c (ws_mem_page s))"
  unfolding writer_ok_def Let_def if_not_P [OF assms] ..

lemma writer_ok_none:
  assumes "ws_mem_page s = - 1"
  shows "writer_ok pgs c s f \<longleftrightarrow> length f = unat (fd_size (ws_descriptor s)) \<and> length f \<le> 2 ^ 37 \<and> ws_offset s = 0
    \<and> f = take (length f) (concat (pgs @ map (page_bytes c) (ws_cached s)))
    \<and> length f \<le> length (concat (pgs @ map (page_bytes c) (ws_cached s)))
    \<and> length (concat (pgs @ map (page_bytes c) (ws_cached s))) < length f + 4096"
  unfolding writer_ok_def Let_def if_P [OF assms] ..

definition reader_ok :: "bytes list \<Rightarrow> file_descriptor \<Rightarrow> bytes \<Rightarrow> bool" where
  "reader_ok pgs fd f \<longleftrightarrow> length f = unat (fd_size fd) \<and> length f \<le> 2 ^ 37
     \<and> f = take (length f) (concat pgs) \<and> length f \<le> length (concat pgs) \<and> length (concat pgs) < length f + 4096"

section \<open>The invariant\<close>

definition held_pages :: "'d file_store \<Rightarrow> u32 list" where
  "held_pages fs = concat (map (\<lambda>(p, s). held s) (fs_states fs))"

definition live_files :: "'d file_store \<Rightarrow> (file_descriptor \<times> bytes) list \<Rightarrow> (u64 \<times> u64 list) list" where
  "live_files fs F = map (\<lambda>(p, s). file_key (ws_descriptor s)) (fs_states fs) @ map (\<lambda>(fd, f). file_key fd) F"

text \<open>
  \<open>W\<close> are the contents of the open files, \<open>F\<close> the committed files and their contents; \<open>D i\<close> are the pages
  flushed under the cache id \<open>i\<close>. The disk is used below \<open>T\<close>, and \<open>n\<close> bounds the pages written so far and
  the ids given out.
\<close>

definition store_at ::
  "('d \<Rightarrow> nat \<Rightarrow> u8 option) \<Rightarrow> nat \<Rightarrow> (u64 \<Rightarrow> bytes list) \<Rightarrow> nat \<Rightarrow> (nat \<Rightarrow> bytes option) \<Rightarrow>
     (file_descriptor \<times> bytes) list \<Rightarrow> 'd file_store \<Rightarrow> bool" where
  "store_at view n D T W F fs \<longleftrightarrow>
     files_ok view D T (live_files fs F) (fs_disk fs)
     \<and> pages_ok D (dk_next_cache_id (fs_disk fs)) (held_pages fs) (fs_cache fs)
     \<and> (\<forall>(p, s) \<in> set (fs_states fs). \<exists>f. W p = Some f \<and> writer_ok (D (fd_cache_id (ws_descriptor s))) (fs_cache fs) s f)
     \<and> (\<forall>(fd, f) \<in> set F. reader_ok (D (fd_cache_id fd)) fd f)
     \<and> dom W = fst ` set (fs_states fs) \<and> distinct (map fst (fs_states fs)) \<and> (\<forall>p \<in> dom W. p < fs_next_state fs)
     \<and> T + length (held_pages fs) \<le> n \<and> n \<le> disk_limit
     \<and> 0 < dk_next_cache_id (fs_disk fs) \<and> unat (dk_next_cache_id (fs_disk fs)) \<le> n + 1
     \<and> unat (fs_dirty fs) = length (held_pages fs) \<and> fs_dirty fs \<le> fs_max_dirty fs
     \<and> 0 < fs_max_dirty fs \<and> unat (fs_max_dirty fs) < cache_pages (fs_cache fs)"

text \<open>No more writers than pages that may be dirty.\<close>

definition few_writers :: "(nat \<Rightarrow> bytes option) \<Rightarrow> 'd file_store \<Rightarrow> bool" where
  "few_writers W fs \<longleftrightarrow> card (dom W) \<le> unat (fs_max_dirty fs)"

text \<open>The flags of the flush thread are no part of \<open>store_at\<close>.\<close>

lemma store_at_flags [simp]:
  "store_at view n D T W F (fs\<lparr>fs_flush_active := b\<rparr>) = store_at view n D T W F fs"
  "store_at view n D T W F (fs\<lparr>fs_waiting := b\<rparr>) = store_at view n D T W F fs"
  by (simp_all add: store_at_def live_files_def held_pages_def)

lemma store_at_signal [simp]: "store_at view n D T W F (dw_signal_clean fs) = store_at view n D T W F fs"
  by (simp add: dw_signal_clean_def)

lemma signal_simps [simp]:
  "fs_states (dw_signal_clean fs) = fs_states fs" "fs_max_dirty (dw_signal_clean fs) = fs_max_dirty fs"
  "fs_flush_active (dw_signal_clean fs) = fs_flush_active fs" "\<not> fs_waiting (dw_signal_clean fs)"
  "fs_disk (dw_signal_clean fs) = fs_disk fs" "fs_cache (dw_signal_clean fs) = fs_cache fs"
  "fs_dirty (dw_signal_clean fs) = fs_dirty fs" "fs_next_state (dw_signal_clean fs) = fs_next_state fs"
  by (simp_all add: dw_signal_clean_def)

lemma writer_ok_cong:
  "\<forall>h \<in> set (held s). page_bytes c' h = page_bytes c h \<Longrightarrow> writer_ok pgs c' s f = writer_ok pgs c s f"
proof -
  assume h: "\<forall>h \<in> set (held s). page_bytes c' h = page_bytes c h"
  then have m: "map (page_bytes c') (ws_cached s) = map (page_bytes c) (ws_cached s)" by (simp add: held_def)
  have "ws_mem_page s \<noteq> - 1 \<Longrightarrow> page_bytes c' (ws_mem_page s) = page_bytes c (ws_mem_page s)"
    using h by (simp add: held_def)
  then show ?thesis unfolding writer_ok_def Let_def m by (cases "ws_mem_page s = - 1") simp_all
qed

text \<open>One writer out of the others: what it has, and that it may be replaced.\<close>

definition other_writers :: "nat \<Rightarrow> 'd file_store \<Rightarrow> (nat \<times> writer_state) list" where
  "other_writers p fs = filter (\<lambda>(q, _). q \<noteq> p) (fs_states fs)"

definition other_held :: "nat \<Rightarrow> 'd file_store \<Rightarrow> u32 list" where
  "other_held p fs = concat (map (\<lambda>(q, s). held s) (other_writers p fs))"

definition other_files :: "nat \<Rightarrow> 'd file_store \<Rightarrow> (file_descriptor \<times> bytes) list \<Rightarrow> (u64 \<times> u64 list) list" where
  "other_files p fs F = map (\<lambda>(q, s). file_key (ws_descriptor s)) (other_writers p fs) @ map (\<lambda>(fd, f). file_key fd) F"

lemma writers_split:
  assumes s: "ws_at p fs = Inr s" and dis: "distinct (map fst (fs_states fs))"
  obtains l1 l2 where "fs_states fs = l1 @ (p, s) # l2" "other_writers p fs = l1 @ l2"
    "\<And>s'. fs_states (ws_put p s' fs) = l1 @ (p, s') # l2"
proof -
  have "(p, s) \<in> set (fs_states fs)" using s by (auto simp: ws_at_def split: option.splits dest: map_of_SomeD)
  then obtain l1 l2 where l: "fs_states fs = l1 @ (p, s) # l2" by (auto simp: in_set_conv_decomp)
  have out: "q \<noteq> p" if "(q, t) \<in> set (l1 @ l2)" for q t using that dis by (force simp: l)
  have "filter (\<lambda>(q, _). q \<noteq> p) l = l" if "set l \<subseteq> set (l1 @ l2)" for l
    using that out by (intro filter_True) blast
  then have o: "other_writers p fs = l1 @ l2" by (simp add: other_writers_def l)
  have "map (\<lambda>(q, t). if q = p then (q, s') else (q, t)) l = l" if "set l \<subseteq> set (l1 @ l2)" for l s'
  proof (rule map_idI)
    fix x assume x: "x \<in> set l"
    obtain q t where qt: "x = (q, t)" by fastforce
    then have "q \<noteq> p" using x that out by blast
    then show "(case x of (q, t) \<Rightarrow> if q = p then (q, s') else (q, t)) = x" by (simp add: qt)
  qed
  then have "fs_states (ws_put p s' fs) = l1 @ (p, s') # l2" for s' by (simp add: ws_put_def l)
  with l o show thesis by (rule that)
qed

lemma store_ats:
  assumes "store_at view n D T W F fs" "W p = Some f"
  obtains s where "ws_at p fs = Inr s"
proof -
  have "p \<in> fst ` set (fs_states fs)" using assms by (auto simp: store_at_def)
  then show thesis using that by (cases "map_of (fs_states fs) p") (auto simp: ws_at_def map_of_eq_None_iff)
qed

text \<open>The facts of one writer.\<close>

lemma msets_one:
  assumes "fs_states g = l1 @ (p, s) # l2"
  shows "mset (held_pages g) = mset (held s @ concat (map (\<lambda>(q, s). held s) (l1 @ l2)))"
    "mset (live_files g F) = mset (file_key (ws_descriptor s) #
       map (\<lambda>(q, s). file_key (ws_descriptor s)) (l1 @ l2) @ map (\<lambda>(fd, f). file_key fd) F)"
    "length (held_pages g) = length (held s) + length (concat (map (\<lambda>(q, s). held s) (l1 @ l2)))"
  using assms by (simp_all add: held_pages_def live_files_def)

lemma store_get:
  assumes inv: "store_at view n D T W F fs" and W: "W p = Some f" and s: "ws_at p fs = Inr s"
  shows "files_ok view D T (file_key (ws_descriptor s) # other_files p fs F) (fs_disk fs)"
    "pages_ok D (dk_next_cache_id (fs_disk fs)) (held s @ other_held p fs) (fs_cache fs)"
    "writer_ok (D (fd_cache_id (ws_descriptor s))) (fs_cache fs) s f"
    "T + length (held s) + length (other_held p fs) \<le> n" "unat (fs_dirty fs) = length (held s) + length (other_held p fs)"
proof -
  note inv' = inv [unfolded store_at_def]
  have ws: "\<forall>(p, s) \<in> set (fs_states fs). \<exists>f. W p = Some f \<and> writer_ok (D (fd_cache_id (ws_descriptor s))) (fs_cache fs) s f"
    and files: "files_ok view D T (live_files fs F) (fs_disk fs)" and dis: "distinct (map fst (fs_states fs))"
    and pages: "pages_ok D (dk_next_cache_id (fs_disk fs)) (held_pages fs) (fs_cache fs)"
    and n: "T + length (held_pages fs) \<le> n" "unat (fs_dirty fs) = length (held_pages fs)" using inv' by blast+
  obtain l1 l2 where l: "fs_states fs = l1 @ (p, s) # l2" "other_writers p fs = l1 @ l2" by (rule writers_split [OF s dis]) blast
  show "files_ok view D T (file_key (ws_descriptor s) # other_files p fs F) (fs_disk fs)"
    unfolding other_files_def l(2) by (rule iffD1 [OF files_ok_perm [OF msets_one(2) [OF l(1)]] files])
  show "pages_ok D (dk_next_cache_id (fs_disk fs)) (held s @ other_held p fs) (fs_cache fs)"
    unfolding other_held_def l(2) by (rule iffD1 [OF pages_ok_perm [OF msets_one(1) [OF l(1)]] pages])
  have "(p, s) \<in> set (fs_states fs)" by (simp add: l)
  from bspec [OF ws this] show "writer_ok (D (fd_cache_id (ws_descriptor s))) (fs_cache fs) s f" using W by simp
  show "T + length (held s) + length (other_held p fs) \<le> n" "unat (fs_dirty fs) = length (held s) + length (other_held p fs)"
    using n unfolding other_held_def l(2) msets_one(3) [OF l(1)] by simp_all
qed

lemma others_differ:
  assumes "files_ok view D T (file_key (ws_descriptor s) # other_files p fs F) d"
  shows "(q, t) \<in> set (other_writers p fs) \<Longrightarrow> fd_cache_id (ws_descriptor t) \<noteq> fd_cache_id (ws_descriptor s)"
    and "(fd, f) \<in> set F \<Longrightarrow> fd_cache_id fd \<noteq> fd_cache_id (ws_descriptor s)"
proof -
  have "fd_cache_id (ws_descriptor s) \<notin> set (map fst (other_files p fs F))" using assms by (simp add: files_ok_def)
  moreover have "map fst (other_files p fs F) =
      map (\<lambda>(q, s). fd_cache_id (ws_descriptor s)) (other_writers p fs) @ map (\<lambda>(fd, f). fd_cache_id fd) F"
    by (simp add: other_files_def case_prod_beta comp_def)
  ultimately have ids: "fd_cache_id (ws_descriptor s) \<notin> (\<lambda>(q, s). fd_cache_id (ws_descriptor s)) ` set (other_writers p fs)"
    "fd_cache_id (ws_descriptor s) \<notin> (\<lambda>(fd, f). fd_cache_id fd) ` set F"
    by (simp_all only: set_map set_append Un_iff de_Morgan_disj simp_thms)
  show "fd_cache_id (ws_descriptor t) \<noteq> fd_cache_id (ws_descriptor s)" if t: "(q, t) \<in> set (other_writers p fs)"
    using ids(1) imageI [OF t, of "\<lambda>(q, s). fd_cache_id (ws_descriptor s)"] by (simp only: prod.case) metis
  show "fd_cache_id fd \<noteq> fd_cache_id (ws_descriptor s)" if x: "(fd, f) \<in> set F"
    using ids(2) imageI [OF x, of "\<lambda>(fd, f). fd_cache_id fd"] by (simp only: prod.case) metis
qed

text \<open>The other writers and the files are not touched by what is done to the pages of one writer.\<close>

lemma others_keep:
  assumes inv: "store_at view n D T W F fs" and files: "files_ok view D T (file_key (ws_descriptor s) # other_files p fs F) (fs_disk fs)"
    and D: "\<forall>j. j \<noteq> fd_cache_id (ws_descriptor s) \<longrightarrow> D' j = D j" and c: "\<forall>h \<in> set (other_held p fs). page_bytes c' h = page_bytes (fs_cache fs) h"
  shows "(q, t) \<in> set (other_writers p fs) \<Longrightarrow> \<exists>x. W q = Some x \<and> writer_ok (D' (fd_cache_id (ws_descriptor t))) c' t x"
    and "(fd, x) \<in> set F \<Longrightarrow> reader_ok (D' (fd_cache_id fd)) fd x"
proof -
  assume t: "(q, t) \<in> set (other_writers p fs)"
  then have "(q, t) \<in> set (fs_states fs)" by (simp add: other_writers_def)
  moreover have "\<forall>(p, s) \<in> set (fs_states fs). \<exists>f. W p = Some f \<and> writer_ok (D (fd_cache_id (ws_descriptor s))) (fs_cache fs) s f"
    using inv unfolding store_at_def by blast
  ultimately obtain x where x: "W q = Some x" "writer_ok (D (fd_cache_id (ws_descriptor t))) (fs_cache fs) t x" by fast
  have "D' (fd_cache_id (ws_descriptor t)) = D (fd_cache_id (ws_descriptor t))" using others_differ(1) [OF files t] D by blast
  moreover have "set (held t) \<subseteq> set (other_held p fs)" using t by (fastforce simp: other_held_def)
  then have "\<forall>h \<in> set (held t). page_bytes c' h = page_bytes (fs_cache fs) h" using c by blast
  ultimately show "\<exists>x. W q = Some x \<and> writer_ok (D' (fd_cache_id (ws_descriptor t))) c' t x"
    using x writer_ok_cong [of t c' "fs_cache fs"] by simp
next
  assume x: "(fd, x) \<in> set F"
  have "\<forall>(fd, f) \<in> set F. reader_ok (D (fd_cache_id fd)) fd f" using inv unfolding store_at_def by blast
  from bspec [OF this x] show "reader_ok (D' (fd_cache_id fd)) fd x" using others_differ(2) [OF files x] D by simp
qed

lemma store_put:
  fixes fs :: "'d file_store"
  assumes inv: "store_at view n D T W F fs" and W: "W p = Some f" and s: "ws_at p fs = Inr s"
    and a: "files_ok view D' T' (file_key (ws_descriptor s') # other_files p fs F) d'"
      "pages_ok D' (dk_next_cache_id d') (held s' @ other_held p fs) c'"
      "writer_ok (D' (fd_cache_id (ws_descriptor s'))) c' s' f'"
    and id: "fd_cache_id (ws_descriptor s') = fd_cache_id (ws_descriptor s)" "dk_next_cache_id d' = dk_next_cache_id (fs_disk fs)"
    and keep: "\<forall>j. j \<noteq> fd_cache_id (ws_descriptor s) \<longrightarrow> D' j = D j" "\<forall>h \<in> set (other_held p fs). page_bytes c' h = page_bytes (fs_cache fs) h"
      "cache_pages c' = cache_pages (fs_cache fs)"
    and n: "T' + length (held s') + length (other_held p fs) \<le> n'" "n \<le> n'" "n' \<le> disk_limit"
    and dirty: "unat dirty = length (held s') + length (other_held p fs)" "dirty \<le> fs_max_dirty fs"
  shows "store_at view n' D' T' (W(p \<mapsto> f')) F (ws_put p s' (fs\<lparr>fs_disk := d', fs_cache := c', fs_dirty := dirty\<rparr>))"
proof -
  let ?g = "ws_put p s' (fs\<lparr>fs_disk := d', fs_cache := c', fs_dirty := dirty\<rparr>)"
  note inv' = inv [unfolded store_at_def]
  have dis: "distinct (map fst (fs_states fs))" using inv' by blast
  obtain l1 l2 where l: "fs_states fs = l1 @ (p, s) # l2" "other_writers p fs = l1 @ l2"
    "\<And>s'. fs_states (ws_put p s' fs) = l1 @ (p, s') # l2" by (rule writers_split [OF s dis]) blast
  have g: "fs_states ?g = l1 @ (p, s') # l2" using l(3) [of s'] by (simp add: ws_put_def)
  have gs: "fs_disk ?g = d'" "fs_cache ?g = c'" "fs_dirty ?g = dirty" "fs_next_state ?g = fs_next_state fs" "fs_max_dirty ?g = fs_max_dirty fs"
    by (simp_all add: ws_put_def)
  note keeps = others_keep [OF inv store_get(1) [OF inv W s] keep(1,2)]
  have "files_ok view D' T' (live_files ?g F) d'"
    using a(1) unfolding other_files_def l(2) by (rule iffD2 [OF files_ok_perm [OF msets_one(2) [OF g]]])
  moreover have "pages_ok D' (dk_next_cache_id d') (held_pages ?g) c'"
    using a(2) unfolding other_held_def l(2) by (rule iffD2 [OF pages_ok_perm [OF msets_one(1) [OF g]]])
  moreover have "\<forall>(q, t) \<in> set (fs_states ?g). \<exists>f. (W(p \<mapsto> f')) q = Some f \<and> writer_ok (D' (fd_cache_id (ws_descriptor t))) c' t f"
  proof -
    have "\<exists>x. (W(p \<mapsto> f')) q = Some x \<and> writer_ok (D' (fd_cache_id (ws_descriptor t))) c' t x" if t: "(q, t) \<in> set (other_writers p fs)" for q t
      using keeps(1) [OF t] t by (simp add: other_writers_def)
    then show ?thesis using a(3) unfolding g l(2) by auto
  qed
  moreover have "dom (W(p \<mapsto> f')) = fst ` set (fs_states ?g)" "distinct (map fst (fs_states ?g))"
    "\<forall>q \<in> dom (W(p \<mapsto> f')). q < fs_next_state fs" "length (fs_states ?g) = length (fs_states fs)"
    using inv' W unfolding g by (auto simp: l(1))
  moreover have "length (held_pages ?g) = length (held s') + length (other_held p fs)"
    unfolding other_held_def l(2) by (rule msets_one(3) [OF g])
  moreover have "\<forall>(fd, f) \<in> set F. reader_ok (D' (fd_cache_id fd)) fd f" using keeps(2) by blast
  ultimately show ?thesis using inv' id n dirty keep(3) unfolding store_at_def gs by simp
qed

lemma store_bounds:
  assumes "store_at view n D T W F fs"
  shows "n \<le> disk_limit" "unat (dk_next_cache_id (fs_disk fs)) \<le> 2 ^ 39" "0 < dk_next_cache_id (fs_disk fs)"
    "fs_dirty fs \<le> fs_max_dirty fs" "unat (fs_dirty fs) = length (held_pages fs)" "length (fs_states fs) = card (dom W)"
    "unat (fs_max_dirty fs) < cache_pages (fs_cache fs)" "distinct (map fst (fs_states fs))" "T + length (held_pages fs) \<le> n"
    "dom W = fst ` set (fs_states fs)" "0 < fs_max_dirty fs"
proof -
  have "distinct (map fst (fs_states fs))" "dom W = fst ` set (fs_states fs)" using assms by (simp_all add: store_at_def)
  then show "length (fs_states fs) = card (dom W)" using distinct_card [of "map fst (fs_states fs)"] by simp
qed (use assms in \<open>simp_all add: store_at_def disk_limit_def\<close>)

lemma ws_put_simps [simp]:
  "fs_disk (ws_put p s fs) = fs_disk fs" "fs_cache (ws_put p s fs) = fs_cache fs" "fs_dirty (ws_put p s fs) = fs_dirty fs"
  "fs_flush_active (ws_put p s fs) = fs_flush_active fs" "fs_waiting (ws_put p s fs) = fs_waiting fs"
  "fs_max_dirty (ws_put p s fs) = fs_max_dirty fs" "fs_next_state (ws_put p s fs) = fs_next_state fs"
  by (simp_all add: ws_put_def)

lemma ws_put_same:
  assumes "ws_at p fs = Inr s" "distinct (map fst (fs_states fs))"
  shows "ws_put p s fs = fs"
proof -
  have "map_of (fs_states fs) p = Some s" using assms(1) by (auto simp: ws_at_def split: option.splits)
  then have "t = s" if "(p, t) \<in> set (fs_states fs)" for t using map_of_is_SomeI [OF assms(2) that] by simp
  then have "map (\<lambda>(q, t). if q = p then (q, s) else (q, t)) (fs_states fs) = fs_states fs" by (intro map_idI) auto
  then show ?thesis by (simp add: ws_put_def)
qed

lemma ws_at_put:
  assumes "ws_at p fs = Inr s"
  shows "ws_at p (ws_put p s' fs) = Inr s'" "q \<noteq> p \<Longrightarrow> ws_at q (ws_put p s' fs) = ws_at q fs"
proof -
  have "p \<in> fst ` set l \<Longrightarrow> map_of (map (\<lambda>(q, t). if q = p then (q, s') else (q, t)) l) p = Some s'" for l :: "(nat \<times> writer_state) list"
    by (induction l) auto
  moreover have "q \<noteq> p \<Longrightarrow> map_of (map (\<lambda>(q, t). if q = p then (q, s') else (q, t)) l) q = map_of l q" for l :: "(nat \<times> writer_state) list"
    by (induction l) auto
  moreover have "p \<in> fst ` set (fs_states fs)" using assms by (force simp: ws_at_def split: option.splits dest: map_of_SomeD)
  ultimately show "ws_at p (ws_put p s' fs) = Inr s'" "q \<noteq> p \<Longrightarrow> ws_at q (ws_put p s' fs) = ws_at q fs"
    by (simp_all add: ws_at_def ws_put_def)
qed

section \<open>Flushing\<close>

abbreviation same_flags :: "'d file_store \<Rightarrow> 'd file_store \<Rightarrow> bool" where
  "same_flags fs fs' \<equiv> fs_max_dirty fs' = fs_max_dirty fs \<and> fs_flush_active fs' = fs_flush_active fs"

lemma length_pages:
  "(\<forall>b \<in> set bs. length b = 4096) \<Longrightarrow> length (concat bs) = 4096 * length bs"
  by (induction bs) simp_all

text \<open>A file has at most \<open>2 ^ 25\<close> pages.\<close>

lemma writer_pages:
  assumes "writer_ok pgs c s f" "\<forall>b \<in> set pgs. length b = 4096" "\<forall>h \<in> set (held s). length (page_bytes c h) = 4096"
  shows "length (concat (pgs @ map (page_bytes c) (ws_cached s))) = 4096 * (length pgs + length (ws_cached s))"
    "length pgs + length (ws_cached s) \<le> 2 ^ 25"
proof -
  let ?all = "concat (pgs @ map (page_bytes c) (ws_cached s))"
  show all: "length ?all = 4096 * (length pgs + length (ws_cached s))"
    using assms(2,3) by (subst length_pages) (auto simp: held_def)
  have "length ?all < length f + 4096" "length f \<le> 2 ^ 37"
    using assms(1) unfolding writer_ok_def Let_def by (auto split: if_splits)
  then have "4096 * (length pgs + length (ws_cached s)) < 2 ^ 37 + 4096" unfolding all by linarith
  then show "length pgs + length (ws_cached s) \<le> 2 ^ 25" by simp
qed

lemma disk_pages_lengths: "disk_pages view f es pgs \<Longrightarrow> b \<in> set pgs \<Longrightarrow> length b = 4096"
  by (auto simp: disk_pages_def in_set_conv_nth page_is_def dest: list_all2_nthD2)

lemma writer_ok_flushed:
  "writer_ok (pgs @ map (page_bytes c) (ws_cached s)) c
     (s\<lparr>ws_cached := [], ws_descriptor := (ws_descriptor s)\<lparr>fd_extents := es\<rparr>\<rparr>) f \<longleftrightarrow> writer_ok pgs c s f"
  by (simp add: writer_ok_def)

lemma flush_ok:
  fixes fs :: "'d file_store"
  assumes io: "file_io_ok io view" and inv: "store_at view n D T W F fs" and W: "W p = Some f" and s: "ws_at p fs = Inr s"
  shows "\<exists>fs' D' T' s'. dw_flush_pages io hasher p fs = Inr fs' \<and> store_at view n D' T' W F fs'
    \<and> fs_states fs' = fs_states (ws_put p s' fs) \<and> same_flags fs fs'
    \<and> ws_cached s' = [] \<and> ws_mem_page s' = ws_mem_page s \<and> ws_offset s' = ws_offset s
    \<and> fd_size (ws_descriptor s') = fd_size (ws_descriptor s) \<and> (fs' = fs \<or> \<not> fs_waiting fs')"
proof (cases "ws_cached s = []")
  case True
  then have "dw_flush_pages io hasher p fs = Inr fs" using s by (simp add: dw_flush_pages_def)
  moreover have "ws_put p s fs = fs" by (rule ws_put_same [OF s store_bounds(8) [OF inv]])
  ultimately show ?thesis using inv True by metis
next
  case False
  note bnd = store_bounds [OF inv]
  let ?c = "fs_cache fs" and ?hs = "ws_cached s" and ?fd = "ws_descriptor s" and ?nxt = "dk_next_cache_id (fs_disk fs)"
  let ?m = "if ws_mem_page s = - 1 then [] else [ws_mem_page s]" and ?i = "fd_cache_id (ws_descriptor s)"
  let ?D = "D(?i := D ?i @ map (page_bytes ?c) ?hs)"
  note get = store_get [OF inv W s]
  have live: "live_page ?c h \<and> length (page_bytes ?c h) = 4096" if "h \<in> set (held s)" for h
    using pages_ok_live [OF get(2), of h] that by simp
  have hlive: "\<forall>h \<in> set ?hs. live_page ?c h" using live by (simp add: held_def)
  have mem: "(?i, fd_extents ?fd) \<in> set (file_key (ws_descriptor s) # other_files p fs F)" by simp
  note fm = files_ok_member [OF get(1) mem]
  have pg: "length (D ?i) + length ?hs \<le> 2 ^ 25"
    by (rule writer_pages(2) [OF get(3)]) (use live disk_pages_lengths [OF fm(1)] in blast)+
  have lim: "T + length ?hs \<le> disk_limit" using get(4) bnd(1) by (simp add: held_def)
  obtain q d1 d2 where fl: "disk_allocate disk_fuel io (of_nat (length ?hs)) (fs_disk fs) = Inr (q, d1)"
    "dw_write_batches io ?c q ?hs d1 = Inr d2"
    "files_ok view ?D (T + length ?hs) ((?i, fd_extents ?fd @ [pack32 q (of_nat (length ?hs))]) # other_files p fs F) d2"
    "dk_next_cache_id d2 = ?nxt"
    using files_flush [OF io get(1) hlive False lim] by blast
  have pages': "pages_ok D ?nxt (?hs @ (?m @ other_held p fs)) ?c" using get(2) by (simp add: held_def)
  obtain c' where c': "dw_add_pages hasher ?i (of_nat (length (D ?i))) ?hs ?c = Inr c'" "pages_ok ?D ?nxt (?m @ other_held p fs) c'" "same_memory ?c c'"
    using add_pages_ok [OF pages' fm(2,3) bnd(2) pg, of hasher] by blast
  have b: "page_bytes c' = page_bytes ?c" "cache_pages c' = cache_pages ?c" using c'(3) by (simp_all add: same_memory_def)
  define s' where "s' = s\<lparr>ws_cached := [], ws_descriptor := ?fd\<lparr>fd_extents := fd_extents ?fd @ [pack32 q (of_nat (length ?hs))]\<rparr>\<rparr>"
  let ?dirty = "fs_dirty fs - of_nat (length ?hs)"
  let ?fs' = "ws_put p s' (fs\<lparr>fs_disk := d2, fs_cache := c', fs_dirty := ?dirty\<rparr>)"
  have k: "unat (of_nat (length ?hs) :: u32) = length ?hs" using pg by (intro unat_page) simp
  have le: "of_nat (length ?hs) \<le> fs_dirty fs" using get(5) k by (simp add: word_le_nat_alt held_def)
  have run: "dw_flush_pages io hasher p fs = Inr (dw_signal_clean ?fs')"
    using False fl(1,2) c'(1) le fm(5) by (simp add: dw_flush_pages_def s extents_pages_length s'_def Let_def)
  have held': "held s' = ?m" by (simp add: held_def s'_def)
  have dd: "unat ?dirty = length (?m @ other_held p fs)" using get(5) k le by (simp add: unat_sub held_def)
  have dl: "?dirty \<le> fs_max_dirty fs" using dd get(5) bnd(4) by (simp add: word_le_nat_alt held_def)
  have "store_at view n ?D (T + length ?hs) (W(p \<mapsto> f)) F ?fs'"
  proof (rule store_put [OF inv W s])
    show "files_ok view ?D (T + length ?hs) (file_key (ws_descriptor s') # other_files p fs F) d2" using fl(3) by (simp add: s'_def)
    show "pages_ok ?D (dk_next_cache_id d2) (held s' @ other_held p fs) c'" using c'(2) fl(4) held' by simp
    show "writer_ok (?D (fd_cache_id (ws_descriptor s'))) c' s' f"
      using get(3) writer_ok_cong [of s' c' ?c] writer_ok_flushed [of "D ?i" ?c s] by (simp add: s'_def b)
    show "T + length ?hs + length (held s') + length (other_held p fs) \<le> n"
      unfolding held' using get(4) by (simp add: held_def)
  qed (use fl(4) b bnd(1) dd dl held' in \<open>simp_all add: s'_def\<close>)
  then have "store_at view n ?D (T + length ?hs) W F ?fs'" using W by (simp add: map_upd_triv)
  moreover have "fs_states ?fs' = fs_states (ws_put p s' fs)" by (simp add: ws_put_def)
  ultimately show ?thesis using run by (intro exI [of _ "dw_signal_clean ?fs'"] exI [of _ ?D] exI [of _ "T + length ?hs"] exI [of _ s']) (simp add: s'_def)
qed

text \<open>What a flush of other pages leaves alone; \<open>settled\<close> says that a write may follow: no flush thread is under way.\<close>

definition same_shape :: "writer_state \<Rightarrow> writer_state \<Rightarrow> bool" where
  "same_shape s t \<longleftrightarrow> ws_mem_page t = ws_mem_page s \<and> ws_offset t = ws_offset s
     \<and> fd_size (ws_descriptor t) = fd_size (ws_descriptor s)"

definition same_shapes :: "nat set \<Rightarrow> 'd file_store \<Rightarrow> 'd file_store \<Rightarrow> bool" where
  "same_shapes X fs fs' \<longleftrightarrow> same_flags fs fs'
     \<and> (\<forall>q t. q \<notin> X \<and> ws_at q fs' = Inr t \<longrightarrow> (\<exists>s. ws_at q fs = Inr s \<and> same_shape s t))"

definition settled_writer :: "writer_state \<Rightarrow> bool" where
  "settled_writer s \<longleftrightarrow> (if ws_mem_page s = - 1 then 4096 dvd unat (fd_size (ws_descriptor s)) else ws_offset s \<noteq> 0)"

definition settled :: "nat set \<Rightarrow> 'd file_store \<Rightarrow> bool" where
  "settled X fs \<longleftrightarrow> \<not> fs_flush_active fs \<and> (\<forall>q s. q \<notin> X \<and> ws_at q fs = Inr s \<longrightarrow> settled_writer s)"

lemma same_shapes_refl [simp]: "same_shapes X fs fs"
  by (auto simp: same_shapes_def same_shape_def)

lemma same_shapes_trans: "same_shapes X fs g \<Longrightarrow> same_shapes X g h \<Longrightarrow> same_shapes X fs h"
  unfolding same_shapes_def same_shape_def by metis

lemma settled_same: "same_shapes X fs fs' \<Longrightarrow> settled X fs \<Longrightarrow> settled X fs'"
  unfolding same_shapes_def same_shape_def settled_def settled_writer_def by metis

lemma settled_mono: "settled X fs \<Longrightarrow> X \<subseteq> Y \<Longrightarrow> settled Y fs"
  unfolding settled_def by blast

lemma settled_one: "settled {p} fs \<Longrightarrow> ws_at p fs = Inr s \<Longrightarrow> settled_writer s \<Longrightarrow> settled {} fs"
  unfolding settled_def by (metis empty_iff insertE Inr_inject)

lemma same_shapes_mono: "same_shapes X fs fs' \<Longrightarrow> X \<subseteq> Y \<Longrightarrow> same_shapes Y fs fs'"
  unfolding same_shapes_def by blast

lemma same_shapes_put:
  assumes s: "ws_at p fs = Inr s" and st: "fs_states fs' = fs_states (ws_put p s' fs)" and m: "same_flags fs fs'"
  shows "same_shapes {p} fs fs'" "same_shape s s' \<Longrightarrow> same_shapes {} fs fs'" "ws_at p fs' = Inr s'"
proof -
  have at: "ws_at q fs' = ws_at q (ws_put p s' fs)" for q using st by (simp add: ws_at_def)
  show "ws_at p fs' = Inr s'" unfolding at by (rule ws_at_put(1) [OF s])
  have q: "ws_at q fs' = ws_at q fs" if "q \<noteq> p" for q unfolding at by (rule ws_at_put(2) [OF s that])
  show "same_shapes {p} fs fs'" using m q by (auto simp: same_shapes_def same_shape_def)
  show "same_shapes {} fs fs'" if "same_shape s s'"
    unfolding same_shapes_def
  proof (intro conjI allI impI)
    fix r t assume "r \<notin> {} \<and> ws_at r fs' = Inr t"
    then show "\<exists>s. ws_at r fs = Inr s \<and> same_shape s t"
      using q [of r] s that \<open>ws_at p fs' = Inr s'\<close> by (cases "r = p") (auto simp: same_shape_def)
  qed (use m in simp_all)
qed

lemma flush_all_ok:
  fixes fs :: "'d file_store"
  assumes io: "file_io_ok io view"
  shows "store_at view n D T W F fs \<Longrightarrow> set ps \<subseteq> dom W \<Longrightarrow> \<exists>fs' D' T'. dw_flush_all io hasher ps fs = Inr fs'
    \<and> store_at view n D' T' W F fs' \<and> same_shapes {} fs fs'
    \<and> (\<forall>q t. ws_at q fs' = Inr t \<and> (q \<in> set ps \<or> (\<forall>s. ws_at q fs = Inr s \<longrightarrow> ws_cached s = [])) \<longrightarrow> ws_cached t = [])
    \<and> (fs' = fs \<or> \<not> fs_waiting fs')"
proof (induction ps arbitrary: fs D T)
  case (Cons p ps)
  obtain f where f: "W p = Some f" using Cons.prems(2) by auto
  obtain s where s: "ws_at p fs = Inr s" by (rule store_ats [OF Cons.prems(1) f])
  obtain g :: "'d file_store" and D1 T1 s' where g: "dw_flush_pages io hasher p fs = Inr g" "store_at view n D1 T1 W F g"
    "fs_states g = fs_states (ws_put p s' fs)" "same_flags fs g" "ws_cached s' = []" "same_shape s s'"
    "g = fs \<or> \<not> fs_waiting g"
    using flush_ok [OF io Cons.prems(1) f s, of hasher] unfolding same_shape_def by blast
  note sp = same_shapes_put [OF s g(3,4)]
  have ps: "set ps \<subseteq> dom W" using Cons.prems(2) by simp
  from Cons.IH [OF g(2) ps] obtain fs' D' T' where r: "dw_flush_all io hasher ps g = Inr fs'" "store_at view n D' T' W F fs'"
    "same_shapes {} g fs'"
    "\<forall>q t. ws_at q fs' = Inr t \<and> (q \<in> set ps \<or> (\<forall>s. ws_at q g = Inr s \<longrightarrow> ws_cached s = [])) \<longrightarrow> ws_cached t = []"
    "fs' = g \<or> \<not> fs_waiting fs'" by blast
  have "ws_cached t = []"
    if t: "ws_at q fs' = Inr t" "q \<in> set (p # ps) \<or> (\<forall>s. ws_at q fs = Inr s \<longrightarrow> ws_cached s = [])" for q t
  proof (cases "q = p")
    case True
    then have "\<forall>s. ws_at q g = Inr s \<longrightarrow> ws_cached s = []" using sp(3) g(5) by simp
    then show ?thesis using r(4) t(1) by blast
  next
    case False
    have "ws_at q g = ws_at q (ws_put p s' fs)" using g(3) by (simp add: ws_at_def)
    also have "\<dots> = ws_at q fs" by (rule ws_at_put(2) [OF s False])
    finally have "q \<in> set ps \<or> (\<forall>s. ws_at q g = Inr s \<longrightarrow> ws_cached s = [])" using t(2) False by auto
    then show ?thesis using r(4) t(1) by blast
  qed
  moreover have "same_shapes {} fs fs'" by (rule same_shapes_trans [OF sp(2) [OF g(6)] r(3)])
  moreover have "fs' = fs \<or> \<not> fs_waiting fs'" using r(5) g(7) by auto
  ultimately show ?case using g(1) r(1,2) by auto
qed auto

lemma held_all_flushed:
  "\<forall>(q, t) \<in> set l. ws_cached t = [] \<Longrightarrow> length (concat (map (\<lambda>(q, s). held s) l)) \<le> length l"
  "\<forall>(q, t) \<in> set l. ws_cached t = [] \<Longrightarrow> (p, s) \<in> set l \<Longrightarrow> ws_mem_page s = - 1 \<Longrightarrow>
     length (concat (map (\<lambda>(q, s). held s) l)) < length l"
proof (induction l)
  case (Cons x l)
  { case 1 then show ?case using Cons.IH(1) by (auto simp: held_def) }
  { case 2 then show ?case using Cons.IH by (auto simp: held_def) }
qed simp_all

text \<open>Nothing is cached, so nothing is flushed.\<close>

lemma flush_all_nothing:
  assumes "\<forall>(p, s) \<in> set (fs_states fs). ws_cached s = []" "distinct (map fst (fs_states fs))"
  shows "set ps \<subseteq> fst ` set (fs_states fs) \<Longrightarrow> dw_flush_all io hasher ps fs = Inr fs"
proof (induction ps)
  case (Cons p ps)
  then obtain s where "(p, s) \<in> set (fs_states fs)" by force
  then have "ws_at p fs = Inr s" "ws_cached s = []" using assms by (auto simp: ws_at_def)
  then show ?case using Cons by (simp add: dw_flush_pages_def)
qed simp

lemma wait_once_nothing:
  assumes "\<forall>(p, s) \<in> set (fs_states fs). ws_cached s = []" "distinct (map fst (fs_states fs))"
  shows "dw_wait_once io hasher fs = Inl Blocked"
proof -
  let ?fs = "fs\<lparr>fs_flush_active := True, fs_waiting := True\<rparr>"
  have "dw_flush_all io hasher (map fst (fs_states fs)) ?fs = Inr ?fs" using assms by (intro flush_all_nothing) simp_all
  then show ?thesis
    by (cases "fs_flush_active fs") (simp_all add: dw_wait_once_def dw_start_global_flush_def dw_flush_thread_def)
qed

text \<open>One wait: everything is flushed, and the writer is woken if that was anything.\<close>

lemma wait_once_ok:
  fixes fs :: "'d file_store"
  assumes io: "file_io_ok io view" and inv: "store_at view n D T W F fs" and active: "\<not> fs_flush_active fs"
    and full: "fs_max_dirty fs \<le> fs_dirty fs"
  shows "case dw_wait_once io hasher fs of
      Inl e \<Rightarrow> e = Blocked \<and> (\<forall>(q, t) \<in> set (fs_states fs). ws_cached t = [])
    | Inr g \<Rightarrow> (\<exists>D' T'. store_at view n D' T' W F g) \<and> same_shapes {} fs g \<and> \<not> fs_flush_active g
        \<and> (\<forall>(q, t) \<in> set (fs_states g). ws_cached t = [])"
proof -
  let ?fs = "fs\<lparr>fs_flush_active := True, fs_waiting := True\<rparr>"
  have inv': "store_at view n D T W F ?fs" using inv by simp
  have ps: "set (map fst (fs_states fs)) \<subseteq> dom W" using store_bounds(10) [OF inv] by simp
  from flush_all_ok [OF io inv' ps, of hasher] obtain g D' T' where
    g: "dw_flush_all io hasher (map fst (fs_states fs)) ?fs = Inr g" "store_at view n D' T' W F g" "same_shapes {} ?fs g"
    "\<forall>q t. ws_at q g = Inr t \<and> (q \<in> set (map fst (fs_states fs)) \<or> (\<forall>s. ws_at q ?fs = Inr s \<longrightarrow> ws_cached s = [])) \<longrightarrow> ws_cached t = []"
    "g = ?fs \<or> \<not> fs_waiting g"
    by blast
  note bg = store_bounds [OF g(2)]
  have keys: "fst ` set (fs_states g) = fst ` set (fs_states fs)" using bg(10) store_bounds(10) [OF inv] by simp
  have clean: "\<forall>(q, t) \<in> set (fs_states g). ws_cached t = []"
  proof clarify
    fix q t assume t: "(q, t) \<in> set (fs_states g)"
    then have "ws_at q g = Inr t" using bg(8) by (simp add: ws_at_def)
    moreover have "q \<in> fst ` set (fs_states fs)" using t keys by force
    ultimately show "ws_cached t = []" using g(4) by auto
  qed
  let ?g = "g\<lparr>fs_flush_active := False\<rparr>"
  have run: "dw_wait_once io hasher fs = (if fs_waiting g then Inl Blocked else Inr ?g)"
    using active g(1) by (simp add: dw_wait_once_def dw_start_global_flush_def dw_flush_thread_def)
  show ?thesis
  proof (cases "fs_waiting g")
    case True
    then have "g = ?fs" using g(5) by blast
    then show ?thesis using run True clean by simp
  next
    case False
    have "same_shapes {} fs ?g" using g(3) active by (simp add: same_shapes_def ws_at_def)
    then show ?thesis using run False g(2) clean by auto
  qed
qed

text \<open>A writer that has no page never waits twice, and never for ever unless there are more writers than dirty pages allowed.\<close>

lemma wait_clean_ok:
  fixes fs :: "'d file_store"
  assumes io: "file_io_ok io view" and inv: "store_at view n D T W F fs" and s: "ws_at p fs = Inr s" and m: "ws_mem_page s = - 1"
    and active: "\<not> fs_flush_active fs"
  shows "case dw_wait_clean io hasher 2 fs of Inl e \<Rightarrow> e = Blocked \<and> \<not> few_writers W fs
    | Inr fs' \<Rightarrow> (\<exists>D' T'. store_at view n D' T' W F fs') \<and> same_shapes {} fs fs' \<and> fs_dirty fs' < fs_max_dirty fs'"
proof (cases "fs_max_dirty fs \<le> fs_dirty fs")
  case False
  then have "dw_wait_clean io hasher 2 fs = Inr fs" by (simp add: numeral_2_eq_2)
  then show ?thesis using inv False by auto
next
  case True
  have few: "fs_dirty g < fs_max_dirty g"
    if g: "store_at view n D' T' W F g" "same_shapes {} fs g" "\<forall>(q, t) \<in> set (fs_states g). ws_cached t = []" "few_writers W fs"
    for g D' T'
  proof -
    note bg = store_bounds [OF g(1)]
    have "p \<in> fst ` set (fs_states fs)" using s by (force simp: ws_at_def split: option.splits dest: map_of_SomeD)
    then obtain t where t: "(p, t) \<in> set (fs_states g)" using bg(10) store_bounds(10) [OF inv] by force
    then have "ws_at p g = Inr t" using bg(8) by (simp add: ws_at_def)
    then have "ws_mem_page t = - 1" using g(2) s m unfolding same_shapes_def same_shape_def by fastforce
    from held_all_flushed(2) [OF g(3) t this] have "length (held_pages g) < length (fs_states g)" by (simp add: held_pages_def)
    moreover have "fs_max_dirty g = fs_max_dirty fs" using g(2) by (simp add: same_shapes_def)
    ultimately show ?thesis using bg(5,6) g(4) by (simp add: word_less_nat_alt few_writers_def)
  qed
  note w = wait_once_ok [OF io inv active True, of hasher]
  show ?thesis
  proof (cases "dw_wait_once io hasher fs")
    case (Inl e)
    then have "e = Blocked" "\<forall>(q, t) \<in> set (fs_states fs). ws_cached t = []" using w by simp_all
    moreover have "\<not> few_writers W fs" using few [OF inv same_shapes_refl calculation(2)] True by auto
    ultimately show ?thesis using True Inl by (simp add: numeral_2_eq_2)
  next
    case (Inr g)
    then obtain D' T' where g: "store_at view n D' T' W F g" "same_shapes {} fs g" "\<not> fs_flush_active g"
      "\<forall>(q, t) \<in> set (fs_states g). ws_cached t = []" using w by auto
    have run: "dw_wait_clean io hasher 2 fs = (if fs_max_dirty g \<le> fs_dirty g then Inl Blocked else Inr g)"
      using True Inr wait_once_nothing [OF g(4) store_bounds(8) [OF g(1)], of io hasher] by (simp add: numeral_2_eq_2)
    show ?thesis
    proof (cases "fs_max_dirty g \<le> fs_dirty g")
      case True
      then show ?thesis using run few [OF g(1,2,4)] by auto
    next
      case False
      then show ?thesis using run g(1,2) by auto
    qed
  qed
qed

section \<open>Writing\<close>

text \<open>An operation that may block, when there are too many writers.\<close>

definition blocked_or :: "(nat \<Rightarrow> bytes option) \<Rightarrow> 'd file_store \<Rightarrow> 'a res \<Rightarrow> ('a \<Rightarrow> bool) \<Rightarrow> bool" where
  "blocked_or W fs r P \<longleftrightarrow> (r = Inl Blocked \<and> \<not> few_writers W fs) \<or> (\<exists>x. r = Inr x \<and> P x)"

lemma blocked_or_cases:
  assumes "blocked_or W fs r P"
  obtains (blocked) "r = Inl Blocked" "\<not> few_writers W fs" | (finished) x where "r = Inr x" "P x"
  using assms by (auto simp: blocked_or_def)

lemma few_writers_same: "same_shapes X fs g \<Longrightarrow> dom V = dom W \<Longrightarrow> few_writers V g = few_writers W fs"
  by (simp add: few_writers_def same_shapes_def)

lemma page_gap: "4096 * a \<le> 4096 * x \<Longrightarrow> 4096 * x < 4096 * a + 4096 \<Longrightarrow> x = a" for a x :: nat
  by (rule antisym) linarith+

lemma allocate_page_ok:
  fixes fs :: "'d file_store"
  assumes io: "file_io_ok io view" and inv: "store_at view n D T W F fs" and W: "W p = Some f" and s: "ws_at p fs = Inr s"
    and m: "ws_mem_page s = - 1" and al: "4096 dvd length f" and lim: "n < disk_limit" and active: "\<not> fs_flush_active fs"
  shows "blocked_or W fs (dw_allocate_page io hasher p fs) (\<lambda>fs'. \<exists>D' T' s'. store_at view (Suc n) D' T' W F fs' \<and> same_shapes {p} fs fs'
    \<and> ws_at p fs' = Inr s' \<and> ws_mem_page s' \<noteq> - 1 \<and> ws_offset s' = 0)"
proof (cases "dw_wait_clean io hasher 2 fs")
  case (Inl e)
  then have "dw_allocate_page io hasher p fs = Inl Blocked" "\<not> few_writers W fs"
    using wait_clean_ok [OF io inv s m active, of hasher] m by (simp_all add: dw_allocate_page_def s)
  then show ?thesis by (simp add: blocked_or_def)
next
  case (Inr g)
  then obtain D1 T1 where g: "dw_wait_clean io hasher 2 fs = Inr g" "store_at view n D1 T1 W F g"
    "same_shapes {} fs g" "fs_dirty g < fs_max_dirty g" using wait_clean_ok [OF io inv s m active, of hasher] by auto
  obtain t where t: "ws_at p g = Inr t" by (rule store_ats [OF g(2) W])
  have tm: "ws_mem_page t = - 1" using g(3) t s m unfolding same_shapes_def same_shape_def by fastforce
  note get = store_get [OF g(2) W t] and bnd = store_bounds [OF g(2)]
  let ?i = "fd_cache_id (ws_descriptor t)" and ?nxt = "dk_next_cache_id (fs_disk g)"
  have "unat (fs_dirty g) < unat (fs_max_dirty g)" using g(4) by (simp add: word_less_nat_alt)
  then have "length (held t @ other_held p g) < cache_pages (fs_cache g)" using get(5) bnd(7) by simp
  from pages_allocate [OF get(2) this, of hasher] obtain h c where c: "cache_allocate hasher (fs_cache g) = Inr (h, c)"
    "pages_ok D1 ?nxt (h # held t @ other_held p g) c" "same_memory (fs_cache g) c" by blast
  have b: "page_bytes c = page_bytes (fs_cache g)" "cache_pages c = cache_pages (fs_cache g)" using c(3) by (simp_all add: same_memory_def)
  have h: "h \<noteq> - 1" using pages_ok_live [OF c(2)] by simp
  let ?t = "t\<lparr>ws_mem_page := h\<rparr>"
  have ht: "held ?t = held t @ [h]" using tm h by (simp add: held_def)
  have du: "unat (fs_dirty g + 1) = Suc (unat (fs_dirty g))"
  proof -
    have "unat (fs_max_dirty g) < 2 ^ 32" using unsigned_less [of "fs_max_dirty g"] by simp
    then have "unat (fs_dirty g) + 1 < 2 ^ 32" using g(4) by (simp add: word_less_nat_alt)
    then show ?thesis using unat_plus_of_nat [of "fs_dirty g" 1] by simp
  qed
  let ?fs' = "ws_put p ?t (g\<lparr>fs_disk := fs_disk g, fs_cache := c, fs_dirty := fs_dirty g + 1\<rparr>)"
  have run: "dw_allocate_page io hasher p fs = Inr ?fs'"
    using m by (simp add: dw_allocate_page_def s g(1) c(1) t) (cases g, simp)
  have off: "ws_offset t = 0" using get(3) tm by (simp add: writer_ok_def Let_def)
  have "store_at view (Suc n) D1 T1 (W(p \<mapsto> f)) F ?fs'"
  proof (rule store_put [OF g(2) W t])
    show "files_ok view D1 T1 (file_key (ws_descriptor ?t) # other_files p g F) (fs_disk g)" using get(1) by simp
    show "pages_ok D1 ?nxt (held ?t @ other_held p g) c"
      using c(2) pages_ok_perm [of "h # held t @ other_held p g" "held ?t @ other_held p g"] by (simp add: ht)
    have live: "\<forall>h \<in> set (held t). length (page_bytes (fs_cache g) h) = 4096" using pages_ok_live [OF get(2)] by simp
    have pgs: "\<forall>b \<in> set (D1 ?i). length b = 4096"
      using disk_pages_lengths [OF files_ok_member(1) [OF get(1)]] by fastforce
    have "f = concat (D1 ?i @ map (page_bytes (fs_cache g)) (ws_cached t))"
    proof -
      let ?all = "concat (D1 ?i @ map (page_bytes (fs_cache g)) (ws_cached t))"
      have w: "f = take (length f) ?all" "length f \<le> length ?all" "length ?all < length f + 4096"
        using get(3) unfolding writer_ok_none [OF tm] by blast+
      obtain a where a: "length f = 4096 * a" using al by auto
      from w(2,3) have "length (D1 ?i) + length (ws_cached t) = a"
        unfolding a writer_pages(1) [OF get(3) pgs live] by (rule page_gap)
      then have "length ?all = length f" by (simp only: a writer_pages(1) [OF get(3) pgs live])
      then show ?thesis using w(1) by simp
    qed
    then show "writer_ok (D1 (fd_cache_id (ws_descriptor ?t))) c ?t f"
      using get(3) h off by (simp add: writer_ok_def b)
  qed (use b g(4) du get(4,5) bnd lim in \<open>simp_all add: ht word_less_nat_alt word_le_nat_alt\<close>)
  then have st: "store_at view (Suc n) D1 T1 W F ?fs'" using W by (simp add: map_upd_triv)
  have e: "fs_states ?fs' = fs_states (ws_put p ?t g)" "same_flags g ?fs'" by (simp_all add: ws_put_def)
  note sp = same_shapes_put [OF t e]
  have "same_shapes {p} fs ?fs'" by (rule same_shapes_trans [OF same_shapes_mono [OF g(3)] sp(1)]) simp
  then show ?thesis unfolding run blocked_or_def using st sp(3) h off
    by (intro disjI2 exI [of _ ?fs'] conjI exI [of _ D1] exI [of _ T1] exI [of _ ?t]) simp_all
qed

lemma store_mono: "store_at view n D T W F fs \<Longrightarrow> n \<le> m \<Longrightarrow> m \<le> disk_limit \<Longrightarrow> store_at view m D T W F fs"
  by (auto simp: store_at_def)

lemma unat_add_of_nat64: "unat x + n < 2 ^ 64 \<Longrightarrow> unat (x + of_nat n) = unat x + n" for x :: u64
  by (simp add: unat_word_ariths unat_of_nat take_bit_eq_mod)

text \<open>Bytes go into the page in memory.\<close>

lemma put_bytes_ok:
  fixes fs :: "'d file_store"
  assumes inv: "store_at view n D T W F fs" and W: "W p = Some f" and s: "ws_at p fs = Inr s" and m: "ws_mem_page s \<noteq> - 1"
    and k: "unat (ws_offset s) + length bs \<le> 4096" "length f + length bs \<le> 2 ^ 37"
  defines "s' \<equiv> s\<lparr>ws_offset := ws_offset s + of_nat (length bs),
    ws_descriptor := (ws_descriptor s)\<lparr>fd_size := fd_size (ws_descriptor s) + of_nat (length bs)\<rparr>\<rparr>"
  shows "\<exists>c'. mem_store (ws_mem_page s) (unat (ws_offset s)) bs (fs_cache fs) = Inr c'
    \<and> store_at view n D T (W(p \<mapsto> f @ bs)) F (ws_put p s' (fs\<lparr>fs_cache := c'\<rparr>))
    \<and> unat (ws_offset s') = unat (ws_offset s) + length bs \<and> unat (fd_size (ws_descriptor s')) = length f + length bs"
proof -
  note get = store_get [OF inv W s] and bnd = store_bounds [OF inv]
  let ?c = "fs_cache fs" and ?h = "ws_mem_page s" and ?off = "unat (ws_offset s)" and ?pgs = "D (fd_cache_id (ws_descriptor s))"
  have h: "?h \<in> set (held s @ other_held p fs)" using m by (simp add: held_def)
  from pages_store [OF get(2) h k(1)] obtain c' where c': "mem_store ?h ?off bs ?c = Inr c'"
    "pages_ok D (dk_next_cache_id (fs_disk fs)) (held s @ other_held p fs) c'" "page_bytes c' ?h = poke (page_bytes ?c ?h) ?off bs"
    "\<forall>h' \<in> set (held s @ other_held p fs). h' \<noteq> ?h \<longrightarrow> page_bytes c' h' = page_bytes ?c h'" "cache_pages c' = cache_pages ?c" by blast
  have dis: "distinct (held s @ other_held p fs)" using get(2) by (simp add: pages_ok_def)
  have len: "length (page_bytes ?c ?h) = 4096" using pages_ok_live [OF get(2) h] by simp
  have wok: "length f = unat (fd_size (ws_descriptor s))" "length f \<le> 2 ^ 37"
    "f = concat (?pgs @ map (page_bytes ?c) (ws_cached s)) @ take ?off (page_bytes ?c ?h)"
    using get(3) unfolding writer_ok_mem [OF m] by blast+
  have off: "unat (ws_offset s') = ?off + length bs" using k(1) unfolding s'_def by (simp add: unat_plus_of_nat)
  have size: "unat (fd_size (ws_descriptor s')) = length f + length bs"
    using k(2) unfolding s'_def by (simp add: unat_add_of_nat64 wok(1) [symmetric])
  have keep: "page_bytes c' x = page_bytes ?c x" if "x \<in> set (ws_cached s) \<union> set (other_held p fs)" for x
  proof -
    have "x \<in> set (held s @ other_held p fs)" "x \<noteq> ?h" using that dis m by (auto simp: held_def)
    then show ?thesis using c'(4) by blast
  qed
  then have cached: "map (page_bytes c') (ws_cached s) = map (page_bytes ?c) (ws_cached s)" by simp
  have others: "\<forall>h' \<in> set (other_held p fs). page_bytes c' h' = page_bytes ?c h'" using keep by blast
  have held: "held s' = held s" by (simp add: held_def s'_def)
  have tk: "take (?off + length bs) (poke (page_bytes ?c ?h) ?off bs) = take ?off (page_bytes ?c ?h) @ bs"
    using len k(1) by (simp add: poke_def)
  have s': "ws_mem_page s' = ?h" "ws_cached s' = ws_cached s" "fd_cache_id (ws_descriptor s') = fd_cache_id (ws_descriptor s)"
    "fd_extents (ws_descriptor s') = fd_extents (ws_descriptor s)" by (simp_all add: s'_def)
  have "f @ bs = concat (?pgs @ map (page_bytes c') (ws_cached s')) @ take (unat (ws_offset s')) (page_bytes c' (ws_mem_page s'))"
    unfolding s' off c'(3) tk cached by (subst wok(3)) simp
  moreover have "length (f @ bs) = unat (fd_size (ws_descriptor s'))" "length (f @ bs) \<le> 2 ^ 37" "unat (ws_offset s') \<le> 4096"
    using k off size by simp_all
  moreover have "ws_mem_page s' \<noteq> - 1" using m by (simp add: s')
  ultimately have "writer_ok ?pgs c' s' (f @ bs)" using writer_ok_mem by blast
  then have "store_at view n D T (W(p \<mapsto> f @ bs)) F (ws_put p s' (fs\<lparr>fs_disk := fs_disk fs, fs_cache := c', fs_dirty := fs_dirty fs\<rparr>))"
    by (intro store_put [OF inv W s]) (use get c' others bnd in \<open>simp_all add: s' held\<close>)
  moreover have "fs\<lparr>fs_disk := fs_disk fs, fs_cache := c', fs_dirty := fs_dirty fs\<rparr> = fs\<lparr>fs_cache := c'\<rparr>" by simp
  ultimately show ?thesis using c'(1) off size by auto
qed

text \<open>The page in memory joins the pages to be flushed.\<close>

lemma write_page_ok:
  fixes fs :: "'d file_store"
  assumes inv: "store_at view n D T W F fs" and W: "W p = Some f" and s: "ws_at p fs = Inr s"
    and m: "ws_mem_page s \<noteq> - 1" "ws_offset s \<noteq> 0"
  shows "\<exists>fs' s'. dw_write_page p fs = Inr fs' \<and> store_at view n D T W F fs' \<and> fs_states fs' = fs_states (ws_put p s' fs)
    \<and> same_flags fs fs' \<and> ws_mem_page s' = - 1 \<and> fd_size (ws_descriptor s') = fd_size (ws_descriptor s)"
proof -
  note get = store_get [OF inv W s] and bnd = store_bounds [OF inv]
  define s' where "s' = s\<lparr>ws_cached := ws_cached s @ [ws_mem_page s], ws_mem_page := - 1, ws_offset := 0\<rparr>"
  have held: "held s' = held s" using m by (simp add: held_def s'_def)
  let ?pgs = "D (fd_cache_id (ws_descriptor s))" and ?c = "fs_cache fs" and ?h = "ws_mem_page s"
  have len: "length (page_bytes ?c ?h) = 4096" using pages_ok_live [OF get(2), of ?h] m by (simp add: held_def)
  let ?all = "concat (?pgs @ map (page_bytes ?c) (ws_cached s))"
  have wok: "length f = unat (fd_size (ws_descriptor s))" "length f \<le> 2 ^ 37" "unat (ws_offset s) \<le> 4096"
    "f = ?all @ take (unat (ws_offset s)) (page_bytes ?c ?h)"
    using get(3) unfolding writer_ok_mem [OF m(1)] by blast+
  have o: "0 < unat (ws_offset s)" using m(2) by (simp add: unat_gt_0)
  have lf: "length f = length ?all + unat (ws_offset s)" using wok(3) len by (subst wok(4)) simp
  have all': "concat (?pgs @ map (page_bytes ?c) (ws_cached s')) = ?all @ page_bytes ?c ?h" by (simp add: s'_def)
  have "f = take (length f) (?all @ page_bytes ?c ?h)" unfolding lf by (subst wok(4)) simp
  moreover have "length f \<le> length (?all @ page_bytes ?c ?h)" "length (?all @ page_bytes ?c ?h) < length f + 4096"
    using lf wok(3) len o by simp_all
  ultimately have "writer_ok ?pgs ?c s' f"
    unfolding writer_ok_def Let_def all' using wok(1,2) by (simp add: s'_def del: length_append take_append)
  then have "store_at view n D T (W(p \<mapsto> f)) F (ws_put p s' (fs\<lparr>fs_disk := fs_disk fs, fs_cache := ?c, fs_dirty := fs_dirty fs\<rparr>))"
    by (intro store_put [OF inv W s]) (use get bnd in \<open>simp_all add: s'_def held [unfolded s'_def]\<close>)
  then have "store_at view n D T W F (ws_put p s' fs)" using W by (simp add: map_upd_triv)
  moreover have "dw_write_page p fs = Inr (ws_put p s' fs)" using m(2) by (simp add: dw_write_page_def s s'_def)
  ultimately show ?thesis by (intro exI [of _ "ws_put p s' fs"] exI [of _ s']) (simp add: s'_def)
qed

text \<open>The pages that a write of \<open>k\<close> bytes takes.\<close>

definition pages_needed :: "writer_state \<Rightarrow> nat \<Rightarrow> nat" where
  "pages_needed s k = (if ws_mem_page s = - 1 then (k + 4095) div 4096 else (k + unat (ws_offset s) - 1) div 4096)"

lemma page_size_nat: "unat Disk.page_size = 4096"
  by (simp add: Disk.page_size_def page_bits_def)

text \<open>One turn of the loop, from the copying on.\<close>

lemma write_turn_ok:
  fixes fs :: "'d file_store"
  assumes inv: "store_at view n D T W F fs" and W: "W p = Some f" and s: "ws_at p fs = Inr s" and m: "ws_mem_page s \<noteq> - 1"
    and size: "length f + length data \<le> 2 ^ 37" and set: "settled {p} fs" and ne: "data \<noteq> []"
  defines "part \<equiv> min (unat (Disk.page_size - ws_offset s)) (length data)"
  shows "\<exists>fs2 s2 fs3 s3.
      (if part \<noteq> 0 then
         res_bind (mem_store (ws_mem_page s) (unat (ws_offset s)) (take part data) (fs_cache fs)) (\<lambda>c.
           Inr (ws_put p
             (s\<lparr>ws_offset := ws_offset s + of_nat part,
                ws_descriptor := (ws_descriptor s)\<lparr>fd_size := fd_size (ws_descriptor s) + of_nat part\<rparr>\<rparr>)
             (fs\<lparr>fs_cache := c\<rparr>)))
       else Inr fs) = Inr fs2 \<and> ws_at p fs2 = Inr s2
    \<and> (if ws_offset s2 = Disk.page_size then dw_write_page p fs2 else Inr fs2) = Inr fs3 \<and> ws_at p fs3 = Inr s3
    \<and> store_at view n D T (W(p \<mapsto> f @ take part data)) F fs3 \<and> settled {} fs3 \<and> same_shapes {p} fs fs3
    \<and> part = min (4096 - unat (ws_offset s)) (length data)
    \<and> (if 4096 \<le> unat (ws_offset s) + length data then ws_mem_page s3 = - 1
       else ws_mem_page s3 \<noteq> - 1 \<and> unat (ws_offset s3) = unat (ws_offset s) + length data)"
proof -
  have off: "unat (ws_offset s) \<le> 4096" using store_get(3) [OF inv W s] unfolding writer_ok_mem [OF m] by blast
  then have "unat (Disk.page_size - ws_offset s) = 4096 - unat (ws_offset s)"
    by (subst unat_sub) (simp_all add: word_le_nat_alt page_size_nat)
  then have part: "part = min (4096 - unat (ws_offset s)) (length data)" by (simp add: part_def)
  let ?s = "s\<lparr>ws_offset := ws_offset s + of_nat part,
                ws_descriptor := (ws_descriptor s)\<lparr>fd_size := fd_size (ws_descriptor s) + of_nat part\<rparr>\<rparr>"
  have tl: "length (take part data) = part" by (simp add: part)
  have k: "unat (ws_offset s) + length (take part data) \<le> 4096" "length f + length (take part data) \<le> 2 ^ 37"
    using off size by (simp_all add: part)
  obtain c' where c': "mem_store (ws_mem_page s) (unat (ws_offset s)) (take part data) (fs_cache fs) = Inr c'"
    "store_at view n D T (W(p \<mapsto> f @ take part data)) F (ws_put p ?s (fs\<lparr>fs_cache := c'\<rparr>))"
    "unat (ws_offset ?s) = unat (ws_offset s) + part"
    using put_bytes_ok [OF inv W s m k] unfolding tl by blast
  obtain fs2 s2 where g: "(if part \<noteq> 0 then
         res_bind (mem_store (ws_mem_page s) (unat (ws_offset s)) (take part data) (fs_cache fs)) (\<lambda>c.
           Inr (ws_put p ?s (fs\<lparr>fs_cache := c\<rparr>))) else Inr fs) = Inr fs2"
    "store_at view n D T (W(p \<mapsto> f @ take part data)) F fs2" "ws_at p fs2 = Inr s2" "same_shapes {p} fs fs2"
    "unat (ws_offset s2) = unat (ws_offset s) + part" "ws_mem_page s2 = ws_mem_page s"
  proof (cases "part = 0")
    case True
    then show thesis using that [of fs s] inv s W by (simp add: map_upd_triv)
  next
    case False
    let ?g = "ws_put p ?s (fs\<lparr>fs_cache := c'\<rparr>)"
    have "fs_states ?g = fs_states (ws_put p ?s fs)" "same_flags fs ?g" by (simp_all add: ws_put_def)
    note sp = same_shapes_put [OF s this]
    show thesis by (rule that [of ?g ?s]) (use False c' sp in simp_all)
  qed
  have m2: "ws_mem_page s2 \<noteq> - 1" using m g(6) by simp
  have W2: "(W(p \<mapsto> f @ take part data)) p = Some (f @ take part data)" by simp
  have full: "ws_offset s2 = Disk.page_size \<longleftrightarrow> 4096 \<le> unat (ws_offset s) + length data"
  proof -
    have "x + min (4096 - x) l = 4096 \<longleftrightarrow> 4096 \<le> x + l" if "x \<le> 4096" for x l :: nat using that by linarith
    then show ?thesis using off by (simp add: word_unat_eq_iff page_size_nat g(5) part)
  qed
  show ?thesis
  proof (cases "ws_offset s2 = Disk.page_size")
    case False
    have nz: "ws_offset s2 \<noteq> 0" using g(5) False full ne by (auto simp: part unat_eq_zero [symmetric] simp del: unat_eq_zero)
    have "settled {} fs2" by (rule settled_one [OF settled_same [OF g(4) set] g(3)]) (use nz m2 in \<open>simp add: settled_writer_def\<close>)
    then show ?thesis using g m2 False full part by (intro exI [of _ fs2] exI [of _ s2]) simp
  next
    case True
    then have nz: "ws_offset s2 \<noteq> 0" by (simp add: Disk.page_size_def page_bits_def)
    obtain fs3 s3 where w: "dw_write_page p fs2 = Inr fs3" "store_at view n D T (W(p \<mapsto> f @ take part data)) F fs3"
      "fs_states fs3 = fs_states (ws_put p s3 fs2)" "same_flags fs2 fs3" "ws_mem_page s3 = - 1"
      "fd_size (ws_descriptor s3) = fd_size (ws_descriptor s2)" using write_page_ok [OF g(2) W2 g(3) m2 nz] by blast
    note sp = same_shapes_put [OF g(3) w(3,4)]
    have sh: "same_shapes {p} fs fs3" by (rule same_shapes_trans [OF g(4) sp(1)])
    note wok = store_get(3) [OF g(2) W2 g(3), unfolded writer_ok_mem [OF m2]]
    note get = store_get [OF g(2) W2 g(3)]
    have live: "\<forall>h \<in> set (held s2). length (page_bytes (fs_cache fs2) h) = 4096" using pages_ok_live [OF get(2)] by simp
    have pgs: "\<forall>b \<in> set (D (fd_cache_id (ws_descriptor s2))). length b = 4096"
      using disk_pages_lengths [OF files_ok_member(1) [OF get(1)]] by fastforce
    have h: "length (page_bytes (fs_cache fs2) (ws_mem_page s2)) = 4096" using live m2 by (simp add: held_def)
    have "unat (fd_size (ws_descriptor s3)) = length (f @ take part data)" using conjunct1 [OF wok] w(6) by simp
    also have "\<dots> = length (concat (D (fd_cache_id (ws_descriptor s2)) @ map (page_bytes (fs_cache fs2)) (ws_cached s2))) + 4096"
      using wok h True page_size_nat by (metis length_append length_take min.idem)
    finally have "4096 dvd unat (fd_size (ws_descriptor s3))" unfolding writer_pages(1) [OF get(3) pgs live] by simp
    then have "settled {} fs3"
      by (intro settled_one [OF settled_same [OF sh set] sp(3)]) (simp add: settled_writer_def w(5))
    moreover have "(if ws_offset s2 = Disk.page_size then dw_write_page p fs2 else Inr fs2) = Inr fs3" using True w(1) by simp
    moreover have "if 4096 \<le> unat (ws_offset s) + length data then ws_mem_page s3 = - 1
       else ws_mem_page s3 \<noteq> - 1 \<and> unat (ws_offset s3) = unat (ws_offset s) + length data" using full True w(5) by simp
    ultimately show ?thesis using g(1,3) w(2) sp(3) sh part by blast
  qed
qed

lemma write_pages_step:
  fixes off len :: nat
  assumes "off \<le> 4096"
  shows "4096 \<le> off + len \<Longrightarrow> (len - (4096 - off) + 4095) div 4096 = (len + off - 1) div 4096"
proof -
  assume "4096 \<le> off + len"
  then have "len - (4096 - off) + 4095 = len + off - 1" using assms by linarith
  then show ?thesis by simp
qed

lemma write_start_ok:
  fixes fs :: "'d file_store"
  assumes io: "file_io_ok io view" and inv: "store_at view n D T W F fs" and W: "W p = Some f" and s: "ws_at p fs = Inr s"
    and set: "settled {} fs" and ne: "0 < k" and lim: "n + pages_needed s k \<le> disk_limit"
  shows "blocked_or W fs (if ws_mem_page s = - 1 then dw_allocate_page io hasher p fs else Inr fs) (\<lambda>fs1. \<exists>D1 T1 n1 s1.
      store_at view n1 D1 T1 W F fs1 \<and> ws_at p fs1 = Inr s1 \<and> ws_mem_page s1 \<noteq> - 1 \<and> settled {p} fs1 \<and> same_shapes {p} fs fs1
    \<and> n1 + (k + unat (ws_offset s1) - 1) div 4096 = n + pages_needed s k
    \<and> (unat (ws_offset s1) = 4096 \<longrightarrow> ws_mem_page s \<noteq> - 1 \<and> unat (ws_offset s) = 4096))"
proof (cases "ws_mem_page s = - 1")
  case False
  then show ?thesis using inv s settled_mono [OF set, of "{p}"] unfolding blocked_or_def
    by (intro disjI2 exI [of _ fs] conjI exI [of _ D] exI [of _ T] exI [of _ n] exI [of _ s]) (simp_all add: pages_needed_def)
next
  case True
  have "settled_writer s" using set s by (auto simp: settled_def)
  moreover have "length f = unat (fd_size (ws_descriptor s))" using store_get(3) [OF inv W s] unfolding writer_ok_def by blast
  ultimately have al: "4096 dvd length f" using True by (simp add: settled_writer_def)
  have need: "pages_needed s k = Suc ((k - 1) div 4096)"
  proof -
    have "k + 4095 = k - 1 + 4096" using ne by simp
    then have "(k + 4095) div 4096 = (k - 1 + 4096) div 4096" by (rule arg_cong)
    then show ?thesis using True by (simp add: pages_needed_def)
  qed
  then have "n < disk_limit" using lim by simp
  moreover have "\<not> fs_flush_active fs" using set by (simp add: settled_def)
  ultimately have "blocked_or W fs (dw_allocate_page io hasher p fs) (\<lambda>fs'. \<exists>D' T' s'. store_at view (Suc n) D' T' W F fs' \<and> same_shapes {p} fs fs'
    \<and> ws_at p fs' = Inr s' \<and> ws_mem_page s' \<noteq> - 1 \<and> ws_offset s' = 0)"
    by (rule allocate_page_ok [OF io inv W s True al])
  then show ?thesis
  proof (cases rule: blocked_or_cases)
    case blocked
    then show ?thesis using True by (simp add: blocked_or_def)
  next
    case (finished fs')
    then obtain D' T' s' where a: "store_at view (Suc n) D' T' W F fs'" "same_shapes {p} fs fs'"
      "ws_at p fs' = Inr s'" "ws_mem_page s' \<noteq> - 1" "ws_offset s' = 0" by blast
    have "settled {p} fs'" by (rule settled_same [OF a(2) settled_mono [OF set]]) simp
    then show ?thesis unfolding blocked_or_def using True finished(1) a need
      by (intro disjI2 exI [of _ fs'] conjI exI [of _ D'] exI [of _ T'] exI [of _ "Suc n"] exI [of _ s']) simp_all
  qed
qed

lemma write_loop_ok:
  fixes fs :: "'d file_store"
  assumes io: "file_io_ok io view"
  shows "store_at view n D T W F fs \<Longrightarrow> W p = Some f \<Longrightarrow> ws_at p fs = Inr s \<Longrightarrow> settled {} fs \<Longrightarrow>
    length f + length data \<le> 2 ^ 37 \<Longrightarrow> n + pages_needed s (length data) \<le> disk_limit \<Longrightarrow>
    length data + of_bool (ws_mem_page s \<noteq> - 1 \<and> unat (ws_offset s) = 4096) < k \<Longrightarrow>
    blocked_or W fs (fw_write_loop io hasher k p data fs) (\<lambda>fs'. \<exists>D' T'.
      store_at view (n + pages_needed s (length data)) D' T' (W(p \<mapsto> f @ data)) F fs' \<and> settled {} fs' \<and> same_shapes {p} fs fs')"
proof (induction k arbitrary: fs n D T W f s data)
  case (Suc k)
  show ?case
  proof (cases "data = []")
    case True
    have "store_at view (n + pages_needed s 0) D T W F fs" by (rule store_mono [OF Suc.prems(1)]) (use Suc.prems(6) True in simp_all)
    then show ?thesis using True Suc.prems(2,4) by (auto simp: map_upd_triv blocked_or_def)
  next
    case False
    then have len: "0 < length data" by simp
    then have "0 < k" using Suc.prems(7) by linarith
    have start: "blocked_or W fs (if ws_mem_page s = - 1 then dw_allocate_page io hasher p fs else Inr fs) (\<lambda>fs1. \<exists>D1 T1 n1 s1.
      store_at view n1 D1 T1 W F fs1 \<and> ws_at p fs1 = Inr s1 \<and> ws_mem_page s1 \<noteq> - 1 \<and> settled {p} fs1 \<and> same_shapes {p} fs fs1
      \<and> n1 + (length data + unat (ws_offset s1) - 1) div 4096 = n + pages_needed s (length data)
      \<and> (unat (ws_offset s1) = 4096 \<longrightarrow> ws_mem_page s \<noteq> - 1 \<and> unat (ws_offset s) = 4096))"
      by (rule write_start_ok [OF io Suc.prems(1-4) len Suc.prems(6)])
    show ?thesis
    proof (cases rule: blocked_or_cases [OF start, case_names blocked finished])
    case blocked
    then show ?thesis using False
      by (simp only: blocked_or_def fw_write_loop.simps(2) Suc.prems(3) if_False res_bind_Inr blocked(1) res_bind_Inl simp_thms)
    next
    case (finished fs0)
    then obtain fs1 :: "'d file_store" and D1 T1 n1 s1 where a: "(if ws_mem_page s = - 1 then dw_allocate_page io hasher p fs else Inr fs) = Inr fs1"
      "store_at view n1 D1 T1 W F fs1" "ws_at p fs1 = Inr s1" "ws_mem_page s1 \<noteq> - 1" "settled {p} fs1" "same_shapes {p} fs fs1"
      "n1 + (length data + unat (ws_offset s1) - 1) div 4096 = n + pages_needed s (length data)"
      "unat (ws_offset s1) = 4096 \<longrightarrow> ws_mem_page s \<noteq> - 1 \<and> unat (ws_offset s) = 4096" by blast
    let ?off = "unat (ws_offset s1)"
    have off: "?off \<le> 4096" using store_get(3) [OF a(2) Suc.prems(2) a(3)] unfolding writer_ok_mem [OF a(4)] by blast
    define part where "part = min (unat (Disk.page_size - ws_offset s1)) (length data)"
    obtain fs2 s2 fs3 s3 where t: "(if part \<noteq> 0 then
         res_bind (mem_store (ws_mem_page s1) (unat (ws_offset s1)) (take part data) (fs_cache fs1)) (\<lambda>c.
           Inr (ws_put p
             (s1\<lparr>ws_offset := ws_offset s1 + of_nat part,
                ws_descriptor := (ws_descriptor s1)\<lparr>fd_size := fd_size (ws_descriptor s1) + of_nat part\<rparr>\<rparr>)
             (fs1\<lparr>fs_cache := c\<rparr>)))
       else Inr fs1) = Inr fs2" "ws_at p fs2 = Inr s2"
      "(if ws_offset s2 = Disk.page_size then dw_write_page p fs2 else Inr fs2) = Inr fs3" "ws_at p fs3 = Inr s3"
      "store_at view n1 D1 T1 (W(p \<mapsto> f @ take part data)) F fs3" "settled {} fs3" "same_shapes {p} fs1 fs3"
      "part = min (4096 - ?off) (length data)"
      "if 4096 \<le> ?off + length data then ws_mem_page s3 = - 1
       else ws_mem_page s3 \<noteq> - 1 \<and> unat (ws_offset s3) = ?off + length data"
      using write_turn_ok [OF a(2) Suc.prems(2) a(3,4) Suc.prems(5) a(5) False, folded part_def] by blast
    let ?data = "drop part data"
    have need: "n1 + pages_needed s3 (length ?data) = n + pages_needed s (length data)"
    proof (cases "4096 \<le> ?off + length data")
      case True
      then have m: "ws_mem_page s3 = - 1" "part = 4096 - ?off" using t(8,9) off by auto
      show ?thesis using write_pages_step [OF off True] a(7) m by (simp add: pages_needed_def)
    next
      case False
      then have "ws_mem_page s3 \<noteq> - 1" "unat (ws_offset s3) = ?off + length data" "part = length data" using t(8,9) by auto
      then show ?thesis using a(7) by (simp add: pages_needed_def add.commute)
    qed
    have fuel: "length ?data + of_bool (ws_mem_page s3 \<noteq> - 1 \<and> unat (ws_offset s3) = 4096) < k"
    proof (cases "4096 \<le> ?off + length data")
      case True
      then have m: "ws_mem_page s3 = - 1" "part = 4096 - ?off" using t(8,9) off by auto
      show ?thesis
      proof (cases "?off = 4096")
        case True
        then show ?thesis using m Suc.prems(7) a(8) by simp
      next
        case False
        then have "0 < part" using m off by simp
        then have "length ?data < length data" using len by simp
        moreover have "length data \<le> k" using Suc.prems(7) by linarith
        ultimately show ?thesis using m(1) by simp
      qed
    next
      case False
      then have "unat (ws_offset s3) \<noteq> 4096" "part = length data" using t(8,9) by auto
      then show ?thesis using \<open>0 < k\<close> by simp
    qed
    have Weq: "(W(p \<mapsto> f @ take part data))(p \<mapsto> (f @ take part data) @ ?data) = W(p \<mapsto> f @ data)" by simp
    have W3: "(W(p \<mapsto> f @ take part data)) p = Some (f @ take part data)" by simp
    have size: "length (f @ take part data) + length ?data \<le> 2 ^ 37" using Suc.prems(5) t(8) by simp
    have lim: "n1 + pages_needed s3 (length ?data) \<le> disk_limit" using need Suc.prems(6) by simp
    have run: "fw_write_loop io hasher (Suc k) p data fs = fw_write_loop io hasher k p ?data fs3"
      using False by (simp only: fw_write_loop.simps if_False Suc.prems(3) res_bind_Inr a(1) a(3) Let_def part_def [symmetric] t(1-3))
    have same: "same_shapes {p} fs fs3" by (rule same_shapes_trans [OF a(6) t(7)])
    have "dom (W(p \<mapsto> f @ take part data)) = dom W" using Suc.prems(2) by auto
    note few = few_writers_same [OF same this]
    show ?thesis
      using Suc.IH [OF t(5) W3 t(4) t(6) size lim fuel] same_shapes_trans [OF same] unfolding need Weq run blocked_or_def few
      by blast
    qed
  qed
qed simp

section \<open>The operations of a writer\<close>

text \<open>Bytes are the ones of \<open>file_write\<close>; a file that would become too long is refused.\<close>

lemma fw_write_ok:
  fixes fs :: "'d file_store"
  assumes io: "file_io_ok io view" and inv: "store_at view n D T W F fs" and W: "W (fw_state w) = Some f" and set: "settled {} fs"
    and w: "\<not> fw_commited w" and data: "length data < 2 ^ 32" and n: "n + (length data + 4095) div 4096 \<le> disk_limit"
  shows "Slice.file_write data f = Inr f' \<Longrightarrow> blocked_or W fs (fw_write io hasher w data fs) (\<lambda>fs'. \<exists>D' T'.
      store_at view (n + (length data + 4095) div 4096) D' T' (W(fw_state w \<mapsto> f')) F fs' \<and> settled {} fs' \<and> same_shapes {fw_state w} fs fs')"
    and "Slice.file_write data f = Inl e \<Longrightarrow> fw_write io hasher w data fs = Inl e"
proof -
  let ?p = "fw_state w"
  obtain s where s: "ws_at ?p fs = Inr s" by (rule store_ats [OF inv W])
  have lf: "length f = unat (fd_size (ws_descriptor s))" "length f \<le> 2 ^ 37"
    using store_get(3) [OF inv W s] unfolding writer_ok_def by blast+
  have lim: "2 ^ 37 \<le> fd_size (ws_descriptor s) + of_nat (length data) \<longleftrightarrow> max_file_size \<le> length f + length data"
  proof -
    have "unat (fd_size (ws_descriptor s)) + length data < 2 ^ 64" using lf data by simp
    from unat_add_of_nat64 [OF this] show ?thesis by (simp add: word_le_nat_alt lf(1) max_file_size_def)
  qed
  show "fw_write io hasher w data fs = Inl e" if "Slice.file_write data f = Inl e"
    using that lim by (auto simp: file_write_def fw_write_def s split: if_splits)
  assume ok: "Slice.file_write data f = Inr f'"
  then have small: "length f + length data < max_file_size" "f' = f @ data" by (auto simp: file_write_def split: if_splits)
  have need: "pages_needed s (length data) \<le> (length data + 4095) div 4096"
  proof (cases "ws_mem_page s = - 1")
    case False
    have "unat (ws_offset s) \<le> 4096" using store_get(3) [OF inv W s] unfolding writer_ok_mem [OF False] by blast
    then have "length data + unat (ws_offset s) - 1 \<le> length data + 4095" by linarith
    then show ?thesis using False by (simp add: pages_needed_def div_le_mono)
  qed (simp add: pages_needed_def)
  have "length f + length data \<le> 2 ^ 37" "n + pages_needed s (length data) \<le> disk_limit"
    "length data + of_bool (ws_mem_page s \<noteq> - 1 \<and> unat (ws_offset s) = 4096) < length data + 2"
    using small(1) need n by (simp_all add: max_file_size_def)
  note loop = write_loop_ok [OF io inv W s set this, of hasher]
  have "\<not> 2 ^ 37 \<le> fd_size (ws_descriptor s) + of_nat (length data)" unfolding lim using small(1) by simp
  then have run: "fw_write io hasher w data fs = fw_write_loop io hasher (length data + 2) ?p data fs"
    using w by (simp add: fw_write_def s del: fw_write_loop.simps)
  have "store_at view (n + (length data + 4095) div 4096) D' T' (W(?p \<mapsto> f')) F fs'"
    if "store_at view (n + pages_needed s (length data)) D' T' (W(?p \<mapsto> f @ data)) F fs'" for D' T' and fs' :: "'d file_store"
    using store_mono [OF that] need n small(2) by simp
  then show "blocked_or W fs (fw_write io hasher w data fs) (\<lambda>fs'. \<exists>D' T'.
      store_at view (n + (length data + 4095) div 4096) D' T' (W(fw_state w \<mapsto> f')) F fs' \<and> settled {} fs' \<and> same_shapes {fw_state w} fs fs')"
    using loop unfolding run blocked_or_def by blast
qed

text \<open>Padding to the end of the page.\<close>

lemma and_page_mask: "unat (x AND page_mask) = unat x mod 4096" for x :: u32
proof -
  have "x AND page_mask = take_bit 12 x"
    by (simp add: take_bit_eq_mask mask_eq_exp_minus_1 page_mask_def Disk.page_size_def page_bits_def)
  then have "unat (x AND page_mask) = unat (take_bit 12 x)" by (rule arg_cong)
  also have "\<dots> = take_bit 12 (unat x)" by (rule unsigned_take_bit_eq)
  finally show ?thesis by (simp add: take_bit_eq_mod)
qed

lemma fw_add_padding_ok:
  fixes fs :: "'d file_store"
  assumes inv: "store_at view n D T W F fs" and W: "W (fw_state w) = Some f" and set: "settled {} fs" and w: "\<not> fw_commited w"
  shows "\<exists>fs'. fw_add_padding w fs = Inr fs' \<and> store_at view n D T (W(fw_state w \<mapsto> file_padding f)) F fs'
    \<and> settled {} fs' \<and> same_shapes {fw_state w} fs fs'"
proof -
  let ?p = "fw_state w"
  obtain s where s: "ws_at ?p fs = Inr s" by (rule store_ats [OF inv W])
  note get = store_get [OF inv W s]
  have lf: "length f = unat (fd_size (ws_descriptor s))" "length f \<le> 2 ^ 37" using get(3) unfolding writer_ok_def by blast+
  have st: "settled_writer s" using set s by (auto simp: settled_def)
  show ?thesis
  proof (cases "ws_mem_page s = - 1")
    case True
    then have "ws_offset s = 0" "length f mod 4096 = 0" using get(3) st lf(1)
      unfolding writer_ok_none [OF True] settled_writer_def by auto
    then show ?thesis using inv set w s W
      by (intro exI [of _ fs]) (simp add: fw_add_padding_def file_padding_def file_page_size_def map_upd_triv)
  next
    case False
    let ?off = "unat (ws_offset s)"
    have live: "\<forall>h \<in> set (held s). length (page_bytes (fs_cache fs) h) = 4096" using pages_ok_live [OF get(2)] by simp
    have pgs: "\<forall>b \<in> set (D (fd_cache_id (ws_descriptor s))). length b = 4096"
      using disk_pages_lengths [OF files_ok_member(1) [OF get(1)]] by fastforce
    have h: "length (page_bytes (fs_cache fs) (ws_mem_page s)) = 4096" using live False by (simp add: held_def)
    note wok = get(3) [unfolded writer_ok_mem [OF False]]
    have off: "?off \<le> 4096" "0 < ?off" using wok st False by (simp_all add: settled_writer_def unat_gt_0)
    let ?x = "length (D (fd_cache_id (ws_descriptor s))) + length (ws_cached s)"
    have len: "length f = 4096 * ?x + ?off"
    proof -
      have "f = concat (D (fd_cache_id (ws_descriptor s)) @ map (page_bytes (fs_cache fs)) (ws_cached s)) @ take ?off (page_bytes (fs_cache fs) (ws_mem_page s))"
        using wok by blast
      then have "length f = length (concat (D (fd_cache_id (ws_descriptor s)) @ map (page_bytes (fs_cache fs)) (ws_cached s))) + ?off"
        using h off(1) by (metis length_append length_take min.absorb2)
      then show ?thesis unfolding writer_pages(1) [OF get(3) pgs live] .
    qed
    show ?thesis
    proof (cases "?off = 4096")
      case True
      then have "ws_offset s AND page_mask = 0" using and_page_mask [of "ws_offset s"] by (simp add: unat_eq_zero)
      moreover have "length f mod 4096 = 0" using len True by simp
      ultimately show ?thesis using inv set w s W
        by (intro exI [of _ fs]) (simp add: fw_add_padding_def file_padding_def file_page_size_def map_upd_triv)
    next
      case ne: False
      then have lt: "?off < 4096" using off by simp
      have am: "ws_offset s AND page_mask = ws_offset s" using and_page_mask [of "ws_offset s"] lt by (simp add: word_unat_eq_iff)
      have nz: "ws_offset s \<noteq> 0" using off(2) by auto
      let ?sz = "Disk.page_size - ws_offset s"
      have sz: "unat ?sz = 4096 - ?off" using lt by (subst unat_sub) (simp_all add: word_le_nat_alt page_size_nat)
      let ?z = "replicate (unat ?sz) (0 :: u8)"
      have zl: "of_nat (length ?z) = ?sz" "of_nat (length ?z) = (ucast ?sz :: u64)" by (simp_all add: unat_ucast_up word_unat_eq_iff)
      have m4: "length f mod 4096 = ?off" unfolding len by (simp only: mod_mult_self4 mod_less [OF lt])
      have pad: "file_padding f = f @ ?z" using m4 lt off(2) sz by (simp add: file_padding_def file_page_size_def)
      have k: "?off + length ?z \<le> 4096" "length f + length ?z \<le> 2 ^ 37"
      proof -
        show "?off + length ?z \<le> 4096" using sz lt by simp
        have "4096 * ?x + ?off \<le> 4096 * 2 ^ 25" using lf(2) len by simp
        then have "4096 * ?x < 4096 * 2 ^ 25" using off(2) by linarith
        then have "?x < 2 ^ 25" by simp
        then have "4096 * ?x + 4096 \<le> 4096 * 2 ^ 25" by simp
        then show "length f + length ?z \<le> 2 ^ 37" using len sz lt by simp
      qed
      define s' where "s' = s\<lparr>ws_offset := ws_offset s + ?sz,
         ws_descriptor := (ws_descriptor s)\<lparr>fd_size := fd_size (ws_descriptor s) + ucast ?sz\<rparr>\<rparr>"
      obtain c' where c': "mem_store (ws_mem_page s) ?off ?z (fs_cache fs) = Inr c'"
        "store_at view n D T (W(?p \<mapsto> f @ ?z)) F (ws_put ?p s' (fs\<lparr>fs_cache := c'\<rparr>))" "unat (ws_offset s') = ?off + length ?z"
        using put_bytes_ok [OF inv W s False k] unfolding zl s'_def [symmetric] by blast
      let ?g = "ws_put ?p s' (fs\<lparr>fs_cache := c'\<rparr>)"
      have run: "fw_add_padding w fs = Inr ?g" using w nz c'(1) by (simp add: fw_add_padding_def s am s'_def Let_def)
      have "fs_states ?g = fs_states (ws_put ?p s' fs)" "same_flags fs ?g" by (simp_all add: ws_put_def)
      note sp = same_shapes_put [OF s this]
      have "settled {} ?g"
      proof (rule settled_one [OF settled_same [OF sp(1) settled_mono [OF set]] sp(3)])
        have "ws_offset s' \<noteq> 0" using c'(3) off(2) by auto
        then show "settled_writer s'" using False by (simp add: settled_writer_def s'_def)
      qed simp
      then show ?thesis using run c'(2) sp(1) unfolding pad by blast
    qed
  qed
qed

end
