(* ===== verification/File_Refinement.thy ===== *)
theory File_Refinement
  imports File_Writing
begin

text \<open>
  The files of the storage engine are the byte strings that the slices are written to and read from: what
  \<open>file_write\<close>, \<open>file_padding\<close> and \<open>file_pread\<close> of \<open>Slice\<close> say of a byte string, the engine does with
  pages in memory and on the disk, whatever else is written, read, removed or given up meanwhile.
\<close>

section \<open>Reading\<close>

lemma dr_read_ok:
  fixes fs :: "'d file_store"
  assumes io: "file_io_ok io view" and files: "files_ok view D T fds (fs_disk fs)" and m: "(i, es) \<in> set fds"
    and pages: "pages_ok D (dk_next_cache_id (fs_disk fs)) hs (fs_cache fs)" and room: "length hs < cache_pages (fs_cache fs)"
    and nxt: "unat (dk_next_cache_id (fs_disk fs)) \<le> 2 ^ 39" and q: "q < length (D i)" "length (D i) \<le> 2 ^ 25"
  shows "\<exists>h c. dr_read io hasher i (of_nat q) es fs = Inr (h, fs\<lparr>fs_cache := c\<rparr>)
    \<and> pages_ok D (dk_next_cache_id (fs_disk fs)) hs c \<and> live_page c h \<and> page_bytes c h = D i ! q
    \<and> (\<forall>g \<in> set hs. page_bytes c g = page_bytes (fs_cache fs) g) \<and> cache_pages c = cache_pages (fs_cache fs)"
proof -
  let ?nxt = "dk_next_cache_id (fs_disk fs)" and ?c = "fs_cache fs" and ?k = "page_key i (of_nat q)"
  have i: "0 < i" "i < ?nxt" by (rule files_ok_member [OF files m])+
  have q25: "q < 2 ^ 25" "unat (of_nat q :: u32) = q" using q unat_page [of q] by simp_all
  have "unat i < 2 ^ 39" using i(2) nxt by (simp add: word_less_nat_alt)
  then have k: "?k \<noteq> 0" using i(1) q25 by (intro page_key_nonzero) simp_all
  have as: "(of_nat q :: u32) < push_bit file_pages_bits 1" using q25 by (simp add: word_less_nat_alt file_pages_bits_def)
  show ?thesis
  proof (cases "?k \<in> fst ` wt_pairs (pc_lfu ?c)")
    case True
    then obtain g where g: "(?k, g) \<in> wt_pairs (pc_lfu ?c)" by force
    from pages_hit [OF pages g k, of hasher] obtain c where c: "cache_get hasher ?k ?c = Inr (g, c)"
      "pages_ok D ?nxt hs c" "same_memory ?c c" "live_page c g" "g \<noteq> - 1" by blast
    have b: "page_bytes c = page_bytes ?c" "cache_pages c = cache_pages ?c" using c(3) by (simp_all add: same_memory_def)
    have "dr_read io hasher i (of_nat q) es fs = Inr (g, fs\<lparr>fs_cache := c\<rparr>)" using as c(1,5) by (simp add: dr_read_def)
    then show ?thesis using c(2,4) b pages_cached(2) [OF pages g i(2) nxt q25(1)] by (intro exI [of _ g] exI [of _ c]) simp
  next
    case False
    have get: "cache_get hasher ?k ?c = Inr (- 1, ?c)" by (rule pages_miss [OF pages False k])
    have rd: "disk_read io (get_disk_page (of_nat q) es) (fs_disk fs) = Inr (D i ! q)"
      using q25(1) by (intro files_read [OF io files m q(1)]) simp
    have "disk_pages view (dk_file (fs_disk fs)) es (D i)" by (rule files_ok_member [OF files m])
    then have "length (D i ! q) = 4096" using q(1) by (auto simp: disk_pages_def list_all2_conv_all_nth page_is_def)
    from pages_load [OF pages room i nxt q this False, of hasher] obtain h c1 c2 c3 where
      c: "cache_allocate hasher ?c = Inr (h, c1)" "mem_store h 0 (D i ! q) c1 = Inr c2" "cache_add hasher ?k h c2 = Inr c3"
      "pages_ok D ?nxt hs c3" "page_bytes c3 h = D i ! q" "live_page c3 h" "\<forall>g \<in> set hs. page_bytes c3 g = page_bytes ?c g"
      "cache_pages c3 = cache_pages ?c" by blast
    have "dr_read io hasher i (of_nat q) es fs = Inr (h, fs\<lparr>fs_cache := c3\<rparr>)"
      using as get c(1-3) rd by (simp add: dr_read_def)
    then show ?thesis using c(4-8) by blast
  qed
qed

lemma peek_concat_pages:
  "\<forall>b \<in> set bs. length b = 4096 \<Longrightarrow> off div 4096 < length bs \<Longrightarrow> off mod 4096 + n \<le> 4096 \<Longrightarrow>
    peek (concat bs) off n = take n (drop (off mod 4096) (bs ! (off div 4096)))"
proof (induction bs arbitrary: off)
  case (Cons b bs)
  show ?case
  proof (cases "off < 4096")
    case True
    then show ?thesis using Cons.prems by (simp add: peek_def)
  next
    case False
    then have o: "off div 4096 = Suc ((off - 4096) div 4096)" "off mod 4096 = (off - 4096) mod 4096"
      by (simp_all add: le_div_geq le_mod_geq)
    have "peek (concat bs) (off - 4096) n = take n (drop ((off - 4096) mod 4096) (bs ! ((off - 4096) div 4096)))"
      using Cons.prems o by (intro Cons.IH) simp_all
    moreover have "peek (concat (b # bs)) off n = peek (concat bs) (off - 4096) n" using Cons.prems(1) False by (simp add: peek_def)
    ultimately show ?thesis by (simp add: o)
  qed
qed simp

lemma offset_page:
  assumes "off < 2 ^ 44"
  shows "(ucast (drop_bit page_bits (of_nat off :: u64)) :: u32) = of_nat (off div 4096)"
    "unat ((ucast (of_nat off :: u64) :: u32) AND page_mask) = off mod 4096"
proof -
  have u: "unat (of_nat off :: u64) = off" using assms by (intro unat_word_of_nat) simp
  have "unat (drop_bit page_bits (of_nat off :: u64)) = off div 4096"
    by (simp only: page_bits_def unat_drop_bit_eq u) (simp add: drop_bit_eq_div)
  moreover have "off div 4096 < 2 ^ 32" using assms by (simp add: less_mult_imp_div_less)
  ultimately show "(ucast (drop_bit page_bits (of_nat off :: u64)) :: u32) = of_nat (off div 4096)"
    by (simp add: word_unat_eq_iff unsigned_ucast_eq unat_of_nat take_bit_nat_eq_self)
  have "(2 :: nat) ^ 32 = 4096 * 2 ^ 20" by simp
  then have "off mod 2 ^ 32 mod 4096 = off mod 4096" by (metis mod_mod_cancel dvd_triv_left)
  then show "unat ((ucast (of_nat off :: u64) :: u32) AND page_mask) = off mod 4096"
    unfolding and_page_mask by (simp add: unsigned_ucast_eq u take_bit_eq_mod)
qed

lemma pread_loop_ok:
  fixes fs :: "'d file_store"
  assumes io: "file_io_ok io view" and m: "file_key fd \<in> set fds"
    and nxt: "unat (dk_next_cache_id d) \<le> 2 ^ 39" and len: "length (D (fd_cache_id fd)) \<le> 2 ^ 25"
    and files: "files_ok view D T fds d"
  shows "fs_disk fs = d \<Longrightarrow> pages_ok D (dk_next_cache_id d) hs (fs_cache fs) \<Longrightarrow> length hs < cache_pages (fs_cache fs) \<Longrightarrow>
    off + sz \<le> 4096 * length (D (fd_cache_id fd)) \<Longrightarrow> sz < k \<Longrightarrow>
    \<exists>c. fr_pread_loop io hasher k fd (of_nat off) sz fs = Inr (peek (concat (D (fd_cache_id fd))) off sz, fs\<lparr>fs_cache := c\<rparr>)
      \<and> pages_ok D (dk_next_cache_id d) hs c \<and> (\<forall>g \<in> set hs. page_bytes c g = page_bytes (fs_cache fs) g)
      \<and> cache_pages c = cache_pages (fs_cache fs)"
proof (induction k arbitrary: fs off sz)
  case (Suc k)
  let ?i = "fd_cache_id fd" and ?es = "fd_extents fd"
  show ?case
  proof (cases "sz = 0")
    case True
    then show ?thesis using Suc.prems by (intro exI [of _ "fs_cache fs"]) (simp add: peek_def)
  next
    case False
    let ?q = "off div 4096" and ?r = "off mod 4096"
    have small: "off < 2 ^ 44" using Suc.prems(4) len False by simp
    have q: "?q < length (D ?i)" using Suc.prems(4) False by (simp add: less_mult_imp_div_less mult.commute)
    obtain h c where c: "dr_read io hasher ?i (of_nat ?q) ?es fs = Inr (h, fs\<lparr>fs_cache := c\<rparr>)" "pages_ok D (dk_next_cache_id d) hs c"
      "live_page c h" "page_bytes c h = D ?i ! ?q" "\<forall>g \<in> set hs. page_bytes c g = page_bytes (fs_cache fs) g"
      "cache_pages c = cache_pages (fs_cache fs)"
      using dr_read_ok [of io view D T fds fs ?i ?es hs ?q hasher] io files m Suc.prems(1-3) nxt q len by auto
    define part where "part = min (4096 - ?r) sz"
    have r: "?r < 4096" by simp
    have p0: "part \<noteq> 0" "part \<le> sz" "?r + part \<le> 4096" unfolding part_def using r False by linarith+
    have ld: "mem_load h ?r part c = Inr (peek (concat (D ?i)) off part)"
    proof -
      have pgs: "\<forall>b \<in> set (D ?i). length b = 4096"
        using disk_pages_lengths [OF files_ok_member(1) [OF files m]] by fastforce
      show ?thesis using mem_load_ok(1) [OF c(3) p0(3)] peek_concat_pages [OF pgs q p0(3)] by (simp add: c(4))
    qed
    let ?po = "(ucast (of_nat off :: u64) :: u32) AND page_mask"
    have po: "unat ?po = ?r" by (rule offset_page(2) [OF small])
    have "unat (Disk.page_size - ?po) = 4096 - ?r"
      by (subst unat_sub) (simp_all add: word_le_nat_alt page_size_nat po)
    then have up: "0 < unat (Disk.page_size - ?po)" and pt: "min (unat (Disk.page_size - ?po)) sz = part" by (simp_all add: part_def)
    have "fs_disk (fs\<lparr>fs_cache := c\<rparr>) = d" "pages_ok D (dk_next_cache_id d) hs (fs_cache (fs\<lparr>fs_cache := c\<rparr>))"
      "length hs < cache_pages (fs_cache (fs\<lparr>fs_cache := c\<rparr>))" "off + part + (sz - part) \<le> 4096 * length (D ?i)" "sz - part < k"
      using Suc.prems c p0 by simp_all
    from Suc.IH [OF this] obtain c' where c': "fr_pread_loop io hasher k fd (of_nat (off + part)) (sz - part) (fs\<lparr>fs_cache := c\<rparr>)
        = Inr (peek (concat (D ?i)) (off + part) (sz - part), fs\<lparr>fs_cache := c'\<rparr>)" "pages_ok D (dk_next_cache_id d) hs c'"
      "\<forall>g \<in> set hs. page_bytes c' g = page_bytes c g" "cache_pages c' = cache_pages c" by auto
    have e: "peek (concat (D ?i)) off sz = peek (concat (D ?i)) off part @ peek (concat (D ?i)) (off + part) (sz - part)"
      using peek_split [of "concat (D ?i)" off part "sz - part"] p0(2) by simp
    have "fr_pread_loop io hasher (Suc k) fd (of_nat off) sz fs = Inr (peek (concat (D ?i)) off sz, fs\<lparr>fs_cache := c'\<rparr>)"
      using False c(1) ld po p0(1) c'(1) up by (simp add: offset_page(1) [OF small] pt e Let_def)
    then show ?thesis using c'(2-4) c(5,6) by auto
  qed
qed simp

text \<open>A committed file reads as the bytes that were written.\<close>

lemma fr_pread_ok:
  fixes fs :: "'d file_store"
  assumes io: "file_io_ok io view" and inv: "store_at view n D T W F fs" and F: "(fd, f) \<in> set F" and off: "off < 2 ^ 64"
  shows "Slice.file_pread off (unat sz) f = Inr bs \<Longrightarrow> \<exists>c. fr_pread io hasher (of_nat off) sz fd fs = Inr (bs, fs\<lparr>fs_cache := c\<rparr>)
      \<and> store_at view n D T W F (fs\<lparr>fs_cache := c\<rparr>)"
    and "Slice.file_pread off (unat sz) f = Inl e \<Longrightarrow> fr_pread io hasher (of_nat off) sz fd fs = Inl e"
proof -
  note inv' = inv [unfolded store_at_def] and bnd = store_bounds [OF inv]
  have files: "files_ok view D T (live_files fs F) (fs_disk fs)"
    and pages: "pages_ok D (dk_next_cache_id (fs_disk fs)) (held_pages fs) (fs_cache fs)"
    and ws: "\<forall>(p, s) \<in> set (fs_states fs). \<exists>f. W p = Some f \<and> writer_ok (D (fd_cache_id (ws_descriptor s))) (fs_cache fs) s f"
    and rs: "\<forall>(fd, f) \<in> set F. reader_ok (D (fd_cache_id fd)) fd f" using inv' by blast+
  let ?pgs = "D (fd_cache_id fd)"
  have rok: "length f = unat (fd_size fd)" "length f \<le> 2 ^ 37" "f = take (length f) (concat ?pgs)" "length f \<le> length (concat ?pgs)"
    "length (concat ?pgs) < length f + 4096"
    using bspec [OF rs F] unfolding reader_ok_def by auto
  have u: "unat (of_nat off :: u64) = off" using off by (intro unat_word_of_nat) simp
  have lt: "of_nat off < fd_size fd \<longleftrightarrow> off < length f" by (simp add: word_less_nat_alt u rok(1))
  show "fr_pread io hasher (of_nat off) sz fd fs = Inl e" if "Slice.file_pread off (unat sz) f = Inl e"
    using that lt by (auto simp: Slice.file_pread_def fr_pread_def res_assert_def split: if_splits)
  assume "Slice.file_pread off (unat sz) f = Inr bs"
  then have o: "off < length f" and bs: "bs = peek f off (unat sz)" by (auto simp: Slice.file_pread_def res_assert_eq_Inr)
  have m: "file_key fd \<in> set (live_files fs F)" using F by (force simp: live_files_def)
  have pl: "\<forall>b \<in> set ?pgs. length b = 4096" using disk_pages_lengths [OF files_ok_member(1) [OF files m]] by fastforce
  note lc = length_pages [OF pl]
  have "4096 * length ?pgs < 4096 * (2 ^ 25 + 1)" using rok(2,5) unfolding lc by simp
  then have len: "length ?pgs \<le> 2 ^ 25" by simp
  let ?n = "if fd_size fd < of_nat off + ucast sz then ucast (fd_size fd - of_nat off) else sz :: u32"
  have sz32: "unat sz < 2 ^ 32" using unsigned_less [of sz] by simp
  have sum: "unat (of_nat off + (ucast sz :: u64)) = off + unat sz"
  proof -
    have us: "unat (ucast sz :: u64) = unat sz" by (rule unat_ucast_up) simp
    have "off + unat sz < 2 ^ 64" using o rok(2) sz32 by simp
    then show ?thesis using us u by (subst unat_add_lem [THEN iffD1]) simp_all
  qed
  have n: "unat ?n = min (unat sz) (length f - off)"
  proof (cases "fd_size fd < of_nat off + ucast sz")
    case True
    then have l: "length f < off + unat sz" using sum by (simp add: word_less_nat_alt rok(1))
    have "unat (fd_size fd - of_nat off) = length f - off"
      using o by (subst unat_sub) (simp_all add: word_le_nat_alt u rok(1))
    then have "unat (ucast (fd_size fd - of_nat off) :: u32) = length f - off"
      using l sz32 by (simp add: unsigned_ucast_eq take_bit_nat_eq_self)
    then show ?thesis using True l by simp
  next
    case False
    then have "off + unat sz \<le> length f" using sum by (simp add: word_less_nat_alt rok(1))
    then show ?thesis using False by simp
  qed
  have room: "length (held_pages fs) < cache_pages (fs_cache fs)" using bnd(4,5,7) by (simp add: word_le_nat_alt)
  have in_pages: "off + unat ?n \<le> 4096 * length ?pgs" unfolding n using rok(4) o unfolding lc by linarith
  obtain c where c: "fr_pread_loop io hasher (Suc (unat ?n)) fd (of_nat off) (unat ?n) fs = Inr (peek (concat ?pgs) off (unat ?n), fs\<lparr>fs_cache := c\<rparr>)"
    "pages_ok D (dk_next_cache_id (fs_disk fs)) (held_pages fs) c"
    "\<forall>g \<in> set (held_pages fs). page_bytes c g = page_bytes (fs_cache fs) g" "cache_pages c = cache_pages (fs_cache fs)"
    using pread_loop_ok [OF io m bnd(2) len files refl pages room in_pages lessI, of hasher] by blast
  have "bs = peek (concat ?pgs) off (unat ?n)"
  proof -
    have "peek f off (unat sz) = peek (take (length f) (concat ?pgs)) off (unat sz)" using rok(3) by simp
    also have "\<dots> = peek (concat ?pgs) off (unat ?n)" using o rok(4) by (simp add: peek_def drop_take n min.commute)
    finally show ?thesis by (simp add: bs)
  qed
  then have "fr_pread io hasher (of_nat off) sz fd fs = Inr (bs, fs\<lparr>fs_cache := c\<rparr>)"
    using c(1) o lt by (simp only: fr_pread_def Let_def res_assert_True)
  moreover have "\<exists>f. W p = Some f \<and> writer_ok (D (fd_cache_id (ws_descriptor s))) c s f" if s: "(p, s) \<in> set (fs_states fs)" for p s
  proof -
    have "set (held s) \<subseteq> set (held_pages fs)" using s by (fastforce simp: held_pages_def)
    then have "\<forall>g \<in> set (held s). page_bytes c g = page_bytes (fs_cache fs) g" using c(3) by blast
    then show ?thesis using bspec [OF ws s] writer_ok_cong [of s c "fs_cache fs"] by simp
  qed
  then have "store_at view n D T W F (fs\<lparr>fs_cache := c\<rparr>)"
    using inv' c(2,4) unfolding store_at_def live_files_def held_pages_def by (simp add: case_prod_beta)
  ultimately show "\<exists>c. fr_pread io hasher (of_nat off) sz fd fs = Inr (bs, fs\<lparr>fs_cache := c\<rparr>)
      \<and> store_at view n D T W F (fs\<lparr>fs_cache := c\<rparr>)" by blast
qed

section \<open>Closing, giving up and removing files\<close>

lemma store_free:
  fixes fs :: "'d file_store"
  assumes inv: "store_at view n D T W F fs" and W: "W p = Some f" and s: "ws_at p fs = Inr s"
    and a: "files_ok view D T' fds d'" "mset fds = mset (other_files p fs F')" "pages_ok D (dk_next_cache_id d') (other_held p fs) c'"
      "dk_next_cache_id d' = dk_next_cache_id (fs_disk fs)" "page_bytes c' = page_bytes (fs_cache fs)" "cache_pages c' = cache_pages (fs_cache fs)"
      "unat dirty = length (other_held p fs)" "T' + length (other_held p fs) \<le> n"
      "\<forall>(fd, x) \<in> set F'. reader_ok (D (fd_cache_id fd)) fd x"
  shows "store_at view n D T' (W(p := None)) F'
    (fs\<lparr>fs_disk := d', fs_cache := c', fs_dirty := dirty, fs_states := other_writers p fs\<rparr>)"
proof -
  let ?g = "fs\<lparr>fs_disk := d', fs_cache := c', fs_dirty := dirty, fs_states := other_writers p fs\<rparr>"
  note inv' = inv [unfolded store_at_def] and get = store_get [OF inv W s] and bnd = store_bounds [OF inv]
  have hp: "held_pages ?g = other_held p fs" "live_files ?g F' = other_files p fs F'"
    by (simp_all add: held_pages_def other_held_def live_files_def other_files_def)
  have "files_ok view D T' (live_files ?g F') d'" unfolding hp by (rule iffD1 [OF files_ok_perm [OF a(2)] a(1)])
  moreover have "\<forall>(q, t) \<in> set (other_writers p fs). \<exists>x. (W(p := None)) q = Some x \<and> writer_ok (D (fd_cache_id (ws_descriptor t))) c' t x"
  proof clarify
    fix q t assume t: "(q, t) \<in> set (other_writers p fs)"
    have "\<forall>j. j \<noteq> fd_cache_id (ws_descriptor s) \<longrightarrow> D j = D j" "\<forall>h \<in> set (other_held p fs). page_bytes c' h = page_bytes (fs_cache fs) h"
      using a(5) by simp_all
    from others_keep(1) [OF inv get(1) this t] show "\<exists>x. (W(p := None)) q = Some x \<and> writer_ok (D (fd_cache_id (ws_descriptor t))) c' t x"
      using t by (simp add: other_writers_def)
  qed
  moreover have "dom (W(p := None)) = fst ` set (other_writers p fs)" using bnd(10) by (force simp: other_writers_def)
  moreover have "distinct (map fst (other_writers p fs))" using bnd(8) by (simp add: other_writers_def distinct_map_filter)
  moreover have "length (other_writers p fs) \<le> length (fs_states fs)" by (simp add: other_writers_def)
  moreover have "dirty \<le> fs_max_dirty fs" using a(7) get(5) bnd(4) by (simp add: word_le_nat_alt)
  moreover have "\<forall>q \<in> dom (W(p := None)). q < fs_next_state fs" using inv' by auto
  ultimately show ?thesis using inv' a(3-9) unfolding store_at_def hp by simp
qed

lemma other_settled:
  assumes "settled {p} fs" "fs_states g = other_writers p fs" "distinct (map fst (fs_states fs))"
    "fs_flush_active g = fs_flush_active fs"
  shows "settled {} g"
proof -
  have "q \<noteq> p \<and> ws_at q fs = Inr t" if "ws_at q g = Inr t" for q t
  proof -
    have "(q, t) \<in> set (other_writers p fs)" using that assms(2) by (auto simp: ws_at_def split: option.splits dest: map_of_SomeD)
    then have "(q, t) \<in> set (fs_states fs)" "q \<noteq> p" by (simp_all add: other_writers_def)
    then show ?thesis using map_of_is_SomeI [OF assms(3)] by (simp add: ws_at_def)
  qed
  then have "\<forall>q t. q \<notin> {} \<longrightarrow> ws_at q g = Inr t \<longrightarrow> settled_writer t" using assms(1) unfolding settled_def by blast
  moreover have "\<not> fs_flush_active g" using assms(1,4) unfolding settled_def by blast
  ultimately show ?thesis unfolding settled_def by blast
qed

lemma other_writers_put:
  "fs_states g = fs_states (ws_put p s' fs) \<Longrightarrow> other_writers p g = other_writers p fs"
proof -
  assume "fs_states g = fs_states (ws_put p s' fs)"
  moreover have "filter (\<lambda>(q, _). q \<noteq> p) (map (\<lambda>(q, t). if q = p then (q, s') else (q, t)) l) = filter (\<lambda>(q, _). q \<noteq> p) l"
    for l :: "(nat \<times> writer_state) list" by (induction l) auto
  ultimately show ?thesis by (simp add: other_writers_def ws_put_def)
qed

text \<open>\<open>flush\<close>, \<open>commit\<close> and the destructor of the writer.\<close>

lemma fw_flush_ok:
  fixes fs :: "'d file_store"
  assumes io: "file_io_ok io view" and inv: "store_at view n D T W F fs" and W: "W (fw_state w) = Some f" and set: "settled {} fs"
    and w: "\<not> fw_flushed w"
  shows "\<exists>fs' D' T' s'. fw_flush io hasher w fs = Inr (w\<lparr>fw_flushed := True\<rparr>, fs') \<and> store_at view n D' T' W F fs'
    \<and> other_writers (fw_state w) fs' = other_writers (fw_state w) fs \<and> same_shapes {fw_state w} fs fs'
    \<and> ws_at (fw_state w) fs' = Inr s' \<and> ws_cached s' = [] \<and> ws_mem_page s' = - 1"
proof -
  let ?p = "fw_state w"
  obtain s where s: "ws_at ?p fs = Inr s" by (rule store_ats [OF inv W])
  obtain fs1 :: "'d file_store" and s1 where a: "dw_write_page ?p fs = Inr fs1" "store_at view n D T W F fs1" "ws_at ?p fs1 = Inr s1"
    "ws_mem_page s1 = - 1" "other_writers ?p fs1 = other_writers ?p fs" "same_shapes {?p} fs fs1"
  proof (cases "ws_mem_page s = - 1")
    case True
    then have "ws_offset s = 0" using store_get(3) [OF inv W s] unfolding writer_ok_none [OF True] by blast
    then have "dw_write_page ?p fs = Inr fs" using True by (simp add: dw_write_page_def s)
    then show thesis using that inv s True by simp
  next
    case False
    then have "ws_offset s \<noteq> 0" using set s by (auto simp: settled_def settled_writer_def)
    from write_page_ok [OF inv W s False this] obtain fs' s' where r: "dw_write_page ?p fs = Inr fs'" "store_at view n D T W F fs'"
      "fs_states fs' = fs_states (ws_put ?p s' fs)" "same_flags fs fs'" "ws_mem_page s' = - 1" by blast
    show thesis by (rule that [OF r(1,2) same_shapes_put(3) [OF s r(3,4)] r(5) other_writers_put [OF r(3)] same_shapes_put(1) [OF s r(3,4)]])
  qed
  from flush_ok [OF io a(2) W a(3), of hasher] obtain fs' :: "'d file_store" and D' T' s' where
    r: "dw_flush_pages io hasher ?p fs1 = Inr fs'" "store_at view n D' T' W F fs'" "fs_states fs' = fs_states (ws_put ?p s' fs1)"
      "same_flags fs1 fs'" "ws_cached s' = []" "ws_mem_page s' = ws_mem_page s1" by blast
  note sp = same_shapes_put [OF a(3) r(3,4)]
  have "same_shapes {?p} fs fs'" by (rule same_shapes_trans [OF a(6) sp(1)])
  moreover have "fw_flush io hasher w fs = Inr (w\<lparr>fw_flushed := True\<rparr>, fs')" using w a(1) r(1) by (simp add: fw_flush_def)
  ultimately show ?thesis using r a(4,5) sp(3) other_writers_put [OF r(3)] by (intro exI conjI) (assumption | simp)+
qed

lemma fw_close_ok:
  fixes fs :: "'d file_store"
  assumes io: "file_io_ok io view" and inv: "store_at view n D T W F fs" and W: "W (fw_state w) = Some f" and set: "settled {} fs"
    and w: "\<not> fw_flushed w" "\<not> fw_commited w"
  shows "\<exists>w1 fs1 fd w2 fs2 fs3 D' T'. fw_flush io hasher w fs = Inr (w1, fs1) \<and> fw_commit w1 fs1 = Inr (fd, w2, fs2)
    \<and> fw_destroy w2 fs2 = Inr fs3 \<and> store_at view n D' T' (W(fw_state w := None)) (F @ [(fd, f)]) fs3 \<and> settled {} fs3
    \<and> same_flags fs fs3 \<and> unat (fd_size fd) = length f"
proof -
  let ?p = "fw_state w"
  obtain fs1 :: "'d file_store" and D1 T1 s1 where a: "fw_flush io hasher w fs = Inr (w\<lparr>fw_flushed := True\<rparr>, fs1)"
    "store_at view n D1 T1 W F fs1" "other_writers ?p fs1 = other_writers ?p fs" "same_shapes {?p} fs fs1"
    "ws_at ?p fs1 = Inr s1" "ws_cached s1 = []" "ws_mem_page s1 = - 1" using fw_flush_ok [OF io inv W set w(1), of hasher] by blast
  let ?fd = "ws_descriptor s1" and ?w2 = "w\<lparr>fw_flushed := True, fw_commited := True\<rparr>"
  let ?fs2 = "ws_put ?p (s1\<lparr>ws_descriptor := ?fd\<lparr>fd_extents := []\<rparr>\<rparr>) fs1" and ?fs3 = "fs1\<lparr>fs_states := other_writers ?p fs1\<rparr>"
  have commit: "fw_commit (w\<lparr>fw_flushed := True\<rparr>) fs1 = Inr (?fd, ?w2, ?fs2)"
    using w(2) a(5) by (simp add: fw_commit_def)
  have "other_writers ?p ?fs2 = other_writers ?p fs1" by (rule other_writers_put) simp
  then have "dw_free ?p ?fs2 = ?fs3" by (simp add: dw_free_def other_writers_def ws_put_def)
  then have destroy: "fw_destroy ?w2 ?fs2 = Inr ?fs3" by (simp add: fw_destroy_def)
  note get = store_get [OF a(2) W a(5)] and bnd = store_bounds [OF a(2)]
  have held: "held s1 = []" using a(6,7) by (simp add: held_def)
  have wok: "writer_ok (D1 (fd_cache_id ?fd)) (fs_cache fs1) s1 f" by (rule get(3))
  have rok: "reader_ok (D1 (fd_cache_id ?fd)) ?fd f"
    using wok unfolding writer_ok_none [OF a(7)] reader_ok_def a(6) list.map(1) append_Nil2 by blast
  have rs: "\<forall>(fd, f) \<in> set F. reader_ok (D1 (fd_cache_id fd)) fd f" using a(2) unfolding store_at_def by blast
  have "store_at view n D1 T1 (W(?p := None)) (F @ [(?fd, f)])
    (fs1\<lparr>fs_disk := fs_disk fs1, fs_cache := fs_cache fs1, fs_dirty := fs_dirty fs1, fs_states := other_writers ?p fs1\<rparr>)"
  proof (rule store_free [OF a(2) W a(5) get(1)])
    show "mset (file_key ?fd # other_files ?p fs1 F) = mset (other_files ?p fs1 (F @ [(?fd, f)]))" by (simp add: other_files_def)
    show "pages_ok D1 (dk_next_cache_id (fs_disk fs1)) (other_held ?p fs1) (fs_cache fs1)" using get(2) held by simp
    show "\<forall>(fd, x) \<in> set (F @ [(?fd, f)]). reader_ok (D1 (fd_cache_id fd)) fd x" using rs rok by auto
  qed (use get(4,5) held in simp_all)
  then have "store_at view n D1 T1 (W(?p := None)) (F @ [(?fd, f)]) ?fs3" by simp
  moreover have "settled {} ?fs3"
    by (rule other_settled [OF settled_same [OF a(4) settled_mono [OF set]]]) (use bnd(8) in simp_all)
  moreover have "same_flags fs ?fs3" using a(4) by (simp add: same_shapes_def)
  moreover have "unat (fd_size ?fd) = length f" using rok by (simp add: reader_ok_def)
  ultimately show ?thesis using a(1) commit destroy by blast
qed

text \<open>A writer that is destroyed without a commit leaves nothing behind.\<close>

lemma free_pages_ok:
  "pages_ok D nxt (hs @ rest) c \<Longrightarrow> \<exists>c'. free_pages hs c = Inr c' \<and> pages_ok D nxt rest c' \<and> same_memory c c'"
proof (induction hs arbitrary: c)
  case Nil
  then show ?case by (simp add: same_memory_def)
next
  case (Cons h hs)
  then obtain c1 where c1: "cache_free h c = Inr c1" "pages_ok D nxt (hs @ rest) c1" "same_memory c c1"
    using pages_free [of D nxt h "hs @ rest" c] by auto
  from Cons.IH [OF c1(2)] obtain c' where "free_pages hs c1 = Inr c'" "pages_ok D nxt rest c'" "same_memory c1 c'" by blast
  then show ?case using c1(1) same_memory_trans [OF c1(3)] by auto
qed

lemma fw_abandon_ok:
  fixes fs :: "'d file_store"
  assumes inv: "store_at view n D T W F fs" and W: "W (fw_state w) = Some f" and set: "settled {} fs" and w: "\<not> fw_commited w"
  shows "\<exists>fs'. fw_destroy w fs = Inr fs' \<and> store_at view n D T (W(fw_state w := None)) F fs' \<and> settled {} fs'
    \<and> same_flags fs fs'"
proof -
  let ?p = "fw_state w"
  obtain s where s: "ws_at ?p fs = Inr s" by (rule store_ats [OF inv W])
  note get = store_get [OF inv W s] and bnd = store_bounds [OF inv]
  let ?nxt = "dk_next_cache_id (fs_disk fs)" and ?k = "of_nat (length (ws_cached s)) :: u32"
  let ?m = "if ws_mem_page s = - 1 then [] else [ws_mem_page s]"
  have "pages_ok D ?nxt (?m @ (ws_cached s @ other_held ?p fs)) (fs_cache fs)"
    using get(2) pages_ok_perm [of "held s @ other_held ?p fs" "?m @ (ws_cached s @ other_held ?p fs)"] by (simp add: held_def)
  then obtain c1 where c1: "(if ws_mem_page s \<noteq> - 1 then cache_free (ws_mem_page s) (fs_cache fs) else Inr (fs_cache fs)) = Inr c1"
    "pages_ok D ?nxt (ws_cached s @ other_held ?p fs) c1" "same_memory (fs_cache fs) c1"
    using pages_free [of D ?nxt "ws_mem_page s" "ws_cached s @ other_held ?p fs" "fs_cache fs"]
    by (cases "ws_mem_page s = - 1") (auto simp: same_memory_def)
  obtain c2 where c2: "free_pages (ws_cached s) c1 = Inr c2" "pages_ok D ?nxt (other_held ?p fs) c2" "same_memory c1 c2"
    using free_pages_ok [OF c1(2)] by blast
  obtain d where d: "disk_remove (fd_extents (ws_descriptor s)) (fs_disk fs) = Inr d" "files_ok view D T (other_files ?p fs F) d"
    "dk_next_cache_id d = ?nxt" using files_remove [OF get(1)] by blast
  let ?dirty1 = "if ws_mem_page s \<noteq> - 1 then fs_dirty fs - 1 else fs_dirty fs"
  have k: "unat ?k = length (ws_cached s)"
  proof -
    have "length (ws_cached s) \<le> unat (fs_dirty fs)" using get(5) by (simp add: held_def)
    moreover have "unat (fs_dirty fs) < 2 ^ 32" using unsigned_less [of "fs_dirty fs"] by simp
    ultimately show ?thesis by (intro unat_word_of_nat) simp
  qed
  have d1: "unat ?dirty1 = length (ws_cached s) + length (other_held ?p fs)"
  proof (cases "ws_mem_page s = - 1")
    case False
    then have "unat (fs_dirty fs) = Suc (length (ws_cached s) + length (other_held ?p fs))" using get(5) by (simp add: held_def)
    then show ?thesis using False by (subst if_P) (simp_all add: unat_sub word_le_nat_alt)
  qed (use get(5) in \<open>simp add: held_def\<close>)
  then have le: "?k \<le> ?dirty1" using k by (simp add: word_le_nat_alt)
  have du: "unat (?dirty1 - ?k) = length (other_held ?p fs)" using d1 k le by (simp add: unat_sub)
  let ?fs' = "fs\<lparr>fs_disk := d, fs_cache := c2, fs_dirty := ?dirty1 - ?k, fs_states := other_writers ?p fs\<rparr>"
  have run: "fw_destroy w fs = Inr (dw_signal_clean ?fs')"
  proof (cases "ws_mem_page s = - 1")
    case True
    then show ?thesis using w c1(1) c2(1) d(1) le
      by (simp add: fw_destroy_def dw_remove_def s dw_free_def other_writers_def dw_signal_clean_def)
  next
    case False
    then have "cache_free (ws_mem_page s) (fs_cache fs) = Inr c1" "?k \<le> fs_dirty fs - 1" using c1(1) le by simp_all
    then show ?thesis using False w c2(1) d(1)
      by (simp add: fw_destroy_def dw_remove_def s dw_free_def other_writers_def dw_signal_clean_def)
  qed
  have "store_at view n D T (W(?p := None)) F ?fs'"
  proof (rule store_free [OF inv W s d(2)])
    show "\<forall>(fd, x) \<in> set F. reader_ok (D (fd_cache_id fd)) fd x" using inv unfolding store_at_def by blast
  qed (use c1(3) c2(2,3) d(3) get(4) du in \<open>auto simp: same_memory_def\<close>)
  then have "store_at view n D T (W(?p := None)) F (dw_signal_clean ?fs')" by simp
  moreover have "settled {} (dw_signal_clean ?fs')" by (rule other_settled [OF settled_mono [OF set]]) (use bnd(8) in simp_all)
  ultimately show ?thesis using run by (intro exI [of _ "dw_signal_clean ?fs'"]) simp
qed

lemma fr_unlink_ok:
  fixes fs :: "'d file_store"
  assumes inv: "store_at view n D T W (F1 @ (fd, f) # F2) fs"
  shows "\<exists>d. fr_unlink fd fs = Inr (fs\<lparr>fs_disk := d\<rparr>) \<and> store_at view n D T W (F1 @ F2) (fs\<lparr>fs_disk := d\<rparr>)"
proof -
  note inv' = inv [unfolded store_at_def]
  have files: "files_ok view D T (live_files fs (F1 @ (fd, f) # F2)) (fs_disk fs)" using inv' by blast
  have "mset (live_files fs (F1 @ (fd, f) # F2)) = mset (file_key fd # live_files fs (F1 @ F2))" by (simp add: live_files_def)
  from files_remove [OF iffD1 [OF files_ok_perm [OF this] files]] obtain d where d: "disk_remove (fd_extents fd) (fs_disk fs) = Inr d"
    "files_ok view D T (live_files fs (F1 @ F2)) d" "dk_next_cache_id d = dk_next_cache_id (fs_disk fs)" by blast
  have l: "live_files (fs\<lparr>fs_disk := d\<rparr>) F = live_files fs F" "held_pages (fs\<lparr>fs_disk := d\<rparr>) = held_pages fs" for F
    by (simp_all add: live_files_def held_pages_def)
  have "\<forall>(fd, f) \<in> set (F1 @ F2). reader_ok (D (fd_cache_id fd)) fd f" using inv' by auto
  then have "store_at view n D T W (F1 @ F2) (fs\<lparr>fs_disk := d\<rparr>)" using inv' d(2,3) unfolding store_at_def l by simp
  then show ?thesis using d(1) by (auto simp: fr_unlink_def)
qed

lemma fw_make_ok:
  fixes fs :: "'d file_store"
  assumes inv: "store_at view n D T W F fs" and n: "n < disk_limit"
    and make: "fw_make fs = (w, fs')" and set: "settled {} fs"
  shows "W (fw_state w) = None" "\<not> fw_commited w" "\<not> fw_flushed w" "settled {} fs'" "same_flags fs fs'"
    "\<exists>D'. store_at view (Suc n) D' T (W(fw_state w \<mapsto> [])) F fs'"
proof -
  note inv' = inv [unfolded store_at_def] and bnd = store_bounds [OF inv]
  let ?p = "fs_next_state fs"
  obtain i d where id: "disk_new_cache_id (fs_disk fs) = (i, d)" by fastforce
  let ?s = "\<lparr>ws_offset = 0, ws_descriptor = \<lparr>fd_cache_id = i, fd_size = 0, fd_extents = []\<rparr>, ws_cached = [], ws_mem_page = - 1\<rparr>"
  have w: "fw_state w = ?p" "\<not> fw_commited w" "\<not> fw_flushed w"
    and fs': "fs' = fs\<lparr>fs_disk := d, fs_states := fs_states fs @ [(?p, ?s)], fs_next_state := Suc ?p\<rparr>"
    using make by (auto simp: fw_make_def dw_allocate_def id Let_def)
  show "\<not> fw_commited w" "\<not> fw_flushed w" "same_flags fs fs'" using w by (simp_all add: fs')
  have out: "?p \<notin> dom W" using inv' by blast
  then show "W (fw_state w) = None" by (simp add: w domIff)
  have fresh: "?p \<notin> fst ` set (fs_states fs)" using out bnd(10) by simp
  have small: "unat (dk_next_cache_id (fs_disk fs)) < 2 ^ 39" using inv' n by (simp add: disk_limit_def)
  have files: "files_ok view D T (live_files fs F) (fs_disk fs)"
    and pages: "pages_ok D (dk_next_cache_id (fs_disk fs)) (held_pages fs) (fs_cache fs)"
    and ws: "\<forall>(p, s) \<in> set (fs_states fs). \<exists>f. W p = Some f \<and> writer_ok (D (fd_cache_id (ws_descriptor s))) (fs_cache fs) s f"
    and rs: "\<forall>(fd, f) \<in> set F. reader_ok (D (fd_cache_id fd)) fd f" using inv' by blast+
  note new = files_new [OF files id small bnd(3)]
  let ?D = "D(i := [])"
  have held: "held_pages fs' = held_pages fs" by (simp add: held_pages_def held_def fs')
  have "mset ((i, []) # live_files fs F) = mset (live_files fs' F)" by (simp add: live_files_def fs')
  then have "files_ok view ?D T (live_files fs' F) d" by (rule iffD1 [OF files_ok_perm new(1)])
  moreover have "pages_ok ?D (dk_next_cache_id d) (held_pages fs) (fs_cache fs)"
  proof -
    have n39: "unat (dk_next_cache_id d) \<le> 2 ^ 39" "dk_next_cache_id (fs_disk fs) \<le> dk_next_cache_id d"
      using new(4) small by (simp_all add: word_le_nat_alt)
    have "page_of ?D (dk_next_cache_id d) k b" if "page_of D (dk_next_cache_id (fs_disk fs)) k b" for k b
      by (rule page_of_grow [OF that n39(2,1)]) (use new(2) in auto)
    then show ?thesis using pages unfolding pages_ok_def true_copies_def by blast
  qed
  moreover have old: "fd_cache_id (ws_descriptor t) \<noteq> i" if "(q, t) \<in> set (fs_states fs)" for q t
  proof -
    have "file_key (ws_descriptor t) \<in> set (live_files fs F)" using that by (force simp: live_files_def)
    from files_ok_member(3) [OF files this] show ?thesis using new(2) by auto
  qed
  moreover have oldF: "fd_cache_id fd \<noteq> i" if "(fd, f) \<in> set F" for fd f
  proof -
    have "file_key fd \<in> set (live_files fs F)" using that by (force simp: live_files_def)
    from files_ok_member(3) [OF files this] show ?thesis using new(2) by auto
  qed
  moreover have "\<forall>(p, s) \<in> set (fs_states fs'). \<exists>f. (W(?p \<mapsto> [])) p = Some f \<and> writer_ok (?D (fd_cache_id (ws_descriptor s))) (fs_cache fs) s f"
  proof clarify
    fix q t assume "(q, t) \<in> set (fs_states fs')"
    then consider "(q, t) = (?p, ?s)" | "(q, t) \<in> set (fs_states fs)" by (auto simp: fs')
    then show "\<exists>f. (W(?p \<mapsto> [])) q = Some f \<and> writer_ok (?D (fd_cache_id (ws_descriptor t))) (fs_cache fs) t f"
    proof cases
      case 1
      then show ?thesis by (simp add: writer_ok_def)
    next
      case 2
      then have "q \<noteq> ?p" using fresh by force
      then show ?thesis using bspec [OF ws 2] old [OF 2] by auto
    qed
  qed
  moreover have "\<forall>(fd, f) \<in> set F. reader_ok (?D (fd_cache_id fd)) fd f" using rs oldF by fastforce
  moreover have "dom (W(?p \<mapsto> [])) = fst ` set (fs_states fs')" "distinct (map fst (fs_states fs'))"
    using bnd(8,10) fresh by (auto simp: fs')
  moreover have "\<forall>q \<in> dom W. q < ?p" using inv' by blast
  then have "\<forall>q \<in> dom (W(?p \<mapsto> [])). q < Suc ?p" by (auto intro: less_SucI)
  ultimately have "store_at view (Suc n) ?D T (W(?p \<mapsto> [])) F fs'"
    using inv' n new(3,4) unfolding store_at_def held by (simp add: fs')
  then show "\<exists>D'. store_at view (Suc n) D' T (W(fw_state w \<mapsto> [])) F fs'" unfolding w by blast
  have "settled_writer t" if "ws_at q fs' = Inr t" for q t
  proof -
    have "ws_at q fs = Inr t \<or> t = ?s" using that by (auto simp: ws_at_def fs' map_add_def split: option.splits if_splits)
    then show ?thesis using set by (auto simp: settled_def settled_writer_def)
  qed
  moreover have "\<not> fs_flush_active fs'" using set by (simp add: settled_def fs')
  ultimately show "settled {} fs'" by (simp add: settled_def)
qed

lemma engine_init_ok:
  assumes bits: "12 \<le> cache_bits" "cache_bits \<le> 31" "write_cache_bits < cache_bits"
    and d: "disk_ok d {} 0" "dk_next_cache_id d = 1"
  shows "\<exists>fs. engine_init cache_bits write_cache_bits d = Inr fs \<and> store_at view 0 (\<lambda>_. []) 0 Map.empty [] fs \<and> settled {} fs
    \<and> unat (fs_max_dirty fs) = 2 ^ write_cache_bits"
proof -
  obtain c where c: "cache_init cache_bits = Inr c" "cache_rep c {} {}" "cache_pages c = 2 ^ cache_bits"
    by (rule cache_init_ok [OF bits(1,2)])
  have "write_cache_bits \<le> 30" using bits by simp
  then have le: "(2 :: nat) ^ write_cache_bits \<le> 2 ^ 30" by (rule power_increasing) simp
  have "push_bit write_cache_bits (1 :: u32) = of_nat (2 ^ write_cache_bits)" by (simp add: push_bit_eq_mult)
  moreover have "unat (of_nat (2 ^ write_cache_bits) :: u32) = 2 ^ write_cache_bits" using le by (intro unat_word_of_nat) simp
  ultimately have m: "unat (push_bit write_cache_bits (1 :: u32)) = 2 ^ write_cache_bits" by simp
  have pos: "0 < push_bit write_cache_bits (1 :: u32)" using m by (metis unat_eq_zero word_neq_0_conv power_not_zero zero_neq_numeral)
  have "(2 :: nat) ^ write_cache_bits < 2 ^ cache_bits" using bits(3) by simp
  then show ?thesis using c m pos d bits
    by (auto simp: engine_init_def store_at_def files_ok_def pages_ok_def true_copies_def live_files_def held_pages_def
        files_extents_def settled_def ws_at_def disk_limit_def)
qed

section \<open>Runs of the engine\<close>

text \<open>
  What clients do with a new engine. \<open>W\<close> and \<open>F\<close> are what the open and the committed files hold in the
  model of \<open>Slice\<close>; \<open>n\<close> counts the files made and the pages written, rounding up each write.
\<close>

inductive store_run ::
  "'d file_io \<Rightarrow> (u64 \<Rightarrow> u64) \<Rightarrow> nat \<Rightarrow> (nat \<Rightarrow> bytes option) \<Rightarrow> (file_descriptor \<times> bytes) list \<Rightarrow> 'd file_store \<Rightarrow> bool"
  for io hasher where
  sr_init: "disk_init img is_block sz preallocate = Inr d \<Longrightarrow> unat sz = 4096 * m \<Longrightarrow> m \<le> disk_limit \<Longrightarrow>
    12 \<le> cache_bits \<Longrightarrow> cache_bits \<le> 31 \<Longrightarrow> engine_init cache_bits write_cache_bits d = Inr fs \<Longrightarrow>
    store_run io hasher 0 Map.empty [] fs"
| sr_make: "store_run io hasher n W F fs \<Longrightarrow> fw_make fs = (w, fs') \<Longrightarrow>
    store_run io hasher (Suc n) (W(fw_state w \<mapsto> [])) F fs'"
| sr_write: "store_run io hasher n W F fs \<Longrightarrow> W (fw_state w) = Some f \<Longrightarrow> \<not> fw_commited w \<Longrightarrow> length data < 2 ^ 32 \<Longrightarrow>
    Slice.file_write data f = Inr f' \<Longrightarrow> fw_write io hasher w data fs = Inr fs' \<Longrightarrow>
    store_run io hasher (n + (length data + 4095) div 4096) (W(fw_state w \<mapsto> f')) F fs'"
| sr_padding: "store_run io hasher n W F fs \<Longrightarrow> W (fw_state w) = Some f \<Longrightarrow> \<not> fw_commited w \<Longrightarrow>
    fw_add_padding w fs = Inr fs' \<Longrightarrow> store_run io hasher n (W(fw_state w \<mapsto> file_padding f)) F fs'"
| sr_close: "store_run io hasher n W F fs \<Longrightarrow> W (fw_state w) = Some f \<Longrightarrow> \<not> fw_flushed w \<Longrightarrow> \<not> fw_commited w \<Longrightarrow>
    fw_flush io hasher w fs = Inr (w1, fs1) \<Longrightarrow> fw_commit w1 fs1 = Inr (fd, w2, fs2) \<Longrightarrow> fw_destroy w2 fs2 = Inr fs3 \<Longrightarrow>
    store_run io hasher n (W(fw_state w := None)) (F @ [(fd, f)]) fs3"
| sr_abandon: "store_run io hasher n W F fs \<Longrightarrow> W (fw_state w) = Some f \<Longrightarrow> \<not> fw_commited w \<Longrightarrow> fw_destroy w fs = Inr fs' \<Longrightarrow>
    store_run io hasher n (W(fw_state w := None)) F fs'"
| sr_read: "store_run io hasher n W F fs \<Longrightarrow> (fd, f) \<in> set F \<Longrightarrow> fr_pread io hasher off sz fd fs = Inr (bs, fs') \<Longrightarrow>
    store_run io hasher n W F fs'"
| sr_unlink: "store_run io hasher n W (F1 @ (fd, f) # F2) fs \<Longrightarrow> fr_unlink fd fs = Inr fs' \<Longrightarrow> store_run io hasher n W (F1 @ F2) fs'"

definition store_ok :: "('d \<Rightarrow> nat \<Rightarrow> u8 option) \<Rightarrow> nat \<Rightarrow> (nat \<Rightarrow> bytes option) \<Rightarrow> (file_descriptor \<times> bytes) list \<Rightarrow> 'd file_store \<Rightarrow> bool" where
  "store_ok view n W F fs \<longleftrightarrow> (\<exists>D T. store_at view n D T W F fs) \<and> settled {} fs"

text \<open>A read of a committed file, in terms of \<open>file_pread\<close>.\<close>

lemma store_read:
  fixes fs :: "'d file_store"
  assumes io: "file_io_ok io view" and ok: "store_ok view n W F fs" and F: "(fd, f) \<in> set F"
  shows "\<exists>fs'. fr_pread io hasher off sz fd fs = res_bind (Slice.file_pread (unat off) (unat sz) f) (\<lambda>bs. Inr (bs, fs'))
    \<and> store_ok view n W F fs'"
proof -
  obtain D T where inv: "store_at view n D T W F fs" and set: "settled {} fs" using ok by (auto simp: store_ok_def)
  have off: "unat off < 2 ^ 64" using unsigned_less [of off] by simp
  note rd = fr_pread_ok [OF io inv F off, where hasher = hasher and sz = sz]
  show ?thesis
  proof (cases "Slice.file_pread (unat off) (unat sz) f")
    case (Inl e)
    then show ?thesis using rd(2) [OF Inl] ok by (intro exI [of _ fs]) simp
  next
    case (Inr bs)
    from rd(1) [OF Inr] obtain c where c: "fr_pread io hasher off sz fd fs = Inr (bs, fs\<lparr>fs_cache := c\<rparr>)"
      "store_at view n D T W F (fs\<lparr>fs_cache := c\<rparr>)" by auto
    have "settled {} (fs\<lparr>fs_cache := c\<rparr>)" using set by (simp add: settled_def ws_at_def)
    then show ?thesis using c Inr by (intro exI [of _ "fs\<lparr>fs_cache := c\<rparr>"]) (auto simp: store_ok_def)
  qed
qed

lemma store_write:
  fixes fs :: "'d file_store"
  assumes io: "file_io_ok io view" and ok: "store_ok view n W F fs" and W: "W (fw_state w) = Some f" and w: "\<not> fw_commited w"
    and data: "length data < 2 ^ 32" "n + (length data + 4095) div 4096 \<le> disk_limit"
  shows "case Slice.file_write data f of Inl e \<Rightarrow> fw_write io hasher w data fs = Inl e
    | Inr f' \<Rightarrow> blocked_or W fs (fw_write io hasher w data fs)
        (store_ok view (n + (length data + 4095) div 4096) (W(fw_state w \<mapsto> f')) F)"
proof -
  obtain D T where inv: "store_at view n D T W F fs" and set: "settled {} fs" using ok by (auto simp: store_ok_def)
  note wr = fw_write_ok [OF io inv W set w data, where hasher = hasher]
  show ?thesis using wr by (cases "Slice.file_write data f") (auto simp: blocked_or_def store_ok_def)
qed

lemma store_run_ok:
  fixes fs :: "'d file_store"
  assumes io: "file_io_ok io view"
  shows "store_run io hasher n W F fs \<Longrightarrow> n \<le> disk_limit \<Longrightarrow> store_ok view n W F fs"
proof (induction rule: store_run.induct)
  case (sr_init img is_block sz preallocate d m cache_bits write_cache_bits fs)
  obtain d' where d': "disk_init img is_block sz preallocate = Inr d'" "disk_ok d' {} 0" "dk_next_cache_id d' = 1"
    by (rule disk_init_ok [OF sr_init.hyps(2,3)])
  then have d: "disk_ok d {} 0" "dk_next_cache_id d = 1" using sr_init.hyps(1) by simp_all
  have "write_cache_bits < cache_bits" using sr_init.hyps(6) by (auto simp: engine_init_def res_bind_eq_Inr res_assert_eq_Inr)
  from engine_init_ok [OF sr_init.hyps(4,5) this d, of view] sr_init.hyps(6) show ?case by (auto simp: store_ok_def)
next
  case (sr_make n W F fs w fs')
  then obtain D T where inv: "store_at view n D T W F fs" "settled {} fs" by (auto simp: store_ok_def)
  have "n < disk_limit" using sr_make.prems by simp
  from fw_make_ok [OF inv(1) this sr_make.hyps(2) inv(2)] show ?case unfolding store_ok_def by blast
next
  case (sr_write n W F fs w f data f' fs')
  then have "store_ok view n W F fs" by simp
  from store_write [OF io this sr_write.hyps(2-4) sr_write.prems, of hasher] sr_write.hyps(5,6)
  show ?case by (auto simp: blocked_or_def simp del: fun_upd_apply)
next
  case (sr_padding n W F fs w f fs')
  then obtain D T where inv: "store_at view n D T W F fs" "settled {} fs" by (auto simp: store_ok_def)
  obtain g where g: "fw_add_padding w fs = Inr g" "store_at view n D T (W(fw_state w \<mapsto> file_padding f)) F g" "settled {} g"
    using fw_add_padding_ok [OF inv(1) sr_padding.hyps(2) inv(2) sr_padding.hyps(3)] by blast
  have "g = fs'" using g(1) sr_padding.hyps(4) by simp
  then show ?case using g(2,3) unfolding store_ok_def by blast
next
  case (sr_close n W F fs w f w1 fs1 fd w2 fs2 fs3)
  then obtain D T where inv: "store_at view n D T W F fs" "settled {} fs" by (auto simp: store_ok_def)
  from fw_close_ok [OF io inv(1) sr_close.hyps(2) inv(2) sr_close.hyps(3,4), of hasher] sr_close.hyps(5-7)
  have "\<exists>D T. store_at view n D T (W(fw_state w := None)) (F @ [(fd, f)]) fs3 \<and> settled {} fs3"
    by (elim exE conjE) (simp, blast)
  then show ?case unfolding store_ok_def by blast
next
  case (sr_abandon n W F fs w f fs')
  then obtain D T where inv: "store_at view n D T W F fs" "settled {} fs" by (auto simp: store_ok_def)
  obtain g where g: "fw_destroy w fs = Inr g" "store_at view n D T (W(fw_state w := None)) F g" "settled {} g"
    using fw_abandon_ok [OF inv(1) sr_abandon.hyps(2) inv(2) sr_abandon.hyps(3)] by blast
  have "g = fs'" using g(1) sr_abandon.hyps(4) by simp
  then show ?case using g(2,3) unfolding store_ok_def by blast
next
  case (sr_read n W F fs fd f off sz bs fs')
  then have "store_ok view n W F fs" by simp
  from store_read [OF io this sr_read.hyps(2), of hasher off sz] obtain g where
    g: "fr_pread io hasher off sz fd fs = res_bind (Slice.file_pread (unat off) (unat sz) f) (\<lambda>bs. Inr (bs, g))"
      "store_ok view n W F g" by blast
  have "g = fs'" using g(1) sr_read.hyps(3) by (cases "Slice.file_pread (unat off) (unat sz) f") simp_all
  then show ?case using g(2) by simp
next
  case (sr_unlink n W F1 fd f F2 fs fs')
  then obtain D T where inv: "store_at view n D T W (F1 @ (fd, f) # F2) fs" "settled {} fs" by (auto simp: store_ok_def)
  from fr_unlink_ok [OF inv(1)] sr_unlink.hyps(2) inv(2) show ?case by (auto simp: store_ok_def settled_def ws_at_def)
qed

text \<open>
  The limit on the writers is needed: when the pages that may be dirty are all pages in memory of some
  writer, a flush frees none of them, and a writer that needs a page waits for ever.
\<close>

lemma full_writers_block:
  assumes "fs_max_dirty fs \<le> fs_dirty fs" "\<forall>(p, s) \<in> set (fs_states fs). ws_cached s = []" "distinct (map fst (fs_states fs))"
  shows "dw_wait_clean io hasher (Suc k) fs = Inl Blocked"
  using assms(1) wait_once_nothing [OF assms(2,3), of io hasher] by simp

section \<open>Properties\<close>

lemma sample_engine_run:
  "\<exists>fs (w :: file_writer). store_run mem_io id 1 [fw_state w \<mapsto> []] [] fs \<and> \<not> fw_flushed w \<and> \<not> fw_commited w"
proof -
  obtain d :: "(nat \<Rightarrow> u8 option) disk" where d: "disk_init (\<lambda>_. None) False 0 False = Inr d" "disk_ok d {} 0" "dk_next_cache_id d = 1"
    by (rule disk_init_ok [of 0 0 "\<lambda>_. None" False False]) simp_all
  obtain fs :: "(nat \<Rightarrow> u8 option) file_store" where fs: "engine_init 12 2 d = Inr fs" "store_at (\<lambda>d. d) 0 (\<lambda>_. []) 0 Map.empty [] fs" "settled {} fs"
    "unat (fs_max_dirty fs) = 2 ^ 2" using engine_init_ok [of 12 2 d "\<lambda>d. d"] d(2,3) by auto
  have run: "store_run mem_io id 0 Map.empty [] fs"
    by (rule sr_init [OF d(1), of 0]) (use fs(1) in simp_all)
  obtain w fs' where w: "fw_make fs = (w, fs')" by fastforce
  have lim: "0 < disk_limit" by (simp add: disk_limit_def)
  have "store_run mem_io id (Suc 0) [fw_state w \<mapsto> []] [] fs'" by (rule sr_make [OF run w])
  then show ?thesis using fw_make_ok(2,3) [OF fs(2) lim w fs(3)] by auto
qed

text \<open>One writer is not too many.\<close>

lemma sample_few:
  assumes "store_run mem_io id 1 [fw_state (w :: file_writer) \<mapsto> []] [] fs"
  shows "few_writers [fw_state w \<mapsto> []] fs"
proof -
  have "1 \<le> disk_limit" by (simp add: disk_limit_def)
  from store_run_ok [OF mem_io_ok assms this] obtain D T where "store_at (\<lambda>d. d) 1 D T [fw_state w \<mapsto> []] [] fs"
    by (auto simp: store_ok_def)
  from store_bounds(11) [OF this] show ?thesis by (simp add: few_writers_def word_less_nat_alt Suc_le_eq)
qed







end
