(* ===== verification/Slice_Nodes.thy ===== *)
theory Slice_Nodes
  imports Slice_Scan
begin

text \<open>
  The nodes that a slice writer puts into the node cache while it writes (\<open>cache::set\<close> in
  \<open>slice_writer::store\<close>) are what \<open>cache::load\<close> reads from the finished file. The writer sets a node's
  link to the next page after it has handed the node over, and resets two of the links when it flushes; the
  invariant \<open>nodes_rep\<close> follows both.
\<close>

section \<open>Nodes that a reader cannot tell apart\<close>

text \<open>An invalid link ends the iteration, whatever else is in it.\<close>

definition same_node :: "node \<Rightarrow> node \<Rightarrow> bool" where
  "same_node n n' \<longleftrightarrow> nd_data n = nd_data n' \<and> nd_key_count n = nd_key_count n'
     \<and> (nd_next n = nd_next n' \<or> \<not> is_valid (nd_next n) \<and> \<not> is_valid (nd_next n'))"

lemma same_node_refl [simp]: "same_node n n"
  by (simp add: same_node_def)

lemma same_node_sym: "same_node n n' \<Longrightarrow> same_node n' n"
  by (auto simp: same_node_def)

lemma same_node_trans: "same_node a b \<Longrightarrow> same_node b c \<Longrightarrow> same_node a c"
  by (auto simp: same_node_def)

section \<open>Pages under construction\<close>

text \<open>A page being built has its full size and no link yet, and what is written to it stays inside.\<close>

definition nw_page :: "node_writer \<Rightarrow> bool" where
  "nw_page nw \<longleftrightarrow> (\<exists>n. nw_node nw = Some n \<and> length (nd_data n) = node_size \<and> nd_next n = - 1)
     \<and> unat (nw_data_offset nw) \<le> node_size"

definition nw_clean :: "node_writer \<Rightarrow> bool" where
  "nw_clean nw \<longleftrightarrow> nw_node nw = None \<or> nw_page nw \<and> unat (nw_entry_offset nw) \<le> node_size"

lemma nw_page_reset: "nw_page (internal_reset w)" "unat (nw_entry_offset (internal_reset w)) \<le> node_size"
  by (simp_all add: nw_page_def internal_reset_def node_init_def node_size_value)

lemma nw_clean_init [simp]: "nw_clean node_writer_init"
  by (simp add: nw_clean_def node_writer_init_def)

lemma nw_page_put: "nw_page w \<Longrightarrow> off + length bs \<le> node_size \<Longrightarrow> nw_page (nw_put off bs w)"
  by (auto simp: nw_page_def nw_put_def)

lemma nw_put_offset [simp]: "nw_entry_offset (nw_put off bs w) = nw_entry_offset w"
  by (simp add: nw_put_def)

lemma nw_allocate_page:
  assumes "nw_allocate (of_nat (length bs)) w = Inr w'" "nw_page w" "length bs < 65536"
  shows "nw_page (nw_put (unat (nw_data_offset w')) bs w')" "nw_entry_offset w' = nw_entry_offset w"
    "unat (nw_entry_offset w) \<le> node_size"
proof -
  let ?sz = "of_nat (length bs) :: u16"
  have sz: "unat ?sz = length bs" using assms(3) by (simp add: unat_word_of_nat)
  have b: "unat (nw_entry_offset w) + length bs \<le> unat (nw_data_offset w)"
    and w': "w' = w\<lparr>nw_data_offset := nw_data_offset w - ?sz\<rparr>"
    using assms(1) sz by (simp_all add: nw_allocate_def res_assert_eq_Inr)
  have d: "unat (nw_data_offset w) \<le> node_size" using assms(2) by (simp add: nw_page_def)
  have "unat (nw_data_offset w - ?sz) = unat (nw_data_offset w) - length bs"
    using b sz by (subst unat_sub) (simp_all add: word_le_nat_alt)
  then have u: "unat (nw_data_offset w') + length bs \<le> node_size" "nw_page w'"
    using b d assms(2) by (simp_all add: w' nw_page_def)
  then show "nw_page (nw_put (unat (nw_data_offset w')) bs w')" by (intro nw_page_put)
  show "nw_entry_offset w' = nw_entry_offset w" "unat (nw_entry_offset w) \<le> node_size"
    using b d by (simp_all add: w')
qed

lemma nw_add_clean:
  assumes add: "nw_add key val eor deleted attrs no_split w = Inr (r, w')" and w: "nw_clean w" and at: "length attrs = 8"
  shows "nw_clean w'"
proof -
  define w0 where "w0 = (if nw_node w = None then internal_reset w else w)"
  have w0: "nw_page w0" "unat (nw_entry_offset w0) \<le> node_size"
    using w nw_page_reset by (auto simp: w0_def nw_clean_def)
  have key: "length key < 65536" using add by (simp add: nw_add_def res_assert_eq_Inr max_key_size_def)
  show ?thesis
  proof (cases "has_enough_space key val no_split (length attrs) w0")
    case False
    then show ?thesis using add w0 by (auto simp: nw_add_def res_assert_eq_Inr w0_def [symmetric] Let_def nw_clean_def)
  next
    case True
    define w1 where "w1 = w0\<lparr>nw_entry_offset := nw_entry_offset w0 + 6, nw_key_count := nw_key_count w0 + 1\<rparr>"
    obtain off w2 copied w3 w4 where c: "copy_key key w1 = Inr (off, w2)"
      "copy_value val (length attrs) w2 = Inr (copied, w3)" "copy_attributes attrs w3 = Inr w4"
      "w' = nw_put (unat (nw_entry_offset w0)) (entry_bytes copied off (length key) (eor \<and> length val = copied) deleted) w4"
      using add True by (auto simp: nw_add_def res_assert_eq_Inr res_bind_eq_Inr w0_def [symmetric] Let_def
          next_entry_def w1_def [symmetric])
    have e1: "unat (nw_entry_offset w1) = unat (nw_entry_offset w0) + 6"
      using w0(2) by (simp add: w1_def unat_word_ariths node_size_value)
    have w1: "nw_page w1" using w0(1) by (simp add: w1_def nw_page_def)
    obtain x where "nw_allocate (of_nat (length key)) w1 = Inr x" "w2 = nw_put (unat (nw_data_offset x)) key x"
      using c(1) by (auto simp: copy_key_def res_bind_eq_Inr)
    then have w2: "nw_page w2" "nw_entry_offset w2 = nw_entry_offset w1" "unat (nw_entry_offset w1) \<le> node_size"
      using nw_allocate_page [OF _ w1 key, of x] by simp_all
    obtain m y where m: "m \<le> length val" and y: "nw_allocate (of_nat m) w2 = Inr y"
      "w3 = nw_put (unat (nw_data_offset y)) (take (unat (of_nat m :: u16)) val) y"
      using c(2) that [OF min.cobounded2] by (auto simp: copy_value_def res_bind_eq_Inr res_assert_eq_Inr Let_def)
    define n where "n = (of_nat m :: u16)"
    have n: "unat n \<le> length val"
      using le_trans [OF take_bit_nat_less_eq_self m] by (simp add: n_def unsigned_of_nat)
    define v where "v = take (unat n) val"
    have v: "length v = unat n" using n by (simp add: v_def)
    have al: "nw_allocate (of_nat (length v)) w2 = Inr y" "length v < 65536" and w3': "w3 = nw_put (unat (nw_data_offset y)) v y"
      using y v unsigned_less [of n] by (simp_all add: n_def [symmetric] v_def [symmetric])
    have w3: "nw_page w3" "nw_entry_offset w3 = nw_entry_offset w2"
      using nw_allocate_page [OF al(1) w2(1) al(2)] by (simp_all add: w3')
    obtain z where "nw_allocate (of_nat (length attrs)) w3 = Inr z" "w4 = nw_put (unat (nw_data_offset z)) attrs z"
      using c(3) by (auto simp: copy_attributes_def res_bind_eq_Inr)
    then have w4: "nw_page w4" "nw_entry_offset w4 = nw_entry_offset w3"
      using nw_allocate_page [of attrs w3 z] w3(1) at by simp_all
    have en: "unat (nw_entry_offset w0) + 6 \<le> node_size" using w2(3) e1 by simp
    then have "nw_page w'" unfolding c(4) by (intro nw_page_put [OF w4(1)]) (simp add: entry_bytes_def)
    moreover have "unat (nw_entry_offset w') \<le> node_size"
      using en e1 w2(2) w3(2) w4(2) by (simp add: c(4))
    ultimately show ?thesis by (simp add: nw_clean_def)
  qed
qed

lemma nw_flush_clean:
  assumes "nw_flush compress nw = Inr (sink, nw1)" "nw_clean nw" "nw_reset nw1 = Inr (nd, nw2)"
  shows "compress (nd_data nd) = Some sink" "length (nd_data nd) = node_size"
    "nd_key_count nd = rd16 (nd_data nd) 0" "nd_next nd = - 1" "nw_clean nw2"
proof -
  define w0 where "w0 = (if nw_node nw = None then internal_reset nw else nw)"
  have "nw_page w0" using assms(2) nw_page_reset by (auto simp: w0_def nw_clean_def)
  then obtain n where n: "nw_node w0 = Some n" "length (nd_data n) = 8128" "nd_next n = - 1"
    by (auto simp: nw_page_def node_size_value)
  define d where "d = poke (nd_data n) 0 (le_bytes 2 (nw_key_count w0))"
  have d: "length d = 8128" "rd16 d 0 = nw_key_count w0"
    using n(2) peek_poke_same [of 0 "le_bytes 2 (nw_key_count w0)" "nd_data n"]
    by (simp_all add: d_def rd16_def le_word_le_bytes_full)
  have "compress d = Some sink" "nw1 = nw_put 0 (le_bytes 2 (nw_key_count w0)) w0"
    using assms(1) n by (auto simp: nw_flush_def w0_def [symmetric] Let_def nw_put_def d_def split: option.splits)
  moreover from this have "nd = n\<lparr>nd_data := d, nd_key_count := nw_key_count w0\<rparr>" "nw_node nw2 = None"
    using assms(3) n by (auto simp: nw_reset_def nw_put_def d_def)
  ultimately show "compress (nd_data nd) = Some sink" "length (nd_data nd) = node_size"
    "nd_key_count nd = rd16 (nd_data nd) 0" "nd_next nd = - 1" "nw_clean nw2"
    using d n by (simp_all add: node_size_value nw_clean_def)
qed

section \<open>What a store keeps, every page of a slice keeps\<close>

lemma iw_add_keeps:
  assumes store: "\<And>nw w l nw' w'. sw_store compress crc nw False w = Inr (l, nw', w') \<Longrightarrow> nw_clean nw \<Longrightarrow> P w \<Longrightarrow>
      nw_clean nw' \<and> P w'"
  shows "iw_add compress crc k mn mx l lvls w = Inr (lvls', w') \<Longrightarrow> list_all (\<lambda>v. nw_clean (iw_node v)) lvls \<Longrightarrow> P w \<Longrightarrow>
    list_all (\<lambda>v. nw_clean (iw_node v)) lvls' \<and> P w'"
proof (induction k arbitrary: mn mx l lvls w lvls' w')
  case 0
  then show ?case by simp
next
  case (Suc k)
  obtain lvl hs where lvls: "lvls = lvl # hs" using Suc.prems(1) by (cases lvls) auto
  have c: "nw_clean (iw_node lvl)" "list_all (\<lambda>v. nw_clean (iw_node v)) (if hs = [] then [index_writer_init] else hs)"
    using Suc.prems(2) by (simp_all add: lvls index_writer_init_def)
  from Suc.prems(1) [unfolded lvls] show ?case
  proof (rule iw_add_parts)
    fix fk r nd nd0 fk0 hs0 lk
    assume a: "nw_add mn mx True False (le_bytes 8 l) True (iw_node lvl) = Inr (r, nd)"
      and b: "if r = - 1 then \<exists>l' nd1 w1 r'. sw_store compress crc nd False w = Inr (l', nd1, w1)
         \<and> nw_add mn mx True False (le_bytes 8 l) True nd1 = Inr (r', nd0)
         \<and> iw_add compress crc k (kb_view fk) (kb_view (iw_last_key lvl)) l'
              (if hs = [] then [index_writer_init] else hs) w1 = Inr (hs0, w')
         \<and> kb_assign mn fk = Inr fk0
       else r = int (length mx) \<and> nd0 = nd \<and> fk0 = fk \<and> hs0 = hs \<and> w' = w"
      and d: "lvls' = \<lparr>iw_node = nd0, iw_first_key = fk0, iw_last_key = lk\<rparr> # hs0"
    have nd: "nw_clean nd" using nw_add_clean [OF a c(1)] by simp
    show ?thesis
    proof (cases "r = - 1")
      case False
      then show ?thesis using b nd Suc.prems(2,3) by (simp add: d lvls)
    next
      case True
      then obtain l' nd1 w1 r' where st: "sw_store compress crc nd False w = Inr (l', nd1, w1)"
        and ad: "nw_add mn mx True False (le_bytes 8 l) True nd1 = Inr (r', nd0)"
        and up: "iw_add compress crc k (kb_view fk) (kb_view (iw_last_key lvl)) l'
              (if hs = [] then [index_writer_init] else hs) w1 = Inr (hs0, w')"
        using b by auto
      have s: "nw_clean nd1" "P w1" using store [OF st nd Suc.prems(3)] by simp_all
      have "nw_clean nd0" using nw_add_clean [OF ad s(1)] by simp
      then show ?thesis using Suc.IH [OF up c(2) s(2)] by (simp add: d)
    qed
  qed
qed

lemma iw_flush_keeps:
  assumes store: "\<And>nw w l nw' w'. sw_store compress crc nw False w = Inr (l, nw', w') \<Longrightarrow> nw_clean nw \<Longrightarrow> P w \<Longrightarrow>
      nw_clean nw' \<and> P w'"
  shows "iw_flush compress crc k lvls w = Inr (root, lvls', w') \<Longrightarrow> list_all (\<lambda>v. nw_clean (iw_node v)) lvls \<Longrightarrow> P w \<Longrightarrow> P w'"
proof (induction k arbitrary: lvls w root lvls' w')
  case 0
  then show ?case by simp
next
  case (Suc k)
  obtain lvl hs where lvls: "lvls = lvl # hs" using Suc.prems by (cases lvls) auto
  obtain l nd w1 where st: "sw_store compress crc (iw_node lvl) False w = Inr (l, nd, w1)"
    using Suc.prems unfolding lvls by (auto simp: res_bind_eq_Inr)
  have s: "P w1" using store [OF st] Suc.prems(2,3) by (simp add: lvls)
  show ?case
  proof (cases "hs = []")
    case True
    then show ?thesis using Suc.prems st s by (auto simp: lvls)
  next
    case False
    then obtain hs' w2 hs'' where a: "iw_add compress crc k (kb_view (iw_first_key lvl))
        (kb_view (iw_last_key lvl)) l hs w1 = Inr (hs', w2)" and f: "iw_flush compress crc k hs' w2 = Inr (root, hs'', w')"
      using Suc.prems st unfolding lvls by (auto simp: res_bind_eq_Inr)
    have h: "list_all (\<lambda>v. nw_clean (iw_node v)) hs" using Suc.prems(2) by (simp add: lvls)
    have "list_all (\<lambda>v. nw_clean (iw_node v)) hs' \<and> P w2" by (rule iw_add_keeps [where P = P, OF store a h s])
    then show ?thesis using Suc.IH [OF f] by blast
  qed
qed

section \<open>Where the nodes are in the file\<close>

text \<open>
  A node of the writer is related to a page \<open>p\<close> at an offset \<open>o\<close>; of the page only its leaf flag and its
  compressed bytes count here. \<open>next_is\<close> is the size field that follows a page.
\<close>

record spot =
  sp_off :: nat
  sp_page :: page

definition page_end :: "spot \<Rightarrow> nat" where
  "page_end p = sp_off p + 4 + length (pg_sink (sp_page p))"

definition page_location :: "spot \<Rightarrow> u64" where
  "page_location p = next_location (sp_off p) (page_field (sp_page p))"

definition placed :: "(bytes \<Rightarrow> bytes option) \<Rightarrow> (bytes \<Rightarrow> u32) \<Rightarrow> bytes \<Rightarrow> node \<Rightarrow> spot \<Rightarrow> bool" where
  "placed decompress crc f n p \<longleftrightarrow> sp_off p \<le> length f \<and> (\<exists>post. drop (sp_off p) f = block crc (sp_page p) @ post)
     \<and> length (pg_sink (sp_page p)) \<le> node_size \<and> decompress (pg_sink (sp_page p)) = Some (nd_data n)
     \<and> length (nd_data n) = node_size \<and> nd_key_count n = rd16 (nd_data n) 0"

definition next_is :: "bytes \<Rightarrow> spot \<Rightarrow> u16 \<Rightarrow> bool" where
  "next_is f p sz \<longleftrightarrow> page_end p \<le> length f \<and> (\<exists>post. drop (page_end p) f = le_bytes 2 sz @ post)"

definition linked :: "bytes \<Rightarrow> node \<Rightarrow> spot \<Rightarrow> bool" where
  "linked f n p \<longleftrightarrow> (\<exists>sz. next_is f p sz \<and> (nd_next n = next_location (page_end p + 2) sz
     \<or> sz = invalid_size \<and> \<not> is_valid (nd_next n)))"

lemma placed_append: "placed decompress crc f n p \<Longrightarrow> placed decompress crc (f @ x) n p"
  by (auto simp: placed_def)

lemma next_is_append: "next_is f p sz \<Longrightarrow> next_is (f @ x) p sz"
  by (auto simp: next_is_def)

lemma linked_append: "linked f n p \<Longrightarrow> linked (f @ x) n p"
  unfolding linked_def using next_is_append by blast

text \<open>Such a node is what loading the page gives.\<close>

lemma load_linked:
  assumes pl: "placed decompress crc f n p" and ln: "linked f n p" and len: "length f < 2 ^ 46"
  shows "\<exists>n'. cache_load decompress crc f (page_location p) = Inr n' \<and> same_node n' n"
proof -
  let ?o = "sp_off p" and ?p = "sp_page p"
  obtain post where post: "drop ?o f = block crc ?p @ post" "?o \<le> length f"
    and d: "length (pg_sink ?p) \<le> node_size" "decompress (pg_sink ?p) = Some (nd_data n)"
      "length (nd_data n) = node_size" "nd_key_count n = rd16 (nd_data n) 0"
    using pl by (auto simp: placed_def)
  obtain sz post' where sz: "drop (page_end p) f = le_bytes 2 sz @ post'" "page_end p \<le> length f"
      "nd_next n = next_location (page_end p + 2) sz \<or> sz = invalid_size \<and> \<not> is_valid (nd_next n)"
    using ln by (auto simp: linked_def next_is_def)
  have "post = drop (4 + length (pg_sink ?p)) (drop ?o f)" by (simp add: post block_def)
  also have "\<dots> = drop (page_end p) f" by (simp add: page_end_def add.commute add.left_commute)
  finally have "post = le_bytes 2 sz @ post'" using sz(1) by simp
  then have f: "f = take ?o f @ block crc ?p @ le_bytes 2 sz @ post'"
    using post by (metis append_take_drop_id)
  have tk: "length (take ?o f) = ?o" using post(2) by simp
  have pe: "?o + length (pg_sink ?p) + 6 = page_end p + 2" by (simp add: page_end_def)
  have "length (take ?o f) < 2 ^ 46" using len by simp
  from cache_load_block [where decompress = decompress and d = "nd_data n", OF f this d(1-3)]
  have "cache_load decompress crc f (page_location p)
      = Inr \<lparr>nd_data = nd_data n, nd_key_count = rd16 (nd_data n) 0, nd_next = next_location (page_end p + 2) sz\<rparr>"
    by (simp only: tk pe page_location_def)
  moreover have "length (le_bytes 2 sz @ post') \<le> length f - page_end p" by (metis sz(1) length_drop order_refl)
  then have "page_end p + 2 < 2 ^ 46" using sz(2) len by simp
  then have "\<not> is_valid (next_location (page_end p + 2) invalid_size)" by (rule end_location_invalid)
  ultimately show ?thesis using sz(3) d(4) by (auto simp: same_node_def)
qed

section \<open>The nodes of a writer\<close>

text \<open>
  \<open>ps\<close> are the pages stored so far, in order. \<open>J\<close> are the pages after which the writer has closed the
  chain with the invalid size: what the nodes of these link to is left open until the flush resets it.
\<close>

definition nodes_rep :: "(bytes \<Rightarrow> bytes option) \<Rightarrow> (bytes \<Rightarrow> u32) \<Rightarrow> nat set \<Rightarrow> spot list \<Rightarrow> slice_writer \<Rightarrow> bool" where
  "nodes_rep decompress crc J ps w \<longleftrightarrow> length ps = length (sw_nodes w) \<and> J \<subseteq> {..<length ps}
     \<and> sw_cached w = zip (map page_location ps) [0..<length ps]
     \<and> (\<forall>i < length ps. placed decompress crc (sw_writer w) (sw_nodes w ! i) (ps ! i))
     \<and> (\<forall>i \<in> J. next_is (sw_writer w) (ps ! i) invalid_size)
     \<and> (\<forall>i. Suc i < length ps \<and> i \<notin> J \<longrightarrow> linked (sw_writer w) (sw_nodes w ! i) (ps ! i))
     \<and> sorted_wrt (\<lambda>p q. page_end p \<le> sp_off q) ps
     \<and> (\<forall>p \<in> set ps. page_end p \<le> length (sw_writer w))
     \<and> (if ps = [] then sw_last_node w = None \<and> sh_first_node_size (sw_header w) = invalid_size
        else sw_last_node w = Some (length ps - 1) \<and> sh_first_node_size (sw_header w) \<noteq> invalid_size
          \<and> (length ps - 1 \<notin> J \<longrightarrow> page_end (last ps) = length (sw_writer w)))"

lemma nodes_rep_cong:
  "sw_writer w' = sw_writer w \<Longrightarrow> sw_nodes w' = sw_nodes w \<Longrightarrow> sw_cached w' = sw_cached w \<Longrightarrow> sw_last_node w' = sw_last_node w \<Longrightarrow>
    sh_first_node_size (sw_header w') = sh_first_node_size (sw_header w) \<Longrightarrow>
    nodes_rep decompress crc J ps w' = nodes_rep decompress crc J ps w"
  by (simp add: nodes_rep_def)

lemma nodes_rep_lists:
  assumes "nodes_rep decompress crc J ps w"
  shows "length ps = length (sw_nodes w)" "J \<subseteq> {..<length ps}" "sw_cached w = zip (map page_location ps) [0..<length ps]"
  using assms unfolding nodes_rep_def by blast+

lemma nodes_rep_last:
  assumes "nodes_rep decompress crc J ps w" "ps \<noteq> []"
  shows "sw_last_node w = Some (length ps - 1)" "sh_first_node_size (sw_header w) \<noteq> invalid_size"
    "length ps - 1 \<notin> J \<Longrightarrow> page_end (ps ! (length ps - 1)) = length (sw_writer w)"
proof -
  have "if ps = [] then sw_last_node w = None \<and> sh_first_node_size (sw_header w) = invalid_size
        else sw_last_node w = Some (length ps - 1) \<and> sh_first_node_size (sw_header w) \<noteq> invalid_size
          \<and> (length ps - 1 \<notin> J \<longrightarrow> page_end (last ps) = length (sw_writer w))"
    using assms(1) unfolding nodes_rep_def by blast
  then show "sw_last_node w = Some (length ps - 1)" "sh_first_node_size (sw_header w) \<noteq> invalid_size"
    "length ps - 1 \<notin> J \<Longrightarrow> page_end (ps ! (length ps - 1)) = length (sw_writer w)"
    using assms(2) by (simp_all add: last_conv_nth)
qed

lemma nodes_rep_simps [simp]:
  "nodes_rep decompress crc J ps (w\<lparr>sw_node := nd\<rparr>) = nodes_rep decompress crc J ps w"
  "nodes_rep decompress crc J ps (w\<lparr>sw_index := lv\<rparr>) = nodes_rep decompress crc J ps w"
  "nodes_rep decompress crc J ps (w\<lparr>sw_first_key := fk\<rparr>) = nodes_rep decompress crc J ps w"
  "nodes_rep decompress crc J ps (w\<lparr>sw_last_key := fk\<rparr>) = nodes_rep decompress crc J ps w"
  "nodes_rep decompress crc J ps (w\<lparr>sw_last_eor := e\<rparr>) = nodes_rep decompress crc J ps w"
  "nodes_rep decompress crc J ps (w\<lparr>sw_header := (sw_header w)\<lparr>sh_stats := st\<rparr>\<rparr>) = nodes_rep decompress crc J ps w"
  "nodes_rep decompress crc J ps (w\<lparr>sw_header := (sw_header w)\<lparr>sh_root := r\<rparr>\<rparr>) = nodes_rep decompress crc J ps w"
  by (simp_all add: nodes_rep_def)

lemma nodes_rep_init: "nodes_rep decompress crc {} [] (slice_writer_init ndx)"
  by (simp add: nodes_rep_def slice_writer_init_def slice_header_init_def invalid_size_def)

text \<open>Setting a link that is open, and bytes behind the last page.\<close>

lemma sw_link_Some:
  "sw_link l (Some i) w = Inr w' \<longleftrightarrow> i < length (sw_nodes w) \<and> l \<noteq> 0
    \<and> w' = w\<lparr>sw_nodes := (sw_nodes w)[i := (sw_nodes w ! i)\<lparr>nd_next := l\<rparr>]\<rparr>"
  by (auto simp: sw_link_def set_next_def res_bind_eq_Inr res_assert_eq_Inr)

lemma nodes_rep_link:
  assumes "nodes_rep decompress crc J ps w" "i < length ps" "i \<in> J \<or> Suc i = length ps" "sw_link l (Some i) w = Inr w'"
  shows "nodes_rep decompress crc J ps w' \<and> sw_writer w' = sw_writer w \<and> nd_next (sw_nodes w' ! i) = l
    \<and> sw_nodes w' = (sw_nodes w)[i := sw_nodes w' ! i]"
proof -
  have w': "w' = w\<lparr>sw_nodes := (sw_nodes w)[i := (sw_nodes w ! i)\<lparr>nd_next := l\<rparr>]\<rparr>" and len: "i < length (sw_nodes w)"
    using assms(4) by (simp_all add: sw_link_Some)
  have pl: "placed decompress crc f (n\<lparr>nd_next := l\<rparr>) p = placed decompress crc f n p" for f n p
    by (simp add: placed_def)
  have "j \<noteq> i" if "Suc j < length ps" "j \<notin> J" for j using that assms(3) by auto
  then show ?thesis
    using assms(1) len by (auto simp: w' nodes_rep_def nth_list_update pl)
qed

lemma nodes_rep_append:
  assumes "nodes_rep decompress crc J ps w" "sw_writer w' = sw_writer w @ le_bytes 2 sz @ x" "sw_nodes w' = sw_nodes w"
    "sw_cached w' = sw_cached w" "sw_last_node w' = sw_last_node w" "sw_header w' = sw_header w" "ps \<noteq> []"
    "sz = invalid_size \<or> length ps - 1 \<in> J"
  shows "nodes_rep decompress crc (insert (length ps - 1) J) ps w'"
proof -
  have len: "length ps - 1 < length ps" "length ps = length (sw_nodes w)"
    using assms(7) assms(1) by (simp, simp only: nodes_rep_def)
  have nx: "next_is (sw_writer w') (ps ! (length ps - 1)) invalid_size"
  proof (cases "length ps - 1 \<in> J")
    case True
    then show ?thesis using assms(1) next_is_append unfolding nodes_rep_def assms(2) by blast
  next
    case False
    then have "page_end (last ps) = length (sw_writer w)" using assms(1,7) by (simp add: nodes_rep_def)
    then show ?thesis using False assms(7,8) by (auto simp: next_is_def assms(2) last_conv_nth)
  qed
  have "\<forall>i < length ps. placed decompress crc (sw_writer w') (sw_nodes w ! i) (ps ! i)"
    "\<forall>i \<in> J. next_is (sw_writer w') (ps ! i) invalid_size"
    "\<forall>i. Suc i < length ps \<and> i \<notin> J \<longrightarrow> linked (sw_writer w') (sw_nodes w ! i) (ps ! i)"
    "\<forall>p \<in> set ps. page_end p \<le> length (sw_writer w')"
    using assms(1) placed_append next_is_append linked_append
    by (simp_all add: assms(2) nodes_rep_def) (force intro: le_trans)
  then show ?thesis
    using assms(1,3-7) nx len unfolding nodes_rep_def by simp
qed

lemma ucast_file_size: "length f < 2 ^ 32 \<Longrightarrow> (ucast (file_size f) :: u64) = of_nat (length f)"
  by (simp add: file_size_def word_unat_eq_iff unat_ucast_up unat_word_of_nat)

lemma placed_link [simp]: "placed decompress crc f (n\<lparr>nd_next := l\<rparr>) p = placed decompress crc f n p"
  by (simp add: placed_def)

lemma sw_store_nodes:
  assumes st: "sw_store compress crc nw leaf w = Inr (l, nw', w')" and rep: "nodes_rep decompress crc J ps w"
    and cl: "nw_clean nw" and lz4: "lz4_fits compress decompress" and len: "length (sw_writer w') < 2 ^ 32"
  shows "nw_clean nw' \<and> (\<exists>p. nodes_rep decompress crc J (ps @ [p]) w')"
  using st
proof (rule sw_store_Inr)
  fix buffer nw1 w1 w2 nd
  assume a: "nw_flush compress nw = Inr (buffer, nw1)"
    "sw_put_size (of_nat (length buffer)) leaf w = Inr w1"
    "loc_make (ucast (file_size (sw_writer w1))) (of_nat (length buffer)) leaf = Inr l"
    "sw_link l (sw_last_node w1) (w1\<lparr>sw_writer := sw_writer w1 @ le_bytes 4 (crc buffer) @ buffer\<rparr>) = Inr w2"
    "nw_reset nw1 = Inr (nd, nw')"
    "w' = w2\<lparr>sw_last_node := Some (length (sw_nodes w2)), sw_nodes := sw_nodes w2 @ [nd],
              sw_cached := sw_cached w2 @ [(l, length (sw_nodes w2))],
              sw_header := (sw_header w2)\<lparr>sh_stats :=
                sw_count (length buffer) leaf (sh_stats (sw_header w2))\<rparr>\<rparr>"
  note nd = nw_flush_clean [OF a(1) cl a(5)]
  have dc: "decompress buffer = Some (nd_data nd)" "length buffer \<le> node_size"
    using nd(1) lz4 by (auto simp: lz4_fits_def)
  define p where "p = \<lparr>sp_off = length (sw_writer w1), sp_page = \<lparr>pg_leaf = leaf, pg_sink = buffer, pg_entries = []\<rparr>\<rparr>"
  define f where "f = sw_writer w1 @ block crc (sp_page p)"
  have f: "sw_writer w' = f" using sw_link_writer [OF a(4)] by (simp add: a(6) f_def p_def block_def)
  have pe: "page_end p = length f" by (simp add: page_end_def f_def p_def block_def)
  have "length (sw_writer w1) < 2 ^ 32" using len by (simp add: f f_def)
  then have l: "l = page_location p" and fld: "page_field (sp_page p) \<noteq> invalid_size"
    using a(3) loc_size_fields(3) by (auto simp: ucast_file_size loc_make_def res_assert_eq_Inr page_location_def next_location_def
        page_field_def p_def)
  have pl: "placed decompress crc f nd p"
    using dc nd(2,3) by (simp add: placed_def f_def p_def)
  show ?thesis
  proof (cases "ps = []")
    case True
    then have w: "sh_first_node_size (sw_header w) = invalid_size" "sw_last_node w = None" "sw_nodes w = []"
      "J = {}" "sw_cached w = []" using rep by (auto simp: nodes_rep_def)
    then have w1: "w1 = w\<lparr>sw_header := (sw_header w)\<lparr>sh_first_node_size := page_field (sp_page p)\<rparr>\<rparr>"
      using a(2) by (auto simp: sw_put_size_def res_assert_eq_Inr page_field_def p_def)
    then have w2: "w2 = w1\<lparr>sw_writer := f\<rparr>" using a(4) w by (simp add: sw_link_def f_def block_def p_def)
    have "nodes_rep decompress crc J (ps @ [p]) w'"
      using w pl fld pe f by (simp add: True nodes_rep_def a(6) w2 w1 l sw_count_def)
    then show ?thesis using nd(5) by blast
  next
    case False
    let ?k = "length ps - 1"
    have k: "?k < length ps" "Suc ?k = length ps" using False by simp_all
    have w: "sh_first_node_size (sw_header w) \<noteq> invalid_size" "sw_last_node w = Some ?k" "length (sw_nodes w) = length ps"
      using rep False by (simp_all add: nodes_rep_def)
    define f0 where "f0 = sw_writer w"
    have w1: "w1 = w\<lparr>sw_writer := f0 @ le_bytes 2 (page_field (sp_page p))\<rparr>"
      using a(2) w by (auto simp: sw_put_size_def res_bind_eq_Inr file_write_def page_field_def p_def f0_def split: if_splits)
    define ns where "ns = (sw_nodes w)[?k := (sw_nodes w ! ?k)\<lparr>nd_next := l\<rparr>]"
    have w2: "w2 = w1\<lparr>sw_writer := f, sw_nodes := ns\<rparr>"
    proof -
      have "sw_last_node w1 = Some ?k" "sw_nodes w1 = sw_nodes w" by (simp_all add: w1 w(2))
      then show ?thesis using a(4) unfolding f_def block_def p_def ns_def by (simp add: sw_link_Some)
    qed
    have ns: "length ns = length ps" "i < length ps \<Longrightarrow> ns ! i = (if i = ?k then (sw_nodes w ! i)\<lparr>nd_next := l\<rparr> else sw_nodes w ! i)" for i
      using w(3) by (simp_all add: ns_def nth_list_update)
    obtain x where x: "f = f0 @ x" by (auto simp: f_def w1)
    have po: "sp_off p = length f0 + 2"
    proof -
      have "sp_off p = length (sw_writer w1)" by (simp add: p_def)
      then show ?thesis by (simp add: w1)
    qed
    have "placed decompress crc f ((ns @ [nd]) ! i) ((ps @ [p]) ! i)" if i: "i < Suc (length ps)" for i
    proof (cases "i = length ps")
      case True
      then show ?thesis using pl ns(1) by (simp add: nth_append)
    next
      case False
      then have i': "i < length ps" using i by simp
      then have "placed decompress crc f0 (sw_nodes w ! i) (ps ! i)" using rep by (simp add: nodes_rep_def f0_def)
      then have "placed decompress crc f (ns ! i) (ps ! i)"
        unfolding x ns(2) [OF i'] by (auto intro: placed_append)
      then show ?thesis using i' ns(1) by (simp add: nth_append)
    qed
    moreover have "next_is f ((ps @ [p]) ! i) invalid_size" if i: "i \<in> J" for i
    proof -
      have "next_is f0 (ps ! i) invalid_size" "i < length ps" using rep i by (auto simp: nodes_rep_def f0_def)
      then show ?thesis unfolding x by (simp add: nth_append next_is_append)
    qed
    moreover have "linked f ((ns @ [nd]) ! i) ((ps @ [p]) ! i)" if i: "i < length ps" "i \<notin> J" for i
    proof (cases "i = ?k")
      case True
      then have e: "page_end (ps ! i) = length f0" using nodes_rep_last(3) [OF rep False] i(2) by (simp add: f0_def)
      then have "next_is f (ps ! i) (page_field (sp_page p))" by (auto simp: next_is_def f_def w1)
      moreover have "l = next_location (page_end (ps ! i) + 2) (page_field (sp_page p))"
        unfolding l page_location_def e po ..
      ultimately have "linked f (ns ! i) (ps ! i)" unfolding linked_def ns(2) [OF i(1)] using True by auto
      then show ?thesis using i ns(1) by (simp add: nth_append)
    next
      case False
      then have "Suc i < length ps" using i k by linarith
      then have "linked f0 (sw_nodes w ! i) (ps ! i)" using rep i(2) by (simp add: nodes_rep_def f0_def)
      then have "linked f (ns ! i) (ps ! i)" unfolding x ns(2) [OF i(1)] using False by (simp add: linked_append)
      then show ?thesis using i ns(1) by (simp add: nth_append)
    qed
    moreover have "sorted_wrt (\<lambda>p q. page_end p \<le> sp_off q) (ps @ [p])"
      using rep po by (auto simp: nodes_rep_def sorted_wrt_append f0_def)
    moreover have "\<forall>q \<in> set (ps @ [p]). page_end q \<le> length f"
      using rep pe by (auto simp: nodes_rep_def x f0_def)
    moreover note nodes_rep_lists(2,3) [OF rep]
    moreover have "length ps \<notin> J" using nodes_rep_lists(2) [OF rep] by auto
    ultimately have "nodes_rep decompress crc J (ps @ [p]) w'"
      using w ns(1) pe by (auto simp: nodes_rep_def a(6) w2 w1 l sw_count_def)
    then show ?thesis using nd(5) by blast
  qed
qed

text \<open>
  Positions are kept in 32 bits while the file is written, so all this is about files below 4 GiB; a file
  only grows.
\<close>

definition nodes_ok :: "(bytes \<Rightarrow> bytes option) \<Rightarrow> (bytes \<Rightarrow> u32) \<Rightarrow> nat set \<Rightarrow> slice_writer \<Rightarrow> bool" where
  "nodes_ok decompress crc J w \<longleftrightarrow>
     (length (sw_writer w) < 2 ^ 32 \<longrightarrow> (\<exists>ps. nodes_rep decompress crc J ps w \<and> (J \<noteq> {} \<longrightarrow> ps \<noteq> [])))"

definition pages_clean :: "slice_writer \<Rightarrow> bool" where
  "pages_clean w \<longleftrightarrow> nw_clean (sw_node w) \<and> list_all (\<lambda>v. nw_clean (iw_node v)) (sw_index w)"

lemma nodes_ok_simps [simp]:
  "nodes_ok decompress crc J (w\<lparr>sw_node := nd\<rparr>) = nodes_ok decompress crc J w"
  "nodes_ok decompress crc J (w\<lparr>sw_index := lv\<rparr>) = nodes_ok decompress crc J w"
  "nodes_ok decompress crc J (w\<lparr>sw_first_key := fk\<rparr>) = nodes_ok decompress crc J w"
  "nodes_ok decompress crc J (w\<lparr>sw_last_key := fk\<rparr>) = nodes_ok decompress crc J w"
  "nodes_ok decompress crc J (w\<lparr>sw_last_eor := e\<rparr>) = nodes_ok decompress crc J w"
  "nodes_ok decompress crc J (w\<lparr>sw_header := (sw_header w)\<lparr>sh_stats := st\<rparr>\<rparr>) = nodes_ok decompress crc J w"
  by (simp_all add: nodes_ok_def)

lemma sw_store_nodes_ok:
  assumes "lz4_fits compress decompress" "sw_store compress crc nw leaf w = Inr (l, nw', w')" "nw_clean nw"
    "nodes_ok decompress crc J w"
  shows "nw_clean nw' \<and> nodes_ok decompress crc J w'"
proof -
  have "nw_clean nw'" using assms(2) by (rule sw_store_Inr) (use nw_reset_None in \<open>auto simp: nw_clean_def\<close>)
  moreover have "nodes_ok decompress crc J w'"
    unfolding nodes_ok_def
  proof
    assume len: "length (sw_writer w') < 2 ^ 32"
    obtain x where "sw_writer w' = sw_writer w @ x" using sw_store_appends [OF assms(2)] by (auto simp: appends_def)
    then have "length (sw_writer w) < 2 ^ 32" using len by simp
    then obtain ps where "nodes_rep decompress crc J ps w" using assms(4) by (auto simp: nodes_ok_def)
    then show "\<exists>ps. nodes_rep decompress crc J ps w' \<and> (J \<noteq> {} \<longrightarrow> ps \<noteq> [])"
      using sw_store_nodes [OF assms(2) _ assms(3,1) len] by blast
  qed
  ultimately show ?thesis ..
qed

lemma sw_next_page_nodes:
  assumes np: "sw_next_page compress crc depth new_key key w = Inr w'" and lz4: "lz4_fits compress decompress"
    and w: "pages_clean w" "nodes_ok decompress crc J w"
  shows "pages_clean w' \<and> nodes_ok decompress crc J w'"
  using np
proof (cases rule: sw_next_page_cases)
  case (1 location nd w1)
  then show ?thesis
    using sw_store_nodes_ok [OF lz4 1(1) _ w(2)] sw_store_same [OF 1(1)] w(1) by (simp add: pages_clean_def same_input_def)
next
  case (2 location nd w1 lvls w2 fk)
  have w1: "nw_clean nd" "nodes_ok decompress crc J (w1\<lparr>sw_node := nd\<rparr>)" "list_all (\<lambda>v. nw_clean (iw_node v)) (sw_index w1)"
    using sw_store_nodes_ok [OF lz4 2(1) _ w(2)] sw_store_same [OF 2(1)] w(1) by (simp_all add: pages_clean_def same_input_def)
  have "list_all (\<lambda>v. nw_clean (iw_node v)) lvls \<and> nodes_ok decompress crc J w2"
    by (rule iw_add_keeps [where P = "nodes_ok decompress crc J", OF sw_store_nodes_ok [OF lz4] 2(3) w1(3,2)])
  moreover have "sw_node w2 = nd" using iw_add_same [OF 2(3)] by (simp add: same_input_def)
  ultimately show ?thesis using w1(1) by (simp add: 2(5) pages_clean_def)
qed

lemma sw_add_loop_nodes:
  "sw_add_loop compress crc depth k new_key key val eor deleted idx w = Inr w' \<Longrightarrow> lz4_fits compress decompress \<Longrightarrow>
    pages_clean w \<Longrightarrow> nodes_ok decompress crc J w \<Longrightarrow> pages_clean w' \<and> nodes_ok decompress crc J w'"
proof (induction k arbitrary: val w)
  case 0
  then show ?case by simp
next
  case (Suc k)
  from Suc.prems(1) show ?case
  proof (cases rule: sw_add_loop_cases)
    case (done_ r nd)
    then show ?thesis using nw_add_clean [OF done_(1)] Suc.prems(3,4) by (simp add: pages_clean_def)
  next
    case (page r nd val' w1)
    have "pages_clean (w\<lparr>sw_node := nd\<rparr>)" "nodes_ok decompress crc J (w\<lparr>sw_node := nd\<rparr>)"
      using nw_add_clean [OF page(1)] Suc.prems(3,4) by (simp_all add: pages_clean_def)
    then have "pages_clean w1 \<and> nodes_ok decompress crc J w1"
      by (rule sw_next_page_nodes [OF page(4) Suc.prems(2)])
    then show ?thesis using Suc.IH [OF page(5) Suc.prems(2)] by blast
  qed
qed

lemma sw_add_all_nodes:
  "sw_add_all compress crc depth k compact is w = Inr w' \<Longrightarrow> lz4_fits compress decompress \<Longrightarrow>
    pages_clean w \<Longrightarrow> nodes_ok decompress crc J w \<Longrightarrow> pages_clean w' \<and> nodes_ok decompress crc J w'"
proof (induction "is" arbitrary: w)
  case (Cons i "is")
  show ?case
  proof (cases "compact \<and> it_deleted i")
    case True
    then show ?thesis using Cons by simp
  next
    case False
    then obtain w1 where a: "sw_add compress crc depth k (it_key i) (it_value i) (it_eor i) (it_deleted i) (it_idx i) w = Inr w1"
      and rest: "sw_add_all compress crc depth k compact is w1 = Inr w'"
      using Cons.prems(1) by (auto simp: res_bind_eq_Inr)
    obtain b w0 w2 where w0: "(if b \<and> kb_size (sw_first_key w) = 0 then
          res_bind (kb_assign (it_key i) (sw_first_key w)) (\<lambda>fk. Inr (w\<lparr>sw_first_key := fk\<rparr>)) else Inr w) = Inr w0"
      and l: "sw_add_loop compress crc depth k b (it_key i) (it_value i) (it_eor i) (it_deleted i) (it_idx i) w0 = Inr w2"
      and f: "sw_finish_add (it_key i) (it_eor i) w2 = Inr w1"
      using a unfolding sw_add_def res_bind_eq_Inr res_assert_eq_Inr by blast
    have "pages_clean w0" "nodes_ok decompress crc J w0"
      using w0 Cons.prems(3,4) by (auto simp: res_bind_eq_Inr pages_clean_def split: if_splits)
    then have "pages_clean w2 \<and> nodes_ok decompress crc J w2"
      by (rule sw_add_loop_nodes [OF l Cons.prems(2)])
    moreover have "nodes_rep decompress crc J ps w1 = nodes_rep decompress crc J ps w2" for ps
      by (rule nodes_rep_cong) (use f in \<open>auto simp: sw_finish_add_def res_bind_eq_Inr\<close>)
    moreover have "sw_writer w1 = sw_writer w2 \<and> sw_node w1 = sw_node w2 \<and> sw_index w1 = sw_index w2"
      using f by (auto simp: sw_finish_add_def res_bind_eq_Inr)
    ultimately have "pages_clean w1" "nodes_ok decompress crc J w1" by (simp_all add: pages_clean_def nodes_ok_def)
    then show ?thesis by (rule Cons.IH [OF rest Cons.prems(2)])
  qed
qed simp

section \<open>The finished slice\<close>

lemma sw_flush_pages_nodes:
  assumes fl: "sw_flush_pages compress crc depth w = Inr w'" and lz4: "lz4_fits compress decompress"
    and w: "pages_clean w" "nodes_ok decompress crc {} w" and len: "length (sw_writer w') < 2 ^ 32"
  shows "\<exists>ps k. nodes_rep decompress crc {k} ps w' \<and> \<not> is_valid (nd_next (sw_nodes w' ! k))
    \<and> ps \<noteq> [] \<and> \<not> is_valid (nd_next (sw_nodes w' ! (length ps - 1)))"
proof -
  obtain location nd w0 w1 w2 root lvls w3 w4 where
    st: "sw_store compress crc (sw_node w) True w = Inr (location, nd, w0)"
    and wr: "sw_write (le_bytes 2 invalid_size) (w0\<lparr>sw_node := nd\<rparr>) = Inr w1"
    and ix: "(if kb_size (sw_first_key w1) \<noteq> 0 then sw_add_index compress crc depth location w1 else Inr w1) = Inr w2"
    and fp: "iw_flush compress crc depth (sw_index w2) w2 = Inr (root, lvls, w3)"
    and l1: "sw_link (ucast invalid_size) (sw_last_node w1) (w3\<lparr>sw_index := lvls, sw_header := (sw_header w3)\<lparr>sh_root := root\<rparr>\<rparr>) = Inr w4"
    and l2: "sw_link (ucast invalid_size) (sw_last_node w4) w4 = Inr w'"
    using fl unfolding sw_flush_pages_def Let_def by (fastforce simp: res_bind_eq_Inr split: prod.splits)
  let ?k = "length (sw_nodes w0) - 1"
  have w1: "w1 = w0\<lparr>sw_node := nd, sw_writer := sw_writer w0 @ le_bytes 2 invalid_size\<rparr>"
    using wr by (auto simp: sw_write_def file_write_def split: if_splits)
  have ne: "sw_nodes w0 \<noteq> []" using st by (rule sw_store_Inr) simp
  have w0: "nodes_ok decompress crc {} w0" using sw_store_nodes_ok [OF lz4 st _ w(2)] w(1) by (simp add: pages_clean_def)
  have ok1: "nodes_ok decompress crc {?k} w1"
    unfolding nodes_ok_def
  proof
    assume "length (sw_writer w1) < 2 ^ 32"
    then obtain ps where ps: "nodes_rep decompress crc {} ps w0" using w0 by (auto simp: nodes_ok_def w1)
    then have "ps \<noteq> []" "length ps = length (sw_nodes w0)" using ne nodes_rep_lists(1) by fastforce+
    then show "\<exists>ps. nodes_rep decompress crc {?k} ps w1 \<and> ({?k} \<noteq> {} \<longrightarrow> ps \<noteq> [])"
      using nodes_rep_append [OF ps, of w1 invalid_size "[]"] by (auto simp: w1)
  qed
  have cl: "list_all (\<lambda>v. nw_clean (iw_node v)) (sw_index w1)"
    using sw_store_same [OF st] w(1) by (simp add: w1 pages_clean_def same_input_def)
  note keep = sw_store_nodes_ok [OF lz4, of crc _ False]
  have ok2: "nodes_ok decompress crc {?k} w2 \<and> list_all (\<lambda>v. nw_clean (iw_node v)) (sw_index w2)"
  proof (cases "kb_size (sw_first_key w1) \<noteq> 0")
    case True
    then obtain lv w2' where a: "iw_add compress crc depth (kb_view (sw_first_key w1)) (kb_view (sw_last_key w1)) location
        (sw_index w1) w1 = Inr (lv, w2')" and w2: "w2 = w2'\<lparr>sw_index := lv\<rparr>"
      using ix by (auto simp: sw_add_index_def res_bind_eq_Inr)
    show ?thesis
      using iw_add_keeps [where P = "nodes_ok decompress crc {?k}", OF keep a cl ok1] by (simp add: w2)
  next
    case False
    then show ?thesis using ix ok1 cl by simp
  qed
  have ok3: "nodes_ok decompress crc {?k} w3"
    by (rule iw_flush_keeps [where P = "nodes_ok decompress crc {?k}", OF keep fp]) (use ok2 in simp_all)
  let ?w3 = "w3\<lparr>sw_index := lvls, sw_header := (sw_header w3)\<lparr>sh_root := root\<rparr>\<rparr>"
  have "length (sw_writer w3) < 2 ^ 32"
    using len sw_link_writer [OF l1] sw_link_writer [OF l2] by simp
  then obtain ps where ps3: "nodes_rep decompress crc {?k} ps w3" and pne: "ps \<noteq> []"
    using ok3 by (auto simp: nodes_ok_def)
  have ps: "nodes_rep decompress crc {?k} ps ?w3"
    using ps3 by (subst nodes_rep_cong [of _ w3]) simp_all
  have "sw_last_node w1 = Some ?k"
    using st by (rule sw_store_Inr) (simp add: w1)
  then have l1': "sw_link (ucast invalid_size) (Some ?k) ?w3 = Inr w4" using l1 by simp
  have "?k < length ps" using nodes_rep_lists(2) [OF ps] by simp
  then have w4: "nodes_rep decompress crc {?k} ps w4" "nd_next (sw_nodes w4 ! ?k) = ucast invalid_size"
    using nodes_rep_link [OF ps _ _ l1'] by simp_all
  let ?m = "length ps - 1"
  have l2': "sw_link (ucast invalid_size) (Some ?m) w4 = Inr w'" using l2 nodes_rep_last(1) [OF w4(1) pne] by simp
  have m: "?m < length ps" "?m \<in> {?k} \<or> Suc ?m = length ps" using pne by simp_all
  note w' = nodes_rep_link [OF w4(1) m l2']
  have inv: "\<not> is_valid (ucast invalid_size)" by (simp add: is_valid_def invalid_size_def)
  have "nd_next (sw_nodes w' ! ?k) = ucast invalid_size"
    using w' w4(2) \<open>?k < length ps\<close> nodes_rep_lists(1) [OF w4(1)] by (metis nth_list_update_eq nth_list_update_neq)
  then have "\<not> is_valid (nd_next (sw_nodes w' ! ?k))" "\<not> is_valid (nd_next (sw_nodes w' ! ?m))"
    using w' inv by simp_all
  then show ?thesis using w' pne by blast
qed

lemma sw_flush_nodes:
  assumes fl: "sw_flush compress crc depth w = Inr w'" and lz4: "lz4_fits compress decompress"
    and w: "pages_clean w" "nodes_ok decompress crc {} w" and len: "length (sw_writer w') < 2 ^ 32"
  shows "\<exists>ps. length ps = length (sw_nodes w') \<and> sw_cached w' = zip (map page_location ps) [0..<length ps]
    \<and> sorted_wrt (\<lambda>p q. page_end p \<le> sp_off q) ps \<and> (\<forall>p \<in> set ps. page_end p \<le> length (sw_writer w'))
    \<and> (\<forall>i < length ps. placed decompress crc (sw_writer w') (sw_nodes w' ! i) (ps ! i)
        \<and> linked (sw_writer w') (sw_nodes w' ! i) (ps ! i))"
proof -
  obtain w1 where w1: "sw_flush_pages compress crc depth w = Inr w1"
    using fl by (auto simp: sw_flush_def res_bind_eq_Inr res_assert_eq_Inr split: if_splits)
  then have "\<exists>x. w' = w1\<lparr>sw_writer := sw_writer w1 @ le_bytes 2 invalid_size @ x\<rparr>"
    using fl by (auto simp: sw_flush_def res_bind_eq_Inr res_assert_eq_Inr sw_write_def
        sw_add_padding_def file_write_def file_padding_def split: if_splits)
  then obtain x where w': "w' = w1\<lparr>sw_writer := sw_writer w1 @ le_bytes 2 invalid_size @ x\<rparr>" by blast
  have "length (sw_writer w1) < 2 ^ 32" using len by (simp add: w')
  then obtain ps k where ps: "nodes_rep decompress crc {k} ps w1" "\<not> is_valid (nd_next (sw_nodes w1 ! k))" "ps \<noteq> []"
      "\<not> is_valid (nd_next (sw_nodes w1 ! (length ps - 1)))"
    using sw_flush_pages_nodes [OF w1 lz4 w] by blast
  let ?J = "insert (length ps - 1) {k}"
  have r: "nodes_rep decompress crc ?J ps w'"
    by (rule nodes_rep_append [OF ps(1), of _ invalid_size x]) (use ps(3) in \<open>simp_all add: w'\<close>)
  have "linked (sw_writer w') (sw_nodes w' ! i) (ps ! i)" if i: "i < length ps" for i
  proof (cases "i \<in> ?J")
    case True
    then have "next_is (sw_writer w') (ps ! i) invalid_size" using r unfolding nodes_rep_def by blast
    moreover have "\<not> is_valid (nd_next (sw_nodes w' ! i))" using True ps(2,4) by (auto simp: w')
    ultimately show ?thesis by (auto simp: linked_def)
  next
    case False
    then have "Suc i < length ps" using i by auto
    then show ?thesis using r False unfolding nodes_rep_def by blast
  qed
  moreover have "sorted_wrt (\<lambda>p q. page_end p \<le> sp_off q) ps" "\<forall>p \<in> set ps. page_end p \<le> length (sw_writer w')"
    "\<forall>i < length ps. placed decompress crc (sw_writer w') (sw_nodes w' ! i) (ps ! i)"
    using r unfolding nodes_rep_def by blast+
  ultimately show ?thesis using nodes_rep_lists(1,3) [OF r] by (intro exI [of _ ps]) simp
qed

text \<open>Locations of different pages differ.\<close>

lemma page_location_offset:
  assumes "placed decompress crc f n p" "length f < 2 ^ 32"
  shows "unat (offset_from (page_location p)) = sp_off p"
proof -
  have "sp_off p < 2 ^ 47" using assms by (auto simp: placed_def)
  from loc_raw_fields(1) [OF off_small [OF this]] u64_of_nat [OF this] show ?thesis
    by (simp add: page_location_def next_location_def)
qed

lemma writer_nodes_fit:
  assumes "lz4_fits compress decompress"
    and "sw_add_all compress crc depth k compact is (slice_writer_init ndx) = Inr w"
    and "sw_flush compress crc depth w = Inr w'" and "length (sw_writer w') < 2 ^ 32"
  shows "distinct (map fst (sw_cached w')) \<and> (\<forall>(location, i) \<in> set (sw_cached w'). i < length (sw_nodes w')
    \<and> (\<exists>n. cache_load decompress crc (sw_writer w') location = Inr n \<and> same_node n (sw_nodes w' ! i)))"
proof -
  have "pages_clean (slice_writer_init ndx)" "nodes_ok decompress crc {} (slice_writer_init ndx)"
    using nodes_rep_init [of decompress crc ndx]
    by (auto simp: pages_clean_def slice_writer_init_def index_writer_init_def nodes_ok_def)
  then have "pages_clean w \<and> nodes_ok decompress crc {} w"
    by (rule sw_add_all_nodes [OF assms(2,1)])
  then obtain ps where ps: "length ps = length (sw_nodes w')" "sw_cached w' = zip (map page_location ps) [0..<length ps]"
    "sorted_wrt (\<lambda>p q. page_end p \<le> sp_off q) ps"
    "\<forall>i < length ps. placed decompress crc (sw_writer w') (sw_nodes w' ! i) (ps ! i)
        \<and> linked (sw_writer w') (sw_nodes w' ! i) (ps ! i)"
    using sw_flush_nodes [OF assms(3,1) _ _ assms(4)] by blast
  have off: "unat (offset_from (page_location (ps ! i))) = sp_off (ps ! i)" if "i < length ps" for i
    using page_location_offset assms(4) ps(4) that by blast
  have "sp_off (ps ! i) < sp_off (ps ! j)" if "i < j" "j < length ps" for i j
    using sorted_wrt_nth_less [OF ps(3) that] by (simp add: page_end_def)
  then have "page_location (ps ! i) \<noteq> page_location (ps ! j)" if "i < j" "j < length ps" for i j
    using off that by (metis less_irrefl order_less_trans)
  then have "distinct (map page_location ps)"
    by (simp add: distinct_conv_nth) (metis linorder_less_linear)
  then have "distinct (map fst (sw_cached w'))" by (simp add: ps(2))
  moreover have "i < length (sw_nodes w') \<and>
      (\<exists>n. cache_load decompress crc (sw_writer w') location = Inr n \<and> same_node n (sw_nodes w' ! i))"
    if "(location, i) \<in> set (sw_cached w')" for location i
  proof -
    have "i < length ps" "location = page_location (ps ! i)" using that by (auto simp: ps(2) set_zip)
    then show ?thesis using load_linked [of decompress crc "sw_writer w'"] ps(1,4) assms(4) by simp
  qed
  ultimately show ?thesis by blast
qed

lemma writer_nodes:
  assumes lz4: "lz4_ok compress decompress" and fit: "pages_fit compress w'"
    and w: "sw_add_all compress crc depth k compact is (slice_writer_init ndx) = Inr w"
    and fl: "sw_flush compress crc depth w = Inr w'" and len: "length (sw_writer w') < 2 ^ 32"
  shows "distinct (map fst (sw_cached w')) \<and> (\<forall>(location, i) \<in> set (sw_cached w'). i < length (sw_nodes w')
    \<and> (\<exists>n. cache_load decompress crc (sw_writer w') location = Inr n \<and> same_node n (sw_nodes w' ! i)))"
proof -
  note fl' = sw_flush_fit [OF fl fit]
  note w' = sw_add_all_fit [OF w conjunct2 [OF fl']]
  show ?thesis by (rule writer_nodes_fit [OF fitting_fits [OF lz4] conjunct1 [OF w'] conjunct1 [OF fl'] len])
qed

lemma writer_nodes_like:
  assumes "lz4_ok compress decompress" "pages_fit compress w'"
    and "sw_add_all compress crc depth k compact is (slice_writer_init ndx) = Inr w"
    and "sw_flush compress crc depth w = Inr w'" and "length (sw_writer w') < 2 ^ 32"
  shows "\<forall>(location, i) \<in> set (sw_cached w'). \<exists>n. cache_load decompress crc (sw_writer w') location = Inr n
    \<and> same_node n (sw_nodes w' ! i)"
  using writer_nodes [OF assms] by blast

text \<open>
  C26: The nodes that a slice writer has put into the node cache by the time it has flushed are the ones that
  loading the same locations from the file would give: the same entries, and the same next page, or none
  in both. No location is put twice. It holds for files below 4 GiB, the size up to which positions are kept, of which
  every page is compressed to at most a page (a longer one cannot be loaded: \<open>oversized_page_asserts\<close>).
\<close>

theorem writer_nodes_coherent:
  assumes "lz4_ok compress decompress" and "pages_fit compress w'"
    and "sw_add_all compress crc depth k compact is (slice_writer_init ndx) = Inr w"
    and "sw_flush compress crc depth w = Inr w'" and "length (sw_writer w') < 2 ^ 32"
  shows "distinct (map fst (sw_cached w')) \<and> (\<forall>(location, i) \<in> set (sw_cached w'). i < length (sw_nodes w')
    \<and> (\<exists>n. cache_load decompress crc (sw_writer w') location = Inr n \<and> same_node n (sw_nodes w' ! i)))"
  by (rule writer_nodes [OF assms])

theorem writer_nodes_coherent_witness:
  "\<exists>w w'. sw_add_all stored_lz4 (\<lambda>_. 0) 1 1 False [sample_item] (slice_writer_init 0) = Inr w
    \<and> sw_flush stored_lz4 (\<lambda>_. 0) 1 w = Inr w' \<and> distinct (map fst (sw_cached w'))
    \<and> (\<forall>(location, i) \<in> set (sw_cached w'). i < length (sw_nodes w')
      \<and> (\<exists>n. cache_load Some (\<lambda>_. 0) (sw_writer w') location = Inr n \<and> same_node n (sw_nodes w' ! i)))"
proof -
  obtain w w' s w'' where r: "sw_add_all stored_lz4 (\<lambda>_. 0) 1 1 False [sample_item] (slice_writer_init 0) = Inr w"
    "sw_flush stored_lz4 (\<lambda>_. 0) 1 w = Inr w'" "sw_commit w' = Inr (s, w'')" "length (sl_reader s) \<le> 24522"
    using sample_run [of False] by blast
  then have "length (sw_writer w') < 2 ^ 32" by (auto simp: sw_commit_def res_assert_eq_Inr)
  from writer_nodes_coherent [OF stored_lz4_ok(1) stored_pages_fit r(1,2) this] r(1,2) show ?thesis by blast
qed

section \<open>Reading through the cache\<close>

text \<open>A loader that gives, wherever \<open>ld\<close> gives a node, one that cannot be told apart from it.\<close>

definition like_load :: "(u64 \<Rightarrow> node res) \<Rightarrow> (u64 \<Rightarrow> node res) \<Rightarrow> bool" where
  "like_load ld ld' \<longleftrightarrow> (\<forall>location n. ld location = Inr n \<longrightarrow> (\<exists>n'. ld' location = Inr n' \<and> same_node n n'))"

lemma like_loadD: "like_load ld ld' \<Longrightarrow> ld location = Inr n \<Longrightarrow> \<exists>n'. ld' location = Inr n' \<and> same_node n n'"
  by (simp add: like_load_def)

definition same_iterator :: "slice_iterator \<Rightarrow> slice_iterator \<Rightarrow> bool" where
  "same_iterator it it' \<longleftrightarrow> rel_option same_node (si_node it) (si_node it') \<and> si_ndx it = si_ndx it' \<and> si_attrs it = si_attrs it'"

lemma same_node_reads:
  assumes "same_node n n'"
  shows "key_at n = key_at n'" "value_at n = value_at n'" "eor_at n = eor_at n'" "deleted_at n = deleted_at n'"
    "attributes_at a n = attributes_at a n'" "nd_key_count n = nd_key_count n'" "lower_bound n = lower_bound n'"
    "si_attrs_at n = si_attrs_at n'"
proof -
  have d: "nd_data n = nd_data n'" "nd_key_count n = nd_key_count n'" using assms by (simp_all add: same_node_def)
  have e: "entry_at n = entry_at n'" by (simp add: fun_eq_iff entry_at_def d)
  show k: "key_at n = key_at n'" and "value_at n = value_at n'" "eor_at n = eor_at n'" "deleted_at n = deleted_at n'"
    and a: "attributes_at a n = attributes_at a n'" for a
    by (simp_all add: fun_eq_iff key_at_def value_at_def eor_at_def deleted_at_def attributes_at_def d e)
  show "nd_key_count n = nd_key_count n'" by (rule d(2))
  show "lower_bound n = lower_bound n'" by (simp add: fun_eq_iff lower_bound_def k d)
  show "si_attrs_at n = si_attrs_at n'" by (simp add: fun_eq_iff si_attrs_at_def a)
qed

lemma same_node_next:
  "same_node n n' \<Longrightarrow> is_valid (nd_next n) = is_valid (nd_next n')"
  "same_node n n' \<Longrightarrow> is_valid (nd_next n) \<Longrightarrow> nd_next n' = nd_next n"
  by (auto simp: same_node_def)

lemma si_load_next_like:
  "like_load ld ld' \<Longrightarrow> same_node n n' \<Longrightarrow> si_load_next k ld n = Inr r \<Longrightarrow>
    \<exists>r'. si_load_next k ld' n' = Inr r' \<and> rel_option same_node r r'"
proof (induction k arbitrary: n n')
  case (Suc k)
  show ?case
  proof (cases "is_valid (nd_next n)")
    case False
    then show ?thesis using Suc.prems(2,3) same_node_next(1) by simp
  next
    case True
    then obtain m where m: "ld (nd_next n) = Inr m"
      and r: "(if is_leaf_from (nd_next n) then Inr (Some m) else si_load_next k ld m) = Inr r"
      using Suc.prems(3) by (auto simp: Let_def res_bind_eq_Inr)
    obtain m' where "ld' (nd_next n) = Inr m'" "same_node m m'" using like_loadD [OF Suc.prems(1) m] by blast
    then show ?thesis
      using True r Suc.IH [OF Suc.prems(1)] same_node_next [OF Suc.prems(2)] by (auto simp: Let_def split: if_splits)
  qed
qed simp

lemma si_next_like:
  assumes "like_load ld ld'" "same_iterator it it'" "si_next k ld it = Inr (go, j)"
  shows "\<exists>j'. si_next k ld' it' = Inr (go, j') \<and> same_iterator j j'"
proof (cases "si_node it")
  case None
  then show ?thesis using assms(2,3) by (auto simp: si_next_def same_iterator_def)
next
  case (Some n)
  then obtain n' where n': "si_node it' = Some n'" "same_node n n'"
    using assms(2) by (auto simp: same_iterator_def rel_option_iff split: option.splits)
  have f: "si_ndx it' = si_ndx it" "si_attrs it' = si_attrs it" using assms(2) by (simp_all add: same_iterator_def)
  note rd = same_node_reads [OF n'(2)]
  show ?thesis
  proof (cases "si_attrs it \<noteq> None \<and> int (unat (si_ndx it)) = int (unat (nd_key_count n)) - 1")
    case True
    then obtain r where r: "si_load_next k ld n = Inr r" using assms(3) Some by (auto simp: si_next_def res_bind_eq_Inr)
    obtain r' where r': "si_load_next k ld' n' = Inr r'" "rel_option same_node r r'"
      using si_load_next_like [OF assms(1) n'(2) r] by blast
    show ?thesis
    proof (cases r)
      case None
      then show ?thesis using True r r' assms(3) Some n' f rd by (auto simp: si_next_def same_iterator_def)
    next
      case (Some m)
      then obtain m' where "r' = Some m'" "same_node m m'" using r'(2) by (cases r') auto
      then show ?thesis
        using True r r'(1) assms(3) Some \<open>si_node it = Some n\<close> n' f rd same_node_reads(8) [of m m']
        by (auto simp: si_next_def same_iterator_def)
    qed
  next
    case False
    then show ?thesis using assms(3) Some n' f rd by (auto simp: si_next_def same_iterator_def split: if_splits)
  qed
qed

lemma si_drain_like:
  "like_load ld ld' \<Longrightarrow> same_iterator it it' \<Longrightarrow> si_drain k ld m it = Inr xs \<Longrightarrow> si_drain k ld' m it' = Inr xs"
proof (induction m arbitrary: it it' xs)
  case (Suc m)
  obtain go j where st: "si_next k ld it = Inr (go, j)"
    and r: "(if go then res_bind (si_item j) (\<lambda>i. res_bind (si_drain k ld m j) (\<lambda>is. Inr (i # is))) else Inr []) = Inr xs"
    using Suc.prems(3) by (auto simp: res_bind_eq_Inr)
  obtain j' where j': "si_next k ld' it' = Inr (go, j')" "same_iterator j j'"
    using si_next_like [OF Suc.prems(1,2) st] by blast
  have "si_item j' = si_item j"
    using j'(2) same_node_reads by (auto simp: si_item_def same_iterator_def rel_option_iff split: option.splits)
  then show ?case using r j' Suc.IH [OF Suc.prems(1) j'(2)] by (auto simp: res_bind_eq_Inr)
qed simp

lemma slice_begin_like:
  assumes "like_load ld ld'" "slice_begin ld s = Inr (Some it)"
  obtains it' where "slice_begin ld' s = Inr (Some it')" "same_iterator it it'"
proof -
  obtain l n where n: "loc_make_raw 0 (ucast (sl_first_node_size s)) = Inr l" "ld l = Inr n" "slice_iterator_make n 0 = Inr it"
    "sl_key_count s \<noteq> 0"
    using assms(2) by (auto simp: slice_begin_def res_bind_eq_Inr split: if_splits)
  obtain n' where n': "ld' l = Inr n'" "same_node n n'" using like_loadD [OF assms(1) n(2)] by blast
  have "slice_iterator_make n' 0 = Inr (it\<lparr>si_node := Some n'\<rparr>)" "same_iterator it (it\<lparr>si_node := Some n'\<rparr>)"
    using n(3) n'(2) same_node_reads(6) [OF n'(2)]
    by (auto simp: slice_iterator_make_def res_assert_eq_Inr same_iterator_def)
  then show thesis using that n n' by (simp add: slice_begin_def)
qed

text \<open>
  A slice reads back completely from any mix of the file and the node cache: whatever loader answers with a
  node that cannot be told apart from the one in the file, where the file has one, \<open>Begin\<close> and \<open>next\<close> give
  what was added, as in \<open>slice_scan_complete\<close>.
\<close>

lemma slice_scan_cached:
  assumes "lz4_ok compress decompress" and "pages_fit compress w'"
    and "sw_add_all compress crc depth k compact is (slice_writer_init ndx) = Inr w"
    and "sw_flush compress crc depth w = Inr w'" and "sw_commit w' = Inr (s, w'')"
    and "js = filter (\<lambda>i. \<not> (compact \<and> it_deleted i)) is" and "list_all item_fits js"
    and "js \<noteq> []" and "length js < 2 ^ 64"
    and "like_load (cache_load decompress crc (sl_reader s)) ld"
  shows "\<exists>ess it n. list_all2 pieces_of js ess \<and> slice_begin ld s = Inr (Some it)
    \<and> (\<forall>m \<ge> n. si_drain m ld m it = Inr (map item_of (concat ess)))"
proof -
  obtain ess it n where f: "list_all2 pieces_of js ess"
    "slice_begin (cache_load decompress crc (sl_reader s)) s = Inr (Some it)"
    "\<forall>m \<ge> n. si_drain m (cache_load decompress crc (sl_reader s)) m it = Inr (map item_of (concat ess))"
    using slice_scan_fit [OF assms(1-9)] by blast
  obtain it' where "slice_begin ld s = Inr (Some it')" "same_iterator it it'"
    using slice_begin_like [OF assms(10) f(2)] .
  then show ?thesis using f si_drain_like [OF assms(10)] by blast
qed

text \<open>The loader that prefers the nodes a writer has put into the cache.\<close>

definition cached_load :: "slice_writer \<Rightarrow> (u64 \<Rightarrow> node res) \<Rightarrow> u64 \<Rightarrow> node res" where
  "cached_load w ld location =
     (case map_of (sw_cached w) location of Some i \<Rightarrow> Inr (sw_nodes w ! i) | None \<Rightarrow> ld location)"

lemma cached_load_like:
  assumes "\<forall>(location, i) \<in> set (sw_cached w). \<exists>n. ld location = Inr n \<and> same_node n (sw_nodes w ! i)"
  shows "like_load ld (cached_load w ld)"
  unfolding like_load_def
proof (intro allI impI)
  fix location n
  assume n: "ld location = Inr n"
  show "\<exists>n'. cached_load w ld location = Inr n' \<and> same_node n n'"
  proof (cases "map_of (sw_cached w) location")
    case None
    then show ?thesis using n by (simp add: cached_load_def)
  next
    case (Some i)
    then have "(location, i) \<in> set (sw_cached w)" by (rule map_of_SomeD)
    then show ?thesis using assms n Some by (auto simp: cached_load_def)
  qed
qed

lemma slice_scan_cached_witness:
  "\<exists>w w' s w'' ess it n. sw_add_all stored_lz4 (\<lambda>_. 0) 1 1 False [sample_item] (slice_writer_init 0) = Inr w
    \<and> sw_flush stored_lz4 (\<lambda>_. 0) 1 w = Inr w' \<and> sw_commit w' = Inr (s, w'') \<and> list_all2 pieces_of [sample_item] ess
    \<and> slice_begin (cached_load w' (cache_load Some (\<lambda>_. 0) (sl_reader s))) s = Inr (Some it)
    \<and> (\<forall>m \<ge> n. si_drain m (cached_load w' (cache_load Some (\<lambda>_. 0) (sl_reader s))) m it = Inr (map item_of (concat ess)))"
proof -
  obtain w w' s w'' where r: "sw_add_all stored_lz4 (\<lambda>_. 0) 1 1 False [sample_item] (slice_writer_init 0) = Inr w"
    "sw_flush stored_lz4 (\<lambda>_. 0) 1 w = Inr w'" "sw_commit w' = Inr (s, w'')" and l: "length (sl_reader s) \<le> 24522"
    using sample_run [of False] by blast
  have sl: "sl_reader s = sw_writer w'" using r(3) by (auto simp: sw_commit_def res_assert_eq_Inr)
  then have len: "length (sw_writer w') < 2 ^ 32" using l by simp
  have "like_load (cache_load Some (\<lambda>_. 0) (sl_reader s)) (cached_load w' (cache_load Some (\<lambda>_. 0) (sl_reader s)))"
    using writer_nodes_like [OF stored_lz4_ok(1) stored_pages_fit r(1,2) len] unfolding sl by (rule cached_load_like)
  moreover have "[sample_item] = filter (\<lambda>i. \<not> (False \<and> it_deleted i)) [sample_item]" by simp
  moreover have "list_all item_fits [sample_item]" by (simp add: item_fits_def sample_item_def)
  ultimately show ?thesis using slice_scan_cached [OF stored_lz4_ok(1) stored_pages_fit r] r by force
qed

end
