(* ===== verification/Node_Cache.thy ===== *)
theory Node_Cache
  imports Latch WTinyLFU Slice_Nodes
begin

text \<open>
  The node cache of \<open>tyrdbs/cache.cpp\<close>: the policy of \<open>WTinyLFU\<close> and a latch in front of
  \<open>cache::load\<close>. Threads are cooperative and may be suspended while a page is read, so other calls run
  between the two halves of \<open>get\<close>. A node is a \<open>shared_ptr\<close>: a position in the list of all nodes, so that
  the links a slice writer sets later are seen by everyone who holds the node.
\<close>

section \<open>The code\<close>

record node_key =
  nk_chunk_ndx :: u64
  nk_location :: u64

definition node_key_default :: node_key where
  "node_key_default = \<lparr>nk_chunk_ndx = - 1, nk_location = - 1\<rparr>"

text \<open>\<open>std_hash\<close> stands for \<open>std::hash<uint64_t>\<close>.\<close>

definition key_hasher :: "(u64 \<Rightarrow> u64) \<Rightarrow> node_key \<Rightarrow> u64" where
  "key_hasher std_hash key =
     (let seed = 0;
          seed = seed XOR (std_hash (nk_chunk_ndx key) + 0x9e3779b9 + push_bit 6 seed + drop_bit 2 seed);
          seed = seed XOR (std_hash (nk_location key) + 0x9e3779b9 + push_bit 6 seed + drop_bit 2 seed)
      in seed)"

text \<open>
  The thread's globals; without a cache both pointers are null. \<open>nc_run_queue\<close> is what the latch has put into the
  engine's run queue.
\<close>

record node_cache =
  nc_cache :: "(node_key, nat option) wtinylfu option"
  nc_latch :: "(node_key, nat option) latch"
  nc_requests :: u64
  nc_misses :: u64
  nc_run_queue :: "nat list"

definition nc_null :: node_cache where
  "nc_null = \<lparr>nc_cache = None, nc_latch = latch_init None, nc_requests = 0, nc_misses = 0, nc_run_queue = []\<rparr>"

definition nc_initialize :: "u32 \<Rightarrow> node_cache \<Rightarrow> node_cache res" where
  "nc_initialize cache_bits c =
     (if cache_bits \<noteq> 0 then
        if 32 \<le> cache_bits then Inl Undefined
        else res_bind (wtinylfu_init (push_bit (unat cache_bits) 1) None) (\<lambda>w.
          Inr (c\<lparr>nc_cache := Some w, nc_latch := latch_init None\<rparr>))
      else Inr c)"

definition nc_set :: "(u64 \<Rightarrow> u64) \<Rightarrow> u64 \<Rightarrow> u64 \<Rightarrow> nat \<Rightarrow> node_cache \<Rightarrow> node_cache res" where
  "nc_set std_hash chunk_ndx location node c =
     (case nc_cache c of
        None \<Rightarrow> Inr c
      | Some w \<Rightarrow>
          res_bind (wt_set (key_hasher std_hash) node_key_default \<lparr>nk_chunk_ndx = chunk_ndx, nk_location = location\<rparr> (Some node) w)
            (\<lambda>(_, w). Inr (c\<lparr>nc_cache := Some w\<rparr>)))"

text \<open>The end of \<open>get\<close>: the last one out gives the node to the cache.\<close>

definition nc_get_leave :: "(u64 \<Rightarrow> u64) \<Rightarrow> node_key \<Rightarrow> nat \<Rightarrow> node_cache \<Rightarrow> node_cache res" where
  "nc_get_leave std_hash key node c =
     res_bind (lt_remove key (nc_latch c)) (\<lambda>(last, l).
       let c = c\<lparr>nc_latch := l\<rparr> in
       if last then nc_set std_hash (nk_chunk_ndx key) (nk_location key) node c else Inr c)"

text \<open>A turn of \<open>wait_for\<close> by thread \<open>t\<close>, and what follows when it returns.\<close>

definition nc_get_wait :: "(u64 \<Rightarrow> u64) \<Rightarrow> nat \<Rightarrow> node_key \<Rightarrow> nat \<Rightarrow> node_cache \<Rightarrow> (bool \<times> node_cache) res" where
  "nc_get_wait std_hash t key node c =
     res_bind (lt_wait_for t key (nc_latch c)) (\<lambda>(ready, l).
       let c = c\<lparr>nc_latch := l\<rparr> in
       if ready then res_bind (nc_get_leave std_hash key node c) (\<lambda>c. Inr (True, c)) else Inr (False, c))"

text \<open>
  \<open>get\<close> by thread \<open>t\<close> up to the point where it can be suspended: it has the node, has to load it, or has it from the
  latch and waits for the one who loads it.
\<close>

datatype get_start = Hit nat | Load | Join nat

definition nc_get_start :: "(u64 \<Rightarrow> u64) \<Rightarrow> nat \<Rightarrow> node_key \<Rightarrow> node_cache \<Rightarrow> (get_start \<times> node_cache) res" where
  "nc_get_start std_hash t key c =
     (case nc_cache c of
        None \<Rightarrow> Inr (Load, c)
      | Some w \<Rightarrow>
          let c = c\<lparr>nc_requests := nc_requests c + 1\<rparr> in
          res_bind (wt_get (key_hasher std_hash) node_key_default key w) (\<lambda>(node, w).
            let c = c\<lparr>nc_cache := Some w\<rparr> in
            case node of
              Some n \<Rightarrow> Inr (Hit n, c)
            | None \<Rightarrow>
                (case lt_acquire key (nc_latch c) of (node, l) \<Rightarrow>
                   let c = c\<lparr>nc_latch := l\<rparr> in
                   case node of
                     None \<Rightarrow> Inr (Load, c\<lparr>nc_misses := nc_misses c + 1\<rparr>)
                   | Some n \<Rightarrow>
                       res_bind (nc_get_wait std_hash t key n c) (\<lambda>(ready, c). Inr (if ready then Hit n else Join n, c)))))"

text \<open>After \<open>load\<close> has returned.\<close>

definition nc_get_loaded :: "(u64 \<Rightarrow> u64) \<Rightarrow> node_key \<Rightarrow> nat \<Rightarrow> node_cache \<Rightarrow> node_cache res" where
  "nc_get_loaded std_hash key node c =
     (case nc_cache c of
        None \<Rightarrow> Inr c
      | Some w \<Rightarrow>
          res_bind (lt_release key (nc_latch c) (nc_run_queue c)) (\<lambda>(l, q).
            nc_get_leave std_hash key node (c\<lparr>nc_latch := l, nc_run_queue := q\<rparr>)))"

section \<open>The threads that read, and the writers\<close>

text \<open>
  What a call of \<open>get\<close> is at: not started, suspended in \<open>load\<close> or in \<open>wait_for\<close>, returned, or left by an
  exception of \<open>load\<close>. \<open>ns_files\<close> are the files of the slices that can be read, by their chunk index;
  \<open>ns_puts\<close> are, for each chunk index, the locations that its slice writer has put and the nodes it has put there: it
  goes on setting the links of these nodes until it commits.
\<close>

datatype call = Ready | Fetching node_key | Joined node_key nat | Got node_key nat | Threw node_key

record node_store =
  ns_cache :: node_cache
  ns_nodes :: "node list"
  ns_puts :: "u64 \<Rightarrow> (u64 \<times> nat) list"
  ns_files :: "u64 \<rightharpoonup> bytes"
  ns_calls :: "nat \<Rightarrow> call"

definition ns_init :: "node_cache \<Rightarrow> node_store" where
  "ns_init c = \<lparr>ns_cache = c, ns_nodes = [], ns_puts = (\<lambda>_. []), ns_files = Map.empty, ns_calls = (\<lambda>_. Ready)\<rparr>"

definition call_started :: "node_key \<Rightarrow> get_start \<Rightarrow> call" where
  "call_started key r = (case r of Hit n \<Rightarrow> Got key n | Load \<Rightarrow> Fetching key | Join n \<Rightarrow> Joined key n)"

text \<open>
  A slice writer that has been filled and flushed; and whether what was put for a chunk, with the links set so far, is what
  this writer put: its pages at their locations, in order, and its nodes as it has left them.
\<close>

definition writer_flushed :: "(bytes \<Rightarrow> bytes option) \<Rightarrow> (bytes \<Rightarrow> u32) \<Rightarrow> u64 \<Rightarrow> slice_writer \<Rightarrow> bool" where
  "writer_flushed compress crc chunk w \<longleftrightarrow> (\<exists>depth k compact is w0.
     sw_add_all compress crc depth k compact is (slice_writer_init chunk) = Inr w0 \<and> sw_flush compress crc depth w0 = Inr w)"

definition put_by :: "slice_writer \<Rightarrow> u64 \<Rightarrow> node_store \<Rightarrow> bool" where
  "put_by w chunk s \<longleftrightarrow>
     map (\<lambda>(l, i). (l, ns_nodes s ! i)) (ns_puts s chunk) = map (\<lambda>(l, i). (l, sw_nodes w ! i)) (sw_cached w)"

text \<open>
  Writers put and link page by page, between any calls of others. A writer puts no location twice
  (\<open>writer_nodes\<close> of \<open>Slice_Nodes\<close>), and chunk indices are not used again.
\<close>

inductive ns_step ::
  "(u64 \<Rightarrow> u64) \<Rightarrow> (bytes \<Rightarrow> bytes option) \<Rightarrow> (bytes \<Rightarrow> bytes option) \<Rightarrow> (bytes \<Rightarrow> u32) \<Rightarrow> nat \<Rightarrow> node_store \<Rightarrow> node_store \<Rightarrow> bool"
  for std_hash compress decompress crc N where
  get_start: "t < N \<Longrightarrow> ns_calls s t = Ready \<Longrightarrow> ns_files s (nk_chunk_ndx key) \<noteq> None \<Longrightarrow> key \<noteq> node_key_default \<Longrightarrow>
    nc_get_start std_hash t key (ns_cache s) = Inr (r, c) \<Longrightarrow>
    ns_step std_hash compress decompress crc N s (s\<lparr>ns_cache := c, ns_calls := (ns_calls s)(t := call_started key r)\<rparr>)"
| get_loaded: "t < N \<Longrightarrow> ns_calls s t = Fetching key \<Longrightarrow> ns_files s (nk_chunk_ndx key) = Some f \<Longrightarrow>
    cache_load decompress crc f (nk_location key) = Inr n \<Longrightarrow>
    nc_get_loaded std_hash key (length (ns_nodes s)) (ns_cache s) = Inr c \<Longrightarrow>
    ns_step std_hash compress decompress crc N s (s\<lparr>ns_cache := c, ns_nodes := ns_nodes s @ [n],
      ns_calls := (ns_calls s)(t := Got key (length (ns_nodes s)))\<rparr>)"
| get_threw: "t < N \<Longrightarrow> ns_calls s t = Fetching key \<Longrightarrow>
    ns_step std_hash compress decompress crc N s (s\<lparr>ns_calls := (ns_calls s)(t := Threw key)\<rparr>)"
| get_joined: "t < N \<Longrightarrow> ns_calls s t = Joined key n \<Longrightarrow> t \<in> set (nc_run_queue (ns_cache s)) \<Longrightarrow>
    nc_get_wait std_hash t key n ((ns_cache s)\<lparr>nc_run_queue := remove1 t (nc_run_queue (ns_cache s))\<rparr>) = Inr (ready, c) \<Longrightarrow>
    ns_step std_hash compress decompress crc N s
      (s\<lparr>ns_cache := c, ns_calls := (ns_calls s)(t := if ready then Got key n else Joined key n)\<rparr>)"
| get_again: "t < N \<Longrightarrow> ns_calls s t = Got key n \<Longrightarrow>
    ns_step std_hash compress decompress crc N s (s\<lparr>ns_calls := (ns_calls s)(t := Ready)\<rparr>)"
| put: "ns_files s chunk = None \<Longrightarrow> \<lparr>nk_chunk_ndx = chunk, nk_location = location\<rparr> \<noteq> node_key_default \<Longrightarrow>
    location \<notin> fst ` set (ns_puts s chunk) \<Longrightarrow>
    nc_set std_hash chunk location (length (ns_nodes s)) (ns_cache s) = Inr c \<Longrightarrow>
    ns_step std_hash compress decompress crc N s (s\<lparr>ns_cache := c, ns_nodes := ns_nodes s @ [n],
      ns_puts := (ns_puts s)(chunk := ns_puts s chunk @ [(location, length (ns_nodes s))])\<rparr>)"
| link: "(location, i) \<in> set (ns_puts s chunk) \<Longrightarrow> ns_files s chunk = None \<Longrightarrow> set_next l (ns_nodes s ! i) = Inr n \<Longrightarrow>
    ns_step std_hash compress decompress crc N s (s\<lparr>ns_nodes := (ns_nodes s)[i := n]\<rparr>)"
| commit: "ns_files s chunk = None \<Longrightarrow> writer_flushed compress crc chunk w \<Longrightarrow> put_by w chunk s \<Longrightarrow>
    pages_fit compress w \<Longrightarrow> length (sw_writer w) < 2 ^ 32 \<Longrightarrow>
    ns_step std_hash compress decompress crc N s (s\<lparr>ns_files := (ns_files s)(chunk \<mapsto> sw_writer w)\<rparr>)"

section \<open>The latch counts\<close>

text \<open>\<open>H k\<close> are the calls that have acquired the entry of \<open>k\<close> and not given it back.\<close>

definition latch_counts :: "('k, 'v option) latch \<Rightarrow> ('k \<Rightarrow> nat set) \<Rightarrow> bool" where
  "latch_counts l H \<longleftrightarrow> lt_empty_value l = None \<and> (\<forall>k. finite (H k) \<and>
     (case lt_entries l k of None \<Rightarrow> H k = {}
      | Some e \<Rightarrow> le_value e = None \<and> H k \<noteq> {} \<and> unat (le_ref_count e) = card (H k)))"

lemma latch_counts_init: "latch_counts (latch_init None) (\<lambda>_. {})"
  by (simp add: latch_counts_def latch_init_def)

lemma latch_countsD:
  assumes "latch_counts l H"
  shows "finite (H k)" "lt_entries l k = None \<Longrightarrow> H k = {}"
    "lt_entries l k = Some e \<Longrightarrow> le_value e = None \<and> H k \<noteq> {} \<and> unat (le_ref_count e) = card (H k)"
  using assms unfolding latch_counts_def by (auto dest: spec [of _ k])

lemma latch_counts_upd:
  assumes "latch_counts l H" "finite T"
    "case x of None \<Rightarrow> T = {} | Some e \<Rightarrow> le_value e = None \<and> T \<noteq> {} \<and> unat (le_ref_count e) = card T"
  shows "latch_counts (l\<lparr>lt_entries := (lt_entries l)(k := x)\<rparr>) (H(k := T))"
  unfolding latch_counts_def
proof (intro conjI allI)
  fix j
  show "finite ((H(k := T)) j)" using latch_countsD(1) [OF assms(1), of j] assms(2) by simp
  show "case lt_entries (l\<lparr>lt_entries := (lt_entries l)(k := x)\<rparr>) j of None \<Rightarrow> (H(k := T)) j = {}
      | Some e \<Rightarrow> le_value e = None \<and> (H(k := T)) j \<noteq> {} \<and> unat (le_ref_count e) = card ((H(k := T)) j)"
    using latch_countsD(2,3) [OF assms(1), of j] assms(3) by (cases "j = k") (auto split: option.splits)
qed (use assms(1) in \<open>simp add: latch_counts_def\<close>)

lemma latch_acquire_counts:
  assumes "latch_counts l H" "t \<notin> H k" "card (H k) + 1 < 2 ^ 32"
  obtains l' where "lt_acquire k l = (None, l')" "latch_counts l' (H(k := insert t (H k)))"
proof (cases "lt_entries l k")
  case None
  have h: "H k = {}" using latch_countsD(2) [OF assms(1) None] .
  have "lt_acquire k l = (None, l\<lparr>lt_entries := (lt_entries l)(k \<mapsto> \<lparr>le_ref_count = 1, le_released = False, le_cond = [], le_value = None\<rparr>)\<rparr>)"
    using assms(1) None by (simp add: lt_acquire_def latch_counts_def)
  moreover have "latch_counts (l\<lparr>lt_entries := (lt_entries l)(k \<mapsto> \<lparr>le_ref_count = 1, le_released = False, le_cond = [], le_value = None\<rparr>)\<rparr>)
      (H(k := insert t (H k)))"
    by (rule latch_counts_upd [OF assms(1)]) (simp_all add: h)
  ultimately show ?thesis by (rule that)
next
  case (Some e)
  note d = latch_countsD(1) [OF assms(1), of k] latch_countsD(3) [OF assms(1) Some]
  have u: "unat (le_ref_count e + 1) = card (H k) + 1" using d assms(3) by (simp add: unat_word_ariths)
  have "lt_acquire k l = (None, l\<lparr>lt_entries := (lt_entries l)(k \<mapsto> e\<lparr>le_ref_count := le_ref_count e + 1\<rparr>)\<rparr>)"
    using Some d by (simp add: lt_acquire_def)
  moreover have "latch_counts (l\<lparr>lt_entries := (lt_entries l)(k \<mapsto> e\<lparr>le_ref_count := le_ref_count e + 1\<rparr>)\<rparr>)
      (H(k := insert t (H k)))"
    by (rule latch_counts_upd [OF assms(1)]) (use d u assms(2) in simp_all)
  ultimately show ?thesis by (rule that)
qed

lemma latch_release_counts:
  assumes "latch_counts l H" "H k \<noteq> {}"
  obtains l' q' where "lt_release k l q = Inr (l', q')" "latch_counts l' H"
proof -
  obtain e where e: "lt_entries l k = Some e" using latch_countsD(2) [OF assms(1), of k] assms(2) by (cases "lt_entries l k") auto
  note d = latch_countsD(1) [OF assms(1), of k] latch_countsD(3) [OF assms(1) e]
  have "latch_counts (l\<lparr>lt_entries := (lt_entries l)(k \<mapsto> e\<lparr>le_released := True, le_cond := []\<rparr>)\<rparr>) (H(k := H k))"
    by (rule latch_counts_upd [OF assms(1)]) (use d in simp_all)
  then show thesis using that e by (simp add: lt_release_def)
qed

lemma latch_remove_counts:
  assumes "latch_counts l H" "t \<in> H k"
  obtains l' where "lt_remove k l = Inr (H k - {t} = {}, l')" "latch_counts l' (H(k := H k - {t}))"
proof -
  obtain e where e: "lt_entries l k = Some e" using latch_countsD(2) [OF assms(1), of k] assms(2) by (cases "lt_entries l k") auto
  note d = latch_countsD(1) [OF assms(1), of k] latch_countsD(3) [OF assms(1) e]
  define T where "T = H k - {t}"
  have T: "finite T" "unat (le_ref_count e) = Suc (card T)"
    using d card.remove [OF d(1) assms(2)] unfolding T_def by simp_all
  then have n0: "le_ref_count e \<noteq> 0" by auto
  have u: "unat (le_ref_count e - 1) = card T" using T n0 by (simp add: unat_sub word_le_nat_alt)
  show thesis unfolding T_def [symmetric]
  proof (cases "T = {}")
    case True
    have "le_ref_count e - 1 = 0" using u unfolding True by (simp add: unat_eq_zero)
    then have "lt_remove k l = Inr (True, l\<lparr>lt_entries := (lt_entries l)(k := None)\<rparr>)"
      using e n0 by (simp add: lt_remove_def)
    then show ?thesis using that latch_counts_upd [OF assms(1), of T None k] True unfolding T_def [symmetric] by simp
  next
    case False
    then have "le_ref_count e - 1 \<noteq> 0" using u T(1) by auto
    then have "lt_remove k l = Inr (False, l\<lparr>lt_entries := (lt_entries l)(k \<mapsto> e\<lparr>le_ref_count := le_ref_count e - 1\<rparr>)\<rparr>)"
      using e n0 by (simp add: lt_remove_def)
    moreover have "latch_counts (l\<lparr>lt_entries := (lt_entries l)(k \<mapsto> e\<lparr>le_ref_count := le_ref_count e - 1\<rparr>)\<rparr>) (H(k := T))"
      by (rule latch_counts_upd [OF assms(1)]) (use T u d False in simp_all)
    ultimately show ?thesis using that False unfolding T_def [symmetric] by simp
  qed
qed

section \<open>The operations succeed\<close>

definition nc_pairs :: "node_cache \<Rightarrow> (node_key \<times> nat option) set" where
  "nc_pairs c = (case nc_cache c of None \<Rightarrow> {} | Some w \<Rightarrow> wt_pairs w)"

definition nc_policy :: "node_cache \<Rightarrow> bool" where
  "nc_policy c \<longleftrightarrow> (\<forall>w. nc_cache c = Some w \<longrightarrow> wt_inv w \<and> wt_empty_item w = None \<and> None \<notin> snd ` wt_pairs w)"

lemma nc_policy_other [simp]:
  "nc_policy (c\<lparr>nc_latch := l\<rparr>) = nc_policy c" "nc_policy (c\<lparr>nc_requests := n\<rparr>) = nc_policy c"
  "nc_policy (c\<lparr>nc_misses := n\<rparr>) = nc_policy c" "nc_pairs (c\<lparr>nc_latch := l\<rparr>) = nc_pairs c"
  "nc_pairs (c\<lparr>nc_requests := n\<rparr>) = nc_pairs c" "nc_pairs (c\<lparr>nc_misses := n\<rparr>) = nc_pairs c"
  "nc_policy (c\<lparr>nc_run_queue := q\<rparr>) = nc_policy c" "nc_pairs (c\<lparr>nc_run_queue := q\<rparr>) = nc_pairs c"
  by (simp_all add: nc_policy_def nc_pairs_def)

lemma nc_set_ok:
  assumes "nc_policy c" "\<lparr>nk_chunk_ndx = chunk, nk_location = location\<rparr> \<noteq> node_key_default"
    "\<lparr>nk_chunk_ndx = chunk, nk_location = location\<rparr> \<notin> fst ` nc_pairs c"
  obtains c' where "nc_set std_hash chunk location n c = Inr c'" "nc_policy c'" "nc_latch c' = nc_latch c"
    "nc_cache c' = None \<longleftrightarrow> nc_cache c = None"
    "nc_pairs c' \<subseteq> insert (\<lparr>nk_chunk_ndx = chunk, nk_location = location\<rparr>, Some n) (nc_pairs c)"
proof (cases "nc_cache c")
  case None
  then show ?thesis using that assms(1) by (simp add: nc_set_def nc_pairs_def)
next
  case (Some w)
  let ?k = "\<lparr>nk_chunk_ndx = chunk, nk_location = location\<rparr>"
  have w: "wt_inv w \<and> wt_empty_item w = None" "None \<notin> snd ` wt_pairs w" "?k \<notin> fst ` wt_pairs w"
    using assms(1,3) Some by (simp_all add: nc_policy_def nc_pairs_def)
  obtain old w' P where w': "wt_set (key_hasher std_hash) node_key_default ?k (Some n) w = Inr (old, w')"
      "wt_inv w' \<and> wt_empty_item w' = None" "one_dropped None (wt_pairs w) old P" "wt_pairs w' = insert (?k, Some n) P"
    using wc.give_drops [OF w(1) assms(2) w(3)] by blast
  have "P \<subseteq> wt_pairs w" using w'(3) by (auto simp: one_dropped_def)
  then show ?thesis
    using that [of "c\<lparr>nc_cache := Some w'\<rparr>"] w w' Some by (auto simp: nc_set_def nc_pairs_def nc_policy_def)
qed

lemma nc_get_start_ok:
  assumes "nc_policy c" "nc_cache c \<noteq> None" "key \<noteq> node_key_default" "latch_counts (nc_latch c) H"
    "t \<notin> H key" "card (H key) + 1 < 2 ^ 32"
  obtains (hit) i c' where "nc_get_start std_hash t key c = Inr (Hit i, c')" "(key, Some i) \<in> nc_pairs c"
      "nc_policy c'" "nc_latch c' = nc_latch c" "nc_cache c' \<noteq> None" "nc_pairs c' = nc_pairs c"
  | (load) c' where "nc_get_start std_hash t key c = Inr (Load, c')" "key \<notin> fst ` nc_pairs c" "nc_policy c'"
      "latch_counts (nc_latch c') (H(key := insert t (H key)))" "nc_cache c' \<noteq> None" "nc_pairs c' = nc_pairs c"
proof -
  obtain w where w: "nc_cache c = Some w" using assms(2) by auto
  have inv: "wt_inv w \<and> wt_empty_item w = None" "None \<notin> snd ` wt_pairs w" using assms(1) w by (simp_all add: nc_policy_def)
  show thesis
  proof (cases "key \<in> fst ` wt_pairs w")
    case True
    then obtain v where "(key, v) \<in> wt_pairs w" by auto
    moreover from this have "v \<noteq> None" using inv(2) by force
    ultimately obtain i where i: "(key, Some i) \<in> wt_pairs w" by auto
    obtain w' where w': "wt_get (key_hasher std_hash) node_key_default key w = Inr (Some i, w')"
        "wt_inv w' \<and> wt_empty_item w' = None" "wt_pairs w' = wt_pairs w"
      using wc.get_hit [OF inv(1) assms(3) i] by blast
    show ?thesis
      by (rule hit [of i "c\<lparr>nc_requests := nc_requests c + 1, nc_cache := Some w'\<rparr>"])
        (use w w' i inv(2) in \<open>simp_all add: nc_get_start_def Let_def nc_pairs_def nc_policy_def\<close>)
  next
    case False
    then have m: "wt_get (key_hasher std_hash) node_key_default key w = Inr (None, w)"
      using wc.get_miss [OF inv(1) assms(3)] by blast
    obtain l' where l': "lt_acquire key (nc_latch c) = (None, l')" "latch_counts l' (H(key := insert t (H key)))"
      using latch_acquire_counts [OF assms(4-6)] .
    show ?thesis
      by (rule load [of "c\<lparr>nc_requests := nc_requests c + 1, nc_cache := Some w, nc_latch := l', nc_misses := nc_misses c + 1\<rparr>"])
        (use w m l' False inv in \<open>simp_all add: nc_get_start_def Let_def nc_pairs_def nc_policy_def\<close>)
  qed
qed

lemma nc_get_loaded_ok:
  assumes "nc_policy c" "nc_cache c \<noteq> None" "key \<noteq> node_key_default" "latch_counts (nc_latch c) H" "t \<in> H key"
    "key \<notin> fst ` nc_pairs c"
  obtains c' where "nc_get_loaded std_hash key n c = Inr c'" "nc_policy c'" "nc_cache c' \<noteq> None"
    "latch_counts (nc_latch c') (H(key := H key - {t}))"
    "nc_pairs c' \<subseteq> (if H key - {t} = {} then insert (key, Some n) (nc_pairs c) else nc_pairs c)"
proof -
  obtain l q where l: "lt_release key (nc_latch c) (nc_run_queue c) = Inr (l, q)" "latch_counts l H"
    using latch_release_counts [OF assms(4), of key] assms(5) by blast
  define T where "T = H key - {t}"
  obtain l' where l': "lt_remove key l = Inr (T = {}, l')" "latch_counts l' (H(key := T))"
    using latch_remove_counts [OF l(2) assms(5)] unfolding T_def .
  obtain w where w: "nc_cache c = Some w" using assms(2) by auto
  let ?c = "c\<lparr>nc_run_queue := q, nc_latch := l'\<rparr>"
  have k: "\<lparr>nk_chunk_ndx = nk_chunk_ndx key, nk_location = nk_location key\<rparr> = key" by simp
  show thesis unfolding T_def [symmetric]
  proof (cases "T = {}")
    case True
    obtain c' where c': "nc_set std_hash (nk_chunk_ndx key) (nk_location key) n ?c = Inr c'" "nc_policy c'"
        "nc_latch c' = nc_latch ?c" "nc_cache c' = None \<longleftrightarrow> nc_cache ?c = None" "nc_pairs c' \<subseteq> insert (key, Some n) (nc_pairs ?c)"
      using nc_set_ok [of ?c "nk_chunk_ndx key" "nk_location key" std_hash n] assms(1,3,6) unfolding k by auto
    have "nc_get_loaded std_hash key n c = Inr c'"
      using c'(1) l(1) l'(1) True w by (simp add: nc_get_loaded_def nc_get_leave_def)
    then show ?thesis using that c' l'(2) True w unfolding T_def [symmetric] by simp
  next
    case False
    have "nc_get_loaded std_hash key n c = Inr ?c"
      using l(1) l'(1) False w by (simp add: nc_get_loaded_def nc_get_leave_def)
    then show ?thesis using that [of ?c] l'(2) False w assms(1) unfolding T_def [symmetric] by simp
  qed
qed

section \<open>The invariant\<close>

text \<open>The calls that are in the latch for a key: they load its page, or threw while they did.\<close>

definition holders :: "node_store \<Rightarrow> node_key \<Rightarrow> nat set" where
  "holders s k = {t. ns_calls s t = Fetching k \<or> ns_calls s t = Threw k}"

definition node_good :: "(bytes \<Rightarrow> u64 \<Rightarrow> node res) \<Rightarrow> node_store \<Rightarrow> node_key \<Rightarrow> nat \<Rightarrow> bool" where
  "node_good ld s k i \<longleftrightarrow> i < length (ns_nodes s) \<and> (\<forall>c l. (l, i) \<in> set (ns_puts s c) \<longrightarrow> c = nk_chunk_ndx k)
     \<and> (case ns_files s (nk_chunk_ndx k) of None \<Rightarrow> (nk_location k, i) \<in> set (ns_puts s (nk_chunk_ndx k))
        | Some f \<Rightarrow> \<exists>n. ld f (nk_location k) = Inr n \<and> same_node n (ns_nodes s ! i))"

definition ns_inv :: "(bytes \<Rightarrow> u64 \<Rightarrow> node res) \<Rightarrow> nat \<Rightarrow> node_store \<Rightarrow> bool" where
  "ns_inv ld N s \<longleftrightarrow> nc_policy (ns_cache s)
     \<and> (nc_cache (ns_cache s) \<noteq> None \<longrightarrow> latch_counts (nc_latch (ns_cache s)) (holders s))
     \<and> (\<forall>k. \<forall>t \<in> holders s k. t < N \<and> k \<noteq> node_key_default \<and> ns_files s (nk_chunk_ndx k) \<noteq> None
          \<and> k \<notin> fst ` nc_pairs (ns_cache s))
     \<and> (\<forall>t k i. ns_calls s t \<noteq> Joined k i)
     \<and> (\<forall>k i. (k, Some i) \<in> nc_pairs (ns_cache s) \<longrightarrow> node_good ld s k i)
     \<and> (\<forall>t k i. ns_calls s t = Got k i \<longrightarrow> node_good ld s k i \<and> ns_files s (nk_chunk_ndx k) \<noteq> None)
     \<and> (\<forall>c l i. (l, i) \<in> set (ns_puts s c) \<longrightarrow> i < length (ns_nodes s))"

lemma ns_invD:
  assumes "ns_inv ld N s"
  shows "nc_policy (ns_cache s)" "nc_cache (ns_cache s) \<noteq> None \<Longrightarrow> latch_counts (nc_latch (ns_cache s)) (holders s)"
    "t \<in> holders s k \<Longrightarrow> t < N \<and> k \<noteq> node_key_default \<and> ns_files s (nk_chunk_ndx k) \<noteq> None \<and> k \<notin> fst ` nc_pairs (ns_cache s)"
    "ns_calls s t \<noteq> Joined k i" "(k, Some i) \<in> nc_pairs (ns_cache s) \<Longrightarrow> node_good ld s k i"
    "ns_calls s t = Got k i \<Longrightarrow> node_good ld s k i \<and> ns_files s (nk_chunk_ndx k) \<noteq> None"
    "(l, i) \<in> set (ns_puts s c) \<Longrightarrow> i < length (ns_nodes s)"
  using assms unfolding ns_inv_def by blast+

lemma ns_invI:
  assumes "nc_policy (ns_cache s)" "nc_cache (ns_cache s) \<noteq> None \<Longrightarrow> latch_counts (nc_latch (ns_cache s)) (holders s)"
    "\<And>k t. t \<in> holders s k \<Longrightarrow> t < N \<and> k \<noteq> node_key_default \<and> ns_files s (nk_chunk_ndx k) \<noteq> None \<and> k \<notin> fst ` nc_pairs (ns_cache s)"
    "\<And>t k i. ns_calls s t \<noteq> Joined k i" "\<And>k i. (k, Some i) \<in> nc_pairs (ns_cache s) \<Longrightarrow> node_good ld s k i"
    "\<And>t k i. ns_calls s t = Got k i \<Longrightarrow> node_good ld s k i \<and> ns_files s (nk_chunk_ndx k) \<noteq> None"
    "\<And>c l i. (l, i) \<in> set (ns_puts s c) \<Longrightarrow> i < length (ns_nodes s)"
  shows "ns_inv ld N s"
  using assms unfolding ns_inv_def by blast

lemma node_good_cong:
  "ns_nodes s' = ns_nodes s \<Longrightarrow> ns_puts s' = ns_puts s \<Longrightarrow> ns_files s' = ns_files s \<Longrightarrow> node_good ld s' = node_good ld s"
  by (intro ext) (simp add: node_good_def split: option.splits)

lemma node_good_append:
  assumes "node_good ld s k i" "ns_nodes s' = ns_nodes s @ [n]" "ns_files s' = ns_files s"
    "\<And>c l j. (l, j) \<in> set (ns_puts s' c) \<Longrightarrow> (l, j) \<in> set (ns_puts s c) \<or> j = length (ns_nodes s)"
    "\<And>c. set (ns_puts s c) \<subseteq> set (ns_puts s' c)"
  shows "node_good ld s' k i"
proof -
  have i: "i < length (ns_nodes s)" using assms(1) by (simp add: node_good_def)
  then have "\<forall>c l. (l, i) \<in> set (ns_puts s' c) \<longrightarrow> c = nk_chunk_ndx k"
    using assms(1,4) unfolding node_good_def by blast
  then show ?thesis using assms(1,2,3,5) i by (auto simp: node_good_def nth_append split: option.splits)
qed

lemma holders_upd:
  "holders (s\<lparr>ns_calls := (ns_calls s)(t := c)\<rparr>) k = (if c = Fetching k \<or> c = Threw k then insert t (holders s k) else holders s k - {t})"
  by (auto simp: holders_def)

lemma holders_other [simp]:
  "holders (s\<lparr>ns_cache := c\<rparr>) = holders s" "holders (s\<lparr>ns_nodes := ns\<rparr>) = holders s"
  "holders (s\<lparr>ns_puts := ow\<rparr>) = holders s" "holders (s\<lparr>ns_files := fs\<rparr>) = holders s"
  by (simp_all add: holders_def fun_eq_iff)

lemma holders_cong: "ns_calls s' = ns_calls s \<Longrightarrow> holders s' = holders s"
  by (simp add: holders_def fun_eq_iff)

lemma holders_bound:
  assumes "ns_inv ld N s" "t < N" "t \<notin> holders s k" "N < 2 ^ 32"
  shows "card (holders s k) + 1 < 2 ^ 32"
proof -
  have "insert t (holders s k) \<subseteq> {..<N}" using ns_invD(3) [OF assms(1)] assms(2) by auto
  then have "card (insert t (holders s k)) \<le> N" "finite (holders s k)"
    using card_mono [of "{..<N}"] finite_subset [of _ "{..<N}"] by fastforce+
  then show ?thesis using assms(3,4) by simp
qed

text \<open>The start of a call: which of the two ways it goes, and the invariant after it.\<close>

lemma get_start_inv:
  assumes inv: "ns_inv ld N s" and t: "t < N" "ns_calls s t = Ready" and N: "N < 2 ^ 32"
    and key: "ns_files s (nk_chunk_ndx key) \<noteq> None" "key \<noteq> node_key_default"
  obtains r c where "nc_get_start std_hash t key (ns_cache s) = Inr (r, c)"
    "ns_inv ld N (s\<lparr>ns_cache := c, ns_calls := (ns_calls s)(t := call_started key r)\<rparr>)"
proof -
  note D = ns_invD [OF inv]
  have nt: "t \<notin> holders s k" for k using t(2) by (simp add: holders_def)
  have load: "ns_inv ld N (s\<lparr>ns_cache := c, ns_calls := (ns_calls s)(t := Fetching key)\<rparr>)"
    if c: "nc_policy c" "nc_pairs c = nc_pairs (ns_cache s)" "key \<notin> fst ` nc_pairs (ns_cache s)"
      "nc_cache c \<noteq> None \<Longrightarrow> latch_counts (nc_latch c) ((holders s)(key := insert t (holders s key)))" for c
  proof -
    let ?s = "s\<lparr>ns_cache := c, ns_calls := (ns_calls s)(t := Fetching key)\<rparr>"
    have h: "holders ?s = (holders s)(key := insert t (holders s key))"
      using nt by (auto simp: holders_def fun_eq_iff)
    have g: "node_good ld ?s = node_good ld s" by (rule node_good_cong) simp_all
    show ?thesis
    proof (rule ns_invI)
      show "k' \<in> holders ?s k \<Longrightarrow> k' < N \<and> k \<noteq> node_key_default \<and> ns_files ?s (nk_chunk_ndx k) \<noteq> None
          \<and> k \<notin> fst ` nc_pairs (ns_cache ?s)" for k k'
        using D(3) t(1) key c(2,3) unfolding h by (auto split: if_splits)
      show "ns_calls ?s t' = Got k i \<Longrightarrow> node_good ld ?s k i \<and> ns_files ?s (nk_chunk_ndx k) \<noteq> None" for t' k i
        unfolding g using D(6) by (auto split: if_splits)
    qed (use c D g h in \<open>auto split: if_splits\<close>)
  qed
  show thesis
  proof (cases "nc_cache (ns_cache s)")
    case None
    then have "nc_get_start std_hash t key (ns_cache s) = Inr (Load, ns_cache s)" by (simp add: nc_get_start_def)
    then show ?thesis using that load [of "ns_cache s"] D(1) None by (simp add: call_started_def nc_pairs_def)
  next
    case (Some w)
    then have ne: "nc_cache (ns_cache s) \<noteq> None" by simp
    show ?thesis
    proof (rule nc_get_start_ok [OF D(1) ne key(2) D(2) [OF ne] nt holders_bound [OF inv t(1) nt N], of std_hash])
      fix i c
      assume c: "nc_get_start std_hash t key (ns_cache s) = Inr (Hit i, c)" "(key, Some i) \<in> nc_pairs (ns_cache s)"
        "nc_policy c" "nc_latch c = nc_latch (ns_cache s)" "nc_cache c \<noteq> None" "nc_pairs c = nc_pairs (ns_cache s)"
      let ?s = "s\<lparr>ns_cache := c, ns_calls := (ns_calls s)(t := Got key i)\<rparr>"
      have h: "holders ?s = holders s" using t(2) by (auto simp: holders_def fun_eq_iff)
      have g: "node_good ld ?s = node_good ld s" by (rule node_good_cong) simp_all
      have "ns_inv ld N ?s"
      proof (rule ns_invI)
        show "ns_calls ?s t' = Got k j \<Longrightarrow> node_good ld ?s k j \<and> ns_files ?s (nk_chunk_ndx k) \<noteq> None" for t' k j
          unfolding g using D(6) D(5) [OF c(2)] key(1) by (auto split: if_splits)
      qed (use c D g h ne in \<open>auto split: if_splits\<close>)
      then show ?thesis using that c(1) by (simp add: call_started_def)
    next
      fix c
      assume "nc_get_start std_hash t key (ns_cache s) = Inr (Load, c)" "key \<notin> fst ` nc_pairs (ns_cache s)" "nc_policy c"
        "latch_counts (nc_latch c) ((holders s)(key := insert t (holders s key)))" "nc_cache c \<noteq> None" "nc_pairs c = nc_pairs (ns_cache s)"
      then show ?thesis using that load [of c] by (simp add: call_started_def)
    qed
  qed
qed

text \<open>The end of a load.\<close>

lemma get_loaded_inv:
  assumes inv: "ns_inv ld N s" and t: "ns_calls s t = Fetching key"
    and ld: "ns_files s (nk_chunk_ndx key) = Some f" "ld f (nk_location key) = Inr n"
  obtains c where "nc_get_loaded std_hash key (length (ns_nodes s)) (ns_cache s) = Inr c"
    "ns_inv ld N (s\<lparr>ns_cache := c, ns_nodes := ns_nodes s @ [n], ns_calls := (ns_calls s)(t := Got key (length (ns_nodes s)))\<rparr>)"
proof -
  note D = ns_invD [OF inv]
  let ?i = "length (ns_nodes s)"
  have ht: "t \<in> holders s key" using t by (simp add: holders_def)
  have fresh: "(l, ?i) \<notin> set (ns_puts s c)" for c l using D(7) by blast
  have done_: "ns_inv ld N (s\<lparr>ns_cache := c, ns_nodes := ns_nodes s @ [n], ns_calls := (ns_calls s)(t := Got key ?i)\<rparr>)"
    if c: "nc_policy c" "nc_cache c \<noteq> None \<Longrightarrow> latch_counts (nc_latch c) ((holders s)(key := holders s key - {t}))"
      "nc_pairs c \<subseteq> (if holders s key - {t} = {} then insert (key, Some ?i) (nc_pairs (ns_cache s)) else nc_pairs (ns_cache s))" for c
  proof -
    let ?s = "s\<lparr>ns_cache := c, ns_nodes := ns_nodes s @ [n], ns_calls := (ns_calls s)(t := Got key ?i)\<rparr>"
    have h: "holders ?s = (holders s)(key := holders s key - {t})" using t by (auto simp: holders_def fun_eq_iff)
    have old: "node_good ld ?s k i" if "node_good ld s k i" for k i by (rule node_good_append [OF that]) auto
    have new: "node_good ld ?s key ?i" using ld fresh by (simp add: node_good_def)
    show ?thesis
    proof (rule ns_invI)
      fix k u
      assume u: "u \<in> holders ?s k"
      then have hu: "u \<in> holders s k" "k = key \<Longrightarrow> holders s key - {t} \<noteq> {}" unfolding h by (auto split: if_splits)
      then have "k \<notin> fst ` nc_pairs c" using D(3) [OF hu(1)] c(3) by (cases "k = key") (auto split: if_splits)
      then show "u < N \<and> k \<noteq> node_key_default \<and> ns_files ?s (nk_chunk_ndx k) \<noteq> None \<and> k \<notin> fst ` nc_pairs (ns_cache ?s)"
        using D(3) [OF hu(1)] by simp
    next
      fix k i
      assume "(k, Some i) \<in> nc_pairs (ns_cache ?s)"
      then have "(k, Some i) \<in> nc_pairs (ns_cache s) \<or> k = key \<and> i = ?i" using c(3) by (auto split: if_splits)
      then show "node_good ld ?s k i" using D(5) old new by blast
    next
      fix u k i
      assume "ns_calls ?s u = Got k i"
      then have "ns_calls s u = Got k i \<or> k = key \<and> i = ?i" by (auto split: if_splits)
      then show "node_good ld ?s k i \<and> ns_files ?s (nk_chunk_ndx k) \<noteq> None" using D(6) old new ld(1) by auto
    next
      show "(l, i) \<in> set (ns_puts ?s c) \<Longrightarrow> i < length (ns_nodes ?s)" for c l i using D(7) [of l i c] by simp
    qed (use c D(4) h in \<open>auto split: if_splits\<close>)
  qed
  show thesis
  proof (cases "nc_cache (ns_cache s)")
    case None
    then have "nc_get_loaded std_hash key ?i (ns_cache s) = Inr (ns_cache s)" by (simp add: nc_get_loaded_def)
    then show ?thesis using that done_ [of "ns_cache s"] D(1) None by (simp add: nc_pairs_def)
  next
    case (Some w)
    then have ne: "nc_cache (ns_cache s) \<noteq> None" by simp
    have k: "key \<noteq> node_key_default" "key \<notin> fst ` nc_pairs (ns_cache s)" using D(3) [OF ht] by simp_all
    obtain c where "nc_get_loaded std_hash key ?i (ns_cache s) = Inr c" "nc_policy c" "nc_cache c \<noteq> None"
        "latch_counts (nc_latch c) ((holders s)(key := holders s key - {t}))"
        "nc_pairs c \<subseteq> (if holders s key - {t} = {} then insert (key, Some ?i) (nc_pairs (ns_cache s)) else nc_pairs (ns_cache s))"
      using nc_get_loaded_ok [OF D(1) ne k(1) D(2) [OF ne] ht k(2)] .
    then show ?thesis using that done_ [of c] by blast
  qed
qed

text \<open>A put: no call has the node in the cache yet.\<close>

lemma put_inv:
  assumes inv: "ns_inv ld N s" and c: "ns_files s chunk = None" "\<lparr>nk_chunk_ndx = chunk, nk_location = location\<rparr> \<noteq> node_key_default"
    "location \<notin> fst ` set (ns_puts s chunk)"
  obtains c where "nc_set std_hash chunk location (length (ns_nodes s)) (ns_cache s) = Inr c"
    "ns_inv ld N (s\<lparr>ns_cache := c, ns_nodes := ns_nodes s @ [n],
      ns_puts := (ns_puts s)(chunk := ns_puts s chunk @ [(location, length (ns_nodes s))])\<rparr>)"
proof -
  note D = ns_invD [OF inv]
  let ?k = "\<lparr>nk_chunk_ndx = chunk, nk_location = location\<rparr>" and ?i = "length (ns_nodes s)"
  have "?k \<notin> fst ` nc_pairs (ns_cache s)"
  proof
    assume "?k \<in> fst ` nc_pairs (ns_cache s)"
    then obtain v where v: "(?k, v) \<in> nc_pairs (ns_cache s)" by auto
    moreover have "v \<noteq> None"
      using v D(1) by (force simp: nc_policy_def nc_pairs_def split: option.splits)
    ultimately obtain i where "(?k, Some i) \<in> nc_pairs (ns_cache s)" by auto
    then have "node_good ld s ?k i" by (rule D(5))
    then have "(location, i) \<in> set (ns_puts s chunk)" using c(1) by (simp add: node_good_def)
    then show False using c(3) by force
  qed
  from nc_set_ok [OF D(1) c(2) this, of std_hash ?i] obtain c' where
    c': "nc_set std_hash chunk location ?i (ns_cache s) = Inr c'" "nc_policy c'" "nc_latch c' = nc_latch (ns_cache s)"
    "nc_cache c' = None \<longleftrightarrow> nc_cache (ns_cache s) = None" "nc_pairs c' \<subseteq> insert (?k, Some ?i) (nc_pairs (ns_cache s))" by blast
  let ?s = "s\<lparr>ns_cache := c', ns_nodes := ns_nodes s @ [n],
      ns_puts := (ns_puts s)(chunk := ns_puts s chunk @ [(location, ?i)])\<rparr>"
  have h: "holders ?s = holders s" by (rule holders_cong) simp
  have old: "node_good ld ?s k i" if "node_good ld s k i" for k i
    by (rule node_good_append [OF that]) (auto split: if_splits)
  have "(l, ?i) \<notin> set (ns_puts s c)" for c l using D(7) by blast
  then have new: "node_good ld ?s ?k ?i" using c(1) by (simp add: node_good_def)
  have "ns_inv ld N ?s"
  proof (rule ns_invI)
    fix k u
    assume "u \<in> holders ?s k"
    note d = D(3) [OF this [unfolded h]]
    have "k \<noteq> ?k" using d c(1) by auto
    then have "k \<notin> fst ` nc_pairs c'" using d c'(5) by auto
    then show "u < N \<and> k \<noteq> node_key_default \<and> ns_files ?s (nk_chunk_ndx k) \<noteq> None \<and> k \<notin> fst ` nc_pairs (ns_cache ?s)"
      using d by simp
  next
    fix k i
    assume "(k, Some i) \<in> nc_pairs (ns_cache ?s)"
    then have "(k, Some i) \<in> nc_pairs (ns_cache s) \<or> k = ?k \<and> i = ?i" using c'(5) by auto
    then show "node_good ld ?s k i" using D(5) old new by blast
  next
    show "(l, i) \<in> set (ns_puts ?s c) \<Longrightarrow> i < length (ns_nodes ?s)" for c l i using D(7) [of l i c] by (auto split: if_splits)
  qed (use c' D(2,4,6) h old in auto)
  with c'(1) show thesis by (rule that)
qed

text \<open>What is cached for a slice when its writer commits is what loading its pages gives.\<close>

lemma committed_node:
  assumes "lz4_ok compress decompress" "writer_flushed compress crc chunk w" "put_by w chunk s" "pages_fit compress w"
    "length (sw_writer w) < 2 ^ 32" "(location, i) \<in> set (ns_puts s chunk)"
  shows "\<exists>n. cache_load decompress crc (sw_writer w) location = Inr n \<and> same_node n (ns_nodes s ! i)"
proof -
  obtain depth k compact "is" w0 where w: "sw_add_all compress crc depth k compact is (slice_writer_init chunk) = Inr w0"
    "sw_flush compress crc depth w0 = Inr w" using assms(2) by (auto simp: writer_flushed_def)
  have "(location, ns_nodes s ! i) \<in> set (map (\<lambda>(l, i). (l, ns_nodes s ! i)) (ns_puts s chunk))" using assms(6) by force
  then obtain j where j: "(location, j) \<in> set (sw_cached w)" "sw_nodes w ! j = ns_nodes s ! i"
    using assms(3) unfolding put_by_def by auto
  from writer_nodes_like [OF assms(1,4) w assms(5)] j show ?thesis by fastforce
qed

lemma ns_step_inv:
  assumes "ns_step std_hash compress decompress crc N s s'" "ns_inv (cache_load decompress crc) N s" "N < 2 ^ 32"
    and lz4: "lz4_ok compress decompress"
  shows "ns_inv (cache_load decompress crc) N s'"
  using assms(1)
proof cases
  case (get_start t key r c)
  obtain r' c' where "nc_get_start std_hash t key (ns_cache s) = Inr (r', c')"
      "ns_inv (cache_load decompress crc) N (s\<lparr>ns_cache := c', ns_calls := (ns_calls s)(t := call_started key r')\<rparr>)"
    using get_start_inv [OF assms(2) get_start(2,3) assms(3) get_start(4,5)] .
  then show ?thesis using get_start by simp
next
  case (get_loaded t key f n c)
  obtain c' where "nc_get_loaded std_hash key (length (ns_nodes s)) (ns_cache s) = Inr c'"
      "ns_inv (cache_load decompress crc) N
        (s\<lparr>ns_cache := c', ns_nodes := ns_nodes s @ [n], ns_calls := (ns_calls s)(t := Got key (length (ns_nodes s)))\<rparr>)"
    using get_loaded_inv [where std_hash = std_hash, OF assms(2) get_loaded(3,4) get_loaded(5)] .
  then show ?thesis using get_loaded by simp
next
  case (get_threw t key)
  have "holders s' = holders s" using get_threw by (auto simp: holders_def fun_eq_iff)
  moreover have "node_good ld s' = node_good ld s" for ld by (rule node_good_cong) (simp_all add: get_threw)
  ultimately show ?thesis using assms(2) get_threw(1) by (auto simp: ns_inv_def)
next
  case (get_joined t key n ready c)
  then show ?thesis using ns_invD(4) [OF assms(2)] by blast
next
  case (get_again t key n)
  have "holders s' = holders s" using get_again by (auto simp: holders_def fun_eq_iff)
  moreover have "node_good ld s' = node_good ld s" for ld by (rule node_good_cong) (simp_all add: get_again)
  ultimately show ?thesis using assms(2) get_again(1) by (auto simp: ns_inv_def)
next
  case (put chunk location c n)
  obtain c' where "nc_set std_hash chunk location (length (ns_nodes s)) (ns_cache s) = Inr c'"
    "ns_inv (cache_load decompress crc) N (s\<lparr>ns_cache := c', ns_nodes := ns_nodes s @ [n],
      ns_puts := (ns_puts s)(chunk := ns_puts s chunk @ [(location, length (ns_nodes s))])\<rparr>)"
    using put_inv [OF assms(2) put(2-4)] .
  then show ?thesis using put by simp
next
  case (link location i chunk l n)
  note D = ns_invD [OF assms(2)]
  let ?ld = "cache_load decompress crc"
  have h: "holders s' = holders s" by (rule holders_cong) (simp add: link(1))
  have "node_good ?ld s' k j" if g: "node_good ?ld s k j" for k j
  proof (cases "j = i")
    case True
    then have "chunk = nk_chunk_ndx k" using g link(2) by (auto simp: node_good_def)
    then have "ns_files s (nk_chunk_ndx k) = None" using link(3) by simp
    then show ?thesis using g by (simp add: link(1) node_good_def)
  next
    case False
    then show ?thesis using g by (simp add: link(1) node_good_def split: option.splits)
  qed
  then show ?thesis using assms(2) h unfolding ns_inv_def link(1) by simp
next
  case (commit chunk w)
  let ?ld = "cache_load decompress crc"
  note D = ns_invD [OF assms(2)]
  have h: "holders s' = holders s" by (rule holders_cong) (simp add: commit(1))
  have other: "node_good ?ld s' k j" if "node_good ?ld s k j" "nk_chunk_ndx k \<noteq> chunk" for k j
    using that by (simp add: commit(1) node_good_def split: option.splits)
  have cached: "node_good ?ld s' k j" if kj: "(k, Some j) \<in> nc_pairs (ns_cache s)" for k j
  proof (cases "nk_chunk_ndx k = chunk")
    case True
    then have "(nk_location k, j) \<in> set (ns_puts s chunk)" using D(5) [OF kj] commit(2) by (simp add: node_good_def)
    then show ?thesis
      using D(5) [OF kj] committed_node [OF lz4 commit(3-6)] True by (simp add: commit(1) node_good_def)
  next
    case False
    then show ?thesis using other D(5) [OF kj] by blast
  qed
  show ?thesis
  proof (rule ns_invI)
    fix t k j
    assume "ns_calls s' t = Got k j"
    then have g: "node_good ?ld s k j" "ns_files s (nk_chunk_ndx k) \<noteq> None" using D(6) [of t k j] by (simp_all add: commit(1))
    then show "node_good ?ld s' k j \<and> ns_files s' (nk_chunk_ndx k) \<noteq> None"
      using other commit(2) by (auto simp: commit(1))
  next
    fix k u
    assume "u \<in> holders s' k"
    then show "u < N \<and> k \<noteq> node_key_default \<and> ns_files s' (nk_chunk_ndx k) \<noteq> None \<and> k \<notin> fst ` nc_pairs (ns_cache s')"
      using D(3) [of u k] unfolding h by (simp add: commit(1))
  qed (use D(1,2,4,7) h cached in \<open>auto simp: commit(1)\<close>)
qed

lemma ns_reach_inv:
  assumes "(ns_step std_hash compress decompress crc N)\<^sup>*\<^sup>* s s'" "ns_inv (cache_load decompress crc) N s" "N < 2 ^ 32"
    "lz4_ok compress decompress"
  shows "ns_inv (cache_load decompress crc) N s'"
  using assms by (induction rule: rtranclp_induct) (auto intro: ns_step_inv)

section \<open>Properties\<close>

lemma nc_initialize_ok:
  assumes "cache_bits = 0 \<or> 12 \<le> cache_bits \<and> cache_bits < 32"
  obtains c where "nc_initialize cache_bits nc_null = Inr c" "nc_policy c" "nc_pairs c = {}" "nc_latch c = latch_init None"
    "nc_cache c = None \<longleftrightarrow> cache_bits = 0"
proof (cases "cache_bits = 0")
  case True
  then show ?thesis
    using that [of nc_null] by (simp add: nc_initialize_def nc_policy_def nc_pairs_def nc_null_def)
next
  case False
  then have b: "12 \<le> unat cache_bits" "unat cache_bits \<le> 31" "\<not> 32 \<le> cache_bits" "cache_bits \<noteq> 0"
    using assms by (simp_all add: word_le_nat_alt word_less_nat_alt)
  let ?n = "push_bit (unat cache_bits) 1 :: u32"
  define m where "m = (2 :: nat) ^ unat cache_bits"
  have "(2 :: nat) ^ unat cache_bits \<le> 2 ^ 31" using b(2) by (intro power_increasing) simp_all
  moreover have "(2 :: nat) ^ 12 \<le> 2 ^ unat cache_bits" using b(1) by (intro power_increasing) simp_all
  ultimately have m: "m \<le> 2147483648" "4096 \<le> m" by (simp_all add: m_def)
  have "?n = of_nat m" by (simp add: push_bit_eq_mult m_def)
  then have "unat ?n = m" using m by (simp add: unat_word_of_nat)
  with m have "4096 \<le> unat ?n" "unat ?n \<le> 2147483648" by simp_all
  then have "4096 \<le> ?n" "?n \<le> 0x80000000" by (simp_all add: word_le_nat_alt)
  then obtain w :: "(node_key, nat option) wtinylfu" where
    "wtinylfu_init ?n None = Inr w" "wt_inv w" "wt_pairs w = {}" "wt_empty_item w = None"
    by (rule wtinylfu_init_ok)
  then show ?thesis
    using that [of "nc_null\<lparr>nc_cache := Some w, nc_latch := latch_init None\<rparr>"] b
    by (simp add: nc_initialize_def nc_policy_def nc_pairs_def)
qed

lemma ns_init_inv:
  assumes "nc_initialize cache_bits nc_null = Inr c" "cache_bits = 0 \<or> 12 \<le> cache_bits \<and> cache_bits < 32"
  shows "ns_inv ld N (ns_init c)"
proof -
  have h: "holders (ns_init c) = (\<lambda>_. {})" by (rule ext) (simp add: holders_def ns_init_def)
  have "nc_policy c" "nc_pairs c = {}" "nc_latch c = latch_init None"
    using nc_initialize_ok [OF assms(2)] assms(1) by auto
  moreover have "ns_cache (ns_init c) = c" "ns_calls (ns_init c) t = Ready" "ns_puts (ns_init c) k = []" for t k
    by (simp_all add: ns_init_def)
  ultimately show ?thesis by (simp add: ns_inv_def h latch_counts_init)
qed

text \<open>
  C27: The node cache cannot be told from the files. In every interleaving of calls of \<open>get\<close>, loads that
  throw, slice writers that put their nodes and go on linking them, and commits of finished slices, a call that returns
  has a node like the one that loading the page would give, and no assertion fails: neither when a call starts nor when
  it ends a load, nor when a writer puts its next page. (As for reading a slice at all, the slices are those below 4 GiB
  whose pages are compressed to at most a page.)
\<close>

theorem node_cache_transparent:
  assumes "nc_initialize cache_bits nc_null = Inr c" "cache_bits = 0 \<or> 12 \<le> cache_bits \<and> cache_bits < 32"
    and "(ns_step std_hash compress decompress crc N)\<^sup>*\<^sup>* (ns_init c) s" "N < 2 ^ 32" "lz4_ok compress decompress"
  shows "(\<forall>t key i. ns_calls s t = Got key i \<longrightarrow> i < length (ns_nodes s) \<and> (\<exists>f n. ns_files s (nk_chunk_ndx key) = Some f
        \<and> cache_load decompress crc f (nk_location key) = Inr n \<and> same_node n (ns_nodes s ! i)))
    \<and> (\<forall>t key. t < N \<and> ns_calls s t = Ready \<and> ns_files s (nk_chunk_ndx key) \<noteq> None \<and> key \<noteq> node_key_default \<longrightarrow>
        (\<exists>r. nc_get_start std_hash t key (ns_cache s) = Inr r))
    \<and> (\<forall>t key f n. ns_calls s t = Fetching key \<and> ns_files s (nk_chunk_ndx key) = Some f
        \<and> cache_load decompress crc f (nk_location key) = Inr n \<longrightarrow>
        (\<exists>c. nc_get_loaded std_hash key (length (ns_nodes s)) (ns_cache s) = Inr c))
    \<and> (\<forall>chunk location. ns_files s chunk = None \<and> \<lparr>nk_chunk_ndx = chunk, nk_location = location\<rparr> \<noteq> node_key_default
        \<and> location \<notin> fst ` set (ns_puts s chunk) \<longrightarrow>
        (\<exists>c. nc_set std_hash chunk location (length (ns_nodes s)) (ns_cache s) = Inr c))"
proof -
  have inv: "ns_inv (cache_load decompress crc) N s"
    by (rule ns_reach_inv [OF assms(3) ns_init_inv [OF assms(1,2)] assms(4,5)])
  have got: "i < length (ns_nodes s) \<and> (\<exists>f n. ns_files s (nk_chunk_ndx key) = Some f
      \<and> cache_load decompress crc f (nk_location key) = Inr n \<and> same_node n (ns_nodes s ! i))"
    if "ns_calls s t = Got key i" for t key i
    using ns_invD(6) [OF inv that] by (auto simp: node_good_def)
  have start: "\<exists>r. nc_get_start std_hash t key (ns_cache s) = Inr r"
    if "t < N \<and> ns_calls s t = Ready \<and> ns_files s (nk_chunk_ndx key) \<noteq> None \<and> key \<noteq> node_key_default" for t key
    using get_start_inv [where std_hash = std_hash and key = key, OF inv _ _ assms(4)] that by metis
  have loaded: "\<exists>c. nc_get_loaded std_hash key (length (ns_nodes s)) (ns_cache s) = Inr c"
    if "ns_calls s t = Fetching key \<and> ns_files s (nk_chunk_ndx key) = Some f
        \<and> cache_load decompress crc f (nk_location key) = Inr n" for t key f n
    using get_loaded_inv [where std_hash = std_hash, OF inv] that by metis
  have "\<exists>c. nc_set std_hash chunk location (length (ns_nodes s)) (ns_cache s) = Inr c"
    if "ns_files s chunk = None \<and> \<lparr>nk_chunk_ndx = chunk, nk_location = location\<rparr> \<noteq> node_key_default
        \<and> location \<notin> fst ` set (ns_puts s chunk)" for chunk location
    using put_inv [where std_hash = std_hash, OF inv] that by metis
  with got start loaded show ?thesis by blast
qed

text \<open>A small run: a slice of one item is written, its pages put, and one of them read.\<close>

lemma puts_reach:
  assumes "ns_inv (cache_load decompress crc) N s" "ns_files s chunk = None" "chunk \<noteq> - 1"
    "distinct (map fst ps)" "fst ` set ps \<inter> fst ` set (ns_puts s chunk) = {}"
  shows "\<exists>s'. (ns_step std_hash compress decompress crc N)\<^sup>*\<^sup>* s s' \<and> ns_inv (cache_load decompress crc) N s'
    \<and> map (\<lambda>(l, i). (l, ns_nodes s' ! i)) (ns_puts s' chunk) = map (\<lambda>(l, i). (l, ns_nodes s ! i)) (ns_puts s chunk) @ ps
    \<and> ns_files s' = ns_files s \<and> ns_calls s' = ns_calls s"
  using assms
proof (induction ps arbitrary: s)
  case (Cons p ps)
  obtain l n where p: "p = (l, n)" by (cases p)
  have key: "\<lparr>nk_chunk_ndx = chunk, nk_location = l\<rparr> \<noteq> node_key_default" using Cons.prems(3) by (simp add: node_key_default_def)
  have l: "l \<notin> fst ` set (ns_puts s chunk)" using Cons.prems(5) by (auto simp: p)
  obtain c where c: "nc_set std_hash chunk l (length (ns_nodes s)) (ns_cache s) = Inr c"
    "ns_inv (cache_load decompress crc) N (s\<lparr>ns_cache := c, ns_nodes := ns_nodes s @ [n],
      ns_puts := (ns_puts s)(chunk := ns_puts s chunk @ [(l, length (ns_nodes s))])\<rparr>)"
    using put_inv [OF Cons.prems(1,2) key l] .
  let ?s = "s\<lparr>ns_cache := c, ns_nodes := ns_nodes s @ [n],
      ns_puts := (ns_puts s)(chunk := ns_puts s chunk @ [(l, length (ns_nodes s))])\<rparr>"
  have st: "ns_step std_hash compress decompress crc N s ?s" by (rule ns_step.put [OF Cons.prems(2) key l c(1)])
  have "fst ` set ps \<inter> fst ` set (ns_puts ?s chunk) = {}" using Cons.prems(4,5) by (auto simp: p)
  from Cons.IH [OF c(2) _ Cons.prems(3) _ this] obtain s' where s': "(ns_step std_hash compress decompress crc N)\<^sup>*\<^sup>* ?s s'"
    "ns_inv (cache_load decompress crc) N s'"
    "map (\<lambda>(l, i). (l, ns_nodes s' ! i)) (ns_puts s' chunk) = map (\<lambda>(l, i). (l, ns_nodes ?s ! i)) (ns_puts ?s chunk) @ ps"
    "ns_files s' = ns_files s" "ns_calls s' = ns_calls s" using Cons.prems(2,4) by auto
  have "i < length (ns_nodes s)" if "(l, i) \<in> set (ns_puts s chunk)" for l i
    by (rule ns_invD(7) [OF Cons.prems(1) that])
  then have "map (\<lambda>(l, i). (l, (ns_nodes s @ [n]) ! i)) (ns_puts s chunk) = map (\<lambda>(l, i). (l, ns_nodes s ! i)) (ns_puts s chunk)"
    by (auto simp: nth_append)
  then have "map (\<lambda>(l, i). (l, ns_nodes ?s ! i)) (ns_puts ?s chunk) = map (\<lambda>(l, i). (l, ns_nodes s ! i)) (ns_puts s chunk) @ [p]"
    by (simp add: p)
  with s' st show ?case by (intro exI [of _ s']) (auto intro: converse_rtranclp_into_rtranclp)
qed auto

lemma iw_flush_puts: "iw_flush compress crc k lvls w = Inr (root, lvls', w') \<Longrightarrow> sw_cached w' \<noteq> []"
proof (induction k arbitrary: lvls w root lvls')
  case (Suc k)
  then obtain lvl hs where lvls: "lvls = lvl # hs" by (cases lvls) auto
  obtain l nd w1 where st: "sw_store compress crc (iw_node lvl) False w = Inr (l, nd, w1)"
    using Suc.prems unfolding lvls by (auto simp: res_bind_eq_Inr)
  show ?case
  proof (cases "hs = []")
    case True
    then have "w' = w1" using Suc.prems st by (simp add: lvls)
    then show ?thesis using st by (auto elim!: sw_store_Inr)
  next
    case False
    then show ?thesis using Suc.prems st Suc.IH unfolding lvls by (auto simp: res_bind_eq_Inr)
  qed
qed simp

lemma writer_puts:
  assumes "sw_flush compress crc depth w = Inr w'"
  shows "sw_cached w' \<noteq> []"
proof -
  obtain w1 where w1: "sw_flush_pages compress crc depth w = Inr w1" and c: "sw_cached w' = sw_cached w1"
    using assms by (auto simp: sw_flush_def res_bind_eq_Inr res_assert_eq_Inr sw_write_def sw_add_padding_def split: if_splits)
  have link: "sw_cached b = sw_cached a" if "sw_link l i a = Inr b" for l i a b
    using that by (auto simp: sw_link_def res_bind_eq_Inr split: option.splits if_splits)
  show ?thesis using w1 unfolding c sw_flush_pages_def Let_def
    by (fastforce simp: res_bind_eq_Inr dest!: link iw_flush_puts split: prod.splits)
qed

lemma sample_start:
  assumes "nc_initialize 12 nc_null = Inr c"
  obtains s key f n where "(ns_step id stored_lz4 Some (\<lambda>_. 0) 1)\<^sup>*\<^sup>* (ns_init c) s" "ns_calls s 0 = Ready"
    "ns_files s (nk_chunk_ndx key) = Some f" "key \<noteq> node_key_default" "cache_load Some (\<lambda>_. 0) f (nk_location key) = Inr n"
proof -
  let ?ld = "cache_load Some (\<lambda>_. 0)" and ?first = "ns_init c"
  obtain w w' sl w'' where r: "sw_add_all stored_lz4 (\<lambda>_. 0) 1 1 False [sample_item] (slice_writer_init 0) = Inr w"
    "sw_flush stored_lz4 (\<lambda>_. 0) 1 w = Inr w'" "sw_commit w' = Inr (sl, w'')" "length (sl_reader sl) \<le> 24522"
    using sample_run [of False] by blast
  then have len: "length (sw_writer w') < 2 ^ 32" by (auto simp: sw_commit_def res_assert_eq_Inr)
  note wn = writer_nodes [OF stored_lz4_ok(1) stored_pages_fit r(1,2) len]
  define ps where "ps = map (\<lambda>(l, i). (l, sw_nodes w' ! i)) (sw_cached w')"
  have fst: "map fst ps = map fst (sw_cached w')" by (auto simp: ps_def)
  have inv: "ns_inv ?ld 1 ?first" by (rule ns_init_inv [OF assms]) simp
  have "distinct (map fst ps)" using wn unfolding fst by blast
  then obtain s1 where s1: "(ns_step id stored_lz4 Some (\<lambda>_. 0) 1)\<^sup>*\<^sup>* ?first s1"
    "map (\<lambda>(l, i). (l, ns_nodes s1 ! i)) (ns_puts s1 0) = ps" "ns_files s1 = Map.empty" "ns_calls s1 = (\<lambda>_. Ready)"
    using puts_reach [OF inv, of 0 ps id stored_lz4] by (auto simp: ns_init_def)
  let ?s = "s1\<lparr>ns_files := (ns_files s1)(0 \<mapsto> sw_writer w')\<rparr>"
  have "writer_flushed stored_lz4 (\<lambda>_. 0) 0 w'" using r(1,2) unfolding writer_flushed_def by blast
  then have "ns_step id stored_lz4 Some (\<lambda>_. 0) 1 s1 ?s"
    by (rule ns_step.commit [rotated]) (use s1 len in \<open>simp_all add: put_by_def ps_def\<close>)
  with s1(1) have s: "(ns_step id stored_lz4 Some (\<lambda>_. 0) 1)\<^sup>*\<^sup>* ?first ?s" by simp
  have "sw_cached w' \<noteq> []" by (rule writer_puts [OF r(2)])
  then obtain l i where li: "(l, i) \<in> set (sw_cached w')" by (metis list.set_intros(1) neq_Nil_conv surj_pair)
  then obtain n where n: "?ld (sw_writer w') l = Inr n" using wn by blast
  show thesis
    by (rule that [OF s, of "\<lparr>nk_chunk_ndx = 0, nk_location = l\<rparr>" "sw_writer w'" n])
      (use s1(3,4) n in \<open>simp_all add: node_key_default_def\<close>)
qed

lemma sample_cache: obtains c where "nc_initialize 12 nc_null = Inr c"
  using nc_initialize_ok [of 12] by auto

theorem node_cache_transparent_witness:
  "\<exists>c s key i f n. nc_initialize 12 nc_null = Inr c \<and> (ns_step id stored_lz4 Some (\<lambda>_. 0) 1)\<^sup>*\<^sup>* (ns_init c) s
    \<and> ns_calls s 0 = Got key i \<and> ns_files s (nk_chunk_ndx key) = Some f
    \<and> cache_load Some (\<lambda>_. 0) f (nk_location key) = Inr n \<and> same_node n (ns_nodes s ! i)"
proof -
  let ?ld = "cache_load Some (\<lambda>_. 0)" and ?step = "ns_step id stored_lz4 Some (\<lambda>_. 0) 1"
  obtain c where c: "nc_initialize 12 nc_null = Inr c" by (rule sample_cache)
  have b: "12 = (0 :: u32) \<or> 12 \<le> (12 :: u32) \<and> 12 < (32 :: u32)" "(1 :: nat) < 2 ^ 32" by simp_all
  note nt = node_cache_transparent [OF c b(1) _ b(2) stored_lz4_ok(1)]
  obtain s key f n where s: "?step\<^sup>*\<^sup>* (ns_init c) s" "ns_calls s 0 = Ready" "ns_files s (nk_chunk_ndx key) = Some f"
    "key \<noteq> node_key_default" "?ld f (nk_location key) = Inr n" using sample_start [OF c] .
  obtain r c1 where r: "nc_get_start id 0 key (ns_cache s) = Inr (r, c1)"
    using nt [OF s(1), THEN conjunct2, THEN conjunct1] s(2-4) by fastforce
  define s1 where "s1 = s\<lparr>ns_cache := c1, ns_calls := (ns_calls s)(0 := call_started key r)\<rparr>"
  have "?step s s1" unfolding s1_def by (rule ns_step.get_start [OF _ s(2) _ s(4) r]) (simp_all add: s(3))
  with s(1) have r1: "?step\<^sup>*\<^sup>* (ns_init c) s1" by simp
  have f1: "ns_files s1 (nk_chunk_ndx key) = Some f" by (simp add: s1_def s(3))
  have "\<exists>s2 i. ?step\<^sup>*\<^sup>* (ns_init c) s2 \<and> ns_calls s2 0 = Got key i"
  proof (cases r)
    case (Hit i)
    then show ?thesis using r1 by (intro exI [of _ s1]) (auto simp: s1_def call_started_def)
  next
    case (Join i)
    have "ns_calls s1 0 \<noteq> Joined key i"
      by (rule ns_invD(4) [OF ns_reach_inv [OF r1 ns_init_inv [OF c b(1)] b(2) stored_lz4_ok(1)]])
    then show ?thesis using Join by (simp add: s1_def call_started_def)
  next
    case Load
    then have fe: "ns_calls s1 0 = Fetching key" by (simp add: s1_def call_started_def)
    obtain c2 where c2: "nc_get_loaded id key (length (ns_nodes s1)) (ns_cache s1) = Inr c2"
      using nt [OF r1, THEN conjunct2, THEN conjunct2, THEN conjunct1] fe f1 s(5) by blast
    have "?step s1 (s1\<lparr>ns_cache := c2, ns_nodes := ns_nodes s1 @ [n], ns_calls := (ns_calls s1)(0 := Got key (length (ns_nodes s1)))\<rparr>)"
      by (rule ns_step.get_loaded [OF _ fe f1 s(5) c2]) simp
    with r1 have "?step\<^sup>*\<^sup>* (ns_init c) (s1\<lparr>ns_cache := c2, ns_nodes := ns_nodes s1 @ [n],
        ns_calls := (ns_calls s1)(0 := Got key (length (ns_nodes s1)))\<rparr>)" by simp
    moreover have "ns_calls (s1\<lparr>ns_cache := c2, ns_nodes := ns_nodes s1 @ [n],
        ns_calls := (ns_calls s1)(0 := Got key (length (ns_nodes s1)))\<rparr>) 0 = Got key (length (ns_nodes s1))" by simp
    ultimately show ?thesis by blast
  qed
  then obtain s2 i where s2: "?step\<^sup>*\<^sup>* (ns_init c) s2" "ns_calls s2 0 = Got key i" by blast
  from nt [OF s2(1), THEN conjunct1] s2 c show ?thesis by blast
qed

text \<open>
  The latch in front of the loads keeps nothing back: its value is never set, so no call ever waits for
  another one's load, and all that miss a page while it is loaded load it again. And when a load throws,
  its entry stays behind: the page is not put into the cache by any reader from then on.
\<close>

lemma node_cache_latch_idle:
  assumes "nc_initialize cache_bits nc_null = Inr c" "cache_bits = 0 \<or> 12 \<le> cache_bits \<and> cache_bits < 32"
    and "(ns_step std_hash compress decompress crc N)\<^sup>*\<^sup>* (ns_init c) s" "N < 2 ^ 32" "lz4_ok compress decompress"
  shows "(\<forall>t key i. ns_calls s t \<noteq> Joined key i)
    \<and> (\<forall>t key s'. ns_calls s t = Threw key \<longrightarrow> (ns_step std_hash compress decompress crc N)\<^sup>*\<^sup>* s s' \<longrightarrow>
        key \<notin> fst ` nc_pairs (ns_cache s'))"
proof (intro conjI allI impI)
  let ?ld = "cache_load decompress crc"
  have inv: "ns_inv ?ld N s"
    by (rule ns_reach_inv [OF assms(3) ns_init_inv [OF assms(1,2)] assms(4,5)])
  show "ns_calls s t \<noteq> Joined key i" for t key i by (rule ns_invD(4) [OF inv])
  fix t key s'
  assume t: "ns_calls s t = Threw key" and r: "(ns_step std_hash compress decompress crc N)\<^sup>*\<^sup>* s s'"
  have "ns_calls s' t = Threw key"
    using r
  proof (induction rule: rtranclp_induct)
    case (step y z)
    from step.hyps(2) show ?case using step.IH by cases (auto split: if_splits)
  qed (rule t)
  then have "t \<in> holders s' key" by (simp add: holders_def)
  then show "key \<notin> fst ` nc_pairs (ns_cache s')"
    using ns_invD(3) [OF ns_reach_inv [OF r inv assms(4,5)]] by blast
qed

end
