(* ===== verification/Threads.thy ===== *)
theory Threads
  imports Prelude
begin

text \<open>
  The cooperative threads of \<open>gt/engine.cpp\<close>: the run queue, the states of the contexts and their counters.
  What \<open>gtswitch\<close> exchanges, stacks and registers, is not here: a switch changes who is current. A
  context is named by its handle in the pool of contexts (\<open>Slabs\<close>), and the idle context, which is
  a member of the engine, by \<open>None\<close>. The queues are lists (\<open>Slab_List\<close>).
\<close>

section \<open>The engine\<close>

type_synonym context_id = "u32 option"

datatype context_state = WAITING | RUNNING | SUSPENDED | TERMINATED

text \<open>The terminate callback is the job that is to be signalled, if any (\<open>gt/async.cpp\<close>).\<close>

record gt_context =
  cx_state :: context_state
  cx_is_user :: bool
  cx_terminate_callback :: "nat option"

record gt_engine =
  en_run_queue :: "context_id list"
  en_contexts :: "context_id \<rightharpoonup> gt_context"
  en_suspended_ctx :: u64
  en_user_ctx :: u64
  en_user_ctx_waiting :: u64
  en_current_ctx :: context_id
  en_terminated :: bool

abbreviation idle_ctx :: context_id where
  "idle_ctx \<equiv> None"

definition engine_start :: gt_engine where
  "engine_start = \<lparr>en_run_queue = [],
     en_contexts = [idle_ctx \<mapsto> \<lparr>cx_state = SUSPENDED, cx_is_user = False, cx_terminate_callback = None\<rparr>],
     en_suspended_ctx = 0, en_user_ctx = 0, en_user_ctx_waiting = 0, en_current_ctx = idle_ctx, en_terminated = False\<rparr>"

text \<open>A member of a context that a pointer refers to; a pointer to none is undefined.\<close>

definition en_get :: "context_id \<Rightarrow> gt_engine \<Rightarrow> gt_context res" where
  "en_get c e = (case en_contexts e c of None \<Rightarrow> Inl Undefined | Some x \<Rightarrow> Inr x)"

definition en_set_state :: "context_id \<Rightarrow> context_state \<Rightarrow> gt_engine \<Rightarrow> gt_engine res" where
  "en_set_state c st e =
     res_bind (en_get c e) (\<lambda>x. Inr (e\<lparr>en_contexts := (en_contexts e)(c \<mapsto> x\<lparr>cx_state := st\<rparr>)\<rparr>))"

definition en_enqueue :: "context_id \<Rightarrow> gt_engine \<Rightarrow> gt_engine res" where
  "en_enqueue c e =
     res_bind (en_get c e) (\<lambda>x.
       res_assert (cx_state x = SUSPENDED)
         (res_bind (en_set_state c WAITING e) (\<lambda>e.
            res_assert (en_suspended_ctx e \<noteq> 0)
              (let e = e\<lparr>en_suspended_ctx := en_suspended_ctx e - 1\<rparr>;
                   e = (if cx_is_user x then e\<lparr>en_user_ctx_waiting := en_user_ctx_waiting e + 1\<rparr> else e)
               in Inr (e\<lparr>en_run_queue := en_run_queue e @ [c]\<rparr>)))))"

definition en_suspend_current :: "bool \<Rightarrow> gt_engine \<Rightarrow> gt_engine res" where
  "en_suspend_current enqueue_ctx e =
     res_bind (en_set_state (en_current_ctx e) SUSPENDED e) (\<lambda>e.
       let e = e\<lparr>en_suspended_ctx := en_suspended_ctx e + 1\<rparr> in
       if enqueue_ctx then en_enqueue (en_current_ctx e) e else Inr e)"

definition en_switch_to_idle :: "bool \<Rightarrow> gt_engine \<Rightarrow> gt_engine res" where
  "en_switch_to_idle enqueue_ctx e =
     res_bind (en_suspend_current enqueue_ctx e) (\<lambda>e. Inr (e\<lparr>en_current_ctx := idle_ctx\<rparr>))"

text \<open>The second half of \<open>switch_to_next\<close>: the front of the run queue becomes the current context.\<close>

definition en_pop_next :: "gt_engine \<Rightarrow> gt_engine res" where
  "en_pop_next e = (case en_run_queue e of
      [] \<Rightarrow> Inl Undefined
    | c # cs \<Rightarrow>
        res_bind (en_set_state c RUNNING (e\<lparr>en_run_queue := cs, en_current_ctx := c\<rparr>)) (\<lambda>e.
        res_bind (en_get c e) (\<lambda>x.
          if cx_is_user x then
            res_assert (en_user_ctx_waiting e \<noteq> 0) (Inr (e\<lparr>en_user_ctx_waiting := en_user_ctx_waiting e - 1\<rparr>))
          else Inr e)))"

definition en_switch_to_next :: "bool \<Rightarrow> gt_engine \<Rightarrow> gt_engine res" where
  "en_switch_to_next enqueue_ctx e =
     res_bind (if en_current_ctx e \<noteq> idle_ctx then en_suspend_current enqueue_ctx e else Inr e) en_pop_next"

text \<open>\<open>yield\<close> up to the switch; the value is what the caller sees once it runs again.\<close>

definition en_yield :: "bool \<Rightarrow> gt_engine \<Rightarrow> (bool \<times> gt_engine) res" where
  "en_yield enqueue_ctx e =
     (if en_run_queue e = [] then
        if en_current_ctx e \<noteq> idle_ctx then
          res_bind (en_switch_to_idle enqueue_ctx e) (\<lambda>e. Inr (True, e))
        else Inr (en_suspended_ctx e \<noteq> 0, e)
      else res_bind (en_switch_to_next enqueue_ctx e) (\<lambda>e. Inr (True, e)))"

text \<open>\<open>h\<close> is the handle that the pool of contexts gives out.\<close>

definition en_create_context :: "u32 \<Rightarrow> bool \<Rightarrow> gt_engine \<Rightarrow> gt_engine res" where
  "en_create_context h is_user_ctx e =
     (let e = e\<lparr>en_contexts := (en_contexts e)(Some h \<mapsto>
                 \<lparr>cx_state = SUSPENDED, cx_is_user = is_user_ctx, cx_terminate_callback = None\<rparr>)\<rparr>;
          e = (if is_user_ctx then e\<lparr>en_user_ctx := en_user_ctx e + 1\<rparr> else e)
      in en_enqueue (Some h) (e\<lparr>en_suspended_ctx := en_suspended_ctx e + 1\<rparr>))"

definition en_set_terminate_callback :: "context_id \<Rightarrow> nat \<Rightarrow> gt_engine \<Rightarrow> gt_engine res" where
  "en_set_terminate_callback c f e =
     res_bind (en_get c e) (\<lambda>x.
       Inr (e\<lparr>en_contexts := (en_contexts e)(c \<mapsto> x\<lparr>cx_terminate_callback := Some f\<rparr>)\<rparr>))"

text \<open>
  The end of \<open>__start_thread\<close>, in two parts: up to the terminate callback, and after it, when the context
  is given back and the idle context goes on.
\<close>

definition en_thread_returned :: "gt_engine \<Rightarrow> (nat option \<times> gt_engine) res" where
  "en_thread_returned e =
     res_bind (en_set_state (en_current_ctx e) TERMINATED e) (\<lambda>e.
     res_bind (en_get (en_current_ctx e) e) (\<lambda>x. Inr (cx_terminate_callback x, e)))"

definition en_thread_gone :: "gt_engine \<Rightarrow> gt_engine res" where
  "en_thread_gone e =
     res_bind (en_get (en_current_ctx e) e) (\<lambda>x.
     res_bind (if cx_is_user x then res_assert (en_user_ctx e \<noteq> 0) (Inr (e\<lparr>en_user_ctx := en_user_ctx e - 1\<rparr>))
               else Inr e) (\<lambda>e.
       Inr (e\<lparr>en_contexts := (en_contexts e)(en_current_ctx e := None), en_current_ctx := idle_ctx\<rparr>)))"

definition en_terminate :: "gt_engine \<Rightarrow> gt_engine" where
  "en_terminate e = e\<lparr>en_terminated := True\<rparr>"

text \<open>A round of \<open>run\<close> after \<open>yield\<close> has come back to the idle context.\<close>

definition en_run_round :: "gt_engine \<Rightarrow> gt_engine" where
  "en_run_round e = (if en_user_ctx e = 0 then en_terminate e else e)"

section \<open>The states agree with the queue and the counters\<close>

definition in_state :: "gt_engine \<Rightarrow> context_state \<Rightarrow> context_id set" where
  "in_state e st = {c. c \<noteq> idle_ctx \<and> (\<exists>x. en_contexts e c = Some x \<and> cx_state x = st)}"

definition user_contexts :: "gt_engine \<Rightarrow> context_id set" where
  "user_contexts e = {c. c \<noteq> idle_ctx \<and> (\<exists>x. en_contexts e c = Some x \<and> cx_is_user x)}"

text \<open>\<open>en_counts\<close> is what holds at all times; \<open>en_inv\<close> what holds when no thread is inside the engine.\<close>

definition en_counts :: "gt_engine \<Rightarrow> bool" where
  "en_counts e \<longleftrightarrow> (\<exists>x. en_contexts e idle_ctx = Some x \<and> cx_state x = SUSPENDED \<and> \<not> cx_is_user x)
     \<and> distinct (en_run_queue e) \<and> set (en_run_queue e) = in_state e WAITING
     \<and> en_suspended_ctx e = of_nat (card (in_state e SUSPENDED)) \<and> en_user_ctx e = of_nat (card (user_contexts e))
     \<and> en_user_ctx_waiting e = of_nat (card (user_contexts e \<inter> in_state e WAITING))"

definition en_inv :: "gt_engine \<Rightarrow> bool" where
  "en_inv e \<longleftrightarrow> en_counts e \<and> in_state e RUNNING = {en_current_ctx e} - {idle_ctx} \<and> in_state e TERMINATED = {}"

lemma engine_start_inv: "en_inv engine_start"
proof -
  have "in_state engine_start st = {}" "user_contexts engine_start = {}" for st
    by (auto simp: in_state_def user_contexts_def engine_start_def)
  then show ?thesis by (simp add: en_inv_def en_counts_def) (simp add: engine_start_def)
qed

lemma finite_contexts [simp]: "finite (A :: context_id set)"
  by (rule finite)

lemma card_contexts: "card (A :: context_id set) < 2 ^ 33"
proof -
  have "card A \<le> CARD(context_id)" by (rule card_mono) simp_all
  also have "\<dots> < 2 ^ 33" by (simp add: card_option card_word)
  finally show ?thesis .
qed

lemma of_nat_card_0: "of_nat (card (A :: context_id set)) = (0 :: u64) \<longleftrightarrow> A = {}"
proof -
  have u: "unat (of_nat (card A) :: u64) = card A" using card_contexts [of A] by (simp add: unat_word_of_nat)
  show ?thesis
  proof
    assume "of_nat (card A) = (0 :: u64)"
    then have "card A = 0" using u by simp
    then show "A = {}" by simp
  qed simp
qed

lemma of_nat_card_remove:
  fixes A :: "context_id set"
  assumes "c \<in> A"
  shows "of_nat (card (A - {c})) = (of_nat (card A) - 1 :: u64)"
proof -
  have "card A = Suc (card (A - {c}))" using card.remove [OF _ assms] by simp
  then show ?thesis by simp
qed

section \<open>What the operations do to the sets\<close>

lemma in_state_set:
  assumes "en_contexts e c = Some x" "c \<noteq> idle_ctx"
  shows "in_state (e\<lparr>en_contexts := (en_contexts e)(c \<mapsto> x\<lparr>cx_state := st\<rparr>)\<rparr>) st'
      = (if st' = st then insert c (in_state e st') else in_state e st' - {c})"
    "user_contexts (e\<lparr>en_contexts := (en_contexts e)(c \<mapsto> x\<lparr>cx_state := st\<rparr>)\<rparr>) = user_contexts e"
  using assms by (auto simp: in_state_def user_contexts_def)

lemma in_state_other [simp]:
  "in_state (e\<lparr>en_run_queue := q\<rparr>) = in_state e" "user_contexts (e\<lparr>en_run_queue := q\<rparr>) = user_contexts e"
  "in_state (e\<lparr>en_suspended_ctx := n\<rparr>) = in_state e" "user_contexts (e\<lparr>en_suspended_ctx := n\<rparr>) = user_contexts e"
  "in_state (e\<lparr>en_user_ctx := n\<rparr>) = in_state e" "user_contexts (e\<lparr>en_user_ctx := n\<rparr>) = user_contexts e"
  "in_state (e\<lparr>en_user_ctx_waiting := n\<rparr>) = in_state e" "user_contexts (e\<lparr>en_user_ctx_waiting := n\<rparr>) = user_contexts e"
  "in_state (e\<lparr>en_current_ctx := d\<rparr>) = in_state e" "user_contexts (e\<lparr>en_current_ctx := d\<rparr>) = user_contexts e"
  "in_state (e\<lparr>en_terminated := t\<rparr>) = in_state e" "user_contexts (e\<lparr>en_terminated := t\<rparr>) = user_contexts e"
  by (simp_all add: in_state_def user_contexts_def fun_eq_iff)

text \<open>The contexts that exist, and what is kept of them by everything but their creation and their end.\<close>

definition callback_of :: "gt_engine \<Rightarrow> context_id \<Rightarrow> nat option" where
  "callback_of e c = (case en_contexts e c of None \<Rightarrow> None | Some x \<Rightarrow> cx_terminate_callback x)"

definition same_contexts :: "gt_engine \<Rightarrow> gt_engine \<Rightarrow> bool" where
  "same_contexts e e' \<longleftrightarrow> dom (en_contexts e') = dom (en_contexts e) \<and> user_contexts e' = user_contexts e
     \<and> callback_of e' = callback_of e"

lemma same_contexts_refl [simp]: "same_contexts e e"
  by (simp add: same_contexts_def)

lemma same_contexts_trans: "same_contexts a b \<Longrightarrow> same_contexts b c \<Longrightarrow> same_contexts a c"
  by (simp add: same_contexts_def)

lemma callback_other [simp]:
  "callback_of (e\<lparr>en_run_queue := q\<rparr>) = callback_of e" "callback_of (e\<lparr>en_suspended_ctx := n\<rparr>) = callback_of e"
  "callback_of (e\<lparr>en_user_ctx := n\<rparr>) = callback_of e" "callback_of (e\<lparr>en_user_ctx_waiting := n\<rparr>) = callback_of e"
  "callback_of (e\<lparr>en_current_ctx := d\<rparr>) = callback_of e"
  by (simp_all add: callback_of_def fun_eq_iff)

lemma same_contexts_set:
  assumes "en_contexts e c = Some x" "en_contexts e' = (en_contexts e)(c \<mapsto> x\<lparr>cx_state := st\<rparr>)"
  shows "same_contexts e e'"
  using assms by (auto simp: same_contexts_def callback_of_def user_contexts_def fun_eq_iff split: if_splits)

lemma en_enqueue_ok:
  assumes "en_counts e" "c \<in> in_state e SUSPENDED"
  obtains e' where "en_enqueue c e = Inr e'" "en_counts e'" "same_contexts e e'" "en_current_ctx e' = en_current_ctx e"
    "en_run_queue e' = en_run_queue e @ [c]" "in_state e' WAITING = insert c (in_state e WAITING)"
    "in_state e' SUSPENDED = in_state e SUSPENDED - {c}" "in_state e' RUNNING = in_state e RUNNING"
    "in_state e' TERMINATED = in_state e TERMINATED"
proof -
  obtain x where x: "en_contexts e c = Some x" "cx_state x = SUSPENDED" and c: "c \<noteq> idle_ctx"
    using assms(2) by (auto simp: in_state_def)
  let ?e1 = "e\<lparr>en_contexts := (en_contexts e)(c \<mapsto> x\<lparr>cx_state := WAITING\<rparr>)\<rparr>"
  have nw: "c \<notin> in_state e WAITING" "c \<notin> in_state e RUNNING" "c \<notin> in_state e TERMINATED" using x by (simp_all add: in_state_def)
  have us: "cx_is_user x \<longleftrightarrow> c \<in> user_contexts e" using x c by (simp add: user_contexts_def)
  note s = in_state_set [OF x(1) c]
  have z: "en_suspended_ctx e \<noteq> 0" using assms by (auto simp: en_counts_def of_nat_card_0)
  define e' where "e' = ?e1\<lparr>en_suspended_ctx := en_suspended_ctx e - 1, en_run_queue := en_run_queue e @ [c],
    en_user_ctx_waiting := (if cx_is_user x then en_user_ctx_waiting e + 1 else en_user_ctx_waiting e)\<rparr>"
  have en: "en_enqueue c e = Inr e'"
    using x z by (simp add: en_enqueue_def en_get_def en_set_state_def Let_def e'_def)
  have sets: "in_state e' WAITING = insert c (in_state e WAITING)" "in_state e' SUSPENDED = in_state e SUSPENDED - {c}"
    "in_state e' RUNNING = in_state e RUNNING" "in_state e' TERMINATED = in_state e TERMINATED" "user_contexts e' = user_contexts e"
    using nw by (simp_all add: e'_def s)
  have dq: "c \<notin> set (en_run_queue e)" using assms(1) nw(1) by (simp add: en_counts_def)
  have uw: "user_contexts e \<inter> insert c (in_state e WAITING)
      = (if cx_is_user x then insert c (user_contexts e \<inter> in_state e WAITING) else user_contexts e \<inter> in_state e WAITING)"
    using us by auto
  have cn: "of_nat (card (user_contexts e \<inter> insert c (in_state e WAITING)))
      = (if cx_is_user x then en_user_ctx_waiting e + 1 else en_user_ctx_waiting e)"
    using assms(1) nw(1) unfolding uw by (simp add: en_counts_def)
  have "en_counts e'"
    using assms dq c not_sym [OF c] of_nat_card_remove [OF assms(2)] unfolding en_counts_def sets cn by (simp add: e'_def)
  moreover have "same_contexts e e'"
    by (rule same_contexts_set [OF x(1)]) (simp add: e'_def)
  ultimately show thesis using that en sets by (simp add: e'_def)
qed

text \<open>The context that gives up the processor; \<open>b\<close> says whether it goes to the run queue.\<close>

lemma en_suspend_current_ok:
  assumes "en_inv e" "en_current_ctx e \<noteq> idle_ctx"
  obtains e' where "en_suspend_current b e = Inr e'" "en_counts e'" "same_contexts e e'" "en_current_ctx e' = en_current_ctx e"
    "en_run_queue e' = en_run_queue e @ (if b then [en_current_ctx e] else [])"
    "in_state e' SUSPENDED = in_state e SUSPENDED \<union> (if b then {} else {en_current_ctx e})"
    "in_state e' RUNNING = {}" "in_state e' TERMINATED = {}"
proof -
  let ?c = "en_current_ctx e"
  have r: "?c \<in> in_state e RUNNING" and cn: "en_counts e" and tm: "in_state e TERMINATED = {}" and rs: "in_state e RUNNING = {?c}"
    using assms by (auto simp: en_inv_def)
  obtain x where x: "en_contexts e ?c = Some x" "cx_state x = RUNNING" using r by (auto simp: in_state_def)
  let ?e1 = "e\<lparr>en_contexts := (en_contexts e)(?c \<mapsto> x\<lparr>cx_state := SUSPENDED\<rparr>), en_suspended_ctx := en_suspended_ctx e + 1\<rparr>"
  have ns: "?c \<notin> in_state e SUSPENDED" "?c \<notin> in_state e WAITING" using x by (simp_all add: in_state_def)
  note s = in_state_set [OF x(1) assms(2)]
  have sets: "in_state ?e1 SUSPENDED = insert ?c (in_state e SUSPENDED)" "in_state ?e1 WAITING = in_state e WAITING"
    "in_state ?e1 RUNNING = {}" "in_state ?e1 TERMINATED = {}" "user_contexts ?e1 = user_contexts e"
    using ns tm rs by (simp_all add: s)
  have cn1: "en_counts ?e1"
    using cn ns assms(2) not_sym [OF assms(2)] unfolding en_counts_def sets by simp
  have sm: "same_contexts e ?e1" by (rule same_contexts_set [OF x(1)]) simp
  have su: "en_suspend_current b e = (if b then en_enqueue ?c ?e1 else Inr ?e1)"
    using x by (simp add: en_suspend_current_def en_set_state_def en_get_def Let_def)
  show thesis
  proof (cases b)
    case False
    then show thesis using that [of ?e1] su cn1 sm sets by simp
  next
    case True
    have "?c \<in> in_state ?e1 SUSPENDED" by (simp only: sets) simp
    from en_enqueue_ok [OF cn1 this] obtain e' where e': "en_enqueue ?c ?e1 = Inr e'" "en_counts e'" "same_contexts ?e1 e'"
      "en_current_ctx e' = en_current_ctx ?e1" "en_run_queue e' = en_run_queue ?e1 @ [?c]"
      "in_state e' SUSPENDED = in_state ?e1 SUSPENDED - {?c}" "in_state e' RUNNING = in_state ?e1 RUNNING"
      "in_state e' TERMINATED = in_state ?e1 TERMINATED" by metis
    show thesis
    proof (rule that)
      show "en_suspend_current b e = Inr e'" using su True e'(1) by simp
      show "same_contexts e e'" by (rule same_contexts_trans [OF sm e'(3)])
      show "in_state e' SUSPENDED = in_state e SUSPENDED \<union> (if b then {} else {?c})" 
        using ns(1) True unfolding e'(6) sets by simp
      show "in_state e' RUNNING = {}" "in_state e' TERMINATED = {}" using e'(7,8) sets by simp_all
    qed (use e' True in simp_all)
  qed
qed

lemma en_pop_next_ok:
  assumes "en_counts e" "en_run_queue e = c # cs" "in_state e RUNNING = {}" "in_state e TERMINATED = {}"
  obtains e' where "en_pop_next e = Inr e'" "en_inv e'" "same_contexts e e'" "en_current_ctx e' = c" "en_run_queue e' = cs"
    "in_state e' SUSPENDED = in_state e SUSPENDED"
proof -
  have cw: "c \<in> in_state e WAITING" and dq: "distinct (c # cs)" and qs: "insert c (set cs) = in_state e WAITING"
    using assms(1,2) by (auto simp: en_counts_def)
  obtain x where x: "en_contexts e c = Some x" "cx_state x = WAITING" and c: "c \<noteq> idle_ctx" using cw by (auto simp: in_state_def)
  have us: "cx_is_user x \<longleftrightarrow> c \<in> user_contexts e" using x c by (simp add: user_contexts_def)
  note s = in_state_set [OF x(1) c]
  have z: "en_user_ctx_waiting e \<noteq> 0" if "cx_is_user x"
  proof -
    have "user_contexts e \<inter> in_state e WAITING \<noteq> {}" using that us cw by blast
    then show ?thesis using assms(1) by (simp add: en_counts_def of_nat_card_0)
  qed
  define e' where "e' = e\<lparr>en_contexts := (en_contexts e)(c \<mapsto> x\<lparr>cx_state := RUNNING\<rparr>), en_run_queue := cs, en_current_ctx := c,
    en_user_ctx_waiting := (if cx_is_user x then en_user_ctx_waiting e - 1 else en_user_ctx_waiting e)\<rparr>"
  have pn: "en_pop_next e = Inr e'"
    using x z assms(2) by (simp add: en_pop_next_def en_set_state_def en_get_def e'_def)
  have nc: "c \<notin> in_state e SUSPENDED" using x by (simp add: in_state_def)
  have sets: "in_state e' WAITING = set cs" "in_state e' SUSPENDED = in_state e SUSPENDED" "in_state e' RUNNING = {c}"
    "in_state e' TERMINATED = {}" "user_contexts e' = user_contexts e"
    using nc assms(3,4) dq by (auto simp: e'_def s qs [symmetric])
  have uw: "user_contexts e \<inter> set cs = user_contexts e \<inter> in_state e WAITING - {c}" using qs dq by auto
  have "of_nat (card (user_contexts e \<inter> set cs)) = en_user_ctx_waiting e'"
  proof (cases "cx_is_user x")
    case True
    then have "c \<in> user_contexts e \<inter> in_state e WAITING" using us cw by simp
    from of_nat_card_remove [OF this] show ?thesis using True assms(1) unfolding uw by (simp add: e'_def en_counts_def)
  next
    case False
    then have "user_contexts e \<inter> in_state e WAITING - {c} = user_contexts e \<inter> in_state e WAITING" using us by blast
    then show ?thesis using False assms(1) unfolding uw by (simp add: e'_def en_counts_def)
  qed
  then have "en_counts e'" using assms(1) dq c not_sym [OF c] unfolding en_counts_def sets by (simp add: e'_def)
  then have "en_inv e'" using sets not_sym [OF c] unfolding en_inv_def sets by (simp add: e'_def)
  moreover have "same_contexts e e'"
    by (rule same_contexts_set [OF x(1)]) (simp add: e'_def)
  ultimately show thesis using that pn sets by (simp add: e'_def)
qed

text \<open>
  \<open>yield\<close> never fails. With the current context \<open>c\<close> put at the end of the queue where it is to be, the front
  of the old queue runs next; when there was none, the idle context does.
\<close>

lemma en_yield_ok:
  assumes "en_inv e" "en_current_ctx e \<noteq> idle_ctx"
  obtains e' where "en_yield b e = Inr (True, e')" "en_inv e'" "same_contexts e e'"
    "en_current_ctx e' = (if en_run_queue e = [] then idle_ctx else hd (en_run_queue e))"
    "en_run_queue e' = tl (en_run_queue e) @ (if b then [en_current_ctx e] else [])"
    "in_state e' SUSPENDED = in_state e SUSPENDED \<union> (if b then {} else {en_current_ctx e})"
proof -
  from en_suspend_current_ok [OF assms, of b] obtain e1 where e1: "en_suspend_current b e = Inr e1" "en_counts e1"
    "same_contexts e e1" "en_current_ctx e1 = en_current_ctx e"
    "en_run_queue e1 = en_run_queue e @ (if b then [en_current_ctx e] else [])"
    "in_state e1 SUSPENDED = in_state e SUSPENDED \<union> (if b then {} else {en_current_ctx e})"
    "in_state e1 RUNNING = {}" "in_state e1 TERMINATED = {}" by metis
  show thesis
  proof (cases "en_run_queue e")
    case Nil
    have "en_yield b e = Inr (True, e1\<lparr>en_current_ctx := idle_ctx\<rparr>)"
      using Nil assms(2) e1(1) by (simp add: en_yield_def en_switch_to_idle_def)
    moreover have "en_inv (e1\<lparr>en_current_ctx := idle_ctx\<rparr>)" using e1 by (simp add: en_inv_def en_counts_def)
    moreover have "same_contexts e (e1\<lparr>en_current_ctx := idle_ctx\<rparr>)" using e1(3) by (simp add: same_contexts_def)
    ultimately show thesis using that [of "e1\<lparr>en_current_ctx := idle_ctx\<rparr>"] Nil e1 by simp
  next
    case (Cons c cs)
    have q: "en_run_queue e1 = c # (cs @ (if b then [en_current_ctx e] else []))" using Cons e1(5) by simp
    from en_pop_next_ok [OF e1(2) q e1(7,8)] obtain e2 where e2: "en_pop_next e1 = Inr e2" "en_inv e2" "same_contexts e1 e2"
      "en_current_ctx e2 = c" "en_run_queue e2 = cs @ (if b then [en_current_ctx e] else [])"
      "in_state e2 SUSPENDED = in_state e1 SUSPENDED" by metis
    have y: "en_yield b e = Inr (True, e2)"
      using Cons assms(2) e1(1) e2(1) by (simp add: en_yield_def en_switch_to_next_def)
    show thesis
      by (rule that [OF y e2(2) same_contexts_trans [OF e1(3) e2(3)]]) (use Cons e1(6) e2 in simp_all)
  qed
qed

lemma en_yield_idle:
  assumes "en_inv e" "en_current_ctx e = idle_ctx"
  obtains e' where "en_yield b e = Inr (en_run_queue e \<noteq> [] \<or> en_suspended_ctx e \<noteq> 0, e')" "en_inv e'" "same_contexts e e'"
    "en_current_ctx e' = (if en_run_queue e = [] then idle_ctx else hd (en_run_queue e))"
    "en_run_queue e' = tl (en_run_queue e)" "in_state e' SUSPENDED = in_state e SUSPENDED"
proof (cases "en_run_queue e")
  case Nil
  then show thesis using that [of e] assms by (simp add: en_yield_def)
next
  case (Cons c cs)
  have st: "en_counts e" "in_state e RUNNING = {}" "in_state e TERMINATED = {}" using assms by (auto simp: en_inv_def)
  from en_pop_next_ok [OF st(1) Cons st(2,3)] obtain e2 where e2: "en_pop_next e = Inr e2" "en_inv e2" "same_contexts e e2"
    "en_current_ctx e2 = c" "en_run_queue e2 = cs" "in_state e2 SUSPENDED = in_state e SUSPENDED" by metis
  have "en_yield b e = Inr (True, e2)" using Cons assms(2) e2(1) by (simp add: en_yield_def en_switch_to_next_def)
  then show thesis using that [of e2] Cons e2 by simp
qed

text \<open>A new thread waits at the end of the run queue.\<close>

lemma en_create_context_ok:
  assumes "en_inv e" "en_contexts e (Some h) = None"
  obtains e' where "en_create_context h u e = Inr e'" "en_inv e'" "en_current_ctx e' = en_current_ctx e"
    "en_run_queue e' = en_run_queue e @ [Some h]" "in_state e' SUSPENDED = in_state e SUSPENDED"
    "dom (en_contexts e') = insert (Some h) (dom (en_contexts e))" "callback_of e' = callback_of e"
proof -
  define e1 where "e1 = e\<lparr>en_contexts := (en_contexts e)(Some h \<mapsto>
      \<lparr>cx_state = SUSPENDED, cx_is_user = u, cx_terminate_callback = None\<rparr>),
    en_user_ctx := (if u then en_user_ctx e + 1 else en_user_ctx e), en_suspended_ctx := en_suspended_ctx e + 1\<rparr>"
  have sets: "in_state e1 SUSPENDED = insert (Some h) (in_state e SUSPENDED)" "in_state e1 WAITING = in_state e WAITING"
    "in_state e1 RUNNING = in_state e RUNNING" "in_state e1 TERMINATED = in_state e TERMINATED"
    "user_contexts e1 = (if u then insert (Some h) (user_contexts e) else user_contexts e)"
    using assms(2) by (auto simp: in_state_def user_contexts_def e1_def)
  have new: "Some h \<notin> in_state e SUSPENDED" "Some h \<notin> in_state e WAITING" "Some h \<notin> user_contexts e"
    using assms(2) by (simp_all add: in_state_def user_contexts_def)
  have uw: "user_contexts e1 \<inter> in_state e1 WAITING = user_contexts e \<inter> in_state e WAITING" using new by (simp add: sets)
  have cn: "en_counts e1"
    using assms(1) new unfolding en_counts_def en_inv_def uw unfolding sets by (simp add: e1_def)
  have "Some h \<in> in_state e1 SUSPENDED" by (simp add: sets)
  from en_enqueue_ok [OF cn this] obtain e' where e': "en_enqueue (Some h) e1 = Inr e'" "en_counts e'" "same_contexts e1 e'"
    "en_current_ctx e' = en_current_ctx e1" "en_run_queue e' = en_run_queue e1 @ [Some h]"
    "in_state e' SUSPENDED = in_state e1 SUSPENDED - {Some h}" "in_state e' RUNNING = in_state e1 RUNNING"
    "in_state e' TERMINATED = in_state e1 TERMINATED" by metis
  show thesis
  proof (rule that)
    show "en_create_context h u e = Inr e'" 
      using e'(1) by (cases e; cases u) (simp_all add: en_create_context_def Let_def e1_def)
    show "en_inv e'" using assms(1) e'(2) unfolding en_inv_def e'(4,7,8) sets by (simp add: e1_def)
    show "in_state e' SUSPENDED = in_state e SUSPENDED" using new unfolding e'(6) sets by simp
    show "dom (en_contexts e') = insert (Some h) (dom (en_contexts e))" using e'(3) by (simp add: same_contexts_def e1_def)
    show "callback_of e' = callback_of e"
      using e'(3) assms(2) by (auto simp: same_contexts_def e1_def callback_of_def fun_eq_iff)
  qed (use e' in \<open>simp_all add: e1_def\<close>)
qed

lemma en_set_terminate_callback_ok:
  assumes "en_inv e" "c \<in> dom (en_contexts e)"
  obtains e' where "en_set_terminate_callback c f e = Inr e'" "en_inv e'" "en_current_ctx e' = en_current_ctx e"
    "en_run_queue e' = en_run_queue e" "in_state e' = in_state e" "dom (en_contexts e') = dom (en_contexts e)"
    "callback_of e' = (callback_of e)(c := Some f)"
proof -
  obtain x where x: "en_contexts e c = Some x" using assms(2) by blast
  let ?e = "e\<lparr>en_contexts := (en_contexts e)(c \<mapsto> x\<lparr>cx_terminate_callback := Some f\<rparr>)\<rparr>"
  have s: "in_state ?e = in_state e" "user_contexts ?e = user_contexts e"
    using x by (auto simp: in_state_def user_contexts_def fun_eq_iff)
  have i: "(\<exists>y. en_contexts ?e idle_ctx = Some y \<and> cx_state y = SUSPENDED \<and> \<not> cx_is_user y)
      = (\<exists>y. en_contexts e idle_ctx = Some y \<and> cx_state y = SUSPENDED \<and> \<not> cx_is_user y)"
    using x by auto
  show thesis
    by (rule that [of ?e]) (use x assms s i in \<open>simp_all add: en_set_terminate_callback_def en_get_def en_inv_def en_counts_def
        callback_of_def fun_eq_iff insert_absorb domI del: fun_upd_apply\<close>, use x in \<open>simp_all add: callback_of_def\<close>)
qed

text \<open>A thread that has returned and is about to be given back.\<close>

definition en_ending :: "gt_engine \<Rightarrow> bool" where
  "en_ending e \<longleftrightarrow> en_counts e \<and> in_state e RUNNING = {} \<and> in_state e TERMINATED = {en_current_ctx e}"

lemma en_thread_returned_ok:
  assumes "en_inv e" "en_current_ctx e \<noteq> idle_ctx"
  obtains e' where "en_thread_returned e = Inr (callback_of e (en_current_ctx e), e')" "en_ending e'"
    "en_current_ctx e' = en_current_ctx e" "en_run_queue e' = en_run_queue e"
    "in_state e' SUSPENDED = in_state e SUSPENDED" "same_contexts e e'"
proof -
  let ?c = "en_current_ctx e"
  have r: "?c \<in> in_state e RUNNING" and rs: "in_state e RUNNING = {?c}" and tm: "in_state e TERMINATED = {}"
    using assms by (auto simp: en_inv_def)
  obtain x where x: "en_contexts e ?c = Some x" "cx_state x = RUNNING" using r by (auto simp: in_state_def)
  let ?e = "e\<lparr>en_contexts := (en_contexts e)(?c \<mapsto> x\<lparr>cx_state := TERMINATED\<rparr>)\<rparr>"
  have n: "?c \<notin> in_state e SUSPENDED" "?c \<notin> in_state e WAITING" using x by (simp_all add: in_state_def)
  note s = in_state_set [OF x(1) assms(2)]
  have sets: "in_state ?e SUSPENDED = in_state e SUSPENDED" "in_state ?e WAITING = in_state e WAITING"
    "in_state ?e RUNNING = {}" "in_state ?e TERMINATED = {?c}" "user_contexts ?e = user_contexts e"
    using n rs tm by (simp_all add: s)
  have "en_ending ?e"
    using assms not_sym [OF assms(2)] unfolding en_ending_def en_inv_def en_counts_def sets by simp
  moreover have "en_thread_returned e = Inr (callback_of e ?c, ?e)"
    using x by (simp add: en_thread_returned_def en_set_state_def en_get_def callback_of_def)
  moreover have "same_contexts e ?e" by (rule same_contexts_set [OF x(1)]) simp
  ultimately show thesis using that [of ?e] sets by simp
qed

lemma en_thread_gone_ok:
  assumes "en_ending e"
  obtains e' where "en_thread_gone e = Inr e'" "en_inv e'" "en_current_ctx e' = idle_ctx" "en_run_queue e' = en_run_queue e"
    "in_state e' SUSPENDED = in_state e SUSPENDED" "dom (en_contexts e') = dom (en_contexts e) - {en_current_ctx e}"
    "callback_of e' = (callback_of e)(en_current_ctx e := None)"
proof -
  let ?c = "en_current_ctx e"
  have cn: "en_counts e" and t: "in_state e TERMINATED = {?c}" using assms by (simp_all add: en_ending_def)
  obtain x where x: "en_contexts e ?c = Some x" "cx_state x = TERMINATED" and c: "?c \<noteq> idle_ctx"
    using insertI1 [of ?c "{}"] unfolding t [symmetric] by (auto simp: in_state_def)
  have us: "cx_is_user x \<longleftrightarrow> ?c \<in> user_contexts e" using x c by (simp add: user_contexts_def)
  define e' where "e' = e\<lparr>en_user_ctx := (if cx_is_user x then en_user_ctx e - 1 else en_user_ctx e),
    en_contexts := (en_contexts e)(?c := None), en_current_ctx := idle_ctx\<rparr>"
  have z: "cx_is_user x \<Longrightarrow> en_user_ctx e \<noteq> 0" using us cn by (auto simp: en_counts_def of_nat_card_0)
  have n: "?c \<notin> in_state e st" if "st \<noteq> TERMINATED" for st using x that by (simp add: in_state_def)
  have "in_state e' st = in_state e st - {?c}" for st by (auto simp: in_state_def e'_def)
  then have sets: "st \<noteq> TERMINATED \<Longrightarrow> in_state e' st = in_state e st" "in_state e' TERMINATED = {}" for st
    using n [of st] t by auto
  have u: "user_contexts e' = user_contexts e - {?c}" by (auto simp: user_contexts_def e'_def)
  have "of_nat (card (user_contexts e - {?c})) = en_user_ctx e'"
  proof (cases "cx_is_user x")
    case True
    then show ?thesis using us cn of_nat_card_remove [of ?c "user_contexts e"] by (simp add: e'_def en_counts_def)
  next
    case False
    then have "user_contexts e - {?c} = user_contexts e" using us by blast
    then show ?thesis using False cn by (simp add: e'_def en_counts_def)
  qed
  moreover have "(user_contexts e - {?c}) \<inter> in_state e WAITING = user_contexts e \<inter> in_state e WAITING" using n by auto
  ultimately have "en_counts e'" using cn c sets not_sym [OF c] unfolding en_counts_def u by (simp add: e'_def)
  then have "en_inv e'" using assms unfolding en_inv_def en_ending_def by (simp add: sets) (simp add: e'_def)
  moreover have "en_thread_gone e = Inr e'" using x z by (simp add: en_thread_gone_def en_get_def e'_def)
  moreover have "callback_of e' = (callback_of e)(?c := None)" by (simp add: callback_of_def e'_def fun_eq_iff)
  ultimately show thesis using that [of e'] sets by (simp add: e'_def)
qed

end
