(* ===== verification/Thread_Sync.thy ===== *)
theory Thread_Sync
  imports Threads
begin

text \<open>
  What cooperative threads wait on: \<open>gt/condition.cpp\<close>, \<open>gt/mutex.cpp\<close>, the jobs of \<open>gt/async.cpp\<close>, the flow
  control of \<open>io/queue_flow.cpp\<close> and the requests of \<open>io/io_uring.cpp\<close>, and the system of all of them over one engine. An operation runs up to the
  switch inside it; the place where a thread is suspended says how it goes on.
\<close>

section \<open>Conditions\<close>

type_synonym context_queue = "context_id list"

definition cond_wait :: "context_queue \<Rightarrow> gt_engine \<Rightarrow> (context_queue \<times> gt_engine) res" where
  "cond_wait q e = (let q = q @ [en_current_ctx e] in res_bind (en_yield False e) (\<lambda>(_, e). Inr (q, e)))"

definition cond_signal :: "context_queue \<Rightarrow> gt_engine \<Rightarrow> (context_queue \<times> gt_engine) res" where
  "cond_signal q e = (case q of [] \<Rightarrow> Inr ([], e) | c # cs \<Rightarrow> res_bind (en_enqueue c e) (\<lambda>e. Inr (cs, e)))"

fun cond_signal_all :: "context_queue \<Rightarrow> gt_engine \<Rightarrow> (context_queue \<times> gt_engine) res" where
  "cond_signal_all [] e = Inr ([], e)"
| "cond_signal_all (c # cs) e = res_bind (en_enqueue c e) (cond_signal_all cs)"

section \<open>The mutex\<close>

text \<open>\<open>None\<close> is the null pointer.\<close>

record gt_mutex =
  mx_owner :: "context_id option"
  mx_wait_queue :: context_queue

text \<open>\<open>lock\<close> returns at once, or the thread is suspended in it; \<open>mutex_woken\<close> is what it does when it runs again.\<close>

definition mutex_lock :: "gt_mutex \<Rightarrow> gt_engine \<Rightarrow> (bool \<times> gt_mutex \<times> gt_engine) res" where
  "mutex_lock m e =
     (if mx_owner m = None then Inr (True, m\<lparr>mx_owner := Some (en_current_ctx e)\<rparr>, e)
      else let m = m\<lparr>mx_wait_queue := mx_wait_queue m @ [en_current_ctx e]\<rparr>
           in res_bind (en_yield False e) (\<lambda>(_, e). Inr (False, m, e)))"

definition mutex_woken :: "gt_mutex \<Rightarrow> gt_engine \<Rightarrow> gt_mutex res" where
  "mutex_woken m e = res_assert (mx_owner m = None) (Inr (m\<lparr>mx_owner := Some (en_current_ctx e)\<rparr>))"

definition mutex_unlock :: "gt_mutex \<Rightarrow> gt_engine \<Rightarrow> (gt_mutex \<times> gt_engine) res" where
  "mutex_unlock m e =
     res_assert (mx_owner m = Some (en_current_ctx e))
       (let m = m\<lparr>mx_owner := None\<rparr> in
        case mx_wait_queue m of
          [] \<Rightarrow> Inr (m, e)
        | c # cs \<Rightarrow> res_bind (en_enqueue c e) (\<lambda>e. Inr (m\<lparr>mx_wait_queue := cs\<rparr>, e)))"

section \<open>The flow control of a queue\<close>

record queue_flow =
  qf_queue_size :: u32
  qf_enqueued :: u32
  qf_cond :: context_queue

text \<open>The loop of \<open>acquire\<close> from its test to its return or to the next suspension, after which it tests again.\<close>

definition flow_acquire :: "queue_flow \<Rightarrow> gt_engine \<Rightarrow> (bool \<times> queue_flow \<times> gt_engine) res" where
  "flow_acquire f e =
     (if qf_enqueued f = qf_queue_size f then
        res_bind (cond_wait (qf_cond f) e) (\<lambda>(q, e). Inr (False, f\<lparr>qf_cond := q\<rparr>, e))
      else Inr (True, f\<lparr>qf_enqueued := qf_enqueued f + 1\<rparr>, e))"

definition flow_release :: "u32 \<Rightarrow> queue_flow \<Rightarrow> gt_engine \<Rightarrow> (queue_flow \<times> gt_engine) res" where
  "flow_release n f e =
     res_assert (n \<le> qf_enqueued f)
       (let f = f\<lparr>qf_enqueued := qf_enqueued f - n\<rparr> in
        res_bind (cond_signal_all (qf_cond f) e) (\<lambda>(q, e). Inr (f\<lparr>qf_cond := q\<rparr>, e)))"

section \<open>Jobs\<close>

record gt_job =
  jb_wait_queue :: context_queue
  jb_done :: bool

definition job_new :: gt_job where
  "job_new = \<lparr>jb_wait_queue = [], jb_done = False\<rparr>"

text \<open>\<open>j\<close> is the job itself, for the callback of the new thread \<open>h\<close>.\<close>

definition job_run :: "u32 \<Rightarrow> nat \<Rightarrow> gt_job \<Rightarrow> gt_engine \<Rightarrow> (gt_job \<times> gt_engine) res" where
  "job_run h j jb e =
     (let jb = jb\<lparr>jb_done := False\<rparr> in
      res_bind (en_create_context h True e) (\<lambda>e.
      res_bind (en_set_terminate_callback (Some h) j e) (\<lambda>e. Inr (jb, e))))"

definition job_wait :: "gt_job \<Rightarrow> gt_engine \<Rightarrow> (bool \<times> gt_job \<times> gt_engine) res" where
  "job_wait jb e =
     (if jb_done jb then Inr (True, jb, e)
      else let jb = jb\<lparr>jb_wait_queue := jb_wait_queue jb @ [en_current_ctx e]\<rparr>
           in res_bind (en_yield False e) (\<lambda>(_, e). Inr (False, jb, e)))"

definition job_signal :: "gt_job \<Rightarrow> gt_engine \<Rightarrow> (gt_job \<times> gt_engine) res" where
  "job_signal jb e =
     (let jb = jb\<lparr>jb_done := True\<rparr> in
      res_bind (cond_signal_all (jb_wait_queue jb) e) (\<lambda>(q, e). Inr (jb\<lparr>jb_wait_queue := q\<rparr>, e)))"

section \<open>The system\<close>

text \<open>Where a thread is suspended, or has been woken and not yet run: in a \<open>wait\<close>, a \<open>lock\<close>, an \<open>acquire\<close>, or in
  \<open>jobs::wait\<close> with the jobs that are left, or in \<open>io::wait_for\<close> for a request. The conditions, mutexes, flows and
  jobs are numbered.\<close>

datatype thread_pc = Outside | In_Wait nat | In_Lock nat | In_Acquire nat | In_Join "nat list" | In_IO

text \<open>The idle context calls \<open>run\<close>, which is always in its \<open>yield\<close> when a thread runs.\<close>

datatype run_pc = Not_Started | In_Yield | Run_Ended

text \<open>\<open>sy_requests\<close> are the contexts of the requests that are submitted and not completed: the kernel has them, the
  program knows each from the \<open>context\<close> of its request only.\<close>

record system =
  sy_engine :: gt_engine
  sy_conditions :: "nat \<Rightarrow> context_queue"
  sy_mutexes :: "nat \<Rightarrow> gt_mutex"
  sy_flows :: "nat \<Rightarrow> queue_flow"
  sy_jobs :: "nat \<Rightarrow> gt_job"
  sy_requests :: context_queue
  sy_pc :: "context_id \<Rightarrow> thread_pc"
  sy_run :: run_pc

abbreviation sy_current :: "system \<Rightarrow> context_id" where
  "sy_current s \<equiv> en_current_ctx (sy_engine s)"

definition system_start :: "(nat \<Rightarrow> u32) \<Rightarrow> system" where
  "system_start sizes = \<lparr>sy_engine = engine_start, sy_conditions = (\<lambda>_. []),
     sy_mutexes = (\<lambda>_. \<lparr>mx_owner = None, mx_wait_queue = []\<rparr>),
     sy_flows = (\<lambda>f. \<lparr>qf_queue_size = sizes f, qf_enqueued = 0, qf_cond = []\<rparr>),
     sy_jobs = (\<lambda>_. job_new), sy_requests = [], sy_pc = (\<lambda>_. Outside), sy_run = Not_Started\<rparr>"

text \<open>The current context goes on at \<open>p\<close> once it runs again.\<close>

definition sy_goto :: "thread_pc \<Rightarrow> system \<Rightarrow> system" where
  "sy_goto p s = s\<lparr>sy_pc := (sy_pc s)(sy_current s := p)\<rparr>"

definition sy_wait :: "nat \<Rightarrow> system \<Rightarrow> system res" where
  "sy_wait k s = res_bind (cond_wait (sy_conditions s k) (sy_engine s)) (\<lambda>(q, e).
     Inr ((sy_goto (In_Wait k) s)\<lparr>sy_conditions := (sy_conditions s)(k := q), sy_engine := e\<rparr>))"

definition sy_signal :: "nat \<Rightarrow> system \<Rightarrow> system res" where
  "sy_signal k s = res_bind (cond_signal (sy_conditions s k) (sy_engine s)) (\<lambda>(q, e).
     Inr (s\<lparr>sy_conditions := (sy_conditions s)(k := q), sy_engine := e\<rparr>))"

definition sy_signal_all :: "nat \<Rightarrow> system \<Rightarrow> system res" where
  "sy_signal_all k s = res_bind (cond_signal_all (sy_conditions s k) (sy_engine s)) (\<lambda>(q, e).
     Inr (s\<lparr>sy_conditions := (sy_conditions s)(k := q), sy_engine := e\<rparr>))"

definition sy_lock :: "nat \<Rightarrow> system \<Rightarrow> system res" where
  "sy_lock m s = res_bind (mutex_lock (sy_mutexes s m) (sy_engine s)) (\<lambda>(got, mx, e).
     Inr ((sy_goto (if got then Outside else In_Lock m) s)\<lparr>sy_mutexes := (sy_mutexes s)(m := mx), sy_engine := e\<rparr>))"

definition sy_locked :: "nat \<Rightarrow> system \<Rightarrow> system res" where
  "sy_locked m s = res_bind (mutex_woken (sy_mutexes s m) (sy_engine s)) (\<lambda>mx.
     Inr ((sy_goto Outside s)\<lparr>sy_mutexes := (sy_mutexes s)(m := mx)\<rparr>))"

definition sy_unlock :: "nat \<Rightarrow> system \<Rightarrow> system res" where
  "sy_unlock m s = res_bind (mutex_unlock (sy_mutexes s m) (sy_engine s)) (\<lambda>(mx, e).
     Inr (s\<lparr>sy_mutexes := (sy_mutexes s)(m := mx), sy_engine := e\<rparr>))"

definition sy_acquire :: "nat \<Rightarrow> system \<Rightarrow> system res" where
  "sy_acquire f s = res_bind (flow_acquire (sy_flows s f) (sy_engine s)) (\<lambda>(got, qf, e).
     Inr ((sy_goto (if got then Outside else In_Acquire f) s)\<lparr>sy_flows := (sy_flows s)(f := qf), sy_engine := e\<rparr>))"

definition sy_release :: "nat \<Rightarrow> u32 \<Rightarrow> system \<Rightarrow> system res" where
  "sy_release f n s = res_bind (flow_release n (sy_flows s f) (sy_engine s)) (\<lambda>(qf, e).
     Inr (s\<lparr>sy_flows := (sy_flows s)(f := qf), sy_engine := e\<rparr>))"

definition sy_run_job :: "u32 \<Rightarrow> nat \<Rightarrow> system \<Rightarrow> system res" where
  "sy_run_job h j s = res_bind (job_run h j (sy_jobs s j) (sy_engine s)) (\<lambda>(jb, e).
     Inr (s\<lparr>sy_jobs := (sy_jobs s)(j := jb), sy_engine := e\<rparr>))"

text \<open>\<open>jobs::wait\<close>, the jobs being a list of numbers; suspended in the first, it goes on at \<open>sy_joined\<close>.\<close>

fun sy_join :: "nat list \<Rightarrow> system \<Rightarrow> system res" where
  "sy_join [] s = Inr (sy_goto Outside s)"
| "sy_join (j # js) s = res_bind (job_wait (sy_jobs s j) (sy_engine s)) (\<lambda>(finished, jb, e).
     if finished then sy_join js s
     else Inr ((sy_goto (In_Join (j # js)) s)\<lparr>sy_jobs := (sy_jobs s)(j := jb), sy_engine := e\<rparr>))"

fun sy_joined :: "nat list \<Rightarrow> system \<Rightarrow> system res" where
  "sy_joined [] s = sy_join [] s"
| "sy_joined (j # js) s = res_assert (jb_done (sy_jobs s j)) (sy_join js s)"

text \<open>\<open>__start_thread\<close> once the function of the thread has returned.\<close>

definition sy_thread_end :: "system \<Rightarrow> system res" where
  "sy_thread_end s = res_bind (en_thread_returned (sy_engine s)) (\<lambda>(cb, e).
     res_bind (case cb of
         None \<Rightarrow> Inr (s\<lparr>sy_engine := e\<rparr>)
       | Some j \<Rightarrow> res_bind (job_signal (sy_jobs s j) e) (\<lambda>(jb, e).
           Inr (s\<lparr>sy_jobs := (sy_jobs s)(j := jb), sy_engine := e\<rparr>))) (\<lambda>s.
     res_bind (en_thread_gone (sy_engine s)) (\<lambda>e. Inr (s\<lparr>sy_engine := e\<rparr>))))"

text \<open>
  \<open>io::wait_for\<close> suspends the thread of a request, which no queue of the program holds then; the thread of the ring
  enqueues it when the kernel has completed the request, in any order. Before, \<open>get_sqe\<close> acquires the flow of the
  ring, and after a round its thread releases what it has taken: these are \<open>sy_acquire\<close> and \<open>sy_release\<close>.
\<close>

definition sy_submit :: "system \<Rightarrow> system res" where
  "sy_submit s = (let q = sy_requests s @ [sy_current s] in
     res_bind (en_yield False (sy_engine s)) (\<lambda>(_, e). Inr ((sy_goto In_IO s)\<lparr>sy_requests := q, sy_engine := e\<rparr>)))"

definition sy_complete :: "context_id \<Rightarrow> system \<Rightarrow> system res" where
  "sy_complete c s = res_bind (en_enqueue c (sy_engine s)) (\<lambda>e.
     Inr (s\<lparr>sy_requests := remove1 c (sy_requests s), sy_engine := e\<rparr>))"

definition sy_yield :: "system \<Rightarrow> system res" where
  "sy_yield s = res_bind (en_yield True (sy_engine s)) (\<lambda>(_, e). Inr (s\<lparr>sy_engine := e\<rparr>))"

text \<open>\<open>run\<close> from the return of a \<open>yield\<close> to the switch in the next one, or to its own return.\<close>

definition sy_idle :: "system \<Rightarrow> system res" where
  "sy_idle s =
     (let e = (if sy_run s = In_Yield then en_run_round (sy_engine s) else sy_engine s) in
      res_bind (en_yield False e) (\<lambda>(goes_on, e). Inr (s\<lparr>sy_engine := e, sy_run := (if goes_on then In_Yield else Run_Ended)\<rparr>)))"

definition sy_spawn :: "u32 \<Rightarrow> bool \<Rightarrow> system \<Rightarrow> system res" where
  "sy_spawn h u s = res_bind (en_create_context h u (sy_engine s)) (\<lambda>e. Inr (s\<lparr>sy_engine := e\<rparr>))"

text \<open>What runs when control comes back to a thread that was suspended.\<close>

definition sy_resume :: "system \<Rightarrow> system res" where
  "sy_resume s = (case sy_pc s (sy_current s) of
      Outside \<Rightarrow> Inr s
    | In_Wait k \<Rightarrow> Inr (sy_goto Outside s)
    | In_Lock m \<Rightarrow> sy_locked m s
    | In_Acquire f \<Rightarrow> sy_acquire f s
    | In_Join js \<Rightarrow> sy_joined js s
    | In_IO \<Rightarrow> Inr (sy_goto Outside s))"

datatype thread_op = Yield | Spawn u32 bool | Wait nat | Signal nat | Signal_All nat | Lock nat | Unlock nat
  | Acquire nat | Release nat u32 | Run_Job u32 nat | Join "nat list" | Submit | Complete context_id | Resume | End_Thread | Idle_Round

fun sy_op :: "thread_op \<Rightarrow> system \<Rightarrow> system res" where
  "sy_op Yield s = sy_yield s"
| "sy_op (Spawn h u) s = sy_spawn h u s"
| "sy_op (Wait k) s = sy_wait k s"
| "sy_op (Signal k) s = sy_signal k s"
| "sy_op (Signal_All k) s = sy_signal_all k s"
| "sy_op (Lock m) s = sy_lock m s"
| "sy_op (Unlock m) s = sy_unlock m s"
| "sy_op (Acquire f) s = sy_acquire f s"
| "sy_op (Release f n) s = sy_release f n s"
| "sy_op (Run_Job h j) s = sy_run_job h j s"
| "sy_op (Join js) s = sy_join js s"
| "sy_op Submit s = sy_submit s"
| "sy_op (Complete c) s = sy_complete c s"
| "sy_op Resume s = sy_resume s"
| "sy_op End_Thread s = sy_thread_end s"
| "sy_op Idle_Round s = sy_idle s"

text \<open>
  What may happen next. A suspended thread first leaves the operation that it is in; handles come from the
  pool of contexts, which gives out free ones only; a job is run once, and one that is waited for has been run;
  the kernel completes what was submitted; a thread that ends has unlocked its mutexes.
\<close>

definition sy_known_job :: "system \<Rightarrow> nat \<Rightarrow> bool" where
  "sy_known_job s j \<longleftrightarrow> jb_done (sy_jobs s j) \<or> (\<exists>d. callback_of (sy_engine s) d = Some j)"

fun sy_allows :: "system \<Rightarrow> thread_op \<Rightarrow> bool" where
  "sy_allows s Idle_Round \<longleftrightarrow> sy_current s = idle_ctx \<and> sy_run s \<noteq> Run_Ended"
| "sy_allows s Resume \<longleftrightarrow> sy_current s \<noteq> idle_ctx \<and> sy_pc s (sy_current s) \<noteq> Outside"
| "sy_allows s (Spawn h u) \<longleftrightarrow> sy_pc s (sy_current s) = Outside \<and> en_contexts (sy_engine s) (Some h) = None
     \<and> (sy_current s = idle_ctx \<longrightarrow> sy_run s = Not_Started)"
| "sy_allows s (Run_Job h j) \<longleftrightarrow> sy_current s \<noteq> idle_ctx \<and> sy_pc s (sy_current s) = Outside
     \<and> en_contexts (sy_engine s) (Some h) = None \<and> sy_jobs s j = job_new \<and> \<not> sy_known_job s j"
| "sy_allows s (Join js) \<longleftrightarrow> sy_current s \<noteq> idle_ctx \<and> sy_pc s (sy_current s) = Outside \<and> (\<forall>j\<in>set js. sy_known_job s j)"
| "sy_allows s (Complete c) \<longleftrightarrow> sy_current s \<noteq> idle_ctx \<and> sy_pc s (sy_current s) = Outside \<and> c \<in> set (sy_requests s)"
| "sy_allows s End_Thread \<longleftrightarrow> sy_current s \<noteq> idle_ctx \<and> sy_pc s (sy_current s) = Outside
     \<and> (\<forall>m. mx_owner (sy_mutexes s m) \<noteq> Some (sy_current s))"
| "sy_allows s _ \<longleftrightarrow> sy_current s \<noteq> idle_ctx \<and> sy_pc s (sy_current s) = Outside"

inductive sy_step :: "system \<Rightarrow> thread_op \<Rightarrow> system \<Rightarrow> bool" where
  sys_step: "sy_allows s p \<Longrightarrow> sy_op p s = Inr s' \<Longrightarrow> sy_step s p s'"

inductive_cases sy_stepE: "sy_step s p s'"

text \<open>The states of the system, and the contexts that have got the processor from the run queue on the way.\<close>

definition sy_got :: "system \<Rightarrow> system \<Rightarrow> context_id list" where
  "sy_got s s' = (if sy_current s' = sy_current s \<or> sy_current s' = idle_ctx then [] else [sy_current s'])"

inductive sy_trace :: "system \<Rightarrow> context_id list \<Rightarrow> system \<Rightarrow> bool" for s where
  st_here: "sy_trace s [] s"
| st_step: "sy_trace s cs s' \<Longrightarrow> sy_step s' p s'' \<Longrightarrow> sy_trace s (cs @ sy_got s' s'') s''"

definition sy_reachable :: "(nat \<Rightarrow> u32) \<Rightarrow> system \<Rightarrow> bool" where
  "sy_reachable sizes s \<longleftrightarrow> (\<exists>cs. sy_trace (system_start sizes) cs s)"

section \<open>Every suspended thread is in one queue\<close>

datatype wait_place = At_Condition nat | At_Mutex nat | At_Flow nat | At_Job nat | At_IO

fun queue_at :: "system \<Rightarrow> wait_place \<Rightarrow> context_queue" where
  "queue_at s (At_Condition k) = sy_conditions s k"
| "queue_at s (At_Mutex m) = mx_wait_queue (sy_mutexes s m)"
| "queue_at s (At_Flow f) = qf_cond (sy_flows s f)"
| "queue_at s (At_Job j) = jb_wait_queue (sy_jobs s j)"
| "queue_at s At_IO = sy_requests s"

fun place_of :: "thread_pc \<Rightarrow> wait_place option" where
  "place_of Outside = None"
| "place_of (In_Wait k) = Some (At_Condition k)"
| "place_of (In_Lock m) = Some (At_Mutex m)"
| "place_of (In_Acquire f) = Some (At_Flow f)"
| "place_of (In_Join []) = None"
| "place_of (In_Join (j # _)) = Some (At_Job j)"
| "place_of In_IO = Some At_IO"

text \<open>The queues \<open>q\<close> and the places \<open>pc\<close> of the threads fit the engine.\<close>

definition sched_ok :: "gt_engine \<Rightarrow> (wait_place \<Rightarrow> context_queue) \<Rightarrow> (context_id \<Rightarrow> thread_pc) \<Rightarrow> bool" where
  "sched_ok e q pc \<longleftrightarrow> en_counts e \<and> (\<forall>w. distinct (q w) \<and> (\<forall>c\<in>set (q w). place_of (pc c) = Some w))
     \<and> (\<Union>w. set (q w)) = in_state e SUSPENDED \<and> pc idle_ctx = Outside \<and> (\<forall>c. c \<notin> dom (en_contexts e) \<longrightarrow> pc c = Outside)"

text \<open>What waking leaves as it was.\<close>

definition en_kept :: "gt_engine \<Rightarrow> gt_engine \<Rightarrow> bool" where
  "en_kept e e' \<longleftrightarrow> same_contexts e e' \<and> en_current_ctx e' = en_current_ctx e \<and> in_state e' RUNNING = in_state e RUNNING
     \<and> in_state e' TERMINATED = in_state e TERMINATED"

lemma en_kept_refl [simp]: "en_kept e e"
  by (simp add: en_kept_def)

lemma en_kept_trans: "en_kept a b \<Longrightarrow> en_kept b c \<Longrightarrow> en_kept a c"
  unfolding en_kept_def using same_contexts_trans by auto

lemma en_kept_inv: "en_kept e e' \<Longrightarrow> en_counts e' \<Longrightarrow> en_inv e \<Longrightarrow> en_inv e'"
  by (simp add: en_kept_def en_inv_def)

lemma wake_member:
  assumes ok: "sched_ok e q pc" and q: "c \<in> set (q w)"
  obtains e' where "en_enqueue c e = Inr e'" "sched_ok e' (q(w := remove1 c (q w))) pc" "en_kept e e'" "en_run_queue e' = en_run_queue e @ [c]"
proof -
  have cn: "en_counts e" and un: "(\<Union>w. set (q w)) = in_state e SUSPENDED" using ok by (simp_all add: sched_ok_def)
  have c: "c \<in> in_state e SUSPENDED" using q unfolding un [symmetric] by blast
  from en_enqueue_ok [OF cn c] obtain e' where e': "en_enqueue c e = Inr e'" "en_counts e'" "same_contexts e e'"
    "en_current_ctx e' = en_current_ctx e" "en_run_queue e' = en_run_queue e @ [c]"
    "in_state e' SUSPENDED = in_state e SUSPENDED - {c}" "in_state e' RUNNING = in_state e RUNNING"
    "in_state e' TERMINATED = in_state e TERMINATED" by metis
  have other: "c \<notin> set (q w')" if "w' \<noteq> w" for w'
  proof
    assume "c \<in> set (q w')"
    then have "place_of (pc c) = Some w'" using ok by (simp add: sched_ok_def)
    moreover have "place_of (pc c) = Some w" using ok q by (simp add: sched_ok_def)
    ultimately show False using that by simp
  qed
  have dw: "distinct (q w)" "\<And>w. distinct (q w)" "\<And>w d. d \<in> set (q w) \<Longrightarrow> place_of (pc d) = Some w"
    using ok by (simp_all add: sched_ok_def)
  have "(\<Union>w'. set ((q(w := remove1 c (q w))) w')) = (\<Union>w. set (q w)) - {c}"
  proof (rule set_eqI, rule iffI)
    fix d assume "d \<in> (\<Union>w'. set ((q(w := remove1 c (q w))) w'))"
    then obtain w' where "d \<in> set ((q(w := remove1 c (q w))) w')" by blast
    then show "d \<in> (\<Union>w. set (q w)) - {c}" using q dw(1) other [of w']
      by (cases "w' = w") (auto intro: exI [of _ w] exI [of _ w'])
  next
    fix d assume "d \<in> (\<Union>w. set (q w)) - {c}"
    then obtain w' where "d \<in> set (q w')" "d \<noteq> c" by blast
    then show "d \<in> (\<Union>w'. set ((q(w := remove1 c (q w))) w'))" using q by (intro UN_I [of w']) auto
  qed
  moreover have "dom (en_contexts e') = dom (en_contexts e)" using e'(3) by (simp add: same_contexts_def)
  moreover have "distinct ((q(w := remove1 c (q w))) w')" "\<forall>d\<in>set ((q(w := remove1 c (q w))) w'). place_of (pc d) = Some w'" for w'
    using dw(2) [of w'] dw(3) [of _ w'] q by (auto simp: fun_upd_def)
  ultimately have "sched_ok e' (q(w := remove1 c (q w))) pc" using ok e'(2,6) un by (simp add: sched_ok_def del: fun_upd_apply)
  then show thesis using that e' by (simp add: en_kept_def)
qed

lemma wake_one:
  assumes ok: "sched_ok e q pc" and q: "q w = c # cs"
  obtains e' where "en_enqueue c e = Inr e'" "sched_ok e' (q(w := cs)) pc" "en_kept e e'" "en_run_queue e' = en_run_queue e @ [c]"
  using wake_member [OF ok, of c w] q that by (auto simp del: fun_upd_apply)

lemma wake_all:
  assumes "sched_ok e q pc" "q w = cs"
  shows "\<exists>e'. cond_signal_all cs e = Inr ([], e') \<and> sched_ok e' (q(w := [])) pc \<and> en_kept e e' \<and> en_run_queue e' = en_run_queue e @ cs"
  using assms
proof (induction cs arbitrary: e q)
  case Nil
  then have "q(w := []) = q" by (simp add: fun_upd_idem)
  then show ?case using Nil by simp
next
  case (Cons c cs)
  from wake_one [OF Cons.prems] obtain e1 where e1: "en_enqueue c e = Inr e1" "sched_ok e1 (q(w := cs)) pc" "en_kept e e1"
    "en_run_queue e1 = en_run_queue e @ [c]" by metis
  from Cons.IH [OF e1(2)] obtain e' where e': "cond_signal_all cs e1 = Inr ([], e')" "sched_ok e' (q(w := cs, w := [])) pc"
    "en_kept e1 e'" "en_run_queue e' = en_run_queue e1 @ cs" by (auto simp del: fun_upd_apply simp: fun_upd_same)
  show ?case using e1 e' en_kept_trans [OF e1(3) e'(3)] by (simp del: fun_upd_apply)
qed

text \<open>The current thread is in no queue, so it may go on anywhere.\<close>

lemma current_not_queued:
  assumes "sched_ok e q pc" "en_inv e" shows "en_current_ctx e \<notin> set (q w)"
proof
  assume "en_current_ctx e \<in> set (q w)"
  then have "en_current_ctx e \<in> in_state e SUSPENDED" using assms(1) by (auto simp: sched_ok_def)
  moreover from this have "en_current_ctx e \<in> in_state e RUNNING"
    using assms(2) by (auto simp: en_inv_def in_state_def [of e SUSPENDED])
  ultimately show False by (auto simp: in_state_def)
qed

lemma current_exists:
  assumes "en_inv e" "en_current_ctx e \<noteq> idle_ctx" shows "en_current_ctx e \<in> dom (en_contexts e)"
  using assms by (auto simp: en_inv_def in_state_def)

lemma sched_goto:
  assumes "sched_ok e q pc" "en_inv e" "en_current_ctx e \<noteq> idle_ctx"
  shows "sched_ok e q (pc(en_current_ctx e := p))"
  using assms current_not_queued [OF assms(1,2)] current_exists [OF assms(2,3)] not_sym [OF assms(3)]
  by (auto simp: sched_ok_def)

text \<open>The queues, places and engine after the current thread has put itself into the queue of \<open>w\<close> and yielded.\<close>

lemma park_current:
  assumes ok: "sched_ok e q pc" and inv: "en_inv e" and cur: "en_current_ctx e \<noteq> idle_ctx" and p: "place_of p = Some w"
  obtains e' where "en_yield False e = Inr (True, e')"
    "sched_ok e' (q(w := q w @ [en_current_ctx e])) (pc(en_current_ctx e := p))" "en_inv e'" "same_contexts e e'"
    "en_current_ctx e' = (if en_run_queue e = [] then idle_ctx else hd (en_run_queue e))"
    "en_run_queue e' = tl (en_run_queue e)"
proof -
  let ?c = "en_current_ctx e"
  from en_yield_ok [OF inv cur, of False] obtain e' where e': "en_yield False e = Inr (True, e')" "en_inv e'"
    "same_contexts e e'" "en_current_ctx e' = (if en_run_queue e = [] then idle_ctx else hd (en_run_queue e))"
    "en_run_queue e' = tl (en_run_queue e)" "in_state e' SUSPENDED = in_state e SUSPENDED \<union> {?c}" by auto
  let ?q = "q(w := q w @ [?c])" and ?pc = "pc(?c := p)"
  have "(\<Union>w'. set (?q w')) = (\<Union>w. set (q w)) \<union> {?c}"
    by (auto split: if_splits intro: exI [of _ w])
  moreover have "distinct (?q w') \<and> (\<forall>d\<in>set (?q w'). place_of (?pc d) = Some w')" for w'
    using ok current_not_queued [OF ok inv, of w'] p by (auto simp: sched_ok_def)
  moreover have "dom (en_contexts e') = dom (en_contexts e)" using e'(3) by (simp add: same_contexts_def)
  moreover have "?pc idle_ctx = Outside \<and> (\<forall>c. c \<notin> dom (en_contexts e) \<longrightarrow> ?pc c = Outside)"
    using ok current_exists [OF inv cur] not_sym [OF cur] by (auto simp: sched_ok_def)
  ultimately have "sched_ok e' ?q ?pc"
    using ok e'(2,6) by (simp add: sched_ok_def en_inv_def del: fun_upd_apply)
  then show thesis using that e' by metis
qed

section \<open>The invariant of the system\<close>

definition flow_ok :: "u32 \<Rightarrow> queue_flow \<Rightarrow> bool" where
  "flow_ok n f \<longleftrightarrow> qf_queue_size f = n \<and> qf_enqueued f \<le> n \<and> (qf_cond f \<noteq> [] \<longrightarrow> qf_enqueued f = n)"

text \<open>
  Nobody waits for a job that is done; a job that is waited for is done or its thread exists; a thread that is
  in \<open>jobs::wait\<close> and not queued has been signalled; a job has one thread at most, and none once it is done.
\<close>

definition jobs_ok :: "(context_id \<Rightarrow> nat option) \<Rightarrow> (nat \<Rightarrow> gt_job) \<Rightarrow> (context_id \<Rightarrow> thread_pc) \<Rightarrow> bool" where
  "jobs_ok cb jb pc \<longleftrightarrow> (\<forall>j. jb_done (jb j) \<longrightarrow> jb_wait_queue (jb j) = []) \<and> (\<forall>c. pc c \<noteq> In_Join [])
     \<and> (\<forall>c js j. pc c = In_Join js \<and> j \<in> set js \<longrightarrow> jb_done (jb j) \<or> (\<exists>d. cb d = Some j))
     \<and> (\<forall>c j js. pc c = In_Join (j # js) \<and> c \<notin> set (jb_wait_queue (jb j)) \<longrightarrow> jb_done (jb j))
     \<and> (\<forall>c d j. cb c = Some j \<and> cb d = Some j \<longrightarrow> c = d) \<and> (\<forall>j d. jb_done (jb j) \<longrightarrow> cb d \<noteq> Some j)"

lemma jobs_okD:
  assumes "jobs_ok cb jb pc"
  shows "pc c = In_Join (j # js) \<Longrightarrow> c \<notin> set (jb_wait_queue (jb j)) \<Longrightarrow> jb_done (jb j)"
    and "pc c = In_Join js' \<Longrightarrow> i \<in> set js' \<Longrightarrow> jb_done (jb i) \<or> (\<exists>d. cb d = Some i)"
    and "cb a = Some i \<Longrightarrow> cb b = Some i \<Longrightarrow> a = b" and "jb_done (jb i) \<Longrightarrow> cb a \<noteq> Some i"
  using assms unfolding jobs_ok_def by blast+

definition sys_inv :: "(nat \<Rightarrow> u32) \<Rightarrow> system \<Rightarrow> bool" where
  "sys_inv sizes s \<longleftrightarrow> sched_ok (sy_engine s) (queue_at s) (sy_pc s) \<and> en_inv (sy_engine s)
     \<and> (\<forall>f. flow_ok (sizes f) (sy_flows s f)) \<and> jobs_ok (callback_of (sy_engine s)) (sy_jobs s) (sy_pc s)"

text \<open>First come, first served: who has got the processor is taken from the front of the run queue.\<close>

definition fifo_step :: "system \<Rightarrow> system \<Rightarrow> bool" where
  "fifo_step s s' \<longleftrightarrow>
    (\<exists>later. en_run_queue (sy_engine s) @ later = sy_got s s' @ en_run_queue (sy_engine s'))"

lemma queue_at_set [simp]:
  "queue_at (s\<lparr>sy_conditions := (sy_conditions s)(k := q)\<rparr>) = (queue_at s)(At_Condition k := q)"
  "queue_at (s\<lparr>sy_mutexes := (sy_mutexes s)(k := m)\<rparr>) = (queue_at s)(At_Mutex k := mx_wait_queue m)"
  "queue_at (s\<lparr>sy_flows := (sy_flows s)(k := f)\<rparr>) = (queue_at s)(At_Flow k := qf_cond f)"
  "queue_at (s\<lparr>sy_jobs := (sy_jobs s)(k := j)\<rparr>) = (queue_at s)(At_Job k := jb_wait_queue j)"
  "queue_at (s\<lparr>sy_requests := q\<rparr>) = (queue_at s)(At_IO := q)"
  by (rule ext, case_tac x, simp_all)+

lemma queue_at_other [simp]:
  "queue_at (s\<lparr>sy_engine := e\<rparr>) = queue_at s" "queue_at (s\<lparr>sy_run := r\<rparr>) = queue_at s" "queue_at (sy_goto p s) = queue_at s"
  by (rule ext, case_tac x, simp_all add: sy_goto_def)+

lemma sy_goto_simps [simp]:
  "sy_engine (sy_goto p s) = sy_engine s" "sy_flows (sy_goto p s) = sy_flows s" "sy_jobs (sy_goto p s) = sy_jobs s"
  "sy_conditions (sy_goto p s) = sy_conditions s" "sy_mutexes (sy_goto p s) = sy_mutexes s" "sy_run (sy_goto p s) = sy_run s"
  "sy_requests (sy_goto p s) = sy_requests s" "sy_pc (sy_goto p s) = (sy_pc s)(sy_current s := p)"
  by (simp_all add: sy_goto_def)

lemma system_start_inv: "sys_inv sizes (system_start sizes)"
proof -
  have "in_state engine_start SUSPENDED = {}" by (auto simp: in_state_def engine_start_def)
  moreover have "queue_at (system_start sizes) w = []" for w by (cases w) (simp_all add: system_start_def job_new_def)
  ultimately show ?thesis
    using engine_start_inv by (simp add: sys_inv_def sched_ok_def en_inv_def jobs_ok_def flow_ok_def)
      (simp add: system_start_def job_new_def callback_of_def engine_start_def)
qed

lemma jobs_ok_goto:
  assumes "jobs_ok cb jb pc" "\<And>js. p \<noteq> In_Join js" shows "jobs_ok cb jb (pc(c := p))"
  using assms by (cases p) (auto simp: jobs_ok_def)

lemma place_of_Some:
  "place_of p = Some w \<Longrightarrow> (case w of At_Job j \<Rightarrow> \<exists>js. p = In_Join (j # js) | _ \<Rightarrow> \<forall>js. p \<noteq> In_Join js)"
  by (cases p rule: place_of.cases) auto

lemma sys_inv_parts:
  assumes "sys_inv sizes s"
  shows "sched_ok (sy_engine s) (queue_at s) (sy_pc s)" "en_inv (sy_engine s)" "flow_ok (sizes f) (sy_flows s f)"
    "jobs_ok (callback_of (sy_engine s)) (sy_jobs s) (sy_pc s)"
    "(\<And>js. p \<noteq> In_Join js) \<Longrightarrow> jobs_ok (callback_of (sy_engine s)) (sy_jobs s) ((sy_pc s)(c := p))"
  using assms jobs_ok_goto by (simp_all add: sys_inv_def)

section \<open>Every operation keeps it\<close>

text \<open>An operation that leaves the current thread where it is and only wakes others.\<close>

lemma sys_inv_woken:
  assumes inv: "sys_inv sizes s" and e: "sched_ok e' (queue_at s') (sy_pc s')" "en_kept (sy_engine s) e'"
    and s': "sy_engine s' = e'" "\<And>f. flow_ok (sizes f) (sy_flows s' f)" "sy_jobs s' = sy_jobs s" "sy_pc s' = sy_pc s"
    and q: "en_run_queue e' = en_run_queue (sy_engine s) @ new"
  shows "sys_inv sizes s'" "fifo_step s s'"
proof -
  have "en_inv e'" by (rule en_kept_inv [OF e(2)]) (use e inv in \<open>simp_all add: sched_ok_def sys_inv_def\<close>)
  moreover have "callback_of e' = callback_of (sy_engine s)" "en_current_ctx e' = sy_current s"
    using e(2) by (simp_all add: en_kept_def same_contexts_def)
  ultimately show "sys_inv sizes s'" "fifo_step s s'"
    using inv e s' q by (simp_all add: sys_inv_def fifo_step_def sy_got_def)
qed

lemma sy_signal_ok:
  assumes "sys_inv sizes s"
  obtains s' where "sy_signal k s = Inr s'" "sys_inv sizes s'" "fifo_step s s'"
proof (cases "sy_conditions s k")
  case Nil
  then have "sy_signal k s = Inr s" by (simp add: sy_signal_def cond_signal_def fun_upd_idem)
  then show thesis using that [of s] assms by (simp add: fifo_step_def sy_got_def)
next
  case (Cons c cs)
  have ok: "sched_ok (sy_engine s) (queue_at s) (sy_pc s)" using assms by (simp add: sys_inv_def)
  from wake_one [OF ok, of "At_Condition k" c cs] Cons obtain e' where e': "en_enqueue c (sy_engine s) = Inr e'"
    "sched_ok e' ((queue_at s)(At_Condition k := cs)) (sy_pc s)" "en_kept (sy_engine s) e'"
    "en_run_queue e' = en_run_queue (sy_engine s) @ [c]" by auto
  let ?s = "s\<lparr>sy_conditions := (sy_conditions s)(k := cs), sy_engine := e'\<rparr>"
  have "sy_signal k s = Inr ?s" using Cons e'(1) by (simp add: sy_signal_def cond_signal_def)
  moreover note sys_inv_woken [of sizes s e' ?s, OF assms _ e'(3) _ _ _ _ e'(4)]
  ultimately show thesis using that [of ?s] e'(2) sys_inv_parts(3) [OF assms] by simp
qed

lemma sy_signal_all_ok:
  assumes "sys_inv sizes s"
  obtains s' where "sy_signal_all k s = Inr s'" "sys_inv sizes s'" "fifo_step s s'"
proof -
  have ok: "sched_ok (sy_engine s) (queue_at s) (sy_pc s)" using assms by (simp add: sys_inv_def)
  from wake_all [OF ok, of "At_Condition k"] obtain e' where e': "cond_signal_all (sy_conditions s k) (sy_engine s) = Inr ([], e')"
    "sched_ok e' ((queue_at s)(At_Condition k := [])) (sy_pc s)" "en_kept (sy_engine s) e'"
    "en_run_queue e' = en_run_queue (sy_engine s) @ sy_conditions s k" by auto
  let ?s = "s\<lparr>sy_conditions := (sy_conditions s)(k := []), sy_engine := e'\<rparr>"
  have "sy_signal_all k s = Inr ?s" using e'(1) by (simp add: sy_signal_all_def)
  moreover note sys_inv_woken [of sizes s e' ?s, OF assms _ e'(3) _ _ _ _ e'(4)]
  ultimately show thesis using that [of ?s] e'(2) sys_inv_parts(3) [OF assms] by simp
qed

lemma run_queue_others:
  assumes "en_inv e" "c \<in> set (en_run_queue e)" shows "c \<noteq> en_current_ctx e" "c \<noteq> idle_ctx"
proof -
  have w: "c \<in> in_state e WAITING" using assms by (auto simp: en_inv_def en_counts_def)
  then show "c \<noteq> idle_ctx" by (simp add: in_state_def)
  moreover have "c \<notin> in_state e RUNNING" using w by (auto simp: in_state_def)
  ultimately show "c \<noteq> en_current_ctx e" using assms(1) by (auto simp: en_inv_def)
qed

lemma fifo_next:
  assumes "en_inv (sy_engine s)"
    and "sy_current s' = (if en_run_queue (sy_engine s) = [] then idle_ctx else hd (en_run_queue (sy_engine s)))"
    and "en_run_queue (sy_engine s') = tl (en_run_queue (sy_engine s)) @ later"
  shows "fifo_step s s'"
proof (cases "en_run_queue (sy_engine s)")
  case Nil
  then show ?thesis using assms(2) by (simp add: fifo_step_def sy_got_def)
next
  case (Cons c cs)
  then show ?thesis using run_queue_others [OF assms(1), of c] assms(2,3) by (auto simp: fifo_step_def sy_got_def)
qed

text \<open>An operation in which the current thread is suspended at \<open>w\<close>.\<close>

lemma sys_inv_parked:
  assumes inv: "sys_inv sizes s" and cur: "sy_current s \<noteq> idle_ctx" and p: "place_of p = Some w"
  obtains e' where "en_yield False (sy_engine s) = Inr (True, e')"
    "\<And>s'. sy_engine s' = e' \<Longrightarrow> queue_at s' = (queue_at s)(w := queue_at s w @ [sy_current s]) \<Longrightarrow>
      sy_pc s' = (sy_pc s)(sy_current s := p) \<Longrightarrow> (\<And>f. flow_ok (sizes f) (sy_flows s' f)) \<Longrightarrow>
      jobs_ok (callback_of (sy_engine s)) (sy_jobs s') (sy_pc s') \<Longrightarrow> sys_inv sizes s' \<and> fifo_step s s'"
proof -
  have ok: "sched_ok (sy_engine s) (queue_at s) (sy_pc s)" and ei: "en_inv (sy_engine s)" using inv by (simp_all add: sys_inv_def)
  from park_current [OF ok ei cur p] obtain e' where e': "en_yield False (sy_engine s) = Inr (True, e')"
    "sched_ok e' ((queue_at s)(w := queue_at s w @ [sy_current s])) ((sy_pc s)(sy_current s := p))" "en_inv e'"
    "same_contexts (sy_engine s) e'"
    "en_current_ctx e' = (if en_run_queue (sy_engine s) = [] then idle_ctx else hd (en_run_queue (sy_engine s)))"
    "en_run_queue e' = tl (en_run_queue (sy_engine s))" by metis
  show thesis
  proof (rule that [OF e'(1)])
    fix s' assume s': "sy_engine s' = e'" "queue_at s' = (queue_at s)(w := queue_at s w @ [sy_current s])"
      "sy_pc s' = (sy_pc s)(sy_current s := p)" "\<And>f. flow_ok (sizes f) (sy_flows s' f)"
      "jobs_ok (callback_of (sy_engine s)) (sy_jobs s') (sy_pc s')"
    have "callback_of e' = callback_of (sy_engine s)" using e'(4) by (simp add: same_contexts_def)
    then have "sys_inv sizes s'" using s' e'(2,3) by (simp add: sys_inv_def)
    moreover have "fifo_step s s'" by (rule fifo_next [OF ei, of _ "[]"]) (use s'(1) e'(5,6) in simp_all)
    ultimately show "sys_inv sizes s' \<and> fifo_step s s'" ..
  qed
qed

text \<open>An operation that only takes the current thread on to \<open>p\<close>.\<close>

lemma sys_inv_goto:
  assumes inv: "sys_inv sizes s" and cur: "sy_current s \<noteq> idle_ctx"
    and s': "sy_engine s' = sy_engine s" "queue_at s' = queue_at s" "sy_pc s' = (sy_pc s)(sy_current s := p)"
      "\<And>f. flow_ok (sizes f) (sy_flows s' f)" "sy_jobs s' = sy_jobs s" "\<And>js. p \<noteq> In_Join js"
  shows "sys_inv sizes s'" "fifo_step s s'"
proof -
  have "sched_ok (sy_engine s) (queue_at s) ((sy_pc s)(sy_current s := p))"
    by (rule sched_goto [OF _ _ cur]) (use inv in \<open>simp_all add: sys_inv_def\<close>)
  moreover have "jobs_ok (callback_of (sy_engine s)) (sy_jobs s) ((sy_pc s)(sy_current s := p))"
    by (rule jobs_ok_goto [OF _ s'(6)]) (use inv in \<open>simp add: sys_inv_def\<close>)
  ultimately show "sys_inv sizes s'" "fifo_step s s'"
    using inv s' by (simp_all add: sys_inv_def fifo_step_def sy_got_def)
qed

lemma sy_wait_ok:
  assumes inv: "sys_inv sizes s" and cur: "sy_current s \<noteq> idle_ctx"
  obtains s' where "sy_wait k s = Inr s'" "sys_inv sizes s'" "fifo_step s s'"
proof -
  from sys_inv_parked [OF inv cur, of "In_Wait k" "At_Condition k"] obtain e' where e': "en_yield False (sy_engine s) = Inr (True, e')"
    "\<And>s'. sy_engine s' = e' \<Longrightarrow> queue_at s' = (queue_at s)(At_Condition k := sy_conditions s k @ [sy_current s]) \<Longrightarrow>
      sy_pc s' = (sy_pc s)(sy_current s := In_Wait k) \<Longrightarrow> (\<And>f. flow_ok (sizes f) (sy_flows s' f)) \<Longrightarrow>
      jobs_ok (callback_of (sy_engine s)) (sy_jobs s') (sy_pc s') \<Longrightarrow> sys_inv sizes s' \<and> fifo_step s s'" by auto
  let ?s = "(sy_goto (In_Wait k) s)\<lparr>sy_conditions := (sy_conditions s)(k := sy_conditions s k @ [sy_current s]), sy_engine := e'\<rparr>"
  have "sy_wait k s = Inr ?s" using e'(1) by (simp add: sy_wait_def cond_wait_def Let_def)
  moreover have "queue_at ?s = (queue_at s)(At_Condition k := sy_conditions s k @ [sy_current s])"
    using queue_at_set(1) [of "sy_goto (In_Wait k) s"] by simp
  then have "sys_inv sizes ?s \<and> fifo_step s ?s" by (intro e'(2)) (simp_all add: sys_inv_parts [OF inv])
  ultimately show thesis using that by blast
qed

lemma sy_submit_ok:
  assumes inv: "sys_inv sizes s" and cur: "sy_current s \<noteq> idle_ctx"
  obtains s' where "sy_submit s = Inr s'" "sys_inv sizes s'" "fifo_step s s'"
proof -
  from sys_inv_parked [OF inv cur, of In_IO At_IO] obtain e' where e': "en_yield False (sy_engine s) = Inr (True, e')"
    "\<And>s'. sy_engine s' = e' \<Longrightarrow> queue_at s' = (queue_at s)(At_IO := sy_requests s @ [sy_current s]) \<Longrightarrow>
      sy_pc s' = (sy_pc s)(sy_current s := In_IO) \<Longrightarrow> (\<And>f. flow_ok (sizes f) (sy_flows s' f)) \<Longrightarrow>
      jobs_ok (callback_of (sy_engine s)) (sy_jobs s') (sy_pc s') \<Longrightarrow> sys_inv sizes s' \<and> fifo_step s s'" by auto
  let ?s = "(sy_goto In_IO s)\<lparr>sy_requests := sy_requests s @ [sy_current s], sy_engine := e'\<rparr>"
  have "sy_submit s = Inr ?s" using e'(1) by (simp add: sy_submit_def Let_def)
  moreover have "sys_inv sizes ?s \<and> fifo_step s ?s" by (intro e'(2)) (simp_all add: sys_inv_parts [OF inv])
  ultimately show thesis using that by blast
qed

lemma sy_complete_ok:
  assumes inv: "sys_inv sizes s" and c: "c \<in> set (sy_requests s)"
  obtains s' where "sy_complete c s = Inr s'" "sys_inv sizes s'" "fifo_step s s'"
proof -
  from wake_member [OF sys_inv_parts(1) [OF inv], of c At_IO] c obtain e' where e': "en_enqueue c (sy_engine s) = Inr e'"
    "sched_ok e' ((queue_at s)(At_IO := remove1 c (sy_requests s))) (sy_pc s)" "en_kept (sy_engine s) e'"
    "en_run_queue e' = en_run_queue (sy_engine s) @ [c]" by auto
  let ?s = "s\<lparr>sy_requests := remove1 c (sy_requests s), sy_engine := e'\<rparr>"
  have "sy_complete c s = Inr ?s" using e'(1) by (simp add: sy_complete_def)
  moreover note sys_inv_woken [of sizes s e' ?s, OF inv _ e'(3) _ _ _ _ e'(4)]
  ultimately show thesis using that [of ?s] e'(2) sys_inv_parts(3) [OF inv] by simp
qed

lemma sy_lock_ok:
  assumes inv: "sys_inv sizes s" and cur: "sy_current s \<noteq> idle_ctx"
  obtains s' where "sy_lock m s = Inr s'" "sys_inv sizes s'" "fifo_step s s'"
proof (cases "mx_owner (sy_mutexes s m) = None")
  case True
  let ?s = "(sy_goto Outside s)\<lparr>sy_mutexes := (sy_mutexes s)(m := (sy_mutexes s m)\<lparr>mx_owner := Some (sy_current s)\<rparr>)\<rparr>"
  have q: "queue_at ?s = queue_at s"
    using queue_at_set(2) [of "sy_goto Outside s" m] by (simp add: fun_upd_idem)
  have "sy_lock m s = Inr ?s" using True by (cases s) (simp add: sy_lock_def mutex_lock_def sy_goto_def)
  then show thesis
    by (rule that) (rule sys_inv_goto [OF inv cur, where p = Outside], use q inv in \<open>simp_all add: sys_inv_def\<close>)+
next
  case False
  from sys_inv_parked [OF inv cur, of "In_Lock m" "At_Mutex m"] obtain e' where e': "en_yield False (sy_engine s) = Inr (True, e')"
    "\<And>s'. sy_engine s' = e' \<Longrightarrow> queue_at s' = (queue_at s)(At_Mutex m := mx_wait_queue (sy_mutexes s m) @ [sy_current s]) \<Longrightarrow>
      sy_pc s' = (sy_pc s)(sy_current s := In_Lock m) \<Longrightarrow> (\<And>f. flow_ok (sizes f) (sy_flows s' f)) \<Longrightarrow>
      jobs_ok (callback_of (sy_engine s)) (sy_jobs s') (sy_pc s') \<Longrightarrow> sys_inv sizes s' \<and> fifo_step s s'" by auto
  let ?s = "(sy_goto (In_Lock m) s)\<lparr>sy_mutexes := (sy_mutexes s)(m := (sy_mutexes s m)
      \<lparr>mx_wait_queue := mx_wait_queue (sy_mutexes s m) @ [sy_current s]\<rparr>), sy_engine := e'\<rparr>"
  have "sy_lock m s = Inr ?s" using False e'(1) by (auto simp: sy_lock_def mutex_lock_def Let_def)
  moreover have "queue_at ?s = (queue_at s)(At_Mutex m := mx_wait_queue (sy_mutexes s m) @ [sy_current s])"
    using queue_at_set(2) [of "sy_goto (In_Lock m) s"] by simp
  then have "sys_inv sizes ?s \<and> fifo_step s ?s" by (intro e'(2)) (simp_all add: sys_inv_parts [OF inv])
  ultimately show thesis using that by blast
qed

lemma sy_locked_ok:
  assumes inv: "sys_inv sizes s" and cur: "sy_current s \<noteq> idle_ctx" and free: "mx_owner (sy_mutexes s m) = None"
  obtains s' where "sy_locked m s = Inr s'" "sys_inv sizes s'" "fifo_step s s'"
proof -
  let ?s = "(sy_goto Outside s)\<lparr>sy_mutexes := (sy_mutexes s)(m := (sy_mutexes s m)\<lparr>mx_owner := Some (sy_current s)\<rparr>)\<rparr>"
  have q: "queue_at ?s = queue_at s"
    using queue_at_set(2) [of "sy_goto Outside s" m] by (simp add: fun_upd_idem)
  have "sy_locked m s = Inr ?s" using free by (simp add: sy_locked_def mutex_woken_def)
  then show thesis
    by (rule that) (rule sys_inv_goto [OF inv cur, where p = Outside], use q inv in \<open>simp_all add: sys_inv_def\<close>)+
qed

lemma sy_unlock_ok:
  assumes inv: "sys_inv sizes s" and own: "mx_owner (sy_mutexes s m) = Some (sy_current s)"
  obtains s' where "sy_unlock m s = Inr s'" "sys_inv sizes s'" "fifo_step s s'"
proof (cases "mx_wait_queue (sy_mutexes s m)")
  case Nil
  let ?s = "s\<lparr>sy_mutexes := (sy_mutexes s)(m := (sy_mutexes s m)\<lparr>mx_owner := None\<rparr>), sy_engine := sy_engine s\<rparr>"
  have q: "queue_at ?s = queue_at s" by (simp add: fun_upd_idem)
  have "sy_unlock m s = Inr ?s" using own Nil by (simp add: sy_unlock_def mutex_unlock_def)
  moreover note sys_inv_woken [of sizes s "sy_engine s" ?s "[]", OF inv]
  ultimately show thesis using that [of ?s] q sys_inv_parts [OF inv] by simp
next
  case (Cons c cs)
  from wake_one [OF sys_inv_parts(1) [OF inv], of "At_Mutex m" c cs] Cons obtain e' where e': "en_enqueue c (sy_engine s) = Inr e'"
    "sched_ok e' ((queue_at s)(At_Mutex m := cs)) (sy_pc s)" "en_kept (sy_engine s) e'"
    "en_run_queue e' = en_run_queue (sy_engine s) @ [c]" by auto
  let ?s = "s\<lparr>sy_mutexes := (sy_mutexes s)(m := (sy_mutexes s m)\<lparr>mx_owner := None, mx_wait_queue := cs\<rparr>), sy_engine := e'\<rparr>"
  have "sy_unlock m s = Inr ?s" using own Cons e'(1) by (simp add: sy_unlock_def mutex_unlock_def)
  moreover note sys_inv_woken [of sizes s e' ?s, OF inv _ e'(3) _ _ _ _ e'(4)]
  ultimately show thesis using that [of ?s] e'(2) sys_inv_parts(3) [OF inv] by simp
qed

lemma sy_acquire_ok:
  assumes inv: "sys_inv sizes s" and cur: "sy_current s \<noteq> idle_ctx"
  obtains s' where "sy_acquire f s = Inr s'" "sys_inv sizes s'" "fifo_step s s'"
proof (cases "qf_enqueued (sy_flows s f) = qf_queue_size (sy_flows s f)")
  case False
  let ?s = "(sy_goto Outside s)\<lparr>sy_flows := (sy_flows s)(f := (sy_flows s f)\<lparr>qf_enqueued := qf_enqueued (sy_flows s f) + 1\<rparr>)\<rparr>"
  have q: "queue_at ?s = queue_at s"
    using queue_at_set(3) [of "sy_goto Outside s" f] by (simp add: fun_upd_idem)
  have fl: "flow_ok (sizes g) (sy_flows ?s g)" for g
    using sys_inv_parts(3) [OF inv, of g] False by (auto simp: flow_ok_def inc_le)
  have "sy_acquire f s = Inr ?s" using False by (cases s) (simp add: sy_acquire_def flow_acquire_def sy_goto_def)
  then show thesis
    by (rule that) (rule sys_inv_goto [OF inv cur, where p = Outside], use q fl in simp_all)+
next
  case True
  from sys_inv_parked [OF inv cur, of "In_Acquire f" "At_Flow f"] obtain e' where e': "en_yield False (sy_engine s) = Inr (True, e')"
    "\<And>s'. sy_engine s' = e' \<Longrightarrow> queue_at s' = (queue_at s)(At_Flow f := qf_cond (sy_flows s f) @ [sy_current s]) \<Longrightarrow>
      sy_pc s' = (sy_pc s)(sy_current s := In_Acquire f) \<Longrightarrow> (\<And>f. flow_ok (sizes f) (sy_flows s' f)) \<Longrightarrow>
      jobs_ok (callback_of (sy_engine s)) (sy_jobs s') (sy_pc s') \<Longrightarrow> sys_inv sizes s' \<and> fifo_step s s'" by auto
  let ?s = "(sy_goto (In_Acquire f) s)\<lparr>sy_flows := (sy_flows s)(f := (sy_flows s f)
      \<lparr>qf_cond := qf_cond (sy_flows s f) @ [sy_current s]\<rparr>), sy_engine := e'\<rparr>"
  have "sy_acquire f s = Inr ?s" using True e'(1) by (simp add: sy_acquire_def flow_acquire_def cond_wait_def Let_def)
  moreover have "queue_at ?s = (queue_at s)(At_Flow f := qf_cond (sy_flows s f) @ [sy_current s])"
    using queue_at_set(3) [of "sy_goto (In_Acquire f) s"] by simp
  moreover have "flow_ok (sizes g) (sy_flows ?s g)" for g
    using sys_inv_parts(3) [OF inv, of g] True by (auto simp: flow_ok_def)
  ultimately have "sys_inv sizes ?s \<and> fifo_step s ?s" by (intro e'(2)) (simp_all add: sys_inv_parts(5) [OF inv])
  then show thesis using that \<open>sy_acquire f s = Inr ?s\<close> by blast
qed

lemma sy_release_ok:
  assumes inv: "sys_inv sizes s" and n: "n \<le> qf_enqueued (sy_flows s f)"
  obtains s' where "sy_release f n s = Inr s'" "sys_inv sizes s'" "fifo_step s s'"
proof -
  from wake_all [OF sys_inv_parts(1) [OF inv], of "At_Flow f"] obtain e' where
    e': "cond_signal_all (qf_cond (sy_flows s f)) (sy_engine s) = Inr ([], e')"
    "sched_ok e' ((queue_at s)(At_Flow f := [])) (sy_pc s)" "en_kept (sy_engine s) e'"
    "en_run_queue e' = en_run_queue (sy_engine s) @ qf_cond (sy_flows s f)" by auto
  let ?s = "s\<lparr>sy_flows := (sy_flows s)(f := (sy_flows s f)\<lparr>qf_enqueued := qf_enqueued (sy_flows s f) - n, qf_cond := []\<rparr>), sy_engine := e'\<rparr>"
  have "qf_enqueued (sy_flows s f) - n \<le> qf_enqueued (sy_flows s f)" using n by (simp add: word_sub_le)
  then have fl: "flow_ok (sizes g) (sy_flows ?s g)" for g
    using sys_inv_parts(3) [OF inv, of g] by (auto simp: flow_ok_def)
  have "sy_release f n s = Inr ?s" using n e'(1) by (simp add: sy_release_def flow_release_def)
  moreover note sys_inv_woken [of sizes s e' ?s, OF inv _ e'(3) _ fl _ _ e'(4)]
  ultimately show thesis using that [of ?s] e'(2) by simp
qed

text \<open>The engine may gain or lose contexts that wait nowhere.\<close>

lemma sched_engine:
  assumes "sched_ok e q pc" "en_counts e'" "in_state e' SUSPENDED = in_state e SUSPENDED"
    "\<And>c. c \<in> dom (en_contexts e) - dom (en_contexts e') \<Longrightarrow> pc c = Outside"
  shows "sched_ok e' q pc"
proof -
  have "pc c = Outside" if "c \<notin> dom (en_contexts e')" for c
    using assms(1,4) that by (cases "c \<in> dom (en_contexts e)") (auto simp: sched_ok_def)
  then show ?thesis using assms(1,2,3) by (simp add: sched_ok_def)
qed

lemma sy_spawn_ok:
  assumes inv: "sys_inv sizes s" and h: "en_contexts (sy_engine s) (Some h) = None"
  obtains s' where "sy_spawn h u s = Inr s'" "sys_inv sizes s'" "fifo_step s s'"
proof -
  from en_create_context_ok [OF sys_inv_parts(2) [OF inv] h] obtain e' where e': "en_create_context h u (sy_engine s) = Inr e'"
    "en_inv e'" "en_current_ctx e' = sy_current s" "en_run_queue e' = en_run_queue (sy_engine s) @ [Some h]"
    "in_state e' SUSPENDED = in_state (sy_engine s) SUSPENDED"
    "dom (en_contexts e') = insert (Some h) (dom (en_contexts (sy_engine s)))" "callback_of e' = callback_of (sy_engine s)" by metis
  have "sched_ok e' (queue_at s) (sy_pc s)"
    by (rule sched_engine [OF sys_inv_parts(1) [OF inv] _ e'(5)]) (use e'(2,6) in \<open>auto simp: en_inv_def\<close>)
  then have "sys_inv sizes (s\<lparr>sy_engine := e'\<rparr>)" using inv e'(2,7) by (simp add: sys_inv_def)
  moreover have "fifo_step s (s\<lparr>sy_engine := e'\<rparr>)" using e'(3,4) by (simp add: fifo_step_def sy_got_def)
  ultimately show thesis using that e'(1) by (simp add: sy_spawn_def)
qed

lemma jobs_ok_new_thread:
  assumes "jobs_ok cb jb pc" "cb c = None" "\<not> jb_done (jb j)" "\<And>d. cb d \<noteq> Some j"
  shows "jobs_ok (cb(c := Some j)) jb pc"
proof -
  have kept: "\<exists>d. (cb(c := Some j)) d = Some i" if "cb a = Some i" for a i
    using assms(2) that by (intro exI [of _ a]) auto
  show ?thesis unfolding jobs_ok_def
  proof (intro conjI allI impI)
    show "jb_wait_queue (jb i) = []" if "jb_done (jb i)" for i using assms(1) that by (simp add: jobs_ok_def)
    show "pc d \<noteq> In_Join []" for d using assms(1) by (simp add: jobs_ok_def)
    show "jb_done (jb i) \<or> (\<exists>d. (cb(c := Some j)) d = Some i)" if "pc b = In_Join is \<and> i \<in> set is" for b "is" i
      using jobs_okD(2) [OF assms(1)] that kept by blast
    show "jb_done (jb i)" if "pc b = In_Join (i # is) \<and> b \<notin> set (jb_wait_queue (jb i))" for b i "is"
      using jobs_okD(1) [OF assms(1)] that by blast
    show "a = b" if "(cb(c := Some j)) a = Some i \<and> (cb(c := Some j)) b = Some i" for a b i
      using jobs_okD(3) [OF assms(1), of a i b] that assms(4) by (auto split: if_splits)
    show "(cb(c := Some j)) d \<noteq> Some i" if "jb_done (jb i)" for i d
      using jobs_okD(4) [OF assms(1) that, of d] that assms(3) by auto
  qed
qed

lemma sy_run_job_ok:
  assumes inv: "sys_inv sizes s" and h: "en_contexts (sy_engine s) (Some h) = None" and j: "sy_jobs s j = job_new"
    and new: "\<not> sy_known_job s j"
  obtains s' where "sy_run_job h j s = Inr s'" "sys_inv sizes s'" "fifo_step s s'"
proof -
  from en_create_context_ok [OF sys_inv_parts(2) [OF inv] h] obtain e1 where e1: "en_create_context h True (sy_engine s) = Inr e1"
    "en_inv e1" "en_current_ctx e1 = sy_current s" "en_run_queue e1 = en_run_queue (sy_engine s) @ [Some h]"
    "in_state e1 SUSPENDED = in_state (sy_engine s) SUSPENDED"
    "dom (en_contexts e1) = insert (Some h) (dom (en_contexts (sy_engine s)))" "callback_of e1 = callback_of (sy_engine s)" by metis
  have "Some h \<in> dom (en_contexts e1)" by (simp add: e1(6))
  from en_set_terminate_callback_ok [OF e1(2) this, of j] obtain e' where e': "en_set_terminate_callback (Some h) j e1 = Inr e'"
    "en_inv e'" "en_current_ctx e' = en_current_ctx e1" "en_run_queue e' = en_run_queue e1" "in_state e' = in_state e1"
    "dom (en_contexts e') = dom (en_contexts e1)" "callback_of e' = (callback_of e1)(Some h := Some j)" by metis
  let ?s = "s\<lparr>sy_jobs := (sy_jobs s)(j := job_new), sy_engine := e'\<rparr>"
  have js: "(sy_jobs s)(j := job_new) = sy_jobs s" using j by (simp add: fun_upd_idem)
  have q: "queue_at ?s = queue_at s" unfolding js by simp
  have "sched_ok e' (queue_at s) (sy_pc s)"
    by (rule sched_engine [OF sys_inv_parts(1) [OF inv]]) (use e'(2,5,6) e1(5,6) in \<open>auto simp: en_inv_def\<close>)
  moreover have "callback_of (sy_engine s) (Some h) = None" using h by (simp add: callback_of_def)
  with new have "jobs_ok (callback_of e') (sy_jobs s) (sy_pc s)"
    using jobs_ok_new_thread [OF sys_inv_parts(4) [OF inv], of "Some h" j] by (simp add: e'(7) e1(7) sy_known_job_def)
  ultimately have "sys_inv sizes ?s" using inv e'(2) unfolding sys_inv_def q js by simp
  moreover have "fifo_step s ?s" using e1(3,4) e'(3,4) by (simp add: fifo_step_def sy_got_def)
  moreover have "sy_run_job h j s = Inr ?s" using j e1(1) e'(1) by (simp add: sy_run_job_def job_run_def job_new_def Let_def)
  ultimately show thesis using that by blast
qed

lemma jobs_ok_park:
  assumes "jobs_ok cb jb pc" "\<not> jb_done (jb j)" "\<forall>i\<in>set (j # js). jb_done (jb i) \<or> (\<exists>d. cb d = Some i)"
  shows "jobs_ok cb (jb(j := (jb j)\<lparr>jb_wait_queue := jb_wait_queue (jb j) @ [c]\<rparr>)) (pc(c := In_Join (j # js)))"
proof -
  let ?jb = "jb(j := (jb j)\<lparr>jb_wait_queue := jb_wait_queue (jb j) @ [c]\<rparr>)"
  have d: "jb_done (?jb i) \<longleftrightarrow> jb_done (jb i)" "set (jb_wait_queue (jb i)) \<subseteq> set (jb_wait_queue (?jb i))"
    "jb_done (jb i) \<Longrightarrow> jb_wait_queue (?jb i) = jb_wait_queue (jb i)" for i
    using assms(2) by auto
  have c: "c \<in> set (jb_wait_queue (?jb j))" by simp
  show ?thesis
    unfolding jobs_ok_def d(1)
  proof (intro conjI allI impI)
    show "jb_wait_queue (?jb i) = []" if "jb_done (jb i)" for i using assms(1) that d(3) by (simp add: jobs_ok_def)
    show "(pc(c := In_Join (j # js))) d \<noteq> In_Join []" for d using assms(1) by (simp add: jobs_ok_def)
    show "jb_done (jb i) \<or> (\<exists>d. cb d = Some i)" if "(pc(c := In_Join (j # js))) b = In_Join is \<and> i \<in> set is" for b "is" i
      using that assms(1,3) unfolding jobs_ok_def by (cases "b = c") auto
    show "a = b" if "cb a = Some i \<and> cb b = Some i" for a b i using jobs_okD(3) [OF assms(1)] that by blast
    show "cb d \<noteq> Some i" if "jb_done (jb i)" for i d using jobs_okD(4) [OF assms(1)] that by blast
    show "jb_done (jb i)" if "(pc(c := In_Join (j # js))) b = In_Join (i # is) \<and> b \<notin> set (jb_wait_queue (?jb i))" for b i "is"
    proof (cases "b = c")
      case True
      then show ?thesis using that c by auto
    next
      case False
      then have "pc b = In_Join (i # is)" "b \<notin> set (jb_wait_queue (jb i))" using that d(2) [of i] by auto
      then show ?thesis by (rule jobs_okD(1) [OF assms(1)])
    qed
  qed
qed

lemma sy_join_ok:
  assumes inv: "sys_inv sizes s" and cur: "sy_current s \<noteq> idle_ctx" and known: "\<forall>j\<in>set js. sy_known_job s j"
  shows "\<exists>s'. sy_join js s = Inr s' \<and> sys_inv sizes s' \<and> fifo_step s s'"
  using known
proof (induction js)
  case Nil
  have "sys_inv sizes (sy_goto Outside s)" "fifo_step s (sy_goto Outside s)"
    by (rule sys_inv_goto [OF inv cur, where p = Outside], simp_all add: sys_inv_parts [OF inv])+
  then show ?case by simp
next
  case (Cons j js)
  show ?case
  proof (cases "jb_done (sy_jobs s j)")
    case True
    then show ?thesis using Cons by (simp add: job_wait_def)
  next
    case False
    from sys_inv_parked [OF inv cur, of "In_Join (j # js)" "At_Job j"] obtain e' where e': "en_yield False (sy_engine s) = Inr (True, e')"
      "\<And>s'. sy_engine s' = e' \<Longrightarrow> queue_at s' = (queue_at s)(At_Job j := jb_wait_queue (sy_jobs s j) @ [sy_current s]) \<Longrightarrow>
        sy_pc s' = (sy_pc s)(sy_current s := In_Join (j # js)) \<Longrightarrow> (\<And>f. flow_ok (sizes f) (sy_flows s' f)) \<Longrightarrow>
        jobs_ok (callback_of (sy_engine s)) (sy_jobs s') (sy_pc s') \<Longrightarrow> sys_inv sizes s' \<and> fifo_step s s'" by auto
    let ?s = "(sy_goto (In_Join (j # js)) s)\<lparr>sy_jobs := (sy_jobs s)(j := (sy_jobs s j)
        \<lparr>jb_wait_queue := jb_wait_queue (sy_jobs s j) @ [sy_current s]\<rparr>), sy_engine := e'\<rparr>"
    have "sy_join (j # js) s = Inr ?s" using False e'(1) by (simp add: job_wait_def Let_def)
    moreover have "queue_at ?s = (queue_at s)(At_Job j := jb_wait_queue (sy_jobs s j) @ [sy_current s])"
      using queue_at_set(4) [of "sy_goto (In_Join (j # js)) s"] by simp
    moreover have "jobs_ok (callback_of (sy_engine s)) (sy_jobs ?s) (sy_pc ?s)"
      using jobs_ok_park [OF sys_inv_parts(4) [OF inv] False, of js "sy_current s"] Cons.prems by (simp add: sy_known_job_def)
    ultimately have "sys_inv sizes ?s \<and> fifo_step s ?s" by (intro e'(2)) (simp_all add: sys_inv_parts(3) [OF inv])
    then show ?thesis using \<open>sy_join (j # js) s = Inr ?s\<close> by blast
  qed
qed

lemma sy_joined_ok:
  assumes inv: "sys_inv sizes s" and cur: "sy_current s \<noteq> idle_ctx" and pc: "sy_pc s (sy_current s) = In_Join js"
  shows "\<exists>s'. sy_joined js s = Inr s' \<and> sys_inv sizes s' \<and> fifo_step s s'"
proof -
  note ok = sys_inv_parts(4) [OF inv]
  obtain j js' where js: "js = j # js'" using ok pc by (cases js) (auto simp: jobs_ok_def)
  have "sy_current s \<notin> set (jb_wait_queue (sy_jobs s j))"
    using current_not_queued [OF sys_inv_parts(1,2) [OF inv], of "At_Job j"] by simp
  then have "jb_done (sy_jobs s j)" using jobs_okD(1) [OF ok] pc js by blast
  moreover have "\<forall>j\<in>set js'. sy_known_job s j" using jobs_okD(2) [OF ok pc] js by (simp add: sy_known_job_def)
  ultimately show ?thesis using sy_join_ok [OF inv cur, of js'] js by simp
qed

lemma sy_yield_ok:
  assumes inv: "sys_inv sizes s" and cur: "sy_current s \<noteq> idle_ctx"
  obtains s' where "sy_yield s = Inr s'" "sys_inv sizes s'" "fifo_step s s'"
proof -
  note ei = sys_inv_parts(2) [OF inv]
  from en_yield_ok [OF ei cur, of True] obtain e' where e': "en_yield True (sy_engine s) = Inr (True, e')" "en_inv e'"
    "same_contexts (sy_engine s) e'"
    "en_current_ctx e' = (if en_run_queue (sy_engine s) = [] then idle_ctx else hd (en_run_queue (sy_engine s)))"
    "en_run_queue e' = tl (en_run_queue (sy_engine s)) @ [sy_current s]"
    "in_state e' SUSPENDED = in_state (sy_engine s) SUSPENDED" by auto
  have "sched_ok e' (queue_at s) (sy_pc s)"
    by (rule sched_engine [OF sys_inv_parts(1) [OF inv] _ e'(6)]) (use e'(2,3) in \<open>auto simp: en_inv_def same_contexts_def\<close>)
  then have "sys_inv sizes (s\<lparr>sy_engine := e'\<rparr>)" using inv e'(2,3) by (simp add: sys_inv_def same_contexts_def)
  moreover have "fifo_step s (s\<lparr>sy_engine := e'\<rparr>)" by (rule fifo_next [OF ei, of _ "[sy_current s]"]) (use e'(4,5) in simp_all)
  ultimately show thesis using that e'(1) by (simp add: sy_yield_def)
qed

lemma en_run_round_same:
  "en_inv (en_run_round e) = en_inv e" "in_state (en_run_round e) = in_state e" "callback_of (en_run_round e) = callback_of e"
  "en_run_queue (en_run_round e) = en_run_queue e" "en_current_ctx (en_run_round e) = en_current_ctx e"
  "dom (en_contexts (en_run_round e)) = dom (en_contexts e)" "en_suspended_ctx (en_run_round e) = en_suspended_ctx e"
  "user_contexts (en_run_round e) = user_contexts e"
  by (simp_all add: en_run_round_def en_terminate_def en_inv_def en_counts_def callback_of_def fun_eq_iff)

lemma sy_idle_ok:
  assumes inv: "sys_inv sizes s" and cur: "sy_current s = idle_ctx"
  obtains s' where "sy_idle s = Inr s'" "sys_inv sizes s'" "fifo_step s s'"
    "sy_run s' = (if en_run_queue (sy_engine s) \<noteq> [] \<or> en_suspended_ctx (sy_engine s) \<noteq> 0 then In_Yield else Run_Ended)"
    "dom (en_contexts (sy_engine s')) = dom (en_contexts (sy_engine s))"
proof -
  note ei = sys_inv_parts(2) [OF inv]
  define e where "e = (if sy_run s = In_Yield then en_run_round (sy_engine s) else sy_engine s)"
  have e: "en_inv e" "in_state e = in_state (sy_engine s)" "callback_of e = callback_of (sy_engine s)"
    "en_run_queue e = en_run_queue (sy_engine s)" "en_current_ctx e = idle_ctx"
    "dom (en_contexts e) = dom (en_contexts (sy_engine s))" "en_suspended_ctx e = en_suspended_ctx (sy_engine s)"
    using ei cur by (simp_all add: e_def en_run_round_same)
  from en_yield_idle [OF e(1,5), of False] obtain e' where e':
    "en_yield False e = Inr (en_run_queue e \<noteq> [] \<or> en_suspended_ctx e \<noteq> 0, e')" "en_inv e'" "same_contexts e e'"
    "en_current_ctx e' = (if en_run_queue e = [] then idle_ctx else hd (en_run_queue e))"
    "en_run_queue e' = tl (en_run_queue e)" "in_state e' SUSPENDED = in_state e SUSPENDED" by metis
  let ?s = "s\<lparr>sy_engine := e', sy_run := (if en_run_queue e \<noteq> [] \<or> en_suspended_ctx e \<noteq> 0 then In_Yield else Run_Ended)\<rparr>"
  have d: "dom (en_contexts e') = dom (en_contexts (sy_engine s))" using e'(3) e(6) by (simp add: same_contexts_def)
  have "sched_ok e' (queue_at s) (sy_pc s)"
    by (rule sched_engine [OF sys_inv_parts(1) [OF inv]]) (use e'(2,6) e(2) d in \<open>auto simp: en_inv_def\<close>)
  then have "sys_inv sizes ?s" using inv e'(2,3) e(3) by (simp add: sys_inv_def same_contexts_def)
  moreover have "fifo_step s ?s" by (rule fifo_next [OF ei, of _ "[]"]) (use e'(4,5) e(4) in simp_all)
  moreover have "sy_idle s = Inr ?s" using e'(1) by (simp add: sy_idle_def Let_def e_def)
  ultimately show thesis using that d e(4,7) by simp
qed

lemma sy_thread_end_ok:
  assumes inv: "sys_inv sizes s" and cur: "sy_current s \<noteq> idle_ctx" and out: "sy_pc s (sy_current s) = Outside"
  obtains s' where "sy_thread_end s = Inr s'" "sys_inv sizes s'" "fifo_step s s'"
proof -
  let ?c = "sy_current s"
  from en_thread_returned_ok [OF sys_inv_parts(2) [OF inv] cur] obtain e1 where
    e1: "en_thread_returned (sy_engine s) = Inr (callback_of (sy_engine s) ?c, e1)" "en_ending e1"
    "en_current_ctx e1 = ?c" "en_run_queue e1 = en_run_queue (sy_engine s)"
    "in_state e1 SUSPENDED = in_state (sy_engine s) SUSPENDED" "same_contexts (sy_engine s) e1" by metis
  have ok1: "sched_ok e1 (queue_at s) (sy_pc s)"
    by (rule sched_engine [OF sys_inv_parts(1) [OF inv] _ e1(5)]) (use e1(2,6) in \<open>auto simp: en_ending_def same_contexts_def\<close>)
  have cb1: "callback_of e1 = callback_of (sy_engine s)" using e1(6) by (simp add: same_contexts_def)
  obtain s2 where s2: "(case callback_of (sy_engine s) ?c of None \<Rightarrow> Inr (s\<lparr>sy_engine := e1\<rparr>)
      | Some j \<Rightarrow> res_bind (job_signal (sy_jobs s j) e1) (\<lambda>(jb, e). Inr (s\<lparr>sy_jobs := (sy_jobs s)(j := jb), sy_engine := e\<rparr>))) = Inr s2"
    "sched_ok (sy_engine s2) (queue_at s2) (sy_pc s2)" "en_kept e1 (sy_engine s2)" "sy_pc s2 = sy_pc s" "sy_flows s2 = sy_flows s"
    "jobs_ok ((callback_of (sy_engine s))(?c := None)) (sy_jobs s2) (sy_pc s)"
    "\<exists>later. en_run_queue (sy_engine s2) = en_run_queue e1 @ later"
  proof (cases "callback_of (sy_engine s) ?c")
    case None
    then have "(callback_of (sy_engine s))(?c := None) = callback_of (sy_engine s)" by (simp add: fun_upd_idem)
    then show thesis using that [of "s\<lparr>sy_engine := e1\<rparr>"] None ok1 sys_inv_parts(4) [OF inv] by simp
  next
    case (Some j)
    from wake_all [OF ok1, of "At_Job j"] obtain e2 where e2: "cond_signal_all (jb_wait_queue (sy_jobs s j)) e1 = Inr ([], e2)"
      "sched_ok e2 ((queue_at s)(At_Job j := [])) (sy_pc s)" "en_kept e1 e2"
      "en_run_queue e2 = en_run_queue e1 @ jb_wait_queue (sy_jobs s j)" by auto
    let ?jb = "(sy_jobs s)(j := (sy_jobs s j)\<lparr>jb_done := True, jb_wait_queue := []\<rparr>)"
    have "jobs_ok ((callback_of (sy_engine s))(?c := None)) ?jb (sy_pc s)"
      unfolding jobs_ok_def
    proof (intro conjI allI impI)
      note ok = sys_inv_parts(4) [OF inv]
      show "jb_wait_queue (?jb i) = []" if "jb_done (?jb i)" for i using ok that by (cases "i = j") (auto simp: jobs_ok_def)
      show "sy_pc s d \<noteq> In_Join []" for d using ok by (simp add: jobs_ok_def)
      show "jb_done (?jb i) \<or> (\<exists>d. ((callback_of (sy_engine s))(?c := None)) d = Some i)"
        if "sy_pc s b = In_Join is \<and> i \<in> set is" for b "is" i
      proof (cases "i = j")
        case False
        from jobs_okD(2) [OF ok, of b "is" i] that have "jb_done (sy_jobs s i) \<or> (\<exists>d. callback_of (sy_engine s) d = Some i)" by blast
        then show ?thesis using False Some by (metis fun_upd_apply option.inject)
      qed simp
      show "a = b" if "((callback_of (sy_engine s))(?c := None)) a = Some i \<and> ((callback_of (sy_engine s))(?c := None)) b = Some i" for a b i
        using jobs_okD(3) [OF ok, of a i b] that by (auto split: if_splits)
      show "((callback_of (sy_engine s))(?c := None)) d \<noteq> Some i" if "jb_done (?jb i)" for i d
        using jobs_okD(3) [OF ok, of ?c j d] jobs_okD(4) [OF ok, of i d] that Some by (cases "i = j") auto
      show "jb_done (?jb i)" if "sy_pc s b = In_Join (i # is) \<and> b \<notin> set (jb_wait_queue (?jb i))" for b i "is"
        using jobs_okD(1) [OF ok, of b i "is"] that by (cases "i = j") auto
    qed
    then show thesis using that [of "s\<lparr>sy_jobs := ?jb, sy_engine := e2\<rparr>"] Some e2 by (simp add: job_signal_def Let_def del: fun_upd_apply)
  qed
  have en2: "en_ending (sy_engine s2)" "en_current_ctx (sy_engine s2) = ?c" "callback_of (sy_engine s2) = callback_of (sy_engine s)"
    "dom (en_contexts (sy_engine s2)) = dom (en_contexts (sy_engine s))"
    using e1(2,3,6) s2(2,3) cb1 by (simp_all add: en_ending_def en_kept_def sched_ok_def same_contexts_def)
  from en_thread_gone_ok [OF en2(1)] obtain e3 where e3: "en_thread_gone (sy_engine s2) = Inr e3" "en_inv e3" "en_current_ctx e3 = idle_ctx"
    "en_run_queue e3 = en_run_queue (sy_engine s2)" "in_state e3 SUSPENDED = in_state (sy_engine s2) SUSPENDED"
    "dom (en_contexts e3) = dom (en_contexts (sy_engine s2)) - {en_current_ctx (sy_engine s2)}"
    "callback_of e3 = (callback_of (sy_engine s2))(en_current_ctx (sy_engine s2) := None)" by metis
  have "sched_ok e3 (queue_at s2) (sy_pc s2)"
    by (rule sched_engine [OF s2(2) _ e3(5)]) (use e3(2,6) en2 s2(4) out in \<open>auto simp: en_inv_def\<close>)
  then have "sys_inv sizes (s2\<lparr>sy_engine := e3\<rparr>)"
    using sys_inv_parts(3) [OF inv] e3(2,7) en2 s2(4,5,6) by (simp add: sys_inv_def)
  moreover have "fifo_step s (s2\<lparr>sy_engine := e3\<rparr>)" using s2(7) e1(4) e3(3,4) by (auto simp: fifo_step_def sy_got_def)
  moreover have "sy_thread_end s = Inr (s2\<lparr>sy_engine := e3\<rparr>)" using e1(1) s2(1) e3(1) by (simp add: sy_thread_end_def)
  ultimately show thesis using that by blast
qed

end
