(* ===== verification/Thread_System.thy ===== *)
theory Thread_System
  imports Thread_Sync
begin

text \<open>
  What holds of the cooperative threads in every state that the system can reach: where each thread is, in which
  order threads run, and what mutexes, flow control and jobs promise.
\<close>

section \<open>Every step keeps the invariant\<close>

text \<open>The assertions that a program can trip: unlocking what it does not own, releasing more than was acquired,
  and being woken for a mutex that somebody else has taken in between.\<close>

definition sy_trips :: "system \<Rightarrow> thread_op \<Rightarrow> bool" where
  "sy_trips s p = (case p of
      Unlock m \<Rightarrow> mx_owner (sy_mutexes s m) \<noteq> Some (sy_current s)
    | Release f n \<Rightarrow> \<not> n \<le> qf_enqueued (sy_flows s f)
    | Resume \<Rightarrow> (case sy_pc s (sy_current s) of In_Lock m \<Rightarrow> mx_owner (sy_mutexes s m) \<noteq> None | _ \<Rightarrow> False)
    | _ \<Rightarrow> False)"

lemma sy_op_trips: "sy_trips s p \<Longrightarrow> sy_op p s = Inl Assertion"
  by (auto simp: sy_trips_def sy_unlock_def mutex_unlock_def sy_release_def flow_release_def sy_resume_def sy_locked_def
      mutex_woken_def split: thread_op.splits thread_pc.splits)

lemma sy_resume_ok:
  assumes inv: "sys_inv sizes s" and cur: "sy_current s \<noteq> idle_ctx" and t: "\<not> sy_trips s Resume"
  shows "\<exists>s'. sy_resume s = Inr s' \<and> sys_inv sizes s' \<and> fifo_step s s'"
proof (cases "sy_pc s (sy_current s)")
  case Outside
  then show ?thesis using inv by (simp add: sy_resume_def fifo_step_def sy_got_def)
next
  case (In_Wait k)
  have "sys_inv sizes (sy_goto Outside s)" "fifo_step s (sy_goto Outside s)"
    by (rule sys_inv_goto [OF inv cur, where p = Outside], simp_all add: sys_inv_parts [OF inv])+
  then show ?thesis using In_Wait by (simp add: sy_resume_def)
next
  case (In_Lock m)
  then have "mx_owner (sy_mutexes s m) = None" using t by (simp add: sy_trips_def)
  then show ?thesis using In_Lock by (auto simp: sy_resume_def intro: sy_locked_ok [OF inv cur])
next
  case (In_Acquire f)
  then show ?thesis by (auto simp: sy_resume_def intro: sy_acquire_ok [OF inv cur])
next
  case (In_Join js)
  then show ?thesis using sy_joined_ok [OF inv cur] by (simp add: sy_resume_def)
next
  case In_IO
  have "sys_inv sizes (sy_goto Outside s)" "fifo_step s (sy_goto Outside s)"
    by (rule sys_inv_goto [OF inv cur, where p = Outside], simp_all add: sys_inv_parts [OF inv])+
  then show ?thesis using In_IO by (simp add: sy_resume_def)
qed

lemma sy_op_ok:
  assumes inv: "sys_inv sizes s" and al: "sy_allows s p" and t: "\<not> sy_trips s p"
  shows "\<exists>s'. sy_op p s = Inr s' \<and> sys_inv sizes s' \<and> fifo_step s s'"
proof (cases p)
  case Yield then show ?thesis using al by (auto intro: sy_yield_ok [OF inv])
next
  case (Spawn h u) then show ?thesis using al by (auto intro: sy_spawn_ok [OF inv])
next
  case (Wait k) then show ?thesis using al by (auto intro: sy_wait_ok [OF inv])
next
  case (Signal k) then show ?thesis by (auto intro: sy_signal_ok [OF inv])
next
  case (Signal_All k) then show ?thesis by (auto intro: sy_signal_all_ok [OF inv])
next
  case (Lock m) then show ?thesis using al by (auto intro: sy_lock_ok [OF inv])
next
  case (Unlock m) then show ?thesis using t by (auto simp: sy_trips_def intro: sy_unlock_ok [OF inv])
next
  case (Acquire f) then show ?thesis using al by (auto intro: sy_acquire_ok [OF inv])
next
  case (Release f n) then show ?thesis using t by (auto simp: sy_trips_def intro: sy_release_ok [OF inv])
next
  case (Run_Job h j) then show ?thesis using al by (auto intro: sy_run_job_ok [OF inv])
next
  case (Join js) then show ?thesis using al sy_join_ok [OF inv] by simp
next
  case Submit then show ?thesis using al by (auto intro: sy_submit_ok [OF inv])
next
  case (Complete c) then show ?thesis using al by (auto intro: sy_complete_ok [OF inv])
next
  case Resume then show ?thesis using al t sy_resume_ok [OF inv] by simp
next
  case End_Thread then show ?thesis using al by (auto intro: sy_thread_end_ok [OF inv])
next
  case Idle_Round then show ?thesis using al by (auto intro: sy_idle_ok [OF inv])
qed

lemma sy_step_inv:
  assumes "sys_inv sizes s" "sy_step s p s'" shows "sys_inv sizes s'" "fifo_step s s'"
proof -
  have al: "sy_allows s p" and op: "sy_op p s = Inr s'" using assms(2) by (auto elim: sy_stepE)
  then have "\<not> sy_trips s p" using sy_op_trips by fastforce
  with sy_op_ok [OF assms(1) al] op show "sys_inv sizes s'" "fifo_step s s'" by auto
qed

lemma sy_trace_inv: "sy_trace s cs s' \<Longrightarrow> sys_inv sizes s \<Longrightarrow> sys_inv sizes s'"
  by (induction rule: sy_trace.induct) (auto dest: sy_step_inv(1))

lemma sy_reachable_inv: "sy_reachable sizes s \<Longrightarrow> sys_inv sizes s"
  using sy_trace_inv system_start_inv by (auto simp: sy_reachable_def)

text \<open>Runs of the system: the contexts that get the processor, and the state at the end.\<close>

fun sy_exec :: "thread_op list \<Rightarrow> system \<Rightarrow> (context_id list \<times> system) res" where
  "sy_exec [] s = Inr ([], s)"
| "sy_exec (p # ps) s = res_assert (sy_allows s p) (res_bind (sy_op p s) (\<lambda>s'.
     res_bind (sy_exec ps s') (\<lambda>(cs, s''). Inr (sy_got s s' @ cs, s''))))"

lemma sy_trace_Cons: "sy_trace s' cs s'' \<Longrightarrow> sy_step s p s' \<Longrightarrow> sy_trace s (sy_got s s' @ cs) s''"
proof (induction rule: sy_trace.induct)
  case st_here
  then show ?case using st_step [OF sy_trace.st_here] by fastforce
next
  case (st_step cs s1 q s2)
  from sy_trace.st_step [OF st_step.IH [OF st_step.prems] st_step.hyps(2)] show ?case by simp
qed

lemma sy_exec_trace: "sy_exec ps s = Inr (cs, s') \<Longrightarrow> sy_trace s cs s'"
proof (induction ps arbitrary: s cs)
  case Nil
  then show ?case by (simp add: st_here)
next
  case (Cons p ps)
  then obtain s1 ds where s1: "sy_allows s p" "sy_op p s = Inr s1" "sy_exec ps s1 = Inr (ds, s')" "cs = sy_got s s1 @ ds"
    by (auto simp: res_assert_eq_Inr res_bind_eq_Inr)
  show ?case unfolding s1(4) by (rule sy_trace_Cons [OF Cons.IH [OF s1(3)]]) (rule sys_step [OF s1(1,2)])
qed

lemma sy_exec_reachable: "sy_exec ps (system_start sizes) = Inr (cs, s) \<Longrightarrow> sy_reachable sizes s"
  unfolding sy_reachable_def using sy_exec_trace by blast

lemmas sy_run_simps = engine_start_def system_start_def job_new_def sy_known_job_def callback_of_def Let_def res_simps
  en_get_def en_set_state_def en_enqueue_def en_suspend_current_def en_switch_to_idle_def en_pop_next_def en_switch_to_next_def
  en_yield_def en_create_context_def en_set_terminate_callback_def en_thread_returned_def en_thread_gone_def en_run_round_def
  en_terminate_def cond_wait_def cond_signal_def mutex_lock_def mutex_woken_def mutex_unlock_def flow_acquire_def flow_release_def
  job_run_def job_wait_def job_signal_def sy_goto_def sy_wait_def sy_signal_def sy_signal_all_def sy_lock_def sy_locked_def
  sy_unlock_def sy_acquire_def sy_release_def sy_run_job_def sy_thread_end_def sy_yield_def sy_idle_def sy_spawn_def sy_resume_def
  sy_submit_def sy_complete_def sy_got_def

text \<open>Two threads and a queue for one request: the first has taken it, the second waits for it.\<close>

definition flow_run :: "thread_op list" where
  "flow_run = [Spawn 0 True, Spawn 1 True, Idle_Round, Acquire 0, Yield, Acquire 0]"

lemma flow_run_state:
  obtains cs s where "sy_exec flow_run (system_start (\<lambda>_. 1)) = Inr (cs, s)" "sy_current s = Some 0" "qf_cond (sy_flows s 0) = [Some 1]"
    "en_run_queue (sy_engine s) = []"
  by (simp add: flow_run_def sy_run_simps)

lemma sy_step_reachable: "sy_reachable sizes s \<Longrightarrow> sy_step s p s' \<Longrightarrow> sy_reachable sizes s'"
  by (auto simp: sy_reachable_def intro: st_step)

section \<open>Where the threads are\<close>

abbreviation waiting_threads :: "system \<Rightarrow> context_id set" where
  "waiting_threads s \<equiv> \<Union>w. set (queue_at s w)"

lemma contexts_by_state:
  "en_inv e \<Longrightarrow> dom (en_contexts e) - {idle_ctx} = ({en_current_ctx e} - {idle_ctx}) \<union> set (en_run_queue e) \<union> in_state e SUSPENDED"
proof -
  assume inv: "en_inv e"
  have "dom (en_contexts e) - {idle_ctx}
      = in_state e RUNNING \<union> in_state e WAITING \<union> in_state e SUSPENDED \<union> in_state e TERMINATED"
  proof (rule set_eqI)
    fix c
    show "c \<in> dom (en_contexts e) - {idle_ctx}
      \<longleftrightarrow> c \<in> in_state e RUNNING \<union> in_state e WAITING \<union> in_state e SUSPENDED \<union> in_state e TERMINATED"
    proof (cases "en_contexts e c")
      case (Some x)
      then show ?thesis by (cases "cx_state x") (simp_all add: in_state_def domIff)
    qed (simp add: in_state_def domIff)
  qed
  then show ?thesis using inv by (simp add: en_inv_def en_counts_def)
qed

lemma unat_card_contexts: "unat (of_nat (card (A :: context_id set)) :: u64) = card A"
  using card_contexts [of A] by (simp add: unat_word_of_nat)

text \<open>
  C28: In every state that can be reached, each thread that exists is at exactly one place and once: it is the
  current one, or in the run queue, or in one queue of waiters, or waits for one request to the kernel; and the
  counters of the engine count the user threads, those of them in the run queue, and all that are suspended.\<close>

theorem threads_consistent:
  assumes "sy_reachable sizes s"
  shows "dom (en_contexts (sy_engine s)) - {idle_ctx}
        = ({sy_current s} - {idle_ctx}) \<union> set (en_run_queue (sy_engine s)) \<union> waiting_threads s
    \<and> sy_current s \<notin> set (en_run_queue (sy_engine s)) \<union> waiting_threads s
    \<and> set (en_run_queue (sy_engine s)) \<inter> waiting_threads s = {} \<and> distinct (en_run_queue (sy_engine s))
    \<and> (\<forall>w. distinct (queue_at s w)) \<and> (\<forall>w w'. w \<noteq> w' \<longrightarrow> set (queue_at s w) \<inter> set (queue_at s w') = {})
    \<and> unat (en_user_ctx (sy_engine s)) = card (user_contexts (sy_engine s))
    \<and> unat (en_suspended_ctx (sy_engine s)) = card (waiting_threads s)
    \<and> unat (en_user_ctx_waiting (sy_engine s)) = card (user_contexts (sy_engine s) \<inter> set (en_run_queue (sy_engine s)))"
proof -
  note inv = sy_reachable_inv [OF assms]
  have ok: "sched_ok (sy_engine s) (queue_at s) (sy_pc s)" and ei: "en_inv (sy_engine s)" using inv by (simp_all add: sys_inv_def)
  have w: "waiting_threads s = in_state (sy_engine s) SUSPENDED" using ok by (simp add: sched_ok_def)
  have r: "set (en_run_queue (sy_engine s)) = in_state (sy_engine s) WAITING" using ei by (simp add: en_inv_def en_counts_def)
  have "sy_current s \<notin> waiting_threads s" using current_not_queued [OF ok ei] by blast
  moreover have "sy_current s \<notin> set (en_run_queue (sy_engine s))" using run_queue_others(1) [OF ei] by blast
  moreover have "set (en_run_queue (sy_engine s)) \<inter> waiting_threads s = {}" unfolding w r by (auto simp: in_state_def)
  moreover have "set (queue_at s v) \<inter> set (queue_at s u) = {}" if "v \<noteq> u" for v u
  proof -
    have "place_of (sy_pc s c) = Some x" if "c \<in> set (queue_at s x)" for c x using ok that by (simp add: sched_ok_def)
    then have "\<And>c. c \<in> set (queue_at s v) \<Longrightarrow> c \<notin> set (queue_at s u)" using that by (metis option.inject)
    then show ?thesis by blast
  qed
  moreover have "distinct (en_run_queue (sy_engine s))" "\<forall>w. distinct (queue_at s w)"
    using ei ok by (simp_all add: en_inv_def en_counts_def sched_ok_def)
  moreover have "unat (en_user_ctx (sy_engine s)) = card (user_contexts (sy_engine s))"
    "unat (en_suspended_ctx (sy_engine s)) = card (waiting_threads s)"
    "unat (en_user_ctx_waiting (sy_engine s)) = card (user_contexts (sy_engine s) \<inter> set (en_run_queue (sy_engine s)))"
    using ei unfolding w r by (simp_all add: en_inv_def en_counts_def unat_card_contexts)
  ultimately show ?thesis using contexts_by_state [OF ei] unfolding w by blast
qed

lemma flow_run_reachable:
  obtains s where "sy_reachable (\<lambda>_. 1) s" "sy_current s = Some 0" "qf_cond (sy_flows s 0) = [Some 1]"
    "en_run_queue (sy_engine s) = []"
  by (rule flow_run_state) (use sy_exec_reachable that in blast)

theorem threads_consistent_witness:
  "\<exists>s. sy_current s = Some 0 \<and> waiting_threads s \<noteq> {} \<and> dom (en_contexts (sy_engine s)) - {idle_ctx} = {Some 0} \<union> waiting_threads s"
proof -
  obtain s where s: "sy_reachable (\<lambda>_. 1) s" "sy_current s = Some 0" "qf_cond (sy_flows s 0) = [Some 1]"
    "en_run_queue (sy_engine s) = []" by (rule flow_run_reachable)
  have "Some 1 \<in> waiting_threads s" by (rule UN_I [of "At_Flow 0"]) (simp_all add: s(3))
  then have "waiting_threads s \<noteq> {}" by blast
  moreover have "dom (en_contexts (sy_engine s)) - {idle_ctx} = {Some 0} \<union> waiting_threads s"
    using threads_consistent [OF s(1)] s(2,4) by simp
  ultimately show ?thesis using s(2) by blast
qed

text \<open>
  C29: Threads run in the order in which they were put into the run queue: whatever the threads do, the contexts
  that get the processor from a state on are, one after the other, those that were in its run queue. So a thread
  with n others in front of it runs after n switches, and none is passed over.\<close>

theorem threads_run_in_order:
  assumes "sy_reachable sizes s" "sy_trace s cs s'"
  shows "(\<exists>later. en_run_queue (sy_engine s) @ later = cs @ en_run_queue (sy_engine s'))
    \<and> (\<forall>i<length cs. i < length (en_run_queue (sy_engine s)) \<longrightarrow> cs ! i = en_run_queue (sy_engine s) ! i)"
proof -
  have "\<exists>later. en_run_queue (sy_engine s) @ later = cs @ en_run_queue (sy_engine s')"
    using assms(2)
  proof (induction rule: sy_trace.induct)
    case st_here
    then show ?case by simp
  next
    case (st_step cs s1 p s2)
    then obtain l1 where l1: "en_run_queue (sy_engine s) @ l1 = cs @ en_run_queue (sy_engine s1)" by blast
    have "fifo_step s1 s2" by (rule sy_step_inv(2) [OF sy_trace_inv [OF st_step.hyps(1) sy_reachable_inv [OF assms(1)]] st_step.hyps(2)])
    then obtain l2 where "en_run_queue (sy_engine s1) @ l2 = sy_got s1 s2 @ en_run_queue (sy_engine s2)" by (auto simp: fifo_step_def)
    then have "en_run_queue (sy_engine s) @ l1 @ l2 = (cs @ sy_got s1 s2) @ en_run_queue (sy_engine s2)"
      using l1 by (metis append.assoc)
    then show ?case by blast
  qed
  then obtain l where l: "en_run_queue (sy_engine s) @ l = cs @ en_run_queue (sy_engine s')" by blast
  then have "cs ! i = en_run_queue (sy_engine s) ! i" if "i < length cs" "i < length (en_run_queue (sy_engine s))" for i
    using that by (metis nth_append)
  then show ?thesis using l by blast
qed

theorem threads_run_in_order_witness:
  "\<exists>s cs s'. sy_trace s cs s' \<and> en_run_queue (sy_engine s) = [Some 0, Some 1] \<and> cs = [Some 0, Some 1, Some 0]
    \<and> (\<exists>later. [Some 0, Some 1] @ later = cs @ en_run_queue (sy_engine s'))"
proof -
  obtain ds s where s: "sy_exec [Spawn 0 True, Spawn 1 True] (system_start (\<lambda>_. 1)) = Inr (ds, s)"
    "en_run_queue (sy_engine s) = [Some 0, Some 1]" and
    n: "\<exists>s'. sy_exec [Idle_Round, Yield, Yield] s = Inr ([Some 0, Some 1, Some 0], s')"
    by (simp add: sy_run_simps)
  from n obtain s' where s': "sy_exec [Idle_Round, Yield, Yield] s = Inr ([Some 0, Some 1, Some 0], s')" by blast
  from threads_run_in_order [OF sy_exec_reachable [OF s(1)] sy_exec_trace [OF s']] show ?thesis
    unfolding s(2) using s(2) sy_exec_trace [OF s'] by blast
qed

section \<open>What the objects promise\<close>

text \<open>
  C30: A flow control never has more in flight than its size, and nobody is left waiting in it while there is
  room: as long as a thread waits, the queue is full.\<close>

theorem flow_bounded:
  assumes "sy_reachable sizes s"
  shows "qf_enqueued (sy_flows s f) \<le> sizes f \<and> (qf_cond (sy_flows s f) \<noteq> [] \<longrightarrow> qf_enqueued (sy_flows s f) = sizes f)"
  using sys_inv_parts(3) [OF sy_reachable_inv [OF assms], of f] by (auto simp: flow_ok_def)

theorem flow_bounded_witness:
  "\<exists>s. sy_reachable (\<lambda>_. 1) s \<and> qf_cond (sy_flows s 0) = [Some 1] \<and> qf_enqueued (sy_flows s 0) = 1"
proof -
  obtain s where s: "sy_reachable (\<lambda>_. 1) s" "sy_current s = Some 0" "qf_cond (sy_flows s 0) = [Some 1]"
    "en_run_queue (sy_engine s) = []" by (rule flow_run_reachable)
  then show ?thesis using flow_bounded [OF s(1), of 0] by auto
qed

text \<open>
  C31: The operations fail in three situations only: \<open>unlock\<close> by a thread that is not the owner, \<open>release\<close> of
  more than was acquired, and a thread woken for a mutex that is taken again. Everything else that the code
  asserts holds, and the next state is one that can be reached.\<close>

theorem threads_fail_only:
  assumes "sy_reachable sizes s" "sy_allows s p"
  shows "case sy_op p s of Inl x \<Rightarrow> x = Assertion \<and> sy_trips s p | Inr s' \<Rightarrow> \<not> sy_trips s p \<and> sy_reachable sizes s'"
proof (cases "sy_trips s p")
  case True
  then show ?thesis by (simp add: sy_op_trips)
next
  case False
  from sy_op_ok [OF sy_reachable_inv [OF assms(1)] assms(2) False] obtain s' where s': "sy_op p s = Inr s'" by blast
  then show ?thesis using False sy_step_reachable [OF assms(1) sys_step [OF assms(2) s']] by simp
qed

text \<open>Two threads and a mutex: the first unlocks it, which wakes the second, and locks it again before that runs.\<close>

definition stolen_run :: "thread_op list" where
  "stolen_run = [Spawn 0 True, Spawn 1 True, Idle_Round, Lock 0, Yield, Lock 0, Unlock 0, Lock 0, Yield]"

lemma stolen_run_state:
  obtains cs s where "sy_exec stolen_run (system_start sizes) = Inr (cs, s)" "sy_allows s Resume"
    "mx_owner (sy_mutexes s 0) = Some (Some 0)" "sy_current s = Some 1" "sy_pc s (Some 1) = In_Lock 0"
  by (simp add: stolen_run_def sy_run_simps)

theorem threads_fail_only_witness:
  "\<exists>s. sy_reachable (\<lambda>_. 1) s \<and> sy_allows s Resume \<and> sy_trips s Resume \<and> sy_op Resume s = Inl Assertion"
proof -
  obtain cs s where s: "sy_exec stolen_run (system_start (\<lambda>_. 1)) = Inr (cs, s)" "sy_allows s Resume"
    "mx_owner (sy_mutexes s 0) = Some (Some 0)" "sy_current s = Some 1" "sy_pc s (Some 1) = In_Lock 0" by (rule stolen_run_state)
  note r = sy_exec_reachable [OF s(1)]
  have t: "sy_trips s Resume" using s by (simp add: sy_trips_def)
  then have "sy_op Resume s = Inl Assertion" using threads_fail_only [OF r s(2)] by (cases "sy_op Resume s") simp_all
  then show ?thesis using r s(2) t by blast
qed

text \<open>A mutex is stolen: the thread that was woken for it finds an owner, and its assertion does not hold.\<close>

lemma mutex_stolen:
  "\<exists>cs s. sy_exec stolen_run (system_start sizes) = Inr (cs, s) \<and> sy_allows s Resume \<and> sy_op Resume s = Inl Assertion"
  by (rule stolen_run_state [of sizes]) (auto simp: sy_resume_def sy_locked_def mutex_woken_def)

text \<open>Only the operations on mutexes touch mutexes.\<close>

lemma sy_join_mutexes: "sy_join js s = Inr s' \<Longrightarrow> sy_mutexes s' = sy_mutexes s"
  by (induction js) (auto simp: res_bind_eq_Inr split: if_splits)

lemma sy_keeps_mutexes:
  "sy_yield s = Inr s' \<Longrightarrow> sy_mutexes s' = sy_mutexes s" "sy_spawn h u s = Inr s' \<Longrightarrow> sy_mutexes s' = sy_mutexes s"
  "sy_wait k s = Inr s' \<Longrightarrow> sy_mutexes s' = sy_mutexes s" "sy_signal k s = Inr s' \<Longrightarrow> sy_mutexes s' = sy_mutexes s"
  "sy_signal_all k s = Inr s' \<Longrightarrow> sy_mutexes s' = sy_mutexes s" "sy_acquire f s = Inr s' \<Longrightarrow> sy_mutexes s' = sy_mutexes s"
  "sy_release f n s = Inr s' \<Longrightarrow> sy_mutexes s' = sy_mutexes s" "sy_run_job h j s = Inr s' \<Longrightarrow> sy_mutexes s' = sy_mutexes s"
  "sy_joined js s = Inr s' \<Longrightarrow> sy_mutexes s' = sy_mutexes s"
  "sy_submit s = Inr s' \<Longrightarrow> sy_mutexes s' = sy_mutexes s" "sy_complete c s = Inr s' \<Longrightarrow> sy_mutexes s' = sy_mutexes s"
  "sy_thread_end s = Inr s' \<Longrightarrow> sy_mutexes s' = sy_mutexes s" "sy_idle s = Inr s' \<Longrightarrow> sy_mutexes s' = sy_mutexes s"
  by (auto simp: sy_yield_def sy_spawn_def sy_wait_def sy_signal_def sy_signal_all_def sy_acquire_def sy_release_def sy_run_job_def
      sy_submit_def sy_complete_def sy_thread_end_def sy_idle_def Let_def res_bind_eq_Inr split: option.splits)
    (cases js, auto simp: res_assert_eq_Inr dest: sy_join_mutexes)

lemma sy_op_mutexes:
  assumes "sy_op p s = Inr s'"
  shows "(\<exists>n. p = Lock n \<and> sy_lock n s = Inr s') \<or> (\<exists>n. p = Unlock n \<and> sy_unlock n s = Inr s')
    \<or> (\<exists>n. p = Resume \<and> sy_pc s (sy_current s) = In_Lock n \<and> sy_locked n s = Inr s') \<or> sy_mutexes s' = sy_mutexes s"
proof (cases p)
  case Resume
  then show ?thesis using assms sy_keeps_mutexes by (cases "sy_pc s (sy_current s)") (auto simp: sy_resume_def)
next
  case (Join js)
  then show ?thesis using assms sy_join_mutexes by simp
qed (use assms sy_keeps_mutexes in auto)

lemma sy_lock_mutexes:
  "sy_lock n s = Inr s' \<Longrightarrow> (if mx_owner (sy_mutexes s n) = None then mx_owner (sy_mutexes s' n) = Some (sy_current s)
      else mx_owner (sy_mutexes s' n) = mx_owner (sy_mutexes s n) \<and> sy_pc s' (sy_current s) = In_Lock n)"
  "sy_lock n s = Inr s' \<Longrightarrow> m \<noteq> n \<Longrightarrow> sy_mutexes s' m = sy_mutexes s m"
  by (auto simp: sy_lock_def mutex_lock_def Let_def res_bind_eq_Inr)

lemma sy_locked_mutexes:
  "sy_locked n s = Inr s' \<Longrightarrow> mx_owner (sy_mutexes s n) = None \<and> mx_owner (sy_mutexes s' n) = Some (sy_current s)"
  "sy_locked n s = Inr s' \<Longrightarrow> m \<noteq> n \<Longrightarrow> sy_mutexes s' m = sy_mutexes s m"
  by (auto simp: sy_locked_def mutex_woken_def res_bind_eq_Inr res_assert_eq_Inr)

lemma sy_unlock_mutexes:
  "sy_unlock n s = Inr s' \<Longrightarrow> mx_owner (sy_mutexes s n) = Some (sy_current s) \<and> mx_owner (sy_mutexes s' n) = None"
  "sy_unlock n s = Inr s' \<Longrightarrow> m \<noteq> n \<Longrightarrow> sy_mutexes s' m = sy_mutexes s m"
  by (auto simp: sy_unlock_def mutex_unlock_def Let_def res_bind_eq_Inr res_assert_eq_Inr split: list.splits)

text \<open>
  C32: Mutual exclusion: \<open>lock\<close> returns to a thread as the owner only, and whoever owns a mutex owns it until
  that same thread unlocks it.\<close>

theorem mutex_kept:
  assumes "sy_step s p s'"
  shows "(mx_owner (sy_mutexes s m) = Some c \<and> mx_owner (sy_mutexes s' m) \<noteq> Some c \<longrightarrow>
        p = Unlock m \<and> sy_current s = c \<and> mx_owner (sy_mutexes s' m) = None)
    \<and> ((p = Lock m \<or> p = Resume \<and> sy_pc s (sy_current s) = In_Lock m) \<and> sy_pc s' (sy_current s) = Outside \<longrightarrow>
        mx_owner (sy_mutexes s m) = None \<and> mx_owner (sy_mutexes s' m) = Some (sy_current s))"
proof -
  have al: "sy_allows s p" and op: "sy_op p s = Inr s'" using assms by (auto elim: sy_stepE)
  consider n where "p = Lock n" "sy_lock n s = Inr s'" | n where "p = Unlock n" "sy_unlock n s = Inr s'"
    | n where "p = Resume" "sy_pc s (sy_current s) = In_Lock n" "sy_locked n s = Inr s'"
    | "sy_mutexes s' = sy_mutexes s" "\<And>n. p \<noteq> Lock n" "p = Resume \<Longrightarrow> \<nexists>n. sy_pc s (sy_current s) = In_Lock n"
    using sy_op_mutexes [OF op] op by (fastforce simp: sy_resume_def)
  then show ?thesis
  proof cases
    case 1
    then show ?thesis using sy_lock_mutexes [OF 1(2)] by (cases "m = n") (auto split: if_splits)
  next
    case 2
    then show ?thesis using sy_unlock_mutexes [OF 2(2)] by (cases "m = n") auto
  next
    case 3
    then show ?thesis using sy_locked_mutexes [OF 3(3)] by (cases "m = n") auto
  next
    case 4
    then show ?thesis by auto
  qed
qed

theorem mutex_kept_witness:
  "\<exists>s s'. sy_step s (Lock 0) s' \<and> mx_owner (sy_mutexes s' 0) = Some (Some 0)"
proof -
  obtain cs s s' where s: "sy_exec [Spawn 0 True, Idle_Round] (system_start (\<lambda>_. 1)) = Inr (cs, s)" "sy_allows s (Lock 0)"
    "sy_op (Lock 0) s = Inr s'" "sy_current s = Some 0" "sy_pc s' (Some 0) = Outside"
    by (simp add: sy_run_simps)
  note st = sys_step [OF s(2,3)]
  from mutex_kept [OF st, of 0] s(4,5) st show ?thesis by auto
qed

lemma sy_join_done:
  "sy_join js s = Inr s' \<Longrightarrow> sy_pc s' (sy_current s) = Outside \<Longrightarrow>
    (\<forall>j\<in>set js. jb_done (sy_jobs s j)) \<and> sy_jobs s' = sy_jobs s \<and> sy_engine s' = sy_engine s"
  by (induction js) (auto simp: job_wait_def Let_def res_bind_eq_Inr split: if_splits)

text \<open>
  C33: \<open>jobs::wait\<close> returns only when the functions of all the jobs have returned: each job is done, and no
  thread of it is left.\<close>

theorem jobs_joined:
  assumes "sy_reachable sizes s" "sy_step s p s'" "p = Join js \<or> p = Resume \<and> sy_pc s (sy_current s) = In_Join js"
    and "sy_pc s' (sy_current s) = Outside" "j \<in> set js"
  shows "jb_done (sy_jobs s' j) \<and> (\<forall>c. callback_of (sy_engine s') c \<noteq> Some j)"
proof -
  have op: "sy_op p s = Inr s'" using assms(2) by (auto elim: sy_stepE)
  note ok = sys_inv_parts(4) [OF sy_reachable_inv [OF assms(1)]]
  have "jb_done (sy_jobs s j) \<and> sy_jobs s' = sy_jobs s \<and> sy_engine s' = sy_engine s"
  proof (cases "p = Join js")
    case True
    then show ?thesis using sy_join_done [of js s s'] op assms(4,5) by simp
  next
    case False
    then have pc: "sy_pc s (sy_current s) = In_Join js" and "sy_joined js s = Inr s'"
      using assms(3) op by (auto simp: sy_resume_def)
    then obtain i is' where i: "js = i # is'" "jb_done (sy_jobs s i)" "sy_join is' s = Inr s'"
      using ok by (cases js) (auto simp: jobs_ok_def res_assert_eq_Inr)
    then show ?thesis using sy_join_done [OF i(3) assms(4)] assms(5) by auto
  qed
  then show ?thesis using jobs_okD(4) [OF ok] by auto
qed

definition join_run :: "thread_op list" where
  "join_run = [Spawn 0 True, Idle_Round, Run_Job 1 7, Join [7], End_Thread, Idle_Round]"

lemma ex_callback_upd:
  "(\<exists>d. (case if d = c then Some x else cx d of None \<Rightarrow> None | Some x \<Rightarrow> cx_terminate_callback x) = Some j)
    \<longleftrightarrow> cx_terminate_callback x = Some j
      \<or> (\<exists>d. d \<noteq> c \<and> (case cx d of None \<Rightarrow> None | Some x \<Rightarrow> cx_terminate_callback x) = Some j)"
  "(\<forall>d. (case if d = c then Some x else cx d of None \<Rightarrow> None | Some x \<Rightarrow> cx_terminate_callback x) \<noteq> Some j)
    \<longleftrightarrow> cx_terminate_callback x \<noteq> Some j
      \<and> (\<forall>d. d \<noteq> c \<longrightarrow> (case cx d of None \<Rightarrow> None | Some x \<Rightarrow> cx_terminate_callback x) \<noteq> Some j)"
  by auto

lemma join_run_state:
  obtains cs s s' where "sy_exec join_run (system_start sizes) = Inr (cs, s)" "sy_allows s Resume" "sy_op Resume s = Inr s'"
    "sy_current s = Some 0" "sy_pc s (Some 0) = In_Join [7]" "sy_pc s' (Some 0) = Outside"
  by (simp add: join_run_def sy_run_simps ex_callback_upd)

theorem jobs_joined_witness:
  "\<exists>s s'. sy_step s Resume s' \<and> sy_pc s (sy_current s) = In_Join [7] \<and> jb_done (sy_jobs s' 7)"
proof -
  obtain cs s s' where s: "sy_exec join_run (system_start (\<lambda>_. 1)) = Inr (cs, s)" "sy_allows s Resume" "sy_op Resume s = Inr s'"
    "sy_current s = Some 0" "sy_pc s (Some 0) = In_Join [7]" "sy_pc s' (Some 0) = Outside" by (rule join_run_state)
  note st = sys_step [OF s(2,3)]
  from jobs_joined [OF sy_exec_reachable [OF s(1)] st, of "[7]" 7] s(4,5,6) have "jb_done (sy_jobs s' 7)" by simp
  then show ?thesis using st s(4,5) by (intro exI [of _ s] exI [of _ s']) simp
qed

text \<open>
  C34: \<open>run\<close> returns exactly when there is no thread any more; as long as one exists, be it queued or waiting,
  the idle context goes on.\<close>

theorem run_returns:
  assumes "sy_reachable sizes s" "sy_step s Idle_Round s'"
  shows "sy_run s' = Run_Ended \<longleftrightarrow> dom (en_contexts (sy_engine s)) = {idle_ctx}"
proof -
  note inv = sy_reachable_inv [OF assms(1)]
  note ei = sys_inv_parts(2) [OF inv]
  have cur: "sy_current s = idle_ctx" and op: "sy_idle s = Inr s'" using assms(2) by (auto elim: sy_stepE)
  have r: "sy_run s' = (if en_run_queue (sy_engine s) \<noteq> [] \<or> en_suspended_ctx (sy_engine s) \<noteq> 0 then In_Yield else Run_Ended)"
    by (rule sy_idle_ok [OF inv cur]) (use op in simp)
  have "en_suspended_ctx (sy_engine s) = 0 \<longleftrightarrow> in_state (sy_engine s) SUSPENDED = {}"
    using ei by (simp add: en_inv_def en_counts_def of_nat_card_0)
  then have "sy_run s' = Run_Ended \<longleftrightarrow> dom (en_contexts (sy_engine s)) - {idle_ctx} = {}"
    using contexts_by_state [OF ei] cur unfolding r by simp
  moreover have "idle_ctx \<in> dom (en_contexts (sy_engine s))" using ei by (auto simp: en_inv_def en_counts_def)
  ultimately show ?thesis by auto
qed

theorem run_returns_witness:
  "\<exists>s s'. sy_step s Idle_Round s' \<and> sy_run s' = Run_Ended \<and> dom (en_contexts (sy_engine s)) = {idle_ctx}"
proof -
  obtain cs s s' where s: "sy_exec [Spawn 0 True, Idle_Round, End_Thread] (system_start (\<lambda>_. 1)) = Inr (cs, s)"
    "sy_allows s Idle_Round" "sy_op Idle_Round s = Inr s'" "sy_run s' = Run_Ended"
    by (simp add: sy_run_simps)
  note st = sys_step [OF s(2,3)]
  from run_returns [OF sy_exec_reachable [OF s(1)] st] s(4) st show ?thesis by auto
qed

end
