(* ===== verification/Stream_IO.thy ===== *)
theory Stream_IO
  imports Prelude
begin

text \<open>
  Byte streams over a connection: \<open>io/channel.cpp\<close>, \<open>channel_reader.cpp\<close>, \<open>channel_writer.cpp\<close>, and the buffers
  of \<open>common/buffered_reader.h\<close> and \<open>buffered_writer.h\<close> on top of them. An exception leaves the objects as they
  are at the throw, so an action gives the state in that case too.
\<close>

section \<open>Actions\<close>

type_synonym ('a, 's) action = "'s \<Rightarrow> 'a res \<times> 's"

definition act_bind :: "('a, 's) action \<Rightarrow> ('a \<Rightarrow> ('b, 's) action) \<Rightarrow> ('b, 's) action" where
  "act_bind m f s = (case m s of (Inl e, s') \<Rightarrow> (Inl e, s') | (Inr x, s') \<Rightarrow> f x s')"

definition act_return :: "'a \<Rightarrow> ('a, 's) action" where
  "act_return x s = (Inr x, s)"

definition act_throw :: "fault \<Rightarrow> ('a, 's) action" where
  "act_throw e s = (Inl e, s)"

lemma act_bind_cong [fundef_cong]:
  "s = s' \<Longrightarrow> m s' = m' s' \<Longrightarrow> (\<And>x t. m' s' = (Inr x, t) \<Longrightarrow> f x t = f' x t) \<Longrightarrow> act_bind m f s = act_bind m' f' s'"
  by (auto simp: act_bind_def split: sum.splits prod.splits)

lemma act_bind_eq_Inr: "act_bind m f s = (Inr y, t) \<longleftrightarrow> (\<exists>x s'. m s = (Inr x, s') \<and> f x s' = (Inr y, t))"
  by (auto simp: act_bind_def split: sum.splits prod.splits)

lemma act_bind_Inr: "m s = (Inr x, s') \<Longrightarrow> act_bind m f s = f x s'"
  by (simp add: act_bind_def)

lemma act_bind_Inl: "m s = (Inl e, s') \<Longrightarrow> act_bind m f s = (Inl e, s')"
  by (simp add: act_bind_def)

section \<open>The channel\<close>

text \<open>
  The system calls behind a channel and the clock, as they change a state of the kernel: what \<open>recv\<close> got or the
  error number, how much \<open>send\<close> took or the error number, and the time. A timeout of 0 is none.
\<close>

record 'k net_io =
  net_recv :: "u32 \<Rightarrow> u64 \<Rightarrow> 'k \<Rightarrow> (int + bytes) \<times> 'k"
  net_send :: "bytes \<Rightarrow> u64 \<Rightarrow> 'k \<Rightarrow> (int + nat) \<times> 'k"
  net_now :: "'k \<Rightarrow> u64 \<times> 'k"

definition ECONNRESET :: int where "ECONNRESET = 104"

definition ECANCELED :: int where "ECANCELED = 125"

definition channel_error :: "int \<Rightarrow> fault" where
  "channel_error e = (if e = ECONNRESET then Thrown ''disconnected_error''
     else if e = ECANCELED then Thrown ''timeout_error'' else Thrown ''runtime_error'')"

definition channel_recv :: "'k net_io \<Rightarrow> u32 \<Rightarrow> u64 \<Rightarrow> (bytes, 'k) action" where
  "channel_recv io sz timeout k = (case net_recv io sz timeout k of
      (Inl e, k') \<Rightarrow> (Inl (channel_error e), k')
    | (Inr d, k') \<Rightarrow> if d = [] then (Inl (Thrown ''disconnected_error''), k') else (Inr d, k'))"

definition channel_send :: "'k net_io \<Rightarrow> bytes \<Rightarrow> u64 \<Rightarrow> (nat, 'k) action" where
  "channel_send io d timeout k = (case net_send io d timeout k of
      (Inl e, k') \<Rightarrow> (Inl (channel_error e), k')
    | (Inr n, k') \<Rightarrow> if n = 0 then (Inl (Thrown ''disconnected_error''), k') else (Inr n, k'))"

lemma channel_send_pos: "channel_send io d timeout k = (Inr n, k') \<Longrightarrow> n \<noteq> 0"
  by (auto simp: channel_send_def split: sum.splits prod.splits if_splits)

text \<open>A kernel that says it sent more than it was given would take the pointer past the data.\<close>

function channel_send_all :: "'k net_io \<Rightarrow> bytes \<Rightarrow> u64 \<Rightarrow> (unit, 'k) action" where
  "channel_send_all io d timeout k =
     (if d = [] then (Inr (), k)
      else let (t1, k1) = net_now io k in
        act_bind (channel_send io d timeout) (\<lambda>n k2.
          let (t2, k3) = net_now io k2;
              send_took = t2 - t1;
              timeout' = (if send_took < timeout then timeout - send_took else 1)
          in if length d < n then (Inl Undefined, k3) else channel_send_all io (drop n d) timeout' k3) k1)"
  by pat_completeness auto
termination
  by (relation "measure (\<lambda>(io, d, timeout, k). length d)") (auto dest: channel_send_pos simp: not_less)

declare channel_send_all.simps [simp del]

lemma channel_send_all_Nil [simp]: "channel_send_all io [] t k = (Inr (), k)"
  by (simp add: channel_send_all.simps)

section \<open>The buffered reader of a channel\<close>

record buffered_reader =
  br_size :: u32
  br_offset :: u32
  br_buffer :: bytes

definition br_init :: "bytes \<Rightarrow> buffered_reader" where
  "br_init buffer = \<lparr>br_size = 0, br_offset = 0, br_buffer = buffer\<rparr>"

text \<open>\<open>load\<close>, through \<open>channel_reader::read\<close>; more than was asked for would be written past the buffer.\<close>

definition br_load :: "'k net_io \<Rightarrow> (unit, buffered_reader \<times> 'k) action" where
  "br_load io s = (case s of (r, k) \<Rightarrow>
     case channel_recv io (of_nat (length (br_buffer r))) 0 k of
       (Inl e, k') \<Rightarrow> (Inl e, (r, k'))
     | (Inr d, k') \<Rightarrow>
         if length (br_buffer r) < length d then (Inl Undefined, (r, k'))
         else let r' = \<lparr>br_size = of_nat (length d), br_offset = 0, br_buffer = d @ drop (length d) (br_buffer r)\<rparr>
              in if br_size r' = 0 then (Inl Assertion, (r', k')) else (Inr (), (r', k')))"

definition br_fill :: "'k net_io \<Rightarrow> (unit, buffered_reader \<times> 'k) action" where
  "br_fill io s =
     (if br_offset (fst s) = br_size (fst s) then
        act_bind (br_load io) (\<lambda>_ s.
          if br_offset (fst s) = br_size (fst s) then (Inl (Thrown ''buffered_reader::error''), s) else (Inr (), s)) s
      else (Inr (), s))"

lemma br_fill_pos: "br_fill io s = (Inr u, s') \<Longrightarrow> br_offset (fst s') \<noteq> br_size (fst s')"
  by (auto simp: br_fill_def act_bind_eq_Inr split: if_splits)

lemma part_less:
  assumes "n \<noteq> 0" "a \<noteq> (b :: u32)" shows "unat (n - min n (b - a)) < unat (n :: u32)"
proof -
  have p: "min n (b - a) \<noteq> 0" "min n (b - a) \<le> n" using assms by (auto simp: min_def)
  then have "unat (min n (b - a)) \<noteq> 0" by (simp add: unat_eq_0)
  then show ?thesis using p(2) by (simp add: unat_sub word_le_nat_alt)
qed

function br_read :: "'k net_io \<Rightarrow> u32 \<Rightarrow> (bytes, buffered_reader \<times> 'k) action" where
  "br_read io n s =
     (if n = 0 then (Inr [], s)
      else act_bind (br_fill io) (\<lambda>_ (r, k).
        let part_size = min n (br_size r - br_offset r) in
        if length (br_buffer r) < unat (br_offset r) + unat part_size then (Inl Undefined, (r, k))
        else act_bind (br_read io (n - part_size))
               (\<lambda>d. act_return (take (unat part_size) (drop (unat (br_offset r)) (br_buffer r)) @ d))
               (r\<lparr>br_offset := br_offset r + part_size\<rparr>, k)) s)"
  by pat_completeness auto
termination
proof (relation "measure (\<lambda>(io, n, s). unat n)", goal_cases)
  case (2 io n s x t r k p)
  then have "br_offset r \<noteq> br_size r" using br_fill_pos [of io s x t] by auto
  then show ?case using part_less 2 by auto
qed simp

declare br_read.simps [simp del]

lemma br_read_0 [simp]: "br_read io 0 s = (Inr [], s)"
  by (simp add: br_read.simps)

definition br_read_char :: "'k net_io \<Rightarrow> (u8, buffered_reader \<times> 'k) action" where
  "br_read_char io =
     act_bind (br_fill io) (\<lambda>_ (r, k).
       if length (br_buffer r) \<le> unat (br_offset r) then (Inl Undefined, (r, k))
       else (Inr (br_buffer r ! unat (br_offset r)), (r\<lparr>br_offset := br_offset r + 1\<rparr>, k)))"

section \<open>The buffered writer of a channel\<close>

record buffered_writer =
  wr_offset :: u32
  wr_buffer :: bytes

definition wr_init :: "bytes \<Rightarrow> buffered_writer" where
  "wr_init buffer = \<lparr>wr_offset = 0, wr_buffer = buffer\<rparr>"

text \<open>\<open>channel_writer::write\<close> is one \<open>send\<close>; \<open>flush\<close> does not look at what it returns.\<close>

definition channel_write :: "'k net_io \<Rightarrow> bytes \<Rightarrow> (nat, 'k) action" where
  "channel_write io d = channel_send io d 0"

definition wr_flush :: "'k net_io \<Rightarrow> (unit, buffered_writer \<times> 'k) action" where
  "wr_flush io s = (case s of (w, k) \<Rightarrow>
     if wr_offset w = 0 then (Inr (), (w, k))
     else case channel_write io (take (unat (wr_offset w)) (wr_buffer w)) k of
         (Inl e, k') \<Rightarrow> (Inl e, (w, k'))
       | (Inr _, k') \<Rightarrow> (Inr (), (w\<lparr>wr_offset := 0\<rparr>, k')))"

definition wr_full :: "buffered_writer \<Rightarrow> bool" where
  "wr_full w \<longleftrightarrow> wr_offset w = of_nat (length (wr_buffer w))"

definition wr_make_room :: "'k net_io \<Rightarrow> (unit, buffered_writer \<times> 'k) action" where
  "wr_make_room io s =
     (if wr_full (fst s) then
        act_bind (wr_flush io) (\<lambda>_ s.
          if wr_full (fst s) then (Inl (Thrown ''buffered_writer::error''), s) else (Inr (), s)) s
      else (Inr (), s))"

lemma wr_make_room_pos: "wr_make_room io s = (Inr u, s') \<Longrightarrow> \<not> wr_full (fst s')"
  by (auto simp: wr_make_room_def act_bind_eq_Inr split: if_splits)

function wr_write :: "'k net_io \<Rightarrow> bytes \<Rightarrow> (unit, buffered_writer \<times> 'k) action" where
  "wr_write io d s =
     (if d = [] then (Inr (), s)
      else act_bind (wr_make_room io) (\<lambda>_ (w, k).
        let part_size = min (unat (of_nat (length (wr_buffer w)) - wr_offset w)) (length d) in
        if length (wr_buffer w) < unat (wr_offset w) + part_size then (Inl Undefined, (w, k))
        else wr_write io (drop part_size d)
          (w\<lparr>wr_buffer := take (unat (wr_offset w)) (wr_buffer w) @ take part_size d
                @ drop (unat (wr_offset w) + part_size) (wr_buffer w),
             wr_offset := wr_offset w + of_nat part_size\<rparr>, k)) s)"
  by pat_completeness auto
termination
proof (relation "measure (\<lambda>(io, d, s). length d)", goal_cases)
  case (2 io d s x t w k p)
  then have "\<not> wr_full w" using wr_make_room_pos [of io s x t] by auto
  then have "unat (of_nat (length (wr_buffer w)) - wr_offset w) \<noteq> 0" by (auto simp: wr_full_def unat_eq_0)
  then show ?case using 2 by auto
qed simp

declare wr_write.simps [simp del]

text \<open>\<open>memset\<close> up to an offset, which the code does not compare with the size of the buffer.\<close>

definition wr_add_padding_to :: "u32 \<Rightarrow> buffered_writer \<Rightarrow> buffered_writer res" where
  "wr_add_padding_to sz w =
     res_assert (wr_offset w \<le> sz)
       (if length (wr_buffer w) < unat sz then Inl Undefined
        else Inr (w\<lparr>wr_buffer := take (unat (wr_offset w)) (wr_buffer w) @ replicate (unat (sz - wr_offset w)) 0
               @ drop (unat sz) (wr_buffer w), wr_offset := sz\<rparr>))"

definition wr_add_alignment_to :: "u32 \<Rightarrow> buffered_writer \<Rightarrow> buffered_writer res" where
  "wr_add_alignment_to alignment w =
     res_assert (length (filter (bit alignment) [0..<32]) = 1)
       (let mask = alignment - 1; sz = wr_offset w
        in wr_add_padding_to (if sz AND mask \<noteq> 0 then sz + (alignment - (sz AND mask)) else sz) w)"

text \<open>How the thread of a connection stands: it goes on, it has returned, or an exception has left it.\<close>

datatype worker_end = Running | Closed | Escaped fault

section \<open>What the connection promises\<close>

text \<open>
  A stream socket: \<open>recv\<close> takes a part off the front of what is still to come in, \<open>send\<close> adds a part of its data to
  what has been sent, and an error changes neither. \<open>recv_live\<close> and \<open>send_live\<close> say that
  one direction does not fail.
\<close>

definition net_ok :: "'k net_io \<Rightarrow> ('k \<Rightarrow> bytes) \<Rightarrow> ('k \<Rightarrow> bytes) \<Rightarrow> bool" where
  "net_ok io incoming sent \<longleftrightarrow>
    (\<forall>n t k x k'. net_recv io n t k = (x, k') \<longrightarrow> sent k' = sent k \<and>
      (case x of Inr d \<Rightarrow> length d \<le> unat n \<and> incoming k = d @ incoming k' | Inl e \<Rightarrow> incoming k' = incoming k))
    \<and> (\<forall>d t k x k'. net_send io d t k = (x, k') \<longrightarrow> incoming k' = incoming k \<and>
      (case x of Inr n \<Rightarrow> n \<le> length d \<and> sent k' = sent k @ take n d | Inl e \<Rightarrow> sent k' = sent k))
    \<and> (\<forall>k. incoming (snd (net_now io k)) = incoming k \<and> sent (snd (net_now io k)) = sent k)"

definition recv_live :: "'k net_io \<Rightarrow> ('k \<Rightarrow> bytes) \<Rightarrow> bool" where
  "recv_live io incoming \<longleftrightarrow>
    (\<forall>n t k. n \<noteq> 0 \<and> incoming k \<noteq> [] \<longrightarrow> (\<exists>d k'. net_recv io n t k = (Inr d, k') \<and> d \<noteq> []))"

definition send_live :: "'k net_io \<Rightarrow> bool" where
  "send_live io \<longleftrightarrow> (\<forall>d t k. d \<noteq> [] \<longrightarrow> (\<exists>n k'. net_send io d t k = (Inr n, k') \<and> n \<noteq> 0))"

lemma channel_recv_spec:
  assumes "net_ok io incoming sent" "channel_recv io n t k = (x, k')"
  shows "sent k' = sent k"
    and "case x of Inr d \<Rightarrow> d \<noteq> [] \<and> length d \<le> unat n \<and> incoming k = d @ incoming k'
      | Inl e \<Rightarrow> (\<exists>m. e = Thrown m) \<and> incoming k' = incoming k"
    and "recv_live io incoming \<Longrightarrow> n \<noteq> 0 \<Longrightarrow> incoming k \<noteq> [] \<Longrightarrow> \<exists>d. x = Inr d"
proof -
  obtain y k1 where y: "net_recv io n t k = (y, k1)" by (cases "net_recv io n t k")
  have ok: "sent k1 = sent k"
    "case y of Inr d \<Rightarrow> length d \<le> unat n \<and> incoming k = d @ incoming k1 | Inl e \<Rightarrow> incoming k1 = incoming k"
    using assms(1) y unfolding net_ok_def by blast+
  show "sent k' = sent k" and "case x of Inr d \<Rightarrow> d \<noteq> [] \<and> length d \<le> unat n \<and> incoming k = d @ incoming k'
      | Inl e \<Rightarrow> (\<exists>m. e = Thrown m) \<and> incoming k' = incoming k"
    using assms(2) y ok by (auto simp: channel_recv_def channel_error_def split: sum.splits if_splits)
  show "\<exists>d. x = Inr d" if "recv_live io incoming" "n \<noteq> 0" "incoming k \<noteq> []"
  proof -
    from that obtain d k2 where "net_recv io n t k = (Inr d, k2)" "d \<noteq> []" unfolding recv_live_def by blast
    then show ?thesis using assms(2) by (auto simp: channel_recv_def)
  qed
qed

lemma channel_send_spec:
  assumes "net_ok io incoming sent" "channel_send io d t k = (x, k')"
  shows "incoming k' = incoming k"
    and "case x of Inr n \<Rightarrow> 0 < n \<and> n \<le> length d \<and> sent k' = sent k @ take n d | Inl e \<Rightarrow> (\<exists>m. e = Thrown m) \<and> sent k' = sent k"
    and "send_live io \<Longrightarrow> d \<noteq> [] \<Longrightarrow> \<exists>n. x = Inr n"
proof -
  obtain y k1 where y: "net_send io d t k = (y, k1)" by (cases "net_send io d t k")
  have ok: "incoming k1 = incoming k"
    "case y of Inr n \<Rightarrow> n \<le> length d \<and> sent k1 = sent k @ take n d | Inl e \<Rightarrow> sent k1 = sent k"
    using assms(1) y unfolding net_ok_def by blast+
  show "incoming k' = incoming k"
    and "case x of Inr n \<Rightarrow> 0 < n \<and> n \<le> length d \<and> sent k' = sent k @ take n d | Inl e \<Rightarrow> (\<exists>m. e = Thrown m) \<and> sent k' = sent k"
    using assms(2) y ok by (auto simp: channel_send_def channel_error_def split: sum.splits if_splits)
  show "\<exists>n. x = Inr n" if "send_live io" "d \<noteq> []"
  proof -
    from that obtain n k2 where "net_send io d t k = (Inr n, k2)" "n \<noteq> 0" unfolding send_live_def by blast
    then show ?thesis using assms(2) by (auto simp: channel_send_def)
  qed
qed

section \<open>All of the data is sent\<close>

lemma channel_send_all_spec:
  assumes ok: "net_ok io incoming sent" and "channel_send_all io d t k = (x, k')"
  shows "incoming k' = incoming k \<and> (\<exists>n\<le>length d. sent k' = sent k @ take n d \<and> (x = Inr () \<longrightarrow> n = length d))
    \<and> (case x of Inl e \<Rightarrow> (\<exists>m. e = Thrown m) | Inr u \<Rightarrow> True) \<and> (send_live io \<longrightarrow> x = Inr ())"
  using assms(2)
proof (induction d arbitrary: t k rule: length_induct)
  case (1 d)
  have now: "incoming (snd (net_now io k)) = incoming k" "sent (snd (net_now io k)) = sent k" for k
    using ok by (simp_all add: net_ok_def)
  show ?case
  proof (cases "d = []")
    case True
    then have "x = Inr ()" "k' = k" using 1(2) by simp_all
    then show ?thesis using True by simp
  next
    case False
    obtain t1 k1 where k1: "net_now io k = (t1, k1)" by (cases "net_now io k")
    obtain y k2 where y: "channel_send io d t k1 = (y, k2)" by (cases "channel_send io d t k1")
    note sp = channel_send_spec [OF ok y]
    have n1: "incoming k1 = incoming k" "sent k1 = sent k" using now [of k] k1 by simp_all
    show ?thesis
    proof (cases y)
      case (Inl e)
      then show ?thesis using 1(2) False k1 y sp n1
        by (auto simp: channel_send_all.simps [of io d] Let_def act_bind_def intro: exI [of _ 0])
    next
      case (Inr n)
      obtain t2 k3 where k3: "net_now io k2 = (t2, k3)" by (cases "net_now io k2")
      have n: "0 < n" "n \<le> length d" "sent k2 = sent k @ take n d" "incoming k2 = incoming k" using sp Inr n1 by simp_all
      have n3: "incoming k3 = incoming k" "sent k3 = sent k @ take n d" using now [of k2] k3 n by simp_all
      have rec: "channel_send_all io (drop n d) (if t2 - t1 < t then t - (t2 - t1) else 1) k3 = (x, k')"
        using 1(2) False k1 y Inr k3 n by (simp add: channel_send_all.simps [of io d] Let_def act_bind_def not_less [symmetric])
      have "length (drop n d) < length d" using n False by (cases d) simp_all
      from 1(1) [rule_format, OF this rec] obtain m where m: "incoming k' = incoming k3" "m \<le> length (drop n d)"
        "sent k' = sent k3 @ take m (drop n d)" "x = Inr () \<longrightarrow> m = length (drop n d)"
        "case x of Inl e \<Rightarrow> (\<exists>m. e = Thrown m) | Inr u \<Rightarrow> True" "send_live io \<longrightarrow> x = Inr ()" by blast
      have "sent k' = sent k @ take (n + m) d" using m(3) n3 by (simp add: take_add)
      moreover have "n + m \<le> length d" using m(2) n(2) by simp
      moreover have "x = Inr () \<longrightarrow> n + m = length d" using m(4) n(2) by auto
      ultimately have "\<exists>n\<le>length d. sent k' = sent k @ take n d \<and> (x = Inr () \<longrightarrow> n = length d)" by blast
      then show ?thesis using m(1,5,6) n3(1) by simp
    qed
  qed
qed

section \<open>Reading in pieces\<close>

definition br_ok :: "buffered_reader \<Rightarrow> bool" where
  "br_ok r \<longleftrightarrow> br_offset r \<le> br_size r \<and> unat (br_size r) \<le> length (br_buffer r) \<and> length (br_buffer r) < 2 ^ 32"

definition br_rest :: "buffered_reader \<Rightarrow> bytes" where
  "br_rest r = take (unat (br_size r) - unat (br_offset r)) (drop (unat (br_offset r)) (br_buffer r))"

text \<open>What the reader will read: what is left in its buffer, and what is still to come in.\<close>

definition pending :: "('k \<Rightarrow> bytes) \<Rightarrow> buffered_reader \<times> 'k \<Rightarrow> bytes" where
  "pending incoming s = br_rest (fst s) @ incoming (snd s)"

lemma br_init_ok: "length b < 2 ^ 32 \<Longrightarrow> br_ok (br_init b)" "pending incoming (br_init b, k) = incoming k"
  by (simp_all add: br_init_def br_ok_def pending_def br_rest_def)

lemma unat_of_nat_u32: "n < 2 ^ 32 \<Longrightarrow> unat (of_nat n :: u32) = n"
  by (simp add: unat_word_of_nat)

lemma br_fill_spec:
  assumes ok: "net_ok io incoming sent" and r: "br_ok r" and e: "br_fill io (r, k) = (x, (r', k'))"
  shows "br_ok r' \<and> length (br_buffer r') = length (br_buffer r) \<and> sent k' = sent k
    \<and> pending incoming (r', k') = pending incoming (r, k)
    \<and> (case x of Inr u \<Rightarrow> br_offset r' < br_size r' | Inl f \<Rightarrow> \<exists>m. f = Thrown m)
    \<and> (recv_live io incoming \<and> br_buffer r \<noteq> [] \<and> pending incoming (r, k) \<noteq> [] \<longrightarrow> x = Inr ())"
proof (cases "br_offset r = br_size r")
  case False
  then show ?thesis using e r by (auto simp: br_fill_def br_ok_def)
next
  case True
  have l: "length (br_buffer r) < 2 ^ 32" using r by (simp add: br_ok_def)
  obtain y k1 where y: "channel_recv io (of_nat (length (br_buffer r))) 0 k = (y, k1)"
    by (cases "channel_recv io (of_nat (length (br_buffer r))) 0 k")
  note sp = channel_recv_spec [OF ok y]
  have rest: "br_rest r = []" using True by (simp add: br_rest_def)
  have nz: "(of_nat (length (br_buffer r)) :: u32) \<noteq> 0" if "br_buffer r \<noteq> []"
    using that unat_of_nat_u32 [OF l] by (metis length_0_conv unat_0)
  show ?thesis
  proof (cases y)
    case (Inl f)
    then have xe: "x = Inl f" "r' = r" "k' = k1" using e True y by (simp_all add: br_fill_def br_load_def act_bind_def)
    then show ?thesis using sp(1,2) sp(3) [OF _ nz] Inl r rest by (auto simp: pending_def)
  next
    case (Inr d)
    have d: "d \<noteq> []" "length d \<le> length (br_buffer r)" "incoming k = d @ incoming k1"
      using sp(2) Inr unat_of_nat_u32 [OF l] by simp_all
    then have sz: "unat (of_nat (length d) :: u32) = length d" using unat_of_nat_u32 l by simp
    then have nz: "(of_nat (length d) :: u32) \<noteq> 0" using d(1) by (metis length_0_conv unat_0)
    let ?r = "\<lparr>br_size = of_nat (length d), br_offset = 0, br_buffer = d @ drop (length d) (br_buffer r)\<rparr>"
    have xe: "x = Inr ()" "r' = ?r" "k' = k1"
      using e True y Inr d nz by (simp_all add: br_fill_def br_load_def act_bind_def Let_def)
    have "br_rest ?r = d" "br_ok ?r" using sz d l by (simp_all add: br_rest_def br_ok_def)
    moreover have "br_offset ?r < br_size ?r" using nz by (simp add: word_neq_0_conv)
    ultimately show ?thesis unfolding xe using sp(1) d rest by (simp add: pending_def)
  qed
qed

lemma br_take_part:
  assumes "br_ok r" "part \<le> br_size r - br_offset r"
  shows "take (unat part) (drop (unat (br_offset r)) (br_buffer r)) @ br_rest (r\<lparr>br_offset := br_offset r + part\<rparr>) = br_rest r"
    and "br_ok (r\<lparr>br_offset := br_offset r + part\<rparr>)" and "unat (br_offset r) + unat part \<le> length (br_buffer r)"
    and "length (take (unat part) (drop (unat (br_offset r)) (br_buffer r))) = unat part"
proof -
  let ?o = "unat (br_offset r)" and ?n = "unat (br_size r)" and ?b = "br_buffer r"
  have le: "?o \<le> ?n" "?n \<le> length ?b" using assms(1) by (simp_all add: br_ok_def word_le_nat_alt)
  have d: "unat (br_size r - br_offset r) = ?n - ?o" using assms(1) by (simp add: br_ok_def unat_sub)
  have p: "unat part \<le> ?n - ?o" using assms(2) d by (simp add: word_le_nat_alt)
  have u: "unat (br_offset r + part) = ?o + unat part"
  proof -
    have "unat (br_size r) < 2 ^ 32" using unsigned_less [of "br_size r"] by simp
    then show ?thesis using p le by (subst unat_add_lem [THEN iffD1]) simp_all
  qed
  show "?o + unat part \<le> length ?b" "length (take (unat part) (drop ?o ?b)) = unat part" using p le by simp_all
  show "br_ok (r\<lparr>br_offset := br_offset r + part\<rparr>)"
    using assms(1) u p le by (simp add: br_ok_def word_le_nat_alt)
  have "take (?n - ?o) (drop ?o ?b) = take (unat part + (?n - (?o + unat part))) (drop ?o ?b)" using p le by simp
  also have "\<dots> = take (unat part) (drop ?o ?b) @ take (?n - (?o + unat part)) (drop (unat part) (drop ?o ?b))"
    by (rule take_add)
  finally show "take (unat part) (drop ?o ?b) @ br_rest (r\<lparr>br_offset := br_offset r + part\<rparr>) = br_rest r"
    using u by (simp add: br_rest_def add.commute)
qed

text \<open>
  The bytes come in the order in which they were sent, however \<open>recv\<close> cuts them; a read that fails has thrown
  what the channel threw.\<close>

lemma br_read_spec:
  assumes ok: "net_ok io incoming sent" and "br_ok r" "br_read io n (r, k) = (x, (r', k'))"
  shows "br_ok r' \<and> length (br_buffer r') = length (br_buffer r) \<and> sent k' = sent k
    \<and> (case x of Inr d \<Rightarrow> length d = unat n \<and> pending incoming (r, k) = d @ pending incoming (r', k') | Inl f \<Rightarrow> \<exists>m. f = Thrown m)
    \<and> (recv_live io incoming \<and> br_buffer r \<noteq> [] \<and> unat n \<le> length (pending incoming (r, k)) \<longrightarrow> (\<exists>d. x = Inr d))"
  using assms(2,3)
proof (induction "unat n" arbitrary: n r k x r' k' rule: less_induct)
  case less
  show ?case
  proof (cases "n = 0")
    case True
    then have "x = Inr []" "r' = r" "k' = k" using less.prems(2) by simp_all
    then show ?thesis using less.prems(1) True by simp
  next
    case False
    obtain y r1 k1 where y: "br_fill io (r, k) = (y, (r1, k1))" by (metis surj_pair)
    note f = br_fill_spec [OF ok less.prems(1) y]
    have pe: "pending incoming (r, k) \<noteq> []" if "unat n \<le> length (pending incoming (r, k))"
      using that False by (auto simp: unat_eq_0)
    show ?thesis
    proof (cases y)
      case (Inl e)
      then have "x = Inl e" "r' = r1" "k' = k1" using less.prems(2) y False by (simp_all add: br_read.simps [of io n] act_bind_def)
      then show ?thesis using f Inl pe by auto
    next
      case (Inr u)
      then have off: "br_offset r1 < br_size r1" and ok1: "br_ok r1" using f by simp_all
      define part where "part = min n (br_size r1 - br_offset r1)"
      have part: "part \<le> br_size r1 - br_offset r1" "part \<le> n" by (simp_all add: part_def)
      note t = br_take_part [OF ok1 part(1)]
      let ?r = "r1\<lparr>br_offset := br_offset r1 + part\<rparr>" and ?d = "take (unat part) (drop (unat (br_offset r1)) (br_buffer r1))"
      obtain z r2 k2 where z: "br_read io (n - part) (?r, k1) = (z, (r2, k2))" by (metis surj_pair)
      have "unat (n - part) < unat n" using part_less [OF False, of "br_offset r1" "br_size r1"] off by (simp add: part_def)
      note ih = less.hyps [OF this t(2) z]
      have res: "x = (case z of Inl e \<Rightarrow> Inl e | Inr d \<Rightarrow> Inr (?d @ d))" "r' = r2" "k' = k2"
        using less.prems(2) y Inr False t(3) z
        by (auto simp: br_read.simps [of io n] act_bind_def act_return_def Let_def part_def [symmetric] split: sum.splits)
      have pen: "pending incoming (r, k) = ?d @ pending incoming (?r, k1)"
      proof -
        have "pending incoming (r, k) = br_rest r1 @ incoming k1" using f by (simp add: pending_def)
        also have "\<dots> = ?d @ br_rest ?r @ incoming k1" using t(1) by (metis append.assoc)
        finally show ?thesis by (simp add: pending_def)
      qed
      have un: "unat (n - part) = unat n - unat part" using part(2) by (simp add: unat_sub)
      have pn: "unat part \<le> unat n" using part(2) by (simp add: word_le_nat_alt)
      have "case x of Inr d \<Rightarrow> length d = unat n \<and> pending incoming (r, k) = d @ pending incoming (r', k') | Inl f \<Rightarrow> \<exists>m. f = Thrown m"
        using ih t(4) pn un unfolding res pen by (cases z) auto
      moreover have "\<exists>d. x = Inr d" if "recv_live io incoming" "br_buffer r \<noteq> []" "unat n \<le> length (pending incoming (r, k))"
      proof -
        have "unat (n - part) \<le> length (pending incoming (?r, k1))" using that(3) t(4) un unfolding pen by simp
        moreover have "br_buffer ?r \<noteq> []" using that(2) f by auto
        ultimately have "\<exists>d. z = Inr d" using ih that(1) by simp
        then show ?thesis unfolding res by auto
      qed
      ultimately show ?thesis using ih f res by simp
    qed
  qed
qed

lemma br_read_char_spec:
  assumes ok: "net_ok io incoming sent" and r: "br_ok r" and e: "br_read_char io (r, k) = (x, (r', k'))"
  shows "br_ok r' \<and> length (br_buffer r') = length (br_buffer r) \<and> sent k' = sent k
    \<and> (case x of Inr c \<Rightarrow> pending incoming (r, k) = c # pending incoming (r', k') | Inl f \<Rightarrow> \<exists>m. f = Thrown m)
    \<and> (recv_live io incoming \<and> br_buffer r \<noteq> [] \<and> pending incoming (r, k) \<noteq> [] \<longrightarrow> (\<exists>c. x = Inr c))"
proof -
  obtain y r1 k1 where y: "br_fill io (r, k) = (y, (r1, k1))" by (metis surj_pair)
  note f = br_fill_spec [OF ok r y]
  show ?thesis
  proof (cases y)
    case (Inl e')
    then have "x = Inl e'" "r' = r1" "k' = k1" using e y by (simp_all add: br_read_char_def act_bind_def)
    then show ?thesis using f Inl by auto
  next
    case (Inr u)
    then have off: "br_offset r1 < br_size r1" and ok1: "br_ok r1" using f by simp_all
    have one: "1 \<le> br_size r1 - br_offset r1" using off 
      using unat_sub [OF order.strict_implies_order [OF off]] by (simp add: word_le_nat_alt word_less_nat_alt)
    note t = br_take_part [OF ok1 one]
    have lt: "unat (br_offset r1) < length (br_buffer r1)" using t(3) by simp
    have "take 1 (drop (unat (br_offset r1)) (br_buffer r1)) = [br_buffer r1 ! unat (br_offset r1)]"
      using lt by (metis Cons_nth_drop_Suc One_nat_def take0 take_Suc_Cons)
    then have "br_rest r1 = br_buffer r1 ! unat (br_offset r1) # br_rest (r1\<lparr>br_offset := br_offset r1 + 1\<rparr>)"
      using t(1) by simp
    moreover have "x = Inr (br_buffer r1 ! unat (br_offset r1))" "r' = r1\<lparr>br_offset := br_offset r1 + 1\<rparr>" "k' = k1"
      using e y Inr lt by (auto simp: br_read_char_def act_bind_def)
    ultimately show ?thesis using f t(2) by (simp add: pending_def)
  qed
qed

section \<open>Writing through the buffer\<close>

definition wr_content :: "buffered_writer \<Rightarrow> bytes" where
  "wr_content w = take (unat (wr_offset w)) (wr_buffer w)"

definition wr_ok :: "buffered_writer \<Rightarrow> bool" where
  "wr_ok w \<longleftrightarrow> unat (wr_offset w) \<le> length (wr_buffer w) \<and> length (wr_buffer w) < 2 ^ 32"

lemma wr_flush_eq:
  "wr_flush io (w, k) = (if wr_offset w = 0 then (Inr (), (w, k))
     else case channel_send io (wr_content w) 0 k of
         (Inl e, k') \<Rightarrow> (Inl e, (w, k'))
       | (Inr _, k') \<Rightarrow> (Inr (), (w\<lparr>wr_offset := 0\<rparr>, k')))"
  by (simp add: wr_flush_def channel_write_def wr_content_def)

text \<open>What is in the buffer goes out in one \<open>send\<close>, of which only a part may be taken.\<close>

lemma wr_flush_spec:
  assumes ok: "net_ok io incoming sent" and w: "wr_ok w" and e: "wr_flush io (w, k) = (x, (w', k'))"
  shows "incoming k' = incoming k \<and> wr_buffer w' = wr_buffer w
    \<and> (case x of Inr u \<Rightarrow> wr_offset w' = 0 \<and> (\<exists>n\<le>length (wr_content w). sent k' = sent k @ take n (wr_content w) \<and> (wr_content w \<noteq> [] \<longrightarrow> 0 < n))
      | Inl f \<Rightarrow> w' = w \<and> w' \<noteq> w\<lparr>wr_offset := 0\<rparr> \<and> sent k' = sent k \<and> (\<exists>m. f = Thrown m))"
proof (cases "wr_offset w = 0")
  case True
  then show ?thesis using e by (auto simp: wr_flush_eq wr_content_def)
next
  case False
  obtain y k1 where y: "channel_send io (wr_content w) 0 k = (y, k1)" by (cases "channel_send io (wr_content w) 0 k")
  note sp = channel_send_spec [OF ok y]
  have nw: "w \<noteq> w\<lparr>wr_offset := 0\<rparr>" using False by (cases w) simp
  show ?thesis
  proof (cases y)
    case (Inl f)
    then show ?thesis using e False y sp nw by (auto simp: wr_flush_eq)
  next
    case (Inr n)
    then have "n \<le> length (wr_content w) \<and> sent k' = sent k @ take n (wr_content w) \<and> 0 < n"
      "x = Inr ()" "w' = w\<lparr>wr_offset := 0\<rparr>" "incoming k' = incoming k"
      using e False y sp by (auto simp: wr_flush_eq)
    then show ?thesis by auto
  qed
qed

lemma wr_add_padding_spec:
  assumes "wr_ok w" "wr_offset w \<le> sz" "unat sz \<le> length (wr_buffer w)"
  obtains w' where "wr_add_padding_to sz w = Inr w'" "wr_ok w'"
    "wr_content w' = wr_content w @ replicate (unat sz - unat (wr_offset w)) 0"
proof -
  have d: "unat (sz - wr_offset w) = unat sz - unat (wr_offset w)" "unat (wr_offset w) \<le> unat sz"
    using assms(2) by (simp_all add: unat_sub word_le_nat_alt)
  then show thesis
    using that assms by (auto simp: wr_add_padding_to_def wr_ok_def wr_content_def)
qed

definition sends_all :: "'k net_io \<Rightarrow> bool" where
  "sends_all io \<longleftrightarrow> (\<forall>d t k n k'. net_send io d t k = (Inr n, k') \<longrightarrow> n = length d)"

lemma wr_make_room_spec:
  assumes ok: "net_ok io incoming sent" and all: "sends_all io" and w: "wr_ok w" and e: "wr_make_room io (w, k) = (Inr u, (w', k'))"
  shows "wr_ok w' \<and> sent k' @ wr_content w' = sent k @ wr_content w \<and> incoming k' = incoming k \<and> \<not> wr_full w'"
proof -
  have nf: "\<not> wr_full w'" using wr_make_room_pos [OF e] by simp
  show ?thesis
  proof (cases "wr_full w")
    case False
    then show ?thesis using e w by (simp add: wr_make_room_def)
  next
    case True
    then have f: "wr_flush io (w, k) = (Inr (), (w', k'))" using e by (auto simp: wr_make_room_def act_bind_eq_Inr split: if_splits)
    note sp = wr_flush_spec [OF ok w f]
    have "sent k' = sent k @ wr_content w"
    proof (cases "wr_offset w = 0")
      case True
      then show ?thesis using f by (simp add: wr_flush_eq wr_content_def)
    next
      case False
      obtain n where n: "channel_send io (wr_content w) 0 k = (Inr n, k')"
        using f False by (auto simp: wr_flush_eq split: prod.splits sum.splits)
      then obtain k2 where "net_send io (wr_content w) 0 k = (Inr n, k2)"
        by (auto simp: channel_send_def split: prod.splits sum.splits if_splits)
      then have "n = length (wr_content w)" using all unfolding sends_all_def by blast
      then show ?thesis using channel_send_spec(2) [OF ok n] by simp
    qed
    then show ?thesis using sp nf w by (simp add: wr_ok_def wr_content_def)
  qed
qed

lemma wr_put:
  assumes "wr_ok w" "part \<le> length d" "unat (wr_offset w) + part \<le> length (wr_buffer w)"
  defines "w' \<equiv> w\<lparr>wr_buffer := take (unat (wr_offset w)) (wr_buffer w) @ take part d
                @ drop (unat (wr_offset w) + part) (wr_buffer w),
             wr_offset := wr_offset w + of_nat part\<rparr>"
  shows "wr_ok w'" "wr_content w' = wr_content w @ take part d"
proof -
  have l: "length (wr_buffer w) < 2 ^ 32" using assms(1) by (simp add: wr_ok_def)
  have p: "unat (of_nat part :: u32) = part" using l assms(3) by (intro unat_of_nat_u32) simp
  have u: "unat (wr_offset w + of_nat part) = unat (wr_offset w) + part"
    using p l assms(3) by (subst unat_add_lem [THEN iffD1]) simp_all
  show "wr_ok w'" "wr_content w' = wr_content w @ take part d"
    using assms(1,2,3) l u unfolding w'_def by (simp_all add: wr_ok_def wr_content_def)
qed

text \<open>
  With a socket that takes all of what it is given, what has been sent and what is in the buffer are, together,
  what has been written, byte by byte.\<close>

lemma wr_write_spec:
  assumes ok: "net_ok io incoming sent" and all: "sends_all io"
    and "wr_ok w" "wr_write io d (w, k) = (Inr u, (w', k'))"
  shows "wr_ok w' \<and> sent k' @ wr_content w' = sent k @ wr_content w @ d \<and> incoming k' = incoming k"
  using assms(3,4)
proof (induction d arbitrary: w k rule: length_induct)
  case (1 d)
  show ?case
  proof (cases "d = []")
    case True
    then show ?thesis using 1 by (simp add: wr_write.simps [of io "[]"])
  next
    case False
    then obtain w1 k1 where w1: "wr_make_room io (w, k) = (Inr (), (w1, k1))"
      using 1(3) by (auto simp: wr_write.simps [of io d] act_bind_eq_Inr)
    note sp = wr_make_room_spec [OF ok all 1(2) w1]
    define part where "part = min (unat (of_nat (length (wr_buffer w1)) - wr_offset w1)) (length d)"
    have "unat (of_nat (length (wr_buffer w1)) - wr_offset w1) \<noteq> 0" using sp by (auto simp: wr_full_def unat_eq_0)
    then have nz: "part \<noteq> 0" using False by (simp add: part_def)
    have fits: "unat (wr_offset w1) + part \<le> length (wr_buffer w1)"
      and rec: "wr_write io (drop part d) (w1\<lparr>wr_buffer := take (unat (wr_offset w1)) (wr_buffer w1) @ take part d
                @ drop (unat (wr_offset w1) + part) (wr_buffer w1), wr_offset := wr_offset w1 + of_nat part\<rparr>, k1) = (Inr u, (w', k'))"
      using 1(3) False w1 by (auto simp: wr_write.simps [of io d] act_bind_def Let_def part_def [symmetric] split: if_splits)
    have pl: "part \<le> length d" by (simp add: part_def)
    have "wr_ok w1" using sp by simp
    note p = wr_put [OF this pl fits]
    have "length (drop part d) < length d" using nz False by (cases d) simp_all
    from 1(1) [rule_format, OF this p(1) rec] show ?thesis using sp unfolding p(2)
      by (metis append.assoc append_take_drop_id)
  qed
qed

lemma wr_write_Nil [simp]: "wr_write io [] s = (Inr (), s)"
  by (simp add: wr_write.simps)

lemma wr_write_room:
  assumes "wr_ok w" "unat (wr_offset w) + length d \<le> length (wr_buffer w)"
  obtains w' where "wr_write io d (w, k) = (Inr (), (w', k))" "wr_ok w'" "wr_content w' = wr_content w @ d"
proof (cases "d = []")
  case True
  then show thesis using that [of w] assms by simp
next
  case False
  have l: "unat (of_nat (length (wr_buffer w)) :: u32) = length (wr_buffer w)"
    using assms(1) by (intro unat_of_nat_u32) (simp add: wr_ok_def)
  have o: "wr_offset w \<le> of_nat (length (wr_buffer w))" using assms(1) by (simp add: word_le_nat_alt l wr_ok_def)
  have nf: "\<not> wr_full w"
  proof
    assume "wr_full w"
    then have "unat (wr_offset w) = length (wr_buffer w)" using l by (simp add: wr_full_def)
    then show False using assms(2) False by simp
  qed
  have "unat (of_nat (length (wr_buffer w)) - wr_offset w) = length (wr_buffer w) - unat (wr_offset w)" using o l by (simp add: unat_sub)
  then have part: "min (unat (of_nat (length (wr_buffer w)) - wr_offset w)) (length d) = length d" using assms(2) by simp
  note p = wr_put [OF assms(1) order_refl assms(2)]
  show thesis
    by (rule that [OF _ p(1)], simp add: wr_write.simps [of io d] False act_bind_def wr_make_room_def nf Let_def part del: min.absorb1 min.absorb2,
        use p(2) assms(2) in simp_all)
qed

text \<open>
  C35: A \<open>send\<close> that takes only a part of its data makes \<open>buffered_writer::flush\<close> lose the rest: the flush returns
  as if all had gone out, the buffer is empty, and the connection has got the first bytes only.\<close>

theorem writer_drops_short_send:
  assumes "net_ok io incoming sent" "wr_ok w" "net_send io (wr_content w) 0 k = (Inr n, k')" "0 < n" "n < length (wr_content w)"
  shows "\<exists>w'. wr_flush io (w, k) = (Inr (), (w', k')) \<and> wr_content w' = [] \<and> sent k' = sent k @ take n (wr_content w)
    \<and> sent k' \<noteq> sent k @ wr_content w"
proof -
  have c: "channel_send io (wr_content w) 0 k = (Inr n, k')" using assms(3,4) by (simp add: channel_send_def)
  have "wr_offset w \<noteq> 0" using assms(5) by (auto simp: wr_content_def)
  then have "wr_flush io (w, k) = (Inr (), (w\<lparr>wr_offset := 0\<rparr>, k'))" using c by (simp add: wr_flush_eq)
  moreover have "sent k' = sent k @ take n (wr_content w)" using channel_send_spec(2) [OF assms(1) c] by simp
  moreover have "take n (wr_content w) \<noteq> wr_content w" using assms(5) by (metis length_take min.absorb4 order_less_irrefl)
  ultimately show ?thesis by (simp add: wr_content_def)
qed

text \<open>A connection that carries one byte at a time; its state is what is to come in and what has been sent.\<close>

definition slow_net :: "(bytes \<times> bytes) net_io" where
  "slow_net = \<lparr>net_recv = (\<lambda>n t (i, out). if n = 0 then (Inr [], (i, out)) else (Inr (take 1 i), (drop 1 i, out))),
     net_send = (\<lambda>d t (i, out). (Inr (length (take 1 d)), (i, out @ take 1 d))), net_now = (\<lambda>k. (0, k))\<rparr>"

lemma slow_net_ok: "net_ok slow_net fst snd" "recv_live slow_net fst" "send_live slow_net"
proof -
  have "length (take 1 i) \<le> unat n" if "n \<noteq> 0" for i :: bytes and n :: u32
    using that by (cases i) (simp_all add: unat_gt_0 Suc_le_eq)
  moreover have "take (min (length d) (Suc 0)) d = take (Suc 0) d" for d :: bytes by (cases d) simp_all
  ultimately show "net_ok slow_net fst snd" by (auto simp: net_ok_def slow_net_def)
  show "recv_live slow_net fst" "send_live slow_net" by (auto simp: recv_live_def send_live_def slow_net_def split: prod.splits)
qed

text \<open>The slow connection whose peer has gone away: what it sent before can still be read, a send fails.\<close>

definition broken_net :: "int \<Rightarrow> (bytes \<times> bytes) net_io" where
  "broken_net e = slow_net\<lparr>net_send := (\<lambda>d t k. (Inl e, k))\<rparr>"

lemma broken_net_ok: "net_ok (broken_net e) fst snd" "recv_live (broken_net e) fst"
  using slow_net_ok by (simp_all add: net_ok_def recv_live_def broken_net_def)

theorem writer_drops_short_send_witness:
  "\<exists>w' k'. wr_flush slow_net (\<lparr>wr_offset = 3, wr_buffer = [1, 2, 3, 0]\<rparr>, ([], [])) = (Inr (), (w', k')) \<and> wr_content w' = []
    \<and> snd k' = [1]"
proof -
  let ?w = "\<lparr>wr_offset = 3, wr_buffer = [1, 2, 3, 0]\<rparr> :: buffered_writer"
  have "wr_content ?w = [1, 2, 3]" "wr_ok ?w" by (simp_all add: wr_content_def wr_ok_def)
  then show ?thesis
    using writer_drops_short_send [OF slow_net_ok(1), of ?w "([], [])" 1 "([], [1])"] by (auto simp: slow_net_def)
qed

end
