(* ===== verification/Rpc.thy ===== *)
theory Rpc
  imports Stream_IO Service
begin

text \<open>
  Remote calls, \<open>net/rpc_client.h\<close> and \<open>net/rpc_server.h\<close>: messages over a channel, each starting with two bytes
  that hold the size of the rest, the calls of a client and the worker thread of the server. The service gets the
  request and the builder of the response; services are generated by \<open>tools/msgc.py\<close>, which the functions behind
  them, a parameter, are written for.
\<close>

section \<open>Messages on the channel\<close>

text \<open>Both sides read a message in the same way; \<open>None\<close> is one that does not fit the buffer of \<open>cap\<close> bytes.\<close>

definition rpc_read_message :: "'k net_io \<Rightarrow> nat \<Rightarrow> (bytes option, buffered_reader \<times> 'k) action" where
  "rpc_read_message io cap =
     act_bind (br_read io 2) (\<lambda>sz.
       let n = (le_word sz :: u16) in
       if cap - 2 < unat n then act_return None
       else act_bind (br_read io (ucast n)) (\<lambda>body. act_return (Some (sz @ body))))"

definition message_parser :: "bytes \<Rightarrow> parser" where
  "message_parser m = parser_init m (of_nat (length m))"

section \<open>The server\<close>

text \<open>How \<open>process_message\<close> ends: it returns, or throws a \<open>server_error\<close> or something else.\<close>

datatype service_end = Served | Server_Error "16 word" bytes | Other_Exception fault

type_synonym 'c service =
  "struct_parser \<Rightarrow> struct_builder \<times> builder \<Rightarrow> 'c \<Rightarrow> service_end \<times> (struct_builder \<times> builder) \<times> 'c"

definition rpc_add_error :: "16 word \<Rightarrow> bytes \<Rightarrow> struct_builder \<times> builder \<Rightarrow> (struct_builder \<times> builder) res" where
  "rpc_add_error code what sb =
     res_bind (response_add_error sb) (\<lambda>(s, e, b).
     res_bind (add_code code (e, b)) (\<lambda>eb.
     res_bind (add_error_message what eb) (\<lambda>eb.
     res_bind (sb_destroy eb) (\<lambda>(e, b). Inr (s, b)))))"

text \<open>
  From a request to the bytes that are sent back; \<open>send_buffer\<close> is what the buffer holds at first. An exception
  in a handler is not seen by the handlers beside it.
\<close>

definition rpc_answer :: "'c service \<Rightarrow> bytes \<Rightarrow> bytes \<Rightarrow> 'c \<Rightarrow> bytes res \<times> 'c" where
  "rpc_answer serve send_buffer m c =
     (case res_bind (request_parser_init (message_parser m) 0) (\<lambda>request.
             res_bind (response_builder_init (builder_init send_buffer (of_nat (length send_buffer)))) (\<lambda>response.
               Inr (request, response))) of
        Inl e \<Rightarrow> (Inl e, c)
      | Inr (request, response) \<Rightarrow>
          (case serve request response c of (end, response, c) \<Rightarrow>
             (res_bind (case end of
                  Served \<Rightarrow> Inr response
                | Server_Error code what \<Rightarrow> rpc_add_error code what response
                | Other_Exception e \<Rightarrow> Inl e) (\<lambda>response.
              res_bind (sb_finalize response) (\<lambda>(s, b). Inr (take (unat (b_offset b)) (b_buffer b)))), c)))"

text \<open>
  The worker thread of a connection: at most \<open>n\<close> messages are served, after which it would go on. It ends when the
  message is too big or with an exception that it catches; any other exception leaves the thread.
\<close>

definition rpc_caught :: "fault \<Rightarrow> worker_end" where
  "rpc_caught e = (if e = Thrown ''disconnected_error'' \<or> e = malformed_message then Closed else Escaped e)"

fun rpc_worker :: "'k net_io \<Rightarrow> 'c service \<Rightarrow> bytes \<Rightarrow> nat \<Rightarrow> 'c \<Rightarrow> buffered_reader \<times> 'k
    \<Rightarrow> worker_end \<times> 'c \<times> buffered_reader \<times> 'k" where
  "rpc_worker io serve send_buffer 0 c s = (Running, c, s)"
| "rpc_worker io serve send_buffer (Suc n) c s =
     (case rpc_read_message io (length send_buffer) s of
        (Inl e, s) \<Rightarrow> (rpc_caught e, c, s)
      | (Inr None, s) \<Rightarrow> (Closed, c, s)
      | (Inr (Some m), (r, k)) \<Rightarrow>
          (case rpc_answer serve send_buffer m c of
             (Inl e, c) \<Rightarrow> (rpc_caught e, c, (r, k))
           | (Inr out, c) \<Rightarrow>
               (case channel_send_all io out 0 k of
                  (Inl e, k) \<Rightarrow> (rpc_caught e, c, (r, k))
                | (Inr _, k) \<Rightarrow> rpc_worker io serve send_buffer n c (r, k))))"

section \<open>Generated services\<close>

text \<open>
  A function of a module: the numbers of optional fields and the sizes of the static ones in its two messages, and
  its implementation, which gets the builder of its own message and leaves what it has built, thrown or not.
\<close>

record 'c service_function =
  fn_request :: "nat \<times> nat"
  fn_response :: "nat \<times> nat"
  fn_impl :: "'c service"

definition function_message :: "'c service_function \<Rightarrow> 'c service" where
  "function_message f service_request service_response c =
     (case res_bind (request_message service_request)
             (struct_parser_init (fst (fn_request f)) (snd (fn_request f)) (sp_parser service_request)) of
        Inl e \<Rightarrow> (Other_Exception e, service_response, c)
      | Inr request \<Rightarrow> (case response_add_message service_response of
          Inl e \<Rightarrow> (Other_Exception e, service_response, c)
        | Inr (s, b) \<Rightarrow> (case struct_builder_init (fst (fn_response f)) (snd (fn_response f)) b of
            Inl e \<Rightarrow> (Other_Exception e, (s, b), c)
          | Inr response \<Rightarrow> (case fn_impl f request response c of (end, response, c) \<Rightarrow>
              (case sb_destroy response of
                 Inl e \<Rightarrow> (Other_Exception e, (s, snd response), c)
               | Inr (_, b) \<Rightarrow> (end, (s, b), c))))))"

text \<open>\<open>unknown\<close> formats the number into the text of the exception.\<close>

definition module_message :: "(u16 \<Rightarrow> bytes) \<Rightarrow> (u16 \<Rightarrow> 'c service_function option) \<Rightarrow> 'c service" where
  "module_message unknown functions request response c = (case request_function request of
      Inl e \<Rightarrow> (Other_Exception e, response, c)
    | Inr i \<Rightarrow> (case functions i of
        None \<Rightarrow> (Server_Error (- 2) (unknown i), response, c)
      | Some f \<Rightarrow> function_message f request response c))"

definition service_message :: "(u16 \<Rightarrow> bytes) \<Rightarrow> (u16 \<Rightarrow> (u16 \<Rightarrow> 'c service_function option) option) \<Rightarrow> 'c service" where
  "service_message unknown modules request response c = (case request_module request of
      Inl e \<Rightarrow> (Other_Exception e, response, c)
    | Inr i \<Rightarrow> (case modules i of
        None \<Rightarrow> (case request_function request of
            Inl e \<Rightarrow> (Other_Exception e, response, c)
          | Inr j \<Rightarrow> (Server_Error (- 1) (unknown j), response, c))
      | Some functions \<Rightarrow> module_message unknown functions request response c))"

section \<open>The client\<close>

text \<open>A call is prepared in the buffer of the client; \<open>fill\<close> is what the caller does with the request.\<close>

definition rpc_request :: "u16 \<Rightarrow> u16 \<Rightarrow> (struct_builder \<times> builder \<Rightarrow> (struct_builder \<times> builder) res) \<Rightarrow> bytes
    \<Rightarrow> (struct_builder \<times> builder) res" where
  "rpc_request module_id function_id fill buffer =
     res_bind (request_builder_init (builder_init buffer (of_nat (length buffer)))) (\<lambda>sb.
     res_bind (set_module module_id sb) (\<lambda>sb.
     res_bind (set_function function_id sb) fill))"

definition rpc_execute :: "'k net_io \<Rightarrow> struct_builder \<times> builder \<Rightarrow> (unit, 'k) action" where
  "rpc_execute io sb k = (case sb_finalize sb of
      Inl e \<Rightarrow> (Inl e, k)
    | Inr (s, b) \<Rightarrow> channel_send_all io (take (unat (b_offset b)) (b_buffer b)) 0 k)"

text \<open>\<open>Function::throw_exception\<close> throws what the error stands for.\<close>

datatype rpc_result = Remote_Error struct_parser | Remote_Response struct_parser

definition rpc_wait :: "'k net_io \<Rightarrow> nat \<Rightarrow> (rpc_result, buffered_reader \<times> 'k) action" where
  "rpc_wait io cap =
     act_bind (rpc_read_message io cap) (\<lambda>m s. case m of
         None \<Rightarrow> (Inl (Thrown ''runtime_error''), s)
       | Some m \<Rightarrow>
           (res_bind (response_parser_init (message_parser m) 0) (\<lambda>response.
            res_bind (response_has_error response) (\<lambda>err.
              if err then res_bind (response_error response) (\<lambda>e. Inr (Remote_Error e))
              else Inr (Remote_Response response))), s))"

section \<open>Messages arrive whole\<close>

definition framed :: "bytes \<Rightarrow> bool" where
  "framed m \<longleftrightarrow> 2 \<le> length m \<and> unat (le_word (take 2 m) :: u16) = length m - 2"

lemma unat_ucast_16_32: "unat (ucast (w :: u16) :: u32) = unat w"
proof -
  have "unat w < 65536" using unsigned_less [of w] by simp
  then show ?thesis by (simp add: unsigned_ucast_eq take_bit_nat_eq_self)
qed

lemma rpc_read_message_whole:
  assumes ok: "net_ok io incoming sent" and live: "recv_live io incoming" and r: "br_ok r" "br_buffer r \<noteq> []"
    and m: "framed m" "length m \<le> cap" and p: "pending incoming (r, k) = m @ rest"
  obtains r' k' where "rpc_read_message io cap (r, k) = (Inr (Some m), (r', k'))" "pending incoming (r', k') = rest"
    "br_ok r'" "br_buffer r' \<noteq> []" "sent k' = sent k"
proof -
  let ?n = "le_word (take 2 m) :: u16"
  have m2: "2 \<le> length m" "unat ?n = length m - 2" using m(1) by (simp_all add: framed_def)
  obtain x r1 k1 where e1: "br_read io 2 (r, k) = (x, (r1, k1))" by (metis surj_pair)
  note s1 = br_read_spec [OF ok r(1) e1]
  have "unat (2 :: u32) \<le> length (pending incoming (r, k))" using p m2 by simp
  then obtain d where x: "x = Inr d" using s1 live r(2) by blast
  then have d: "length d = 2" "m @ rest = d @ pending incoming (r1, k1)" using s1 p by simp_all
  have dm: "d = take 2 m" using d m2(1) by (metis append_eq_append_conv_if append_take_drop_id length_take min.absorb2 take_all order_refl)
  have p1: "pending incoming (r1, k1) = drop 2 m @ rest" using d(2) m2(1) unfolding dm by (metis append.assoc append_take_drop_id same_append_eq)
  have r1: "br_ok r1" "br_buffer r1 \<noteq> []" "sent k1 = sent k" using s1 r(2) by auto
  obtain y r2 k2 where e2: "br_read io (ucast ?n) (r1, k1) = (y, (r2, k2))" by (metis surj_pair)
  note s2 = br_read_spec [OF ok r1(1) e2]
  have un: "unat (ucast ?n :: u32) = length m - 2" using m2(2) by (simp add: unat_ucast_16_32)
  have "unat (ucast ?n :: u32) \<le> length (pending incoming (r1, k1))" using un p1 by simp
  then obtain b where y: "y = Inr b" using s2 live r1(2) by blast
  then have b: "length b = length m - 2" "drop 2 m @ rest = b @ pending incoming (r2, k2)" using s2 p1 un by simp_all
  then have bm: "b = drop 2 m" "pending incoming (r2, k2) = rest" by (simp_all add: append_eq_append_conv)
  have "\<not> cap - 2 < unat ?n" using m(2) m2 by simp
  then have "rpc_read_message io cap (r, k) = (Inr (Some m), (r2, k2))"
    using e1 e2 unfolding x y dm bm by (simp add: rpc_read_message_def act_bind_def act_return_def Let_def)
  then show thesis by (rule that) (use s2 r1 bm(2) in auto)
qed

text \<open>What a builder has finalised starts with its size.\<close>

lemma finalize_framed:
  assumes "builder_ok b" "sb_live s" "sb_offset s = 0" "2 \<le> unat (b_offset b)"
  obtains b' where "sb_finalize (s, b) = Inr (s\<lparr>sb_live := False\<rparr>, b')" "patched 0 (b_offset b - 2) b b'"
    "framed (take (unat (b_offset b')) (b_buffer b'))" "length (take (unat (b_offset b')) (b_buffer b')) = unat (b_offset b)"
proof -
  obtain b' where b': "sb_destroy (s, b) = Inr (s\<lparr>sb_live := False\<rparr>, b')"
    "patched (unat (sb_offset s)) (b_offset b - sb_offset s - 2) b b'"
    by (rule sb_destroy_spec [OF assms(1,2)]) (use assms(3,4) in simp_all)
  have p: "patched 0 (b_offset b - 2) b b'" using b'(2) assms(3) by simp
  have o': "b_offset b' = b_offset b" "unat (b_offset b) \<le> length (b_buffer b')"
    using p by (auto simp: patched_def builder_ok_def word_le_nat_alt)
  have "take 2 (take (unat (b_offset b)) (b_buffer b')) = mem_peek 2 0 (b_buffer b')" using assms(4) by (simp add: peek_def)
  also have "\<dots> = le_bytes 2 (b_offset b - 2)" using p by (simp add: patched_def)
  finally have "framed (take (unat (b_offset b')) (b_buffer b'))"
    using assms(4) o' by (simp add: framed_def unat_sub word_le_nat_alt)
  then show thesis using that b'(1) assms(2) p o' by (simp add: sb_destroy_def)
qed

section \<open>The worker answers every request\<close>

text \<open>The answers to a sequence of requests, without the connection.\<close>

fun rpc_answers :: "'c service \<Rightarrow> bytes \<Rightarrow> bytes list \<Rightarrow> 'c \<Rightarrow> bytes list res \<times> 'c" where
  "rpc_answers serve send_buffer [] c = (Inr [], c)"
| "rpc_answers serve send_buffer (m # ms) c = (case rpc_answer serve send_buffer m c of
      (Inl e, c) \<Rightarrow> (Inl e, c)
    | (Inr out, c) \<Rightarrow> (case rpc_answers serve send_buffer ms c of
          (Inl e, c) \<Rightarrow> (Inl e, c) | (Inr outs, c) \<Rightarrow> (Inr (out # outs), c)))"

lemma rpc_worker_answers_run:
  assumes ok: "net_ok io incoming sent" and live: "recv_live io incoming" and slive: "send_live io" and "br_ok r" "br_buffer r \<noteq> []"
    and "\<forall>m\<in>set ms. framed m \<and> length m \<le> length send_buffer" and "pending incoming (r, k) = concat ms @ rest"
    and "rpc_answers serve send_buffer ms c = (Inr outs, c')"
  shows "\<exists>r' k'. (\<forall>n. rpc_worker io serve send_buffer (length ms + n) c (r, k) = rpc_worker io serve send_buffer n c' (r', k'))
    \<and> sent k' = sent k @ concat outs \<and> pending incoming (r', k') = rest"
  using assms(4-)
proof (induction ms arbitrary: r k c outs)
  case Nil
  then show ?case by auto
next
  case (Cons m ms)
  obtain out c1 outs' where a: "rpc_answer serve send_buffer m c = (Inr out, c1)" "rpc_answers serve send_buffer ms c1 = (Inr outs', c')"
    "outs = out # outs'"
    using Cons.prems(5) by (auto split: sum.splits prod.splits)
  have m: "framed m" "length m \<le> length send_buffer" using Cons.prems(3) by simp_all
  have p: "pending incoming (r, k) = m @ concat ms @ rest" using Cons.prems(4) by simp
  from rpc_read_message_whole [OF ok live Cons.prems(1,2) m p] obtain r1 k1 where
    r1: "rpc_read_message io (length send_buffer) (r, k) = (Inr (Some m), (r1, k1))" "pending incoming (r1, k1) = concat ms @ rest"
    "br_ok r1" "br_buffer r1 \<noteq> []" "sent k1 = sent k" by metis
  obtain x k2 where x: "channel_send_all io out 0 k1 = (x, k2)" by (cases "channel_send_all io out 0 k1")
  note sp = channel_send_all_spec [OF ok x]
  have xi: "x = Inr ()" using sp slive by blast
  then have k2: "incoming k2 = incoming k1" "sent k2 = sent k @ out" using sp r1(5) by auto
  have p2: "pending incoming (r1, k2) = concat ms @ rest" using r1(2) k2(1) by (simp add: pending_def)
  have "\<forall>m\<in>set ms. framed m \<and> length m \<le> length send_buffer" using Cons.prems(3) by simp
  from Cons.IH [OF r1(3,4) this p2 a(2)] obtain r' k' where
    ih: "\<forall>n. rpc_worker io serve send_buffer (length ms + n) c1 (r1, k2) = rpc_worker io serve send_buffer n c' (r', k')"
    "sent k' = sent k2 @ concat outs'" "pending incoming (r', k') = rest" by blast
  have "rpc_worker io serve send_buffer (length (m # ms) + n) c (r, k) = rpc_worker io serve send_buffer n c' (r', k')" for n
    using r1(1) a(1) x xi ih(1) by simp
  then show ?case using ih(2,3) k2(2) a(3) by auto
qed

text \<open>
  C36: The server refines the function from requests to answers: however the connection cuts the stream, the
  worker takes the requests out of it one by one and sends the answers in order, and goes on with what follows.\<close>

theorem rpc_worker_answers:
  assumes ok: "net_ok io incoming sent" and live: "recv_live io incoming" and slive: "send_live io" and "br_ok r" "br_buffer r \<noteq> []"
    and "\<forall>m\<in>set ms. framed m \<and> length m \<le> length send_buffer" and "pending incoming (r, k) = concat ms @ rest"
    and "rpc_answers serve send_buffer ms c = (Inr outs, c')"
  shows "\<exists>r' k'. (\<forall>n. rpc_worker io serve send_buffer (length ms + n) c (r, k) = rpc_worker io serve send_buffer n c' (r', k'))
    \<and> sent k' = sent k @ concat outs \<and> pending incoming (r', k') = rest"
  by (rule rpc_worker_answers_run [OF assms])

section \<open>Errors of the service arrive at the client\<close>

text \<open>What a service may have built when it throws: anything behind the first \<open>i\<close> bytes.\<close>

definition built_behind :: "nat \<Rightarrow> builder \<Rightarrow> builder \<Rightarrow> bool" where
  "built_behind i b b' \<longleftrightarrow> builder_ok b' \<and> b_max_size b' = b_max_size b \<and> b_offset b \<le> b_offset b'
     \<and> (\<forall>j n. j + n \<le> i \<longrightarrow> mem_peek n j (b_buffer b') = mem_peek n j (b_buffer b))"

lemma built_behind_trans: "built_behind i a b \<Longrightarrow> built_behind i b c \<Longrightarrow> built_behind i a c"
  by (auto simp: built_behind_def)

lemma built_behind_mono: "built_behind i a b \<Longrightarrow> j \<le> i \<Longrightarrow> built_behind j a b"
  by (auto simp: built_behind_def)

lemma extends_built_behind: "extends b b' \<Longrightarrow> builder_ok b \<Longrightarrow> i \<le> unat (b_offset b) \<Longrightarrow> built_behind i b b'"
  using extends_ok by (auto simp: built_behind_def extends_def)

lemma patched_built_behind: "patched j v b b' \<Longrightarrow> i \<le> j \<Longrightarrow> i \<le> unat (b_offset b) \<Longrightarrow> built_behind i b b'"
  by (auto simp: built_behind_def patched_def)

text \<open>The envelope that the service gets: six bytes of zeros at the start of the buffer.\<close>

abbreviation response_struct :: struct_builder where
  "response_struct \<equiv> \<lparr>sb_count = 2, sb_static_size = 0, sb_live = True, sb_offset = 0\<rparr>"

lemma response_start:
  assumes cap: "length send_buffer < 65536" "6 \<le> length send_buffer"
  obtains b0 where "response_builder_init (builder_init send_buffer (of_nat (length send_buffer))) = Inr (response_struct, b0)"
    "builder_ok b0" "unat (b_offset b0) = 6" "unat (b_max_size b0) = length send_buffer"
    "mem_peek 2 2 (b_buffer b0) = replicate 2 0" "mem_peek 2 4 (b_buffer b0) = replicate 2 0"
proof -
  let ?b = "builder_init send_buffer (of_nat (length send_buffer))"
  have mx: "unat (b_max_size ?b) = length send_buffer" using cap(1) by (simp add: builder_init_def unat_word_of_nat)
  have ok: "builder_ok ?b" "unat (b_offset ?b) = 0" "b_offset ?b = 0" using mx by (simp_all add: builder_ok_def builder_init_def)
  have ms: "sb_min_size 2 0 = 6" by (simp add: sb_min_size_def)
  have room: "unat (b_offset ?b) + sb_min_size 2 0 \<le> unat (b_max_size ?b)" using mx cap(2) ok ms by simp
  obtain b0 where b0: "struct_builder_init 2 0 ?b = Inr (response_struct, b0)" "extends ?b b0" "unat (b_offset b0) = 6"
    "\<forall>i n. i + n \<le> 6 \<longrightarrow> mem_peek n i (b_buffer b0) = replicate n 0"
    using struct_builder_init_spec [OF ok(1) room] ok(2,3) ms by (metis add_0)
  show thesis
  proof (rule that [of b0])
    show "response_builder_init ?b = Inr (response_struct, b0)" using b0(1) by (simp add: response_builder_init_def)
    show "builder_ok b0" "unat (b_max_size b0) = length send_buffer"
      using extends_ok [OF b0(2) ok(1)] b0(2) mx by (simp_all add: extends_def)
  qed (use b0(3,4) in simp_all)
qed

text \<open>The answer to a request that ends with a \<open>server_error\<close>, whatever has been built before it.\<close>

lemma rpc_error_answer:
  assumes cap: "length send_buffer < 65536"
    and b0: "response_builder_init (builder_init send_buffer (of_nat (length send_buffer))) = Inr (response_struct, b0)"
      "unat (b_offset b0) = 6" "unat (b_max_size b0) = length send_buffer" "mem_peek 2 2 (b_buffer b0) = replicate 2 0"
    and req: "request_parser_init (message_parser m) 0 = Inr request"
    and srv: "serve request (response_struct, b0) c = (Server_Error code what, (response_struct, b), c')"
    and b: "built_behind 4 b0 b" "unat (b_offset b) + 10 + length what \<le> length send_buffer"
  obtains out where "rpc_answer serve send_buffer m c = (Inr out, c')" "framed out" "length out = unat (b_offset b) + 10 + length what"
    "mem_peek 2 2 out = le_bytes 2 (b_offset b)" "error_layout out (unat (b_offset b)) code what"
proof -
  have ok: "builder_ok b" "6 \<le> unat (b_offset b)" "unat (b_max_size b) = length send_buffer"
    using b(1) b0(2,3) by (auto simp: built_behind_def word_le_nat_alt)
  have z: "mem_peek 2 2 (b_buffer b) = replicate 2 0" using b(1) b0(4) by (simp add: built_behind_def)
  have pos: "sb_offsets_pos response_struct 0 = 2" by (simp add: sb_offsets_pos_def)
  obtain b2 where b2: "sb_set_offset 0 (response_struct, b) = Inr (response_struct, b2)" "patched 2 (b_offset b) b b2"
    using sb_set_offset_spec [OF ok(1), of response_struct 0] z ok(2) unfolding pos by auto
  have ok2: "builder_ok b2" "b_offset b2 = b_offset b" "unat (b_max_size b2) = length send_buffer"
    "mem_peek 2 2 (b_buffer b2) = le_bytes 2 (b_offset b)" using b2(2) ok(3) by (simp_all add: patched_def)
  have room: "unat (b_offset b2) + 10 + length what \<le> unat (b_max_size b2)" using ok2 b(2) by simp
  obtain b3 where b3: "build_error code what b2 = Inr b3" "builder_ok b3" "unat (b_offset b3) = unat (b_offset b2) + 10 + length what"
    "error_layout (b_buffer b3) (unat (b_offset b2)) code what" "b_max_size b3 = b_max_size b2"
    "\<forall>i n. i + n \<le> unat (b_offset b2) \<longrightarrow> mem_peek n i (b_buffer b3) = mem_peek n i (b_buffer b2)"
    by (rule build_error_spec [OF ok2(1) room])
  have o3: "2 \<le> unat (b_offset b3)" "unat (b_offset b3) = unat (b_offset b) + 10 + length what" using b3(3) ok2(2) by simp_all
  obtain b4 where b4: "sb_finalize (response_struct, b3) = Inr (response_struct\<lparr>sb_live := False\<rparr>, b4)" "patched 0 (b_offset b3 - 2) b3 b4"
    "framed (take (unat (b_offset b4)) (b_buffer b4))" "length (take (unat (b_offset b4)) (b_buffer b4)) = unat (b_offset b3)"
    by (rule finalize_framed [OF b3(2), of response_struct]) (use o3 in simp_all)
  let ?out = "take (unat (b_offset b4)) (b_buffer b4)"
  have o4: "unat (b_offset b4) = unat (b_offset b) + 10 + length what" using b4(2) o3 by (simp add: patched_def)
  have pk: "mem_peek n i ?out = mem_peek n i (b_buffer b3)" if "2 \<le> i" "i + n \<le> unat (b_offset b) + 10 + length what" for n i
  proof -
    have "mem_peek n i ?out = mem_peek n i (b_buffer b4)" using that o4 by (simp add: peek_def drop_take)
    then show ?thesis using patched_peek [OF b4(2), of i n] that o3(2) by simp
  qed
  have lay: "error_layout ?out (unat (b_offset b)) code what"
    using b3(4) ok(2) ok2(2) pk unfolding error_layout_def by simp
  have "rpc_add_error code what (response_struct, b) = Inr (response_struct, b3)"
    using b2(1) b3(1) by (simp add: rpc_add_error_def response_add_error_def build_error_def res_bind_assoc case_prod_beta res_bind_eq_Inr)
  then have "rpc_answer serve send_buffer m c = (Inr ?out, c')"
    using req srv b0(1) b4(1) by (simp add: rpc_answer_def)
  moreover have "mem_peek 2 2 ?out = le_bytes 2 (b_offset b)" using pk [of 2 2] b3(6) ok(2) ok2(2,4) by simp
  ultimately show thesis using that b4(3,4) o3(2) lay by simp
qed

lemma rpc_wait_error:
  assumes out: "framed out" "length out = unat i + 10 + length what" "mem_peek 2 2 out = le_bytes 2 (i :: u16)" "error_layout out (unat i) code what"
    and small: "length out < 65536" "6 \<le> unat i" "unat i + 6 < 32768" and rd: "rpc_read_message io cap s = (Inr (Some out), s')"
  obtains e where "rpc_wait io cap s = (Inr (Remote_Error e), s')" "error_code e = Inr code" "error_message e = Inr what"
proof -
  let ?p = "message_parser out"
  have sz: "unat (p_size ?p) = unat i + 10 + length what" "p_buffer ?p = out"
    unfolding out(2) [symmetric] using small by (simp_all add: message_parser_def parser_init_def unat_word_of_nat take_bit_nat_eq_self)
  let ?sp = "\<lparr>sp_parser = ?p, sp_count = 2, sp_offset = 0\<rparr>"
  have init: "response_parser_init ?p 0 = Inr ?sp"
    using sz small(2) by (simp add: response_parser_init_def struct_parser_init_def sb_min_size_def)
  have o3: "mem_peek 2 (unat (0 :: u16) + 2 + 2 * 0) (p_buffer ?p) = le_bytes 2 i"
    using out(3) unfolding sz(2) by (simp only: unsigned_0 add_0 mult_0_right add_0_right)
  have i: "i \<noteq> 0" using small(2) by auto
  have o: "sp_offset_at 0 ?sp = Inr (i + 0)" "sp_has_offset 0 ?sp = Inr True"
    by (rule sp_offset_at_spec [OF _ _ o3 i]; use sz out(2) small(2) in simp)+
  obtain e where e: "error_parser_init ?p i = Inr e" "error_has_code e = Inr True" "error_code e = Inr code"
    "error_has_message e = Inr True" "error_message e = Inr what"
    by (rule parse_error_spec [of ?p i code what]) (use sz out small in simp_all)
  have "rpc_wait io cap s = (Inr (Remote_Error e), s')"
    using rd init o e(1) by (simp add: rpc_wait_def act_bind_def response_has_error_def response_error_def)
  then show thesis using that e(3,5) by blast
qed

text \<open>
  What the implementation of a function gets: the builder of its message behind the envelope. What it leaves when
  it throws, \<open>function_message\<close> hands on, the envelope being as it was but for the position of the message.
\<close>

definition function_response :: "'c service_function \<Rightarrow> bytes \<Rightarrow> (struct_builder \<times> builder) res" where
  "function_response f send_buffer =
     res_bind (response_builder_init (builder_init send_buffer (of_nat (length send_buffer)))) (\<lambda>response.
     res_bind (response_add_message response) (\<lambda>(s, b). struct_builder_init (fst (fn_response f)) (snd (fn_response f)) b))"

lemma function_message_throws:
  assumes cap: "length send_buffer < 65536" "6 \<le> length send_buffer"
    and req: "res_bind (request_message request) (struct_parser_init (fst (fn_request f)) (snd (fn_request f)) (sp_parser request)) = Inr req"
    and inner: "function_response f send_buffer = Inr (s, b)"
    and impl: "fn_impl f req (s, b) c = (end, (s', b'), c')" "sb_offset s' = sb_offset s" "built_behind (unat (sb_offset s)) b b'"
  obtains b0 b'' where "response_builder_init (builder_init send_buffer (of_nat (length send_buffer))) = Inr (response_struct, b0)"
    "unat (b_offset b0) = 6" "unat (b_max_size b0) = length send_buffer" "mem_peek 2 2 (b_buffer b0) = replicate 2 0"
    "function_message f request (response_struct, b0) c = (end, (response_struct, b''), c')"
    "built_behind 4 b0 b''" "b_offset b'' = b_offset b'"
proof -
  obtain b0 where b0: "response_builder_init (builder_init send_buffer (of_nat (length send_buffer))) = Inr (response_struct, b0)"
    "builder_ok b0" "unat (b_offset b0) = 6" "unat (b_max_size b0) = length send_buffer"
    "mem_peek 2 2 (b_buffer b0) = replicate 2 0" "mem_peek 2 4 (b_buffer b0) = replicate 2 0" by (rule response_start [OF cap])
  have pos: "sb_offsets_pos response_struct 1 = 4" by (simp add: sb_offsets_pos_def)
  obtain b1 where b1: "sb_set_offset 1 (response_struct, b0) = Inr (response_struct, b1)" "patched 4 (b_offset b0) b0 b1"
    using sb_set_offset_spec [OF b0(2), of response_struct 1] b0(3,6) unfolding pos by auto
  have o1: "b_offset b1 = b_offset b0" "builder_ok b1" using b1(2) by (simp_all add: patched_def)
  let ?c = "fst (fn_response f)" and ?t = "snd (fn_response f)"
  have i: "struct_builder_init ?c ?t b1 = Inr (s, b)"
    using inner b0(1) b1(1) by (simp add: function_response_def response_add_message_def)
  then have room: "unat (b_offset b1) + sb_min_size ?c ?t \<le> unat (b_max_size b1)"
    by (auto simp: struct_builder_init_def Let_def res_assert_eq_Inr)
  obtain b2 where "struct_builder_init ?c ?t b1 = Inr (\<lparr>sb_count = ?c, sb_static_size = ?t, sb_live = True, sb_offset = b_offset b1\<rparr>, b2)"
    "extends b1 b2" "unat (b_offset b2) = unat (b_offset b1) + sb_min_size ?c ?t" by (rule struct_builder_init_spec [OF o1(2) room])
  then have b: "sb_offset s = b_offset b0" "extends b1 b" "unat (b_offset b) = 6 + sb_min_size ?c ?t"
    using i o1(1) b0(3) by auto
  have s6: "unat (sb_offset s) = 6" using b(1) b0(3) by simp
  have ok': "builder_ok b'" "unat (b_offset b) \<le> unat (b_offset b')" using impl(3) by (simp_all add: built_behind_def word_le_nat_alt)
  have m: "2 \<le> sb_min_size ?c ?t" by (simp add: sb_min_size_def)
  obtain s'' b'' where d: "sb_destroy (s', b') = Inr (s'', b'')" "built_behind 4 b' b''" "b_offset b'' = b_offset b'"
  proof (cases "sb_live s'")
    case True
    from sb_destroy_spec [OF ok'(1) True] obtain b'' where "sb_destroy (s', b') = Inr (s'\<lparr>sb_live := False\<rparr>, b'')"
      "patched 6 (b_offset b' - sb_offset s' - 2) b' b''" using impl(2) s6 ok'(2) b(3) m by auto
    then show thesis using that [of "s'\<lparr>sb_live := False\<rparr>" b''] patched_built_behind [of 6 _ b' b'' 4] ok'(2) b(3) by (simp add: patched_def)
  next
    case False
    then show thesis using that [of s' b'] ok'(1) by (simp add: sb_destroy_def built_behind_def)
  qed
  have "built_behind 4 b0 b1" by (rule patched_built_behind [OF b1(2)]) (use b0(3) in simp_all)
  moreover have "built_behind 4 b1 b" by (rule extends_built_behind [OF b(2) o1(2)]) (use o1(1) b0(3) in simp)
  moreover have "built_behind 4 b b'" by (rule built_behind_mono [OF impl(3)]) (use s6 in simp)
  ultimately have "built_behind 4 b0 b''" using d(2) built_behind_trans by blast
  moreover have "function_message f request (response_struct, b0) c = (end, (response_struct, b''), c')"
    using req b1(1) i impl(1) d(1) by (simp add: function_message_def response_add_message_def)
  ultimately show thesis using that b0(1,3,4,5) d(3) by blast
qed

text \<open>
  C37: A \<open>server_error\<close> that a function of a service throws, whatever it has built of its own message before,
  arrives at the client with its code and its text: the worker sends an answer, and the client that gets these
  bytes, in whatever pieces, reads the error out of them. The answer, with what was built and the error behind it,
  has to fit the buffer, and the error has to start in its first 32 kB.\<close>

theorem rpc_error_arrives:
  assumes srv_net: "net_ok sio sin sout" "recv_live sio sin" "send_live sio" "br_ok sr" "br_buffer sr \<noteq> []"
    and req: "framed m" "length m \<le> length send_buffer" "pending sin (sr, sk) = m" "request_parser_init (message_parser m) 0 = Inr request"
    and called: "request_module request = Inr mid" "modules mid = Some functions" "request_function request = Inr fid" "functions fid = Some f"
      "res_bind (request_message request) (struct_parser_init (fst (fn_request f)) (snd (fn_request f)) (sp_parser request)) = Inr req"
    and inner: "function_response f send_buffer = Inr (s, b)"
    and impl: "fn_impl f req (s, b) c = (Server_Error code what, (s', b'), c')"
      "sb_offset s' = sb_offset s" "built_behind (unat (sb_offset s)) b b'"
    and fits: "length send_buffer < 65536" "unat (b_offset b') + 10 + length what \<le> length send_buffer" "unat (b_offset b') + 6 < 32768"
    and cli_net: "net_ok cio cin cout" "recv_live cio cin" "br_ok cr" "br_buffer cr \<noteq> []"
  shows "\<exists>sr' sk' out. rpc_worker sio (service_message unknown modules) send_buffer 1 c (sr, sk) = (Running, c', (sr', sk'))
    \<and> sout sk' = sout sk @ out
    \<and> (\<forall>ck. pending cin (cr, ck) = out \<longrightarrow> (\<exists>e s'. rpc_wait cio (length send_buffer) (cr, ck) = (Inr (Remote_Error e), s')
        \<and> error_code e = Inr code \<and> error_message e = Inr what))"
proof -
  let ?serve = "service_message unknown modules"
  have six: "6 \<le> length send_buffer" using fits(2) req(1,2,4)
    by (auto simp: request_parser_init_def struct_parser_init_def sb_min_size_def message_parser_def parser_init_def res_assert_eq_Inr
        unat_word_of_nat split: if_splits)
  obtain b0 b'' where b0: "response_builder_init (builder_init send_buffer (of_nat (length send_buffer))) = Inr (response_struct, b0)"
    "unat (b_offset b0) = 6" "unat (b_max_size b0) = length send_buffer" "mem_peek 2 2 (b_buffer b0) = replicate 2 0"
    and f: "function_message f request (response_struct, b0) c = (Server_Error code what, (response_struct, b''), c')"
    "built_behind 4 b0 b''" "b_offset b'' = b_offset b'"
    by (rule function_message_throws [OF fits(1) six called(5) inner impl])
  have srv: "?serve request (response_struct, b0) c = (Server_Error code what, (response_struct, b''), c')"
    using called(1-4) f(1) by (simp add: service_message_def module_message_def)
  have room: "unat (b_offset b'') + 10 + length what \<le> length send_buffer" using f(3) fits(2) by simp
  obtain out where out: "rpc_answer ?serve send_buffer m c = (Inr out, c')" "framed out" "length out = unat (b_offset b'') + 10 + length what"
    "mem_peek 2 2 out = le_bytes 2 (b_offset b'')" "error_layout out (unat (b_offset b'')) code what"
    by (rule rpc_error_answer [where serve = ?serve, OF fits(1) b0 req(4) srv f(2) room])
  have "rpc_answers ?serve send_buffer [m] c = (Inr [out], c')" using out(1) by simp
  from rpc_worker_answers_run [OF srv_net, of "[m]" send_buffer sk "[]", OF _ _ this] req(1,2,3) obtain sr' sk' where
    w: "\<forall>n. rpc_worker sio ?serve send_buffer (1 + n) c (sr, sk) = rpc_worker sio ?serve send_buffer n c' (sr', sk')"
    "sout sk' = sout sk @ out" by auto
  have "6 \<le> unat (b_offset b'')" using f(2) b0(2) by (simp add: built_behind_def word_le_nat_alt)
  note wait = rpc_wait_error [OF out(2-5) _ this, unfolded f(3)]
  have "\<exists>e s'. rpc_wait cio (length send_buffer) (cr, ck) = (Inr (Remote_Error e), s') \<and> error_code e = Inr code \<and> error_message e = Inr what"
    if p: "pending cin (cr, ck) = out" for ck
  proof -
    have "length out \<le> length send_buffer" using out(3) room by simp
    moreover have "pending cin (cr, ck) = out @ []" using p by simp
    ultimately obtain r1 k1 where "rpc_read_message cio (length send_buffer) (cr, ck) = (Inr (Some out), (r1, k1))"
      by (rule rpc_read_message_whole [OF cli_net out(2)])
    moreover have "length out < 65536" using out(3) room fits(1) by simp
    ultimately obtain e where "rpc_wait cio (length send_buffer) (cr, ck) = (Inr (Remote_Error e), (r1, k1))"
      "error_code e = Inr code" "error_message e = Inr what" by (metis wait fits(3))
    then show ?thesis by blast
  qed
  then show ?thesis using w(1) [rule_format, of 0] w(2) by auto
qed

text \<open>A service with one function, which builds a field of its answer and throws then; the slow connection.\<close>

definition failing_function :: "nat service_function" where
  "failing_function = \<lparr>fn_request = (0, 0), fn_response = (1, 0), fn_impl = (\<lambda>request response c.
     (Server_Error 5 [7, 8],
      (case res_bind (sb_set_offset 0 response) (sb_add_value (integral_serialize (9 :: u16))) of Inl _ \<Rightarrow> response | Inr response \<Rightarrow> response),
      c + 1))\<rparr>"

definition failing_service :: "nat service" where
  "failing_service = service_message (\<lambda>_. []) [1 \<mapsto> [3 \<mapsto> failing_function]]"

definition failing_request :: bytes where
  "failing_request = [8, 0, 8, 0, 1, 0, 3, 0, 0, 0]"

abbreviation failing_parser :: struct_parser where
  "failing_parser \<equiv> \<lparr>sp_parser = message_parser failing_request, sp_count = 1, sp_offset = 0\<rparr>"

abbreviation failing_inner :: struct_builder where
  "failing_inner \<equiv> \<lparr>sb_count = 1, sb_static_size = 0, sb_live = True, sb_offset = 6\<rparr>"

lemma failing_request_ok: "framed failing_request" "length failing_request = 10"
  "request_parser_init (message_parser failing_request) 0 = Inr failing_parser"
  "request_module failing_parser = Inr 1" "request_function failing_parser = Inr 3"
  "res_bind (request_message failing_parser) (struct_parser_init 0 0 (message_parser failing_request))
     = Inr \<lparr>sp_parser = message_parser failing_request, sp_count = 0, sp_offset = 8\<rparr>"
proof -
  show l: "length failing_request = 10" by code_simp
  have "unat (le_word (take 2 failing_request) :: u16) = 8" by code_simp
  then show "framed failing_request" using l by (simp add: framed_def)
  show "request_parser_init (message_parser failing_request) 0 = Inr failing_parser" by code_simp
  show "request_module failing_parser = Inr 1" by code_simp
  show "request_function failing_parser = Inr 3" by code_simp
  show "res_bind (request_message failing_parser) (struct_parser_init 0 0 (message_parser failing_request))
     = Inr \<lparr>sp_parser = message_parser failing_request, sp_count = 0, sp_offset = 8\<rparr>" by code_simp
qed

lemma failing_function_ok:
  "function_response failing_function (replicate 32 0)
     = Inr (failing_inner, \<lparr>b_buffer = [0, 0, 0, 0, 6, 0] @ replicate 26 0, b_max_size = 32, b_offset = 10\<rparr>)"
  "fn_impl failing_function request (failing_inner, \<lparr>b_buffer = [0, 0, 0, 0, 6, 0] @ replicate 26 0, b_max_size = 32, b_offset = 10\<rparr>) c
     = (Server_Error 5 [7, 8], (failing_inner, \<lparr>b_buffer = [0, 0, 0, 0, 6, 0, 0, 0, 4, 0, 9, 0] @ replicate 20 0, b_max_size = 32, b_offset = 12\<rparr>), c + 1)"
proof -
  show "function_response failing_function (replicate 32 0)
     = Inr (failing_inner, \<lparr>b_buffer = [0, 0, 0, 0, 6, 0] @ replicate 26 0, b_max_size = 32, b_offset = 10\<rparr>)" by code_simp
  have "res_bind (sb_set_offset 0 (failing_inner, \<lparr>b_buffer = [0, 0, 0, 0, 6, 0] @ replicate 26 0, b_max_size = 32, b_offset = 10\<rparr>))
      (sb_add_value (integral_serialize (9 :: u16)))
    = Inr (failing_inner, \<lparr>b_buffer = [0, 0, 0, 0, 6, 0, 0, 0, 4, 0, 9, 0] @ replicate 20 0, b_max_size = 32, b_offset = 12\<rparr>)" by code_simp
  then show "fn_impl failing_function request (failing_inner, \<lparr>b_buffer = [0, 0, 0, 0, 6, 0] @ replicate 26 0, b_max_size = 32, b_offset = 10\<rparr>) c
     = (Server_Error 5 [7, 8], (failing_inner, \<lparr>b_buffer = [0, 0, 0, 0, 6, 0, 0, 0, 4, 0, 9, 0] @ replicate 20 0, b_max_size = 32, b_offset = 12\<rparr>), c + 1)"
    by (simp add: failing_function_def)
qed

lemma failing_function_built:
  "built_behind (unat (sb_offset failing_inner)) \<lparr>b_buffer = [0, 0, 0, 0, 6, 0] @ replicate 26 0, b_max_size = 32, b_offset = 10\<rparr>
     \<lparr>b_buffer = [0, 0, 0, 0, 6, 0, 0, 0, 4, 0, 9, 0] @ replicate 20 0, b_max_size = 32, b_offset = 12\<rparr>" (is "built_behind _ ?b ?b'")
proof -
  have "mem_peek n j (b_buffer ?b') = mem_peek n j (b_buffer ?b)" if "j + n \<le> 6" for j n
  proof -
    have "take n (drop j xs) = take n (drop j (take 6 xs))" for xs :: bytes using that by (simp add: take_drop min_def)
    from this [of "b_buffer ?b'"] this [of "b_buffer ?b"] show ?thesis by (simp add: peek_def)
  qed
  then show ?thesis by (simp add: built_behind_def builder_ok_def)
qed

lemma failing_function_request:
  "res_bind (request_message failing_parser) (struct_parser_init (fst (fn_request failing_function))
     (snd (fn_request failing_function)) (sp_parser failing_parser)) = Inr \<lparr>sp_parser = message_parser failing_request, sp_count = 0, sp_offset = 8\<rparr>"
  using failing_request_ok(6) by (simp add: failing_function_def)

lemma failing_service_ok:
  obtains out where "rpc_answer failing_service (replicate 32 0) failing_request 0 = (Inr out, 1)" "framed out"
proof -
  let ?l = "length (replicate 32 (0 :: u8))"
  have l: "?l < 65536" "6 \<le> ?l" by simp_all
  obtain b0 b'' where b0: "response_builder_init (builder_init (replicate 32 0) (of_nat ?l)) = Inr (response_struct, b0)"
    "unat (b_offset b0) = 6" "unat (b_max_size b0) = ?l" "mem_peek 2 2 (b_buffer b0) = replicate 2 0"
    and f: "function_message failing_function failing_parser (response_struct, b0) 0 = (Server_Error 5 [7, 8], (response_struct, b''), 0 + 1)"
    "built_behind 4 b0 b''" "b_offset b'' = 12"
    by (rule function_message_throws [OF l failing_function_request failing_function_ok(1) failing_function_ok(2) [of _ 0] _ failing_function_built])
      simp_all
  have srv: "failing_service failing_parser (response_struct, b0) 0 = (Server_Error 5 [7, 8], (response_struct, b''), 1)"
    using failing_request_ok(4,5) f(1) by (simp add: failing_service_def service_message_def module_message_def)
  from rpc_error_answer [where serve = failing_service, OF l(1) b0 failing_request_ok(3) srv f(2)] f(3) that show thesis
    by (auto simp: length_replicate)
qed

lemma slow_reader_ok: "br_ok (br_init (replicate 4 0))" "br_buffer (br_init (replicate 4 0)) \<noteq> []"
  by (simp_all add: br_ok_def br_init_def)

theorem rpc_worker_answers_witness:
  "\<exists>out r' k'. rpc_worker slow_net failing_service (replicate 32 0) 1 0 (br_init (replicate 4 0), (failing_request @ [9], []))
      = (Running, 1, (r', k')) \<and> snd k' = out \<and> out \<noteq> [] \<and> pending fst (r', k') = [9]"
proof -
  obtain out where out: "rpc_answer failing_service (replicate 32 0) failing_request 0 = (Inr out, 1)" "framed out"
    by (rule failing_service_ok)
  have a: "rpc_answers failing_service (replicate 32 0) [failing_request] 0 = (Inr [out], 1)" using out(1) by simp
  have p: "pending fst (br_init (replicate 4 0), (failing_request @ [9], [])) = concat [failing_request] @ [9]" by (simp add: br_init_ok)
  have "\<forall>m\<in>set [failing_request]. framed m \<and> length m \<le> length (replicate 32 (0 :: u8))" using failing_request_ok(1,2) by simp
  from rpc_worker_answers [OF slow_net_ok slow_reader_ok this p a] obtain r' k' where
    w: "\<forall>n. rpc_worker slow_net failing_service (replicate 32 0) (length [failing_request] + n) 0
      (br_init (replicate 4 0), (failing_request @ [9], [])) = rpc_worker slow_net failing_service (replicate 32 0) n 1 (r', k')"
    "snd k' = snd (failing_request @ [9], []) @ concat [out]" "pending fst (r', k') = [9]" by blast
  have "out \<noteq> []" using out(2) by (auto simp: framed_def)
  moreover have "rpc_worker slow_net failing_service (replicate 32 0) 1 0 (br_init (replicate 4 0), (failing_request @ [9], []))
      = (Running, 1, (r', k'))" using spec [OF w(1), of 0] by (simp only: length_Cons list.size(3) add_0_right One_nat_def rpc_worker.simps(1))
  ultimately show ?thesis using w(2,3) by simp
qed

theorem rpc_error_arrives_witness:
  "\<exists>sr' sk' out. rpc_worker slow_net failing_service (replicate 32 0) 1 0 (br_init (replicate 4 0), (failing_request, []))
      = (Running, 1, (sr', sk')) \<and> snd sk' = out
    \<and> (\<exists>e s'. rpc_wait slow_net 32 (br_init (replicate 4 0), (out, [])) = (Inr (Remote_Error e), s')
        \<and> error_code e = Inr 5 \<and> error_message e = Inr [7, 8])"
proof -
  have p: "pending fst (br_init (replicate 4 0), (failing_request, [])) = failing_request" by (simp add: br_init_ok)
  have l: "length failing_request \<le> length (replicate 32 (0 :: u8))" using failing_request_ok(2) by simp
  from rpc_error_arrives [where unknown = "\<lambda>_. []" and modules = "[1 \<mapsto> [3 \<mapsto> failing_function]]" and send_buffer = "replicate 32 0"
      and c = 0 and sk = "(failing_request, [])",
      OF slow_net_ok slow_reader_ok failing_request_ok(1) l p failing_request_ok(3) failing_request_ok(4) _ failing_request_ok(5) _ failing_function_request
        failing_function_ok(1) failing_function_ok(2) _ failing_function_built _ _ _ slow_net_ok(1,2) slow_reader_ok]
  obtain sr' sk' out where o: "rpc_worker slow_net failing_service (replicate 32 0) 1 0 (br_init (replicate 4 0), (failing_request, []))
      = (Running, 1, (sr', sk'))" "snd sk' = out"
    "\<forall>ck. pending fst (br_init (replicate 4 0), ck) = out \<longrightarrow>
      (\<exists>e s'. rpc_wait slow_net 32 (br_init (replicate 4 0), ck) = (Inr (Remote_Error e), s')
        \<and> error_code e = Inr 5 \<and> error_message e = Inr [7, 8])" by (auto simp: failing_service_def)
  from spec [OF o(3), of "(out, [])"] have "\<exists>e s'. rpc_wait slow_net 32 (br_init (replicate 4 0), (out, [])) = (Inr (Remote_Error e), s')
    \<and> error_code e = Inr 5 \<and> error_message e = Inr [7, 8]" by (simp add: br_init_ok)
  then show ?thesis using o(1,2) by blast
qed

text \<open>
  A call arrives as it was built: what \<open>execute\<close> sends, in whatever pieces it goes out and comes in, is
  read by the server as one message, with the contents of the client's buffer behind its size.\<close>

lemma rpc_request_arrives:
  assumes req: "builder_ok b" "sb_live s" "sb_offset s = 0" "2 \<le> unat (b_offset b)" "unat (b_offset b) \<le> cap"
    and cli: "net_ok cio cin cout" "send_live cio"
    and srv: "net_ok sio sin sout" "recv_live sio sin" "br_ok r" "br_buffer r \<noteq> []"
  shows "\<exists>m ck'. rpc_execute cio (s, b) ck = (Inr (), ck') \<and> cout ck' = cout ck @ m \<and> length m = unat (b_offset b)
    \<and> (\<forall>i n. 2 \<le> i \<and> i + n \<le> length m \<longrightarrow> mem_peek n i m = mem_peek n i (b_buffer b))
    \<and> (\<forall>sk rest. pending sin (r, sk) = m @ rest \<longrightarrow> (\<exists>r' sk'. rpc_read_message sio cap (r, sk) = (Inr (Some m), (r', sk'))
        \<and> pending sin (r', sk') = rest))"
proof -
  obtain b' where b': "sb_finalize (s, b) = Inr (s\<lparr>sb_live := False\<rparr>, b')" "patched 0 (b_offset b - 2) b b'"
    "framed (take (unat (b_offset b')) (b_buffer b'))" "length (take (unat (b_offset b')) (b_buffer b')) = unat (b_offset b)"
    by (rule finalize_framed [OF req(1-4)])
  let ?m = "take (unat (b_offset b')) (b_buffer b')"
  have o': "b_offset b' = b_offset b" using b'(2) by (simp add: patched_def)
  obtain x ck' where x: "channel_send_all cio ?m 0 ck = (x, ck')" by (cases "channel_send_all cio ?m 0 ck")
  note sp = channel_send_all_spec [OF cli(1) x]
  have xi: "x = Inr ()" using sp cli(2) by blast
  then obtain n where "cout ck' = cout ck @ take n ?m" "n = length ?m" using sp by blast
  then have "cout ck' = cout ck @ ?m" by (simp only: take_all order_refl)
  moreover have "rpc_execute cio (s, b) ck = (Inr (), ck')" using b'(1) x xi by (simp add: rpc_execute_def)
  moreover have "mem_peek n i ?m = mem_peek n i (b_buffer b)" if "2 \<le> i \<and> i + n \<le> length ?m" for i n
  proof -
    have "i + n \<le> unat (b_offset b)" using that unfolding b'(4) by simp
    then show ?thesis using that patched_peek [OF b'(2), of i n] o' by (simp add: peek_def drop_take)
  qed
  moreover have "\<exists>r' sk'. rpc_read_message sio cap (r, sk) = (Inr (Some ?m), (r', sk')) \<and> pending sin (r', sk') = rest"
    if p: "pending sin (r, sk) = ?m @ rest" for sk rest
  proof -
    have "length ?m \<le> cap" using b'(4) req(5) by simp
    from rpc_read_message_whole [OF srv b'(3) this p] show ?thesis by metis
  qed
  ultimately show ?thesis using b'(4) by blast
qed

lemma rpc_request_arrives_witness:
  "\<exists>m r' k'. length m = 8 \<and> rpc_read_message slow_net 32 (br_init (replicate 4 0), (m @ [9], [])) = (Inr (Some m), (r', k'))"
proof -
  let ?b = "\<lparr>b_buffer = replicate 32 0, b_max_size = 32, b_offset = 8\<rparr>"
  let ?s = "\<lparr>sb_count = 1, sb_static_size = 4, sb_live = True, sb_offset = 0\<rparr>"
  have b: "builder_ok ?b" "sb_live ?s" "sb_offset ?s = 0" "2 \<le> unat (b_offset ?b)" "unat (b_offset ?b) \<le> 32"
    by (simp_all add: builder_ok_def)
  from rpc_request_arrives [OF b slow_net_ok(1,3) slow_net_ok(1,2) slow_reader_ok] obtain m where
    m: "length m = unat (b_offset ?b)" "\<forall>sk rest. pending fst (br_init (replicate 4 0), sk) = m @ rest \<longrightarrow>
      (\<exists>r' sk'. rpc_read_message slow_net 32 (br_init (replicate 4 0), sk) = (Inr (Some m), (r', sk')) \<and> pending fst (r', sk') = rest)"
    by blast
  from m(2) [rule_format, of "(m @ [9], [])" "[9]"] have "\<exists>r' k'. rpc_read_message slow_net 32 (br_init (replicate 4 0), (m @ [9], []))
      = (Inr (Some m), (r', k'))" by (auto simp: br_init_ok)
  then show ?thesis using m(1) by auto
qed

section \<open>Exceptions that leave the worker thread\<close>

text \<open>
  A client that goes away before its answer is sent can take the server with it: the thread catches
  \<open>disconnected_error\<close> and malformed messages only, so any other error number of the send, a broken pipe for
  one, leaves the thread as an exception that nobody catches.\<close>

lemma rpc_send_error_escapes:
  assumes "rpc_read_message io (length send_buffer) s = (Inr (Some m), (r, k))" "rpc_answer serve send_buffer m c = (Inr out, c')"
    and "out \<noteq> []" "net_send io out 0 (snd (net_now io k)) = (Inl e, k')" "e \<noteq> ECONNRESET"
  shows "\<exists>s'. rpc_worker io serve send_buffer (Suc n) c s = (Escaped (channel_error e), c', s')"
proof -
  have "\<exists>k''. channel_send_all io out 0 k = (Inl (channel_error e), k'')"
    using assms(3,4) by (cases "net_now io k")
      (simp add: channel_send_all.simps [of io out] channel_send_def act_bind_def Let_def)
  then show ?thesis using assms(1,2,5) by (auto simp: rpc_caught_def malformed_message_def channel_error_def)
qed

lemma rpc_send_error_escapes_witness:
  "\<exists>s'. rpc_worker (broken_net 32) failing_service (replicate 32 0) 1 0 (br_init (replicate 4 0), (failing_request, []))
    = (Escaped (Thrown ''runtime_error''), 1, s')"
proof -
  obtain out where out: "rpc_answer failing_service (replicate 32 0) failing_request 0 = (Inr out, 1)" "framed out"
    by (rule failing_service_ok)
  have p: "pending fst (br_init (replicate 4 0), (failing_request, [])) = failing_request @ []" by (simp add: br_init_ok)
  have l: "length failing_request \<le> 32" using failing_request_ok(2) by simp
  obtain r1 k1 where
    "rpc_read_message (broken_net 32) 32 (br_init (replicate 4 0), (failing_request, [])) = (Inr (Some failing_request), (r1, k1))"
    by (rule rpc_read_message_whole [OF broken_net_ok slow_reader_ok failing_request_ok(1) l p])
  then have "rpc_read_message (broken_net 32) (length (replicate 32 (0 :: u8))) (br_init (replicate 4 0), (failing_request, []))
      = (Inr (Some failing_request), (r1, k1))" by simp
  moreover have "out \<noteq> []" using out(2) by (auto simp: framed_def)
  ultimately show ?thesis
    using rpc_send_error_escapes [OF _ out(1), where io = "broken_net 32" and e = 32 and n = 0]
    by (fastforce simp: broken_net_def ECONNRESET_def channel_error_def ECANCELED_def)
qed

end
