(* ===== verification/Http.thy ===== *)
theory Http
  imports Stream_IO
begin

text \<open>
  The HTTP parsers and the worker thread of \<open>net/http_utils.h\<close>, \<open>http_request.h\<close>, \<open>http_response.h\<close> and
  \<open>http_server.h\<close>, and the numbers of \<open>common/conv.cpp\<close>. The regular expressions are matched by definitions of
  their own, which are proved equivalent to what the expressions say. Offsets into the line buffer, an array of
  less than 64 kB, are natural numbers.
\<close>

section \<open>Lines\<close>

abbreviation CR :: u8 where "CR \<equiv> 13"

abbreviation LF :: u8 where "LF \<equiv> 10"

abbreviation SP :: u8 where "SP \<equiv> 32"

abbreviation CRLF :: bytes where "CRLF \<equiv> [CR, LF]"

record http_reader =
  hr_offset :: nat
  hr_buffer :: bytes

function ll_loop :: "'k net_io \<Rightarrow> nat \<Rightarrow> (unit, http_reader \<times> buffered_reader \<times> 'k) action" where
  "ll_loop io start s = (case s of (h, t) \<Rightarrow>
     if length (hr_buffer h) \<le> hr_offset h then (Inr (), s)
     else (case br_read_char io t of
         (Inl e, t) \<Rightarrow> (Inl e, (h, t))
       | (Inr c, t) \<Rightarrow>
           let o' = hr_offset h; buf = (hr_buffer h)[o' := c]; h' = h\<lparr>hr_buffer := buf, hr_offset := o' + 1\<rparr> in
           if c = LF \<and> o' \<noteq> start \<and> buf ! (o' - 1) = CR then (Inr (), (h', t))
           else ll_loop io start (h', t)))"
  by pat_completeness auto
termination
  by (relation "measure (\<lambda>(io, start, h, t). length (hr_buffer h) - hr_offset h)") auto

declare ll_loop.simps [simp del]

text \<open>\<open>None\<close> is the view of the null pointer, for a buffer without room.\<close>

definition load_line :: "'k net_io \<Rightarrow> (bytes option, http_reader \<times> buffered_reader \<times> 'k) action" where
  "load_line io s = (let start = hr_offset (fst s) in
     act_bind (ll_loop io start) (\<lambda>_ (h, t).
       (Inr (if hr_offset h = start then None else Some (take (hr_offset h - start) (drop start (hr_buffer h)))), (h, t))) s)"

text \<open>A line takes at least one byte of the buffer, so there are finitely many.\<close>

lemma ll_loop_progress:
  "ll_loop io start s = (Inr u, s') \<Longrightarrow> hr_offset (fst s) \<le> hr_offset (fst s')
    \<and> length (hr_buffer (fst s')) = length (hr_buffer (fst s))
    \<and> (hr_offset (fst s') \<noteq> hr_offset (fst s) \<longrightarrow> hr_offset (fst s') \<le> length (hr_buffer (fst s)))"
proof (induction io start s rule: ll_loop.induct)
  case (1 io start s)
  obtain h t where s: "s = (h, t)" by (cases s)
  show ?case
  proof (cases "length (hr_buffer h) \<le> hr_offset h")
    case True
    then have "s' = s" using "1.prems" s by (simp add: ll_loop.simps [of io start "(h, t)"])
    then show ?thesis by simp
  next
    case False
    obtain c t1 where c: "br_read_char io t = (Inr c, t1)"
      using "1.prems" s False by (auto simp: ll_loop.simps [of io start "(h, t)"] split: prod.splits sum.splits)
    let ?h = "h\<lparr>hr_buffer := (hr_buffer h)[hr_offset h := c], hr_offset := hr_offset h + 1\<rparr>"
    show ?thesis
    proof (cases "c = LF \<and> hr_offset h \<noteq> start \<and> hr_buffer ?h ! (hr_offset h - 1) = CR")
      case True
      then have "s' = (?h, t1)" using "1.prems" s False c by (auto simp: ll_loop.simps [of io start "(h, t)"] Let_def)
      then show ?thesis using s False by simp
    next
      case nl: False
      then have "ll_loop io start (?h, t1) = (Inr u, s')"
        using "1.prems" s False c by (auto simp: ll_loop.simps [of io start "(h, t)"] Let_def split: if_splits)
      moreover have "\<not> (c = LF \<and> hr_offset h \<noteq> start \<and> ((hr_buffer h)[hr_offset h := c]) ! (hr_offset h - 1) = CR)"
        using nl by simp
      ultimately show ?thesis using "1.IH" [OF s [symmetric] False c [symmetric] refl refl refl refl] s False by auto
    qed
  qed
qed

lemma load_line_progress:
  "load_line io s = (Inr (Some l), s') \<Longrightarrow> length (hr_buffer (fst s')) - hr_offset (fst s') < length (hr_buffer (fst s)) - hr_offset (fst s)"
  by (auto simp: load_line_def Let_def act_bind_eq_Inr split: if_splits dest!: ll_loop_progress)

section \<open>The expressions\<close>

definition is_upper :: "u8 \<Rightarrow> bool" where "is_upper c \<longleftrightarrow> 65 \<le> c \<and> c \<le> 90"

definition is_digit :: "u8 \<Rightarrow> bool" where "is_digit c \<longleftrightarrow> 48 \<le> c \<and> c \<le> 57"

definition http_slash :: bytes where "http_slash = [72, 84, 84, 80, 47]"

text \<open>A maximal run of bytes, which must not be empty, and what follows.\<close>

definition run :: "(u8 \<Rightarrow> bool) \<Rightarrow> bytes \<Rightarrow> (bytes \<times> bytes) option" where
  "run P bs = (if takeWhile P bs = [] then None else Some (takeWhile P bs, dropWhile P bs))"

definition prefixed :: "bytes \<Rightarrow> bytes \<Rightarrow> bytes option" where
  "prefixed p bs = (if take (length p) bs = p then Some (drop (length p) bs) else None)"

text \<open>\<open>HTTP/(\d+\.\d+)\<close>\<close>

definition match_version :: "bytes \<Rightarrow> (bytes \<times> bytes) option" where
  "match_version bs = Option.bind (prefixed http_slash bs) (\<lambda>r.
     Option.bind (run is_digit r) (\<lambda>(major, r).
     Option.bind (prefixed [46] r) (\<lambda>r.
     Option.bind (run is_digit r) (\<lambda>(minor, r). Some (major @ [46] @ minor, r)))))"

text \<open>\<open>^([A-Z]+)[ ]+([^ ]+)[ ]+HTTP/(\d+\.\d+)\r\n$\<close>\<close>

definition match_request_line :: "bytes \<Rightarrow> (bytes \<times> bytes \<times> bytes) option" where
  "match_request_line bs = Option.bind (run is_upper bs) (\<lambda>(verb, r).
     Option.bind (run (\<lambda>c. c = SP) r) (\<lambda>(_, r).
     Option.bind (run (\<lambda>c. c \<noteq> SP) r) (\<lambda>(path, r).
     Option.bind (run (\<lambda>c. c = SP) r) (\<lambda>(_, r).
     Option.bind (match_version r) (\<lambda>(version, r).
       if r = CRLF then Some (verb, path, version) else None)))))"

text \<open>
  \<open>^HTTP/(\d+\.\d+)[ ]+(\d+)[ ]+([^\r]+)\r\n$\<close>. A status of blanks only leaves its last blank to the last group.
\<close>

definition match_response_line :: "bytes \<Rightarrow> (bytes \<times> bytes \<times> bytes) option" where
  "match_response_line bs = Option.bind (match_version bs) (\<lambda>(version, r).
     Option.bind (run (\<lambda>c. c = SP) r) (\<lambda>(_, r).
     Option.bind (run is_digit r) (\<lambda>(code, r).
     Option.bind (run (\<lambda>c. c \<noteq> CR) r) (\<lambda>(text, r).
       if r \<noteq> CRLF \<or> hd text \<noteq> SP then None
       else let status = dropWhile (\<lambda>c. c = SP) text in
         if status \<noteq> [] then Some (version, code, status)
         else if 2 \<le> length text then Some (version, code, [SP]) else None))))"

text \<open>\<open>^([^:]+):[ ]*([^\r]*)\r\n$\<close>\<close>

definition match_header_line :: "bytes \<Rightarrow> (bytes \<times> bytes) option" where
  "match_header_line bs = Option.bind (run (\<lambda>c. c \<noteq> 58) bs) (\<lambda>(name, r).
     Option.bind (prefixed [58] r) (\<lambda>r.
       let r = dropWhile (\<lambda>c. c = SP) r in
       if dropWhile (\<lambda>c. c \<noteq> CR) r = CRLF then Some (name, takeWhile (\<lambda>c. c \<noteq> CR) r) else None))"

section \<open>Requests and responses\<close>

type_synonym http_headers = "(bytes \<times> bytes) list"

definition malformed_http :: fault where
  "malformed_http = Thrown ''http::malformed_message_error''"

text \<open>The lines after the first one; \<open>put\<close> is what is done with the match of a header line.\<close>

function parse_headers :: "'k net_io \<Rightarrow> (bytes \<times> bytes \<Rightarrow> bytes \<times> bytes) \<Rightarrow> http_headers
    \<Rightarrow> (http_headers, http_reader \<times> buffered_reader \<times> 'k) action" where
  "parse_headers io put hs s = act_bind (load_line io) (\<lambda>line s.
     case line of
       None \<Rightarrow> (Inl malformed_http, s)
     | Some l \<Rightarrow>
         if l = CRLF then (Inr hs, s)
         else (case match_header_line l of
             None \<Rightarrow> (Inl malformed_http, s)
           | Some m \<Rightarrow> parse_headers io put (hs @ [put m]) s)) s"
  by pat_completeness auto
termination
  by (relation "measure (\<lambda>(io, put, hs, h, t). length (hr_buffer h) - hr_offset h)")
    (auto dest!: load_line_progress)

declare parse_headers.simps [simp del]

definition parse_message :: "'k net_io \<Rightarrow> (bytes \<Rightarrow> 'a option) \<Rightarrow> (bytes \<times> bytes \<Rightarrow> bytes \<times> bytes)
    \<Rightarrow> ('a \<times> http_headers, http_reader \<times> buffered_reader \<times> 'k) action" where
  "parse_message io match_line put s = act_bind (load_line io) (\<lambda>line s.
     case Option.bind line match_line of
       None \<Rightarrow> (Inl malformed_http, s)
     | Some x \<Rightarrow> act_bind (parse_headers io put []) (\<lambda>hs. act_return (x, hs)) s) s"

record http_request =
  rq_method :: bytes
  rq_path :: bytes
  rq_version :: bytes
  rq_headers :: http_headers

definition request_parse :: "'k net_io \<Rightarrow> bytes \<Rightarrow> (http_request, buffered_reader \<times> 'k) action" where
  "request_parse io buffer t =
     (case parse_message io match_request_line (\<lambda>m. m) (\<lparr>hr_offset = 0, hr_buffer = buffer\<rparr>, t) of
        (Inl e, (h, t)) \<Rightarrow> (Inl e, t)
      | (Inr ((verb, path, version), hs), (h, t)) \<Rightarrow>
          (Inr \<lparr>rq_method = verb, rq_path = path, rq_version = version, rq_headers = hs\<rparr>, t))"

record http_response =
  rs_version :: bytes
  rs_code :: bytes
  rs_status :: bytes
  rs_headers :: http_headers

text \<open>The length of the value is that of the group 3, which the expression does not have: it is 0.\<close>

definition response_header :: "bytes \<times> bytes \<Rightarrow> bytes \<times> bytes" where
  "response_header m = (fst m, take 0 (snd m))"

definition response_parse :: "'k net_io \<Rightarrow> bytes \<Rightarrow> (http_response, buffered_reader \<times> 'k) action" where
  "response_parse io buffer t =
     (case parse_message io match_response_line response_header (\<lparr>hr_offset = 0, hr_buffer = buffer\<rparr>, t) of
        (Inl e, (h, t)) \<Rightarrow> (Inl e, t)
      | (Inr ((version, code, status), hs), (h, t)) \<Rightarrow>
          (Inr \<lparr>rs_version = version, rs_code = code, rs_status = status, rs_headers = hs\<rparr>, t))"

section \<open>Looking headers up\<close>

definition to_lower :: "u8 \<Rightarrow> u8" where
  "to_lower c = (if is_upper c then c + 32 else c)"

text \<open>\<open>strncasecmp\<close> of two strings of the same length is 0; it ends at a null byte.\<close>

fun same_name :: "bytes \<Rightarrow> bytes \<Rightarrow> bool" where
  "same_name (a # as) (b # bs) \<longleftrightarrow> to_lower a = to_lower b \<and> (a = 0 \<or> same_name as bs)"
| "same_name as bs \<longleftrightarrow> True"

definition header_get :: "bytes \<Rightarrow> http_headers \<Rightarrow> bytes option" where
  "header_get name hs = map_option snd (find (\<lambda>h. length (fst h) = length name \<and> same_name (fst h) name) hs)"

fun digits_value :: "bytes \<Rightarrow> nat \<Rightarrow> nat" where
  "digits_value [] n = n"
| "digits_value (c # cs) n = digits_value cs (10 * n + (unat c - 48))"

text \<open>\<open>std::from_chars\<close> of all of the text: digits only, at least one, and a value that fits.\<close>

definition conv_parse :: "bytes \<Rightarrow> 'a::len word res" where
  "conv_parse v =
     (if v = [] \<or> \<not> list_all is_digit v \<or> 2 ^ LENGTH('a) \<le> digits_value v 0 then Inl (Thrown ''format_error'')
      else Inr (of_nat (digits_value v 0)))"

text \<open>\<open>headers::get\<close> of a number; the null view of an absent header is empty.\<close>

definition header_number :: "bytes \<Rightarrow> http_headers \<Rightarrow> 'a::len word res" where
  "header_number name hs = conv_parse (case header_get name hs of None \<Rightarrow> [] | Some v \<Rightarrow> v)"

section \<open>The matches are those of the expressions\<close>

lemma run_iff: "run P bs = Some (a, r) \<longleftrightarrow> bs = a @ r \<and> a \<noteq> [] \<and> (\<forall>c\<in>set a. P c) \<and> (r \<noteq> [] \<longrightarrow> \<not> P (hd r))"
proof
  assume "run P bs = Some (a, r)"
  then have a: "a = takeWhile P bs" "r = dropWhile P bs" "a \<noteq> []" by (auto simp: run_def split: if_splits)
  moreover have "\<forall>c\<in>set a. P c" unfolding a(1) by (auto dest: set_takeWhileD)
  moreover have "r \<noteq> [] \<longrightarrow> \<not> P (hd r)" using a(2) hd_dropWhile by metis
  ultimately show "bs = a @ r \<and> a \<noteq> [] \<and> (\<forall>c\<in>set a. P c) \<and> (r \<noteq> [] \<longrightarrow> \<not> P (hd r))" by simp
next
  assume r: "bs = a @ r \<and> a \<noteq> [] \<and> (\<forall>c\<in>set a. P c) \<and> (r \<noteq> [] \<longrightarrow> \<not> P (hd r))"
  then have "takeWhile P bs = a" "dropWhile P bs = r" by (cases r; simp)+
  then show "run P bs = Some (a, r)" using r by (simp add: run_def)
qed

lemma prefixed_iff: "prefixed p bs = Some r \<longleftrightarrow> bs = p @ r"
  by (auto simp: prefixed_def) (metis append_take_drop_id)

text \<open>The three groups of the expressions: a run of letters, of digits with a point between, and so on.\<close>

definition version_text :: "bytes \<Rightarrow> bool" where
  "version_text v \<longleftrightarrow> (\<exists>d1 d2. v = d1 @ [46] @ d2 \<and> d1 \<noteq> [] \<and> d2 \<noteq> [] \<and> (\<forall>c\<in>set (d1 @ d2). is_digit c))"

definition blanks :: "bytes \<Rightarrow> bool" where
  "blanks s \<longleftrightarrow> s \<noteq> [] \<and> (\<forall>c\<in>set s. c = SP)"

lemma char_classes [simp]:
  "\<not> is_upper SP" "\<not> is_digit SP" "\<not> is_digit 46" "\<not> is_digit CR" "is_digit c \<Longrightarrow> c \<noteq> SP" "is_digit c \<Longrightarrow> c \<noteq> CR"
  by (auto simp: is_upper_def is_digit_def)

lemma match_version_iff:
  "match_version bs = Some (v, r) \<longleftrightarrow> bs = http_slash @ v @ r \<and> version_text v \<and> (r \<noteq> [] \<longrightarrow> \<not> is_digit (hd r))"
proof
  assume "match_version bs = Some (v, r)"
  then obtain r1 d1 r2 r3 d2 where m: "prefixed http_slash bs = Some r1" "run is_digit r1 = Some (d1, r2)" "prefixed [46] r2 = Some r3"
    "run is_digit r3 = Some (d2, r)" "v = d1 @ [46] @ d2"
    by (auto simp: match_version_def bind_eq_Some_conv)
  then show "bs = http_slash @ v @ r \<and> version_text v \<and> (r \<noteq> [] \<longrightarrow> \<not> is_digit (hd r))"
    unfolding prefixed_iff run_iff version_text_def by (intro conjI exI [of _ d1] exI [of _ d2]) auto
next
  assume a: "bs = http_slash @ v @ r \<and> version_text v \<and> (r \<noteq> [] \<longrightarrow> \<not> is_digit (hd r))"
  then obtain d1 d2 where d: "v = d1 @ [46] @ d2" "d1 \<noteq> []" "d2 \<noteq> []" "\<forall>c\<in>set (d1 @ d2). is_digit c" by (auto simp: version_text_def)
  have "prefixed http_slash bs = Some (v @ r)" using a by (simp add: prefixed_iff)
  moreover have "run is_digit (v @ r) = Some (d1, [46] @ d2 @ r)" using d by (simp add: run_iff)
  moreover have "prefixed [46] ([46] @ d2 @ r) = Some (d2 @ r)" by (simp add: prefixed_iff)
  moreover have "run is_digit (d2 @ r) = Some (d2, r)" using d a by (simp add: run_iff)
  ultimately show "match_version bs = Some (v, r)" using d(1) by (simp add: match_version_def)
qed

lemma match_request_line_groups:
  "match_request_line bs = Some (m, p, v) \<longleftrightarrow>
    (\<exists>s1 s2. bs = m @ s1 @ p @ s2 @ http_slash @ v @ CRLF \<and> m \<noteq> [] \<and> (\<forall>c\<in>set m. is_upper c) \<and> blanks s1
      \<and> p \<noteq> [] \<and> (\<forall>c\<in>set p. c \<noteq> SP) \<and> blanks s2 \<and> version_text v)"
proof
  assume "match_request_line bs = Some (m, p, v)"
  then obtain r1 s1 r2 r3 s2 r4 where r: "run is_upper bs = Some (m, r1)" "run (\<lambda>c. c = SP) r1 = Some (s1, r2)"
    "run (\<lambda>c. c \<noteq> SP) r2 = Some (p, r3)" "run (\<lambda>c. c = SP) r3 = Some (s2, r4)" "match_version r4 = Some (v, CRLF)"
    by (auto simp: match_request_line_def bind_eq_Some_conv split: if_splits)
  then show "\<exists>s1 s2. bs = m @ s1 @ p @ s2 @ http_slash @ v @ CRLF \<and> m \<noteq> [] \<and> (\<forall>c\<in>set m. is_upper c) \<and> blanks s1
      \<and> p \<noteq> [] \<and> (\<forall>c\<in>set p. c \<noteq> SP) \<and> blanks s2 \<and> version_text v"
    unfolding run_iff match_version_iff blanks_def by (intro exI [of _ s1] exI [of _ s2]) simp
next
  assume "\<exists>s1 s2. bs = m @ s1 @ p @ s2 @ http_slash @ v @ CRLF \<and> m \<noteq> [] \<and> (\<forall>c\<in>set m. is_upper c) \<and> blanks s1
      \<and> p \<noteq> [] \<and> (\<forall>c\<in>set p. c \<noteq> SP) \<and> blanks s2 \<and> version_text v"
  then obtain s1 s2 where a: "bs = m @ s1 @ p @ s2 @ http_slash @ v @ CRLF" "m \<noteq> []" "\<forall>c\<in>set m. is_upper c" "blanks s1"
    "p \<noteq> []" "\<forall>c\<in>set p. c \<noteq> SP" "blanks s2" "version_text v" by blast
  have h: "hd s1 = SP" "hd s2 = SP" "s1 \<noteq> []" "s2 \<noteq> []" using a(4,7) by (auto simp: blanks_def)
  have hp: "hd p \<noteq> SP" using a(5,6) hd_in_set by metis
  have "run is_upper bs = Some (m, s1 @ p @ s2 @ http_slash @ v @ CRLF)" using a h by (simp add: run_iff)
  moreover have "run (\<lambda>c. c = SP) (s1 @ p @ s2 @ http_slash @ v @ CRLF) = Some (s1, p @ s2 @ http_slash @ v @ CRLF)"
    using a h hp by (simp add: run_iff blanks_def)
  moreover have "run (\<lambda>c. c \<noteq> SP) (p @ s2 @ http_slash @ v @ CRLF) = Some (p, s2 @ http_slash @ v @ CRLF)"
    using a h by (simp add: run_iff)
  moreover have "run (\<lambda>c. c = SP) (s2 @ http_slash @ v @ CRLF) = Some (s2, http_slash @ v @ CRLF)"
    using a h by (simp add: run_iff blanks_def http_slash_def)
  moreover have "match_version (http_slash @ v @ CRLF) = Some (v, CRLF)" using a by (simp add: match_version_iff)
  ultimately show "match_request_line bs = Some (m, p, v)" by (simp add: match_request_line_def)
qed

text \<open>
  C38: The matcher of request lines accepts what its expression accepts and gives the groups of the
  expression, which are unique.\<close>

theorem match_request_line_iff:
  "match_request_line bs = Some (m, p, v) \<longleftrightarrow>
    (\<exists>s1 s2. bs = m @ s1 @ p @ s2 @ http_slash @ v @ CRLF \<and> m \<noteq> [] \<and> list_all is_upper m \<and> blanks s1
      \<and> p \<noteq> [] \<and> SP \<notin> set p \<and> blanks s2 \<and> version_text v)"
proof -
  have "SP \<notin> set p \<longleftrightarrow> (\<forall>c\<in>set p. c \<noteq> SP)" by auto
  then show ?thesis by (simp only: match_request_line_groups list_all_iff)
qed

lemma match_header_line_iff:
  "match_header_line bs = Some (n, v) \<longleftrightarrow>
    (\<exists>s. bs = n @ [58] @ s @ v @ CRLF \<and> n \<noteq> [] \<and> 58 \<notin> set n \<and> (\<forall>c\<in>set s. c = SP) \<and> CR \<notin> set v \<and> (v \<noteq> [] \<longrightarrow> hd v \<noteq> SP))"
proof
  assume "match_header_line bs = Some (n, v)"
  then obtain r1 r2 where r: "run (\<lambda>c. c \<noteq> 58) bs = Some (n, r1)" "prefixed [58] r1 = Some r2"
    "dropWhile (\<lambda>c. c \<noteq> CR) (dropWhile (\<lambda>c. c = SP) r2) = CRLF" "v = takeWhile (\<lambda>c. c \<noteq> CR) (dropWhile (\<lambda>c. c = SP) r2)"
    by (auto simp: match_header_line_def bind_eq_Some_conv Let_def split: if_splits)
  let ?s = "takeWhile (\<lambda>c. c = SP) r2"
  have e: "r2 = ?s @ v @ CRLF" using r(3,4) by (metis takeWhile_dropWhile_id)
  have "CR \<notin> set v" unfolding r(4) by (auto dest: set_takeWhileD)
  moreover have "hd v \<noteq> SP" if "v \<noteq> []"
  proof -
    have "v @ CRLF = dropWhile (\<lambda>c. c = SP) r2" using r(3,4) by (metis takeWhile_dropWhile_id)
    then have "hd v = hd (dropWhile (\<lambda>c. c = SP) r2)" "dropWhile (\<lambda>c. c = SP) r2 \<noteq> []" using that by (metis hd_append2, metis append_is_Nil_conv)
    then show ?thesis using hd_dropWhile [of "\<lambda>c. c = SP" r2] by simp
  qed
  moreover have "\<forall>c\<in>set ?s. c = SP" by (auto dest: set_takeWhileD)
  moreover have "bs = n @ [58] @ r2" "n \<noteq> []" "58 \<notin> set n" using r(1,2) unfolding run_iff prefixed_iff by auto
  ultimately show "\<exists>s. bs = n @ [58] @ s @ v @ CRLF \<and> n \<noteq> [] \<and> 58 \<notin> set n \<and> (\<forall>c\<in>set s. c = SP) \<and> CR \<notin> set v \<and> (v \<noteq> [] \<longrightarrow> hd v \<noteq> SP)"
    using e by metis
next
  assume "\<exists>s. bs = n @ [58] @ s @ v @ CRLF \<and> n \<noteq> [] \<and> 58 \<notin> set n \<and> (\<forall>c\<in>set s. c = SP) \<and> CR \<notin> set v \<and> (v \<noteq> [] \<longrightarrow> hd v \<noteq> SP)"
  then obtain s where a: "bs = n @ [58] @ s @ v @ CRLF" "n \<noteq> []" "58 \<notin> set n" "\<forall>c\<in>set s. c = SP" "CR \<notin> set v" "v \<noteq> [] \<longrightarrow> hd v \<noteq> SP"
    by blast
  have "run (\<lambda>c. c \<noteq> 58) bs = Some (n, [58] @ s @ v @ CRLF)" using a by (auto simp: run_iff)
  moreover have "dropWhile (\<lambda>c. c = SP) (s @ v @ CRLF) = v @ CRLF"
  proof -
    have "dropWhile (\<lambda>c. c = SP) (s @ v @ CRLF) = dropWhile (\<lambda>c. c = SP) (v @ CRLF)" using a(4) by (simp add: dropWhile_append2)
    also have "\<dots> = v @ CRLF" using a(6) by (cases v) simp_all
    finally show ?thesis .
  qed
  moreover have "takeWhile (\<lambda>c. c \<noteq> CR) (v @ CRLF) = v" "dropWhile (\<lambda>c. c \<noteq> CR) (v @ CRLF) = CRLF"
  proof -
    have "\<forall>c\<in>set v. c \<noteq> CR" using a(5) by auto
    then show "takeWhile (\<lambda>c. c \<noteq> CR) (v @ CRLF) = v" "dropWhile (\<lambda>c. c \<noteq> CR) (v @ CRLF) = CRLF"
      by (simp_all add: takeWhile_append2 dropWhile_append2)
  qed
  ultimately show "match_header_line bs = Some (n, v)" by (simp add: match_header_line_def prefixed_iff prefixed_def)
qed

section \<open>Requests come back\<close>

text \<open>A reader of a connection that works, and what it has still to give.\<close>

definition reads :: "'k net_io \<Rightarrow> ('k \<Rightarrow> bytes) \<Rightarrow> ('k \<Rightarrow> bytes) \<Rightarrow> buffered_reader \<times> 'k \<Rightarrow> bytes \<Rightarrow> bool" where
  "reads io incoming sent t bs \<longleftrightarrow> net_ok io incoming sent \<and> recv_live io incoming \<and> br_ok (fst t) \<and> br_buffer (fst t) \<noteq> []
     \<and> pending incoming t = bs"

lemma reads_char:
  assumes "reads io incoming sent t (c # bs)"
  obtains t' where "br_read_char io t = (Inr c, t')" "reads io incoming sent t' bs" "sent (snd t') = sent (snd t)"
proof -
  obtain r k where t: "t = (r, k)" by (cases t)
  have a: "net_ok io incoming sent" "recv_live io incoming" "br_ok r" "br_buffer r \<noteq> []" "pending incoming (r, k) = c # bs"
    using assms t by (simp_all add: reads_def)
  obtain x r' k' where x: "br_read_char io (r, k) = (x, (r', k'))" by (metis surj_pair)
  note sp = br_read_char_spec [OF a(1,3) x]
  have "\<exists>c'. x = Inr c'" using sp a by simp
  then obtain c' where c: "x = Inr c'" by blast
  then have "c' = c" "pending incoming (r', k') = bs" using sp a(5) by simp_all
  moreover have "br_buffer r' \<noteq> []" using sp a(4) by auto
  ultimately show thesis using that [of "(r', k')"] x c sp a(1,2) t by (simp add: reads_def)
qed

lemma ll_loop_step:
  assumes "reads io incoming sent t (c # bs)" "hr_offset h < length (hr_buffer h)"
  obtains t' where "reads io incoming sent t' bs" "sent (snd t') = sent (snd t)"
    "ll_loop io start (h, t) =
      (let h' = h\<lparr>hr_buffer := (hr_buffer h)[hr_offset h := c], hr_offset := hr_offset h + 1\<rparr> in
       if c = LF \<and> hr_offset h \<noteq> start \<and> hr_buffer h' ! (hr_offset h - 1) = CR then (Inr (), (h', t'))
       else ll_loop io start (h', t'))"
proof -
  obtain t' where t': "br_read_char io t = (Inr c, t')" "reads io incoming sent t' bs" "sent (snd t') = sent (snd t)"
    by (rule reads_char [OF assms(1)])
  show thesis
    by (rule that [OF t'(2,3)]) (use t'(1) assms(2) in \<open>simp add: ll_loop.simps [of io start "(h, t)"] Let_def not_le [symmetric]\<close>)
qed

lemma ll_loop_line:
  assumes "reads io incoming sent t (v @ CRLF @ rest)" "LF \<notin> set v" "start \<le> hr_offset h"
    "hr_offset h + length v + 2 \<le> length (hr_buffer h)"
  shows "\<exists>h' t'. ll_loop io start (h, t) = (Inr (), (h', t')) \<and> reads io incoming sent t' rest \<and> sent (snd t') = sent (snd t)
    \<and> hr_offset h' = hr_offset h + length v + 2
    \<and> hr_buffer h' = take (hr_offset h) (hr_buffer h) @ v @ CRLF @ drop (hr_offset h + length v + 2) (hr_buffer h)"
  using assms
proof (induction v arbitrary: h t)
  case Nil
  let ?o = "hr_offset h" and ?b = "hr_buffer h"
  have "reads io incoming sent t (CR # LF # rest)" "?o < length ?b" using Nil by simp_all
  then obtain t1 where t1: "reads io incoming sent t1 (LF # rest)" "sent (snd t1) = sent (snd t)"
    "ll_loop io start (h, t) = ll_loop io start (h\<lparr>hr_buffer := ?b[?o := CR], hr_offset := ?o + 1\<rparr>, t1)"
    by (rule ll_loop_step [where start = start]) (simp add: Let_def)
  let ?h = "h\<lparr>hr_buffer := ?b[?o := CR], hr_offset := ?o + 1\<rparr>"
  have "hr_offset ?h < length (hr_buffer ?h)" using Nil by simp
  with t1(1) obtain t2 where t2: "reads io incoming sent t2 rest" "sent (snd t2) = sent (snd t1)"
    "ll_loop io start (?h, t1) = (Inr (), (?h\<lparr>hr_buffer := ?b[?o := CR, ?o + 1 := LF], hr_offset := ?o + 2\<rparr>, t2))"
    by (rule ll_loop_step [where start = start]) (use Nil in \<open>simp add: Let_def nth_list_update\<close>)
  have "?b[?o := CR, ?o + 1 := LF] = take ?o ?b @ CRLF @ drop (?o + 2) ?b"
    using Nil by (intro nth_equalityI) (auto simp: nth_append nth_list_update nth_Cons' less_Suc_eq intro!: arg_cong [where f = "nth ?b"])
  then show ?case using t1 t2 by (intro exI [of _ "?h\<lparr>hr_buffer := ?b[?o := CR, ?o + 1 := LF], hr_offset := ?o + 2\<rparr>"] exI [of _ t2]) simp
next
  case (Cons c v)
  let ?o = "hr_offset h" and ?b = "hr_buffer h"
  let ?h = "h\<lparr>hr_buffer := ?b[?o := c], hr_offset := ?o + 1\<rparr>"
  have a: "reads io incoming sent t (c # v @ CRLF @ rest)" "?o < length ?b" "c \<noteq> LF" using Cons.prems by auto
  obtain t1 where t1: "reads io incoming sent t1 (v @ CRLF @ rest)" "sent (snd t1) = sent (snd t)"
    "ll_loop io start (h, t) = ll_loop io start (?h, t1)"
    by (rule ll_loop_step [OF a(1,2), of start], rule that) (use a(3) in \<open>simp_all add: Let_def\<close>)
  obtain h' t' where "ll_loop io start (?h, t1) = (Inr (), (h', t'))" "reads io incoming sent t' rest"
    "sent (snd t') = sent (snd t1)" "hr_offset h' = hr_offset ?h + length v + 2"
    "hr_buffer h' = take (hr_offset ?h) (hr_buffer ?h) @ v @ CRLF @ drop (hr_offset ?h + length v + 2) (hr_buffer ?h)"
    using Cons.IH [OF t1(1), of ?h] Cons.prems by auto
  moreover have "take (Suc ?o) (?b[?o := c]) = take ?o ?b @ [c]" using Cons.prems by (simp add: take_Suc_conv_app_nth)
  ultimately show ?case using t1(2,3) by (intro exI [of _ h'] exI [of _ t']) simp
qed

lemma load_line_spec:
  assumes "reads io incoming sent t (v @ CRLF @ rest)" "LF \<notin> set v" "hr_offset h + length v + 2 \<le> length (hr_buffer h)"
  obtains h' t' where "load_line io (h, t) = (Inr (Some (v @ CRLF)), (h', t'))" "reads io incoming sent t' rest"
    "sent (snd t') = sent (snd t)" "hr_offset h' = hr_offset h + length v + 2" "length (hr_buffer h') = length (hr_buffer h)"
proof -
  obtain h' t' where h': "ll_loop io (hr_offset h) (h, t) = (Inr (), (h', t'))" "reads io incoming sent t' rest" "sent (snd t') = sent (snd t)"
    "hr_offset h' = hr_offset h + length v + 2"
    "hr_buffer h' = take (hr_offset h) (hr_buffer h) @ v @ CRLF @ drop (hr_offset h + length v + 2) (hr_buffer h)"
    using ll_loop_line [OF assms(1,2) order_refl assms(3)] by blast
  have "load_line io (h, t) = (Inr (Some (v @ CRLF)), (h', t'))"
    using h'(1,4,5) assms(3) by (simp add: load_line_def act_bind_def Let_def)
  moreover have "length (hr_buffer h') = length (hr_buffer h)" using h'(5) assms(3) by simp
  ultimately show thesis using that h' by blast
qed

definition header_ok :: "bytes \<times> bytes \<Rightarrow> bool" where
  "header_ok h \<longleftrightarrow> fst h \<noteq> [] \<and> 58 \<notin> set (fst h) \<and> LF \<notin> set (fst h) \<and> CR \<notin> set (snd h) \<and> LF \<notin> set (snd h)
     \<and> (snd h \<noteq> [] \<longrightarrow> hd (snd h) \<noteq> SP)"

definition header_text :: "bytes \<times> bytes \<Rightarrow> bytes" where
  "header_text h = fst h @ [58, SP] @ snd h"

fun print_headers :: "http_headers \<Rightarrow> bytes" where
  "print_headers [] = CRLF"
| "print_headers (h # hs) = header_text h @ CRLF @ print_headers hs"

lemma header_text_match: "header_ok h \<Longrightarrow> match_header_line (header_text h @ CRLF) = Some h"
  by (cases h) (auto simp: match_header_line_iff header_ok_def header_text_def intro!: exI [of _ "[SP]"])

lemma parse_headers_spec:
  assumes "reads io incoming sent t (print_headers hs @ rest)" "\<forall>h\<in>set hs. header_ok h"
    "hr_offset h + length (print_headers hs) \<le> length (hr_buffer h)"
  shows "\<exists>h' t'. parse_headers io put acc (h, t) = (Inr (acc @ map put hs), (h', t')) \<and> reads io incoming sent t' rest
    \<and> sent (snd t') = sent (snd t)"
  using assms
proof (induction hs arbitrary: acc h t)
  case Nil
  have "reads io incoming sent t ([] @ CRLF @ rest)" "hr_offset h + length [] + 2 \<le> length (hr_buffer h)" using Nil by simp_all
  then obtain h' t' where "load_line io (h, t) = (Inr (Some ([] @ CRLF)), (h', t'))" "reads io incoming sent t' rest"
    "sent (snd t') = sent (snd t)" by (elim load_line_spec) simp_all
  then show ?case by (simp add: parse_headers.simps [of io put acc] act_bind_def)
next
  case (Cons a hs)
  have r: "reads io incoming sent t (header_text a @ CRLF @ print_headers hs @ rest)"
    and l: "hr_offset h + length (header_text a) + 2 \<le> length (hr_buffer h)" using Cons.prems by simp_all
  have ok: "header_ok a" using Cons.prems by simp
  then have nl: "LF \<notin> set (header_text a)" by (auto simp: header_ok_def header_text_def)
  obtain h1 t1 where h1: "load_line io (h, t) = (Inr (Some (header_text a @ CRLF)), (h1, t1))"
    "reads io incoming sent t1 (print_headers hs @ rest)" "sent (snd t1) = sent (snd t)"
    "hr_offset h1 = hr_offset h + length (header_text a) + 2" "length (hr_buffer h1) = length (hr_buffer h)"
    by (rule load_line_spec [OF r nl l])
  have "header_text a \<noteq> []" by (simp add: header_text_def)
  then have "parse_headers io put acc (h, t) = parse_headers io put (acc @ [put a]) (h1, t1)"
    using h1(1) header_text_match [OF ok] by (simp add: parse_headers.simps [of io put acc] act_bind_def)
  moreover have "\<exists>h' t'. parse_headers io put (acc @ [put a]) (h1, t1) = (Inr ((acc @ [put a]) @ map put hs), (h', t'))
      \<and> reads io incoming sent t' rest \<and> sent (snd t') = sent (snd t1)"
    using Cons.prems h1 by (intro Cons.IH) simp_all
  ultimately show ?case using h1(3) by simp
qed

lemma parse_message_spec:
  assumes "reads io incoming sent t (line @ CRLF @ print_headers hs @ rest)" "LF \<notin> set line" "match_line (line @ CRLF) = Some x"
    "\<forall>h\<in>set hs. header_ok h" "hr_offset h + length (line @ CRLF @ print_headers hs) \<le> length (hr_buffer h)"
  shows "\<exists>h' t'. parse_message io match_line put (h, t) = (Inr (x, map put hs), (h', t')) \<and> reads io incoming sent t' rest
    \<and> sent (snd t') = sent (snd t)"
proof -
  have l: "hr_offset h + length line + 2 \<le> length (hr_buffer h)" using assms(5) by simp
  obtain h1 t1 where h1: "load_line io (h, t) = (Inr (Some (line @ CRLF)), (h1, t1))"
    "reads io incoming sent t1 (print_headers hs @ rest)" "sent (snd t1) = sent (snd t)"
    "hr_offset h1 = hr_offset h + length line + 2" "length (hr_buffer h1) = length (hr_buffer h)"
    by (rule load_line_spec [OF assms(1,2) l])
  have "hr_offset h1 + length (print_headers hs) \<le> length (hr_buffer h1)" using assms(5) h1 by simp
  from parse_headers_spec [OF h1(2) assms(4) this, of put "[]"] obtain h' t' where
    "parse_headers io put [] (h1, t1) = (Inr (map put hs), (h', t'))" "reads io incoming sent t' rest" "sent (snd t') = sent (snd t1)" by auto
  then show ?thesis using h1(1,3) assms(3) by (auto simp: parse_message_def act_bind_def act_return_def)
qed

text \<open>
  C39: A request that is sent, line by line, is parsed as what it is, method, path, version and headers, however
  the connection cuts it, and the parser stops right behind it.\<close>

theorem http_request_roundtrip:
  assumes r: "reads io incoming sent t ((m @ [SP] @ p @ [SP] @ http_slash @ v) @ CRLF @ print_headers hs @ rest)"
    and ok: "m \<noteq> []" "\<forall>c\<in>set m. is_upper c" "p \<noteq> []" "SP \<notin> set p" "LF \<notin> set p" "version_text v" "\<forall>h\<in>set hs. header_ok h"
    and fits: "length ((m @ [SP] @ p @ [SP] @ http_slash @ v) @ CRLF @ print_headers hs) \<le> length buffer"
  shows "\<exists>t'. request_parse io buffer t = (Inr \<lparr>rq_method = m, rq_path = p, rq_version = v, rq_headers = hs\<rparr>, t')
    \<and> reads io incoming sent t' rest"
proof -
  let ?line = "m @ [SP] @ p @ [SP] @ http_slash @ v"
  have "LF \<notin> set m" using ok(2) by (auto simp: is_upper_def)
  moreover have "\<not> is_digit LF" by (simp add: is_digit_def)
  then have "LF \<notin> set v" using ok(6) by (auto simp: version_text_def)
  ultimately have nl: "LF \<notin> set ?line" using ok(5) by (simp add: http_slash_def)
  have "match_request_line (?line @ CRLF) = Some (m, p, v)"
    using ok(1-6) unfolding match_request_line_groups by (intro exI [of _ "[SP]"]) (auto simp: blanks_def)
  from parse_message_spec [where match_line = match_request_line, OF r nl this ok(7), of "\<lparr>hr_offset = 0, hr_buffer = buffer\<rparr>" "\<lambda>m. m"] fits show ?thesis
    by (auto simp: request_parse_def)
qed

text \<open>\<open>GET /x HTTP/1.1\<close> with the header \<open>A: b\<close>.\<close>

definition sample_request :: bytes where
  "sample_request = [71, 69, 84, SP, 47, 120, SP, 72, 84, 84, 80, 47, 49, 46, 49, CR, LF, 65, 58, SP, 98, CR, LF, CR, LF]"

theorem http_request_roundtrip_witness:
  "\<exists>t'. request_parse slow_net (replicate 64 0) (br_init (replicate 4 0), (sample_request @ [9], []))
    = (Inr \<lparr>rq_method = [71, 69, 84], rq_path = [47, 120], rq_version = [49, 46, 49], rq_headers = [([65], [98])]\<rparr>, t')"
proof -
  have sample: "sample_request @ [9]
      = ([71, 69, 84] @ [SP] @ [47, 120] @ [SP] @ http_slash @ [49, 46, 49]) @ CRLF @ print_headers [([65], [98])] @ [9]"
    by (simp add: sample_request_def http_slash_def header_text_def)
  have r: "reads slow_net fst snd (br_init (replicate 4 0), (sample_request @ [9], []))
      (([71, 69, 84] @ [SP] @ [47, 120] @ [SP] @ http_slash @ [49, 46, 49]) @ CRLF @ print_headers [([65], [98])] @ [9])"
    using slow_net_ok unfolding reads_def sample [symmetric] by (simp add: br_init_ok) (simp add: br_init_def)
  have "version_text [49, 46, 49]"
    unfolding version_text_def by (intro exI [of _ "[49]"]) (simp add: is_digit_def)
  then show ?thesis
    using http_request_roundtrip [OF r, of "replicate 64 0"] by (auto simp: is_upper_def header_ok_def header_text_def http_slash_def)
qed

section \<open>The values of response headers are lost\<close>

lemma match_response_line_ok:
  assumes "version_text v" "c \<noteq> []" "\<forall>x\<in>set c. is_digit x" "st \<noteq> []" "CR \<notin> set st" "hd st \<noteq> SP"
  shows "match_response_line (http_slash @ v @ [SP] @ c @ [SP] @ st @ CRLF) = Some (v, c, st)"
proof -
  have "hd c \<noteq> SP" using assms(2,3) hd_in_set by fastforce
  then have "match_version (http_slash @ v @ [SP] @ c @ [SP] @ st @ CRLF) = Some (v, [SP] @ c @ [SP] @ st @ CRLF)"
    "run (\<lambda>c. c = SP) ([SP] @ c @ [SP] @ st @ CRLF) = Some ([SP], c @ [SP] @ st @ CRLF)"
    "run is_digit (c @ [SP] @ st @ CRLF) = Some (c, [SP] @ st @ CRLF)"
    "run (\<lambda>c. c \<noteq> CR) ([SP] @ st @ CRLF) = Some ([SP] @ st, CRLF)"
    using assms by (auto simp: match_version_iff run_iff)
  moreover have "dropWhile (\<lambda>c. c = SP) ([SP] @ st) = st" using assms(4,6) by (cases st) simp_all
  ultimately show ?thesis using assms(4) by (simp add: match_response_line_def Let_def)
qed

text \<open>
  C40: A response is parsed with its version, code and status and with the names of its headers, but every value
  comes out empty: the parser takes the length of a group that the expression does not have.\<close>

theorem http_response_values_lost:
  assumes r: "reads io incoming sent t ((http_slash @ v @ [SP] @ c @ [SP] @ st) @ CRLF @ print_headers hs @ rest)"
    and ok: "version_text v" "c \<noteq> []" "\<forall>x\<in>set c. is_digit x" "st \<noteq> []" "CR \<notin> set st" "LF \<notin> set st" "hd st \<noteq> SP" "\<forall>h\<in>set hs. header_ok h"
    and fits: "length ((http_slash @ v @ [SP] @ c @ [SP] @ st) @ CRLF @ print_headers hs) \<le> length buffer"
  shows "\<exists>t'. response_parse io buffer t
      = (Inr \<lparr>rs_version = v, rs_code = c, rs_status = st, rs_headers = map (\<lambda>h. (fst h, [])) hs\<rparr>, t') \<and> reads io incoming sent t' rest"
proof -
  let ?line = "http_slash @ v @ [SP] @ c @ [SP] @ st"
  have d: "\<not> is_digit LF" by (simp add: is_digit_def)
  then have "LF \<notin> set v" "LF \<notin> set c" using ok(1,3) by (auto simp: version_text_def)
  then have nl: "LF \<notin> set ?line" using ok(6) by (simp add: http_slash_def)
  have "match_response_line (?line @ CRLF) = Some (v, c, st)" using match_response_line_ok [OF ok(1-5,7)] by simp
  from parse_message_spec [where match_line = match_response_line, OF r nl this ok(8), of "\<lparr>hr_offset = 0, hr_buffer = buffer\<rparr>" response_header]
    fits show ?thesis by (auto simp: response_parse_def response_header_def [abs_def])
qed

text \<open>\<open>HTTP/1.1 200 OK\<close> with the header \<open>A: b\<close>.\<close>

definition sample_response :: bytes where
  "sample_response = [72, 84, 84, 80, 47, 49, 46, 49, SP, 50, 48, 48, SP, 79, 75, CR, LF, 65, 58, SP, 98, CR, LF, CR, LF]"

theorem http_response_values_lost_witness:
  "\<exists>t'. response_parse slow_net (replicate 64 0) (br_init (replicate 4 0), (sample_response @ [9], []))
    = (Inr \<lparr>rs_version = [49, 46, 49], rs_code = [50, 48, 48], rs_status = [79, 75], rs_headers = [([65], [])]\<rparr>, t')"
proof -
  have sample: "sample_response @ [9]
      = (http_slash @ [49, 46, 49] @ [SP] @ [50, 48, 48] @ [SP] @ [79, 75]) @ CRLF @ print_headers [([65], [98])] @ [9]"
    by (simp add: sample_response_def http_slash_def header_text_def)
  have r: "reads slow_net fst snd (br_init (replicate 4 0), (sample_response @ [9], []))
      ((http_slash @ [49, 46, 49] @ [SP] @ [50, 48, 48] @ [SP] @ [79, 75]) @ CRLF @ print_headers [([65], [98])] @ [9])"
    using slow_net_ok unfolding reads_def sample [symmetric] by (simp add: br_init_ok) (simp add: br_init_def)
  have "version_text [49, 46, 49]"
    unfolding version_text_def by (intro exI [of _ "[49]"]) (simp add: is_digit_def)
  then show ?thesis
    using http_response_values_lost [OF r, of "replicate 64 0"] by (auto simp: is_digit_def header_ok_def header_text_def http_slash_def)
qed

section \<open>Numbers in headers\<close>

fun decimal :: "nat \<Rightarrow> bytes" where
  "decimal n = (if n < 10 then [of_nat (48 + n)] else decimal (n div 10) @ [of_nat (48 + n mod 10)])"

declare decimal.simps [simp del]

lemma digits_value_append: "digits_value (xs @ ys) n = digits_value ys (digits_value xs n)"
  by (induction xs n rule: digits_value.induct) simp_all

lemma digit_byte: "n < 10 \<Longrightarrow> is_digit (of_nat (48 + n)) \<and> unat (of_nat (48 + n) :: u8) - 48 = n"
proof -
  assume "n < 10"
  then have "48 + n < 2 ^ LENGTH(8)" by simp
  then have "unat (of_nat (48 + n) :: u8) = 48 + n" by (rule unat_word_of_nat)
  then show ?thesis using \<open>n < 10\<close> by (simp add: is_digit_def word_le_nat_alt)
qed

lemma decimal_digits: "decimal n \<noteq> [] \<and> list_all is_digit (decimal n) \<and> digits_value (decimal n) 0 = n"
proof (induction n rule: decimal.induct)
  case (1 n)
  show ?case
  proof (cases "n < 10")
    case True
    then have "decimal n = [of_nat (48 + n)]" by (simp only: decimal.simps [of n] if_True)
    then show ?thesis using digit_byte [OF True] by simp
  next
    case False
    then have "decimal n = decimal (n div 10) @ [of_nat (48 + n mod 10)]" by (simp only: decimal.simps [of n] if_False)
    moreover have "n mod 10 < 10" by simp
    ultimately show ?thesis using 1 [OF False] digit_byte [of "n mod 10"] by (simp add: digits_value_append)
  qed
qed

text \<open>A number is read back from its decimal digits when it fits, and refused when it does not.\<close>

lemma conv_decimal:
  "conv_parse (decimal n) = (if n < 2 ^ LENGTH('a) then Inr (of_nat n :: 'a::len word) else Inl (Thrown ''format_error''))"
  using decimal_digits [of n] by (simp add: conv_parse_def not_le)

section \<open>The worker thread\<close>

text \<open>How \<open>process_request\<close> ends: it returns, or throws an error of the namespace \<open>http\<close> or something else.\<close>

datatype http_end = Http_Served | Http_Malformed | Http_Error bytes | Http_Other fault

type_synonym ('c, 'k) http_service = "http_request \<Rightarrow> 'c \<Rightarrow> buffered_reader \<times> buffered_writer \<times> 'k
  \<Rightarrow> http_end \<times> 'c \<times> buffered_reader \<times> buffered_writer \<times> 'k"

definition ascii :: "string \<Rightarrow> bytes" where
  "ascii s = map of_char s"

definition http_error_text :: "bytes \<Rightarrow> bytes" where
  "http_error_text what = ascii ''HTTP/1.1 '' @ what @ CRLF @ ascii ''Content-Length: 0'' @ CRLF
     @ ascii ''Connection-Type: Close'' @ CRLF @ CRLF"

definition bad_request :: bytes where
  "bad_request = ascii ''400 Bad Request''"

text \<open>
  The handler of \<open>http::error\<close>. \<open>format_to\<close> returns a view of the full length of a text, and ends it with a null byte,
  whether it fits the buffer of 512 bytes or not. What is thrown in a handler is not caught beside it.
\<close>

definition http_reply :: "'k net_io \<Rightarrow> bytes \<Rightarrow> buffered_writer \<times> 'k \<Rightarrow> worker_end \<times> buffered_writer \<times> 'k" where
  "http_reply io what s =
     (if 512 \<le> length (http_error_text what) then (Escaped Undefined, s)
      else case act_bind (wr_write io (http_error_text what)) (\<lambda>_. wr_flush io) s of
          (Inl e, s) \<Rightarrow> (Escaped e, s) | (Inr _, s) \<Rightarrow> (Closed, s))"

definition http_caught :: "fault \<Rightarrow> worker_end" where
  "http_caught e = (if e = Thrown ''disconnected_error'' then Closed else Escaped e)"

text \<open>At most \<open>n\<close> requests are served; \<open>http_buffer\<close> is what the buffer of a request holds at first.\<close>

fun http_worker :: "'k net_io \<Rightarrow> ('c, 'k) http_service \<Rightarrow> bytes \<Rightarrow> nat \<Rightarrow> 'c \<Rightarrow> buffered_reader \<times> buffered_writer \<times> 'k
    \<Rightarrow> worker_end \<times> buffered_writer \<times> 'k" where
  "http_worker io serve http_buffer 0 c (r, w, k) = (Running, w, k)"
| "http_worker io serve http_buffer (Suc n) c (r, w, k) =
     (case request_parse io http_buffer (r, k) of
        (Inl e, (r, k)) \<Rightarrow> if e = malformed_http then http_reply io bad_request (w, k) else (http_caught e, w, k)
      | (Inr request, (r, k)) \<Rightarrow>
          (case serve request c (r, w, k) of
             (Http_Malformed, c, (r, w, k)) \<Rightarrow> http_reply io bad_request (w, k)
           | (Http_Error what, c, (r, w, k)) \<Rightarrow> http_reply io what (w, k)
           | (Http_Other e, c, (r, w, k)) \<Rightarrow> (http_caught e, w, k)
           | (Http_Served, c, (r, w, k)) \<Rightarrow>
               (case wr_flush io (w, k) of
                  (Inl e, (w, k)) \<Rightarrow> (http_caught e, w, k)
                | (Inr _, (w, k)) \<Rightarrow> http_worker io serve http_buffer n c (r, w, k))))"

text \<open>
  A client that sends a line which is no request and is gone when the answer is sent takes the server with
  it: the answer is sent in a handler, so even the \<open>disconnected_error\<close> that the thread catches elsewhere leaves
  the thread.\<close>

lemma http_reply_escapes:
  assumes "request_parse io http_buffer (r, k) = (Inl malformed_http, (r', k'))"
    and "wr_ok w" "wr_offset w = 0" "length (http_error_text bad_request) \<le> length (wr_buffer w)"
    and "net_send io (http_error_text bad_request) 0 k' = (Inl e, k'')"
  shows "\<exists>s. http_worker io serve http_buffer (Suc n) c (r, w, k) = (Escaped (channel_error e), s)"
proof -
  have room: "unat (wr_offset w) + length (http_error_text bad_request) \<le> length (wr_buffer w)" using assms(3,4) by simp
  obtain w' where w': "wr_write io (http_error_text bad_request) (w, k') = (Inr (), (w', k'))" "wr_ok w'"
    "wr_content w' = wr_content w @ http_error_text bad_request" by (rule wr_write_room [OF assms(2) room])
  have c: "wr_content w' = http_error_text bad_request" using w'(3) assms(3) by (simp add: wr_content_def)
  then have "wr_offset w' \<noteq> 0" by (auto simp: wr_content_def http_error_text_def)
  then have "wr_flush io (w', k') = (Inl (channel_error e), (w', k''))"
    using assms(5) c by (simp add: wr_flush_eq channel_send_def)
  moreover have "length (http_error_text bad_request) < 512" by (simp add: http_error_text_def bad_request_def ascii_def)
  ultimately show ?thesis using assms(1) w'(1) by (simp add: http_reply_def act_bind_def)
qed

lemma http_reply_escapes_witness:
  "\<exists>s. http_worker (broken_net 104) (\<lambda>_ c s. (Http_Served, c, s)) (replicate 64 0) 1 (0 :: nat)
    (br_init (replicate 4 0), wr_init (replicate 128 0), (CRLF, [])) = (Escaped (Thrown ''disconnected_error''), s)"
proof -
  let ?h = "\<lparr>hr_offset = 0, hr_buffer = replicate 64 (0 :: u8)\<rparr>"
  have r: "reads (broken_net 104) fst snd (br_init (replicate 4 0), (CRLF, [])) ([] @ CRLF @ [])"
    using broken_net_ok by (simp add: reads_def br_init_ok) (simp add: br_init_def)
  have n: "LF \<notin> set []" "hr_offset ?h + length ([] :: bytes) + 2 \<le> length (hr_buffer ?h)" by simp_all
  obtain h' t' where l: "load_line (broken_net 104) (?h, (br_init (replicate 4 0), (CRLF, []))) = (Inr (Some ([] @ CRLF)), (h', t'))"
    by (rule load_line_spec [OF r n])
  have "match_request_line CRLF = None" by (simp add: match_request_line_def run_def is_upper_def)
  then have "request_parse (broken_net 104) (replicate 64 0) (br_init (replicate 4 0), (CRLF, [])) = (Inl malformed_http, t')"
    using l by (simp add: request_parse_def parse_message_def act_bind_Inr)
  then have p: "request_parse (broken_net 104) (replicate 64 0) (br_init (replicate 4 0), (CRLF, [])) = (Inl malformed_http, (fst t', snd t'))"
    by simp
  have w: "wr_ok (wr_init (replicate 128 0))" "wr_offset (wr_init (replicate 128 0)) = 0"
    "length (http_error_text bad_request) \<le> length (wr_buffer (wr_init (replicate 128 0)))"
    by (simp_all add: wr_ok_def wr_init_def http_error_text_def bad_request_def ascii_def)
  have "net_send (broken_net 104) (http_error_text bad_request) 0 (snd t') = (Inl 104, snd t')" by (simp add: broken_net_def)
  from http_reply_escapes [OF p w this, of "\<lambda>_ c s. (Http_Served, c, s)" 0 0] show ?thesis
    by (simp add: channel_error_def ECONNRESET_def)
qed

end
